(* ===== verification/Bootty_Prelude.thy ===== *)
theory Bootty_Prelude
  imports Main "HOL-Library.Multiset"
begin

text \<open>
  Shared vocabulary of the development: the result type of fallible Rust functions, the
  \<^verbatim>\<open>Vec\<close> operations of the sources (first match, position, update of the first match, insertion
  and removal by index), saturating and checked machine arithmetic, the number formats used in
  identifiers, and the generic lemmas the component theories rewrite with.

  Conventions.  A Rust \<^verbatim>\<open>String\<close> is its list of UTF-8 bytes, so \<^verbatim>\<open>len\<close> is \<^const>\<open>length\<close>.
  A function that returns \<^verbatim>\<open>anyhow::Result\<close> or \<^verbatim>\<open>Result<_, String>\<close> returns a sum whose left
  side is the error message.  A method on \<^verbatim>\<open>&mut self\<close> that can fail returns both the result and
  the state it leaves behind, since Rust keeps the mutations made before the error.
  \<^verbatim>\<open>usize\<close> is 64 bits wide.  The length of a \<^verbatim>\<open>Vec\<close> never exceeds \<^verbatim>\<open>isize::MAX\<close>, so adding one to
  a \<^verbatim>\<open>Vec\<close> index cannot saturate and is written as plain addition.
\<close>

type_synonym 'a res = "string + 'a"

named_theorems lookup_simps "equations of first-match lookup and update"
named_theorems inv_intros "invariant preservation rules of the components"

section \<open>Rust vectors as lists\<close>

text \<open>\<^verbatim>\<open>iter().position(p)\<close>.\<close>

fun find_index :: "('a \<Rightarrow> bool) \<Rightarrow> 'a list \<Rightarrow> nat option" where
  "find_index p [] = None"
| "find_index p (x # xs) = (if p x then Some 0 else map_option Suc (find_index p xs))"

text \<open>\<^verbatim>\<open>iter_mut().find(p)\<close> followed by an assignment through the reference.\<close>

fun update_first :: "('a \<Rightarrow> bool) \<Rightarrow> ('a \<Rightarrow> 'a) \<Rightarrow> 'a list \<Rightarrow> 'a list" where
  "update_first p f [] = []"
| "update_first p f (x # xs) = (if p x then f x # xs else x # update_first p f xs)"

text \<open>\<^verbatim>\<open>Vec::get\<close>.\<close>

definition get_nth :: "'a list \<Rightarrow> nat \<Rightarrow> 'a option" where
  "get_nth xs i = (if i < length xs then Some (xs ! i) else None)"

text \<open>\<^verbatim>\<open>Vec::remove\<close> and \<^verbatim>\<open>Vec::insert\<close>; the call sites keep the index in range.\<close>

definition remove_nth :: "nat \<Rightarrow> 'a list \<Rightarrow> 'a list" where
  "remove_nth i xs = take i xs @ drop (Suc i) xs"

definition insert_nth :: "nat \<Rightarrow> 'a \<Rightarrow> 'a list \<Rightarrow> 'a list" where
  "insert_nth i x xs = take i xs @ x # drop i xs"

text \<open>\<^verbatim>\<open>first()\<close> and \<^verbatim>\<open>last()\<close>.\<close>

definition first_opt :: "'a list \<Rightarrow> 'a option" where
  "first_opt xs = (case xs of [] \<Rightarrow> None | x # _ \<Rightarrow> Some x)"

text \<open>\<^verbatim>\<open>Option::or\<close>, the first of two attempts that has a value.\<close>

definition or_else :: "'a option \<Rightarrow> 'a option \<Rightarrow> 'a option" where
  "or_else x y = (case x of None \<Rightarrow> y | Some v \<Rightarrow> Some v)"

section \<open>Machine arithmetic\<close>

definition sat_add :: "nat \<Rightarrow> nat \<Rightarrow> nat \<Rightarrow> nat" where
  "sat_add w a b = min (a + b) (2 ^ w - 1)"

definition checked_add :: "nat \<Rightarrow> nat \<Rightarrow> nat \<Rightarrow> nat option" where
  "checked_add w a b = (if a + b < 2 ^ w then Some (a + b) else None)"

definition sat_mul :: "nat \<Rightarrow> nat \<Rightarrow> nat \<Rightarrow> nat" where
  "sat_mul w a b = (if a * b < 2 ^ w then a * b else 2 ^ w - 1)"

definition checked_mul :: "nat \<Rightarrow> nat \<Rightarrow> nat \<Rightarrow> nat option" where
  "checked_mul w a b = (if a * b < 2 ^ w then Some (a * b) else None)"

text \<open>\<^verbatim>\<open>u32::try_from(n).unwrap_or(u32::MAX)\<close>.\<close>

definition u32_or_max :: "nat \<Rightarrow> nat" where
  "u32_or_max n = (if n < 2 ^ 32 then n else 2 ^ 32 - 1)"

section \<open>Number formats\<close>

definition digit_char :: "nat \<Rightarrow> char" where
  "digit_char d = char_of (if d < 10 then 48 + d else 87 + d)"

definition digit_value :: "char \<Rightarrow> nat" where
  "digit_value c = (let n = of_char c in if n < 97 then n - 48 else n - 87)"

text \<open>\<^verbatim>\<open>format!("{}", n)\<close> in base 10 and \<^verbatim>\<open>format!("{:x}", n)\<close> in base 16.\<close>

fun digits_base :: "nat \<Rightarrow> nat \<Rightarrow> string" where
  "digits_base b n =
     (if b < 2 \<or> n < b then [digit_char n]
      else digits_base b (n div b) @ [digit_char (n mod b)])"

declare digits_base.simps [simp del]

definition show_nat :: "nat \<Rightarrow> string" where
  "show_nat n = digits_base 10 n"

text \<open>\<^verbatim>\<open>format!("{:0w$x}", n)\<close>.\<close>

definition show_hex :: "nat \<Rightarrow> nat \<Rightarrow> string" where
  "show_hex w n = (let s = digits_base 16 n in replicate (w - length s) (CHR ''0'') @ s)"

definition read_base :: "nat \<Rightarrow> string \<Rightarrow> nat" where
  "read_base b s = foldl (\<lambda>acc c. acc * b + digit_value c) 0 s"

section \<open>Paths\<close>

text \<open>\<^verbatim>\<open>str::split(sep)\<close> on one separator byte.\<close>

fun split_on :: "char \<Rightarrow> string \<Rightarrow> string list" where
  "split_on c [] = [[]]"
| "split_on c (x # xs) =
     (if x = c then [] # split_on c xs
      else (case split_on c xs of [] \<Rightarrow> [[x]] | y # ys \<Rightarrow> (x # y) # ys))"

text \<open>
  \<^verbatim>\<open>Path::file_name\<close> on Unix: the last path component when it is a normal one.  Repeated and
  trailing separators and inner \<^verbatim>\<open>.\<close> components are skipped, as \<^verbatim>\<open>Path::components\<close> does.
\<close>

definition path_file_name :: "string \<Rightarrow> string option" where
  "path_file_name p =
     (let cs = filter (\<lambda>s. s \<noteq> [] \<and> s \<noteq> ''.'') (split_on (CHR ''/'') p)
      in if cs = [] then None
         else if last cs = ''..'' then None
         else Some (last cs))"

section \<open>Lemmas on first-match lookup\<close>

lemma find_index_None [lookup_simps]: "find_index p xs = None \<longleftrightarrow> (\<forall>x \<in> set xs. \<not> p x)"
  by (induction xs) auto

lemma find_index_SomeD:
  "find_index p xs = Some i \<Longrightarrow> i < length xs \<and> p (xs ! i) \<and> (\<forall>j < i. \<not> p (xs ! j))"
proof (induction xs arbitrary: i)
  case (Cons x xs)
  then show ?case by (auto simp: nth_Cons' split: if_splits)
qed simp

lemma find_index_lt: "find_index p xs = Some i \<Longrightarrow> i < length xs"
  by (simp add: find_index_SomeD)

lemma find_index_nth: "find_index p xs = Some i \<Longrightarrow> p (xs ! i)"
  by (simp add: find_index_SomeD)

lemma find_eq_find_index: "find p xs = map_option (\<lambda>i. xs ! i) (find_index p xs)"
  by (induction xs) (auto simp: option.map_comp comp_def)

lemma find_SomeD: "find p xs = Some x \<Longrightarrow> x \<in> set xs \<and> p x"
  by (induction xs) (auto split: if_splits)

lemma find_map: "find P (map f xs) = map_option f (find (\<lambda>x. P (f x)) xs)"
  by (induction xs) auto

lemma find_None_iff': "find p xs = None \<longleftrightarrow> (\<forall>x \<in> set xs. \<not> p x)"
  by (induction xs) auto

lemma length_update_first [simp]: "length (update_first p f xs) = length xs"
  by (induction xs) auto

lemma update_first_none: "(\<forall>x \<in> set xs. \<not> p x) \<Longrightarrow> update_first p f xs = xs"
  by (induction xs) auto

lemma update_first_map:
  "(\<And>x. x \<in> set xs \<Longrightarrow> p x \<Longrightarrow> g (f x) = g x) \<Longrightarrow> map g (update_first p f xs) = map g xs"
  by (induction xs) auto

lemma update_first_split:
  "find p xs = Some x \<Longrightarrow>
   \<exists>ys zs. xs = ys @ x # zs \<and> (\<forall>y \<in> set ys. \<not> p y) \<and> update_first p f xs = ys @ f x # zs"
proof (induction xs)
  case (Cons a xs)
  show ?case
  proof (cases "p a")
    case True
    with Cons.prems show ?thesis by (intro exI [of _ "[]"] exI [of _ xs]) auto
  next
    case False
    with Cons obtain ys zs where "xs = ys @ x # zs" "\<forall>y \<in> set ys. \<not> p y"
      "update_first p f xs = ys @ f x # zs" by auto
    with False show ?thesis by (intro exI [of _ "a # ys"] exI [of _ zs]) auto
  qed
qed simp

lemma update_first_key:
  assumes "distinct (map key xs)"
  shows "update_first (\<lambda>x. key x = k) f xs = map (\<lambda>x. if key x = k then f x else x) xs"
  using assms
proof (induction xs)
  case (Cons x xs)
  show ?case
  proof (cases "key x = k")
    case True
    have "key y \<noteq> k" if "y \<in> set xs" for y
      using that True Cons.prems by (auto simp: image_iff)
    then have "map (\<lambda>x. if key x = k then f x else x) xs = xs" by (simp add: map_idI)
    with True show ?thesis by simp
  next
    case False
    with Cons show ?thesis by simp
  qed
qed simp

lemma set_update_first_subset: "set (update_first p f xs) \<subseteq> set xs \<union> f ` {x \<in> set xs. p x}"
  by (induction xs) auto

lemma find_key_unique:
  assumes "distinct (map key xs)" "x \<in> set xs" "key x = k"
  shows "find (\<lambda>y. key y = k) xs = Some x"
  using assms by (induction xs) (auto simp: image_iff)

section \<open>Lemmas on indexed insertion and removal\<close>

lemma get_nth_Some: "get_nth xs i = Some x \<longleftrightarrow> i < length xs \<and> xs ! i = x"
  by (auto simp: get_nth_def)

lemma mset_remove_nth:
  "i < length xs \<Longrightarrow> add_mset (xs ! i) (mset (remove_nth i xs)) = mset xs"
proof -
  assume "i < length xs"
  then have "xs = take i xs @ xs ! i # drop (Suc i) xs" by (rule id_take_nth_drop)
  then have "mset xs = mset (take i xs @ xs ! i # drop (Suc i) xs)" by (rule arg_cong)
  then show ?thesis by (simp add: remove_nth_def)
qed

lemma mset_insert_nth: "mset (insert_nth i x xs) = add_mset x (mset xs)"
proof -
  have "mset xs = mset (take i xs) + mset (drop i xs)"
    by (metis append_take_drop_id mset_append)
  then show ?thesis by (simp add: insert_nth_def)
qed

lemma set_insert_nth [simp]: "set (insert_nth i x xs) = insert x (set xs)"
  by (metis mset_insert_nth set_mset_add_mset_insert set_mset_mset)

lemma set_remove_nth_subset: "set (remove_nth i xs) \<subseteq> set xs"
  by (auto simp: remove_nth_def dest: in_set_takeD in_set_dropD)

lemma length_insert_nth [simp]: "i \<le> length xs \<Longrightarrow> length (insert_nth i x xs) = Suc (length xs)"
  by (simp add: insert_nth_def)

lemma length_remove_nth [simp]: "i < length xs \<Longrightarrow> length (remove_nth i xs) = length xs - 1"
  by (simp add: remove_nth_def)

lemma map_remove_nth: "map f (remove_nth i xs) = remove_nth i (map f xs)"
  by (simp add: remove_nth_def take_map drop_map)

lemma map_insert_nth: "map f (insert_nth i x xs) = insert_nth i (f x) (map f xs)"
  by (simp add: insert_nth_def take_map drop_map)

lemma distinct_mset_cong: "mset xs = mset ys \<Longrightarrow> distinct xs = distinct ys"
  by (rule mset_eq_imp_distinct_iff)

lemma distinct_remove_nth: "distinct xs \<Longrightarrow> distinct (remove_nth i xs)"
  by (auto simp: remove_nth_def set_take_disj_set_drop_if_distinct)

lemma remove_nth_distinct_set:
  assumes "distinct xs" "i < length xs"
  shows "set (remove_nth i xs) = set xs - {xs ! i}"
proof -
  have "mset (remove_nth i xs) = mset xs - {# xs ! i #}"
    using mset_remove_nth [OF assms(2)] by (metis add_mset_remove_trivial)
  then have "set_mset (mset (remove_nth i xs)) = set_mset (mset xs) - {xs ! i}"
    using assms(1) by (metis mset_remove1 set_mset_mset set_remove1_eq)
  then show ?thesis by simp
qed

lemma mset_permutation_of_subset:
  assumes "distinct xs" "length ys = length xs" "set xs \<subseteq> set ys"
  shows "mset ys = mset xs"
proof -
  have "card (set xs) = length ys" using assms(1,2) distinct_card by metis
  moreover have "card (set ys) \<le> length ys" by (rule card_length)
  ultimately have "set xs = set ys" and "distinct ys"
    using assms(3) by (metis card_subset_eq card_mono finite_set le_antisym,
        metis assms(3) card_distinct card_mono finite_set le_antisym)
  then show ?thesis using assms(1) by (metis set_eq_iff_mset_eq_distinct)
qed

section \<open>Lemmas on number formats\<close>

lemma digit_value_char: "d < 16 \<Longrightarrow> digit_value (digit_char d) = d"
  by (auto simp: digit_value_def digit_char_def Let_def)

lemma digit_char_simps [simp]:
  "digit_char 0 = CHR ''0''" "digit_char (Suc 0) = CHR ''1''" "digit_char 2 = CHR ''2''"
  "digit_char 3 = CHR ''3''" "digit_char 4 = CHR ''4''" "digit_char 5 = CHR ''5''"
  "digit_char 6 = CHR ''6''" "digit_char 7 = CHR ''7''" "digit_char 8 = CHR ''8''"
  "digit_char 9 = CHR ''9''" "digit_char 10 = CHR ''a''" "digit_char 11 = CHR ''b''"
  "digit_char 12 = CHR ''c''" "digit_char 13 = CHR ''d''" "digit_char 14 = CHR ''e''"
  "digit_char 15 = CHR ''f''"
  by code_simp+

lemma read_base_append: "read_base b (s @ [c]) = read_base b s * b + digit_value c"
  by (simp add: read_base_def)

lemma read_digits_base: "2 \<le> b \<Longrightarrow> b \<le> 16 \<Longrightarrow> read_base b (digits_base b n) = n"
proof (induction b n rule: digits_base.induct)
  case (1 b n)
  show ?case
  proof (cases "n < b")
    case True
    with 1 show ?thesis
      by (subst digits_base.simps) (simp add: read_base_def digit_value_char)
  next
    case False
    moreover have "n mod b < 16"
    proof -
      have "n mod b < b" using 1 by simp
      also have "\<dots> \<le> 16" using 1 by simp
      finally show ?thesis .
    qed
    ultimately show ?thesis
      using 1 by (subst digits_base.simps) (simp add: read_base_append digit_value_char)
  qed
qed

lemma show_nat_inject [simp]: "show_nat m = show_nat n \<longleftrightarrow> m = n"
proof
  assume "show_nat m = show_nat n"
  then have "read_base 10 (show_nat m) = read_base 10 (show_nat n)" by (rule arg_cong)
  then show "m = n" by (simp add: show_nat_def read_digits_base)
qed simp

section \<open>Machines with an invariant\<close>

text \<open>
  The contract shared by every stateful component: its operations as one total step function on
  events, an invariant, the events a caller may issue, and the promise that an admissible step
  keeps the invariant.  The conclusion is about whole runs.
\<close>

locale invariant_machine =
  fixes step :: "'e \<Rightarrow> 's \<Rightarrow> 's"
    and inv :: "'s \<Rightarrow> bool"
    and admissible :: "'e \<Rightarrow> bool"
  assumes step_inv: "inv s \<Longrightarrow> admissible e \<Longrightarrow> inv (step e s)"
begin

lemma run_inv: "inv s \<Longrightarrow> list_all admissible es \<Longrightarrow> inv (fold step es s)"
  by (induction es arbitrary: s) (auto intro: step_inv)

end

text \<open>
  A machine whose steps also account for a set of resources: every step's resources are those
  it had plus the ones the event may add.
\<close>

locale accounted_machine = invariant_machine +
  fixes holds :: "'s \<Rightarrow> 'r set"
    and adds :: "'e \<Rightarrow> 'r set"
  assumes step_holds: "inv s \<Longrightarrow> admissible e \<Longrightarrow> holds (step e s) \<subseteq> holds s \<union> adds e"
begin

lemma run_holds:
  "inv s \<Longrightarrow> list_all admissible es \<Longrightarrow> holds (fold step es s) \<subseteq> holds s \<union> \<Union> (adds ` set es)"
proof (induction es arbitrary: s)
  case (Cons e es)
  then have "holds (fold step es (step e s)) \<subseteq> holds (step e s) \<union> \<Union> (adds ` set es)"
    by (simp add: step_inv)
  with step_holds [of s e] Cons.prems show ?case by fastforce
qed simp

end

end
