(* ===== verification/Float32.thy ===== *)
theory Float32
  imports Bootty_Prelude
begin

text \<open>
  The IEEE 754 binary32 arithmetic that Rust's \<^verbatim>\<open>f32\<close> provides, as far as the layout code uses
  it.  Every finite \<^verbatim>\<open>f32\<close> is an integer multiple of the smallest subnormal \<open>2 ^ -149\<close>, so a finite
  value is a sign and a magnitude counted in these units; addition, multiplication, division and
  fused multiply-add compute the exact rational result and round it to nearest, ties to even.
  One NaN stands for all NaN bit patterns.
\<close>

datatype f32 = NaN | Inf bool | Fin bool nat

section \<open>Rounding\<close>

fun bitlen :: "nat \<Rightarrow> nat" where
  "bitlen n = (if n = 0 then 0 else Suc (bitlen (n div 2)))"

declare bitlen.simps [simp del]

text \<open>Nearest integer to \<open>n / d\<close>, ties to even.\<close>

definition round_half_even :: "nat \<Rightarrow> nat \<Rightarrow> nat" where
  "round_half_even n d =
     (let q = n div d; r = n mod d
      in if 2 * r < d then q
         else if d < 2 * r then Suc q
         else if even q then q else Suc q)"

text \<open>Nearest value to \<open>n / d\<close> with at most \<open>p\<close> significant bits.\<close>

definition round_sig :: "nat \<Rightarrow> nat \<Rightarrow> nat \<Rightarrow> nat" where
  "round_sig p n d =
     (let e = bitlen (n div d) - p in round_half_even n (d * 2 ^ e) * 2 ^ e)"

text \<open>The magnitude of the first value past the finite range, \<open>2 ^ 128\<close>, in units.\<close>

definition f32_limit :: nat where "f32_limit = 2 ^ 277"

definition f32_one :: nat where "f32_one = 2 ^ 149"

definition f32_round :: "bool \<Rightarrow> nat \<Rightarrow> nat \<Rightarrow> f32" where
  "f32_round s n d =
     (let m = round_sig 24 n d in if m < f32_limit then Fin s m else Inf s)"

text \<open>A decimal literal \<open>n / d\<close> and the conversion of an integer.\<close>

definition f32_lit :: "bool \<Rightarrow> nat \<Rightarrow> nat \<Rightarrow> f32" where
  "f32_lit s n d = f32_round s (n * f32_one) d"

definition f32_of_nat :: "nat \<Rightarrow> f32" where
  "f32_of_nat n = f32_round False (n * f32_one) 1"

definition f32_half :: f32 where "f32_half = f32_lit False 1 2"

abbreviation f32_zero :: f32 where "f32_zero \<equiv> Fin False 0"

section \<open>Arithmetic\<close>

fun signed :: "bool \<Rightarrow> nat \<Rightarrow> int" where
  "signed s m = (if s then - int m else int m)"

text \<open>Rounds the exact sum \<open>v / d\<close>; an exact zero takes the sign \<open>z\<close>.\<close>

definition f32_of_signed :: "bool \<Rightarrow> int \<Rightarrow> nat \<Rightarrow> f32" where
  "f32_of_signed z v d = (if v = 0 then Fin z 0 else f32_round (v < 0) (nat \<bar>v\<bar>) d)"

fun f32_neg :: "f32 \<Rightarrow> f32" where
  "f32_neg NaN = NaN"
| "f32_neg (Inf s) = Inf (\<not> s)"
| "f32_neg (Fin s m) = Fin (\<not> s) m"

fun f32_add :: "f32 \<Rightarrow> f32 \<Rightarrow> f32" where
  "f32_add NaN _ = NaN"
| "f32_add _ NaN = NaN"
| "f32_add (Inf a) (Inf b) = (if a = b then Inf a else NaN)"
| "f32_add (Inf a) (Fin _ _) = Inf a"
| "f32_add (Fin _ _) (Inf b) = Inf b"
| "f32_add (Fin a m) (Fin b n) = f32_of_signed (a \<and> b) (signed a m + signed b n) 1"

definition f32_sub :: "f32 \<Rightarrow> f32 \<Rightarrow> f32" where
  "f32_sub a b = f32_add a (f32_neg b)"

fun f32_mul :: "f32 \<Rightarrow> f32 \<Rightarrow> f32" where
  "f32_mul NaN _ = NaN"
| "f32_mul _ NaN = NaN"
| "f32_mul (Inf a) (Inf b) = Inf (a \<noteq> b)"
| "f32_mul (Inf a) (Fin b n) = (if n = 0 then NaN else Inf (a \<noteq> b))"
| "f32_mul (Fin a m) (Inf b) = (if m = 0 then NaN else Inf (a \<noteq> b))"
| "f32_mul (Fin a m) (Fin b n) = f32_round (a \<noteq> b) (m * n) f32_one"

fun f32_div :: "f32 \<Rightarrow> f32 \<Rightarrow> f32" where
  "f32_div NaN _ = NaN"
| "f32_div _ NaN = NaN"
| "f32_div (Inf a) (Inf b) = NaN"
| "f32_div (Inf a) (Fin b n) = Inf (a \<noteq> b)"
| "f32_div (Fin a m) (Inf b) = Fin (a \<noteq> b) 0"
| "f32_div (Fin a m) (Fin b n) =
     (if n = 0 then (if m = 0 then NaN else Inf (a \<noteq> b))
      else f32_round (a \<noteq> b) (m * f32_one) n)"

text \<open>\<^verbatim>\<open>a.mul_add(b, c)\<close>: \<open>a * b + c\<close> with one rounding.\<close>

definition f32_mul_add :: "f32 \<Rightarrow> f32 \<Rightarrow> f32 \<Rightarrow> f32" where
  "f32_mul_add a b c =
     (case (a, b, c) of
        (Fin sa ma, Fin sb mb, Fin sc mc) \<Rightarrow>
          f32_of_signed ((sa \<noteq> sb) \<and> sc)
            (signed (sa \<noteq> sb) (ma * mb) + signed sc (mc * f32_one)) f32_one
      | (Fin _ _, Fin _ _, _) \<Rightarrow> c
      | _ \<Rightarrow> f32_add (f32_mul a b) c)"

text \<open>
  \<^verbatim>\<open>f32::midpoint\<close>: the average computed in \<^verbatim>\<open>f64\<close> (53 significant bits, no overflow or
  underflow for \<^verbatim>\<open>f32\<close> operands) and converted back.
\<close>

fun f32_midpoint :: "f32 \<Rightarrow> f32 \<Rightarrow> f32" where
  "f32_midpoint (Fin a m) (Fin b n) =
     (let v = signed a m + signed b n
      in if v = 0 then Fin (a \<and> b) 0
         else f32_round (v < 0) (round_sig 53 (nat \<bar>v\<bar>) 1) 2)"
| "f32_midpoint a b = f32_add a b"

section \<open>Comparison\<close>

definition is_finite :: "f32 \<Rightarrow> bool" where
  "is_finite x = (case x of Fin _ _ \<Rightarrow> True | _ \<Rightarrow> False)"

fun f32_key :: "f32 \<Rightarrow> int" where
  "f32_key NaN = 0"
| "f32_key (Inf s) = signed s f32_limit"
| "f32_key (Fin s m) = signed s m"

definition f32_lt :: "f32 \<Rightarrow> f32 \<Rightarrow> bool" where
  "f32_lt a b = (a \<noteq> NaN \<and> b \<noteq> NaN \<and> f32_key a < f32_key b)"

definition f32_le :: "f32 \<Rightarrow> f32 \<Rightarrow> bool" where
  "f32_le a b = (a \<noteq> NaN \<and> b \<noteq> NaN \<and> f32_key a \<le> f32_key b)"

definition f32_max :: "f32 \<Rightarrow> f32 \<Rightarrow> f32" where
  "f32_max a b = (if a = NaN then b else if b = NaN then a else if f32_lt a b then b else a)"

definition f32_min :: "f32 \<Rightarrow> f32 \<Rightarrow> f32" where
  "f32_min a b = (if a = NaN then b else if b = NaN then a else if f32_lt b a then b else a)"

text \<open>
  The position of a value in \<^verbatim>\<open>f32::total_cmp\<close>'s order, which puts \<open>-0\<close> below \<open>+0\<close>; NaN is
  placed as a positive NaN.
\<close>

fun total_key :: "f32 \<Rightarrow> int" where
  "total_key NaN = int f32_limit + 1"
| "total_key (Inf s) = (if s then - int f32_limit - 1 else int f32_limit)"
| "total_key (Fin s m) = (if s then - int m - 1 else int m)"

text \<open>\<^verbatim>\<open>iter().sum::<f32>()\<close>.\<close>

definition f32_sum :: "f32 list \<Rightarrow> f32" where
  "f32_sum ws = foldl f32_add f32_zero ws"

text \<open>The bit patterns that exist: a magnitude has at most 24 significant bits.\<close>

definition representable :: "nat \<Rightarrow> bool" where
  "representable m \<longleftrightarrow> m < f32_limit \<and> round_sig 24 m 1 = m"

definition f32_valid :: "f32 \<Rightarrow> bool" where
  "f32_valid x = (case x of Fin _ m \<Rightarrow> representable m | _ \<Rightarrow> True)"

text \<open>A positive finite value and a value in the half-open unit interval \<open>(0, 1]\<close>.\<close>

definition f32_pos :: "f32 \<Rightarrow> bool" where
  "f32_pos x \<longleftrightarrow> (is_finite x \<and> \<not> f32_le x f32_zero)"

definition unit_weight :: "f32 \<Rightarrow> bool" where
  "unit_weight x \<longleftrightarrow> (\<exists>m. x = Fin False m \<and> 0 < m \<and> m \<le> f32_one \<and> representable m)"

section \<open>Rounding is monotone and exact on representable values\<close>

lemma bitlen_0 [simp]: "bitlen 0 = 0"
  by (simp add: bitlen.simps)

lemma bitlen_gt_0: "0 < n \<Longrightarrow> bitlen n = Suc (bitlen (n div 2))"
  by (simp add: bitlen.simps)

lemma less_pow_bitlen: "n < 2 ^ bitlen n"
proof (induction n rule: bitlen.induct)
  case (1 n)
  then show ?case by (cases "n = 0") (auto simp: bitlen_gt_0)
qed

lemma pow_bitlen_le: "0 < n \<Longrightarrow> 2 ^ (bitlen n - 1) \<le> n"
proof (induction n rule: bitlen.induct)
  case (1 n)
  show ?case
  proof (cases "n div 2 = 0")
    case True
    with "1.prems" show ?thesis by (simp add: bitlen_gt_0)
  next
    case False
    with 1 have "2 ^ (bitlen (n div 2) - 1) \<le> n div 2" by simp
    moreover obtain k where "bitlen (n div 2) = Suc k" using False by (simp add: bitlen_gt_0)
    ultimately show ?thesis using "1.prems" by (simp add: bitlen_gt_0)
  qed
qed

lemma bitlen_le_iff: "bitlen n \<le> k \<longleftrightarrow> n < 2 ^ k"
proof
  assume "bitlen n \<le> k"
  then have "(2::nat) ^ bitlen n \<le> 2 ^ k" by simp
  with less_pow_bitlen [of n] show "n < 2 ^ k" by (rule less_le_trans)
next
  assume less: "n < 2 ^ k"
  show "bitlen n \<le> k"
  proof (rule ccontr)
    assume "\<not> bitlen n \<le> k"
    then have "k \<le> bitlen n - 1" and "0 < n" by (auto intro: gr0I)
    then have "(2::nat) ^ k \<le> 2 ^ (bitlen n - 1)" by simp
    with pow_bitlen_le [OF \<open>0 < n\<close>] less show False by linarith
  qed
qed

lemma bitlen_mono: "m \<le> n \<Longrightarrow> bitlen m \<le> bitlen n"
  using bitlen_le_iff less_pow_bitlen by (metis le_less_trans)

lemma round_half_even_bounds: "round_half_even n d = n div d \<or> round_half_even n d = Suc (n div d)"
  by (auto simp: round_half_even_def Let_def)

lemma round_half_even_exact: "0 < d \<Longrightarrow> round_half_even (q * d) d = q"
  by (simp add: round_half_even_def)

lemma round_half_even_mono:
  assumes "m \<le> n" "0 < d"
  shows "round_half_even m d \<le> round_half_even n d"
proof -
  have div: "m div d \<le> n div d" using assms by (simp add: div_le_mono)
  show ?thesis
  proof (cases "m div d = n div d")
    case True
    have "m mod d \<le> n mod d"
      using assms True by (metis add_le_cancel_left div_mult_mod_eq)
    with True show ?thesis by (auto simp: round_half_even_def Let_def)
  next
    case False
    with div have "Suc (m div d) \<le> n div d" by simp
    with round_half_even_bounds [of m d] round_half_even_bounds [of n d] show ?thesis by linarith
  qed
qed

lemma round_half_even_le_pow: "0 < d \<Longrightarrow> n \<le> q * d \<Longrightarrow> round_half_even n d \<le> q"
  using round_half_even_mono [of n "q * d" d] by (simp add: round_half_even_exact)

lemma round_half_even_ge_pow: "0 < d \<Longrightarrow> q * d \<le> n \<Longrightarrow> q \<le> round_half_even n d"
  using round_half_even_mono [of "q * d" n d] by (simp add: round_half_even_exact)

lemma round_sig_upper:
  assumes "0 < d" "bitlen (n div d) - p = e"
  shows "round_sig p n d \<le> 2 ^ (p + e)"
proof -
  have "bitlen (n div d) \<le> p + e" using assms(2) by simp
  then have "n div d < 2 ^ (p + e)" by (simp add: bitlen_le_iff)
  then have "n < 2 ^ (p + e) * d" using assms(1) by (simp add: div_less_iff_less_mult)
  then have "n \<le> 2 ^ p * (d * 2 ^ e)" by (simp add: power_add ac_simps)
  then have "round_half_even n (d * 2 ^ e) \<le> 2 ^ p"
    using assms(1) by (intro round_half_even_le_pow) auto
  then show ?thesis using assms(2) by (simp add: round_sig_def power_add)
qed

lemma round_sig_lower:
  assumes "0 < d" "bitlen (n div d) - p = Suc e" "0 < p"
  shows "2 ^ (p + e) \<le> round_sig p n d"
proof -
  have bl: "bitlen (n div d) = p + Suc e" using assms(2) by simp
  then have "0 < n div d" using assms(3) by (metis add_gr_0 bitlen_0 gr0I less_irrefl)
  from pow_bitlen_le [OF this] bl have "2 ^ (p + e) \<le> n div d" by simp
  then have "2 ^ (p + e) * d \<le> n div d * d" by simp
  also have "\<dots> \<le> n" by simp
  finally have "2 ^ (p - 1) * (d * 2 ^ Suc e) \<le> n"
    using assms(3) by (cases p) (simp_all add: power_add ac_simps)
  then have "2 ^ (p - 1) \<le> round_half_even n (d * 2 ^ Suc e)"
    using assms(1) by (intro round_half_even_ge_pow) auto
  then have "2 ^ (p - 1) * 2 ^ Suc e \<le> round_sig p n d"
    using assms(2) by (simp add: round_sig_def)
  then show ?thesis using assms(3) by (cases p) (simp_all add: power_add ac_simps)
qed

lemma round_sig_mono:
  assumes "m \<le> n" "0 < d" "0 < p"
  shows "round_sig p m d \<le> round_sig p n d"
proof -
  let ?e = "bitlen (m div d) - p" and ?f = "bitlen (n div d) - p"
  have ef: "?e \<le> ?f" using assms by (simp add: bitlen_mono div_le_mono diff_le_mono)
  show ?thesis
  proof (cases "?e = ?f")
    case True
    have "round_half_even m (d * 2 ^ ?e) \<le> round_half_even n (d * 2 ^ ?e)"
      using assms by (intro round_half_even_mono) auto
    with True show ?thesis by (simp add: round_sig_def Let_def)
  next
    case False
    with ef obtain f where f: "?f = Suc f" "?e \<le> f"
      by (metis Suc_le_D Suc_leI le_neq_implies_less not_less_eq_eq)
    have "round_sig p m d \<le> 2 ^ (p + ?e)" using assms(2) by (intro round_sig_upper) auto
    also have "\<dots> \<le> 2 ^ (p + f)" using f(2) by simp
    also have "\<dots> \<le> round_sig p n d" using assms f(1) by (intro round_sig_lower) auto
    finally show ?thesis .
  qed
qed

lemma round_half_even_scale:
  "0 < k \<Longrightarrow> round_half_even (n * k) (d * k) = round_half_even n d"
proof -
  assume k: "0 < k"
  have a: "(n * k) div (d * k) = n div d" using k by simp
  have b: "(n * k) mod (d * k) = (n mod d) * k" by (rule mult_mod_left [symmetric])
  have c: "(2 * (n mod d * k) < d * k) = (2 * (n mod d) < d)"
    using mult_less_cancel2 [of "2 * (n mod d)" k d] k by (simp only: mult.assoc simp_thms)
  have d: "(d * k < 2 * (n mod d * k)) = (d < 2 * (n mod d))"
    using mult_less_cancel2 [of d k "2 * (n mod d)"] k by (simp only: mult.assoc simp_thms)
  show ?thesis by (simp only: round_half_even_def Let_def a b c d)
qed

lemma round_sig_scale: "0 < k \<Longrightarrow> round_sig p (n * k) (d * k) = round_sig p n d"
proof -
  assume k: "0 < k"
  have "round_half_even (n * k) (d * k * 2 ^ e) = round_half_even n (d * 2 ^ e)" for e
    using round_half_even_scale [OF k, of n "d * 2 ^ e"] by (simp add: ac_simps)
  with k show ?thesis by (simp add: round_sig_def Let_def)
qed

lemma round_sig_representable: "0 < k \<Longrightarrow> representable m \<Longrightarrow> round_sig 24 (m * k) k = m"
  using round_sig_scale [of k 24 m 1] by (simp add: representable_def)

lemma round_sig_0 [simp]: "round_sig p 0 d = 0"
  by (simp add: round_sig_def round_half_even_def Let_def)

text \<open>Rounding lands on a representable magnitude.\<close>

lemma round_sig_exact:
  assumes "q \<le> 2 ^ p" "0 < p"
  shows "round_sig p (q * 2 ^ e) 1 = q * 2 ^ e"
proof (cases "q = 2 ^ p")
  case True
  have "bitlen (2 ^ (p + e)) = Suc (p + e)"
  proof (rule antisym)
    show "bitlen (2 ^ (p + e)) \<le> Suc (p + e)" by (simp add: bitlen_le_iff)
    show "Suc (p + e) \<le> bitlen (2 ^ (p + e))"
      by (metis bitlen_le_iff less_irrefl not_less_eq_eq)
  qed
  then have "bitlen (q * 2 ^ e) - p = Suc e" using True by (simp add: power_add)
  moreover have "q * 2 ^ e = 2 ^ (p - 1) * 2 ^ Suc e"
    using True assms(2) by (cases p) (simp_all add: ac_simps)
  moreover have "round_half_even (2 ^ (p - 1) * 2 ^ Suc e) (2 ^ Suc e) = 2 ^ (p - 1)"
    by (rule round_half_even_exact) simp
  ultimately show ?thesis by (simp only: round_sig_def Let_def div_by_1 mult_1)
next
  case False
  with assms have "q < 2 ^ p" by simp
  then have "q * 2 ^ e < 2 ^ (p + e)" by (simp add: power_add)
  then have "bitlen (q * 2 ^ e) \<le> p + e" by (simp add: bitlen_le_iff)
  then obtain f where f: "bitlen (q * 2 ^ e) - p = f" "f \<le> e" by simp
  then have "q * 2 ^ e = (q * 2 ^ (e - f)) * 2 ^ f" by (simp add: power_add [symmetric])
  moreover have "round_half_even ((q * 2 ^ (e - f)) * 2 ^ f) (2 ^ f) = q * 2 ^ (e - f)"
    by (rule round_half_even_exact) simp
  ultimately show ?thesis using f(1) by (simp only: round_sig_def Let_def div_by_1 mult_1)
qed

lemma round_sig_idem:
  assumes "0 < d" "0 < p"
  shows "round_sig p (round_sig p n d) (Suc 0) = round_sig p n d"
proof -
  let ?e = "bitlen (n div d) - p"
  have "round_sig p n d \<le> 2 ^ (p + ?e)" using assms(1) by (intro round_sig_upper) auto
  then have "round_half_even n (d * 2 ^ ?e) * 2 ^ ?e \<le> 2 ^ p * 2 ^ ?e"
    by (simp add: round_sig_def Let_def power_add)
  then have "round_half_even n (d * 2 ^ ?e) \<le> 2 ^ p" by simp
  from round_sig_exact [OF this assms(2)] show ?thesis by (simp add: round_sig_def Let_def)
qed

lemma representable_one: "representable f32_one"
proof -
  have "round_sig 24 (1 * 2 ^ 149) 1 = 1 * 2 ^ 149" by (rule round_sig_exact) simp_all
  then show ?thesis
    by (simp add: representable_def f32_one_def f32_limit_def del: power_numeral)
qed

lemma representable_0 [simp]: "representable 0"
  by (simp add: representable_def f32_limit_def)

lemma f32_round_valid: "0 < d \<Longrightarrow> f32_valid (f32_round s n d)"
  by (auto simp: f32_valid_def f32_round_def Let_def representable_def round_sig_idem)

lemma representable_pow: "q \<le> 2 ^ 24 \<Longrightarrow> q * 2 ^ e < f32_limit \<Longrightarrow> representable (q * 2 ^ e)"
  using round_sig_exact [of q 24 e] by (simp add: representable_def)

lemma f32_half_eq: "f32_half = Fin False (2 ^ 148)"
proof -
  have r: "representable (1 * 2 ^ 148)" by (rule representable_pow) (simp_all add: f32_limit_def)
  have "round_sig 24 (1 * f32_one) 2 = 2 ^ 148"
    using round_sig_representable [of 2, OF _ r] by (simp add: f32_one_def)
  then show ?thesis by (simp add: f32_half_def f32_lit_def f32_round_def f32_limit_def)
qed

lemma f32_add_half: "f32_add f32_half f32_half = Fin False f32_one"
proof -
  have "round_sig 24 f32_one 1 = f32_one" using representable_one by (simp add: representable_def)
  moreover have "(2::nat) ^ 148 + 2 ^ 148 = f32_one" by (simp add: f32_one_def)
  ultimately show ?thesis
    by (simp add: f32_half_eq f32_of_signed_def f32_round_def f32_limit_def f32_one_def
        nat_add_distrib)
qed

lemma f32_div_one:
  assumes "representable m"
  shows "f32_div (Fin s m) (Fin False f32_one) = Fin s m"
  using assms round_sig_representable [of f32_one m]
  by (simp add: f32_round_def f32_one_def representable_def)

lemma f32_mul_one:
  assumes "representable m"
  shows "f32_mul (Fin s m) (Fin False f32_one) = Fin s m"
  using assms round_sig_representable [of f32_one m]
  by (simp add: f32_round_def f32_one_def representable_def)

section \<open>Weights\<close>

lemma f32_pos_iff: "f32_pos x \<longleftrightarrow> (\<exists>m. x = Fin False m \<and> 0 < m)"
  by (cases x) (auto simp: f32_pos_def is_finite_def f32_le_def)

lemma unit_weight_pos: "unit_weight x \<Longrightarrow> f32_pos x"
  by (auto simp: unit_weight_def f32_pos_iff)

lemma unit_weight_valid: "unit_weight x \<Longrightarrow> f32_valid x"
  by (auto simp: unit_weight_def f32_valid_def)

lemma f32_add_nonneg:
  "f32_add (Fin False m) (Fin False n) = f32_round False (m + n) 1"
proof (cases "m + n = 0")
  case True
  then show ?thesis by (simp add: f32_of_signed_def f32_round_def f32_limit_def)
next
  case False
  then have "int m + int n \<noteq> 0" by linarith
  then show ?thesis by (simp add: f32_of_signed_def nat_add_distrib)
qed

text \<open>The sum of non-negative values is at least each of them, in spite of rounding.\<close>

lemma f32_sum_ge:
  assumes "\<forall>w \<in> set ws. \<exists>m. w = Fin False m \<and> representable m"
    and "representable a"
    and "foldl f32_add (Fin False a) ws = Fin s t"
  shows "\<not> s \<and> a \<le> t \<and> representable t \<and> (\<forall>w \<in> set ws. \<exists>m. w = Fin False m \<and> m \<le> t)"
  using assms
proof (induction ws arbitrary: a)
  case Nil
  then show ?case by simp
next
  case (Cons w ws)
  obtain m where m: "w = Fin False m" "representable m" using Cons.prems(1) by auto
  let ?b = "round_sig 24 (a + m) 1"
  have notInf: "foldl f32_add (Inf u) vs \<noteq> Fin s t" if "\<forall>w \<in> set vs. \<exists>m. w = Fin False m" for u vs
    using that by (induction vs) auto
  have "?b < f32_limit"
  proof (rule ccontr)
    assume "\<not> ?b < f32_limit"
    then have "f32_add (Fin False a) w = Inf False"
      using m by (simp add: f32_add_nonneg f32_round_def del: f32_add.simps)
    with Cons.prems(1,3) notInf [of ws False] show False
      by (fastforce simp del: f32_add.simps)
  qed
  then have step: "f32_add (Fin False a) w = Fin False ?b"
    using m by (simp add: f32_add_nonneg f32_round_def del: f32_add.simps)
  have rb: "representable ?b"
    using \<open>?b < f32_limit\<close> by (simp add: representable_def round_sig_idem)
  have "round_sig 24 a 1 \<le> ?b" "round_sig 24 m 1 \<le> ?b"
    by (rule round_sig_mono; simp)+
  then have le: "a \<le> ?b" "m \<le> ?b"
    using Cons.prems(2) m(2) by (simp_all add: representable_def)
  have "foldl f32_add (Fin False ?b) ws = Fin s t"
    using Cons.prems(3) step by (simp del: f32_add.simps)
  with Cons.IH [OF _ rb] Cons.prems(1)
  have IH: "\<not> s \<and> ?b \<le> t \<and> representable t \<and> (\<forall>w \<in> set ws. \<exists>m. w = Fin False m \<and> m \<le> t)"
    by simp
  with le m(1) show ?case by fastforce
qed

text \<open>Dividing a weight by a total it does not exceed gives at most one, or underflows to zero.\<close>

lemma f32_div_unit:
  assumes "m \<le> t" "0 < t"
  shows "\<exists>q. f32_div (Fin False m) (Fin False t) = Fin False q \<and> q \<le> f32_one \<and> representable q"
proof -
  let ?q = "round_sig 24 (m * f32_one) t"
  have "?q \<le> round_sig 24 (t * f32_one) t"
    using assms by (intro round_sig_mono) auto
  also have "\<dots> = f32_one"
    using round_sig_representable [OF assms(2) representable_one] by (simp add: mult.commute)
  finally have le: "?q \<le> f32_one" .
  also have "f32_one < f32_limit" by (simp add: f32_one_def f32_limit_def)
  finally have "f32_div (Fin False m) (Fin False t) = Fin False ?q"
    using assms by (simp add: f32_round_def)
  moreover have "representable ?q"
    using le assms(2) \<open>f32_one < f32_limit\<close> by (simp add: representable_def round_sig_idem)
  ultimately show ?thesis using le by blast
qed

text \<open>A product of two numbers of the unit interval stays in it, or underflows to zero.\<close>

lemma f32_mul_unit:
  assumes "m \<le> f32_one" "n \<le> f32_one"
  shows "\<exists>q. f32_mul (Fin False m) (Fin False n) = Fin False q \<and> q \<le> f32_one \<and> representable q"
proof -
  have pos: "0 < f32_one" by (simp add: f32_one_def)
  let ?q = "round_sig 24 (m * n) f32_one"
  have "?q \<le> round_sig 24 (f32_one * f32_one) f32_one"
    using assms pos by (intro round_sig_mono) (auto intro: mult_le_mono)
  also have "\<dots> = f32_one" using round_sig_representable [OF pos representable_one] .
  finally have le: "?q \<le> f32_one" .
  also have lim: "f32_one < f32_limit" by (simp add: f32_one_def f32_limit_def)
  finally have "f32_mul (Fin False m) (Fin False n) = Fin False ?q" by (simp add: f32_round_def)
  moreover have "representable ?q"
    using le lim pos by (simp add: representable_def round_sig_idem)
  ultimately show ?thesis using le by blast
qed

end
