(* ===== verification/Mux_Snapshot.thy ===== *)
theory Mux_Snapshot
  imports Float32
begin

text \<open>
  \<^verbatim>\<open>crates/bootty-mux/src/snapshot.rs\<close>: the wire data of the multiplexer (sessions, windows,
  pane anchors, the split tree), the selection rule after a refresh, and the index arithmetic used
  to step and move through windows and panes.
\<close>

datatype mux_pane_split_direction = SplitRight | SplitDown

datatype mux_pane_layout =
    Pane string
  | Split mux_pane_split_direction "f32 list" "mux_pane_layout list"

record mux_session_tag =
  tag_identity :: "string option"
  tag_space :: "string option"

definition tag_is_empty :: "mux_session_tag \<Rightarrow> bool" where
  "tag_is_empty t = (tag_identity t = None \<and> tag_space t = None)"

record mux_pane_anchor =
  an_session_id :: string
  an_pane_id :: "string option"
  an_pane_pid :: "nat option"
  an_cwd :: "string option"
  an_process :: "string option"

record mux_window =
  mw_id :: string
  mw_index :: nat
  mw_name :: string
  mw_active :: bool
  mw_anchor :: mux_pane_anchor
  mw_panes :: "mux_pane_anchor list"
  mw_layout :: "mux_pane_layout option"

record mux_session =
  ms_id :: string
  ms_name :: string
  ms_active :: bool
  ms_anchor :: mux_pane_anchor
  ms_active_window_id :: "string option"
  ms_windows :: "mux_window list"
  ms_tag :: mux_session_tag

record mux_snapshot =
  sn_sessions :: "mux_session list"
  sn_active_session_id :: "string option"

definition session_matches :: "mux_session \<Rightarrow> string \<Rightarrow> bool" where
  "session_matches s sid = (ms_id s = sid \<or> ms_name s = sid)"

definition selection_after_refresh :: "string option \<Rightarrow> mux_session list \<Rightarrow> string option" where
  "selection_after_refresh current sessions =
     (case (case current of
              None \<Rightarrow> None
            | Some c \<Rightarrow> map_option ms_id (find (\<lambda>s. session_matches s c) sessions)) of
        Some i \<Rightarrow> Some i
      | None \<Rightarrow>
          map_option ms_id
            (case find ms_active sessions of
               Some s \<Rightarrow> Some s
             | None \<Rightarrow> first_opt sessions))"

text \<open>
  \<^verbatim>\<open>wrap_index\<close> works in \<^verbatim>\<open>i128\<close>, which holds every sum of a \<^verbatim>\<open>usize\<close> and an \<^verbatim>\<open>i32\<close>;
  \<^verbatim>\<open>checked_rem_euclid\<close> fails only on a zero length.
\<close>

definition wrap_index :: "nat \<Rightarrow> int \<Rightarrow> nat \<Rightarrow> nat option" where
  "wrap_index index delta len =
     (if len = 0 then None else Some (nat ((int index + delta) mod int len)))"

definition clamp_move_index :: "nat \<Rightarrow> int \<Rightarrow> nat \<Rightarrow> nat" where
  "clamp_move_index index delta len =
     (let magnitude = nat \<bar>delta\<bar>
      in min (if delta < 0 then index - magnitude else sat_add 64 index magnitude) (len - 1))"

section \<open>Facts\<close>

lemma wrap_index_bound: "wrap_index i d n = Some j \<Longrightarrow> j < n"
  by (auto simp: wrap_index_def nat_less_iff split: if_splits)

lemma wrap_index_inverse:
  assumes "i < n"
  shows "\<exists>j. wrap_index i d n = Some j \<and> wrap_index j (- d) n = Some i"
proof -
  have n: "0 < n" using assms by simp
  let ?j = "nat ((int i + d) mod int n)"
  have "int ?j = (int i + d) mod int n" using n by simp
  then have "(int ?j + - d) mod int n = int i mod int n" by (simp add: mod_diff_left_eq)
  with assms have "wrap_index ?j (- d) n = Some i" using n by (simp add: wrap_index_def)
  then show ?thesis using n by (simp add: wrap_index_def)
qed

lemma clamp_move_index_bound: "0 < len \<Longrightarrow> clamp_move_index i d len < len"
  by (auto simp: clamp_move_index_def Let_def)

lemma selection_after_refresh_member:
  "selection_after_refresh c ss = Some i \<Longrightarrow> i \<in> ms_id ` set ss"
  by (auto simp: selection_after_refresh_def first_opt_def split: option.splits list.splits
      dest!: find_SomeD)

lemma selection_after_refresh_total:
  "ss \<noteq> [] \<Longrightarrow> selection_after_refresh c ss \<noteq> None"
  by (auto simp: selection_after_refresh_def first_opt_def split: option.splits list.splits)

section \<open>Properties\<close>

text \<open>
  After a refresh the selection is a session that exists, there is one whenever there is a
  session, and a selected session that is still there stays selected.
\<close>

lemma selection_after_refresh_correct:
  assumes "ss \<noteq> []"
  shows "\<exists>s \<in> set ss. selection_after_refresh c ss = Some (ms_id s)
    \<and> (\<forall>i. c = Some i \<and> (\<exists>x \<in> set ss. session_matches x i) \<longrightarrow> session_matches s i)"
proof -
  obtain i where i: "selection_after_refresh c ss = Some i"
    using selection_after_refresh_total [OF assms] by blast
  show ?thesis
  proof (cases "\<exists>j x. c = Some j \<and> find (\<lambda>s. session_matches s j) ss = Some x")
    case True
    then obtain j x where x: "c = Some j" "find (\<lambda>s. session_matches s j) ss = Some x" by blast
    then show ?thesis using find_SomeD [OF x(2)] by (auto simp: selection_after_refresh_def)
  next
    case False
    then have "\<not> (\<exists>x \<in> set ss. session_matches x j)" if "c = Some j" for j
      using that find_None_iff' [of "\<lambda>s. session_matches s j" ss] by auto
    with selection_after_refresh_member [OF i] i show ?thesis by auto
  qed
qed

definition sample_session :: mux_session where
  "sample_session =
     \<lparr>ms_id = ''s'', ms_name = ''main'', ms_active = False,
      ms_anchor = \<lparr>an_session_id = ''s'', an_pane_id = None, an_pane_pid = None, an_cwd = None, an_process = None\<rparr>,
      ms_active_window_id = None, ms_windows = [], ms_tag = \<lparr>tag_identity = None, tag_space = None\<rparr>\<rparr>"

end
