(* ===== verification/Surface_Geometry.thy ===== *)
theory Surface_Geometry
  imports Float32
begin

text \<open>
  The rectangle type of \<^verbatim>\<open>crates/bootty-terminal/src/geometry.rs\<close> that the pane layout computes
  its navigation geometry with.
\<close>

record surface_point =
  pt_x :: f32
  pt_y :: f32

record surface_rect =
  min_x :: f32
  min_y :: f32
  max_x :: f32
  max_y :: f32

definition from_min_size :: "f32 \<Rightarrow> f32 \<Rightarrow> f32 \<Rightarrow> f32 \<Rightarrow> surface_rect" where
  "from_min_size x y w h =
     \<lparr>min_x = x, min_y = y, max_x = f32_add x w, max_y = f32_add y h\<rparr>"

definition rect_width :: "surface_rect \<Rightarrow> f32" where
  "rect_width r = f32_sub (max_x r) (min_x r)"

definition rect_height :: "surface_rect \<Rightarrow> f32" where
  "rect_height r = f32_sub (max_y r) (min_y r)"

definition rect_contains :: "surface_rect \<Rightarrow> surface_point \<Rightarrow> bool" where
  "rect_contains r p =
     (f32_le (min_x r) (pt_x p) \<and> f32_le (pt_x p) (max_x r)
      \<and> f32_le (min_y r) (pt_y p) \<and> f32_le (pt_y p) (max_y r))"

end
