(* ===== verification/Pane_Layout.thy ===== *)
theory Pane_Layout
  imports Mux_Snapshot Surface_Geometry
begin

text \<open>
  \<^verbatim>\<open>crates/bootty-mux/src/pane_layout.rs\<close>: the server-owned split tree of a window.  The tree
  operations are defined on \<^typ>\<open>mux_pane_layout\<close>; \<^verbatim>\<open>PaneLayout\<close> pairs a tree with its focused
  pane.  A method that returns a \<^verbatim>\<open>bool\<close> and may change the layout returns both.
\<close>

datatype split_direction = SdRight | SdDown

datatype direction = DirLeft | DirRight | DirUp | DirDown

record pane_layout =
  pl_root :: mux_pane_layout
  pl_focused :: string

section \<open>Tree operations\<close>

text \<open>\<^verbatim>\<open>panes\<close>: the leaves in depth-first order.\<close>

fun leaves :: "mux_pane_layout \<Rightarrow> string list" where
  "leaves (Pane i) = [i]"
| "leaves (Split d ws cs) = concat (map leaves cs)"

definition bad_weight :: "f32 \<Rightarrow> bool" where
  "bad_weight w = (\<not> is_finite w \<or> f32_le w f32_zero)"

text \<open>One step of the splice loop of \<^verbatim>\<open>normalize\<close>: child \<open>n\<close> with its share \<open>w\<close> of the split.\<close>

definition splice_child ::
  "mux_pane_split_direction \<Rightarrow> f32 \<Rightarrow> mux_pane_layout \<Rightarrow>
   mux_pane_layout list \<times> f32 list \<Rightarrow> mux_pane_layout list \<times> f32 list" where
  "splice_child d w n acc =
     (case acc of (fc, fw) \<Rightarrow>
        (case n of
           Split inner iw ic \<Rightarrow>
             if inner = d then (ic @ fc, map (f32_mul w) iw @ fw) else (n # fc, w # fw)
         | Pane _ \<Rightarrow> (n # fc, w # fw)))"

fun normalize :: "mux_pane_layout \<Rightarrow> mux_pane_layout option"
and splice :: "mux_pane_split_direction \<Rightarrow> f32 \<Rightarrow> mux_pane_layout list \<Rightarrow> f32 list \<Rightarrow>
     (mux_pane_layout list \<times> f32 list) option" where
  "normalize (Pane i) = Some (Pane i)"
| "normalize (Split d ws cs) =
     (if cs = [] \<or> length cs \<noteq> length ws \<or> list_ex bad_weight ws then None
      else if \<not> is_finite (f32_sum ws) then None
      else (case splice d (f32_sum ws) cs ws of
              None \<Rightarrow> None
            | Some (fc, fw) \<Rightarrow>
                if length fc = 1 then Some (last fc)
                else if list_ex (\<lambda>w. f32_le w f32_zero) fw then None
                else Some (Split d fw fc)))"
| "splice d tot (c # cs) (w # ws) =
     (case normalize c of
        None \<Rightarrow> None
      | Some n \<Rightarrow> map_option (splice_child d (f32_div w tot) n) (splice d tot cs ws))"
| "splice d tot [] ws = Some ([], [])"
| "splice d tot (c # cs) [] = Some ([], [])"

fun first_leaf :: "mux_pane_layout \<Rightarrow> string option" where
  "first_leaf (Pane i) = Some i"
| "first_leaf (Split d ws []) = None"
| "first_leaf (Split d ws (c # cs)) = first_leaf c"

fun contains_leaf :: "mux_pane_layout \<Rightarrow> string \<Rightarrow> bool" where
  "contains_leaf (Pane i) p = (i = p)"
| "contains_leaf (Split d ws cs) p = list_ex (\<lambda>c. contains_leaf c p) cs"

fun swap_leaves :: "mux_pane_layout \<Rightarrow> string \<Rightarrow> string \<Rightarrow> mux_pane_layout" where
  "swap_leaves (Pane i) a b = (if i = a then Pane b else if i = b then Pane a else Pane i)"
| "swap_leaves (Split d ws cs) a b = Split d ws (map (\<lambda>c. swap_leaves c a b) cs)"

fun same_structure :: "mux_pane_layout \<Rightarrow> mux_pane_layout \<Rightarrow> bool"
and same_structures :: "mux_pane_layout list \<Rightarrow> mux_pane_layout list \<Rightarrow> bool" where
  "same_structure (Pane a) (Pane b) = (a = b)"
| "same_structure (Split a aw ac) (Split b bw bc) =
     (a = b \<and> length ac = length bc \<and> same_structures ac bc)"
| "same_structure (Pane a) (Split b bw bc) = False"
| "same_structure (Split a aw ac) (Pane b) = False"
| "same_structures (x # xs) (y # ys) = (same_structure x y \<and> same_structures xs ys)"
| "same_structures [] ys = True"
| "same_structures (x # xs) [] = True"

definition split_axis :: "direction \<Rightarrow> mux_pane_split_direction" where
  "split_axis d = (case d of DirLeft \<Rightarrow> SplitRight | DirRight \<Rightarrow> SplitRight
                           | DirUp \<Rightarrow> SplitDown | DirDown \<Rightarrow> SplitDown)"

definition leading :: "direction \<Rightarrow> bool" where
  "leading d = (case d of DirLeft \<Rightarrow> True | DirUp \<Rightarrow> True | _ \<Rightarrow> False)"

fun insert_leaf :: "mux_pane_layout \<Rightarrow> string \<Rightarrow> string \<Rightarrow> direction \<Rightarrow> mux_pane_layout" where
  "insert_leaf (Pane i) p t d =
     (if i = t then
        (let children = [Pane i, Pane p]
         in Split (split_axis d) [f32_half, f32_half]
              (if leading d then rev children else children))
      else Pane i)"
| "insert_leaf (Split sd ws cs) p t d = Split sd ws (map (\<lambda>c. insert_leaf c p t d) cs)"

definition is_pane :: "string \<Rightarrow> mux_pane_layout \<Rightarrow> bool" where
  "is_pane p c = (case c of Pane i \<Rightarrow> i = p | Split _ _ _ \<Rightarrow> False)"

fun prune_leaf :: "mux_pane_layout \<Rightarrow> string \<Rightarrow> mux_pane_layout" where
  "prune_leaf (Pane i) p = Pane i"
| "prune_leaf (Split d ws cs) p =
     (case find_index (is_pane p) cs of
        Some ix \<Rightarrow> Split d (remove_nth ix ws) (remove_nth ix cs)
      | None \<Rightarrow> Split d ws (map (\<lambda>c. prune_leaf c p) cs))"

section \<open>PaneLayout\<close>

definition single :: "string \<Rightarrow> pane_layout" where
  "single p = \<lparr>pl_root = Pane p, pl_focused = p\<rparr>"

definition from_mux_layout :: "mux_pane_layout \<Rightarrow> pane_layout option" where
  "from_mux_layout l =
     (case normalize l of
        None \<Rightarrow> None
      | Some root \<Rightarrow>
          (case first_leaf root of
             None \<Rightarrow> None
           | Some f \<Rightarrow>
               if card (set (leaves root)) = length (leaves root)
               then Some \<lparr>pl_root = root, pl_focused = f\<rparr> else None))"

definition snapshot_layout :: "pane_layout \<Rightarrow> mux_pane_layout" where
  "snapshot_layout l = pl_root l"

definition is_single :: "pane_layout \<Rightarrow> bool" where
  "is_single l = (case pl_root l of Pane _ \<Rightarrow> True | Split _ _ _ \<Rightarrow> False)"

definition panes :: "pane_layout \<Rightarrow> string list" where
  "panes l = leaves (pl_root l)"

definition layout_contains :: "pane_layout \<Rightarrow> string \<Rightarrow> bool" where
  "layout_contains l p = contains_leaf (pl_root l) p"

definition set_focus :: "pane_layout \<Rightarrow> string \<Rightarrow> bool \<times> pane_layout" where
  "set_focus l p = (if \<not> layout_contains l p then (False, l) else (True, l\<lparr>pl_focused := p\<rparr>))"

definition insert_beside ::
  "pane_layout \<Rightarrow> string \<Rightarrow> string \<Rightarrow> direction \<Rightarrow> bool \<times> pane_layout" where
  "insert_beside l p t d =
     (if layout_contains l p \<or> \<not> layout_contains l t then (False, l)
      else (case normalize (insert_leaf (pl_root l) p t d) of
              None \<Rightarrow> (False, l)
            | Some root \<Rightarrow> (True, l\<lparr>pl_root := root, pl_focused := p\<rparr>)))"

definition split_focused :: "pane_layout \<Rightarrow> string \<Rightarrow> split_direction \<Rightarrow> pane_layout" where
  "split_focused l p d =
     snd (insert_beside l p (pl_focused l) (case d of SdRight \<Rightarrow> DirRight | SdDown \<Rightarrow> DirDown))"

definition layout_merge :: "pane_layout \<Rightarrow> pane_layout \<Rightarrow> bool \<times> pane_layout" where
  "layout_merge l other =
     (if list_ex (layout_contains l) (panes other) then (False, l)
      else (case normalize (Split SplitRight [f32_half, f32_half] [pl_root l, pl_root other]) of
              None \<Rightarrow> (False, l)
            | Some root \<Rightarrow> (True, l\<lparr>pl_root := root, pl_focused := pl_focused other\<rparr>)))"

definition layout_swap :: "pane_layout \<Rightarrow> string \<Rightarrow> string \<Rightarrow> bool \<times> pane_layout" where
  "layout_swap l a b =
     (if a = b \<or> \<not> layout_contains l a \<or> \<not> layout_contains l b then (False, l)
      else (True, l\<lparr>pl_root := swap_leaves (pl_root l) a b\<rparr>))"

definition layout_replace :: "pane_layout \<Rightarrow> string \<Rightarrow> string \<Rightarrow> bool \<times> pane_layout" where
  "layout_replace l p r =
     (if \<not> layout_contains l p \<or> layout_contains l r then (False, l)
      else (let l' = l\<lparr>pl_root := swap_leaves (pl_root l) p r\<rparr>
            in (True, if pl_focused l' = p then l'\<lparr>pl_focused := r\<rparr> else l')))"

definition remove_pane :: "pane_layout \<Rightarrow> string \<Rightarrow> bool \<times> pane_layout" where
  "remove_pane l p =
     (if is_single l \<or> \<not> layout_contains l p then (False, l)
      else (case normalize (prune_leaf (pl_root l) p) of
              None \<Rightarrow> (False, l)
            | Some root \<Rightarrow>
                (let l' = l\<lparr>pl_root := root\<rparr>
                 in (True,
                     if layout_contains l' (pl_focused l') then l'
                     else (case first_leaf (pl_root l') of
                             None \<Rightarrow> l'
                           | Some f \<Rightarrow> l'\<lparr>pl_focused := f\<rparr>)))))"

definition move_beside ::
  "pane_layout \<Rightarrow> string \<Rightarrow> string \<Rightarrow> direction \<Rightarrow> bool \<times> pane_layout" where
  "move_beside l p t d =
     (if p = t \<or> \<not> layout_contains l p \<or> \<not> layout_contains l t then (False, l)
      else (case remove_pane l p of
              (False, _) \<Rightarrow> (False, l)
            | (True, candidate) \<Rightarrow>
                (case insert_beside candidate p t d of
                   (False, _) \<Rightarrow> (False, l)
                 | (True, moved) \<Rightarrow> (True, moved))))"

text \<open>The two loops of \<^verbatim>\<open>reconcile_with_new_pane_direction\<close>.\<close>

definition remove_dead :: "string list \<Rightarrow> string list \<Rightarrow> pane_layout \<Rightarrow> pane_layout" where
  "remove_dead ids ps l =
     fold (\<lambda>p acc. if p \<in> set ids then acc else snd (remove_pane acc p)) ps l"

definition split_missing :: "split_direction \<Rightarrow> string list \<Rightarrow> pane_layout \<Rightarrow> pane_layout" where
  "split_missing d ids l =
     fold (\<lambda>p acc. if layout_contains acc p then acc else split_focused acc p d) ids l"

definition reconcile_with_new_pane_direction ::
  "pane_layout \<Rightarrow> string list \<Rightarrow> split_direction \<Rightarrow> pane_layout" where
  "reconcile_with_new_pane_direction l ids d =
     (case ids of
        [] \<Rightarrow> l
      | first # _ \<Rightarrow>
          (let l0 = (if list_ex (\<lambda>p. p \<in> set ids) (panes l) then l else single first)
           in split_missing d ids (remove_dead ids (panes l0) l0)))"

definition reconcile :: "pane_layout \<Rightarrow> string list \<Rightarrow> pane_layout" where
  "reconcile l ids = reconcile_with_new_pane_direction l ids SdRight"

definition resize :: "pane_layout \<Rightarrow> mux_pane_layout \<Rightarrow> bool \<times> pane_layout" where
  "resize l proposed =
     (case from_mux_layout proposed of
        None \<Rightarrow> (False, l)
      | Some q \<Rightarrow>
          if \<not> same_structure (pl_root l) (pl_root q) then (False, l)
          else (True, l\<lparr>pl_root := pl_root q\<rparr>))"

section \<open>Navigation geometry\<close>

fun visit_rects :: "mux_pane_layout \<Rightarrow> surface_rect \<Rightarrow> f32 \<Rightarrow> (string \<times> surface_rect) list"
and visit_children ::
  "bool \<Rightarrow> surface_rect \<Rightarrow> f32 \<Rightarrow> f32 \<Rightarrow> f32 \<Rightarrow> mux_pane_layout list \<Rightarrow> f32 list \<Rightarrow>
   (string \<times> surface_rect) list" where
  "visit_rects (Pane i) area gap = [(i, area)]"
| "visit_rects (Split d ws cs) area gap =
     (let horizontal = (d = SplitRight);
          gaps = f32_of_nat (length cs - 1);
          extent = (if horizontal then rect_width area else rect_height area);
          usable = f32_max (f32_mul_add gap (f32_neg gaps) extent) f32_zero
      in visit_children horizontal area gap usable f32_zero cs ws)"
| "visit_children horizontal area gap usable offset (c # cs) (w # ws) =
     (let size' = f32_mul usable w;
          rect = (if horizontal
                  then from_min_size (f32_add (min_x area) offset) (min_y area)
                         size' (rect_height area)
                  else from_min_size (min_x area) (f32_add (min_y area) offset)
                         (rect_width area) size')
      in visit_rects c rect gap
         @ visit_children horizontal area gap usable
             (f32_add offset (f32_add size' gap)) cs ws)"
| "visit_children horizontal area gap usable offset [] ws = []"
| "visit_children horizontal area gap usable offset (c # cs) [] = []"

definition rects :: "pane_layout \<Rightarrow> surface_rect \<Rightarrow> f32 \<Rightarrow> (string \<times> surface_rect) list" where
  "rects l area gap = visit_rects (pl_root l) area gap"

definition vertical_overlap :: "surface_rect \<Rightarrow> surface_rect \<Rightarrow> f32" where
  "vertical_overlap a b =
     f32_max (f32_sub (f32_min (max_y a) (max_y b)) (f32_max (min_y a) (min_y b))) f32_zero"

definition horizontal_overlap :: "surface_rect \<Rightarrow> surface_rect \<Rightarrow> f32" where
  "horizontal_overlap a b =
     f32_max (f32_sub (f32_min (max_x a) (max_x b)) (f32_max (min_x a) (min_x b))) f32_zero"

definition directional_gap ::
  "surface_rect \<Rightarrow> surface_rect \<Rightarrow> direction \<Rightarrow> (f32 \<times> f32) option" where
  "directional_gap origin candidate d =
     (let ox = f32_midpoint (min_x origin) (max_x origin);
          oy = f32_midpoint (min_y origin) (max_y origin);
          cx = f32_midpoint (min_x candidate) (max_x candidate);
          cy = f32_midpoint (min_y candidate) (max_y candidate);
          (forward, primary, overlap) =
            (case d of
               DirRight \<Rightarrow> (f32_lt ox cx, f32_sub (min_x candidate) (max_x origin),
                            vertical_overlap origin candidate)
             | DirLeft \<Rightarrow> (f32_lt cx ox, f32_sub (min_x origin) (max_x candidate),
                           vertical_overlap origin candidate)
             | DirDown \<Rightarrow> (f32_lt oy cy, f32_sub (min_y candidate) (max_y origin),
                           horizontal_overlap origin candidate)
             | DirUp \<Rightarrow> (f32_lt cy oy, f32_sub (min_y origin) (max_y candidate),
                         horizontal_overlap origin candidate))
      in if forward \<and> f32_lt f32_zero overlap then Some (primary, overlap) else None)"

text \<open>\<^verbatim>\<open>min_by(total_cmp)\<close> keeps the first of equal minima.\<close>

fun min_by_total :: "(f32 \<times> string) list \<Rightarrow> (f32 \<times> string) option" where
  "min_by_total [] = None"
| "min_by_total (x # xs) =
     (case min_by_total xs of
        None \<Rightarrow> Some x
      | Some y \<Rightarrow> Some (if total_key (fst x) \<le> total_key (fst y) then x else y))"

definition neighbor :: "pane_layout \<Rightarrow> string \<Rightarrow> direction \<Rightarrow> surface_rect \<Rightarrow> f32 \<Rightarrow> string option" where
  "neighbor l from d area gap =
     (let rs = rects l area gap
      in case find (\<lambda>(p, _). p = from) rs of
           None \<Rightarrow> None
         | Some (_, origin) \<Rightarrow>
             map_option snd
               (min_by_total
                 (List.map_filter
                   (\<lambda>(p, r). case directional_gap origin r d of
                      None \<Rightarrow> None
                    | Some (primary, overlap) \<Rightarrow>
                        Some (f32_mul_add overlap (f32_lit True 1 1000) primary, p))
                   (filter (\<lambda>(p, _). p \<noteq> from) rs))))"

section \<open>Well-formed trees\<close>

text \<open>Every weight is one of the values \<^verbatim>\<open>f32\<close> can hold.\<close>

fun valid_layout :: "mux_pane_layout \<Rightarrow> bool" where
  "valid_layout (Pane i) = True"
| "valid_layout (Split d ws cs) = (list_all f32_valid ws \<and> list_all valid_layout cs)"

definition same_axis :: "mux_pane_split_direction \<Rightarrow> mux_pane_layout \<Rightarrow> bool" where
  "same_axis d c = (case c of Pane _ \<Rightarrow> False | Split e _ _ \<Rightarrow> e = d)"

text \<open>
  The form of a split tree that the doc comment of \<^verbatim>\<open>MuxPaneLayout\<close> promises, but for the sum of the weights: at
  least two children, one positive weight of at most one per child, and no child split along the same
  axis.  How far the weights are from the unit sum that it also promises is the subject of
  \<^verbatim>\<open>Layout_Weights\<close>.
\<close>

fun canonical :: "mux_pane_layout \<Rightarrow> bool" where
  "canonical (Pane i) = True"
| "canonical (Split d ws cs) =
     (2 \<le> length cs \<and> length ws = length cs \<and> list_all unit_weight ws
      \<and> list_all (\<lambda>c. canonical c \<and> \<not> same_axis d c) cs)"

definition layout_inv :: "pane_layout \<Rightarrow> bool" where
  "layout_inv l \<longleftrightarrow>
     canonical (pl_root l) \<and> distinct (panes l) \<and> pl_focused l \<in> set (panes l)"

section \<open>Lemmas on trees\<close>

lemma concat_concat_map: "concat (concat (map f xs)) = concat (map (\<lambda>x. concat (f x)) xs)"
  by (induction xs) auto

lemma contains_leaf_iff: "contains_leaf l p \<longleftrightarrow> p \<in> set (leaves l)"
  by (induction l p rule: contains_leaf.induct) (auto simp: list_ex_iff)

lemma layout_contains_iff: "layout_contains l p \<longleftrightarrow> p \<in> set (panes l)"
  by (simp add: layout_contains_def panes_def contains_leaf_iff)

lemma canonical_valid: "canonical l \<Longrightarrow> valid_layout l"
  by (induction l rule: canonical.induct) (auto simp: list_all_iff unit_weight_valid)

lemma canonical_leaves_nonempty: "canonical l \<Longrightarrow> leaves l \<noteq> []"
proof (induction l rule: canonical.induct)
  case (2 d ws cs)
  then obtain c where "c \<in> set cs" by (cases cs) auto
  with 2 show ?case by (auto simp: list_all_iff)
qed simp

lemma first_leaf_canonical: "canonical l \<Longrightarrow> \<exists>i. first_leaf l = Some i \<and> i \<in> set (leaves l)"
  by (induction l rule: first_leaf.induct) auto

lemma first_leaf_member: "first_leaf l = Some i \<Longrightarrow> i \<in> set (leaves l)"
  by (induction l rule: first_leaf.induct) auto

lemma leaves_swap_leaves:
  "leaves (swap_leaves l a b) = map (\<lambda>i. if i = a then b else if i = b then a else i) (leaves l)"
  by (induction l a b rule: swap_leaves.induct) (auto simp: map_concat comp_def cong: map_cong)

lemma same_axis_swap [simp]: "same_axis d (swap_leaves l a b) = same_axis d l"
  by (cases l) (auto simp: same_axis_def)

lemma canonical_swap_leaves: "canonical l \<Longrightarrow> canonical (swap_leaves l a b)"
  by (induction l a b rule: swap_leaves.induct) (auto simp: list_all_iff)

text \<open>The list-level meaning of inserting beside a leaf.\<close>

definition insert_beside_list :: "string \<Rightarrow> string \<Rightarrow> direction \<Rightarrow> string list \<Rightarrow> string list" where
  "insert_beside_list p t d xs =
     concat (map (\<lambda>i. if i = t then (if leading d then [p, i] else [i, p]) else [i]) xs)"

lemma leaves_insert_leaf: "leaves (insert_leaf l p t d) = insert_beside_list p t d (leaves l)"
proof (induction l p t d rule: insert_leaf.induct)
  case (1 i p t d)
  show ?case by (simp add: insert_beside_list_def Let_def)
next
  case (2 sd ws cs p t d)
  then show ?case
    by (simp add: insert_beside_list_def map_concat comp_def concat_concat_map cong: map_cong)
qed

lemma f32_valid_half: "f32_valid f32_half"
  by (simp add: f32_half_def f32_lit_def f32_round_valid)

lemma valid_insert_leaf: "valid_layout l \<Longrightarrow> valid_layout (insert_leaf l p t d)"
  by (induction l p t d rule: insert_leaf.induct) (auto simp: list_all_iff Let_def f32_valid_half)

lemma set_insert_beside_list:
  "t \<in> set xs \<Longrightarrow> set (insert_beside_list p t d xs) = insert p (set xs)"
  by (auto simp: insert_beside_list_def split: if_splits)

lemma insert_beside_list_absent: "t \<notin> set xs \<Longrightarrow> insert_beside_list p t d xs = xs"
  by (induction xs) (auto simp: insert_beside_list_def)

lemma distinct_insert_beside_list:
  "distinct xs \<Longrightarrow> p \<notin> set xs \<Longrightarrow> distinct (insert_beside_list p t d xs)"
proof (induction xs)
  case (Cons x xs)
  show ?case
  proof (cases "x = t")
    case True
    with Cons.prems have "insert_beside_list p t d xs = xs" by (simp add: insert_beside_list_absent)
    with True Cons.prems show ?thesis by (auto simp: insert_beside_list_def)
  next
    case False
    have "set (insert_beside_list p t d xs) \<subseteq> insert p (set xs)"
      by (auto simp: insert_beside_list_def split: if_splits)
    with False Cons show ?thesis by (auto simp: insert_beside_list_def)
  qed
qed (simp add: insert_beside_list_def)

lemma filter_neq_absent: "p \<notin> set xs \<Longrightarrow> filter (\<lambda>i. i \<noteq> p) xs = xs"
  by (induction xs) auto

lemma list_all_remove_nth: "list_all P xs \<Longrightarrow> list_all P (remove_nth i xs)"
  using set_remove_nth_subset by (fastforce simp: list_all_iff)

lemma valid_prune_leaf: "valid_layout l \<Longrightarrow> valid_layout (prune_leaf l p)"
  by (induction l p rule: prune_leaf.induct)
    (auto simp: list_all_iff split: option.splits dest!: subsetD [OF set_remove_nth_subset])

lemma leaves_prune_leaf:
  "distinct (leaves l) \<Longrightarrow> l \<noteq> Pane p \<Longrightarrow> leaves (prune_leaf l p) = filter (\<lambda>i. i \<noteq> p) (leaves l)"
proof (induction l p rule: prune_leaf.induct)
  case (1 i p)
  then show ?case by simp
next
  case (2 d ws cs p)
  show ?case
  proof (cases "find_index (is_pane p) cs")
    case (Some ix)
    then have ix: "ix < length cs" "cs ! ix = Pane p"
      using find_index_SomeD [OF Some] by (auto simp: is_pane_def split: mux_pane_layout.splits)
    then have cs: "cs = take ix cs @ Pane p # drop (Suc ix) cs" by (metis id_take_nth_drop)
    then have lv: "leaves (Split d ws cs) =
        concat (map leaves (take ix cs)) @ p # concat (map leaves (drop (Suc ix) cs))"
      by (metis concat.simps(2) concat_append leaves.simps(1,2) list.simps(9) map_append
          append_Cons append_Nil)
    with 2(2) have "p \<notin> set (concat (map leaves (take ix cs)))"
        "p \<notin> set (concat (map leaves (drop (Suc ix) cs)))"
      by (simp_all del: set_concat)
    then have "filter (\<lambda>i. i \<noteq> p) (leaves (Split d ws cs)) =
        concat (map leaves (take ix cs)) @ concat (map leaves (drop (Suc ix) cs))"
      unfolding lv by (simp add: filter_neq_absent del: set_concat)
    with Some show ?thesis by (simp add: remove_nth_def)
  next
    case None
    have np: "c \<noteq> Pane p" if "c \<in> set cs" for c
      using None that by (auto simp: find_index_None is_pane_def split: mux_pane_layout.splits)
    have "distinct (leaves c)" if "c \<in> set cs" for c
      using 2(2) that by (auto simp: distinct_concat_iff)
    with np 2(1) [OF None] have "\<forall>c \<in> set cs. leaves (prune_leaf c p) = filter (\<lambda>i. i \<noteq> p) (leaves c)"
      by blast
    with None show ?thesis
      by (simp add: filter_concat comp_def cong: map_cong)
  qed
qed

section \<open>Normalisation\<close>

fun well_sized :: "mux_pane_layout \<Rightarrow> bool" where
  "well_sized (Pane i) = True"
| "well_sized (Split d ws cs) = (length ws = length cs \<and> list_all well_sized cs)"

lemma splice_child_leaves:
  assumes "splice_child d w n (fc, fw) = (gc, gw)" "well_sized n" "list_all well_sized fc"
    and "length fw = length fc"
  shows "concat (map leaves gc) = leaves n @ concat (map leaves fc) \<and> length gw = length gc
    \<and> list_all well_sized gc"
  using assms by (auto simp: splice_child_def split: mux_pane_layout.splits if_splits)

lemma normalize_leaves_aux:
  "normalize l = Some n \<Longrightarrow> leaves n = leaves l \<and> well_sized n"
  "splice d tot cs ws = Some (fc, fw) \<Longrightarrow> length cs = length ws \<Longrightarrow>
     concat (map leaves fc) = concat (map leaves cs) \<and> length fw = length fc
     \<and> list_all well_sized fc"
proof (induction l and d tot cs ws arbitrary: n and fc fw rule: normalize_splice.induct)
  case (1 i)
  then show ?case by auto
next
  case (2 d ws cs)
  then obtain fc fw where sp: "splice d (f32_sum ws) cs ws = Some (fc, fw)"
    by (auto split: if_splits option.splits)
  with 2 have lv: "concat (map leaves fc) = concat (map leaves cs)" "length fw = length fc"
      "list_all well_sized fc"
    by (auto split: if_splits)
  show ?case
  proof (cases "length fc = 1")
    case True
    then obtain c where fc: "fc = [c]" by (auto simp: length_Suc_conv)
    with 2(2) sp have "n = c" by (auto split: if_splits)
    with fc lv show ?thesis by simp
  next
    case False
    with 2(2) sp lv show ?thesis by (auto split: if_splits)
  qed
next
  case (3 d tot c cs w ws)
  then obtain m fc0 fw0 where m: "normalize c = Some m"
      and sp: "splice d tot cs ws = Some (fc0, fw0)"
      and eq: "splice_child d (f32_div w tot) m (fc0, fw0) = (fc, fw)"
    by (auto split: option.splits)
  with 3 have "leaves m = leaves c" "well_sized m" "list_all well_sized fc0"
      "concat (map leaves fc0) = concat (map leaves cs)" "length fw0 = length fc0"
    by auto
  with splice_child_leaves [OF eq] show ?case by auto
qed auto

lemmas normalize_leaves = normalize_leaves_aux(1) [THEN conjunct1]

text \<open>A weight that division and multiplication may have taken to zero, but not past one.\<close>

definition share :: "f32 \<Rightarrow> bool" where
  "share w \<longleftrightarrow> (\<exists>m. w = Fin False m \<and> m \<le> f32_one \<and> representable m)"

lemma share_pos_unit: "share w \<Longrightarrow> \<not> f32_le w f32_zero \<Longrightarrow> unit_weight w"
  by (auto simp: share_def unit_weight_def f32_le_def)

lemma unit_weight_share: "unit_weight w \<Longrightarrow> share w"
  by (auto simp: share_def unit_weight_def)

lemma share_mul: "share v \<Longrightarrow> share w \<Longrightarrow> share (f32_mul v w)"
  using f32_mul_unit by (fastforce simp: share_def simp del: f32_mul.simps)

lemma good_weight: "\<not> bad_weight w \<Longrightarrow> f32_valid w \<Longrightarrow> \<exists>m. w = Fin False m \<and> 0 < m \<and> representable m"
  by (cases w) (auto simp: bad_weight_def is_finite_def f32_le_def f32_valid_def split: if_splits)

text \<open>The shares of a split whose weights are positive and whose total is finite.\<close>

lemma weights_shares:
  assumes "ws \<noteq> []" "\<not> list_ex bad_weight ws" "list_all f32_valid ws" "is_finite (f32_sum ws)"
    and "w \<in> set ws"
  shows "share (f32_div w (f32_sum ws))"
proof -
  have pos: "\<exists>m. v = Fin False m \<and> 0 < m \<and> representable m" if "v \<in> set ws" for v
    using assms(2,3) that by (intro good_weight) (auto simp: list_ex_iff list_all_iff)
  then have good: "\<forall>w \<in> set ws. \<exists>m. w = Fin False m \<and> representable m" by blast
  obtain s t where st: "f32_sum ws = Fin s t"
    using assms(4) by (cases "f32_sum ws") (auto simp: is_finite_def)
  with f32_sum_ge [OF good, of 0 s t]
  have t: "\<not> s" "\<forall>w \<in> set ws. \<exists>m. w = Fin False m \<and> m \<le> t" by (auto simp: f32_sum_def)
  from t(2) assms(5) obtain m where m: "w = Fin False m" "m \<le> t" by auto
  moreover have "0 < m" using pos [OF assms(5)] m(1) by auto
  ultimately show ?thesis
    using f32_div_unit [of m t] st t(1) by (auto simp: share_def simp del: f32_div.simps)
qed

lemma splice_child_canonical:
  assumes "splice_child d w n (fc, fw) = (gc, gw)" "canonical n" "share w"
    and "list_all (\<lambda>c. canonical c \<and> \<not> same_axis d c) fc" "list_all share fw"
  shows "list_all (\<lambda>c. canonical c \<and> \<not> same_axis d c) gc \<and> list_all share gw \<and> gc \<noteq> []"
proof (cases "same_axis d n")
  case True
  then obtain iw ic where n: "n = Split d iw ic"
    by (auto simp: same_axis_def split: mux_pane_layout.splits)
  with assms(2) have ic: "list_all (\<lambda>c. canonical c \<and> \<not> same_axis d c) ic" "2 \<le> length ic"
    and iw: "list_all unit_weight iw" by simp_all
  have "list_all share (map (f32_mul w) iw)"
    using iw assms(3) by (auto simp: list_all_iff intro: share_mul unit_weight_share)
  with n ic assms show ?thesis by (auto simp: splice_child_def)
next
  case False
  then have "(gc, gw) = (n # fc, w # fw)"
    using assms(1) by (cases n) (auto simp: splice_child_def same_axis_def)
  with False assms show ?thesis by simp
qed

lemma normalize_canonical_aux:
  "normalize l = Some n \<Longrightarrow> valid_layout l \<Longrightarrow> canonical n"
  "splice d tot cs ws = Some (fc, fw) \<Longrightarrow> length cs = length ws \<Longrightarrow> list_all valid_layout cs \<Longrightarrow>
     (\<forall>w \<in> set ws. share (f32_div w tot)) \<Longrightarrow>
     list_all (\<lambda>c. canonical c \<and> \<not> same_axis d c) fc \<and> list_all share fw \<and> (cs \<noteq> [] \<longrightarrow> fc \<noteq> [])"
proof (induction l and d tot cs ws arbitrary: n and fc fw rule: normalize_splice.induct)
  case (1 i)
  then show ?case by auto
next
  case (2 d ws cs)
  then obtain fc fw where sp: "splice d (f32_sum ws) cs ws = Some (fc, fw)"
    by (auto split: if_splits option.splits)
  from 2(2) have cond: "cs \<noteq> []" "length cs = length ws" "\<not> list_ex bad_weight ws"
      "is_finite (f32_sum ws)"
    by (auto split: if_splits)
  have "\<forall>w \<in> set ws. share (f32_div w (f32_sum ws))"
    using cond 2(3) by (auto intro!: weights_shares)
  with 2(1) [OF _ _ sp] 2(3) cond
  have fc: "list_all (\<lambda>c. canonical c \<and> \<not> same_axis d c) fc" "list_all share fw" "fc \<noteq> []"
    by auto
  have len: "length fw = length fc" using normalize_leaves_aux(2) [OF sp] cond(2) by simp
  show ?case
  proof (cases "length fc = 1")
    case True
    then obtain c where c: "fc = [c]" by (auto simp: length_Suc_conv)
    with 2(2) sp have "n = c" by (auto split: if_splits)
    with fc c show ?thesis by simp
  next
    case False
    with 2(2) sp have n: "n = Split d fw fc" "\<not> list_ex (\<lambda>w. f32_le w f32_zero) fw"
      by (auto split: if_splits)
    have "2 \<le> length fc" using False fc(3) by (cases fc; cases "tl fc") auto
    moreover have "list_all unit_weight fw"
      using fc(2) n(2) share_pos_unit by (auto simp: list_all_iff list_ex_iff)
    ultimately show ?thesis using fc(1) n(1) len by simp
  qed
next
  case (3 d tot c cs w ws)
  then obtain m fc0 fw0 where m: "normalize c = Some m"
      and sp: "splice d tot cs ws = Some (fc0, fw0)"
      and eq: "splice_child d (f32_div w tot) m (fc0, fw0) = (fc, fw)"
    by (auto split: option.splits)
  from 3 m sp have "canonical m" "share (f32_div w tot)"
      "list_all (\<lambda>c. canonical c \<and> \<not> same_axis d c) fc0" "list_all share fw0"
    by auto
  with splice_child_canonical [OF eq] show ?case by auto
qed auto

lemmas normalize_canonical = normalize_canonical_aux(1)

section \<open>Operations keep the layout well-formed\<close>

lemma single_inv [inv_intros]: "layout_inv (single p)"
  by (simp add: layout_inv_def single_def panes_def)

lemma panes_single [simp]: "panes (single p) = [p]"
  by (simp add: single_def panes_def)

lemma from_mux_layout_spec:
  assumes "valid_layout l" "from_mux_layout l = Some q"
  shows "layout_inv q \<and> panes q = leaves l"
proof -
  obtain root where root: "normalize l = Some root" "q = \<lparr>pl_root = root, pl_focused = pl_focused q\<rparr>"
      "first_leaf root = Some (pl_focused q)" "card (set (leaves root)) = length (leaves root)"
    using assms(2) by (auto simp: from_mux_layout_def split: option.splits if_splits)
  have "canonical root" using normalize_canonical root(1) assms(1) by blast
  moreover have "distinct (leaves root)" using root(4) by (rule card_distinct)
  moreover have "pl_focused q \<in> set (leaves root)" using root(3) by (rule first_leaf_member)
  moreover have "panes q = leaves root" using root(2) by (metis panes_def pane_layout.select_convs(1))
  moreover have "pl_root q = root" using root(2) by (metis pane_layout.select_convs(1))
  ultimately show ?thesis using normalize_leaves [OF root(1)] by (simp add: layout_inv_def)
qed

lemma set_focus_inv [inv_intros]: "layout_inv l \<Longrightarrow> layout_inv (snd (set_focus l p))"
  by (auto simp: set_focus_def layout_inv_def layout_contains_iff panes_def)

lemma panes_set_focus [simp]: "panes (snd (set_focus l p)) = panes l"
  by (simp add: set_focus_def panes_def)

lemma insert_beside_fail: "insert_beside l p t d = (False, l') \<Longrightarrow> l' = l"
  by (auto simp: insert_beside_def split: if_splits option.splits)

lemma insert_beside_ok:
  assumes "layout_inv l" "insert_beside l p t d = (True, l')"
  shows "layout_inv l' \<and> panes l' = insert_beside_list p t d (panes l) \<and> pl_focused l' = p
    \<and> p \<notin> set (panes l) \<and> t \<in> set (panes l)"
proof -
  obtain root where root: "normalize (insert_leaf (pl_root l) p t d) = Some root"
      "l' = l\<lparr>pl_root := root, pl_focused := p\<rparr>" "p \<notin> set (panes l)" "t \<in> set (panes l)"
    using assms(2)
    by (auto simp: insert_beside_def layout_contains_iff split: if_splits option.splits)
  have pn: "panes l' = insert_beside_list p t d (panes l)"
    using root(1,2) by (simp add: panes_def normalize_leaves leaves_insert_leaf)
  have "canonical root"
    using assms(1) normalize_canonical [OF root(1)]
    by (simp add: layout_inv_def canonical_valid valid_insert_leaf)
  moreover have "distinct (panes l')"
    unfolding pn using assms(1) root(3)
    by (simp add: distinct_insert_beside_list layout_inv_def)
  moreover have "p \<in> set (panes l')" unfolding pn using root(4) by (simp add: set_insert_beside_list)
  ultimately show ?thesis using root pn by (simp add: layout_inv_def)
qed

lemma insert_beside_inv [inv_intros]: "layout_inv l \<Longrightarrow> layout_inv (snd (insert_beside l p t d))"
  by (cases "insert_beside l p t d"; cases "fst (insert_beside l p t d)")
    (auto dest: insert_beside_ok insert_beside_fail)

lemma split_focused_inv [inv_intros]: "layout_inv l \<Longrightarrow> layout_inv (split_focused l p d)"
  by (simp add: split_focused_def insert_beside_inv)

lemma split_focused_panes:
  assumes "layout_inv l"
  shows "split_focused l p d = l \<or> set (panes (split_focused l p d)) = insert p (set (panes l))"
proof -
  let ?r = "insert_beside l p (pl_focused l) (case d of SdRight \<Rightarrow> DirRight | SdDown \<Rightarrow> DirDown)"
  show ?thesis
  proof (cases "fst ?r")
    case True
    then have "?r = (True, split_focused l p d)" by (simp add: split_focused_def prod_eq_iff)
    from insert_beside_ok [OF assms this] show ?thesis by (simp add: set_insert_beside_list)
  next
    case False
    then have "?r = (False, split_focused l p d)" by (simp add: split_focused_def prod_eq_iff)
    from insert_beside_fail [OF this] show ?thesis by simp
  qed
qed

lemma remove_pane_fail: "remove_pane l p = (False, l') \<Longrightarrow> l' = l"
  by (auto simp: remove_pane_def Let_def split: if_splits option.splits)

lemma remove_pane_ok:
  assumes "layout_inv l" "remove_pane l p = (True, l')"
  shows "layout_inv l' \<and> panes l' = filter (\<lambda>i. i \<noteq> p) (panes l) \<and> p \<in> set (panes l)
    \<and> (pl_focused l \<noteq> p \<longrightarrow> pl_focused l' = pl_focused l)"
proof -
  obtain root where root: "normalize (prune_leaf (pl_root l) p) = Some root"
      "pl_root l' = root" "\<not> is_single l" "p \<in> set (panes l)"
      "pl_focused l' = (if pl_focused l \<in> set (leaves root) then pl_focused l
         else (case first_leaf root of None \<Rightarrow> pl_focused l | Some f \<Rightarrow> f))"
    using assms(2)
    by (auto simp: remove_pane_def Let_def layout_contains_iff panes_def
        split: if_splits option.splits)
  have "pl_root l \<noteq> Pane p" using root(3) by (auto simp: is_single_def)
  then have lv: "leaves root = filter (\<lambda>i. i \<noteq> p) (panes l)"
    using assms(1) leaves_prune_leaf normalize_leaves [OF root(1)]
    by (simp add: layout_inv_def panes_def)
  have can: "canonical root"
    using assms(1) normalize_canonical [OF root(1)]
    by (simp add: layout_inv_def canonical_valid valid_prune_leaf)
  have "pl_focused l' \<in> set (leaves root)"
    using root(5) first_leaf_canonical [OF can] by auto
  moreover have "distinct (leaves root)" using lv assms(1) by (simp add: layout_inv_def)
  moreover have "pl_focused l \<noteq> p \<longrightarrow> pl_focused l' = pl_focused l"
    using root(5) lv assms(1) by (simp add: layout_inv_def)
  ultimately show ?thesis using can lv root(2,4) by (simp add: layout_inv_def panes_def)
qed

lemma remove_pane_inv [inv_intros]: "layout_inv l \<Longrightarrow> layout_inv (snd (remove_pane l p))"
  by (cases "remove_pane l p"; cases "fst (remove_pane l p)")
    (auto dest: remove_pane_ok remove_pane_fail)

lemma remove_pane_panes:
  "layout_inv l \<Longrightarrow> snd (remove_pane l p) = l \<or>
     panes (snd (remove_pane l p)) = filter (\<lambda>i. i \<noteq> p) (panes l)"
  by (cases "remove_pane l p"; cases "fst (remove_pane l p)")
    (auto dest: remove_pane_ok remove_pane_fail)

lemma move_beside_fail: "move_beside l p t d = (False, l') \<Longrightarrow> l' = l"
  by (auto simp: move_beside_def split: if_splits prod.splits bool.splits)

lemma move_beside_ok:
  assumes "layout_inv l" "move_beside l p t d = (True, l')"
  shows "layout_inv l' \<and> pl_focused l' = p
    \<and> panes l' = insert_beside_list p t d (filter (\<lambda>i. i \<noteq> p) (panes l))
    \<and> p \<in> set (panes l) \<and> t \<in> set (panes l)"
proof -
  obtain c where c: "remove_pane l p = (True, c)" "insert_beside c p t d = (True, l')"
      "t \<in> set (panes l)"
    using assms(2)
    by (auto simp: move_beside_def layout_contains_iff split: if_splits prod.splits bool.splits)
  from remove_pane_ok [OF assms(1) c(1)] insert_beside_ok [OF _ c(2)] c(3) show ?thesis by simp
qed

lemma move_beside_inv [inv_intros]: "layout_inv l \<Longrightarrow> layout_inv (snd (move_beside l p t d))"
  by (cases "move_beside l p t d"; cases "fst (move_beside l p t d)")
    (auto dest: move_beside_ok move_beside_fail)

lemma layout_merge_fail: "layout_merge l q = (False, l') \<Longrightarrow> l' = l"
  by (auto simp: layout_merge_def split: if_splits option.splits)

lemma layout_merge_ok:
  assumes "layout_inv l" "layout_inv q" "layout_merge l q = (True, l')"
  shows "layout_inv l' \<and> panes l' = panes l @ panes q \<and> pl_focused l' = pl_focused q"
proof -
  let ?s = "Split SplitRight [f32_half, f32_half] [pl_root l, pl_root q]"
  obtain root where root: "normalize ?s = Some root"
      "l' = l\<lparr>pl_root := root, pl_focused := pl_focused q\<rparr>" "set (panes q) \<inter> set (panes l) = {}"
    using assms(3)
    by (auto simp: layout_merge_def layout_contains_iff list_ex_iff simp del: normalize.simps
        split: if_splits option.splits)
  have "valid_layout ?s"
    using assms(1,2) by (simp add: f32_valid_half layout_inv_def canonical_valid)
  then have "canonical root" using normalize_canonical [OF root(1)] by blast
  moreover have "leaves root = panes l @ panes q"
    using normalize_leaves [OF root(1)] by (simp add: panes_def)
  ultimately show ?thesis using assms(1,2) root(2,3) by (auto simp: layout_inv_def panes_def)
qed

lemma layout_merge_inv [inv_intros]:
  "layout_inv l \<Longrightarrow> layout_inv q \<Longrightarrow> layout_inv (snd (layout_merge l q))"
  by (cases "layout_merge l q"; cases "fst (layout_merge l q)")
    (auto dest: layout_merge_ok layout_merge_fail)

lemma layout_swap_ok:
  assumes "layout_inv l" "layout_swap l a b = (True, l')"
  shows "layout_inv l' \<and> pl_focused l' = pl_focused l
    \<and> panes l' = map (\<lambda>i. if i = a then b else if i = b then a else i) (panes l)"
proof -
  let ?f = "\<lambda>i. if i = a then b else if i = b then a else i"
  have ab: "a \<in> set (panes l)" "b \<in> set (panes l)" and l': "l' = l\<lparr>pl_root := swap_leaves (pl_root l) a b\<rparr>"
    using assms(2) by (auto simp: layout_swap_def layout_contains_iff split: if_splits)
  have "panes l' = map ?f (panes l)" by (simp add: l' panes_def leaves_swap_leaves)
  moreover have "inj_on ?f (set (panes l))" by (auto simp: inj_on_def split: if_splits)
  moreover have "?f ` set (panes l) = set (panes l)" using ab by (auto simp: image_iff)
  ultimately show ?thesis
    using assms(1) l' by (auto simp: layout_inv_def canonical_swap_leaves distinct_map)
qed

lemma layout_swap_fail: "layout_swap l a b = (False, l') \<Longrightarrow> l' = l"
  by (auto simp: layout_swap_def split: if_splits)

lemma layout_swap_inv [inv_intros]: "layout_inv l \<Longrightarrow> layout_inv (snd (layout_swap l a b))"
  by (cases "layout_swap l a b"; cases "fst (layout_swap l a b)")
    (auto dest: layout_swap_ok layout_swap_fail)

lemma layout_replace_fail: "layout_replace l p r = (False, l') \<Longrightarrow> l' = l"
  by (auto simp: layout_replace_def Let_def split: if_splits)

lemma layout_replace_ok:
  assumes "layout_inv l" "layout_replace l p r = (True, l')"
  shows "layout_inv l' \<and> panes l' = map (\<lambda>i. if i = p then r else i) (panes l)
    \<and> pl_focused l' = (if pl_focused l = p then r else pl_focused l)"
proof -
  let ?f = "\<lambda>i. if i = p then r else i"
  have pr: "p \<in> set (panes l)" "r \<notin> set (panes l)"
      and l': "pl_root l' = swap_leaves (pl_root l) p r"
        "pl_focused l' = (if pl_focused l = p then r else pl_focused l)"
    using assms(2) by (auto simp: layout_replace_def layout_contains_iff Let_def split: if_splits)
  have "panes l' = map (\<lambda>i. if i = p then r else if i = r then p else i) (panes l)"
    by (simp add: l'(1) panes_def leaves_swap_leaves)
  also have "\<dots> = map ?f (panes l)" using pr by auto
  finally have pn: "panes l' = map ?f (panes l)" .
  moreover have "inj_on ?f (set (panes l))" using pr by (auto simp: inj_on_def split: if_splits)
  moreover have "canonical (pl_root l')"
    using assms(1) by (simp add: l'(1) layout_inv_def canonical_swap_leaves)
  ultimately have "layout_inv l'"
    using assms(1) l'(2) by (auto simp: layout_inv_def distinct_map)
  then show ?thesis using pn l'(2) by blast
qed

lemma layout_replace_inv [inv_intros]: "layout_inv l \<Longrightarrow> layout_inv (snd (layout_replace l p r))"
  by (cases "layout_replace l p r"; cases "fst (layout_replace l p r)")
    (auto dest: layout_replace_ok layout_replace_fail)

lemma same_structure_leaves:
  "same_structure a b \<Longrightarrow> leaves a = leaves b"
  "same_structures xs ys \<Longrightarrow> length xs = length ys \<Longrightarrow> map leaves xs = map leaves ys"
  by (induction a b and xs ys rule: same_structure_same_structures.induct) auto

lemma resize_spec:
  assumes "layout_inv l" "valid_layout proposed" "resize l proposed = (ok, l')"
  shows "layout_inv l' \<and> panes l' = panes l \<and> pl_focused l' = pl_focused l \<and> (\<not> ok \<longrightarrow> l' = l)"
proof (cases ok)
  case True
  with assms(3) obtain q where q: "from_mux_layout proposed = Some q"
      "same_structure (pl_root l) (pl_root q)" "l' = l\<lparr>pl_root := pl_root q\<rparr>"
    by (auto simp: resize_def split: option.splits if_splits)
  from from_mux_layout_spec [OF assms(2) q(1)] same_structure_leaves(1) [OF q(2)] assms(1) q(3)
  show ?thesis using True by (auto simp: layout_inv_def panes_def)
next
  case False
  with assms show ?thesis by (auto simp: resize_def split: option.splits if_splits)
qed

section \<open>Reconciliation with the live panes\<close>

lemma remove_dead_spec:
  assumes "layout_inv l"
  shows "layout_inv (remove_dead ids ps l)
    \<and> set (panes (remove_dead ids ps l)) \<subseteq> set (panes l)
    \<and> set (panes l) \<inter> set ids \<subseteq> set (panes (remove_dead ids ps l))"
  using assms unfolding remove_dead_def
proof (induction ps arbitrary: l)
  case (Cons p ps)
  let ?l = "if p \<in> set ids then l else snd (remove_pane l p)"
  have inv: "layout_inv ?l" using Cons.prems by (simp add: remove_pane_inv)
  have "set (panes ?l) \<subseteq> set (panes l)" "set (panes l) \<inter> set ids \<subseteq> set (panes ?l)"
    using remove_pane_panes [OF Cons.prems, of p] by auto
  with Cons.IH [OF inv] show ?case by auto
qed simp

lemma split_missing_spec:
  assumes "layout_inv l"
  shows "layout_inv (split_missing d ids l)
    \<and> set (panes l) \<subseteq> set (panes (split_missing d ids l))
    \<and> set (panes (split_missing d ids l)) \<subseteq> set (panes l) \<union> set ids"
  using assms unfolding split_missing_def
proof (induction ids arbitrary: l)
  case (Cons p ids)
  let ?l = "if layout_contains l p then l else split_focused l p d"
  have inv: "layout_inv ?l" using Cons.prems by (simp add: split_focused_inv)
  have "set (panes l) \<subseteq> set (panes ?l)" "set (panes ?l) \<subseteq> insert p (set (panes l))"
    using split_focused_panes [OF Cons.prems, of p d] by auto
  with Cons.IH [OF inv] show ?case by auto
qed simp

lemma reconcile_spec:
  assumes "layout_inv l"
  shows "layout_inv (reconcile_with_new_pane_direction l ids d)
    \<and> set (panes (reconcile_with_new_pane_direction l ids d)) \<subseteq> set (panes l) \<union> set ids
    \<and> set (panes l) \<inter> set ids \<subseteq> set (panes (reconcile_with_new_pane_direction l ids d))"
proof (cases ids)
  case Nil
  then show ?thesis using assms by (simp add: reconcile_with_new_pane_direction_def)
next
  case (Cons i rest)
  let ?l0 = "if list_ex (\<lambda>p. p \<in> set ids) (panes l) then l else single i"
  let ?l1 = "remove_dead ids (panes ?l0) ?l0"
  have inv0: "layout_inv ?l0" using assms by (simp add: single_inv)
  have p0: "set (panes ?l0) \<subseteq> set (panes l) \<union> set ids" "set (panes l) \<inter> set ids \<subseteq> set (panes ?l0)"
    using Cons by (auto simp: list_ex_iff)
  from remove_dead_spec [OF inv0, of ids "panes ?l0"]
  have 1: "layout_inv ?l1" "set (panes ?l1) \<subseteq> set (panes ?l0)"
    "set (panes ?l0) \<inter> set ids \<subseteq> set (panes ?l1)" by blast+
  have eq: "reconcile_with_new_pane_direction l ids d = split_missing d ids ?l1"
    using Cons by (simp add: reconcile_with_new_pane_direction_def Let_def)
  from split_missing_spec [OF 1(1), of d ids] 1(2,3) p0 show ?thesis unfolding eq by blast
qed

lemma reconcile_noop:
  assumes "set ids = set (panes l)"
  shows "reconcile_with_new_pane_direction l ids d = l"
proof (cases ids)
  case Nil
  then show ?thesis by (simp add: reconcile_with_new_pane_direction_def)
next
  case (Cons i rest)
  have rem: "remove_dead ids ps l = l" if "set ps \<subseteq> set ids" for ps
    using that unfolding remove_dead_def by (induction ps) auto
  have spl: "split_missing d js l = l" if "set js \<subseteq> set (panes l)" for js
    using that unfolding split_missing_def by (induction js) (auto simp: layout_contains_iff)
  have "list_ex (\<lambda>p. p \<in> set ids) (panes l)" using Cons assms by (auto simp: list_ex_iff)
  then have "reconcile_with_new_pane_direction l ids d = split_missing d ids (remove_dead ids (panes l) l)"
    using Cons by (simp add: reconcile_with_new_pane_direction_def)
  then show ?thesis using rem spl assms by simp
qed

text \<open>
  The dead panes whose removal, and the missing panes whose insertion at the focus, has no representable result:
  the scaled weights are zero or not finite.
\<close>

fun refused_removals :: "string list \<Rightarrow> string list \<Rightarrow> pane_layout \<Rightarrow> string list" where
  "refused_removals ids [] l = []"
| "refused_removals ids (p # ps) l =
     (if p \<in> set ids then refused_removals ids ps l
      else if normalize (prune_leaf (pl_root l) p) = None then p # refused_removals ids ps l
      else refused_removals ids ps (snd (remove_pane l p)))"

fun refused_splits :: "split_direction \<Rightarrow> string list \<Rightarrow> pane_layout \<Rightarrow> string list" where
  "refused_splits d [] l = []"
| "refused_splits d (p # ps) l =
     (if p \<in> set (panes l) then refused_splits d ps l
      else if normalize (insert_leaf (pl_root l) p (pl_focused l) (case d of SdRight \<Rightarrow> DirRight | SdDown \<Rightarrow> DirDown)) = None
      then p # refused_splits d ps l
      else refused_splits d ps (split_focused l p d))"

lemma is_single_panes: "is_single l \<Longrightarrow> \<exists>p. panes l = [p]"
  by (auto simp: is_single_def panes_def split: mux_pane_layout.splits)

lemma remove_pane_representable:
  assumes "layout_inv l" "p \<in> set (panes l)" "q \<in> set (panes l)" "q \<noteq> p"
  shows "normalize (prune_leaf (pl_root l) p) = None \<Longrightarrow> remove_pane l p = (False, l)"
    and "normalize (prune_leaf (pl_root l) p) \<noteq> None \<Longrightarrow> panes (snd (remove_pane l p)) = filter (\<lambda>i. i \<noteq> p) (panes l)"
proof -
  have "\<not> is_single l" using is_single_panes [of l] assms(2-4) by auto
  then show "normalize (prune_leaf (pl_root l) p) = None \<Longrightarrow> remove_pane l p = (False, l)"
    by (simp add: remove_pane_def)
  assume "normalize (prune_leaf (pl_root l) p) \<noteq> None"
  then have "remove_pane l p = (True, snd (remove_pane l p))"
    using assms(2) \<open>\<not> is_single l\<close> by (auto simp: remove_pane_def layout_contains_iff Let_def)
  from remove_pane_ok [OF assms(1) this] show "panes (snd (remove_pane l p)) = filter (\<lambda>i. i \<noteq> p) (panes l)" by simp
qed

lemma remove_dead_exact:
  assumes "layout_inv l" "q \<in> set (panes l)" "q \<in> set ids" "distinct ps" "set ps \<subseteq> set (panes l)"
  shows "set (panes (remove_dead ids ps l)) = set (panes l) - (set ps - set ids) \<union> set (refused_removals ids ps l)
    \<and> set (refused_removals ids ps l) \<subseteq> set ps - set ids"
  using assms
proof (induction ps arbitrary: l)
  case (Cons p ps)
  show ?case
  proof (cases "p \<in> set ids")
    case True
    then show ?thesis using Cons.IH [OF Cons.prems(1-3)] Cons.prems(4,5) by (auto simp: remove_dead_def)
  next
    case dead: False
    then have pq: "p \<in> set (panes l)" "q \<noteq> p" using Cons.prems by auto
    note rem = remove_pane_representable [OF Cons.prems(1) pq(1) Cons.prems(2) pq(2)]
    show ?thesis
    proof (cases "normalize (prune_leaf (pl_root l) p) = None")
      case True
      then show ?thesis
        using Cons.IH [OF Cons.prems(1-3)] Cons.prems(4,5) rem(1) dead by (auto simp: remove_dead_def)
    next
      case False
      let ?l = "snd (remove_pane l p)"
      have pn: "panes ?l = filter (\<lambda>i. i \<noteq> p) (panes l)" by (rule rem(2) [OF False])
      have "remove_dead ids (p # ps) l = remove_dead ids ps ?l" using dead by (simp add: remove_dead_def)
      then show ?thesis
        using Cons.IH [of ?l] Cons.prems pn pq(2) dead False remove_pane_inv [OF Cons.prems(1), of p] by auto
    qed
  qed
qed (simp add: remove_dead_def)

lemma split_focused_representable:
  fixes d :: split_direction
  assumes "layout_inv l" "p \<notin> set (panes l)"
  defines "tree \<equiv> insert_leaf (pl_root l) p (pl_focused l) (case d of SdRight \<Rightarrow> DirRight | SdDown \<Rightarrow> DirDown)"
  shows "normalize tree = None \<Longrightarrow> split_focused l p d = l"
    and "normalize tree \<noteq> None \<Longrightarrow> set (panes (split_focused l p d)) = insert p (set (panes l))"
proof -
  have f: "pl_focused l \<in> set (panes l)" using assms(1) by (simp add: layout_inv_def)
  show "normalize tree = None \<Longrightarrow> split_focused l p d = l"
    by (auto simp: split_focused_def insert_beside_def tree_def)
  assume "normalize tree \<noteq> None"
  then have "insert_beside l p (pl_focused l) (case d of SdRight \<Rightarrow> DirRight | SdDown \<Rightarrow> DirDown) = (True, split_focused l p d)"
    using assms(2) f by (auto simp: split_focused_def insert_beside_def layout_contains_iff tree_def)
  from insert_beside_ok [OF assms(1) this] f show "set (panes (split_focused l p d)) = insert p (set (panes l))"
    by (simp add: set_insert_beside_list)
qed

lemma split_missing_exact:
  assumes "layout_inv l" "distinct ids"
  shows "set (panes (split_missing d ids l)) = set (panes l) \<union> (set ids - set (refused_splits d ids l))
    \<and> set (refused_splits d ids l) \<subseteq> set ids - set (panes l)"
  using assms
proof (induction ids arbitrary: l)
  case (Cons p ids)
  show ?case
  proof (cases "p \<in> set (panes l)")
    case True
    then show ?thesis using Cons.IH [OF Cons.prems(1)] Cons.prems(2) by (auto simp: split_missing_def layout_contains_iff)
  next
    case new: False
    note rep = split_focused_representable [OF Cons.prems(1) new, of d]
    show ?thesis
    proof (cases "normalize (insert_leaf (pl_root l) p (pl_focused l) (case d of SdRight \<Rightarrow> DirRight | SdDown \<Rightarrow> DirDown)) = None")
      case True
      then have "split_missing d (p # ids) l = split_missing d ids l"
        using rep(1) by (simp add: split_missing_def)
      then show ?thesis using Cons.IH [OF Cons.prems(1)] Cons.prems(2) True new by auto
    next
      case False
      have "split_missing d (p # ids) l = split_missing d ids (split_focused l p d)"
        using new by (simp add: split_missing_def layout_contains_iff)
      then show ?thesis
        using Cons.IH [OF split_focused_inv [OF Cons.prems(1)], of p d] Cons.prems(2) False new rep(2) [OF False] by auto
    qed
  qed
qed (simp add: split_missing_def)

lemma reconcile_exact:
  assumes "layout_inv l" "ids \<noteq> []" "distinct ids"
  defines "l0 \<equiv> if list_ex (\<lambda>p. p \<in> set ids) (panes l) then l else single (hd ids)"
  shows "set (panes (reconcile_with_new_pane_direction l ids d)) =
    set ids - set (refused_splits d ids (remove_dead ids (panes l0) l0)) \<union> set (refused_removals ids (panes l0) l0)"
proof -
  have inv: "layout_inv l0" using assms(1) by (simp add: l0_def single_inv)
  have "\<exists>q \<in> set (panes l0). q \<in> set ids" using assms(2) by (auto simp: l0_def list_ex_iff)
  then obtain q where q: "q \<in> set (panes l0)" "q \<in> set ids" by blast
  have dist: "distinct (panes l0)" using inv by (simp add: layout_inv_def)
  have eq: "reconcile_with_new_pane_direction l ids d = split_missing d ids (remove_dead ids (panes l0) l0)"
    using assms(2) by (cases ids) (simp_all add: reconcile_with_new_pane_direction_def l0_def Let_def)
  have inv1: "layout_inv (remove_dead ids (panes l0) l0)" using remove_dead_spec [OF inv] by blast
  from remove_dead_exact [OF inv q dist subset_refl] split_missing_exact [OF inv1 assms(3), of d]
  show ?thesis unfolding eq by blast
qed

section \<open>Navigation stays inside the layout\<close>

lemma visit_rects_panes:
  "well_sized l \<Longrightarrow> map fst (visit_rects l area gap) = leaves l"
  "length cs = length ws \<Longrightarrow> list_all well_sized cs \<Longrightarrow>
     map fst (visit_children horizontal area gap usable offset cs ws) = concat (map leaves cs)"
proof (induction l area gap and horizontal area gap usable offset cs ws
    rule: visit_rects_visit_children.induct)
  case (1 i area gap)
  show ?case by simp
next
  case (2 d ws cs area gap)
  from 2(2) have "length cs = length ws" "list_all well_sized cs" by simp_all
  then show ?case
    unfolding visit_rects.simps Let_def leaves.simps by (rule 2(1) [OF refl refl refl refl])
next
  case (3 horizontal area gap usable offset c cs w ws)
  have prems: "well_sized c" "length cs = length ws" "list_all well_sized cs" using 3(3,4) by simp_all
  show ?case
    unfolding visit_children.simps Let_def map_append
      3(1) [OF refl refl prems(1)] 3(2) [OF refl refl prems(2,3)] by simp
qed simp_all

lemma canonical_well_sized: "canonical l \<Longrightarrow> well_sized l"
  by (induction l rule: canonical.induct) (auto simp: list_all_iff)

lemma rects_panes: "layout_inv l \<Longrightarrow> map fst (rects l area gap) = panes l"
  by (simp add: rects_def panes_def layout_inv_def canonical_well_sized visit_rects_panes)

lemma min_by_total_mem: "min_by_total xs = Some x \<Longrightarrow> x \<in> set xs"
  by (induction xs arbitrary: x) (auto split: option.splits if_splits)

lemma neighbor_member:
  assumes "layout_inv l" "neighbor l from d area gap = Some p"
  shows "p \<in> set (panes l) \<and> p \<noteq> from \<and> from \<in> set (panes l)"
proof -
  let ?rs = "rects l area gap"
  obtain o' where o': "find (\<lambda>(p, _). p = from) ?rs = Some (from, o')"
    using assms(2) find_SomeD [of "\<lambda>(p, _). p = from" ?rs]
    by (fastforce simp: neighbor_def Let_def split: option.splits)
  let ?score = "\<lambda>(p, r). case directional_gap o' r d of None \<Rightarrow> None
      | Some (primary, overlap) \<Rightarrow> Some (f32_mul_add overlap (f32_lit True 1 1000) primary, p)"
  obtain k where "min_by_total (List.map_filter ?score (filter (\<lambda>(p, _). p \<noteq> from) ?rs)) = Some (k, p)"
    using assms(2) o' by (auto simp: neighbor_def Let_def)
  then have "(k, p) \<in> set (List.map_filter ?score (filter (\<lambda>(p, _). p \<noteq> from) ?rs))"
    by (rule min_by_total_mem)
  then obtain q r where qr: "(q, r) \<in> set ?rs" "q \<noteq> from" "?score (q, r) = Some (k, p)"
    by (auto simp: map_filter_def)
  then have "q = p" by (auto split: option.splits)
  moreover have "p' \<in> set (panes l)" if "(p', r') \<in> set ?rs" for p' r'
    using that rects_panes [OF assms(1), of area gap] by (metis fst_conv image_eqI list.set_map)
  ultimately show ?thesis using qr o' find_SomeD by fast
qed

section \<open>Runs of edits\<close>

text \<open>The mutating methods of \<^verbatim>\<open>PaneLayout\<close> as events of one machine.\<close>

datatype layout_edit =
    EdFocus string
  | EdInsert string string direction
  | EdSplit string split_direction
  | EdRemove string
  | EdMove string string direction
  | EdSwap string string
  | EdReplace string string
  | EdMerge pane_layout
  | EdReconcile "string list" split_direction
  | EdResize mux_pane_layout

fun apply_edit :: "layout_edit \<Rightarrow> pane_layout \<Rightarrow> pane_layout" where
  "apply_edit (EdFocus p) l = snd (set_focus l p)"
| "apply_edit (EdInsert p t d) l = snd (insert_beside l p t d)"
| "apply_edit (EdSplit p d) l = split_focused l p d"
| "apply_edit (EdRemove p) l = snd (remove_pane l p)"
| "apply_edit (EdMove p t d) l = snd (move_beside l p t d)"
| "apply_edit (EdSwap a b) l = snd (layout_swap l a b)"
| "apply_edit (EdReplace p r) l = snd (layout_replace l p r)"
| "apply_edit (EdMerge q) l = snd (layout_merge l q)"
| "apply_edit (EdReconcile ids d) l = reconcile_with_new_pane_direction l ids d"
| "apply_edit (EdResize q) l = snd (resize l q)"

fun edit_admissible :: "layout_edit \<Rightarrow> bool" where
  "edit_admissible (EdMerge q) = layout_inv q"
| "edit_admissible (EdResize q) = valid_layout q"
| "edit_admissible _ = True"

fun edit_adds :: "layout_edit \<Rightarrow> string set" where
  "edit_adds (EdInsert p t d) = {p}"
| "edit_adds (EdSplit p d) = {p}"
| "edit_adds (EdReplace p r) = {r}"
| "edit_adds (EdMerge q) = set (panes q)"
| "edit_adds (EdReconcile ids d) = set ids"
| "edit_adds _ = {}"

lemma apply_edit_inv: "layout_inv l \<Longrightarrow> edit_admissible e \<Longrightarrow> layout_inv (apply_edit e l)"
proof (cases e)
  case (EdResize q)
  then show "layout_inv l \<Longrightarrow> edit_admissible e \<Longrightarrow> layout_inv (apply_edit e l)"
    using resize_spec [of l q] by (cases "resize l q") auto
qed (auto intro: inv_intros simp: reconcile_spec)

lemma insert_beside_panes:
  assumes "layout_inv l"
  shows "set (panes (snd (insert_beside l p t d))) \<subseteq> insert p (set (panes l))"
proof (cases "insert_beside l p t d")
  case (Pair b l')
  then show ?thesis
    using insert_beside_ok [OF assms, of p t d l'] insert_beside_fail [of l p t d l']
    by (cases b) (auto simp: set_insert_beside_list)
qed

lemma move_beside_panes:
  assumes "layout_inv l"
  shows "set (panes (snd (move_beside l p t d))) \<subseteq> set (panes l)"
proof (cases "move_beside l p t d")
  case (Pair b l')
  then show ?thesis
    using move_beside_ok [OF assms, of p t d l'] move_beside_fail [of l p t d l']
    by (cases b) (auto simp: insert_beside_list_def split: if_splits)
qed

lemma layout_swap_panes:
  "set (panes (snd (layout_swap l a b))) \<subseteq> set (panes l)"
  by (auto simp: layout_swap_def layout_contains_iff panes_def leaves_swap_leaves split: if_splits)

lemma layout_replace_panes:
  assumes "layout_inv l"
  shows "set (panes (snd (layout_replace l p r))) \<subseteq> insert r (set (panes l))"
proof (cases "layout_replace l p r")
  case (Pair b l')
  then show ?thesis
    using layout_replace_ok [OF assms, of p r l'] layout_replace_fail [of l p r l']
    by (cases b) (auto split: if_splits)
qed

lemma layout_merge_panes:
  assumes "layout_inv l" "layout_inv q"
  shows "set (panes (snd (layout_merge l q))) \<subseteq> set (panes l) \<union> set (panes q)"
proof (cases "layout_merge l q")
  case (Pair b l')
  then show ?thesis
    using layout_merge_ok [OF assms, of l'] layout_merge_fail [of l q l']
    by (cases b) (auto)
qed

lemma apply_edit_panes:
  assumes "layout_inv l" "edit_admissible e"
  shows "set (panes (apply_edit e l)) \<subseteq> set (panes l) \<union> edit_adds e"
proof (cases e)
  case (EdFocus p)
  then show ?thesis by simp
next
  case (EdInsert p t d)
  with insert_beside_panes [OF assms(1), of p t d] show ?thesis by auto
next
  case (EdSplit p d)
  with split_focused_panes [OF assms(1), of p d] show ?thesis by auto
next
  case (EdRemove p)
  with remove_pane_panes [OF assms(1), of p] show ?thesis by auto
next
  case (EdMove p t d)
  with move_beside_panes [OF assms(1), of p t d] show ?thesis by auto
next
  case (EdSwap a b)
  with layout_swap_panes [of l a b] show ?thesis by auto
next
  case (EdReplace p r)
  with layout_replace_panes [OF assms(1), of p r] show ?thesis by auto
next
  case (EdMerge q)
  with layout_merge_panes [OF assms(1), of q] assms(2) show ?thesis by auto
next
  case (EdReconcile ids d)
  with reconcile_spec [OF assms(1), of ids d] show ?thesis by auto
next
  case (EdResize q)
  with assms resize_spec [of l q] show ?thesis by (cases "resize l q") auto
qed

interpretation layout: accounted_machine apply_edit layout_inv edit_admissible
  "\<lambda>l. set (panes l)" edit_adds
  by unfold_locales (auto intro: apply_edit_inv dest: subsetD [OF apply_edit_panes])

section \<open>A split of two panes\<close>

text \<open>The layout after one split, with the halves \<^verbatim>\<open>0.5\<close> and \<^verbatim>\<open>0.5\<close>.\<close>

definition two_panes :: "string \<Rightarrow> string \<Rightarrow> string \<Rightarrow> pane_layout" where
  "two_panes a b f =
     \<lparr>pl_root = Split SplitRight [f32_half, f32_half] [Pane a, Pane b], pl_focused = f\<rparr>"

lemma half_unit: "unit_weight f32_half"
proof -
  have "representable (1 * 2 ^ 148)" by (rule representable_pow) (simp_all add: f32_limit_def)
  then show ?thesis by (simp add: unit_weight_def f32_half_eq f32_one_def)
qed

lemma half_good: "\<not> bad_weight f32_half" "\<not> f32_le f32_half f32_zero"
  using unit_weight_pos [OF half_unit] by (auto simp: bad_weight_def f32_pos_iff f32_half_eq f32_le_def is_finite_def)

lemma sum_halves: "f32_sum [f32_half, f32_half] = Fin False f32_one"
proof -
  have "f32_add f32_zero f32_half = f32_half"
    using half_unit f32_add_nonneg [of 0 "2 ^ 148"]
    by (auto simp: unit_weight_def f32_half_eq f32_round_def representable_def)
  then show ?thesis by (simp add: f32_sum_def f32_add_half)
qed

lemma half_div_one: "f32_div f32_half (Fin False f32_one) = f32_half"
  using half_unit by (auto simp: unit_weight_def f32_half_eq f32_div_one simp del: f32_div.simps)

lemma normalize_halves:
  "normalize (Split d [f32_half, f32_half] [Pane a, Pane b]) = Some (Split d [f32_half, f32_half] [Pane a, Pane b])"
  by (simp add: half_good sum_halves half_div_one splice_child_def is_finite_def)

lemma insert_beside_single:
  "a \<noteq> b \<Longrightarrow> insert_beside (single a) b a DirRight = (True, two_panes a b b)"
  by (simp add: insert_beside_def single_def layout_contains_def split_axis_def leading_def
      normalize_halves two_panes_def Let_def del: normalize.simps)

lemma two_panes_inv: "a \<noteq> b \<Longrightarrow> f = a \<or> f = b \<Longrightarrow> layout_inv (two_panes a b f)"
  by (auto simp: layout_inv_def two_panes_def half_unit same_axis_def panes_def)

lemma panes_two_panes [simp]: "panes (two_panes a b f) = [a, b]"
  by (simp add: two_panes_def panes_def)

lemma contains_two_panes [simp]: "layout_contains (two_panes a b f) p \<longleftrightarrow> p = a \<or> p = b"
  by (auto simp: layout_contains_iff)

section \<open>Properties\<close>

text \<open>
  Inserting a pane beside another.  On success the new layout is well-formed and shows the
  old panes with the new one placed directly before or after its target and focused; on refusal
  the layout is untouched.
\<close>

lemma insert_beside_correct:
  assumes "layout_inv l" "insert_beside l p t d = (ok, l')"
  shows "if ok
    then layout_inv l' \<and> panes l' = insert_beside_list p t d (panes l) \<and> pl_focused l' = p
      \<and> p \<notin> set (panes l) \<and> t \<in> set (panes l)
    else l' = l"
  using assms insert_beside_ok insert_beside_fail by (cases ok) auto

text \<open>
  Removing a pane.  On success exactly that pane is gone, the order of the others is kept,
  and the focus moves only when the removed pane had it; on refusal the layout is untouched.
\<close>

lemma remove_pane_correct:
  assumes "layout_inv l" "remove_pane l p = (ok, l')"
  shows "if ok
    then layout_inv l' \<and> panes l' = filter (\<lambda>i. i \<noteq> p) (panes l) \<and> p \<in> set (panes l)
      \<and> (pl_focused l \<noteq> p \<longrightarrow> pl_focused l' = pl_focused l)
    else l' = l"
  using assms remove_pane_ok remove_pane_fail by (cases ok) auto

lemma remove_from_two_panes: "a \<noteq> b \<Longrightarrow> remove_pane (two_panes a b b) b = (True, single a)"
proof -
  assume "a \<noteq> b"
  then have "prune_leaf (pl_root (two_panes a b b)) b = Split SplitRight [f32_half] [Pane a]"
    by (simp add: two_panes_def is_pane_def remove_nth_def)
  moreover have "normalize (Split SplitRight [f32_half] [Pane a]) = Some (Pane a)"
  proof -
    have "f32_sum [f32_half] = f32_half"
      using half_unit f32_add_nonneg [of 0 "2 ^ 148"]
      by (auto simp: f32_sum_def unit_weight_def f32_half_eq f32_round_def representable_def)
    then show ?thesis by (simp add: half_good splice_child_def, simp add: f32_half_eq is_finite_def)
  qed
  moreover have "\<not> is_single (two_panes a b b)" by (simp add: is_single_def two_panes_def)
  ultimately show ?thesis
    using \<open>a \<noteq> b\<close>
    by (simp add: remove_pane_def Let_def) (simp add: two_panes_def single_def layout_contains_def)
qed

text \<open>
  Moving a pane beside another rearranges the panes of the layout and loses none: the leaves
  are those without the moved pane, with it put back beside the target.
\<close>

lemma move_beside_correct:
  assumes "layout_inv l" "move_beside l p t d = (ok, l')"
  shows "if ok
    then layout_inv l' \<and> mset (panes l') = mset (panes l) \<and> pl_focused l' = p
      \<and> panes l' = insert_beside_list p t d (filter (\<lambda>i. i \<noteq> p) (panes l))
    else l' = l"
proof (cases ok)
  case True
  with assms have ok: "layout_inv l'" "pl_focused l' = p" "p \<in> set (panes l)" "t \<in> set (panes l)"
    "panes l' = insert_beside_list p t d (filter (\<lambda>i. i \<noteq> p) (panes l))"
    using move_beside_ok [of l p t d l'] by auto
  have "p \<noteq> t" using True assms(2) by (auto simp: move_beside_def)
  then have "set (panes l') = set (panes l)"
    unfolding ok(5) using ok(3,4) set_insert_beside_list [of t "filter (\<lambda>i. i \<noteq> p) (panes l)" p d] by auto
  then have "mset (panes l') = mset (panes l)"
    using ok(1) assms(1) by (simp add: layout_inv_def set_eq_iff_mset_eq_distinct)
  with ok show ?thesis using True by simp
next
  case False
  with assms show ?thesis using move_beside_fail by auto
qed

text \<open>
  Merging two layouts puts the panes of the second after those of the first and keeps both
  orders; the focus is the one of the merged layout.  Overlapping layouts are refused unchanged.
\<close>

lemma layout_merge_correct:
  assumes "layout_inv l" "layout_inv q" "layout_merge l q = (ok, l')"
  shows "if ok
    then layout_inv l' \<and> panes l' = panes l @ panes q \<and> pl_focused l' = pl_focused q
    else l' = l"
proof (cases ok)
  case True
  with assms layout_merge_ok [of l q l'] show ?thesis by simp
next
  case False
  with assms(3) layout_merge_fail [of l q l'] show ?thesis by simp
qed

text \<open>
  Swapping exchanges the places of two panes and replacing puts a new pane in the place of an
  old one; neither changes the shape of the tree, and both refuse unchanged.
\<close>

lemma swap_replace_correct:
  assumes "layout_inv l" "layout_swap l a b = (ok, s)" "layout_replace l a b = (ok', r)"
  shows "(if ok then layout_inv s \<and> pl_focused s = pl_focused l
            \<and> panes s = map (\<lambda>i. if i = a then b else if i = b then a else i) (panes l) else s = l)
    \<and> (if ok' then layout_inv r \<and> pl_focused r = (if pl_focused l = a then b else pl_focused l)
            \<and> panes r = map (\<lambda>i. if i = a then b else i) (panes l) else r = l)
    \<and> \<not> (ok \<and> ok')"
proof (intro conjI)
  show "if ok then layout_inv s \<and> pl_focused s = pl_focused l
      \<and> panes s = map (\<lambda>i. if i = a then b else if i = b then a else i) (panes l) else s = l"
    using assms(1,2) layout_swap_ok [of l a b s] layout_swap_fail [of l a b s] by (cases ok) simp_all
  show "if ok' then layout_inv r \<and> pl_focused r = (if pl_focused l = a then b else pl_focused l)
      \<and> panes r = map (\<lambda>i. if i = a then b else i) (panes l) else r = l"
    using assms(1,3) layout_replace_ok [of l a b r] layout_replace_fail [of l a b r] by (cases ok') simp_all
  show "\<not> (ok \<and> ok')"
    using assms(2,3) by (auto simp: layout_swap_def layout_replace_def split: if_splits)
qed

text \<open>
  C23.  Reconciling a layout with the distinct panes that are alive keeps it well-formed and shows exactly these panes:
  each live pane except one whose insertion has no representable weights, and no other pane except a dead one
  whose removal has none.  (A layout with such an exception is rejected by the caller.)  A live pane that is shown is
  never dropped; a layout that already shows exactly the live panes is not touched; with no live pane nothing
  happens.
\<close>

theorem reconcile_correct:
  fixes d :: split_direction
  assumes "layout_inv l" "distinct ids"
  defines "r \<equiv> reconcile_with_new_pane_direction l ids d"
    and "l0 \<equiv> if list_ex (\<lambda>p. p \<in> set ids) (panes l) then l else single (hd ids)"
  shows "layout_inv r
    \<and> (ids \<noteq> [] \<longrightarrow> set (panes r) =
         set ids - set (refused_splits d ids (remove_dead ids (panes l0) l0)) \<union> set (refused_removals ids (panes l0) l0))
    \<and> (ids = [] \<longrightarrow> r = l)
    \<and> set (panes r) \<subseteq> set (panes l) \<union> set ids \<and> set (panes l) \<inter> set ids \<subseteq> set (panes r)
    \<and> (set ids = set (panes l) \<longrightarrow> r = l)"
proof -
  have "ids \<noteq> [] \<Longrightarrow> set (panes r) =
      set ids - set (refused_splits d ids (remove_dead ids (panes l0) l0)) \<union> set (refused_removals ids (panes l0) l0)"
    unfolding r_def l0_def by (rule reconcile_exact [OF assms(1) _ assms(2)])
  moreover have "r = l" if "ids = []" using that by (simp add: r_def reconcile_with_new_pane_direction_def)
  ultimately show ?thesis using reconcile_spec [OF assms(1), of ids d] reconcile_noop [of ids l d] unfolding r_def by blast
qed

text \<open>The layout of \<open>a\<close> and \<open>b\<close> when \<open>b\<close> died and \<open>c\<close> was started: both loops have work, and nothing is refused.\<close>

theorem reconcile_correct_witness:
  "layout_inv (two_panes ''a'' ''b'' ''b'') \<and>
   set (panes (reconcile_with_new_pane_direction (two_panes ''a'' ''b'' ''b'') [''a'', ''c''] SdRight)) = {''a'', ''c''}"
proof -
  have inv: "layout_inv (two_panes ''a'' ''b'' ''b'')" by (rule two_panes_inv) simp_all
  have rem: "remove_pane (two_panes ''a'' ''b'' ''b'') ''b'' = (True, single ''a'')"
    by (rule remove_from_two_panes) simp
  then have "normalize (prune_leaf (pl_root (two_panes ''a'' ''b'' ''b'')) ''b'') \<noteq> None"
    by (auto simp: remove_pane_def split: if_splits option.splits)
  then have none: "refused_removals [''a'', ''c''] [''a'', ''b''] (two_panes ''a'' ''b'' ''b'') = []" by simp
  have dead: "remove_dead [''a'', ''c''] [''a'', ''b''] (two_panes ''a'' ''b'' ''b'') = single ''a''"
    by (simp add: remove_dead_def rem)
  have "insert_beside (single ''a'') ''c'' ''a'' DirRight = (True, two_panes ''a'' ''c'' ''c'')"
    by (rule insert_beside_single) simp
  then have "normalize (insert_leaf (pl_root (single ''a'')) ''c'' ''a'' DirRight) \<noteq> None"
    by (auto simp: insert_beside_def split: if_splits option.splits)
  then have "refused_splits SdRight [''a'', ''c''] (single ''a'') = []" by (simp add: single_def panes_def)
  with reconcile_correct [OF inv, of "[''a'', ''c'']" SdRight] inv none dead show ?thesis by simp
qed

text \<open>
  A resize proposed by a client changes weights only: the panes, their order and the focus
  stay, the layout stays well-formed, and a proposal with another structure is refused.
\<close>

lemma resize_correct:
  assumes "layout_inv l" "valid_layout proposed" "resize l proposed = (ok, l')"
  shows "layout_inv l' \<and> panes l' = panes l \<and> pl_focused l' = pl_focused l
    \<and> (\<not> ok \<longrightarrow> l' = l) \<and> (ok \<longrightarrow> same_structure (pl_root l) (pl_root l'))"
proof -
  have "ok \<longrightarrow> same_structure (pl_root l) (pl_root l')"
    using assms(3) by (auto simp: resize_def split: option.splits if_splits)
  with resize_spec [OF assms] show ?thesis by simp
qed

text \<open>
  Navigation stays inside the layout: every pane gets exactly one rectangle, in order, and
  the neighbour of a pane in a direction is another pane of the same layout.
\<close>

lemma navigation_correct:
  assumes "layout_inv l"
  shows "map fst (rects l area gap) = panes l
    \<and> (\<forall>p. neighbor l from d area gap = Some p \<longrightarrow> p \<in> set (panes l) \<and> p \<noteq> from \<and> from \<in> set (panes l))"
  using rects_panes [OF assms] neighbor_member [OF assms] by blast

text \<open>
  C24.  Any sequence of layout edits keeps the layout well-formed and never shows a pane that
  neither was there nor was named by one of the edits.
\<close>

theorem edits_correct:
  assumes "layout_inv l" "list_all edit_admissible es"
  shows "layout_inv (fold apply_edit es l)
    \<and> set (panes (fold apply_edit es l)) \<subseteq> set (panes l) \<union> \<Union> (edit_adds ` set es)"
  using layout.run_inv [OF assms] layout.run_holds [OF assms] by simp

theorem edits_correct_witness:
  "layout_inv (fold apply_edit [EdInsert ''b'' ''a'' DirRight, EdSwap ''a'' ''b'', EdRemove ''a''] (single ''a''))"
  using edits_correct [OF single_inv, of "[EdInsert ''b'' ''a'' DirRight, EdSwap ''a'' ''b'', EdRemove ''a'']" "''a''"]
  by simp

end
