(* ===== verification/Terminal_History.thy ===== *)
theory Terminal_History
  imports Bootty_Prelude
begin

text \<open>
  \<^verbatim>\<open>crates/bootty-control/src/terminal_history.rs\<close>: the bounded history format (text, SGR styles,
  forward gaps), its validator, sanitizer and plain-text projection.  Text is a list of UTF-8
  bytes; the callback that \<^verbatim>\<open>walk_history\<close> feeds is modelled by the list of parts it receives.
\<close>

definition MAX_HISTORY_BYTES :: nat where "MAX_HISTORY_BYTES = 256 * 1024"

definition ESC :: char where "ESC = CHR 0x1B"

definition BEL :: char where "BEL = CHR 0x07"

text \<open>
  \<^verbatim>\<open>chars().any(char::is_control)\<close> on valid UTF-8: C0 and DEL are single bytes, and a C1 control
  \<open>U+0080..U+009F\<close> is the byte \<open>C2\<close> followed by a byte \<open>80..9F\<close>.  The parameter says which control
  bytes are tolerated.
\<close>

fun has_control :: "(char \<Rightarrow> bool) \<Rightarrow> string \<Rightarrow> bool" where
  "has_control ok [] = False"
| "has_control ok (c # cs) =
     ((of_char c < (32::nat) \<or> of_char c = (127::nat)) \<and> \<not> ok c
      \<or> of_char c = (194::nat) \<and> (case cs of [] \<Rightarrow> False | d # _ \<Rightarrow> (of_char d :: nat) \<in> {128..159})
      \<or> has_control ok cs)"

definition is_digit :: "char \<Rightarrow> bool" where
  "is_digit c = (48 \<le> (of_char c :: nat) \<and> of_char c \<le> (57 :: nat))"

definition whitespace_control :: "char \<Rightarrow> bool" where
  "whitespace_control c = (c = CHR 0x0A \<or> c = CHR 0x0D \<or> c = CHR 0x09)"

text \<open>\<^verbatim>\<open>str::parse::<uN>\<close>: an optional plus sign, at least one digit, no overflow.\<close>

definition parse_unsigned :: "nat \<Rightarrow> string \<Rightarrow> nat res" where
  "parse_unsigned w s =
     (if s = [] then Inl ''cannot parse integer from empty string''
      else let digits = (if hd s = CHR ''+'' then tl s else s)
           in if digits = [] \<or> \<not> list_all is_digit digits then Inl ''invalid digit found in string''
              else if read_base 10 digits < 2 ^ w then Inr (read_base 10 digits)
              else Inl ''number too large to fit in target type'')"

definition check_size :: "nat \<Rightarrow> nat \<Rightarrow> unit res" where
  "check_size bytes max_bytes =
     (if max_bytes < bytes
      then Inl (''Capture needs '' @ show_nat bytes @ '' bytes, exceeding the '' @ show_nat max_bytes
                @ '' byte limit; request fewer lines'')
      else Inr ())"

text \<open>The SGR codes that take no further parameter.\<close>

definition plain_sgr_code :: "nat \<Rightarrow> bool" where
  "plain_sgr_code n =
     (n \<le> 9 \<or> 21 \<le> n \<and> n \<le> 25 \<or> 27 \<le> n \<and> n \<le> 37 \<or> 39 \<le> n \<and> n \<le> 47 \<or> n = 49 \<or> n = 53
      \<or> n = 55 \<or> n = 59 \<or> 90 \<le> n \<and> n \<le> 97 \<or> 100 \<le> n \<and> n \<le> 107)"

text \<open>The \<^verbatim>\<open>for _ in 0..count\<close> loop over colour components; returns the parts left.\<close>

fun take_components :: "nat \<Rightarrow> string list \<Rightarrow> (string list) res" where
  "take_components 0 parts = Inr parts"
| "take_components (Suc n) [] = Inl ''incomplete saved terminal color''"
| "take_components (Suc n) (p # parts) =
     (case parse_unsigned 8 p of Inl e \<Rightarrow> Inl e | Inr _ \<Rightarrow> take_components n parts)"

lemma take_components_length: "take_components n parts = Inr rest \<Longrightarrow> length rest \<le> length parts"
  by (induction n parts rule: take_components.induct) (auto split: sum.splits)

function validate_sgr_parts :: "string list \<Rightarrow> unit res" where
  "validate_sgr_parts [] = Inr ()"
| "validate_sgr_parts (part # parts) =
     (if take 2 part = ''4:'' then
        (if drop 2 part \<in> {''0'', ''1'', ''2'', ''3'', ''4'', ''5''} then validate_sgr_parts parts
         else Inl ''invalid saved underline style'')
      else
        (case (if part = [] then Inr 0 else parse_unsigned 8 part) of
           Inl e \<Rightarrow> Inl e
         | Inr code \<Rightarrow>
             if plain_sgr_code code then validate_sgr_parts parts
             else if code = 38 \<or> code = 48 \<or> code = 58 then
               (case parts of
                  [] \<Rightarrow> Inl ''invalid saved terminal color mode''
                | mode # parts' \<Rightarrow>
                    if mode = ''5'' \<or> mode = ''2'' then
                      (case take_components (if mode = ''5'' then 1 else 3) parts' of
                         Inl e \<Rightarrow> Inl e
                       | Inr rest \<Rightarrow> validate_sgr_parts rest)
                    else Inl ''invalid saved terminal color mode'')
             else Inl ''unsupported saved terminal style''))"
  by pat_completeness auto
termination
  by (relation "measure length") (auto dest: take_components_length split: if_splits)

definition validate_sgr :: "string \<Rightarrow> unit res" where
  "validate_sgr parameters = validate_sgr_parts (split_on (CHR '';'') parameters)"

definition parameter_char :: "char \<Rightarrow> bool" where
  "parameter_char c = (is_digit c \<or> c = CHR '';'' \<or> c = CHR '':'')"

text \<open>
  One control sequence after the leading escape of \<open>rest\<close>: either an error, or the bytes the
  callback receives (\<open>None\<close> when it is not called) and the text after the sequence.
\<close>

definition walk_osc :: "string \<Rightarrow> string res" where
  "walk_osc body =
     (let terminator = dropWhile (\<lambda>c. c \<noteq> BEL \<and> c \<noteq> ESC) body
      in case terminator of
           [] \<Rightarrow> Inl ''incomplete terminal capture OSC''
         | c # after \<Rightarrow>
             if c = BEL then Inr after
             else (case after of
                     d # after' \<Rightarrow> if d = CHR 0x5C then Inr after'
                                  else Inl ''invalid terminal capture OSC terminator''
                   | [] \<Rightarrow> Inl ''invalid terminal capture OSC terminator''))"

definition walk_csi :: "bool \<Rightarrow> string \<Rightarrow> (string option \<times> string) res" where
  "walk_csi keep_styles body =
     (let parameters = takeWhile parameter_char body;
          terminator = dropWhile parameter_char body
      in case terminator of
           [] \<Rightarrow> Inl ''incomplete saved terminal style''
         | c # after \<Rightarrow>
             if c = CHR ''C'' then
               (if parameters = [] \<or> \<not> list_all is_digit parameters
                then Inl ''invalid saved terminal gap''
                else case parse_unsigned 16 parameters of
                       Inl e \<Rightarrow> Inl e
                     | Inr gap \<Rightarrow>
                         if gap = 0 then Inl ''invalid saved terminal gap''
                         else Inr (Some (if keep_styles then [ESC, CHR ''[''] @ parameters @ [c]
                                         else replicate gap (CHR '' '')), after))
             else if c = CHR ''m'' then
               (case validate_sgr parameters of
                  Inl e \<Rightarrow> Inl e
                | Inr _ \<Rightarrow>
                    Inr (if keep_styles then Some ([ESC, CHR ''[''] @ parameters @ [c]) else None,
                         after))
             else Inl ''saved terminal history contains a non-style command'')"

definition walk_control ::
  "bool \<Rightarrow> bool \<Rightarrow> string \<Rightarrow> (string option \<times> string) res" where
  "walk_control strip_osc keep_styles rest =
     (if strip_osc \<and> take 2 rest = [ESC, CHR '']''] then
        (case walk_osc (drop 2 rest) of Inl e \<Rightarrow> Inl e | Inr after \<Rightarrow> Inr (None, after))
      else if take 2 rest = [ESC, CHR ''[''] then walk_csi keep_styles (drop 2 rest)
      else Inl ''saved terminal history contains a non-style escape'')"

lemma walk_osc_length: "walk_osc body = Inr after \<Longrightarrow> length after \<le> length body"
  using length_dropWhile_le [of "\<lambda>c. c \<noteq> BEL \<and> c \<noteq> ESC" body]
  by (auto simp: walk_osc_def Let_def split: list.splits if_splits)

lemma walk_csi_length: "walk_csi k body = Inr (p, after) \<Longrightarrow> length after \<le> length body"
  using length_dropWhile_le [of parameter_char body]
  by (auto simp: walk_csi_def Let_def split: list.splits if_splits sum.splits)

lemma walk_control_length:
  "walk_control s k rest = Inr (p, after) \<Longrightarrow> length after < length rest"
  by (cases rest)
    (auto simp: walk_control_def split: if_splits sum.splits
      dest!: walk_osc_length walk_csi_length)

text \<open>
  The main loop.  \<open>out\<close> is the number of bytes pushed so far; the result is the list of parts
  pushed from here on.
\<close>

function walk_loop :: "bool \<Rightarrow> bool \<Rightarrow> nat \<Rightarrow> string \<Rightarrow> (string list) res" where
  "walk_loop strip_osc keep_styles out rest =
     (if rest = [] then Inr []
      else
        let plain = takeWhile (\<lambda>c. c \<noteq> ESC) rest;
            controls = dropWhile (\<lambda>c. c \<noteq> ESC) rest
        in if has_control whitespace_control plain
           then Inl ''saved terminal history contains non-presentation controls''
           else
             (let out1 = sat_add 64 out (length plain)
              in case check_size out1 MAX_HISTORY_BYTES of
                   Inl e \<Rightarrow> Inl e
                 | Inr _ \<Rightarrow>
                     if controls = [] then Inr [plain]
                     else
                       (case walk_control strip_osc keep_styles controls of
                          Inl e \<Rightarrow> Inl e
                        | Inr (None, after) \<Rightarrow>
                            (case walk_loop strip_osc keep_styles out1 after of
                               Inl e \<Rightarrow> Inl e
                             | Inr parts \<Rightarrow> Inr (plain # parts))
                        | Inr (Some part, after) \<Rightarrow>
                            (let out2 = sat_add 64 out1 (length part)
                             in case check_size out2 MAX_HISTORY_BYTES of
                                  Inl e \<Rightarrow> Inl e
                                | Inr _ \<Rightarrow>
                                    (case walk_loop strip_osc keep_styles out2 after of
                                       Inl e \<Rightarrow> Inl e
                                     | Inr parts \<Rightarrow> Inr (plain # part # parts))))))"
  by pat_completeness auto
termination
proof (relation "measure (\<lambda>(_, _, _, rest). length rest)", goal_cases)
  case (2 strip_osc keep_styles out rest plain controls out1 u a p after)
  have "length after < length controls" using walk_control_length 2 by fastforce
  also have "\<dots> \<le> length rest" using 2 by (simp add: length_dropWhile_le)
  finally show ?case by simp
next
  case (3 strip_osc keep_styles out rest plain controls out1 u a p after part out2 v)
  have "length after < length controls" using walk_control_length 3 by fastforce
  also have "\<dots> \<le> length rest" using 3 by (simp add: length_dropWhile_le)
  finally show ?case by simp
qed simp

declare walk_loop.simps [simp del]

definition walk_history :: "string \<Rightarrow> bool \<Rightarrow> bool \<Rightarrow> (string list) res" where
  "walk_history text strip_osc keep_styles =
     (case check_size (length text) MAX_HISTORY_BYTES of
        Inl e \<Rightarrow> Inl e
      | Inr _ \<Rightarrow> walk_loop strip_osc keep_styles 0 text)"

definition validate_history :: "string \<Rightarrow> unit res" where
  "validate_history text =
     (case walk_history text False True of Inl e \<Rightarrow> Inl e | Inr _ \<Rightarrow> Inr ())"

definition history_plain_text :: "string \<Rightarrow> string res" where
  "history_plain_text text =
     (case walk_history text False False of Inl e \<Rightarrow> Inl e | Inr parts \<Rightarrow> Inr (concat parts))"

section \<open>Rendering and sanitizing\<close>

text \<open>\<^verbatim>\<open>replace("\r\n", "\n")\<close>.\<close>

fun crlf_to_lf :: "string \<Rightarrow> string" where
  "crlf_to_lf (a # b # cs) =
     (if a = CHR 0x0D \<and> b = CHR 0x0A then b # crlf_to_lf cs else a # crlf_to_lf (b # cs))"
| "crlf_to_lf cs = cs"

definition normalize_newlines :: "string \<Rightarrow> string" where
  "normalize_newlines text =
     concat (map (\<lambda>c. if c = CHR 0x0A then [CHR 0x0D, CHR 0x0A] else [c])
       (map (\<lambda>c. if c = CHR 0x0D then CHR 0x0A else c) (crlf_to_lf text)))"

definition ends_with :: "string \<Rightarrow> string \<Rightarrow> bool" where
  "ends_with suffix s = (length suffix \<le> length s \<and> drop (length s - length suffix) s = suffix)"

definition reset_style :: string where
  "reset_style = [ESC, CHR ''['', CHR ''0'', CHR ''m'']"

definition styled_history_bytes :: "string \<Rightarrow> string res" where
  "styled_history_bytes text =
     (case validate_history text of
        Inl e \<Rightarrow> Inl e
      | Inr _ \<Rightarrow>
          (let normalized = normalize_newlines text;
               styled = (ESC \<in> set text);
               reset = (if styled then reset_style else [])
           in Inr (reset @ normalized @ reset
                   @ (if normalized \<noteq> [] \<and> \<not> ends_with [CHR 0x0D, CHR 0x0A] normalized
                      then [CHR 0x0D, CHR 0x0A] else []))))"

text \<open>\<^verbatim>\<open>text.split("\x1b]")\<close>.\<close>

fun split_osc :: "string \<Rightarrow> string list" where
  "split_osc (a # b # cs) =
     (if a = ESC \<and> b = CHR '']'' then [] # split_osc cs
      else (case split_osc (b # cs) of [] \<Rightarrow> [[a]] | y # ys \<Rightarrow> (a # y) # ys))"
| "split_osc cs = [cs]"

definition hex_digit :: "char \<Rightarrow> nat option" where
  "hex_digit c =
     (let n = of_char c
      in if 48 \<le> n \<and> n \<le> 57 then Some (n - 48)
         else if 97 \<le> n \<and> n \<le> 102 then Some (n - 87)
         else if 65 \<le> n \<and> n \<le> 70 then Some (n - 55)
         else None)"

text \<open>
  \<^verbatim>\<open>u8::from_str_radix(value, 16)\<close> on a value of two bytes, the only length the caller passes on;
  a leading plus sign is accepted.
\<close>

definition channel_value :: "string \<Rightarrow> nat option" where
  "channel_value v =
     (case v of
        [a, b] \<Rightarrow>
          if a = CHR ''+'' then hex_digit b
          else (case (hex_digit a, hex_digit b) of
                  (Some x, Some y) \<Rightarrow> Some (16 * x + y)
                | _ \<Rightarrow> None)
      | _ \<Rightarrow> None)"

text \<open>\<^verbatim>\<open>split_once(';')\<close>.\<close>

definition split_once :: "char \<Rightarrow> string \<Rightarrow> (string \<times> string) option" where
  "split_once c s =
     (case dropWhile (\<lambda>x. x \<noteq> c) s of
        [] \<Rightarrow> None
      | _ # after \<Rightarrow> Some (takeWhile (\<lambda>x. x \<noteq> c) s, after))"

definition strip_prefix :: "string \<Rightarrow> string \<Rightarrow> string option" where
  "strip_prefix p s = (if take (length p) s = p then Some (drop (length p) s) else None)"

type_synonym palette = "nat \<Rightarrow> (nat \<times> nat \<times> nat) option"

definition palette_record :: "string \<Rightarrow> (nat \<times> (nat \<times> nat \<times> nat)) option" where
  "palette_record osc =
     (case strip_prefix ''4;'' (takeWhile (\<lambda>c. c \<noteq> BEL \<and> c \<noteq> ESC) osc) of
        None \<Rightarrow> None
      | Some record \<Rightarrow>
          (case split_once (CHR '';'') record of
             None \<Rightarrow> None
           | Some (index, rgb) \<Rightarrow>
               (case (parse_unsigned 8 index, strip_prefix ''rgb:'' rgb) of
                  (Inr i, Some channels) \<Rightarrow>
                    (case split_on (CHR ''/'') channels of
                       [r, g, b] \<Rightarrow>
                         (case (channel_value r, channel_value g, channel_value b) of
                            (Some x, Some y, Some z) \<Rightarrow> Some (i, x, y, z)
                          | _ \<Rightarrow> None)
                     | _ \<Rightarrow> None)
                | _ \<Rightarrow> None)))"

definition capture_palette :: "string \<Rightarrow> palette" where
  "capture_palette text =
     fold (\<lambda>osc pal. case palette_record osc of
                       None \<Rightarrow> pal
                     | Some (i, rgb) \<Rightarrow> pal(i := Some rgb))
       (drop 1 (split_osc text)) (\<lambda>_. None)"

definition resolved_palette_style :: "string \<Rightarrow> palette \<Rightarrow> string option" where
  "resolved_palette_style style pal =
     (case strip_prefix [ESC, CHR ''[''] style of
        None \<Rightarrow> None
      | Some body \<Rightarrow>
          if body = [] \<or> last body \<noteq> CHR ''m'' then None
          else
            (case split_on (CHR '';'') (butlast body) of
               [prefix, mode, index] \<Rightarrow>
                 if prefix \<in> {''38'', ''48'', ''58''} \<and> mode = ''5'' then
                   (case parse_unsigned 8 index of
                      Inl _ \<Rightarrow> None
                    | Inr i \<Rightarrow>
                        map_option (\<lambda>(r, g, b).
                            [ESC, CHR ''[''] @ prefix @ '';2;'' @ show_nat r @ '';'' @ show_nat g
                            @ '';'' @ show_nat b @ ''m'') (pal i))
                 else None
             | _ \<Rightarrow> None))"

definition sanitize_history :: "string \<Rightarrow> string res" where
  "sanitize_history text =
     (case check_size (length text) MAX_HISTORY_BYTES of
        Inl e \<Rightarrow> Inl e
      | Inr _ \<Rightarrow>
          (let pal = capture_palette text
           in case walk_history text True True of
                Inl e \<Rightarrow> Inl e
              | Inr parts \<Rightarrow>
                  (let result = concat (map (\<lambda>part.
                         case resolved_palette_style part pal of
                           Some resolved \<Rightarrow> resolved | None \<Rightarrow> part) parts)
                   in case validate_history result of
                        Inl e \<Rightarrow> Inl e
                      | Inr _ \<Rightarrow> Inr result)))"

section \<open>The walk, case by case\<close>

lemma walk_loop_cases:
  assumes "walk_loop s k out rest = Inr parts"
  obtains (empty) "rest = []" "parts = []"
  | (plain) p where "rest = p" "p \<noteq> []" "ESC \<notin> set p" "\<not> has_control whitespace_control p" "parts = [p]"
      "out + length p \<le> MAX_HISTORY_BYTES"
  | (control) p c part after parts' where "rest = p @ c" "ESC \<notin> set p"
      "\<not> has_control whitespace_control p"
      "c = ESC # tl c" "walk_control s k c = Inr (part, after)"
      "out + length p + (case part of None \<Rightarrow> 0 | Some x \<Rightarrow> length x) \<le> MAX_HISTORY_BYTES"
      "walk_loop s k (out + length p + (case part of None \<Rightarrow> 0 | Some x \<Rightarrow> length x)) after = Inr parts'"
      "parts = p # (case part of None \<Rightarrow> [] | Some x \<Rightarrow> [x]) @ parts'"
proof (cases "rest = []")
  case True
  then show ?thesis using assms empty by (simp add: walk_loop.simps)
next
  case False
  let ?p = "takeWhile (\<lambda>c. c \<noteq> ESC) rest" and ?c = "dropWhile (\<lambda>c. c \<noteq> ESC) rest"
  have sat: "sat_add 64 a b = a + b" if "\<not> MAX_HISTORY_BYTES < sat_add 64 a b" for a b
    using that by (auto simp: sat_add_def MAX_HISTORY_BYTES_def min_def split: if_splits)
  have esc: "ESC \<notin> set ?p" by (auto dest: set_takeWhileD)
  show ?thesis
  proof (cases "?c = []")
    case True
    then have p: "?p = rest" by (metis append_Nil2 takeWhile_dropWhile_id)
    with assms False True have "\<not> has_control whitespace_control rest" "parts = [rest]"
        "\<not> MAX_HISTORY_BYTES < sat_add 64 out (length rest)"
      by (auto simp: walk_loop.simps [of s k out rest] Let_def check_size_def split: if_splits)
    with False esc p sat [of out "length rest"] show ?thesis by (intro plain [of rest]) simp_all
  next
    case c: False
    have hd: "?c = ESC # tl ?c" using c hd_dropWhile [OF c] by (metis (full_types) hd_Cons_tl)
    obtain part after where wc: "walk_control s k ?c = Inr (part, after)"
      using assms False c
      by (auto simp: walk_loop.simps [of s k out rest] Let_def split: if_splits sum.splits)
    show ?thesis
    proof (cases part)
      case None
      with assms False c wc obtain parts' where f: "\<not> has_control whitespace_control ?p"
          "\<not> MAX_HISTORY_BYTES < sat_add 64 out (length ?p)"
          "walk_loop s k (sat_add 64 out (length ?p)) after = Inr parts'" "parts = ?p # parts'"
        by (auto simp: walk_loop.simps [of s k out rest] Let_def check_size_def
            split: if_splits sum.splits)
      with sat [OF f(2)] None wc esc hd show ?thesis
        by (intro control [of ?p ?c part after parts']) simp_all
    next
      case (Some x)
      with assms False c wc obtain parts' where f: "\<not> has_control whitespace_control ?p"
          "\<not> MAX_HISTORY_BYTES < sat_add 64 out (length ?p)"
          "\<not> MAX_HISTORY_BYTES < sat_add 64 (sat_add 64 out (length ?p)) (length x)"
          "walk_loop s k (sat_add 64 (sat_add 64 out (length ?p)) (length x)) after = Inr parts'"
          "parts = ?p # x # parts'"
        by (auto simp: walk_loop.simps [of s k out rest] Let_def check_size_def
            split: if_splits sum.splits)
      with sat [OF f(2)] sat [OF f(3)] Some wc esc hd show ?thesis
        by (intro control [of ?p ?c part after parts']) simp_all
    qed
  qed
qed

lemma walk_csi_keep:
  assumes "walk_csi True body = Inr (part, after)"
  shows "\<exists>x. part = Some x \<and> [ESC, CHR ''[''] @ body = x @ after"
proof -
  have tw: "takeWhile parameter_char body @ dropWhile parameter_char body = body" by simp
  from assms show ?thesis
    by (auto simp: walk_csi_def Let_def split: list.splits if_splits sum.splits)
      (metis tw append.assoc append_Cons append_Nil)+
qed

lemma walk_control_keep:
  assumes "walk_control False True c = Inr (part, after)"
  shows "\<exists>x. part = Some x \<and> c = x @ after"
proof -
  have c: "take 2 c = [ESC, CHR ''['']" "walk_csi True (drop 2 c) = Inr (part, after)"
    using assms by (auto simp: walk_control_def split: if_splits)
  then have "c = [ESC, CHR ''[''] @ drop 2 c" by (metis append_take_drop_id)
  with walk_csi_keep [OF c(2)] show ?thesis by auto
qed

lemma walk_loop_roundtrip: "walk_loop False True out rest = Inr parts \<Longrightarrow> concat parts = rest"
proof (induction "length rest" arbitrary: out rest parts rule: less_induct)
  case less
  from less.prems show ?case
  proof (cases rule: walk_loop_cases)
    case (control p c part after parts')
    from walk_control_keep [OF control(5)] obtain x where x: "part = Some x" "c = x @ after" by auto
    have "length after < length rest" using walk_control_length [OF control(5)] control(1) by simp
    with less.hyps control(7) have "concat parts' = after" by blast
    with control x show ?thesis by simp
  qed simp_all
qed


section \<open>The accepted language\<close>

text \<open>
  The texts the validator is meant to accept: plain stretches without escapes and without control
  characters other than newline, return and tab, separated by forward gaps and SGR styles.
\<close>

inductive presentation :: "string \<Rightarrow> bool" where
  pres_plain: "ESC \<notin> set s \<Longrightarrow> \<not> has_control whitespace_control s \<Longrightarrow> presentation s"
| pres_gap: "ESC \<notin> set s \<Longrightarrow> \<not> has_control whitespace_control s \<Longrightarrow> ds \<noteq> [] \<Longrightarrow>
    list_all is_digit ds \<Longrightarrow> 0 < read_base 10 ds \<Longrightarrow> read_base 10 ds < 2 ^ 16 \<Longrightarrow> presentation t \<Longrightarrow>
    presentation (s @ [ESC, CHR ''[''] @ ds @ [CHR ''C''] @ t)"
| pres_style: "ESC \<notin> set s \<Longrightarrow> \<not> has_control whitespace_control s \<Longrightarrow>
    list_all parameter_char ps \<Longrightarrow> validate_sgr ps = Inr () \<Longrightarrow> presentation t \<Longrightarrow>
    presentation (s @ [ESC, CHR ''[''] @ ps @ [CHR ''m''] @ t)"

lemma digit_not_plus: "is_digit c \<Longrightarrow> c \<noteq> CHR ''+''"
  by (auto simp: is_digit_def)

lemma parse_unsigned_digits:
  "ds \<noteq> [] \<Longrightarrow> list_all is_digit ds \<Longrightarrow>
   parse_unsigned w ds = (if read_base 10 ds < 2 ^ w then Inr (read_base 10 ds)
      else Inl ''number too large to fit in target type'')"
  by (cases ds) (auto simp: parse_unsigned_def Let_def digit_not_plus)

lemma takeWhile_params:
  "list_all parameter_char ps \<Longrightarrow> \<not> parameter_char c \<Longrightarrow>
     takeWhile parameter_char (ps @ c # t) = ps \<and> dropWhile parameter_char (ps @ c # t) = c # t"
  by (induction ps) auto

lemma not_param: "\<not> parameter_char (CHR ''C'')" "\<not> parameter_char (CHR ''m'')"
  by (simp_all add: parameter_char_def is_digit_def)

lemma digits_params: "list_all is_digit ds \<Longrightarrow> list_all parameter_char ds"
  by (simp add: list_all_iff parameter_char_def)

lemma walk_csi_forms:
  "walk_csi True body = Inr (part, after) \<longleftrightarrow>
     (\<exists>ds. body = ds @ CHR ''C'' # after \<and> ds \<noteq> [] \<and> list_all is_digit ds \<and> 0 < read_base 10 ds
        \<and> read_base 10 ds < 2 ^ 16 \<and> part = Some ([ESC, CHR ''[''] @ ds @ ''C''))
     \<or> (\<exists>ps. body = ps @ CHR ''m'' # after \<and> list_all parameter_char ps \<and> validate_sgr ps = Inr ()
        \<and> part = Some ([ESC, CHR ''[''] @ ps @ ''m''))" (is "?L = ?R")
proof
  assume L: ?L
  let ?ps = "takeWhile parameter_char body"
  obtain c t where ct: "dropWhile parameter_char body = c # t"
    using L by (auto simp: walk_csi_def Let_def split: list.splits)
  have body: "body = ?ps @ c # t" using ct by (metis takeWhile_dropWhile_id)
  have ps: "list_all parameter_char ?ps" by (auto simp: list_all_iff dest: set_takeWhileD)
  show ?R
  proof (cases "c = CHR ''C''")
    case True
    with L ct have "?ps \<noteq> []" "list_all is_digit ?ps" "after = t"
        "0 < read_base 10 ?ps" "read_base 10 ?ps < 2 ^ 16" "part = Some ([ESC, CHR ''[''] @ ?ps @ ''C'')"
      by (auto simp: walk_csi_def Let_def parse_unsigned_digits split: if_splits sum.splits)
    with body True show ?thesis by blast
  next
    case False
    with L ct have "c = CHR ''m''" "validate_sgr ?ps = Inr ()" "after = t"
        "part = Some ([ESC, CHR ''[''] @ ?ps @ ''m'')"
      by (auto simp: walk_csi_def Let_def split: if_splits sum.splits)
    with body ps show ?thesis by blast
  qed
next
  assume ?R
  then show ?L
    by (auto simp: walk_csi_def Let_def takeWhile_params not_param digits_params parse_unsigned_digits)
qed

lemma walk_loop_presentation:
  "walk_loop False True out rest = Inr parts \<Longrightarrow> presentation rest"
proof (induction "length rest" arbitrary: out rest parts rule: less_induct)
  case less
  from less.prems show ?case
  proof (cases rule: walk_loop_cases)
    case empty
    then show ?thesis by (auto intro: pres_plain)
  next
    case (plain p)
    then show ?thesis by (auto intro: pres_plain)
  next
    case (control p c part after parts')
    have "length after < length rest" using walk_control_length [OF control(5)] control(1) by simp
    with less.hyps control(7) have IH: "presentation after" by blast
    have c: "take 2 c = [ESC, CHR ''['']" "walk_csi True (drop 2 c) = Inr (part, after)"
      using control(5) by (auto simp: walk_control_def split: if_splits)
    then have "c = [ESC, CHR ''[''] @ drop 2 c" by (metis append_take_drop_id)
    with c(2) IH control(1-3) show ?thesis
      unfolding walk_csi_forms using pres_gap [of p] pres_style [of p] by fastforce
  qed
qed

lemma has_esc_split:
  "ESC \<notin> set s \<Longrightarrow> takeWhile (\<lambda>c. c \<noteq> ESC) (s @ ESC # t) = s \<and> dropWhile (\<lambda>c. c \<noteq> ESC) (s @ ESC # t) = ESC # t"
  by (induction s) auto

lemma walk_loop_step:
  assumes "ESC \<notin> set s" "\<not> has_control whitespace_control s"
    and "walk_csi True body = Inr (Some x, after)"
    and "out + length s + length x \<le> MAX_HISTORY_BYTES"
  shows "walk_loop False True out (s @ ESC # CHR ''['' # body) =
    (case walk_loop False True (out + length s + length x) after of
       Inl e \<Rightarrow> Inl e | Inr parts \<Rightarrow> Inr (s # x # parts))"
proof -
  have sat: "sat_add 64 out (length s) = out + length s"
      "sat_add 64 (out + length s) (length x) = out + length s + length x"
    using assms(4) by (simp_all add: sat_add_def MAX_HISTORY_BYTES_def)
  have "walk_control False True (ESC # CHR ''['' # body) = Inr (Some x, after)"
    using assms(3) by (simp add: walk_control_def)
  then show ?thesis
    using assms has_esc_split [OF assms(1), of "CHR ''['' # body"]
    by (subst walk_loop.simps) (simp add: Let_def check_size_def sat)
qed

lemma walk_loop_plain_text:
  assumes "ESC \<notin> set p" "\<not> has_control whitespace_control p" "out + length p \<le> MAX_HISTORY_BYTES"
  shows "walk_loop s k out p = Inr (if p = [] then [] else [p])"
proof -
  have sat: "sat_add 64 out (length p) = out + length p"
    using assms(3) by (simp add: sat_add_def MAX_HISTORY_BYTES_def)
  have tw: "takeWhile (\<lambda>c. c \<noteq> ESC) p = p" and dw: "dropWhile (\<lambda>c. c \<noteq> ESC) p = []"
    using assms(1) by (auto simp: takeWhile_eq_all_conv)
  show ?thesis using assms
    by (subst walk_loop.simps) (simp add: Let_def check_size_def sat tw dw)
qed

lemma presentation_walk:
  "presentation t \<Longrightarrow> out + length t \<le> MAX_HISTORY_BYTES \<Longrightarrow> \<exists>parts. walk_loop False True out t = Inr parts"
proof (induction t arbitrary: out rule: presentation.induct)
  case (pres_plain s)
  then show ?case using walk_loop_plain_text by blast
next
  case (pres_gap s ds t)
  have csi: "walk_csi True (ds @ CHR ''C'' # t) = Inr (Some ([ESC, CHR ''[''] @ ds @ ''C''), t)"
    unfolding walk_csi_forms using pres_gap by auto
  obtain parts where "walk_loop False True (out + length s + length ([ESC, CHR ''[''] @ ds @ ''C'')) t = Inr parts"
    using pres_gap.IH [of "out + length s + length ([ESC, CHR ''[''] @ ds @ ''C'')"] pres_gap.prems by auto
  with walk_loop_step [OF pres_gap(1,2) csi, of out] pres_gap.prems show ?case by simp
next
  case (pres_style s ps t)
  have csi: "walk_csi True (ps @ CHR ''m'' # t) = Inr (Some ([ESC, CHR ''[''] @ ps @ ''m''), t)"
    unfolding walk_csi_forms using pres_style by auto
  obtain parts where "walk_loop False True (out + length s + length ([ESC, CHR ''[''] @ ps @ ''m'')) t = Inr parts"
    using pres_style.IH [of "out + length s + length ([ESC, CHR ''[''] @ ps @ ''m'')"] pres_style.prems by auto
  with walk_loop_step [OF pres_style(1,2) csi, of out] pres_style.prems show ?case by simp
qed

lemma validate_history_iff:
  "validate_history t = Inr () \<longleftrightarrow> length t \<le> MAX_HISTORY_BYTES \<and> presentation t"
  using walk_loop_presentation [of 0 t] presentation_walk [of t 0]
  by (auto simp: validate_history_def walk_history_def check_size_def split: sum.splits)


text \<open>Plain text carries nothing a terminal would act on.\<close>

definition inert :: "char \<Rightarrow> bool" where
  "inert c \<longleftrightarrow> c \<noteq> ESC \<and> (of_char c < (32::nat) \<or> of_char c = (127::nat) \<longrightarrow> whitespace_control c)"

lemma no_control_inert: "ESC \<notin> set p \<Longrightarrow> \<not> has_control whitespace_control p \<Longrightarrow> list_all inert p"
  by (induction p) (auto simp: inert_def)

lemma walk_csi_plain:
  "walk_csi False body = Inr (part, after) \<Longrightarrow> part = Some x \<Longrightarrow> list_all inert x"
proof -
  have sp: "inert (CHR '' '')" by (simp add: inert_def ESC_def)
  assume "walk_csi False body = Inr (part, after)" "part = Some x"
  then obtain n where "x = replicate n (CHR '' '')"
    by (auto simp: walk_csi_def Let_def split: list.splits if_splits sum.splits)
  with sp show "list_all inert x" by (simp add: list_all_iff)
qed

lemma walk_loop_plain:
  "walk_loop False False out rest = Inr parts \<Longrightarrow>
     list_all inert (concat parts) \<and> (parts \<noteq> [] \<longrightarrow> out + length (concat parts) \<le> MAX_HISTORY_BYTES)"
proof (induction "length rest" arbitrary: out rest parts rule: less_induct)
  case less
  from less.prems show ?case
  proof (cases rule: walk_loop_cases)
    case (plain p)
    then show ?thesis by (simp add: no_control_inert)
  next
    case (control p c part after parts')
    have "length after < length rest" using walk_control_length [OF control(5)] control(1) by simp
    from less.hyps [OF this control(7)]
    have IH: "list_all inert (concat parts')"
      "parts' \<noteq> [] \<longrightarrow> out + length p + (case part of None \<Rightarrow> 0 | Some x \<Rightarrow> length x)
          + length (concat parts') \<le> MAX_HISTORY_BYTES" by auto
    have "walk_csi False (drop 2 c) = Inr (part, after)"
      using control(5) by (auto simp: walk_control_def split: if_splits)
    then have "part = Some x \<Longrightarrow> list_all inert x" for x by (rule walk_csi_plain)
    with IH control no_control_inert [of p] show ?thesis
      by (cases part; cases "parts' = []") auto
  qed simp
qed

lemma history_plain_text_inert:
  "history_plain_text t = Inr p \<Longrightarrow> list_all inert p \<and> length p \<le> MAX_HISTORY_BYTES"
proof -
  assume "history_plain_text t = Inr p"
  then obtain parts where "walk_loop False False 0 t = Inr parts" "p = concat parts"
    by (auto simp: history_plain_text_def walk_history_def split: sum.splits)
  with walk_loop_plain [of 0 t parts] show ?thesis by (cases "parts = []") auto
qed

text \<open>Sanitizing is idempotent: its output has no OSC record left to strip or resolve.\<close>

fun no_osc :: "string \<Rightarrow> bool" where
  "no_osc (a # b # cs) = (\<not> (a = ESC \<and> b = CHR '']'') \<and> no_osc (b # cs))"
| "no_osc cs = True"

lemma split_osc_absent: "no_osc s \<Longrightarrow> \<exists>y. split_osc s = [y]"
  by (induction s rule: split_osc.induct) auto

lemma no_osc_Cons: "a \<noteq> ESC \<Longrightarrow> no_osc (a # t) = no_osc t"
  by (cases t) auto

lemma no_osc_append: "ESC \<notin> set s \<Longrightarrow> no_osc (s @ t) = no_osc t"
  by (induction s) (auto simp: no_osc_Cons)

lemma params_no_esc: "list_all parameter_char ps \<Longrightarrow> ESC \<notin> set ps"
  by (auto simp: list_all_iff parameter_char_def is_digit_def ESC_def)

lemma presentation_no_osc: "presentation s \<Longrightarrow> no_osc s"
proof (induction s rule: presentation.induct)
  case (pres_plain s)
  then show ?case using no_osc_append [of s "[]"] by simp
next
  case (pres_gap s ds t)
  have "CHR ''C'' \<noteq> ESC" by (simp add: ESC_def)
  with pres_gap params_no_esc [of ds] digits_params [of ds] show ?case
    using no_osc_append [of "CHR ''['' # ds @ ''C''" t]
    by (simp add: no_osc_append ESC_def)
next
  case (pres_style s ps t)
  then show ?case
    using no_osc_append [of "CHR ''['' # ps @ ''m''" t] params_no_esc [of ps]
    by (simp add: no_osc_append ESC_def)
qed

lemma walk_control_strip_irrelevant:
  assumes "no_osc (ESC # t)"
  shows "walk_control True k (ESC # t) = walk_control False k (ESC # t)"
  using assms by (cases t) (auto simp: walk_control_def)

lemma no_osc_suffix: "no_osc (s @ t) \<Longrightarrow> no_osc t"
proof (induction s)
  case (Cons a s)
  then show ?case by (cases "s @ t") auto
qed simp

lemma walk_loop_strip_irrelevant:
  "walk_loop False True out rest = Inr parts \<Longrightarrow> no_osc rest \<Longrightarrow> walk_loop True True out rest = Inr parts"
proof (induction "length rest" arbitrary: out rest parts rule: less_induct)
  case less
  from less.prems(1) show ?case
  proof (cases rule: walk_loop_cases)
    case empty
    then show ?thesis by (simp add: walk_loop.simps)
  next
    case (plain p)
    then show ?thesis using walk_loop_plain_text [of p out True True] by simp
  next
    case (control p c part after parts')
    then obtain t where t: "c = ESC # t" by metis
    have no: "no_osc c" using less.prems(2) control(1) no_osc_suffix by blast
    obtain x where x: "part = Some x" "c = x @ after" using walk_control_keep [OF control(5)] by blast
    have "length after < length rest" using walk_control_length [OF control(5)] control(1) by simp
    moreover have "no_osc after" using no x(2) no_osc_suffix by blast
    ultimately have IH: "walk_loop True True (out + length p + length x) after = Inr parts'"
      using less.hyps control(7) x(1) by auto
    have wc: "walk_control True True c = Inr (Some x, after)"
      using walk_control_strip_irrelevant no control(5) t x(1) by metis
    have sat: "sat_add 64 out (length p) = out + length p"
        "sat_add 64 (out + length p) (length x) = out + length p + length x"
      using control(6) x(1) by (simp_all add: sat_add_def MAX_HISTORY_BYTES_def)
    show ?thesis
      using control(1-3,6,8) IH wc x(1) has_esc_split [OF control(2), of t] t
      by (subst walk_loop.simps) (simp add: Let_def check_size_def sat)
  qed
qed

lemma palette_empty: "no_osc t \<Longrightarrow> capture_palette t = (\<lambda>_. None)"
  using split_osc_absent [of t] by (auto simp: capture_palette_def)

lemma resolved_none: "resolved_palette_style part (\<lambda>_. None) = None"
  by (auto simp: resolved_palette_style_def split: option.splits list.splits sum.splits)

lemma sanitize_fixpoint:
  assumes "validate_history t = Inr ()"
  shows "sanitize_history t = Inr t"
proof -
  have t: "length t \<le> MAX_HISTORY_BYTES" "presentation t" using assms validate_history_iff by auto
  then obtain parts where parts: "walk_loop False True 0 t = Inr parts"
    using presentation_walk [of t 0] by auto
  have "no_osc t" using presentation_no_osc t(2) .
  with walk_loop_strip_irrelevant [OF parts] have "walk_history t True True = Inr parts"
    using t(1) by (simp add: walk_history_def check_size_def)
  moreover have "concat parts = t" using walk_loop_roundtrip [OF parts] .
  ultimately show ?thesis
    using palette_empty [OF \<open>no_osc t\<close>] assms t(1)
    by (simp add: sanitize_history_def check_size_def resolved_none)
qed

lemma sanitize_valid: "sanitize_history t = Inr r \<Longrightarrow> validate_history r = Inr ()"
  by (auto simp: sanitize_history_def Let_def split: sum.splits)

section \<open>Properties\<close>

text \<open>
  C25.  The validator decides exactly the history format: a text is accepted if and only if it fits
  the byte budget and consists of control-free stretches separated by forward gaps of 1 to 65535
  cells and supported SGR styles.
\<close>

theorem validate_history_decides:
  "validate_history t = Inr () \<longleftrightarrow> length t \<le> MAX_HISTORY_BYTES \<and> presentation t"
  by (rule validate_history_iff)

lemma walk_history_roundtrip:
  assumes "validate_history t = Inr ()"
  shows "\<exists>parts. walk_history t False True = Inr parts \<and> concat parts = t"
proof -
  obtain parts where "walk_history t False True = Inr parts"
    using assms by (auto simp: validate_history_def split: sum.splits)
  moreover from this have "concat parts = t"
    using walk_loop_roundtrip [of 0 t parts] by (auto simp: walk_history_def split: sum.splits)
  ultimately show ?thesis by blast
qed

lemmas history_eval =
  walk_history_def check_size_def MAX_HISTORY_BYTES_def walk_loop.simps sat_add_def Let_def
  whitespace_control_def walk_control_def walk_csi_def walk_osc_def parameter_char_def is_digit_def
  validate_sgr_def parse_unsigned_def read_base_def digit_value_def plain_sgr_code_def ESC_def BEL_def

lemma styled_sample: "validate_history (''a'' @ [ESC] @ ''[1mb'' @ [ESC] @ ''[3C'') = Inr ()"
  by (simp add: validate_history_def history_eval)

text \<open>
  The plain projection of a history is inert: no escape and no control byte but newline,
  return and tab, within the byte budget, gaps expanded to blanks.
\<close>

lemma plain_text_inert:
  assumes "history_plain_text t = Inr p"
  shows "list_all inert p \<and> length p \<le> MAX_HISTORY_BYTES"
  using assms by (rule history_plain_text_inert)

lemma replicate_two: "replicate 2 x = [x, x]"
  by (simp add: numeral_2_eq_2)

text \<open>
  C26.  The sanitizer's output is always a valid history, and sanitizing again changes nothing; on
  an already valid history it is the identity.
\<close>

theorem sanitize_history_correct:
  assumes "sanitize_history t = Inr r"
  shows "validate_history r = Inr () \<and> sanitize_history r = Inr r
    \<and> (validate_history t = Inr () \<longrightarrow> r = t)"
proof -
  have v: "validate_history r = Inr ()" using assms by (rule sanitize_valid)
  moreover have "r = t" if "validate_history t = Inr ()" using sanitize_fixpoint [OF that] assms by simp
  ultimately show ?thesis using sanitize_fixpoint [OF v] by blast
qed

theorem sanitize_history_correct_witness:
  "validate_history (''a'' @ [ESC] @ ''[1mb'') = Inr ()
   \<and> sanitize_history ([ESC] @ '']0;t'' @ [BEL] @ ''a'' @ [ESC] @ ''[1mb'') = Inr (''a'' @ [ESC] @ ''[1mb'')"
proof -
  have "sanitize_history ([ESC] @ '']0;t'' @ [BEL] @ ''a'' @ [ESC] @ ''[1mb'') = Inr (''a'' @ [ESC] @ ''[1mb'')"
    by (simp add: sanitize_history_def validate_history_def history_eval capture_palette_def
        palette_record_def strip_prefix_def resolved_palette_style_def)
  with sanitize_history_correct [OF this] show ?thesis by simp
qed

end
