(* ===== verification/Session_Snapshot.thy ===== *)
theory Session_Snapshot
  imports Pane_Layout Terminal_History
begin

text \<open>
  \<^verbatim>\<open>crates/bootty-mux/src/session_snapshot.rs\<close>: saved terminal sessions and their validation.
  The hash sets of the validator are HOL sets; \<^verbatim>\<open>insert\<close> answering false is membership before the
  insertion.
\<close>

definition MAX_SAVED_PANE_TEXT :: nat where "MAX_SAVED_PANE_TEXT = MAX_HISTORY_BYTES"

definition MAX_SAVED_SESSION_TEXT :: nat where "MAX_SAVED_SESSION_TEXT = 8 * 1024 * 1024"

record saved_terminal_pane =
  sp_id :: string
  sp_backend_id :: string
  sp_cwd :: string
  sp_cols :: nat
  sp_rows :: nat
  sp_text :: string
  sp_omitted_lines :: nat

record saved_terminal_window =
  sw_id :: string
  sw_backend_id :: string
  sw_title :: string
  sw_focused_pane_id :: string
  sw_layout :: "mux_pane_layout option"
  sw_panes :: "saved_terminal_pane list"

record saved_terminal_session =
  ss_captured_at :: int
  ss_session_id :: string
  ss_backend_id :: string
  ss_active_window_id :: "string option"
  ss_windows :: "saved_terminal_window list"

definition metadata :: "string \<Rightarrow> bool \<Rightarrow> bool" where
  "metadata v allow_empty = ((allow_empty \<or> v \<noteq> []) \<and> length v \<le> 4096 \<and> \<not> has_control (\<lambda>_. False) v)"

text \<open>\<^verbatim>\<open>starts_with('/') || Path::is_absolute\<close>, which agree on Unix.\<close>

definition absolute_path :: "string \<Rightarrow> bool" where
  "absolute_path p = (case p of [] \<Rightarrow> False | c # _ \<Rightarrow> c = CHR ''/'')"

definition validate_pane :: "saved_terminal_pane \<Rightarrow> unit res" where
  "validate_pane p =
     (if \<not> metadata (sp_id p) False
      then Inl ''saved terminal pane has invalid logical id metadata''
      else if \<not> metadata (sp_backend_id p) False
      then Inl ''saved terminal pane has invalid backend id metadata''
      else if \<not> metadata (sp_cwd p) False
      then Inl ''saved terminal pane has invalid cwd metadata''
      else if \<not> absolute_path (sp_cwd p)
      then Inl ''saved terminal pane cwd is not an absolute path''
      else if (sp_cols p = 0) \<noteq> (sp_rows p = 0)
      then Inl (''saved terminal pane has incomplete geometry ('' @ show_nat (sp_cols p)
                @ '' cols, '' @ show_nat (sp_rows p) @ '' rows)'')
      else if MAX_SAVED_PANE_TEXT < length (sp_text p)
      then Inl (''saved terminal pane history exceeds its byte budget ('' @ show_nat (length (sp_text p))
                @ '')'')
      else (case validate_history (sp_text p) of
              Inl e \<Rightarrow> Inl (''saved terminal pane history: '' @ e)
            | Inr _ \<Rightarrow> Inr ()))"

fun validate_layout :: "mux_pane_layout \<Rightarrow> string set \<Rightarrow> nat \<Rightarrow> (string set) res"
and validate_layouts :: "mux_pane_layout list \<Rightarrow> string set \<Rightarrow> nat \<Rightarrow> (string set) res" where
  "validate_layout (Pane i) seen depth =
     (if 32 < depth then Inl ''saved terminal layout is too deep''
      else if i \<in> seen then Inl ''saved terminal layout repeats a pane''
      else Inr (insert i seen))"
| "validate_layout (Split d ws cs) seen depth =
     (if 32 < depth then Inl ''saved terminal layout is too deep''
      else if length cs < 2 \<or> length ws \<noteq> length cs
           \<or> list_ex (\<lambda>w. \<not> is_finite w \<or> f32_le w f32_zero) ws
      then Inl ''invalid saved terminal split weights''
      else validate_layouts cs seen (depth + 1))"
| "validate_layouts [] seen depth = Inr seen"
| "validate_layouts (c # cs) seen depth =
     (case validate_layout c seen depth of
        Inl e \<Rightarrow> Inl e
      | Inr seen' \<Rightarrow> validate_layouts cs seen' depth)"

text \<open>The sets and the byte count the loops of \<^verbatim>\<open>validate\<close> thread.\<close>

record validation =
  va_window_ids :: "string set"
  va_backend_windows :: "string set"
  va_pane_ids :: "string set"
  va_backend_panes :: "string set"
  va_current :: "string set"
  va_bytes :: nat

fun validate_panes :: "saved_terminal_pane list \<Rightarrow> validation \<Rightarrow> validation res" where
  "validate_panes [] v = Inr v"
| "validate_panes (p # ps) v =
     (case validate_pane p of
        Inl e \<Rightarrow> Inl e
      | Inr _ \<Rightarrow>
          if sp_id p \<in> va_pane_ids v then Inl ''saved terminal pane repeats a logical id''
          else if sp_backend_id p \<in> va_backend_panes v
          then Inl ''saved terminal pane repeats a backend id''
          else validate_panes ps
            (v\<lparr>va_pane_ids := insert (sp_id p) (va_pane_ids v),
               va_backend_panes := insert (sp_backend_id p) (va_backend_panes v),
               va_current := insert (sp_id p) (va_current v),
               va_bytes := sat_add 64 (va_bytes v) (length (sp_text p))\<rparr>))"

definition validate_window :: "saved_terminal_window \<Rightarrow> validation \<Rightarrow> validation res" where
  "validate_window w v =
     (if \<not> metadata (sw_id w) False \<or> \<not> metadata (sw_backend_id w) False
         \<or> sw_id w \<in> va_window_ids v \<or> sw_backend_id w \<in> va_backend_windows v
         \<or> \<not> metadata (sw_title w) True \<or> sw_panes w = [] \<or> 32 < length (sw_panes w)
      then Inl ''invalid saved terminal window''
      else
        (let v1 = v\<lparr>va_window_ids := insert (sw_id w) (va_window_ids v),
                    va_backend_windows := insert (sw_backend_id w) (va_backend_windows v),
                    va_current := {}\<rparr>
         in case (case sw_layout w of None \<Rightarrow> Inr {} | Some l \<Rightarrow> validate_layout l {} 0) of
              Inl e \<Rightarrow> Inl e
            | Inr lvs \<Rightarrow>
                (case validate_panes (sw_panes w) v1 of
                   Inl e \<Rightarrow> Inl e
                 | Inr v2 \<Rightarrow>
                     if sw_focused_pane_id w \<notin> va_current v2
                        \<or> (sw_layout w \<noteq> None \<and> lvs \<noteq> va_current v2)
                     then Inl ''saved terminal layout does not match its panes''
                     else Inr v2)))"

fun validate_windows :: "saved_terminal_window list \<Rightarrow> validation \<Rightarrow> validation res" where
  "validate_windows [] v = Inr v"
| "validate_windows (w # ws) v =
     (case validate_window w v of Inl e \<Rightarrow> Inl e | Inr v' \<Rightarrow> validate_windows ws v')"

definition validate :: "saved_terminal_session \<Rightarrow> unit res" where
  "validate s =
     (if ss_captured_at s < 0 \<or> \<not> metadata (ss_session_id s) False
         \<or> \<not> metadata (ss_backend_id s) False \<or> ss_windows s = [] \<or> 32 < length (ss_windows s)
      then Inl ''invalid saved terminal session''
      else
        (case validate_windows (ss_windows s)
                \<lparr>va_window_ids = {}, va_backend_windows = {}, va_pane_ids = {},
                  va_backend_panes = {}, va_current = {}, va_bytes = 0\<rparr> of
           Inl e \<Rightarrow> Inl e
         | Inr v \<Rightarrow>
             if MAX_SAVED_SESSION_TEXT < va_bytes v
                \<or> (case ss_active_window_id s of None \<Rightarrow> False | Some i \<Rightarrow> i \<notin> va_window_ids v)
             then Inl ''saved terminal session exceeds its budget or has invalid focus''
             else Inr ()))"

section \<open>What an accepted session guarantees\<close>

text \<open>The identifiers of a saved window's panes.\<close>

definition saved_pane_ids :: "saved_terminal_window \<Rightarrow> string list" where
  "saved_pane_ids w = map sp_id (sw_panes w)"

text \<open>
  The contract of an accepted session: bounded and non-empty windows with distinct identities,
  panes distinct across the whole session, a focused pane that exists, a layout that shows each
  pane exactly once, bounded text and a valid active window.
\<close>

definition saved_window_ok :: "saved_terminal_window \<Rightarrow> bool" where
  "saved_window_ok w \<longleftrightarrow>
     sw_panes w \<noteq> [] \<and> length (sw_panes w) \<le> 32 \<and> sw_focused_pane_id w \<in> set (saved_pane_ids w)
     \<and> (case sw_layout w of
          None \<Rightarrow> True
        | Some l \<Rightarrow> distinct (leaves l) \<and> set (leaves l) = set (saved_pane_ids w))
     \<and> (\<forall>p \<in> set (sw_panes w). length (sp_text p) \<le> MAX_SAVED_PANE_TEXT
          \<and> presentation (sp_text p) \<and> absolute_path (sp_cwd p))"

definition saved_session_ok :: "saved_terminal_session \<Rightarrow> bool" where
  "saved_session_ok s \<longleftrightarrow>
     ss_windows s \<noteq> [] \<and> length (ss_windows s) \<le> 32
     \<and> distinct (map sw_id (ss_windows s))
     \<and> distinct (concat (map saved_pane_ids (ss_windows s)))
     \<and> list_all saved_window_ok (ss_windows s)
     \<and> sum_list (map (\<lambda>w. sum_list (map (\<lambda>p. length (sp_text p)) (sw_panes w))) (ss_windows s))
         \<le> MAX_SAVED_SESSION_TEXT
     \<and> (\<forall>i. ss_active_window_id s = Some i \<longrightarrow> i \<in> set (map sw_id (ss_windows s)))"

lemma validate_layout_leaves:
  "validate_layout l seen depth = Inr seen' \<Longrightarrow>
     distinct (leaves l) \<and> set (leaves l) \<inter> seen = {} \<and> seen' = seen \<union> set (leaves l)"
  "validate_layouts cs seen depth = Inr seen' \<Longrightarrow>
     distinct (concat (map leaves cs)) \<and> set (concat (map leaves cs)) \<inter> seen = {}
     \<and> seen' = seen \<union> set (concat (map leaves cs))"
proof (induction l seen depth and cs seen depth arbitrary: seen' and seen'
    rule: validate_layout_validate_layouts.induct)
  case (4 c cs seen depth)
  then obtain mid where mid: "validate_layout c seen depth = Inr mid"
      "validate_layouts cs mid depth = Inr seen'" by (auto split: sum.splits)
  from 4(1) [OF mid(1)] 4(2) [OF mid(1,2)] show ?case by (auto simp del: set_concat)
qed (auto split: if_splits)

lemma validate_pane_ok:
  "validate_pane p = Inr u \<Longrightarrow> length (sp_text p) \<le> MAX_SAVED_PANE_TEXT
     \<and> presentation (sp_text p) \<and> absolute_path (sp_cwd p)"
proof -
  assume "validate_pane p = Inr u"
  then have "validate_history (sp_text p) = Inr ()" "absolute_path (sp_cwd p)"
      "\<not> MAX_SAVED_PANE_TEXT < length (sp_text p)"
    by (auto simp: validate_pane_def split: if_splits sum.splits)
  then show ?thesis by (simp add: validate_history_iff)
qed

lemma validate_panes_ok:
  "validate_panes ps v = Inr v' \<Longrightarrow>
     distinct (map sp_id ps) \<and> set (map sp_id ps) \<inter> va_pane_ids v = {}
     \<and> va_pane_ids v' = va_pane_ids v \<union> set (map sp_id ps)
     \<and> va_current v' = va_current v \<union> set (map sp_id ps)
     \<and> va_window_ids v' = va_window_ids v
     \<and> va_bytes v' = fold (\<lambda>p n. sat_add 64 n (length (sp_text p))) ps (va_bytes v)
     \<and> (\<forall>p \<in> set ps. length (sp_text p) \<le> MAX_SAVED_PANE_TEXT
          \<and> presentation (sp_text p) \<and> absolute_path (sp_cwd p))"
proof (induction ps arbitrary: v)
  case (Cons p ps)
  then obtain u where "validate_pane p = Inr u" by (auto split: sum.splits)
  with Cons.prems validate_pane_ok [OF this] show ?case
    by (auto simp: disjoint_iff split: if_splits dest!: Cons.IH)
qed simp

lemma validate_window_ok:
  assumes "validate_window w v = Inr v'"
  shows "saved_window_ok w \<and> sw_id w \<notin> va_window_ids v
    \<and> va_window_ids v' = insert (sw_id w) (va_window_ids v)
    \<and> distinct (saved_pane_ids w) \<and> set (saved_pane_ids w) \<inter> va_pane_ids v = {}
    \<and> va_pane_ids v' = va_pane_ids v \<union> set (saved_pane_ids w)
    \<and> va_bytes v' = fold (\<lambda>p n. sat_add 64 n (length (sp_text p))) (sw_panes w) (va_bytes v)"
proof -
  let ?v1 = "v\<lparr>va_window_ids := insert (sw_id w) (va_window_ids v),
               va_backend_windows := insert (sw_backend_id w) (va_backend_windows v),
               va_current := {}\<rparr>"
  obtain lvs where
      lvs: "(case sw_layout w of None \<Rightarrow> Inr {} | Some l \<Rightarrow> validate_layout l {} 0) = Inr lvs"
      and pn: "validate_panes (sw_panes w) ?v1 = Inr v'"
      and fin: "sw_focused_pane_id w \<in> va_current v'" "sw_layout w \<noteq> None \<longrightarrow> lvs = va_current v'"
      and hd: "sw_id w \<notin> va_window_ids v" "sw_panes w \<noteq> []" "length (sw_panes w) \<le> 32"
    using assms by (auto simp: validate_window_def Let_def split: if_splits sum.splits)
  from validate_panes_ok [OF pn] fin hd lvs validate_layout_leaves(1) [of _ "{}" 0 lvs]
  show ?thesis
    by (auto simp: saved_window_ok_def saved_pane_ids_def split: option.splits)
qed

lemma validate_windows_ok:
  "validate_windows ws v = Inr v' \<Longrightarrow>
     list_all saved_window_ok ws \<and> distinct (map sw_id ws)
     \<and> set (map sw_id ws) \<inter> va_window_ids v = {}
     \<and> va_window_ids v' = va_window_ids v \<union> set (map sw_id ws)
     \<and> distinct (concat (map saved_pane_ids ws))
     \<and> set (concat (map saved_pane_ids ws)) \<inter> va_pane_ids v = {}
     \<and> va_bytes v' =
         fold (\<lambda>p n. sat_add 64 n (length (sp_text p))) (concat (map sw_panes ws)) (va_bytes v)"
proof (induction ws arbitrary: v)
  case (Cons w ws)
  then obtain m where m: "validate_window w v = Inr m" "validate_windows ws m = Inr v'"
    by (auto split: sum.splits)
  from validate_window_ok [OF m(1)] Cons.IH [OF m(2)] show ?case by (auto simp del: set_concat)
qed simp

lemma sat_sum_exact:
  assumes "fold (\<lambda>p n. sat_add 64 n (f p)) ps a \<le> b" "b < 2 ^ 64 - 1" "a < 2 ^ 64"
  shows "a + sum_list (map f ps) \<le> b"
  using assms
proof (induction ps arbitrary: a)
  case (Cons p ps)
  have "sat_add 64 a (f p) + sum_list (map f ps) \<le> b"
    using Cons by (simp add: sat_add_def)
  with Cons.prems(2) show ?case by (auto simp: sat_add_def min_def split: if_splits)
qed simp

lemma sum_list_map_concat:
  "sum_list (map f (concat xss)) = sum_list (map (\<lambda>xs. sum_list (map f xs)) xss)"
  for f :: "'a \<Rightarrow> nat"
  by (induction xss) auto

lemma validate_ok:
  assumes "validate s = Inr ()"
  shows "saved_session_ok s"
proof -
  let ?v0 = "\<lparr>va_window_ids = {}, va_backend_windows = {}, va_pane_ids = {},
    va_backend_panes = {}, va_current = {}, va_bytes = 0\<rparr>"
  obtain v where v: "validate_windows (ss_windows s) ?v0 = Inr v"
      and hd: "ss_windows s \<noteq> []" "length (ss_windows s) \<le> 32"
      and fin: "va_bytes v \<le> MAX_SAVED_SESSION_TEXT"
        "\<forall>i. ss_active_window_id s = Some i \<longrightarrow> i \<in> va_window_ids v"
    using assms by (auto simp: validate_def split: if_splits sum.splits option.splits)
  note w = validate_windows_ok [OF v]
  have "0 + sum_list (map (\<lambda>p. length (sp_text p)) (concat (map sw_panes (ss_windows s))))
      \<le> MAX_SAVED_SESSION_TEXT"
    using w fin(1) by (intro sat_sum_exact) (auto simp: MAX_SAVED_SESSION_TEXT_def)
  then have "sum_list (map (\<lambda>w. sum_list (map (\<lambda>p. length (sp_text p)) (sw_panes w)))
      (ss_windows s)) \<le> MAX_SAVED_SESSION_TEXT"
    by (simp add: sum_list_map_concat comp_def)
  with w hd fin(2) show ?thesis by (simp add: saved_session_ok_def)
qed

section \<open>Properties\<close>

text \<open>
  C27.  A saved session that passes validation satisfies the contract restoring relies on: 1 to 32
  windows with distinct ids, 1 to 32 panes each, pane ids distinct across the session, an existing
  focused pane, layouts that show each pane once, valid and bounded histories, absolute working
  directories and an existing active window.
\<close>

theorem validate_correct:
  assumes "validate s = Inr ()"
  shows "saved_session_ok s"
  using assms by (rule validate_ok)

definition sample_saved :: saved_terminal_session where
  "sample_saved =
     \<lparr>ss_captured_at = 0, ss_session_id = ''id'', ss_backend_id = ''b'', ss_active_window_id = Some ''w'',
      ss_windows = [\<lparr>sw_id = ''w'', sw_backend_id = ''bw'', sw_title = [], sw_focused_pane_id = ''p'',
        sw_layout = Some (Pane ''p''),
        sw_panes = [\<lparr>sp_id = ''p'', sp_backend_id = ''bp'', sp_cwd = ''/'', sp_cols = 80, sp_rows = 24,
          sp_text = ''ls'', sp_omitted_lines = 0\<rparr>]\<rparr>]\<rparr>"

lemma sample_saved_valid: "validate sample_saved = Inr ()"
  by (simp add: sample_saved_def validate_def validate_window_def validate_pane_def metadata_def absolute_path_def
      validate_history_def history_eval MAX_SAVED_PANE_TEXT_def MAX_SAVED_SESSION_TEXT_def)

theorem validate_correct_witness: "saved_session_ok sample_saved"
  using validate_correct [OF sample_saved_valid] .

end
