(* ===== verification/Mux_Command.thy ===== *)
theory Mux_Command
  imports Session_Snapshot
begin

text \<open>
  \<^verbatim>\<open>crates/bootty-mux/src/command.rs\<close>: the commands a client sends to a multiplexer.  The
  constructors keep the field order of the source; argument vectors and optional fields are lists
  and options.
\<close>

datatype mux_direction = MuxLeft | MuxDown | MuxUp | MuxRight

datatype mux_split_direction = MuxSplitRight | MuxSplitDown

datatype mux_command =
    ResizePanes string string mux_pane_layout
  | ActivatePane string string string
  | ActivateWindow string string
  | RestoreSession string mux_session_tag saved_terminal_session
  | CreatePane string "string option" mux_split_direction "string option" "string list"
  | NewWindow string "string option" "string list option"
  | RenameWindow string string string
  | ActivateNextWindow string
  | ActivatePreviousWindow string
  | ActivateLastWindow string
  | ActivateWindowIndex string nat
  | MoveWindow string "string option" int
  | MoveWindowPreservingSelection string string int string
  | SplitPane string "string option" mux_split_direction
  | MergeWindows string string string
  | SwapPanes string string string
  | MovePane string string string mux_direction
  | ExtractPane string string
  | SelectPane string "string option" mux_direction
  | SelectNextPane string "string option"
  | SelectPreviousPane string "string option"
  | KillPane string "string option"
  | ClosePane string "string option"
  | CreateProjectSession string string mux_session_tag "string list option"
  | RenameSession string string
  | DitchSession string
  | StampSession string mux_session_tag

fun arranges_panes :: "mux_command \<Rightarrow> bool" where
  "arranges_panes (ResizePanes _ _ _) = True"
| "arranges_panes (SplitPane _ _ _) = True"
| "arranges_panes (CreatePane _ _ _ _ _) = True"
| "arranges_panes (MergeWindows _ _ _) = True"
| "arranges_panes (SwapPanes _ _ _) = True"
| "arranges_panes (MovePane _ _ _ _) = True"
| "arranges_panes (ExtractPane _ _) = True"
| "arranges_panes _ = False"

fun command_session_id :: "mux_command \<Rightarrow> string" where
  "command_session_id (ResizePanes s _ _) = s"
| "command_session_id (ActivatePane s _ _) = s"
| "command_session_id (ActivateWindow s _) = s"
| "command_session_id (RestoreSession s _ _) = s"
| "command_session_id (CreatePane s _ _ _ _) = s"
| "command_session_id (NewWindow s _ _) = s"
| "command_session_id (RenameWindow s _ _) = s"
| "command_session_id (ActivateNextWindow s) = s"
| "command_session_id (ActivatePreviousWindow s) = s"
| "command_session_id (ActivateLastWindow s) = s"
| "command_session_id (ActivateWindowIndex s _) = s"
| "command_session_id (MoveWindow s _ _) = s"
| "command_session_id (MoveWindowPreservingSelection s _ _ _) = s"
| "command_session_id (MergeWindows s _ _) = s"
| "command_session_id (SwapPanes s _ _) = s"
| "command_session_id (MovePane s _ _ _) = s"
| "command_session_id (ExtractPane s _) = s"
| "command_session_id (SplitPane s _ _) = s"
| "command_session_id (SelectPane s _ _) = s"
| "command_session_id (SelectNextPane s _) = s"
| "command_session_id (SelectPreviousPane s _) = s"
| "command_session_id (KillPane s _) = s"
| "command_session_id (ClosePane s _) = s"
| "command_session_id (CreateProjectSession s _ _ _) = s"
| "command_session_id (RenameSession s _) = s"
| "command_session_id (DitchSession s) = s"
| "command_session_id (StampSession s _) = s"

datatype pane_input = Write string | Paste string | Submit

end
