(* ===== verification/Native_State.thy ===== *)
theory Native_State
  imports Mux_Command
begin

text \<open>
  \<^verbatim>\<open>crates/bootty-mux/src/native/state.rs\<close>: the topology of the native multiplexer (sessions,
  windows, panes) and the operations on it, up to the dispatch of commands, which
  \<^verbatim>\<open>Native_Layout\<close> completes with the layouts.  A lookup through \<^verbatim>\<open>iter_mut().find\<close> followed by
  writes through the reference is a \<^const>\<open>find\<close> followed by \<^verbatim>\<open>put_session\<close> or \<^verbatim>\<open>put_window\<close>.  The
  process environment that names a new window is the parameter \<^verbatim>\<open>env\<close>, the result of
  \<^verbatim>\<open>std::env::var(name).ok()\<close>.
\<close>

record native_pane =
  np_id :: string
  np_cwd :: string

record native_window =
  nw_id :: string
  nw_index :: nat
  nw_name :: string
  nw_custom_name :: bool
  nw_active_pane_id :: string
  nw_panes :: "native_pane list"
  nw_layout :: "mux_pane_layout option"

record native_session =
  ns_next_window :: nat
  ns_id :: string
  ns_name :: string
  ns_active_window_id :: string
  ns_windows :: "native_window list"
  ns_tag :: mux_session_tag

record native_mux_state =
  nm_active_session_id :: string
  nm_sessions :: "native_session list"
  nm_next_pane :: nat
  nm_generation :: nat

type_synonym env = "string \<Rightarrow> string option"

section \<open>Lookups and writes through references\<close>

definition active_session_mut :: "native_mux_state \<Rightarrow> string \<Rightarrow> native_session option" where
  "active_session_mut s sid = find (\<lambda>x. ns_id x = sid) (nm_sessions s)"

definition put_session :: "string \<Rightarrow> native_session \<Rightarrow> native_mux_state \<Rightarrow> native_mux_state" where
  "put_session sid se s =
     s\<lparr>nm_sessions := update_first (\<lambda>x. ns_id x = sid) (\<lambda>_. se) (nm_sessions s)\<rparr>"

definition find_window :: "native_session \<Rightarrow> string \<Rightarrow> native_window option" where
  "find_window se wid = find (\<lambda>w. nw_id w = wid) (ns_windows se)"

definition put_window :: "string \<Rightarrow> native_window \<Rightarrow> native_session \<Rightarrow> native_session" where
  "put_window wid w se =
     se\<lparr>ns_windows := update_first (\<lambda>x. nw_id x = wid) (\<lambda>_. w) (ns_windows se)\<rparr>"

definition window_mut :: "native_mux_state \<Rightarrow> string \<Rightarrow> string \<Rightarrow> native_window option" where
  "window_mut s sid wid =
     (case active_session_mut s sid of None \<Rightarrow> None | Some se \<Rightarrow> find_window se wid)"

definition write_window ::
  "string \<Rightarrow> string \<Rightarrow> native_window \<Rightarrow> native_mux_state \<Rightarrow> native_mux_state" where
  "write_window sid wid w s =
     (case active_session_mut s sid of
        None \<Rightarrow> s
      | Some se \<Rightarrow> put_session sid (put_window wid w se) s)"

definition active_window_mut :: "native_mux_state \<Rightarrow> string \<Rightarrow> native_window option" where
  "active_window_mut s sid =
     (case active_session_mut s sid of
        None \<Rightarrow> None
      | Some se \<Rightarrow> window_mut s sid (ns_active_window_id se))"

fun pane_location_from :: "nat \<Rightarrow> native_window list \<Rightarrow> string \<Rightarrow> (nat \<times> nat) option" where
  "pane_location_from k [] p = None"
| "pane_location_from k (w # ws) p =
     (case find_index (\<lambda>x. np_id x = p) (nw_panes w) of
        Some i \<Rightarrow> Some (k, i)
      | None \<Rightarrow> pane_location_from (Suc k) ws p)"

definition pane_location :: "native_session \<Rightarrow> string \<Rightarrow> (nat \<times> nat) option" where
  "pane_location se p = pane_location_from 0 (ns_windows se) p"

definition target_pane_location :: "native_session \<Rightarrow> string option \<Rightarrow> (nat \<times> nat) res" where
  "target_pane_location se pid =
     (case pid of
        Some p \<Rightarrow>
          (case pane_location se p of
             None \<Rightarrow> Inl ''pane no longer exists in this session''
           | Some loc \<Rightarrow> Inr loc)
      | None \<Rightarrow>
          (case find_index (\<lambda>w. nw_id w = ns_active_window_id se) (ns_windows se) of
             None \<Rightarrow> Inl ''active window no longer exists''
           | Some wi \<Rightarrow>
               (case get_nth (ns_windows se) wi of
                  None \<Rightarrow> Inl ''active window no longer exists''
                | Some w \<Rightarrow>
                    (case find_index (\<lambda>p. np_id p = nw_active_pane_id w) (nw_panes w) of
                       None \<Rightarrow> Inl ''active pane no longer exists''
                     | Some pi \<Rightarrow> Inr (wi, pi)))))"

definition window_has_custom_name :: "native_mux_state \<Rightarrow> string \<Rightarrow> string \<Rightarrow> bool" where
  "window_has_custom_name s sid wid =
     (case window_mut s sid wid of None \<Rightarrow> False | Some w \<Rightarrow> nw_custom_name w)"

definition source_pane_id :: "native_mux_state \<Rightarrow> string \<Rightarrow> string option \<Rightarrow> string res" where
  "source_pane_id s sid pid =
     (case active_session_mut s sid of
        None \<Rightarrow> Inl ''session no longer exists''
      | Some se \<Rightarrow>
          (case target_pane_location se pid of
             Inl e \<Rightarrow> Inl e
           | Inr (wi, pi) \<Rightarrow>
               (case get_nth (ns_windows se) wi of
                  None \<Rightarrow> Inl ''source pane no longer exists''
                | Some w \<Rightarrow>
                    (case get_nth (nw_panes w) pi of
                       None \<Rightarrow> Inl ''source pane no longer exists''
                     | Some p \<Rightarrow> Inr (np_id p)))))"

section \<open>Identities and names\<close>

definition pane_id :: "nat \<Rightarrow> nat \<Rightarrow> string" where
  "pane_id gen n = ''pane-'' @ show_hex 16 gen @ ''-'' @ show_nat n"

definition next_pane_id :: "native_mux_state \<Rightarrow> string res \<times> native_mux_state" where
  "next_pane_id s =
     (let i = pane_id (nm_generation s) (nm_next_pane s)
      in case checked_add 64 (nm_next_pane s) 1 of
           None \<Rightarrow> (Inl ''native pane identities exhausted'', s)
         | Some n \<Rightarrow> (Inr i, s\<lparr>nm_next_pane := n\<rparr>))"

definition tab_id :: "nat \<Rightarrow> string" where
  "tab_id n = ''tab-'' @ show_nat n"

definition next_window_id :: "native_session \<Rightarrow> string res \<times> native_session" where
  "next_window_id se =
     (let i = tab_id (ns_next_window se)
      in case checked_add 64 (ns_next_window se) 1 of
           None \<Rightarrow> (Inl ''native window identities exhausted'', se)
         | Some n \<Rightarrow> (Inr i, se\<lparr>ns_next_window := n\<rparr>))"

definition default_window_name :: "env \<Rightarrow> string" where
  "default_window_name env =
     (let shell = (case env ''BOOTTY_SHELL'' of Some x \<Rightarrow> Some x | None \<Rightarrow> env ''SHELL'')
      in case Option.bind shell path_file_name of
           None \<Rightarrow> ''shell''
         | Some n \<Rightarrow> if n = [] then ''shell'' else n)"

definition renumber_windows :: "native_session \<Rightarrow> native_session" where
  "renumber_windows se =
     se\<lparr>ns_windows :=
       map (\<lambda>(i, w). w\<lparr>nw_index := u32_or_max (i + 1)\<rparr>) (enumerate 0 (ns_windows se))\<rparr>"

section \<open>Creation\<close>

definition new_state :: "nat \<Rightarrow> native_mux_state" where
  "new_state gen =
     \<lparr>nm_active_session_id = '''', nm_sessions = [], nm_next_pane = 1, nm_generation = gen\<rparr>"

definition ensure_session ::
  "env \<Rightarrow> native_mux_state \<Rightarrow> string \<Rightarrow> string \<Rightarrow> mux_session_tag \<Rightarrow> unit res \<times> native_mux_state" where
  "ensure_session env s sid cwd tag =
     (case active_session_mut s sid of
        Some se \<Rightarrow>
          (Inr (), (put_session sid (if tag_is_empty tag then se else se\<lparr>ns_tag := tag\<rparr>) s)
                     \<lparr>nm_active_session_id := sid\<rparr>)
      | None \<Rightarrow>
          (case next_pane_id s of
             (Inl e, s1) \<Rightarrow> (Inl e, s1)
           | (Inr pid, s1) \<Rightarrow>
               (let w = \<lparr>nw_id = ''tab-1'', nw_index = 1, nw_name = default_window_name env,
                         nw_custom_name = False, nw_active_pane_id = pid,
                         nw_panes = [\<lparr>np_id = pid, np_cwd = cwd\<rparr>], nw_layout = None\<rparr>;
                    se = \<lparr>ns_next_window = 2, ns_id = sid, ns_name = sid,
                          ns_active_window_id = nw_id w, ns_windows = [w], ns_tag = tag\<rparr>
                in (Inr (), s1\<lparr>nm_sessions := nm_sessions s1 @ [se],
                               nm_active_session_id := sid\<rparr>))))"

fun remap_layout :: "mux_pane_layout \<Rightarrow> (string \<rightharpoonup> string) \<Rightarrow> mux_pane_layout res"
and remap_layouts :: "mux_pane_layout list \<Rightarrow> (string \<rightharpoonup> string) \<Rightarrow> (mux_pane_layout list) res" where
  "remap_layout (Pane i) m =
     (case m i of None \<Rightarrow> Inl ''saved layout pane missing'' | Some j \<Rightarrow> Inr (Pane j))"
| "remap_layout (Split d ws cs) m =
     (case remap_layouts cs m of Inl e \<Rightarrow> Inl e | Inr cs' \<Rightarrow> Inr (Split d ws cs'))"
| "remap_layouts [] m = Inr []"
| "remap_layouts (c # cs) m =
     (case remap_layout c m of
        Inl e \<Rightarrow> Inl e
      | Inr c' \<Rightarrow> (case remap_layouts cs m of Inl e \<Rightarrow> Inl e | Inr cs' \<Rightarrow> Inr (c' # cs')))"

text \<open>The inner loop of \<^verbatim>\<open>restore_session\<close>: the panes, the id mapping and the focused pane.\<close>

fun restore_panes ::
  "string \<Rightarrow> saved_terminal_pane list \<Rightarrow> native_pane list \<Rightarrow> (string \<rightharpoonup> string) \<Rightarrow> string \<Rightarrow>
   native_mux_state \<Rightarrow> (native_pane list \<times> (string \<rightharpoonup> string) \<times> string) res \<times> native_mux_state" where
  "restore_panes focused [] ps m act s = (Inr (ps, m, act), s)"
| "restore_panes focused (p # rest) ps m act s =
     (case next_pane_id s of
        (Inl e, s1) \<Rightarrow> (Inl e, s1)
      | (Inr i, s1) \<Rightarrow>
          restore_panes focused rest (ps @ [\<lparr>np_id = i, np_cwd = sp_cwd p\<rparr>]) (m(sp_id p \<mapsto> i))
            (if sp_id p = focused then i else act) s1)"

text \<open>The outer loop: the windows built so far and the active window.\<close>

fun restore_windows ::
  "string option \<Rightarrow> nat \<Rightarrow> saved_terminal_window list \<Rightarrow> native_window list \<Rightarrow> string \<Rightarrow>
   native_mux_state \<Rightarrow> (native_window list \<times> string) res \<times> native_mux_state" where
  "restore_windows active position [] ws act s = (Inr (ws, act), s)"
| "restore_windows active position (w # rest) ws act s =
     (let wid = tab_id (position + 1)
      in case restore_panes (sw_focused_pane_id w) (sw_panes w) [] Map.empty [] s of
           (Inl e, s1) \<Rightarrow> (Inl e, s1)
         | (Inr (ps, m, pact), s1) \<Rightarrow>
             (let act' = (if active = Some (sw_id w) \<or> (act = [] \<and> position = 0) then wid else act)
              in if 2 ^ 32 \<le> position + 1
                 then (Inl ''out of range integral type conversion attempted'', s1)
                 else
                   (case (case sw_layout w of
                            None \<Rightarrow> Inr None
                          | Some l \<Rightarrow>
                              (case remap_layout l m of Inl e \<Rightarrow> Inl e | Inr l' \<Rightarrow> Inr (Some l'))) of
                      Inl e \<Rightarrow> (Inl e, s1)
                    | Inr l' \<Rightarrow>
                        restore_windows active (position + 1) rest
                          (ws @ [\<lparr>nw_id = wid, nw_index = position + 1, nw_name = sw_title w,
                                  nw_custom_name = True, nw_active_pane_id = pact,
                                  nw_panes = ps, nw_layout = l'\<rparr>]) act' s1)))"

definition restore_session ::
  "native_mux_state \<Rightarrow> string \<Rightarrow> mux_session_tag \<Rightarrow> saved_terminal_session \<Rightarrow>
   unit res \<times> native_mux_state" where
  "restore_session s i tag snapshot =
     (case validate snapshot of
        Inl e \<Rightarrow> (Inl e, s)
      | Inr _ \<Rightarrow>
          if \<not> (tag_identity tag = Some (ss_session_id snapshot) \<and> tag_space tag \<noteq> None)
          then (Inl ''restored identity does not match its checkpoint'', s)
          else if list_ex (\<lambda>x. ns_id x = i \<or> ns_name x = i
                    \<or> (tag_identity tag \<noteq> None \<and> tag_identity (ns_tag x) = tag_identity tag
                       \<and> tag_space (ns_tag x) = tag_space tag)) (nm_sessions s)
          then (Inl ''restored session already exists'', s)
          else
            (case restore_windows (ss_active_window_id snapshot) 0 (ss_windows snapshot) [] [] s of
               (Inl e, s1) \<Rightarrow> (Inl e, s1)
             | (Inr (ws, act), s1) \<Rightarrow>
                 (case checked_add 64 (length ws) 1 of
                    None \<Rightarrow> (Inl ''native window capacity exhausted'', s1)
                  | Some n \<Rightarrow>
                      (Inr (),
                       s1\<lparr>nm_sessions := nm_sessions s1 @
                            [\<lparr>ns_next_window = n, ns_id = i, ns_name = i, ns_active_window_id = act,
                              ns_windows = ws, ns_tag = tag\<rparr>],
                          nm_active_session_id := i\<rparr>))))"

definition new_window ::
  "env \<Rightarrow> native_mux_state \<Rightarrow> string \<Rightarrow> string option \<Rightarrow> unit res \<times> native_mux_state" where
  "new_window env s sid cwd =
     (case next_pane_id s of
        (Inl e, s1) \<Rightarrow> (Inl e, s1)
      | (Inr pid, s1) \<Rightarrow>
          (case active_session_mut s1 sid of
             None \<Rightarrow> (Inr (), s1)
           | Some se \<Rightarrow>
               (let dir = (case cwd of
                             Some c \<Rightarrow> c
                           | None \<Rightarrow>
                               (case Option.bind (find_window se (ns_active_window_id se))
                                       (\<lambda>w. first_opt (nw_panes w)) of
                                  None \<Rightarrow> ''.''
                                | Some p \<Rightarrow> np_cwd p))
                in if 2 ^ 32 \<le> length (ns_windows se) + 1
                   then (Inl ''native window capacity exhausted'', s1)
                   else
                     (case next_window_id se of
                        (Inl e, se1) \<Rightarrow> (Inl e, put_session sid se1 s1)
                      | (Inr wid, se1) \<Rightarrow>
                          (let w = \<lparr>nw_id = wid, nw_index = length (ns_windows se) + 1,
                                    nw_name = default_window_name env, nw_custom_name = False,
                                    nw_active_pane_id = pid,
                                    nw_panes = [\<lparr>np_id = pid, np_cwd = dir\<rparr>],
                                    nw_layout = None\<rparr>
                           in (Inr (),
                               (put_session sid
                                  (se1\<lparr>ns_active_window_id := wid,
                                       ns_windows := ns_windows se1 @ [w]\<rparr>) s1)
                                 \<lparr>nm_active_session_id := sid\<rparr>))))))"

section \<open>Selection and naming\<close>

definition set_pane_cwd :: "native_mux_state \<Rightarrow> string \<Rightarrow> string \<Rightarrow> unit res \<times> native_mux_state" where
  "set_pane_cwd s pid cwd =
     (let has_pane = (\<lambda>w. list_ex (\<lambda>p. np_id p = pid) (nw_panes w));
          has_window = (\<lambda>se. list_ex has_pane (ns_windows se))
      in if \<not> list_ex has_window (nm_sessions s) then (Inl ''native pane unavailable'', s)
         else
           (Inr (),
            s\<lparr>nm_sessions := update_first has_window
                (\<lambda>se. se\<lparr>ns_windows := update_first has_pane
                   (\<lambda>w. w\<lparr>nw_panes := update_first (\<lambda>p. np_id p = pid)
                      (\<lambda>p. p\<lparr>np_cwd := cwd\<rparr>) (nw_panes w)\<rparr>) (ns_windows se)\<rparr>)
                (nm_sessions s)\<rparr>))"

definition set_layout ::
  "native_mux_state \<Rightarrow> string \<Rightarrow> string \<Rightarrow> mux_pane_layout \<Rightarrow> unit res \<times> native_mux_state" where
  "set_layout s sid wid l =
     (case window_mut s sid wid of
        None \<Rightarrow> (Inl ''native window is unavailable'', s)
      | Some w \<Rightarrow>
          (case from_mux_layout l of
             None \<Rightarrow> (Inl ''invalid native pane layout'', s)
           | Some q \<Rightarrow>
               (let ids = map np_id (nw_panes w); proposed = panes q
                in if \<not> (length ids = length proposed \<and> list_all (\<lambda>p. p \<in> set proposed) ids)
                   then (Inl ''layout does not match live panes'', s)
                   else (Inr (), write_window sid wid (w\<lparr>nw_layout := Some (snapshot_layout q)\<rparr>) s))))"

definition stamp_session :: "native_mux_state \<Rightarrow> string \<Rightarrow> mux_session_tag \<Rightarrow> native_mux_state" where
  "stamp_session s sid tag =
     (case active_session_mut s sid of
        None \<Rightarrow> s
      | Some se \<Rightarrow> put_session sid (se\<lparr>ns_tag := tag\<rparr>) s)"

definition activate_window :: "native_mux_state \<Rightarrow> string \<Rightarrow> string \<Rightarrow> native_mux_state" where
  "activate_window s sid wid =
     (case active_session_mut s sid of
        None \<Rightarrow> s
      | Some se \<Rightarrow>
          if list_ex (\<lambda>w. nw_id w = wid) (ns_windows se)
          then (put_session sid (se\<lparr>ns_active_window_id := wid\<rparr>) s)\<lparr>nm_active_session_id := sid\<rparr>
          else s)"

definition rename_window :: "env \<Rightarrow> native_mux_state \<Rightarrow> string \<Rightarrow> string \<Rightarrow> string \<Rightarrow> native_mux_state" where
  "rename_window env s sid wid name =
     (case window_mut s sid wid of
        None \<Rightarrow> s
      | Some w \<Rightarrow>
          write_window sid wid
            (w\<lparr>nw_custom_name := (name \<noteq> []),
               nw_name := (if name = [] then default_window_name env else name)\<rparr>) s)"

definition rename_session :: "native_mux_state \<Rightarrow> string \<Rightarrow> string \<Rightarrow> native_mux_state" where
  "rename_session s sid name =
     (case active_session_mut s sid of
        None \<Rightarrow> s
      | Some se \<Rightarrow> put_session sid (se\<lparr>ns_name := name\<rparr>) s)"

definition kill_session :: "native_mux_state \<Rightarrow> string \<Rightarrow> native_mux_state" where
  "kill_session s sid =
     (let s1 = s\<lparr>nm_sessions := filter (\<lambda>x. ns_id x \<noteq> sid) (nm_sessions s)\<rparr>
      in if nm_active_session_id s1 = sid
         then s1\<lparr>nm_active_session_id :=
                (case first_opt (nm_sessions s1) of None \<Rightarrow> '''' | Some se \<Rightarrow> ns_id se)\<rparr>
         else s1)"

definition activate_relative_window :: "native_mux_state \<Rightarrow> string \<Rightarrow> int \<Rightarrow> native_mux_state" where
  "activate_relative_window s sid delta =
     (case active_session_mut s sid of
        None \<Rightarrow> s
      | Some se \<Rightarrow>
          (case find_index (\<lambda>w. nw_id w = ns_active_window_id se) (ns_windows se) of
             None \<Rightarrow> s
           | Some i \<Rightarrow>
               (case Option.bind (wrap_index i delta (length (ns_windows se)))
                       (get_nth (ns_windows se)) of
                  None \<Rightarrow> s
                | Some w \<Rightarrow>
                    (put_session sid (se\<lparr>ns_active_window_id := nw_id w\<rparr>) s)
                      \<lparr>nm_active_session_id := sid\<rparr>)))"

definition activate_window_index :: "native_mux_state \<Rightarrow> string \<Rightarrow> nat \<Rightarrow> native_mux_state" where
  "activate_window_index s sid index =
     (case active_session_mut s sid of
        None \<Rightarrow> s
      | Some se \<Rightarrow>
          (case find (\<lambda>w. nw_index w = index) (ns_windows se) of
             None \<Rightarrow> s
           | Some w \<Rightarrow>
               (put_session sid (se\<lparr>ns_active_window_id := nw_id w\<rparr>) s)
                 \<lparr>nm_active_session_id := sid\<rparr>))"

definition move_window :: "native_mux_state \<Rightarrow> string \<Rightarrow> string option \<Rightarrow> int \<Rightarrow> native_mux_state" where
  "move_window s sid wid delta =
     (case active_session_mut s sid of
        None \<Rightarrow> s
      | Some se \<Rightarrow>
          (let target = (case wid of Some i \<Rightarrow> i | None \<Rightarrow> ns_active_window_id se)
           in case find_index (\<lambda>w. nw_id w = target) (ns_windows se) of
                None \<Rightarrow> s
              | Some i \<Rightarrow>
                  (let next = clamp_move_index i delta (length (ns_windows se));
                       w = ns_windows se ! i;
                       ws = insert_nth next w (remove_nth i (ns_windows se))
                   in put_session sid
                        (renumber_windows (se\<lparr>ns_windows := ws, ns_active_window_id := target\<rparr>)) s)))"

definition move_window_preserving_selection ::
  "native_mux_state \<Rightarrow> string \<Rightarrow> string \<Rightarrow> int \<Rightarrow> string \<Rightarrow> native_mux_state" where
  "move_window_preserving_selection s sid wid delta selected =
     activate_window (move_window s sid (Some wid) delta) sid selected"

definition select_relative_pane :: "native_mux_state \<Rightarrow> string \<Rightarrow> int \<Rightarrow> native_mux_state" where
  "select_relative_pane s sid delta =
     (case active_window_mut s sid of
        None \<Rightarrow> s
      | Some w \<Rightarrow>
          (case find_index (\<lambda>p. np_id p = nw_active_pane_id w) (nw_panes w) of
             None \<Rightarrow> s
           | Some i \<Rightarrow>
               (case Option.bind (wrap_index i delta (length (nw_panes w))) (get_nth (nw_panes w)) of
                  None \<Rightarrow> s
                | Some p \<Rightarrow>
                    (write_window sid (nw_id w) (w\<lparr>nw_active_pane_id := np_id p\<rparr>) s)
                      \<lparr>nm_active_session_id := sid\<rparr>)))"

definition select_pane :: "native_mux_state \<Rightarrow> string \<Rightarrow> string option \<Rightarrow> int \<Rightarrow> native_mux_state" where
  "select_pane s sid wid delta =
     select_relative_pane (case wid of None \<Rightarrow> s | Some i \<Rightarrow> activate_window s sid i) sid delta"

definition native_direction :: "mux_direction \<Rightarrow> direction" where
  "native_direction d =
     (case d of MuxLeft \<Rightarrow> DirLeft | MuxRight \<Rightarrow> DirRight | MuxUp \<Rightarrow> DirUp | MuxDown \<Rightarrow> DirDown)"

definition select_directional_pane ::
  "native_mux_state \<Rightarrow> string \<Rightarrow> string option \<Rightarrow> mux_direction \<Rightarrow> native_mux_state" where
  "select_directional_pane s0 sid wid d =
     (let s = (case wid of None \<Rightarrow> s0 | Some i \<Rightarrow> activate_window s0 sid i)
      in case active_window_mut s sid of
           None \<Rightarrow> s
         | Some w \<Rightarrow>
             (case Option.bind (nw_layout w) from_mux_layout of
                None \<Rightarrow> s
              | Some l \<Rightarrow>
                  (case neighbor l (nw_active_pane_id w) (native_direction d)
                          (from_min_size f32_zero f32_zero (f32_of_nat 1) (f32_of_nat 1)) f32_zero of
                     None \<Rightarrow> s
                   | Some n \<Rightarrow>
                       (write_window sid (nw_id w) (w\<lparr>nw_active_pane_id := n\<rparr>) s)
                         \<lparr>nm_active_session_id := sid\<rparr>)))"

definition activate_pane ::
  "native_mux_state \<Rightarrow> string \<Rightarrow> string \<Rightarrow> string \<Rightarrow> unit res \<times> native_mux_state" where
  "activate_pane s sid wid pid =
     (let is_session = (\<lambda>x. ns_id x = sid \<or> ns_name x = sid);
          is_window = (\<lambda>w. nw_id w = wid \<and> list_ex (\<lambda>p. np_id p = pid) (nw_panes w))
      in case find is_session (nm_sessions s) of
           None \<Rightarrow> (Inl ''native pane session is unavailable'', s)
         | Some se \<Rightarrow>
             (case find is_window (ns_windows se) of
                None \<Rightarrow> (Inl ''native pane window is unavailable'', s)
              | Some w \<Rightarrow>
                  (let se1 = se\<lparr>ns_windows := update_first is_window
                               (\<lambda>w. w\<lparr>nw_active_pane_id := pid\<rparr>) (ns_windows se)\<rparr>;
                       s1 = s\<lparr>nm_sessions := update_first is_session (\<lambda>_. se1) (nm_sessions s)\<rparr>
                   in (Inr (), activate_window s1 (ns_id se1) wid))))"

section \<open>Panes\<close>

definition split_pane ::
  "native_mux_state \<Rightarrow> string \<Rightarrow> string option \<Rightarrow> unit res \<times> native_mux_state" where
  "split_pane s sid source =
     (case active_session_mut s sid of
        None \<Rightarrow> (Inl ''session no longer exists'', s)
      | Some se \<Rightarrow>
          (case target_pane_location se source of
             Inl e \<Rightarrow> (Inl e, s)
           | Inr (wi, pi) \<Rightarrow>
               (case get_nth (ns_windows se) wi of
                  None \<Rightarrow> (Inl ''window no longer exists'', s)
                | Some w \<Rightarrow>
                    (case get_nth (nw_panes w) pi of
                       None \<Rightarrow> (Inl ''pane no longer exists'', s)
                     | Some p \<Rightarrow>
                         (case next_pane_id s of
                            (Inl e, s1) \<Rightarrow> (Inl e, s1)
                          | (Inr pid, s1) \<Rightarrow>
                              (case window_mut s1 sid (nw_id w) of
                                 None \<Rightarrow> (Inl ''window no longer exists'', s1)
                               | Some w1 \<Rightarrow>
                                   (Inr (),
                                    activate_window
                                      (write_window sid (nw_id w)
                                         (w1\<lparr>nw_active_pane_id := pid,
                                             nw_panes := nw_panes w1 @
                                               [\<lparr>np_id = pid, np_cwd = np_cwd p\<rparr>]\<rparr>) s1)
                                      sid (nw_id w))))))))"

text \<open>
  \<^verbatim>\<open>close_pane\<close> up to the session it changed: \<^const>\<open>None\<close> when nothing was to be done, otherwise
  whether the target window was the active one and the session left behind.
\<close>

definition close_in_session ::
  "native_session \<Rightarrow> string option \<Rightarrow> bool \<Rightarrow> ((bool \<times> native_session) option) res" where
  "close_in_session se pid close_window =
     (case target_pane_location se pid of
        Inl e \<Rightarrow> Inl e
      | Inr (wi, pi) \<Rightarrow>
          (case get_nth (ns_windows se) wi of
             None \<Rightarrow> Inl ''window no longer exists''
           | Some w \<Rightarrow>
               if \<not> close_window \<and> length (nw_panes w) \<le> 1 then Inr None
               else
                 (let target_was_active = (nw_id w = ns_active_window_id se)
                  in case get_nth (nw_panes w) pi of
                       None \<Rightarrow> Inl ''pane no longer exists''
                     | Some p \<Rightarrow>
                         (let removed_active_pane = (np_id p = nw_active_pane_id w);
                              ps = remove_nth pi (nw_panes w);
                              w1 = w\<lparr>nw_panes := ps\<rparr>
                          in if ps = [] then
                               (let se1 = renumber_windows
                                      (se\<lparr>ns_windows := remove_nth wi (ns_windows se)\<rparr>);
                                    ws = ns_windows se1
                                in Inr (Some (target_was_active,
                                     if target_was_active
                                     then se1\<lparr>ns_active_window_id :=
                                            (case get_nth ws (min wi (length ws - 1)) of
                                               None \<Rightarrow> '''' | Some w' \<Rightarrow> nw_id w')\<rparr>
                                     else se1)))
                             else
                               (let w2 = (case (if removed_active_pane
                                                then get_nth ps (min pi (length ps - 1)) else None) of
                                            None \<Rightarrow> w1
                                          | Some next \<Rightarrow> w1\<lparr>nw_active_pane_id := np_id next\<rparr>)
                                in Inr (Some (target_was_active,
                                     se\<lparr>ns_windows := (ns_windows se)[wi := w2]\<rparr>)))))))"

definition close_pane ::
  "native_mux_state \<Rightarrow> string \<Rightarrow> string option \<Rightarrow> bool \<Rightarrow> unit res \<times> native_mux_state" where
  "close_pane s sid pid close_window =
     (case active_session_mut s sid of
        None \<Rightarrow> (Inl ''session no longer exists'', s)
      | Some se \<Rightarrow>
          (case close_in_session se pid close_window of
             Inl e \<Rightarrow> (Inl e, s)
           | Inr None \<Rightarrow> (Inr (), s)
           | Inr (Some (changed_active, se1)) \<Rightarrow>
               (let s1 = put_session sid se1 s
                in if list_ex (\<lambda>x. ns_id x = sid \<and> ns_windows x = []) (nm_sessions s1)
                   then (Inr (), kill_session s1 sid)
                   else if changed_active then (Inr (), s1\<lparr>nm_active_session_id := sid\<rparr>)
                   else (Inr (), s1))))"

section \<open>Rearrangement inside one session\<close>

text \<open>
  The four rearrangements look their session up, rewrite it, and on success make it the active
  one; \<^verbatim>\<open>in_session\<close> is that frame, and keeps the session's partial changes on an error.
\<close>

definition in_session ::
  "string \<Rightarrow> (native_session \<Rightarrow> unit res \<times> native_session) \<Rightarrow> native_mux_state \<Rightarrow>
   unit res \<times> native_mux_state" where
  "in_session sid f s =
     (case active_session_mut s sid of
        None \<Rightarrow> (Inl ''session no longer exists'', s)
      | Some se \<Rightarrow>
          (case f se of
             (Inl e, se1) \<Rightarrow> (Inl e, put_session sid se1 s)
           | (Inr _, se1) \<Rightarrow> (Inr (), (put_session sid se1 s)\<lparr>nm_active_session_id := sid\<rparr>)))"

definition merge_in_session ::
  "string \<Rightarrow> string \<Rightarrow> native_session \<Rightarrow> unit res \<times> native_session" where
  "merge_in_session source target se =
     (case find_index (\<lambda>w. nw_id w = source) (ns_windows se) of
        None \<Rightarrow> (Inl ''source tab no longer exists'', se)
      | Some si \<Rightarrow>
          if source = target then (Inl ''a tab cannot be merged into itself'', se)
          else
            (case find_index (\<lambda>w. nw_id w = target) (ns_windows se) of
               None \<Rightarrow> (Inl ''target tab no longer exists'', se)
             | Some ti \<Rightarrow>
                 if si = ti then (Inl ''tabs must be distinct and live'', se)
                 else
                   (let sw = ns_windows se ! si; tw = ns_windows se ! ti;
                        tw1 = tw\<lparr>nw_panes := nw_panes tw @ nw_panes sw,
                                 nw_active_pane_id := nw_active_pane_id sw\<rparr>
                    in (Inr (),
                        renumber_windows
                          (se\<lparr>ns_active_window_id := nw_id tw1,
                              ns_windows := remove_nth si ((ns_windows se)[ti := tw1])\<rparr>)))))"

definition swap_in_session ::
  "string \<Rightarrow> string \<Rightarrow> native_session \<Rightarrow> unit res \<times> native_session" where
  "swap_in_session source target se =
     (case pane_location se source of
        None \<Rightarrow> (Inl ''source pane no longer exists'', se)
      | Some (sw, si) \<Rightarrow>
          (case pane_location se target of
             None \<Rightarrow> (Inl ''target pane no longer exists'', se)
           | Some (tw, ti) \<Rightarrow>
               if source = target then (Inl ''a pane cannot be swapped with itself'', se)
               else if sw = tw then
                 (let w = ns_windows se ! sw;
                      a = nw_panes w ! si; b = nw_panes w ! ti
                  in (Inr (), se\<lparr>ns_windows := (ns_windows se)[sw :=
                                  w\<lparr>nw_panes := (nw_panes w)[si := b, ti := a],
                                    nw_active_pane_id := source\<rparr>],
                                 ns_active_window_id := nw_id w\<rparr>))
               else
                 (let w = ns_windows se ! sw; v = ns_windows se ! tw;
                      a = nw_panes w ! si; b = nw_panes v ! ti;
                      w1 = w\<lparr>nw_panes := (nw_panes w)[si := b],
                             nw_active_pane_id :=
                               (if nw_active_pane_id w = source then target
                                else nw_active_pane_id w)\<rparr>;
                      v1 = v\<lparr>nw_panes := (nw_panes v)[ti := a], nw_active_pane_id := source\<rparr>
                  in (Inr (), se\<lparr>ns_windows := (ns_windows se)[sw := w1, tw := v1],
                                 ns_active_window_id := nw_id v\<rparr>))))"

definition move_after :: "mux_direction \<Rightarrow> nat" where
  "move_after d = (case d of MuxRight \<Rightarrow> 1 | MuxDown \<Rightarrow> 1 | _ \<Rightarrow> 0)"

definition move_in_session ::
  "string \<Rightarrow> string \<Rightarrow> mux_direction \<Rightarrow> native_session \<Rightarrow> unit res \<times> native_session" where
  "move_in_session source target d se =
     (case pane_location se source of
        None \<Rightarrow> (Inl ''source pane no longer exists'', se)
      | Some (sw, si) \<Rightarrow>
          (case pane_location se target of
             None \<Rightarrow> (Inl ''target pane no longer exists'', se)
           | Some (tw, _) \<Rightarrow>
               if source = target then (Inl ''a pane cannot be moved beside itself'', se)
               else
                 (case get_nth (ns_windows se) tw of
                    None \<Rightarrow> (Inl ''target window no longer exists'', se)
                  | Some v \<Rightarrow>
                      (case get_nth (ns_windows se) sw of
                         None \<Rightarrow> (Inl ''source window no longer exists'', se)
                       | Some old \<Rightarrow>
                           (let pane = nw_panes old ! si;
                                ps = remove_nth si (nw_panes old);
                                old1 = old\<lparr>nw_panes := ps,
                                           nw_active_pane_id :=
                                             (case (if nw_active_pane_id old = source
                                                    then first_opt ps else None) of
                                                None \<Rightarrow> nw_active_pane_id old
                                              | Some n \<Rightarrow> np_id n)\<rparr>;
                                se1 = se\<lparr>ns_windows :=
                                        filter (\<lambda>w. nw_panes w \<noteq> []) ((ns_windows se)[sw := old1])\<rparr>
                            in case find_window se1 (nw_id v) of
                                 None \<Rightarrow> (Inl ''target window no longer exists'', se1)
                               | Some dest \<Rightarrow>
                                   (case find_index (\<lambda>p. np_id p = target) (nw_panes dest) of
                                      None \<Rightarrow> (Inl ''target pane no longer exists'', se1)
                                    | Some ti \<Rightarrow>
                                        (let dest1 =
                                           dest\<lparr>nw_panes := insert_nth (ti + move_after d) pane
                                                  (nw_panes dest),
                                                nw_active_pane_id := source\<rparr>
                                         in (Inr (),
                                             renumber_windows
                                               ((put_window (nw_id v) dest1 se1)
                                                  \<lparr>ns_active_window_id := nw_id v\<rparr>)))))))))"

definition extract_in_session :: "string \<Rightarrow> native_session \<Rightarrow> unit res \<times> native_session" where
  "extract_in_session pid se =
     (case pane_location se pid of
        None \<Rightarrow> (Inl ''pane no longer exists'', se)
      | Some (wi, pi) \<Rightarrow>
          (case get_nth (ns_windows se) wi of
             None \<Rightarrow> (Inl ''window no longer exists'', se)
           | Some w0 \<Rightarrow>
               if length (nw_panes w0) < 2 then (Inl ''this pane already has its own tab'', se)
               else
                 (case next_window_id se of
                    (Inl e, se1) \<Rightarrow> (Inl e, se1)
                  | (Inr wid, se1) \<Rightarrow>
                      (case get_nth (ns_windows se1) wi of
                         None \<Rightarrow> (Inl ''window no longer exists'', se1)
                       | Some w \<Rightarrow>
                           (let pane = nw_panes w ! pi;
                                ps = remove_nth pi (nw_panes w);
                                w1 = w\<lparr>nw_panes := ps,
                                       nw_active_pane_id :=
                                         (case (if nw_active_pane_id w = pid
                                                then first_opt ps else None) of
                                            None \<Rightarrow> nw_active_pane_id w
                                          | Some n \<Rightarrow> np_id n)\<rparr>;
                                fresh = \<lparr>nw_id = wid, nw_index = 0, nw_name = nw_name w,
                                         nw_custom_name = False, nw_active_pane_id = pid,
                                         nw_panes = [pane], nw_layout = None\<rparr>
                            in (Inr (),
                                renumber_windows
                                  (se1\<lparr>ns_windows :=
                                         insert_nth (wi + 1) fresh ((ns_windows se1)[wi := w1]),
                                       ns_active_window_id := wid\<rparr>)))))))"

definition merge_windows where
  "merge_windows s sid source target = in_session sid (merge_in_session source target) s"

definition swap_panes where
  "swap_panes s sid source target = in_session sid (swap_in_session source target) s"

definition move_pane where
  "move_pane s sid source target d = in_session sid (move_in_session source target d) s"

definition extract_pane where
  "extract_pane s sid pid = in_session sid (extract_in_session pid) s"

section \<open>Snapshots\<close>

definition anchor_for_optional_pane :: "string \<Rightarrow> native_pane option \<Rightarrow> mux_pane_anchor" where
  "anchor_for_optional_pane sid p =
     \<lparr>an_session_id = sid, an_pane_id = map_option np_id p, an_pane_pid = None,
      an_cwd = map_option np_cwd p, an_process = Some ''shell''\<rparr>"

definition anchor_for_pane :: "string \<Rightarrow> native_pane \<Rightarrow> mux_pane_anchor" where
  "anchor_for_pane sid p = anchor_for_optional_pane sid (Some p)"

definition anchor_for_window :: "string \<Rightarrow> native_window \<Rightarrow> mux_pane_anchor" where
  "anchor_for_window sid w =
     anchor_for_optional_pane sid
       (case find (\<lambda>p. np_id p = nw_active_pane_id w) (nw_panes w) of
          Some p \<Rightarrow> Some p
        | None \<Rightarrow> first_opt (nw_panes w))"

definition snapshot_window :: "bool \<Rightarrow> native_session \<Rightarrow> native_window \<Rightarrow> mux_window" where
  "snapshot_window active se w =
     \<lparr>mw_id = nw_id w, mw_index = nw_index w, mw_name = nw_name w,
      mw_active = (active \<and> nw_id w = ns_active_window_id se),
      mw_anchor = anchor_for_window (ns_id se) w,
      mw_panes = map (anchor_for_pane (ns_id se)) (nw_panes w),
      mw_layout = nw_layout w\<rparr>"

definition snapshot_session :: "native_mux_state \<Rightarrow> native_session \<Rightarrow> mux_session" where
  "snapshot_session s se =
     (let active = (ns_id se = nm_active_session_id s);
          ws = map (snapshot_window active se) (ns_windows se);
          anchor = (case (case find (\<lambda>w. mw_id w = ns_active_window_id se) ws of
                            Some w \<Rightarrow> Some w
                          | None \<Rightarrow> first_opt ws) of
                      None \<Rightarrow> \<lparr>an_session_id = ns_id se, an_pane_id = None, an_pane_pid = None,
                               an_cwd = None, an_process = None\<rparr>
                    | Some w \<Rightarrow> mw_anchor w)
      in \<lparr>ms_id = ns_id se, ms_name = ns_name se, ms_active = active, ms_anchor = anchor,
          ms_active_window_id = Some (ns_active_window_id se), ms_windows = ws, ms_tag = ns_tag se\<rparr>)"

definition snapshot :: "native_mux_state \<Rightarrow> mux_snapshot" where
  "snapshot s =
     \<lparr>sn_sessions = map (snapshot_session s) (nm_sessions s),
      sn_active_session_id =
        (if nm_active_session_id s = [] then None else Some (nm_active_session_id s))\<rparr>"

section \<open>Dispatch of the topology commands\<close>

text \<open>\<^verbatim>\<open>CreatePane\<close> after its split: the new pane is the last one of the active window.\<close>

definition set_created_cwd ::
  "native_mux_state \<Rightarrow> string \<Rightarrow> string option \<Rightarrow> unit res \<times> native_mux_state" where
  "set_created_cwd s sid cwd =
     (case cwd of
        None \<Rightarrow> (Inr (), s)
      | Some c \<Rightarrow>
          (case active_window_mut s sid of
             None \<Rightarrow> (Inl ''created pane window is unavailable'', s)
           | Some w \<Rightarrow>
               if nw_panes w = [] then (Inl ''created pane is unavailable'', s)
               else (Inr (), write_window sid (nw_id w)
                       (w\<lparr>nw_panes := butlast (nw_panes w) @ [(last (nw_panes w))\<lparr>np_cwd := c\<rparr>]\<rparr>) s)))"

fun execute_pane_command ::
  "mux_command \<Rightarrow> native_mux_state \<Rightarrow> unit res \<times> native_mux_state" where
  "execute_pane_command (SplitPane sid pid _) s = split_pane s sid pid"
| "execute_pane_command (CreatePane sid pid _ cwd _) s =
     (case split_pane s sid pid of
        (Inl e, s1) \<Rightarrow> (Inl e, s1)
      | (Inr _, s1) \<Rightarrow> set_created_cwd s1 sid cwd)"
| "execute_pane_command (MergeWindows sid source target) s = merge_windows s sid source target"
| "execute_pane_command (SwapPanes sid source target) s = swap_panes s sid source target"
| "execute_pane_command (MovePane sid source target d) s = move_pane s sid source target d"
| "execute_pane_command (ExtractPane sid pid) s = extract_pane s sid pid"
| "execute_pane_command (SelectPane sid wid d) s = (Inr (), select_directional_pane s sid wid d)"
| "execute_pane_command (SelectNextPane sid wid) s = (Inr (), select_pane s sid wid 1)"
| "execute_pane_command (SelectPreviousPane sid wid) s = (Inr (), select_pane s sid wid (-1))"
| "execute_pane_command (KillPane sid pid) s = close_pane s sid pid False"
| "execute_pane_command (ClosePane sid pid) s = close_pane s sid pid True"
| "execute_pane_command _ s = (Inl ''command is not a pane operation'', s)"

fun execute_topology ::
  "env \<Rightarrow> mux_command \<Rightarrow> native_mux_state \<Rightarrow> unit res \<times> native_mux_state" where
  "execute_topology env (ActivatePane sid wid pid) s = activate_pane s sid wid pid"
| "execute_topology env (ActivateWindow sid wid) s = (Inr (), activate_window s sid wid)"
| "execute_topology env (NewWindow sid cwd _) s = new_window env s sid cwd"
| "execute_topology env (RenameWindow sid wid name) s = (Inr (), rename_window env s sid wid name)"
| "execute_topology env (ActivateNextWindow sid) s = (Inr (), activate_relative_window s sid 1)"
| "execute_topology env (ActivatePreviousWindow sid) s =
     (Inr (), activate_relative_window s sid (-1))"
| "execute_topology env (ActivateLastWindow sid) s = (Inr (), activate_relative_window s sid (-1))"
| "execute_topology env (ActivateWindowIndex sid index) s =
     (Inr (), activate_window_index s sid index)"
| "execute_topology env (MoveWindow sid wid delta) s = (Inr (), move_window s sid wid delta)"
| "execute_topology env (MoveWindowPreservingSelection sid wid delta selected) s =
     (Inr (), move_window_preserving_selection s sid wid delta selected)"
| "execute_topology env (CreateProjectSession sid cwd tag argv) s =
     (if argv \<noteq> None \<and> list_ex (\<lambda>x. ns_id x = sid \<or> ns_name x = sid) (nm_sessions s)
      then (Inl (''duplicate session: '' @ sid), s)
      else ensure_session env s sid cwd tag)"
| "execute_topology env (RestoreSession sid tag snap) s = restore_session s sid tag snap"
| "execute_topology env (RenameSession sid name) s = (Inr (), rename_session s sid name)"
| "execute_topology env (DitchSession sid) s = (Inr (), kill_session s sid)"
| "execute_topology env (StampSession sid tag) s = (Inr (), stamp_session s sid tag)"
| "execute_topology env command s = execute_pane_command command s"

end
