(* ===== verification/Native_Topology.thy ===== *)
theory Native_Topology
  imports Native_State
begin

text \<open>
  The topology invariant of the native multiplexer and its preservation by every operation of
  \<^verbatim>\<open>native/state.rs\<close>, on the error paths too.  Identities are unique and are never reused: pane
  identities across the whole server, window identities within their session.  Nothing is ever
  empty, and what is called active exists.
\<close>

section \<open>The invariant\<close>

definition window_pane_ids :: "native_window \<Rightarrow> string list" where
  "window_pane_ids w = map np_id (nw_panes w)"

definition windows_pane_ids :: "native_window list \<Rightarrow> string list" where
  "windows_pane_ids ws = concat (map window_pane_ids ws)"

definition session_pane_ids :: "native_session \<Rightarrow> string list" where
  "session_pane_ids se = windows_pane_ids (ns_windows se)"

definition native_pane_ids :: "native_mux_state \<Rightarrow> string list" where
  "native_pane_ids s = concat (map session_pane_ids (nm_sessions s))"

definition window_wf :: "native_window \<Rightarrow> bool" where
  "window_wf w \<longleftrightarrow>
     nw_active_pane_id w \<in> set (window_pane_ids w) \<and> pred_option valid_layout (nw_layout w)"

definition window_numbers :: "nat \<Rightarrow> nat list" where
  "window_numbers n = map (\<lambda>i. u32_or_max (i + 1)) [0..<n]"

text \<open>The part of the invariant that a list of windows carries by itself.\<close>

definition windows_wf :: "nat \<Rightarrow> native_window list \<Rightarrow> bool" where
  "windows_wf bound ws \<longleftrightarrow>
     distinct (map nw_id ws) \<and> set (map nw_id ws) \<subseteq> tab_id ` {..<bound}
     \<and> list_all window_wf ws \<and> distinct (windows_pane_ids ws)"

definition session_wf :: "native_session \<Rightarrow> bool" where
  "session_wf se \<longleftrightarrow>
     windows_wf (ns_next_window se) (ns_windows se)
     \<and> ns_active_window_id se \<in> set (map nw_id (ns_windows se))
     \<and> map nw_index (ns_windows se) = window_numbers (length (ns_windows se))
     \<and> ns_next_window se < 2 ^ 64"

definition native_wf :: "native_mux_state \<Rightarrow> bool" where
  "native_wf s \<longleftrightarrow>
     distinct (map ns_id (nm_sessions s))
     \<and> (if nm_sessions s = [] then nm_active_session_id s = []
        else nm_active_session_id s \<in> set (map ns_id (nm_sessions s)))
     \<and> list_all session_wf (nm_sessions s)
     \<and> distinct (native_pane_ids s)
     \<and> set (native_pane_ids s) \<subseteq> pane_id (nm_generation s) ` {..<nm_next_pane s}
     \<and> nm_next_pane s < 2 ^ 64"

section \<open>Identities\<close>

lemma pane_id_inject [simp]: "pane_id g m = pane_id g n \<longleftrightarrow> m = n"
  by (simp add: pane_id_def)

lemma tab_id_inject [simp]: "tab_id m = tab_id n \<longleftrightarrow> m = n"
  by (simp add: tab_id_def)

lemma next_pane_id_cases:
  assumes "next_pane_id s = (r, s1)"
  obtains (exhausted) e where "r = Inl e" "s1 = s"
  | (fresh) "r = Inr (pane_id (nm_generation s) (nm_next_pane s))"
      "s1 = s\<lparr>nm_next_pane := Suc (nm_next_pane s)\<rparr>" "Suc (nm_next_pane s) < 2 ^ 64"
  using assms by (auto simp: next_pane_id_def checked_add_def Let_def split: if_splits)

lemma next_window_id_cases:
  assumes "next_window_id se = (r, se1)"
  obtains (exhausted) e where "r = Inl e" "se1 = se"
  | (fresh) "r = Inr (tab_id (ns_next_window se))"
      "se1 = se\<lparr>ns_next_window := Suc (ns_next_window se)\<rparr>" "Suc (ns_next_window se) < 2 ^ 64"
  using assms by (auto simp: next_window_id_def checked_add_def Let_def split: if_splits)

section \<open>Lists of windows\<close>

lemma window_pane_ids_simps [simp]:
  "window_pane_ids (w\<lparr>nw_index := i\<rparr>) = window_pane_ids w"
  "window_pane_ids (w\<lparr>nw_name := n\<rparr>) = window_pane_ids w"
  "window_pane_ids (w\<lparr>nw_custom_name := c\<rparr>) = window_pane_ids w"
  "window_pane_ids (w\<lparr>nw_active_pane_id := a\<rparr>) = window_pane_ids w"
  "window_pane_ids (w\<lparr>nw_layout := l\<rparr>) = window_pane_ids w"
  "window_pane_ids (w\<lparr>nw_panes := ps\<rparr>) = map np_id ps"
  by (simp_all add: window_pane_ids_def)

lemma windows_pane_ids_simps [simp]:
  "windows_pane_ids [] = []"
  "windows_pane_ids (w # ws) = window_pane_ids w @ windows_pane_ids ws"
  "windows_pane_ids (us @ ws) = windows_pane_ids us @ windows_pane_ids ws"
  by (simp_all add: windows_pane_ids_def)

lemma length_window_numbers [simp]: "length (window_numbers n) = n"
  by (simp add: window_numbers_def)

lemma mset_windows_pane_ids: "mset (windows_pane_ids ws) = (\<Sum>w \<in># mset ws. mset (window_pane_ids w))"
  by (induction ws) auto

lemma windows_wf_mset:
  assumes "mset ws = mset us" "windows_wf b ws"
  shows "windows_wf b us"
proof -
  have "mset (map nw_id ws) = mset (map nw_id us)" using assms(1) by simp
  moreover have "mset (windows_pane_ids ws) = mset (windows_pane_ids us)"
    using assms(1) by (simp add: mset_windows_pane_ids)
  moreover have "set ws = set us" using assms(1) by (rule mset_eq_setD)
  ultimately show ?thesis
    using assms(2) distinct_mset_cong [of "map nw_id ws" "map nw_id us"]
      distinct_mset_cong [of "windows_pane_ids ws" "windows_pane_ids us"]
    by (auto simp: windows_wf_def list_all_iff)
qed

section \<open>Replacing one session\<close>

text \<open>
  The promise of every operation: a well-formed state again, counters that only grow, and no pane
  identity but the old ones and those allocated by this step.
\<close>

definition native_step :: "native_mux_state \<Rightarrow> native_mux_state \<Rightarrow> bool" where
  "native_step s s1 \<longleftrightarrow>
     native_wf s1 \<and> nm_generation s1 = nm_generation s \<and> nm_next_pane s \<le> nm_next_pane s1
     \<and> set (native_pane_ids s1) \<subseteq> set (native_pane_ids s)
          \<union> pane_id (nm_generation s) ` {nm_next_pane s..<nm_next_pane s1}"

lemma native_step_refl [simp]: "native_wf s \<Longrightarrow> native_step s s"
  by (simp add: native_step_def)

lemma native_step_trans: "native_step s s1 \<Longrightarrow> native_step s1 s2 \<Longrightarrow> native_step s s2"
  by (fastforce simp: native_step_def)

lemma native_stepD: "native_step s s1 \<Longrightarrow> native_wf s1"
  by (simp add: native_step_def)

lemma native_step_replace:
  assumes wf: "native_wf s" and se: "active_session_mut s sid = Some se"
    and new: "session_wf se1" "ns_id se1 = sid"
    and ids: "set (session_pane_ids se1) \<subseteq> set (session_pane_ids se) \<union> new_ids"
    and fresh: "new_ids \<subseteq> pane_id (nm_generation s) ` {nm_next_pane s..<n}"
    and n: "nm_next_pane s \<le> n" "n < 2 ^ 64"
    and act: "act = nm_active_session_id s \<or> act = sid"
  shows "native_step s ((put_session sid se1 (s\<lparr>nm_next_pane := n\<rparr>))\<lparr>nm_active_session_id := act\<rparr>)"
proof -
  obtain ys zs where sess: "nm_sessions s = ys @ se # zs"
    and upd: "update_first (\<lambda>x. ns_id x = sid) (\<lambda>_. se1) (nm_sessions s) = ys @ se1 # zs"
    using update_first_split [OF se [unfolded active_session_mut_def]] by blast
  have id: "ns_id se = sid" using se find_SomeD unfolding active_session_mut_def by fastforce
  have disj: "new_ids \<inter> set (native_pane_ids s) = {}"
    using wf fresh by (fastforce simp: native_wf_def)
  have "distinct (session_pane_ids se1)"
    using new(1) by (simp add: session_wf_def windows_wf_def session_pane_ids_def)
  moreover have "set (session_pane_ids se) \<inter> set (concat (map session_pane_ids (ys @ zs))) = {}"
    and "distinct (concat (map session_pane_ids (ys @ zs)))"
    using wf by (auto simp: native_wf_def native_pane_ids_def sess)
  moreover have "new_ids \<inter> set (concat (map session_pane_ids (ys @ zs))) = {}"
    using disj by (auto simp: native_pane_ids_def sess)
  ultimately have "distinct (concat (map session_pane_ids (ys @ se1 # zs)))"
    using ids by auto
  moreover have "set (concat (map session_pane_ids (ys @ se1 # zs)))
      \<subseteq> pane_id (nm_generation s) ` {..<n}"
  proof -
    have "set (native_pane_ids s) \<subseteq> pane_id (nm_generation s) ` {..<n}"
      using wf n(1) by (fastforce simp: native_wf_def)
    moreover have "new_ids \<subseteq> pane_id (nm_generation s) ` {..<n}" using fresh by fastforce
    ultimately show ?thesis using ids by (auto simp: native_pane_ids_def sess)
  qed
  moreover have "set (concat (map session_pane_ids (ys @ se1 # zs)))
      \<subseteq> set (native_pane_ids s) \<union> pane_id (nm_generation s) ` {nm_next_pane s..<n}"
    using ids fresh by (auto simp: native_pane_ids_def sess)
  ultimately show ?thesis
    using wf new n act id upd
    by (auto simp: native_step_def native_wf_def put_session_def native_pane_ids_def sess)
qed

lemma native_wf_session:
  "native_wf s \<Longrightarrow> active_session_mut s sid = Some se \<Longrightarrow> session_wf se \<and> ns_id se = sid"
  unfolding active_session_mut_def by (drule find_SomeD) (auto simp: native_wf_def list_all_iff)

text \<open>A rewrite of a session that allocates nothing.\<close>

definition session_step :: "native_session \<Rightarrow> native_session \<Rightarrow> bool" where
  "session_step se se1 \<longleftrightarrow>
     ns_id se1 = ns_id se \<and> (session_wf se \<longrightarrow> session_wf se1)
     \<and> set (session_pane_ids se1) \<subseteq> set (session_pane_ids se)"

lemma native_step_put:
  assumes "native_wf s" "active_session_mut s sid = Some se" "session_step se se1"
  shows "native_step s (put_session sid se1 s)"
    "native_step s ((put_session sid se1 s)\<lparr>nm_active_session_id := sid\<rparr>)"
proof -
  have "native_step s ((put_session sid se1 s)\<lparr>nm_active_session_id := act\<rparr>)"
    if "act = nm_active_session_id s \<or> act = sid" for act
  proof -
    have "nm_next_pane s < 2 ^ 64" using assms(1) by (simp add: native_wf_def)
    then show ?thesis
      using native_step_replace [OF assms(1,2), of se1 "{}" "nm_next_pane s" act]
        native_wf_session [OF assms(1,2)] assms(3) that
      by (simp add: session_step_def)
  qed
  from this [of "nm_active_session_id s"] this [of sid]
  show "native_step s (put_session sid se1 s)"
    "native_step s ((put_session sid se1 s)\<lparr>nm_active_session_id := sid\<rparr>)"
    by (simp_all add: put_session_def)
qed

section \<open>Replacing windows inside a session\<close>

lemma one_at:
  assumes "i < length ws"
  shows "mset ws = mset (ws ! i # remove_nth i ws)" "mset (ws[i := w]) = mset (w # remove_nth i ws)"
proof -
  show "mset ws = mset (ws ! i # remove_nth i ws)" using mset_remove_nth [OF assms] by simp
  then show "mset (ws[i := w]) = mset (w # remove_nth i ws)" using assms by (simp add: mset_update)
qed

lemma two_at:
  assumes "i < length ws" "j < length ws" "i \<noteq> j"
  obtains rest where "mset ws = mset (ws ! i # ws ! j # rest)"
    "\<And>a b. mset (ws[i := a, j := b]) = mset (a # b # rest)"
    "\<And>b. mset (remove_nth i (ws[j := b])) = mset (b # rest)"
proof -
  define M where "M = mset ws - {# ws ! i #} - {# ws ! j #}"
  have j: "ws ! j \<in># mset ws - {# ws ! i #}"
  proof -
    have "ws ! j \<in># mset (remove_nth i ws)"
    proof (cases "j < i")
      case True
      then have "ws ! j \<in> set (take i ws)" using assms by (auto simp: in_set_conv_nth)
      then show ?thesis by (simp add: remove_nth_def)
    next
      case False
      then have "ws ! j = drop (Suc i) ws ! (j - Suc i)" "j - Suc i < length (drop (Suc i) ws)"
        using assms by auto
      then have "ws ! j \<in> set (drop (Suc i) ws)" by (metis nth_mem)
      then show ?thesis by (simp add: remove_nth_def)
    qed
    then show ?thesis using mset_remove_nth [OF assms(1)] by (metis add_mset_remove_trivial)
  qed
  have M: "mset ws = {# ws ! i, ws ! j #} + M"
  proof -
    have "mset ws = add_mset (ws ! i) (mset ws - {# ws ! i #})" using assms(1) by simp
    moreover have "mset ws - {# ws ! i #} = add_mset (ws ! j) M"
      unfolding M_def using j by (rule insert_DiffM [symmetric])
    ultimately show ?thesis by simp
  qed
  have upd: "mset (ws[j := b]) = {# ws ! i, b #} + M" for b
    using M assms(2) by (simp add: mset_update)
  have 2: "mset (ws[i := a, j := b]) = {# a, b #} + M" for a b
    using upd assms by (simp add: mset_update list_update_swap [of i j] M)
  have 3: "mset (remove_nth i (ws[j := b])) = {# b #} + M" for b
    using mset_remove_nth [of i "ws[j := b]"] upd [of b] assms by simp
  obtain rest where "M = mset rest" by (metis ex_mset)
  with that M 2 3 show ?thesis by simp
qed

lemma map_list_update_same:
  "i < length xs \<Longrightarrow> f y = f (xs ! i) \<Longrightarrow> map f (xs[i := y]) = map f xs"
  by (metis list_update_id map_update nth_map)

lemma renumber_simps [simp]:
  "ns_id (renumber_windows se) = ns_id se"
  "ns_active_window_id (renumber_windows se) = ns_active_window_id se"
  "ns_next_window (renumber_windows se) = ns_next_window se"
  "length (ns_windows (renumber_windows se)) = length (ns_windows se)"
  "map nw_id (ns_windows (renumber_windows se)) = map nw_id (ns_windows se)"
  "map window_pane_ids (ns_windows (renumber_windows se)) = map window_pane_ids (ns_windows se)"
  "map nw_index (ns_windows (renumber_windows se)) = window_numbers (length (ns_windows se))"
  by (auto simp: renumber_windows_def window_numbers_def enumerate_eq_zip comp_def case_prod_beta
      intro!: nth_equalityI)

lemma session_pane_ids_renumber [simp]: "session_pane_ids (renumber_windows se) = session_pane_ids se"
  by (simp add: session_pane_ids_def windows_pane_ids_def)

lemma window_wf_renumber:
  "list_all window_wf (ns_windows (renumber_windows se)) = list_all window_wf (ns_windows se)"
  by (simp add: list_all_length renumber_windows_def window_wf_def nth_enumerate_eq case_prod_beta)

lemma windows_wf_renumber [simp]:
  "windows_wf b (ns_windows (renumber_windows se)) = windows_wf b (ns_windows se)"
  by (simp only: windows_wf_def window_wf_renumber renumber_simps windows_pane_ids_def)

lemma session_wf_renumber:
  assumes "windows_wf (ns_next_window se) (ns_windows se)"
    and "ns_active_window_id se \<in> set (map nw_id (ns_windows se))" "ns_next_window se < 2 ^ 64"
  shows "session_wf (renumber_windows se)"
  using assms unfolding session_wf_def by (simp only: renumber_simps windows_wf_renumber simp_thms)

lemma session_wfD:
  assumes "session_wf se"
  shows "windows_wf (ns_next_window se) (ns_windows se)" "ns_next_window se < 2 ^ 64"
    "ns_active_window_id se \<in> set (map nw_id (ns_windows se))"
    "map nw_index (ns_windows se) = window_numbers (length (ns_windows se))"
  using assms by (simp_all add: session_wf_def)

lemma find_window_wf:
  assumes "session_wf se" "find_window se wid = Some w"
  shows "nw_id w = wid \<and> w \<in> set (ns_windows se) \<and> window_wf w \<and> distinct (window_pane_ids w)
    \<and> set (window_pane_ids w) \<subseteq> set (session_pane_ids se)"
proof -
  have w: "w \<in> set (ns_windows se)" "nw_id w = wid"
    using assms(2) unfolding find_window_def by (auto dest: find_SomeD)
  then obtain ys zs where "ns_windows se = ys @ w # zs" by (meson split_list)
  with assms(1) w show ?thesis
    by (auto simp: session_wf_def windows_wf_def session_pane_ids_def)
qed

text \<open>One window replaced by one with the same identity, possibly holding fresh panes.\<close>

lemma session_wf_put_window:
  assumes wf: "session_wf se" and w: "find_window se wid = Some w"
    and same: "nw_id w1 = wid" "nw_index w1 = nw_index w"
    and ok: "window_wf w1" "distinct (window_pane_ids w1)"
    and ids: "set (window_pane_ids w1) \<subseteq> set (window_pane_ids w) \<union> N"
    and fresh: "N \<inter> set (session_pane_ids se) = {}"
  shows "session_wf (put_window wid w1 se) \<and> ns_id (put_window wid w1 se) = ns_id se
    \<and> set (session_pane_ids (put_window wid w1 se)) \<subseteq> set (session_pane_ids se) \<union> N"
proof -
  obtain ys zs where ws: "ns_windows se = ys @ w # zs"
    and upd: "update_first (\<lambda>x. nw_id x = wid) (\<lambda>_. w1) (ns_windows se) = ys @ w1 # zs"
    using update_first_split [OF w [unfolded find_window_def]] by blast
  have id: "nw_id w = wid" using find_window_wf [OF wf w] by simp
  have "distinct (windows_pane_ids (ys @ w1 # zs))"
    using wf ok ids fresh by (auto simp: session_wf_def windows_wf_def session_pane_ids_def ws)
  then have "windows_wf (ns_next_window se) (ys @ w1 # zs)"
    using session_wfD(1) [OF wf] ok same id by (simp add: windows_wf_def ws)
  then show ?thesis
    using wf same id ids upd by (auto simp: session_wf_def put_window_def ws session_pane_ids_def)
qed

lemma session_step_put_window:
  assumes "find_window se wid = Some w" "nw_id w1 = nw_id w" "nw_index w1 = nw_index w"
    and "window_wf w \<Longrightarrow> window_wf w1" "window_pane_ids w1 = window_pane_ids w"
    and "session_wf se"
  shows "session_step se (put_window wid w1 se)"
  using session_wf_put_window [OF assms(6,1), of w1 "{}"] find_window_wf [OF assms(6,1)] assms
  by (simp add: session_step_def)

lemma native_step_write_window:
  assumes "native_wf s" "window_mut s sid wid = Some w" "nw_id w1 = nw_id w" "nw_index w1 = nw_index w"
    and "window_wf w \<Longrightarrow> window_wf w1" "window_pane_ids w1 = window_pane_ids w"
  shows "native_step s (write_window sid wid w1 s)"
    "native_step s ((write_window sid wid w1 s)\<lparr>nm_active_session_id := sid\<rparr>)"
proof -
  obtain se where se: "active_session_mut s sid = Some se" "find_window se wid = Some w"
    using assms(2) by (auto simp: window_mut_def split: option.splits)
  have "session_step se (put_window wid w1 se)"
    using session_step_put_window [OF se(2)] assms native_wf_session [OF assms(1) se(1)] by blast
  from native_step_put [OF assms(1) se(1) this]
  show "native_step s (write_window sid wid w1 s)"
    "native_step s ((write_window sid wid w1 s)\<lparr>nm_active_session_id := sid\<rparr>)"
    by (simp_all add: write_window_def se)
qed

section \<open>Pane locations\<close>

lemma pane_location_from_Some:
  "pane_location_from k ws p = Some (wi, pi) \<Longrightarrow>
     k \<le> wi \<and> wi - k < length ws \<and> pi < length (nw_panes (ws ! (wi - k)))
     \<and> np_id (nw_panes (ws ! (wi - k)) ! pi) = p"
proof (induction ws arbitrary: k)
  case (Cons w ws)
  show ?case
  proof (cases "find_index (\<lambda>x. np_id x = p) (nw_panes w)")
    case None
    with Cons.prems have "pane_location_from (Suc k) ws p = Some (wi, pi)" by simp
    from Cons.IH [OF this] show ?thesis by (auto simp: nth_Cons' Suc_diff_le)
  next
    case (Some i)
    with Cons.prems find_index_SomeD [OF Some] show ?thesis by auto
  qed
qed simp

lemma pane_location_from_None:
  "pane_location_from k ws p = None \<longleftrightarrow> p \<notin> set (windows_pane_ids ws)"
  by (induction ws arbitrary: k)
    (auto simp: find_index_None window_pane_ids_def split: option.splits dest!: find_index_SomeD)

lemma pane_location_Some:
  assumes "pane_location se p = Some (wi, pi)"
  shows "wi < length (ns_windows se)" "pi < length (nw_panes (ns_windows se ! wi))"
    "np_id (nw_panes (ns_windows se ! wi) ! pi) = p"
  using pane_location_from_Some [OF assms [unfolded pane_location_def]] by simp_all

lemma pane_location_None: "pane_location se p = None \<longleftrightarrow> p \<notin> set (session_pane_ids se)"
  by (simp add: pane_location_def pane_location_from_None session_pane_ids_def)

lemma target_pane_location_Inr:
  assumes "target_pane_location se pid = Inr (wi, pi)"
  shows "wi < length (ns_windows se)" "pi < length (nw_panes (ns_windows se ! wi))"
  using assms
  by (auto simp: target_pane_location_def get_nth_def split: option.splits if_splits
      dest: pane_location_Some find_index_lt)

section \<open>Rearrangements keep every pane\<close>

definition rearranged :: "native_session \<Rightarrow> native_session \<Rightarrow> bool" where
  "rearranged se se1 \<longleftrightarrow>
     session_wf se1 \<and> ns_id se1 = ns_id se \<and> mset (session_pane_ids se1) = mset (session_pane_ids se)"

lemma rearranged_refl: "session_wf se \<Longrightarrow> rearranged se se"
  by (simp add: rearranged_def)

lemma rearranged_step: "(session_wf se \<Longrightarrow> rearranged se se1) \<Longrightarrow> session_wf se \<Longrightarrow> session_step se se1"
  by (auto simp: rearranged_def session_step_def dest: mset_eq_setD)

lemma mset_session_pane_ids:
  "mset (ns_windows se) = mset us \<Longrightarrow> mset (session_pane_ids se) = mset (windows_pane_ids us)"
  by (simp add: session_pane_ids_def mset_windows_pane_ids)

lemma rearranged_renumber:
  assumes "mset (ns_windows se1) = mset us" "windows_wf (ns_next_window se1) us"
    and "ns_active_window_id se1 \<in> nw_id ` set us" "ns_next_window se1 < 2 ^ 64"
    and "mset (windows_pane_ids us) = mset (session_pane_ids se)" "ns_id se1 = ns_id se"
  shows "rearranged se (renumber_windows se1)"
proof -
  have "windows_wf (ns_next_window se1) (ns_windows se1)"
    using windows_wf_mset [OF assms(1) [symmetric] assms(2)] .
  moreover have "set (ns_windows se1) = set us" using assms(1) by (rule mset_eq_setD)
  ultimately have "session_wf (renumber_windows se1)"
    using assms(3,4) by (intro session_wf_renumber) simp_all
  then show ?thesis
    using assms mset_session_pane_ids [OF assms(1)] by (simp add: rearranged_def)
qed

lemma find_index_id_nth: "find_index (\<lambda>w. nw_id w = i) ws = Some k \<Longrightarrow> k < length ws \<and> nw_id (ws ! k) = i"
  by (drule find_index_SomeD) simp

lemma merge_in_session_ok:
  assumes wf: "session_wf se" and res: "merge_in_session source target se = (r, se1)"
  shows "rearranged se se1"
proof (cases "\<exists>si ti. find_index (\<lambda>w. nw_id w = source) (ns_windows se) = Some si \<and> source \<noteq> target
    \<and> find_index (\<lambda>w. nw_id w = target) (ns_windows se) = Some ti \<and> si \<noteq> ti")
  case False
  with res have "se1 = se" by (auto simp: merge_in_session_def split: option.splits if_splits)
  with wf show ?thesis by (simp add: rearranged_refl)
next
  case True
  then obtain si ti where si: "find_index (\<lambda>w. nw_id w = source) (ns_windows se) = Some si"
    and ti: "find_index (\<lambda>w. nw_id w = target) (ns_windows se) = Some ti"
    and ne: "source \<noteq> target" "si \<noteq> ti" by blast
  let ?ws = "ns_windows se" let ?sw = "?ws ! si" let ?tw = "?ws ! ti"
  let ?tw1 = "?tw\<lparr>nw_panes := nw_panes ?tw @ nw_panes ?sw, nw_active_pane_id := nw_active_pane_id ?sw\<rparr>"
  from find_index_id_nth [OF si] find_index_id_nth [OF ti] ne(2)
  obtain rest where m: "mset ?ws = mset (?sw # ?tw # rest)"
    "\<And>b. mset (remove_nth si (?ws[ti := b])) = mset (b # rest)"
    by (metis two_at)
  have w: "windows_wf (ns_next_window se) (?sw # ?tw # rest)"
    using windows_wf_mset [OF m(1) session_wfD(1) [OF wf]] .
  have "se1 = renumber_windows (se\<lparr>ns_active_window_id := nw_id ?tw1,
      ns_windows := remove_nth si (?ws[ti := ?tw1])\<rparr>)"
    using res si ti ne by (simp add: merge_in_session_def Let_def)
  moreover have "rearranged se (renumber_windows (se\<lparr>ns_active_window_id := nw_id ?tw1,
      ns_windows := remove_nth si (?ws[ti := ?tw1])\<rparr>))"
  proof (rule rearranged_renumber [where us = "?tw1 # rest"])
    show "windows_wf (ns_next_window (se\<lparr>ns_active_window_id := nw_id ?tw1,
        ns_windows := remove_nth si (?ws[ti := ?tw1])\<rparr>)) (?tw1 # rest)"
      using w by (auto simp: windows_wf_def window_wf_def window_pane_ids_def)
    show "mset (windows_pane_ids (?tw1 # rest)) = mset (session_pane_ids se)"
      using mset_session_pane_ids [OF m(1)] by (simp add: window_pane_ids_def)
  qed (use m(2) session_wfD(2) [OF wf] in simp_all)
  ultimately show ?thesis by simp
qed

lemma windows_wf_ids:
  assumes "windows_wf b (w # rest)" "nw_id w1 = nw_id w" "window_wf w1" "distinct (window_pane_ids w1)"
    and "set (window_pane_ids w1) \<subseteq> set (window_pane_ids w)"
  shows "windows_wf b (w1 # rest)"
  using assms by (auto simp: windows_wf_def)

lemma swap_mset:
  "i < length xs \<Longrightarrow> j < length xs \<Longrightarrow> mset (xs[i := xs ! j, j := xs ! i]) = mset xs"
  by (rule mset_swap [where ls = xs])

lemma swap_within_window:
  assumes wf: "session_wf se" and res: "swap_in_session source target se = (r, se1)"
    and s: "pane_location se source = Some (sw, si)" and t: "pane_location se target = Some (tw, ti)"
    and ne: "source \<noteq> target" and same: "sw = tw"
  shows "rearranged se se1"
proof -
  note S = pane_location_Some [OF s] and T = pane_location_Some [OF t]
  let ?ws = "ns_windows se" let ?w = "?ws ! sw"
  let ?w1 = "?w\<lparr>nw_panes := (nw_panes ?w)[si := nw_panes ?w ! ti, ti := nw_panes ?w ! si],
    nw_active_pane_id := source\<rparr>"
  have se1: "se1 = se\<lparr>ns_windows := ?ws[sw := ?w1], ns_active_window_id := nw_id ?w\<rparr>"
    using res s t ne same by (simp add: swap_in_session_def Let_def)
  have perm: "mset (window_pane_ids ?w1) = mset (window_pane_ids ?w)"
    using swap_mset [of si "nw_panes ?w" ti] S T same
    by (simp add: window_pane_ids_def)
  note m = one_at [OF S(1)]
  have w: "windows_wf (ns_next_window se) (?w # remove_nth sw ?ws)"
    using windows_wf_mset [OF m(1) session_wfD(1) [OF wf]] .
  have "source \<in> set (window_pane_ids ?w)" using S by (auto simp: window_pane_ids_def)
  then have "window_wf ?w1" using w mset_eq_setD [OF perm] by (simp add: window_wf_def windows_wf_def)
  with w have "windows_wf (ns_next_window se) (?w1 # remove_nth sw ?ws)"
    by (rule_tac windows_wf_ids)
      (use w distinct_mset_cong [OF perm] mset_eq_setD [OF perm] in \<open>auto simp: windows_wf_def\<close>)
  then have "windows_wf (ns_next_window se) (?ws[sw := ?w1])"
    using windows_wf_mset [OF m(2) [symmetric]] by blast
  moreover have "mset (session_pane_ids se1) = mset (session_pane_ids se)"
    using mset_session_pane_ids [of se1, OF trans [OF _ m(2) [of ?w1]]]
      mset_session_pane_ids [OF m(1)] perm se1 by simp
  moreover have "map nw_index (?ws[sw := ?w1]) = map nw_index ?ws" "map nw_id (?ws[sw := ?w1]) = map nw_id ?ws"
    using S(1) by (auto intro: map_list_update_same)
  ultimately show ?thesis
    using wf S(1) by (simp add: rearranged_def se1 session_wf_def del: map_update)
qed

lemma swap_across_windows:
  assumes wf: "session_wf se" and res: "swap_in_session source target se = (r, se1)"
    and s: "pane_location se source = Some (sw, si)" and t: "pane_location se target = Some (tw, ti)"
    and ne: "source \<noteq> target" and other: "sw \<noteq> tw"
  shows "rearranged se se1"
proof -
  note S = pane_location_Some [OF s] and T = pane_location_Some [OF t]
  let ?ws = "ns_windows se" let ?w = "?ws ! sw" let ?v = "?ws ! tw"
  let ?w1 = "?w\<lparr>nw_panes := (nw_panes ?w)[si := nw_panes ?v ! ti],
    nw_active_pane_id := (if nw_active_pane_id ?w = source then target else nw_active_pane_id ?w)\<rparr>"
  let ?v1 = "?v\<lparr>nw_panes := (nw_panes ?v)[ti := nw_panes ?w ! si], nw_active_pane_id := source\<rparr>"
  have se1: "se1 = se\<lparr>ns_windows := ?ws[sw := ?w1, tw := ?v1], ns_active_window_id := nw_id ?v\<rparr>"
    using res s t ne other by (simp add: swap_in_session_def Let_def)
  obtain rest where m: "mset ?ws = mset (?w # ?v # rest)"
    "\<And>a b. mset (?ws[sw := a, tw := b]) = mset (a # b # rest)"
    using two_at [OF S(1) T(1) other] by metis
  have w: "windows_wf (ns_next_window se) (?w # ?v # rest)"
    using windows_wf_mset [OF m(1) session_wfD(1) [OF wf]] .
  obtain wr where wr: "mset (window_pane_ids ?w) = mset (source # wr)"
    "mset (window_pane_ids ?w1) = mset (target # wr)"
    using one_at(1) [of si "window_pane_ids ?w"] one_at(2) [of si "window_pane_ids ?w" target] S T
    by (auto simp: window_pane_ids_def map_update)
  obtain vr where vr: "mset (window_pane_ids ?v) = mset (target # vr)"
    "mset (window_pane_ids ?v1) = mset (source # vr)"
    using one_at(1) [of ti "window_pane_ids ?v"] one_at(2) [of ti "window_pane_ids ?v" source] S T
    by (auto simp: window_pane_ids_def map_update)
  have perm: "mset (windows_pane_ids (?w1 # ?v1 # rest)) = mset (windows_pane_ids (?w # ?v # rest))"
    using wr vr by simp
  have "distinct (windows_pane_ids (?w1 # ?v1 # rest))"
    using distinct_mset_cong [OF perm] w by (simp add: windows_wf_def)
  moreover have "window_wf ?w1" "window_wf ?v1"
    using w mset_eq_setD [OF wr(1)] mset_eq_setD [OF wr(2)] mset_eq_setD [OF vr(2)]
    by (auto simp: windows_wf_def window_wf_def)
  ultimately have "windows_wf (ns_next_window se) (?w1 # ?v1 # rest)"
    using w by (auto simp: windows_wf_def)
  then have "windows_wf (ns_next_window se) (?ws[sw := ?w1, tw := ?v1])"
    using windows_wf_mset [OF m(2) [symmetric]] by blast
  moreover have "mset (session_pane_ids se1) = mset (session_pane_ids se)"
    using mset_session_pane_ids [of se1, OF trans [OF _ m(2) [of ?w1 ?v1]]]
      mset_session_pane_ids [OF m(1)] perm se1 by simp
  moreover have "map nw_index (?ws[sw := ?w1, tw := ?v1]) = map nw_index ?ws"
    "map nw_id (?ws[sw := ?w1, tw := ?v1]) = map nw_id ?ws"
    using S(1) T(1) other by (simp_all add: map_list_update_same nth_list_update)
  ultimately show ?thesis
    using wf T(1) by (simp add: rearranged_def se1 session_wf_def del: map_update)
qed

lemma swap_in_session_ok:
  assumes wf: "session_wf se" and res: "swap_in_session source target se = (r, se1)"
  shows "rearranged se se1"
proof (cases "\<exists>sw si tw ti. pane_location se source = Some (sw, si)
    \<and> pane_location se target = Some (tw, ti) \<and> source \<noteq> target")
  case False
  with res have "se1 = se" by (auto simp: swap_in_session_def split: option.splits if_splits)
  with wf show ?thesis by (simp add: rearranged_refl)
next
  case True
  then show ?thesis using swap_within_window [OF assms] swap_across_windows [OF assms] by blast
qed

section \<open>Taking a pane out of its window\<close>

lemma remove_pane_ids:
  assumes "pi < length (nw_panes w)"
  shows "mset (window_pane_ids w)
    = add_mset (np_id (nw_panes w ! pi)) (mset (map np_id (remove_nth pi (nw_panes w))))"
  using one_at(1) [of pi "window_pane_ids w"] assms by (simp add: window_pane_ids_def map_remove_nth)

lemma window_wf_removed:
  assumes "window_wf w" "pi < length (nw_panes w)"
    and "act \<in> np_id ` set (remove_nth pi (nw_panes w))
      \<or> act = nw_active_pane_id w \<and> act \<noteq> np_id (nw_panes w ! pi)"
  shows "window_wf (w\<lparr>nw_panes := remove_nth pi (nw_panes w), nw_active_pane_id := act\<rparr>)"
  using assms mset_eq_setD [of "window_pane_ids w" "np_id (nw_panes w ! pi) # map np_id (remove_nth pi (nw_panes w))"]
    remove_pane_ids [OF assms(2)]
  by (auto simp: window_wf_def)

text \<open>The next active pane chosen when the active one leaves for another window.\<close>

definition active_after :: "native_window \<Rightarrow> string \<Rightarrow> native_pane list \<Rightarrow> string" where
  "active_after w gone ps =
     (case (if nw_active_pane_id w = gone then first_opt ps else None) of
        None \<Rightarrow> nw_active_pane_id w
      | Some n \<Rightarrow> np_id n)"

lemma window_wf_active_after:
  assumes "window_wf w" "pi < length (nw_panes w)" "remove_nth pi (nw_panes w) \<noteq> []"
  shows "window_wf (w\<lparr>nw_panes := remove_nth pi (nw_panes w), nw_active_pane_id :=
    active_after w (np_id (nw_panes w ! pi)) (remove_nth pi (nw_panes w))\<rparr>)"
  using assms
  by (intro window_wf_removed)
    (auto simp: active_after_def first_opt_def split: option.splits list.splits if_splits)

lemma window_wf_nonempty: "window_wf w \<Longrightarrow> nw_panes w \<noteq> []"
  by (auto simp: window_wf_def window_pane_ids_def)

lemma windows_without_pane:
  assumes wf: "windows_wf b ws" and i: "wi < length ws" "pi < length (nw_panes (ws ! wi))"
    and old1: "old1 = (ws ! wi)\<lparr>nw_panes := remove_nth pi (nw_panes (ws ! wi)), nw_active_pane_id :=
      active_after (ws ! wi) (np_id (nw_panes (ws ! wi) ! pi)) (remove_nth pi (nw_panes (ws ! wi)))\<rparr>"
    and us: "us = filter (\<lambda>w. nw_panes w \<noteq> []) (ws[wi := old1])"
  shows "windows_wf b us"
    "mset (windows_pane_ids ws) = add_mset (np_id (nw_panes (ws ! wi) ! pi)) (mset (windows_pane_ids us))"
proof -
  let ?w = "ws ! wi" let ?rest = "remove_nth wi ws"
  have w: "windows_wf b (?w # ?rest)" using windows_wf_mset [OF one_at(1) [OF i(1)] wf] .
  then have "\<forall>u \<in> set ?rest. nw_panes u \<noteq> []"
    by (auto simp: windows_wf_def list_all_iff dest: window_wf_nonempty)
  then have "filter_mset (\<lambda>w. nw_panes w \<noteq> []) (mset ?rest) = mset ?rest"
    by (simp add: filter_mset_eq_conv)
  then have m: "mset us = mset (if nw_panes old1 = [] then ?rest else old1 # ?rest)"
    using one_at(2) [OF i(1), of old1] by (simp add: us)
  have ids: "mset (window_pane_ids ?w) = add_mset (np_id (nw_panes ?w ! pi)) (mset (window_pane_ids old1))"
    using remove_pane_ids [OF i(2)] by (simp add: old1)
  have "distinct (window_pane_ids ?w)" using w by (simp add: windows_wf_def)
  then have "distinct (window_pane_ids old1)"
    using distinct_mset_cong [of "window_pane_ids ?w" "np_id (nw_panes ?w ! pi) # window_pane_ids old1"] ids
    by simp
  moreover have "set (window_pane_ids old1) \<subseteq> set (window_pane_ids ?w)"
    using mset_eq_setD [of "window_pane_ids ?w" "np_id (nw_panes ?w ! pi) # window_pane_ids old1"] ids by auto
  moreover have "window_wf old1" if "nw_panes old1 \<noteq> []"
    using that w i(2) window_wf_active_after [of ?w pi] by (simp add: windows_wf_def old1)
  ultimately have "windows_wf b (if nw_panes old1 = [] then ?rest else old1 # ?rest)"
    using w windows_wf_ids [OF w, of old1] by (auto simp: old1 windows_wf_def)
  then show "windows_wf b us" using windows_wf_mset [OF m [symmetric]] by blast
  have "mset (windows_pane_ids us) = mset (window_pane_ids old1) + mset (windows_pane_ids ?rest)"
    using m by (simp add: mset_windows_pane_ids window_pane_ids_def split: if_splits)
  moreover have "mset (windows_pane_ids ws) = mset (window_pane_ids ?w) + mset (windows_pane_ids ?rest)"
    using one_at(1) [OF i(1)] by (simp add: mset_windows_pane_ids)
  ultimately show "mset (windows_pane_ids ws)
      = add_mset (np_id (nw_panes ?w ! pi)) (mset (windows_pane_ids us))"
    using ids by simp
qed

section \<open>Extraction and moves\<close>

lemma extract_in_session_ok:
  assumes wf: "session_wf se" and res: "extract_in_session pid se = (r, se1)"
  shows "rearranged se se1"
proof (cases "\<exists>wi pi n. pane_location se pid = Some (wi, pi)
    \<and> \<not> length (nw_panes (ns_windows se ! wi)) < 2
    \<and> next_window_id se = (Inr n, se\<lparr>ns_next_window := Suc (ns_next_window se)\<rparr>)")
  case False
  with res have "se1 = se"
    by (auto simp: extract_in_session_def get_nth_def next_window_id_def checked_add_def Let_def
        split: option.splits if_splits)
  with wf show ?thesis by (simp add: rearranged_refl)
next
  case True
  then obtain wi pi n where loc: "pane_location se pid = Some (wi, pi)"
    and len: "\<not> length (nw_panes (ns_windows se ! wi)) < 2"
    and nid: "next_window_id se = (Inr n, se\<lparr>ns_next_window := Suc (ns_next_window se)\<rparr>)" by blast
  note L = pane_location_Some [OF loc]
  let ?ws = "ns_windows se" let ?w = "?ws ! wi" let ?ps = "remove_nth pi (nw_panes ?w)"
  let ?w1 = "?w\<lparr>nw_panes := ?ps, nw_active_pane_id := active_after ?w pid ?ps\<rparr>"
  let ?fresh = "\<lparr>nw_id = n, nw_index = 0, nw_name = nw_name ?w, nw_custom_name = False,
    nw_active_pane_id = pid, nw_panes = [nw_panes ?w ! pi], nw_layout = None\<rparr>"
  let ?se = "se\<lparr>ns_next_window := Suc (ns_next_window se),
    ns_windows := insert_nth (wi + 1) ?fresh (?ws[wi := ?w1]), ns_active_window_id := n\<rparr>"
  have n: "n = tab_id (ns_next_window se)" "Suc (ns_next_window se) < 2 ^ 64"
    using nid by (auto elim!: next_window_id_cases)
  have se1: "se1 = renumber_windows ?se"
    using res loc len nid L(1) by (simp add: extract_in_session_def get_nth_def active_after_def Let_def)
  have ne: "?ps \<noteq> []" using len length_remove_nth [OF L(2)] by auto
  have us: "?ws[wi := ?w1] = filter (\<lambda>w. nw_panes w \<noteq> []) (?ws[wi := ?w1])"
  proof -
    have "\<forall>u \<in> set ?ws. nw_panes u \<noteq> []"
      using session_wfD(1) [OF wf] by (auto simp: windows_wf_def list_all_iff dest: window_wf_nonempty)
    with ne have "\<forall>u \<in> set (?ws[wi := ?w1]). nw_panes u \<noteq> []"
      by (auto dest: set_update_subset_insert [THEN subsetD])
    then show ?thesis by (simp add: filter_id_conv [THEN iffD2])
  qed
  note W = windows_without_pane [OF session_wfD(1) [OF wf] L(1,2) _ us, unfolded L(3), OF refl]
  show ?thesis
    unfolding se1
  proof (rule rearranged_renumber [where us = "?fresh # ?ws[wi := ?w1]"])
    have new: "n \<notin> nw_id ` set (?ws[wi := ?w1])" using W(1) n(1) by (auto simp: windows_wf_def)
    have "pid \<notin> set (windows_pane_ids (?ws[wi := ?w1]))"
      using W(2) session_wfD(1) [OF wf]
        distinct_mset_cong [of "windows_pane_ids ?ws" "pid # windows_pane_ids (?ws[wi := ?w1])"]
      by (auto simp: windows_wf_def)
    moreover have "tab_id ` {..<ns_next_window se} \<subseteq> tab_id ` {..<Suc (ns_next_window se)}" by auto
    ultimately show "windows_wf (ns_next_window ?se) (?fresh # ?ws[wi := ?w1])"
      using W(1) new n(1) L(3) by (auto simp: windows_wf_def window_wf_def window_pane_ids_def)
    show "mset (windows_pane_ids (?fresh # ?ws[wi := ?w1])) = mset (session_pane_ids se)"
      using W(2) L(3) by (simp add: session_pane_ids_def window_pane_ids_def)
  qed (use n(2) in \<open>simp_all add: mset_insert_nth\<close>)
qed

lemma windows_with_pane:
  assumes wf: "windows_wf b us" and dest: "find (\<lambda>w. nw_id w = i) us = Some dest"
    and new: "np_id p \<notin> set (windows_pane_ids us)"
    and dest1: "dest1 = dest\<lparr>nw_panes := insert_nth k p (nw_panes dest), nw_active_pane_id := np_id p\<rparr>"
    and vs: "vs = update_first (\<lambda>w. nw_id w = i) (\<lambda>_. dest1) us"
  shows "windows_wf b vs" "map nw_id vs = map nw_id us"
    "mset (windows_pane_ids vs) = add_mset (np_id p) (mset (windows_pane_ids us))"
proof -
  obtain ys zs where us: "us = ys @ dest # zs" and vs': "vs = ys @ dest1 # zs"
    using update_first_split [OF dest] vs by blast
  have ids: "mset (window_pane_ids dest1) = add_mset (np_id p) (mset (window_pane_ids dest))"
    by (simp add: dest1 window_pane_ids_def map_insert_nth mset_insert_nth)
  then show m: "mset (windows_pane_ids vs) = add_mset (np_id p) (mset (windows_pane_ids us))"
    by (simp add: us vs')
  show id: "map nw_id vs = map nw_id us" by (simp add: us vs' dest1)
  have "distinct (windows_pane_ids vs)"
    using distinct_mset_cong [of "windows_pane_ids vs" "np_id p # windows_pane_ids us"] m new wf
    by (simp add: windows_wf_def)
  moreover have "window_wf dest1" using wf by (simp add: us windows_wf_def dest1 window_wf_def map_insert_nth)
  ultimately show "windows_wf b vs"
    using wf id by (auto simp: windows_wf_def us vs' dest1)
qed

lemma windows_wf_find:
  "windows_wf b ws \<Longrightarrow> w \<in> set ws \<Longrightarrow> find (\<lambda>x. nw_id x = nw_id w) ws = Some w"
  by (simp add: windows_wf_def find_key_unique)

text \<open>The destination of a move survives the removal of the moved pane.\<close>

lemma move_destination:
  assumes wf: "windows_wf b ws" and s: "sw < length ws" "si < length (nw_panes (ws ! sw))"
    and t: "tw < length ws" "ti < length (nw_panes (ws ! tw))"
    and ne: "np_id (nw_panes (ws ! sw) ! si) \<noteq> np_id (nw_panes (ws ! tw) ! ti)"
    and old1: "old1 = (ws ! sw)\<lparr>nw_panes := remove_nth si (nw_panes (ws ! sw)), nw_active_pane_id := act\<rparr>"
    and us: "us = filter (\<lambda>w. nw_panes w \<noteq> []) (ws[sw := old1])" and wf': "windows_wf b us"
  obtains dest where "find (\<lambda>w. nw_id w = nw_id (ws ! tw)) us = Some dest"
    "np_id (nw_panes (ws ! tw) ! ti) \<in> set (window_pane_ids dest)"
proof -
  let ?dest = "if sw = tw then old1 else ws ! tw"
  let ?t = "np_id (nw_panes (ws ! tw) ! ti)"
  have "?t \<in> set (window_pane_ids (ws ! tw))" using t(2) by (auto simp: window_pane_ids_def)
  moreover have "set (window_pane_ids (ws ! sw)) = insert (np_id (nw_panes (ws ! sw) ! si)) (set (window_pane_ids old1))"
    using mset_eq_setD [of "window_pane_ids (ws ! sw)" "np_id (nw_panes (ws ! sw) ! si) # window_pane_ids old1"]
      remove_pane_ids [OF s(2)] by (simp add: old1)
  ultimately have mem: "?t \<in> set (window_pane_ids ?dest)" using ne by auto
  then have "nw_panes ?dest \<noteq> []" by (auto simp: window_pane_ids_def)
  moreover have "?dest \<in> set (ws[sw := old1])"
    using s(1) t(1) nth_mem [of tw "ws[sw := old1]"] by (simp add: nth_list_update)
  ultimately have "?dest \<in> set us" by (simp add: us)
  from windows_wf_find [OF wf' this] have "find (\<lambda>w. nw_id w = nw_id (ws ! tw)) us = Some ?dest"
    by (simp add: old1 split: if_splits)
  then show ?thesis using mem by (rule that)
qed

lemma move_in_session_ok:
  assumes wf: "session_wf se" and res: "move_in_session source target d se = (r, se1)"
  shows "rearranged se se1"
proof (cases "\<exists>sw si tw ti. pane_location se source = Some (sw, si)
    \<and> pane_location se target = Some (tw, ti) \<and> source \<noteq> target")
  case False
  with res have "se1 = se" by (auto simp: move_in_session_def split: option.splits if_splits)
  with wf show ?thesis by (simp add: rearranged_refl)
next
  case True
  then obtain sw si tw ti where s: "pane_location se source = Some (sw, si)"
    and t: "pane_location se target = Some (tw, ti)" and ne: "source \<noteq> target" by blast
  note S = pane_location_Some [OF s] and T = pane_location_Some [OF t]
  let ?ws = "ns_windows se" let ?ps = "remove_nth si (nw_panes (?ws ! sw))"
  define old1 where "old1 = (?ws ! sw)\<lparr>nw_panes := ?ps, nw_active_pane_id := active_after (?ws ! sw) source ?ps\<rparr>"
  define us where "us = filter (\<lambda>w. nw_panes w \<noteq> []) (?ws[sw := old1])"
  define i where "i = nw_id (?ws ! tw)"
  note W = windows_without_pane [OF session_wfD(1) [OF wf] S(1,2) _ us_def, unfolded S(3), OF old1_def]
  obtain dest where dest: "find (\<lambda>w. nw_id w = i) us = Some dest" "target \<in> set (window_pane_ids dest)"
    using move_destination [OF session_wfD(1) [OF wf] S(1,2) T(1,2) _ old1_def us_def W(1)] S(3) T(3) ne
    by (metis i_def)
  then obtain k where k: "find_index (\<lambda>p. np_id p = target) (nw_panes dest) = Some k"
    by (cases "find_index (\<lambda>p. np_id p = target) (nw_panes dest)")
      (auto simp: find_index_None window_pane_ids_def)
  define p where "p = nw_panes (?ws ! sw) ! si"
  have p: "np_id p = source" using S(3) by (simp add: p_def)
  define dest1 where "dest1 = dest\<lparr>nw_panes := insert_nth (k + move_after d) p (nw_panes dest),
    nw_active_pane_id := np_id p\<rparr>"
  define vs where "vs = update_first (\<lambda>w. nw_id w = i) (\<lambda>_. dest1) us"
  have se1: "se1 = renumber_windows (se\<lparr>ns_windows := vs, ns_active_window_id := i\<rparr>)"
    using res s t ne S(1) T(1) dest k p
    unfolding move_in_session_def vs_def us_def dest1_def old1_def i_def
    by (simp add: get_nth_def active_after_def find_window_def put_window_def Let_def flip: p_def)
  have "source \<notin> set (windows_pane_ids us)"
    using W(2) session_wfD(1) [OF wf] distinct_mset_cong [of "windows_pane_ids ?ws" "source # windows_pane_ids us"]
    by (auto simp: windows_wf_def)
  then have "np_id p \<notin> set (windows_pane_ids us)" using p by simp
  note V = windows_with_pane [OF W(1) dest(1) this dest1_def vs_def]
  have "i \<in> nw_id ` set vs" using V(2) dest(1) by (metis (mono_tags) find_SomeD image_eqI image_set)
  moreover have "mset (windows_pane_ids vs) = mset (session_pane_ids se)"
    using V(3) W(2) p by (simp add: session_pane_ids_def)
  ultimately show ?thesis
    unfolding se1 by (intro rearranged_renumber [where us = vs]) (use V(1) session_wfD(2) [OF wf] in simp_all)
qed

section \<open>Closing a pane\<close>

definition closed :: "string \<Rightarrow> native_session \<Rightarrow> native_session \<Rightarrow> bool" where
  "closed gone se se1 \<longleftrightarrow>
     ns_id se1 = ns_id se \<and> (ns_windows se1 = [] \<or> session_wf se1)
     \<and> mset (session_pane_ids se) = add_mset gone (mset (session_pane_ids se1))"

lemma close_window_ok:
  assumes wf: "session_wf se" and i: "wi < length (ns_windows se)" "pi < length (nw_panes (ns_windows se ! wi))"
    and last: "remove_nth pi (nw_panes (ns_windows se ! wi)) = []"
    and se1: "se1 = renumber_windows (se\<lparr>ns_windows := remove_nth wi (ns_windows se), ns_active_window_id := act\<rparr>)"
    and act: "remove_nth wi (ns_windows se) = [] \<or> act \<in> nw_id ` set (remove_nth wi (ns_windows se))"
  shows "closed (np_id (nw_panes (ns_windows se ! wi) ! pi)) se se1"
proof -
  let ?ws = "ns_windows se" let ?rest = "remove_nth wi ?ws"
  have w: "windows_wf (ns_next_window se) (?ws ! wi # ?rest)"
    using windows_wf_mset [OF one_at(1) [OF i(1)] session_wfD(1) [OF wf]] .
  have "?rest = [] \<or> session_wf se1"
  proof (cases "?rest = []")
    case False
    then show ?thesis
      unfolding se1 using w act session_wfD(2) [OF wf]
      by (intro disjI2 session_wf_renumber) (auto simp: windows_wf_def)
  qed simp
  then have "ns_windows se1 = [] \<or> session_wf se1"
    by (auto simp: se1 renumber_windows_def)
  moreover have "mset (session_pane_ids se1) = mset (windows_pane_ids ?rest)"
    by (simp add: se1) (simp add: session_pane_ids_def)
  moreover have "mset (session_pane_ids se) = mset (window_pane_ids (?ws ! wi)) + mset (windows_pane_ids ?rest)"
    using mset_session_pane_ids [OF one_at(1) [OF i(1)]] by simp
  ultimately show ?thesis using remove_pane_ids [OF i(2)] last by (simp add: closed_def se1)
qed

lemma close_in_window_ok:
  assumes wf: "session_wf se" and i: "wi < length (ns_windows se)" "pi < length (nw_panes (ns_windows se ! wi))"
    and se1: "se1 = se\<lparr>ns_windows := (ns_windows se)[wi := (ns_windows se ! wi)
        \<lparr>nw_panes := remove_nth pi (nw_panes (ns_windows se ! wi)), nw_active_pane_id := act\<rparr>]\<rparr>"
    and act: "act \<in> np_id ` set (remove_nth pi (nw_panes (ns_windows se ! wi)))
      \<or> act = nw_active_pane_id (ns_windows se ! wi) \<and> act \<noteq> np_id (nw_panes (ns_windows se ! wi) ! pi)"
  shows "closed (np_id (nw_panes (ns_windows se ! wi) ! pi)) se se1"
proof -
  let ?ws = "ns_windows se" let ?w = "?ws ! wi" let ?g = "np_id (nw_panes ?w ! pi)"
  let ?w1 = "?w\<lparr>nw_panes := remove_nth pi (nw_panes ?w), nw_active_pane_id := act\<rparr>"
  note m = one_at [OF i(1)]
  have w: "windows_wf (ns_next_window se) (?w # remove_nth wi ?ws)"
    using windows_wf_mset [OF m(1) session_wfD(1) [OF wf]] .
  have ids: "mset (window_pane_ids ?w) = mset (?g # window_pane_ids ?w1)"
    using remove_pane_ids [OF i(2)] by simp
  have "window_wf ?w1" using window_wf_removed [OF _ i(2) act] w by (simp add: windows_wf_def)
  with w have "windows_wf (ns_next_window se) (?w1 # remove_nth wi ?ws)"
    by (rule_tac windows_wf_ids)
      (use w distinct_mset_cong [OF ids] mset_eq_setD [OF ids] in \<open>auto simp: windows_wf_def\<close>)
  then have "windows_wf (ns_next_window se) (?ws[wi := ?w1])"
    using windows_wf_mset [OF m(2) [symmetric]] by blast
  moreover have "map nw_index (?ws[wi := ?w1]) = map nw_index ?ws" "map nw_id (?ws[wi := ?w1]) = map nw_id ?ws"
    using i(1) by (auto intro: map_list_update_same)
  ultimately have "session_wf se1" using wf by (simp add: se1 session_wf_def del: map_update flip: set_map)
  moreover have "mset (session_pane_ids se) = add_mset ?g (mset (session_pane_ids se1))"
    using mset_session_pane_ids [of se1, OF trans [OF _ m(2) [of ?w1]]] mset_session_pane_ids [OF m(1)] ids se1
    by simp
  ultimately show ?thesis by (simp add: closed_def se1)
qed

lemma target_pane_id:
  assumes "target_pane_location se (Some p) = Inr (wi, pi)"
  shows "np_id (nw_panes (ns_windows se ! wi) ! pi) = p"
  using assms by (auto simp: target_pane_location_def split: option.splits dest: pane_location_Some)

lemma close_in_session_ok:
  assumes wf: "session_wf se" and res: "close_in_session se pid cw = Inr (Some (b, se1))"
  obtains gone where "closed gone se se1" "\<And>p. pid = Some p \<Longrightarrow> gone = p"
proof -
  obtain wi pi where loc: "target_pane_location se pid = Inr (wi, pi)"
    using res by (auto simp: close_in_session_def split: sum.splits)
  note L = target_pane_location_Inr [OF loc]
  let ?ws = "ns_windows se" let ?w = "?ws ! wi" let ?ps = "remove_nth pi (nw_panes ?w)"
  have "closed (np_id (nw_panes ?w ! pi)) se se1"
  proof (cases "?ps = []")
    case True
    let ?rest = "remove_nth wi ?ws"
    define act where "act = (if nw_id ?w = ns_active_window_id se
      then (case get_nth ?rest (min wi (length ?rest - 1)) of None \<Rightarrow> '''' | Some w' \<Rightarrow> nw_id w')
      else ns_active_window_id se)"
    have "?rest = [] \<or> act \<in> nw_id ` set ?rest"
    proof (cases "nw_id ?w = ns_active_window_id se")
      case True
      then show ?thesis by (auto simp: act_def get_nth_def min_less_iff_disj)
    next
      case False
      have "nw_id ` set ?ws = insert (nw_id ?w) (nw_id ` set ?rest)"
        using mset_eq_setD [OF one_at(1) [OF L(1)]] by simp
      with False session_wfD(3) [OF wf] show ?thesis by (auto simp: act_def)
    qed
    moreover have "se1 = renumber_windows (se\<lparr>ns_windows := ?rest, ns_active_window_id := act\<rparr>)"
      using res loc L True
      by (auto simp: close_in_session_def get_nth_def renumber_windows_def act_def nth_enumerate_eq Let_def
          split: if_splits)
    ultimately show ?thesis using close_window_ok [OF wf L True] by blast
  next
    case False
    define act where "act = (if np_id (nw_panes ?w ! pi) = nw_active_pane_id ?w
      then np_id (?ps ! min pi (length ?ps - 1)) else nw_active_pane_id ?w)"
    have "min pi (length ?ps - 1) < length ?ps" using False by (simp add: min_less_iff_disj)
    with False res loc L
    have "se1 = se\<lparr>ns_windows := ?ws[wi := ?w\<lparr>nw_panes := ?ps, nw_active_pane_id := act\<rparr>]\<rparr>"
      by (auto simp: close_in_session_def get_nth_def act_def Let_def split: if_splits)
    moreover have "act \<in> np_id ` set ?ps \<or> act = nw_active_pane_id ?w \<and> act \<noteq> np_id (nw_panes ?w ! pi)"
      using \<open>min pi (length ?ps - 1) < length ?ps\<close> by (auto simp: act_def)
    ultimately show ?thesis using close_in_window_ok [OF wf L] by blast
  qed
  moreover have "np_id (nw_panes ?w ! pi) = p" if "pid = Some p" for p
    using target_pane_id loc that by simp
  ultimately show ?thesis by (rule that)
qed

section \<open>Every operation is a step\<close>

lemma window_mut_id: "native_wf s \<Longrightarrow> window_mut s sid wid = Some w \<Longrightarrow> nw_id w = wid"
  using find_window_wf native_wf_session by (fastforce simp: window_mut_def split: option.splits)

lemma active_window_mut_id:
  assumes "native_wf s" "active_window_mut s sid = Some w"
  shows "window_mut s sid (nw_id w) = Some w"
  using assms window_mut_id by (fastforce simp: active_window_mut_def split: option.splits)

lemma session_step_fields:
  "session_step se (se\<lparr>ns_tag := tag\<rparr>)"
  "session_step se (se\<lparr>ns_name := name\<rparr>)"
  "w \<in> set (ns_windows se) \<Longrightarrow> session_step se (se\<lparr>ns_active_window_id := nw_id w\<rparr>)"
  by (auto simp: session_step_def session_wf_def session_pane_ids_def)

lemma session_step_refl: "session_step se se"
  by (simp add: session_step_def)

lemma stamp_session_step [inv_intros]: "native_wf s \<Longrightarrow> native_step s (stamp_session s sid tag)"
  by (auto simp: stamp_session_def split: option.splits intro: native_step_put session_step_fields)

lemma rename_session_step [inv_intros]: "native_wf s \<Longrightarrow> native_step s (rename_session s sid name)"
  by (auto simp: rename_session_def split: option.splits intro: native_step_put session_step_fields)

lemma activate_window_step [inv_intros]: "native_wf s \<Longrightarrow> native_step s (activate_window s sid wid)"
  by (auto simp: activate_window_def list_ex_iff split: option.splits
      intro: native_step_put session_step_fields)

lemma activate_window_index_step [inv_intros]:
  "native_wf s \<Longrightarrow> native_step s (activate_window_index s sid i)"
  by (auto simp: activate_window_index_def split: option.splits dest!: find_SomeD
      intro: native_step_put session_step_fields)

lemma activate_relative_window_step [inv_intros]:
  "native_wf s \<Longrightarrow> native_step s (activate_relative_window s sid d)"
  by (auto simp: activate_relative_window_def get_nth_Some bind_eq_Some_conv split: option.splits
      intro!: native_step_put session_step_fields nth_mem)

lemma rename_window_step [inv_intros]: "native_wf s \<Longrightarrow> native_step s (rename_window env s sid wid name)"
  by (auto simp: rename_window_def window_wf_def split: option.splits intro!: native_step_write_window(1))

lemma snapshot_layout_valid: "valid_layout l \<Longrightarrow> from_mux_layout l = Some q \<Longrightarrow> valid_layout (snapshot_layout q)"
  using from_mux_layout_spec canonical_valid by (auto simp: snapshot_layout_def layout_inv_def)

lemma set_layout_step [inv_intros]:
  assumes "native_wf s" "set_layout s sid wid l = (r, s1)" "valid_layout l"
  shows "native_step s s1"
  using assms
  by (auto simp: set_layout_def window_wf_def Let_def split: option.splits if_splits
      intro!: native_step_write_window(1) dest: snapshot_layout_valid)

lemma move_window_step [inv_intros]:
  assumes "native_wf s"
  shows "native_step s (move_window s sid wid delta)"
proof (cases "active_session_mut s sid")
  case None
  then show ?thesis using assms by (simp add: move_window_def)
next
  case (Some se)
  let ?t = "case wid of Some i \<Rightarrow> i | None \<Rightarrow> ns_active_window_id se"
  show ?thesis
  proof (cases "find_index (\<lambda>w. nw_id w = ?t) (ns_windows se)")
    case None
    then show ?thesis using assms Some by (simp add: move_window_def)
  next
    case (Some i)
    let ?ws = "insert_nth (clamp_move_index i delta (length (ns_windows se))) (ns_windows se ! i)
      (remove_nth i (ns_windows se))"
    have i: "i < length (ns_windows se)" "nw_id (ns_windows se ! i) = ?t"
      using find_index_id_nth [OF Some] by simp_all
    have m: "mset ?ws = mset (ns_windows se)" using one_at(1) [OF i(1)] by (simp add: mset_insert_nth)
    have wf: "session_wf se" using native_wf_session assms \<open>active_session_mut s sid = Some se\<close> by blast
    have "?t \<in> nw_id ` set (ns_windows se)" using i nth_mem [OF i(1)] by (metis image_eqI)
    then have "rearranged se (renumber_windows (se\<lparr>ns_windows := ?ws, ns_active_window_id := ?t\<rparr>))"
      using m session_wfD(1,2) [OF wf]
      by (intro rearranged_renumber [where us = "ns_windows se"]) (simp_all add: session_pane_ids_def)
    then have "session_step se (renumber_windows (se\<lparr>ns_windows := ?ws, ns_active_window_id := ?t\<rparr>))"
      using wf rearranged_step by blast
    from native_step_put(1) [OF assms \<open>active_session_mut s sid = Some se\<close> this]
    show ?thesis using Some \<open>active_session_mut s sid = Some se\<close> by (simp add: move_window_def Let_def)
  qed
qed

lemma move_window_preserving_selection_step [inv_intros]:
  "native_wf s \<Longrightarrow> native_step s (move_window_preserving_selection s sid wid d sel)"
  unfolding move_window_preserving_selection_def
  by (meson activate_window_step move_window_step native_stepD native_step_trans)

lemma select_relative_pane_step [inv_intros]:
  assumes "native_wf s"
  shows "native_step s (select_relative_pane s sid d)"
proof -
  have "native_step s ((write_window sid (nw_id w) (w\<lparr>nw_active_pane_id := np_id p\<rparr>) s)\<lparr>nm_active_session_id := sid\<rparr>)"
    if "active_window_mut s sid = Some w" "p \<in> set (nw_panes w)" for w p
    using native_step_write_window(2) [OF assms active_window_mut_id [OF assms that(1)]] that(2)
    by (simp add: window_wf_def window_pane_ids_def)
  then show ?thesis
    using assms
    by (auto simp: select_relative_pane_def get_nth_Some bind_eq_Some_conv split: option.splits)
qed

lemma focus_window_step:
  "native_wf s \<Longrightarrow> native_step s (case wid of None \<Rightarrow> s | Some i \<Rightarrow> activate_window s sid i)"
  by (auto split: option.splits intro: activate_window_step)

lemma select_pane_step [inv_intros]: "native_wf s \<Longrightarrow> native_step s (select_pane s sid wid d)"
  unfolding select_pane_def
  by (meson focus_window_step select_relative_pane_step native_stepD native_step_trans)

lemma in_session_step:
  assumes "native_wf s" "in_session sid f s = (r, s1)"
    and "\<And>se r se1. session_wf se \<Longrightarrow> f se = (r, se1) \<Longrightarrow> rearranged se se1"
  shows "native_step s s1"
proof (cases "active_session_mut s sid")
  case None
  then show ?thesis using assms(1,2) by (simp add: in_session_def)
next
  case (Some se)
  obtain q se1 where f: "f se = (q, se1)" by (cases "f se")
  have "session_step se se1"
    using assms(3) [OF _ f] native_wf_session [OF assms(1) Some] rearranged_step by blast
  from native_step_put [OF assms(1) Some this] show ?thesis
    using assms(2) Some f by (auto simp: in_session_def split: sum.splits)
qed

lemmas rearrange_steps =
  in_session_step [OF _ _ merge_in_session_ok]
  in_session_step [OF _ _ swap_in_session_ok]
  in_session_step [OF _ _ move_in_session_ok]
  in_session_step [OF _ _ extract_in_session_ok]

lemma distinct_concat_filter:
  "distinct (concat (map f xs)) \<Longrightarrow> distinct (concat (map f (filter P xs)))"
  by (induction xs) auto

lemma kill_session_step [inv_intros]:
  assumes "native_wf s"
  shows "native_step s (kill_session s sid)"
proof -
  let ?rest = "filter (\<lambda>x. ns_id x \<noteq> sid) (nm_sessions s)"
  have "distinct (concat (map session_pane_ids ?rest))"
    using assms by (simp add: native_wf_def native_pane_ids_def distinct_concat_filter)
  moreover have "set (concat (map session_pane_ids ?rest)) \<subseteq> set (native_pane_ids s)"
    by (auto simp: native_pane_ids_def)
  moreover have "nm_active_session_id (kill_session s sid) \<in> ns_id ` set ?rest" if "?rest \<noteq> []"
  proof (cases "nm_active_session_id s = sid")
    case True
    then have "nm_active_session_id (kill_session s sid) = ns_id (hd ?rest)"
      using that by (simp add: kill_session_def first_opt_def Let_def split: list.splits)
    then show ?thesis using hd_in_set [OF that] by simp
  next
    case False
    moreover have "nm_sessions s \<noteq> []" using that by auto
    ultimately show ?thesis using assms by (auto simp: kill_session_def native_wf_def Let_def)
  qed
  moreover have "nm_active_session_id (kill_session s sid) = []" if "?rest = []"
  proof (cases "nm_active_session_id s = sid")
    case True
    then show ?thesis using that by (simp add: kill_session_def first_opt_def Let_def)
  next
    case False
    moreover have "nm_sessions s = []" using assms that False
      by (auto simp: native_wf_def filter_empty_conv split: if_splits)
    ultimately show ?thesis using assms by (simp add: kill_session_def native_wf_def Let_def)
  qed
  ultimately have "native_step s ((kill_session s sid)\<lparr>nm_active_session_id := nm_active_session_id (kill_session s sid)\<rparr>)"
    using assms
    by (auto simp: kill_session_def native_step_def native_wf_def native_pane_ids_def
        list_all_iff distinct_map_filter Let_def)
  then show ?thesis by simp
qed

lemma kill_put_session:
  assumes "ns_id se1 = sid"
  shows "kill_session (put_session sid se1 s) sid = kill_session s sid"
proof -
  have "filter (\<lambda>x. ns_id x \<noteq> sid) (update_first (\<lambda>x. ns_id x = sid) (\<lambda>_. se1) xs)
      = filter (\<lambda>x. ns_id x \<noteq> sid) xs" for xs
    using assms by (induction xs) auto
  then show ?thesis by (simp add: kill_session_def put_session_def Let_def)
qed

lemma close_pane_step [inv_intros]:
  assumes "native_wf s" "close_pane s sid pid cw = (r, s1)"
  shows "native_step s s1"
proof (cases "\<exists>se b se1. active_session_mut s sid = Some se \<and> close_in_session se pid cw = Inr (Some (b, se1))")
  case False
  then have "s1 = s"
    using assms(2) by (auto simp: close_pane_def split: option.splits sum.splits)
  then show ?thesis using assms(1) by simp
next
  case True
  then obtain se b se1 where se: "active_session_mut s sid = Some se"
    and c: "close_in_session se pid cw = Inr (Some (b, se1))" by blast
  have wf: "session_wf se" "ns_id se = sid" using native_wf_session [OF assms(1) se] by simp_all
  obtain gone where g: "closed gone se se1" using close_in_session_ok [OF wf(1) c] by metis
  show ?thesis
  proof (cases "s1 = kill_session (put_session sid se1 s) sid")
    case True
    then show ?thesis using g wf(2) assms(1) kill_session_step by (simp add: kill_put_session closed_def)
  next
    case False
    let ?s1 = "put_session sid se1 s"
    have s1: "s1 = (if b then ?s1\<lparr>nm_active_session_id := sid\<rparr> else ?s1)"
      and ne: "\<not> list_ex (\<lambda>x. ns_id x = sid \<and> ns_windows x = []) (nm_sessions ?s1)"
      using assms(2) se c False by (auto simp: close_pane_def Let_def split: if_splits)
    have "se1 \<in> set (nm_sessions ?s1)"
      using update_first_split [OF se [unfolded active_session_mut_def], of "\<lambda>_. se1"]
      by (auto simp: put_session_def)
    with ne g wf(2) have "session_wf se1" by (auto simp: closed_def list_ex_iff)
    with g have "session_step se se1"
      using mset_eq_setD [of "session_pane_ids se" "gone # session_pane_ids se1"]
      by (auto simp: session_step_def closed_def)
    from native_step_put [OF assms(1) se this] show ?thesis by (simp add: s1)
  qed
qed

text \<open>The first match of any predicate is the unique element with its key.\<close>

lemma update_first_by_key:
  "distinct (map key xs) \<Longrightarrow> find p xs = Some x \<Longrightarrow>
     update_first p f xs = update_first (\<lambda>z. key z = key x) (\<lambda>_. f x) xs"
proof (induction xs)
  case (Cons a xs)
  then show ?case by (auto split: if_splits dest: find_SomeD)
qed simp

lemma activate_pane_step [inv_intros]:
  assumes wf: "native_wf s" and res: "activate_pane s sid wid pid = (r, s1)"
  shows "native_step s s1"
proof (cases "\<exists>se w. find (\<lambda>x. ns_id x = sid \<or> ns_name x = sid) (nm_sessions s) = Some se
    \<and> find (\<lambda>w. nw_id w = wid \<and> list_ex (\<lambda>p. np_id p = pid) (nw_panes w)) (ns_windows se) = Some w")
  case False
  then have "s1 = s" using res by (auto simp: activate_pane_def Let_def split: option.splits)
  then show ?thesis using wf by simp
next
  case True
  then obtain se w where se: "find (\<lambda>x. ns_id x = sid \<or> ns_name x = sid) (nm_sessions s) = Some se"
    and w: "find (\<lambda>w. nw_id w = wid \<and> list_ex (\<lambda>p. np_id p = pid) (nw_panes w)) (ns_windows se) = Some w"
    by blast
  have mem: "se \<in> set (nm_sessions s)" "w \<in> set (ns_windows se)"
    "nw_id w = wid" "pid \<in> set (window_pane_ids w)"
    using find_SomeD [OF se] find_SomeD [OF w] by (auto simp: list_ex_iff window_pane_ids_def)
  have d: "distinct (map ns_id (nm_sessions s))" "session_wf se"
    using wf mem by (auto simp: native_wf_def list_all_iff)
  have get: "active_session_mut s (ns_id se) = Some se"
    unfolding active_session_mut_def by (rule find_key_unique [OF d(1) mem(1) refl])
  have dw: "distinct (map nw_id (ns_windows se))" using d(2) by (simp add: session_wf_def windows_wf_def)
  have getw: "find_window se wid = Some w"
    unfolding find_window_def by (rule find_key_unique [OF dw mem(2,3)])
  let ?se1 = "put_window wid (w\<lparr>nw_active_pane_id := pid\<rparr>) se"
  have "s1 = activate_window (put_session (ns_id se) ?se1 s) (ns_id se) wid"
    using res se w mem(3) update_first_by_key [OF d(1) se] update_first_by_key [OF dw w]
    by (auto simp: activate_pane_def put_session_def put_window_def Let_def)
  moreover have "session_step se ?se1"
    using session_step_put_window [OF getw _ _ _ _ d(2)] mem(4) by (simp add: window_wf_def)
  from native_step_put(1) [OF wf get this]
  have "native_step s (put_session (ns_id se) ?se1 s)" .
  ultimately show ?thesis using native_step_trans activate_window_step native_stepD by blast
qed

section \<open>Allocation\<close>

lemma native_step_next:
  "native_wf s \<Longrightarrow> nm_next_pane s \<le> n \<Longrightarrow> n < 2 ^ 64 \<Longrightarrow> native_step s (s\<lparr>nm_next_pane := n\<rparr>)"
  by (auto simp: native_step_def native_wf_def native_pane_ids_def subset_iff image_iff)

lemma native_step_push:
  assumes wf: "native_wf s" and se: "session_wf se" "ns_id se \<notin> set (map ns_id (nm_sessions s))"
    and ids: "set (session_pane_ids se) \<subseteq> pane_id (nm_generation s) ` {nm_next_pane s..<n}"
    and n: "nm_next_pane s \<le> n" "n < 2 ^ 64"
  shows "native_step s (s\<lparr>nm_next_pane := n, nm_sessions := nm_sessions s @ [se],
    nm_active_session_id := ns_id se\<rparr>)"
proof -
  have old: "set (native_pane_ids s) \<subseteq> pane_id (nm_generation s) ` {..<nm_next_pane s}"
    using wf by (simp add: native_wf_def)
  with ids have "set (native_pane_ids s) \<inter> set (session_pane_ids se) = {}" by fastforce
  moreover have "distinct (session_pane_ids se)"
    using se(1) by (simp add: session_wf_def windows_wf_def session_pane_ids_def)
  moreover have "set (native_pane_ids s) \<union> set (session_pane_ids se) \<subseteq> pane_id (nm_generation s) ` {..<n}"
    using old ids n(1) by fastforce
  ultimately show ?thesis
    using wf se ids n
    by (auto simp: native_step_def native_wf_def native_pane_ids_def)
qed

lemma tab_id_one: "tab_id (Suc 0) = ''tab-1''"
  by (simp add: tab_id_def show_nat_def digits_base.simps)

lemma ensure_session_step [inv_intros]:
  assumes wf: "native_wf s" and res: "ensure_session env s sid cwd tag = (r, s1)"
  shows "native_step s s1"
proof (cases "active_session_mut s sid")
  case (Some se)
  have "session_step se (if tag_is_empty tag then se else se\<lparr>ns_tag := tag\<rparr>)"
    by (simp add: session_step_refl session_step_fields)
  from native_step_put(2) [OF wf Some this] show ?thesis using res Some by (simp add: ensure_session_def)
next
  case None
  obtain q s' where nid: "next_pane_id s = (q, s')" by (cases "next_pane_id s")
  from nid show ?thesis
  proof (cases rule: next_pane_id_cases)
    case (exhausted e)
    then show ?thesis using res None nid wf by (simp add: ensure_session_def)
  next
    case fresh
    let ?p = "pane_id (nm_generation s) (nm_next_pane s)"
    let ?w = "\<lparr>nw_id = tab_id (Suc 0), nw_index = Suc 0, nw_name = default_window_name env,
      nw_custom_name = False, nw_active_pane_id = ?p, nw_panes = [\<lparr>np_id = ?p, np_cwd = cwd\<rparr>],
      nw_layout = None\<rparr>"
    let ?se = "\<lparr>ns_next_window = 2, ns_id = sid, ns_name = sid, ns_active_window_id = nw_id ?w,
      ns_windows = [?w], ns_tag = tag\<rparr>"
    have "session_wf ?se"
      by (simp add: session_wf_def windows_wf_def window_wf_def window_pane_ids_def window_numbers_def
          u32_or_max_def)
    moreover have "ns_id ?se \<notin> set (map ns_id (nm_sessions s))"
      using None by (auto simp: active_session_mut_def find_None_iff')
    moreover have "set (session_pane_ids ?se) \<subseteq> pane_id (nm_generation s) ` {nm_next_pane s..<Suc (nm_next_pane s)}"
      by (simp add: session_pane_ids_def window_pane_ids_def)
    ultimately have "native_step s (s\<lparr>nm_next_pane := Suc (nm_next_pane s), nm_sessions := nm_sessions s @ [?se],
        nm_active_session_id := ns_id ?se\<rparr>)"
      using native_step_push [OF wf] fresh(3) by (metis le_SucI order_refl)
    then show ?thesis using res None nid fresh by (simp add: ensure_session_def Let_def tab_id_one)
  qed
qed

lemma native_wf_fresh:
  assumes "native_wf s"
  shows "pane_id (nm_generation s) (nm_next_pane s) \<notin> set (native_pane_ids s)"
  using assms by (auto simp: native_wf_def)

lemma session_ids_subset:
  "active_session_mut s sid = Some se \<Longrightarrow> set (session_pane_ids se) \<subseteq> set (native_pane_ids s)"
  unfolding active_session_mut_def by (drule find_SomeD) (auto simp: native_pane_ids_def)

lemma active_session_mut_next [simp]: "active_session_mut (s\<lparr>nm_next_pane := n\<rparr>) sid = active_session_mut s sid"
  by (simp add: active_session_mut_def)

lemma window_mut_next [simp]: "window_mut (s\<lparr>nm_next_pane := n\<rparr>) sid wid = window_mut s sid wid"
  by (simp add: window_mut_def)

lemma new_window_session_wf:
  assumes wf: "session_wf se" and n: "Suc (ns_next_window se) < 2 ^ 64" "Suc (length (ns_windows se)) < 2 ^ 32"
    and p: "p \<notin> set (session_pane_ids se)"
  shows "session_wf (se\<lparr>ns_next_window := Suc (ns_next_window se), ns_active_window_id := tab_id (ns_next_window se),
    ns_windows := ns_windows se @ [\<lparr>nw_id = tab_id (ns_next_window se), nw_index = Suc (length (ns_windows se)),
      nw_name = nm, nw_custom_name = c, nw_active_pane_id = p, nw_panes = [\<lparr>np_id = p, np_cwd = d\<rparr>],
      nw_layout = None\<rparr>]\<rparr>)"
proof -
  have "tab_id ` {..<ns_next_window se} \<subseteq> tab_id ` {..<Suc (ns_next_window se)}" by auto
  moreover have "tab_id (ns_next_window se) \<notin> tab_id ` {..<ns_next_window se}" by auto
  ultimately show ?thesis
    using wf n p
    by (auto simp: session_wf_def windows_wf_def window_wf_def window_pane_ids_def window_numbers_def
        u32_or_max_def session_pane_ids_def)
qed

lemma new_window_step [inv_intros]:
  assumes wf: "native_wf s" and res: "new_window env s sid cwd = (r, s1)"
  shows "native_step s s1"
proof -
  obtain q s' where nid: "next_pane_id s = (q, s')" by (cases "next_pane_id s")
  from nid show ?thesis
  proof (cases rule: next_pane_id_cases)
    case (exhausted e)
    then show ?thesis using res nid wf by (simp add: new_window_def)
  next
    case fresh
    let ?n = "Suc (nm_next_pane s)" let ?p = "pane_id (nm_generation s) (nm_next_pane s)"
    have bump: "native_step s (s\<lparr>nm_next_pane := ?n\<rparr>)" using native_step_next wf fresh(3) by simp
    show ?thesis
    proof (cases "s1 = s\<lparr>nm_next_pane := ?n\<rparr>")
      case True
      then show ?thesis using bump by simp
    next
      case False
      then obtain se where se: "active_session_mut s sid = Some se"
        and len: "\<not> 2 ^ 32 \<le> Suc (length (ns_windows se))"
        using res nid fresh by (auto simp: new_window_def Let_def split: option.splits if_splits)
      note W = native_wf_session [OF wf se]
      obtain q' se' where wid: "next_window_id se = (q', se')" by (cases "next_window_id se")
      from wid show ?thesis
      proof (cases rule: next_window_id_cases)
        case (exhausted e)
        have "native_step (s\<lparr>nm_next_pane := ?n\<rparr>) (put_session sid se (s\<lparr>nm_next_pane := ?n\<rparr>))"
          using native_step_put(1) [OF native_stepD [OF bump] _ session_step_refl] se by simp
        then show ?thesis
          using res nid fresh se len wid exhausted native_step_trans [OF bump]
          by (auto simp: new_window_def Let_def)
      next
        case fresh': fresh
        have new: "?p \<notin> set (session_pane_ids se)"
          using native_wf_fresh [OF wf] session_ids_subset [OF se] by blast
        obtain d where s1: "s1 = (put_session sid (se\<lparr>ns_next_window := Suc (ns_next_window se),
            ns_active_window_id := tab_id (ns_next_window se),
            ns_windows := ns_windows se @ [\<lparr>nw_id = tab_id (ns_next_window se),
              nw_index = Suc (length (ns_windows se)), nw_name = default_window_name env,
              nw_custom_name = False, nw_active_pane_id = ?p, nw_panes = [\<lparr>np_id = ?p, np_cwd = d\<rparr>],
              nw_layout = None\<rparr>]\<rparr>) (s\<lparr>nm_next_pane := ?n\<rparr>))\<lparr>nm_active_session_id := sid\<rparr>"
          using res nid fresh se len wid fresh' by (auto simp: new_window_def Let_def)
        show ?thesis
          unfolding s1
        proof (rule native_step_replace [OF wf se new_window_session_wf, where new_ids = "{?p}"])
          show "Suc (length (ns_windows se)) < 2 ^ 32" using len by simp
          show "Suc (ns_next_window se) < 2 ^ 64" by (rule fresh'(3))
          show "?n < 2 ^ 64" by (rule fresh(3))
        qed (use W new in \<open>auto simp: session_pane_ids_def window_pane_ids_def\<close>)
      qed
    qed
  qed
qed

lemma split_pane_cases:
  assumes "native_wf s" "split_pane s sid source = (r, s1)"
  obtains (refused) e where "r = Inl e" "s1 = s"
  | (split) se w d where "r = Inr ()" "active_session_mut s sid = Some se" "find_window se (nw_id w) = Some w"
      "Suc (nm_next_pane s) < 2 ^ 64"
      "s1 = activate_window (put_session sid (put_window (nw_id w)
         (w\<lparr>nw_active_pane_id := pane_id (nm_generation s) (nm_next_pane s),
            nw_panes := nw_panes w @ [\<lparr>np_id = pane_id (nm_generation s) (nm_next_pane s), np_cwd = d\<rparr>]\<rparr>) se)
         (s\<lparr>nm_next_pane := Suc (nm_next_pane s)\<rparr>)) sid (nw_id w)"
proof (cases "active_session_mut s sid")
  case None
  then show ?thesis using assms(2) refused by (auto simp: split_pane_def)
next
  case (Some se)
  note wf = native_wf_session [OF assms(1) Some]
  show ?thesis
  proof (cases "target_pane_location se source")
    case (Inl e)
    then show ?thesis using assms(2) Some refused by (auto simp: split_pane_def)
  next
    case (Inr loc)
    obtain wi pi where loc: "loc = (wi, pi)" by (cases loc)
    note L = target_pane_location_Inr [OF Inr [unfolded loc]]
    let ?w = "ns_windows se ! wi"
    have win: "find_window se (nw_id ?w) = Some ?w"
      unfolding find_window_def by (rule windows_wf_find [OF session_wfD(1) [OF conjunct1 [OF wf]] nth_mem [OF L(1)]])
    obtain q s' where nid: "next_pane_id s = (q, s')" by (cases "next_pane_id s")
    from nid show ?thesis
    proof (cases rule: next_pane_id_cases)
      case (exhausted e)
      then show ?thesis using assms(2) Some Inr loc L nid refused by (auto simp: split_pane_def get_nth_def)
    next
      case fresh
      then show ?thesis
        using assms(2) Some Inr loc L nid win
        by (intro split [of se ?w "np_cwd (nw_panes ?w ! pi)"])
          (auto simp: split_pane_def get_nth_def window_mut_def write_window_def)
    qed
  qed
qed

lemma split_pane_step [inv_intros]:
  assumes wf: "native_wf s" and res: "split_pane s sid source = (r, s1)"
  shows "native_step s s1"
  using wf res
proof (cases rule: split_pane_cases)
  case refused
  then show ?thesis using wf by simp
next
  case (split se w d)
  let ?p = "pane_id (nm_generation s) (nm_next_pane s)"
  let ?w1 = "w\<lparr>nw_active_pane_id := ?p, nw_panes := nw_panes w @ [\<lparr>np_id = ?p, np_cwd = d\<rparr>]\<rparr>"
  note W = native_wf_session [OF wf split(2)]
  have ids: "window_pane_ids ?w1 = window_pane_ids w @ [?p]" by (simp add: window_pane_ids_def)
  have fr: "?p \<notin> set (session_pane_ids se)"
    using native_wf_fresh [OF wf] session_ids_subset [OF split(2)] by blast
  have "session_wf (put_window (nw_id w) ?w1 se) \<and> ns_id (put_window (nw_id w) ?w1 se) = ns_id se
      \<and> set (session_pane_ids (put_window (nw_id w) ?w1 se)) \<subseteq> set (session_pane_ids se) \<union> {?p}"
    by (rule session_wf_put_window [OF conjunct1 [OF W] split(3)])
      (use find_window_wf [OF conjunct1 [OF W] split(3)] fr ids in \<open>auto simp: window_wf_def\<close>)
  then have "native_step s ((put_session sid (put_window (nw_id w) ?w1 se)
      (s\<lparr>nm_next_pane := Suc (nm_next_pane s)\<rparr>))\<lparr>nm_active_session_id := nm_active_session_id s\<rparr>)"
    using W split(4) by (intro native_step_replace [OF wf split(2), where new_ids = "{?p}"]) auto
  then have "native_step s (put_session sid (put_window (nw_id w) ?w1 se) (s\<lparr>nm_next_pane := Suc (nm_next_pane s)\<rparr>))"
    by (simp add: put_session_def)
  then show ?thesis using native_step_trans activate_window_step native_stepD split(5) by blast
qed

lemma set_created_cwd_step [inv_intros]:
  assumes wf: "native_wf s" and res: "set_created_cwd s sid cwd = (r, s1)"
  shows "native_step s s1"
proof (cases "\<exists>c w. cwd = Some c \<and> active_window_mut s sid = Some w \<and> nw_panes w \<noteq> []")
  case False
  then have "s1 = s" using res by (auto simp: set_created_cwd_def split: option.splits if_splits)
  then show ?thesis using wf by simp
next
  case True
  then obtain c w where w: "cwd = Some c" "active_window_mut s sid = Some w" "nw_panes w \<noteq> []" by blast
  have "window_pane_ids w = map np_id (butlast (nw_panes w) @ [last (nw_panes w)])"
    using w(3) by (subst append_butlast_last_id) (simp_all add: window_pane_ids_def)
  then have "map np_id (butlast (nw_panes w) @ [(last (nw_panes w))\<lparr>np_cwd := c\<rparr>]) = window_pane_ids w"
    by simp
  moreover have "s1 = write_window sid (nw_id w)
      (w\<lparr>nw_panes := butlast (nw_panes w) @ [(last (nw_panes w))\<lparr>np_cwd := c\<rparr>]\<rparr>) s"
    using res w by (simp add: set_created_cwd_def)
  ultimately show ?thesis
    using active_window_mut_id [OF wf w(2)]
    by (auto simp: window_wf_def intro!: native_step_write_window(1) [OF wf])
qed

lemma list_all_update_first:
  "list_all P xs \<Longrightarrow> (\<And>x. P x \<Longrightarrow> P (f x)) \<Longrightarrow> list_all P (update_first p f xs)"
  by (induction xs) auto

lemma native_step_sessions:
  assumes wf: "native_wf s" and ids: "map ns_id us = map ns_id (nm_sessions s)"
    and panes: "map session_pane_ids us = map session_pane_ids (nm_sessions s)"
    and all: "list_all session_wf us"
  shows "native_step s (s\<lparr>nm_sessions := us\<rparr>)"
proof -
  have "us = [] \<longleftrightarrow> nm_sessions s = []" using ids by (metis map_is_Nil_conv)
  moreover have "native_pane_ids (s\<lparr>nm_sessions := us\<rparr>) = native_pane_ids s"
    using panes by (simp add: native_pane_ids_def)
  moreover have "ns_id ` set us = ns_id ` set (nm_sessions s)" using ids by (metis set_map)
  ultimately show ?thesis using wf ids all by (auto simp: native_step_def native_wf_def)
qed

lemma set_pane_cwd_step [inv_intros]:
  assumes wf: "native_wf s" and res: "set_pane_cwd s pid cwd = (r, s1)"
  shows "native_step s s1"
proof -
  let ?fp = "\<lambda>p. p\<lparr>np_cwd := cwd\<rparr>"
  let ?fw = "\<lambda>w. w\<lparr>nw_panes := update_first (\<lambda>p. np_id p = pid) ?fp (nw_panes w)\<rparr>"
  let ?pw = "\<lambda>w. list_ex (\<lambda>p. np_id p = pid) (nw_panes w)"
  let ?fs = "\<lambda>se. se\<lparr>ns_windows := update_first ?pw ?fw (ns_windows se)\<rparr>"
  have pw: "window_pane_ids (?fw w) = window_pane_ids w" for w
    by (simp add: window_pane_ids_def update_first_map)
  then have ps: "session_pane_ids (?fs se) = session_pane_ids se" for se
    by (simp add: session_pane_ids_def windows_pane_ids_def update_first_map)
  have "window_wf (?fw w) = window_wf w" for w
    using pw [of w] by (simp add: window_wf_def del: window_pane_ids_simps)
  then have "list_all window_wf ws \<Longrightarrow> list_all window_wf (update_first ?pw ?fw ws)" for ws
    by (rule_tac list_all_update_first) simp_all
  then have "session_wf (?fs se)" if "session_wf se" for se
    using that ps [of se]
    by (simp add: session_wf_def windows_wf_def update_first_map session_pane_ids_def flip: set_map)
  then have all: "list_all session_wf (update_first p ?fs (nm_sessions s))" for p
    using wf list_all_update_first [of session_wf "nm_sessions s" ?fs p] by (simp add: native_wf_def)
  have ids: "map ns_id (update_first p ?fs (nm_sessions s)) = map ns_id (nm_sessions s)"
    "map session_pane_ids (update_first p ?fs (nm_sessions s)) = map session_pane_ids (nm_sessions s)" for p
    by (simp_all add: update_first_map ps)
  have "native_step s (s\<lparr>nm_sessions := update_first p ?fs (nm_sessions s)\<rparr>)" for p
    by (rule native_step_sessions [OF wf ids all])
  then show ?thesis using wf res by (auto simp: set_pane_cwd_def Let_def split: if_splits)
qed

section \<open>Layouts of the windows\<close>

text \<open>A window's layout shows exactly its panes.\<close>

definition window_layout_ok :: "native_window \<Rightarrow> bool" where
  "window_layout_ok w \<longleftrightarrow>
     (case nw_layout w of
        None \<Rightarrow> True
      | Some l \<Rightarrow> valid_layout l \<and> mset (leaves l) = mset (window_pane_ids w))"

definition layouts_ok :: "native_mux_state \<Rightarrow> bool" where
  "layouts_ok s \<longleftrightarrow> (\<forall>se \<in> set (nm_sessions s). \<forall>w \<in> set (ns_windows se). window_layout_ok w)"

lemma set_put_session:
  "x \<in> set (nm_sessions (put_session sid se s)) \<Longrightarrow> x = se \<or> x \<in> set (nm_sessions s)"
  using set_update_first_subset by (fastforce simp: put_session_def)

lemma activate_window_layouts:
  assumes "layouts_ok s"
  shows "layouts_ok (activate_window s sid wid)"
proof (cases "active_session_mut s sid")
  case (Some se)
  then have "se \<in> set (nm_sessions s)" unfolding active_session_mut_def by (auto dest: find_SomeD)
  with Some assms show ?thesis
    by (fastforce simp: activate_window_def layouts_ok_def dest!: set_put_session)
qed (use assms in \<open>simp add: activate_window_def\<close>)

lemma window_mut_layout: "layouts_ok s \<Longrightarrow> window_mut s sid wid = Some w \<Longrightarrow> window_layout_ok w"
  by (auto simp: window_mut_def layouts_ok_def active_session_mut_def find_window_def
      split: option.splits dest!: find_SomeD)

lemma select_directional_pane_step [inv_intros]:
  assumes wf: "native_wf s0" and lay: "layouts_ok s0"
  shows "native_step s0 (select_directional_pane s0 sid wid d)"
proof -
  define s where "s = (case wid of None \<Rightarrow> s0 | Some i \<Rightarrow> activate_window s0 sid i)"
  have step: "native_step s0 s" unfolding s_def using wf by (rule focus_window_step)
  have lay': "layouts_ok s" using lay activate_window_layouts by (auto simp: s_def split: option.splits)
  have "native_step s ((write_window sid (nw_id w) (w\<lparr>nw_active_pane_id := n\<rparr>) s)\<lparr>nm_active_session_id := sid\<rparr>)"
    if w: "active_window_mut s sid = Some w" and l: "nw_layout w = Some l" "from_mux_layout l = Some q"
      and n: "neighbor q (nw_active_pane_id w) dir area gap = Some n" for w l q n dir area gap
  proof -
    note win = active_window_mut_id [OF native_stepD [OF step] w]
    have ok: "valid_layout l" "mset (leaves l) = mset (window_pane_ids w)"
      using window_mut_layout [OF lay' win] l(1) by (simp_all add: window_layout_ok_def)
    then have "layout_inv q" "panes q = leaves l" using from_mux_layout_spec l(2) by blast+
    then have "n \<in> set (window_pane_ids w)" using neighbor_member n mset_eq_setD [OF ok(2)] by fastforce
    then show ?thesis
      using native_step_write_window(2) [OF native_stepD [OF step] win] by (simp add: window_wf_def)
  qed
  then have "native_step s (select_directional_pane s0 sid wid d)"
    using native_stepD [OF step]
    by (auto simp: select_directional_pane_def bind_eq_Some_conv simp flip: s_def split: option.splits)
  with step show ?thesis by (rule native_step_trans)
qed

section \<open>Restoring a session\<close>

lemma upt_Suc_append_map: "map f [n..<m] = f n # map f [Suc n..<m]" if "n < m"
  using that by (simp add: upt_conv_Cons)

lemma restore_panes_spec:
  assumes "restore_panes focused ps acc m act s = (r, s1)" "nm_next_pane s < 2 ^ 64"
  shows "\<exists>n. s1 = s\<lparr>nm_next_pane := n\<rparr> \<and> nm_next_pane s \<le> n \<and> n < 2 ^ 64 \<and>
    (\<forall>ps' m' act'. r = Inr (ps', m', act') \<longrightarrow>
       n = nm_next_pane s + length ps
       \<and> map np_id ps' = map np_id acc @ map (pane_id (nm_generation s)) [nm_next_pane s..<n]
       \<and> m' = m ++ map_of (rev (zip (map sp_id ps) (map (pane_id (nm_generation s)) [nm_next_pane s..<n])))
       \<and> (act' = act \<and> focused \<notin> sp_id ` set ps
          \<or> act' \<in> set (map (pane_id (nm_generation s)) [nm_next_pane s..<n])))"
  using assms
proof (induction ps arbitrary: acc m act s)
  case Nil
  then show ?case by (intro exI [of _ "nm_next_pane s"]) auto
next
  case (Cons p ps)
  obtain q s' where nid: "next_pane_id s = (q, s')" by (cases "next_pane_id s")
  from nid show ?case
  proof (cases rule: next_pane_id_cases)
    case (exhausted e)
    then show ?thesis using Cons.prems nid by (intro exI [of _ "nm_next_pane s"]) auto
  next
    case fresh
    let ?i = "pane_id (nm_generation s) (nm_next_pane s)"
    have rec: "restore_panes focused ps (acc @ [\<lparr>np_id = ?i, np_cwd = sp_cwd p\<rparr>]) (m(sp_id p \<mapsto> ?i))
        (if sp_id p = focused then ?i else act) s' = (r, s1)"
      using Cons.prems(1) nid fresh by simp
    have "nm_next_pane s' < 2 ^ 64" using fresh by simp
    from Cons.IH [OF rec this] obtain n where n: "s1 = s'\<lparr>nm_next_pane := n\<rparr>"
      "nm_next_pane s' \<le> n" "n < 2 ^ 64" and
      ok: "\<And>ps' m' act'. r = Inr (ps', m', act') \<Longrightarrow>
       n = nm_next_pane s' + length ps
       \<and> map np_id ps' = map np_id (acc @ [\<lparr>np_id = ?i, np_cwd = sp_cwd p\<rparr>])
           @ map (pane_id (nm_generation s')) [nm_next_pane s'..<n]
       \<and> m' = m(sp_id p \<mapsto> ?i) ++ map_of (rev (zip (map sp_id ps)
           (map (pane_id (nm_generation s')) [nm_next_pane s'..<n])))
       \<and> (act' = (if sp_id p = focused then ?i else act) \<and> focused \<notin> sp_id ` set ps
          \<or> act' \<in> set (map (pane_id (nm_generation s')) [nm_next_pane s'..<n]))"
      by blast
    have up: "map f [nm_next_pane s..<n] = f (nm_next_pane s) # map f [Suc (nm_next_pane s)..<n]"
      for f :: "nat \<Rightarrow> string"
      using n(2) fresh(2) by (intro upt_Suc_append_map) simp
    show ?thesis
    proof (intro exI [of _ n] conjI allI impI)
      fix ps' m' act' assume "r = Inr (ps', m', act')"
      note ok = ok [OF this]
      show "n = nm_next_pane s + length (p # ps)" using ok fresh(2) by simp
      show "map np_id ps' = map np_id acc @ map (pane_id (nm_generation s)) [nm_next_pane s..<n]"
        using ok [THEN conjunct2, THEN conjunct1] fresh(2) by (simp add: up)
      show "m' = m ++ map_of (rev (zip (map sp_id (p # ps))
          (map (pane_id (nm_generation s)) [nm_next_pane s..<n])))"
        using ok [THEN conjunct2, THEN conjunct2, THEN conjunct1] fresh(2) by (simp add: up)
      show "act' = act \<and> focused \<notin> sp_id ` set (p # ps)
          \<or> act' \<in> set (map (pane_id (nm_generation s)) [nm_next_pane s..<n])"
        using ok [THEN conjunct2, THEN conjunct2, THEN conjunct2] fresh(2) n(2)
        by (auto split: if_splits)
    qed (use n fresh in auto)
  qed
qed

lemma remap_layout_leaves:
  "remap_layout l m = Inr l' \<Longrightarrow> leaves l' = map (\<lambda>i. the (m i)) (leaves l) \<and> (valid_layout l \<longrightarrow> valid_layout l')"
  "remap_layouts cs m = Inr cs' \<Longrightarrow> map leaves cs' = map (\<lambda>c. map (\<lambda>i. the (m i)) (leaves c)) cs
     \<and> (list_all valid_layout cs \<longrightarrow> list_all valid_layout cs')"
proof (induction l m and cs m arbitrary: l' and cs' rule: remap_layout_remap_layouts.induct)
  case (2 d ws cs m)
  then show ?case by (auto simp: map_concat comp_def split: sum.splits)
qed (auto split: option.splits sum.splits)

lemma map_of_rev_zip:
  assumes "distinct ks" "length ks = length vs"
  shows "map (\<lambda>k. the (map_of (rev (zip ks vs)) k)) ks = vs"
proof (rule nth_equalityI)
  fix i assume i: "i < length (map (\<lambda>k. the (map_of (rev (zip ks vs)) k)) ks)"
  have "map_of (rev (zip ks vs)) (ks ! i) = Some (vs ! i)"
  proof (rule map_of_is_SomeI)
    show "distinct (map fst (rev (zip ks vs)))"
      using assms by (simp add: map_fst_zip flip: rev_map)
    show "(ks ! i, vs ! i) \<in> set (rev (zip ks vs))" using i assms by (auto simp: in_set_zip)
  qed
  with i show "map (\<lambda>k. the (map_of (rev (zip ks vs)) k)) ks ! i = vs ! i" by simp
qed (use assms in simp)

text \<open>The part of the contract of an accepted session that restoring relies on.\<close>

definition restorable :: "saved_terminal_window \<Rightarrow> bool" where
  "restorable w \<longleftrightarrow>
     distinct (saved_pane_ids w) \<and> sw_focused_pane_id w \<in> set (saved_pane_ids w)
     \<and> (\<forall>l. sw_layout w = Some l \<longrightarrow>
          valid_layout l \<and> distinct (leaves l) \<and> set (leaves l) = set (saved_pane_ids w))"

lemma remap_saved_layout:
  assumes "restorable w" "sw_layout w = Some l" "remap_layout l (map_of (rev (zip (saved_pane_ids w) ids))) = Inr l'"
    and "length ids = length (saved_pane_ids w)"
  shows "valid_layout l' \<and> mset (leaves l') = mset ids"
proof -
  let ?f = "\<lambda>i. the (map_of (rev (zip (saved_pane_ids w) ids)) i)"
  have "valid_layout l" and m: "mset (leaves l) = mset (saved_pane_ids w)"
    using assms(1,2) by (auto simp: restorable_def set_eq_iff_mset_eq_distinct)
  moreover have "map ?f (saved_pane_ids w) = ids"
    using assms(1,4) by (intro map_of_rev_zip) (simp_all add: restorable_def)
  then have "image_mset ?f (mset (saved_pane_ids w)) = mset ids" by (metis mset_map)
  ultimately show ?thesis using remap_layout_leaves(1) [OF assms(3)] by simp
qed

lemma restored_window:
  assumes rp: "restore_panes (sw_focused_pane_id w) (sw_panes w) [] Map.empty [] s = (q, s')"
    and nx: "nm_next_pane s < 2 ^ 64" and w: "restorable w"
  shows "\<exists>n. s' = s\<lparr>nm_next_pane := n\<rparr> \<and> nm_next_pane s \<le> n \<and> n < 2 ^ 64 \<and>
    (\<forall>ps m pact l' v. q = Inr (ps, m, pact) \<longrightarrow>
       (case sw_layout w of None \<Rightarrow> Inr None
        | Some l \<Rightarrow> (case remap_layout l m of Inl e \<Rightarrow> Inl e | Inr l' \<Rightarrow> Inr (Some l'))) = Inr l' \<longrightarrow>
       nw_panes v = ps \<longrightarrow> nw_active_pane_id v = pact \<longrightarrow> nw_layout v = l' \<longrightarrow>
       window_pane_ids v = map (pane_id (nm_generation s)) [nm_next_pane s..<n]
       \<and> window_wf v \<and> window_layout_ok v)"
proof -
  from restore_panes_spec [OF rp nx] obtain n where
    n: "s' = s\<lparr>nm_next_pane := n\<rparr>" "nm_next_pane s \<le> n" "n < 2 ^ 64"
    and ok: "\<forall>ps' m' act'. q = Inr (ps', m', act') \<longrightarrow>
       n = nm_next_pane s + length (sw_panes w)
       \<and> map np_id ps' = map np_id ([] :: native_pane list) @ map (pane_id (nm_generation s)) [nm_next_pane s..<n]
       \<and> m' = Map.empty ++ map_of (rev (zip (map sp_id (sw_panes w)) (map (pane_id (nm_generation s)) [nm_next_pane s..<n])))
       \<and> (act' = [] \<and> sw_focused_pane_id w \<notin> sp_id ` set (sw_panes w)
          \<or> act' \<in> set (map (pane_id (nm_generation s)) [nm_next_pane s..<n]))"
    by (elim exE conjE) (rule that)
  let ?ids = "map (pane_id (nm_generation s)) [nm_next_pane s..<n]"
  have "window_pane_ids v = ?ids \<and> window_wf v \<and> window_layout_ok v"
    if q: "q = Inr (ps, m, pact)" and v: "nw_panes v = ps" "nw_active_pane_id v = pact" "nw_layout v = l'"
      and l': "(case sw_layout w of None \<Rightarrow> Inr None
        | Some l \<Rightarrow> (case remap_layout l m of Inl e \<Rightarrow> Inl e | Inr l' \<Rightarrow> Inr (Some l'))) = Inr l'"
    for ps m pact l' v
  proof -
    note ok = ok [rule_format, OF q]
    have ids: "window_pane_ids v = ?ids" using ok v by (simp add: window_pane_ids_def)
    have "nw_active_pane_id v \<in> set ?ids" using ok w v by (auto simp: restorable_def saved_pane_ids_def)
    moreover have "length ?ids = length (saved_pane_ids w)" using ok by (simp add: saved_pane_ids_def)
    then have lay: "window_layout_ok v"
      unfolding window_layout_ok_def ids
      using l' ok v remap_saved_layout [OF w, of _ ?ids]
      by (auto simp: saved_pane_ids_def split: option.splits sum.splits)
    ultimately have "window_wf v"
      by (auto simp: window_wf_def ids window_layout_ok_def simp del: set_map split: option.splits)
    with ids lay show ?thesis by simp
  qed
  with n show ?thesis by blast
qed

lemma restore_windows_spec:
  assumes "restore_windows active k rest ws act s = (r, s1)" "nm_next_pane s < 2 ^ 64" "list_all restorable rest"
  shows "\<exists>n. s1 = s\<lparr>nm_next_pane := n\<rparr> \<and> nm_next_pane s \<le> n \<and> n < 2 ^ 64 \<and>
    (\<forall>ws' act'. r = Inr (ws', act') \<longrightarrow> (\<exists>vs. ws' = ws @ vs
       \<and> map nw_id vs = map (\<lambda>i. tab_id (Suc i)) [k..<k + length rest]
       \<and> map nw_index vs = map (\<lambda>i. u32_or_max (Suc i)) [k..<k + length rest]
       \<and> windows_pane_ids vs = map (pane_id (nm_generation s)) [nm_next_pane s..<n]
       \<and> list_all window_wf vs \<and> list_all window_layout_ok vs
       \<and> (act' = act \<and> \<not> (act = [] \<and> k = 0 \<and> rest \<noteq> []) \<or> act' \<in> set (map nw_id vs))))"
  using assms
proof (induction rest arbitrary: k ws act s)
  case Nil
  then show ?case by (intro exI [of _ "nm_next_pane s"]) auto
next
  case (Cons w rest)
  obtain q s' where rp: "restore_panes (sw_focused_pane_id w) (sw_panes w) [] Map.empty [] s = (q, s')"
    by (cases "restore_panes (sw_focused_pane_id w) (sw_panes w) [] Map.empty [] s")
  from restored_window [OF rp Cons.prems(2)] Cons.prems(3) obtain n where
    n: "s' = s\<lparr>nm_next_pane := n\<rparr>" "nm_next_pane s \<le> n" "n < 2 ^ 64"
    and ok: "\<And>ps m pact l' v. q = Inr (ps, m, pact) \<Longrightarrow>
       (case sw_layout w of None \<Rightarrow> Inr None
        | Some l \<Rightarrow> (case remap_layout l m of Inl e \<Rightarrow> Inl e | Inr l' \<Rightarrow> Inr (Some l'))) = Inr l' \<Longrightarrow>
       nw_panes v = ps \<Longrightarrow> nw_active_pane_id v = pact \<Longrightarrow> nw_layout v = l' \<Longrightarrow>
       window_pane_ids v = map (pane_id (nm_generation s)) [nm_next_pane s..<n]
       \<and> window_wf v \<and> window_layout_ok v"
    by auto
  let ?act = "if active = Some (sw_id w) \<or> (act = [] \<and> k = 0) then tab_id (k + 1) else act"
  show ?case
  proof (cases "\<exists>e. r = Inl e \<and> s1 = s'")
    case True
    then show ?thesis using n by (intro exI [of _ n]) auto
  next
    case False
    then obtain ps m pact l' where q: "q = Inr (ps, m, pact)" and small: "k + 1 < 2 ^ 32"
      and l': "(case sw_layout w of None \<Rightarrow> Inr None
          | Some l \<Rightarrow> (case remap_layout l m of Inl e \<Rightarrow> Inl e | Inr l' \<Rightarrow> Inr (Some l'))) = Inr l'"
      and rec: "restore_windows active (k + 1) rest (ws @ [\<lparr>nw_id = tab_id (k + 1), nw_index = k + 1,
         nw_name = sw_title w, nw_custom_name = True, nw_active_pane_id = pact, nw_panes = ps,
         nw_layout = l'\<rparr>]) ?act s' = (r, s1)"
      using Cons.prems(1) rp by (auto simp: Let_def split: sum.splits if_splits)
    let ?v = "\<lparr>nw_id = tab_id (k + 1), nw_index = k + 1, nw_name = sw_title w, nw_custom_name = True,
      nw_active_pane_id = pact, nw_panes = ps, nw_layout = l'\<rparr>"
    have v: "window_pane_ids ?v = map (pane_id (nm_generation s)) [nm_next_pane s..<n]"
      "window_wf ?v" "window_layout_ok ?v"
      using ok [OF q l', of ?v] by simp_all
    from Cons.IH [OF rec] n Cons.prems(3) obtain n' where n': "s1 = s\<lparr>nm_next_pane := n'\<rparr>" "n \<le> n'" "n' < 2 ^ 64"
      and ok': "\<And>ws' act'. r = Inr (ws', act') \<Longrightarrow> \<exists>vs. ws' = (ws @ [?v]) @ vs
         \<and> map nw_id vs = map (\<lambda>i. tab_id (Suc i)) [k + 1..<k + 1 + length rest]
         \<and> map nw_index vs = map (\<lambda>i. u32_or_max (Suc i)) [k + 1..<k + 1 + length rest]
         \<and> windows_pane_ids vs = map (pane_id (nm_generation s)) [n..<n']
         \<and> list_all window_wf vs \<and> list_all window_layout_ok vs
         \<and> (act' = ?act \<and> \<not> (?act = [] \<and> k + 1 = 0 \<and> rest \<noteq> []) \<or> act' \<in> set (map nw_id vs))"
      by auto
    have up: "[k..<k + length (w # rest)] = k # [k + 1..<k + 1 + length rest]" by (simp add: upt_rec)
    have split: "[nm_next_pane s..<n'] = [nm_next_pane s..<n] @ [n..<n']"
      using n(2) n'(2) by (metis le_add_diff_inverse upt_add_eq_append)
    show ?thesis
    proof (intro exI [of _ n'] conjI allI impI)
      fix ws' act' assume "r = Inr (ws', act')"
      from ok' [OF this] obtain vs where vs: "ws' = (ws @ [?v]) @ vs"
         "map nw_id vs = map (\<lambda>i. tab_id (Suc i)) [k + 1..<k + 1 + length rest]"
         "map nw_index vs = map (\<lambda>i. u32_or_max (Suc i)) [k + 1..<k + 1 + length rest]"
         "windows_pane_ids vs = map (pane_id (nm_generation s)) [n..<n']"
         "list_all window_wf vs" "list_all window_layout_ok vs"
         "act' = ?act \<and> \<not> (?act = [] \<and> k + 1 = 0 \<and> rest \<noteq> []) \<or> act' \<in> set (map nw_id vs)"
        by blast
      show "\<exists>us. ws' = ws @ us
         \<and> map nw_id us = map (\<lambda>i. tab_id (Suc i)) [k..<k + length (w # rest)]
         \<and> map nw_index us = map (\<lambda>i. u32_or_max (Suc i)) [k..<k + length (w # rest)]
         \<and> windows_pane_ids us = map (pane_id (nm_generation s)) [nm_next_pane s..<n']
         \<and> list_all window_wf us \<and> list_all window_layout_ok us
         \<and> (act' = act \<and> \<not> (act = [] \<and> k = 0 \<and> w # rest \<noteq> []) \<or> act' \<in> set (map nw_id us))"
        unfolding up split
        by (intro exI [of _ "?v # vs"] conjI)
          (use vs v small in \<open>auto simp: u32_or_max_def split: if_splits\<close>)
    qed (use n n' in auto)
  qed
qed

lemma saved_session_restorable:
  assumes "saved_session_ok s" "\<And>w l. w \<in> set (ss_windows s) \<Longrightarrow> sw_layout w = Some l \<Longrightarrow> valid_layout l"
  shows "list_all restorable (ss_windows s)"
proof -
  have "restorable w" if w: "w \<in> set (ss_windows s)" for w
  proof -
    from split_list [OF w] obtain ys zs where "ss_windows s = ys @ w # zs" by blast
    then have "distinct (saved_pane_ids w)" using assms(1) by (simp add: saved_session_ok_def)
    moreover have "saved_window_ok w" using assms(1) w by (simp add: saved_session_ok_def list_all_iff)
    ultimately show ?thesis
      using assms(2) [OF w] by (auto simp: restorable_def saved_window_ok_def split: option.splits)
  qed
  then show ?thesis by (simp add: list_all_iff)
qed

lemma restore_session_cases:
  assumes "restore_session s i tag snap = (r, s1)" "nm_next_pane s < 2 ^ 64"
    and "\<And>w l. w \<in> set (ss_windows snap) \<Longrightarrow> sw_layout w = Some l \<Longrightarrow> valid_layout l"
  obtains (refused) e n where "r = Inl e" "s1 = s\<lparr>nm_next_pane := n\<rparr>" "nm_next_pane s \<le> n" "n < 2 ^ 64"
  | (restored) se n where "r = Inr ()" "nm_next_pane s \<le> n" "n < 2 ^ 64"
      "s1 = s\<lparr>nm_next_pane := n, nm_sessions := nm_sessions s @ [se], nm_active_session_id := i\<rparr>"
      "session_wf se" "ns_id se = i" "ns_id se \<notin> set (map ns_id (nm_sessions s))"
      "set (session_pane_ids se) \<subseteq> pane_id (nm_generation s) ` {nm_next_pane s..<n}"
      "list_all window_layout_ok (ns_windows se)"
proof (cases "\<exists>e. r = Inl e \<and> s1 = s")
  case True
  then obtain e where "r = Inl e" "s1 = s" by blast
  then show ?thesis using assms(2) refused [of e "nm_next_pane s"] by simp
next
  case False
  have val: "validate snap = Inr ()"
  proof (cases "validate snap")
    case (Inl e)
    with assms(1) have "r = Inl e \<and> s1 = s" by (simp add: restore_session_def)
    with False show ?thesis by blast
  qed simp
  with False have new: "i \<notin> ns_id ` set (nm_sessions s)"
    using assms(1) by (auto simp: restore_session_def list_ex_iff split: if_splits)
  have sok: "saved_session_ok snap" using val by (rule validate_ok)
  obtain q s' where rw: "restore_windows (ss_active_window_id snap) 0 (ss_windows snap) [] [] s = (q, s')"
    by (cases "restore_windows (ss_active_window_id snap) 0 (ss_windows snap) [] [] s")
  have rest: "list_all restorable (ss_windows snap)"
    by (rule saved_session_restorable [OF sok]) (rule assms(3))
  obtain n where n: "s' = s\<lparr>nm_next_pane := n\<rparr>" "nm_next_pane s \<le> n" "n < 2 ^ 64"
    and ok: "\<forall>ws act. q = Inr (ws, act) \<longrightarrow>
       map nw_id ws = map (\<lambda>i. tab_id (Suc i)) [0..<length (ss_windows snap)]
       \<and> map nw_index ws = map (\<lambda>i. u32_or_max (Suc i)) [0..<length (ss_windows snap)]
       \<and> windows_pane_ids ws = map (pane_id (nm_generation s)) [nm_next_pane s..<n]
       \<and> list_all window_wf ws \<and> list_all window_layout_ok ws
       \<and> (act = [] \<and> ss_windows snap = [] \<or> act \<in> nw_id ` set ws)"
    using restore_windows_spec [OF rw assms(2) rest] by auto
  show ?thesis
  proof (cases "\<exists>e. r = Inl e \<and> s1 = s'")
    case True
    then show ?thesis using n refused by blast
  next
    case False
    then obtain ws act where q: "q = Inr (ws, act)" and cap: "length ws + 1 < 2 ^ 64" and r: "r = Inr ()"
      and s1: "s1 = s'\<lparr>nm_sessions := nm_sessions s' @ [\<lparr>ns_next_window = length ws + 1, ns_id = i,
        ns_name = i, ns_active_window_id = act, ns_windows = ws, ns_tag = tag\<rparr>], nm_active_session_id := i\<rparr>"
      using assms(1) val rw \<open>\<not> (\<exists>e. r = Inl e \<and> s1 = s)\<close>
      by (auto simp: restore_session_def checked_add_def split: sum.splits option.splits if_splits)
    have ws: "map nw_id ws = map (\<lambda>i. tab_id (Suc i)) [0..<length (ss_windows snap)]"
      "map nw_index ws = map (\<lambda>i. u32_or_max (Suc i)) [0..<length (ss_windows snap)]"
      "windows_pane_ids ws = map (pane_id (nm_generation s)) [nm_next_pane s..<n]"
      "list_all window_wf ws" "list_all window_layout_ok ws" "act \<in> nw_id ` set ws"
      using ok q sok by (simp_all add: saved_session_ok_def)
    have len: "length ws = length (ss_windows snap)" using ws(1) by (metis length_map length_upt minus_nat.diff_0)
    have "inj_on (\<lambda>i. tab_id (Suc i)) A" for A by (auto intro: inj_onI)
    moreover have "inj_on (pane_id (nm_generation s)) A" for A by (auto intro: inj_onI)
    ultimately have wf: "windows_wf (length ws + 1) ws"
      unfolding windows_wf_def ws(1,3) using ws(4) len by (auto simp: distinct_map)
    have "session_wf \<lparr>ns_next_window = length ws + 1, ns_id = i,
        ns_name = i, ns_active_window_id = act, ns_windows = ws, ns_tag = tag\<rparr>"
      using wf ws(2,6) cap len by (simp add: session_wf_def window_numbers_def)
    then show ?thesis
      using r n s1 new ws(3,5)
      by (intro restored [of n "\<lparr>ns_next_window = length ws + 1, ns_id = i,
        ns_name = i, ns_active_window_id = act, ns_windows = ws, ns_tag = tag\<rparr>"])
        (auto simp: session_pane_ids_def)
  qed
qed

lemma restore_session_step [inv_intros]:
  assumes wf: "native_wf s" and res: "restore_session s i tag snap = (r, s1)"
    and "\<And>w l. w \<in> set (ss_windows snap) \<Longrightarrow> sw_layout w = Some l \<Longrightarrow> valid_layout l"
  shows "native_step s s1"
proof -
  have nx: "nm_next_pane s < 2 ^ 64" using wf by (simp add: native_wf_def)
  show ?thesis
  proof (rule restore_session_cases [OF res nx assms(3)])
    fix e n assume "s1 = s\<lparr>nm_next_pane := n\<rparr>" "nm_next_pane s \<le> n" "n < 2 ^ 64"
    then show ?thesis using native_step_next [OF wf] by simp
  next
    fix se n assume "session_wf se" "ns_id se \<notin> set (map ns_id (nm_sessions s))"
      "set (session_pane_ids se) \<subseteq> pane_id (nm_generation s) ` {nm_next_pane s..<n}"
      "nm_next_pane s \<le> n" "n < 2 ^ 64" and i: "ns_id se = i"
      "s1 = s\<lparr>nm_next_pane := n, nm_sessions := nm_sessions s @ [se], nm_active_session_id := i\<rparr>"
    from native_step_push [OF wf this(1-5)] i show ?thesis by simp
  qed
qed

section \<open>The commands\<close>

text \<open>
  Every layout carried by a command consists of binary32 weights, as the type \<^verbatim>\<open>f32\<close> of the wire
  format guarantees.
\<close>

definition command_valid :: "mux_command \<Rightarrow> bool" where
  "command_valid c =
     (case c of
        ResizePanes _ _ l \<Rightarrow> valid_layout l
      | RestoreSession _ _ snap \<Rightarrow>
          list_all (\<lambda>w. case sw_layout w of None \<Rightarrow> True | Some l \<Rightarrow> valid_layout l) (ss_windows snap)
      | _ \<Rightarrow> True)"

lemma create_pane_step:
  assumes "native_wf s" "split_pane s sid pid = (q, s')" "set_created_cwd s' sid cwd = (r, s1)"
  shows "native_step s s1"
proof -
  have "native_step s s'" using assms(1,2) by (rule split_pane_step)
  moreover from this have "native_step s' s1" using native_stepD assms(3) set_created_cwd_step by blast
  ultimately show ?thesis by (rule native_step_trans)
qed

lemmas session_rearrangements =
  merge_windows_def swap_panes_def move_pane_def extract_pane_def

lemma execute_pane_command_step:
  assumes "native_wf s" "layouts_ok s" "execute_pane_command c s = (r, s1)"
  shows "native_step s s1"
proof (cases c)
  case (CreatePane sid pid d cwd argv)
  then show ?thesis
    using assms create_pane_step split_pane_step
    by (cases "split_pane s sid pid"; cases "fst (split_pane s sid pid)") auto
qed (use assms in \<open>auto intro: inv_intros rearrange_steps simp: session_rearrangements\<close>)

lemma execute_topology_step:
  assumes "native_wf s" "layouts_ok s" "command_valid c" "execute_topology env c s = (r, s1)"
  shows "native_step s s1"
proof (cases "execute_topology env c s = execute_pane_command c s")
  case True
  then show ?thesis using assms(4) execute_pane_command_step [OF assms(1,2)] by metis
next
  case False
  then show ?thesis
  proof (cases c)
    case (RestoreSession sid tag snap)
    have "valid_layout l" if "w \<in> set (ss_windows snap)" "sw_layout w = Some l" for w l
      using assms(3) that RestoreSession by (auto simp: command_valid_def list_all_iff split: option.splits)
    then show ?thesis
      using assms(4) RestoreSession restore_session_step [OF assms(1), of sid tag snap r s1] by simp
  qed (use assms(1,4) in \<open>auto intro: inv_intros split: if_splits\<close>)
qed

section \<open>Closing removes exactly the pane\<close>

lemma native_ids_put:
  assumes "active_session_mut s sid = Some se"
  obtains rest where "mset (native_pane_ids s) = mset (session_pane_ids se) + rest"
    "\<And>se1. mset (native_pane_ids (put_session sid se1 s)) = mset (session_pane_ids se1) + rest"
proof -
  have "\<exists>ys zs. nm_sessions s = ys @ se # zs \<and> (\<forall>y \<in> set ys. ns_id y \<noteq> sid)
      \<and> update_first (\<lambda>x. ns_id x = sid) f (nm_sessions s) = ys @ f se # zs" for f
    using update_first_split [OF assms [unfolded active_session_mut_def]] .
  from this [of id] obtain ys zs where s: "nm_sessions s = ys @ se # zs" "\<forall>y \<in> set ys. ns_id y \<noteq> sid" by blast
  have "ns_id se = sid" using assms find_SomeD unfolding active_session_mut_def by fastforce
  then have upd: "update_first (\<lambda>x. ns_id x = sid) f (ys @ se # zs) = ys @ f se # zs" for f
    using s(2) by (induction ys) auto
  show ?thesis
    by (rule that [of "mset (concat (map session_pane_ids (ys @ zs)))"])
      (simp_all add: native_pane_ids_def put_session_def s(1) upd)
qed

lemma kill_session_ids:
  assumes "native_wf s" "active_session_mut s sid = Some se"
  shows "mset (native_pane_ids s) = mset (session_pane_ids se) + mset (native_pane_ids (kill_session s sid))"
proof -
  have se: "se \<in> set (nm_sessions s)" "ns_id se = sid"
    using assms(2) find_SomeD unfolding active_session_mut_def by fastforce+
  obtain ys zs where s: "nm_sessions s = ys @ se # zs" using split_list [OF se(1)] by blast
  have "distinct (map ns_id (ys @ se # zs))" using assms(1) s by (simp add: native_wf_def)
  then have "\<forall>x \<in> set (ys @ zs). ns_id x \<noteq> sid" using se(2) by (auto simp: image_iff)
  then have "filter (\<lambda>x. ns_id x \<noteq> sid) (ys @ zs) = ys @ zs" by (simp only: filter_id_conv)
  then have "filter (\<lambda>x. ns_id x \<noteq> sid) (ys @ se # zs) = ys @ zs" using se(2) by simp
  then show ?thesis by (simp add: kill_session_def native_pane_ids_def s Let_def)
qed

lemma close_in_session_total:
  assumes "p \<in> set (session_pane_ids se)"
  shows "\<exists>b se1. close_in_session se (Some p) True = Inr (Some (b, se1))"
proof -
  obtain wi pi where "pane_location se p = Some (wi, pi)"
    using assms pane_location_None [of se p] by auto
  with pane_location_Some [OF this] show ?thesis
    by (auto simp: close_in_session_def target_pane_location_def get_nth_def Let_def)
qed

lemma close_pane_exact:
  assumes wf: "native_wf s" and se: "active_session_mut s sid = Some se" and p: "p \<in> set (session_pane_ids se)"
  obtains s1 where "close_pane s sid (Some p) True = (Inr (), s1)"
    "mset (native_pane_ids s) = add_mset p (mset (native_pane_ids s1))"
proof -
  note W = native_wf_session [OF wf se]
  obtain b se1 where c: "close_in_session se (Some p) True = Inr (Some (b, se1))"
    using close_in_session_total [OF p] by blast
  have cl: "closed p se se1" using close_in_session_ok [OF conjunct1 [OF W] c] by metis
  show ?thesis
  proof (cases "list_ex (\<lambda>x. ns_id x = sid \<and> ns_windows x = []) (nm_sessions (put_session sid se1 s))")
    case True
    have "close_pane s sid (Some p) True = (Inr (), kill_session s sid)"
      using se c True cl W by (simp add: close_pane_def kill_put_session closed_def Let_def)
    moreover have "ns_windows x \<noteq> []" if "x \<in> set (nm_sessions s)" for x
      using wf that by (auto simp: native_wf_def list_all_iff session_wf_def)
    then have "ns_windows se1 = []" using True set_put_session by (fastforce simp: list_ex_iff)
    then have "mset (session_pane_ids se) = {#p#}" using cl by (simp add: closed_def session_pane_ids_def)
    then have "mset (native_pane_ids s) = add_mset p (mset (native_pane_ids (kill_session s sid)))"
      using kill_session_ids [OF wf se] by simp
    ultimately show ?thesis by (rule that)
  next
    case False
    let ?s1 = "if b then (put_session sid se1 s)\<lparr>nm_active_session_id := sid\<rparr> else put_session sid se1 s"
    have "close_pane s sid (Some p) True = (Inr (), ?s1)" using se c False by (simp add: close_pane_def Let_def)
    moreover obtain rest where "mset (native_pane_ids s) = mset (session_pane_ids se) + rest"
      "\<And>se1. mset (native_pane_ids (put_session sid se1 s)) = mset (session_pane_ids se1) + rest"
      using native_ids_put [OF se] by blast
    then have "mset (native_pane_ids s) = add_mset p (mset (native_pane_ids ?s1))"
      using cl by (auto simp: closed_def native_pane_ids_def)
    ultimately show ?thesis by (rule that)
  qed
qed

end
