(* ===== verification/Native_Layout.thy ===== *)
theory Native_Layout
  imports Native_Topology
begin

text \<open>
  \<^verbatim>\<open>crates/bootty-mux/src/native/layout.rs\<close> and the command entry point of
  \<^verbatim>\<open>native/state.rs\<close>: after the topology changed, every window gets a layout that shows exactly
  its panes, computed from the layouts before the command.  The hash maps keyed by session and
  window identity are partial maps; the loops that fill them follow the order of the snapshot.
\<close>

type_synonym window_key = "string \<times> string"

section \<open>Collecting and rearranging the old layouts\<close>

definition collect_window ::
  "mux_session \<Rightarrow> mux_window \<Rightarrow> (window_key \<rightharpoonup> pane_layout) \<Rightarrow> (window_key \<rightharpoonup> pane_layout)" where
  "collect_window se w m =
     (case Option.bind (mw_layout w) from_mux_layout of
        None \<Rightarrow> m
      | Some l \<Rightarrow> m((ms_id se, mw_id w) \<mapsto> l))"

definition collect_layouts :: "mux_snapshot \<Rightarrow> (window_key \<rightharpoonup> pane_layout)" where
  "collect_layouts before =
     fold (\<lambda>se m. fold (collect_window se) (ms_windows se) m) (sn_sessions before) Map.empty"

definition key_for :: "mux_snapshot \<Rightarrow> string \<Rightarrow> string \<Rightarrow> window_key option" where
  "key_for before sid pane =
     map_option (\<lambda>w. (sid, mw_id w))
       (Option.bind (find (\<lambda>s. ms_id s = sid) (sn_sessions before))
          (\<lambda>s. find (\<lambda>w. list_ex (\<lambda>p. an_pane_id p = Some pane) (mw_panes w)) (ms_windows s)))"

text \<open>
  \<^verbatim>\<open>layouts.get_mut(&key)\<close> followed by an edit whose answer is ignored, or required to be true.
\<close>

definition edit_at ::
  "window_key \<Rightarrow> (pane_layout \<Rightarrow> bool \<times> pane_layout) \<Rightarrow> (window_key \<rightharpoonup> pane_layout) \<Rightarrow>
   (window_key \<rightharpoonup> pane_layout)" where
  "edit_at k f m = (case m k of None \<Rightarrow> m | Some l \<Rightarrow> m(k \<mapsto> snd (f l)))"

definition ensure_at ::
  "string \<Rightarrow> window_key \<Rightarrow> (pane_layout \<Rightarrow> bool \<times> pane_layout) \<Rightarrow> (window_key \<rightharpoonup> pane_layout) \<Rightarrow>
   (window_key \<rightharpoonup> pane_layout) res" where
  "ensure_at e k f m =
     (case m k of
        None \<Rightarrow> Inr m
      | Some l \<Rightarrow> (case f l of (ok, l') \<Rightarrow> if ok then Inr (m(k \<mapsto> l')) else Inl e))"

fun rearrange ::
  "mux_snapshot \<Rightarrow> mux_command \<Rightarrow> (window_key \<rightharpoonup> pane_layout) \<Rightarrow> (window_key \<rightharpoonup> pane_layout) res" where
  "rearrange before (SwapPanes sid source target) m =
     (case (key_for before sid source, key_for before sid target) of
        (Some a, Some b) \<Rightarrow>
          Inr (if a = b then edit_at a (\<lambda>l. layout_swap l source target) m
               else edit_at b (\<lambda>l. layout_replace l target source)
                      (edit_at a (\<lambda>l. layout_replace l source target) m))
      | _ \<Rightarrow> Inr m)"
| "rearrange before (MovePane sid pane target d) m =
     (case (key_for before sid pane, key_for before sid target) of
        (Some a, Some b) \<Rightarrow>
          if a = b
          then ensure_at ''pane move exceeds representable split weights'' a
                 (\<lambda>l. move_beside l pane target (native_direction d)) m
          else ensure_at ''pane insertion exceeds representable split weights'' b
                 (\<lambda>l. insert_beside l pane target (native_direction d))
                 (edit_at a (\<lambda>l. remove_pane l pane) m)
      | _ \<Rightarrow> Inr m)"
| "rearrange before (MergeWindows sid source target) m =
     (let m' = m((sid, source) := None)
      in case m (sid, source) of
           None \<Rightarrow> Inr m'
         | Some l \<Rightarrow> ensure_at ''pane merge exceeds representable split weights'' (sid, target)
                       (\<lambda>t. layout_merge t l) m')"
| "rearrange before _ m = Inr m"

section \<open>The layouts after a command\<close>

definition split_direction_of :: "mux_split_direction \<Rightarrow> split_direction" where
  "split_direction_of d = (case d of MuxSplitRight \<Rightarrow> SdRight | MuxSplitDown \<Rightarrow> SdDown)"

definition focus_source :: "mux_snapshot \<Rightarrow> string \<Rightarrow> string option \<Rightarrow> string option" where
  "focus_source before sid pane =
     (case pane of
        Some p \<Rightarrow> Some p
      | None \<Rightarrow> Option.bind (find (\<lambda>s. ms_id s = sid) (sn_sessions before))
                  (\<lambda>s. an_pane_id (ms_anchor s)))"

definition reconcile_split ::
  "mux_snapshot \<Rightarrow> string \<Rightarrow> string option \<Rightarrow> mux_split_direction \<Rightarrow> string list \<Rightarrow> pane_layout \<Rightarrow>
   pane_layout" where
  "reconcile_split before sid pane d ids l =
     reconcile_with_new_pane_direction
       (case focus_source before sid pane of None \<Rightarrow> l | Some p \<Rightarrow> snd (set_focus l p))
       ids (split_direction_of d)"

fun reconcile_for ::
  "mux_snapshot \<Rightarrow> mux_command \<Rightarrow> string \<Rightarrow> string list \<Rightarrow> pane_layout \<Rightarrow> pane_layout" where
  "reconcile_for before (SplitPane sid pane d) this ids l =
     (if this = sid then reconcile_split before sid pane d ids l else reconcile l ids)"
| "reconcile_for before (CreatePane sid pane d _ _) this ids l =
     (if this = sid then reconcile_split before sid pane d ids l else reconcile l ids)"
| "reconcile_for before _ this ids l = reconcile l ids"

type_synonym layout_pass = "(window_key \<rightharpoonup> pane_layout) \<times> (window_key \<rightharpoonup> mux_pane_layout)"

definition layout_window ::
  "mux_snapshot \<Rightarrow> mux_command \<Rightarrow> mux_session \<Rightarrow> mux_window \<Rightarrow> layout_pass \<Rightarrow> layout_pass res" where
  "layout_window before c se w st =
     (let ids = List.map_filter an_pane_id (mw_panes w); k = (ms_id se, mw_id w)
      in case ids of
           [] \<Rightarrow> Inr st
         | first # _ \<Rightarrow>
             (let l0 = (case fst st k of
                          Some l \<Rightarrow> l
                        | None \<Rightarrow> (case Option.bind (mw_layout w) from_mux_layout of
                                     Some l \<Rightarrow> l
                                   | None \<Rightarrow> single first));
                  l1 = reconcile_for before c (ms_id se) ids l0;
                  lvs = panes l1
              in if \<not> (length lvs = length ids \<and> list_all (\<lambda>i. i \<in> set lvs) ids)
                 then Inl ''pane layout exceeds representable split weights''
                 else
                   (let l2 = (case an_pane_id (mw_anchor w) of
                                None \<Rightarrow> l1 | Some f \<Rightarrow> snd (set_focus l1 f))
                    in Inr ((fst st)(k := None), (snd st)(k \<mapsto> snapshot_layout l2)))))"

fun layout_windows ::
  "mux_snapshot \<Rightarrow> mux_command \<Rightarrow> mux_session \<Rightarrow> mux_window list \<Rightarrow> layout_pass \<Rightarrow> layout_pass res" where
  "layout_windows before c se [] st = Inr st"
| "layout_windows before c se (w # ws) st =
     (case layout_window before c se w st of
        Inl e \<Rightarrow> Inl e
      | Inr st' \<Rightarrow> layout_windows before c se ws st')"

fun layout_sessions ::
  "mux_snapshot \<Rightarrow> mux_command \<Rightarrow> mux_session list \<Rightarrow> layout_pass \<Rightarrow> layout_pass res" where
  "layout_sessions before c [] st = Inr st"
| "layout_sessions before c (se # ses) st =
     (case layout_windows before c se (ms_windows se) st of
        Inl e \<Rightarrow> Inl e
      | Inr st' \<Rightarrow> layout_sessions before c ses st')"

definition updated_layouts ::
  "mux_snapshot \<Rightarrow> mux_snapshot \<Rightarrow> mux_command \<Rightarrow> (window_key \<rightharpoonup> mux_pane_layout) res" where
  "updated_layouts before after c =
     (case rearrange before c (collect_layouts before) of
        Inl e \<Rightarrow> Inl e
      | Inr m \<Rightarrow>
          (case layout_sessions before c (sn_sessions after) (m, Map.empty) of
             Inl e \<Rightarrow> Inl e
           | Inr (_, result) \<Rightarrow> Inr result))"

section \<open>The command entry point\<close>

definition assign_layouts :: "(window_key \<rightharpoonup> mux_pane_layout) \<Rightarrow> native_mux_state \<Rightarrow> native_mux_state" where
  "assign_layouts layouts s =
     s\<lparr>nm_sessions :=
       map (\<lambda>se. se\<lparr>ns_windows :=
              map (\<lambda>w. w\<lparr>nw_layout := layouts (ns_id se, nw_id w)\<rparr>) (ns_windows se)\<rparr>) (nm_sessions s)\<rparr>"

definition resize_panes ::
  "string \<Rightarrow> string \<Rightarrow> mux_pane_layout \<Rightarrow> native_mux_state \<Rightarrow> unit res \<times> native_mux_state" where
  "resize_panes sid wid l s =
     (case window_mut s sid wid of
        None \<Rightarrow> (Inl ''native window unavailable'', s)
      | Some w \<Rightarrow>
          (case Option.bind (nw_layout w) from_mux_layout of
             None \<Rightarrow> (Inl ''native layout unavailable'', s)
           | Some current \<Rightarrow>
               (case resize current l of
                  (False, _) \<Rightarrow> (Inl ''pane resize topology is stale'', s)
                | (True, resized) \<Rightarrow> set_layout s sid wid (snapshot_layout resized))))"

definition execute_layouts ::
  "env \<Rightarrow> mux_command \<Rightarrow> native_mux_state \<Rightarrow> unit res \<times> native_mux_state" where
  "execute_layouts env c s =
     (case execute_topology env c s of
        (Inl e, s1) \<Rightarrow> (Inl e, s1)
      | (Inr _, s1) \<Rightarrow>
          (case updated_layouts (snapshot s) (snapshot s1) c of
             Inl e \<Rightarrow> (Inl e, s1)
           | Inr layouts \<Rightarrow> (Inr (), assign_layouts layouts s1)))"

fun execute :: "env \<Rightarrow> mux_command \<Rightarrow> native_mux_state \<Rightarrow> unit res \<times> native_mux_state" where
  "execute env (ResizePanes sid wid l) s = resize_panes sid wid l s"
| "execute env c s = execute_layouts env c s"

section \<open>Every map in flight holds well-formed layouts\<close>

definition layouts_inv :: "(window_key \<rightharpoonup> pane_layout) \<Rightarrow> bool" where
  "layouts_inv m \<longleftrightarrow> (\<forall>k l. m k = Some l \<longrightarrow> layout_inv l)"

lemma layouts_inv_upd [intro]: "layouts_inv m \<Longrightarrow> layout_inv l \<Longrightarrow> layouts_inv (m(k \<mapsto> l))"
  by (simp add: layouts_inv_def)

lemma layouts_inv_del [intro]: "layouts_inv m \<Longrightarrow> layouts_inv (m(k := None))"
  by (simp add: layouts_inv_def)

lemma layouts_inv_at: "layouts_inv m \<Longrightarrow> m k = Some l \<Longrightarrow> layout_inv l"
  unfolding layouts_inv_def by blast

definition snapshot_valid :: "mux_snapshot \<Rightarrow> bool" where
  "snapshot_valid sn \<longleftrightarrow>
     (\<forall>se \<in> set (sn_sessions sn). \<forall>w \<in> set (ms_windows se). pred_option valid_layout (mw_layout w))"

lemma snapshot_valid: "native_wf s \<Longrightarrow> snapshot_valid (snapshot s)"
  by (auto simp: snapshot_valid_def snapshot_def snapshot_session_def snapshot_window_def Let_def
      native_wf_def list_all_iff session_wf_def windows_wf_def window_wf_def)

lemma window_layout_inv:
  assumes "pred_option valid_layout (mw_layout w)" "Option.bind (mw_layout w) from_mux_layout = Some l"
  shows "layout_inv l"
  using assms from_mux_layout_spec by (auto simp: bind_eq_Some_conv)

lemma collect_window_inv:
  "layouts_inv m \<Longrightarrow> pred_option valid_layout (mw_layout w) \<Longrightarrow> layouts_inv (collect_window se w m)"
  using window_layout_inv by (auto simp: collect_window_def split: option.splits)

lemma fold_invariant_list: "P a \<Longrightarrow> (\<And>x a. x \<in> set xs \<Longrightarrow> P a \<Longrightarrow> P (f x a)) \<Longrightarrow> P (fold f xs a)"
  by (induction xs arbitrary: a) auto

lemma collect_layouts_inv: "snapshot_valid sn \<Longrightarrow> layouts_inv (collect_layouts sn)"
  unfolding collect_layouts_def
  by (intro fold_invariant_list [where P = layouts_inv] collect_window_inv)
    (auto simp: snapshot_valid_def layouts_inv_def)

lemma edit_at_inv:
  "layouts_inv m \<Longrightarrow> (\<And>l. layout_inv l \<Longrightarrow> layout_inv (snd (f l))) \<Longrightarrow> layouts_inv (edit_at k f m)"
  by (auto simp: edit_at_def split: option.splits dest: layouts_inv_at)

lemma ensure_at_inv:
  assumes "layouts_inv m" "\<And>l. layout_inv l \<Longrightarrow> layout_inv (snd (f l))" "ensure_at e k f m = Inr m'"
  shows "layouts_inv m'"
proof (cases "m k")
  case (Some l)
  then have "layout_inv (snd (f l))" using assms(1,2) layouts_inv_at by blast
  then show ?thesis using assms Some by (cases "f l") (auto simp: ensure_at_def split: if_splits)
qed (use assms in \<open>auto simp: ensure_at_def\<close>)

lemma rearrange_inv:
  assumes "layouts_inv m" "rearrange before c m = Inr m'"
  shows "layouts_inv m'"
proof (cases c)
  case (SwapPanes sid a b)
  with assms show ?thesis
    by (auto split: option.splits if_splits intro!: edit_at_inv layout_swap_inv layout_replace_inv)
next
  case (MovePane sid a b d)
  with assms show ?thesis
    by (auto simp del: prod.inject split: option.splits if_splits
        intro: ensure_at_inv [OF _ move_beside_inv]
          ensure_at_inv [OF edit_at_inv [OF _ remove_pane_inv] insert_beside_inv])
next
  case (MergeWindows sid a b)
  with assms show ?thesis
    by (auto simp: Let_def split: option.splits intro: ensure_at_inv [OF _ layout_merge_inv] layouts_inv_at)
qed (use assms in auto)

lemma reconcile_for_inv: "layout_inv l \<Longrightarrow> layout_inv (reconcile_for before c this ids l)"
  by (cases c)
    (auto simp: reconcile_split_def reconcile_def reconcile_spec set_focus_inv split: option.splits)

section \<open>Every window ends with a layout of its panes\<close>

definition shown_ids :: "mux_window \<Rightarrow> string list" where
  "shown_ids w = List.map_filter an_pane_id (mw_panes w)"

definition shows_panes :: "string list \<Rightarrow> mux_pane_layout option \<Rightarrow> bool" where
  "shows_panes ids lo \<longleftrightarrow> (\<exists>l. lo = Some l \<and> canonical l \<and> mset (leaves l) = mset ids)"

lemma layout_window_spec:
  assumes inv: "layouts_inv (fst st)" and w: "pred_option valid_layout (mw_layout w)"
    and ids: "distinct (shown_ids w)" and res: "layout_window before c se w st = Inr st'"
  shows "layouts_inv (fst st')"
    "shown_ids w \<noteq> [] \<Longrightarrow> shows_panes (shown_ids w) (snd st' (ms_id se, mw_id w))"
    "k \<noteq> (ms_id se, mw_id w) \<Longrightarrow> snd st' k = snd st k"
proof -
  let ?k = "(ms_id se, mw_id w)"
  have "layouts_inv (fst st') \<and> (shown_ids w \<noteq> [] \<longrightarrow> shows_panes (shown_ids w) (snd st' ?k))
      \<and> (k \<noteq> ?k \<longrightarrow> snd st' k = snd st k)"
  proof (cases "shown_ids w")
    case Nil
    then show ?thesis using res inv by (simp add: layout_window_def shown_ids_def)
  next
    case (Cons f rest)
    define l0 where "l0 = (case fst st ?k of Some l \<Rightarrow> l
      | None \<Rightarrow> (case Option.bind (mw_layout w) from_mux_layout of Some l \<Rightarrow> l | None \<Rightarrow> single f))"
    define l1 where "l1 = reconcile_for before c (ms_id se) (f # rest) l0"
    have "layout_inv l0"
      using inv w window_layout_inv layouts_inv_at [OF inv, of ?k]
      by (auto simp: l0_def single_inv split: option.splits)
    then have l1: "layout_inv l1" unfolding l1_def by (rule reconcile_for_inv)
    have perm: "length (panes l1) = length (shown_ids w)" "set (shown_ids w) \<subseteq> set (panes l1)"
      using res Cons
      by (auto simp: layout_window_def Let_def list_all_iff simp flip: l0_def l1_def shown_ids_def split: if_splits)
    have st': "st' = ((fst st)(?k := None), (snd st)(?k \<mapsto> snapshot_layout
        (case an_pane_id (mw_anchor w) of None \<Rightarrow> l1 | Some f \<Rightarrow> snd (set_focus l1 f))))"
      using res Cons unfolding l1_def
      by (auto simp: layout_window_def Let_def simp flip: l0_def shown_ids_def split: if_splits)
    have "mset (panes l1) = mset (shown_ids w)" using mset_permutation_of_subset [OF ids perm] .
    moreover have "pl_root (snd (set_focus l1 x)) = pl_root l1" for x by (simp add: set_focus_def)
    ultimately have "shows_panes (shown_ids w) (snd st' ?k)"
      using l1 by (auto simp: st' shows_panes_def snapshot_layout_def layout_inv_def panes_def split: option.splits)
    then show ?thesis using inv by (auto simp: st')
  qed
  then show "layouts_inv (fst st')"
    "shown_ids w \<noteq> [] \<Longrightarrow> shows_panes (shown_ids w) (snd st' ?k)"
    "k \<noteq> ?k \<Longrightarrow> snd st' k = snd st k" by blast+
qed

definition window_ready :: "mux_window \<Rightarrow> bool" where
  "window_ready w \<longleftrightarrow> pred_option valid_layout (mw_layout w) \<and> distinct (shown_ids w) \<and> shown_ids w \<noteq> []"

lemma layout_windows_spec:
  assumes "layouts_inv (fst st)" "list_all window_ready ws" "distinct (map mw_id ws)"
    and "layout_windows before c se ws st = Inr st'"
  shows "layouts_inv (fst st')
    \<and> (\<forall>w \<in> set ws. shows_panes (shown_ids w) (snd st' (ms_id se, mw_id w)))
    \<and> (\<forall>k. k \<notin> (\<lambda>w. (ms_id se, mw_id w)) ` set ws \<longrightarrow> snd st' k = snd st k)"
  using assms
proof (induction ws arbitrary: st)
  case (Cons w ws)
  then obtain mid where mid: "layout_window before c se w st = Inr mid"
    "layout_windows before c se ws mid = Inr st'" by (auto split: sum.splits)
  have w: "pred_option valid_layout (mw_layout w)" "distinct (shown_ids w)" "shown_ids w \<noteq> []"
    using Cons.prems(2) by (simp_all add: window_ready_def)
  note S = layout_window_spec [OF Cons.prems(1) w(1,2) mid(1)]
  have IH: "layouts_inv (fst st')"
    "\<forall>w \<in> set ws. shows_panes (shown_ids w) (snd st' (ms_id se, mw_id w))"
    "\<forall>k. k \<notin> (\<lambda>w. (ms_id se, mw_id w)) ` set ws \<longrightarrow> snd st' k = snd mid k"
    using Cons.IH [OF S(1) _ _ mid(2)] Cons.prems(2,3) by simp_all
  have "snd st' (ms_id se, mw_id w) = snd mid (ms_id se, mw_id w)"
    using IH(3) Cons.prems(3) by (auto simp: image_iff)
  then show ?case using IH S(2) [OF w(3)] S(3) by (auto simp: image_iff)
qed simp

lemma layout_sessions_spec:
  assumes "layouts_inv (fst st)" "distinct (map ms_id ses)"
    and "\<forall>se \<in> set ses. list_all window_ready (ms_windows se) \<and> distinct (map mw_id (ms_windows se))"
    and "layout_sessions before c ses st = Inr st'"
  shows "(\<forall>se \<in> set ses. \<forall>w \<in> set (ms_windows se). shows_panes (shown_ids w) (snd st' (ms_id se, mw_id w)))
    \<and> (\<forall>sid wid. sid \<notin> ms_id ` set ses \<longrightarrow> snd st' (sid, wid) = snd st (sid, wid))"
  using assms
proof (induction ses arbitrary: st)
  case (Cons se ses)
  then obtain mid where mid: "layout_windows before c se (ms_windows se) st = Inr mid"
    "layout_sessions before c ses mid = Inr st'" by (auto split: sum.splits)
  have S: "layouts_inv (fst mid)"
    "\<forall>w \<in> set (ms_windows se). shows_panes (shown_ids w) (snd mid (ms_id se, mw_id w))"
    "\<forall>k. k \<notin> (\<lambda>w. (ms_id se, mw_id w)) ` set (ms_windows se) \<longrightarrow> snd mid k = snd st k"
    using layout_windows_spec [OF Cons.prems(1) _ _ mid(1)] Cons.prems(3) by simp_all
  have IH: "\<forall>se \<in> set ses. \<forall>w \<in> set (ms_windows se). shows_panes (shown_ids w) (snd st' (ms_id se, mw_id w))"
    "\<forall>sid wid. sid \<notin> ms_id ` set ses \<longrightarrow> snd st' (sid, wid) = snd mid (sid, wid)"
    using Cons.IH [OF S(1) _ _ mid(2)] Cons.prems(2,3) by simp_all
  have "snd st' (ms_id se, wid) = snd mid (ms_id se, wid)" for wid
    using IH(2) Cons.prems(2) by simp
  then show ?case using IH S(2,3) by (auto simp: image_iff)
qed simp

section \<open>Executing a command\<close>

text \<open>The invariant between commands: every window has a layout that shows exactly its panes.\<close>

definition layouts_full :: "native_mux_state \<Rightarrow> bool" where
  "layouts_full s \<longleftrightarrow>
     (\<forall>se \<in> set (nm_sessions s). \<forall>w \<in> set (ns_windows se). shows_panes (window_pane_ids w) (nw_layout w))"

definition server_inv :: "native_mux_state \<Rightarrow> bool" where
  "server_inv s \<longleftrightarrow> native_wf s \<and> layouts_full s"

lemma layouts_full_ok: "layouts_full s \<Longrightarrow> layouts_ok s"
  by (fastforce simp: layouts_full_def layouts_ok_def window_layout_ok_def shows_panes_def
      dest: canonical_valid split: option.splits)

lemma shown_ids_snapshot: "shown_ids (snapshot_window a se w) = window_pane_ids w"
proof -
  have "List.map_filter an_pane_id (map (anchor_for_pane sid) ps) = map np_id ps" for sid ps
    by (induction ps) (simp_all add: map_filter_simps anchor_for_pane_def anchor_for_optional_pane_def)
  then show ?thesis by (simp add: shown_ids_def snapshot_window_def window_pane_ids_def)
qed

lemma snapshot_simps [simp]:
  "ms_id (snapshot_session s se) = ns_id se"
  "ms_windows (snapshot_session s se) = map (snapshot_window (ns_id se = nm_active_session_id s) se) (ns_windows se)"
  "mw_id (snapshot_window a se w) = nw_id w"
  "mw_layout (snapshot_window a se w) = nw_layout w"
  "sn_sessions (snapshot s) = map (snapshot_session s) (nm_sessions s)"
  by (simp_all add: snapshot_session_def snapshot_window_def snapshot_def Let_def)

lemma session_wf_distinct:
  assumes "session_wf se" "w \<in> set (ns_windows se)"
  shows "distinct (window_pane_ids w)" "window_pane_ids w \<noteq> []" "pred_option valid_layout (nw_layout w)"
proof -
  obtain ys zs where ws: "ns_windows se = ys @ w # zs" using split_list [OF assms(2)] by blast
  then show "distinct (window_pane_ids w)" "window_pane_ids w \<noteq> []" "pred_option valid_layout (nw_layout w)"
    using session_wfD(1) [OF assms(1)] by (auto simp: windows_wf_def window_wf_def)
qed

lemma updated_layouts_spec:
  assumes wf: "native_wf s" "native_wf s1" and res: "updated_layouts (snapshot s) (snapshot s1) c = Inr m"
    and se: "se \<in> set (nm_sessions s1)" and w: "w \<in> set (ns_windows se)"
  shows "shows_panes (window_pane_ids w) (m (ns_id se, nw_id w))"
proof -
  obtain m0 m1 where m0: "rearrange (snapshot s) c (collect_layouts (snapshot s)) = Inr m0"
    and m1: "layout_sessions (snapshot s) c (sn_sessions (snapshot s1)) (m0, Map.empty) = Inr (m1, m)"
    using res by (auto simp: updated_layouts_def split: sum.splits prod.splits)
  have "layouts_inv m0" using rearrange_inv [OF collect_layouts_inv [OF snapshot_valid [OF wf(1)]] m0] .
  moreover have "distinct (map ms_id (sn_sessions (snapshot s1)))"
    using wf(2) by (simp add: native_wf_def comp_def)
  moreover have "list_all window_ready (ms_windows x) \<and> distinct (map mw_id (ms_windows x))"
    if x: "x \<in> set (sn_sessions (snapshot s1))" for x
  proof -
    obtain y where y: "y \<in> set (nm_sessions s1)" "x = snapshot_session s1 y" using x by auto
    then have "session_wf y" using wf(2) by (simp add: native_wf_def list_all_iff)
    then show ?thesis
      using session_wf_distinct y(2)
      by (auto simp: window_ready_def list_all_iff shown_ids_snapshot comp_def session_wf_def windows_wf_def)
  qed
  ultimately have all: "\<forall>x \<in> set (sn_sessions (snapshot s1)). \<forall>v \<in> set (ms_windows x).
      shows_panes (shown_ids v) (m (ms_id x, mw_id v))"
    using layout_sessions_spec [OF _ _ _ m1] by simp
  then show ?thesis using se w by (auto simp: shown_ids_snapshot)
qed

lemma assign_layouts_step:
  assumes wf: "native_wf s"
    and ok: "\<And>se w. se \<in> set (nm_sessions s) \<Longrightarrow> w \<in> set (ns_windows se) \<Longrightarrow>
      shows_panes (window_pane_ids w) (m (ns_id se, nw_id w))"
  shows "native_step s (assign_layouts m s)" "layouts_full (assign_layouts m s)"
proof -
  let ?f = "\<lambda>se. se\<lparr>ns_windows := map (\<lambda>w. w\<lparr>nw_layout := m (ns_id se, nw_id w)\<rparr>) (ns_windows se)\<rparr>"
  have ids: "session_pane_ids (?f se) = session_pane_ids se" for se
    by (simp add: session_pane_ids_def windows_pane_ids_def comp_def)
  have "session_wf (?f se)" if se: "se \<in> set (nm_sessions s)" for se
  proof -
    have "session_wf se" using wf se by (simp add: native_wf_def list_all_iff)
    moreover have "list_all window_wf (ns_windows (?f se))"
      using ok [OF se] session_wfD(1) [OF \<open>session_wf se\<close>]
      by (fastforce simp: list_all_iff windows_wf_def window_wf_def shows_panes_def dest: canonical_valid)
    ultimately show ?thesis
      using ids [of se] by (simp add: session_wf_def windows_wf_def session_pane_ids_def comp_def)
  qed
  then show "native_step s (assign_layouts m s)"
    unfolding assign_layouts_def
    by (intro native_step_sessions [OF wf]) (simp_all add: comp_def ids list_all_iff)
  show "layouts_full (assign_layouts m s)"
    using ok by (auto simp: layouts_full_def assign_layouts_def)
qed

lemma execute_layouts_spec:
  assumes inv: "server_inv s" and c: "command_valid c" and res: "execute_layouts env c s = (r, s1)"
  shows "native_step s s1" "r = Inr () \<Longrightarrow> layouts_full s1"
proof -
  have wf: "native_wf s" and lay: "layouts_ok s"
    using inv by (simp_all add: server_inv_def layouts_full_ok)
  obtain q t where t: "execute_topology env c s = (q, t)" by (cases "execute_topology env c s")
  have step: "native_step s t" using execute_topology_step [OF wf lay c t] .
  have "native_step s s1 \<and> (r = Inr () \<longrightarrow> layouts_full s1)"
  proof (cases "\<exists>m. q = Inr () \<and> updated_layouts (snapshot s) (snapshot t) c = Inr m")
    case False
    then have "s1 = t" "r \<noteq> Inr ()" using res t by (auto simp: execute_layouts_def split: sum.splits)
    then show ?thesis using step by simp
  next
    case True
    then obtain m where m: "q = Inr ()" "updated_layouts (snapshot s) (snapshot t) c = Inr m" by blast
    then have s1: "s1 = assign_layouts m t" using res t by (simp add: execute_layouts_def)
    note A = assign_layouts_step [OF native_stepD [OF step] updated_layouts_spec [OF wf native_stepD [OF step] m(2)]]
    show ?thesis unfolding s1 using native_step_trans [OF step A(1)] A(2) by simp
  qed
  then show "native_step s s1" "r = Inr () \<Longrightarrow> layouts_full s1" by simp_all
qed

lemma set_layout_full:
  assumes wf: "native_wf s" and full: "layouts_full s" and l: "valid_layout l"
    and res: "set_layout s sid wid l = (r, s1)"
  shows "layouts_full s1"
proof (cases "r = Inr ()")
  case False
  then have "s1 = s" using res by (auto simp: set_layout_def Let_def split: option.splits if_splits)
  then show ?thesis using full by simp
next
  case True
  then obtain w q where w: "window_mut s sid wid = Some w" and q: "from_mux_layout l = Some q"
    and len: "length (panes q) = length (window_pane_ids w)" "set (window_pane_ids w) \<subseteq> set (panes q)"
    and s1: "s1 = write_window sid wid (w\<lparr>nw_layout := Some (snapshot_layout q)\<rparr>) s"
    using res
    by (auto simp: set_layout_def Let_def list_all_iff window_pane_ids_def image_subset_iff split: option.splits if_splits)
  obtain se where se: "active_session_mut s sid = Some se" "find_window se wid = Some w"
    using w by (auto simp: window_mut_def split: option.splits)
  have mem: "se \<in> set (nm_sessions s)" "w \<in> set (ns_windows se)"
    using se by (auto simp: active_session_mut_def find_window_def dest: find_SomeD)
  have q': "layout_inv q" using from_mux_layout_spec [OF l q] by simp
  have "distinct (window_pane_ids w)"
    using find_window_wf native_wf_session [OF wf se(1)] se(2) by blast
  then have "mset (panes q) = mset (window_pane_ids w)" using len by (rule mset_permutation_of_subset)
  then have "shows_panes (window_pane_ids w) (Some (snapshot_layout q))"
    using q' by (simp add: shows_panes_def snapshot_layout_def layout_inv_def panes_def)
  then show ?thesis
    using full mem set_update_first_subset
    by (fastforce simp: s1 write_window_def se layouts_full_def put_window_def dest!: set_put_session)
qed

lemma resize_panes_spec:
  assumes inv: "server_inv s" and l: "valid_layout l" and res: "resize_panes sid wid l s = (r, s1)"
  shows "native_step s s1" "layouts_full s1"
proof -
  have wf: "native_wf s" and full: "layouts_full s" using inv by (simp_all add: server_inv_def)
  have "native_step s s1 \<and> layouts_full s1"
  proof (cases "\<exists>w current resized. window_mut s sid wid = Some w
      \<and> Option.bind (nw_layout w) from_mux_layout = Some current \<and> resize current l = (True, resized)")
    case False
    then have "s1 = s"
      using res by (auto simp: resize_panes_def split: option.splits prod.splits bool.splits)
    then show ?thesis using wf full by simp
  next
    case True
    then obtain w current resized where w: "window_mut s sid wid = Some w"
      and cur: "Option.bind (nw_layout w) from_mux_layout = Some current"
      and rs: "resize current l = (True, resized)" by blast
    have set: "set_layout s sid wid (snapshot_layout resized) = (r, s1)"
      using res w cur rs by (simp add: resize_panes_def)
    have "window_layout_ok w" using window_mut_layout [OF layouts_full_ok [OF full] w] .
    then have "layout_inv current"
      using cur from_mux_layout_spec by (auto simp: bind_eq_Some_conv window_layout_ok_def)
    then have "layout_inv resized" using resize_spec [OF _ l rs] by simp
    then have "valid_layout (snapshot_layout resized)"
      by (simp add: layout_inv_def snapshot_layout_def canonical_valid)
    then show ?thesis using set_layout_step [OF wf set] set_layout_full [OF wf full _ set] by simp
  qed
  then show "native_step s s1" "layouts_full s1" by simp_all
qed

lemma execute_spec:
  assumes "server_inv s" "command_valid c" "execute env c s = (r, s1)"
  shows "native_step s s1" "r = Inr () \<Longrightarrow> layouts_full s1"
proof -
  have "native_step s s1 \<and> (r = Inr () \<longrightarrow> layouts_full s1)"
  proof (cases "\<exists>sid wid l. c = ResizePanes sid wid l")
    case True
    then show ?thesis using assms resize_panes_spec by (auto simp: command_valid_def)
  next
    case False
    then have "execute env c s = execute_layouts env c s" by (cases c) auto
    then show ?thesis using assms execute_layouts_spec by metis
  qed
  then show "native_step s s1" "r = Inr () \<Longrightarrow> layouts_full s1" by simp_all
qed

lemma native_pane_ids_assign [simp]: "native_pane_ids (assign_layouts m s) = native_pane_ids s"
  by (simp add: native_pane_ids_def assign_layouts_def session_pane_ids_def [abs_def] windows_pane_ids_def comp_def)

lemma execute_close_ids:
  assumes wf: "native_wf s" and se: "active_session_mut s sid = Some se" and p: "p \<in> set (session_pane_ids se)"
    and res: "execute env (ClosePane sid (Some p)) s = (r, s1)"
  shows "mset (native_pane_ids s) = add_mset p (mset (native_pane_ids s1))"
proof -
  obtain t where "close_pane s sid (Some p) True = (Inr (), t)"
    "mset (native_pane_ids s) = add_mset p (mset (native_pane_ids t))"
    using close_pane_exact [OF wf se p] by blast
  then show ?thesis using res by (auto simp: execute_layouts_def split: sum.splits)
qed

section \<open>Rearranging commands keep every pane\<close>

lemma in_session_ids:
  assumes wf: "native_wf s" and res: "in_session sid f s = (r, s1)"
    and f: "\<And>se r se1. session_wf se \<Longrightarrow> f se = (r, se1) \<Longrightarrow> rearranged se se1"
  shows "mset (native_pane_ids s1) = mset (native_pane_ids s)"
proof (cases "active_session_mut s sid")
  case None
  then show ?thesis using res by (simp add: in_session_def)
next
  case (Some se)
  obtain q se1 where q: "f se = (q, se1)" by (cases "f se")
  obtain others where others: "mset (native_pane_ids s) = mset (session_pane_ids se) + others"
    "\<And>se1. mset (native_pane_ids (put_session sid se1 s)) = mset (session_pane_ids se1) + others"
    using native_ids_put [OF Some] by blast
  have "mset (session_pane_ids se1) = mset (session_pane_ids se)"
    using f [OF _ q] native_wf_session [OF wf Some] by (simp add: rearranged_def)
  moreover have "native_pane_ids s1 = native_pane_ids (put_session sid se1 s)"
    using res Some q by (auto simp: in_session_def native_pane_ids_def split: sum.splits)
  ultimately show ?thesis using others by simp
qed

lemmas rearrange_ids =
  in_session_ids [OF _ _ merge_in_session_ok]
  in_session_ids [OF _ _ swap_in_session_ok]
  in_session_ids [OF _ _ move_in_session_ok]
  in_session_ids [OF _ _ extract_in_session_ok]

definition rearranges :: "mux_command \<Rightarrow> bool" where
  "rearranges c = (case c of
       MergeWindows _ _ _ \<Rightarrow> True | SwapPanes _ _ _ \<Rightarrow> True | MovePane _ _ _ _ \<Rightarrow> True
     | ExtractPane _ _ \<Rightarrow> True | _ \<Rightarrow> False)"

lemma execute_pane_command_ids:
  assumes "native_wf s" "rearranges c" "execute_pane_command c s = (r, s1)"
  shows "mset (native_pane_ids s1) = mset (native_pane_ids s)"
  using assms by (cases c) (auto simp: rearranges_def session_rearrangements intro: rearrange_ids)

lemma execute_rearranges:
  assumes "rearranges c"
  shows "execute env c s = execute_layouts env c s" "execute_topology env c s = execute_pane_command c s"
  using assms by (cases c; simp add: rearranges_def)+

lemma execute_layouts_ids:
  assumes "execute_layouts env c s = (r, s1)"
  shows "\<exists>q t. execute_topology env c s = (q, t) \<and> native_pane_ids s1 = native_pane_ids t"
  using assms by (auto simp: execute_layouts_def split: prod.splits sum.splits)

section \<open>Runs of commands\<close>

text \<open>
  The effect of a command on the server: the topology is cloned, the command runs on the clone, and
  the clone replaces the topology only when the command succeeded (\<^verbatim>\<open>prepare_topology\<close>).
\<close>

definition committed :: "env \<Rightarrow> mux_command \<Rightarrow> native_mux_state \<Rightarrow> native_mux_state" where
  "committed env c s = (case execute env c s of (Inr _, s1) \<Rightarrow> s1 | (Inl _, _) \<Rightarrow> s)"

lemma committed_step:
  assumes "server_inv s" "command_valid c"
  shows "server_inv (committed env c s) \<and> native_step s (committed env c s)"
proof (cases "execute env c s")
  case (Pair r s1)
  from execute_spec [OF assms Pair] Pair assms(1) show ?thesis
    by (cases r) (auto simp: committed_def server_inv_def dest: native_stepD)
qed

interpretation server: invariant_machine "committed env" "\<lambda>s. server_inv s \<and> native_step s0 s" command_valid
  for env s0
proof unfold_locales
  fix s c assume "server_inv s \<and> native_step s0 s" "command_valid c"
  with committed_step [of s c env] native_step_trans [of s0 s]
  show "server_inv (committed env c s) \<and> native_step s0 (committed env c s)" by blast
qed

section \<open>A server with one session\<close>

definition no_env :: env where "no_env = (\<lambda>_. None)"

definition no_tag :: mux_session_tag where "no_tag = \<lparr>tag_identity = None, tag_space = None\<rparr>"

definition create_sample :: mux_command where
  "create_sample = CreateProjectSession ''s'' ''/'' no_tag None"

definition one_session :: native_mux_state where
  "one_session =
     \<lparr>nm_active_session_id = ''s'',
      nm_sessions = [\<lparr>ns_next_window = 2, ns_id = ''s'', ns_name = ''s'', ns_active_window_id = ''tab-1'',
        ns_windows = [\<lparr>nw_id = ''tab-1'', nw_index = 1, nw_name = ''shell'', nw_custom_name = False,
          nw_active_pane_id = pane_id 0 1, nw_panes = [\<lparr>np_id = pane_id 0 1, np_cwd = ''/''\<rparr>],
          nw_layout = Some (Pane (pane_id 0 1))\<rparr>],
        ns_tag = no_tag\<rparr>],
      nm_next_pane = 2, nm_generation = 0\<rparr>"

lemma new_state_inv: "server_inv (new_state gen)"
  by (simp add: server_inv_def layouts_full_def native_wf_def new_state_def native_pane_ids_def)

lemma create_sample_runs: "execute no_env create_sample (new_state 0) = (Inr (), one_session)"
  by (simp add: create_sample_def one_session_def new_state_def execute_layouts_def ensure_session_def
      active_session_mut_def next_pane_id_def checked_add_def updated_layouts_def collect_layouts_def
      default_window_name_def no_env_def assign_layouts_def snapshot_def snapshot_session_def
      snapshot_window_def anchor_for_window_def anchor_for_pane_def anchor_for_optional_pane_def
      layout_window_def reconcile_def reconcile_with_new_pane_direction_def single_def panes_def
      remove_dead_def split_missing_def layout_contains_def set_focus_def snapshot_layout_def
      List.map_filter_def Let_def)

lemma create_sample_valid: "command_valid create_sample"
  by (simp add: command_valid_def create_sample_def)

section \<open>Properties\<close>

text \<open>
  C1.  Executing any command on a well-formed server.  Whatever the outcome, the topology stays
  well-formed (unique sessions, windows and panes, existing active session, window and pane,
  window numbers 1..n), and pane identities are only ever taken fresh from the counter; when the
  command succeeds, every window also has a canonical layout that shows each of its panes exactly
  once.
\<close>

theorem execute_correct:
  assumes "server_inv s" "command_valid c" "execute env c s = (r, s1)"
  shows "native_step s s1 \<and> (r = Inr () \<longrightarrow> server_inv s1)"
  using execute_spec [OF assms] by (simp add: server_inv_def native_step_def)

theorem execute_correct_witness:
  "execute no_env create_sample (new_state 0) = (Inr (), one_session) \<and> server_inv one_session"
  using execute_correct [OF new_state_inv create_sample_valid create_sample_runs] create_sample_runs by simp

text \<open>
  C3.  Every run of commands from a well-formed server, failed ones included, ends in a well-formed
  server whose layouts show exactly the panes of their windows; the pane counter never goes back
  and every pane is an old one or numbered from the counter's value at the start, so the identity
  of a closed pane is never given to another.
\<close>

theorem command_runs:
  assumes "server_inv s" "list_all command_valid cs"
  shows "server_inv (fold (committed env) cs s) \<and> native_step s (fold (committed env) cs s)"
proof -
  have "native_step s s" using assms(1) by (simp add: server_inv_def)
  then show ?thesis using server.run_inv [of s s cs env] assms by blast
qed

theorem command_runs_witness:
  "server_inv (fold (committed no_env) [create_sample, ClosePane ''s'' None, DitchSession ''x''] (new_state 0))"
  using command_runs [OF new_state_inv, of "[create_sample, ClosePane ''s'' None, DitchSession ''x'']" no_env]
  by (simp add: command_valid_def create_sample_def)

text \<open>
  C19.  Closing a pane of a session removes exactly that pane from the server, whichever window or
  session goes with it.
\<close>

theorem close_pane_removes_exactly:
  assumes "native_wf s" "active_session_mut s sid = Some se" "p \<in> set (session_pane_ids se)"
    and "execute env (ClosePane sid (Some p)) s = (r, s1)"
  shows "mset (native_pane_ids s) = add_mset p (mset (native_pane_ids s1))"
  using assms by (rule execute_close_ids)

lemma one_session_wf: "native_wf one_session"
  using execute_spec(1) [OF new_state_inv create_sample_valid create_sample_runs] by (rule native_stepD)

theorem close_pane_removes_exactly_witness:
  "native_pane_ids (snd (execute no_env (ClosePane ''s'' (Some (pane_id 0 1))) one_session)) = []"
proof -
  obtain r s1 where run: "execute no_env (ClosePane ''s'' (Some (pane_id 0 1))) one_session = (r, s1)"
    by (cases "execute no_env (ClosePane ''s'' (Some (pane_id 0 1))) one_session")
  have se: "active_session_mut one_session ''s'' = Some (hd (nm_sessions one_session))"
    by (simp add: active_session_mut_def one_session_def)
  have ids: "session_pane_ids (hd (nm_sessions one_session)) = [pane_id 0 1]"
    "native_pane_ids one_session = [pane_id 0 1]"
    by (simp_all add: one_session_def native_pane_ids_def session_pane_ids_def window_pane_ids_def)
  from close_pane_removes_exactly [OF one_session_wf se _ run] show ?thesis
    unfolding run ids by simp
qed

text \<open>
  C20.  Merging windows, swapping panes, moving a pane and extracting a pane into a window of its own
  rearrange the panes of the server: none is lost, duplicated or created, also when the command
  fails half way.
\<close>

theorem rearranging_conserves_panes:
  assumes "native_wf s" "rearranges c" "execute env c s = (r, s1)"
  shows "mset (native_pane_ids s1) = mset (native_pane_ids s)"
proof -
  obtain q t where "execute_pane_command c s = (q, t)" "native_pane_ids s1 = native_pane_ids t"
    using execute_layouts_ids [OF assms(3) [unfolded execute_rearranges(1) [OF assms(2)]]]
    unfolding execute_rearranges(2) [OF assms(2)] by blast
  then show ?thesis using execute_pane_command_ids [OF assms(1,2), of q t] by simp
qed

theorem rearranging_conserves_panes_witness:
  "mset (native_pane_ids (snd (execute no_env (ExtractPane ''s'' (pane_id 0 1)) one_session))) = {# pane_id 0 1 #}"
proof -
  obtain r s1 where run: "execute no_env (ExtractPane ''s'' (pane_id 0 1)) one_session = (r, s1)"
    by (cases "execute no_env (ExtractPane ''s'' (pane_id 0 1)) one_session")
  have "native_pane_ids one_session = [pane_id 0 1]"
    by (simp add: one_session_def native_pane_ids_def session_pane_ids_def window_pane_ids_def)
  with rearranging_conserves_panes [OF one_session_wf _ run] show ?thesis
    unfolding run by (simp add: rearranges_def)
qed

text \<open>
  The layouts computed after a command: whenever \<^verbatim>\<open>updated_layouts\<close> answers, every window of
  the new topology has a canonical layout whose panes are exactly the panes of the window.
\<close>

lemma updated_layouts_complete:
  assumes "native_wf s" "native_wf s1" "updated_layouts (snapshot s) (snapshot s1) c = Inr m"
    and "se \<in> set (nm_sessions s1)" "w \<in> set (ns_windows se)"
  shows "\<exists>l. m (ns_id se, nw_id w) = Some l \<and> canonical l \<and> mset (leaves l) = mset (window_pane_ids w)"
  using updated_layouts_spec [OF assms] by (simp add: shows_panes_def)

end
