(* ===== verification/Mux_Server.thy ===== *)
theory Mux_Server
  imports Native_Layout
begin

text \<open>
  \<^verbatim>\<open>crates/bootty-mux/src/native/server.rs\<close>: one workspace of the multiplexer server and the
  transactions on it.  A topology command reserves the workspace under the lock, launches the new
  panes without the lock, installs the prepared state under the lock and is then committed or
  aborted; pane exits, layout edits, title publications and respawns interleave with it.

  Every critical section of the server's mutex is one definition, and \<open>ws_step\<close> is the relation
  whose steps are these sections in any order, by any client.  The local variables of a
  \<^verbatim>\<open>prepare\<close> call that runs outside the lock are the field \<open>ws_staging\<close>.  Starting a pane process
  (\<^verbatim>\<open>Pane::spawn\<close>) is the parameter \<open>spawn\<close>; subscriber channels, configuration and the wire are
  not part of the state.
\<close>

record server_pane =
  pn_generation :: nat
  pn_title :: "string option"

record terminal_geometry =
  tg_cols :: nat
  tg_rows :: nat
  tg_cell_width :: nat
  tg_cell_height :: nat

definition DEFAULT_SIZE :: terminal_geometry where
  "DEFAULT_SIZE = \<lparr>tg_cols = 100, tg_rows = 30, tg_cell_width = 10, tg_cell_height = 22\<rparr>"

type_synonym pane_map = "string \<rightharpoonup> server_pane"

record workspace =
  ws_topology :: native_mux_state
  ws_panes :: pane_map
  ws_generation :: nat
  ws_revision :: nat
  ws_reservation :: "nat option"
  ws_prepared :: "(native_mux_state \<times> pane_map) option"
  ws_staging :: "nat \<rightharpoonup> native_mux_state \<times> string set"

definition new_workspace :: "nat \<Rightarrow> workspace" where
  "new_workspace gen =
     \<lparr>ws_topology = new_state gen, ws_panes = Map.empty, ws_generation = gen, ws_revision = 0,
      ws_reservation = None, ws_prepared = None, ws_staging = Map.empty\<rparr>"

section \<open>Preparing a topology\<close>

fun set_new_cwds :: "pane_map \<Rightarrow> string \<Rightarrow> mux_pane_anchor list \<Rightarrow> native_mux_state \<Rightarrow> native_mux_state res" where
  "set_new_cwds ps cwd [] s = Inr s"
| "set_new_cwds ps cwd (a # as) s =
     (case an_pane_id a of
        None \<Rightarrow> set_new_cwds ps cwd as s
      | Some i \<Rightarrow>
          if ps i \<noteq> None then set_new_cwds ps cwd as s
          else (case set_pane_cwd s i cwd of
                  (Inl e, _) \<Rightarrow> Inl e
                | (Inr _, s1) \<Rightarrow> set_new_cwds ps cwd as s1))"

definition snapshot_anchors :: "mux_snapshot \<Rightarrow> mux_pane_anchor list" where
  "snapshot_anchors sn = concat (map mw_panes (concat (map ms_windows (sn_sessions sn))))"

definition prepare_topology ::
  "env \<Rightarrow> workspace \<Rightarrow> mux_command \<Rightarrow> string option \<Rightarrow> native_mux_state res" where
  "prepare_topology env w c cwd =
     (case execute env c (ws_topology w) of
        (Inl e, _) \<Rightarrow> Inl e
      | (Inr _, next) \<Rightarrow>
          (case cwd of
             None \<Rightarrow> Inr next
           | Some d \<Rightarrow> set_new_cwds (ws_panes w) d (snapshot_anchors (snapshot next)) next))"

text \<open>The pane whose directory seeds the new one, looked up before the reservation.\<close>

definition source_of :: "workspace \<Rightarrow> string \<Rightarrow> string option \<Rightarrow> (server_pane option) res" where
  "source_of w sid pid =
     (case source_pane_id (ws_topology w) sid pid of
        Inl e \<Rightarrow> Inl e
      | Inr i \<Rightarrow>
          (case ws_panes w i of
             None \<Rightarrow> Inl ''native pane unavailable''
           | Some p \<Rightarrow> Inr (Some p)))"

fun source_pane :: "workspace \<Rightarrow> mux_command \<Rightarrow> (server_pane option) res" where
  "source_pane w (SplitPane sid pid _) = source_of w sid pid"
| "source_pane w (CreatePane sid pid _ None _) = source_of w sid pid"
| "source_pane w _ = Inr None"

section \<open>Publication\<close>

record topology_snapshot =
  ts_generation :: nat
  ts_revision :: nat
  ts_snapshot :: mux_snapshot

definition title_window :: "workspace \<Rightarrow> string \<Rightarrow> mux_window \<Rightarrow> mux_window" where
  "title_window w sid x =
     (if window_has_custom_name (ws_topology w) sid (mw_id x) then x
      else (case Option.bind (Option.bind (an_pane_id (mw_anchor x)) (ws_panes w)) pn_title of
              None \<Rightarrow> x
            | Some t \<Rightarrow> x\<lparr>mw_name := t\<rparr>))"

definition workspace_snapshot :: "workspace \<Rightarrow> topology_snapshot" where
  "workspace_snapshot w =
     (let sn = snapshot (ws_topology w)
      in \<lparr>ts_generation = ws_generation w, ts_revision = ws_revision w,
          ts_snapshot = sn\<lparr>sn_sessions :=
            map (\<lambda>se. se\<lparr>ms_windows := map (title_window w (ms_id se)) (ms_windows se)\<rparr>)
              (sn_sessions sn)\<rparr>\<rparr>)"

definition publish :: "workspace \<Rightarrow> topology_snapshot res \<times> workspace" where
  "publish w =
     (case checked_add 64 (ws_revision w) 1 of
        None \<Rightarrow> (Inl ''native topology revision exhausted'', w)
      | Some r \<Rightarrow> (let w1 = w\<lparr>ws_revision := r\<rparr> in (Inr (workspace_snapshot w1), w1)))"

section \<open>The transaction\<close>

text \<open>
  The locked part of \<^verbatim>\<open>prepare\<close>: \<open>seen\<close> is the revision read with the source directory.  The
  answer says whether the workspace was reserved.
\<close>

definition reserve ::
  "env \<Rightarrow> workspace \<Rightarrow> mux_command \<Rightarrow> string option \<Rightarrow> nat \<Rightarrow> nat \<Rightarrow> bool res \<times> workspace" where
  "reserve env w c cwd seen client =
     (if ws_reservation w \<noteq> None \<or> ws_revision w \<noteq> seen then (Inr False, w)
      else (case prepare_topology env w c cwd of
              Inl e \<Rightarrow> (Inl e, w)
            | Inr next \<Rightarrow>
                (Inr True, w\<lparr>ws_reservation := Some client,
                             ws_staging := (ws_staging w)(client \<mapsto> (next, dom (ws_panes w)))\<rparr>)))"

fun command_argv :: "mux_command \<Rightarrow> string list" where
  "command_argv (CreateProjectSession _ _ _ argv) = (case argv of None \<Rightarrow> [] | Some a \<Rightarrow> a)"
| "command_argv (NewWindow _ _ argv) = (case argv of None \<Rightarrow> [] | Some a \<Rightarrow> a)"
| "command_argv (CreatePane _ _ _ _ argv) = argv"
| "command_argv _ = []"

record pane_launch =
  la_id :: string
  la_cwd :: "string option"
  la_argv :: "string list"
  la_size :: terminal_geometry
  la_history :: string

definition saved_pane :: "mux_command \<Rightarrow> nat \<Rightarrow> nat \<Rightarrow> saved_terminal_pane option" where
  "saved_pane c wi pi =
     (case c of
        RestoreSession _ _ snap \<Rightarrow>
          Option.bind (get_nth (ss_windows snap) wi) (\<lambda>w. get_nth (sw_panes w) pi)
      | _ \<Rightarrow> None)"

definition launch_for :: "mux_command \<Rightarrow> nat \<Rightarrow> nat \<Rightarrow> string \<Rightarrow> mux_pane_anchor \<Rightarrow> pane_launch res" where
  "launch_for c wi pi i a =
     (let saved = saved_pane c wi pi;
          size = (case saved of
                    None \<Rightarrow> DEFAULT_SIZE
                  | Some p \<Rightarrow>
                      if 0 < sp_cols p \<and> 0 < sp_rows p
                      then DEFAULT_SIZE\<lparr>tg_cols := sp_cols p, tg_rows := sp_rows p\<rparr>
                      else DEFAULT_SIZE)
      in case (case saved of None \<Rightarrow> Inr [] | Some p \<Rightarrow> styled_history_bytes (sp_text p)) of
           Inl e \<Rightarrow> Inl e
         | Inr history \<Rightarrow>
             Inr \<lparr>la_id = i, la_cwd = an_cwd a, la_argv = command_argv c, la_size = size,
                  la_history = history\<rparr>)"

text \<open>
  The launch loop over the panes of the prepared snapshot, with the indices of window and pane.
  A failed launch abandons the panes started so far.
\<close>

fun launch_panes ::
  "(pane_launch \<Rightarrow> server_pane res) \<Rightarrow> mux_command \<Rightarrow> string set \<Rightarrow> (nat \<times> nat \<times> mux_pane_anchor) list \<Rightarrow>
   pane_map \<Rightarrow> pane_map res" where
  "launch_panes spawn c existing [] m = Inr m"
| "launch_panes spawn c existing ((wi, pi, a) # rest) m =
     (case an_pane_id a of
        None \<Rightarrow> Inl ''native pane identity missing''
      | Some i \<Rightarrow>
          if i \<in> existing then launch_panes spawn c existing rest m
          else (case launch_for c wi pi i a of
                  Inl e \<Rightarrow> Inl e
                | Inr l \<Rightarrow>
                    (case spawn l of
                       Inl e \<Rightarrow> Inl e
                     | Inr p \<Rightarrow> launch_panes spawn c existing rest (m(i \<mapsto> p)))))"

definition indexed_anchors :: "mux_snapshot \<Rightarrow> (nat \<times> nat \<times> mux_pane_anchor) list" where
  "indexed_anchors sn =
     concat (map (\<lambda>se. concat (map (\<lambda>(wi, w). map (\<lambda>(pi, a). (wi, pi, a)) (enumerate 0 (mw_panes w)))
       (enumerate 0 (ms_windows se)))) (sn_sessions sn))"

definition install_prepared ::
  "workspace \<Rightarrow> nat \<Rightarrow> native_mux_state \<Rightarrow> pane_map \<Rightarrow> unit res \<times> workspace" where
  "install_prepared w client next added =
     (if ws_reservation w \<noteq> Some client then (Inl ''native topology changed during preparation'', w)
      else (Inr (), w\<lparr>ws_prepared := Some (next, added)\<rparr>))"

text \<open>\<^verbatim>\<open>Drop for StagedPanes\<close>: a preparation that did not install gives its reservation back.\<close>

definition drop_staged :: "workspace \<Rightarrow> nat \<Rightarrow> workspace" where
  "drop_staged w client =
     (if ws_reservation w = Some client then w\<lparr>ws_reservation := None\<rparr> else w)"

definition live_ids :: "mux_snapshot \<Rightarrow> string set" where
  "live_ids sn = set (List.map_filter an_pane_id (snapshot_anchors sn))"

definition commit :: "workspace \<Rightarrow> nat \<Rightarrow> topology_snapshot res \<times> workspace" where
  "commit w client =
     (if ws_reservation w \<noteq> Some client
      then (Inl ''native topology transaction is not owned by this client'', w)
      else (case ws_prepared w of
              None \<Rightarrow> (Inl ''native command not prepared'', w)
            | Some (next, added) \<Rightarrow>
                publish (w\<lparr>ws_prepared := None,
                           ws_panes := (ws_panes w |` live_ids (snapshot next)) ++ added,
                           ws_topology := next,
                           ws_reservation := None\<rparr>)))"

definition abort :: "workspace \<Rightarrow> nat \<Rightarrow> workspace" where
  "abort w client =
     (if ws_reservation w = Some client then w\<lparr>ws_prepared := None, ws_reservation := None\<rparr> else w)"

section \<open>Operations outside transactions\<close>

text \<open>
  \<^verbatim>\<open>pane_exited\<close> once the workspace is not reserved.  The first component is \<open>None\<close> when the event
  is stale and nothing happens.
\<close>

definition pane_exited ::
  "env \<Rightarrow> workspace \<Rightarrow> string \<Rightarrow> nat \<Rightarrow> (topology_snapshot option) res \<times> workspace" where
  "pane_exited env w pane gen =
     (if (case ws_panes w pane of None \<Rightarrow> True | Some p \<Rightarrow> pn_generation p \<noteq> gen) then (Inr None, w)
      else
        (case find (\<lambda>s. list_ex (\<lambda>x. list_ex (\<lambda>a. an_pane_id a = Some pane) (mw_panes x)) (ms_windows s))
                (sn_sessions (snapshot (ws_topology w))) of
           None \<Rightarrow> (Inr None, w)
         | Some se \<Rightarrow>
             (case execute env (ClosePane (ms_id se) (Some pane)) (ws_topology w) of
                (Inl e, s1) \<Rightarrow> (Inl e, w\<lparr>ws_topology := s1\<rparr>)
              | (Inr _, s1) \<Rightarrow>
                  (case publish (w\<lparr>ws_topology := s1, ws_panes := (ws_panes w)(pane := None)\<rparr>) of
                     (Inl e, w1) \<Rightarrow> (Inl e, w1)
                   | (Inr sn, w1) \<Rightarrow> (Inr (Some sn), w1)))))"

text \<open>\<^verbatim>\<open>Request::SetLayout\<close> once the workspace is not reserved.\<close>

definition request_set_layout ::
  "workspace \<Rightarrow> string \<Rightarrow> string \<Rightarrow> mux_pane_layout \<Rightarrow> unit res \<times> workspace" where
  "request_set_layout w sid wid l =
     (case set_layout (ws_topology w) sid wid l of
        (Inl e, s1) \<Rightarrow> (Inl e, w\<lparr>ws_topology := s1\<rparr>)
      | (Inr _, s1) \<Rightarrow>
          (case publish (w\<lparr>ws_topology := s1\<rparr>) of
             (Inl e, w1) \<Rightarrow> (Inl e, w1)
           | (Inr _, w1) \<Rightarrow> (Inr (), w1)))"

text \<open>The second locked section of \<^verbatim>\<open>respawn\<close>, after the pane restarted.\<close>

definition respawned ::
  "workspace \<Rightarrow> string \<Rightarrow> nat \<Rightarrow> string option \<Rightarrow> unit res \<times> workspace" where
  "respawned w pane gen cwd =
     (if (case ws_panes w pane of None \<Rightarrow> True | Some p \<Rightarrow> pn_generation p \<noteq> gen)
      then (Inl ''native pane closed during respawn'', w)
      else
        (case (case cwd of None \<Rightarrow> (Inr (), ws_topology w) | Some d \<Rightarrow> set_pane_cwd (ws_topology w) pane d) of
           (Inl e, s1) \<Rightarrow> (Inl e, w\<lparr>ws_topology := s1\<rparr>)
         | (Inr _, s1) \<Rightarrow>
             (case publish (w\<lparr>ws_topology := s1\<rparr>) of
                (Inl e, w1) \<Rightarrow> (Inl e, w1)
              | (Inr _, w1) \<Rightarrow> (Inr (), w1))))"

definition workspace_idle :: "workspace \<Rightarrow> bool" where
  "workspace_idle w = (sn_sessions (snapshot (ws_topology w)) = [])"

section \<open>Interleavings\<close>

text \<open>
  One step is one critical section.  A client starts a preparation only when it has none in
  flight: its requests are served one after the other, and its identity is not reused.  The label
  of a step is false when it is a pane exit that failed: \<^verbatim>\<open>pane_exited\<close> closes the pane in the
  topology first, and when the layouts cannot be computed it returns the error before it forgets
  the process.  The in-process host (\<^verbatim>\<open>native/memory.rs\<close>) ignores that error and serves on.
\<close>

inductive ws_event :: "env \<Rightarrow> (pane_launch \<Rightarrow> server_pane res) \<Rightarrow> bool \<Rightarrow> workspace \<Rightarrow> workspace \<Rightarrow> bool"
  for env spawn where
  step_reserve: "ws_staging w client = None \<Longrightarrow> command_valid c \<Longrightarrow>
     reserve env w c cwd seen client = (r, w1) \<Longrightarrow> ws_event env spawn True w w1"
| step_install: "ws_staging w client = Some (next, existing) \<Longrightarrow>
     launch_panes spawn c existing (indexed_anchors (snapshot next)) Map.empty = Inr added \<Longrightarrow>
     install_prepared w client next added = (Inr (), w1) \<Longrightarrow>
     ws_event env spawn True w (w1\<lparr>ws_staging := (ws_staging w)(client := None)\<rparr>)"
| step_drop: "ws_staging w client = Some st \<Longrightarrow>
     ws_event env spawn True w ((drop_staged w client)\<lparr>ws_staging := (ws_staging w)(client := None)\<rparr>)"
| step_commit: "ws_staging w client = None \<Longrightarrow> commit w client = (r, w1) \<Longrightarrow> ws_event env spawn True w w1"
| step_abort: "ws_event env spawn True w (abort w client)"
| step_publish: "publish w = (r, w1) \<Longrightarrow> ws_event env spawn True w w1"
| step_exit: "ws_reservation w = None \<Longrightarrow> pane_exited env w pane gen = (r, w1) \<Longrightarrow>
     ws_event env spawn (\<not> isl r) w w1"
| step_layout: "ws_reservation w = None \<Longrightarrow> valid_layout l \<Longrightarrow>
     request_set_layout w sid wid l = (r, w1) \<Longrightarrow> ws_event env spawn True w w1"
| step_respawn: "respawned w pane gen cwd = (r, w1) \<Longrightarrow> ws_event env spawn True w w1"

inductive_cases ws_eventE: "ws_event env spawn ok w w1"

definition ws_step :: "env \<Rightarrow> (pane_launch \<Rightarrow> server_pane res) \<Rightarrow> workspace \<Rightarrow> workspace \<Rightarrow> bool" where
  "ws_step env spawn w w1 \<longleftrightarrow> (\<exists>ok. ws_event env spawn ok w w1)"

text \<open>The states that a workspace reaches while no pane exit fails.\<close>

definition reachable :: "env \<Rightarrow> (pane_launch \<Rightarrow> server_pane res) \<Rightarrow> nat \<Rightarrow> workspace \<Rightarrow> bool" where
  "reachable env spawn gen w = (ws_event env spawn True)\<^sup>*\<^sup>* (new_workspace gen) w"

section \<open>The invariant\<close>

definition ws_inv :: "workspace \<Rightarrow> bool" where
  "ws_inv w \<longleftrightarrow>
     server_inv (ws_topology w) \<and> dom (ws_panes w) = set (native_pane_ids (ws_topology w))
     \<and> (\<forall>client next existing. ws_staging w client = Some (next, existing) \<longrightarrow>
          server_inv next
          \<and> (ws_reservation w = Some client \<longrightarrow> ws_prepared w = None \<and> existing = dom (ws_panes w)))
     \<and> (\<forall>next added. ws_prepared w = Some (next, added) \<longrightarrow>
          ws_reservation w \<noteq> None \<and> server_inv next
          \<and> dom added = set (native_pane_ids next) - dom (ws_panes w))"

lemma map_filter_anchors: "List.map_filter an_pane_id (map (anchor_for_pane sid) ps) = map np_id ps"
  by (induction ps) (simp_all add: map_filter_simps anchor_for_pane_def anchor_for_optional_pane_def)

lemma map_filter_append: "List.map_filter f (xs @ ys) = List.map_filter f xs @ List.map_filter f ys"
  by (simp add: map_filter_def)

lemma window_anchors: "mw_panes (snapshot_window a se w) = map (anchor_for_pane (ns_id se)) (nw_panes w)"
  by (simp add: snapshot_window_def)

lemma anchors_of_windows:
  "List.map_filter an_pane_id (concat (map mw_panes (map (snapshot_window a se) ws))) = windows_pane_ids ws"
  by (induction ws) (simp_all add: map_filter_append map_filter_anchors window_anchors window_pane_ids_def
      map_filter_simps)

lemma live_ids_snapshot: "live_ids (snapshot s) = set (native_pane_ids s)"
proof -
  have "List.map_filter an_pane_id (concat (map mw_panes (concat (map ms_windows (map (snapshot_session s) ses)))))
      = concat (map session_pane_ids ses)" for ses
    by (induction ses)
      (simp_all add: map_filter_append anchors_of_windows session_pane_ids_def map_filter_simps
        del: map_map)
  then show ?thesis by (simp add: live_ids_def snapshot_anchors_def native_pane_ids_def del: map_map)
qed

lemma map_filter_map: "List.map_filter f (map g xs) = List.map_filter (\<lambda>x. f (g x)) xs"
  by (simp add: map_filter_def filter_map comp_def)

lemma enumerate_anchors: "map (\<lambda>x. snd (snd x)) (map (\<lambda>(pi, a). (wi, pi, a)) (enumerate k as)) = as"
  by (simp add: comp_def case_prod_beta enumerate_eq_zip)

lemma window_indexed_anchors:
  "map (\<lambda>x. snd (snd x)) (concat (map (\<lambda>(wi, w). map (\<lambda>(pi, a). (wi, pi, a)) (enumerate 0 (mw_panes w)))
     (enumerate k ws))) = concat (map mw_panes ws)"
proof (induction ws arbitrary: k)
  case (Cons w ws)
  show ?case
    by (simp only: enumerate_simps list.map concat.simps map_append prod.case enumerate_anchors Cons.IH)
qed simp

lemma indexed_anchors_anchors: "map (\<lambda>x. snd (snd x)) (indexed_anchors sn) = snapshot_anchors sn"
proof -
  have "map (\<lambda>x. snd (snd x)) (concat (map (\<lambda>se. concat (map (\<lambda>(wi, w). map (\<lambda>(pi, a). (wi, pi, a))
      (enumerate 0 (mw_panes w))) (enumerate 0 (ms_windows se)))) ses))
    = concat (map mw_panes (concat (map ms_windows ses)))" for ses
    by (induction ses) (simp_all only: list.map concat.simps map_append concat_append window_indexed_anchors)
  then show ?thesis unfolding indexed_anchors_def snapshot_anchors_def .
qed

lemma launch_panes_dom:
  "launch_panes spawn c existing as m = Inr added \<Longrightarrow>
     dom added = dom m \<union> (set (List.map_filter (\<lambda>x. an_pane_id (snd (snd x))) as) - existing)"
proof (induction spawn c existing as m rule: launch_panes.induct)
  case (2 spawn c existing wi pi a rest m)
  from "2.prems" obtain i where i: "an_pane_id a = Some i" by (auto split: option.splits)
  show ?case
  proof (cases "i \<in> existing")
    case True
    then show ?thesis using "2.IH"(1) [OF i True] "2.prems" i by (auto simp: map_filter_simps)
  next
    case False
    with "2.prems" i obtain l p where lp: "launch_for c wi pi i a = Inr l" "spawn l = Inr p"
      "launch_panes spawn c existing rest (m(i \<mapsto> p)) = Inr added"
      by (auto split: sum.splits)
    have "dom (m(i \<mapsto> p)) = insert i (dom m)" by simp
    from "2.IH"(2) [OF i False lp, unfolded this] show ?thesis using i False by (auto simp: map_filter_simps)
  qed
qed (simp add: map_filter_simps)

lemma launched_ids:
  assumes "launch_panes spawn c existing (indexed_anchors (snapshot s)) Map.empty = Inr added"
  shows "dom added = set (native_pane_ids s) - existing"
proof -
  have "List.map_filter (\<lambda>x. an_pane_id (snd (snd x))) (indexed_anchors (snapshot s))
      = List.map_filter an_pane_id (snapshot_anchors (snapshot s))"
    unfolding indexed_anchors_anchors [symmetric] map_filter_map ..
  then show ?thesis using launch_panes_dom [OF assms] live_ids_snapshot [of s] by (simp add: live_ids_def)
qed

section \<open>Working directories do not touch the invariant\<close>

lemma set_pane_cwd_full:
  assumes "layouts_full s" "set_pane_cwd s pid cwd = (r, s1)"
  shows "layouts_full s1" "native_pane_ids s1 = native_pane_ids s"
proof -
  let ?fw = "\<lambda>w. w\<lparr>nw_panes := update_first (\<lambda>p. np_id p = pid) (\<lambda>p. p\<lparr>np_cwd := cwd\<rparr>) (nw_panes w)\<rparr>"
  let ?pw = "\<lambda>w. list_ex (\<lambda>p. np_id p = pid) (nw_panes w)"
  let ?fs = "\<lambda>se. se\<lparr>ns_windows := update_first ?pw ?fw (ns_windows se)\<rparr>"
  have pw: "window_pane_ids (?fw w) = window_pane_ids w" for w
    by (simp add: window_pane_ids_def update_first_map)
  have w: "\<forall>w \<in> set (update_first ?pw ?fw ws). shows_panes (window_pane_ids w) (nw_layout w)"
    if "\<forall>w \<in> set ws. shows_panes (window_pane_ids w) (nw_layout w)" for ws
    using that set_update_first_subset [of ?pw ?fw ws] pw by (fastforce simp del: window_pane_ids_simps)
  have full: "\<forall>se \<in> set (update_first p ?fs ses). \<forall>w \<in> set (ns_windows se). shows_panes (window_pane_ids w) (nw_layout w)"
    if "\<forall>se \<in> set ses. \<forall>w \<in> set (ns_windows se). shows_panes (window_pane_ids w) (nw_layout w)" for p ses
    using that set_update_first_subset [of p ?fs ses] w by fastforce
  have "layouts_full (s\<lparr>nm_sessions := update_first p ?fs (nm_sessions s)\<rparr>)" for p
    using full [of "nm_sessions s" p] assms(1) unfolding layouts_full_def by simp
  then show "layouts_full s1"
    using assms by (auto simp: set_pane_cwd_def Let_def split: if_splits)
  have "map session_pane_ids (update_first p ?fs ses) = map session_pane_ids ses" for p ses
    by (rule update_first_map)
      (simp add: session_pane_ids_def windows_pane_ids_def update_first_map pw del: window_pane_ids_simps)
  then show "native_pane_ids s1 = native_pane_ids s"
    using assms(2) by (auto simp: set_pane_cwd_def native_pane_ids_def Let_def split: if_splits)
qed

lemma set_pane_cwd_server:
  assumes "server_inv s" "set_pane_cwd s pid cwd = (r, s1)"
  shows "server_inv s1" "native_pane_ids s1 = native_pane_ids s"
proof -
  have wf: "native_wf s" "layouts_full s" using assms(1) by (simp_all add: server_inv_def)
  show "server_inv s1"
    using native_stepD [OF set_pane_cwd_step [OF wf(1) assms(2)]] set_pane_cwd_full(1) [OF wf(2) assms(2)]
    by (simp add: server_inv_def)
  show "native_pane_ids s1 = native_pane_ids s" by (rule set_pane_cwd_full(2) [OF wf(2) assms(2)])
qed

lemma set_new_cwds_server:
  "server_inv s \<Longrightarrow> set_new_cwds ps d as s = Inr s1 \<Longrightarrow> server_inv s1 \<and> native_pane_ids s1 = native_pane_ids s"
proof (induction ps d as s rule: set_new_cwds.induct)
  case (2 ps cwd a as s)
  show ?case
  proof (cases "\<exists>i. an_pane_id a = Some i \<and> ps i = None")
    case True
    then obtain i where i: "an_pane_id a = Some i" "ps i = None" by blast
    with "2.prems"(2) obtain s' where s': "set_pane_cwd s i cwd = (Inr (), s')" "set_new_cwds ps cwd as s' = Inr s1"
      by (auto split: prod.splits sum.splits)
    from set_pane_cwd_server [OF "2.prems"(1) s'(1)] "2.IH"(3) [OF i(1)] s' i(2) show ?thesis by force
  next
    case False
    then show ?thesis using 2 by (auto split: option.splits if_splits)
  qed
qed simp

lemma prepare_topology_server:
  assumes "server_inv (ws_topology w)" "command_valid c" "prepare_topology env w c cwd = Inr next"
  shows "server_inv next"
proof -
  obtain s1 where s1: "execute env c (ws_topology w) = (Inr (), s1)"
    using assms(3) by (auto simp: prepare_topology_def split: prod.splits sum.splits)
  have "server_inv s1"
    using execute_spec [OF assms(1,2) s1] native_stepD by (simp add: server_inv_def)
  then show ?thesis
    using assms(3) s1 set_new_cwds_server by (auto simp: prepare_topology_def split: option.splits)
qed

section \<open>Every critical section keeps the invariant\<close>

lemma ws_invI:
  assumes "server_inv (ws_topology w)" "dom (ws_panes w) = set (native_pane_ids (ws_topology w))"
    and "\<And>client next existing. ws_staging w client = Some (next, existing) \<Longrightarrow> server_inv next"
    and "\<And>client next existing. ws_staging w client = Some (next, existing) \<Longrightarrow> ws_reservation w = Some client
      \<Longrightarrow> ws_prepared w = None \<and> existing = dom (ws_panes w)"
    and "\<And>next added. ws_prepared w = Some (next, added) \<Longrightarrow> ws_reservation w \<noteq> None \<and> server_inv next
      \<and> dom added = set (native_pane_ids next) - dom (ws_panes w)"
  shows "ws_inv w"
  using assms unfolding ws_inv_def by blast

lemma ws_invD:
  assumes "ws_inv w"
  shows "server_inv (ws_topology w)" "dom (ws_panes w) = set (native_pane_ids (ws_topology w))"
    "ws_staging w client = Some (next, existing) \<Longrightarrow> server_inv next"
    "ws_staging w client = Some (next, existing) \<Longrightarrow> ws_reservation w = Some client \<Longrightarrow>
      ws_prepared w = None \<and> existing = dom (ws_panes w)"
    "ws_prepared w = Some (next, added) \<Longrightarrow> ws_reservation w \<noteq> None \<and> server_inv next
      \<and> dom added = set (native_pane_ids next) - dom (ws_panes w)"
  using assms unfolding ws_inv_def by metis+

lemma publish_fields: "publish w = (r, w1) \<Longrightarrow> ws_topology w1 = ws_topology w \<and> ws_panes w1 = ws_panes w"
  by (auto simp: publish_def Let_def split: option.splits)

lemma ws_inv_revision: "ws_inv (w\<lparr>ws_revision := n\<rparr>) = ws_inv w"
  by (cases w) (simp add: ws_inv_def)

lemma publish_inv:
  assumes "ws_inv w" "publish w = (r, w1)"
  shows "ws_inv w1"
proof -
  have "w1 = w\<lparr>ws_revision := ws_revision w1\<rparr>"
    using assms(2) by (auto simp: publish_def Let_def split: option.splits)
  then show ?thesis using assms(1) ws_inv_revision by metis
qed

lemma ws_inv_unreserved:
  "ws_inv w \<Longrightarrow> ws_reservation w = None \<Longrightarrow> ws_prepared w = None"
  by (cases "ws_prepared w") (auto simp: ws_inv_def)

text \<open>A new topology with matching panes, while nothing is prepared.\<close>

lemma ws_inv_topology:
  assumes "ws_inv w" "ws_reservation w = None" "server_inv s" "dom ps = set (native_pane_ids s)"
  shows "ws_inv (w\<lparr>ws_topology := s, ws_panes := ps\<rparr>)"
  using assms ws_inv_unreserved [OF assms(1,2)] ws_invD(3) [OF assms(1)] by (intro ws_invI) auto

lemma reserve_inv:
  assumes inv: "ws_inv w" and c: "command_valid c" and st: "ws_staging w client = None"
    and res: "reserve env w c cwd seen client = (r, w1)"
  shows "ws_inv w1"
proof (cases "w1 = w")
  case False
  then obtain next' where free: "ws_reservation w = None" and n: "prepare_topology env w c cwd = Inr next'"
    and w1: "w1 = w\<lparr>ws_reservation := Some client,
      ws_staging := (ws_staging w)(client \<mapsto> (next', dom (ws_panes w)))\<rparr>"
    using res by (auto simp: reserve_def split: if_splits sum.splits)
  have "server_inv next'" using prepare_topology_server [OF ws_invD(1) [OF inv] c n] .
  then show ?thesis
    unfolding w1 using ws_inv_unreserved [OF inv free] ws_invD [OF inv]
    by (intro ws_invI) (auto split: if_splits)
qed (use inv in simp)

lemma install_inv:
  assumes inv: "ws_inv w" and st: "ws_staging w client = Some (next, existing)"
    and launch: "launch_panes spawn c existing (indexed_anchors (snapshot next)) Map.empty = Inr added"
    and res: "install_prepared w client next added = (Inr (), w1)"
  shows "ws_inv (w1\<lparr>ws_staging := (ws_staging w)(client := None)\<rparr>)"
proof -
  have own: "ws_reservation w = Some client" and w1: "w1 = w\<lparr>ws_prepared := Some (next, added)\<rparr>"
    using res by (auto simp: install_prepared_def split: if_splits)
  have "dom added = set (native_pane_ids next) - dom (ws_panes w)"
    using launched_ids [OF launch] ws_invD(4) [OF inv st own] by simp
  then show ?thesis
    unfolding w1 using ws_invD(1-3) [OF inv] ws_invD(3) [OF inv st] own
    by (intro ws_invI) (auto split: if_splits)
qed

lemma drop_inv:
  assumes inv: "ws_inv w" and st: "ws_staging w client = Some st"
  shows "ws_inv ((drop_staged w client)\<lparr>ws_staging := (ws_staging w)(client := None)\<rparr>)"
proof -
  obtain next' existing where st': "st = (next', existing)" by (cases st)
  have "ws_prepared w = None" if "ws_reservation w = Some client"
    using ws_invD(4) [OF inv] st st' that by blast
  then show ?thesis
    using ws_invD [OF inv] unfolding drop_staged_def
    by (intro ws_invI) (auto split: if_splits)
qed

lemma commit_inv:
  assumes inv: "ws_inv w" and st: "ws_staging w client = None" and res: "commit w client = (r, w1)"
  shows "ws_inv w1"
proof (cases "w1 = w")
  case True
  then show ?thesis using inv by simp
next
  case False
  then obtain next' added where own: "ws_reservation w = Some client" and p: "ws_prepared w = Some (next', added)"
    and pub: "publish (w\<lparr>ws_prepared := None, ws_panes := (ws_panes w |` live_ids (snapshot next')) ++ added,
      ws_topology := next', ws_reservation := None\<rparr>) = (r, w1)"
    using res by (auto simp: commit_def split: if_splits option.splits)
  have P: "server_inv next'" "dom added = set (native_pane_ids next') - dom (ws_panes w)"
    using ws_invD(5) [OF inv p] by simp_all
  have "dom ((ws_panes w |` live_ids (snapshot next')) ++ added) = set (native_pane_ids next')"
    using P(2) by (auto simp: live_ids_snapshot)
  then have "ws_inv (w\<lparr>ws_prepared := None, ws_panes := (ws_panes w |` live_ids (snapshot next')) ++ added,
      ws_topology := next', ws_reservation := None\<rparr>)"
    using P(1) ws_invD(3) [OF inv] by (intro ws_invI) auto
  then show ?thesis using pub by (rule publish_inv)
qed

lemma abort_inv:
  assumes "ws_inv w"
  shows "ws_inv (abort w client)"
proof (cases "ws_reservation w = Some client")
  case True
  then show ?thesis
    unfolding abort_def using ws_invD(1-3) [OF assms] by (intro ws_invI) auto
qed (use assms in \<open>simp add: abort_def\<close>)

lemma snapshot_has_pane:
  "list_ex (\<lambda>x. list_ex (\<lambda>a. an_pane_id a = Some p) (mw_panes x)) (ms_windows (snapshot_session s se))
     \<longleftrightarrow> p \<in> set (session_pane_ids se)"
  by (auto simp: list_ex_iff window_anchors anchor_for_pane_def anchor_for_optional_pane_def
      session_pane_ids_def windows_pane_ids_def window_pane_ids_def)

lemma pane_exited_inv:
  assumes inv: "ws_inv w" and free: "ws_reservation w = None" and res: "pane_exited env w pane gen = (Inr r, w1)"
  shows "ws_inv w1"
proof (cases "w1 = w")
  case False
  let ?s = "ws_topology w"
  let ?p = "\<lambda>s. list_ex (\<lambda>x. list_ex (\<lambda>a. an_pane_id a = Some pane) (mw_panes x)) (ms_windows s)"
  obtain mse s1 w2 where f: "find ?p (sn_sessions (snapshot ?s)) = Some mse"
    and ex: "execute env (ClosePane (ms_id mse) (Some pane)) ?s = (Inr (), s1)"
    and pub: "publish (w\<lparr>ws_topology := s1, ws_panes := (ws_panes w)(pane := None)\<rparr>) = (w2, w1)"
    using res False
    by (auto simp: pane_exited_def split: if_splits option.splits sum.splits prod.splits)
  obtain se where mem: "se \<in> set (nm_sessions ?s)" "mse = snapshot_session ?s se"
    using find_SomeD [OF f] by auto
  then have se: "se \<in> set (nm_sessions ?s)" "mse = snapshot_session ?s se" "pane \<in> set (session_pane_ids se)"
    using conjunct2 [OF find_SomeD [OF f]] by (simp_all only: snapshot_has_pane)
  have wf: "native_wf ?s" "server_inv ?s" using ws_invD(1) [OF inv] by (simp_all add: server_inv_def)
  then have get: "active_session_mut ?s (ns_id se) = Some se"
    unfolding active_session_mut_def using se(1) by (simp add: native_wf_def find_key_unique)
  have ids: "mset (native_pane_ids ?s) = mset (pane # native_pane_ids s1)"
    using execute_close_ids [OF wf(1) get se(3)] ex se(2) by simp
  have "server_inv s1"
    using execute_spec [OF wf(2) _ ex] native_stepD by (simp add: command_valid_def server_inv_def)
  moreover have "dom ((ws_panes w)(pane := None)) = set (native_pane_ids s1)"
  proof -
    have "distinct (pane # native_pane_ids s1)"
      using wf(1) distinct_mset_cong [OF ids] by (simp add: native_wf_def)
    then show ?thesis using mset_eq_setD [OF ids] ws_invD(2) [OF inv] by auto
  qed
  ultimately have "ws_inv (w\<lparr>ws_topology := s1, ws_panes := (ws_panes w)(pane := None)\<rparr>)"
    by (rule ws_inv_topology [OF inv free])
  then show ?thesis using pub by (rule publish_inv)
qed (use inv in simp)

text \<open>A failed exit: the topology is still well-formed, and the only process it does not show is the exited pane.\<close>

lemma pane_exited_error:
  assumes inv: "ws_inv w" and res: "pane_exited env w pane gen = (Inl e, w1)"
  shows "native_wf (ws_topology w1) \<and> set (native_pane_ids (ws_topology w1)) \<subseteq> dom (ws_panes w1)
    \<and> dom (ws_panes w1) \<subseteq> insert pane (set (native_pane_ids (ws_topology w1)))"
proof -
  let ?s = "ws_topology w"
  let ?p = "\<lambda>s. list_ex (\<lambda>x. list_ex (\<lambda>a. an_pane_id a = Some pane) (mw_panes x)) (ms_windows s)"
  obtain mse r s1 where f: "find ?p (sn_sessions (snapshot ?s)) = Some mse"
    and ex: "execute env (ClosePane (ms_id mse) (Some pane)) ?s = (r, s1)"
    and w1: "ws_topology w1 = s1" "ws_panes w1 = ws_panes w \<or> ws_panes w1 = (ws_panes w)(pane := None)"
    using res
    by (auto simp: pane_exited_def dest!: publish_fields split: if_splits option.splits sum.splits prod.splits)
  obtain se where mem: "se \<in> set (nm_sessions ?s)" "mse = snapshot_session ?s se"
    using find_SomeD [OF f] by auto
  then have se: "pane \<in> set (session_pane_ids se)"
    using conjunct2 [OF find_SomeD [OF f]] by (simp_all only: snapshot_has_pane)
  have wf: "native_wf ?s" "server_inv ?s" using ws_invD(1) [OF inv] by (simp_all add: server_inv_def)
  then have get: "active_session_mut ?s (ns_id se) = Some se"
    unfolding active_session_mut_def using mem(1) by (simp add: native_wf_def find_key_unique)
  have ids: "mset (native_pane_ids ?s) = mset (pane # native_pane_ids s1)"
    using execute_close_ids [OF wf(1) get se] ex mem(2) by simp
  have "native_wf s1" using execute_spec(1) [OF wf(2) _ ex] by (auto simp: command_valid_def dest: native_stepD)
  moreover have "distinct (pane # native_pane_ids s1)"
    using wf(1) distinct_mset_cong [OF ids] by (simp add: native_wf_def)
  ultimately show ?thesis using mset_eq_setD [OF ids] ws_invD(2) [OF inv] w1 by auto
qed

lemma set_layout_ids: "set_layout s sid wid l = (r, s1) \<Longrightarrow> native_pane_ids s1 = native_pane_ids s"
proof -
  assume res: "set_layout s sid wid l = (r, s1)"
  have "native_pane_ids (write_window sid wid (w\<lparr>nw_layout := lo\<rparr>) s) = native_pane_ids s"
    if win: "window_mut s sid wid = Some w" for w lo
  proof -
    obtain se where se: "active_session_mut s sid = Some se" "find_window se wid = Some w"
      using win by (auto simp: window_mut_def split: option.splits)
    from update_first_split [OF se(2) [unfolded find_window_def], of "\<lambda>_. w\<lparr>nw_layout := lo\<rparr>"]
    have "session_pane_ids (put_window wid (w\<lparr>nw_layout := lo\<rparr>) se) = session_pane_ids se"
      by (auto simp: session_pane_ids_def put_window_def)
    moreover from update_first_split [OF se(1) [unfolded active_session_mut_def]]
    obtain ys zs where "nm_sessions s = ys @ se # zs"
      "update_first (\<lambda>x. ns_id x = sid) (\<lambda>_. put_window wid (w\<lparr>nw_layout := lo\<rparr>) se) (nm_sessions s)
        = ys @ put_window wid (w\<lparr>nw_layout := lo\<rparr>) se # zs" by blast
    ultimately show ?thesis by (simp add: write_window_def se(1) put_session_def native_pane_ids_def)
  qed
  then show ?thesis using res by (auto simp: set_layout_def Let_def split: option.splits if_splits)
qed

lemma set_layout_server:
  assumes "server_inv s" "valid_layout l" "set_layout s sid wid l = (r, s1)"
  shows "server_inv s1"
proof -
  have wf: "native_wf s" "layouts_full s" using assms(1) by (simp_all add: server_inv_def)
  show ?thesis
    using native_stepD [OF set_layout_step [OF wf(1) assms(3,2)]] set_layout_full [OF wf assms(2,3)]
    by (simp add: server_inv_def)
qed

lemma request_set_layout_inv:
  assumes inv: "ws_inv w" and free: "ws_reservation w = None" and l: "valid_layout l"
    and res: "request_set_layout w sid wid l = (r, w1)"
  shows "ws_inv w1"
proof -
  obtain q s1 where s1: "set_layout (ws_topology w) sid wid l = (q, s1)" by (cases "set_layout (ws_topology w) sid wid l")
  have "server_inv s1" "dom (ws_panes w) = set (native_pane_ids s1)"
    using set_layout_server [OF ws_invD(1) [OF inv] l s1] set_layout_ids [OF s1] ws_invD(2) [OF inv] by simp_all
  from ws_inv_topology [OF inv free this] have "ws_inv (w\<lparr>ws_topology := s1\<rparr>)" by simp
  then show ?thesis
    using res s1 publish_inv
    by (fastforce simp: request_set_layout_def split: sum.splits prod.splits)
qed

lemma respawned_inv:
  assumes inv: "ws_inv w" and res: "respawned w pane gen cwd = (r, w1)"
  shows "ws_inv w1"
proof (cases "w1 = w")
  case False
  obtain q s1 where s1: "(case cwd of None \<Rightarrow> (Inr (), ws_topology w) | Some d \<Rightarrow> set_pane_cwd (ws_topology w) pane d) = (q, s1)"
    by (cases "case cwd of None \<Rightarrow> (Inr (), ws_topology w) | Some d \<Rightarrow> set_pane_cwd (ws_topology w) pane d")
  have "server_inv s1" "native_pane_ids s1 = native_pane_ids (ws_topology w)"
    using s1 ws_invD(1) [OF inv] set_pane_cwd_server by (auto split: option.splits)
  then have "ws_inv (w\<lparr>ws_topology := s1\<rparr>)"
    using ws_invD [OF inv] by (intro ws_invI) auto
  then show ?thesis
    using res s1 False publish_inv
    by (fastforce simp: respawned_def split: if_splits sum.splits prod.splits)
qed (use inv in simp)

lemma ws_event_inv: "ws_event env spawn ok w w1 \<Longrightarrow> ok \<Longrightarrow> ws_inv w \<Longrightarrow> ws_inv w1"
proof (induction rule: ws_event.induct)
  case (step_reserve w client c cwd seen r w1)
  then show ?case using reserve_inv by blast
next
  case (step_install w client nx existing c added w1)
  then show ?case using install_inv by blast
next
  case (step_drop w client st)
  then show ?case using drop_inv by blast
next
  case (step_commit w client r w1)
  then show ?case using commit_inv by blast
next
  case (step_exit w pane gen r w1)
  then obtain x where "r = Inr x" by (cases r) auto
  then show ?case using pane_exited_inv step_exit by blast
qed (blast intro: abort_inv publish_inv request_set_layout_inv respawned_inv)+

lemma new_workspace_inv: "ws_inv (new_workspace gen)"
  by (simp add: ws_inv_def new_workspace_def new_state_def server_inv_def native_wf_def layouts_full_def
      native_pane_ids_def)

lemma reachable_inv: "reachable env spawn gen w \<Longrightarrow> ws_inv w"
  unfolding reachable_def by (induction rule: rtranclp_induct) (auto intro: new_workspace_inv ws_event_inv)

section \<open>A reservation excludes topology changes\<close>

text \<open>The topology without the working directories of its panes.\<close>

definition forget_cwd :: "native_mux_state \<Rightarrow> native_mux_state" where
  "forget_cwd s =
     s\<lparr>nm_sessions := map (\<lambda>se. se\<lparr>ns_windows :=
       map (\<lambda>w. w\<lparr>nw_panes := map (\<lambda>p. p\<lparr>np_cwd := []\<rparr>) (nw_panes w)\<rparr>) (ns_windows se)\<rparr>) (nm_sessions s)\<rparr>"

lemma forget_set_pane_cwd:
  assumes "set_pane_cwd s pid cwd = (r, s1)"
  shows "forget_cwd s1 = forget_cwd s"
proof -
  have p: "map (\<lambda>p. p\<lparr>np_cwd := []\<rparr>) (update_first q (\<lambda>p. p\<lparr>np_cwd := cwd\<rparr>) ps) = map (\<lambda>p. p\<lparr>np_cwd := []\<rparr>) ps"
    for q :: "native_pane \<Rightarrow> bool" and ps by (rule update_first_map) simp
  let ?fw = "\<lambda>w. w\<lparr>nw_panes := update_first (\<lambda>p. np_id p = pid) (\<lambda>p. p\<lparr>np_cwd := cwd\<rparr>) (nw_panes w)\<rparr>"
  have w: "map (\<lambda>w. w\<lparr>nw_panes := map (\<lambda>p. p\<lparr>np_cwd := []\<rparr>) (nw_panes w)\<rparr>) (update_first q ?fw ws)
      = map (\<lambda>w. w\<lparr>nw_panes := map (\<lambda>p. p\<lparr>np_cwd := []\<rparr>) (nw_panes w)\<rparr>) ws"
    for q :: "native_window \<Rightarrow> bool" and ws by (rule update_first_map) (simp add: p)
  show ?thesis
    using assms
    by (auto simp: set_pane_cwd_def forget_cwd_def Let_def w split: if_splits
        intro!: arg_cong [where f = "\<lambda>x. s\<lparr>nm_sessions := x\<rparr>"] update_first_map)
qed

lemma publish_keeps:
  "publish w = (r, w1) \<Longrightarrow> ws_topology w1 = ws_topology w \<and> ws_panes w1 = ws_panes w
     \<and> ws_reservation w1 = ws_reservation w \<and> ws_revision w \<le> ws_revision w1"
  by (auto simp: publish_def checked_add_def Let_def split: option.splits if_splits)

lemma respawned_keeps:
  assumes "respawned w pane gen cwd = (r, w1)"
  shows "forget_cwd (ws_topology w1) = forget_cwd (ws_topology w) \<and> ws_panes w1 = ws_panes w"
proof -
  obtain q s1 where s1: "(case cwd of None \<Rightarrow> (Inr (), ws_topology w) | Some d \<Rightarrow> set_pane_cwd (ws_topology w) pane d) = (q, s1)"
    by (cases "case cwd of None \<Rightarrow> (Inr (), ws_topology w) | Some d \<Rightarrow> set_pane_cwd (ws_topology w) pane d")
  then have "forget_cwd s1 = forget_cwd (ws_topology w)"
    using forget_set_pane_cwd by (auto split: option.splits)
  then show ?thesis
    using assms s1
    by (auto simp: respawned_def split: if_splits sum.splits prod.splits dest!: publish_keeps)
qed

lemma reserved_event:
  assumes "ws_event env spawn ok w w1" "ws_reservation w = Some client" "ws_reservation w1 = Some client"
  shows "forget_cwd (ws_topology w1) = forget_cwd (ws_topology w) \<and> ws_panes w1 = ws_panes w"
  using assms
proof (induction rule: ws_event.induct)
  case (step_commit w c r w1)
  then show ?case by (auto simp: commit_def split: if_splits option.splits dest!: publish_keeps)
next
  case (step_respawn w pane gen cwd r w1)
  then show ?case using respawned_keeps by blast
qed (auto simp: reserve_def install_prepared_def drop_staged_def abort_def dest: publish_keeps split: if_splits)

lemma reserved_step:
  assumes "ws_step env spawn w w1" "ws_reservation w = Some client" "ws_reservation w1 = Some client"
  shows "forget_cwd (ws_topology w1) = forget_cwd (ws_topology w) \<and> ws_panes w1 = ws_panes w"
  using assms reserved_event unfolding ws_step_def by blast

text \<open>The steps while a client holds the reservation.\<close>

definition held_step :: "env \<Rightarrow> (pane_launch \<Rightarrow> server_pane res) \<Rightarrow> nat \<Rightarrow> workspace \<Rightarrow> workspace \<Rightarrow> bool" where
  "held_step env spawn client w w1 \<longleftrightarrow>
     ws_step env spawn w w1 \<and> ws_reservation w = Some client \<and> ws_reservation w1 = Some client"

lemma ws_event_reserved: "ws_event env spawn ok w w1 \<Longrightarrow> ws_reservation w \<noteq> None \<Longrightarrow> ok"
  by (auto elim: ws_eventE)

lemma ws_event_revision:
  "ws_event env spawn ok w w1 \<Longrightarrow> ws_reservation w = Some client \<Longrightarrow> ws_revision w \<le> ws_revision w1"
proof (induction rule: ws_event.induct)
  case (step_respawn w pane gen cwd r w1)
  then show ?case
    by (auto simp: respawned_def split: if_splits sum.splits prod.splits option.splits dest!: publish_keeps)
next
  case (step_commit w c r w1)
  then show ?case by (auto simp: commit_def split: if_splits option.splits dest!: publish_keeps)
qed (auto simp: reserve_def install_prepared_def drop_staged_def abort_def dest: publish_keeps split: if_splits sum.splits)

lemma held_run:
  assumes "(held_step env spawn client)\<^sup>*\<^sup>* w1 w2" "ws_inv w1" "ws_reservation w1 = Some client"
  shows "ws_inv w2" "ws_reservation w2 = Some client" "forget_cwd (ws_topology w2) = forget_cwd (ws_topology w1)"
    "ws_panes w2 = ws_panes w1" "ws_revision w1 \<le> ws_revision w2"
proof -
  have "ws_inv w2 \<and> ws_reservation w2 = Some client \<and> forget_cwd (ws_topology w2) = forget_cwd (ws_topology w1)
      \<and> ws_panes w2 = ws_panes w1 \<and> ws_revision w1 \<le> ws_revision w2"
    using assms
  proof (induction rule: rtranclp_induct)
    case (step y z)
    then have y: "ws_step env spawn y z" "ws_reservation y = Some client" "ws_reservation z = Some client"
      by (simp_all add: held_step_def)
    have "ws_inv z" using y(1,2) step.IH step.prems ws_event_inv ws_event_reserved unfolding ws_step_def by blast
    moreover have "ws_revision y \<le> ws_revision z" using y(1,2) ws_event_revision unfolding ws_step_def by blast
    ultimately show ?case using reserved_step [OF y] step.IH step.prems y(3) by simp
  qed simp
  then show "ws_inv w2" "ws_reservation w2 = Some client" "forget_cwd (ws_topology w2) = forget_cwd (ws_topology w1)"
    "ws_panes w2 = ws_panes w1" "ws_revision w1 \<le> ws_revision w2" by simp_all
qed

section \<open>One complete transaction\<close>

definition sample_pane :: server_pane where
  "sample_pane = \<lparr>pn_generation = 1, pn_title = None\<rparr>"

definition sample_spawn :: "pane_launch \<Rightarrow> server_pane res" where
  "sample_spawn l = Inr sample_pane"

definition reserved_sample :: workspace where
  "reserved_sample =
     (new_workspace 0)\<lparr>ws_reservation := Some 7, ws_staging := [7 \<mapsto> (one_session, {})]\<rparr>"

definition committed_sample :: workspace where
  "committed_sample =
     (new_workspace 0)\<lparr>ws_topology := one_session, ws_panes := [pane_id 0 1 \<mapsto> sample_pane], ws_revision := 1\<rparr>"

lemma sample_reserve: "reserve no_env (new_workspace 0) create_sample None 0 7 = (Inr True, reserved_sample)"
  by (simp add: reserve_def reserved_sample_def prepare_topology_def create_sample_runs new_workspace_def
      del: execute.simps)

lemma snapshot_one_session:
  "indexed_anchors (snapshot one_session) =
     [(0, 0, anchor_for_pane ''s'' \<lparr>np_id = pane_id 0 1, np_cwd = ''/''\<rparr>)]"
  by (simp add: indexed_anchors_def one_session_def snapshot_def snapshot_session_def snapshot_window_def Let_def)

lemma sample_launch:
  "launch_panes sample_spawn create_sample {} (indexed_anchors (snapshot one_session)) Map.empty
     = Inr [pane_id 0 1 \<mapsto> sample_pane]"
  by (simp add: snapshot_one_session anchor_for_pane_def anchor_for_optional_pane_def launch_for_def
      saved_pane_def create_sample_def sample_spawn_def Let_def)

lemma sample_reachable: "reachable no_env sample_spawn 0 committed_sample"
proof -
  let ?w1 = "reserved_sample\<lparr>ws_prepared := Some (one_session, [pane_id 0 1 \<mapsto> sample_pane]), ws_staging := Map.empty\<rparr>"
  have "ws_event no_env sample_spawn True (new_workspace 0) reserved_sample"
    by (rule step_reserve [OF _ create_sample_valid sample_reserve]) (simp add: new_workspace_def)
  moreover have "ws_event no_env sample_spawn True reserved_sample
      ((reserved_sample\<lparr>ws_prepared := Some (one_session, [pane_id 0 1 \<mapsto> sample_pane])\<rparr>)
         \<lparr>ws_staging := (ws_staging reserved_sample)(7 := None)\<rparr>)"
    by (rule step_install [OF _ sample_launch]) (simp_all add: reserved_sample_def install_prepared_def)
  then have "ws_event no_env sample_spawn True reserved_sample ?w1" by (simp add: reserved_sample_def)
  moreover have "snd (commit ?w1 7) = committed_sample"
    by (simp add: commit_def reserved_sample_def publish_def new_workspace_def checked_add_def
        committed_sample_def Let_def)
  then have "commit ?w1 7 = (fst (commit ?w1 7), committed_sample)" by (metis prod.collapse)
  then have "ws_event no_env sample_spawn True ?w1 committed_sample" by (rule step_commit [rotated]) simp
  ultimately show ?thesis
    unfolding reachable_def by (meson converse_rtranclp_into_rtranclp rtranclp.rtrancl_refl)
qed

section \<open>Properties\<close>

text \<open>
  C2.  In every state a workspace can reach while no pane exit fails, under any interleaving of
  reservations, launches, installs, commits, aborts, pane exits, layout edits, title publications
  and respawns by any number of clients, the topology is well-formed with complete layouts, and the
  running panes are exactly the panes of the topology: no process without a pane and no pane
  without a process.  A pane exit that fails in such a state (its error is ignored by the in-process
  host) leaves a well-formed topology, all of whose panes run, and at most the exited pane as a
  process that the topology does not show.
\<close>

theorem workspace_consistent:
  assumes "reachable env spawn gen w"
  shows "server_inv (ws_topology w) \<and> dom (ws_panes w) = set (native_pane_ids (ws_topology w))
    \<and> (\<forall>pane g e w1. pane_exited env w pane g = (Inl e, w1) \<longrightarrow>
         native_wf (ws_topology w1) \<and> set (native_pane_ids (ws_topology w1)) \<subseteq> dom (ws_panes w1)
         \<and> dom (ws_panes w1) \<subseteq> insert pane (set (native_pane_ids (ws_topology w1))))"
  using ws_invD(1,2) [OF reachable_inv [OF assms]] pane_exited_error [OF reachable_inv [OF assms]] by blast

theorem workspace_consistent_witness:
  "dom (ws_panes committed_sample) = set (native_pane_ids one_session) \<and> server_inv one_session"
  using workspace_consistent [OF sample_reachable] by (simp add: committed_sample_def)

text \<open>
  C4.  A reservation excludes topology changes: while a client holds it, no step of another client
  changes the sessions, windows, layouts or panes; only the recorded working directories can
  change.
\<close>

theorem reservation_excludes:
  assumes "ws_step env spawn w w1" "ws_reservation w = Some client" "ws_reservation w1 = Some client"
  shows "forget_cwd (ws_topology w1) = forget_cwd (ws_topology w) \<and> ws_panes w1 = ws_panes w"
  using assms by (rule reserved_step)

theorem reservation_excludes_witness:
  "ws_step no_env sample_spawn reserved_sample (snd (publish reserved_sample))
   \<and> forget_cwd (ws_topology (snd (publish reserved_sample))) = forget_cwd (ws_topology reserved_sample)"
proof -
  have step: "ws_step no_env sample_spawn reserved_sample (snd (publish reserved_sample))"
    unfolding ws_step_def by (rule exI, rule step_publish [of _ "fst (publish reserved_sample)"]) simp
  have "ws_reservation reserved_sample = Some 7" "ws_reservation (snd (publish reserved_sample)) = Some 7"
    by (simp_all add: reserved_sample_def publish_def new_workspace_def checked_add_def Let_def)
  with reservation_excludes [OF step] step show ?thesis by blast
qed

text \<open>
  C21.  A transaction that is not committed leaves no trace.  Between its reservation and its end, while the client
  holds the reservation, any steps of any clients may happen.  When its preparation is then dropped because a
  launch failed, or aborted after it was installed, the sessions, windows, layouts and panes of the workspace are
  those of the moment it was reserved (only recorded working directories and the revision may have moved on), and
  the workspace is free with nothing prepared.
\<close>

theorem abandoned_preparation:
  assumes "reachable env spawn gen w" "ws_staging w client = None" "command_valid c"
    and "reserve env w c cwd seen client = (Inr True, w1)" "(held_step env spawn client)\<^sup>*\<^sup>* w1 w2"
    and "w3 = abort w2 client \<or> w3 = drop_staged w2 client \<and> ws_staging w2 client \<noteq> None"
  shows "forget_cwd (ws_topology w3) = forget_cwd (ws_topology w) \<and> ws_panes w3 = ws_panes w
    \<and> ws_revision w \<le> ws_revision w3 \<and> ws_reservation w3 = None \<and> ws_prepared w3 = None"
proof -
  have w1: "ws_topology w1 = ws_topology w" "ws_panes w1 = ws_panes w" "ws_revision w1 = ws_revision w"
    "ws_reservation w1 = Some client"
    using assms(4) by (auto simp: reserve_def split: if_splits sum.splits)
  have inv1: "ws_inv w1" by (rule reserve_inv [OF reachable_inv [OF assms(1)] assms(3,2,4)])
  note held = held_run [OF assms(5) inv1 w1(4)]
  have free: "ws_prepared w2 = None" if "ws_staging w2 client \<noteq> None"
    using ws_invD(4) [OF held(1) _ held(2)] that by fastforce
  have "ws_topology w3 = ws_topology w2 \<and> ws_panes w3 = ws_panes w2 \<and> ws_revision w3 = ws_revision w2
      \<and> ws_reservation w3 = None \<and> ws_prepared w3 = None"
    using assms(6) held(2) free by (auto simp: abort_def drop_staged_def)
  then show ?thesis using held(3-) w1 by simp
qed

theorem abandoned_preparation_witness:
  "held_step no_env sample_spawn 7 reserved_sample (snd (publish reserved_sample))
   \<and> forget_cwd (ws_topology (drop_staged (snd (publish reserved_sample)) 7)) = forget_cwd (new_state 0)
   \<and> ws_reservation (drop_staged (snd (publish reserved_sample)) 7) = None"
proof -
  have step: "held_step no_env sample_spawn 7 reserved_sample (snd (publish reserved_sample))"
    unfolding held_step_def ws_step_def
    by (intro conjI exI [of _ True] step_publish [of _ "fst (publish reserved_sample)"])
      (simp_all add: reserved_sample_def publish_def new_workspace_def checked_add_def Let_def)
  have start: "reachable no_env sample_spawn 0 (new_workspace 0)" "ws_staging (new_workspace 0) 7 = None"
    by (simp_all add: reachable_def new_workspace_def)
  have "ws_staging (snd (publish reserved_sample)) 7 \<noteq> None"
    by (simp add: reserved_sample_def publish_def new_workspace_def checked_add_def Let_def)
  with abandoned_preparation [OF start create_sample_valid sample_reserve r_into_rtranclp [of "held_step no_env sample_spawn 7", OF step]] step
  show ?thesis by (simp add: new_workspace_def)
qed

section \<open>A directory recorded during a preparation is lost\<close>

definition recorded_cwds :: "native_mux_state \<Rightarrow> (string \<times> string) list" where
  "recorded_cwds s =
     concat (map (\<lambda>se. concat (map (\<lambda>w. map (\<lambda>p. (np_id p, np_cwd p)) (nw_panes w)) (ns_windows se)))
       (nm_sessions s))"

text \<open>
  \<^verbatim>\<open>respawn\<close> records the pane's new directory without looking at the reservation.  When another
  client is preparing a command, its commit installs the topology cloned when the reservation was
  taken, whatever \<^verbatim>\<open>respawn\<close> recorded in between: the new directory is lost.
\<close>

lemma respawn_directory_lost:
  assumes "ws_staging w client = Some (prep, existing)" "respawned w pane gen (Some d) = (Inr (), w1)"
    and "install_prepared w1 client prep added = (Inr (), w2)" "commit w2 client = (Inr sn, w3)"
  shows "recorded_cwds (ws_topology w3) = recorded_cwds prep"
  using assms(3,4)
  by (auto simp: install_prepared_def commit_def split: if_splits dest!: publish_keeps)

definition busy_sample :: workspace where
  "busy_sample = committed_sample\<lparr>ws_reservation := Some 7, ws_staging := [7 \<mapsto> (one_session, {pane_id 0 1})]\<rparr>"

end
