(* ===== verification/Layout_Weights.thy ===== *)
theory Layout_Weights
  imports Pane_Layout Complex_Main
begin

text \<open>
  The weights that \<^verbatim>\<open>normalize\<close> (\<^verbatim>\<open>pane_layout.rs\<close>) leaves behind sum to one up to the rounding of \<^verbatim>\<open>f32\<close>.  The
  bound counts the weights of the tree that is normalized: sums, divisions and products of positive
  numbers lose at most a few units of \<open>2 ^ -24\<close> each.
\<close>

section \<open>The sum of the weights\<close>

definition units :: "f32 \<Rightarrow> nat" where
  "units w = (case w of Fin s m \<Rightarrow> m | _ \<Rightarrow> 0)"

definition weight_total :: "f32 list \<Rightarrow> nat" where
  "weight_total ws = sum_list (map units ws)"

fun weight_count :: "mux_pane_layout \<Rightarrow> nat" where
  "weight_count (Pane i) = 0"
| "weight_count (Split d ws cs) = length ws + sum_list (map weight_count cs)"

text \<open>Every split has at most \<open>N\<close> weights, whose sum is one up to \<open>N * 2 ^ -20\<close>.\<close>

fun near_unit :: "nat \<Rightarrow> mux_pane_layout \<Rightarrow> bool" where
  "near_unit N (Pane i) = True"
| "near_unit N (Split d ws cs) =
     (length ws \<le> N \<and> \<bar>int (weight_total ws) - int f32_one\<bar> * 2 ^ 20 \<le> int N * int f32_one \<and> list_all (near_unit N) cs)"

lemma near_unit_mono: "near_unit M l \<Longrightarrow> M \<le> N \<Longrightarrow> near_unit N l"
proof (induction l)
  case (Split d ws cs)
  have "int M * int f32_one \<le> int N * int f32_one" using Split.prems(2) by (simp add: mult_right_mono)
  then show ?case using Split by (auto simp: list_all_iff)
qed simp

section \<open>Rounding errors\<close>

lemma round_half_even_error:
  assumes "0 < d"
  shows "\<bar>real (round_half_even n d) - real n / real d\<bar> \<le> 1 / 2"
proof -
  let ?q = "n div d" and ?r = "n mod d"
  have n: "real n / real d = real ?q + real ?r / real d"
    using assms by (metis add_divide_distrib div_mult_mod_eq nonzero_mult_div_cancel_right of_nat_0_less_iff of_nat_add of_nat_mult less_irrefl)
  define x where "x = real ?r / real d"
  have x: "0 \<le> x" "x < 1" using assms by (simp_all add: x_def)
  have small: "x \<le> 1 / 2" if "2 * ?r \<le> d" using that assms by (simp add: x_def field_simps)
  have big: "1 / 2 \<le> x" if "d \<le> 2 * ?r" using that assms by (simp add: x_def field_simps)
  consider "2 * ?r < d" | "d \<le> 2 * ?r" by linarith
  then show ?thesis
  proof cases
    case 1
    then have "round_half_even n d = ?q" by (simp add: round_half_even_def)
    then show ?thesis unfolding n x_def [symmetric] using x small 1 by simp
  next
    case 2
    have "round_half_even n d = Suc ?q \<or> round_half_even n d = ?q \<and> 2 * ?r = d"
      using 2 by (auto simp: round_half_even_def Let_def)
    then show ?thesis unfolding n x_def [symmetric] using x big [OF 2] small by auto
  qed
qed

lemma round_sig_error:
  assumes "0 < d"
  shows "\<bar>real (round_sig 24 n d) - real n / real d\<bar> \<le> real n / real d / 2 ^ 24 + 1 / 2"
proof -
  define e where "e = bitlen (n div d) - 24"
  let ?h = "round_half_even n (d * 2 ^ e)"
  have "\<bar>real ?h - real n / real (d * 2 ^ e)\<bar> \<le> 1 / 2" using assms by (intro round_half_even_error) simp
  then have "\<bar>real ?h - real n / real (d * 2 ^ e)\<bar> * 2 ^ e \<le> 1 / 2 * 2 ^ e" by (rule mult_right_mono) simp
  moreover have "real (round_sig 24 n d) - real n / real d = (real ?h - real n / real (d * 2 ^ e)) * 2 ^ e"
    using assms by (simp add: round_sig_def Let_def e_def [symmetric] field_simps)
  ultimately have err: "\<bar>real (round_sig 24 n d) - real n / real d\<bar> \<le> 2 ^ e / 2" by (simp add: abs_mult)
  show ?thesis
  proof (cases "e = 0")
    case True
    then show ?thesis using err by (simp add: add_increasing)
  next
    case False
    then have bl: "bitlen (n div d) - 1 = 23 + e" "0 < n div d" by (auto simp: e_def intro: gr0I)
    have "(2::nat) ^ (23 + e) \<le> n div d" using pow_bitlen_le [OF bl(2)] bl(1) by simp
    then have "(2::real) ^ (23 + e) \<le> real (n div d)" by (metis of_nat_le_iff of_nat_numeral of_nat_power)
    also have "\<dots> \<le> real n / real d" by (rule of_nat_div_le_of_nat)
    finally have "2 ^ e / 2 \<le> real n / real d / 2 ^ 24" by (simp add: power_add)
    then show ?thesis using err by simp
  qed
qed

lemma round_sig_sum_error: "\<bar>real (round_sig 24 n 1) - real n\<bar> \<le> real n / 2 ^ 24"
proof (cases "bitlen n \<le> 24")
  case True
  then show ?thesis by (simp add: round_sig_def round_half_even_def)
next
  case False
  define e where "e = bitlen n - 24"
  have bl: "bitlen n - 1 = 23 + e" "0 < n" using False by (auto simp: e_def intro: gr0I)
  have "(2::nat) ^ (23 + e) \<le> n" using pow_bitlen_le [OF bl(2)] bl(1) by simp
  then have big: "(2::real) ^ (23 + e) \<le> real n" by (metis of_nat_le_iff of_nat_numeral of_nat_power)
  let ?h = "round_half_even n (2 ^ e)"
  have "\<bar>real ?h - real n / real (2 ^ e)\<bar> \<le> 1 / 2" by (intro round_half_even_error) simp
  then have "\<bar>real ?h - real n / real (2 ^ e)\<bar> * 2 ^ e \<le> 1 / 2 * 2 ^ e" by (rule mult_right_mono) simp
  moreover have "real (round_sig 24 n 1) - real n = (real ?h - real n / real (2 ^ e)) * 2 ^ e"
    by (simp add: round_sig_def Let_def e_def [symmetric] field_simps)
  ultimately have "\<bar>real (round_sig 24 n 1) - real n\<bar> \<le> 2 ^ e / 2" by (simp add: abs_mult)
  also have "\<dots> \<le> real n / 2 ^ 24" using big by (simp add: power_add)
  finally show ?thesis .
qed

text \<open>The total that \<^verbatim>\<open>normalize\<close> divides by.\<close>

lemma f32_sum_error:
  assumes "\<forall>w \<in> set ws. \<exists>m. w = Fin False m \<and> representable m" "representable a"
    and "foldl f32_add (Fin False a) ws = Fin s t"
  shows "\<bar>real t - (real a + real (weight_total ws))\<bar> \<le> real (length ws) * real t / 2 ^ 23"
  using assms
proof (induction ws arbitrary: a)
  case (Cons w ws)
  obtain m where m: "w = Fin False m" "representable m" using Cons.prems(1) by auto
  let ?b = "round_sig 24 (a + m) 1"
  have notInf: "foldl f32_add (Inf u) vs \<noteq> Fin s t" if "\<forall>w \<in> set vs. \<exists>m. w = Fin False m" for u vs
    using that by (induction vs) auto
  have "?b < f32_limit"
  proof (rule ccontr)
    assume "\<not> ?b < f32_limit"
    then have "f32_add (Fin False a) w = Inf False"
      using m by (simp add: f32_add_nonneg f32_round_def del: f32_add.simps)
    with Cons.prems(1,3) notInf [of ws False] show False by (fastforce simp del: f32_add.simps)
  qed
  then have step: "f32_add (Fin False a) w = Fin False ?b" and rb: "representable ?b"
    using m by (simp_all add: f32_add_nonneg f32_round_def representable_def round_sig_idem del: f32_add.simps)
  have rest: "foldl f32_add (Fin False ?b) ws = Fin s t" using Cons.prems(3) step by (simp del: f32_add.simps)
  have IH: "\<bar>real t - (real ?b + real (weight_total ws))\<bar> \<le> real (length ws) * real t / 2 ^ 23"
    using Cons.IH [OF _ rb rest] Cons.prems(1) by simp
  have bt: "?b \<le> t" using f32_sum_ge [OF _ rb rest] Cons.prems(1) by simp
  have err: "\<bar>real ?b - real (a + m)\<bar> \<le> real (a + m) / 2 ^ 24" by (rule round_sig_sum_error)
  have "real (a + m) - real ?b \<le> real (a + m) / 2 ^ 24" using err by linarith
  then have "real (a + m) / 2 ^ 24 \<le> real ?b / 2 ^ 23" by simp
  also have "\<dots> \<le> real t / 2 ^ 23" using bt by (simp add: divide_right_mono)
  finally have "\<bar>real ?b - real (a + m)\<bar> \<le> real t / 2 ^ 23" using err by simp
  moreover have "real (weight_total (w # ws)) = real m + real (weight_total ws)"
    by (simp add: weight_total_def units_def m(1))
  moreover have "real (length (w # ws)) * real t / 2 ^ 23 = real t / 2 ^ 23 + real (length ws) * real t / 2 ^ 23"
    by (simp add: distrib_right add_divide_distrib)
  moreover have "real (a + m) = real a + real m" by simp
  ultimately show ?case using IH by linarith
qed (simp add: weight_total_def)

lemma pows: "(2::real) ^ 20 = 1048576" "(2::real) ^ 23 = 8388608" "(2::real) ^ 24 = 16777216" "(2::real) ^ 25 = 33554432"
  by simp_all

lemma f32_one_large: "(2::real) ^ 100 \<le> real f32_one"
proof -
  have "(2::real) ^ 100 \<le> 2 ^ 149" by (rule power_increasing) simp_all
  then show ?thesis by (simp add: f32_one_def)
qed

text \<open>The share of a weight, and the sum of all shares.\<close>

lemma units_share: "share w \<Longrightarrow> w = Fin False (units w) \<and> units w \<le> f32_one"
  by (auto simp: share_def units_def)

lemma f32_div_error:
  assumes "m \<le> t" "0 < t"
  shows "\<bar>real (units (f32_div (Fin False m) (Fin False t))) - real m * real f32_one / real t\<bar>
    \<le> real m * real f32_one / real t / 2 ^ 24 + 1 / 2"
proof -
  obtain q where "f32_div (Fin False m) (Fin False t) = Fin False q" using f32_div_unit [OF assms] by blast
  then have "units (f32_div (Fin False m) (Fin False t)) = round_sig 24 (m * f32_one) t"
    using assms(2) by (auto simp: units_def f32_round_def Let_def split: if_splits)
  then show ?thesis using round_sig_error [OF assms(2), of "m * f32_one"] by simp
qed

lemma f32_mul_error:
  assumes "m \<le> f32_one" "n \<le> f32_one"
  shows "\<bar>real (units (f32_mul (Fin False m) (Fin False n))) - real m * real n / real f32_one\<bar>
    \<le> real m * real n / real f32_one / 2 ^ 24 + 1 / 2"
proof -
  have pos: "0 < f32_one" by (simp add: f32_one_def)
  obtain q where "f32_mul (Fin False m) (Fin False n) = Fin False q" using f32_mul_unit [OF assms] by blast
  then have "units (f32_mul (Fin False m) (Fin False n)) = round_sig 24 (m * n) f32_one"
    by (auto simp: units_def f32_round_def Let_def split: if_splits)
  then show ?thesis using round_sig_error [OF pos, of "m * n"] by simp
qed

text \<open>Adding up terms whose errors are relative.\<close>

lemma sum_error:
  assumes "\<And>x. x \<in> set xs \<Longrightarrow> \<bar>f x - g x\<bar> \<le> g x / K + (1::real) / 2"
  shows "\<bar>sum_list (map f xs) - sum_list (map g xs)\<bar> \<le> sum_list (map g xs) / K + real (length xs) / 2"
  using assms
proof (induction xs)
  case (Cons x xs)
  have "\<bar>f x - g x\<bar> \<le> g x / K + 1 / 2" "\<bar>sum_list (map f xs) - sum_list (map g xs)\<bar> \<le> sum_list (map g xs) / K + real (length xs) / 2"
    using Cons by simp_all
  then show ?case by (simp add: add_divide_distrib)
qed simp

lemma sum_list_scale: "sum_list (map (\<lambda>x. real (h x) * c) xs) = real (sum_list (map h xs)) * c"
  by (induction xs) (simp_all add: distrib_right)

lemma real_sum_list: "real (sum_list (map h xs)) = sum_list (map (\<lambda>x. real (h x)) xs)"
  by (induction xs) simp_all

lemma shares_error:
  assumes "ws \<noteq> []" "\<not> list_ex bad_weight ws" "list_all f32_valid ws" "is_finite (f32_sum ws)" "length ws \<le> 2 ^ 20"
  shows "\<bar>real (sum_list (map (\<lambda>w. units (f32_div w (f32_sum ws))) ws)) - real f32_one\<bar>
    \<le> real f32_one * (2 * real (length ws) + 2) / 2 ^ 24"
proof -
  have good: "\<exists>m. v = Fin False m \<and> 0 < m \<and> representable m" if "v \<in> set ws" for v
    using assms(2,3) that by (intro good_weight) (auto simp: list_ex_iff list_all_iff)
  then have fin: "\<forall>w \<in> set ws. \<exists>m. w = Fin False m \<and> representable m" by blast
  obtain s t where st: "f32_sum ws = Fin s t"
    using assms(4) by (cases "f32_sum ws") (auto simp: is_finite_def)
  with f32_sum_ge [OF fin, of 0 s t]
  have t: "\<not> s" "\<forall>w \<in> set ws. \<exists>m. w = Fin False m \<and> m \<le> t" by (auto simp: f32_sum_def)
  have pos: "0 < t"
  proof -
    obtain v where "v \<in> set ws" using assms(1) by (cases ws) auto
    then show ?thesis using good [of v] t(2) by fastforce
  qed
  let ?S = "real (weight_total ws)" and ?A = "real f32_one" and ?n = "real (length ws)"
  have S: "\<bar>real t - ?S\<bar> \<le> ?n * real t / 2 ^ 23"
    using f32_sum_error [OF fin, of 0 s t] st by (simp add: f32_sum_def)
  have "\<bar>real (units (f32_div w (f32_sum ws))) - real (units w) * (?A / real t)\<bar> \<le> real (units w) * (?A / real t) / 2 ^ 24 + 1 / 2"
    if w: "w \<in> set ws" for w
  proof -
    obtain m where m: "w = Fin False m" "m \<le> t" using t(2) w by blast
    then have "units w = m" by (simp add: units_def)
    then show ?thesis using f32_div_error [OF m(2) pos] st t(1) m(1) by (simp del: f32_div.simps)
  qed
  from sum_error [of ws "\<lambda>w. real (units (f32_div w (f32_sum ws)))" "\<lambda>w. real (units w) * (?A / real t)", OF this]
  have Q: "\<bar>real (sum_list (map (\<lambda>w. units (f32_div w (f32_sum ws))) ws)) - ?S * (?A / real t)\<bar>
      \<le> ?S * (?A / real t) / 2 ^ 24 + ?n / 2"
    unfolding sum_list_scale real_sum_list weight_total_def [symmetric] .
  have "\<bar>real t - ?S\<bar> * (?A / real t) \<le> ?n * real t / 2 ^ 23 * (?A / real t)"
    using S by (intro mult_right_mono) simp_all
  also have "\<bar>real t - ?S\<bar> * (?A / real t) = \<bar>(real t - ?S) * (?A / real t)\<bar>" by (simp add: abs_mult)
  also have "(real t - ?S) * (?A / real t) = ?A - ?S * (?A / real t)" using pos by (simp add: left_diff_distrib diff_divide_distrib)
  also have "?n * real t / 2 ^ 23 * (?A / real t) = ?n * ?A / 2 ^ 23" using pos by simp
  finally have X: "\<bar>?A - ?S * (?A / real t)\<bar> \<le> ?n * ?A / 2 ^ 23" .
  have n: "?n \<le> 2 ^ 20" using assms(5) by (metis of_nat_le_iff of_nat_numeral of_nat_power)
  have "?n * ?A \<le> 2 ^ 20 * ?A" using n by (intro mult_right_mono) simp_all
  moreover have "?n / 2 \<le> ?A / 2 ^ 25" using n f32_one_large unfolding pows by simp
  moreover have "?A * (2 * ?n + 2) / 2 ^ 24 = 2 * (?n * ?A) / 2 ^ 24 + 2 * ?A / 2 ^ 24"
    by (simp add: distrib_left add_divide_distrib)
  moreover define z Q' where "z = ?S * (?A / real t)" and "Q' = real (sum_list (map (\<lambda>w. units (f32_div w (f32_sum ws))) ws))"
  ultimately show ?thesis using Q X unfolding z_def [symmetric] Q'_def [symmetric] pows by linarith
qed

section \<open>Splicing\<close>

text \<open>A share that is distributed over the weights of a normalized child.\<close>

lemma scaled_error:
  assumes q: "share q" and iw: "list_all unit_weight iw" and len: "length iw \<le> N"
    and near: "\<bar>int (weight_total iw) - int f32_one\<bar> * 2 ^ 20 \<le> int N * int f32_one" and N: "N \<le> 2 ^ 20"
  shows "\<bar>real (weight_total (map (f32_mul q) iw)) - real (units q)\<bar>
    \<le> real (units q) * (16 * real N + 2) / 2 ^ 24 + real N / 2"
proof -
  let ?A = "real f32_one" and ?V = "real (weight_total iw)" and ?q = "real (units q)"
  have A: "0 < ?A" by (simp add: f32_one_def)
  have near': "\<bar>?V - ?A\<bar> * 2 ^ 20 \<le> real N * ?A"
  proof -
    have "real_of_int (\<bar>int (weight_total iw) - int f32_one\<bar> * 2 ^ 20) \<le> real_of_int (int N * int f32_one)"
      using near by (simp only: of_int_le_iff)
    then show ?thesis by simp
  qed
  have v: "\<bar>?V / ?A - 1\<bar> \<le> 16 * real N / 2 ^ 24"
  proof -
    have "\<bar>?V / ?A - 1\<bar> = \<bar>?V - ?A\<bar> / ?A" using A by (simp add: abs_div_pos diff_divide_distrib)
    also have "\<dots> \<le> 16 * real N / 2 ^ 24" using near' A by (simp add: pos_divide_le_eq)
    finally show ?thesis .
  qed
  have NN: "real N \<le> 2 ^ 20" using N by (metis of_nat_le_iff of_nat_numeral of_nat_power)
  then have v2: "?V / ?A \<le> 2" using v unfolding pows by linarith
  have "\<bar>real (units (f32_mul q w)) - real (units w) * (?q / ?A)\<bar> \<le> real (units w) * (?q / ?A) / 2 ^ 24 + 1 / 2"
    if w: "w \<in> set iw" for w
  proof -
    have "share w" using iw w by (auto simp: list_all_iff intro: unit_weight_share)
    from units_share [OF this] units_share [OF q] f32_mul_error [of "units q" "units w"]
    show ?thesis by (metis (no_types, lifting) mult.commute times_divide_eq_left times_divide_eq_right)
  qed
  from sum_error [of iw "\<lambda>w. real (units (f32_mul q w))" "\<lambda>w. real (units w) * (?q / ?A)", OF this]
  have P: "\<bar>real (weight_total (map (f32_mul q) iw)) - ?V * (?q / ?A)\<bar> \<le> ?V * (?q / ?A) / 2 ^ 24 + real (length iw) / 2"
    unfolding sum_list_scale real_sum_list weight_total_def map_map comp_def .
  have "\<bar>?V / ?A - 1\<bar> * ?q \<le> 16 * real N / 2 ^ 24 * ?q" using v by (rule mult_right_mono) simp
  moreover have "\<bar>?V / ?A - 1\<bar> * ?q = \<bar>?V * (?q / ?A) - ?q\<bar>"
  proof -
    have "?V * (?q / ?A) - ?q = (?V / ?A - 1) * ?q" by (simp add: left_diff_distrib)
    then show ?thesis by (simp add: abs_mult)
  qed
  moreover have "?V * (?q / ?A) \<le> 2 * ?q"
  proof -
    have "?V / ?A * ?q \<le> 2 * ?q" using v2 by (rule mult_right_mono) simp
    then show ?thesis by simp
  qed
  moreover have "?q * (16 * real N + 2) / 2 ^ 24 = 16 * real N / 2 ^ 24 * ?q + 2 * ?q / 2 ^ 24"
    by (simp add: distrib_left add_divide_distrib)
  moreover have "real (length iw) \<le> real N" using len by simp
  moreover define z T where "z = ?V * (?q / ?A)" and "T = real (weight_total (map (f32_mul q) iw))"
  ultimately show ?thesis using P unfolding z_def [symmetric] T_def [symmetric] pows by linarith
qed

text \<open>The weights of the spliced children against the shares of the children.\<close>

lemma weight_total_append: "weight_total (xs @ ys) = weight_total xs + weight_total ys"
  by (simp add: weight_total_def)

lemma splice_child_near:
  assumes eq: "splice_child d q n (fc, fw) = (gc, gw)" and n: "canonical n" "near_unit K n" and q: "share q"
    and M: "K \<le> M" "M \<le> 2 ^ 20"
    and fc: "list_all (near_unit M) fc"
  shows "list_all (near_unit M) gc \<and> length gw \<le> 1 + K + length fw
    \<and> \<bar>real (weight_total gw) - real (weight_total fw) - real (units q)\<bar> \<le> real (units q) * (16 * real M + 2) / 2 ^ 24 + real M / 2"
proof (cases "same_axis d n")
  case True
  then obtain iw ic where n': "n = Split d iw ic"
    by (auto simp: same_axis_def split: mux_pane_layout.splits)
  have nM: "near_unit M n" by (rule near_unit_mono [OF n(2) M(1)])
  have g: "gc = ic @ fc" "gw = map (f32_mul q) iw @ fw" using eq by (auto simp: n' splice_child_def)
  have "\<bar>real (weight_total (map (f32_mul q) iw)) - real (units q)\<bar> \<le> real (units q) * (16 * real M + 2) / 2 ^ 24 + real M / 2"
    using n(1) nM n' by (intro scaled_error [OF q _ _ _ M(2)]) simp_all
  then show ?thesis using n nM fc by (simp add: g weight_total_append n')
next
  case False
  then have g: "gc = n # fc" "gw = q # fw"
    using eq by (cases n; auto simp: splice_child_def same_axis_def)+
  have "weight_total gw = units q + weight_total fw" by (simp add: g weight_total_def)
  moreover have "0 \<le> real (units q) * (16 * real M + 2) / 2 ^ 24 + real M / 2" by simp
  ultimately show ?thesis using near_unit_mono [OF n(2) M(1)] fc by (simp add: g)
qed

lemma near_bound:
  fixes n M A Q T :: real
  assumes n: "1 \<le> n" "n \<le> 2 ^ 20" and M: "0 \<le> M" "M \<le> 2 ^ 20" and A: "2 ^ 100 \<le> A"
    and Q: "\<bar>Q - A\<bar> \<le> A * (2 * n + 2) / 2 ^ 24" and T: "\<bar>T - Q\<bar> \<le> Q * (16 * M + 2) / 2 ^ 24 + n * (M / 2)"
  shows "\<bar>T - A\<bar> * 2 ^ 20 \<le> (n + M) * A"
proof -
  have A0: "0 \<le> A" using A order_trans [OF zero_le_power A] by simp
  have k: "(2 * n + 2) * (16 * M + 2) \<le> (2 * n + 3) * 2 ^ 24"
  proof -
    have "(2 * n + 2) * (16 * M + 2) \<le> (2 * n + 2) * (2 ^ 24 + 2)"
      using n M unfolding pows by (intro mult_left_mono) simp_all
    also have "\<dots> \<le> (2 * n + 3) * 2 ^ 24" using n unfolding pows by simp
    finally show ?thesis .
  qed
  have "Q \<le> A + A * (2 * n + 2) / 2 ^ 24" using Q by linarith
  then have "Q * (16 * M + 2) \<le> (A + A * (2 * n + 2) / 2 ^ 24) * (16 * M + 2)" using M by (intro mult_right_mono) simp_all
  also have "\<dots> = A * (16 * M + 2) + A * ((2 * n + 2) * (16 * M + 2)) / 2 ^ 24" by (simp add: distrib_right)
  also have "A * ((2 * n + 2) * (16 * M + 2)) / 2 ^ 24 \<le> A * ((2 * n + 3) * 2 ^ 24) / 2 ^ 24"
    using k A0 by (intro divide_right_mono mult_left_mono) simp_all
  also have "A * ((2 * n + 3) * 2 ^ 24) / 2 ^ 24 = A * (2 * n + 3)" unfolding mult.assoc [symmetric] by (rule nonzero_mult_div_cancel_right) simp
  finally have QK: "Q * (16 * M + 2) \<le> A * (16 * M + 2) + A * (2 * n + 3)" by simp
  have "n * (M / 2) \<le> 2 ^ 20 * (2 ^ 20 / 2)" using n M by (intro mult_mono) simp_all
  also have "\<dots> \<le> A / 2 ^ 25"
  proof -
    have "(2::real) ^ 20 * (2 ^ 20 / 2) * 2 ^ 25 \<le> 2 ^ 100" by simp
    then show ?thesis using A by (simp add: pos_le_divide_eq)
  qed
  finally have small: "n * (M / 2) \<le> A / 2 ^ 25" .
  have "\<bar>T - A\<bar> \<le> A * (2 * n + 2) / 2 ^ 24 + Q * (16 * M + 2) / 2 ^ 24 + A / 2 ^ 25" using Q T small by linarith
  also have "\<dots> \<le> A * (2 * n + 2) / 2 ^ 24 + (A * (16 * M + 2) + A * (2 * n + 3)) / 2 ^ 24 + A / 2 ^ 25"
    using QK by (intro add_mono divide_right_mono) simp_all
  also have "\<dots> = A * (4 * n + 16 * M + 7 + 1 / 2) / 2 ^ 24" by (simp add: field_simps)
  also have "\<dots> \<le> A * (16 * (n + M)) / 2 ^ 24" using n A0 by (intro divide_right_mono mult_left_mono) simp_all
  finally have "\<bar>T - A\<bar> \<le> A * (16 * (n + M)) / 2 ^ 24" .
  then have "\<bar>T - A\<bar> * 2 ^ 20 \<le> A * (16 * (n + M)) / 2 ^ 24 * 2 ^ 20" by (rule mult_right_mono) simp
  also have "\<dots> = (n + M) * A" by simp
  finally show ?thesis .
qed

section \<open>Normalization\<close>

lemma normalize_near_aux:
  "normalize l = Some n \<Longrightarrow> valid_layout l \<Longrightarrow> weight_count l \<le> 2 ^ 20 \<Longrightarrow> near_unit (weight_count l) n"
  "splice d tot cs ws = Some (fc, fw) \<Longrightarrow> length cs = length ws \<Longrightarrow> list_all valid_layout cs \<Longrightarrow>
     (\<forall>w \<in> set ws. share (f32_div w tot)) \<Longrightarrow> (\<forall>c \<in> set cs. weight_count c \<le> M) \<Longrightarrow> M \<le> 2 ^ 20 \<Longrightarrow>
     list_all (near_unit M) fc \<and> length fw \<le> length ws + sum_list (map weight_count cs)
     \<and> \<bar>real (weight_total fw) - real (sum_list (map (\<lambda>w. units (f32_div w tot)) ws))\<bar>
         \<le> real (sum_list (map (\<lambda>w. units (f32_div w tot)) ws)) * (16 * real M + 2) / 2 ^ 24 + real (length ws) * (real M / 2)"
proof (induction l and d tot cs ws arbitrary: n and fc fw M rule: normalize_splice.induct)
  case (1 i)
  then show ?case by auto
next
  case (2 d ws cs)
  obtain fc fw where sp: "splice d (f32_sum ws) cs ws = Some (fc, fw)"
    using 2(2) by (auto split: if_splits option.splits)
  from 2(2) have cond: "cs \<noteq> []" "length cs = length ws" "\<not> list_ex bad_weight ws" "is_finite (f32_sum ws)"
    by (auto split: if_splits)
  define M where "M = sum_list (map weight_count cs)"
  have N: "weight_count (Split d ws cs) = length ws + M" by (simp add: M_def)
  then have small: "length ws \<le> 2 ^ 20" "M \<le> 2 ^ 20" using 2(4) by simp_all
  have vs: "list_all f32_valid ws" "list_all valid_layout cs" using 2(3) by simp_all
  have wsn: "ws \<noteq> []" using cond by auto
  have shares: "\<forall>w \<in> set ws. share (f32_div w (f32_sum ws))"
    using weights_shares [OF wsn cond(3) vs(1) cond(4)] by blast
  have "\<forall>c \<in> set cs. weight_count c \<le> M" unfolding M_def by (auto intro: member_le_sum_list)
  from 2(1) [OF _ _ sp cond(2) vs(2) shares this small(2)] cond
  have IH: "list_all (near_unit M) fc" "length fw \<le> length ws + M"
    "\<bar>real (weight_total fw) - real (sum_list (map (\<lambda>w. units (f32_div w (f32_sum ws))) ws))\<bar>
       \<le> real (sum_list (map (\<lambda>w. units (f32_div w (f32_sum ws))) ws)) * (16 * real M + 2) / 2 ^ 24 + real (length ws) * (real M / 2)"
    by (simp_all add: M_def)
  have all: "list_all (near_unit (length ws + M)) fc" using IH(1) near_unit_mono by (fastforce simp: list_all_iff)
  show ?case
  proof (cases "length fc = 1")
    case True
    then obtain c where c: "fc = [c]" by (auto simp: length_Suc_conv)
    with 2(2) sp have "n = c" by (auto split: if_splits)
    then show ?thesis using all c unfolding N by simp
  next
    case False
    with 2(2) sp have n: "n = Split d fw fc" by (auto split: if_splits)
    have "1 \<le> real (length ws)" using wsn by (cases ws) simp_all
    moreover have "real (length ws) \<le> 2 ^ 20" "real M \<le> 2 ^ 20"
      using small by (metis of_nat_le_iff of_nat_numeral of_nat_power)+
    ultimately have "\<bar>real (weight_total fw) - real f32_one\<bar> * 2 ^ 20 \<le> (real (length ws) + real M) * real f32_one"
      by (intro near_bound [OF _ _ _ _ f32_one_large shares_error [OF wsn cond(3) vs(1) cond(4) small(1)] IH(3)]) simp_all
    then have "real_of_int (\<bar>int (weight_total fw) - int f32_one\<bar> * 2 ^ 20) \<le> real_of_int (int (length ws + M) * int f32_one)"
      by simp
    then have "\<bar>int (weight_total fw) - int f32_one\<bar> * 2 ^ 20 \<le> int (length ws + M) * int f32_one"
      by (simp only: of_int_le_iff)
    then show ?thesis using n all IH(2) unfolding N by simp
  qed
next
  case (3 d tot c cs w ws)
  obtain m fc0 fw0 where m: "normalize c = Some m"
      and sp: "splice d tot cs ws = Some (fc0, fw0)"
      and eq: "splice_child d (f32_div w tot) m (fc0, fw0) = (fc, fw)"
    using 3(3) by (auto split: option.splits)
  have valid: "valid_layout c" "list_all valid_layout cs" using 3(5) by simp_all
  have cM: "weight_count c \<le> M" "M \<le> 2 ^ 20" using 3(7,8) by simp_all
  have near: "near_unit (weight_count c) m" using 3(1) [OF m valid(1)] cM by simp
  have can: "canonical m" by (rule normalize_canonical [OF m valid(1)])
  have q: "share (f32_div w tot)" using 3(6) by simp
  from 3(4,6,7) have rest: "length cs = length ws" "\<forall>w \<in> set ws. share (f32_div w tot)" "\<forall>c \<in> set cs. weight_count c \<le> M"
    by simp_all
  from 3(2) [OF m sp rest(1) valid(2) rest(2,3) cM(2)]
  have IH: "list_all (near_unit M) fc0" "length fw0 \<le> length ws + sum_list (map weight_count cs)"
    "\<bar>real (weight_total fw0) - real (sum_list (map (\<lambda>w. units (f32_div w tot)) ws))\<bar>
       \<le> real (sum_list (map (\<lambda>w. units (f32_div w tot)) ws)) * (16 * real M + 2) / 2 ^ 24 + real (length ws) * (real M / 2)"
    by simp_all
  note child = splice_child_near [OF eq can near q cM IH(1)]
  let ?q = "real (units (f32_div w tot))" and ?Q = "real (sum_list (map (\<lambda>w. units (f32_div w tot)) ws))"
  have e1: "(?q + ?Q) * (16 * real M + 2) / 2 ^ 24 = ?q * (16 * real M + 2) / 2 ^ 24 + ?Q * (16 * real M + 2) / 2 ^ 24"
    by (simp add: distrib_right add_divide_distrib)
  have e2: "real (length (w # ws)) * (real M / 2) = real M / 2 + real (length ws) * (real M / 2)"
    by (simp add: distrib_right)
  have e3: "real (sum_list (map (\<lambda>w. units (f32_div w tot)) (w # ws))) = ?q + ?Q" by simp
  have "\<bar>real (weight_total fw) - real (sum_list (map (\<lambda>w. units (f32_div w tot)) (w # ws)))\<bar>
      \<le> real (sum_list (map (\<lambda>w. units (f32_div w tot)) (w # ws))) * (16 * real M + 2) / 2 ^ 24 + real (length (w # ws)) * (real M / 2)"
    unfolding e3 e2 e1 using conjunct2 [OF conjunct2 [OF child]] IH(3) by linarith
  then show ?case using child IH(2) by (simp del: f32_div.simps)
qed (auto simp: weight_total_def)

section \<open>Property\<close>

text \<open>
  C22.  Normalizing any layout a client can send either rejects it or yields the canonical form, with the same panes in
  the same order: at least two children, no child split along its parent's axis, every weight in (0, 1], and
  the weights of every split sum to one up to \<open>N * 2 ^ -20\<close>, where \<open>N\<close> is the number of weights in the layout that
  was sent (the sum is exact but for the rounding of \<^verbatim>\<open>f32\<close>).
\<close>

theorem normalize_correct:
  assumes "valid_layout l" "weight_count l \<le> 2 ^ 20" "normalize l = Some n"
  shows "canonical n \<and> near_unit (weight_count l) n \<and> leaves n = leaves l"
  using normalize_canonical [OF assms(3,1)] normalize_near_aux(1) [OF assms(3,1,2)] normalize_leaves [OF assms(3)] by blast

theorem normalize_correct_witness:
  "canonical (Split SplitDown [f32_half, f32_half] [Pane ''a'', Pane ''b''])
   \<and> near_unit 2 (Split SplitDown [f32_half, f32_half] [Pane ''a'', Pane ''b''])"
  using normalize_correct [OF _ _ normalize_halves [of SplitDown "''a''" "''b''"]]
  by (simp add: unit_weight_valid half_unit)

end
