(* ===== verification/Session_Membership.thy ===== *)
theory Session_Membership
  imports Session_Snapshot
begin

text \<open>
  \<^verbatim>\<open>crates/bootty-mux/src/session_membership.rs\<close>: the ordered list of sessions a Space claims.
  Labels of the form \<^verbatim>\<open>group/name\<close> grp sessions; reordering keeps a group together.
  The snapshot behind the \<^verbatim>\<open>Arc\<close> is a plain value.
\<close>

definition label_group :: "string \<Rightarrow> string" where
  "label_group label =
     (if CHR ''/'' \<in> set label then takeWhile (\<lambda>c. c \<noteq> CHR ''/'') label else '''')"

record session_state =
  st_pinned :: bool
  st_last_activity_at :: "int option"
  st_projectless :: bool
  st_server_generation :: "nat option"

datatype session_state_change = SetPinned bool | RecordActivity int int

record workspace_session =
  wo_identity :: string
  wo_backend_name :: string
  wo_display_name :: string
  wo_explicit :: bool
  wo_cwd :: string
  wo_state :: session_state
  wo_terminal_snapshot :: "saved_terminal_session option"

definition session_label :: "workspace_session \<Rightarrow> string" where
  "session_label s = (if wo_display_name s = [] then wo_backend_name s else wo_display_name s)"

abbreviation group_of :: "workspace_session \<Rightarrow> string" where
  "group_of s \<equiv> label_group (session_label s)"

type_synonym membership = "workspace_session list"

definition get_session :: "membership \<Rightarrow> string \<Rightarrow> workspace_session option" where
  "get_session m i = find (\<lambda>s. wo_identity s = i) m"

definition contains_session :: "membership \<Rightarrow> string \<Rightarrow> bool" where
  "contains_session m i = (get_session m i \<noteq> None)"

definition backend_names :: "membership \<Rightarrow> string list" where
  "backend_names m = map wo_backend_name m"

definition position :: "membership \<Rightarrow> string \<Rightarrow> nat option" where
  "position m i = find_index (\<lambda>s. wo_identity s = i) m"

definition put_member :: "membership \<Rightarrow> string \<Rightarrow> workspace_session \<Rightarrow> membership" where
  "put_member m i s = update_first (\<lambda>x. wo_identity x = i) (\<lambda>_. s) m"

text \<open>\<^verbatim>\<open>rposition\<close>: the last match.\<close>

definition rposition :: "('a \<Rightarrow> bool) \<Rightarrow> 'a list \<Rightarrow> nat option" where
  "rposition p xs = map_option (\<lambda>i. length xs - 1 - i) (find_index p (rev xs))"

definition claim :: "membership \<Rightarrow> workspace_session \<Rightarrow> bool \<times> membership" where
  "claim m s =
     (if wo_identity s = [] \<or> contains_session m (wo_identity s) then (False, m)
      else
        (let grp = group_of s;
             insert_at = (case (if grp \<noteq> [] then map_option Suc (rposition (\<lambda>x. group_of x = grp) m)
                                else None) of
                            None \<Rightarrow> length m
                          | Some i \<Rightarrow> i)
         in (True, insert_nth insert_at s m)))"

definition release :: "membership \<Rightarrow> string \<Rightarrow> workspace_session option \<times> membership" where
  "release m i =
     (case position m i of
        None \<Rightarrow> (None, m)
      | Some p \<Rightarrow> (Some (m ! p), remove_nth p m))"

section \<open>Facts about one session\<close>

definition observe_backend_name :: "membership \<Rightarrow> string \<Rightarrow> string \<Rightarrow> bool \<times> membership" where
  "observe_backend_name m i name =
     (case get_session m i of
        None \<Rightarrow> (False, m)
      | Some s \<Rightarrow> if wo_backend_name s = name then (False, m)
                  else (True, put_member m i (s\<lparr>wo_backend_name := name\<rparr>)))"

definition observe_server_generation :: "membership \<Rightarrow> string \<Rightarrow> nat option \<Rightarrow> membership" where
  "observe_server_generation m i g =
     (case get_session m i of
        None \<Rightarrow> m
      | Some s \<Rightarrow> put_member m i (s\<lparr>wo_state := (wo_state s)\<lparr>st_server_generation := g\<rparr>\<rparr>))"

definition set_display_name :: "membership \<Rightarrow> string \<Rightarrow> string \<Rightarrow> bool \<Rightarrow> bool \<times> membership" where
  "set_display_name m i name explicit =
     (case get_session m i of
        None \<Rightarrow> (False, m)
      | Some s \<Rightarrow> if wo_display_name s = name \<and> wo_explicit s = explicit then (False, m)
                  else (True, put_member m i (s\<lparr>wo_display_name := name, wo_explicit := explicit\<rparr>)))"

definition set_cwd :: "membership \<Rightarrow> string \<Rightarrow> string \<Rightarrow> bool \<times> membership" where
  "set_cwd m i cwd =
     (case get_session m i of
        None \<Rightarrow> (False, m)
      | Some s \<Rightarrow> if wo_cwd s = cwd then (False, m)
                  else (True, put_member m i (s\<lparr>wo_cwd := cwd\<rparr>)))"

definition set_terminal_snapshot ::
  "membership \<Rightarrow> string \<Rightarrow> saved_terminal_session \<Rightarrow> bool \<times> membership" where
  "set_terminal_snapshot m i snap =
     (case get_session m i of
        None \<Rightarrow> (False, m)
      | Some s \<Rightarrow> if wo_terminal_snapshot s = Some snap then (False, m)
                  else (True, put_member m i (s\<lparr>wo_terminal_snapshot := Some snap\<rparr>)))"

fun apply_state_change :: "session_state_change \<Rightarrow> session_state \<Rightarrow> session_state" where
  "apply_state_change (SetPinned p) st = st\<lparr>st_pinned := p\<rparr>"
| "apply_state_change (RecordActivity at now) st =
     (if 0 \<le> at \<and> at \<le> now
         \<and> (case st_last_activity_at st of None \<Rightarrow> True | Some prev \<Rightarrow> prev < at)
      then st\<lparr>st_last_activity_at := Some at\<rparr> else st)"

definition set_state :: "membership \<Rightarrow> string \<Rightarrow> session_state_change \<Rightarrow> bool \<times> membership" where
  "set_state m i change =
     (case get_session m i of
        None \<Rightarrow> (False, m)
      | Some s \<Rightarrow>
          (let st = apply_state_change change (wo_state s)
           in (st \<noteq> wo_state s, put_member m i (s\<lparr>wo_state := st\<rparr>))))"

section \<open>Reordering\<close>

definition block :: "membership \<Rightarrow> string \<Rightarrow> nat \<Rightarrow> (nat \<times> nat) option" where
  "block m grp index =
     (if \<not> index < length m then None
      else if grp = [] then Some (index, index + 1)
      else
        (let preceding = length (takeWhile (\<lambda>s. group_of s = grp) (rev (take index m)));
             following = length (takeWhile (\<lambda>s. group_of s = grp) (drop index m))
         in Some (index - preceding, index + following)))"

definition block_start :: "membership \<Rightarrow> nat \<Rightarrow> nat option" where
  "block_start m index =
     Option.bind (get_nth m index) (\<lambda>s. map_option fst (block m (group_of s) index))"

definition block_end :: "membership \<Rightarrow> nat \<Rightarrow> nat option" where
  "block_end m index =
     Option.bind (get_nth m index) (\<lambda>s. Option.bind (block m (group_of s) index)
       (\<lambda>(_, e). if e < length m then Some e else None))"

definition move_within_group :: "membership \<Rightarrow> nat \<Rightarrow> nat option \<Rightarrow> bool \<times> membership" where
  "move_within_group m from anchor =
     (let to = (case anchor of None \<Rightarrow> length m | Some a \<Rightarrow> a);
          insert_at = (if from < to then to - 1 else to)
      in if insert_at = from then (False, m)
         else (True, insert_nth insert_at (m ! from) (remove_nth from m)))"

definition move_block :: "membership \<Rightarrow> string \<Rightarrow> nat \<Rightarrow> nat option \<Rightarrow> bool \<times> membership" where
  "move_block m grp from anchor =
     (case block m grp from of
        None \<Rightarrow> (False, m)
      | Some (start, end) \<Rightarrow>
          (let insert_at = (case Option.bind anchor (block_start m) of None \<Rightarrow> length m | Some a \<Rightarrow> a)
           in if start \<le> insert_at \<and> insert_at \<le> end then (False, m)
              else
                (let lifted = take (end - start) (drop start m);
                     rest = take start m @ drop end m;
                     at = (if start < insert_at then insert_at - length lifted else insert_at)
                 in (True, take at rest @ lifted @ drop at rest))))"

definition move_before :: "membership \<Rightarrow> string \<Rightarrow> string option \<Rightarrow> bool \<times> membership" where
  "move_before m source before =
     (case position m source of
        None \<Rightarrow> (False, m)
      | Some from \<Rightarrow>
          (case (case before of
                   None \<Rightarrow> Some None
                 | Some b \<Rightarrow> map_option Some (position m b)) of
             None \<Rightarrow> (False, m)
           | Some anchor \<Rightarrow>
               (let grp = group_of (m ! from)
                in if grp \<noteq> []
                      \<and> (case Option.bind anchor (get_nth m) of
                           None \<Rightarrow> False | Some s \<Rightarrow> group_of s = grp)
                   then move_within_group m from anchor
                   else move_block m grp from anchor)))"

definition move_by :: "membership \<Rightarrow> string \<Rightarrow> int \<Rightarrow> bool \<times> membership" where
  "move_by m i delta =
     (if delta = 0 then (False, m)
      else
        (case position m i of
           None \<Rightarrow> (False, m)
         | Some from \<Rightarrow>
             (case (if delta < 0 then (if from = 0 then None else Some (from - 1))
                    else (if from + 1 < length m then Some (from + 1) else None)) of
                None \<Rightarrow> (False, m)
              | Some neighbour \<Rightarrow>
                  (let grp = group_of (m ! from)
                   in if grp \<noteq> [] \<and> group_of (m ! neighbour) = grp
                      then (True, m[from := m ! neighbour, neighbour := m ! from])
                      else move_block m grp from
                             (if delta < 0 then block_start m neighbour else block_end m neighbour)))))"

section \<open>Reordering is a permutation\<close>

lemma position_lt: "position m i = Some p \<Longrightarrow> p < length m \<and> wo_identity (m ! p) = i"
  by (auto simp: position_def dest: find_index_SomeD)

lemma mset_block_move:
  assumes "start \<le> end" "end \<le> length m"
  shows "mset (take at (take start m @ drop end m) @ take (end - start) (drop start m)
      @ drop at (take start m @ drop end m)) = mset m"
proof -
  have "mset (take at xs @ ys @ drop at xs) = mset ys + mset xs" for xs ys :: "'a list"
    by (metis append_take_drop_id mset_append union_assoc union_commute)
  then have "mset (take at (take start m @ drop end m) @ take (end - start) (drop start m)
      @ drop at (take start m @ drop end m))
      = mset (take (end - start) (drop start m)) + mset (take start m @ drop end m)" .
  also have "\<dots> = mset (take start m @ take (end - start) (drop start m) @ drop end m)"
    by (simp add: union_ac)
  also have "take start m @ take (end - start) (drop start m) @ drop end m = m"
    using assms by (metis append.assoc append_take_drop_id le_add_diff_inverse take_add)
  finally show ?thesis .
qed

lemma block_bounds:
  assumes "block m grp from = Some (start, end)"
  shows "start \<le> from" "from < length m" "end \<le> length m" "start \<le> end"
proof -
  have "length (takeWhile (\<lambda>s. group_of s = grp) (drop from m)) \<le> length m - from"
    using length_takeWhile_le [of "\<lambda>s. group_of s = grp" "drop from m"] by simp
  then show "start \<le> from" "from < length m" "end \<le> length m" "start \<le> end"
    using assms by (auto simp: block_def Let_def split: if_splits)
qed

lemma move_block_perm: "mset (snd (move_block m grp from anchor)) = mset m"
proof (cases "block m grp from")
  case (Some se)
  obtain start fin where se: "se = (start, fin)" by (cases se)
  note B = block_bounds [OF Some [unfolded se]]
  show ?thesis
    using Some se mset_block_move [OF B(4,3)] by (simp add: move_block_def Let_def)
qed (simp add: move_block_def)

lemma move_within_perm:
  "from < length m \<Longrightarrow> mset (snd (move_within_group m from anchor)) = mset m"
  by (simp add: move_within_group_def Let_def mset_insert_nth mset_remove_nth)

lemma move_before_perm: "mset (snd (move_before m source before)) = mset m"
  by (auto simp: move_before_def Let_def move_block_perm move_within_perm position_lt
      split: option.splits)

lemma move_by_perm: "mset (snd (move_by m i delta)) = mset m"
  by (auto simp: move_by_def Let_def move_block_perm position_lt mset_swap split: option.splits
      dest!: position_lt)

section \<open>Groups stay together\<close>

text \<open>The occurrences of a value form one contiguous run.\<close>

definition run_ends :: "'a \<Rightarrow> 'a list \<Rightarrow> bool" where
  "run_ends h xs \<longleftrightarrow> h \<notin> set (dropWhile (\<lambda>x. x = h) xs)"

definition contiguous :: "'a \<Rightarrow> 'a list \<Rightarrow> bool" where
  "contiguous h xs \<longleftrightarrow> run_ends h (dropWhile (\<lambda>x. x \<noteq> h) xs)"

definition grouped :: "membership \<Rightarrow> bool" where
  "grouped m \<longleftrightarrow> (\<forall>g. g \<noteq> [] \<longrightarrow> contiguous g (map group_of m))"

lemma run_ends_simps [simp]:
  "run_ends h []" "run_ends h (x # xs) = (if x = h then run_ends h xs else h \<notin> set xs)"
  by (auto simp: run_ends_def)

lemma contiguous_simps [simp]:
  "contiguous h []" "contiguous h (x # xs) = (if x = h then run_ends h xs else contiguous h xs)"
  by (auto simp: contiguous_def)

lemma run_ends_absent: "h \<notin> set xs \<Longrightarrow> run_ends h xs"
  by (induction xs) auto

lemma contiguous_absent: "h \<notin> set xs \<Longrightarrow> contiguous h xs"
  by (induction xs) auto

lemma run_ends_contiguous: "run_ends h xs \<Longrightarrow> contiguous h xs"
  by (induction xs) (auto intro: contiguous_absent)

lemma run_ends_drop_middle: "run_ends h (x @ b @ y) \<Longrightarrow> run_ends h (x @ y)"
proof (induction x)
  case Nil
  then show ?case by (induction b) (auto intro: run_ends_absent split: if_splits)
qed (auto split: if_splits)

lemma contiguous_drop_middle: "contiguous h (x @ b @ y) \<Longrightarrow> contiguous h (x @ y)"
proof (induction x)
  case Nil
  then show ?case
  proof (induction b)
    case (Cons c b)
    then show ?case
      using run_ends_drop_middle [of h "[]" b y] by (auto intro: run_ends_contiguous split: if_splits)
  qed simp
next
  case (Cons c x)
  then show ?case using run_ends_drop_middle [of h x b y] by (auto split: if_splits)
qed

lemma run_ends_insert:
  assumes "run_ends h (x @ y)" "h \<notin> set b" "y = [] \<or> x \<noteq> [] \<and> last x \<noteq> h \<or> hd y \<noteq> h"
  shows "run_ends h (x @ b @ y)"
  using assms
proof (induction x)
  case Nil
  then have "h \<notin> set y" by (cases y) auto
  with Nil show ?case by (auto intro: run_ends_absent)
next
  case (Cons c x)
  show ?case
  proof (cases "c = h")
    case True
    with Cons.prems have "run_ends h (x @ y)" "y = [] \<or> x \<noteq> [] \<and> last x \<noteq> h \<or> hd y \<noteq> h"
      by (auto split: if_splits)
    with Cons.IH Cons.prems(2) True show ?thesis by simp
  qed (use Cons.prems in auto)
qed

lemma contiguous_insert:
  assumes "contiguous h (x @ y)" "h \<notin> set b"
    and "x = [] \<or> y = [] \<or> last x \<noteq> h \<or> hd y \<noteq> h"
  shows "contiguous h (x @ b @ y)"
  using assms
proof (induction x)
  case Nil
  have "contiguous h (b @ y)" if "h \<notin> set b" for b using that Nil.prems(1) by (induction b) auto
  with Nil show ?case by simp
next
  case (Cons c x)
  show ?case
  proof (cases "c = h")
    case True
    with Cons.prems have "run_ends h (x @ y)" by simp
    moreover have "y = [] \<or> x \<noteq> [] \<and> last x \<noteq> h \<or> hd y \<noteq> h"
      using Cons.prems(3) True by (auto split: if_splits)
    ultimately show ?thesis using run_ends_insert [of h x y b] Cons.prems(2) True by simp
  next
    case False
    then show ?thesis using Cons by (cases "x = []") (auto split: if_splits)
  qed
qed

lemma contiguous_run: "h \<notin> set a \<Longrightarrow> h \<notin> set b \<Longrightarrow> contiguous h (a @ replicate n h @ b)"
proof (induction a)
  case Nil
  have "run_ends h (replicate k h @ b)" for k using Nil.prems(2) by (induction k) (auto intro: run_ends_absent)
  then show ?case by (auto intro: run_ends_contiguous)
qed auto

lemma contiguous_split:
  assumes "contiguous h xs"
  obtains a n b where "xs = a @ replicate n h @ b" "h \<notin> set a" "h \<notin> set b"
proof -
  let ?a = "takeWhile (\<lambda>x. x \<noteq> h) xs" let ?r = "dropWhile (\<lambda>x. x \<noteq> h) xs"
  let ?run = "takeWhile (\<lambda>x. x = h) ?r" let ?b = "dropWhile (\<lambda>x. x = h) ?r"
  have "?run = replicate (length ?run) h"
    by (metis (mono_tags, lifting) replicate_length_same set_takeWhileD)
  moreover have "xs = ?a @ ?run @ ?b" by simp
  moreover have "h \<notin> set ?a" by (auto dest: set_takeWhileD)
  moreover have "h \<notin> set ?b" using assms by (simp add: contiguous_def run_ends_def)
  ultimately show ?thesis using that by metis
qed

lemma contiguous_block:
  assumes "xs = a @ replicate n g @ b" "g \<notin> set a" "g \<notin> set b" "length a \<le> i" "i < length a + n"
  shows "length (takeWhile (\<lambda>x. x = g) (rev (take i xs))) = i - length a"
    "length (takeWhile (\<lambda>x. x = g) (drop i xs)) = length a + n - i"
proof -
  have "take i xs = a @ replicate (i - length a) g" using assms(1,4,5) by (simp add: min_def)
  then have "rev (take i xs) = replicate (i - length a) g @ rev a" by simp
  moreover have "takeWhile (\<lambda>x. x = g) (replicate k g @ c) = replicate k g" if "g \<notin> set c" for k c
    using that by (induction k) (auto simp: takeWhile_eq_Nil_iff dest: hd_in_set)
  ultimately show "length (takeWhile (\<lambda>x. x = g) (rev (take i xs))) = i - length a"
    using assms(2) by simp
  have "drop i xs = replicate (length a + n - i) g @ b" using assms(1,4,5) by simp
  moreover have "takeWhile (\<lambda>x. x = g) (replicate k g @ c) = replicate k g" if "g \<notin> set c" for k c
    using that by (induction k) (auto simp: takeWhile_eq_Nil_iff dest: hd_in_set)
  ultimately show "length (takeWhile (\<lambda>x. x = g) (drop i xs)) = length a + n - i"
    using assms(3) by simp
qed

lemma member_of_run:
  assumes "xs = a @ replicate n g @ b" "g \<notin> set a" "g \<notin> set b" "i < length xs" "xs ! i = g"
  shows "length a \<le> i" "i < length a + n"
proof -
  show "length a \<le> i"
  proof (rule ccontr)
    assume "\<not> length a \<le> i"
    then have "xs ! i \<in> set a" using assms(1) by (simp add: nth_append)
    with assms show False by simp
  qed
  show "i < length a + n"
  proof (rule ccontr)
    assume "\<not> i < length a + n"
    moreover from this have "\<not> i < length a" "\<not> i - length a < n" by simp_all
    ultimately have "xs ! i \<in> set b" using assms(1,4) by (simp add: nth_append)
    with assms show False by simp
  qed
qed

text \<open>In a grouped list the block of a session is its whole group.\<close>

lemma grouped_block:
  assumes "grouped m" "i < length m" "group_of (m ! i) = grp" "grp \<noteq> []"
  obtains a n b where "map group_of m = a @ replicate n grp @ b" "grp \<notin> set a" "grp \<notin> set b"
    "block m grp i = Some (length a, length a + n)" "0 < n"
proof -
  obtain a n b where gs: "map group_of m = a @ replicate n grp @ b" "grp \<notin> set a" "grp \<notin> set b"
    using assms(1,4) contiguous_split unfolding grouped_def by metis
  have i: "length a \<le> i" "i < length a + n"
    using member_of_run [OF gs] assms(2,3) by simp_all
  have tw: "length (takeWhile (\<lambda>s. group_of s = grp) ys) = length (takeWhile (\<lambda>x. x = grp) (map group_of ys))" for ys
    by (simp add: takeWhile_map comp_def)
  have "block m grp i = Some (length a, length a + n)"
    using contiguous_block [OF gs i] i assms(2,4)
    by (simp add: block_def Let_def tw rev_map take_map drop_map)
  with gs i that show ?thesis by (metis le_add1 le_add_same_cancel1 less_le_trans nat_le_linear not_less order_le_less_trans zero_less_iff_neq_zero add_0_right)
qed

text \<open>A place where no group is cut.\<close>

definition boundary :: "nat \<Rightarrow> string list \<Rightarrow> bool" where
  "boundary p gs \<longleftrightarrow> p = 0 \<or> length gs \<le> p \<or> gs ! p = [] \<or> gs ! (p - 1) \<noteq> gs ! p"

lemma block_start_boundary:
  assumes "grouped m" "block_start m i = Some p"
  shows "boundary p (map group_of m) \<and> p \<le> length m"
proof -
  have i: "i < length m" and bl: "map_option fst (block m (group_of (m ! i)) i) = Some p"
    using assms(2) by (auto simp: block_start_def get_nth_def bind_eq_Some_conv split: if_splits)
  show ?thesis
  proof (cases "group_of (m ! i) = []")
    case True
    then show ?thesis using i bl by (auto simp: block_def boundary_def)
  next
    case False
    obtain a n b where gs: "map group_of m = a @ replicate n (group_of (m ! i)) @ b" "group_of (m ! i) \<notin> set a"
      "block m (group_of (m ! i)) i = Some (length a, length a + n)" "0 < n"
      using grouped_block [OF assms(1) i refl False] by metis
    have p: "p = length a" using bl gs(3) by simp
    have "a ! (length a - 1) \<noteq> group_of (m ! i)" if "a \<noteq> []" using gs(2) that by (metis last_conv_nth last_in_set)
    then have "boundary p (map group_of m)"
      unfolding gs(1) p boundary_def using gs(4) by (cases "a = []") (auto simp: nth_append)
    moreover have "p \<le> length m" using arg_cong [OF gs(1), of length] p by simp
    ultimately show ?thesis ..
  qed
qed

lemma boundary_cut:
  assumes "boundary p gs" "h \<noteq> []" "0 < p" "p < length gs"
  shows "last (take p gs) \<noteq> h \<or> hd (drop p gs) \<noteq> h"
proof -
  have "last (take p gs) = gs ! (p - 1)" using assms(3,4) by (subst last_conv_nth) (auto simp: min_def)
  moreover have "hd (drop p gs) = gs ! p" using assms(4) by (simp add: hd_drop_conv_nth)
  ultimately show ?thesis using assms by (auto simp: boundary_def)
qed

text \<open>The lifted block either avoids a group or is all of it.\<close>

lemma block_contents:
  assumes "grouped m" "block m (group_of (m ! from)) from = Some (start, fin)" "h \<noteq> []"
  shows "h \<notin> set (take (fin - start) (drop start (map group_of m)))
    \<or> h \<notin> set (take start (map group_of m) @ drop fin (map group_of m))
      \<and> take (fin - start) (drop start (map group_of m)) = replicate (fin - start) h"
proof (cases "group_of (m ! from) = []")
  case True
  then have "start = from" "fin = Suc from" "from < length m" using assms(2) by (auto simp: block_def split: if_splits)
  then show ?thesis using True assms(3) by (simp add: take_Suc hd_drop_conv_nth)
next
  case False
  have i: "from < length m" using block_bounds [OF assms(2)] by simp
  obtain a n b where gs: "map group_of m = a @ replicate n (group_of (m ! from)) @ b" "group_of (m ! from) \<notin> set a"
      "group_of (m ! from) \<notin> set b" "block m (group_of (m ! from)) from = Some (length a, length a + n)"
    using grouped_block [OF assms(1) i refl False] by metis
  have "start = length a" "fin = length a + n" using gs(4) assms(2) by simp_all
  then have "take start (map group_of m) = a" "drop fin (map group_of m) = b"
    "take (fin - start) (drop start (map group_of m)) = replicate n (group_of (m ! from))"
    by (simp_all add: gs(1))
  then show ?thesis using gs(2,3) \<open>start = length a\<close> \<open>fin = length a + n\<close> by auto
qed

lemma cut_before:
  assumes "p < start" "start \<le> length gs"
  shows "take p (take start gs @ zs) = take p gs" "hd (drop p (take start gs @ zs)) = gs ! p"
proof -
  show "take p (take start gs @ zs) = take p gs" using assms by (simp add: min_def)
  have "drop p (take start gs @ zs) = drop p (take start gs) @ zs" using assms by simp
  moreover have "drop p (take start gs) \<noteq> []" using assms by simp
  ultimately show "hd (drop p (take start gs @ zs)) = gs ! p" using assms by (simp add: hd_drop_conv_nth)
qed

lemma cut_after:
  assumes "start \<le> fin" "fin < p" "p \<le> length gs"
  shows "last (take (p - (fin - start)) (take start gs @ drop fin gs)) = last (take p gs)"
    "drop (p - (fin - start)) (take start gs @ drop fin gs) = drop p gs"
proof -
  have len: "length (take start gs) = start" using assms by simp
  have eq: "p - (fin - start) = start + (p - fin)" using assms by simp
  have "take (p - (fin - start)) (take start gs @ drop fin gs) = take start gs @ take (p - fin) (drop fin gs)"
    unfolding eq using len by simp
  moreover have "take p gs = take fin gs @ take (p - fin) (drop fin gs)"
    using assms by (metis le_add_diff_inverse less_imp_le take_add)
  moreover have "take (p - fin) (drop fin gs) \<noteq> []" using assms by simp
  ultimately show "last (take (p - (fin - start)) (take start gs @ drop fin gs)) = last (take p gs)" by simp
  show "drop (p - (fin - start)) (take start gs @ drop fin gs) = drop p gs"
    unfolding eq using len assms by simp
qed

lemma move_contiguous:
  assumes c: "contiguous h gs" and b: "start \<le> fin" "fin \<le> length gs"
    and avoid: "h \<notin> set (take (fin - start) (drop start gs))"
    and p: "boundary p gs" "p \<le> length gs" "p < start \<or> fin < p" "h \<noteq> []"
    and at: "at = (if start < p then p - (fin - start) else p)"
  shows "contiguous h (take at (take start gs @ drop fin gs) @ take (fin - start) (drop start gs)
    @ drop at (take start gs @ drop fin gs))"
proof (rule contiguous_insert [OF _ avoid])
  have "gs = take start gs @ take (fin - start) (drop start gs) @ drop fin gs"
    using b by (metis append.assoc append_take_drop_id le_add_diff_inverse take_add)
  then have "contiguous h (take start gs @ drop fin gs)" using c contiguous_drop_middle by metis
  then show "contiguous h (take at (take start gs @ drop fin gs) @ drop at (take start gs @ drop fin gs))"
    by (simp only: append_take_drop_id)
  show "take at (take start gs @ drop fin gs) = [] \<or> drop at (take start gs @ drop fin gs) = []
      \<or> last (take at (take start gs @ drop fin gs)) \<noteq> h \<or> hd (drop at (take start gs @ drop fin gs)) \<noteq> h"
  proof (cases "p < start")
    case True
    have "p < length gs" using True b by simp
    then have "hd (drop p gs) = gs ! p" by (rule hd_drop_conv_nth)
    moreover have "p = 0 \<or> last (take p gs) \<noteq> h \<or> hd (drop p gs) \<noteq> h"
      using boundary_cut [OF p(1,4)] \<open>p < length gs\<close> by blast
    ultimately show ?thesis using True b cut_before [of p start gs "drop fin gs"] by (auto simp: at)
  next
    case False
    then have fin: "fin < p" using p(3) by simp
    have "p = length gs \<or> last (take p gs) \<noteq> h \<or> hd (drop p gs) \<noteq> h"
      using boundary_cut [OF p(1,4)] p(2) fin by (metis le_neq_implies_less less_zeroE not_gr_zero)
    moreover have "at = p - (fin - start)" using fin b by (simp add: at)
    ultimately show ?thesis using cut_after [OF b(1) fin p(2)] by auto
  qed
qed

lemma move_block_grouped:
  assumes gr: "grouped m"
  shows "grouped (snd (move_block m (group_of (m ! from)) from anchor))"
proof (cases "snd (move_block m (group_of (m ! from)) from anchor) = m")
  case False
  let ?g = "group_of (m ! from)" let ?gs = "map group_of m"
  obtain start fin where bl: "block m ?g from = Some (start, fin)"
    using False by (cases "block m ?g from") (auto simp: move_block_def)
  define p where "p = (case Option.bind anchor (block_start m) of None \<Rightarrow> length m | Some a \<Rightarrow> a)"
  define at where "at = (if start < p then p - (fin - start) else p)"
  note B = block_bounds [OF bl]
  have lift: "length (take (fin - start) (drop start m)) = fin - start" using B by simp
  have out: "p < start \<or> fin < p"
    using False bl by (auto simp: move_block_def p_def Let_def split: if_splits)
  have new: "snd (move_block m ?g from anchor) = take at (take start m @ drop fin m)
      @ take (fin - start) (drop start m) @ drop at (take start m @ drop fin m)"
    using False bl lift by (auto simp: move_block_def Let_def at_def simp flip: p_def split: if_splits)
  have bd: "boundary p ?gs" "p \<le> length ?gs"
    using block_start_boundary [OF gr] by (auto simp: p_def boundary_def bind_eq_Some_conv split: option.splits)
  let ?rest = "take start ?gs @ drop fin ?gs"
  have "contiguous h (take at ?rest @ take (fin - start) (drop start ?gs) @ drop at ?rest)" if h: "h \<noteq> []" for h
  proof (cases "h \<in> set (take (fin - start) (drop start ?gs))")
    case True
    with block_contents [OF gr bl h] have "h \<notin> set ?rest"
      "take (fin - start) (drop start ?gs) = replicate (fin - start) h" by blast+
    then show ?thesis using contiguous_run in_set_takeD in_set_dropD by metis
  next
    case False
    show ?thesis
      using move_contiguous [OF _ B(4) _ False bd out h at_def] gr h B(3) by (simp add: grouped_def)
  qed
  then show ?thesis unfolding grouped_def by (simp add: new take_map drop_map)
qed (use gr in simp)

lemma move_block_group: "grouped m \<Longrightarrow> group_of (m ! from) = g \<Longrightarrow> grouped (snd (move_block m g from anchor))"
  using move_block_grouped by blast

lemma grouped_cong: "map group_of m1 = map group_of m \<Longrightarrow> grouped m \<Longrightarrow> grouped m1"
  by (simp add: grouped_def)

lemma move_within_grouped:
  assumes gr: "grouped m" and i: "from < length m" "to < length m"
    and g: "group_of (m ! from) = g" "group_of (m ! to) = g" "g \<noteq> []"
  shows "grouped (snd (move_within_group m from (Some to)))"
proof (rule grouped_cong [OF _ gr])
  obtain a n b where gs: "map group_of m = a @ replicate n g @ b" "g \<notin> set a" "g \<notin> set b"
    using grouped_block [OF gr i(1) g(1,3)] by metis
  have f: "length a \<le> from" "from < length a + n" and t: "length a \<le> to" "to < length a + n"
    using member_of_run [OF gs, of "from"] member_of_run [OF gs, of to] i g by simp_all
  define k where "k = (if from < to then to - 1 else to)"
  have k: "length a \<le> k" "k \<le> length a + (n - 1)" using f t by (auto simp: k_def)
  have rem: "remove_nth from (a @ replicate n g @ b) = a @ replicate (n - 1) g @ b"
  proof -
    have "drop (Suc from) (a @ replicate n g @ b) = replicate (length a + n - Suc from) g @ b"
      using f by simp
    moreover have "take from (a @ replicate n g @ b) = a @ replicate (from - length a) g"
      using f by (simp add: min_def)
    moreover have "replicate (from - length a) g @ replicate (length a + n - Suc from) g = replicate (n - 1) g"
      using f by (simp flip: replicate_add)
    ultimately show ?thesis by (simp add: remove_nth_def)
  qed
  have "insert_nth k g (a @ replicate (n - 1) g @ b) = a @ replicate n g @ b"
  proof -
    have "take k (a @ replicate (n - 1) g @ b) = a @ replicate (k - length a) g"
      using k by (simp add: min_def)
    moreover have "drop k (a @ replicate (n - 1) g @ b) = replicate (length a + (n - 1) - k) g @ b"
      using k by simp
    moreover have "replicate (k - length a) g @ g # replicate (length a + (n - 1) - k) g = replicate n g"
      using k f by (simp add: replicate_app_Cons_same flip: replicate_Suc replicate_add)
    ultimately show ?thesis unfolding insert_nth_def by (metis append.assoc append_Cons)
  qed
  then have "map group_of (insert_nth k (m ! from) (remove_nth from m)) = map group_of m"
    using g(1) rem gs(1) by (simp add: map_insert_nth map_remove_nth)
  then show "map group_of (snd (move_within_group m from (Some to))) = map group_of m"
    by (simp add: move_within_group_def Let_def flip: k_def)
qed

lemma move_before_grouped:
  assumes "grouped m"
  shows "grouped (snd (move_before m source before))"
  using assms
  by (auto simp: move_before_def Let_def get_nth_def bind_eq_Some_conv
      split: option.splits if_splits dest!: position_lt intro: move_within_grouped move_block_group)

lemma move_by_grouped:
  assumes "grouped m"
  shows "grouped (snd (move_by m i delta))"
proof -
  have swap: "grouped (m[from := m ! k, k := m ! from])"
    if "from < length m" "k < length m" "group_of (m ! k) = group_of (m ! from)" for "from" k
  proof (rule grouped_cong [OF _ assms])
    show "map group_of (m[from := m ! k, k := m ! from]) = map group_of m"
      using that by (simp add: map_update) (metis list_update_id nth_map)
  qed
  then show ?thesis
    using assms
    by (auto simp: move_by_def Let_def split: option.splits dest!: position_lt intro: move_block_group)
qed

lemma release_grouped:
  assumes "grouped m"
  shows "grouped (snd (release m i))"
proof (cases "position m i")
  case (Some p)
  then have "p < length m" using position_lt by blast
  then have "map group_of m = take p (map group_of m) @ [group_of (m ! p)] @ drop (Suc p) (map group_of m)"
    using arg_cong [OF id_take_nth_drop [of p m], of "map group_of"] by (simp add: take_map drop_map)
  then have "contiguous h (take p (map group_of m) @ drop (Suc p) (map group_of m))" if "h \<noteq> []" for h
    using assms that contiguous_drop_middle unfolding grouped_def by metis
  then show ?thesis
    using Some by (simp add: release_def grouped_def map_remove_nth) (simp add: remove_nth_def)
qed (use assms in \<open>simp add: release_def\<close>)

lemma rposition_Some:
  assumes "rposition p xs = Some i"
  shows "i < length xs" "p (xs ! i)" "\<forall>j. i < j \<and> j < length xs \<longrightarrow> \<not> p (xs ! j)"
proof -
  obtain k where k: "find_index p (rev xs) = Some k" "i = length xs - 1 - k"
    using assms by (auto simp: rposition_def)
  have k': "k < length xs" "p (rev xs ! k)" "\<forall>j < k. \<not> p (rev xs ! j)"
    using find_index_SomeD [OF k(1)] by auto
  show "i < length xs" "p (xs ! i)" using k' k(2) by (auto simp: rev_nth)
  show "\<forall>j. i < j \<and> j < length xs \<longrightarrow> \<not> p (xs ! j)"
  proof (intro allI impI)
    fix j assume j: "i < j \<and> j < length xs"
    then have "length xs - 1 - j < k" using k(2) k'(1) by arith
    then have "\<not> p (rev xs ! (length xs - 1 - j))" using k'(3) by blast
    moreover have "rev xs ! (length xs - 1 - j) = xs ! j" using j by (subst rev_nth) auto
    ultimately show "\<not> p (xs ! j)" by simp
  qed
qed

lemma insert_contiguous:
  assumes "contiguous h gs" "p \<le> length gs" "x \<noteq> h"
    and "p = 0 \<or> p = length gs \<or> gs ! (p - 1) \<noteq> h"
  shows "contiguous h (insert_nth p x gs)"
proof -
  have "contiguous h (take p gs @ [x] @ drop p gs)"
  proof (rule contiguous_insert)
    show "contiguous h (take p gs @ drop p gs)" using assms(1) by simp
    show "take p gs = [] \<or> drop p gs = [] \<or> last (take p gs) \<noteq> h \<or> hd (drop p gs) \<noteq> h"
    proof (cases "p = 0")
      case False
      then have "last (take p gs) = gs ! (p - 1)" if "p < length gs"
        using that by (subst last_conv_nth) (auto simp: min_def)
      then show ?thesis using assms(2,4) False by auto
    qed simp
  qed (use assms(3) in simp)
  then show ?thesis by (simp add: insert_nth_def)
qed

lemma claim_grouped:
  assumes gr: "grouped m"
  shows "grouped (snd (claim m s))"
proof (cases "wo_identity s = [] \<or> contains_session m (wo_identity s)")
  case False
  let ?g = "group_of s" let ?gs = "map group_of m"
  define p where "p = (case (if ?g \<noteq> [] then map_option Suc (rposition (\<lambda>x. group_of x = ?g) m) else None) of
    None \<Rightarrow> length m | Some i \<Rightarrow> i)"
  have new: "map group_of (snd (claim m s)) = insert_nth p ?g ?gs"
    using False by (simp add: claim_def Let_def map_insert_nth flip: p_def)
  have "contiguous h (insert_nth p ?g ?gs)" if h: "h \<noteq> []" for h
  proof (cases "?g \<noteq> [] \<and> rposition (\<lambda>x. group_of x = ?g) m \<noteq> None")
    case True
    then obtain i where i: "rposition (\<lambda>x. group_of x = ?g) m = Some i" "?g \<noteq> []" by blast
    note R = rposition_Some [OF i(1)]
    have p: "p = Suc i" using i by (simp add: p_def)
    show ?thesis
    proof (cases "h = ?g")
      case True
      obtain a n b where gs: "?gs = a @ replicate n ?g @ b" "?g \<notin> set a" "?g \<notin> set b"
        using grouped_block [OF gr R(1,2) i(2)] by metis
      have "length a \<le> i" "i < length a + n" using member_of_run [OF gs, of i] R(1,2) by simp_all
      moreover have "\<not> Suc i < length a + n"
      proof
        assume *: "Suc i < length a + n"
        then have "Suc i - length a < n" using \<open>length a \<le> i\<close> by simp
        then have "?gs ! Suc i = ?g" using gs(1) \<open>length a \<le> i\<close> by (simp add: nth_append)
        moreover have "Suc i < length m" using * arg_cong [OF gs(1), of length] by simp
        ultimately show False using R(3) by auto
      qed
      ultimately have "p = length a + n" using p by simp
      then have "insert_nth p ?g ?gs = a @ replicate (Suc n) ?g @ b"
        by (simp add: insert_nth_def gs(1) replicate_app_Cons_same)
      then show ?thesis using True gs(2,3) contiguous_run by metis
    next
      case False
      then show ?thesis
        using gr h R(1,2) p by (intro insert_contiguous) (auto simp: grouped_def)
    qed
  next
    case False
    then have "p = length m" by (auto simp: p_def)
    then have app: "insert_nth p ?g ?gs = ?gs @ [?g]" by (simp add: insert_nth_def)
    show ?thesis
    proof (cases "h = ?g")
      case True
      then have "rposition (\<lambda>x. group_of x = ?g) m = None" using False h by auto
      then have "?g \<notin> set ?gs" by (auto simp: rposition_def find_index_None)
      then show ?thesis using contiguous_run [of ?g ?gs "[]" 1] True app by simp
    next
      case False
      then show ?thesis
        unfolding app using contiguous_insert [of h ?gs "[]" "[?g]"] gr h by (simp add: grouped_def)
    qed
  qed
  then show ?thesis unfolding grouped_def new by blast
qed (use gr in \<open>simp add: claim_def\<close>)

section \<open>Runs of membership operations\<close>

datatype member_edit =
    MClaim workspace_session
  | MRelease string
  | MObserveName string string
  | MObserveGeneration string "nat option"
  | MDisplayName string string bool
  | MCwd string string
  | MSnapshot string saved_terminal_session
  | MState string session_state_change
  | MMoveBefore string "string option"
  | MMoveBy string int

fun apply_member :: "member_edit \<Rightarrow> membership \<Rightarrow> membership" where
  "apply_member (MClaim s) m = snd (claim m s)"
| "apply_member (MRelease i) m = snd (release m i)"
| "apply_member (MObserveName i n) m = snd (observe_backend_name m i n)"
| "apply_member (MObserveGeneration i g) m = observe_server_generation m i g"
| "apply_member (MDisplayName i n e) m = snd (set_display_name m i n e)"
| "apply_member (MCwd i c) m = snd (set_cwd m i c)"
| "apply_member (MSnapshot i s) m = snd (set_terminal_snapshot m i s)"
| "apply_member (MState i c) m = snd (set_state m i c)"
| "apply_member (MMoveBefore s b) m = snd (move_before m s b)"
| "apply_member (MMoveBy i d) m = snd (move_by m i d)"

definition identities :: "membership \<Rightarrow> string list" where
  "identities m = map wo_identity m"

definition membership_inv :: "membership \<Rightarrow> bool" where
  "membership_inv m \<longleftrightarrow> distinct (identities m) \<and> [] \<notin> set (identities m)"

fun member_adds :: "member_edit \<Rightarrow> string set" where
  "member_adds (MClaim s) = {wo_identity s}"
| "member_adds _ = {}"

lemma identities_put: "wo_identity s = i \<Longrightarrow> identities (put_member m i s) = identities m"
  unfolding identities_def put_member_def by (rule update_first_map) simp

lemma get_session_id: "get_session m i = Some s \<Longrightarrow> wo_identity s = i"
  by (auto simp: get_session_def dest: find_SomeD)

lemma mset_identities: "mset m1 = mset m \<Longrightarrow> mset (identities m1) = mset (identities m)"
  by (simp add: identities_def)

lemma membership_inv_mset: "mset (identities m1) = mset (identities m) \<Longrightarrow> membership_inv m \<Longrightarrow> membership_inv m1"
  unfolding membership_inv_def using distinct_mset_cong mset_eq_setD by metis

lemma claim_identities:
  "snd (claim m s) = m
   \<or> wo_identity s \<notin> set (identities m) \<and> wo_identity s \<noteq> []
     \<and> mset (identities (snd (claim m s))) = mset (wo_identity s # identities m)"
  by (auto simp: claim_def contains_session_def get_session_def find_None_iff' identities_def
      map_insert_nth mset_insert_nth Let_def)

lemma release_identities:
  "snd (release m i) = m \<or> mset (identities m) = mset (i # identities (snd (release m i)))"
proof (cases "position m i")
  case (Some p)
  then have "p < length (identities m)" "identities m ! p = i"
    using position_lt [OF Some] by (simp_all add: identities_def)
  from mset_remove_nth [OF this(1)] this(2) Some show ?thesis
    by (simp add: release_def identities_def map_remove_nth)
qed (simp add: release_def)

lemma edit_identities:
  assumes "\<nexists>s. e = MClaim s" "\<nexists>i. e = MRelease i"
  shows "mset (identities (apply_member e m)) = mset (identities m)"
proof (cases e)
  case (MMoveBefore s b)
  then show ?thesis using mset_identities [OF move_before_perm] by simp
next
  case (MMoveBy i d)
  then show ?thesis using mset_identities [OF move_by_perm] by simp
qed (use assms in \<open>auto simp: observe_backend_name_def observe_server_generation_def set_display_name_def
    set_cwd_def set_terminal_snapshot_def set_state_def Let_def identities_put
    dest: get_session_id split: option.splits\<close>)

lemma apply_member_spec:
  assumes inv: "membership_inv m"
  shows "membership_inv (apply_member e m) \<and> set (identities (apply_member e m)) \<subseteq> set (identities m) \<union> member_adds e"
proof (cases e)
  case (MClaim s)
  show ?thesis
    using claim_identities [of m s]
  proof
    assume new: "wo_identity s \<notin> set (identities m) \<and> wo_identity s \<noteq> []
      \<and> mset (identities (snd (claim m s))) = mset (wo_identity s # identities m)"
    then have "mset (identities (snd (claim m s))) = mset (wo_identity s # identities m)" by simp
    from distinct_mset_cong [OF this] mset_eq_setD [OF this] new inv MClaim show ?thesis
      by (auto simp: membership_inv_def)
  qed (use inv MClaim in auto)
next
  case (MRelease i)
  show ?thesis
    using release_identities [of m i]
  proof
    assume "mset (identities m) = mset (i # identities (snd (release m i)))"
    from distinct_mset_cong [OF this] mset_eq_setD [OF this] inv MRelease show ?thesis
      by (auto simp: membership_inv_def)
  qed (use inv MRelease in auto)
qed (use edit_identities [of e m] membership_inv_mset [OF edit_identities [of e m] inv]
    mset_eq_setD [OF edit_identities [of e m]] in simp_all)

interpretation members: accounted_machine apply_member membership_inv "\<lambda>_. True"
  "\<lambda>m. set (identities m)" member_adds
  by unfold_locales (use apply_member_spec in blast)+

section \<open>Properties\<close>

text \<open>
  Reordering sessions in the sidebar is a permutation: both the drag and the step operation
  neither lose nor duplicate nor change a session, whatever the indices.
\<close>

lemma moves_permute:
  "mset (snd (move_before m source before)) = mset m \<and> mset (snd (move_by m i delta)) = mset m"
  using move_before_perm move_by_perm by blast

text \<open>
  C28.  Groups stay contiguous: when the sessions of every named group are adjacent, they still are
  after claiming a session, releasing one, dragging one or stepping one.
\<close>

theorem groups_stay_contiguous:
  assumes "grouped m"
  shows "grouped (snd (claim m s)) \<and> grouped (snd (release m i))
    \<and> grouped (snd (move_before m source before)) \<and> grouped (snd (move_by m i delta))"
  using claim_grouped [OF assms] release_grouped [OF assms] move_before_grouped [OF assms]
    move_by_grouped [OF assms] by blast

text \<open>
  Two groups of two sessions with a session of no group between them: dragging the first session to
  the end takes its whole group along, and a session claimed into a group joins it.
\<close>

definition sample_member :: "string \<Rightarrow> string \<Rightarrow> workspace_session" where
  "sample_member ident label =
     \<lparr>wo_identity = ident, wo_backend_name = label, wo_display_name = [], wo_explicit = False, wo_cwd = [],
      wo_state = \<lparr>st_pinned = False, st_last_activity_at = None, st_projectless = False,
                   st_server_generation = None\<rparr>,
      wo_terminal_snapshot = None\<rparr>"

definition sample_members :: membership where
  "sample_members =
     [sample_member ''1'' ''a/x'', sample_member ''2'' ''a/y'', sample_member ''3'' ''solo'',
      sample_member ''4'' ''b/x'', sample_member ''5'' ''b/y'']"

lemma sample_groups: "map group_of sample_members = [''a'', ''a'', [], ''b'', ''b'']"
  by code_simp

lemma sample_grouped: "grouped sample_members"
  by (simp add: grouped_def sample_groups contiguous_def)

theorem groups_stay_contiguous_witness:
  "grouped sample_members
   \<and> identities (snd (move_before sample_members ''1'' None)) = [''3'', ''4'', ''5'', ''1'', ''2'']
   \<and> grouped (snd (move_before sample_members ''1'' None))
   \<and> identities (snd (move_by sample_members ''4'' (-1))) = [''1'', ''2'', ''4'', ''5'', ''3'']
   \<and> grouped (snd (move_by sample_members ''4'' (-1)))
   \<and> identities (snd (claim sample_members (sample_member ''6'' ''a/z''))) = [''1'', ''2'', ''6'', ''3'', ''4'', ''5'']
   \<and> grouped (snd (claim sample_members (sample_member ''6'' ''a/z'')))
   \<and> grouped (snd (release sample_members ''1''))"
proof -
  have "identities (snd (move_before sample_members ''1'' None)) = [''3'', ''4'', ''5'', ''1'', ''2'']"
    by code_simp
  moreover have "identities (snd (move_by sample_members ''4'' (-1))) = [''1'', ''2'', ''4'', ''5'', ''3'']"
    by code_simp
  moreover have "identities (snd (claim sample_members (sample_member ''6'' ''a/z'')))
      = [''1'', ''2'', ''6'', ''3'', ''4'', ''5'']"
    by code_simp
  ultimately show ?thesis
    using groups_stay_contiguous [OF sample_grouped] sample_grouped by blast
qed

text \<open>
  Through any sequence of membership operations the identities stay distinct and non-empty,
  and no identity appears that was not claimed.
\<close>

lemma membership_runs:
  assumes "membership_inv m"
  shows "membership_inv (fold apply_member es m)
    \<and> set (identities (fold apply_member es m)) \<subseteq> set (identities m) \<union> \<Union> (member_adds ` set es)"
  using members.run_inv [OF assms, of es] members.run_holds [OF assms, of es] by (simp add: list_all_iff)

end
