(* ===== verification/Output_Backlog.thy ===== *)
theory Output_Backlog
  imports Bootty_Prelude
begin

text \<open>
  \<^verbatim>\<open>crates/bootty-terminal/src/pty_backlog.rs\<close>: the queue of terminal output between the reader of
  a pseudo terminal and the terminal engine, and the budgeted drain.  The abstraction of a backlog
  is its byte sequence.  The callbacks that receive slices are modelled by the list of slices; the
  clock is the parameter \<open>clock\<close>, the microseconds elapsed at its successive readings.
\<close>

definition MAX_DRAIN_BYTES :: nat where "MAX_DRAIN_BYTES = 4 * 1024 * 1024"

definition MAX_DRAIN_CHUNKS :: nat where "MAX_DRAIN_CHUNKS = 32"

definition MAX_DRAIN_SLICE_BYTES :: nat where "MAX_DRAIN_SLICE_BYTES = 64 * 1024"

definition MAX_DRAIN_TIME_US :: nat where "MAX_DRAIN_TIME_US = 20000"

record output_backlog =
  ob_chunks :: "string list"
  ob_bytes :: nat
  ob_front_offset :: nat

definition new_backlog :: output_backlog where
  "new_backlog = \<lparr>ob_chunks = [], ob_bytes = 0, ob_front_offset = 0\<rparr>"

definition push_back :: "string \<Rightarrow> output_backlog \<Rightarrow> output_backlog" where
  "push_back bytes b =
     (if bytes = [] then b
      else
        (let b1 = b\<lparr>ob_bytes := sat_add 64 (ob_bytes b) (length bytes)\<rparr>
         in if ob_chunks b1 \<noteq> []
               \<and> sat_add 64 (length (last (ob_chunks b1))) (length bytes) \<le> MAX_DRAIN_SLICE_BYTES
            then b1\<lparr>ob_chunks := butlast (ob_chunks b1) @ [last (ob_chunks b1) @ bytes]\<rparr>
            else b1\<lparr>ob_chunks := ob_chunks b1 @ [bytes]\<rparr>))"

definition backlog_len :: "output_backlog \<Rightarrow> nat" where
  "backlog_len b = ob_bytes b"

definition backlog_is_empty :: "output_backlog \<Rightarrow> bool" where
  "backlog_is_empty b = (ob_bytes b = 0)"

definition backlog_clear :: "output_backlog \<Rightarrow> output_backlog" where
  "backlog_clear b = b\<lparr>ob_chunks := [], ob_bytes := 0, ob_front_offset := 0\<rparr>"

definition front_len :: "output_backlog \<Rightarrow> nat option" where
  "front_len b = map_option (\<lambda>front. length front - ob_front_offset b) (first_opt (ob_chunks b))"

text \<open>The consumed length, the slices handed to the callback and the backlog left.\<close>

definition consume_front :: "nat \<Rightarrow> output_backlog \<Rightarrow> nat \<times> string list \<times> output_backlog" where
  "consume_front len b =
     (case ob_chunks b of
        [] \<Rightarrow> (0, [], b)
      | chunk # rest \<Rightarrow>
          if length chunk < ob_front_offset b then (0, [], b)
          else
            (let front = drop (ob_front_offset b) chunk;
                 len1 = min len (length front);
                 b1 = b\<lparr>ob_front_offset := sat_add 64 (ob_front_offset b) len1,
                        ob_bytes := ob_bytes b - len1\<rparr>
             in (len1, [take len1 front],
                 if length chunk \<le> ob_front_offset b1
                 then b1\<lparr>ob_chunks := rest, ob_front_offset := 0\<rparr> else b1)))"

record drain_stats =
  ds_chunks :: nat
  ds_bytes :: nat
  ds_elapsed_us :: nat

definition drain_bytes_remaining_with_limit :: "drain_stats \<Rightarrow> nat \<Rightarrow> nat" where
  "drain_bytes_remaining_with_limit stats max_bytes = max_bytes - ds_bytes stats"

definition drain_slice_len_with_limit :: "drain_stats \<Rightarrow> nat \<Rightarrow> nat \<Rightarrow> nat" where
  "drain_slice_len_with_limit stats max_bytes available =
     min (min (drain_bytes_remaining_with_limit stats max_bytes) MAX_DRAIN_SLICE_BYTES) available"

definition drain_time_exhausted :: "nat \<Rightarrow> nat \<Rightarrow> bool" where
  "drain_time_exhausted elapsed max_time_us = (max_time_us \<le> elapsed)"

definition drain_budget_exhausted_with_limits :: "drain_stats \<Rightarrow> nat \<Rightarrow> nat \<Rightarrow> bool" where
  "drain_budget_exhausted_with_limits stats max_bytes max_chunks =
     (max_bytes \<le> ds_bytes stats \<or> max_chunks \<le> ds_chunks stats)"

lemma consume_front_bytes:
  "consume_front len b = (n, out, b1) \<Longrightarrow> ob_bytes b1 = ob_bytes b - n"
  by (auto simp: consume_front_def Let_def split: list.splits if_splits)

text \<open>The drain loop; \<open>k\<close> counts the readings of the clock.\<close>

function drain_loop ::
  "(nat \<Rightarrow> nat) \<Rightarrow> nat \<Rightarrow> nat \<Rightarrow> nat \<Rightarrow> nat \<Rightarrow> drain_stats \<Rightarrow> output_backlog \<Rightarrow>
   string list \<times> nat \<times> drain_stats \<times> output_backlog" where
  "drain_loop clock max_bytes max_chunks max_time_us k stats b =
     (if backlog_is_empty b \<or> drain_budget_exhausted_with_limits stats max_bytes max_chunks
      then ([], k, stats, b)
      else if drain_time_exhausted (clock k) max_time_us then ([], Suc k, stats, b)
      else
        (case front_len b of
           None \<Rightarrow> ([], Suc k, stats, backlog_clear b)
         | Some available \<Rightarrow>
             (let wanted = drain_slice_len_with_limit stats max_bytes available
              in if wanted = 0 then ([], Suc k, stats, b)
                 else
                   (case consume_front wanted b of
                      (consumed, out, b1) \<Rightarrow>
                        if consumed = 0 then (out, Suc k, stats, b1)
                        else
                          (case drain_loop clock max_bytes max_chunks max_time_us (Suc k)
                                  (stats\<lparr>ds_chunks := sat_add 64 (ds_chunks stats) 1,
                                         ds_bytes := sat_add 64 (ds_bytes stats) consumed\<rparr>) b1 of
                             (outs, r) \<Rightarrow> (out @ outs, r))))))"
  by pat_completeness auto

termination
  by (relation "measure (\<lambda>(clock, mb, mc, mt, k, stats, b). ob_bytes b)")
    (auto simp: backlog_is_empty_def dest!: consume_front_bytes [OF sym])

declare drain_loop.simps [simp del]

definition drain_output_backlog_with_limits ::
  "(nat \<Rightarrow> nat) \<Rightarrow> nat \<Rightarrow> nat \<Rightarrow> nat \<Rightarrow> output_backlog \<Rightarrow> string list \<times> drain_stats \<times> output_backlog" where
  "drain_output_backlog_with_limits clock max_bytes max_chunks max_time_us b =
     (case drain_loop clock max_bytes max_chunks max_time_us 0
             \<lparr>ds_chunks = 0, ds_bytes = 0, ds_elapsed_us = 0\<rparr> b of
        (outs, k, stats, b1) \<Rightarrow>
          (outs, stats\<lparr>ds_elapsed_us := (if clock k < 2 ^ 64 then clock k else 2 ^ 64 - 1)\<rparr>, b1))"

definition drain_output_backlog ::
  "(nat \<Rightarrow> nat) \<Rightarrow> output_backlog \<Rightarrow> string list \<times> drain_stats \<times> output_backlog" where
  "drain_output_backlog clock b =
     drain_output_backlog_with_limits clock MAX_DRAIN_BYTES MAX_DRAIN_CHUNKS MAX_DRAIN_TIME_US b"

section \<open>A byte queue\<close>

text \<open>What the code around the backlog relies on: bytes leave in the order they came.\<close>

datatype queue_event = Push string | Consume nat

fun queue_run ::
  "(string \<Rightarrow> 'q \<Rightarrow> 'q) \<Rightarrow> (nat \<Rightarrow> 'q \<Rightarrow> nat \<times> string list \<times> 'q) \<Rightarrow> queue_event list \<Rightarrow> 'q \<Rightarrow> string \<times> 'q" where
  "queue_run push consume [] q = ([], q)"
| "queue_run push consume (Push x # es) q = queue_run push consume es (push x q)"
| "queue_run push consume (Consume n # es) q =
     (case consume n q of (_, out, q1) \<Rightarrow>
        (case queue_run push consume es q1 of (outs, q2) \<Rightarrow> (concat out @ outs, q2)))"

fun pushed :: "queue_event list \<Rightarrow> string" where
  "pushed [] = []"
| "pushed (Push x # es) = x @ pushed es"
| "pushed (Consume n # es) = pushed es"

locale byte_queue =
  fixes push :: "string \<Rightarrow> 'q \<Rightarrow> 'q"
    and consume :: "nat \<Rightarrow> 'q \<Rightarrow> nat \<times> string list \<times> 'q"
    and contents :: "'q \<Rightarrow> string"
    and inv :: "'q \<Rightarrow> bool"
    and limit :: nat
  assumes push_ok: "inv q \<Longrightarrow> length (contents q) + length x < limit \<Longrightarrow>
      inv (push x q) \<and> contents (push x q) = contents q @ x"
    and consume_ok: "inv q \<Longrightarrow> consume n q = (m, out, q1) \<Longrightarrow>
      inv q1 \<and> concat out @ contents q1 = contents q \<and> length (concat out) = m \<and> m \<le> n"
begin

lemma run_fifo:
  "inv q \<Longrightarrow> length (contents q) + length (pushed es) < limit \<Longrightarrow> queue_run push consume es q = (out, q1) \<Longrightarrow>
   inv q1 \<and> out @ contents q1 = contents q @ pushed es"
proof (induction es arbitrary: q out)
  case (Cons e es)
  show ?case
  proof (cases e)
    case (Push x)
    with Cons.prems push_ok [of q x] Cons.IH [of "push x q" out] show ?thesis by simp
  next
    case (Consume n)
    obtain m o1 q2 where c: "consume n q = (m, o1, q2)" by (metis prod_cases3)
    obtain o2 where r: "queue_run push consume es q2 = (o2, q1)" "out = concat o1 @ o2"
      using Cons.prems(3) Consume c by (auto split: prod.splits)
    have q2: "inv q2" "concat o1 @ contents q2 = contents q" using consume_ok [OF Cons.prems(1) c] by simp_all
    have "length (contents q) = length (concat o1) + length (contents q2)"
      using arg_cong [OF q2(2), of length] by simp
    then have "length (contents q2) + length (pushed es) < limit" using Cons.prems(2) Consume by simp
    from Cons.IH [OF q2(1) this r(1)] have "inv q1" "o2 @ contents q1 = contents q2 @ pushed es" by simp_all
    then show ?thesis using r(2) Consume by (simp flip: q2(2))
  qed
qed simp

end

section \<open>The backlog is a byte queue\<close>

definition contents :: "output_backlog \<Rightarrow> string" where
  "contents b = drop (ob_front_offset b) (concat (ob_chunks b))"

definition backlog_inv :: "output_backlog \<Rightarrow> bool" where
  "backlog_inv b \<longleftrightarrow>
     list_all (\<lambda>c. c \<noteq> [] \<and> length c < 2 ^ 63) (ob_chunks b)
     \<and> (case ob_chunks b of [] \<Rightarrow> ob_front_offset b = 0 | c # _ \<Rightarrow> ob_front_offset b < length c)
     \<and> ob_bytes b = length (contents b)"

text \<open>
  A single \<^verbatim>\<open>Vec\<close> never holds more than \<^verbatim>\<open>isize::MAX\<close> bytes, and the bytes of a process do not
  exceed that either: \<open>2 ^ 63\<close> bounds what a backlog can hold.
\<close>

definition backlog_limit :: nat where "backlog_limit = 2 ^ 63"

lemma sat_small: "a < 2 ^ 63 \<Longrightarrow> b < 2 ^ 63 \<Longrightarrow> sat_add 64 a b = a + b"
  by (simp add: sat_add_def)

lemma concat_butlast_last: "xs \<noteq> [] \<Longrightarrow> concat (butlast xs) @ last xs = concat xs"
  by (metis append_butlast_last_id concat.simps concat_append append_Nil2)

lemma push_back_ok:
  assumes inv: "backlog_inv b" and fits: "length (contents b) + length x < backlog_limit"
  shows "backlog_inv (push_back x b) \<and> contents (push_back x b) = contents b @ x"
proof (cases "x = []")
  case True
  with inv show ?thesis by (simp add: push_back_def)
next
  case False
  let ?cs = "ob_chunks b" and ?off = "ob_front_offset b"
  have lx: "length x < 2 ^ 63" and lb: "length (contents b) < 2 ^ 63"
    using fits by (simp_all add: backlog_limit_def)
  have bytes: "sat_add 64 (ob_bytes b) (length x) = length (contents b @ x)"
    using inv lx lb by (simp add: backlog_inv_def sat_small)
  have off: "?off \<le> length (concat ?cs)"
    using inv by (auto simp: backlog_inv_def split: list.splits)
  show ?thesis
  proof (cases "?cs \<noteq> [] \<and> sat_add 64 (length (last ?cs)) (length x) \<le> MAX_DRAIN_SLICE_BYTES")
    case True
    let ?cs1 = "butlast ?cs @ [last ?cs @ x]"
    have eq: "push_back x b = b\<lparr>ob_bytes := length (contents b @ x), ob_chunks := ?cs1\<rparr>"
      using True \<open>x \<noteq> []\<close> bytes by (simp add: push_back_def Let_def)
    have con: "concat ?cs1 = concat ?cs @ x"
      using concat_butlast_last True by (metis append.assoc append_Nil2 concat.simps concat_append)
    have "length (last ?cs) < 2 ^ 63" using inv True by (auto simp: backlog_inv_def list_all_iff)
    then have "length (last ?cs @ x) \<le> MAX_DRAIN_SLICE_BYTES" using True lx by (simp add: sat_small)
    then have "length (last ?cs @ x) < 2 ^ 63" by (simp add: MAX_DRAIN_SLICE_BYTES_def)
    then have all: "list_all (\<lambda>c. c \<noteq> [] \<and> length c < 2 ^ 63) ?cs1"
      using inv \<open>x \<noteq> []\<close> by (auto simp: backlog_inv_def list_all_iff dest: in_set_butlastD)
    have front: "case ?cs1 of [] \<Rightarrow> ?off = 0 | c # _ \<Rightarrow> ?off < length c"
      using inv True by (cases ?cs) (auto simp: backlog_inv_def split: list.splits)
    have "contents (push_back x b) = drop ?off (concat ?cs1)"
      by (simp add: contents_def eq)
    then have "contents (push_back x b) = contents b @ x" using off unfolding con by (simp add: contents_def)
    moreover have fields: "ob_front_offset (push_back x b) = ?off" "ob_chunks (push_back x b) = ?cs1"
        "ob_bytes (push_back x b) = length (contents b @ x)" by (simp_all add: eq)
    ultimately show ?thesis unfolding backlog_inv_def fields using all front by simp
  next
    case False
    have eq: "push_back x b = b\<lparr>ob_bytes := length (contents b @ x), ob_chunks := ?cs @ [x]\<rparr>"
      using False \<open>x \<noteq> []\<close> bytes by (auto simp: push_back_def Let_def)
    have "contents (push_back x b) = contents b @ x" using off by (simp add: eq contents_def)
    then show ?thesis
      using inv lx \<open>x \<noteq> []\<close> by (auto simp: backlog_inv_def eq split: list.splits)
  qed
qed

lemma consume_front_ok:
  assumes inv: "backlog_inv b" and res: "consume_front n b = (m, out, b1)"
  shows "backlog_inv b1 \<and> concat out @ contents b1 = contents b \<and> length (concat out) = m \<and> m \<le> n"
proof (cases "ob_chunks b")
  case Nil
  with res inv show ?thesis by (simp add: consume_front_def)
next
  case (Cons c rest)
  let ?off = "ob_front_offset b"
  have off: "?off < length c" "length c < 2 ^ 63" "ob_bytes b = length (contents b)"
    using inv Cons by (simp_all add: backlog_inv_def)
  have con: "contents b = drop ?off c @ concat rest" using off Cons by (simp add: contents_def)
  have m: "m = min n (length c - ?off)" "out = [take m (drop ?off c)]"
    using res Cons off by (auto simp: consume_front_def Let_def)
  have sat: "sat_add 64 ?off m = ?off + m" using off m by (simp add: sat_small)
  have rest: "list_all (\<lambda>c. c \<noteq> [] \<and> length c < 2 ^ 63) rest" using inv Cons by (simp add: backlog_inv_def)
  show ?thesis
  proof (cases "length c \<le> ?off + m")
    case True
    then have b1: "b1 = b\<lparr>ob_front_offset := 0, ob_bytes := ob_bytes b - m, ob_chunks := rest\<rparr>"
      using res Cons off sat m(1) by (auto simp: consume_front_def Let_def)
    have len: "m = length c - ?off" using True m(1) by simp
    then have "contents b1 = concat rest" "concat out = drop ?off c" using m(2) b1 by (simp_all add: contents_def)
    moreover have "ob_bytes b1 = length (concat rest)" using len off(1,3) by (simp add: b1 con)
    then have "backlog_inv b1"
      using rest calculation(1) by (auto simp: backlog_inv_def b1 split: list.splits)
    ultimately show ?thesis using con len m(1) by simp
  next
    case False
    then have b1: "b1 = b\<lparr>ob_front_offset := ?off + m, ob_bytes := ob_bytes b - m\<rparr>"
      using res Cons off sat m(1) by (auto simp: consume_front_def Let_def)
    have "contents b1 = drop (?off + m) c @ concat rest" using False Cons by (simp add: b1 contents_def)
    moreover have "take m (drop ?off c) @ drop (?off + m) c = drop ?off c"
      by (metis append_take_drop_id drop_drop add.commute)
    moreover have "backlog_inv b1"
      using inv False off con Cons calculation(1) by (simp add: backlog_inv_def b1)
    ultimately show ?thesis using con m by (simp flip: append_assoc)
  qed
qed

interpretation backlog: byte_queue push_back consume_front contents backlog_inv backlog_limit
  by unfold_locales (use push_back_ok consume_front_ok in blast)+

section \<open>The drain\<close>

text \<open>What one drain guarantees from the statistics \<open>st\<close> it starts with.\<close>

definition drained ::
  "nat \<Rightarrow> nat \<Rightarrow> drain_stats \<Rightarrow> output_backlog \<Rightarrow> string list \<Rightarrow> drain_stats \<Rightarrow> output_backlog \<Rightarrow> bool" where
  "drained max_bytes max_chunks st b outs st1 b1 \<longleftrightarrow>
     backlog_inv b1 \<and> concat outs @ contents b1 = contents b
     \<and> ds_bytes st1 = ds_bytes st + length (concat outs) \<and> ds_chunks st1 = ds_chunks st + length outs
     \<and> ds_bytes st1 \<le> max max_bytes (ds_bytes st) \<and> ds_chunks st1 \<le> max max_chunks (ds_chunks st)
     \<and> list_all (\<lambda>x. x \<noteq> [] \<and> length x \<le> MAX_DRAIN_SLICE_BYTES) outs"

lemma drained_refl [simp]: "backlog_inv b \<Longrightarrow> drained mb mc st b [] st b"
  by (simp add: drained_def)

lemma front_len_pos:
  assumes "backlog_inv b" "\<not> backlog_is_empty b"
  obtains c rest where "ob_chunks b = c # rest" "front_len b = Some (length c - ob_front_offset b)"
    "ob_front_offset b < length c"
  using assms
  by (cases "ob_chunks b") (auto simp: backlog_inv_def backlog_is_empty_def front_len_def first_opt_def contents_def)

lemma consume_front_exact:
  assumes "ob_chunks b = c # rest" "ob_front_offset b < length c" "0 < n" "n \<le> length c - ob_front_offset b"
    and "consume_front n b = (m, out, b1)"
  shows "m = n \<and> (\<exists>slice. out = [slice])"
  using assms by (auto simp: consume_front_def Let_def)

lemma drain_loop_ok:
  assumes "backlog_inv b" "max_bytes < 2 ^ 64" "max_chunks < 2 ^ 64"
    and "drain_loop clock max_bytes max_chunks mt k st b = (outs, k1, st1, b1)"
  shows "drained max_bytes max_chunks st b outs st1 b1"
  using assms
proof (induction clock max_bytes max_chunks mt k st b arbitrary: outs rule: drain_loop.induct)
  case (1 clock mb mc mt k st b)
  show ?case
  proof (cases "backlog_is_empty b \<or> drain_budget_exhausted_with_limits st mb mc \<or> drain_time_exhausted (clock k) mt")
    case True
    then show ?thesis using 1(2,5) by (subst (asm) drain_loop.simps) (auto split: if_splits)
  next
    case False
    then obtain c rest where c: "ob_chunks b = c # rest" "front_len b = Some (length c - ob_front_offset b)"
      "ob_front_offset b < length c" using front_len_pos [OF 1(2)] by blast
    let ?n = "drain_slice_len_with_limit st mb (length c - ob_front_offset b)"
    have budget: "ds_bytes st < mb" "ds_chunks st < mc"
      using False by (simp_all add: drain_budget_exhausted_with_limits_def)
    have n: "0 < ?n" "?n \<le> length c - ob_front_offset b" "?n \<le> MAX_DRAIN_SLICE_BYTES" "ds_bytes st + ?n \<le> mb"
      using budget c(3)
      by (auto simp: drain_slice_len_with_limit_def drain_bytes_remaining_with_limit_def MAX_DRAIN_SLICE_BYTES_def)
    obtain m out b2 where cf: "consume_front ?n b = (m, out, b2)" by (metis prod_cases3)
    obtain slice where m: "m = ?n" "out = [slice]" using consume_front_exact [OF c(1,3) n(1,2) cf] by blast
    have b2: "backlog_inv b2" "slice @ contents b2 = contents b" "length slice = ?n"
      using consume_front_ok [OF 1(2) cf] m by simp_all
    let ?st = "st\<lparr>ds_chunks := sat_add 64 (ds_chunks st) 1, ds_bytes := sat_add 64 (ds_bytes st) m\<rparr>"
    have st: "ds_chunks ?st = Suc (ds_chunks st)" "ds_bytes ?st = ds_bytes st + ?n"
      using budget n(4) 1(3,4) m(1) by (auto simp: sat_add_def)
    obtain outs' where rec: "drain_loop clock mb mc mt (Suc k) ?st b2 = (outs', k1, st1, b1)" "outs = slice # outs'"
      using 1(5) False c(2) n(1) cf m
      by (subst (asm) drain_loop.simps) (auto simp: Let_def split: prod.splits)
    have "drained mb mc ?st b2 outs' st1 b1"
      using 1(1) [OF _ _ c(2) refl _ cf [symmetric] refl _ b2(1) 1(3,4) rec(1)] False n(1) m(1) by auto
    then show ?thesis
      using rec(2) b2 st budget n unfolding drained_def by (auto simp flip: b2(2))
  qed
qed

text \<open>An unexpired clock and an unexhausted budget: the drain ends because nothing is left.\<close>

lemma drain_loop_done:
  assumes "backlog_inv b" "max_bytes < 2 ^ 64" "max_chunks < 2 ^ 64" "\<And>i. clock i < mt"
    and "drain_loop clock max_bytes max_chunks mt k st b = (outs, k1, st1, b1)"
  shows "contents b1 = [] \<or> max_bytes \<le> ds_bytes st1 \<or> max_chunks \<le> ds_chunks st1"
  using assms
proof (induction clock max_bytes max_chunks mt k st b arbitrary: outs rule: drain_loop.induct)
  case (1 clock mb mc mt k st b)
  have time: "\<not> drain_time_exhausted (clock k) mt" using 1(5) [of k] by (simp add: drain_time_exhausted_def)
  show ?case
  proof (cases "backlog_is_empty b \<or> drain_budget_exhausted_with_limits st mb mc")
    case True
    then have "st1 = st" "b1 = b" using 1(6) by (subst (asm) drain_loop.simps, auto)+
    with True 1(2) show ?thesis
      by (auto simp: backlog_is_empty_def backlog_inv_def drain_budget_exhausted_with_limits_def)
  next
    case False
    then obtain c rest where c: "ob_chunks b = c # rest" "front_len b = Some (length c - ob_front_offset b)"
      "ob_front_offset b < length c" using front_len_pos [OF 1(2)] by blast
    let ?n = "drain_slice_len_with_limit st mb (length c - ob_front_offset b)"
    have n: "0 < ?n" "?n \<le> length c - ob_front_offset b"
      using False c(3)
      by (auto simp: drain_slice_len_with_limit_def drain_bytes_remaining_with_limit_def MAX_DRAIN_SLICE_BYTES_def
          drain_budget_exhausted_with_limits_def)
    obtain m out b2 where cf: "consume_front ?n b = (m, out, b2)" by (metis prod_cases3)
    have m: "m = ?n" using consume_front_exact [OF c(1,3) n cf] by blast
    have b2: "backlog_inv b2" using consume_front_ok [OF 1(2) cf] by simp
    let ?st = "st\<lparr>ds_chunks := sat_add 64 (ds_chunks st) 1, ds_bytes := sat_add 64 (ds_bytes st) m\<rparr>"
    obtain outs' where rec: "drain_loop clock mb mc mt (Suc k) ?st b2 = (outs', k1, st1, b1)"
      using 1(6) False time c(2) n(1) cf m
      by (subst (asm) drain_loop.simps) (auto simp: Let_def split: prod.splits)
    show ?thesis
      using 1(1) [OF _ _ c(2) refl _ cf [symmetric] refl _ b2 1(3,4) _ rec] False time n(1) m 1(5) by auto
  qed
qed

section \<open>Properties\<close>

text \<open>
  C34.  The backlog is a first-in first-out byte queue whatever way it splits and joins chunks: over
  any interleaving of pushes and partial consumptions, the bytes handed out followed by the bytes
  still queued are the bytes that were there followed by the bytes pushed.
\<close>

theorem backlog_fifo:
  assumes "backlog_inv b" "length (contents b) + length (pushed es) < backlog_limit"
    and "queue_run push_back consume_front es b = (out, b1)"
  shows "backlog_inv b1 \<and> out @ contents b1 = contents b @ pushed es"
  using assms by (rule backlog.run_fifo)

lemma new_backlog_inv: "backlog_inv new_backlog" "contents new_backlog = []"
  by (simp_all add: backlog_inv_def new_backlog_def contents_def)

theorem backlog_fifo_witness:
  "fst (queue_run push_back consume_front [Push ''ab'', Push ''cd'', Consume 3] new_backlog) = ''abc''
   \<and> contents (snd (queue_run push_back consume_front [Push ''ab'', Push ''cd'', Consume 3] new_backlog)) = ''d''"
proof -
  obtain out b1 where run: "queue_run push_back consume_front [Push ''ab'', Push ''cd'', Consume 3] new_backlog = (out, b1)"
    by (cases "queue_run push_back consume_front [Push ''ab'', Push ''cd'', Consume 3] new_backlog")
  have "out = ''abc''"
    using run by (simp add: new_backlog_def push_back_def consume_front_def sat_add_def MAX_DRAIN_SLICE_BYTES_def Let_def)
  with backlog_fifo [OF new_backlog_inv(1) _ run] run new_backlog_inv(2) show ?thesis
    by (simp add: backlog_limit_def)
qed

text \<open>
  A drain hands out a prefix of the queued bytes in order, in non-empty slices of at most 64
  KiB, counts exactly what it handed out, and exceeds neither the byte nor the chunk budget.
\<close>

lemma drain_within_budget:
  assumes "backlog_inv b" "max_bytes < 2 ^ 64" "max_chunks < 2 ^ 64"
    and "drain_output_backlog_with_limits clock max_bytes max_chunks max_time_us b = (outs, st, b1)"
  shows "backlog_inv b1 \<and> concat outs @ contents b1 = contents b
    \<and> ds_bytes st = length (concat outs) \<and> ds_bytes st \<le> max_bytes
    \<and> ds_chunks st = length outs \<and> ds_chunks st \<le> max_chunks
    \<and> list_all (\<lambda>x. x \<noteq> [] \<and> length x \<le> MAX_DRAIN_SLICE_BYTES) outs"
proof -
  obtain k1 st1 where "drain_loop clock max_bytes max_chunks max_time_us 0
      \<lparr>ds_chunks = 0, ds_bytes = 0, ds_elapsed_us = 0\<rparr> b = (outs, k1, st1, b1)"
    "ds_bytes st = ds_bytes st1" "ds_chunks st = ds_chunks st1"
    using assms(4) by (auto simp: drain_output_backlog_with_limits_def split: prod.splits)
  with drain_loop_ok [OF assms(1-3)] show ?thesis by (fastforce simp: drained_def)
qed

text \<open>
  C35.  A drain that is not stopped by the clock makes progress to the end: it leaves bytes behind
  only when it used up the byte or the chunk budget.
\<close>

theorem drain_complete:
  assumes "backlog_inv b" "max_bytes < 2 ^ 64" "max_chunks < 2 ^ 64" "\<And>i. clock i < max_time_us"
    and "drain_output_backlog_with_limits clock max_bytes max_chunks max_time_us b = (outs, st, b1)"
  shows "contents b1 = [] \<or> ds_bytes st = max_bytes \<or> ds_chunks st = max_chunks"
proof -
  obtain k1 st1 where run: "drain_loop clock max_bytes max_chunks max_time_us 0
      \<lparr>ds_chunks = 0, ds_bytes = 0, ds_elapsed_us = 0\<rparr> b = (outs, k1, st1, b1)"
    and eq: "ds_bytes st = ds_bytes st1" "ds_chunks st = ds_chunks st1"
    using assms(5) by (auto simp: drain_output_backlog_with_limits_def split: prod.splits)
  from drain_loop_done [OF assms(1-4) run] drain_loop_ok [OF assms(1-3) run] eq show ?thesis
    by (auto simp: drained_def)
qed

theorem drain_complete_witness:
  "\<exists>outs st b1. drain_output_backlog_with_limits (\<lambda>_. 0) 10 2 1 (push_back ''ab'' new_backlog) = (outs, st, b1)
     \<and> (contents b1 = [] \<or> ds_bytes st = 10 \<or> ds_chunks st = 2)"
proof -
  let ?b = "push_back ''ab'' new_backlog"
  have b: "backlog_inv ?b"
    using push_back_ok [OF new_backlog_inv(1), of "''ab''"] new_backlog_inv(2) by (simp add: backlog_limit_def)
  obtain outs st b1 where run: "drain_output_backlog_with_limits (\<lambda>_. 0) 10 2 1 ?b = (outs, st, b1)"
    by (metis prod_cases3)
  from drain_complete [OF b _ _ _ run] run show ?thesis by simp
qed

end
