(* ===== verification/Control_State.thy ===== *)
theory Control_State
  imports Bootty_Prelude "HOL-Library.AList"
begin

text \<open>
  \<^verbatim>\<open>crates/bootty-control/src/state.rs\<close> with \<^verbatim>\<open>command/cancellation.rs\<close>: the tasks and event
  subscriptions of the control plane.  A \<^verbatim>\<open>BTreeMap\<close> is an association list with distinct keys (its
  iteration order is never observed here); a JSON \<^verbatim>\<open>Value\<close> is the type parameter \<open>'v\<close>.  Random
  draws are the parameter \<open>draws\<close>, in the order \<^verbatim>\<open>getrandom\<close> delivers them; the JSON encoder is the
  parameter \<open>encoded\<close>, the number of bytes of an encoded event or an error.
\<close>

section \<open>Cancellation\<close>

text \<open>The states of the atomic byte; a compare-and-exchange is one atomic step.\<close>

datatype cancellation = PENDING | STARTED | CANCELLED

definition new_cancellation :: cancellation where
  "new_cancellation = PENDING"

definition cancel :: "cancellation \<Rightarrow> bool \<times> cancellation" where
  "cancel c = (if c = PENDING then (True, CANCELLED) else (False, c))"

definition is_cancelled :: "cancellation \<Rightarrow> bool" where
  "is_cancelled c = (c = CANCELLED)"

definition try_start :: "cancellation \<Rightarrow> bool \<times> cancellation" where
  "try_start c = (if c = PENDING then (True, STARTED) else (False, c))"

section \<open>State\<close>

definition MAX_TASKS :: nat where "MAX_TASKS = 64"

definition MAX_SUBSCRIPTIONS :: nat where "MAX_SUBSCRIPTIONS = 64"

definition EVENT_QUEUE_LIMIT :: nat where "EVENT_QUEUE_LIMIT = 64"

definition REQUEST_LIMIT :: nat where "REQUEST_LIMIT = 1024 * 1024"

definition COMMAND_COMPLETED_TOPIC :: string where "COMMAND_COMPLETED_TOPIC = ''command.completed''"

datatype rpc_data = NoData | Rebase string string nat nat

record rpc_error =
  re_code :: int
  re_message :: string
  re_data :: rpc_data

definition new_rpc_error :: "int \<Rightarrow> string \<Rightarrow> rpc_error" where
  "new_rpc_error code message = \<lparr>re_code = code, re_message = message, re_data = NoData\<rparr>"

definition rebase_error :: "string \<Rightarrow> string \<Rightarrow> nat \<Rightarrow> nat \<Rightarrow> rpc_error" where
  "rebase_error subscription scope cursor seq =
     (new_rpc_error (-32005) ''event rebase required'')\<lparr>re_data := Rebase subscription scope cursor seq\<rparr>"

datatype 'v task_state = Running | Cancelling | Completed 'v

record 'v task_record =
  tr_owner_pid :: nat
  tr_cancellation :: cancellation
  tr_state :: "'v task_state"

record 'v subscription_event =
  ev_sequence :: nat
  ev_scope :: string
  ev_revision :: nat
  ev_topic :: string
  ev_provenance :: 'v
  ev_target :: 'v
  ev_payload :: 'v

record 'v subscription_record =
  sr_topics :: "string set"
  sr_scope :: string
  sr_sequence :: nat
  sr_cursor :: nat
  sr_events :: "'v subscription_event list"
  sr_gap :: "nat option"

record 'v subscription_batch =
  sb_subscription :: string
  sb_scope :: string
  sb_revision :: nat
  sb_cursor :: nat
  sb_events :: "'v subscription_event list"
  sb_timed_out :: "bool option"

record 'v control_state =
  cs_tasks :: "(string \<times> 'v task_record) list"
  cs_completed_tasks :: "string list"
  cs_subscriptions :: "(string \<times> 'v subscription_record) list"
  cs_revisions :: "(string \<times> nat) list"
  cs_topics :: "string set"
  cs_changed :: nat

definition default_state :: "'v control_state" where
  "default_state =
     \<lparr>cs_tasks = [], cs_completed_tasks = [], cs_subscriptions = [], cs_revisions = [],
      cs_topics = {COMMAND_COMPLETED_TOPIC}, cs_changed = 0\<rparr>"

definition notify :: "'v control_state \<Rightarrow> 'v control_state" where
  "notify s = s\<lparr>cs_changed := (cs_changed s + 1) mod 2 ^ 64\<rparr>"

section \<open>Identities\<close>

definition capability_id :: "string \<Rightarrow> nat \<Rightarrow> string" where
  "capability_id prefix n = prefix @ ''-'' @ show_hex 32 n"

text \<open>The draw loop; \<open>None\<close> while every draw so far named an existing entry.\<close>

fun unique_capability_id ::
  "string \<Rightarrow> nat res list \<Rightarrow> (string \<times> 'a) list \<Rightarrow> ((rpc_error + string) \<times> nat res list) option" where
  "unique_capability_id prefix [] existing = None"
| "unique_capability_id prefix (Inl e # draws) existing =
     Some (Inl (new_rpc_error (-32603) (''generate capability ID: '' @ e)), draws)"
| "unique_capability_id prefix (Inr n # draws) existing =
     (if map_of existing (capability_id prefix n) = None
      then Some (Inr (capability_id prefix n), draws)
      else unique_capability_id prefix draws existing)"

section \<open>Tasks\<close>

text \<open>The eviction loop of \<^verbatim>\<open>start_task\<close>: whether room was made, and the tasks left.\<close>

fun evict_completed ::
  "string list \<Rightarrow> (string \<times> 'v task_record) list \<Rightarrow> bool \<times> string list \<times> (string \<times> 'v task_record) list" where
  "evict_completed [] tasks = (length tasks < MAX_TASKS, [], tasks)"
| "evict_completed (c # cs) tasks =
     (if length tasks < MAX_TASKS then (True, c # cs, tasks)
      else evict_completed cs (AList.delete c tasks))"

definition start_task ::
  "nat res list \<Rightarrow> nat \<Rightarrow> cancellation \<Rightarrow> 'v control_state \<Rightarrow>
   ((rpc_error + string) \<times> 'v control_state) option" where
  "start_task draws owner_pid c s =
     (case evict_completed (cs_completed_tasks s) (cs_tasks s) of
        (room, completed, tasks) \<Rightarrow>
          (let s1 = s\<lparr>cs_completed_tasks := completed, cs_tasks := tasks\<rparr>
           in if \<not> room then Some (Inl (new_rpc_error (-32001) ''task limit reached''), s1)
              else
                (case unique_capability_id ''task'' draws tasks of
                   None \<Rightarrow> None
                 | Some (Inl e, _) \<Rightarrow> Some (Inl e, s1)
                 | Some (Inr i, _) \<Rightarrow>
                     Some (Inr i, s1\<lparr>cs_tasks := AList.update i
                       \<lparr>tr_owner_pid = owner_pid, tr_cancellation = c, tr_state = Running\<rparr> tasks\<rparr>))))"

definition remove_task :: "string \<Rightarrow> 'v control_state \<Rightarrow> 'v control_state" where
  "remove_task task s = s\<lparr>cs_tasks := AList.delete task (cs_tasks s)\<rparr>"

definition is_completed :: "'v task_state \<Rightarrow> bool" where
  "is_completed t = (case t of Completed _ \<Rightarrow> True | _ \<Rightarrow> False)"

definition finish_task :: "string \<Rightarrow> 'v \<Rightarrow> 'v control_state \<Rightarrow> 'v control_state" where
  "finish_task task outcome s =
     (case map_of (cs_tasks s) task of
        None \<Rightarrow> s
      | Some r \<Rightarrow>
          if is_completed (tr_state r) then s
          else s\<lparr>cs_tasks := AList.update task (r\<lparr>tr_state := Completed outcome\<rparr>) (cs_tasks s),
                 cs_completed_tasks := cs_completed_tasks s @ [task]\<rparr>)"

definition task_value ::
  "string \<Rightarrow> 'v control_state \<Rightarrow> rpc_error + (string \<times> nat \<times> 'v task_state)" where
  "task_value task s =
     (case map_of (cs_tasks s) task of
        None \<Rightarrow> Inl (new_rpc_error (-32602) ''unknown task'')
      | Some r \<Rightarrow> Inr (task, tr_owner_pid r, tr_state r))"

definition is_running :: "'v task_state \<Rightarrow> bool" where
  "is_running t = (case t of Running \<Rightarrow> True | _ \<Rightarrow> False)"

definition cancel_task ::
  "string \<Rightarrow> 'v control_state \<Rightarrow> (rpc_error + (string \<times> nat \<times> 'v task_state)) \<times> 'v control_state" where
  "cancel_task task s =
     (case map_of (cs_tasks s) task of
        None \<Rightarrow> (Inl (new_rpc_error (-32602) ''unknown task''), s)
      | Some r \<Rightarrow>
          (let s1 = (if is_running (tr_state r)
                     then (case cancel (tr_cancellation r) of
                             (ok, c) \<Rightarrow> s\<lparr>cs_tasks := AList.update task
                               (if ok then r\<lparr>tr_cancellation := c, tr_state := Cancelling\<rparr>
                                else r\<lparr>tr_cancellation := c\<rparr>) (cs_tasks s)\<rparr>)
                     else s)
           in (task_value task s1, s1)))"

definition cancel_all_tasks :: "'v control_state \<Rightarrow> 'v control_state" where
  "cancel_all_tasks s =
     s\<lparr>cs_tasks := map (\<lambda>(i, r). (i, if is_running (tr_state r)
         then r\<lparr>tr_cancellation := snd (cancel (tr_cancellation r)), tr_state := Cancelling\<rparr> else r))
       (cs_tasks s)\<rparr>"

section \<open>Subscriptions\<close>

definition revision_of :: "string \<Rightarrow> 'v control_state \<Rightarrow> nat" where
  "revision_of scope s = (case map_of (cs_revisions s) scope of None \<Rightarrow> 0 | Some r \<Rightarrow> r)"

definition create_subscription ::
  "nat res list \<Rightarrow> string set \<Rightarrow> string \<Rightarrow> 'v control_state \<Rightarrow>
   ((rpc_error + (string \<times> string \<times> nat)) \<times> 'v control_state) option" where
  "create_subscription draws topics scope s =
     (if MAX_SUBSCRIPTIONS \<le> length (cs_subscriptions s)
      then Some (Inl (new_rpc_error (-32001) ''subscription limit reached''), s)
      else
        (case unique_capability_id ''subscription'' draws (cs_subscriptions s) of
           None \<Rightarrow> None
         | Some (Inl e, _) \<Rightarrow> Some (Inl e, s)
         | Some (Inr i, _) \<Rightarrow>
             Some (Inr (i, scope, revision_of scope s),
               s\<lparr>cs_subscriptions := AList.update i
                   \<lparr>sr_topics = topics, sr_scope = scope, sr_sequence = 0, sr_cursor = 0,
                    sr_events = [], sr_gap = None\<rparr> (cs_subscriptions s)\<rparr>)))"

text \<open>The batch loop of \<^verbatim>\<open>poll_subscription\<close>: the events taken and the events left.\<close>

fun take_batch ::
  "('v subscription_event \<Rightarrow> nat res) \<Rightarrow> nat \<Rightarrow> 'v subscription_event list \<Rightarrow>
   'v subscription_event list \<Rightarrow>
   (rpc_error + ('v subscription_event list)) \<times> 'v subscription_event list" where
  "take_batch encoded bytes taken [] = (Inr taken, [])"
| "take_batch encoded bytes taken (e # es) =
     (case encoded e of
        Inl m \<Rightarrow> (Inl (new_rpc_error (-32603) m), e # es)
      | Inr n \<Rightarrow>
          (let sum = sat_add 64 bytes (if n < 2 ^ 64 then n else 2 ^ 64 - 1)
           in if REQUEST_LIMIT div 2 < sum then (Inr taken, e # es)
              else take_batch encoded sum (taken @ [e]) es))"

definition poll_record ::
  "('v subscription_event \<Rightarrow> nat res) \<Rightarrow> string \<Rightarrow> nat \<Rightarrow> 'v subscription_record \<Rightarrow>
   (rpc_error + 'v subscription_event list) \<times> 'v subscription_record" where
  "poll_record encoded subscription cursor r =
     (case sr_gap r of
        Some gap \<Rightarrow> (Inl (rebase_error subscription (sr_scope r) (sr_cursor r) gap), r)
      | None \<Rightarrow>
          if cursor \<noteq> sr_cursor r
          then (Inl (rebase_error subscription (sr_scope r) (sr_cursor r) (sr_sequence r)), r)
          else
            (case take_batch encoded 0 [] (sr_events r) of
               (Inl e, left) \<Rightarrow> (Inl e, r\<lparr>sr_events := left\<rparr>)
             | (Inr taken, left) \<Rightarrow>
                 if taken = [] \<and> left \<noteq> []
                 then (Inl (rebase_error subscription (sr_scope r) (sr_cursor r) (sr_sequence r)),
                       r\<lparr>sr_events := [], sr_gap := Some (sr_sequence r)\<rparr>)
                 else (Inr taken,
                       r\<lparr>sr_events := left,
                         sr_cursor := (if taken = [] then sr_cursor r else ev_sequence (last taken))\<rparr>)))"

definition poll_subscription ::
  "('v subscription_event \<Rightarrow> nat res) \<Rightarrow> string \<Rightarrow> nat \<Rightarrow> 'v control_state \<Rightarrow>
   (rpc_error + 'v subscription_batch) \<times> 'v control_state" where
  "poll_subscription encoded subscription cursor s =
     (case map_of (cs_subscriptions s) subscription of
        None \<Rightarrow> (Inl (new_rpc_error (-32602) ''unknown subscription''), s)
      | Some r \<Rightarrow>
          (case poll_record encoded subscription cursor r of
             (q, r1) \<Rightarrow>
               (let s1 = s\<lparr>cs_subscriptions := AList.update subscription r1 (cs_subscriptions s)\<rparr>
                in case q of
                     Inl e \<Rightarrow> (Inl e, s1)
                   | Inr events \<Rightarrow>
                       (Inr \<lparr>sb_subscription = subscription, sb_scope = sr_scope r1,
                             sb_revision = revision_of (sr_scope r1) s1, sb_cursor = sr_cursor r1,
                             sb_events = events, sb_timed_out = None\<rparr>, s1))))"

definition unsubscribe :: "string \<Rightarrow> 'v control_state \<Rightarrow> (rpc_error + string) \<times> 'v control_state" where
  "unsubscribe subscription s =
     (case map_of (cs_subscriptions s) subscription of
        None \<Rightarrow> (Inl (new_rpc_error (-32602) ''unknown subscription''), s)
      | Some _ \<Rightarrow>
          (Inr subscription,
           notify (s\<lparr>cs_subscriptions := AList.delete subscription (cs_subscriptions s)\<rparr>)))"

text \<open>One subscription's share of \<^verbatim>\<open>publish_event\<close>.\<close>

definition publish_to ::
  "string \<Rightarrow> string \<Rightarrow> nat \<Rightarrow> 'v \<Rightarrow> 'v \<Rightarrow> 'v \<Rightarrow> 'v subscription_record \<Rightarrow> 'v subscription_record" where
  "publish_to scope topic revision provenance target payload r =
     (if sr_scope r \<noteq> scope \<or> topic \<notin> sr_topics r then r
      else
        (case checked_add 64 (sr_sequence r) 1 of
           None \<Rightarrow> r\<lparr>sr_events := [], sr_gap := Some (sr_sequence r)\<rparr>
         | Some seq \<Rightarrow>
             (let r1 = r\<lparr>sr_sequence := seq\<rparr>
              in if sr_gap r1 \<noteq> None \<or> EVENT_QUEUE_LIMIT \<le> length (sr_events r1)
                 then r1\<lparr>sr_events := [], sr_gap := Some seq\<rparr>
                 else r1\<lparr>sr_events := sr_events r1 @
                        [\<lparr>ev_sequence = seq, ev_scope = scope, ev_revision = revision, ev_topic = topic,
                          ev_provenance = provenance, ev_target = target, ev_payload = payload\<rparr>]\<rparr>)))"

definition publish_event ::
  "string \<Rightarrow> string \<Rightarrow> 'v \<Rightarrow> 'v \<Rightarrow> 'v \<Rightarrow> 'v control_state \<Rightarrow> 'v control_state" where
  "publish_event scope topic provenance target payload s =
     (let revision = (revision_of scope s + 1) mod 2 ^ 64
      in notify (s\<lparr>cs_revisions := AList.update scope revision (cs_revisions s),
                   cs_subscriptions := map (\<lambda>(i, r). (i, publish_to scope topic revision provenance target payload r))
                     (cs_subscriptions s)\<rparr>))"

text \<open>The JSON values that describe the caller, the target and the outcome are built by the parameters.\<close>

definition publish_command_completion :: "string \<Rightarrow> 'v \<Rightarrow> 'v \<Rightarrow> 'v \<Rightarrow> 'v control_state \<Rightarrow> 'v control_state" where
  "publish_command_completion scope provenance target payload s =
     publish_event scope COMMAND_COMPLETED_TOPIC provenance target payload s"

text \<open>A worker picks a task up: \<^verbatim>\<open>try_start\<close> on the cell the task record shares with it.\<close>

definition worker_start :: "string \<Rightarrow> 'v control_state \<Rightarrow> bool \<times> 'v control_state" where
  "worker_start task s =
     (case map_of (cs_tasks s) task of
        None \<Rightarrow> (False, s)
      | Some r \<Rightarrow>
          (case try_start (tr_cancellation r) of
             (ok, c) \<Rightarrow> (ok, s\<lparr>cs_tasks := AList.update task (r\<lparr>tr_cancellation := c\<rparr>) (cs_tasks s)\<rparr>)))"

section \<open>One subscription\<close>

definition sub_inv :: "'v subscription_record \<Rightarrow> bool" where
  "sub_inv r \<longleftrightarrow>
     length (sr_events r) \<le> EVENT_QUEUE_LIMIT \<and> sr_cursor r \<le> sr_sequence r \<and> sr_sequence r < 2 ^ 64
     \<and> (case sr_gap r of
          Some _ \<Rightarrow> sr_events r = []
        | None \<Rightarrow> map ev_sequence (sr_events r) = [Suc (sr_cursor r)..<Suc (sr_sequence r)])"

definition total_encoding :: "('v subscription_event \<Rightarrow> nat res) \<Rightarrow> bool" where
  "total_encoding encoded \<longleftrightarrow> (\<forall>e. \<exists>n. encoded e = Inr n)"

lemma take_batch_split:
  assumes "total_encoding encoded" "take_batch encoded n taken es = (q, left)"
  shows "\<exists>more. q = Inr (taken @ more) \<and> es = more @ left"
  using assms(2)
proof (induction es arbitrary: n taken)
  case (Cons e es)
  obtain m where m: "encoded e = Inr m" using assms(1) by (auto simp: total_encoding_def)
  let ?sum = "sat_add 64 n (if m < 2 ^ 64 then m else 2 ^ 64 - 1)"
  show ?case
  proof (cases "REQUEST_LIMIT div 2 < ?sum")
    case True
    with Cons.prems m show ?thesis by (auto simp: Let_def)
  next
    case False
    with Cons.prems m have "take_batch encoded ?sum (taken @ [e]) es = (q, left)" by (simp add: Let_def)
    from Cons.IH [OF this] show ?thesis by auto
  qed
qed simp

lemma poll_record_cases:
  assumes enc: "total_encoding encoded" and inv: "sub_inv r" and res: "poll_record encoded i cursor r = (q, r1)"
  obtains (batch) taken left where "q = Inr taken" "sr_gap r = None" "cursor = sr_cursor r" "sr_events r = taken @ left"
      "r1 = r\<lparr>sr_events := left, sr_cursor := sr_cursor r + length taken\<rparr>"
  | (refused) e where "q = Inl e" "re_code e = -32005" "sr_sequence r1 = sr_sequence r" "sr_cursor r1 = sr_cursor r"
      "sr_scope r1 = sr_scope r" "sr_topics r1 = sr_topics r"
      "r1 = r \<or> sr_events r1 = [] \<and> sr_gap r1 \<noteq> None"
proof (cases "sr_gap r = None \<and> cursor = sr_cursor r")
  case True
  obtain taken left where tb: "take_batch encoded 0 [] (sr_events r) = (Inr taken, left)"
    and ev: "sr_events r = taken @ left"
    using take_batch_split [OF enc, of 0 "[]" "sr_events r"] by (metis append_Nil prod.collapse)
  show ?thesis
  proof (cases "taken = [] \<and> left \<noteq> []")
    case True
    with \<open>sr_gap r = None \<and> cursor = sr_cursor r\<close> tb res show ?thesis
      by (intro refused) (auto simp: poll_record_def rebase_error_def new_rpc_error_def)
  next
    case False
    have seqs: "map ev_sequence (taken @ left) = [Suc (sr_cursor r)..<Suc (sr_sequence r)]"
      using inv True ev by (simp add: sub_inv_def)
    have "ev_sequence (last taken) = sr_cursor r + length taken" if "taken \<noteq> []"
    proof -
      have l: "length taken \<le> length [Suc (sr_cursor r)..<Suc (sr_sequence r)]"
        by (metis seqs length_append length_map le_add1)
      have "ev_sequence (last taken) = map ev_sequence (taken @ left) ! (length taken - 1)"
        using that by (simp add: last_conv_nth nth_append)
      also have "\<dots> = Suc (sr_cursor r) + (length taken - 1)"
        unfolding seqs using that l by (subst nth_upt) (cases taken, auto simp del: upt_Suc)
      finally show ?thesis using that by (cases taken) auto
    qed
    with False True tb res ev show ?thesis
      by (intro batch [of taken left]) (auto simp: poll_record_def)
  qed
next
  case False
  have err: ?thesis if "q = Inl (rebase_error i (sr_scope r) (sr_cursor r) k)" "r1 = r" for k
    using that
    by (intro refused [of "rebase_error i (sr_scope r) (sr_cursor r) k"]) (simp_all add: rebase_error_def new_rpc_error_def)
  show ?thesis
  proof (cases "sr_gap r")
    case None
    with False res show ?thesis by (intro err [of "sr_sequence r"]) (auto simp: poll_record_def)
  next
    case (Some gap)
    with res show ?thesis by (intro err [of gap]) (auto simp: poll_record_def)
  qed
qed

lemma poll_record_inv:
  assumes enc: "total_encoding encoded" and inv: "sub_inv r" and res: "poll_record encoded i cursor r = (q, r1)"
  shows "sub_inv r1"
  using enc inv res
proof (cases rule: poll_record_cases)
  case (batch taken left)
  then have seqs: "map ev_sequence taken @ map ev_sequence left = [Suc (sr_cursor r)..<Suc (sr_sequence r)]"
    using inv by (simp add: sub_inv_def)
  have len: "length taken + length left = sr_sequence r - sr_cursor r"
    using arg_cong [OF seqs, of length] by (simp del: upt_Suc)
  have "sr_cursor r \<le> sr_sequence r" using inv by (simp add: sub_inv_def)
  then have cur: "sr_cursor r + length taken \<le> sr_sequence r" using len by simp
  have "map ev_sequence left = drop (length taken) [Suc (sr_cursor r)..<Suc (sr_sequence r)]"
    unfolding seqs [symmetric] by simp
  then have "map ev_sequence left = [Suc (sr_cursor r + length taken)..<Suc (sr_sequence r)]"
    by (simp add: drop_upt del: upt_Suc)
  then show ?thesis using batch inv len cur by (simp add: sub_inv_def del: upt_Suc)
next
  case (refused e)
  then show ?thesis using inv by (auto simp: sub_inv_def split: option.splits)
qed

lemma publish_to_inv: "sub_inv r \<Longrightarrow> sub_inv (publish_to scope topic rv p t pl r)"
  by (auto simp: sub_inv_def publish_to_def checked_add_def Let_def split: option.splits)

section \<open>The whole state\<close>

datatype 'v control_event =
    StartTask "nat res list" nat
  | RemoveTask string
  | FinishTask string 'v
  | CancelTask string
  | CancelAllTasks
  | WorkerStart string
  | Subscribe "nat res list" "string set" string
  | Poll string nat
  | Unsubscribe string
  | Publish string string 'v 'v 'v

fun control_step :: "('v subscription_event \<Rightarrow> nat res) \<Rightarrow> 'v control_event \<Rightarrow> 'v control_state \<Rightarrow> 'v control_state" where
  "control_step encoded (StartTask draws pid) s =
     (case start_task draws pid new_cancellation s of None \<Rightarrow> s | Some (_, s1) \<Rightarrow> s1)"
| "control_step encoded (RemoveTask i) s = remove_task i s"
| "control_step encoded (FinishTask i v) s = finish_task i v s"
| "control_step encoded (CancelTask i) s = snd (cancel_task i s)"
| "control_step encoded CancelAllTasks s = cancel_all_tasks s"
| "control_step encoded (WorkerStart i) s = snd (worker_start i s)"
| "control_step encoded (Subscribe draws topics scope) s =
     (case create_subscription draws topics scope s of None \<Rightarrow> s | Some (_, s1) \<Rightarrow> s1)"
| "control_step encoded (Poll i c) s = snd (poll_subscription encoded i c s)"
| "control_step encoded (Unsubscribe i) s = snd (unsubscribe i s)"
| "control_step encoded (Publish scope topic p t pl) s = publish_event scope topic p t pl s"

text \<open>
  The tables have distinct keys and bounded sizes, every subscription is in order, and every
  completed task is queued for eviction.
\<close>

definition control_inv :: "'v control_state \<Rightarrow> bool" where
  "control_inv s \<longleftrightarrow>
     distinct (map fst (cs_tasks s)) \<and> length (cs_tasks s) \<le> MAX_TASKS
     \<and> distinct (map fst (cs_subscriptions s)) \<and> length (cs_subscriptions s) \<le> MAX_SUBSCRIPTIONS
     \<and> (\<forall>(i, r) \<in> set (cs_subscriptions s). sub_inv r)
     \<and> (\<forall>(i, r) \<in> set (cs_tasks s). is_completed (tr_state r) \<longrightarrow> i \<in> set (cs_completed_tasks s))"

lemma length_update_key: "map_of al k \<noteq> None \<Longrightarrow> length (AList.update k v al) = length al"
  by (induction al) auto

lemma length_update_le: "length (AList.update k v al) \<le> Suc (length al)"
  by (induction al) auto

lemma set_update_subset: "set (AList.update k v al) \<subseteq> insert (k, v) (set al)"
  by (induction al) auto

lemma length_delete_le: "length (AList.delete k al) \<le> length al"
  by (simp add: AList.delete_eq)

lemma set_delete_subset: "set (AList.delete k al) \<subseteq> set al"
  by (auto simp: AList.delete_eq)

lemma evict_completed_ok:
  assumes "evict_completed cs tasks = (room, cs1, tasks1)" "distinct (map fst tasks)" "length tasks \<le> MAX_TASKS"
    and "\<forall>(i, r) \<in> set tasks. is_completed (tr_state r) \<longrightarrow> i \<in> set cs"
  shows "distinct (map fst tasks1) \<and> length tasks1 \<le> MAX_TASKS \<and> (room \<longleftrightarrow> length tasks1 < MAX_TASKS)
    \<and> set tasks1 \<subseteq> set tasks \<and> (\<forall>(i, r) \<in> set tasks1. is_completed (tr_state r) \<longrightarrow> i \<in> set cs1)"
  using assms
proof (induction cs arbitrary: tasks)
  case (Cons c cs)
  show ?case
  proof (cases "length tasks < MAX_TASKS")
    case True
    with Cons.prems show ?thesis by auto
  next
    case False
    have "\<forall>(i, r) \<in> set (AList.delete c tasks). is_completed (tr_state r) \<longrightarrow> i \<in> set cs"
      using Cons.prems(4) by (auto simp: AList.delete_eq)
    moreover have "length (AList.delete c tasks) \<le> MAX_TASKS"
      using Cons.prems(3) length_delete_le [of c tasks] by simp
    moreover have "evict_completed cs (AList.delete c tasks) = (room, cs1, tasks1)"
      using Cons.prems(1) False by simp
    ultimately show ?thesis
      using Cons.IH [OF _ distinct_delete [OF Cons.prems(2)], of c] set_delete_subset [of c tasks] by blast
  qed
qed auto

lemma control_inv_tasks:
  assumes "control_inv s" "distinct (map fst tasks)" "length tasks \<le> MAX_TASKS"
    and "\<And>i r. (i, r) \<in> set tasks \<Longrightarrow> is_completed (tr_state r) \<Longrightarrow> i \<in> set completed"
  shows "control_inv (s\<lparr>cs_tasks := tasks, cs_completed_tasks := completed\<rparr>)"
  using assms by (auto simp: control_inv_def)

lemma control_inv_update_task:
  assumes inv: "control_inv s" and r: "map_of (cs_tasks s) i \<noteq> None"
    and c: "is_completed (tr_state r1) \<Longrightarrow> i \<in> set completed" "set (cs_completed_tasks s) \<subseteq> set completed"
  shows "control_inv (s\<lparr>cs_tasks := AList.update i r1 (cs_tasks s), cs_completed_tasks := completed\<rparr>)"
proof (rule control_inv_tasks [OF inv])
  show "distinct (map fst (AList.update i r1 (cs_tasks s)))" using inv by (simp add: control_inv_def distinct_update)
  show "length (AList.update i r1 (cs_tasks s)) \<le> MAX_TASKS"
    using inv r by (simp add: control_inv_def length_update_key)
next
  fix j q assume "(j, q) \<in> set (AList.update i r1 (cs_tasks s))" "is_completed (tr_state q)"
  moreover from this set_update_subset [of i r1 "cs_tasks s"] have "(j, q) = (i, r1) \<or> (j, q) \<in> set (cs_tasks s)" by blast
  ultimately show "j \<in> set completed" using inv c by (auto simp: control_inv_def)
qed

lemma control_inv_subs:
  assumes "control_inv s" "distinct (map fst subs)" "length subs \<le> MAX_SUBSCRIPTIONS"
    and "\<And>i r. (i, r) \<in> set subs \<Longrightarrow> sub_inv r"
  shows "control_inv (s\<lparr>cs_subscriptions := subs\<rparr>)"
  using assms by (auto simp: control_inv_def)

lemma start_task_inv:
  assumes inv: "control_inv s" and res: "start_task draws pid new_cancellation s = Some (q, s1)"
  shows "control_inv s1"
proof -
  obtain room cs1 tasks1 where ev: "evict_completed (cs_completed_tasks s) (cs_tasks s) = (room, cs1, tasks1)"
    by (metis prod_cases3)
  from evict_completed_ok [OF ev] inv
  have E: "distinct (map fst tasks1)" "length tasks1 \<le> MAX_TASKS" "room \<longleftrightarrow> length tasks1 < MAX_TASKS"
      "\<forall>(i, r) \<in> set tasks1. is_completed (tr_state r) \<longrightarrow> i \<in> set cs1"
    by (auto simp: control_inv_def)
  let ?s = "s\<lparr>cs_tasks := tasks1, cs_completed_tasks := cs1\<rparr>"
  have s: "control_inv ?s" using E by (intro control_inv_tasks [OF inv]) auto
  show ?thesis
  proof (cases "s1 = s\<lparr>cs_completed_tasks := cs1, cs_tasks := tasks1\<rparr>")
    case True
    then have "s1 = ?s" by simp
    then show ?thesis using s by simp
  next
    case False
    then obtain i where room: "room" and s1: "s1 = s\<lparr>cs_completed_tasks := cs1, cs_tasks := AList.update i
        \<lparr>tr_owner_pid = pid, tr_cancellation = new_cancellation, tr_state = Running\<rparr> tasks1\<rparr>"
      using res ev by (auto simp: start_task_def Let_def split: if_splits option.splits sum.splits)
    let ?t = "AList.update i \<lparr>tr_owner_pid = pid, tr_cancellation = new_cancellation, tr_state = Running\<rparr> tasks1"
    have "control_inv (s\<lparr>cs_tasks := ?t, cs_completed_tasks := cs1\<rparr>)"
    proof (rule control_inv_tasks [OF inv])
      show "distinct (map fst ?t)" using E(1) by (simp add: distinct_update)
      show "length ?t \<le> MAX_TASKS" using E(3) room length_update_le [of i _ tasks1] by (meson Suc_leI order_trans)
    next
      fix j q assume q: "(j, q) \<in> set ?t" "is_completed (tr_state q)"
      then show "j \<in> set cs1"
        using set_update_subset [of i "\<lparr>tr_owner_pid = pid, tr_cancellation = new_cancellation, tr_state = Running\<rparr>" tasks1] E(4)
        by (auto simp: is_completed_def)
    qed
    moreover have "s1 = s\<lparr>cs_tasks := ?t, cs_completed_tasks := cs1\<rparr>" using s1 by simp
    ultimately show ?thesis by simp
  qed
qed

lemma task_steps_inv:
  assumes "control_inv s"
  shows "control_inv (remove_task i s)" "control_inv (finish_task i v s)" "control_inv (snd (cancel_task i s))"
    "control_inv (cancel_all_tasks s)" "control_inv (snd (worker_start i s))"
proof -
  show "control_inv (remove_task i s)"
  proof -
    have "control_inv (s\<lparr>cs_tasks := AList.delete i (cs_tasks s), cs_completed_tasks := cs_completed_tasks s\<rparr>)"
      using assms length_delete_le [of i "cs_tasks s"] set_delete_subset [of i "cs_tasks s"]
      by (intro control_inv_tasks [OF assms]) (auto simp: control_inv_def distinct_delete)
    then show ?thesis by (simp add: remove_task_def)
  qed
  have same: "control_inv (s\<lparr>cs_tasks := AList.update i r1 (cs_tasks s)\<rparr>)"
    if "map_of (cs_tasks s) i = Some r" "is_completed (tr_state r1) \<Longrightarrow> is_completed (tr_state r)" for r r1
  proof -
    have "is_completed (tr_state r) \<Longrightarrow> i \<in> set (cs_completed_tasks s)"
      using assms map_of_SomeD [OF that(1)] by (auto simp: control_inv_def)
    then show ?thesis
      using control_inv_update_task [OF assms, of i r1 "cs_completed_tasks s"] that by simp
  qed
  show "control_inv (finish_task i v s)"
  proof (cases "\<exists>r. map_of (cs_tasks s) i = Some r \<and> \<not> is_completed (tr_state r)")
    case True
    then obtain r where r: "map_of (cs_tasks s) i = Some r" "\<not> is_completed (tr_state r)" by blast
    have "control_inv (s\<lparr>cs_tasks := AList.update i (r\<lparr>tr_state := Completed v\<rparr>) (cs_tasks s),
        cs_completed_tasks := cs_completed_tasks s @ [i]\<rparr>)"
      by (rule control_inv_update_task [OF assms]) (use r in auto)
    moreover have "finish_task i v s = s\<lparr>cs_tasks := AList.update i (r\<lparr>tr_state := Completed v\<rparr>) (cs_tasks s),
        cs_completed_tasks := cs_completed_tasks s @ [i]\<rparr>"
      using r by (simp add: finish_task_def)
    ultimately show ?thesis by (simp only:)
  next
    case False
    then show ?thesis using assms by (auto simp: finish_task_def split: option.splits)
  qed
  show "control_inv (snd (cancel_task i s))"
  proof (cases "\<exists>r. map_of (cs_tasks s) i = Some r \<and> is_running (tr_state r)")
    case True
    then obtain r where r: "map_of (cs_tasks s) i = Some r" "is_running (tr_state r)" by blast
    obtain ok c where c: "cancel (tr_cancellation r) = (ok, c)" by (cases "cancel (tr_cancellation r)")
    let ?r1 = "if ok then r\<lparr>tr_cancellation := c, tr_state := Cancelling\<rparr> else r\<lparr>tr_cancellation := c\<rparr>"
    have "snd (cancel_task i s) = s\<lparr>cs_tasks := AList.update i ?r1 (cs_tasks s)\<rparr>"
      using r c by (simp add: cancel_task_def Let_def)
    then show ?thesis using same [OF r(1), of ?r1] by (simp add: is_completed_def split: if_splits)
  next
    case False
    then show ?thesis using assms by (auto simp: cancel_task_def Let_def split: option.splits)
  qed
  show "control_inv (snd (worker_start i s))"
  proof (cases "map_of (cs_tasks s) i")
    case (Some r)
    obtain ok c where c: "try_start (tr_cancellation r) = (ok, c)" by (cases "try_start (tr_cancellation r)")
    then show ?thesis using same [OF Some, of "r\<lparr>tr_cancellation := c\<rparr>"] Some by (simp add: worker_start_def)
  qed (use assms in \<open>simp add: worker_start_def\<close>)
  show "control_inv (cancel_all_tasks s)"
    using assms by (auto simp: cancel_all_tasks_def control_inv_def is_completed_def case_prod_beta comp_def
        split: if_splits)
qed

lemma create_subscription_inv:
  assumes inv: "control_inv s" and res: "create_subscription draws topics scope s = Some (q, s1)"
  shows "control_inv s1"
proof (cases "s1 = s")
  case False
  let ?r = "\<lparr>sr_topics = topics, sr_scope = scope, sr_sequence = 0, sr_cursor = 0, sr_events = [], sr_gap = None\<rparr>"
  from False res obtain i where few: "length (cs_subscriptions s) < MAX_SUBSCRIPTIONS"
    and s1: "s1 = s\<lparr>cs_subscriptions := AList.update i ?r (cs_subscriptions s)\<rparr>"
    by (auto simp: create_subscription_def split: if_splits option.splits sum.splits)
  have "sub_inv ?r" by (simp add: sub_inv_def EVENT_QUEUE_LIMIT_def)
  then show ?thesis
    unfolding s1 using inv few length_update_le [of i ?r "cs_subscriptions s"] set_update_subset [of i ?r "cs_subscriptions s"]
    by (intro control_inv_subs) (auto simp: control_inv_def distinct_update)
qed (use inv in simp)

lemma poll_subscription_inv:
  assumes enc: "total_encoding encoded" and inv: "control_inv s"
  shows "control_inv (snd (poll_subscription encoded i c s))"
proof (cases "map_of (cs_subscriptions s) i")
  case None
  with inv show ?thesis by (simp add: poll_subscription_def)
next
  case (Some r)
  obtain q r1 where p: "poll_record encoded i c r = (q, r1)" by (cases "poll_record encoded i c r")
  have "sub_inv r1" using poll_record_inv [OF enc _ p] inv map_of_SomeD [OF Some] by (auto simp: control_inv_def)
  then have "control_inv (s\<lparr>cs_subscriptions := AList.update i r1 (cs_subscriptions s)\<rparr>)"
    using inv Some set_update_subset [of i r1 "cs_subscriptions s"] length_update_key [of "cs_subscriptions s" i r1]
    by (intro control_inv_subs) (auto simp: control_inv_def distinct_update)
  then show ?thesis using Some p by (auto simp: poll_subscription_def Let_def split: sum.splits)
qed

lemma control_inv_notify [simp]: "control_inv (notify s) = control_inv s"
  by (simp add: control_inv_def notify_def)

lemma unsubscribe_inv:
  assumes "control_inv s"
  shows "control_inv (snd (unsubscribe i s))"
proof -
  have "control_inv (s\<lparr>cs_subscriptions := AList.delete i (cs_subscriptions s)\<rparr>)"
    using assms length_delete_le [of i "cs_subscriptions s"] set_delete_subset [of i "cs_subscriptions s"]
    by (intro control_inv_subs) (auto simp: control_inv_def distinct_delete)
  then show ?thesis using assms by (simp add: unsubscribe_def split: option.splits)
qed

lemma publish_event_inv: "control_inv s \<Longrightarrow> control_inv (publish_event scope topic p t pl s)"
  unfolding publish_event_def Let_def control_inv_notify
  by (auto simp: control_inv_def case_prod_beta comp_def intro!: publish_to_inv)

lemma default_state_inv: "control_inv default_state"
  by (simp add: control_inv_def default_state_def MAX_TASKS_def)

lemma control_step_inv:
  assumes "total_encoding encoded" "control_inv s"
  shows "control_inv (control_step encoded e s)"
  using assms task_steps_inv [OF assms(2)] start_task_inv [OF assms(2)] create_subscription_inv [OF assms(2)]
    poll_subscription_inv [OF assms] unsubscribe_inv [OF assms(2)] publish_event_inv [OF assms(2)]
  by (cases e) (auto split: option.splits)

interpretation control: invariant_machine "control_step encoded" "\<lambda>s. total_encoding encoded \<and> control_inv s" "\<lambda>_. True"
  for encoded
  by unfold_locales (use control_step_inv in blast)

section \<open>A client that follows one subscription\<close>

text \<open>
  The client polls with the cursor of its last batch and keeps what it got; \<open>log\<close> is the
  specification: the matching events in the order in which they were published.
\<close>

datatype 'v feed_event = FeedPublish string string nat 'v 'v 'v | FeedPoll

type_synonym 'v feed = "'v subscription_record \<times> nat \<times> 'v subscription_event list"

fun feed_step ::
  "('v subscription_event \<Rightarrow> nat res) \<Rightarrow> string \<Rightarrow> 'v feed_event \<Rightarrow> 'v feed \<Rightarrow> 'v feed" where
  "feed_step encoded i (FeedPublish scope topic rv p t pl) (r, cur, got) =
     (publish_to scope topic rv p t pl r, cur, got)"
| "feed_step encoded i FeedPoll (r, cur, got) =
     (case poll_record encoded i cur r of
        (Inl _, r1) \<Rightarrow> (r1, cur, got)
      | (Inr events, r1) \<Rightarrow> (r1, sr_cursor r1, got @ events))"

fun feed_log :: "string set \<Rightarrow> string \<Rightarrow> 'v feed_event list \<Rightarrow> (string \<times> 'v) list" where
  "feed_log topics scope [] = []"
| "feed_log topics scope (FeedPublish sc topic rv p t pl # es) =
     (if sc = scope \<and> topic \<in> topics then (topic, pl) # feed_log topics scope es else feed_log topics scope es)"
| "feed_log topics scope (FeedPoll # es) = feed_log topics scope es"

definition fresh_subscription :: "string set \<Rightarrow> string \<Rightarrow> 'v subscription_record" where
  "fresh_subscription topics scope =
     \<lparr>sr_topics = topics, sr_scope = scope, sr_sequence = 0, sr_cursor = 0, sr_events = [], sr_gap = None\<rparr>"

definition news :: "'v subscription_event list \<Rightarrow> (string \<times> 'v) list" where
  "news es = map (\<lambda>e. (ev_topic e, ev_payload e)) es"

text \<open>What the client has, what is queued for it, and the log \<open>l\<close> of what was published.\<close>

definition follows :: "string set \<Rightarrow> string \<Rightarrow> (string \<times> 'v) list \<Rightarrow> 'v feed \<Rightarrow> bool" where
  "follows topics scope l f \<longleftrightarrow> (case f of (r, cur, got) \<Rightarrow>
     sub_inv r \<and> sr_topics r = topics \<and> sr_scope r = scope \<and> cur = sr_cursor r
     \<and> map ev_sequence got = [1..<Suc cur] \<and> (\<exists>more. l = news got @ more)
     \<and> (sr_gap r = None \<longrightarrow> l = news (got @ sr_events r)))"

lemma feed_publish:
  assumes "follows topics scope l (r, cur, got)"
  shows "follows topics scope (l @ feed_log topics scope [FeedPublish sc topic rv p t pl])
     (publish_to sc topic rv p t pl r, cur, got)"
proof -
  have inv: "sub_inv (publish_to sc topic rv p t pl r)" using assms publish_to_inv by (auto simp: follows_def)
  have fields: "sr_topics (publish_to sc topic rv p t pl r) = sr_topics r"
    "sr_scope (publish_to sc topic rv p t pl r) = sr_scope r" "sr_cursor (publish_to sc topic rv p t pl r) = sr_cursor r"
    by (auto simp: publish_to_def Let_def split: option.splits)
  have ev: "news (sr_events (publish_to sc topic rv p t pl r))
      = news (sr_events r) @ feed_log (sr_topics r) (sr_scope r) [FeedPublish sc topic rv p t pl]" "sr_gap r = None"
    if "sr_gap (publish_to sc topic rv p t pl r) = None"
    using that by (auto simp: publish_to_def Let_def news_def split: option.splits if_splits)
  show ?thesis
    using assms inv fields ev by (auto simp: follows_def news_def simp del: feed_log.simps upt_Suc)
qed

lemma feed_poll:
  assumes enc: "total_encoding encoded" and f: "follows topics scope l (r, cur, got)"
  shows "follows topics scope l (feed_step encoded i FeedPoll (r, cur, got))"
proof -
  obtain q r1 where p: "poll_record encoded i cur r = (q, r1)" by (cases "poll_record encoded i cur r")
  have inv: "sub_inv r" using f by (simp add: follows_def)
  have inv1: "sub_inv r1" using poll_record_inv [OF enc inv p] .
  show ?thesis using enc inv p
  proof (cases rule: poll_record_cases)
    case (batch taken left)
    have seqs: "map ev_sequence (taken @ left) = [Suc (sr_cursor r)..<Suc (sr_sequence r)]"
      using inv batch by (simp add: sub_inv_def)
    have len: "length taken \<le> sr_sequence r - sr_cursor r"
      using arg_cong [OF seqs, of length] by (simp del: upt_Suc)
    have "map ev_sequence taken = take (length taken) [Suc (sr_cursor r)..<Suc (sr_sequence r)]"
      unfolding seqs [symmetric] by simp
    also have "\<dots> = [Suc (sr_cursor r)..<Suc (sr_cursor r + length taken)]"
      using len inv by (subst take_upt) (auto simp: sub_inv_def simp del: upt_Suc)
    finally have "map ev_sequence (got @ taken) = [1..<Suc (sr_cursor r + length taken)]"
      using f upt_add_eq_append [of 1 "Suc (sr_cursor r)" "length taken"] by (simp add: follows_def del: upt_Suc)
    then show ?thesis
      using f batch p inv1 by (auto simp: follows_def news_def simp del: upt_Suc)
  next
    case (refused e)
    then show ?thesis using f p inv1 by (auto simp: follows_def simp del: upt_Suc)
  qed
qed

lemma feed_follows:
  assumes enc: "total_encoding encoded" and f: "follows topics scope l f"
  shows "follows topics scope (l @ feed_log topics scope es) (fold (feed_step encoded i) es f)"
  using f
proof (induction es arbitrary: l f)
  case (Cons e es)
  obtain r cur got where [simp]: "f = (r, cur, got)" by (cases f)
  show ?case
  proof (cases e)
    case (FeedPublish sc topic rv p t pl)
    have "feed_log topics scope (e # es) = feed_log topics scope [e] @ feed_log topics scope es"
      by (simp add: FeedPublish)
    then show ?thesis
      using Cons.IH [OF feed_publish [OF Cons.prems [simplified], of sc topic rv p t pl]] FeedPublish
      by (simp del: feed_log.simps)
  next
    case FeedPoll
    have "feed_log topics scope (e # es) = feed_log topics scope es" by (simp add: FeedPoll)
    then show ?thesis
      using Cons.IH [OF feed_poll [OF enc, of topics scope l r cur got i]] Cons.prems FeedPoll
      by (simp del: feed_log.simps feed_step.simps(2))
  qed
qed simp

section \<open>Properties\<close>

text \<open>
  C29.  Event delivery.  A client that follows a subscription gets the matching events exactly once
  and in the order in which they were published, numbered 1, 2, 3 and so on: what it has is always
  a prefix of the log, and as long as the server does not announce a gap, what it has together with
  what is queued for it is the whole log.
\<close>

theorem subscription_delivery:
  assumes "total_encoding encoded"
    and "fold (feed_step encoded i) es (fresh_subscription topics scope, 0, []) = (r, cur, got)"
  shows "map ev_sequence got = [1..<Suc (length got)]
    \<and> news got = take (length got) (feed_log topics scope es)
    \<and> (sr_gap r = None \<longrightarrow> news (got @ sr_events r) = feed_log topics scope es)"
proof -
  have "follows topics scope [] (fresh_subscription topics scope, 0, [])"
    by (simp add: follows_def fresh_subscription_def sub_inv_def EVENT_QUEUE_LIMIT_def news_def)
  from feed_follows [OF assms(1) this, of es i] assms(2)
  have f: "follows topics scope (feed_log topics scope es) (r, cur, got)" by simp
  then have m: "map ev_sequence got = [1..<Suc cur]" by (simp add: follows_def)
  have "length got = cur" using arg_cong [OF m, of length] by (simp del: upt_Suc)
  moreover obtain more where "feed_log topics scope es = news got @ more" using f by (auto simp: follows_def)
  then have "news got = take (length got) (feed_log topics scope es)" by (simp add: news_def)
  ultimately show ?thesis using f m by (simp add: follows_def del: upt_Suc)
qed

theorem subscription_delivery_witness:
  "news (snd (snd (fold (feed_step (\<lambda>_. Inr 10) ''sub'')
       [FeedPublish ''x'' ''a'' 1 ''p'' ''t'' ''one'', FeedPoll, FeedPublish ''x'' ''b'' 2 ''p'' ''t'' ''two'']
       (fresh_subscription {''a''} ''x'', 0, [])))) = [(''a'', ''one'')]"
proof -
  let ?es = "[FeedPublish ''x'' ''a'' 1 ''p'' ''t'' ''one'', FeedPoll, FeedPublish ''x'' ''b'' 2 ''p'' ''t'' ''two'']"
  obtain r cur got where run: "fold (feed_step (\<lambda>_. Inr 10) ''sub'') ?es (fresh_subscription {''a''} ''x'', 0, []) = (r, cur, got)"
    by (metis prod_cases3)
  have enc: "total_encoding (\<lambda>_. Inr 10)" by (simp add: total_encoding_def)
  have "length got = 1"
    using run by (auto simp: fresh_subscription_def publish_to_def poll_record_def checked_add_def REQUEST_LIMIT_def
        EVENT_QUEUE_LIMIT_def sat_add_def Let_def)
  with subscription_delivery [OF enc run] run show ?thesis by simp
qed

text \<open>
  C30.  The control plane stays bounded under any sequence of requests: at most 64 tasks, at most 64
  subscriptions and at most 64 queued events each, whatever clients do; and every finished task is
  queued for eviction.
\<close>

theorem control_bounded:
  assumes "total_encoding encoded"
  shows "let s = fold (control_step encoded) es default_state
    in length (cs_tasks s) \<le> 64 \<and> length (cs_subscriptions s) \<le> 64
       \<and> (\<forall>(i, r) \<in> set (cs_subscriptions s). length (sr_events r) \<le> 64)
       \<and> (\<forall>(i, r) \<in> set (cs_tasks s). is_completed (tr_state r) \<longrightarrow> i \<in> set (cs_completed_tasks s))"
proof -
  have "control_inv (fold (control_step encoded) es default_state)"
    using control.run_inv [of encoded default_state es] assms default_state_inv by (simp add: list_all_iff)
  then show ?thesis
    by (auto simp: control_inv_def Let_def sub_inv_def MAX_TASKS_def MAX_SUBSCRIPTIONS_def EVENT_QUEUE_LIMIT_def)
qed

theorem control_bounded_witness:
  "length (cs_tasks (fold (control_step (\<lambda>_. Inr 1)) [StartTask [Inr 5] 7, CancelAllTasks] (default_state :: string control_state))) \<le> 64"
  using control_bounded [of "(\<lambda>_. Inr 1) :: string subscription_event \<Rightarrow> nat res" "[StartTask [Inr 5] 7, CancelAllTasks]"]
  by (simp add: total_encoding_def Let_def)

text \<open>
  Starting a task is refused for the task limit only when 64 unfinished tasks exist: finished
  tasks never block a new one.
\<close>

lemma task_limit_only_unfinished:
  assumes "control_inv s" "start_task draws pid c s = Some (Inl e, s1)" "re_code e = -32001"
  shows "length (cs_tasks s1) = MAX_TASKS \<and> (\<forall>(i, r) \<in> set (cs_tasks s1). \<not> is_completed (tr_state r))"
proof -
  obtain room cs1 tasks1 where ev: "evict_completed (cs_completed_tasks s) (cs_tasks s) = (room, cs1, tasks1)"
    by (metis prod_cases3)
  have "unique_capability_id pf ds ex = Some (Inl e, rest) \<Longrightarrow> re_code e = -32603"
    for pf ds rest and ex :: "(string \<times> 'a task_record) list"
    by (induction pf ds ex rule: unique_capability_id.induct) (auto simp: new_rpc_error_def split: if_splits)
  then have full: "\<not> room" "s1 = s\<lparr>cs_completed_tasks := cs1, cs_tasks := tasks1\<rparr>"
    using assms(2,3) ev by (auto simp: start_task_def Let_def split: if_splits option.splits sum.splits)
  have "cs1 = []" if "evict_completed cs ts = (False, cs1, ts1)" for cs and ts ts1 :: "(string \<times> 'a task_record) list"
    using that by (induction cs ts rule: evict_completed.induct) (auto split: if_splits)
  then have "cs1 = []" using ev full(1) by simp
  moreover have "length tasks1 \<le> MAX_TASKS" "room \<longleftrightarrow> length tasks1 < MAX_TASKS"
      "\<forall>(i, r) \<in> set tasks1. is_completed (tr_state r) \<longrightarrow> i \<in> set cs1"
    using evict_completed_ok [OF ev] assms(1) by (simp_all add: control_inv_def)
  ultimately show ?thesis using full by auto
qed

definition busy_tasks :: "string control_state" where
  "busy_tasks = default_state\<lparr>cs_tasks := map (\<lambda>n. (show_nat n,
     \<lparr>tr_owner_pid = 1, tr_cancellation = PENDING, tr_state = Running\<rparr>)) [0..<64]\<rparr>"

datatype attempt = Cancel | TryStart

fun attempts :: "attempt list \<Rightarrow> cancellation \<Rightarrow> bool list \<times> cancellation" where
  "attempts [] c = ([], c)"
| "attempts (Cancel # as) c = (case cancel c of (ok, c1) \<Rightarrow> (case attempts as c1 of (oks, c2) \<Rightarrow> (ok # oks, c2)))"
| "attempts (TryStart # as) c = (case try_start c of (ok, c1) \<Rightarrow> (case attempts as c1 of (oks, c2) \<Rightarrow> (ok # oks, c2)))"

lemma attempts_settled: "c \<noteq> PENDING \<Longrightarrow> attempts as c = (replicate (length as) False, c)"
  by (induction as c rule: attempts.induct) (auto simp: cancel_def try_start_def)

text \<open>
  Cancelling and starting exclude each other: over any sequence of attempts on one
  cancellation cell the first one succeeds and no other does, so a command never starts after its
  cancellation was confirmed and is never reported cancelled after it started.
\<close>

lemma one_attempt_wins:
  "attempts (a # as) new_cancellation =
     (True # replicate (length as) False, if a = Cancel then CANCELLED else STARTED)"
  by (cases a) (simp_all add: new_cancellation_def cancel_def try_start_def attempts_settled)

end
