(* ===== verification/Session_Names.thy ===== *)
theory Session_Names
  imports Terminal_History
begin

text \<open>
  \<^verbatim>\<open>crates/bootty-mux/src/session_names.rs\<close>: default session names, truncation at a character
  boundary, and the search for a name that is not in use.  Names are UTF-8 byte lists; a byte
  \<open>80..BF\<close> continues a character.
\<close>

definition SESSION_NAME_MAX_BYTES :: nat where "SESSION_NAME_MAX_BYTES = 256"

section \<open>Strings\<close>

definition continuation_byte :: "char \<Rightarrow> bool" where
  "continuation_byte c = (128 \<le> (of_char c :: nat) \<and> (of_char c :: nat) < 192)"

definition is_char_boundary :: "string \<Rightarrow> nat \<Rightarrow> bool" where
  "is_char_boundary s i =
     (i = 0 \<or> i = length s \<or> i < length s \<and> \<not> continuation_byte (s ! i))"

text \<open>\<^verbatim>\<open>char::is_control\<close> mapped to an underscore; a C1 control takes two bytes.\<close>

fun mask_controls :: "string \<Rightarrow> string" where
  "mask_controls [] = []"
| "mask_controls (c # cs) =
     (if of_char c < (32::nat) \<or> of_char c = (127::nat) then CHR ''_'' # mask_controls cs
      else if of_char c = (194::nat) then
        (case cs of
           [] \<Rightarrow> [c]
         | d # ds \<Rightarrow> if 128 \<le> (of_char d :: nat) \<and> (of_char d :: nat) < 160 then CHR ''_'' # mask_controls ds
                     else c # mask_controls cs)
      else c # mask_controls cs)"

text \<open>\<^verbatim>\<open>trim_end_matches(".git")\<close> removes the suffix as often as it occurs.\<close>

function trim_end_matches :: "string \<Rightarrow> string \<Rightarrow> string" where
  "trim_end_matches suffix s =
     (if suffix \<noteq> [] \<and> ends_with suffix s
      then trim_end_matches suffix (take (length s - length suffix) s) else s)"
  by pat_completeness auto

termination
  by (relation "measure (\<lambda>(suffix, s). length s)") (auto simp: ends_with_def intro!: diff_less)

declare trim_end_matches.simps [simp del]

text \<open>\<^verbatim>\<open>rsplit_once\<close> on one byte.\<close>

definition rsplit_once :: "char \<Rightarrow> string \<Rightarrow> (string \<times> string) option" where
  "rsplit_once c s =
     (if c \<in> set s
      then Some (rev (tl (dropWhile (\<lambda>x. x \<noteq> c) (rev s))), rev (takeWhile (\<lambda>x. x \<noteq> c) (rev s)))
      else None)"

text \<open>\<^verbatim>\<open>split\<close> on a set of bytes.\<close>

fun split_any :: "(char \<Rightarrow> bool) \<Rightarrow> string \<Rightarrow> string list" where
  "split_any p [] = [[]]"
| "split_any p (x # xs) =
     (if p x then [] # split_any p xs
      else (case split_any p xs of [] \<Rightarrow> [[x]] | y # ys \<Rightarrow> (x # y) # ys))"

section \<open>Names\<close>

text \<open>The loop of \<^verbatim>\<open>truncate_session_name\<close>: step back to a character boundary.\<close>

fun back_to_boundary :: "string \<Rightarrow> nat \<Rightarrow> nat" where
  "back_to_boundary s 0 = 0"
| "back_to_boundary s (Suc n) = (if is_char_boundary s (Suc n) then Suc n else back_to_boundary s n)"

definition truncate_session_name :: "string \<Rightarrow> nat \<Rightarrow> string" where
  "truncate_session_name name max_bytes = take (back_to_boundary name (min (length name) max_bytes)) name"

definition generated_session_name :: "string \<Rightarrow> string" where
  "generated_session_name candidate =
     (let name = truncate_session_name (mask_controls candidate) SESSION_NAME_MAX_BYTES
      in if name = [] then ''bootty'' else name)"

definition session_name_for_path :: "string \<Rightarrow> string" where
  "session_name_for_path path =
     trim_end_matches ''.git'' (case path_file_name path of None \<Rightarrow> ''bootty'' | Some n \<Rightarrow> n)"

definition path_separator :: "char \<Rightarrow> bool" where
  "path_separator c = (c = CHR ''/'' \<or> c = CHR 0x5C)"

definition session_name_for_remote_path :: "string \<Rightarrow> string" where
  "session_name_for_remote_path path =
     trim_end_matches ''.git''
       (case find (\<lambda>n. n \<noteq> [] \<and> \<not> ends_with '':'' n)
               (rev (split_any path_separator (rev (dropWhile path_separator (rev path))))) of
          None \<Rightarrow> ''bootty''
        | Some n \<Rightarrow> n)"

text \<open>The candidate of one round of the loop.\<close>

definition suffixed_name :: "string \<Rightarrow> nat \<Rightarrow> string" where
  "suffixed_name base n =
     (let tail = ''-'' @ show_nat n
      in truncate_session_name base (SESSION_NAME_MAX_BYTES - length tail) @ tail)"

partial_function (option) unique_loop :: "string \<Rightarrow> string list \<Rightarrow> nat \<Rightarrow> string option" where
  "unique_loop base existing n =
     (if suffixed_name base n \<in> set existing then unique_loop base existing (sat_add 128 n 1)
      else Some (suffixed_name base n))"

definition unique_session_name :: "string \<Rightarrow> string list \<Rightarrow> string option" where
  "unique_session_name candidate existing =
     (if candidate \<notin> set existing then Some candidate
      else
        (let (grp, leaf) = (case rsplit_once (CHR ''/'') candidate of None \<Rightarrow> ([], candidate) | Some p \<Rightarrow> p);
             base = (if grp = [] then leaf else candidate)
         in unique_loop base existing 2))"

definition is_uniquified_session_name :: "string \<Rightarrow> string \<Rightarrow> bool" where
  "is_uniquified_session_name name base =
     (if name = base then True
      else
        (let (grp, leaf) = (case rsplit_once (CHR ''/'') base of None \<Rightarrow> ([], base) | Some p \<Rightarrow> p)
         in case Option.bind (strip_prefix grp name) (strip_prefix (if grp = [] then [] else ''/'')) of
              None \<Rightarrow> False
            | Some candidate_leaf \<Rightarrow>
                (case Option.bind (strip_prefix leaf candidate_leaf) (strip_prefix ''-'') of
                   None \<Rightarrow> False
                 | Some digits \<Rightarrow> digits \<noteq> [] \<and> list_all is_digit digits)))"

section \<open>Truncation\<close>

lemma back_to_boundary_le: "back_to_boundary s n \<le> n"
  by (induction s n rule: back_to_boundary.induct) auto

lemma back_to_boundary_ok: "is_char_boundary s (back_to_boundary s n)"
  by (induction s n rule: back_to_boundary.induct) (auto simp: is_char_boundary_def)

lemma back_to_boundary_maximal:
  "back_to_boundary s n < i \<Longrightarrow> i \<le> n \<Longrightarrow> \<not> is_char_boundary s i"
  by (induction s n rule: back_to_boundary.induct) (auto split: if_splits simp: le_Suc_eq)

lemma truncate_length: "length (truncate_session_name s n) \<le> n"
  using back_to_boundary_le [of s "min (length s) n"] by (simp add: truncate_session_name_def)

lemma truncate_fits: "length s \<le> n \<Longrightarrow> truncate_session_name s n = s"
proof -
  assume "length s \<le> n"
  moreover have "back_to_boundary s (length s) = length s"
    by (cases "length s") (simp_all add: is_char_boundary_def)
  ultimately show ?thesis by (simp add: truncate_session_name_def min_def)
qed

section \<open>The search ends\<close>

lemma digits_base_digits: "2 \<le> b \<Longrightarrow> b \<le> 10 \<Longrightarrow> list_all is_digit (digits_base b n)"
proof (induction b n rule: digits_base.induct)
  case (1 b n)
  have "is_digit (digit_char d)" if "d < 10" for d
  proof -
    have "d \<in> {0, 1, 2, 3, 4, 5, 6, 7, 8, 9}" using that by auto
    then show ?thesis by (auto simp: is_digit_def)
  qed
  moreover have "n mod b < b" using 1(2) by simp
  then have "n mod b < 10" using 1(3) by simp
  ultimately show ?case using 1 by (subst digits_base.simps) (auto simp: list_all_append)
qed

lemma show_nat_digits: "list_all is_digit (show_nat n)" "show_nat n \<noteq> []"
  using digits_base_digits [of 10 n] digits_base.simps [of 10 n] by (auto simp: show_nat_def split: if_splits)

lemma dash_not_digit: "list_all is_digit ds \<Longrightarrow> CHR ''-'' \<notin> set ds"
  by (auto simp: list_all_iff is_digit_def)

lemma suffixed_name_inject:
  assumes "suffixed_name b m = suffixed_name b n"
  shows "m = n"
proof -
  have "takeWhile (\<lambda>c. c \<noteq> CHR ''-'') (rev (suffixed_name b k)) = rev (show_nat k)" for k
    using dash_not_digit [OF show_nat_digits(1), of k]
    by (auto simp: suffixed_name_def Let_def takeWhile_append2 takeWhile_tail)
  with assms have "rev (show_nat m) = rev (show_nat n)" by metis
  then show ?thesis by simp
qed

text \<open>
  Every number tried and found in use removes one name from those that can still block: the
  search ends after at most one round per existing name.
\<close>

lemma unique_loop_ends:
  assumes "n + card (set existing \<inter> suffixed_name base ` {n..}) < 2 ^ 128"
  shows "\<exists>k \<ge> n. unique_loop base existing n = Some (suffixed_name base k) \<and> suffixed_name base k \<notin> set existing
    \<and> k \<le> n + card (set existing \<inter> suffixed_name base ` {n..})"
  using assms
proof (induction "card (set existing \<inter> suffixed_name base ` {n..})" arbitrary: n rule: less_induct)
  case less
  show ?case
  proof (cases "suffixed_name base n \<in> set existing")
    case False
    then show ?thesis by (subst unique_loop.simps) auto
  next
    case True
    let ?blocked = "\<lambda>n. set existing \<inter> suffixed_name base ` {n..}"
    have "suffixed_name base n \<notin> suffixed_name base ` {Suc n..}" using suffixed_name_inject by fastforce
    moreover have "{n..} = insert n {Suc n..}" by auto
    ultimately have "?blocked n = insert (suffixed_name base n) (?blocked (Suc n))"
      and "suffixed_name base n \<notin> ?blocked (Suc n)" using True by auto
    then have c: "card (?blocked n) = Suc (card (?blocked (Suc n)))" by simp
    then have sat: "sat_add 128 n 1 = Suc n" using less.prems by (simp add: sat_add_def)
    obtain k where "k \<ge> Suc n" "unique_loop base existing (Suc n) = Some (suffixed_name base k)"
      "suffixed_name base k \<notin> set existing" "k \<le> Suc n + card (?blocked (Suc n))"
      using less.hyps [of "Suc n"] c less.prems by auto
    then show ?thesis using True sat c by (subst unique_loop.simps) (auto intro!: exI [of _ k])
  qed
qed

lemma rsplit_once_Some:
  "rsplit_once c s = Some (a, b) \<longleftrightarrow> s = a @ c # b \<and> c \<notin> set b"
proof
  assume r: "rsplit_once c s = Some (a, b)"
  let ?d = "dropWhile (\<lambda>x. x \<noteq> c) (rev s)"
  have mem: "c \<in> set (rev s)" and a: "a = rev (tl ?d)" and b: "b = rev (takeWhile (\<lambda>x. x \<noteq> c) (rev s))"
    using r by (auto simp: rsplit_once_def split: if_splits)
  have "?d \<noteq> []" using mem by (auto simp: dropWhile_eq_Nil_conv)
  moreover from this have "hd ?d = c" using hd_dropWhile [of "\<lambda>x. x \<noteq> c" "rev s"] by simp
  ultimately have "?d = c # tl ?d" by (metis list.collapse)
  then have "rev s = rev b @ c # rev a"
    using takeWhile_dropWhile_id [of "\<lambda>x. x \<noteq> c" "rev s"] by (simp add: a b)
  then have "s = a @ c # b" by (metis append.assoc append_Cons append_Nil rev.simps(2) rev_append rev_rev_ident)
  then show "s = a @ c # b \<and> c \<notin> set b" by (auto simp: b dest: set_takeWhileD)
next
  assume s: "s = a @ c # b \<and> c \<notin> set b"
  then have "\<forall>x \<in> set (rev b). x \<noteq> c" by auto
  then have "takeWhile (\<lambda>x. x \<noteq> c) (rev b @ c # rev a) = rev b" "dropWhile (\<lambda>x. x \<noteq> c) (rev b @ c # rev a) = c # rev a"
    by (induction b rule: rev_induct) auto
  with s show "rsplit_once c s = Some (a, b)" by (simp add: rsplit_once_def)
qed

lemma rsplit_once_None: "rsplit_once c s = None \<longleftrightarrow> c \<notin> set s"
  by (simp add: rsplit_once_def)

lemma strip_prefix_append [simp]: "strip_prefix p (p @ s) = Some s"
  by (simp add: strip_prefix_def)

lemma strip_prefix_Nil [simp]: "strip_prefix [] s = Some s"
  by (simp add: strip_prefix_def)

lemma strip_prefix_Cons [simp]: "strip_prefix (c # p) (c # s) = strip_prefix p s"
  by (simp add: strip_prefix_def)

lemma digits_base_length: "2 \<le> b \<Longrightarrow> n < b ^ Suc k \<Longrightarrow> length (digits_base b n) \<le> Suc k"
proof (induction k arbitrary: n)
  case 0
  then show ?case by (subst digits_base.simps) simp
next
  case (Suc k)
  have "n div b < b ^ Suc k" using Suc.prems by (metis less_mult_imp_div_less mult.commute power_Suc)
  then show ?case using Suc.IH [of "n div b"] Suc.prems(1) by (subst digits_base.simps) simp
qed

definition unique_base :: "string \<Rightarrow> string" where
  "unique_base candidate =
     (case rsplit_once (CHR ''/'') candidate of
        None \<Rightarrow> candidate | Some (grp, leaf) \<Rightarrow> if grp = [] then leaf else candidate)"

lemma unique_session_name_cases:
  assumes "candidate \<in> set existing" "length existing < 2 ^ 64"
  obtains n where "unique_session_name candidate existing = Some (suffixed_name (unique_base candidate) n)"
    "suffixed_name (unique_base candidate) n \<notin> set existing" "2 \<le> n" "length (show_nat n) \<le> 20"
proof -
  let ?base = "unique_base candidate"
  have card: "card (set existing \<inter> suffixed_name ?base ` {2..}) < 2 ^ 64"
    using assms(2) card_length [of existing] card_mono [of "set existing" "set existing \<inter> suffixed_name ?base ` {2..}"]
    by (meson Int_lower1 List.finite_set order_le_less_trans)
  then have "2 + card (set existing \<inter> suffixed_name ?base ` {2..}) < 2 ^ 128" by simp
  from unique_loop_ends [OF this] obtain k where k: "2 \<le> k" "unique_loop ?base existing 2 = Some (suffixed_name ?base k)"
    "suffixed_name ?base k \<notin> set existing" "k \<le> 2 + card (set existing \<inter> suffixed_name ?base ` {2..})" by blast
  have "k < 10 ^ 20" using k(4) card by simp
  then have "length (show_nat k) \<le> 20" using digits_base_length [of 10 k 19] by (simp add: show_nat_def)
  moreover have "unique_session_name candidate existing = unique_loop ?base existing 2"
    using assms(1) by (auto simp: unique_session_name_def unique_base_def split: option.splits)
  ultimately show ?thesis using k by (intro that) auto
qed

lemma suffixed_name_fits:
  assumes "length base \<le> 200" "length (show_nat n) \<le> 20"
  shows "suffixed_name base n = base @ ''-'' @ show_nat n"
  using assms by (simp add: suffixed_name_def Let_def SESSION_NAME_MAX_BYTES_def truncate_fits)

lemma unique_base_length: "length (unique_base c) \<le> length c"
  by (auto simp: unique_base_def rsplit_once_Some split: option.splits)

lemma uniquified_accepts:
  assumes "list_all is_digit ds" "ds \<noteq> []"
  shows "is_uniquified_session_name (unique_base c @ ''-'' @ ds) c"
proof (cases "rsplit_once (CHR ''/'') c")
  case None
  then show ?thesis using assms by (simp add: is_uniquified_session_name_def unique_base_def)
next
  case (Some p)
  obtain grp leaf where p: "p = (grp, leaf)" by (cases p)
  then have c: "c = grp @ CHR ''/'' # leaf" using Some by (simp add: rsplit_once_Some)
  show ?thesis
  proof (cases "grp = []")
    case True
    then show ?thesis using Some p assms by (simp add: is_uniquified_session_name_def unique_base_def)
  next
    case False
    have "strip_prefix grp (c @ ''-'' @ ds) = Some (''/'' @ leaf @ ''-'' @ ds)" by (simp add: c)
    moreover have "strip_prefix ''/'' (''/'' @ leaf @ ''-'' @ ds) = Some (leaf @ ''-'' @ ds)"
      by (rule strip_prefix_append)
    moreover have "strip_prefix leaf (leaf @ ''-'' @ ds) = Some (''-'' @ ds)" "strip_prefix ''-'' (''-'' @ ds) = Some ds"
      by (rule strip_prefix_append)+
    ultimately show ?thesis
      using False Some p assms unfolding is_uniquified_session_name_def unique_base_def
      by (simp del: append.simps)
  qed
qed

section \<open>Properties\<close>

text \<open>
  C36.  The search for a unique name always ends, whatever names exist, and its answer is not in use;
  an unused candidate is kept as it is, and a generated name fits the byte limit.
\<close>

theorem unique_session_name_correct:
  assumes "length existing < 2 ^ 64"
  shows "\<exists>name. unique_session_name candidate existing = Some name \<and> name \<notin> set existing
    \<and> (candidate \<notin> set existing \<longrightarrow> name = candidate)
    \<and> (candidate \<in> set existing \<longrightarrow> length name \<le> SESSION_NAME_MAX_BYTES)"
proof (cases "candidate \<in> set existing")
  case False
  then show ?thesis by (simp add: unique_session_name_def)
next
  case True
  obtain n where n: "unique_session_name candidate existing = Some (suffixed_name (unique_base candidate) n)"
    "suffixed_name (unique_base candidate) n \<notin> set existing" "length (show_nat n) \<le> 20"
    using unique_session_name_cases [OF True assms] by blast
  then have "length (suffixed_name (unique_base candidate) n) \<le> SESSION_NAME_MAX_BYTES"
    using truncate_length [of "unique_base candidate" "SESSION_NAME_MAX_BYTES - length (''-'' @ show_nat n)"]
    by (simp add: suffixed_name_def Let_def SESSION_NAME_MAX_BYTES_def)
  with n True show ?thesis by simp
qed

theorem unique_session_name_correct_witness:
  "\<exists>name. unique_session_name ''dev'' [''dev'', ''dev-2''] = Some name \<and> name \<notin> {''dev'', ''dev-2''}"
  using unique_session_name_correct [of "[''dev'', ''dev-2'']" "''dev''"] by auto

text \<open>
  A name made unique is recognised as belonging to its base: when nothing had to be cut off,
  \<^verbatim>\<open>is_uniquified_session_name\<close> accepts the name that \<^verbatim>\<open>unique_session_name\<close> chose.
\<close>

lemma uniquified_recognised:
  assumes "length existing < 2 ^ 64" "length candidate \<le> 200" "unique_session_name candidate existing = Some name"
  shows "is_uniquified_session_name name candidate"
proof (cases "candidate \<in> set existing")
  case False
  with assms(3) show ?thesis by (simp add: unique_session_name_def is_uniquified_session_name_def)
next
  case True
  obtain n where "name = suffixed_name (unique_base candidate) n" "length (show_nat n) \<le> 20"
    using unique_session_name_cases [OF True assms(1)] assms(3) by (metis option.inject)
  then have "name = unique_base candidate @ ''-'' @ show_nat n"
    using suffixed_name_fits unique_base_length [of candidate] assms(2) by simp
  with uniquified_accepts [OF show_nat_digits] show ?thesis by simp
qed

text \<open>
  Truncation cuts at a character boundary, at the last one that fits, so no character is
  split; a generated name is never empty and fits the limit.
\<close>

lemma truncation_correct:
  "is_char_boundary s (length (truncate_session_name s n)) \<and> length (truncate_session_name s n) \<le> n
   \<and> (\<forall>i. length (truncate_session_name s n) < i \<and> i \<le> min (length s) n \<longrightarrow> \<not> is_char_boundary s i)
   \<and> generated_session_name s \<noteq> [] \<and> length (generated_session_name s) \<le> SESSION_NAME_MAX_BYTES"
proof -
  let ?k = "back_to_boundary s (min (length s) n)"
  have len: "length (truncate_session_name s n) = ?k"
    using back_to_boundary_le [of s "min (length s) n"] by (simp add: truncate_session_name_def)
  moreover have "generated_session_name s \<noteq> [] \<and> length (generated_session_name s) \<le> SESSION_NAME_MAX_BYTES"
    using truncate_length [of "mask_controls s" SESSION_NAME_MAX_BYTES]
    by (simp add: generated_session_name_def Let_def SESSION_NAME_MAX_BYTES_def)
  ultimately show ?thesis
    using back_to_boundary_ok [of s] truncate_length [of s n] back_to_boundary_maximal [of s "min (length s) n"] by simp
qed

end
