(* ===== verification/Short_Names.thy ===== *)
theory Short_Names
  imports Session_Names "HOL-Library.Word"
begin

text \<open>
  \<^verbatim>\<open>crates/bootty-control/src/short_name.rs\<close>: short names such as \<^verbatim>\<open>bootty-7c\<close>, made of the
  project's name and the start of a hash.  The hash is computed on 32-bit words with wrap-around.
\<close>

unbundle bit_operations_syntax

definition MINIMUM_DIGITS :: nat where "MINIMUM_DIGITS = 2"

definition DIGITS :: nat where "DIGITS = 8"

definition PROJECT_CHARS :: nat where "PROJECT_CHARS = 20"

section \<open>The hash\<close>

definition fnv1a :: "string \<Rightarrow> 32 word" where
  "fnv1a text = foldl (\<lambda>hash byte. (hash XOR of_nat (of_char byte)) * 0x01000193) 0x811c9dc5 text"

section \<open>Characters\<close>

definition is_lower :: "char \<Rightarrow> bool" where
  "is_lower c = (97 \<le> (of_char c :: nat) \<and> (of_char c :: nat) \<le> 122)"

definition is_upper :: "char \<Rightarrow> bool" where
  "is_upper c = (65 \<le> (of_char c :: nat) \<and> (of_char c :: nat) \<le> 90)"

definition is_ascii_alphanumeric :: "char \<Rightarrow> bool" where
  "is_ascii_alphanumeric c = (is_lower c \<or> is_upper c \<or> is_digit c)"

definition ascii_lower :: "char \<Rightarrow> char" where
  "ascii_lower c = (if is_upper c then char_of ((of_char c :: nat) + 32) else c)"

text \<open>
  \<^verbatim>\<open>str::to_lowercase\<close>, as far as a slug can see it: ASCII letters are lowered, the Kelvin sign
  (\<open>E2 84 AA\<close>) becomes \<open>k\<close> and the dotted capital I (\<open>C4 B0\<close>) becomes \<open>i\<close> with a combining dot; the
  lower case of every other character beyond ASCII is again beyond ASCII, and its bytes are kept.
\<close>

fun to_lowercase :: "string \<Rightarrow> string" where
  "to_lowercase [] = []"
| "to_lowercase (a # b # c # cs) =
     (if a = CHR 0xE2 \<and> b = CHR 0x84 \<and> c = CHR 0xAA then CHR ''k'' # to_lowercase cs
      else if a = CHR 0xC4 \<and> b = CHR 0xB0 then [CHR ''i'', CHR 0xCC, CHR 0x87] @ to_lowercase (c # cs)
      else ascii_lower a # to_lowercase (b # c # cs))"
| "to_lowercase [a, b] =
     (if a = CHR 0xC4 \<and> b = CHR 0xB0 then [CHR ''i'', CHR 0xCC, CHR 0x87]
      else [ascii_lower a, ascii_lower b])"
| "to_lowercase [a] = [ascii_lower a]"

section \<open>Names\<close>

text \<open>One round of the slug loop; a character beyond ASCII has the effect of each of its bytes.\<close>

definition slug_push :: "string \<Rightarrow> char \<Rightarrow> string" where
  "slug_push slug c =
     (if is_ascii_alphanumeric c then slug @ [c]
      else if slug \<noteq> [] \<and> last slug \<noteq> CHR ''-'' then slug @ ''-'' else slug)"

definition trim_end :: "char \<Rightarrow> string \<Rightarrow> string" where
  "trim_end c s = rev (dropWhile (\<lambda>x. x = c) (rev s))"

definition trim_matches :: "char \<Rightarrow> string \<Rightarrow> string" where
  "trim_matches c s = trim_end c (dropWhile (\<lambda>x. x = c) s)"

definition project_slug :: "string \<Rightarrow> string" where
  "project_slug project =
     (let folder = (case path_file_name project of None \<Rightarrow> [] | Some n \<Rightarrow> to_lowercase n);
          slug = trim_end (CHR ''-'') (take PROJECT_CHARS (trim_matches (CHR ''-'') (foldl slug_push [] folder)))
      in if slug = [] then ''session'' else slug)"

definition full_name :: "string \<Rightarrow> string \<Rightarrow> string" where
  "full_name project identity = project_slug project @ ''-'' @ show_hex 8 (unat (fnv1a identity))"

definition project_char :: "char \<Rightarrow> bool" where
  "project_char c = (is_lower c \<or> is_digit c \<or> c = CHR ''-'')"

definition hash_char :: "char \<Rightarrow> bool" where
  "hash_char c = (is_digit c \<or> 97 \<le> (of_char c :: nat) \<and> (of_char c :: nat) \<le> 102)"

definition split_name :: "string \<Rightarrow> (string \<times> string) option" where
  "split_name name =
     (case rsplit_once (CHR ''-'') name of
        None \<Rightarrow> None
      | Some (project, hash) \<Rightarrow>
          if project \<noteq> [] \<and> list_all project_char project
             \<and> MINIMUM_DIGITS \<le> length hash \<and> length hash \<le> DIGITS \<and> list_all hash_char hash
          then Some (project, hash) else None)"

definition starts_with :: "string \<Rightarrow> string \<Rightarrow> bool" where
  "starts_with prefix s = (take (length prefix) s = prefix)"

definition unambiguous :: "string \<Rightarrow> string \<Rightarrow> string list \<Rightarrow> string \<Rightarrow> bool" where
  "unambiguous name project ns prefix =
     list_all (\<lambda>other. case split_name other of
         None \<Rightarrow> True
       | Some (other_project, other_hash) \<Rightarrow> other_project \<noteq> project \<or> \<not> starts_with prefix other_hash)
       (filter (\<lambda>other. other \<noteq> name) ns)"

definition shortest :: "string \<Rightarrow> string list \<Rightarrow> string" where
  "shortest name ns =
     (case split_name name of
        None \<Rightarrow> name
      | Some (project, hash) \<Rightarrow>
          (case find (unambiguous name project ns)
                  (map (\<lambda>d. if d \<le> length hash then take d hash else hash) [MINIMUM_DIGITS..<DIGITS]) of
             None \<Rightarrow> name
           | Some prefix \<Rightarrow> project @ ''-'' @ prefix))"

definition names_thing :: "string \<Rightarrow> string \<Rightarrow> bool" where
  "names_thing written name =
     (case (split_name written, split_name name) of
        (Some (project, prefix), Some (name_project, hash)) \<Rightarrow>
          project = name_project \<and> starts_with prefix hash
      | _ \<Rightarrow> False)"

definition is_short_name :: "string \<Rightarrow> bool" where
  "is_short_name text = (split_name text \<noteq> None)"

section \<open>Splitting\<close>

lemma hash_no_dash: "list_all hash_char h \<Longrightarrow> CHR ''-'' \<notin> set h"
  by (auto simp: list_all_iff hash_char_def is_digit_def)

lemma split_name_iff:
  "split_name s = Some (p, h) \<longleftrightarrow> s = p @ ''-'' @ h \<and> p \<noteq> [] \<and> list_all project_char p
     \<and> 2 \<le> length h \<and> length h \<le> 8 \<and> list_all hash_char h"
  using hash_no_dash [of h] rsplit_once_Some [of "CHR ''-''" s p h]
  by (auto simp: split_name_def MINIMUM_DIGITS_def DIGITS_def split: option.splits if_splits)

lemma prefix_splits:
  assumes "split_name s = Some (p, h)" "2 \<le> d" "d \<le> length h"
  shows "split_name (p @ ''-'' @ take d h) = Some (p, take d h)"
  using assms by (auto simp: split_name_iff list_all_iff dest: in_set_takeD)

section \<open>Full names\<close>

lemma hex_digit_chars: "d < 16 \<Longrightarrow> hash_char (digit_char d)"
proof -
  assume "d < 16"
  then have "d \<in> {0, 1, 2, 3, 4, 5, 6, 7, 8, 9, 10, 11, 12, 13, 14, 15}" by (simp, arith)
  then show ?thesis by (auto simp: hash_char_def is_digit_def)
qed

lemma digits_base_hex: "list_all hash_char (digits_base 16 n)"
proof (induction "16 :: nat" n rule: digits_base.induct)
  case (1 n)
  then show ?case by (subst digits_base.simps) (auto simp: list_all_append hex_digit_chars)
qed

lemma show_hex_hash:
  assumes "n < 2 ^ 32"
  shows "length (show_hex 8 n) = 8" "list_all hash_char (show_hex 8 n)"
proof -
  have "length (digits_base 16 n) \<le> 8" using assms digits_base_length [of 16 n 7] by simp
  then show "length (show_hex 8 n) = 8" by (simp add: show_hex_def Let_def)
  show "list_all hash_char (show_hex 8 n)"
    using digits_base_hex [of n] by (auto simp: show_hex_def Let_def list_all_append list_all_iff hash_char_def is_digit_def)
qed

lemma ascii_lower_no_upper: "\<not> is_upper (ascii_lower c)"
proof (cases "is_upper c")
  case True
  then have "of_char c + 32 < (256 :: nat)" by (simp add: is_upper_def)
  then show ?thesis using True by (simp add: ascii_lower_def is_upper_def)
next
  case False
  then show ?thesis by (simp add: ascii_lower_def)
qed

lemma to_lowercase_no_upper: "list_all (\<lambda>c. \<not> is_upper c) (to_lowercase s)"
  by (induction s rule: to_lowercase.induct) (auto simp: ascii_lower_no_upper, auto simp: is_upper_def)

lemma slug_chars:
  assumes "list_all (\<lambda>c. \<not> is_upper c) s" "list_all project_char acc"
  shows "list_all project_char (foldl slug_push acc s)"
  using assms
  by (induction s arbitrary: acc) (auto simp: slug_push_def is_ascii_alphanumeric_def project_char_def list_all_append)

lemma list_all_trim: "list_all P s \<Longrightarrow> list_all P (trim_end c s)" "list_all P s \<Longrightarrow> list_all P (trim_matches c s)"
  by (auto simp: trim_end_def trim_matches_def list_all_iff dest!: set_dropWhileD)

lemma list_all_take: "list_all P s \<Longrightarrow> list_all P (take n s)"
  by (auto simp: list_all_iff dest: in_set_takeD)

lemma project_slug_ok: "project_slug p \<noteq> []" "list_all project_char (project_slug p)"
proof -
  have "list_all project_char (foldl slug_push [] (case path_file_name p of None \<Rightarrow> [] | Some n \<Rightarrow> to_lowercase n))"
    by (rule slug_chars) (auto simp: to_lowercase_no_upper split: option.splits)
  then have "list_all project_char (trim_end (CHR ''-'') (take PROJECT_CHARS (trim_matches (CHR ''-'')
      (foldl slug_push [] (case path_file_name p of None \<Rightarrow> [] | Some n \<Rightarrow> to_lowercase n)))))"
    by (intro list_all_trim list_all_take)
  moreover have "list_all project_char ''session''" by (simp add: project_char_def is_lower_def)
  ultimately show "list_all project_char (project_slug p)" by (simp add: project_slug_def Let_def)
  show "project_slug p \<noteq> []" by (simp add: project_slug_def Let_def)
qed

lemma full_name_splits:
  "split_name (full_name p i) = Some (project_slug p, show_hex 8 (unat (fnv1a i)))"
proof -
  have "unat (fnv1a i) < 2 ^ 32" using unsigned_less [of "fnv1a i"] by simp
  with show_hex_hash [OF this] project_slug_ok [of p] show ?thesis by (simp add: split_name_iff full_name_def)
qed

section \<open>Properties\<close>

text \<open>
  Every session and conversation has a well-formed full name: a non-empty project of lower case
  letters, digits and hyphens, a hyphen and exactly eight hex digits, which the parser splits into
  exactly these parts and which names itself.
\<close>

lemma full_name_wellformed:
  "split_name (full_name project identity) = Some (project_slug project, show_hex 8 (unat (fnv1a identity)))
   \<and> length (show_hex 8 (unat (fnv1a identity))) = 8
   \<and> names_thing (full_name project identity) (full_name project identity)"
proof -
  have "unat (fnv1a identity) < 2 ^ 32" using unsigned_less [of "fnv1a identity"] by simp
  then show ?thesis using full_name_splits [of project identity] show_hex_hash(1) by (simp add: names_thing_def starts_with_def)
qed

text \<open>
  The shortened name keeps its meaning: it names the thing it was cut from and no other of the
  known names, whatever they are.
\<close>

lemma shortest_unambiguous:
  assumes "split_name name = Some (project, hash)" "length hash = DIGITS"
  shows "names_thing (shortest name ns) name
    \<and> (\<forall>other \<in> set ns. other \<noteq> name \<longrightarrow> \<not> names_thing (shortest name ns) other)"
proof (cases "find (unambiguous name project ns)
    (map (\<lambda>d. if d \<le> length hash then take d hash else hash) [MINIMUM_DIGITS..<DIGITS])")
  case None
  then have short: "shortest name ns = name" using assms by (simp add: shortest_def)
  have "other = name" if named: "names_thing name other" for other
  proof -
    obtain h where h: "split_name other = Some (project, h)" "take (length hash) h = hash"
      using named assms(1) by (auto simp: names_thing_def starts_with_def split: option.splits)
    then have "h = hash" using assms(2) by (simp add: split_name_iff DIGITS_def)
    with h assms(1) show ?thesis by (simp add: split_name_iff)
  qed
  then show ?thesis using short assms(1) by (auto simp: names_thing_def starts_with_def)
next
  case (Some prefix)
  have "prefix \<in> set (map (\<lambda>d. if d \<le> length hash then take d hash else hash) [MINIMUM_DIGITS..<DIGITS])"
    and un: "unambiguous name project ns prefix" using find_SomeD [OF Some] by blast+
  then obtain d where d: "2 \<le> d" "d \<le> length hash" "prefix = take d hash"
    using assms(2) by (auto simp: MINIMUM_DIGITS_def)
  then have short: "split_name (shortest name ns) = Some (project, prefix)"
    using Some assms prefix_splits [OF assms(1) d(1,2)] by (simp add: shortest_def)
  moreover have "starts_with prefix hash" using d by (simp add: starts_with_def)
  ultimately show ?thesis
    using un assms(1) by (auto simp: names_thing_def unambiguous_def list_all_iff split: option.splits)
qed

end
