(* ===== verification/Terminal_Frame.thy ===== *)
theory Terminal_Frame
  imports Surface_Geometry "HOL-Library.Word"
begin

text \<open>
  The rendered frame of \<^verbatim>\<open>crates/bootty-terminal/src/terminal_frame.rs\<close> and the image placements
  of \<^verbatim>\<open>terminal_image.rs\<close>.  Characters are code points.  The underline styles, the cursor styles and
  the image formats of the VT library are the type parameters \<open>'u\<close>, \<open>'c\<close> and \<open>'f\<close>.  The identity of
  an \<^verbatim>\<open>Arc\<close> allocation in a lineage is a number; where the code allocates one, the next free number
  is a parameter.
\<close>

section \<open>Data\<close>

type_synonym rgb_color = "8 word \<times> 8 word \<times> 8 word"

record frame_lineage =
  ln_current :: nat
  ln_previous :: "nat option"

record frame_copy_mode =
  cm_selecting :: bool
  cm_rectangle :: bool

record frame_scrollbar =
  sb_total :: nat
  sb_offset :: nat
  sb_len :: nat

record frame_selection =
  fs_row :: nat
  fs_start_col :: nat
  fs_end_col :: nat

record frame_stats =
  st_render_state_update_us :: nat
  st_extraction_us :: nat
  st_cells :: nat
  st_chars :: nat
  st_dirty_rows :: nat

record frame_colors =
  fc_background :: rgb_color
  fc_foreground :: rgb_color
  fc_cursor :: "rgb_color option"
  fc_cursor_text :: "rgb_color option"
  fc_selection_background :: "rgb_color option"
  fc_selection_foreground :: "rgb_color option"

record 'c cursor_snapshot =
  cu_x :: nat
  cu_y :: nat
  cu_at_wide_tail :: bool
  cu_style :: 'c
  cu_blinking :: bool
  cu_color :: "rgb_color option"

record 'u cell_style =
  bold :: bool
  italic :: bool
  faint :: bool
  blink :: bool
  inverse :: bool
  invisible :: bool
  strikethrough :: bool
  overline :: bool
  underline :: 'u

record 'u render_cell =
  rc_x :: nat
  rc_y :: nat
  rc_text_start :: nat
  rc_text_len :: nat
  rc_fg :: "rgb_color option"
  rc_bg :: "rgb_color option"
  rc_style :: "'u cell_style"
  rc_hyperlink :: "string option"

datatype kitty_image_layer = BelowBackground | BelowText | AboveText

record source_rect =
  sr_x :: nat
  sr_y :: nat
  sr_width :: nat
  sr_height :: nat

record 'f kitty_image_placement =
  ki_image_id :: nat
  ki_placement_id :: nat
  ki_layer :: kitty_image_layer
  ki_image_width :: nat
  ki_image_height :: nat
  ki_image_format :: 'f
  ki_source :: source_rect
  ki_destination :: surface_rect
  ki_data :: string

record kitty_virtual_placement =
  kv_image_id :: nat
  kv_placement_id :: nat
  kv_columns :: nat
  kv_rows :: nat
  kv_z :: int

record 'f kitty_image_frame =
  kf_placements :: "'f kitty_image_placement list"
  kf_virtual_placements :: "kitty_virtual_placement list"
  kf_virtual_placeholder_rows :: "nat list"

datatype frame_dirty = Dirty_Clean | Dirty_Partial | Dirty_Full

record ('u, 'c, 'f) render_frame =
  f_lineage :: frame_lineage
  f_cols :: nat
  f_rows :: nat
  f_dirty :: frame_dirty
  f_colors :: frame_colors
  f_cursor :: "'c cursor_snapshot option"
  f_row_dirty :: "bool list"
  f_row_wraps :: "bool list"
  f_search_matches :: "frame_selection list"
  f_active_search_match :: "frame_selection option"
  f_active_search_segments :: "frame_selection list"
  f_active_search_match_index :: "nat option"
  f_search_match_count :: nat
  f_search_query :: string
  f_current_working_directory :: "string option"
  f_progress :: "(string \<times> nat option) option"
  f_search_pulse :: nat
  f_copy_mode :: "frame_copy_mode option"
  f_mouse_tracking :: bool
  f_selections :: "frame_selection list"
  f_cells :: "'u render_cell list"
  f_text :: "nat list"
  f_images :: "'f kitty_image_frame"
  f_scrollbar :: "frame_scrollbar option"
  f_stats :: frame_stats

section \<open>Lineage\<close>

text \<open>A new lineage and an advanced one; \<open>arc\<close> is the identity of the new allocation.\<close>

definition default_lineage :: "nat \<Rightarrow> frame_lineage" where
  "default_lineage arc = \<lparr>ln_current = arc, ln_previous = None\<rparr>"

definition advance :: "nat \<Rightarrow> frame_lineage \<Rightarrow> frame_lineage" where
  "advance arc l = l\<lparr>ln_previous := Some (ln_current l), ln_current := arc\<rparr>"

definition follows_lineage :: "frame_lineage \<Rightarrow> frame_lineage \<Rightarrow> bool" where
  "follows_lineage l cached =
     (ln_current l = ln_current cached \<or> ln_previous l = Some (ln_current cached))"

section \<open>Default values\<close>

definition default_colors :: frame_colors where
  "default_colors =
     \<lparr>fc_background = (0, 0, 0), fc_foreground = (0, 0, 0), fc_cursor = None, fc_cursor_text = None,
      fc_selection_background = None, fc_selection_foreground = None\<rparr>"

definition default_stats :: frame_stats where
  "default_stats =
     \<lparr>st_render_state_update_us = 0, st_extraction_us = 0, st_cells = 0, st_chars = 0, st_dirty_rows = 0\<rparr>"

definition default_images :: "'f kitty_image_frame" where
  "default_images = \<lparr>kf_placements = [], kf_virtual_placements = [], kf_virtual_placeholder_rows = []\<rparr>"

definition default_frame :: "nat \<Rightarrow> ('u, 'c, 'f) render_frame" where
  "default_frame arc =
     \<lparr>f_lineage = default_lineage arc, f_cols = 0, f_rows = 0, f_dirty = Dirty_Full,
      f_colors = default_colors, f_cursor = None, f_row_dirty = [], f_row_wraps = [],
      f_search_matches = [], f_active_search_match = None, f_active_search_segments = [],
      f_active_search_match_index = None, f_search_match_count = 0, f_search_query = [],
      f_current_working_directory = None, f_progress = None, f_search_pulse = 0, f_copy_mode = None,
      f_mouse_tracking = False, f_selections = [], f_cells = [], f_text = [],
      f_images = default_images, f_scrollbar = None, f_stats = default_stats\<rparr>"

section \<open>Comparing presentations\<close>

text \<open>The derived comparison of placements compares the \<^verbatim>\<open>f32\<close> corners of the rectangles.\<close>

definition f32_eq :: "f32 \<Rightarrow> f32 \<Rightarrow> bool" where
  "f32_eq a b = (f32_le a b \<and> f32_le b a)"

definition same_rect :: "surface_rect \<Rightarrow> surface_rect \<Rightarrow> bool" where
  "same_rect a b =
     (f32_eq (min_x a) (min_x b) \<and> f32_eq (min_y a) (min_y b)
      \<and> f32_eq (max_x a) (max_x b) \<and> f32_eq (max_y a) (max_y b))"

definition same_placement :: "'f kitty_image_placement \<Rightarrow> 'f kitty_image_placement \<Rightarrow> bool" where
  "same_placement a b =
     (ki_image_id a = ki_image_id b \<and> ki_placement_id a = ki_placement_id b \<and> ki_layer a = ki_layer b
      \<and> ki_image_width a = ki_image_width b \<and> ki_image_height a = ki_image_height b
      \<and> ki_image_format a = ki_image_format b \<and> ki_source a = ki_source b
      \<and> same_rect (ki_destination a) (ki_destination b) \<and> ki_data a = ki_data b)"

definition same_images :: "'f kitty_image_frame \<Rightarrow> 'f kitty_image_frame \<Rightarrow> bool" where
  "same_images a b =
     (list_all2 same_placement (kf_placements a) (kf_placements b)
      \<and> kf_virtual_placements a = kf_virtual_placements b
      \<and> kf_virtual_placeholder_rows a = kf_virtual_placeholder_rows b)"

definition same_presentation :: "('u, 'c, 'f) render_frame \<Rightarrow> ('u, 'c, 'f) render_frame \<Rightarrow> bool" where
  "same_presentation a b =
     (f_cols a = f_cols b \<and> f_rows a = f_rows b \<and> f_colors a = f_colors b \<and> f_cursor a = f_cursor b
      \<and> f_row_wraps a = f_row_wraps b \<and> f_search_matches a = f_search_matches b
      \<and> f_active_search_match a = f_active_search_match b
      \<and> f_active_search_segments a = f_active_search_segments b
      \<and> f_active_search_match_index a = f_active_search_match_index b
      \<and> f_search_match_count a = f_search_match_count b \<and> f_search_query a = f_search_query b
      \<and> f_current_working_directory a = f_current_working_directory b \<and> f_progress a = f_progress b
      \<and> f_search_pulse a = f_search_pulse b \<and> f_copy_mode a = f_copy_mode b
      \<and> f_mouse_tracking a = f_mouse_tracking b \<and> f_selections a = f_selections b
      \<and> f_cells a = f_cells b \<and> f_text a = f_text b \<and> same_images (f_images a) (f_images b)
      \<and> f_scrollbar a = f_scrollbar b)"

section \<open>Text\<close>

definition cell_text :: "('u, 'c, 'f) render_frame \<Rightarrow> 'u render_cell \<Rightarrow> nat list" where
  "cell_text fr c =
     (let stop = sat_add 64 (rc_text_start c) (rc_text_len c)
      in if rc_text_start c \<le> stop \<and> stop \<le> length (f_text fr)
         then take (stop - rc_text_start c) (drop (rc_text_start c) (f_text fr)) else [])"

text \<open>\<^verbatim>\<open>char::is_whitespace\<close> and \<^verbatim>\<open>str::trim_end\<close>.\<close>

definition is_whitespace :: "nat \<Rightarrow> bool" where
  "is_whitespace c =
     (9 \<le> c \<and> c \<le> 13 \<or> 0x2000 \<le> c \<and> c \<le> 0x200A
      \<or> c \<in> {32, 0x85, 0xA0, 0x1680, 0x2028, 0x2029, 0x202F, 0x205F, 0x3000})"

definition put_text ::
  "('u, 'c, 'f) render_frame \<Rightarrow> 'u render_cell \<Rightarrow> nat list list list \<Rightarrow> nat list list list" where
  "put_text fr c rows =
     (if rc_y c < length rows \<and> rc_x c < length (rows ! rc_y c)
      then rows[rc_y c := (rows ! rc_y c)[rc_x c := cell_text fr c]] else rows)"

definition text_rows :: "('u, 'c, 'f) render_frame \<Rightarrow> nat list list" where
  "text_rows fr =
     map (\<lambda>row. rev (dropWhile is_whitespace (rev (concat row))))
       (fold (put_text fr) (filter (\<lambda>c. 0 < rc_text_len c \<and> \<not> invisible (rc_style c)) (f_cells fr))
         (replicate (f_rows fr) (replicate (f_cols fr) [32])))"

end
