(* ===== verification/Frame_Wire.thy ===== *)
theory Frame_Wire
  imports Terminal_Frame "HOL-Library.AList"
begin

text \<open>
  The frame codec of \<^verbatim>\<open>crates/bootty-terminal/src/frame_wire.rs\<close>: rows and image references on the
  wire, the encoder that sends what changed, the decoder that validates and rebuilds frames.  The
  conversions of the VT library's enumerations to and from \<^verbatim>\<open>i32\<close> are parameters.  Hash maps are
  association lists with distinct keys.
\<close>

unbundle bit_operations_syntax

section \<open>Limits\<close>

definition MAX_MESSAGE_SIZE :: nat where "MAX_MESSAGE_SIZE = 16 * 1024 * 1024"

definition MAX_FRAME_IMAGE_BYTES :: nat where "MAX_FRAME_IMAGE_BYTES = 64 * 1024 * 1024"

definition MAX_RETAINED_IMAGE_BYTES :: nat where
  "MAX_RETAINED_IMAGE_BYTES = 2 * MAX_FRAME_IMAGE_BYTES"

definition IMAGE_CONTENT_ENVELOPE_BYTES :: nat where "IMAGE_CONTENT_ENVELOPE_BYTES = 128"

definition MAX_IMAGE_CONTENT_BYTES :: nat where
  "MAX_IMAGE_CONTENT_BYTES = MAX_MESSAGE_SIZE - IMAGE_CONTENT_ENVELOPE_BYTES"

text \<open>A key of 16 bytes, a pointer and a vector header on a 64-bit machine.\<close>

definition IMAGE_ENTRY_BYTES :: nat where "IMAGE_ENTRY_BYTES = 16 + 8 + 24"

section \<open>Messages\<close>

record image_key =
  ik_image_id :: nat
  ik_generation :: nat

datatype wire_error =
  WE_Size | WE_Codec string | WrongBase | InvalidRow | InvalidFrame | MissingImage image_key | ImageBudget

record image_content =
  ic_key :: image_key
  ic_bytes :: string

record 'u wire_row =
  wr_cells :: "'u render_cell list"
  wr_text :: "nat list"

record wire_placement =
  wp_key :: image_key
  wp_placement_id :: nat
  wp_layer :: nat
  wp_width :: nat
  wp_height :: nat
  wp_format :: int
  wp_source :: "nat list"
  wp_destination :: surface_rect

datatype 'u frame_rows = Full "'u wire_row list" | Rows nat "(nat \<times> 'u wire_row) list"

record 'c wire_state =
  w_cols :: nat
  w_rows :: nat
  w_colors :: frame_colors
  w_cursor :: "'c cursor_snapshot option"
  w_row_wraps :: "bool list"
  w_search_matches :: "frame_selection list"
  w_active_search_match :: "frame_selection option"
  w_active_search_segments :: "frame_selection list"
  w_active_search_match_index :: "nat option"
  w_search_match_count :: nat
  w_search_query :: string
  w_current_working_directory :: "string option"
  w_progress :: "(string \<times> nat option) option"
  w_search_pulse :: nat
  w_copy_mode :: "frame_copy_mode option"
  w_mouse_tracking :: bool
  w_selections :: "frame_selection list"
  w_scrollbar :: "frame_scrollbar option"
  w_stats :: frame_stats
  w_placements :: "wire_placement list"
  w_virtual_placements :: "kitty_virtual_placement list"
  w_virtual_placeholder_rows :: "nat list"

record ('u, 'c) frame_update =
  u_sequence :: nat
  u_state :: "'c wire_state"
  u_rows :: "'u frame_rows"

section \<open>Rows\<close>

definition empty_row :: "'u wire_row" where
  "empty_row = \<lparr>wr_cells = [], wr_text = []\<rparr>"

text \<open>A cell joins its row.\<close>

definition push_cell :: "('u, 'c, 'f) render_frame \<Rightarrow> 'u render_cell \<Rightarrow> 'u wire_row \<Rightarrow> 'u wire_row" where
  "push_cell fr c row =
     row\<lparr>wr_cells := wr_cells row @ [c\<lparr>rc_text_start := length (wr_text row), rc_y := 0\<rparr>],
         wr_text := wr_text row @ cell_text fr c\<rparr>"

definition add_cell ::
  "('u, 'c, 'f) render_frame \<Rightarrow> 'u render_cell \<Rightarrow> 'u wire_row list \<Rightarrow> 'u wire_row list" where
  "add_cell fr c rows =
     (case get_nth rows (rc_y c) of
        None \<Rightarrow> rows
      | Some row \<Rightarrow> rows[rc_y c := push_cell fr c row])"

definition rows_of :: "('u, 'c, 'f) render_frame \<Rightarrow> 'u wire_row list" where
  "rows_of fr = fold (add_cell fr) (f_cells fr) (replicate (f_rows fr) empty_row)"

section \<open>The encoder\<close>

record ('u, 'c, 'f) frame_encoder =
  e_previous :: "(nat \<times> nat \<times> 'u wire_row list) option"
  e_published :: "('u, 'c, 'f) render_frame option"
  e_sequence :: nat
  e_images :: "(nat \<times> (image_key \<times> string)) list"
  e_pending :: "image_content list"
  e_frame_image_bytes :: nat
  e_frame_images :: "image_key set"

definition default_encoder :: "('u, 'c, 'f) frame_encoder" where
  "default_encoder =
     \<lparr>e_previous = None, e_published = None, e_sequence = 0, e_images = [], e_pending = [],
      e_frame_image_bytes = 0, e_frame_images = {}\<rparr>"

definition reset_encoder :: "('u, 'c, 'f) frame_encoder \<Rightarrow> ('u, 'c, 'f) frame_encoder" where
  "reset_encoder e = e\<lparr>e_previous := None, e_published := None, e_images := [], e_pending := []\<rparr>"

definition image_key_for ::
  "'f kitty_image_placement \<Rightarrow> ('u, 'c, 'f) frame_encoder \<Rightarrow> image_key \<times> ('u, 'c, 'f) frame_encoder" where
  "image_key_for p e =
     (let k = \<lparr>ik_image_id = ki_image_id p, ik_generation = e_sequence e\<rparr>;
          fresh = (k, e\<lparr>e_images := AList.update (ki_image_id p) (k, ki_data p) (e_images e)\<rparr>)
      in case map_of (e_images e) (ki_image_id p) of
           Some (key, bytes) \<Rightarrow> if bytes = ki_data p then (key, e) else fresh
         | None \<Rightarrow> fresh)"

definition reference_image ::
  "'f kitty_image_placement \<Rightarrow> ('u, 'c, 'f) frame_encoder \<Rightarrow>
   image_key option \<times> ('u, 'c, 'f) frame_encoder" where
  "reference_image p e =
     (let known = map_option fst (map_of (e_images e) (ki_image_id p));
          (key, e1) = image_key_for p e
      in if key \<in> e_frame_images e1 then (Some key, e1)
         else
           (let charge = sat_add 64 (length (ki_data p)) IMAGE_ENTRY_BYTES
            in if length (ki_data p) \<le> MAX_IMAGE_CONTENT_BYTES
                  \<and> charge \<le> MAX_FRAME_IMAGE_BYTES - e_frame_image_bytes e1
               then
                 (Some key,
                  e1\<lparr>e_frame_images := insert key (e_frame_images e1),
                     e_frame_image_bytes := sat_add 64 (e_frame_image_bytes e1) charge,
                     e_pending := (if known \<noteq> Some key
                       then e_pending e1 @ [\<lparr>ic_key = key, ic_bytes = ki_data p\<rparr>] else e_pending e1)\<rparr>)
               else
                 (None, e1\<lparr>e_images := AList.delete (ik_image_id key) (e_images e1)\<rparr>)))"

definition take_image_contents ::
  "('u, 'c, 'f) frame_encoder \<Rightarrow> image_content list \<times> ('u, 'c, 'f) frame_encoder" where
  "take_image_contents e = (e_pending e, e\<lparr>e_pending := []\<rparr>)"

fun layer_code :: "kitty_image_layer \<Rightarrow> nat" where
  "layer_code BelowBackground = 0"
| "layer_code BelowText = 1"
| "layer_code AboveText = 2"

definition wire_placement_of :: "('f \<Rightarrow> int) \<Rightarrow> image_key \<Rightarrow> 'f kitty_image_placement \<Rightarrow> wire_placement" where
  "wire_placement_of format_code key p =
     \<lparr>wp_key = key, wp_placement_id = ki_placement_id p, wp_layer = layer_code (ki_layer p),
      wp_width = ki_image_width p, wp_height = ki_image_height p,
      wp_format = format_code (ki_image_format p),
      wp_source = [sr_x (ki_source p), sr_y (ki_source p), sr_width (ki_source p), sr_height (ki_source p)],
      wp_destination = ki_destination p\<rparr>"

text \<open>The \<^verbatim>\<open>filter_map\<close> over the placements of a frame.\<close>

fun wire_placements ::
  "('f \<Rightarrow> int) \<Rightarrow> 'f kitty_image_placement list \<Rightarrow> ('u, 'c, 'f) frame_encoder \<Rightarrow>
   wire_placement list \<times> ('u, 'c, 'f) frame_encoder" where
  "wire_placements format_code [] e = ([], e)"
| "wire_placements format_code (p # ps) e =
     (case reference_image p e of
        (q, e1) \<Rightarrow>
          (case wire_placements format_code ps e1 of
             (ws, e2) \<Rightarrow>
               (case q of
                  None \<Rightarrow> (ws, e2)
                | Some key \<Rightarrow> (wire_placement_of format_code key p # ws, e2))))"

definition from_frame ::
  "('f \<Rightarrow> int) \<Rightarrow> ('u, 'c, 'f) render_frame \<Rightarrow> ('u, 'c, 'f) frame_encoder \<Rightarrow>
   'c wire_state \<times> ('u, 'c, 'f) frame_encoder" where
  "from_frame format_code fr e =
     (case wire_placements format_code (kf_placements (f_images fr)) e of
        (placements, e1) \<Rightarrow>
          (\<lparr>w_cols = f_cols fr, w_rows = f_rows fr, w_colors = f_colors fr, w_cursor = f_cursor fr,
            w_row_wraps = f_row_wraps fr, w_search_matches = f_search_matches fr,
            w_active_search_match = f_active_search_match fr,
            w_active_search_segments = f_active_search_segments fr,
            w_active_search_match_index = f_active_search_match_index fr,
            w_search_match_count = f_search_match_count fr, w_search_query = f_search_query fr,
            w_current_working_directory = f_current_working_directory fr, w_progress = f_progress fr,
            w_search_pulse = f_search_pulse fr, w_copy_mode = f_copy_mode fr,
            w_mouse_tracking = f_mouse_tracking fr, w_selections = f_selections fr,
            w_scrollbar = f_scrollbar fr, w_stats = f_stats fr, w_placements = placements,
            w_virtual_placements = kf_virtual_placements (f_images fr),
            w_virtual_placeholder_rows = kf_virtual_placeholder_rows (f_images fr)\<rparr>, e1))"

definition changed_rows :: "nat \<Rightarrow> 'u wire_row list \<Rightarrow> 'u wire_row list \<Rightarrow> (nat \<times> 'u wire_row) list" where
  "changed_rows n previous current =
     filter (\<lambda>(y, row). get_nth previous y \<noteq> Some row) (zip [0..<n] current)"

definition rows_update ::
  "('u, 'c, 'f) render_frame \<Rightarrow> ('u, 'c, 'f) frame_encoder \<Rightarrow> 'u frame_rows" where
  "rows_update fr e =
     (case e_previous e of
        Some (base, cols, previous) \<Rightarrow>
          if cols = f_cols fr \<and> length previous = length (rows_of fr)
          then Rows base (changed_rows (f_rows fr) previous (rows_of fr))
          else Full (rows_of fr)
      | None \<Rightarrow> Full (rows_of fr))"

definition encode ::
  "('f \<Rightarrow> int) \<Rightarrow> ('u, 'c, 'f) render_frame \<Rightarrow> ('u, 'c, 'f) frame_encoder \<Rightarrow>
   ('u, 'c) frame_update \<times> ('u, 'c, 'f) frame_encoder" where
  "encode format_code fr e =
     (let e1 = e\<lparr>e_sequence := (e_sequence e + 1) mod 2 ^ 64\<rparr>;
          update = rows_update fr e1;
          e2 = e1\<lparr>e_frame_image_bytes := 0, e_frame_images := {}\<rparr>;
          (state, e3) = from_frame format_code fr e2;
          keys = set (map wp_key (w_placements state));
          e4 = e3\<lparr>e_images := filter (\<lambda>(_, key, _). key \<in> keys) (e_images e3),
                  e_pending := filter (\<lambda>content. ic_key content \<in> keys) (e_pending e3),
                  e_previous := Some (e_sequence e3, f_cols fr, rows_of fr)\<rparr>
      in (\<lparr>u_sequence = e_sequence e4, u_state = state, u_rows = update\<rparr>, e4))"

definition encode_changed ::
  "('f \<Rightarrow> int) \<Rightarrow> ('u, 'c, 'f) render_frame \<Rightarrow> ('u, 'c, 'f) frame_encoder \<Rightarrow>
   ('u, 'c) frame_update option \<times> ('u, 'c, 'f) frame_encoder" where
  "encode_changed format_code fr e =
     (if (case e_published e of None \<Rightarrow> False | Some old \<Rightarrow> same_presentation old fr) then (None, e)
      else (case encode format_code fr e of
              (update, e1) \<Rightarrow> (Some update, e1\<lparr>e_published := Some fr\<rparr>)))"

section \<open>The decoder\<close>

record ('u, 'c, 'f) frame_decoder =
  d_previous :: "(nat \<times> ('u, 'c, 'f) render_frame) option"
  d_images :: "(image_key \<times> string) list"

definition default_decoder :: "('u, 'c, 'f) frame_decoder" where
  "default_decoder = \<lparr>d_previous = None, d_images = []\<rparr>"

definition retained_image_bytes :: "('u, 'c, 'f) frame_decoder \<Rightarrow> nat" where
  "retained_image_bytes d = sum_list (map (\<lambda>(_, bytes). length bytes) (d_images d))"

definition insert_image ::
  "image_content \<Rightarrow> ('u, 'c, 'f) frame_decoder \<Rightarrow> (wire_error + unit) \<times> ('u, 'c, 'f) frame_decoder" where
  "insert_image content d =
     (let retained = sat_add 64 (retained_image_bytes d) (sat_mul 64 (length (d_images d)) IMAGE_ENTRY_BYTES);
          old = (case map_of (d_images d) (ic_key content) of
                   None \<Rightarrow> 0 | Some bytes \<Rightarrow> sat_add 64 (length bytes) IMAGE_ENTRY_BYTES);
          available = MAX_RETAINED_IMAGE_BYTES - (retained - old)
      in if available < sat_add 64 (length (ic_bytes content)) IMAGE_ENTRY_BYTES
         then (Inl ImageBudget, d)
         else (Inr (), d\<lparr>d_images := AList.update (ic_key content) (ic_bytes content) (d_images d)\<rparr>))"

definition layer_of_code :: "nat \<Rightarrow> kitty_image_layer option" where
  "layer_of_code n =
     (if n = 0 then Some BelowBackground else if n = 1 then Some BelowText
      else if n = 2 then Some AboveText else None)"

definition decoded_placement ::
  "(int \<Rightarrow> 'f option) \<Rightarrow> ('u, 'c, 'f) frame_decoder \<Rightarrow> wire_placement \<Rightarrow>
   wire_error + 'f kitty_image_placement" where
  "decoded_placement format_of d p =
     (case map_of (d_images d) (wp_key p) of
        None \<Rightarrow> Inl (MissingImage (wp_key p))
      | Some bytes \<Rightarrow>
          (case layer_of_code (wp_layer p) of
             None \<Rightarrow> Inl InvalidFrame
           | Some layer \<Rightarrow>
               (case format_of (wp_format p) of
                  None \<Rightarrow> Inl InvalidFrame
                | Some image_format \<Rightarrow>
                    if length (wp_source p) < 4 then Inl InvalidFrame
                    else Inr \<lparr>ki_image_id = ik_image_id (wp_key p), ki_placement_id = wp_placement_id p,
                              ki_layer = layer, ki_image_width = wp_width p,
                              ki_image_height = wp_height p, ki_image_format = image_format,
                              ki_source = \<lparr>sr_x = wp_source p ! 0, sr_y = wp_source p ! 1,
                                sr_width = wp_source p ! 2, sr_height = wp_source p ! 3\<rparr>,
                              ki_destination = wp_destination p, ki_data = bytes\<rparr>)))"

fun decoded_placements ::
  "(int \<Rightarrow> 'f option) \<Rightarrow> ('u, 'c, 'f) frame_decoder \<Rightarrow> wire_placement list \<Rightarrow>
   wire_error + 'f kitty_image_placement list" where
  "decoded_placements format_of d [] = Inr []"
| "decoded_placements format_of d (p # ps) =
     (case decoded_placement format_of d p of
        Inl err \<Rightarrow> Inl err
      | Inr q \<Rightarrow>
          (case decoded_placements format_of d ps of
             Inl err \<Rightarrow> Inl err
           | Inr qs \<Rightarrow> Inr (q # qs)))"

text \<open>The loop that replaces the changed rows; \<open>seen\<close> marks the rows replaced so far.\<close>

fun patch_rows ::
  "(nat \<times> 'u wire_row) list \<Rightarrow> 'u wire_row list \<Rightarrow> bool list \<Rightarrow> wire_error + 'u wire_row list" where
  "patch_rows [] current seen = Inr current"
| "patch_rows ((y, row) # changes) current seen =
     (if length current \<le> y \<or> length seen \<le> y then Inl InvalidRow
      else if seen ! y then Inl InvalidRow
      else patch_rows changes (current[y := row]) (seen[y := True]))"

text \<open>The loop over the cells of a row; \<open>n\<close> is the length of the row's text, \<open>offset\<close> the length of
  the frame's text before the row.\<close>

fun place_cells ::
  "nat \<Rightarrow> nat \<Rightarrow> nat \<Rightarrow> nat \<Rightarrow> nat \<Rightarrow> 'u render_cell list \<Rightarrow>
   wire_error + ('u render_cell list \<times> nat)" where
  "place_cells cols y offset n stop [] = Inr ([], stop)"
| "place_cells cols y offset n stop (c # cs) =
     (if rc_y c \<noteq> 0 \<or> cols \<le> rc_x c \<or> rc_text_start c \<noteq> stop then Inl InvalidFrame
      else
        (case checked_add 64 stop (rc_text_len c) of
           None \<Rightarrow> Inl InvalidFrame
         | Some stop' \<Rightarrow>
             if n < stop' then Inl InvalidFrame
             else
               (case checked_add 64 (rc_text_start c) offset of
                  None \<Rightarrow> Inl InvalidFrame
                | Some start \<Rightarrow>
                    (case place_cells cols y offset n stop' cs of
                       Inl err \<Rightarrow> Inl err
                     | Inr (cs', stop'') \<Rightarrow>
                         Inr (c\<lparr>rc_y := y, rc_text_start := start\<rparr> # cs', stop'')))))"

text \<open>The loop over the rows appends their cells and texts.\<close>

fun place_rows ::
  "nat \<Rightarrow> nat \<Rightarrow> 'u wire_row list \<Rightarrow> 'u render_cell list \<Rightarrow> nat list \<Rightarrow>
   wire_error + ('u render_cell list \<times> nat list)" where
  "place_rows cols y [] cells chars = Inr (cells, chars)"
| "place_rows cols y (row # rows) cells chars =
     (case place_cells cols y (length chars) (length (wr_text row)) 0 (wr_cells row) of
        Inl err \<Rightarrow> Inl err
      | Inr (cs, stop) \<Rightarrow>
          if stop \<noteq> length (wr_text row) then Inl InvalidFrame
          else place_rows cols (Suc y) rows (cells @ cs) (chars @ wr_text row))"

definition frame_of_state :: "nat \<Rightarrow> 'c wire_state \<Rightarrow> ('u, 'c, 'f) render_frame" where
  "frame_of_state arc w =
     (default_frame arc)
       \<lparr>f_cols := w_cols w, f_rows := w_rows w, f_colors := w_colors w, f_cursor := w_cursor w,
        f_row_wraps := w_row_wraps w, f_search_matches := w_search_matches w,
        f_active_search_match := w_active_search_match w,
        f_active_search_segments := w_active_search_segments w,
        f_active_search_match_index := w_active_search_match_index w,
        f_search_match_count := w_search_match_count w, f_search_query := w_search_query w,
        f_current_working_directory := w_current_working_directory w, f_progress := w_progress w,
        f_search_pulse := w_search_pulse w, f_copy_mode := w_copy_mode w,
        f_mouse_tracking := w_mouse_tracking w, f_selections := w_selections w,
        f_scrollbar := w_scrollbar w, f_stats := w_stats w\<rparr>"

definition is_full :: "'u frame_rows \<Rightarrow> bool" where
  "is_full r = (case r of Full _ \<Rightarrow> True | Rows _ _ \<Rightarrow> False)"

text \<open>The rows an update stands for.\<close>

definition current_rows ::
  "('u, 'c) frame_update \<Rightarrow> ('u, 'c, 'f) frame_decoder \<Rightarrow> wire_error + 'u wire_row list" where
  "current_rows u d =
     (case u_rows u of
        Full rows \<Rightarrow> Inr rows
      | Rows base changes \<Rightarrow>
          (case d_previous d of
             None \<Rightarrow> Inl WrongBase
           | Some (sequence, previous) \<Rightarrow>
               if base \<noteq> sequence \<or> u_sequence u \<le> base
                  \<or> f_cols previous \<noteq> w_cols (u_state u) \<or> f_rows previous \<noteq> w_rows (u_state u)
               then Inl WrongBase
               else patch_rows changes (rows_of previous) (replicate (length (rows_of previous)) False)))"

definition row_damage ::
  "bool \<Rightarrow> bool list \<Rightarrow> ('u, 'c, 'f) frame_decoder \<Rightarrow> 'u wire_row list \<Rightarrow> bool list" where
  "row_damage full wraps d current =
     map (\<lambda>y. full
         \<or> (case d_previous d of
              None \<Rightarrow> True
            | Some (_, old) \<Rightarrow> get_nth (rows_of old) y \<noteq> get_nth current y
                \<or> get_nth (f_row_wraps old) y \<noteq> get_nth wraps y))
       [0..<length current]"

text \<open>The frame that an accepted update stands for.\<close>

definition assemble_frame ::
  "nat \<Rightarrow> ('u, 'c) frame_update \<Rightarrow> ('u, 'c, 'f) frame_decoder \<Rightarrow> 'u wire_row list \<Rightarrow>
   'u render_cell list \<Rightarrow> nat list \<Rightarrow> 'f kitty_image_placement list \<Rightarrow> ('u, 'c, 'f) render_frame" where
  "assemble_frame arc u d current cells chars placements =
     (let full = is_full (u_rows u); w = u_state u; fr = frame_of_state arc w
      in fr\<lparr>f_lineage := (case (full, d_previous d) of
                (False, Some (_, old)) \<Rightarrow> advance (Suc arc) (f_lineage old)
              | _ \<Rightarrow> f_lineage fr),
            f_dirty := (if full then Dirty_Full else Dirty_Partial),
            f_row_dirty := row_damage full (f_row_wraps fr) d current,
            f_cells := cells, f_text := chars,
            f_images := \<lparr>kf_placements = placements, kf_virtual_placements = w_virtual_placements w,
              kf_virtual_placeholder_rows = w_virtual_placeholder_rows w\<rparr>\<rparr>)"

definition apply_update ::
  "(int \<Rightarrow> 'f option) \<Rightarrow> nat \<Rightarrow> ('u, 'c) frame_update \<Rightarrow> ('u, 'c, 'f) frame_decoder \<Rightarrow>
   (wire_error + ('u, 'c, 'f) render_frame) \<times> ('u, 'c, 'f) frame_decoder" where
  "apply_update format_of arc u d =
     (let w = u_state u
      in if length (w_row_wraps w) \<noteq> w_rows w then (Inl InvalidFrame, d)
         else
           (case current_rows u d of
              Inl err \<Rightarrow> (Inl err, d)
            | Inr current \<Rightarrow>
                if length current \<noteq> w_rows w then (Inl InvalidRow, d)
                else
                  (case place_rows (w_cols w) 0 current [] [] of
                     Inl err \<Rightarrow> (Inl err, d)
                   | Inr (cells, chars) \<Rightarrow>
                       (case decoded_placements format_of d (w_placements w) of
                          Inl err \<Rightarrow> (Inl err, d)
                        | Inr placements \<Rightarrow>
                            if \<not> is_full (u_rows u) \<and> d_previous d = None then (Inl WrongBase, d)
                            else
                              (let fr = assemble_frame arc u d current cells chars placements
                               in (Inr fr,
                                   d\<lparr>d_images := filter (\<lambda>(key, _). key \<in> set (map wp_key (w_placements w))) (d_images d),
                                     d_previous := Some (u_sequence u, fr)\<rparr>))))))"

section \<open>Cells on the wire\<close>

record wire_cell =
  wc_x :: nat
  wc_text_start :: nat
  wc_text_len :: nat
  wc_fg :: "rgb_color option"
  wc_bg :: "rgb_color option"
  wc_flags :: "16 word"
  wc_underline :: int
  wc_hyperlink :: "string option"

definition pack_flags :: "'u cell_style \<Rightarrow> 16 word" where
  "pack_flags s =
     fold (\<lambda>(set, shift) bits. bits OR push_bit shift (of_bool set))
       (zip [bold s, italic s, faint s, blink s, inverse s, invisible s, strikethrough s, overline s] [0..<8]) 0"

definition serialize_cell :: "('u \<Rightarrow> int) \<Rightarrow> 'u render_cell \<Rightarrow> wire_cell" where
  "serialize_cell underline_code c =
     \<lparr>wc_x = rc_x c, wc_text_start = rc_text_start c, wc_text_len = rc_text_len c, wc_fg = rc_fg c,
      wc_bg = rc_bg c, wc_flags = pack_flags (rc_style c),
      wc_underline = underline_code (underline (rc_style c)), wc_hyperlink = rc_hyperlink c\<rparr>"

definition deserialize_cell :: "(int \<Rightarrow> 'u res) \<Rightarrow> wire_cell \<Rightarrow> 'u render_cell res" where
  "deserialize_cell underline_of c =
     (if 255 < wc_flags c then Inl ''invalid style flags''
      else
        (case underline_of (wc_underline c) of
           Inl message \<Rightarrow> Inl message
         | Inr ul \<Rightarrow>
             Inr \<lparr>rc_x = wc_x c, rc_y = 0, rc_text_start = wc_text_start c, rc_text_len = wc_text_len c,
                  rc_fg = wc_fg c, rc_bg = wc_bg c,
                  rc_style = \<lparr>bold = wc_flags c AND 1 \<noteq> 0, italic = wc_flags c AND 2 \<noteq> 0,
                    faint = wc_flags c AND 4 \<noteq> 0, blink = wc_flags c AND 8 \<noteq> 0,
                    inverse = wc_flags c AND 16 \<noteq> 0, invisible = wc_flags c AND 32 \<noteq> 0,
                    strikethrough = wc_flags c AND 64 \<noteq> 0, overline = wc_flags c AND 128 \<noteq> 0,
                    underline = ul\<rparr>,
                  rc_hyperlink = wc_hyperlink c\<rparr>))"


section \<open>Text layout\<close>

text \<open>The cells of a row with their text starts assigned from \<open>n\<close> on.\<close>

fun with_starts :: "nat \<Rightarrow> 'u render_cell list \<Rightarrow> 'u render_cell list" where
  "with_starts n [] = []"
| "with_starts n (c # cs) = c\<lparr>rc_text_start := n\<rparr> # with_starts (n + rc_text_len c) cs"

definition text_total :: "'u render_cell list \<Rightarrow> nat" where
  "text_total cs = sum_list (map rc_text_len cs)"

definition frame_wf :: "('u, 'c, 'f) render_frame \<Rightarrow> bool" where
  "frame_wf fr \<longleftrightarrow>
     length (f_row_wraps fr) = f_rows fr
     \<and> list_all (\<lambda>c. rc_x c < f_cols fr \<and> rc_y c < f_rows fr) (f_cells fr)
     \<and> sorted (map rc_y (f_cells fr))
     \<and> with_starts 0 (f_cells fr) = f_cells fr \<and> text_total (f_cells fr) = length (f_text fr)"

definition row_ok :: "nat \<Rightarrow> 'u wire_row \<Rightarrow> bool" where
  "row_ok cols row \<longleftrightarrow>
     list_all (\<lambda>c. rc_y c = 0 \<and> rc_x c < cols) (wr_cells row)
     \<and> with_starts 0 (wr_cells row) = wr_cells row \<and> text_total (wr_cells row) = length (wr_text row)"

text \<open>The cells of consecutive rows, laid out one after another.\<close>

fun lay :: "nat \<Rightarrow> nat \<Rightarrow> 'u wire_row list \<Rightarrow> 'u render_cell list" where
  "lay y n [] = []"
| "lay y n (row # rows) =
     map (\<lambda>c. c\<lparr>rc_y := y\<rparr>) (with_starts n (wr_cells row)) @ lay (Suc y) (n + length (wr_text row)) rows"

lemma text_total_simps [simp]:
  "text_total [] = 0" "text_total (c # cs) = rc_text_len c + text_total cs"
  "text_total (cs @ ds) = text_total cs + text_total ds"
  by (simp_all add: text_total_def)

lemma text_total_with_starts [simp]: "text_total (with_starts n cs) = text_total cs"
  by (induction cs arbitrary: n) simp_all

lemma text_total_set_y [simp]: "text_total (map (\<lambda>c. c\<lparr>rc_y := y\<rparr>) cs) = text_total cs"
  by (induction cs) simp_all

lemma with_starts_append [simp]:
  "with_starts n (cs @ ds) = with_starts n cs @ with_starts (n + text_total cs) ds"
  by (induction cs arbitrary: n) (simp_all add: add.assoc)

lemma with_starts_with_starts [simp]: "with_starts m (with_starts n cs) = with_starts m cs"
  by (induction cs arbitrary: m n) simp_all

lemma with_starts_set_y: "with_starts n (map (\<lambda>c. c\<lparr>rc_y := y\<rparr>) cs) = map (\<lambda>c. c\<lparr>rc_y := y\<rparr>) (with_starts n cs)"
  by (induction cs arbitrary: n) simp_all

lemma length_with_starts [simp]: "length (with_starts n cs) = length cs"
  by (induction cs arbitrary: n) simp_all

lemma map_rc_y_with_starts [simp]:
  "map rc_y (with_starts n cs) = map rc_y cs" "map rc_x (with_starts n cs) = map rc_x cs"
  by (induction cs arbitrary: n) simp_all

lemma list_all_with_starts:
  assumes "\<And>c n. P (c\<lparr>rc_text_start := n\<rparr>) = P c"
  shows "list_all P (with_starts n cs) = list_all P cs"
  by (induction cs arbitrary: n) (simp_all add: assms)

lemma set_y_same: "list_all (\<lambda>c. rc_y c = y) cs \<Longrightarrow> map (\<lambda>c. c\<lparr>rc_y := y\<rparr>) cs = cs"
  by (induction cs) auto

lemma set_y_set_y [simp]: "map (\<lambda>c. c\<lparr>rc_y := a\<rparr>) (map (\<lambda>c. c\<lparr>rc_y := b\<rparr>) cs) = map (\<lambda>c. c\<lparr>rc_y := a\<rparr>) cs"
  by simp

section \<open>Placing rows\<close>

lemma place_cells_sound:
  assumes "place_cells cols y offset n stop cs = Inr (cs', stop')"
  shows "list_all (\<lambda>c. rc_y c = 0 \<and> rc_x c < cols) cs \<and> with_starts stop cs = cs
    \<and> stop' = stop + text_total cs \<and> cs' = map (\<lambda>c. c\<lparr>rc_y := y\<rparr>) (with_starts (stop + offset) cs)"
  using assms
proof (induction cs arbitrary: stop cs')
  case Nil
  then show ?case by simp
next
  case (Cons c cs)
  from Cons.prems obtain cs1 where
    c: "rc_y c = 0" "rc_x c < cols" "rc_text_start c = stop"
    and rest: "place_cells cols y offset n (stop + rc_text_len c) cs = Inr (cs1, stop')"
    and cs': "cs' = c\<lparr>rc_y := y, rc_text_start := stop + offset\<rparr> # cs1"
    by (auto simp: checked_add_def split: if_splits option.splits sum.splits)
  have "c\<lparr>rc_text_start := stop\<rparr> = c" using c(3) by (cases c) simp
  moreover have "c\<lparr>rc_y := y, rc_text_start := stop + offset\<rparr> = c\<lparr>rc_text_start := stop + offset, rc_y := y\<rparr>"
    by (cases c) simp
  ultimately show ?case
    using c Cons.IH [OF rest] by (simp add: cs' ac_simps)
qed

lemma place_cells_complete:
  assumes "list_all (\<lambda>c. rc_y c = 0 \<and> rc_x c < cols) cs" "with_starts stop cs = cs"
    and "stop + text_total cs \<le> n" "offset + n < 2 ^ 64"
  shows "place_cells cols y offset n stop cs =
    Inr (map (\<lambda>c. c\<lparr>rc_y := y\<rparr>) (with_starts (stop + offset) cs), stop + text_total cs)"
  using assms(1-3)
proof (induction cs arbitrary: stop)
  case Nil
  then show ?case by simp
next
  case (Cons c cs)
  have c: "rc_text_start c = stop"
    using Cons.prems(2) by (cases c) simp
  have rest: "with_starts (stop + rc_text_len c) cs = cs"
    using Cons.prems(2) by simp
  have "c\<lparr>rc_y := y, rc_text_start := stop + offset\<rparr> = c\<lparr>rc_text_start := stop + offset, rc_y := y\<rparr>"
    by (cases c) simp
  moreover have "place_cells cols y offset n (stop + rc_text_len c) cs =
      Inr (map (\<lambda>c. c\<lparr>rc_y := y\<rparr>) (with_starts (stop + rc_text_len c + offset) cs), stop + rc_text_len c + text_total cs)"
    using Cons.IH [OF _ rest] Cons.prems by simp
  ultimately show ?case
    using Cons.prems assms(4) c by (simp add: checked_add_def ac_simps)
qed

lemma place_rows_sound:
  assumes "place_rows cols y rows cells chars = Inr (cells', chars')"
  shows "list_all (row_ok cols) rows \<and> cells' = cells @ lay y (length chars) rows
    \<and> chars' = chars @ concat (map wr_text rows)"
  using assms
proof (induction rows arbitrary: y cells chars)
  case Nil
  then show ?case by simp
next
  case (Cons row rows)
  from Cons.prems obtain cs where
    cs: "place_cells cols y (length chars) (length (wr_text row)) 0 (wr_cells row) = Inr (cs, length (wr_text row))"
    and rest: "place_rows cols (Suc y) rows (cells @ cs) (chars @ wr_text row) = Inr (cells', chars')"
    by (auto split: sum.splits prod.splits if_splits)
  from place_cells_sound [OF cs] Cons.IH [OF rest] show ?case
    by (simp add: row_ok_def)
qed

lemma place_rows_complete:
  assumes "list_all (row_ok cols) rows" "length chars + length (concat (map wr_text rows)) < 2 ^ 64"
  shows "place_rows cols y rows cells chars = Inr (cells @ lay y (length chars) rows, chars @ concat (map wr_text rows))"
  using assms
proof (induction rows arbitrary: y cells chars)
  case Nil
  then show ?case by simp
next
  case (Cons row rows)
  have "place_cells cols y (length chars) (length (wr_text row)) 0 (wr_cells row)
    = Inr (map (\<lambda>c. c\<lparr>rc_y := y\<rparr>) (with_starts (length chars) (wr_cells row)), length (wr_text row))"
    using Cons.prems place_cells_complete [of cols "wr_cells row" 0 "length (wr_text row)" "length chars" y]
    by (simp add: row_ok_def)
  moreover have "place_rows cols (Suc y) rows (cells @ cs) (chars @ wr_text row)
      = Inr ((cells @ cs) @ lay (Suc y) (length (chars @ wr_text row)) rows,
             (chars @ wr_text row) @ concat (map wr_text rows))" for cs
    using Cons.prems by (intro Cons.IH) simp_all
  ultimately show ?case by simp
qed

section \<open>Rows of a frame\<close>

lemma list_all_lay:
  "list_all (row_ok cols) rows \<Longrightarrow>
   list_all (\<lambda>c. rc_x c < cols \<and> y \<le> rc_y c \<and> rc_y c < y + length rows) (lay y n rows)"
proof (induction rows arbitrary: y n)
  case Nil
  then show ?case by simp
next
  case (Cons row rows)
  have "list_all (\<lambda>c. rc_x c < cols) (wr_cells row)"
    using Cons.prems by (auto simp: row_ok_def list_all_iff)
  then have "list_all (\<lambda>c. rc_x c < cols) (with_starts n (wr_cells row))"
    by (simp add: list_all_with_starts)
  moreover have "list_all (\<lambda>c. rc_x c < cols \<and> Suc y \<le> rc_y c \<and> rc_y c < Suc y + length rows)
      (lay (Suc y) (n + length (wr_text row)) rows)"
    using Cons.IH [of "Suc y" "n + length (wr_text row)"] Cons.prems by simp
  ultimately show ?case
    by (auto simp: list_all_iff)
qed

lemma sorted_lay: "list_all (row_ok cols) rows \<Longrightarrow> sorted (map rc_y (lay y n rows))"
proof (induction rows arbitrary: y n)
  case Nil
  then show ?case by simp
next
  case (Cons row rows)
  have "map rc_y (map (\<lambda>c. c\<lparr>rc_y := y\<rparr>) cs) = replicate (length cs) y" for cs :: "'a render_cell list"
    by (induction cs) simp_all
  then show ?case
    using Cons list_all_lay [of cols rows "Suc y" "n + length (wr_text row)"]
    by (auto simp: sorted_append list_all_iff simp del: map_map)
qed

lemma with_starts_lay: "list_all (row_ok cols) rows \<Longrightarrow> with_starts n (lay y n rows) = lay y n rows"
  by (induction rows arbitrary: y n) (auto simp: row_ok_def with_starts_set_y)

lemma text_total_lay:
  "list_all (row_ok cols) rows \<Longrightarrow> text_total (lay y n rows) = length (concat (map wr_text rows))"
  by (induction rows arbitrary: y n) (auto simp: row_ok_def)

lemma filter_lay:
  assumes "list_all (row_ok cols) rows" "y < m"
  shows "filter (\<lambda>c. rc_y c = y) (lay m n rows) = []"
  using list_all_lay [OF assms(1), of m n] assms(2) by (auto simp: filter_empty_conv list_all_iff)

lemma lay_inj:
  assumes "lay y n rows = lay y n rows'" "length rows = length rows'"
    and "list_all (row_ok cols) rows" "list_all (row_ok cols) rows'"
    and "concat (map wr_text rows) = concat (map wr_text rows')"
  shows "rows = rows'"
  using assms
proof (induction rows arbitrary: rows' y n)
  case Nil
  then show ?case by simp
next
  case (Cons row rows)
  then obtain row' rest where rows': "rows' = row' # rest"
    by (cases rows') auto
  note ok = Cons.prems(3,4)[unfolded rows']
  have first: "filter (\<lambda>c. rc_y c = y) (lay y n (r # rs)) = map (\<lambda>c. c\<lparr>rc_y := y\<rparr>) (with_starts n (wr_cells r))"
    if "list_all (row_ok cols) (r # rs)" for r :: "'a wire_row" and rs
    using that filter_lay [of cols rs y "Suc y"] by (simp add: filter_id_conv)
  have own: "map (\<lambda>c. c\<lparr>rc_y := 0\<rparr>) (with_starts 0 (map (\<lambda>c. c\<lparr>rc_y := y\<rparr>) (with_starts n (wr_cells r)))) = wr_cells r"
    if "row_ok cols r" for r :: "'a wire_row"
    using that set_y_same [of 0 "wr_cells r"]
    by (simp add: row_ok_def with_starts_set_y list_all_iff del: map_map)
  have cells: "wr_cells row = wr_cells row'"
  proof -
    have "map (\<lambda>c. c\<lparr>rc_y := y\<rparr>) (with_starts n (wr_cells row)) = map (\<lambda>c. c\<lparr>rc_y := y\<rparr>) (with_starts n (wr_cells row'))"
      using Cons.prems(1) first [OF ok(1)] first [OF ok(2)] by (simp only: rows')
    then show ?thesis
      using own [of row] own [of row'] ok by (metis list.pred_inject(2))
  qed
  then have len: "length (wr_text row) = length (wr_text row')"
    using ok by (simp add: row_ok_def)
  with Cons.prems(5) have txts: "wr_text row = wr_text row'" "concat (map wr_text rows) = concat (map wr_text rest)"
    by (simp_all add: rows')
  moreover have "rows = rest"
    using Cons.prems len cells txts(2) by (intro Cons.IH [of "Suc y" "n + length (wr_text row)"]) (simp_all add: rows')
  ultimately show ?case
    using cells by (simp add: rows')
qed

lemma length_rows_of [simp]: "length (rows_of fr) = f_rows fr"
proof -
  have "length (fold (add_cell fr) cs rows) = length rows" for cs rows
    by (induction cs arbitrary: rows) (auto simp: add_cell_def split: option.splits)
  then show ?thesis by (simp add: rows_of_def)
qed

lemma nth_rows_of:
  assumes "y < f_rows fr"
  shows "rows_of fr ! y = fold (push_cell fr) (filter (\<lambda>c. rc_y c = y) (f_cells fr)) empty_row"
proof -
  have "y < length rows \<Longrightarrow>
      fold (add_cell fr) cs rows ! y = fold (push_cell fr) (filter (\<lambda>c. rc_y c = y) cs) (rows ! y)" for cs rows
  proof (induction cs arbitrary: rows)
    case Nil
    then show ?case by simp
  next
    case (Cons c cs)
    then show ?case
      by (simp add: add_cell_def get_nth_def nth_list_update split: option.splits if_splits)
  qed
  with assms show ?thesis by (simp add: rows_of_def)
qed

lemma fold_push_cell:
  assumes "\<forall>c \<in> set cs. length (cell_text fr c) = rc_text_len c"
  shows "fold (push_cell fr) cs row =
    row\<lparr>wr_cells := wr_cells row @ map (\<lambda>c. c\<lparr>rc_y := 0\<rparr>) (with_starts (length (wr_text row)) cs),
        wr_text := wr_text row @ concat (map (cell_text fr) cs)\<rparr>"
  using assms
proof (induction cs arbitrary: row)
  case Nil
  then show ?case by simp
next
  case (Cons c cs)
  have "c\<lparr>rc_text_start := n, rc_y := 0\<rparr> = c\<lparr>rc_y := 0, rc_text_start := n\<rparr>" for n
    by (cases c) simp
  with Cons show ?case by (simp add: push_cell_def)
qed

lemma cell_texts:
  assumes "with_starts n cs = cs" "n + text_total cs = length (f_text fr)" "length (f_text fr) < 2 ^ 64"
  shows "concat (map (cell_text fr) cs) = drop n (f_text fr) \<and> (\<forall>c \<in> set cs. length (cell_text fr c) = rc_text_len c)"
  using assms(1,2)
proof (induction cs arbitrary: n)
  case Nil
  then show ?case by simp
next
  case (Cons c cs)
  have start: "rc_text_start c = n"
    using Cons.prems(1) by (cases c) simp
  have "cell_text fr c = take (rc_text_len c) (drop n (f_text fr))"
    using Cons.prems(2) assms(3) start by (simp add: cell_text_def sat_add_def)
  moreover have "concat (map (cell_text fr) cs) = drop (n + rc_text_len c) (f_text fr)
      \<and> (\<forall>c \<in> set cs. length (cell_text fr c) = rc_text_len c)"
    using Cons.prems by (intro Cons.IH) simp_all
  moreover have "drop (n + rc_text_len c) (f_text fr) = drop (rc_text_len c) (drop n (f_text fr))"
    by (simp add: add.commute)
  ultimately show ?case
    using Cons.prems(2) append_take_drop_id [of "rc_text_len c" "drop n (f_text fr)"] by auto
qed

lemma sorted_groups:
  assumes "sorted (map f xs)" "\<forall>x \<in> set xs. f x < (n :: nat)"
  shows "concat (map (\<lambda>y. filter (\<lambda>x. f x = y) xs) [0..<n]) = xs"
  using assms
proof (induction n arbitrary: xs)
  case 0
  then show ?case by simp
next
  case (Suc n)
  have split: "filter (\<lambda>x. f x < n) xs @ filter (\<lambda>x. f x = n) xs = xs"
    using Suc.prems
  proof (induction xs)
    case Nil
    then show ?case by simp
  next
    case (Cons x xs)
    show ?case
    proof (cases "f x < n")
      case False
      then have "\<forall>z \<in> set xs. f z = n" "f x = n"
        using Cons.prems by (auto simp: less_Suc_eq_le intro: order_antisym)
      then show ?thesis by (auto simp: filter_empty_conv filter_id_conv)
    qed (use Cons in auto)
  qed
  have "map (\<lambda>y. filter (\<lambda>x. f x = y) xs) [0..<n] = map (\<lambda>y. filter (\<lambda>x. f x = y) (filter (\<lambda>x. f x < n) xs)) [0..<n]"
    by (auto intro!: filter_cong)
  moreover have "concat (map (\<lambda>y. filter (\<lambda>x. f x = y) (filter (\<lambda>x. f x < n) xs)) [0..<n]) = filter (\<lambda>x. f x < n) xs"
    using Suc.prems by (intro Suc.IH) (auto simp: sorted_filter)
  ultimately have "concat (map (\<lambda>y. filter (\<lambda>x. f x = y) xs) [0..<n]) = filter (\<lambda>x. f x < n) xs"
    by (simp only:)
  then show ?case
    using split by simp
qed

text \<open>Groups of cells become rows, and rows laid out become the cells again.\<close>

lemma lay_groups:
  fixes g :: "nat \<Rightarrow> 'u render_cell list"
  assumes "\<And>y. y < m \<Longrightarrow> wr_cells (r y) = map (\<lambda>c. c\<lparr>rc_y := 0\<rparr>) (with_starts 0 (g y))"
    and "\<And>y. y < m \<Longrightarrow> length (wr_text (r y)) = text_total (g y)"
    and "\<And>y. y < m \<Longrightarrow> list_all (\<lambda>c. rc_y c = y) (g y)"
    and "y + k = m"
  shows "lay y n (map r [y..<m]) = with_starts n (concat (map g [y..<m]))"
  using assms(4)
proof (induction k arbitrary: y n)
  case 0
  then show ?case by simp
next
  case (Suc k)
  then have y: "y < m" "[y..<m] = y # [Suc y..<m]"
    by (simp_all add: upt_conv_Cons)
  have "map (\<lambda>c. c\<lparr>rc_y := y\<rparr>) (with_starts n (wr_cells (r y))) = with_starts n (g y)"
    using assms(1,3)[OF y(1)] set_y_same [of y "with_starts n (g y)"]
    by (simp add: with_starts_set_y list_all_with_starts del: map_map)
  moreover have "lay (Suc y) (n + text_total (g y)) (map r [Suc y..<m]) =
      with_starts (n + text_total (g y)) (concat (map g [Suc y..<m]))"
    using Suc by (intro Suc.IH) simp
  ultimately show ?case
    using assms(2)[OF y(1)] by (simp add: y(2))
qed

lemma concat_map_groups: "concat (map (\<lambda>y. concat (map f (g y))) ys) = concat (map f (concat (map g ys)))"
  by (induction ys) simp_all

lemma rows_of_wf:
  assumes "frame_wf fr" "length (f_text fr) < 2 ^ 64"
  shows "list_all (row_ok (f_cols fr)) (rows_of fr) \<and> lay 0 0 (rows_of fr) = f_cells fr
    \<and> concat (map wr_text (rows_of fr)) = f_text fr"
proof -
  define g where "g y = filter (\<lambda>c. rc_y c = y) (f_cells fr)" for y
  define r where "r y = rows_of fr ! y" for y
  note wf = assms(1)[unfolded frame_wf_def]
  have texts: "concat (map (cell_text fr) (f_cells fr)) = f_text fr"
    "\<forall>c \<in> set (f_cells fr). length (cell_text fr c) = rc_text_len c"
    using cell_texts [of 0 "f_cells fr" fr] wf assms(2) by simp_all
  have r: "r y = \<lparr>wr_cells = map (\<lambda>c. c\<lparr>rc_y := 0\<rparr>) (with_starts 0 (g y)), wr_text = concat (map (cell_text fr) (g y))\<rparr>"
    if "y < f_rows fr" for y
    using that texts(2) fold_push_cell [of "g y" fr empty_row]
    by (simp add: r_def nth_rows_of g_def empty_row_def)
  have total: "length (concat (map (cell_text fr) (g y))) = text_total (g y)" for y
    unfolding text_total_def length_concat map_map using texts(2)
    by (intro arg_cong [of _ _ sum_list]) (auto simp: g_def)
  have groups: "concat (map g [0..<f_rows fr]) = f_cells fr"
    unfolding g_def using wf by (intro sorted_groups) (auto simp: list_all_iff)
  have rows: "rows_of fr = map r [0..<f_rows fr]"
    by (rule nth_equalityI) (simp_all add: r_def)
  have "row_ok (f_cols fr) (r y)" if "y < f_rows fr" for y
  proof -
    have "list_all (\<lambda>c. rc_x c < f_cols fr) (g y)"
      using wf by (auto simp: g_def list_all_iff)
    then show ?thesis
      using r [OF that] total [of y]
      by (simp add: row_ok_def with_starts_set_y list_all_with_starts list.pred_map comp_def)
  qed
  moreover have "lay 0 0 (map r [0..<f_rows fr]) = with_starts 0 (concat (map g [0..<f_rows fr]))"
    using r total by (intro lay_groups [where k = "f_rows fr"]) (auto simp: g_def list_all_iff)
  moreover have "concat (map wr_text (map r [0..<f_rows fr])) = concat (map (\<lambda>y. concat (map (cell_text fr) (g y))) [0..<f_rows fr])"
    using r by (intro arg_cong [of _ _ concat]) auto
  moreover have "\<dots> = concat (map (cell_text fr) (concat (map g [0..<f_rows fr])))"
    by (rule concat_map_groups)
  ultimately show ?thesis
    using groups texts(1) wf by (simp add: rows list_all_iff)
qed

text \<open>A frame whose cells are rows laid out is well-formed and consists of these rows.\<close>

lemma laid_out_wf:
  assumes "list_all (row_ok (f_cols fr)) rows" "length rows = f_rows fr"
    and "f_cells fr = lay 0 0 rows" "f_text fr = concat (map wr_text rows)" "length (f_row_wraps fr) = f_rows fr"
  shows "frame_wf fr"
  using assms list_all_lay [OF assms(1), of 0 0] sorted_lay [OF assms(1)] with_starts_lay [OF assms(1)]
    text_total_lay [OF assms(1)]
  by (auto simp: frame_wf_def list_all_iff)

lemma laid_out_rows:
  assumes "list_all (row_ok (f_cols fr)) rows" "length rows = f_rows fr"
    and "f_cells fr = lay 0 0 rows" "f_text fr = concat (map wr_text rows)" "length (f_row_wraps fr) = f_rows fr"
    and "length (f_text fr) < 2 ^ 64"
  shows "rows_of fr = rows"
  using rows_of_wf [OF laid_out_wf [OF assms(1-5)] assms(6)] assms
  by (intro lay_inj [of 0 0 _ _ "f_cols fr"]) simp_all

lemma rows_of_cong:
  "f_rows a = f_rows b \<Longrightarrow> f_cells a = f_cells b \<Longrightarrow> f_text a = f_text b \<Longrightarrow> rows_of a = rows_of b"
proof -
  assume same: "f_rows a = f_rows b" "f_cells a = f_cells b" "f_text a = f_text b"
  have "cell_text a = cell_text b"
    by (intro ext) (simp add: cell_text_def same(3) Let_def)
  then have "push_cell a = push_cell b"
    by (intro ext) (simp add: push_cell_def)
  then have "add_cell a = add_cell b"
    by (intro ext) (simp add: add_cell_def split: option.splits)
  with same show ?thesis by (simp add: rows_of_def)
qed

section \<open>Patching rows\<close>

lemma patch_rows_nth:
  assumes "patch_rows changes current seen = Inr rows"
  shows "length rows = length current"
  using assms
proof (induction changes arbitrary: current seen)
  case Nil
  then show ?case by simp
next
  case (Cons change changes)
  then show ?case by (cases change) (fastforce split: if_splits)
qed

lemma patch_rows_fold:
  assumes "distinct (map fst changes)" "\<forall>(y, row) \<in> set changes. y < length current \<and> y < length seen \<and> \<not> seen ! y"
  shows "patch_rows changes current seen = Inr (fold (\<lambda>(y, row) rows. rows[y := row]) changes current)"
  using assms
proof (induction changes arbitrary: current seen)
  case Nil
  then show ?case by simp
next
  case (Cons change changes)
  obtain y row where change: "change = (y, row)" by (cases change)
  have "(y', r) \<in> set changes \<Longrightarrow> y \<noteq> y'" for y' r
    using Cons.prems(1) by (force simp: change)
  then have "patch_rows changes (current[y := row]) (seen[y := True])
      = Inr (fold (\<lambda>(y, row) rows. rows[y := row]) changes (current[y := row]))"
    using Cons.prems by (intro Cons.IH) (fastforce simp: change)+
  then show ?case
    using Cons.prems by (simp add: change)
qed

lemma fold_updates_nth:
  assumes "distinct (map fst changes)" "k < length rows"
  shows "fold (\<lambda>(y, row) rows. rows[y := row]) changes rows ! k =
    (case map_of changes k of None \<Rightarrow> rows ! k | Some row \<Rightarrow> row)"
  using assms
proof (induction changes arbitrary: rows)
  case Nil
  then show ?case by simp
next
  case (Cons change changes)
  obtain y row where change: "change = (y, row)" by (cases change)
  have "map_of changes y = None"
    using Cons.prems(1) by (simp add: change map_of_eq_None_iff)
  then show ?case
    using Cons by (auto simp: change nth_list_update split: option.splits)
qed

lemma length_fold_updates: "length (fold (\<lambda>(y, row) rows. rows[y := row]) changes rows) = length rows"
  by (induction changes arbitrary: rows) auto

lemma patch_changed_rows:
  assumes "length previous = n" "length current = n"
  shows "patch_rows (changed_rows n previous current) previous (replicate n False) = Inr current"
proof -
  let ?changes = "changed_rows n previous current"
  have keys: "distinct (map fst ?changes)"
  proof -
    have "map fst (filter P (zip [0..<n] current)) = filter (\<lambda>y. P (y, current ! y)) [0..<n]" for P
    proof -
      have "zip [0..<n] current = map (\<lambda>y. (y, current ! y)) [0..<n]"
        using assms(2) by (intro nth_equalityI) auto
      then show ?thesis by (simp add: filter_map comp_def)
    qed
    then show ?thesis by (simp add: changed_rows_def)
  qed
  have lookup: "map_of ?changes k = (if previous ! k = current ! k then None else Some (current ! k))" if "k < n" for k
  proof (cases "previous ! k = current ! k")
    case True
    then have "k \<notin> fst ` set ?changes"
      using assms that by (auto simp: changed_rows_def get_nth_def set_zip)
    then show ?thesis using True by (simp add: map_of_eq_None_iff)
  next
    case False
    then have "(k, current ! k) \<in> set ?changes"
      using assms that by (auto simp: changed_rows_def get_nth_def set_zip intro!: exI [of _ k])
    then show ?thesis using False keys by (simp add: map_of_is_SomeI)
  qed
  have "fold (\<lambda>(y, row) rows. rows[y := row]) ?changes previous = current"
    using assms lookup keys
    by (intro nth_equalityI) (auto simp: length_fold_updates fold_updates_nth)
  moreover have "\<forall>(y, row) \<in> set ?changes. y < length previous \<and> y < length (replicate n False) \<and> \<not> replicate n False ! y"
    using assms by (auto simp: changed_rows_def set_zip)
  ultimately show ?thesis
    using patch_rows_fold [OF keys, of previous "replicate n False"] by simp
qed

section \<open>Accepted updates\<close>

lemma assemble_frame_simps [simp]:
  "f_cols (assemble_frame arc u d current cells chars placements) = w_cols (u_state u)"
  "f_rows (assemble_frame arc u d current cells chars placements) = w_rows (u_state u)"
  "f_row_wraps (assemble_frame arc u d current cells chars placements) = w_row_wraps (u_state u)"
  "f_cells (assemble_frame arc u d current cells chars placements) = cells"
  "f_text (assemble_frame arc u d current cells chars placements) = chars"
  "f_row_dirty (assemble_frame arc u d current cells chars placements)
     = row_damage (is_full (u_rows u)) (w_row_wraps (u_state u)) d current"
  "f_lineage (assemble_frame arc u d current cells chars placements)
     = (case (is_full (u_rows u), d_previous d) of
          (False, Some (_, old)) \<Rightarrow> advance (Suc arc) (f_lineage old) | _ \<Rightarrow> default_lineage arc)"
  by (simp_all add: assemble_frame_def frame_of_state_def default_frame_def Let_def split: bool.splits option.splits)

lemma apply_update_Inr:
  assumes "apply_update format_of arc u d = (Inr fr, d')"
  obtains current cells chars placements where
    "current_rows u d = Inr current" "length current = w_rows (u_state u)"
    "place_rows (w_cols (u_state u)) 0 current [] [] = Inr (cells, chars)"
    "decoded_placements format_of d (w_placements (u_state u)) = Inr placements"
    "length (w_row_wraps (u_state u)) = w_rows (u_state u)"
    "fr = assemble_frame arc u d current cells chars placements"
    "d' = d\<lparr>d_images := filter (\<lambda>(key, _). key \<in> set (map wp_key (w_placements (u_state u)))) (d_images d),
            d_previous := Some (u_sequence u, fr)\<rparr>"
  using assms unfolding apply_update_def Let_def
  by (auto split: if_splits sum.splits prod.splits)

lemma apply_update_rejected: "apply_update format_of arc u d = (Inl err, d') \<Longrightarrow> d' = d"
  by (auto simp: apply_update_def Let_def split: if_splits sum.splits prod.splits)

lemma accepted_wf:
  assumes "apply_update format_of arc u d = (Inr fr, d')"
  shows "frame_wf fr"
  using assms
proof (rule apply_update_Inr)
  fix current cells chars placements
  assume c: "length current = w_rows (u_state u)" "place_rows (w_cols (u_state u)) 0 current [] [] = Inr (cells, chars)"
    "length (w_row_wraps (u_state u)) = w_rows (u_state u)" "fr = assemble_frame arc u d current cells chars placements"
  show ?thesis
    using place_rows_sound [OF c(2)] c by (intro laid_out_wf [of _ current]) simp_all
qed

lemma accepted_rows:
  assumes "apply_update format_of arc u d = (Inr fr, d')" "length (f_text fr) < 2 ^ 64"
  shows "current_rows u d = Inr (rows_of fr)"
  using assms(1)
proof (rule apply_update_Inr)
  fix current cells chars placements
  assume c: "length current = w_rows (u_state u)" "place_rows (w_cols (u_state u)) 0 current [] [] = Inr (cells, chars)"
    "length (w_row_wraps (u_state u)) = w_rows (u_state u)" "fr = assemble_frame arc u d current cells chars placements"
    "current_rows u d = Inr current"
  have "rows_of fr = current"
    using place_rows_sound [OF c(2)] c assms(2) by (intro laid_out_rows) simp_all
  with c show ?thesis by simp
qed

section \<open>Style flags\<close>

lemma bit_pack_flags:
  "bit (pack_flags s) k \<longleftrightarrow>
     k = 0 \<and> bold s \<or> k = 1 \<and> italic s \<or> k = 2 \<and> faint s \<or> k = 3 \<and> blink s \<or> k = 4 \<and> inverse s
     \<or> k = 5 \<and> invisible s \<or> k = 6 \<and> strikethrough s \<or> k = 7 \<and> overline s"
proof -
  have shift: "bit (push_bit n (of_bool b) :: 16 word) k \<longleftrightarrow> k = n \<and> b" if "n < 16" for n b
    using that by (auto simp: bit_push_bit_iff bit_of_bool_iff)
  have "[0..<8] = [0, 1, 2, 3, 4, 5, 6, 7]"
    by (simp add: upt_conv_Cons)
  then have "pack_flags s = 0 OR push_bit 0 (of_bool (bold s)) OR push_bit 1 (of_bool (italic s))
      OR push_bit 2 (of_bool (faint s)) OR push_bit 3 (of_bool (blink s)) OR push_bit 4 (of_bool (inverse s))
      OR push_bit 5 (of_bool (invisible s)) OR push_bit 6 (of_bool (strikethrough s))
      OR push_bit 7 (of_bool (overline s))"
    unfolding pack_flags_def by (simp only: zip_Cons_Cons fold_simps zip.simps prod.case list.case or.assoc)
  moreover have "\<not> bit (0 :: 16 word) k" by simp
  moreover have "(0 :: nat) < 16" "(1 :: nat) < 16" "(2 :: nat) < 16" "(3 :: nat) < 16" "(4 :: nat) < 16"
      "(5 :: nat) < 16" "(6 :: nat) < 16" "(7 :: nat) < 16"
    by simp_all
  ultimately show ?thesis
    by (simp only: bit_or_iff shift simp_thms)
qed

lemma masked_bit: "w AND 2 ^ k \<noteq> 0 \<longleftrightarrow> bit w k" for w :: "16 word"
  by (simp add: and_exp_eq_0_iff_not_bit)

lemmas masked_bits =
  masked_bit [of _ 0, simplified] masked_bit [of _ 1, simplified] masked_bit [of _ 2, simplified]
  masked_bit [of _ 3, simplified] masked_bit [of _ 4, simplified] masked_bit [of _ 5, simplified]
  masked_bit [of _ 6, simplified] masked_bit [of _ 7, simplified]

lemma flags_in_byte: "w \<le> 255 \<longleftrightarrow> (\<forall>k. bit w k \<longrightarrow> k < 8)" for w :: "16 word"
proof -
  have "w \<le> 255 \<longleftrightarrow> unat w < 2 ^ 8"
    by (simp add: word_le_nat_alt less_Suc_eq_le [of _ 255, simplified])
  also have "\<dots> \<longleftrightarrow> unat (take_bit 8 w) = unat w"
    by (simp add: unsigned_take_bit_eq take_bit_nat_eq_self_iff)
  also have "\<dots> \<longleftrightarrow> take_bit 8 w = w"
    by (rule word_unat_eq_iff [symmetric])
  also have "\<dots> \<longleftrightarrow> (\<forall>k. bit w k \<longrightarrow> k < 8)"
    by (auto simp: bit_eq_iff bit_take_bit_iff) (use bit_imp_le_length [of w] in force)
  finally show ?thesis .
qed

lemma pack_flags_byte: "pack_flags s \<le> 255"
  by (auto simp: flags_in_byte bit_pack_flags)

section \<open>Properties\<close>

text \<open>
  C8.  The decoder trusts nothing it reads.  Whatever update arrives, either it is refused and the
  decoder is unchanged, or the frame it yields is well-formed: every cell lies inside the grid, rows
  come in order, and the cells' text ranges tile the frame's text without gap or overlap; then the
  decoder keeps this frame as the base of the next update, and only the images the frame names.
\<close>

theorem accepted_frames_wellformed:
  "case apply_update format_of arc u d of
     (Inl err, d') \<Rightarrow> d' = d
   | (Inr fr, d') \<Rightarrow> frame_wf fr \<and> d_previous d' = Some (u_sequence u, fr)
       \<and> fst ` set (d_images d') \<subseteq> wp_key ` set (w_placements (u_state u))"
proof -
  obtain r d' where r: "apply_update format_of arc u d = (r, d')" by force
  show ?thesis
  proof (cases r)
    case (Inl err)
    with r show ?thesis by (auto dest: apply_update_rejected)
  next
    case (Inr fr)
    with r have accepted: "apply_update format_of arc u d = (Inr fr, d')" by simp
    then have "d' = d\<lparr>d_images := filter (\<lambda>(key, _). key \<in> set (map wp_key (w_placements (u_state u)))) (d_images d),
        d_previous := Some (u_sequence u, fr)\<rparr>"
      by (rule apply_update_Inr)
    with accepted_wf [OF accepted] accepted show ?thesis by auto
  qed
qed

text \<open>
  Row damage is sound for a renderer that caches rows.  When the lineage of a decoded frame
  follows the lineage of the frame before it, the grid has the same size, and every row that is not
  marked dirty has the same cells, the same text and the same wrap flag as before; a full update
  starts a lineage that does not follow, so everything is painted again.
\<close>

lemma damage_sound:
  assumes "apply_update format_of arc u d = (Inr fr, d')" "d_previous d = Some (s, old)"
    and "ln_current (f_lineage old) < arc" "length (f_text fr) < 2 ^ 64"
  shows "if follows_lineage (f_lineage fr) (f_lineage old)
    then f_cols fr = f_cols old \<and> f_rows fr = f_rows old
      \<and> (\<forall>y < f_rows fr. \<not> f_row_dirty fr ! y \<longrightarrow>
           rows_of fr ! y = rows_of old ! y \<and> f_row_wraps fr ! y = f_row_wraps old ! y)
    else is_full (u_rows u)"
  using assms(1)
proof (rule apply_update_Inr)
  fix current cells chars placements
  assume c: "current_rows u d = Inr current" "length current = w_rows (u_state u)"
    "length (w_row_wraps (u_state u)) = w_rows (u_state u)" "fr = assemble_frame arc u d current cells chars placements"
  note rows = accepted_rows [OF assms(1,4)]
  show ?thesis
  proof (cases "is_full (u_rows u)")
    case True
    then have "\<not> follows_lineage (f_lineage fr) (f_lineage old)"
      using assms(2,3) c(4) by (simp add: follows_lineage_def default_lineage_def)
    with True show ?thesis by simp
  next
    case False
    then have size: "f_cols old = w_cols (u_state u)" "f_rows old = w_rows (u_state u)"
      using c(1) assms(2)
      by (auto simp: current_rows_def is_full_def split: frame_rows.splits if_splits)
    have "follows_lineage (f_lineage fr) (f_lineage old)"
      using False assms(2) c(4) by (simp add: follows_lineage_def advance_def)
    moreover have "rows_of fr ! y = rows_of old ! y \<and> f_row_wraps fr ! y = f_row_wraps old ! y"
      if y: "y < f_rows fr" "\<not> f_row_dirty fr ! y" for y
      using y False assms(2) c rows size
      by (auto simp: row_damage_def get_nth_def split: if_splits)
    ultimately show ?thesis
      using size c(4) by simp
  qed
qed

definition tiny_frame :: "(unit, unit, unit) render_frame" where
  "tiny_frame = (default_frame 0)\<lparr>f_cols := 1, f_rows := 1, f_row_wraps := [False], f_text := [65],
     f_cells := [\<lparr>rc_x = 0, rc_y = 0, rc_text_start = 0, rc_text_len = 1, rc_fg = None, rc_bg = None,
       rc_style = \<lparr>bold = True, italic = False, faint = False, blink = False, inverse = False, invisible = False,
         strikethrough = False, overline = False, underline = ()\<rparr>, rc_hyperlink = None\<rparr>]\<rparr>"

definition tiny_delta :: "(unit, unit) frame_update" where
  "tiny_delta =
     \<lparr>u_sequence = 1, u_state = fst (from_frame (\<lambda>_. 0) tiny_frame default_encoder), u_rows = Rows 0 []\<rparr>"

definition tiny_decoder :: "(unit, unit, unit) frame_decoder" where
  "tiny_decoder = \<lparr>d_previous = Some (0, tiny_frame), d_images = []\<rparr>"

lemma tiny_apply:
  "apply_update (\<lambda>_. None) 1 tiny_delta tiny_decoder
     = (Inr (tiny_frame\<lparr>f_lineage := \<lparr>ln_current = 2, ln_previous = Some 0\<rparr>, f_dirty := Dirty_Partial, f_row_dirty := [False]\<rparr>),
        tiny_decoder\<lparr>d_previous := Some (1, tiny_frame\<lparr>f_lineage := \<lparr>ln_current = 2, ln_previous = Some 0\<rparr>,
          f_dirty := Dirty_Partial, f_row_dirty := [False]\<rparr>)\<rparr>)"
  by (simp add: apply_update_def tiny_delta_def tiny_decoder_def tiny_frame_def from_frame_def default_frame_def
      default_images_def default_lineage_def current_rows_def rows_of_def add_cell_def get_nth_def push_cell_def
      cell_text_def sat_add_def empty_row_def checked_add_def assemble_frame_def frame_of_state_def is_full_def
      row_damage_def advance_def Let_def)

text \<open>
  The compact form of a cell loses nothing but its row, which the update carries: with the VT
  library's promise that its underline codes can be read back, reading a written cell gives the cell
  back in row 0, and a wire cell is accepted only with flags of eight bits.
\<close>

lemma wire_cell_roundtrip:
  assumes "\<And>ul. underline_of (underline_code ul) = Inr ul"
  shows "deserialize_cell underline_of (serialize_cell underline_code c) = Inr (c\<lparr>rc_y := 0\<rparr>)
    \<and> (deserialize_cell underline_of wc = Inr x \<longrightarrow> wc_flags wc \<le> 255 \<and> pack_flags (rc_style x) = wc_flags wc)"
proof
  have "\<not> 255 < pack_flags (rc_style c)"
    using pack_flags_byte [of "rc_style c"] by (simp add: not_less)
  then show "deserialize_cell underline_of (serialize_cell underline_code c) = Inr (c\<lparr>rc_y := 0\<rparr>)"
    by (simp add: deserialize_cell_def serialize_cell_def assms masked_bits bit_pack_flags)
  show "deserialize_cell underline_of wc = Inr x \<longrightarrow> wc_flags wc \<le> 255 \<and> pack_flags (rc_style x) = wc_flags wc"
  proof
    assume x: "deserialize_cell underline_of wc = Inr x"
    then have le: "wc_flags wc \<le> 255"
      by (simp add: deserialize_cell_def not_less split: if_splits)
    from x obtain ul where "rc_style x =
        \<lparr>bold = bit (wc_flags wc) 0, italic = bit (wc_flags wc) 1, faint = bit (wc_flags wc) 2,
         blink = bit (wc_flags wc) 3, inverse = bit (wc_flags wc) 4, invisible = bit (wc_flags wc) 5,
         strikethrough = bit (wc_flags wc) 6, overline = bit (wc_flags wc) 7, underline = ul\<rparr>"
      by (fastforce simp: deserialize_cell_def masked_bits split: if_splits sum.splits)
    moreover have "k < 8 \<longleftrightarrow> k = 0 \<or> k = 1 \<or> k = 2 \<or> k = 3 \<or> k = 4 \<or> k = 5 \<or> k = 6 \<or> k = 7" for k :: nat
      by arith
    ultimately have "bit (pack_flags (rc_style x)) k \<longleftrightarrow> k < 8 \<and> bit (wc_flags wc) k" for k
      unfolding bit_pack_flags cell_style.simps by (simp only: cell_style.simps) blast
    with le show "wc_flags wc \<le> 255 \<and> pack_flags (rc_style x) = wc_flags wc"
      by (auto simp: flags_in_byte intro!: bit_eqI)
  qed
qed

end
