(* ===== verification/Frame_Protocol.thy ===== *)
theory Frame_Protocol
  imports Bootty_Prelude
begin

text \<open>
  The framing of \<^verbatim>\<open>crates/bootty-mux/src/native/protocol.rs\<close>: a frame is a big-endian length, a kind
  and a payload; the reader keeps partial frames across short reads, timeouts and interruptions.  A
  byte stream is a list of bytes, and what the socket returns to successive reads is a list of
  read results.
\<close>

section \<open>Frames\<close>

definition MAX_FRAME_BYTES :: nat where "MAX_FRAME_BYTES = 32 * 1024 * 1024"

definition FRAME_UPDATE :: nat where "FRAME_UPDATE = 5"

definition IMAGE_CONTENT :: nat where "IMAGE_CONTENT = 6"

record mux_frame =
  fr_kind :: nat
  fr_bytes :: string

definition frame_length :: "mux_frame \<Rightarrow> nat res" where
  "frame_length f =
     (case checked_add 64 (length (fr_bytes f)) 1 of
        None \<Rightarrow> Inl ''mux frame length overflow''
      | Some n \<Rightarrow>
          if n \<le> MAX_FRAME_BYTES then Inr n
          else Inl (''mux frame exceeds '' @ show_nat MAX_FRAME_BYTES @ '' bytes''))"

definition payload_length :: "nat \<Rightarrow> nat res" where
  "payload_length n =
     (if 1 \<le> n \<and> n \<le> MAX_FRAME_BYTES then Inr (n - 1)
      else Inl (''invalid mux frame length '' @ show_nat n))"

text \<open>\<^verbatim>\<open>u32::to_be_bytes\<close> and \<^verbatim>\<open>u32::from_be_bytes\<close>.\<close>

definition to_be_bytes :: "nat \<Rightarrow> string" where
  "to_be_bytes n = map char_of [n div 2 ^ 24 mod 256, n div 2 ^ 16 mod 256, n div 2 ^ 8 mod 256, n mod 256]"

definition from_be_bytes :: "string \<Rightarrow> nat" where
  "from_be_bytes bs = foldl (\<lambda>n b. 256 * n + of_char b) 0 bs"

definition write_blocking :: "mux_frame \<Rightarrow> string res" where
  "write_blocking f =
     (case frame_length f of
        Inl err \<Rightarrow> Inl err
      | Inr n \<Rightarrow> Inr (to_be_bytes n @ [char_of (fr_kind f)] @ fr_bytes f))"

text \<open>Reading from a stream that holds the given bytes and then ends; \<open>None\<close> is the error of
  \<^verbatim>\<open>read_exact\<close> at the end of the stream.\<close>

definition read_exact :: "nat \<Rightarrow> string \<Rightarrow> (string \<times> string) option" where
  "read_exact n bs = (if n \<le> length bs then Some (take n bs, drop n bs) else None)"

definition read_blocking :: "string \<Rightarrow> (mux_frame \<times> string) res option" where
  "read_blocking bs =
     (case read_exact 4 bs of
        None \<Rightarrow> None
      | Some (header, bs1) \<Rightarrow>
          (case payload_length (from_be_bytes header) of
             Inl err \<Rightarrow> Some (Inl err)
           | Inr n \<Rightarrow>
               (case read_exact 1 bs1 of
                  None \<Rightarrow> None
                | Some (kind, bs2) \<Rightarrow>
                    (case read_exact n bs2 of
                       None \<Rightarrow> None
                     | Some (payload, bs3) \<Rightarrow>
                         Some (Inr (\<lparr>fr_kind = of_char (kind ! 0), fr_bytes = payload\<rparr>, bs3))))))"

section \<open>The buffering reader\<close>

text \<open>What one \<^verbatim>\<open>read\<close> returns: bytes (none at the end of the stream), \<^verbatim>\<open>WouldBlock\<close> or \<^verbatim>\<open>TimedOut\<close>,
  \<^verbatim>\<open>Interrupted\<close>, or another error.\<close>

datatype read_result = ReadBytes string | ReadIdle | ReadInterrupted | ReadFailed string

text \<open>What \<^verbatim>\<open>poll\<close> returns; \<open>Blocked\<close> stands for a read that has not returned yet.\<close>

datatype poll_result = Ready "mux_frame option" | PollError string | Blocked

text \<open>The frame at the front of the buffer, when it is complete, and the buffer without it.\<close>

definition next_frame :: "string \<Rightarrow> (mux_frame \<times> string) option res" where
  "next_frame buffer =
     (if length buffer < 4 then Inr None
      else
        (case payload_length (from_be_bytes (take 4 buffer)) of
           Inl err \<Rightarrow> Inl err
         | Inr payload \<Rightarrow>
             (let n = sat_add 64 payload 5
              in if length buffer < n then Inr None
                 else Inr (Some (\<lparr>fr_kind = of_char (buffer ! 4), fr_bytes = take (n - 5) (drop 5 buffer)\<rparr>,
                                 drop n buffer)))))"

fun poll :: "string \<Rightarrow> read_result list \<Rightarrow> poll_result \<times> string \<times> read_result list" where
  "poll buffer reads =
     (case next_frame buffer of
        Inl err \<Rightarrow> (PollError err, buffer, reads)
      | Inr (Some (f, rest)) \<Rightarrow> (Ready (Some f), rest, reads)
      | Inr None \<Rightarrow>
          (case reads of
             [] \<Rightarrow> (Blocked, buffer, [])
           | ReadBytes bs # reads' \<Rightarrow>
               if bs = [] then (PollError ''native mux stream closed'', buffer, reads')
               else poll (buffer @ bs) reads'
           | ReadIdle # reads' \<Rightarrow> (Ready None, buffer, reads')
           | ReadInterrupted # reads' \<Rightarrow> poll buffer reads'
           | ReadFailed err # reads' \<Rightarrow> (PollError err, buffer, reads')))"

declare poll.simps [simp del]

text \<open>The loop of a client that polls until the stream fails or blocks: the frames it gets, the
  error if there is one, and the buffer left.\<close>

definition read_size :: "read_result \<Rightarrow> nat" where
  "read_size r = (case r of ReadBytes bs \<Rightarrow> Suc (length bs) | _ \<Rightarrow> 1)"

definition waiting :: "string \<Rightarrow> read_result list \<Rightarrow> nat" where
  "waiting buffer reads = length buffer + sum_list (map read_size reads)"

lemma next_frame_shrinks: "next_frame buffer = Inr (Some (f, rest)) \<Longrightarrow> length rest < length buffer"
  by (auto simp: next_frame_def Let_def sat_add_def split: if_splits sum.splits)

lemma poll_shrinks:
  "poll buffer reads = (Ready r, buffer', reads') \<Longrightarrow> waiting buffer' reads' < waiting buffer reads"
proof (induction buffer reads rule: poll.induct)
  case (1 buffer reads)
  note step = "1.prems" [unfolded poll.simps [of buffer reads]]
  show ?case
  proof (cases "next_frame buffer")
    case (Inl err)
    with step show ?thesis by simp
  next
    case (Inr q)
    show ?thesis
    proof (cases q)
      case (Some p)
      with step Inr next_frame_shrinks [of buffer] show ?thesis
        by (cases p) (auto simp: waiting_def)
    next
      case None
      show ?thesis
      proof (cases reads)
        case Nil
        with step Inr None show ?thesis by simp
      next
        case (Cons r' rest)
        note nf = Inr [unfolded None]
        show ?thesis
        proof (cases r')
          case (ReadBytes bs)
          with step nf Cons have "bs \<noteq> []" "poll (buffer @ bs) rest = (Ready r, buffer', reads')"
            by (auto split: if_splits)
          with "1.IH"(1) nf Cons ReadBytes have "waiting buffer' reads' < waiting (buffer @ bs) rest" by blast
          with Cons ReadBytes show ?thesis by (simp add: waiting_def read_size_def)
        next
          case ReadInterrupted
          with step nf Cons have "poll buffer rest = (Ready r, buffer', reads')" by simp
          with "1.IH"(2) nf Cons ReadInterrupted have "waiting buffer' reads' < waiting buffer rest" by blast
          with Cons show ?thesis by (simp add: waiting_def read_size_def)
        qed (use step nf Cons in \<open>auto simp: waiting_def read_size_def\<close>)
      qed
    qed
  qed
qed

function poll_all :: "string \<Rightarrow> read_result list \<Rightarrow> mux_frame list \<times> string option \<times> string" where
  "poll_all buffer reads =
     (case poll buffer reads of
        (Ready q, buffer', reads') \<Rightarrow>
          (case poll_all buffer' reads' of
             (fs, e, left) \<Rightarrow> (case q of None \<Rightarrow> (fs, e, left) | Some f \<Rightarrow> (f # fs, e, left)))
      | (PollError err, buffer', reads') \<Rightarrow> ([], Some err, buffer')
      | (Blocked, buffer', reads') \<Rightarrow> ([], None, buffer'))"
  by pat_completeness auto
termination
  by (relation "measure (\<lambda>(buffer, reads). waiting buffer reads)") (auto dest: poll_shrinks [OF sym])

declare poll_all.simps [simp del]

section \<open>One frame\<close>

lemma length_to_be_bytes [simp]: "length (to_be_bytes n) = 4"
  by (simp add: to_be_bytes_def)

lemma be_bytes_roundtrip: "n < 2 ^ 32 \<Longrightarrow> from_be_bytes (to_be_bytes n) = n"
proof -
  assume "n < 2 ^ 32"
  then have top: "n div 2 ^ 24 mod 256 = n div 2 ^ 24"
    by (simp add: less_mult_imp_div_less)
  have "n div 2 ^ 16 = 256 * (n div 2 ^ 24) + n div 2 ^ 16 mod 256"
    using div_mult2_eq [of n "2 ^ 16" 256] by simp
  moreover have "n div 2 ^ 8 = 256 * (n div 2 ^ 16) + n div 2 ^ 8 mod 256"
    using div_mult2_eq [of n "2 ^ 8" 256] by simp
  moreover have "n = 256 * (n div 2 ^ 8) + n mod 256"
    by simp
  moreover have "n div 2 ^ 24 mod 256 = n div 2 ^ 24"
    by (rule top)
  moreover have "from_be_bytes (to_be_bytes n) =
      256 * (256 * (256 * (n div 2 ^ 24 mod 256) + n div 2 ^ 16 mod 256) + n div 2 ^ 8 mod 256) + n mod 256"
    by (simp add: from_be_bytes_def to_be_bytes_def)
  ultimately show ?thesis by presburger
qed

text \<open>A frame that fits, and its bytes.\<close>

definition sendable :: "mux_frame \<Rightarrow> bool" where
  "sendable f \<longleftrightarrow> fr_kind f < 256 \<and> Suc (length (fr_bytes f)) \<le> MAX_FRAME_BYTES"

definition frame_bytes :: "mux_frame \<Rightarrow> string" where
  "frame_bytes f = to_be_bytes (Suc (length (fr_bytes f))) @ char_of (fr_kind f) # fr_bytes f"

lemma max_frame_small: "MAX_FRAME_BYTES < 2 ^ 32"
  by (simp add: MAX_FRAME_BYTES_def)

lemma write_blocking_sendable: "sendable f \<Longrightarrow> write_blocking f = Inr (frame_bytes f)"
  using max_frame_small
  by (simp add: write_blocking_def frame_length_def checked_add_def sendable_def frame_bytes_def)

lemma written_frame:
  "write_blocking f = Inr bs \<Longrightarrow> fr_kind f < 256 \<Longrightarrow> sendable f \<and> bs = frame_bytes f"
  by (auto simp: write_blocking_def frame_length_def checked_add_def sendable_def frame_bytes_def split: if_splits)

lemma length_frame_bytes [simp]: "length (frame_bytes f) = length (fr_bytes f) + 5"
  by (simp add: frame_bytes_def)

lemma sendable_payload: "sendable f \<Longrightarrow> payload_length (from_be_bytes (take 4 (frame_bytes f))) = Inr (length (fr_bytes f))"
  using max_frame_small by (simp add: frame_bytes_def be_bytes_roundtrip sendable_def payload_length_def)

lemma sendable_total: "sendable f \<Longrightarrow> sat_add 64 (length (fr_bytes f)) 5 = length (fr_bytes f) + 5"
  using max_frame_small by (simp add: sendable_def sat_add_def)

lemma next_frame_complete:
  assumes "sendable f"
  shows "next_frame (frame_bytes f @ rest) = Inr (Some (f, rest))"
proof -
  have "take 4 (frame_bytes f @ rest) = take 4 (frame_bytes f)" by simp
  moreover have "(frame_bytes f @ rest) ! 4 = char_of (fr_kind f)"
    "take (length (fr_bytes f)) (drop 5 (frame_bytes f @ rest)) = fr_bytes f"
    "drop (length (fr_bytes f) + 5) (frame_bytes f @ rest) = rest"
    by (simp_all add: frame_bytes_def nth_append)
  ultimately show ?thesis
    using assms sendable_payload [OF assms] sendable_total [OF assms]
    by (simp add: next_frame_def Let_def sendable_def)
qed

lemma next_frame_partial:
  assumes "sendable f" "frame_bytes f = buffer @ tail" "tail \<noteq> []"
  shows "next_frame buffer = Inr None"
proof (cases "length buffer < 4")
  case True
  then show ?thesis by (simp add: next_frame_def)
next
  case False
  then have "take 4 buffer = take 4 (frame_bytes f)"
    using assms(2) by simp
  moreover have "length buffer < length (fr_bytes f) + 5"
    using assms(2,3) length_frame_bytes [of f] by (simp flip: length_greater_0_conv)
  ultimately show ?thesis
    using False sendable_payload [OF assms(1)] sendable_total [OF assms(1)]
    by (simp add: next_frame_def Let_def)
qed

section \<open>Streams\<close>

definition stream :: "read_result list \<Rightarrow> string" where
  "stream reads = concat (map (\<lambda>r. case r of ReadBytes bs \<Rightarrow> bs | _ \<Rightarrow> []) reads)"

text \<open>Reads of a connection that is alive.\<close>

definition alive :: "read_result list \<Rightarrow> bool" where
  "alive reads \<longleftrightarrow> list_all (\<lambda>r. case r of ReadBytes bs \<Rightarrow> bs \<noteq> [] | ReadFailed _ \<Rightarrow> False | _ \<Rightarrow> True) reads"

lemma stream_simps [simp]:
  "stream [] = []" "stream (ReadBytes bs # reads) = bs @ stream reads"
  "stream (ReadIdle # reads) = stream reads" "stream (ReadInterrupted # reads) = stream reads"
  by (simp_all add: stream_def)

lemma alive_simps [simp]:
  "alive []" "alive (ReadBytes bs # reads) \<longleftrightarrow> bs \<noteq> [] \<and> alive reads"
  "alive (ReadIdle # reads) \<longleftrightarrow> alive reads" "alive (ReadInterrupted # reads) \<longleftrightarrow> alive reads"
  "\<not> alive (ReadFailed err # reads)"
  by (simp_all add: alive_def)

text \<open>One poll of a stream of whole frames.\<close>

definition frames_bytes :: "mux_frame list \<Rightarrow> string" where
  "frames_bytes fs = concat (map frame_bytes fs)"

lemma frames_bytes_simps [simp]:
  "frames_bytes [] = []" "frames_bytes (f # fs) = frame_bytes f @ frames_bytes fs"
  by (simp_all add: frames_bytes_def)

lemma next_frame_Nil: "next_frame [] = Inr None"
  by (simp add: next_frame_def)

lemma next_frame_stream:
  assumes "list_all sendable fs" "buffer @ tail = frames_bytes fs"
  shows "next_frame buffer = Inr None
    \<or> (\<exists>f gs rest. fs = f # gs \<and> next_frame buffer = Inr (Some (f, rest)) \<and> rest @ tail = frames_bytes gs)"
proof (cases fs)
  case Nil
  with assms(2) show ?thesis by (simp add: next_frame_Nil)
next
  case (Cons f gs)
  show ?thesis
  proof (cases "length buffer < length (frame_bytes f)")
    case True
    from assms(2) Cons obtain us where "buffer = frame_bytes f @ us \<or> buffer @ us = frame_bytes f"
      by (auto simp: append_eq_append_conv2)
    with True have "frame_bytes f = buffer @ us" "us \<noteq> []"
      by auto
    with assms(1) Cons show ?thesis by (simp add: next_frame_partial [of f])
  next
    case False
    define rest where "rest = drop (length (frame_bytes f)) buffer"
    have "take (length (frame_bytes f)) (buffer @ tail) = frame_bytes f"
      using assms(2) Cons by simp
    with False have "buffer = frame_bytes f @ rest"
      unfolding rest_def by (metis append_take_drop_id not_less take_all_iff take_append diff_is_0_eq take0 append_Nil2)
    with assms(2) Cons have rest: "buffer = frame_bytes f @ rest" "rest @ tail = frames_bytes gs"
      by simp_all
    have "next_frame buffer = Inr (Some (f, rest))"
      using assms(1) Cons rest(1) next_frame_complete by simp
    with rest(2) Cons show ?thesis by blast
  qed
qed

lemma poll_stream:
  assumes "list_all sendable fs" "alive reads" "buffer @ stream reads = frames_bytes fs"
  shows "case poll buffer reads of
      (Ready q, buffer', reads') \<Rightarrow> alive reads' \<and>
        (case q of
           None \<Rightarrow> buffer' @ stream reads' = frames_bytes fs
         | Some f \<Rightarrow> (\<exists>gs. fs = f # gs \<and> buffer' @ stream reads' = frames_bytes gs))
    | (PollError err, _) \<Rightarrow> False
    | (Blocked, buffer', _) \<Rightarrow> buffer' = frames_bytes fs \<and> next_frame buffer' = Inr None"
  using assms(2,3)
proof (induction buffer reads rule: poll.induct)
  case (1 buffer reads)
  from next_frame_stream [OF assms(1) "1.prems"(2)] show ?case
  proof
    assume nf: "next_frame buffer = Inr None"
    show ?thesis
    proof (cases reads)
      case Nil
      with nf "1.prems" show ?thesis by (simp add: poll.simps [of _ "[]"])
    next
      case (Cons r rest)
      show ?thesis
      proof (cases r)
        case (ReadBytes bs)
        with "1.IH"(1)[OF nf refl Cons ReadBytes] "1.prems" nf Cons show ?thesis
          by (simp add: poll.simps [of buffer])
      next
        case ReadInterrupted
        with "1.IH"(2)[OF nf refl Cons ReadInterrupted] "1.prems" nf Cons show ?thesis
          by (simp add: poll.simps [of buffer])
      qed (use nf "1.prems" Cons in \<open>simp_all add: poll.simps [of buffer]\<close>)
    qed
  next
    assume "\<exists>f gs rest. fs = f # gs \<and> next_frame buffer = Inr (Some (f, rest)) \<and> rest @ stream reads = frames_bytes gs"
    then obtain f gs rest where "fs = f # gs" "next_frame buffer = Inr (Some (f, rest))" "rest @ stream reads = frames_bytes gs"
      by blast
    with "1.prems" show ?thesis by (simp add: poll.simps [of buffer])
  qed
qed

lemma poll_all_stream:
  assumes "list_all sendable fs" "alive reads" "buffer @ stream reads = frames_bytes fs"
  shows "poll_all buffer reads = (fs, None, [])"
  using assms
proof (induction buffer reads arbitrary: fs rule: poll_all.induct)
  case (1 buffer reads)
  obtain r buffer' reads' where p: "poll buffer reads = (r, buffer', reads')"
    by (metis prod.exhaust)
  note step = poll_stream [OF "1.prems", unfolded p, simplified]
  show ?case
  proof (cases r)
    case (Ready q)
    note IH = "1.IH" [OF p [symmetric] Ready refl]
    show ?thesis
    proof (cases q)
      case None
      with step Ready IH [of fs] "1.prems"(1) p show ?thesis by (simp add: poll_all.simps [of buffer])
    next
      case (Some f)
      with step Ready obtain gs where gs: "fs = f # gs" "alive reads'" "buffer' @ stream reads' = frames_bytes gs"
        by auto
      with IH [of gs] "1.prems"(1) Some Ready p show ?thesis by (simp add: poll_all.simps [of buffer])
    qed
  next
    case (PollError err)
    with step show ?thesis by simp
  next
    case Blocked
    with step have left: "buffer' = frames_bytes fs" "next_frame buffer' = Inr None" by auto
    have "fs = []"
    proof (cases fs)
      case (Cons f gs)
      with left "1.prems"(1) next_frame_complete [of f "frames_bytes gs"] show ?thesis by simp
    qed simp
    with Blocked left p show ?thesis by (simp add: poll_all.simps [of buffer])
  qed
qed

section \<open>Bounded buffering\<close>

lemma next_frame_pending:
  assumes "next_frame buffer = Inr None"
  shows "length buffer < MAX_FRAME_BYTES + 4"
proof (cases "length buffer < 4")
  case False
  with assms show ?thesis
    by (auto simp: next_frame_def payload_length_def Let_def sat_add_def MAX_FRAME_BYTES_def split: if_splits sum.splits)
qed simp

lemma poll_buffer:
  assumes "list_all (\<lambda>r. case r of ReadBytes bs \<Rightarrow> length bs \<le> 8192 | _ \<Rightarrow> True) reads"
    and "length buffer < MAX_FRAME_BYTES + 8196"
    and "poll buffer reads = (r, buffer', reads')"
  shows "length buffer' < MAX_FRAME_BYTES + 8196
    \<and> list_all (\<lambda>r. case r of ReadBytes bs \<Rightarrow> length bs \<le> 8192 | _ \<Rightarrow> True) reads'"
  using assms
proof (induction buffer reads rule: poll.induct)
  case (1 buffer reads)
  note step = "1.prems"(3) [unfolded poll.simps [of buffer reads]]
  show ?case
  proof (cases "next_frame buffer")
    case (Inl err)
    with step "1.prems" show ?thesis by auto
  next
    case (Inr q)
    show ?thesis
    proof (cases q)
      case (Some p)
      with step Inr next_frame_shrinks [of buffer "fst p" "snd p"] "1.prems" show ?thesis
        by (cases p) auto
    next
      case None
      note nf = Inr [unfolded None]
      note pending = next_frame_pending [OF nf]
      show ?thesis
      proof (cases reads)
        case Nil
        with step nf "1.prems" show ?thesis by simp
      next
        case (Cons r' rest)
        show ?thesis
        proof (cases r')
          case (ReadBytes bs)
          show ?thesis
          proof (cases "bs = []")
            case False
            with step nf Cons ReadBytes have "poll (buffer @ bs) rest = (r, buffer', reads')" by simp
            with "1.IH"(1)[OF nf refl Cons ReadBytes False] "1.prems"(1) pending Cons ReadBytes show ?thesis by simp
          qed (use step nf Cons ReadBytes "1.prems" in auto)
        next
          case ReadInterrupted
          with step nf Cons have "poll buffer rest = (r, buffer', reads')" by simp
          with "1.IH"(2)[OF nf refl Cons ReadInterrupted] "1.prems" Cons ReadInterrupted show ?thesis by simp
        qed (use step nf Cons "1.prems" in auto)
      qed
    qed
  qed
qed

section \<open>Properties\<close>

text \<open>
  C9.  Framing survives the transport.  Whatever frames a peer writes, however the socket cuts the
  bytes into reads, and however often a read times out or is interrupted in the middle of a header or
  a payload, the polling loop gets exactly the written frames, in order, and its buffer ends empty.
\<close>

theorem frames_survive_transport:
  assumes "list_all (\<lambda>f. fr_kind f < 256) fs" "map write_blocking fs = map Inr parts"
    and "alive reads" "stream reads = concat parts"
  shows "poll_all [] reads = (fs, None, [])"
proof -
  have "list_all sendable fs \<and> parts = map frame_bytes fs"
    using assms(1,2) by (induction fs arbitrary: parts) (auto dest: written_frame)
  with assms(3,4) show ?thesis
    by (intro poll_all_stream) (simp_all add: frames_bytes_def)
qed

theorem frames_survive_transport_witness:
  "poll_all [] [ReadBytes [CHR 0x00, CHR 0x00], ReadIdle, ReadBytes [CHR 0x00, CHR 0x02, CHR 0x05],
      ReadInterrupted, ReadBytes ''x'']
    = ([\<lparr>fr_kind = FRAME_UPDATE, fr_bytes = ''x''\<rparr>], None, [])"
proof (rule frames_survive_transport)
  have "char_of (2 :: nat) = CHR 0x02" "char_of (5 :: nat) = CHR 0x05" "char_of (0 :: nat) = CHR 0x00"
    by (simp_all add: char_of_def bit_iff_odd)
  then show "map write_blocking [\<lparr>fr_kind = FRAME_UPDATE, fr_bytes = ''x''\<rparr>]
      = map Inr [[CHR 0x00, CHR 0x00, CHR 0x00, CHR 0x02, CHR 0x05, CHR ''x'']]"
    by (simp add: FRAME_UPDATE_def MAX_FRAME_BYTES_def write_blocking_def frame_length_def
        checked_add_def to_be_bytes_def numeral_2_eq_2 [symmetric])
qed (simp_all add: FRAME_UPDATE_def)

text \<open>
  A hostile or broken peer cannot make the reader buffer without bound: with socket reads of at
  most 8192 bytes, the buffer holds fewer than 32 MiB and 8196 bytes after every poll, whatever bytes arrive.
\<close>

lemma reader_bounded:
  assumes "list_all (\<lambda>r. case r of ReadBytes bs \<Rightarrow> length bs \<le> 8192 | _ \<Rightarrow> True) reads"
    and "length buffer < MAX_FRAME_BYTES + 8196" "poll buffer reads = (r, buffer', reads')"
  shows "length buffer' < MAX_FRAME_BYTES + 8196"
  using poll_buffer [OF assms] by blast

text \<open>
  The two readers of the protocol agree: on every byte stream, well-formed or not, the blocking
  reader and the buffering reader yield the same frame and the same rest, fail with the same message,
  or both need more bytes.
\<close>

lemma readers_agree:
  "read_blocking bs =
     (case next_frame bs of
        Inl err \<Rightarrow> Some (Inl err)
      | Inr None \<Rightarrow> None
      | Inr (Some p) \<Rightarrow> Some (Inr p))"
proof (cases "payload_length (from_be_bytes (take 4 bs))")
  case (Inl err)
  then show ?thesis by (simp add: read_blocking_def next_frame_def read_exact_def)
next
  case (Inr n)
  then have small: "sat_add 64 n 5 = n + 5"
    by (auto simp: payload_length_def sat_add_def MAX_FRAME_BYTES_def split: if_splits)
  show ?thesis
  proof (cases "n + 5 \<le> length bs")
    case True
    moreover have "drop n (drop (Suc 0) (drop 4 bs)) = drop (n + 5) bs"
      by (simp add: add.commute)
    ultimately show ?thesis
      using Inr small by (simp add: read_blocking_def next_frame_def read_exact_def Let_def) arith
  next
    case False
    then show ?thesis
      using Inr small by (auto simp: read_blocking_def next_frame_def read_exact_def Let_def)
  qed
qed

end
