(* ===== verification/Frame_Link.thy ===== *)
theory Frame_Link
  imports Frame_Wire Frame_Protocol "HOL-Library.Sublist"
begin

text \<open>
  The two ends of a terminal's frame stream: \<^verbatim>\<open>write_frame_update\<close> of \<^verbatim>\<open>native/server.rs\<close> sends what
  the encoder produces, \<^verbatim>\<open>decode_frame\<close> of \<^verbatim>\<open>terminal/native_terminal.rs\<close> feeds the decoder and
  publishes frames to the viewer.  The CBOR library is a parameter: a writer and a reader per message
  type, where the reader also yields the position it stopped at.
\<close>

section \<open>Messages as bytes\<close>

definition encode_message :: "('a \<Rightarrow> string res) \<Rightarrow> 'a \<Rightarrow> wire_error + string" where
  "encode_message into_writer v =
     (case into_writer v of
        Inl message \<Rightarrow> Inl (WE_Codec message)
      | Inr bytes \<Rightarrow> if MAX_MESSAGE_SIZE < length bytes then Inl WE_Size else Inr bytes)"

definition decode_message :: "(string \<Rightarrow> ('a \<times> nat) res) \<Rightarrow> string \<Rightarrow> wire_error + 'a" where
  "decode_message from_reader bytes =
     (if MAX_MESSAGE_SIZE < length bytes then Inl WE_Size
      else
        (case from_reader bytes of
           Inl message \<Rightarrow> Inl (WE_Codec message)
         | Inr (v, position) \<Rightarrow> if position \<noteq> length bytes then Inl InvalidFrame else Inr v))"

section \<open>The server's side\<close>

fun write_contents ::
  "(image_content \<Rightarrow> string res) \<Rightarrow> image_content list \<Rightarrow> (wire_error + unit) \<times> mux_frame list" where
  "write_contents cw [] = (Inr (), [])"
| "write_contents cw (content # contents) =
     (case encode_message cw content of
        Inl err \<Rightarrow> (Inl err, [])
      | Inr bytes \<Rightarrow>
          (case write_contents cw contents of
             (r, ms) \<Rightarrow> (r, \<lparr>fr_kind = IMAGE_CONTENT, fr_bytes = bytes\<rparr> # ms)))"

definition write_frame_update ::
  "(image_content \<Rightarrow> string res) \<Rightarrow> (('u, 'c) frame_update \<Rightarrow> string res) \<Rightarrow> ('f \<Rightarrow> int) \<Rightarrow>
   ('u, 'c, 'f) render_frame \<Rightarrow> ('u, 'c, 'f) frame_encoder \<Rightarrow>
   (wire_error + unit) \<times> mux_frame list \<times> ('u, 'c, 'f) frame_encoder" where
  "write_frame_update cw uw format_code fr e =
     (case encode_changed format_code fr e of
        (None, e1) \<Rightarrow> (Inr (), [], e1)
      | (Some update, e1) \<Rightarrow>
          (case take_image_contents e1 of
             (contents, e2) \<Rightarrow>
               (case write_contents cw contents of
                  (Inl err, ms) \<Rightarrow> (Inl err, ms, e2)
                | (Inr _, ms) \<Rightarrow>
                    (case encode_message uw update of
                       Inl err \<Rightarrow> (Inl err, ms, e2)
                     | Inr bytes \<Rightarrow>
                         (Inr (), ms @ [\<lparr>fr_kind = FRAME_UPDATE, fr_bytes = bytes\<rparr>], e2)))))"

section \<open>The viewer's side\<close>

record ('u, 'c, 'f) published =
  pb_frame :: "('u, 'c, 'f) render_frame"
  pb_connected :: bool
  pb_exited :: bool

datatype viewer_error = ViewerWire wire_error | ViewerIo string

text \<open>The outcome, the decoder, what is published, and whether the viewer is woken; \<open>attach\<close> is the
  outcome of sending the request to attach again, \<open>arc\<close> the next free allocation.\<close>

definition decode_frame ::
  "(string \<Rightarrow> (image_content \<times> nat) res) \<Rightarrow> (string \<Rightarrow> (('u, 'c) frame_update \<times> nat) res) \<Rightarrow>
   (int \<Rightarrow> 'f option) \<Rightarrow> unit res \<Rightarrow> nat \<Rightarrow> mux_frame \<Rightarrow>
   ('u, 'c, 'f) frame_decoder \<Rightarrow> ('u, 'c, 'f) published \<Rightarrow>
   (viewer_error + unit) \<times> ('u, 'c, 'f) frame_decoder \<times> ('u, 'c, 'f) published \<times> bool" where
  "decode_frame cr ur format_of attach arc m d pb =
     (case (if fr_kind m = IMAGE_CONTENT
            then (case decode_message cr (fr_bytes m) of
                    Inl err \<Rightarrow> (Inl err, d)
                  | Inr content \<Rightarrow>
                      (case insert_image content d of (r, d1) \<Rightarrow> (map_sum id (\<lambda>_. None) r, d1)))
            else (case decode_message ur (fr_bytes m) of
                    Inl err \<Rightarrow> (Inl err, d)
                  | Inr update \<Rightarrow>
                      (case apply_update format_of arc update d of (r, d1) \<Rightarrow> (map_sum id Some r, d1)))) of
        (Inr (Some fr), d1) \<Rightarrow>
          (Inr (), d1, pb\<lparr>pb_frame := fr, pb_connected := True\<rparr>,
           \<not> pb_connected pb \<or> \<not> same_presentation (pb_frame pb) fr)
      | (Inr None, d1) \<Rightarrow> (Inr (), d1, pb, False)
      | (Inl err, d1) \<Rightarrow>
          if err = ImageBudget then (Inl (ViewerWire err), d1, pb, False)
          else (map_sum ViewerIo id attach, default_decoder, pb, False))"

text \<open>The viewer handles the messages in order; each decoding may allocate two lineages.\<close>

fun deliver ::
  "(string \<Rightarrow> (image_content \<times> nat) res) \<Rightarrow> (string \<Rightarrow> (('u, 'c) frame_update \<times> nat) res) \<Rightarrow>
   (int \<Rightarrow> 'f option) \<Rightarrow> unit res \<Rightarrow> nat \<Rightarrow> mux_frame list \<Rightarrow>
   ('u, 'c, 'f) frame_decoder \<Rightarrow> ('u, 'c, 'f) published \<Rightarrow>
   (viewer_error + unit) \<times> ('u, 'c, 'f) frame_decoder \<times> ('u, 'c, 'f) published" where
  "deliver cr ur format_of attach arc [] d pb = (Inr (), d, pb)"
| "deliver cr ur format_of attach arc (m # ms) d pb =
     (case decode_frame cr ur format_of attach arc m d pb of
        (Inl err, d1, pb1, _) \<Rightarrow> (Inl err, d1, pb1)
      | (Inr _, d1, pb1, _) \<Rightarrow> deliver cr ur format_of attach (arc + 2) ms d1 pb1)"

section \<open>What the code relies on\<close>

text \<open>An image costs its bytes and its table entry.\<close>

definition image_charge :: "string \<Rightarrow> nat" where
  "image_charge b = length b + IMAGE_ENTRY_BYTES"

definition charges :: "(image_key \<times> string) list \<Rightarrow> nat" where
  "charges xs = sum_list (map (\<lambda>(_, b). image_charge b) xs)"

text \<open>Placements of one image show the same data.\<close>

definition images_consistent :: "'f kitty_image_placement list \<Rightarrow> bool" where
  "images_consistent ps \<longleftrightarrow>
     list_all (\<lambda>p. list_all (\<lambda>q. ki_image_id p = ki_image_id q \<longrightarrow> ki_data p = ki_data q) ps) ps"

text \<open>All images of a frame fit the budget.\<close>

definition images_fit :: "'f kitty_image_placement list \<Rightarrow> bool" where
  "images_fit ps \<longleftrightarrow>
     list_all (\<lambda>p. length (ki_data p) \<le> MAX_IMAGE_CONTENT_BYTES) ps
     \<and> (\<Sum>(_, b) \<in> set (map (\<lambda>p. (ki_image_id p, ki_data p)) ps). image_charge b) \<le> MAX_FRAME_IMAGE_BYTES"

section \<open>Image bookkeeping of the encoder\<close>

text \<open>
  The state of the encoder within a frame of sequence \<open>s\<close>: \<open>data\<close> is the data of each image id,
  \<open>d\<close> the images the decoder has.
\<close>

definition pending_images :: "('u, 'c, 'f) frame_encoder \<Rightarrow> (image_key \<times> string) list" where
  "pending_images e = map (\<lambda>c. (ic_key c, ic_bytes c)) (e_pending e)"

definition image_inv ::
  "(nat \<Rightarrow> string) \<Rightarrow> (image_key \<times> string) list \<Rightarrow> nat \<Rightarrow> ('u, 'c, 'f) frame_encoder \<Rightarrow> bool" where
  "image_inv data d s e \<longleftrightarrow>
     e_sequence e = s \<and> distinct (map fst (e_images e))
     \<and> (\<forall>k \<in> e_frame_images e. length (data (ik_image_id k)) \<le> MAX_IMAGE_CONTENT_BYTES)
     \<and> (\<forall>i k b. map_of (e_images e) i = Some (k, b) \<longrightarrow>
          ik_image_id k = i \<and> (k \<notin> e_frame_images e \<longrightarrow> map_of d k = Some b \<and> ik_generation k < s))
     \<and> (\<forall>k \<in> e_frame_images e.
          map_of (e_images e) (ik_image_id k) = Some (k, data (ik_image_id k))
          \<and> map_of (d @ pending_images e) k = Some (data (ik_image_id k)))
     \<and> distinct (map fst (pending_images e))
     \<and> (\<forall>k \<in> fst ` set (pending_images e). k \<in> e_frame_images e \<and> ik_generation k = s)
     \<and> finite (e_frame_images e)
     \<and> e_frame_image_bytes e = (\<Sum>k \<in> e_frame_images e. image_charge (data (ik_image_id k)))
     \<and> e_frame_image_bytes e \<le> MAX_FRAME_IMAGE_BYTES"

lemma image_charge_no_overflow:
  "n \<le> MAX_IMAGE_CONTENT_BYTES \<Longrightarrow> sat_add 64 n IMAGE_ENTRY_BYTES = n + IMAGE_ENTRY_BYTES"
  by (simp add: sat_add_def MAX_IMAGE_CONTENT_BYTES_def MAX_MESSAGE_SIZE_def IMAGE_CONTENT_ENVELOPE_BYTES_def
      IMAGE_ENTRY_BYTES_def)

lemma frame_bytes_no_overflow:
  "m + n \<le> MAX_FRAME_IMAGE_BYTES \<Longrightarrow> sat_add 64 m n = m + n"
  by (simp add: sat_add_def MAX_FRAME_IMAGE_BYTES_def)

lemma image_inv_known:
  assumes "image_inv data d s e" "map_of (e_images e) i = Some (k, b)"
  shows "ik_image_id k = i" "k \<notin> e_frame_images e \<Longrightarrow> map_of d k = Some b" "k \<notin> e_frame_images e \<Longrightarrow> ik_generation k < s"
  using assms unfolding image_inv_def by blast+

lemma image_inv_shown:
  assumes "image_inv data d s e" "k \<in> e_frame_images e"
  shows "map_of (e_images e) (ik_image_id k) = Some (k, data (ik_image_id k))"
    "map_of (d @ pending_images e) k = Some (data (ik_image_id k))"
  using assms unfolding image_inv_def by blast+

lemma image_inv_add:
  assumes inv: "image_inv data d s e" and fresh: "\<forall>k' \<in> e_frame_images e. ik_image_id k' \<noteq> ik_image_id k"
    and images: "map_of xs = (map_of (e_images e))(ik_image_id k \<mapsto> (k, data (ik_image_id k)))" "distinct (map fst xs)"
    and small: "length (data (ik_image_id k)) \<le> MAX_IMAGE_CONTENT_BYTES"
    and pending: "cs = e_pending e \<and> map_of d k = Some (data (ik_image_id k))
      \<or> cs = e_pending e @ [\<lparr>ic_key = k, ic_bytes = data (ik_image_id k)\<rparr>]
        \<and> map_of d k = None \<and> ik_generation k = s"
    and bytes: "n = e_frame_image_bytes e + image_charge (data (ik_image_id k))" "n \<le> MAX_FRAME_IMAGE_BYTES"
  shows "image_inv data d s
    (e\<lparr>e_images := xs, e_frame_images := insert k (e_frame_images e), e_frame_image_bytes := n, e_pending := cs\<rparr>)"
proof -
  have new: "k \<notin> e_frame_images e" using fresh by auto
  have unsent: "k \<notin> fst ` set (pending_images e)"
    using inv new by (auto simp: image_inv_def)
  then have unsent': "map_of (pending_images e) k = None"
    by (simp add: map_of_eq_None_iff)
  let ?e = "e\<lparr>e_images := xs, e_frame_images := insert k (e_frame_images e), e_frame_image_bytes := n, e_pending := cs\<rparr>"
  have ps: "pending_images ?e = pending_images e \<and> map_of d k = Some (data (ik_image_id k))
      \<or> pending_images ?e = pending_images e @ [(k, data (ik_image_id k))] \<and> map_of d k = None \<and> ik_generation k = s"
    using pending by (auto simp: pending_images_def)
  have sent: "map_of (d @ pending_images ?e) k = Some (data (ik_image_id k))"
    using ps unsent' by (auto simp: map_add_def)
  have old_sent: "map_of (d @ pending_images ?e) k' = map_of (d @ pending_images e) k'" if "k' \<noteq> k" for k'
    using ps that by (auto simp: map_add_def split: option.splits)
  have "distinct (map fst (pending_images ?e))"
    using ps inv unsent by (auto simp: image_inv_def)
  moreover have "\<forall>k' \<in> fst ` set (pending_images ?e). k' \<in> insert k (e_frame_images e) \<and> ik_generation k' = s"
    using ps inv by (auto simp: image_inv_def)
  moreover have "\<forall>k' \<in> insert k (e_frame_images e). map_of xs (ik_image_id k') = Some (k', data (ik_image_id k'))
      \<and> map_of (d @ pending_images ?e) k' = Some (data (ik_image_id k'))"
  proof
    fix k' assume k': "k' \<in> insert k (e_frame_images e)"
    show "map_of xs (ik_image_id k') = Some (k', data (ik_image_id k'))
      \<and> map_of (d @ pending_images ?e) k' = Some (data (ik_image_id k'))"
    proof (cases "k' = k")
      case True
      then show ?thesis using images sent by simp
    next
      case False
      with k' have "k' \<in> e_frame_images e" by simp
      moreover from this fresh have "ik_image_id k' \<noteq> ik_image_id k" by blast
      ultimately show ?thesis
        using image_inv_shown [OF inv] images old_sent [OF False] by simp
    qed
  qed
  moreover have "n = (\<Sum>k' \<in> insert k (e_frame_images e). image_charge (data (ik_image_id k')))"
    using inv bytes new by (simp add: image_inv_def)
  ultimately show ?thesis
    using inv images small bytes(2) by (auto simp: image_inv_def)
qed

lemma image_inv_drop:
  assumes inv: "image_inv data d s e" and fresh: "\<forall>k' \<in> e_frame_images e. ik_image_id k' \<noteq> i"
    and images: "map_of xs = (map_of (e_images e))(i := None)" "distinct (map fst xs)"
  shows "image_inv data d s (e\<lparr>e_images := xs\<rparr>)"
  using inv fresh images by (auto simp: image_inv_def pending_images_def)

text \<open>One placement: a reference to its image, or no room for it.\<close>

definition fits_frame :: "string \<Rightarrow> ('u, 'c, 'f) frame_encoder \<Rightarrow> bool" where
  "fits_frame b e \<longleftrightarrow>
     length b \<le> MAX_IMAGE_CONTENT_BYTES \<and> e_frame_image_bytes e + image_charge b \<le> MAX_FRAME_IMAGE_BYTES"

lemma reference_image_inv:
  assumes inv: "image_inv data d s e" and data: "ki_data p = data (ki_image_id p)"
    and old: "\<forall>k \<in> fst ` set d. ik_generation k < s" and ref: "reference_image p e = (q, e')"
  shows "image_inv data d s e' \<and>
    (case q of
       None \<Rightarrow> e_frame_images e' = e_frame_images e \<and> \<not> fits_frame (ki_data p) e
         \<and> ki_image_id p \<notin> ik_image_id ` e_frame_images e
     | Some k \<Rightarrow> e_frame_images e' = insert k (e_frame_images e) \<and> ik_image_id k = ki_image_id p)"
proof -
  let ?i = "ki_image_id p"
  define key where "key = fst (image_key_for p e)"
  define e1 where "e1 = snd (image_key_for p e)"
  have split: "image_key_for p e = (key, e1)" by (simp add: key_def e1_def)
  have seq: "e_sequence e = s" using inv by (simp add: image_inv_def)
  have known: "map_of (e_images e) ?i = Some (key, ki_data p) \<and> e1 = e
      \<or> key = \<lparr>ik_image_id = ?i, ik_generation = s\<rparr> \<and> (\<forall>k. map_of (e_images e) ?i \<noteq> Some (k, ki_data p))
        \<and> e1 = e\<lparr>e_images := AList.update ?i (key, ki_data p) (e_images e)\<rparr>"
    using seq by (auto simp: key_def e1_def image_key_for_def Let_def split: option.splits)
  have id: "ik_image_id key = ?i"
    using known image_inv_known(1)[OF inv] by auto
  have room: "length (ki_data p) \<le> MAX_IMAGE_CONTENT_BYTES
      \<and> sat_add 64 (length (ki_data p)) IMAGE_ENTRY_BYTES \<le> MAX_FRAME_IMAGE_BYTES - e_frame_image_bytes e
      \<longleftrightarrow> fits_frame (ki_data p) e"
    using inv by (auto simp: fits_frame_def image_charge_def image_charge_no_overflow image_inv_def)
  have same: "e_frame_images e1 = e_frame_images e" "e_frame_image_bytes e1 = e_frame_image_bytes e"
      "e_pending e1 = e_pending e"
    using known by auto
  from known obtain xs where e1: "e1 = e\<lparr>e_images := xs\<rparr>"
    by (metis frame_encoder.unfold_congs(4) frame_encoder.surjective frame_encoder.update_convs(4))
  then have xs: "e_images e1 = xs" by simp
  have "distinct (map fst (e_images e))" using inv by (simp add: image_inv_def)
  then have unique: "distinct (map fst xs)"
    using known xs by (auto simp: distinct_update)
  show ?thesis
  proof (cases "key \<in> e_frame_images e")
    case True
    then have "e1 = e" using known image_inv_shown(1)[OF inv, of key] id data by auto
    with True ref split id inv show ?thesis
      by (auto simp: reference_image_def Let_def insert_absorb)
  next
    case False
    have fresh: "\<forall>k' \<in> e_frame_images e. ik_image_id k' \<noteq> ik_image_id key"
    proof
      fix k' assume k': "k' \<in> e_frame_images e"
      show "ik_image_id k' \<noteq> ik_image_id key"
      proof
        assume "ik_image_id k' = ik_image_id key"
        then have "map_of (e_images e) ?i = Some (k', ki_data p)"
          using image_inv_shown(1)[OF inv k'] id data by simp
        with known k' False show False by auto
      qed
    qed
    show ?thesis
    proof (cases "fits_frame (ki_data p) e")
      case True
      then have bytes: "sat_add 64 (e_frame_image_bytes e) (sat_add 64 (length (ki_data p)) IMAGE_ENTRY_BYTES)
          = e_frame_image_bytes e + image_charge (ki_data p)"
        by (simp add: fits_frame_def image_charge_no_overflow frame_bytes_no_overflow image_charge_def)
      define cs where "cs = (if map_option fst (map_of (e_images e) ?i) \<noteq> Some key
        then e_pending e @ [\<lparr>ic_key = key, ic_bytes = ki_data p\<rparr>] else e_pending e)"
      have "reference_image p e = (Some key, e1\<lparr>e_frame_images := insert key (e_frame_images e),
            e_frame_image_bytes := e_frame_image_bytes e + image_charge (ki_data p), e_pending := cs\<rparr>)"
        using split False True room bytes same by (simp add: reference_image_def Let_def cs_def)
      then have "q = Some key \<and> e' = (e\<lparr>e_images := xs\<rparr>)\<lparr>e_frame_images := insert key (e_frame_images e),
            e_frame_image_bytes := e_frame_image_bytes e + image_charge (ki_data p), e_pending := cs\<rparr>"
        using ref e1 by simp
      then have e': "q = Some key" "e' = e\<lparr>e_images := xs, e_frame_images := insert key (e_frame_images e),
            e_frame_image_bytes := e_frame_image_bytes e + image_charge (ki_data p), e_pending := cs\<rparr>"
        by simp_all
      have pending: "cs = e_pending e \<and> map_of d key = Some (data (ik_image_id key))
          \<or> cs = e_pending e @ [\<lparr>ic_key = key, ic_bytes = data (ik_image_id key)\<rparr>]
            \<and> map_of d key = None \<and> ik_generation key = s"
        using known
      proof
        assume "map_of (e_images e) ?i = Some (key, ki_data p) \<and> e1 = e"
        then show ?thesis using image_inv_known(2)[OF inv, of ?i key "ki_data p"] False data id by (simp add: cs_def)
      next
        assume k: "key = \<lparr>ik_image_id = ?i, ik_generation = s\<rparr> \<and> (\<forall>k. map_of (e_images e) ?i \<noteq> Some (k, ki_data p))
          \<and> e1 = e\<lparr>e_images := AList.update ?i (key, ki_data p) (e_images e)\<rparr>"
        then have "map_option fst (map_of (e_images e) ?i) \<noteq> Some key"
          using image_inv_known(3)[OF inv, of ?i] False by force
        moreover have "map_of d key = None"
          using old k by (force simp: map_of_eq_None_iff)
        ultimately show ?thesis using k data by (simp add: cs_def)
      qed
      have "image_inv data d s e'"
        unfolding e'(2) using True id data known xs
        by (intro image_inv_add [OF inv fresh _ unique _ pending]) (auto simp: fits_frame_def update_conv')
      with e' id show ?thesis by simp
    next
      case no_room: False
      then have "reference_image p e = (None, e1\<lparr>e_images := AList.delete ?i (e_images e1)\<rparr>)"
        using split False room id same by (simp add: reference_image_def Let_def)
      then have "q = None \<and> e' = (e\<lparr>e_images := xs\<rparr>)\<lparr>e_images := AList.delete ?i (e_images e1)\<rparr>"
        using ref e1 by simp
      then have "q = None" "e' = e\<lparr>e_images := AList.delete ?i (e_images e1)\<rparr>"
        by simp_all
      moreover have "distinct (map fst (AList.delete ?i (e_images e1)))"
        using unique xs by (simp add: distinct_delete)
      moreover have "map_of (AList.delete ?i (e_images e1)) = (map_of (e_images e))(?i := None)"
        using known xs by (auto simp: delete_conv' update_conv')
      ultimately show ?thesis
        using no_room fresh id image_inv_drop [OF inv, of ?i] by auto
    qed
  qed
qed

text \<open>All placements of a frame, in order.\<close>

definition used_charge :: "(nat \<Rightarrow> string) \<Rightarrow> nat set \<Rightarrow> nat" where
  "used_charge data ids = (\<Sum>i \<in> ids. image_charge (data i))"

lemma frame_image_ids:
  assumes "image_inv data d s e"
  shows "e_frame_image_bytes e = used_charge data (ik_image_id ` e_frame_images e)"
proof -
  have "inj_on ik_image_id (e_frame_images e)"
  proof (rule inj_onI)
    fix k k' assume k: "k \<in> e_frame_images e" "k' \<in> e_frame_images e" "ik_image_id k = ik_image_id k'"
    have "Some (k, data (ik_image_id k)) = Some (k', data (ik_image_id k'))"
      using image_inv_shown(1)[OF assms k(1)] image_inv_shown(1)[OF assms k(2)] unfolding k(3) by (rule trans [OF sym])
    then show "k = k'" by blast
  qed
  then show ?thesis
    using assms by (simp add: used_charge_def sum.reindex image_inv_def)
qed

lemma fits_when_room:
  assumes "image_inv data d s e" "ik_image_id ` e_frame_images e \<subseteq> ids" "finite ids" "i \<in> ids"
    and "i \<notin> ik_image_id ` e_frame_images e" "used_charge data ids \<le> MAX_FRAME_IMAGE_BYTES"
    and "length (data i) \<le> MAX_IMAGE_CONTENT_BYTES"
  shows "fits_frame (data i) e"
proof -
  have fin: "finite (ik_image_id ` e_frame_images e)"
    using assms(2,3) by (rule finite_subset)
  have "used_charge data (insert i (ik_image_id ` e_frame_images e)) \<le> used_charge data ids"
    unfolding used_charge_def using assms(2-4) by (intro sum_mono2) auto
  moreover have "used_charge data (insert i (ik_image_id ` e_frame_images e))
      = image_charge (data i) + e_frame_image_bytes e"
    using frame_image_ids [OF assms(1)] assms(5) fin by (simp add: used_charge_def)
  ultimately show ?thesis
    using assms(6,7) by (simp add: fits_frame_def)
qed

lemma wire_placements_inv:
  assumes "image_inv data d s e" "\<forall>p \<in> set ps. ki_data p = data (ki_image_id p)"
    and "\<forall>k \<in> fst ` set d. ik_generation k < s" "wire_placements format_code ps e = (ws, e')"
    and "ik_image_id ` e_frame_images e \<subseteq> ids" "finite ids" "ki_image_id ` set ps \<subseteq> ids"
  obtains kps where "image_inv data d s e'"
    "ws = map (\<lambda>(k, p). wire_placement_of format_code k p) kps"
    "subseq (map snd kps) ps" "e_frame_images e' = e_frame_images e \<union> fst ` set kps"
    "\<forall>(k, p) \<in> set kps. ik_image_id k = ki_image_id p \<and> ki_data p = data (ki_image_id p)"
    "used_charge data ids \<le> MAX_FRAME_IMAGE_BYTES \<Longrightarrow>
       (\<forall>p \<in> set ps. length (ki_data p) \<le> MAX_IMAGE_CONTENT_BYTES) \<Longrightarrow> map snd kps = ps"
proof -
  have "\<exists>kps. image_inv data d s e' \<and> ws = map (\<lambda>(k, p). wire_placement_of format_code k p) kps
    \<and> subseq (map snd kps) ps \<and> e_frame_images e' = e_frame_images e \<union> fst ` set kps
    \<and> (\<forall>(k, p) \<in> set kps. ik_image_id k = ki_image_id p \<and> ki_data p = data (ki_image_id p))
    \<and> (used_charge data ids \<le> MAX_FRAME_IMAGE_BYTES \<longrightarrow>
       (\<forall>p \<in> set ps. length (ki_data p) \<le> MAX_IMAGE_CONTENT_BYTES) \<longrightarrow> map snd kps = ps)"
    using assms(1,2,4,5,7)
  proof (induction ps arbitrary: e ws)
    case Nil
    then show ?case by (intro exI [of _ "[]"]) auto
  next
    case (Cons p ps)
    obtain q e1 where q: "reference_image p e = (q, e1)" by force
    obtain ws1 where ws1: "wire_placements format_code ps e1 = (ws1, e')"
      "ws = (case q of None \<Rightarrow> ws1 | Some k \<Rightarrow> wire_placement_of format_code k p # ws1)"
      using Cons.prems(3) q by (auto split: prod.splits option.splits)
    have data: "ki_data p = data (ki_image_id p)" "\<forall>p \<in> set ps. ki_data p = data (ki_image_id p)"
      using Cons.prems(2) by simp_all
    note step = reference_image_inv [OF Cons.prems(1) data(1) assms(3) q]
    have ids: "ik_image_id ` e_frame_images e1 \<subseteq> ids" "ki_image_id ` set ps \<subseteq> ids" "ki_image_id p \<in> ids"
      using step Cons.prems(4,5) by (auto split: option.splits)
    from Cons.IH [OF conjunct1 [OF step] data(2) ws1(1) ids(1,2)] obtain kps where kps:
      "image_inv data d s e'" "ws1 = map (\<lambda>(k, p). wire_placement_of format_code k p) kps"
      "subseq (map snd kps) ps" "e_frame_images e' = e_frame_images e1 \<union> fst ` set kps"
      "\<forall>(k, p) \<in> set kps. ik_image_id k = ki_image_id p \<and> ki_data p = data (ki_image_id p)"
      "used_charge data ids \<le> MAX_FRAME_IMAGE_BYTES \<longrightarrow>
       (\<forall>p \<in> set ps. length (ki_data p) \<le> MAX_IMAGE_CONTENT_BYTES) \<longrightarrow> map snd kps = ps"
      by blast
    show ?case
    proof (cases q)
      case None
      have "\<not> (used_charge data ids \<le> MAX_FRAME_IMAGE_BYTES \<and> length (ki_data p) \<le> MAX_IMAGE_CONTENT_BYTES)"
        using fits_when_room [OF Cons.prems(1,4) assms(6) ids(3)] step None data(1) by auto
      with kps ws1(2) None step show ?thesis by (intro exI [of _ kps]) auto
    next
      case (Some k)
      with kps ws1(2) step data(1) show ?thesis by (intro exI [of _ "(k, p) # kps"]) auto
    qed
  qed
  with that show thesis by blast
qed

section \<open>Delivering images\<close>

lemma charges_simps [simp]:
  "charges [] = 0" "charges (x # xs) = image_charge (snd x) + charges xs" "charges (xs @ ys) = charges xs + charges ys"
  by (auto simp: charges_def split: prod.splits)

lemma charges_retained: "charges (d_images d) = retained_image_bytes d + length (d_images d) * IMAGE_ENTRY_BYTES"
proof -
  have "charges xs = sum_list (map (\<lambda>(_, b). length b) xs) + length xs * IMAGE_ENTRY_BYTES" for xs
    by (induction xs) (auto simp: image_charge_def)
  then show ?thesis by (simp add: retained_image_bytes_def)
qed

lemma charges_filter: "charges (filter P xs) \<le> charges xs"
  by (induction xs) auto

lemma insert_new_image:
  assumes "ic_key c \<notin> fst ` set (d_images d)" "charges (d_images d) + image_charge (ic_bytes c) \<le> MAX_RETAINED_IMAGE_BYTES"
  shows "insert_image c d = (Inr (), d\<lparr>d_images := d_images d @ [(ic_key c, ic_bytes c)]\<rparr>)"
proof -
  have max: "MAX_RETAINED_IMAGE_BYTES < 2 ^ 64"
    by (simp add: MAX_RETAINED_IMAGE_BYTES_def MAX_FRAME_IMAGE_BYTES_def)
  have total: "retained_image_bytes d + length (d_images d) * IMAGE_ENTRY_BYTES
      + (length (ic_bytes c) + IMAGE_ENTRY_BYTES) \<le> MAX_RETAINED_IMAGE_BYTES"
    using assms(2) by (simp add: charges_retained image_charge_def)
  have none: "map_of (d_images d) (ic_key c) = None"
    using assms(1) by (simp add: map_of_eq_None_iff)
  have append: "k \<notin> fst ` set xs \<Longrightarrow> AList.update k v xs = xs @ [(k, v)]" for k :: image_key and v :: string and xs
    by (induction xs) auto
  show ?thesis
    using total max none append [OF assms(1)]
    by (simp add: insert_image_def Let_def sat_mul_def sat_add_def)
qed

section \<open>Two ends in step\<close>

definition prev_synced :: "('u, 'c, 'f) frame_encoder \<Rightarrow> ('u, 'c, 'f) frame_decoder \<Rightarrow> bool" where
  "prev_synced e d \<longleftrightarrow>
     (case e_previous e of
        None \<Rightarrow> True
      | Some (s, cols, rows) \<Rightarrow> s = e_sequence e
          \<and> (\<exists>old. d_previous d = Some (s, old) \<and> f_cols old = cols \<and> rows_of old = rows))"

definition synced :: "('u, 'c, 'f) frame_encoder \<Rightarrow> ('u, 'c, 'f) frame_decoder \<Rightarrow> bool" where
  "synced e d \<longleftrightarrow>
     prev_synced e d \<and> e_pending e = [] \<and> distinct (map fst (e_images e)) \<and> distinct (map fst (d_images d))
     \<and> (\<forall>i k b. map_of (e_images e) i = Some (k, b) \<longrightarrow> ik_image_id k = i \<and> map_of (d_images d) k = Some b)
     \<and> (\<forall>k \<in> fst ` set (d_images d). ik_generation k \<le> e_sequence e)
     \<and> charges (d_images d) \<le> MAX_FRAME_IMAGE_BYTES"

text \<open>The frame shown is the frame sent, but for damage, lineage and images beyond the budget.\<close>

definition presents :: "('u, 'c, 'f) render_frame \<Rightarrow> ('u, 'c, 'f) render_frame \<Rightarrow> bool" where
  "presents shown fr \<longleftrightarrow>
     (\<exists>ps. subseq ps (kf_placements (f_images fr))
        \<and> (images_fit (kf_placements (f_images fr)) \<longrightarrow> ps = kf_placements (f_images fr))
        \<and> shown\<lparr>f_lineage := f_lineage fr, f_dirty := f_dirty fr, f_row_dirty := f_row_dirty fr\<rparr>
          = fr\<lparr>f_images := (f_images fr)\<lparr>kf_placements := ps\<rparr>\<rparr>)"

definition frame_ok :: "('u, 'c, 'f) render_frame \<Rightarrow> bool" where
  "frame_ok fr \<longleftrightarrow>
     frame_wf fr \<and> length (f_text fr) < 2 ^ 64 \<and> images_consistent (kf_placements (f_images fr))
     \<and> list_all (\<lambda>p. ki_image_id p < 2 ^ 32) (kf_placements (f_images fr))"

text \<open>The rows of an update are relative to their row.\<close>

definition clean_update :: "('u, 'c) frame_update \<Rightarrow> bool" where
  "clean_update u \<longleftrightarrow>
     (\<forall>row \<in> set (case u_rows u of Full rows \<Rightarrow> rows | Rows _ changes \<Rightarrow> map snd changes).
        list_all (\<lambda>c. rc_y c = 0) (wr_cells row))"

lemma decoded_placements_map:
  assumes "\<And>x. format_of (format_code x) = Some x"
    and "\<forall>(k, p) \<in> set kps. ik_image_id k = ki_image_id p \<and> map_of (d_images d) k = Some (ki_data p)"
  shows "decoded_placements format_of d (map (\<lambda>(k, p). wire_placement_of format_code k p) kps) = Inr (map snd kps)"
  using assms(2)
proof (induction kps)
  case Nil
  then show ?case by simp
next
  case (Cons kp kps)
  obtain k p where kp: "kp = (k, p)" by (cases kp)
  have "layer_of_code (layer_code (ki_layer p)) = Some (ki_layer p)"
    by (cases "ki_layer p") (simp_all add: layer_of_code_def)
  then have "decoded_placement format_of d (wire_placement_of format_code k p) = Inr p"
    using Cons.prems assms(1) kp by (simp add: decoded_placement_def wire_placement_of_def)
  with Cons kp show ?case by simp
qed

lemma current_rows_encoded:
  assumes "prev_synced e d" "u_sequence u = Suc (e_sequence e)"
    and "u_rows u = rows_update fr (e\<lparr>e_sequence := Suc (e_sequence e)\<rparr>)"
    and "w_cols (u_state u) = f_cols fr" "w_rows (u_state u) = f_rows fr"
  shows "current_rows u d = Inr (rows_of fr)"
proof (cases "e_previous e")
  case None
  with assms show ?thesis by (simp add: current_rows_def rows_update_def)
next
  case (Some prev)
  obtain s cols rows where prev: "prev = (s, cols, rows)" by (cases prev)
  with assms(1) Some obtain old where old: "s = e_sequence e" "d_previous d = Some (s, old)"
    "f_cols old = cols" "rows_of old = rows"
    by (auto simp: prev_synced_def)
  show ?thesis
  proof (cases "cols = f_cols fr \<and> length rows = length (rows_of fr)")
    case True
    then have "u_rows u = Rows s (changed_rows (f_rows fr) rows (rows_of fr))"
      using assms(3) Some prev by (simp add: rows_update_def)
    moreover have "f_rows old = f_rows fr"
      using True old(4) length_rows_of [of old] by simp
    ultimately show ?thesis
      using True old assms(2,4,5) patch_changed_rows [of rows "f_rows fr" "rows_of fr"]
      by (simp add: current_rows_def)
  next
    case False
    with assms(3) Some prev show ?thesis by (auto simp: current_rows_def rows_update_def)
  qed
qed

lemma apply_encoded:
  assumes ok: "frame_wf fr" "length (f_text fr) < 2 ^ 64" and rows: "current_rows u d = Inr (rows_of fr)"
    and state: "u_state u = fst (from_frame format_code fr e)"
    and placements: "decoded_placements format_of d (w_placements (u_state u)) = Inr ps"
  shows "\<exists>fr'. apply_update format_of arc u d
      = (Inr fr', d\<lparr>d_images := filter (\<lambda>(key, _). key \<in> set (map wp_key (w_placements (u_state u)))) (d_images d),
                    d_previous := Some (u_sequence u, fr')\<rparr>)
    \<and> fr'\<lparr>f_lineage := f_lineage fr, f_dirty := f_dirty fr, f_row_dirty := f_row_dirty fr\<rparr>
        = fr\<lparr>f_images := (f_images fr)\<lparr>kf_placements := ps\<rparr>\<rparr>"
proof -
  have w: "w_cols (u_state u) = f_cols fr" "w_rows (u_state u) = f_rows fr" "w_row_wraps (u_state u) = f_row_wraps fr"
    by (simp_all add: state from_frame_def split: prod.splits)
  note laid = rows_of_wf [OF ok]
  have placed: "place_rows (f_cols fr) 0 (rows_of fr) [] [] = Inr (f_cells fr, f_text fr)"
    using laid ok(2) place_rows_complete [of "f_cols fr" "rows_of fr" "[]" 0 "[]"] by simp
  define fr' where "fr' = assemble_frame arc u d (rows_of fr) (f_cells fr) (f_text fr) ps"
  have base: "is_full (u_rows u) \<or> d_previous d \<noteq> None"
    using rows by (auto simp: current_rows_def is_full_def split: frame_rows.splits option.splits)
  have "apply_update format_of arc u d
      = (Inr fr', d\<lparr>d_images := filter (\<lambda>(key, _). key \<in> set (map wp_key (w_placements (u_state u)))) (d_images d),
                    d_previous := Some (u_sequence u, fr')\<rparr>)"
    using w rows placed placements base ok(1)
    by (auto simp: apply_update_def Let_def frame_wf_def fr'_def)
  moreover have "fr'\<lparr>f_lineage := f_lineage fr, f_dirty := f_dirty fr, f_row_dirty := f_row_dirty fr\<rparr>
        = fr\<lparr>f_images := (f_images fr)\<lparr>kf_placements := ps\<rparr>\<rparr>"
    by (intro render_frame.equality)
      (simp_all add: fr'_def assemble_frame_def frame_of_state_def Let_def state from_frame_def split: prod.splits)
  ultimately show ?thesis by blast
qed

section \<open>One update\<close>

lemma map_of_filter_keys: "map_of (filter (\<lambda>(k, _). P k) xs) k = (if P k then map_of xs k else None)"
  by (induction xs) auto

lemma charges_sum:
  assumes "distinct (map fst xs)" "\<forall>(k, b) \<in> set xs. b = g k"
  shows "charges xs = (\<Sum>k \<in> fst ` set xs. image_charge (g k))"
  using assms by (induction xs) auto

lemma charges_bounded:
  assumes inv: "image_inv data d s e" and "distinct (map fst xs)" "fst ` set xs \<subseteq> e_frame_images e"
    and "\<forall>(k, b) \<in> set xs. b = data (ik_image_id k)"
  shows "charges xs \<le> MAX_FRAME_IMAGE_BYTES"
proof -
  have "charges xs = (\<Sum>k \<in> fst ` set xs. image_charge (data (ik_image_id k)))"
    using assms(2,4) by (intro charges_sum) auto
  also have "\<dots> \<le> (\<Sum>k \<in> e_frame_images e. image_charge (data (ik_image_id k)))"
    using inv assms(3) by (intro sum_mono2) (auto simp: image_inv_def)
  finally show ?thesis using inv by (simp add: image_inv_def)
qed

text \<open>The images of a frame, seen from the decoder.\<close>

lemma image_inv_pending:
  assumes inv: "image_inv data d s e" and old: "\<forall>k \<in> fst ` set d. ik_generation k < s" and d: "distinct (map fst d)"
  shows "distinct (map fst (d @ pending_images e))" "charges (pending_images e) \<le> MAX_FRAME_IMAGE_BYTES"
    "\<forall>c \<in> set (e_pending e). length (ic_bytes c) \<le> MAX_IMAGE_CONTENT_BYTES"
    "fst ` set (pending_images e) \<subseteq> e_frame_images e"
proof -
  have keys: "fst ` set (pending_images e) \<subseteq> e_frame_images e" "\<forall>k \<in> fst ` set (pending_images e). ik_generation k = s"
    "distinct (map fst (pending_images e))"
    using inv by (auto simp: image_inv_def)
  have disjoint: "fst ` set d \<inter> fst ` set (pending_images e) = {}"
    using old keys(2) by force
  have data: "b = data (ik_image_id k)" if kb: "(k, b) \<in> set (pending_images e)" for k b
  proof -
    have k: "k \<in> fst ` set (pending_images e)" using kb by force
    then have "k \<notin> fst ` set d" using disjoint by blast
    then have "map_of d k = None" by (simp add: map_of_eq_None_iff)
    moreover have "map_of (pending_images e) k = Some b" using kb keys(3) by simp
    moreover have "map_of (d @ pending_images e) k = Some (data (ik_image_id k))"
      using k keys(1) by (intro image_inv_shown(2)[OF inv]) blast
    ultimately show ?thesis by (simp add: map_add_def)
  qed
  show "distinct (map fst (d @ pending_images e))" using disjoint keys(3) d by auto
  show "charges (pending_images e) \<le> MAX_FRAME_IMAGE_BYTES"
    using data keys by (intro charges_bounded [OF inv]) auto
  show "fst ` set (pending_images e) \<subseteq> e_frame_images e" by (rule keys(1))
  show "\<forall>c \<in> set (e_pending e). length (ic_bytes c) \<le> MAX_IMAGE_CONTENT_BYTES"
  proof
    fix c assume "c \<in> set (e_pending e)"
    then have c: "(ic_key c, ic_bytes c) \<in> set (pending_images e)" by (auto simp: pending_images_def)
    then have "ic_key c \<in> e_frame_images e" using keys(1) by force
    then show "length (ic_bytes c) \<le> MAX_IMAGE_CONTENT_BYTES"
      using inv data [OF c] by (simp add: image_inv_def)
  qed
qed

text \<open>The retained images of both ends agree.\<close>

lemma retained_agree:
  assumes inv: "image_inv data d s e" and old: "\<forall>k \<in> fst ` set d. ik_generation k < s" and d: "distinct (map fst d)"
  defines "xs \<equiv> filter (\<lambda>(k, _). k \<in> e_frame_images e) (d @ pending_images e)"
    and "ys \<equiv> filter (\<lambda>(_, k, _). k \<in> e_frame_images e) (e_images e)"
  shows "distinct (map fst xs)" "distinct (map fst ys)" "charges xs \<le> MAX_FRAME_IMAGE_BYTES"
    "\<forall>k \<in> fst ` set xs. ik_generation k \<le> s"
    "map_of ys i = Some (k, b) \<Longrightarrow> ik_image_id k = i \<and> map_of xs k = Some b"
proof -
  note pending = image_inv_pending [OF inv old d]
  show uxs: "distinct (map fst xs)" unfolding xs_def using pending(1) by (rule distinct_map_filter)
  have ui: "distinct (map fst (e_images e))" using inv by (simp add: image_inv_def)
  then show uys: "distinct (map fst ys)" unfolding ys_def by (rule distinct_map_filter)
  have data: "b = data (ik_image_id k)" if "(k, b) \<in> set xs" for k b
  proof -
    have "(k, b) \<in> set (d @ pending_images e)" "k \<in> e_frame_images e"
      using that by (auto simp: xs_def)
    then show ?thesis
      using image_inv_shown(2)[OF inv, of k] map_of_is_SomeI [OF pending(1), of k b] by simp
  qed
  then show "charges xs \<le> MAX_FRAME_IMAGE_BYTES"
    using uxs by (intro charges_bounded [OF inv]) (auto simp: xs_def)
  show "\<forall>k \<in> fst ` set xs. ik_generation k \<le> s"
    using old inv by (force simp: xs_def image_inv_def)
  assume "map_of ys i = Some (k, b)"
  then have "(i, k, b) \<in> set (e_images e)" "k \<in> e_frame_images e"
    by (auto simp: ys_def dest: map_of_SomeD)
  then have ikb: "map_of (e_images e) i = Some (k, b)" "k \<in> e_frame_images e" using ui by simp_all
  then have "ik_image_id k = i" using image_inv_known(1)[OF inv] by blast
  moreover have "b = data (ik_image_id k)"
    using ikb image_inv_shown(1)[OF inv ikb(2)] calculation by simp
  moreover have "map_of xs k = Some (data (ik_image_id k))"
    unfolding xs_def using ikb(2) image_inv_shown(2)[OF inv ikb(2)] by (simp only: map_of_filter_keys if_True)
  ultimately show "ik_image_id k = i \<and> map_of xs k = Some b" by simp
qed

end
