(* ===== verification/Frame_Stream.thy ===== *)
theory Frame_Stream
  imports Frame_Link
begin

text \<open>
  The frame stream as a whole: a viewer that handles the messages of the server in order shows what
  the server published, update by update, under the documented behaviour of the CBOR and VT
  libraries; and the images a viewer keeps stay within the budget, whatever a server sends.
\<close>

section \<open>What the libraries promise\<close>

definition content_ok :: "image_content \<Rightarrow> bool" where
  "content_ok c \<longleftrightarrow>
     length (ic_bytes c) \<le> MAX_IMAGE_CONTENT_BYTES \<and> ik_image_id (ic_key c) < 2 ^ 32 \<and> ik_generation (ic_key c) < 2 ^ 64"

text \<open>
  The envelope of an image message has room for the key (\<^verbatim>\<open>IMAGE_CONTENT_ENVELOPE_BYTES\<close>), messages
  can be read back, and a format code can be read back.
\<close>

definition codec_laws ::
  "(image_content \<Rightarrow> string res) \<Rightarrow> (string \<Rightarrow> (image_content \<times> nat) res) \<Rightarrow>
   (('u, 'c) frame_update \<Rightarrow> string res) \<Rightarrow> (string \<Rightarrow> (('u, 'c) frame_update \<times> nat) res) \<Rightarrow>
   ('f \<Rightarrow> int) \<Rightarrow> (int \<Rightarrow> 'f option) \<Rightarrow> bool" where
  "codec_laws cw cr uw ur format_code format_of \<longleftrightarrow>
     (\<forall>v. content_ok v \<longrightarrow> (\<exists>b. cw v = Inr b \<and> length b \<le> length (ic_bytes v) + IMAGE_CONTENT_ENVELOPE_BYTES
        \<and> cr b = Inr (v, length b)))
     \<and> (\<forall>v b. clean_update v \<longrightarrow> uw v = Inr b \<longrightarrow> ur b = Inr (v, length b))
     \<and> (\<forall>x. format_of (format_code x) = Some x)"

section \<open>Encoding one frame\<close>

lemma clean_rows_update:
  assumes "frame_wf fr" "length (f_text fr) < 2 ^ 64" "u_rows u = rows_update fr e"
  shows "clean_update u"
proof -
  have "list_all (row_ok (f_cols fr)) (rows_of fr)"
    using rows_of_wf [OF assms(1,2)] by blast
  then have clean: "row \<in> set (rows_of fr) \<Longrightarrow> list_all (\<lambda>c. rc_y c = 0) (wr_cells row)" for row
    by (auto simp: list_all_iff row_ok_def)
  have changed: "set (map snd (changed_rows n previous rows)) \<subseteq> set rows" for n and previous rows :: "'a wire_row list"
    by (auto simp: changed_rows_def dest: set_zip_rightD)
  have "set (case u_rows u of Full rows \<Rightarrow> rows | Rows _ changes \<Rightarrow> map snd changes) \<subseteq> set (rows_of fr)"
    unfolding assms(3) rows_update_def using changed by (auto split: option.splits)
  with clean show ?thesis
    unfolding clean_update_def by blast
qed

lemma image_inv_start:
  assumes "synced e d" "s = Suc (e_sequence e)"
  shows "image_inv data (d_images d) s (e\<lparr>e_sequence := s, e_frame_image_bytes := 0, e_frame_images := {}\<rparr>)"
proof -
  have "ik_generation k < s" if "map_of (e_images e) i = Some (k, b)" for i k b
  proof -
    have "k \<in> fst ` set (d_images d)"
      using that assms(1) unfolding synced_def by (metis domI dom_map_of_conv_image_fst)
    then show ?thesis using assms by (force simp: synced_def)
  qed
  with assms show ?thesis
    unfolding image_inv_def synced_def pending_images_def by auto
qed

lemma image_data:
  assumes "images_consistent ps"
  obtains data where "\<forall>p \<in> set ps. ki_data p = data (ki_image_id p)"
proof
  let ?data = "\<lambda>i. case find (\<lambda>q. ki_image_id q = i) ps of None \<Rightarrow> [] | Some q \<Rightarrow> ki_data q"
  show "\<forall>p \<in> set ps. ki_data p = ?data (ki_image_id p)"
  proof
    fix p assume p: "p \<in> set ps"
    then obtain q where q: "find (\<lambda>q. ki_image_id q = ki_image_id p) ps = Some q"
      by (cases "find (\<lambda>q. ki_image_id q = ki_image_id p) ps") (auto simp: find_None_iff)
    have "ki_data p = ki_data q"
      using assms p find_SomeD [OF q] unfolding images_consistent_def list_all_iff by metis
    then show "ki_data p = ?data (ki_image_id p)" unfolding q by simp
  qed
qed

lemma fit_charge:
  assumes "images_fit ps" "\<forall>p \<in> set ps. ki_data p = data (ki_image_id p)"
  shows "used_charge data (ki_image_id ` set ps) \<le> MAX_FRAME_IMAGE_BYTES"
proof -
  have "(\<lambda>p. (ki_image_id p, ki_data p)) ` set ps = (\<lambda>i. (i, data i)) ` ki_image_id ` set ps"
    using assms(2) by (auto simp: image_image)
  moreover have "(\<Sum>(_, b) \<in> (\<lambda>i. (i, data i)) ` ids. image_charge b) = used_charge data ids" for ids
    unfolding used_charge_def by (subst sum.reindex) (auto simp: inj_on_def)
  ultimately show ?thesis using assms(1) by (simp add: images_fit_def)
qed

text \<open>The frame of an update, the images to send with it, and the two ends after it.\<close>

lemma encode_step:
  assumes sync: "synced e d" and ok: "frame_ok fr" and seq: "Suc (e_sequence e) < 2 ^ 64"
    and law: "\<And>x. format_of (format_code x) = Some x" and enc: "encode format_code fr e = (u, e')"
  defines "d1 \<equiv> d\<lparr>d_images := d_images d @ pending_images e'\<rparr>"
  shows "distinct (map fst (d_images d1)) \<and> charges (pending_images e') \<le> MAX_FRAME_IMAGE_BYTES
    \<and> list_all content_ok (e_pending e') \<and> clean_update u
    \<and> (\<exists>fr' d2. apply_update format_of arc u d1 = (Inr fr', d2) \<and> presents fr' fr
        \<and> synced (e'\<lparr>e_pending := []\<rparr>) d2)
    \<and> e_sequence e' = Suc (e_sequence e)"
proof -
  define s where "s = Suc (e_sequence e)"
  define e2 where "e2 = e\<lparr>e_sequence := s, e_frame_image_bytes := 0, e_frame_images := {}\<rparr>"
  define ps where "ps = kf_placements (f_images fr)"
  note wf = ok[unfolded frame_ok_def]
  from wf obtain data where data: "\<forall>p \<in> set ps. ki_data p = data (ki_image_id p)"
    unfolding ps_def by (metis image_data)
  have old: "\<forall>k \<in> fst ` set (d_images d). ik_generation k < s" "distinct (map fst (d_images d))"
    using sync by (force simp: synced_def s_def)+
  obtain ws e3 where ws: "wire_placements format_code ps e2 = (ws, e3)" by force
  have inv2: "image_inv data (d_images d) s e2"
    using image_inv_start [OF sync s_def] by (simp add: e2_def)
  obtain kps where kps: "image_inv data (d_images d) s e3"
    "ws = map (\<lambda>(k, p). wire_placement_of format_code k p) kps" "subseq (map snd kps) ps"
    "e_frame_images e3 = e_frame_images e2 \<union> fst ` set kps"
    "\<forall>(k, p) \<in> set kps. ik_image_id k = ki_image_id p \<and> ki_data p = data (ki_image_id p)"
    "used_charge data (ki_image_id ` set ps) \<le> MAX_FRAME_IMAGE_BYTES \<Longrightarrow>
       (\<forall>p \<in> set ps. length (ki_data p) \<le> MAX_IMAGE_CONTENT_BYTES) \<Longrightarrow> map snd kps = ps"
    by (rule wire_placements_inv [OF inv2 data old(1) ws, of "ki_image_id ` set ps"]) (auto simp: e2_def)
  have keys: "wp_key ` set ws = e_frame_images e3"
    using kps(2,4) by (force simp: e2_def wire_placement_of_def image_image)
  note pending = image_inv_pending [OF kps(1) old]
  have state: "from_frame format_code fr e2 = (fst (from_frame format_code fr e2), e3)"
    "w_placements (fst (from_frame format_code fr e2)) = ws"
    using ws by (simp_all add: from_frame_def ps_def)
  have all_pending: "filter (\<lambda>content. ic_key content \<in> e_frame_images e3) (e_pending e3) = e_pending e3"
    using pending(4) by (force simp: filter_id_conv pending_images_def)
  have e1: "e\<lparr>e_sequence := s, e_frame_image_bytes := 0, e_frame_images := {}\<rparr> = e2"
    by (simp add: e2_def)
  have u: "u_sequence u = s" "u_state u = fst (from_frame format_code fr e2)" "u_rows u = rows_update fr (e\<lparr>e_sequence := s\<rparr>)"
    and e': "e' = e3\<lparr>e_images := filter (\<lambda>(_, k, _). k \<in> e_frame_images e3) (e_images e3),
      e_previous := Some (s, f_cols fr, rows_of fr)\<rparr>"
  proof -
    have seq3: "e_sequence e3 = s" using kps(1) by (simp add: image_inv_def)
    have "(e_sequence e + 1) mod 2 ^ 64 = s" using seq by (simp add: s_def)
    then have "(u, e') = (\<lparr>u_sequence = s, u_state = fst (from_frame format_code fr e2), u_rows = rows_update fr (e\<lparr>e_sequence := s\<rparr>)\<rparr>,
        e3\<lparr>e_images := filter (\<lambda>(_, k, _). k \<in> e_frame_images e3) (e_images e3),
          e_pending := e_pending e3, e_previous := Some (s, f_cols fr, rows_of fr)\<rparr>)"
      using enc state keys seq3 all_pending
      unfolding encode_def Let_def by (simp add: e1 split: prod.splits)
    then show "u_sequence u = s" "u_state u = fst (from_frame format_code fr e2)" "u_rows u = rows_update fr (e\<lparr>e_sequence := s\<rparr>)"
      "e' = e3\<lparr>e_images := filter (\<lambda>(_, k, _). k \<in> e_frame_images e3) (e_images e3),
      e_previous := Some (s, f_cols fr, rows_of fr)\<rparr>"
      by simp_all
  qed
  have pending': "pending_images e' = pending_images e3" "e_pending e' = e_pending e3"
    by (simp_all add: e' pending_images_def)
  have shown: "\<forall>(k, p) \<in> set kps. ik_image_id k = ki_image_id p \<and> map_of (d_images d1) k = Some (ki_data p)"
  proof (clarify, intro conjI)
    fix k p assume kp: "(k, p) \<in> set kps"
    with kps(5) have id: "ik_image_id k = ki_image_id p" "ki_data p = data (ki_image_id p)" by auto
    from kp kps(4) have "k \<in> e_frame_images e3" by force
    from image_inv_shown(2)[OF kps(1) this] show "map_of (d_images d1) k = Some (ki_data p)"
      by (simp add: d1_def pending'(1) id)
    show "ik_image_id k = ki_image_id p" by (rule id(1))
  qed
  have placed: "decoded_placements format_of d1 (w_placements (u_state u)) = Inr (map snd kps)"
    using decoded_placements_map [OF law shown] by (simp add: u(2) state(2) kps(2))
  have rows: "current_rows u d1 = Inr (rows_of fr)"
  proof (rule current_rows_encoded)
    have same: "d_previous d1 = d_previous d" by (simp add: d1_def)
    have "prev_synced e d" using sync by (simp add: synced_def)
    then show "prev_synced e d1" unfolding prev_synced_def same .
    show "w_cols (u_state u) = f_cols fr" "w_rows (u_state u) = f_rows fr"
      by (simp_all add: u(2) from_frame_def split: prod.splits)
  qed (use u in \<open>simp_all add: s_def\<close>)
  obtain fr' where fr': "apply_update format_of arc u d1 = (Inr fr', d1\<lparr>d_images := filter (\<lambda>(key, _). key \<in> set (map wp_key (w_placements (u_state u)))) (d_images d1),
      d_previous := Some (u_sequence u, fr')\<rparr>)"
    "fr'\<lparr>f_lineage := f_lineage fr, f_dirty := f_dirty fr, f_row_dirty := f_row_dirty fr\<rparr>
        = fr\<lparr>f_images := (f_images fr)\<lparr>kf_placements := map snd kps\<rparr>\<rparr>"
    using apply_encoded [OF _ _ rows u(2) placed, of arc] wf by blast
  have "presents fr' fr"
    unfolding presents_def using fr'(2) kps(3,6) fit_charge [OF _ data]
    by (intro exI [of _ "map snd kps"]) (auto simp: ps_def images_fit_def list_all_iff)
  moreover have "synced (e'\<lparr>e_pending := []\<rparr>) (d1\<lparr>d_images := filter (\<lambda>(key, _). key \<in> set (map wp_key (w_placements (u_state u)))) (d_images d1),
      d_previous := Some (u_sequence u, fr')\<rparr>)"
  proof -
    have same: "f_cols fr' = f_cols fr" "f_rows fr' = f_rows fr" "f_cells fr' = f_cells fr" "f_text fr' = f_text fr"
      using arg_cong [OF fr'(2), of f_cols] arg_cong [OF fr'(2), of f_rows] arg_cong [OF fr'(2), of f_cells]
        arg_cong [OF fr'(2), of f_text] by simp_all
    have prev: "rows_of fr' = rows_of fr" using same(2-4) by (rule rows_of_cong)
    have keys': "set (map wp_key (w_placements (u_state u))) = e_frame_images e3"
      using keys by (simp add: u(2) state(2))
    have "e_sequence e3 = s" using kps(1) by (simp add: image_inv_def)
    with same(1) prev u(1) show ?thesis
      unfolding synced_def prev_synced_def keys' using retained_agree [OF kps(1) old]
      by (simp add: e' d1_def pending'(1)[unfolded e']) blast
  qed
  moreover have "list_all content_ok (e_pending e3)"
    unfolding list_all_iff
  proof
    fix c assume c: "c \<in> set (e_pending e3)"
    then have "ic_key c \<in> fst ` set (pending_images e3)" by (force simp: pending_images_def)
    then have key: "ic_key c \<in> e_frame_images e3" "ik_generation (ic_key c) = s"
      using kps(1) by (auto simp: image_inv_def)
    then obtain p where p: "(ic_key c, p) \<in> set kps" using kps(4) by (auto simp: e2_def)
    then have "p \<in> set ps"
      using list_emb_set [OF kps(3), of p] by force
    moreover have "ik_image_id (ic_key c) = ki_image_id p" using p kps(5) by auto
    ultimately show "content_ok c"
      using wf c pending(3) key(2) seq by (auto simp: content_ok_def ps_def list_all_iff s_def)
  qed
  moreover have "clean_update u"
    using clean_rows_update [OF _ _ u(3)] wf by blast
  moreover have "e_sequence e' = Suc (e_sequence e)"
    using kps(1) by (simp add: e' image_inv_def s_def)
  ultimately show ?thesis
    using fr'(1) pending by (simp add: d1_def pending')
qed

section \<open>Delivery\<close>

lemma message_roundtrip:
  assumes "encode_message into_writer v = Inr b" "\<And>b. into_writer v = Inr b \<Longrightarrow> from_reader b = Inr (v, length b)"
  shows "decode_message from_reader b = Inr v"
  using assms by (auto simp: encode_message_def decode_message_def split: sum.splits if_splits)

lemma content_encodes:
  assumes laws: "codec_laws cw cr uw ur format_code format_of" and ok: "content_ok c"
  obtains b where "encode_message cw c = Inr b" "decode_message cr b = Inr c"
proof -
  from laws ok obtain b where b: "cw c = Inr b" "length b \<le> length (ic_bytes c) + IMAGE_CONTENT_ENVELOPE_BYTES"
    "cr b = Inr (c, length b)"
    unfolding codec_laws_def by blast
  have "length b \<le> MAX_MESSAGE_SIZE"
    using b(2) ok by (simp add: content_ok_def MAX_IMAGE_CONTENT_BYTES_def IMAGE_CONTENT_ENVELOPE_BYTES_def MAX_MESSAGE_SIZE_def)
  with b have "encode_message cw c = Inr b" "decode_message cr b = Inr c"
    by (simp_all add: encode_message_def decode_message_def)
  with that show thesis by blast
qed

lemma deliver_append:
  assumes "deliver cr ur format_of attach arc ms d pb = (Inr (), d1, pb1)"
  shows "deliver cr ur format_of attach arc (ms @ ns) d pb
    = deliver cr ur format_of attach (arc + 2 * length ms) ns d1 pb1"
  using assms
proof (induction ms arbitrary: arc d pb)
  case Nil
  then show ?case by simp
next
  case (Cons m ms)
  obtain r d2 pb2 w where m: "decode_frame cr ur format_of attach arc m d pb = (r, d2, pb2, w)"
    by (metis prod.exhaust)
  with Cons.prems have "r = Inr ()" "deliver cr ur format_of attach (arc + 2) ms d2 pb2 = (Inr (), d1, pb1)"
    by (auto split: sum.splits)
  with Cons.IH [of "arc + 2" d2 pb2] m show ?case by simp
qed

lemma deliver_contents:
  assumes laws: "codec_laws cw cr uw ur format_code format_of"
    and "list_all content_ok cs"
    and "distinct (map fst (d_images d @ map (\<lambda>c. (ic_key c, ic_bytes c)) cs))"
    and "charges (d_images d) + charges (map (\<lambda>c. (ic_key c, ic_bytes c)) cs) \<le> MAX_RETAINED_IMAGE_BYTES"
  shows "\<exists>ms. write_contents cw cs = (Inr (), ms)
    \<and> deliver cr ur format_of attach arc ms d pb
      = (Inr (), d\<lparr>d_images := d_images d @ map (\<lambda>c. (ic_key c, ic_bytes c)) cs\<rparr>, pb)"
  using assms(2-4)
proof (induction cs arbitrary: d arc)
  case Nil
  then show ?case by simp
next
  case (Cons c cs)
  from Cons.prems(1) obtain b where b: "encode_message cw c = Inr b" "decode_message cr b = Inr c"
    by (auto elim: content_encodes [OF laws])
  define d1 where "d1 = d\<lparr>d_images := d_images d @ [(ic_key c, ic_bytes c)]\<rparr>"
  have "insert_image c d = (Inr (), d1)"
    unfolding d1_def using Cons.prems by (intro insert_new_image) auto
  then have step: "decode_frame cr ur format_of attach arc \<lparr>fr_kind = IMAGE_CONTENT, fr_bytes = b\<rparr> d pb = (Inr (), d1, pb, False)"
    using b(2) by (simp add: decode_frame_def)
  have "\<exists>ms. write_contents cw cs = (Inr (), ms)
    \<and> deliver cr ur format_of attach (arc + 2) ms d1 pb
      = (Inr (), d1\<lparr>d_images := d_images d1 @ map (\<lambda>c. (ic_key c, ic_bytes c)) cs\<rparr>, pb)"
    using Cons.prems by (intro Cons.IH) (auto simp: d1_def)
  then obtain ms where ms: "write_contents cw cs = (Inr (), ms)" "deliver cr ur format_of attach (arc + 2) ms d1 pb
      = (Inr (), d1\<lparr>d_images := d_images d1 @ map (\<lambda>c. (ic_key c, ic_bytes c)) cs\<rparr>, pb)"
    by blast
  have d1: "d1\<lparr>d_images := d_images d1 @ map (\<lambda>c. (ic_key c, ic_bytes c)) cs\<rparr>
      = d\<lparr>d_images := d_images d @ map (\<lambda>c. (ic_key c, ic_bytes c)) (c # cs)\<rparr>"
    by (simp add: d1_def)
  show ?case
    using b(1) step ms by (intro exI [of _ "\<lparr>fr_kind = IMAGE_CONTENT, fr_bytes = b\<rparr> # ms"]) (simp add: d1)
qed

section \<open>The viewer follows the server\<close>

definition link_ok ::
  "('u, 'c, 'f) frame_encoder \<Rightarrow> ('u, 'c, 'f) frame_decoder \<Rightarrow> ('u, 'c, 'f) published \<Rightarrow> bool" where
  "link_ok e d pb \<longleftrightarrow>
     synced e d \<and> (case e_published e of None \<Rightarrow> True | Some old \<Rightarrow> presents (pb_frame pb) old)"

lemma synced_published [simp]: "synced (e\<lparr>e_published := q\<rparr>) d = synced e d"
  by (simp add: synced_def prev_synced_def split: option.splits)

lemma publish_step:
  assumes laws: "codec_laws cw cr uw ur format_code format_of" and link: "link_ok e d pb"
    and ok: "frame_ok fr" and seq: "Suc (e_sequence e) < 2 ^ 64"
  shows "case write_frame_update cw uw format_code fr e of
      (Inl err, ms, e') \<Rightarrow> \<exists>u e1. encode_changed format_code fr e = (Some u, e1) \<and> encode_message uw u = Inl err
    | (Inr _, ms, e') \<Rightarrow> (\<exists>d' pb'. deliver cr ur format_of attach arc ms d pb = (Inr (), d', pb') \<and> link_ok e' d' pb'
        \<and> (\<exists>old. e_published e' = Some old \<and> (old = fr \<or> same_presentation old fr))
        \<and> e_sequence e' \<le> Suc (e_sequence e))"
proof (cases "\<exists>old. e_published e = Some old \<and> same_presentation old fr")
  case True
  then obtain old where old: "e_published e = Some old" "same_presentation old fr" by blast
  then have "write_frame_update cw uw format_code fr e = (Inr (), [], e)"
    by (simp add: write_frame_update_def encode_changed_def)
  then show ?thesis using link old by simp
next
  case False
  obtain u e1 where enc: "encode format_code fr e = (u, e1)" by force
  have changed: "encode_changed format_code fr e = (Some u, e1\<lparr>e_published := Some fr\<rparr>)"
    using False enc by (auto simp: encode_changed_def split: option.splits)
  have format_law: "format_of (format_code x) = Some x" for x using laws by (simp add: codec_laws_def)
  define d1 where "d1 = d\<lparr>d_images := d_images d @ pending_images e1\<rparr>"
  have sync: "synced e d" using link by (simp add: link_ok_def)
  note step = encode_step [OF sync ok seq format_law enc, folded d1_def]
  have "charges (d_images d) \<le> MAX_FRAME_IMAGE_BYTES" using sync by (simp add: synced_def)
  with step [of arc] have "charges (d_images d) + charges (pending_images e1) \<le> MAX_RETAINED_IMAGE_BYTES"
    by (simp add: MAX_RETAINED_IMAGE_BYTES_def)
  moreover have "distinct (map fst (d_images d @ pending_images e1))"
    "list_all content_ok (e_pending e1)"
    using step [of arc] by (simp_all add: d1_def)
  ultimately have "\<exists>ms. write_contents cw (e_pending e1) = (Inr (), ms)
      \<and> deliver cr ur format_of attach arc ms d pb = (Inr (), d1, pb)"
    unfolding d1_def pending_images_def by (intro deliver_contents [OF laws])
  then obtain ms where ms: "write_contents cw (e_pending e1) = (Inr (), ms)"
    "deliver cr ur format_of attach arc ms d pb = (Inr (), d1, pb)"
    by blast
  let ?arc = "arc + 2 * length ms"
  from step [of ?arc] obtain fr' d2 where fr': "apply_update format_of ?arc u d1 = (Inr fr', d2)" "presents fr' fr"
    "synced (e1\<lparr>e_pending := []\<rparr>) d2" "clean_update u" "e_sequence e1 = Suc (e_sequence e)"
    by auto
  show ?thesis
  proof (cases "encode_message uw u")
    case (Inl err)
    then show ?thesis
      using changed ms(1) by (auto simp: write_frame_update_def take_image_contents_def)
  next
    case (Inr b)
    have "decode_message ur b = Inr u"
      using Inr laws fr'(4) by (intro message_roundtrip [where into_writer = uw]) (simp_all add: codec_laws_def)
    then have "decode_frame cr ur format_of attach ?arc \<lparr>fr_kind = FRAME_UPDATE, fr_bytes = b\<rparr> d1 pb
        = (Inr (), d2, pb\<lparr>pb_frame := fr', pb_connected := True\<rparr>,
           \<not> pb_connected pb \<or> \<not> same_presentation (pb_frame pb) fr')"
      using fr'(1) by (simp add: decode_frame_def FRAME_UPDATE_def IMAGE_CONTENT_def)
    then have "deliver cr ur format_of attach arc (ms @ [\<lparr>fr_kind = FRAME_UPDATE, fr_bytes = b\<rparr>]) d pb
        = (Inr (), d2, pb\<lparr>pb_frame := fr', pb_connected := True\<rparr>)"
      by (simp add: deliver_append [OF ms(2)])
    moreover have "link_ok (e1\<lparr>e_published := Some fr, e_pending := []\<rparr>) d2 (pb\<lparr>pb_frame := fr', pb_connected := True\<rparr>)"
    proof -
      have "e1\<lparr>e_published := Some fr, e_pending := []\<rparr> = (e1\<lparr>e_pending := []\<rparr>)\<lparr>e_published := Some fr\<rparr>" by simp
      then show ?thesis using fr'(2,3) by (simp only: link_ok_def synced_published) simp
    qed
    ultimately show ?thesis
      using changed ms(1) Inr fr'(5) by (simp add: write_frame_update_def take_image_contents_def)
  qed
qed

text \<open>
  A connection: the server publishes frames one after another, the viewer handles each batch.  It ends with the
  frame and the encoder at which the server could not write, with the viewer's refusal, or after the last frame.
\<close>

datatype ('u, 'c, 'f) connection_end =
    Write_Failed "('u, 'c, 'f) render_frame" "('u, 'c, 'f) frame_encoder" wire_error
  | Refused viewer_error
  | Shown "('u, 'c, 'f) frame_encoder" "('u, 'c, 'f) frame_decoder" "('u, 'c, 'f) published"

fun publish_all ::
  "(image_content \<Rightarrow> string res) \<Rightarrow> (string \<Rightarrow> (image_content \<times> nat) res) \<Rightarrow>
   (('u, 'c) frame_update \<Rightarrow> string res) \<Rightarrow> (string \<Rightarrow> (('u, 'c) frame_update \<times> nat) res) \<Rightarrow>
   ('f \<Rightarrow> int) \<Rightarrow> (int \<Rightarrow> 'f option) \<Rightarrow> unit res \<Rightarrow> nat \<Rightarrow> ('u, 'c, 'f) render_frame list \<Rightarrow>
   ('u, 'c, 'f) frame_encoder \<Rightarrow> ('u, 'c, 'f) frame_decoder \<Rightarrow> ('u, 'c, 'f) published \<Rightarrow>
   ('u, 'c, 'f) connection_end" where
  "publish_all cw cr uw ur format_code format_of attach arc [] e d pb = Shown e d pb"
| "publish_all cw cr uw ur format_code format_of attach arc (fr # frs) e d pb =
     (case write_frame_update cw uw format_code fr e of
        (Inl err, ms, e1) \<Rightarrow> Write_Failed fr e err
      | (Inr _, ms, e1) \<Rightarrow>
          (case deliver cr ur format_of attach arc ms d pb of
             (Inl err, d1, pb1) \<Rightarrow> Refused err
           | (Inr _, d1, pb1) \<Rightarrow>
               publish_all cw cr uw ur format_code format_of attach (arc + 2 * length ms) frs e1 d1 pb1))"

lemma publish_all_ok:
  assumes laws: "codec_laws cw cr uw ur format_code format_of"
    and "link_ok e d pb" "list_all frame_ok frs" "e_sequence e + length frs < 2 ^ 64"
    and "frs = [] \<Longrightarrow> \<exists>old. e_published e = Some old \<and> (old = lst \<or> same_presentation old lst)"
    and "frs \<noteq> [] \<Longrightarrow> lst = last frs"
  shows "case publish_all cw cr uw ur format_code format_of attach arc frs e d pb of
      Write_Failed fr e' err \<Rightarrow>
        fr \<in> set frs \<and> (\<exists>u e1. encode_changed format_code fr e' = (Some u, e1) \<and> encode_message uw u = Inl err)
    | Refused err \<Rightarrow> False
    | Shown e' d' pb' \<Rightarrow> \<exists>old. (old = lst \<or> same_presentation old lst) \<and> presents (pb_frame pb') old"
  using assms(2-6)
proof (induction frs arbitrary: e d pb arc)
  case Nil
  then show ?case by (auto simp: link_ok_def)
next
  case (Cons fr frs)
  obtain r ms e1 where w: "write_frame_update cw uw format_code fr e = (r, ms, e1)"
    by (metis prod.exhaust)
  have step: "case (r, ms, e1) of
      (Inl err, ms, e') \<Rightarrow> \<exists>u e1. encode_changed format_code fr e = (Some u, e1) \<and> encode_message uw u = Inl err
    | (Inr _, ms, e') \<Rightarrow> (\<exists>d' pb'. deliver cr ur format_of attach arc ms d pb = (Inr (), d', pb') \<and> link_ok e' d' pb'
        \<and> (\<exists>old. e_published e' = Some old \<and> (old = fr \<or> same_presentation old fr))
        \<and> e_sequence e' \<le> Suc (e_sequence e))"
    unfolding w [symmetric] using Cons.prems by (intro publish_step [OF laws]) simp_all
  show ?case
  proof (cases r)
    case (Inl err)
    with w step show ?thesis by auto
  next
    case (Inr x)
    with step obtain d1 pb1 where d1: "deliver cr ur format_of attach arc ms d pb = (Inr (), d1, pb1)" "link_ok e1 d1 pb1"
      "\<exists>old. e_published e1 = Some old \<and> (old = fr \<or> same_presentation old fr)" "e_sequence e1 \<le> Suc (e_sequence e)"
      by auto
    have "case publish_all cw cr uw ur format_code format_of attach (arc + 2 * length ms) frs e1 d1 pb1 of
        Write_Failed fr e' err \<Rightarrow>
          fr \<in> set frs \<and> (\<exists>u e1. encode_changed format_code fr e' = (Some u, e1) \<and> encode_message uw u = Inl err)
      | Refused err \<Rightarrow> False
      | Shown e' d' pb' \<Rightarrow> \<exists>old. (old = lst \<or> same_presentation old lst) \<and> presents (pb_frame pb') old"
      using Cons.prems d1(2-4) by (intro Cons.IH) auto
    with w Inr d1(1) show ?thesis by (auto split: connection_end.splits)
  qed
qed

section \<open>Bounded images\<close>

definition images_bounded :: "('u, 'c, 'f) frame_decoder \<Rightarrow> bool" where
  "images_bounded d \<longleftrightarrow> distinct (map fst (d_images d)) \<and> charges (d_images d) \<le> MAX_RETAINED_IMAGE_BYTES"

lemma charges_update:
  "distinct (map fst xs) \<Longrightarrow>
   charges (AList.update k v xs) + (case map_of xs k of None \<Rightarrow> 0 | Some b \<Rightarrow> image_charge b)
   = charges xs + image_charge v"
  by (induction xs) auto

lemma insert_image_bounded:
  assumes "images_bounded d" "insert_image c d = (r, d')"
  shows "images_bounded d'"
proof (cases r)
  case (Inl err)
  with assms show ?thesis by (auto simp: insert_image_def Let_def split: if_splits)
next
  case (Inr x)
  let ?old = "case map_of (d_images d) (ic_key c) of None \<Rightarrow> 0 | Some b \<Rightarrow> image_charge b"
  have max: "MAX_RETAINED_IMAGE_BYTES < 2 ^ 64 - 1"
    by (simp add: MAX_RETAINED_IMAGE_BYTES_def MAX_FRAME_IMAGE_BYTES_def)
  have total: "charges (d_images d) \<le> MAX_RETAINED_IMAGE_BYTES" "distinct (map fst (d_images d))"
    using assms(1) by (simp_all add: images_bounded_def)
  have retained: "sat_add 64 (retained_image_bytes d) (sat_mul 64 (length (d_images d)) IMAGE_ENTRY_BYTES) = charges (d_images d)"
    using total(1) max by (simp add: charges_retained sat_mul_def sat_add_def)
  have member: "image_charge b \<le> charges xs" if "map_of xs k = Some b" for b k and xs :: "(image_key \<times> string) list"
    using that by (induction xs) (auto split: if_splits)
  have old: "(case map_of (d_images d) (ic_key c) of None \<Rightarrow> 0 | Some bytes \<Rightarrow> sat_add 64 (length bytes) IMAGE_ENTRY_BYTES) = ?old"
    using member total(1) max by (fastforce simp: image_charge_def sat_add_def split: option.splits)
  have d': "d' = d\<lparr>d_images := AList.update (ic_key c) (ic_bytes c) (d_images d)\<rparr>"
    and room: "sat_add 64 (length (ic_bytes c)) IMAGE_ENTRY_BYTES \<le> MAX_RETAINED_IMAGE_BYTES - (charges (d_images d) - ?old)"
    using assms(2) Inr unfolding insert_image_def Let_def retained old by (auto split: if_splits)
  have "sat_add 64 (length (ic_bytes c)) IMAGE_ENTRY_BYTES = image_charge (ic_bytes c)"
    using room max by (auto simp: sat_add_def image_charge_def split: if_splits)
  moreover have "?old \<le> charges (d_images d)"
    using member by (auto split: option.splits)
  ultimately show ?thesis
    using room charges_update [OF total(2), of "ic_key c" "ic_bytes c"] total
    by (simp add: images_bounded_def d' distinct_update)
qed

lemma apply_update_bounded:
  assumes "images_bounded d" "apply_update format_of arc u d = (r, d')"
  shows "images_bounded d'"
proof (cases r)
  case (Inl err)
  with assms show ?thesis by (auto dest: apply_update_rejected)
next
  case (Inr fr)
  with assms(2) have "d_images d' = filter (\<lambda>(key, _). key \<in> set (map wp_key (w_placements (u_state u)))) (d_images d)"
    by (auto elim: apply_update_Inr)
  with assms(1) show ?thesis
    unfolding images_bounded_def by (metis charges_filter distinct_map_filter order_trans)
qed

text \<open>A viewer under any messages.\<close>

fun viewer_step ::
  "(string \<Rightarrow> (image_content \<times> nat) res) \<Rightarrow> (string \<Rightarrow> (('u, 'c) frame_update \<times> nat) res) \<Rightarrow>
   (int \<Rightarrow> 'f option) \<Rightarrow> unit res \<Rightarrow> mux_frame \<Rightarrow>
   nat \<times> ('u, 'c, 'f) frame_decoder \<times> ('u, 'c, 'f) published \<Rightarrow>
   nat \<times> ('u, 'c, 'f) frame_decoder \<times> ('u, 'c, 'f) published" where
  "viewer_step cr ur format_of attach m (arc, d, pb) =
     (case decode_frame cr ur format_of attach arc m d pb of (_, d1, pb1, _) \<Rightarrow> (arc + 2, d1, pb1))"

lemma decode_frame_bounded:
  assumes "images_bounded d" "decode_frame cr ur format_of attach arc m d pb = (r, d', pb', w)"
  shows "images_bounded d'"
proof -
  have fresh: "images_bounded default_decoder"
    by (simp add: images_bounded_def default_decoder_def)
  show ?thesis
    using assms fresh insert_image_bounded [OF assms(1)] apply_update_bounded [OF assms(1)]
    by (auto simp: decode_frame_def map_sum_def split: if_splits sum.splits prod.splits option.splits)
qed

interpretation viewer: invariant_machine "viewer_step cr ur format_of attach" "\<lambda>(arc, d, pb). images_bounded d" "\<lambda>_. True"
  by unfold_locales (auto split: prod.splits dest: decode_frame_bounded)

section \<open>Properties\<close>

text \<open>
  C5.  The viewer follows the server.  The server publishes any sequence of well-formed frames on a
  fresh connection, through the encoder that sends changed rows and new images only; the viewer
  decodes the messages in order.  No message is ever refused, for lack of a base, an image or image budget
  (whatever the outcome of attaching again is, in particular when it is an error, as a refusal would show
  then).  The images can always be written; only a frame update itself may be one that cannot be written as a
  message, and the connection ends at its frame with that error.  Otherwise at the end the viewer shows the last frame
  (or an earlier one of the same presentation): all fields but damage and lineage are equal, and so are
  the images, unless they exceed the frame's image budget, when a subsequence of the placements is shown.
\<close>

theorem viewer_follows_server:
  assumes "codec_laws cw cr uw ur format_code format_of"
    and "list_all frame_ok frs" "frs \<noteq> []" "length frs < 2 ^ 64"
  shows "case publish_all cw cr uw ur format_code format_of attach arc frs default_encoder default_decoder pb of
      Write_Failed fr e err \<Rightarrow>
        fr \<in> set frs \<and> (\<exists>u e1. encode_changed format_code fr e = (Some u, e1) \<and> encode_message uw u = Inl err)
    | Refused err \<Rightarrow> False
    | Shown e d pb' \<Rightarrow> \<exists>old. (old = last frs \<or> same_presentation old (last frs)) \<and> presents (pb_frame pb') old"
  using assms(2-4)
  by (intro publish_all_ok [OF assms(1)])
    (simp_all add: link_ok_def synced_def prev_synced_def default_encoder_def default_decoder_def)

text \<open>
  Libraries that satisfy the promises: a content is written as its key, big-endian, and its bytes;
  the one update of the example is written as one byte.
\<close>

definition be_content_writer :: "image_content \<Rightarrow> string res" where
  "be_content_writer v =
     Inr (to_be_bytes (ik_image_id (ic_key v)) @ to_be_bytes (ik_generation (ic_key v) div 2 ^ 32)
       @ to_be_bytes (ik_generation (ic_key v) mod 2 ^ 32) @ ic_bytes v)"

definition be_content_reader :: "string \<Rightarrow> (image_content \<times> nat) res" where
  "be_content_reader b =
     Inr (\<lparr>ic_key = \<lparr>ik_image_id = from_be_bytes (take 4 b),
             ik_generation = from_be_bytes (take 4 (drop 4 b)) * 2 ^ 32 + from_be_bytes (take 4 (drop 8 b))\<rparr>,
           ic_bytes = drop 12 b\<rparr>, length b)"

definition tiny_update :: "(unit, unit) frame_update" where
  "tiny_update = fst (encode (\<lambda>_. 0) tiny_frame default_encoder)"

definition tiny_writer :: "(unit, unit) frame_update \<Rightarrow> string res" where
  "tiny_writer u = (if u = tiny_update then Inr ''u'' else Inl ''unknown'')"

definition tiny_reader :: "string \<Rightarrow> ((unit, unit) frame_update \<times> nat) res" where
  "tiny_reader b = (if b = ''u'' then Inr (tiny_update, 1) else Inl ''unknown'')"

lemma tiny_laws: "codec_laws be_content_writer be_content_reader tiny_writer tiny_reader (\<lambda>_. 0) (\<lambda>_. Some ())"
proof -
  have "be_content_reader (to_be_bytes i @ to_be_bytes (g div 2 ^ 32) @ to_be_bytes (g mod 2 ^ 32) @ bs)
      = Inr (\<lparr>ic_key = \<lparr>ik_image_id = i, ik_generation = g\<rparr>, ic_bytes = bs\<rparr>, length bs + 12)"
    if "i < 2 ^ 32" "g < 2 ^ 64" for i g bs
  proof -
    have "g div 2 ^ 32 < 2 ^ 32" using that(2) by (simp add: less_mult_imp_div_less)
    then show ?thesis
      using that(1) div_mult_mod_eq [of g "2 ^ 32"]
      by (simp add: be_content_reader_def be_bytes_roundtrip)
  qed
  note read = this
  have content: "\<exists>b. be_content_writer v = Inr b \<and> length b \<le> length (ic_bytes v) + IMAGE_CONTENT_ENVELOPE_BYTES
      \<and> be_content_reader b = Inr (v, length b)" if "content_ok v" for v
    using that read [of "ik_image_id (ic_key v)" "ik_generation (ic_key v)" "ic_bytes v"]
    by (simp add: content_ok_def be_content_writer_def IMAGE_CONTENT_ENVELOPE_BYTES_def)
  then show ?thesis
    by (auto simp: codec_laws_def tiny_writer_def tiny_reader_def split: if_splits)
qed

lemma tiny_ok: "frame_ok tiny_frame"
  by (simp add: frame_ok_def frame_wf_def tiny_frame_def default_frame_def default_images_def images_consistent_def)

definition tiny_start :: "(unit, unit, unit) published" where
  "tiny_start = \<lparr>pb_frame = default_frame 0, pb_connected = False, pb_exited = False\<rparr>"

lemma start_link_ok: "link_ok default_encoder default_decoder pb"
  by (simp add: link_ok_def synced_def prev_synced_def default_encoder_def default_decoder_def)

lemma tiny_published:
  "(\<exists>e d pb'. publish_all be_content_writer be_content_reader tiny_writer tiny_reader (\<lambda>_. 0) (\<lambda>_. Some ()) (Inr ()) 1
     [tiny_frame] default_encoder default_decoder tiny_start = Shown e d pb')"
proof -
  obtain e1 where e1: "encode (\<lambda>_. 0) tiny_frame default_encoder = (tiny_update, e1)"
    by (metis prod.collapse tiny_update_def)
  moreover have "e_pending (snd (encode (\<lambda>_. 0) tiny_frame default_encoder)) = []"
    by (simp add: encode_def from_frame_def tiny_frame_def default_frame_def default_images_def default_encoder_def Let_def)
  moreover have "encode_message tiny_writer tiny_update = Inr ''u''"
    by (simp add: encode_message_def tiny_writer_def MAX_MESSAGE_SIZE_def)
  moreover have "e_published (default_encoder :: (unit, unit, unit) frame_encoder) = None"
    by (simp add: default_encoder_def)
  ultimately have w: "write_frame_update be_content_writer tiny_writer (\<lambda>_. 0) tiny_frame default_encoder
      = (Inr (), [\<lparr>fr_kind = FRAME_UPDATE, fr_bytes = ''u''\<rparr>], e1\<lparr>e_published := Some tiny_frame, e_pending := []\<rparr>)"
    by (simp add: write_frame_update_def encode_changed_def take_image_contents_def)
  have "Suc (e_sequence (default_encoder :: (unit, unit, unit) frame_encoder)) < 2 ^ 64"
    by (simp add: default_encoder_def)
  from publish_step [OF tiny_laws start_link_ok tiny_ok this, of "Inr ()" 1 tiny_start] w show ?thesis
    by auto
qed

theorem viewer_follows_server_witness:
  "\<exists>e d pb' old. publish_all be_content_writer be_content_reader tiny_writer tiny_reader (\<lambda>_. 0) (\<lambda>_. Some ()) (Inr ()) 1
       [tiny_frame] default_encoder default_decoder tiny_start = Shown e d pb'
     \<and> (old = tiny_frame \<or> same_presentation old tiny_frame) \<and> presents (pb_frame pb') old"
proof -
  have "list_all frame_ok [tiny_frame]" using tiny_ok by simp
  note c = viewer_follows_server [OF tiny_laws this, of "Inr ()" 1 tiny_start]
  from tiny_published obtain e d pb' where
    p: "publish_all be_content_writer be_content_reader tiny_writer tiny_reader (\<lambda>_. 0) (\<lambda>_. Some ()) (Inr ()) 1
       [tiny_frame] default_encoder default_decoder tiny_start = Shown e d pb'"
    by blast
  with c show ?thesis unfolding p by auto
qed

text \<open>
  A viewer's image memory is bounded whatever a server sends: after any sequence of messages,
  malformed ones included, the images it retains with their table entries cost at most 128 MiB.
\<close>

lemma viewer_images_bounded:
  "case fold (viewer_step cr ur format_of attach) ms (arc, default_decoder, pb) of
     (_, d, _) \<Rightarrow> retained_image_bytes d + length (d_images d) * IMAGE_ENTRY_BYTES \<le> MAX_RETAINED_IMAGE_BYTES"
proof -
  have "case (arc, default_decoder, pb) of (_, d, _) \<Rightarrow> images_bounded d"
    by (simp add: images_bounded_def default_decoder_def)
  from viewer.run_inv [OF this, of ms cr ur format_of attach] show ?thesis
    by (auto simp: images_bounded_def charges_retained list_all_iff split: prod.splits)
qed

end
