(* ===== verification/Frame_Assembly.thy ===== *)
theory Frame_Assembly
  imports Frame_Wire
begin

text \<open>
  How the terminal engine builds a frame, from \<^verbatim>\<open>crates/bootty-terminal/src/terminal_engine.rs\<close>: rows
  are extracted into a cache, dirty ones only when the cache is warm, and the frame is assembled from
  the cache.  What the VT library answers for a row and its cells is data of the model, one result
  for each call on a row and one per cell; its colour type is the parameter \<open>'s\<close>.
\<close>

section \<open>What the library answers\<close>

record ('u, 's) vt_style =
  vs_style :: "'u cell_style"
  vs_fg_color :: 's
  vs_underline_color :: 's

record ('u, 's) vt_cell =
  vc_style :: "('u, 's) vt_style option"
  vc_graphemes :: "nat list"
  vc_fg_color :: "rgb_color option"
  vc_bg_color :: "rgb_color option"

text \<open>The three answers of the raw row are read with a default, so they are plain data.\<close>

record vt_raw_row =
  vw_wrapped :: bool
  vw_wrap_continuation :: bool
  vw_has_hyperlink :: bool

record ('u, 's) vt_row =
  vr_raw_row :: "vt_raw_row res"
  vr_selection :: "(nat \<times> nat) option res"
  vr_cells :: "('u, 's) vt_cell res list res"
  vr_set_dirty :: "unit res"

section \<open>The row cache\<close>

record 's kitty_virtual_cell =
  vi_x :: nat
  vi_y :: nat
  vi_grapheme :: "nat list"
  vi_foreground :: 's
  vi_underline_color :: 's

record ('u, 's) cached_render_row =
  cr_cells :: "'u render_cell list"
  cr_text :: "nat list"
  cr_virtual_cells :: "'s kitty_virtual_cell list"
  cr_selection :: "frame_selection option"
  cr_wrapped :: bool
  cr_wrap_continuation :: bool

definition default_cached_row :: "('u, 's) cached_render_row" where
  "default_cached_row =
     \<lparr>cr_cells = [], cr_text = [], cr_virtual_cells = [], cr_selection = None, cr_wrapped = False,
      cr_wrap_continuation = False\<rparr>"

definition clear_row :: "('u, 's) cached_render_row \<Rightarrow> ('u, 's) cached_render_row" where
  "clear_row out =
     out\<lparr>cr_cells := [], cr_text := [], cr_virtual_cells := [], cr_selection := None, cr_wrapped := False,
         cr_wrap_continuation := False\<rparr>"

definition default_style :: "'u \<Rightarrow> 'u cell_style" where
  "default_style no_underline =
     \<lparr>bold = False, italic = False, faint = False, blink = False, inverse = False, invisible = False,
      strikethrough = False, overline = False, underline = no_underline\<rparr>"

text \<open>One cell, whose fields the library has answered (a failed answer is an \<open>Inl\<close> element of the row,
  and what the row held by then is dropped when it is next extracted); \<open>uri\<close> is the library's hyperlink lookup, \<open>no_color\<close> and \<open>no_underline\<close> its neutral values.\<close>

definition extract_cell ::
  "'u \<Rightarrow> 's \<Rightarrow> (nat \<Rightarrow> nat \<Rightarrow> string option) \<Rightarrow> bool \<Rightarrow> nat \<Rightarrow> nat \<Rightarrow> ('u, 's) vt_cell \<Rightarrow>
   ('u, 's) cached_render_row \<Rightarrow> ('u, 's) cached_render_row" where
  "extract_cell no_underline no_color uri has_link row col c out =
     (let placeholder = (first_opt (vc_graphemes c) = Some 0x10EEEE);
          vcell = \<lparr>vi_x = col, vi_y = row, vi_grapheme = vc_graphemes c,
                   vi_foreground = (case vc_style c of None \<Rightarrow> no_color | Some s \<Rightarrow> vs_fg_color s),
                   vi_underline_color = (case vc_style c of None \<Rightarrow> no_color | Some s \<Rightarrow> vs_underline_color s)\<rparr>;
          cell = \<lparr>rc_x = col, rc_y = row, rc_text_start = length (cr_text out),
                  rc_text_len = (if placeholder then 0 else length (vc_graphemes c)),
                  rc_fg = (case vc_style c of None \<Rightarrow> None | Some _ \<Rightarrow> vc_fg_color c),
                  rc_bg = vc_bg_color c,
                  rc_style = (case vc_style c of None \<Rightarrow> default_style no_underline | Some s \<Rightarrow> vs_style s),
                  rc_hyperlink = (if has_link then uri col row else None)\<rparr>
      in out\<lparr>cr_virtual_cells := (if placeholder then cr_virtual_cells out @ [vcell] else cr_virtual_cells out),
             cr_text := (if placeholder then cr_text out else cr_text out @ vc_graphemes c),
             cr_cells := cr_cells out @ [cell]\<rparr>)"

fun extract_cells ::
  "'u \<Rightarrow> 's \<Rightarrow> (nat \<Rightarrow> nat \<Rightarrow> string option) \<Rightarrow> bool \<Rightarrow> nat \<Rightarrow> nat \<Rightarrow> ('u, 's) vt_cell res list \<Rightarrow>
   ('u, 's) cached_render_row \<Rightarrow> unit res \<times> ('u, 's) cached_render_row" where
  "extract_cells no_underline no_color uri has_link row col [] out = (Inr (), out)"
| "extract_cells no_underline no_color uri has_link row col (Inl err # cs) out = (Inl err, out)"
| "extract_cells no_underline no_color uri has_link row col (Inr c # cs) out =
     (let out1 = extract_cell no_underline no_color uri has_link row col c out
      in case checked_add 16 col 1 of
           None \<Rightarrow> (Inl ''terminal row exceeds column limit'', out1)
         | Some col1 \<Rightarrow> extract_cells no_underline no_color uri has_link row col1 cs out1)"

definition extract_render_row ::
  "'u \<Rightarrow> 's \<Rightarrow> (nat \<Rightarrow> nat \<Rightarrow> string option) \<Rightarrow> ('u, 's) vt_row \<Rightarrow> nat \<Rightarrow>
   ('u, 's) cached_render_row \<Rightarrow> unit res \<times> ('u, 's) cached_render_row" where
  "extract_render_row no_underline no_color uri r row_index out =
     (let out1 = clear_row out
      in case vr_raw_row r of
           Inl err \<Rightarrow> (Inl err, out1)
         | Inr raw_row \<Rightarrow>
             (let out2 = out1\<lparr>cr_wrapped := vw_wrapped raw_row, cr_wrap_continuation := vw_wrap_continuation raw_row\<rparr>
              in case vr_selection r of
                   Inl err \<Rightarrow> (Inl err, out2)
                 | Inr selection \<Rightarrow>
                     (let out3 = out2\<lparr>cr_selection :=
                            map_option (\<lambda>(a, b). \<lparr>fs_row = row_index, fs_start_col = a, fs_end_col = b\<rparr>) selection\<rparr>
                      in case vr_cells r of
                           Inl err \<Rightarrow> (Inl err, out3)
                         | Inr cells \<Rightarrow>
                             extract_cells no_underline no_color uri (vw_has_hyperlink raw_row) row_index 0 cells out3)))"

text \<open>The row loop of \<^verbatim>\<open>extract_frame\<close>.\<close>

fun extract_rows ::
  "'u \<Rightarrow> 's \<Rightarrow> (nat \<Rightarrow> nat \<Rightarrow> string option) \<Rightarrow> bool \<Rightarrow> bool list \<Rightarrow> nat \<Rightarrow> ('u, 's) vt_row list \<Rightarrow>
   ('u, 's) cached_render_row list \<Rightarrow> unit res \<times> ('u, 's) cached_render_row list" where
  "extract_rows no_underline no_color uri all_rows row_dirty i [] cache = (Inr (), cache)"
| "extract_rows no_underline no_color uri all_rows row_dirty i (r # rs) cache =
     (case (if all_rows \<or> get_nth row_dirty i = Some True
            then (case get_nth cache i of
                    None \<Rightarrow> (Inl ''render row exceeds frame geometry'', cache)
                  | Some out \<Rightarrow>
                      (case extract_render_row no_underline no_color uri r i out of
                         (q, out1) \<Rightarrow> (q, cache[i := out1])))
            else (Inr (), cache)) of
        (Inl err, cache1) \<Rightarrow> (Inl err, cache1)
      | (Inr _, cache1) \<Rightarrow>
          (case vr_set_dirty r of
             Inl err \<Rightarrow> (Inl err, cache1)
           | Inr _ \<Rightarrow>
               (case checked_add 16 i 1 of
                  None \<Rightarrow> (Inl ''render row exceeds terminal limit'', cache1)
                | Some j \<Rightarrow> extract_rows no_underline no_color uri all_rows row_dirty j rs cache1)))"

text \<open>\<^verbatim>\<open>Vec::resize_with\<close>.\<close>

definition resize_rows :: "nat \<Rightarrow> ('u, 's) cached_render_row list \<Rightarrow> ('u, 's) cached_render_row list" where
  "resize_rows n cache = take n cache @ replicate (n - length cache) default_cached_row"

section \<open>Assembling the frame\<close>

definition append_row :: "('u, 's) cached_render_row \<Rightarrow> ('u, 'c, 'f) render_frame \<Rightarrow> ('u, 'c, 'f) render_frame" where
  "append_row row fr =
     fr\<lparr>f_selections := f_selections fr @ (case cr_selection row of None \<Rightarrow> [] | Some s \<Rightarrow> [s]),
        f_row_wraps := f_row_wraps fr @ [cr_wrapped row],
        f_text := f_text fr @ cr_text row,
        f_stats := (f_stats fr)\<lparr>st_chars := sat_add 64 (st_chars (f_stats fr)) (length (cr_text row)),
                                st_cells := sat_add 64 (st_cells (f_stats fr)) (length (cr_cells row))\<rparr>,
        f_cells := f_cells fr
          @ map (\<lambda>c. c\<lparr>rc_text_start := sat_add 64 (rc_text_start c) (length (f_text fr))\<rparr>) (cr_cells row)\<rparr>"

text \<open>The cleared frame and the loop over the cache, with the virtual cells collected on the way.
  The search query, its pulse and the mouse mode are read from the engine; search matches and images
  are filled in after this.\<close>

definition assemble_rows ::
  "string \<Rightarrow> nat \<Rightarrow> bool \<Rightarrow> nat \<Rightarrow> bool list \<Rightarrow> ('u, 's) cached_render_row list \<Rightarrow> ('u, 'c, 'f) render_frame \<Rightarrow>
   ('u, 'c, 'f) render_frame \<times> 's kitty_virtual_cell list" where
  "assemble_rows query pulse mouse update_us row_dirty cache fr =
     (let fr1 = fr\<lparr>f_row_dirty := row_dirty, f_row_wraps := [], f_cells := [], f_text := [],
                   f_images := default_images, f_selections := [], f_search_matches := [],
                   f_active_search_match := None, f_active_search_segments := [],
                   f_active_search_match_index := None, f_search_match_count := 0,
                   f_search_query := query, f_search_pulse := pulse, f_mouse_tracking := mouse,
                   f_stats := default_stats\<lparr>st_render_state_update_us := update_us\<rparr>\<rparr>
      in (fold append_row cache fr1, concat (map cr_virtual_cells cache)))"

section \<open>The cache holds whole rows\<close>

definition row_cached :: "nat \<Rightarrow> nat \<Rightarrow> ('u, 's) cached_render_row \<Rightarrow> bool" where
  "row_cached cols y row \<longleftrightarrow>
     list_all (\<lambda>c. rc_y c = y \<and> rc_x c < cols) (cr_cells row)
     \<and> with_starts 0 (cr_cells row) = cr_cells row \<and> text_total (cr_cells row) = length (cr_text row)"

definition cache_ok :: "nat \<Rightarrow> ('u, 's) cached_render_row list \<Rightarrow> bool" where
  "cache_ok cols cache \<longleftrightarrow> (\<forall>y < length cache. row_cached cols y (cache ! y))"

lemma extract_cell_cached:
  assumes "row_cached cols y out" "col < cols"
  shows "row_cached cols y (extract_cell no_underline no_color uri has_link y col c out)"
  using assms by (auto simp: row_cached_def extract_cell_def Let_def)

lemma extract_cells_cached:
  assumes "row_cached cols y out" "col + length cs \<le> cols" "cols < 2 ^ 16"
  shows "row_cached cols y (snd (extract_cells no_underline no_color uri has_link y col cs out))
    \<and> (list_all (\<lambda>x. \<not> isl x) cs \<longrightarrow> fst (extract_cells no_underline no_color uri has_link y col cs out) = Inr ())"
  using assms(1,2)
proof (induction no_underline no_color uri has_link y col cs out rule: extract_cells.induct)
  case (3 no_underline no_color uri has_link row col c cs out)
  have "row_cached cols row (extract_cell no_underline no_color uri has_link row col c out)"
    using "3.prems" by (intro extract_cell_cached) simp_all
  moreover have "checked_add 16 col 1 = Some (col + 1)"
    using "3.prems"(2) assms(3) by (simp add: checked_add_def)
  ultimately show ?case
    using "3.IH" "3.prems"(2) by (simp add: Let_def)
qed simp_all

definition row_fits :: "nat \<Rightarrow> ('u, 's) vt_row \<Rightarrow> bool" where
  "row_fits cols r \<longleftrightarrow> (case vr_cells r of Inl _ \<Rightarrow> True | Inr cells \<Rightarrow> length cells \<le> cols)"

lemma extract_render_row_cached:
  assumes "row_fits cols r" "cols < 2 ^ 16"
  shows "row_cached cols y (snd (extract_render_row no_underline no_color uri r y out))"
proof -
  have "row_cached cols y (snd (extract_cells no_underline no_color uri has_link y 0 cells out'))"
    if "vr_cells r = Inr cells" "row_cached cols y out'" for has_link cells out'
    using that assms extract_cells_cached [of cols y out' 0 cells no_underline no_color uri has_link]
    by (simp add: row_fits_def)
  then show ?thesis
    by (simp add: extract_render_row_def Let_def row_cached_def clear_row_def split: sum.splits)
qed

lemma extract_rows_cached:
  assumes "cols < 2 ^ 16" "length cache < 2 ^ 16" "i + length rs \<le> length cache"
    and "list_all (row_fits cols) rs"
    and "\<forall>y < length cache. (\<not> all_rows \<or> y < i \<or> i + length rs \<le> y) \<longrightarrow> row_cached cols y (cache ! y)"
    and "extract_rows no_underline no_color uri all_rows row_dirty i rs cache = (Inr (), cache')"
  shows "cache_ok cols cache' \<and> length cache' = length cache"
  using assms(2-)
proof (induction rs arbitrary: i cache)
  case Nil
  then show ?case by (auto simp: cache_ok_def)
next
  case (Cons r rs)
  define cache1 where "cache1 = (if all_rows \<or> get_nth row_dirty i = Some True
    then cache[i := snd (extract_render_row no_underline no_color uri r i (cache ! i))] else cache)"
  have i: "i < length cache" using Cons.prems(2) by simp
  have next_i: "checked_add 16 i 1 = Some (Suc i)"
    using i Cons.prems(1) by (simp add: checked_add_def)
  have step: "extract_rows no_underline no_color uri all_rows row_dirty (Suc i) rs cache1 = (Inr (), cache')"
    using Cons.prems(5) i next_i
    by (auto simp: cache1_def get_nth_def split: if_splits sum.splits prod.splits)
  have "row_cached cols i (snd (extract_render_row no_underline no_color uri r i (cache ! i)))"
    using Cons.prems(3) assms(1) extract_render_row_cached [of cols r i no_underline no_color uri "cache ! i"] by simp
  then have "\<forall>y < length cache1. (\<not> all_rows \<or> y < Suc i \<or> Suc i + length rs \<le> y) \<longrightarrow> row_cached cols y (cache1 ! y)"
    using Cons.prems(4) i by (auto simp: cache1_def nth_list_update less_Suc_eq)
  from Cons.IH [OF _ _ _ this step] Cons.prems show ?case
    by (simp add: cache1_def)
qed

section \<open>The assembled frame\<close>

lemma shifted_starts:
  assumes "with_starts n cs = cs" "n + text_total cs + m < 2 ^ 64"
  shows "map (\<lambda>c. c\<lparr>rc_text_start := sat_add 64 (rc_text_start c) m\<rparr>) cs = with_starts (n + m) cs"
  using assms
proof (induction cs arbitrary: n)
  case Nil
  then show ?case by simp
next
  case (Cons c cs)
  have start: "rc_text_start c = n" "with_starts (n + rc_text_len c) cs = cs"
    using Cons.prems(1) by (cases c, simp)+
  have "map (\<lambda>c. c\<lparr>rc_text_start := sat_add 64 (rc_text_start c) m\<rparr>) cs = with_starts (n + rc_text_len c + m) cs"
    using Cons.prems(2) start(2) by (intro Cons.IH) simp_all
  then show ?case
    using Cons.prems(2) start(1) by (simp add: sat_add_def ac_simps)
qed

lemma append_rows_wf:
  assumes "\<forall>k < length cache. row_cached cols (y + k) (cache ! k)"
    and "length (f_text fr) + length (concat (map cr_text cache)) < 2 ^ 64"
    and "with_starts 0 (f_cells fr) = f_cells fr" "text_total (f_cells fr) = length (f_text fr)"
    and "sorted (map rc_y (f_cells fr))" "list_all (\<lambda>c. rc_x c < cols \<and> rc_y c < y) (f_cells fr)"
    and "length (f_row_wraps fr) = y"
  shows "let fr' = fold append_row cache fr in
    with_starts 0 (f_cells fr') = f_cells fr' \<and> text_total (f_cells fr') = length (f_text fr')
    \<and> sorted (map rc_y (f_cells fr')) \<and> list_all (\<lambda>c. rc_x c < cols \<and> rc_y c < y + length cache) (f_cells fr')
    \<and> length (f_row_wraps fr') = y + length cache \<and> f_cols fr' = f_cols fr \<and> f_rows fr' = f_rows fr"
  using assms
proof (induction cache arbitrary: fr y)
  case Nil
  then show ?case by simp
next
  case (Cons row cache)
  define fr1 where "fr1 = append_row row fr"
  have row: "row_cached cols y row" using Cons.prems(1) by force
  have cells: "map (\<lambda>c. c\<lparr>rc_text_start := sat_add 64 (rc_text_start c) (length (f_text fr))\<rparr>) (cr_cells row)
      = with_starts (length (f_text fr)) (cr_cells row)"
    using row Cons.prems(2) shifted_starts [of 0 "cr_cells row" "length (f_text fr)"]
    by (simp add: row_cached_def)
  have fr1: "f_cells fr1 = f_cells fr @ with_starts (length (f_text fr)) (cr_cells row)"
    "f_text fr1 = f_text fr @ cr_text row" "length (f_row_wraps fr1) = Suc y" "f_cols fr1 = f_cols fr" "f_rows fr1 = f_rows fr"
    using Cons.prems(7) by (simp_all add: fr1_def append_row_def cells)
  have "list_all (\<lambda>c. rc_y c = y \<and> rc_x c < cols) (with_starts (length (f_text fr)) (cr_cells row))"
    using row by (simp add: row_cached_def list_all_with_starts)
  then have ys: "\<forall>c \<in> set (with_starts (length (f_text fr)) (cr_cells row)). rc_y c = y \<and> rc_x c < cols"
    by (simp add: list_all_iff)
  moreover have "sorted (map rc_y (with_starts (length (f_text fr)) (cr_cells row)))"
    using ys by (auto simp: sorted_iff_nth_mono simp del: map_rc_y_with_starts)
  ultimately have "sorted (map rc_y (f_cells fr1))" "list_all (\<lambda>c. rc_x c < cols \<and> rc_y c < Suc y) (f_cells fr1)"
    using Cons.prems(5,6) by (force simp: fr1(1) sorted_append list_all_iff simp del: map_rc_y_with_starts)+
  moreover have "\<forall>k < length cache. row_cached cols (Suc y + k) (cache ! k)"
    using Cons.prems(1) by force
  ultimately have "let fr' = fold append_row cache fr1 in
    with_starts 0 (f_cells fr') = f_cells fr' \<and> text_total (f_cells fr') = length (f_text fr')
    \<and> sorted (map rc_y (f_cells fr')) \<and> list_all (\<lambda>c. rc_x c < cols \<and> rc_y c < Suc y + length cache) (f_cells fr')
    \<and> length (f_row_wraps fr') = Suc y + length cache \<and> f_cols fr' = f_cols fr1 \<and> f_rows fr' = f_rows fr1"
    using Cons.prems row fr1 by (intro Cons.IH) (simp_all add: row_cached_def)
  then show ?case
    by (simp add: fr1_def [symmetric] fr1(4,5))
qed

lemma assemble_rows_wf:
  assumes "cache_ok (f_cols fr) cache" "length cache = f_rows fr" "length (concat (map cr_text cache)) < 2 ^ 64"
  shows "frame_wf (fst (assemble_rows query pulse mouse update_us row_dirty cache fr))"
proof -
  define fr1 where "fr1 = fr\<lparr>f_row_dirty := row_dirty, f_row_wraps := [], f_cells := [], f_text := [],
      f_images := default_images, f_selections := [], f_search_matches := [],
      f_active_search_match := None, f_active_search_segments := [],
      f_active_search_match_index := None, f_search_match_count := 0,
      f_search_query := query, f_search_pulse := pulse, f_mouse_tracking := mouse,
      f_stats := default_stats\<lparr>st_render_state_update_us := update_us\<rparr>\<rparr>"
  have fr1: "f_cells fr1 = []" "f_text fr1 = []" "f_row_wraps fr1 = []" "f_cols fr1 = f_cols fr" "f_rows fr1 = f_rows fr"
    by (simp_all add: fr1_def)
  have "fst (assemble_rows query pulse mouse update_us row_dirty cache fr) = fold append_row cache fr1"
    by (simp add: assemble_rows_def fr1_def)
  then show ?thesis
    using append_rows_wf [of cache "f_cols fr" 0 fr1] assms fr1 by (simp add: cache_ok_def frame_wf_def Let_def)
qed

section \<open>Property\<close>

text \<open>
  C32.  The engine's frames are what the codec needs.  However rows were extracted before, a pass
  that re-extracts every row, or the dirty rows of a cache of the same grid, leaves every row of
  the cache with its own index, columns inside the grid and contiguous text; so the cache stays
  good for the next pass, and the frame assembled from it is well-formed: inside the grid, rows in
  order, text ranges tiling the text.
\<close>

theorem engine_frames_wellformed:
  assumes "cols < 2 ^ 16" "rows < 2 ^ 16" "length vt_rows = rows" "list_all (row_fits cols) vt_rows"
    and "all_rows \<or> (length cache = rows \<and> cache_ok cols cache)"
    and "extract_rows no_underline no_color uri all_rows row_dirty 0 vt_rows (resize_rows rows cache) = (Inr (), cache')"
    and "length (concat (map cr_text cache')) < 2 ^ 64" "f_cols fr = cols" "f_rows fr = rows"
  shows "cache_ok cols cache' \<and> frame_wf (fst (assemble_rows query pulse mouse update_us row_dirty cache' fr))"
proof -
  have resized: "length (resize_rows rows cache) = rows" "length cache = rows \<Longrightarrow> resize_rows rows cache = cache"
    by (simp_all add: resize_rows_def)
  have "cache_ok cols cache' \<and> length cache' = length (resize_rows rows cache)"
    using assms(1-6) resized by (intro extract_rows_cached [where i = 0 and rs = vt_rows]) (auto simp: cache_ok_def)
  then show ?thesis
    using assms(7-9) resized(1) assemble_rows_wf [of fr cache'] by simp
qed

definition letter_row :: "(unit, unit) vt_row" where
  "letter_row =
     \<lparr>vr_raw_row = Inr \<lparr>vw_wrapped = False, vw_wrap_continuation = False, vw_has_hyperlink = False\<rparr>,
      vr_selection = Inr None,
      vr_cells = Inr [Inr \<lparr>vc_style = None, vc_graphemes = [65], vc_fg_color = None, vc_bg_color = None\<rparr>],
      vr_set_dirty = Inr ()\<rparr>"

lemma letter_row_extracted:
  "extract_rows () () (\<lambda>_ _. None) True [] 0 [letter_row] (resize_rows 1 []) =
    (Inr (), snd (extract_rows () () (\<lambda>_ _. None) True [] 0 [letter_row] (resize_rows 1 [])))"
  "map cr_text (snd (extract_rows () () (\<lambda>_ _. None) True [] 0 [letter_row] (resize_rows 1 []))) = [[65]]"
  by (simp_all add: letter_row_def resize_rows_def get_nth_def extract_render_row_def extract_cell_def
      default_cached_row_def clear_row_def checked_add_def first_opt_def Let_def)

theorem engine_frames_wellformed_witness:
  "frame_wf (fst (assemble_rows [] 0 False 0 []
     (snd (extract_rows () () (\<lambda>_ _. None) True [] 0 [letter_row] (resize_rows 1 [])))
     ((default_frame 0 :: (unit, unit, unit) render_frame)\<lparr>f_cols := 1, f_rows := 1\<rparr>)))"
proof -
  have "list_all (row_fits 1) [letter_row]" by (simp add: letter_row_def row_fits_def)
  note made = engine_frames_wellformed [where cols = 1 and rows = 1, OF _ _ _ this _ letter_row_extracted(1)]
  show ?thesis
    by (rule conjunct2 [OF made]) (simp_all only: letter_row_extracted(2), simp_all)
qed

end
