(* ===== verification/Rust_Text.thy ===== *)
theory Rust_Text
  imports Session_Names "HOL-Library.Sublist"
begin

text \<open>
  What the terminal's byte handling uses of the standard library: searching and splitting bytes,
  parsing of numbers, \<^verbatim>\<open>str::trim\<close>, and UTF-8 as \<^verbatim>\<open>str::from_utf8\<close> and \<^verbatim>\<open>String::from_utf8_lossy\<close>
  treat it.  The lemmas say what the searches find and that a lossily decoded text is UTF-8.
\<close>

section \<open>Searching and splitting\<close>

text \<open>\<^verbatim>\<open>memchr\<close> and \<^verbatim>\<open>memmem::find\<close>.\<close>

definition memchr :: "char \<Rightarrow> string \<Rightarrow> nat option" where
  "memchr c s = find_index (\<lambda>x. x = c) s"

fun find_sub :: "string \<Rightarrow> string \<Rightarrow> nat option" where
  "find_sub needle [] = (if needle = [] then Some 0 else None)"
| "find_sub needle (c # s) =
     (if prefix needle (c # s) then Some 0 else map_option Suc (find_sub needle s))"

definition split_once :: "char \<Rightarrow> string \<Rightarrow> (string \<times> string) option" where
  "split_once c s = map_option (\<lambda>i. (take i s, drop (Suc i) s)) (memchr c s)"

text \<open>\<^verbatim>\<open>str::splitn\<close>: at most \<open>n\<close> pieces, the last one unsplit.\<close>

fun splitn :: "nat \<Rightarrow> char \<Rightarrow> string \<Rightarrow> string list" where
  "splitn 0 c s = []"
| "splitn (Suc 0) c s = [s]"
| "splitn (Suc (Suc n)) c s =
     (case split_once c s of None \<Rightarrow> [s] | Some (a, b) \<Rightarrow> a # splitn (Suc n) c b)"

text \<open>\<^verbatim>\<open>[T]::join\<close> on one separator byte.\<close>

fun join_with :: "char \<Rightarrow> string list \<Rightarrow> string" where
  "join_with c [] = []"
| "join_with c [s] = s"
| "join_with c (s # t # ts) = s @ c # join_with c (t # ts)"

definition last_opt :: "'a list \<Rightarrow> 'a option" where
  "last_opt xs = (if xs = [] then None else Some (List.last xs))"

section \<open>Numbers\<close>

definition to_digit :: "nat \<Rightarrow> char \<Rightarrow> nat option" where
  "to_digit radix c =
     (let n = of_char c;
          d = (if 48 \<le> n \<and> n \<le> 57 then n - 48 else if 97 \<le> n \<and> n \<le> 122 then n - 87
               else if 65 \<le> n \<and> n \<le> 90 then n - 55 else radix)
      in if d < radix then Some d else None)"

fun parse_digits :: "nat \<Rightarrow> nat \<Rightarrow> string \<Rightarrow> nat option" where
  "parse_digits radix acc [] = Some acc"
| "parse_digits radix acc (c # cs) =
     (case to_digit radix c of None \<Rightarrow> None | Some d \<Rightarrow> parse_digits radix (acc * radix + d) cs)"

text \<open>
  \<^verbatim>\<open>from_str_radix\<close> of an unsigned type of \<open>w\<close> bits: an optional plus sign, at least one digit, and a
  value that fits; \<^verbatim>\<open>parse\<close> is base 10.  A signed type also takes a minus sign.
\<close>

definition unsigned_digits :: "nat \<Rightarrow> string \<Rightarrow> nat option" where
  "unsigned_digits radix ds = (if ds = [] then None else parse_digits radix 0 ds)"

definition parse_uint :: "nat \<Rightarrow> nat \<Rightarrow> string \<Rightarrow> nat option" where
  "parse_uint w radix s =
     (case unsigned_digits radix (case strip_prefix ''+'' s of None \<Rightarrow> s | Some t \<Rightarrow> t) of
        None \<Rightarrow> None
      | Some n \<Rightarrow> if n < 2 ^ w then Some n else None)"

definition parse_i32 :: "string \<Rightarrow> int option" where
  "parse_i32 s =
     (case strip_prefix ''-'' s of
        Some t \<Rightarrow>
          (case unsigned_digits 10 t of
             None \<Rightarrow> None
           | Some n \<Rightarrow> if n \<le> 2 ^ 31 then Some (- int n) else None)
      | None \<Rightarrow> map_option int (parse_uint 31 10 s))"

section \<open>White space\<close>

text \<open>The UTF-8 encodings of the characters that \<^verbatim>\<open>char::is_whitespace\<close> accepts.\<close>

definition white_space :: "string list" where
  "white_space =
     map (\<lambda>n. [char_of (n::nat)]) [9, 10, 11, 12, 13, 32]
     @ [[CHR 0xC2, CHR 0x85], [CHR 0xC2, CHR 0xA0], [CHR 0xE1, CHR 0x9A, CHR 0x80]]
     @ map (\<lambda>n. [CHR 0xE2, CHR 0x80, char_of (n::nat)])
         [0x80, 0x81, 0x82, 0x83, 0x84, 0x85, 0x86, 0x87, 0x88, 0x89, 0x8A, 0xA8, 0xA9, 0xAF]
     @ [[CHR 0xE2, CHR 0x81, CHR 0x9F], [CHR 0xE3, CHR 0x80, CHR 0x80]]"

definition starts_with_whitespace :: "string \<Rightarrow> bool" where
  "starts_with_whitespace s = list_ex (\<lambda>w. prefix w s) white_space"

function strip_all :: "string list \<Rightarrow> string \<Rightarrow> string" where
  "strip_all ws s =
     (case find (\<lambda>w. w \<noteq> [] \<and> prefix w s) ws of
        None \<Rightarrow> s
      | Some w \<Rightarrow> strip_all ws (drop (length w) s))"
  by auto
termination
  by (relation "measure (length \<circ> snd)") (auto simp: find_Some_iff prefix_def)

declare strip_all.simps [simp del]

definition trim :: "string \<Rightarrow> string" where
  "trim s = List.rev (strip_all (map List.rev white_space) (List.rev (strip_all white_space s)))"

section \<open>UTF-8\<close>

definition byte_at :: "string \<Rightarrow> nat \<Rightarrow> nat" where
  "byte_at s i = (if i < length s then of_char (s ! i) else 0)"

definition continues :: "nat \<Rightarrow> bool" where
  "continues b = (128 \<le> b \<and> b < 192)"

text \<open>
  The character at the head of a non-empty text: its length, or on the left the number of bytes
  that are replaced together when it is broken.
\<close>

definition utf8_head :: "string \<Rightarrow> nat + nat" where
  "utf8_head s =
     (let a = byte_at s 0; b = byte_at s 1 in
      if a < 0x80 then Inr 1
      else if 0xC2 \<le> a \<and> a \<le> 0xDF then (if continues b then Inr 2 else Inl 1)
      else if 0xE0 \<le> a \<and> a \<le> 0xEF then
        (if (if a = 0xE0 then 0xA0 \<le> b \<and> b \<le> 0xBF else if a = 0xED then 0x80 \<le> b \<and> b \<le> 0x9F else continues b)
         then (if continues (byte_at s 2) then Inr 3 else Inl 2) else Inl 1)
      else if 0xF0 \<le> a \<and> a \<le> 0xF4 then
        (if (if a = 0xF0 then 0x90 \<le> b \<and> b \<le> 0xBF else if a = 0xF4 then 0x80 \<le> b \<and> b \<le> 0x8F else continues b)
         then (if continues (byte_at s 2)
               then (if continues (byte_at s 3) then Inr 4 else Inl 3) else Inl 2) else Inl 1)
      else Inl 1)"

lemma utf8_head_pos:
  "utf8_head s = Inr n \<Longrightarrow> 0 < n"
  "utf8_head s = Inl n \<Longrightarrow> 0 < n"
  by (auto simp: utf8_head_def Let_def split: if_splits)

function from_utf8_lossy :: "string \<Rightarrow> string" where
  "from_utf8_lossy s =
     (if s = [] then []
      else case utf8_head s of
             Inr n \<Rightarrow> take n s @ from_utf8_lossy (drop n s)
           | Inl n \<Rightarrow> [CHR 0xEF, CHR 0xBF, CHR 0xBD] @ from_utf8_lossy (drop n s))"
  by auto
termination
  by (relation "measure length") (auto dest: utf8_head_pos intro: diff_less)

function utf8_valid :: "string \<Rightarrow> bool" where
  "utf8_valid s =
     (if s = [] then True
      else case utf8_head s of Inr n \<Rightarrow> utf8_valid (drop n s) | Inl n \<Rightarrow> False)"
  by auto
termination
  by (relation "measure length") (auto dest: utf8_head_pos intro: diff_less)

declare from_utf8_lossy.simps [simp del] utf8_valid.simps [simp del]

text \<open>\<^verbatim>\<open>str::from_utf8\<close> and \<^verbatim>\<open>String::from_utf8\<close>.\<close>

definition from_utf8 :: "string \<Rightarrow> string option" where
  "from_utf8 s = (if utf8_valid s then Some s else None)"

text \<open>
  The characters of a text as code points, with the encoding that \<^verbatim>\<open>String::push\<close> and \<^verbatim>\<open>collect\<close> use, and the
  control characters of \<^verbatim>\<open>char::is_control\<close>.
\<close>

definition code_point :: "string \<Rightarrow> nat" where
  "code_point s =
     (let a = byte_at s 0; b = byte_at s 1 mod 64; c = byte_at s 2 mod 64; d = byte_at s 3 mod 64 in
      if a < 0x80 then a
      else if a < 0xE0 then (a mod 32) * 64 + b
      else if a < 0xF0 then (a mod 16) * 64 ^ 2 + b * 64 + c
      else (a mod 8) * 64 ^ 3 + b * 64 ^ 2 + c * 64 + d)"

function str_chars :: "string \<Rightarrow> nat list" where
  "str_chars s =
     (if s = [] then []
      else case utf8_head s of
             Inr n \<Rightarrow> code_point (take n s) # str_chars (drop n s)
           | Inl n \<Rightarrow> 0xFFFD # str_chars (drop n s))"
  by auto
termination
  by (relation "measure length") (auto dest: utf8_head_pos intro: diff_less)

declare str_chars.simps [simp del]

definition encode_utf8 :: "nat \<Rightarrow> string" where
  "encode_utf8 c =
     (if c < 0x80 then [char_of c]
      else if c < 0x800 then [char_of (0xC0 + c div 64), char_of (0x80 + c mod 64)]
      else if c < 0x10000
        then [char_of (0xE0 + c div 64 ^ 2), char_of (0x80 + c div 64 mod 64), char_of (0x80 + c mod 64)]
      else [char_of (0xF0 + c div 64 ^ 3), char_of (0x80 + c div 64 ^ 2 mod 64),
            char_of (0x80 + c div 64 mod 64), char_of (0x80 + c mod 64)])"

definition chars_str :: "nat list \<Rightarrow> string" where
  "chars_str cs = concat (map encode_utf8 cs)"

definition is_control :: "nat \<Rightarrow> bool" where
  "is_control c = (c < 32 \<or> 127 \<le> c \<and> c < 160)"

text \<open>\<^verbatim>\<open>str::strip_suffix\<close> of one ASCII character.\<close>

definition strip_suffix :: "char \<Rightarrow> string \<Rightarrow> string option" where
  "strip_suffix c s = (if s \<noteq> [] \<and> List.last s = c then Some (butlast s) else None)"

section \<open>Lemmas\<close>


lemma find_sub_Some:
  "find_sub needle s = Some i \<Longrightarrow> i \<le> length s \<and> prefix needle (drop i s) \<and> (\<forall>j < i. \<not> prefix needle (drop j s))"
proof (induction needle s arbitrary: i rule: find_sub.induct)
  case (1 needle)
  then show ?case by (auto split: if_splits)
next
  case (2 needle c s)
  show ?case
  proof (cases "prefix needle (c # s)")
    case True
    with "2.prems" show ?thesis by simp
  next
    case False
    then obtain k where k: "find_sub needle s = Some k" "i = Suc k" using "2.prems" by auto
    with "2.IH" [OF False k(1)] False show ?thesis
      by (auto simp: less_Suc_eq_0_disj)
  qed
qed

lemma find_sub_le: "find_sub needle s = Some i \<Longrightarrow> i + length needle \<le> length s"
  using find_sub_Some [of needle s i] prefix_length_le [of needle "drop i s"] by auto

lemma find_sub_None: "find_sub needle s = None \<longleftrightarrow> (\<forall>j \<le> length s. \<not> prefix needle (drop j s))"
proof (induction needle s rule: find_sub.induct)
  case (2 needle c s)
  have "(\<forall>j \<le> length (c # s). \<not> prefix needle (drop j (c # s)))
      \<longleftrightarrow> \<not> prefix needle (c # s) \<and> (\<forall>j \<le> length s. \<not> prefix needle (drop j s))"
    by (metis (no_types, lifting) Suc_le_mono drop0 drop_Suc_Cons length_Cons less_eq_nat.simps(1) not0_implies_Suc)
  with "2.IH" show ?case by auto
qed simp

lemma split_once_Some: "split_once c s = Some (a, b) \<longleftrightarrow> s = a @ c # b \<and> c \<notin> set a"
proof
  assume "split_once c s = Some (a, b)"
  then obtain i where i: "find_index (\<lambda>x. x = c) s = Some i" "a = take i s" "b = drop (Suc i) s"
    by (auto simp: split_once_def memchr_def)
  have "i < length s" "s ! i = c" using i(1) by (auto dest: find_index_lt find_index_nth)
  moreover have "c \<notin> set (take i s)"
    using find_index_SomeD [OF i(1)] by (auto simp: in_set_conv_nth)
  ultimately show "s = a @ c # b \<and> c \<notin> set a"
    using i(2,3) by (metis id_take_nth_drop)
next
  assume s: "s = a @ c # b \<and> c \<notin> set a"
  have "find_index (\<lambda>x. x = c) (a @ c # b) = Some (length a)" if "c \<notin> set a"
    using that by (induction a) auto
  with s show "split_once c s = Some (a, b)" by (simp add: split_once_def memchr_def)
qed

text \<open>A character is read from its own bytes only.\<close>

lemma byte_at_append: "i < length s \<Longrightarrow> byte_at (s @ t) i = byte_at s i"
  by (simp add: byte_at_def nth_append)

lemma byte_at_out: "length s \<le> i \<Longrightarrow> byte_at s i = 0"
  by (simp add: byte_at_def)

lemma utf8_head_length:
  assumes "utf8_head s = Inr n" "s \<noteq> []"
  shows "n \<le> length s"
proof (rule ccontr)
  assume "\<not> n \<le> length s"
  then have "byte_at s (n - 1) = 0" "n \<noteq> 1" using assms(2) by (auto intro: byte_at_out simp: Suc_le_eq)
  with assms(1) show False
    by (auto simp: utf8_head_def Let_def continues_def Suc_le_eq split: if_splits)
qed

lemma utf8_head_cong:
  assumes "utf8_head s = Inr n" "\<forall>i < n. byte_at t i = byte_at s i"
  shows "utf8_head t = Inr n"
proof -
  have n: "0 < n" using assms(1) by (rule utf8_head_pos)
  have "byte_at t 0 = byte_at s 0" using assms(2) n by simp
  moreover have "1 < n \<Longrightarrow> byte_at t 1 = byte_at s 1" "2 < n \<Longrightarrow> byte_at t 2 = byte_at s 2" "3 < n \<Longrightarrow> byte_at t 3 = byte_at s 3"
    using assms(2) by simp_all
  ultimately show ?thesis
    using assms(1) by (auto simp: utf8_head_def Let_def split: if_splits)
qed

lemma utf8_head_append:
  assumes "utf8_head s = Inr n" "s \<noteq> []"
  shows "utf8_head (s @ t) = Inr n"
proof (rule utf8_head_cong [OF assms(1)])
  show "\<forall>i < n. byte_at (s @ t) i = byte_at s i"
    using utf8_head_length [OF assms] by (simp add: byte_at_append)
qed

lemma utf8_head_take:
  assumes "utf8_head s = Inr n" "s \<noteq> []"
  shows "utf8_head (take n s) = Inr n"
proof (rule utf8_head_cong [OF assms(1)])
  show "\<forall>i < n. byte_at (take n s) i = byte_at s i"
    using utf8_head_length [OF assms] by (simp add: byte_at_def)
qed

lemma utf8_valid_append: "utf8_valid s \<Longrightarrow> utf8_valid (s @ t) = utf8_valid t"
proof (induction s rule: utf8_valid.induct)
  case (1 s)
  show ?case
  proof (cases "s = []")
    case False
    then obtain n where n: "utf8_head s = Inr n" "utf8_valid (drop n s)"
      using "1.prems" by (auto simp: utf8_valid.simps [of s] split: sum.splits)
    have "drop n (s @ t) = drop n s @ t" using utf8_head_length [OF n(1) False] by simp
    with "1.IH" [OF False n] utf8_head_append [OF n(1) False] False show ?thesis
      by (simp add: utf8_valid.simps [of "s @ t"])
  qed simp
qed

lemma utf8_valid_char: "s \<noteq> [] \<Longrightarrow> utf8_head s = Inr n \<Longrightarrow> utf8_valid (take n s)"
  using utf8_head_take [of s n] by (simp add: utf8_valid.simps [of "take n s"] utf8_valid.simps [of "[]"])

lemma replacement_valid: "utf8_valid [CHR 0xEF, CHR 0xBF, CHR 0xBD]"
  by (simp add: utf8_valid.simps utf8_head_def byte_at_def continues_def)

lemma from_utf8_lossy_valid: "utf8_valid (from_utf8_lossy s)"
proof (induction s rule: from_utf8_lossy.induct)
  case (1 s)
  show ?case
  proof (cases "s = []")
    case True
    then show ?thesis by (simp add: from_utf8_lossy.simps utf8_valid.simps)
  next
    case False
    with 1 show ?thesis
      using utf8_valid_append [OF replacement_valid]
      by (auto simp: from_utf8_lossy.simps [of s] utf8_valid_append utf8_valid_char split: sum.splits)
  qed
qed

lemma from_utf8_lossy_id: "utf8_valid s \<Longrightarrow> from_utf8_lossy s = s"
proof (induction s rule: from_utf8_lossy.induct)
  case (1 s)
  then show ?case
    by (auto simp: from_utf8_lossy.simps [of s] utf8_valid.simps [of s] split: sum.splits if_splits)
qed

lemma from_utf8_Some [simp]: "from_utf8 s = Some t \<longleftrightarrow> t = s \<and> utf8_valid s"
  by (auto simp: from_utf8_def)

text \<open>Cutting at an ASCII byte keeps both parts UTF-8.\<close>

lemma utf8_head_ascii: "byte_at s 0 < 128 \<Longrightarrow> utf8_head s = Inr 1"
  by (simp add: utf8_head_def Let_def)

lemma utf8_head_continues:
  assumes "utf8_head s = Inr n" "0 < i" "i < n"
  shows "128 \<le> byte_at s i"
proof -
  have "n \<le> 4" using assms(1) by (auto simp: utf8_head_def Let_def split: if_splits)
  then consider "i = 1" | "i = 2" | "i = 3" using assms(2,3) by linarith
  then show ?thesis
    by cases (use assms in \<open>auto simp: utf8_head_def Let_def continues_def split: if_splits\<close>)
qed

lemma utf8_valid_Nil [simp]: "utf8_valid []"
  by (simp add: utf8_valid.simps)

lemma utf8_split:
  assumes "utf8_valid (a @ c # b)" "of_char c < (128 :: nat)"
  shows "utf8_valid a \<and> utf8_valid b"
  using assms(1)
proof (induction "length a" arbitrary: a rule: less_induct)
  case less
  obtain n where n: "utf8_head (a @ c # b) = Inr n" "utf8_valid (drop n (a @ c # b))"
    using less.prems by (auto simp: utf8_valid.simps [of "a @ c # b"] split: sum.splits)
  show ?case
  proof (cases "a = []")
    case True
    then have "n = 1" using n(1) utf8_head_ascii [of "c # b"] assms(2) by (simp add: byte_at_def)
    with n(2) True show ?thesis by simp
  next
    case False
    have "\<not> length a < n"
      using utf8_head_continues [OF n(1), of "length a"] False assms(2) by (auto simp: byte_at_def)
    then have le: "n \<le> length a" by simp
    then have "drop n (a @ c # b) = drop n a @ c # b" by simp
    moreover have "0 < n" using n(1) by (rule utf8_head_pos)
    ultimately have rest: "utf8_valid (drop n a) \<and> utf8_valid b"
      using less.hyps [of "drop n a"] n(2) False le by simp
    have "utf8_head a = Inr n"
      using n(1) by (rule utf8_head_cong) (use le in \<open>simp add: byte_at_def nth_append\<close>)
    with rest False show ?thesis by (simp add: utf8_valid.simps [of a])
  qed
qed

lemma utf8_split_once: "split_once c s = Some (a, b) \<Longrightarrow> utf8_valid s \<Longrightarrow> of_char c < (128 :: nat) \<Longrightarrow> utf8_valid a \<and> utf8_valid b"
  using utf8_split [of a c b] by (simp add: split_once_Some)

lemma utf8_splitn: "utf8_valid s \<Longrightarrow> of_char c < (128 :: nat) \<Longrightarrow> list_all utf8_valid (splitn n c s)"
proof (induction n c s rule: splitn.induct)
  case (3 n c s)
  then show ?case using utf8_split_once [of c s] by (auto split: option.splits)
qed simp_all

section \<open>Pieces\<close>

lemma split_on_none: "c \<notin> set s \<Longrightarrow> split_on c s = [s]"
  by (induction s) auto

lemma split_on_first: "c \<notin> set a \<Longrightarrow> split_on c (a @ c # b) = a # split_on c b"
  by (induction a) auto

lemma split_once_none: "c \<notin> set s \<Longrightarrow> split_once c s = None"
  by (auto simp: split_once_def memchr_def lookup_simps)

lemma split_once_first: "c \<notin> set a \<Longrightarrow> split_once c (a @ c # b) = Some (a, b)"
  by (simp add: split_once_Some)

lemma split_on_nonempty [simp]: "split_on c s \<noteq> []"
  by (cases s) (auto split: list.splits)

lemma join_Cons: "join_with c ((x # f) # fs) = x # join_with c (f # fs)"
  by (cases fs) simp_all

lemma join_split: "join_with c (split_on c s) = s"
proof (induction s)
  case (Cons x s)
  obtain f fs where f: "split_on c s = f # fs" by (cases "split_on c s") simp_all
  with Cons show ?case by (auto simp: join_Cons)
qed simp

lemma split_pieces: "fld \<in> set (split_on c s) \<Longrightarrow> c \<notin> set fld \<and> set fld \<subseteq> set s"
proof (induction s arbitrary: fld)
  case (Cons x s)
  then show ?case by (cases "split_on c s") (fastforce split: if_splits)+
qed simp

lemma split_join: "fs \<noteq> [] \<Longrightarrow> list_all (\<lambda>f. c \<notin> set f) fs \<Longrightarrow> split_on c (join_with c fs) = fs"
  by (induction c fs rule: join_with.induct) (simp_all add: split_on_none split_on_first)

lemma set_join: "set (join_with c fs) \<subseteq> insert c (\<Union> (set ` set fs))"
  by (induction c fs rule: join_with.induct) auto

lemma ascii_valid: "list_all (\<lambda>c. of_char c < (128 :: nat)) s \<Longrightarrow> utf8_valid s"
proof (induction s)
  case (Cons c s)
  then have "utf8_head (c # s) = Inr 1" by (simp add: utf8_head_def byte_at_def)
  with Cons show ?case by (simp add: utf8_valid.simps [of "c # s"])
qed (simp add: utf8_valid.simps)

lemma strip_suffix_Some: "strip_suffix c s = Some t \<longleftrightarrow> s = t @ [c]"
  by (cases s rule: rev_cases) (auto simp: strip_suffix_def)

section \<open>Encoding characters\<close>


text \<open>The values of \<^verbatim>\<open>char\<close>: code points without surrogates.\<close>

definition is_scalar :: "nat \<Rightarrow> bool" where
  "is_scalar c \<longleftrightarrow> c < 0xD800 \<or> 0xE000 \<le> c \<and> c < 0x110000"

lemma lead_byte: "a < n \<Longrightarrow> (k * n + a) mod n = (a :: nat)"
  by simp

lemmas lead_bytes =
  lead_byte [of _ 64 2, simplified] lead_byte [of _ 32 6, simplified] lead_byte [of _ 16 14, simplified]
  lead_byte [of _ 8 30, simplified]

lemma base_64: "c = c div 64 ^ 2 * 64 ^ 2 + c div 64 mod 64 * 64 + c mod (64 :: nat)"
proof -
  have "c div 64 ^ 2 = c div 64 div 64" by (simp add: power2_eq_square div_mult2_eq flip: div_mult2_eq)
  moreover have "c div 64 div 64 * 4096 + c div 64 mod 64 * 64 + c mod 64 = c"
    using div_mult_mod_eq [of c 64] div_mult_mod_eq [of "c div 64" 64] by linarith
  ultimately show ?thesis by simp
qed

lemma base_64_four:
  "c = c div 64 ^ 3 * 64 ^ 3 + c div 64 ^ 2 mod 64 * 64 ^ 2 + c div 64 mod 64 * 64 + c mod (64 :: nat)"
proof -
  have "c div 64 ^ 3 = c div 64 ^ 2 div 64" by (simp add: flip: div_mult2_eq)
  moreover have "c div 4096 * 4096 + c div 64 mod 64 * 64 + c mod 64 = c" using base_64 [of c] by simp
  then have "c div 4096 div 64 * 262144 + c div 4096 mod 64 * 4096 + c div 64 mod 64 * 64 + c mod 64 = c"
    using div_mult_mod_eq [of "c div 4096" 64] by linarith
  ultimately show ?thesis by simp
qed

lemma encode_one: "c < 0x80 \<Longrightarrow> utf8_head (encode_utf8 c) = Inr (length (encode_utf8 c)) \<and> code_point (encode_utf8 c) = c"
  by (simp add: encode_utf8_def utf8_head_def code_point_def byte_at_def)

lemma encode_two:
  assumes "0x80 \<le> c" "c < 0x800"
  shows "utf8_head (encode_utf8 c) = Inr (length (encode_utf8 c)) \<and> code_point (encode_utf8 c) = c"
proof -
  have a: "c div 64 < 32" "2 \<le> c div 64" using assms by linarith+
  have "length (encode_utf8 c) = 2" using assms by (simp add: encode_utf8_def)
  moreover have "byte_at (encode_utf8 c) 0 = 192 + c div 64" "byte_at (encode_utf8 c) 1 = 128 + c mod 64"
    using assms a by (simp_all add: encode_utf8_def byte_at_def)
  ultimately show ?thesis
    using a by (simp add: utf8_head_def code_point_def Let_def continues_def lead_bytes)
qed

lemma encode_three:
  assumes "0x800 \<le> c" "c < 0x10000" "is_scalar c"
  shows "utf8_head (encode_utf8 c) = Inr (length (encode_utf8 c)) \<and> code_point (encode_utf8 c) = c"
proof -
  define x y z where "x = c div 64 ^ 2" and "y = c div 64 mod 64" and "z = c mod 64"
  have c: "c = x * 64 ^ 2 + y * 64 + z" using base_64 [of c] by (simp add: x_def y_def z_def)
  have b: "x < 16" "y < 64" "z < 64" using assms(2) by (auto simp: x_def y_def z_def)
  have "length (encode_utf8 c) = 3" using assms(1,2) by (simp add: encode_utf8_def)
  moreover have "byte_at (encode_utf8 c) 0 = 224 + x" "byte_at (encode_utf8 c) 1 = 128 + y" "byte_at (encode_utf8 c) 2 = 128 + z"
    using assms(1,2) b by (simp_all add: encode_utf8_def byte_at_def x_def y_def z_def)
  moreover have "x = 0 \<Longrightarrow> 32 \<le> y" "x = 13 \<longrightarrow> y \<le> 31" using c assms b by (auto simp: is_scalar_def)
  ultimately show ?thesis
    using b c by (simp add: utf8_head_def code_point_def Let_def continues_def lead_bytes)
qed

lemma encode_four:
  assumes "0x10000 \<le> c" "is_scalar c"
  shows "utf8_head (encode_utf8 c) = Inr (length (encode_utf8 c)) \<and> code_point (encode_utf8 c) = c"
proof -
  define w x y z where "w = c div 64 ^ 3" and "x = c div 64 ^ 2 mod 64" and "y = c div 64 mod 64" and "z = c mod 64"
  have c: "c = w * 64 ^ 3 + x * 64 ^ 2 + y * 64 + z" using base_64_four [of c] by (simp add: w_def x_def y_def z_def)
  have b: "w < 5" "x < 64" "y < 64" "z < 64" using assms by (auto simp: is_scalar_def w_def x_def y_def z_def)
  have "length (encode_utf8 c) = 4" using assms(1) by (simp add: encode_utf8_def)
  moreover have "byte_at (encode_utf8 c) 0 = 240 + w" "byte_at (encode_utf8 c) 1 = 128 + x"
      "byte_at (encode_utf8 c) 2 = 128 + y" "byte_at (encode_utf8 c) 3 = 128 + z"
    using assms(1) b by (simp_all add: encode_utf8_def byte_at_def w_def x_def y_def z_def)
  moreover have "w = 0 \<Longrightarrow> 16 \<le> x" "w = 4 \<longrightarrow> x \<le> 15" using c assms b by (auto simp: is_scalar_def)
  ultimately show ?thesis
    using b c by (simp add: utf8_head_def code_point_def Let_def continues_def lead_bytes)
qed

lemma encode_utf8_head:
  assumes "is_scalar c"
  shows "utf8_head (encode_utf8 c) = Inr (length (encode_utf8 c))" "code_point (encode_utf8 c) = c" "encode_utf8 c \<noteq> []"
proof -
  consider "c < 0x80" | "0x80 \<le> c" "c < 0x800" | "0x800 \<le> c" "c < 0x10000" | "0x10000 \<le> c" by linarith
  then have "utf8_head (encode_utf8 c) = Inr (length (encode_utf8 c)) \<and> code_point (encode_utf8 c) = c"
    using assms encode_one encode_two encode_three encode_four by (cases; blast)
  then show "utf8_head (encode_utf8 c) = Inr (length (encode_utf8 c))" "code_point (encode_utf8 c) = c" by simp_all
  show "encode_utf8 c \<noteq> []" by (simp add: encode_utf8_def)
qed

lemma str_chars_encode: "is_scalar c \<Longrightarrow> str_chars (encode_utf8 c @ s) = c # str_chars s"
  using encode_utf8_head [of c] utf8_head_append [of "encode_utf8 c"]
  by (simp add: str_chars.simps [of "encode_utf8 c @ s"])

lemma str_chars_chars_str: "list_all is_scalar cs \<Longrightarrow> str_chars (chars_str cs) = cs"
  by (induction cs) (simp_all add: chars_str_def str_chars_encode str_chars.simps [of "[]"])

text \<open>An ASCII byte in the encoding of a character is the character.\<close>

lemma encode_utf8_ascii:
  assumes "b \<in> set (encode_utf8 c)" "of_char b < (128 :: nat)" "is_scalar c"
  shows "encode_utf8 c = [b] \<and> c = of_char b"
proof (cases "c < 0x80")
  case True
  then show ?thesis using assms(1) by (simp add: encode_utf8_def)
next
  case False
  have "\<not> (of_char (char_of (n :: nat)) :: nat) < 128" if "128 \<le> n" "n < 256" for n using that by simp
  moreover have "c div 64 < 32" if "c < 2048" using that by simp
  moreover have "c div 64 ^ 2 < 16" if "c < 65536" using that by simp
  moreover have "c div 64 ^ 3 < 5" using assms(3) by (simp add: is_scalar_def) linarith
  moreover have "128 + x mod 64 < (256 :: nat)" for x :: nat using mod_less_divisor [of 64 x] by linarith
  ultimately show ?thesis
    using assms(1,2) False by (auto simp: encode_utf8_def split: if_splits)
qed

end
