(* ===== verification/Clipboard_Write.thy ===== *)
theory Clipboard_Write
  imports Rust_Text
begin

text \<open>
  \<^verbatim>\<open>crates/bootty-terminal/src/clipboard_write.rs\<close>: assembling an image that a program writes to the
  clipboard in OSC 5522 packets.  The base64 decoder is a library and a parameter here.  Shown: what
  any sequence of packets can produce is bounded, typed and free of control bytes, and the packets of
  a well-behaved sender give exactly the image it sent.
\<close>

definition MAX_PACKET :: nat where "MAX_PACKET = 8192"
definition MAX_IMAGE :: nat where "MAX_IMAGE = 16 * 1024 * 1024"

record image_write =
  iw_id :: string
  iw_mime :: string
  iw_data :: string

datatype clipboard_result = Clipboard_Reply string | Clipboard_Image image_write

definition id_byte :: "char \<Rightarrow> bool" where
  "id_byte b =
     (let n = of_char b :: nat in
      48 \<le> n \<and> n \<le> 57 \<or> 65 \<le> n \<and> n \<le> 90 \<or> 97 \<le> n \<and> n \<le> 122 \<or> b \<in> set ''-_.+'')"

definition reply :: "string \<Rightarrow> string \<Rightarrow> string \<Rightarrow> string" where
  "reply knd ident status =
     (CHR 0x1B # '']5522;type='') @ knd @ '':status='' @ status @ '':id=''
     @ filter id_byte (take 128 ident) @ [CHR 0x1B, CHR 0x5C]"

definition fail :: "string \<Rightarrow> image_write option \<Rightarrow> clipboard_result option \<times> image_write option" where
  "fail status act =
     (case act of None \<Rightarrow> (None, None)
      | Some i \<Rightarrow> (Some (Clipboard_Reply (reply ''write'' (iw_id i) status)), None))"

text \<open>The closure \<^verbatim>\<open>field\<close>: the value of the first pair with this key.\<close>

fun first_pair :: "string \<Rightarrow> string list \<Rightarrow> string option" where
  "first_pair key [] = None"
| "first_pair key (s # ss) =
     (case split_once (CHR ''='') s of
        None \<Rightarrow> first_pair key ss
      | Some (k, v) \<Rightarrow> if k = key then Some v else first_pair key ss)"

definition field :: "string \<Rightarrow> string \<Rightarrow> string option" where
  "field metadata key = first_pair key (split_on (CHR '':'') metadata)"

definition image_mimes :: "string list" where
  "image_mimes = [''image/png'', ''image/jpeg'', ''image/jpg'', ''image/gif'', ''image/webp'']"

definition start_write ::
  "string \<Rightarrow> string \<Rightarrow> bool \<Rightarrow> clipboard_result option \<times> image_write option" where
  "start_write metadata ident allowed =
     (let err = (if \<not> allowed then Some ''EPERM''
                 else if (case field metadata ''loc'' of None \<Rightarrow> False | Some s \<Rightarrow> s \<noteq> ''clipboard'')
                 then Some ''ENOSYS'' else None)
      in case err of
           Some e \<Rightarrow> (Some (Clipboard_Reply (reply ''write'' ident e)), None)
         | None \<Rightarrow> (None, Some \<lparr>iw_id = ident, iw_mime = [], iw_data = []\<rparr>))"

definition take_chunk ::
  "(string \<Rightarrow> string option) \<Rightarrow> string option \<Rightarrow> string \<Rightarrow> image_write \<Rightarrow>
   clipboard_result option \<times> image_write option" where
  "take_chunk decode mime data i =
     (case Option.bind (Option.bind mime decode) from_utf8 of
        None \<Rightarrow> fail ''EINVAL'' (Some i)
      | Some m \<Rightarrow>
          if m \<notin> set image_mimes then fail ''EINVAL'' (Some i)
          else case decode data of
                 None \<Rightarrow> fail ''EINVAL'' (Some i)
               | Some chunk \<Rightarrow>
                   if chunk = [] \<or> 4096 < length chunk
                      \<or> MAX_IMAGE < sat_add 64 (length (iw_data i)) (length chunk)
                      \<or> iw_mime i \<noteq> [] \<and> iw_mime i \<noteq> m
                   then fail ''EINVAL'' (Some i)
                   else (None, Some (i\<lparr>iw_mime := m, iw_data := iw_data i @ chunk\<rparr>)))"

definition write_data ::
  "(string \<Rightarrow> string option) \<Rightarrow> string \<Rightarrow> string \<Rightarrow> bool \<Rightarrow> image_write option \<Rightarrow>
   clipboard_result option \<times> image_write option" where
  "write_data decode metadata data allowed act =
     (case act of
        None \<Rightarrow> (None, None)
      | Some i \<Rightarrow>
          if \<not> allowed then fail ''EPERM'' act
          else if field metadata ''mime'' = None \<and> data = [] then
            (Some (if iw_data i = [] then Clipboard_Reply (reply ''write'' (iw_id i) ''EINVAL'')
                   else Clipboard_Image i), None)
          else take_chunk decode (field metadata ''mime'') data i)"

definition feed_packet ::
  "(string \<Rightarrow> string option) \<Rightarrow> string \<Rightarrow> bool \<Rightarrow> image_write option \<Rightarrow>
   clipboard_result option \<times> image_write option" where
  "feed_packet decode packet allowed act =
     (if MAX_PACKET < length packet then fail ''EINVAL'' act
      else case from_utf8 packet of
        None \<Rightarrow> fail ''EINVAL'' act
      | Some packet \<Rightarrow>
          (let (metadata, data) = (case split_once (CHR '';'') packet of None \<Rightarrow> (packet, []) | Some p \<Rightarrow> p);
               ident = (case field metadata ''id'' of None \<Rightarrow> [] | Some v \<Rightarrow> v)
           in if 128 < length ident \<or> \<not> list_all id_byte ident then fail ''EINVAL'' act
              else if field metadata ''type'' = Some ''read'' then
                (Some (Clipboard_Reply (reply ''read'' ident ''ENOSYS'')), act)
              else if field metadata ''type'' = Some ''write'' then start_write metadata ident allowed
              else if field metadata ''type'' = Some ''wdata'' then write_data decode metadata data allowed act
              else if field metadata ''type'' = Some ''walias'' then fail ''ENOSYS'' act
              else fail ''EINVAL'' act))"

text \<open>A run over the packets of a stream, with the permission in force at each.\<close>

fun feed_packets ::
  "(string \<Rightarrow> string option) \<Rightarrow> (string \<times> bool) list \<Rightarrow> image_write option \<Rightarrow>
   clipboard_result list \<times> image_write option" where
  "feed_packets decode [] act = ([], act)"
| "feed_packets decode ((packet, allowed) # ps) act =
     (let (r, act1) = feed_packet decode packet allowed act;
          (rs, act2) = feed_packets decode ps act1
      in ((case r of None \<Rightarrow> [] | Some x \<Rightarrow> [x]) @ rs, act2))"

section \<open>What packets can produce\<close>

definition image_ok :: "image_write \<Rightarrow> bool" where
  "image_ok i \<longleftrightarrow>
     list_all id_byte (iw_id i) \<and> length (iw_id i) \<le> 128 \<and> length (iw_data i) \<le> MAX_IMAGE
     \<and> (if iw_data i = [] then iw_mime i = [] else iw_mime i \<in> set image_mimes)"

definition active_ok :: "image_write option \<Rightarrow> bool" where
  "active_ok act \<longleftrightarrow> (case act of None \<Rightarrow> True | Some i \<Rightarrow> image_ok i)"

text \<open>A reply is one control sequence: nothing in its body can end it or start another.\<close>

definition reply_ok :: "string \<Rightarrow> bool" where
  "reply_ok r \<longleftrightarrow> length r \<le> 165 \<and>
     (\<exists>body. r = (CHR 0x1B # '']5522;'') @ body @ [CHR 0x1B, CHR 0x5C]
       \<and> list_all (\<lambda>c. 32 \<le> (of_char c :: nat) \<and> of_char c < (127 :: nat)) body)"

definition result_ok :: "clipboard_result \<Rightarrow> bool" where
  "result_ok r \<longleftrightarrow>
     (case r of Clipboard_Reply s \<Rightarrow> reply_ok s
      | Clipboard_Image i \<Rightarrow> image_ok i \<and> iw_data i \<noteq> [])"

definition outcome_ok :: "clipboard_result option \<times> image_write option \<Rightarrow> bool" where
  "outcome_ok p \<longleftrightarrow> (case fst p of None \<Rightarrow> True | Some r \<Rightarrow> result_ok r) \<and> active_ok (snd p)"

lemma id_byte_printable: "id_byte c \<Longrightarrow> 32 \<le> (of_char c :: nat) \<and> of_char c < (127 :: nat)"
  by (auto simp: id_byte_def Let_def)

lemma length_reply: "length (reply knd ident status) \<le> length knd + length status + 154"
  using length_filter_le [of id_byte "take 128 ident"] by (simp add: reply_def)

lemma reply_result_ok:
  assumes len: "length knd + length status \<le> 11"
    and "list_all (\<lambda>c. 32 \<le> (of_char c :: nat) \<and> of_char c < (127 :: nat)) (knd @ status)"
  shows "result_ok (Clipboard_Reply (reply knd ident status))"
proof -
  have "list_all (\<lambda>c. 32 \<le> (of_char c :: nat) \<and> of_char c < (127 :: nat)) (filter id_byte (take 128 ident))"
    using id_byte_printable by (auto simp: list_all_iff)
  then have "reply_ok (reply knd ident status)"
    unfolding reply_ok_def
  proof (intro conjI exI)
    show "length (reply knd ident status) \<le> 165" using length_reply [of knd ident status] len by linarith
    show "reply knd ident status = (CHR 0x1B # '']5522;'')
        @ (''type='' @ knd @ '':status='' @ status @ '':id='' @ filter id_byte (take 128 ident)) @ [CHR 0x1B, CHR 0x5C]"
      by (simp add: reply_def)
  qed (use assms in simp)
  then show ?thesis by (simp add: result_ok_def)
qed

lemma outcome_reply [simp]:
  "outcome_ok (Some (Clipboard_Reply (reply ''write'' ident ''EINVAL'')), None)"
  "outcome_ok (Some (Clipboard_Reply (reply ''write'' ident ''EPERM'')), None)"
  "outcome_ok (Some (Clipboard_Reply (reply ''write'' ident ''ENOSYS'')), None)"
  "active_ok act \<Longrightarrow> outcome_ok (Some (Clipboard_Reply (reply ''read'' ident ''ENOSYS'')), act)"
  by (simp_all add: outcome_ok_def reply_result_ok active_ok_def)

lemma fail_ok [simp]:
  "outcome_ok (fail ''EINVAL'' act)" "outcome_ok (fail ''EPERM'' act)" "outcome_ok (fail ''ENOSYS'' act)"
  by (simp_all add: fail_def split: option.splits) (simp_all add: outcome_ok_def active_ok_def)

lemma start_write_ok:
  "list_all id_byte ident \<Longrightarrow> length ident \<le> 128 \<Longrightarrow> outcome_ok (start_write metadata ident allowed)"
  by (auto simp: start_write_def Let_def split: option.splits)
     (auto simp: outcome_ok_def active_ok_def image_ok_def)

lemma mime_nonempty: "[] \<notin> set image_mimes"
  by (simp add: image_mimes_def)

lemma take_chunk_ok:
  assumes "image_ok i"
  shows "outcome_ok (take_chunk decode mime data i)"
proof -
  have accepted: "outcome_ok (None, Some (i\<lparr>iw_mime := m, iw_data := iw_data i @ chunk\<rparr>))"
    if "m \<in> set image_mimes" "chunk \<noteq> []" "\<not> MAX_IMAGE < sat_add 64 (length (iw_data i)) (length chunk)" for m chunk
    using that assms by (auto simp: outcome_ok_def active_ok_def image_ok_def sat_add_def MAX_IMAGE_def)
  show ?thesis
    unfolding take_chunk_def by (simp split: option.splits add: accepted)
qed

lemma write_data_ok:
  assumes "active_ok act"
  shows "outcome_ok (write_data decode metadata data allowed act)"
proof (cases act)
  case None
  then show ?thesis by (simp add: write_data_def outcome_ok_def active_ok_def)
next
  case (Some i)
  then have "image_ok i" using assms by (simp add: active_ok_def)
  then have "outcome_ok (take_chunk decode (field metadata ''mime'') data i)"
    "iw_data i \<noteq> [] \<Longrightarrow> outcome_ok (Some (Clipboard_Image i), None)"
    by (simp_all add: take_chunk_ok) (simp add: outcome_ok_def active_ok_def result_ok_def)
  then show ?thesis by (simp add: write_data_def Some)
qed

lemma feed_ok: "active_ok act \<Longrightarrow> outcome_ok (feed_packet decode packet allowed act)"
  unfolding feed_packet_def
  by (simp add: write_data_ok start_write_ok Let_def not_less split: option.splits prod.splits)

interpretation clip: invariant_machine "\<lambda>(packet, allowed) act. snd (feed_packet decode packet allowed act)" active_ok "\<lambda>_. True"
  for decode
  using feed_ok by unfold_locales (auto simp: outcome_ok_def)

lemma feed_all_results_ok: "active_ok act \<Longrightarrow> list_all result_ok (fst (feed_packets decode ps act))"
proof (induction ps arbitrary: act)
  case (Cons p ps)
  obtain packet allowed where p: "p = (packet, allowed)" by force
  have "outcome_ok (feed_packet decode packet allowed act)" using Cons.prems by (rule feed_ok)
  with Cons.IH [of "snd (feed_packet decode packet allowed act)"] show ?case
    by (simp add: p outcome_ok_def Let_def split_beta split: option.splits)
qed simp

lemma feed_all_active:
  "snd (feed_packets decode ps act) = fold (\<lambda>(packet, allowed) act. snd (feed_packet decode packet allowed act)) ps act"
proof (induction ps arbitrary: act)
  case (Cons p ps)
  obtain packet allowed where p: "p = (packet, allowed)" by force
  show ?case
    using Cons.IH [of "snd (feed_packet decode packet allowed act)"] by (simp add: p Let_def split_beta)
qed simp

text \<open>
  C33.  Whatever packets arrive, whatever the permission is at each, and whatever the decoder does:
  a delivered image is not empty, at most 16 MiB, of a listed image type and named by an identifier of
  at most 128 safe bytes, an image in assembly stays within the same bounds, and every reply is a
  single control sequence of at most 165 bytes with only printable characters in it.  The reply
  builder itself adds at most 154 bytes to the kind and the status, whatever identifier it is given.
\<close>

theorem clipboard_images_bounded:
  "list_all result_ok (fst (feed_packets decode packets None)) \<and> active_ok (snd (feed_packets decode packets None))
   \<and> length (reply knd ident status) \<le> length knd + length status + 154"
  using feed_all_results_ok [of None decode packets] clip.run_inv [of None packets decode] length_reply
  by (simp add: feed_all_active active_ok_def list_all_iff)

section \<open>A well-behaved sender\<close>

text \<open>
  The packets of a sender: one that opens the write, one for each chunk, one that ends it.  What it
  relies on of base64 is named, for the texts it encodes: decoding inverts encoding, the encoded text
  has the base64 alphabet and four characters for three bytes.
\<close>

definition base64_char :: "char \<Rightarrow> bool" where
  "base64_char c =
     (let n = of_char c :: nat in
      48 \<le> n \<and> n \<le> 57 \<or> 65 \<le> n \<and> n \<le> 90 \<or> 97 \<le> n \<and> n \<le> 122 \<or> c \<in> set ''+/='')"

definition base64_law :: "(string \<Rightarrow> string) \<Rightarrow> (string \<Rightarrow> string option) \<Rightarrow> string \<Rightarrow> bool" where
  "base64_law encode decode x \<longleftrightarrow>
     decode (encode x) = Some x \<and> list_all base64_char (encode x)
     \<and> length (encode x) \<le> 4 * ((length x + 2) div 3)"

definition open_packet :: "string \<Rightarrow> string" where
  "open_packet ident = ''type=write:id='' @ ident"

definition chunk_packet :: "(string \<Rightarrow> string) \<Rightarrow> string \<Rightarrow> string \<Rightarrow> string" where
  "chunk_packet encode mime chunk = ''type=wdata:mime='' @ encode mime @ '';'' @ encode chunk"

definition end_packet :: string where
  "end_packet = ''type=wdata''"

lemma id_byte_ascii: "id_byte c \<Longrightarrow> of_char c < (128 :: nat) \<and> c \<noteq> CHR '';'' \<and> c \<noteq> CHR '':''"
  by (auto simp: id_byte_def Let_def)

lemma base64_char_ascii: "base64_char c \<Longrightarrow> of_char c < (128 :: nat) \<and> c \<noteq> CHR '';'' \<and> c \<noteq> CHR '':''"
  by (auto simp: base64_char_def Let_def)

lemma open_fields:
  assumes "list_all id_byte ident"
  shows "split_once (CHR '';'') (open_packet ident) = None"
    "field (open_packet ident) ''id'' = Some ident" "field (open_packet ident) ''type'' = Some ''write''"
    "field (open_packet ident) ''loc'' = None" "utf8_valid (open_packet ident)"
proof -
  have ident: "CHR '';'' \<notin> set ident" "CHR '':'' \<notin> set ident" "list_all (\<lambda>c. of_char c < (128 :: nat)) ident"
    using assms id_byte_ascii by (auto simp: list_all_iff)
  have pieces: "split_on (CHR '':'') (open_packet ident) = [''type='' @ ''write'', ''id='' @ ident]"
    using split_on_first [of "CHR '':''" "''type=write''" "''id='' @ ident"] split_on_none [of "CHR '':''" "''id='' @ ident"] ident(2)
    by (simp add: open_packet_def)
  have pairs: "split_once (CHR ''='') (''type='' @ ''write'') = Some (''type'', ''write'')"
    "split_once (CHR ''='') (''id='' @ ident) = Some (''id'', ident)"
    by (simp_all add: split_once_Some)
  show "split_once (CHR '';'') (open_packet ident) = None"
    using ident(1) by (simp add: split_once_none open_packet_def)
  show "field (open_packet ident) ''id'' = Some ident" "field (open_packet ident) ''type'' = Some ''write''"
    "field (open_packet ident) ''loc'' = None"
    unfolding field_def pieces first_pair.simps pairs by simp_all
  show "utf8_valid (open_packet ident)"
    using ident(3) by (intro ascii_valid) (simp add: open_packet_def)
qed

lemma chunk_fields:
  assumes "list_all base64_char m" "list_all base64_char d"
  shows "split_once (CHR '';'') (''type=wdata:mime='' @ m @ '';'' @ d) = Some (''type=wdata:mime='' @ m, d)"
    "field (''type=wdata:mime='' @ m) ''id'' = None" "field (''type=wdata:mime='' @ m) ''type'' = Some ''wdata''"
    "field (''type=wdata:mime='' @ m) ''mime'' = Some m" "utf8_valid (''type=wdata:mime='' @ m @ '';'' @ d)"
proof -
  have md: "CHR '';'' \<notin> set m" "CHR '':'' \<notin> set m" "list_all (\<lambda>c. of_char c < (128 :: nat)) (m @ d)"
    using assms base64_char_ascii by (auto simp: list_all_iff)
  have pieces: "split_on (CHR '':'') (''type=wdata:mime='' @ m) = [''type='' @ ''wdata'', ''mime='' @ m]"
    using split_on_first [of "CHR '':''" "''type=wdata''" "''mime='' @ m"] split_on_none [of "CHR '':''" "''mime='' @ m"] md(2)
    by simp
  have pairs: "split_once (CHR ''='') (''type='' @ ''wdata'') = Some (''type'', ''wdata'')"
    "split_once (CHR ''='') (''mime='' @ m) = Some (''mime'', m)"
    by (simp_all add: split_once_Some)
  show "split_once (CHR '';'') (''type=wdata:mime='' @ m @ '';'' @ d) = Some (''type=wdata:mime='' @ m, d)"
    using md(1) by (simp add: split_once_Some)
  show "field (''type=wdata:mime='' @ m) ''id'' = None" "field (''type=wdata:mime='' @ m) ''type'' = Some ''wdata''"
    "field (''type=wdata:mime='' @ m) ''mime'' = Some m"
    unfolding field_def pieces first_pair.simps pairs by simp_all
  show "utf8_valid (''type=wdata:mime='' @ m @ '';'' @ d)"
    using md(3) by (intro ascii_valid) simp
qed

lemma feed_open:
  assumes "list_all id_byte ident" "length ident \<le> 128"
  shows "feed_packet decode (open_packet ident) True act = (None, Some \<lparr>iw_id = ident, iw_mime = [], iw_data = []\<rparr>)"
proof -
  have "length (open_packet ident) \<le> MAX_PACKET"
    using assms(2) by (simp add: open_packet_def MAX_PACKET_def)
  then show ?thesis
    using open_fields [OF assms(1)] assms by (simp add: feed_packet_def from_utf8_def start_write_def Let_def)
qed

lemma mime_facts: "mime \<in> set image_mimes \<Longrightarrow> utf8_valid mime \<and> length mime \<le> 10"
  by (auto simp: image_mimes_def intro!: ascii_valid)

lemma feed_chunk:
  assumes laws: "base64_law encode decode mime" "base64_law encode decode chunk" and mime: "mime \<in> set image_mimes"
    and chunk: "chunk \<noteq> []" "length chunk \<le> 4096" "length (iw_data i) + length chunk \<le> MAX_IMAGE"
    and same: "iw_mime i = [] \<or> iw_mime i = mime"
  shows "feed_packet decode (chunk_packet encode mime chunk) True (Some i) = (None, Some (i\<lparr>iw_mime := mime, iw_data := iw_data i @ chunk\<rparr>))"
proof -
  have enc: "list_all base64_char (encode mime)" "list_all base64_char (encode chunk)"
    "decode (encode mime) = Some mime" "decode (encode chunk) = Some chunk"
    using laws by (auto simp: base64_law_def)
  have "length (encode mime) \<le> 4 * ((length mime + 2) div 3)" "length (encode chunk) \<le> 4 * ((length chunk + 2) div 3)"
    using laws by (auto simp: base64_law_def)
  then have "length (encode mime) \<le> 16" "length (encode chunk) \<le> 5464"
    using mime_facts [OF mime] chunk(2) by linarith+
  then have "length (chunk_packet encode mime chunk) \<le> MAX_PACKET"
    by (simp add: chunk_packet_def MAX_PACKET_def)
  moreover have "take_chunk decode (Some (encode mime)) (encode chunk) i = (None, Some (i\<lparr>iw_mime := mime, iw_data := iw_data i @ chunk\<rparr>))"
    using same chunk mime mime_facts [OF mime] enc(3,4) by (auto simp: take_chunk_def from_utf8_def sat_add_def)
  moreover have "field (''type=wdata:mime='' @ encode mime) ''mime'' \<noteq> None"
    using chunk_fields(4) [OF enc(1,2)] by simp
  ultimately show ?thesis
    using chunk_fields [OF enc(1,2)] by (simp add: feed_packet_def from_utf8_def chunk_packet_def write_data_def)
qed

lemma feed_end:
  assumes "iw_data i \<noteq> []"
  shows "feed_packet decode end_packet True (Some i) = (Some (Clipboard_Image i), None)"
proof -
  have "split_once (CHR '';'') end_packet = None" by (simp add: end_packet_def split_once_none)
  moreover have "field end_packet ''id'' = None" "field end_packet ''mime'' = None" "field end_packet ''type'' = Some ''wdata''"
    by (simp_all add: field_def end_packet_def split_once_def memchr_def)
  moreover have "utf8_valid end_packet" "length end_packet \<le> MAX_PACKET"
    by (auto simp: end_packet_def MAX_PACKET_def intro!: ascii_valid)
  ultimately show ?thesis
    using assms by (simp add: feed_packet_def from_utf8_def write_data_def)
qed

lemma feed_chunks:
  assumes "list_all (base64_law encode decode) (mime # chunks)" "mime \<in> set image_mimes"
    and "list_all (\<lambda>c. c \<noteq> [] \<and> length c \<le> 4096) chunks" "length (iw_data i @ concat chunks) \<le> MAX_IMAGE"
    and "iw_mime i = [] \<or> iw_mime i = mime" "iw_data i @ concat chunks \<noteq> []"
    and "chunks = [] \<longrightarrow> iw_mime i = mime"
  shows "feed_packets decode (map (\<lambda>c. (chunk_packet encode mime c, True)) chunks @ [(end_packet, True)]) (Some i)
    = ([Clipboard_Image (i\<lparr>iw_mime := mime, iw_data := iw_data i @ concat chunks\<rparr>)], None)"
  using assms(1,3-)
proof (induction chunks arbitrary: i)
  case Nil
  then show ?case by (simp add: feed_end)
next
  case (Cons c chunks)
  have "feed_packet decode (chunk_packet encode mime c) True (Some i) = (None, Some (i\<lparr>iw_mime := mime, iw_data := iw_data i @ c\<rparr>))"
    using Cons.prems by (intro feed_chunk [OF _ _ assms(2)]) auto
  moreover have "feed_packets decode (map (\<lambda>c. (chunk_packet encode mime c, True)) chunks @ [(end_packet, True)])
      (Some (i\<lparr>iw_mime := mime, iw_data := iw_data i @ c\<rparr>))
    = ([Clipboard_Image (i\<lparr>iw_mime := mime, iw_data := iw_data i @ c, iw_mime := mime, iw_data := (iw_data i @ c) @ concat chunks\<rparr>)], None)"
    using Cons.prems by (subst Cons.IH) auto
  ultimately show ?case by simp
qed

text \<open>
  A well-behaved sender's image arrives as sent: opening a write, sending the image in chunks
  of at most 4096 bytes with its type, and ending it delivers one image, with the sender's identifier,
  type and all bytes in order, no reply, and leaves nothing active, whatever was active before.
\<close>

lemma image_assembled:
  assumes "list_all (base64_law encode decode) (mime # chunks)" "mime \<in> set image_mimes"
    and "list_all id_byte ident" "length ident \<le> 128"
    and "chunks \<noteq> []" "list_all (\<lambda>c. c \<noteq> [] \<and> length c \<le> 4096) chunks" "length (concat chunks) \<le> MAX_IMAGE"
  shows "feed_packets decode
      ((open_packet ident, True) # map (\<lambda>c. (chunk_packet encode mime c, True)) chunks @ [(end_packet, True)]) act
    = ([Clipboard_Image \<lparr>iw_id = ident, iw_mime = mime, iw_data = concat chunks\<rparr>], None)"
proof -
  have "concat chunks \<noteq> []" using assms(5,6) by (cases chunks) auto
  then show ?thesis
    using feed_chunks [OF assms(1,2,6), of "\<lparr>iw_id = ident, iw_mime = [], iw_data = []\<rparr>"] assms(5,7)
    by (simp add: feed_open [OF assms(3,4)])
qed

end
