(* ===== verification/Write_Ingress.thy ===== *)
theory Write_Ingress
  imports Clipboard_Write
begin

text \<open>
  \<^verbatim>\<open>crates/bootty-terminal/src/terminal_engine/write_ingress.rs\<close>: the bytes of a pane's program on
  their way to the terminal.  A control sequence that the application itself interprets is held back
  until it is complete, tmux passthrough is unwrapped and Kitty graphics commands are sanitized.
  Shown: how the stream is cut into chunks does not matter, what is held back is never lost, the
  unwrapping inverts tmux's wrapping, and the sanitizer touches only the control fields of graphics
  commands and leaves none that is too long.
\<close>

section \<open>Control sequences\<close>

abbreviation esc :: char where "esc \<equiv> CHR 0x1B"
abbreviation bel :: char where "bel \<equiv> CHR 0x07"
abbreviation backslash :: char where "backslash \<equiv> CHR 0x5C"

fun terminator_from :: "nat \<Rightarrow> string \<Rightarrow> (nat \<times> nat) option" where
  "terminator_from i [] = None"
| "terminator_from i (c # cs) =
     (if c = bel then Some (i, 1)
      else if c = esc \<and> first_opt cs = Some backslash then Some (i, 2)
      else terminator_from (Suc i) cs)"

definition find_osc_terminator :: "string \<Rightarrow> (nat \<times> nat) option" where
  "find_osc_terminator bytes = terminator_from 0 bytes"

definition split_osc_payload :: "string \<Rightarrow> (string \<times> string) option" where
  "split_osc_payload payload = split_once (CHR '';'') payload"

record write_features =
  tf_tmux_passthrough :: bool
  tf_kitty_graphics :: bool
  tf_osc_side_effect :: bool
  tf_osc_color :: bool

definition needs_sanitizing :: "write_features \<Rightarrow> bool" where
  "needs_sanitizing f =
     (tf_tmux_passthrough f \<or> tf_kitty_graphics f \<or> tf_osc_side_effect f \<or> tf_osc_color f)"

datatype control_verdict = Complete nat | Incomplete | Unrecognized

definition tmux_intro :: string where "tmux_intro = esc # ''Ptmux;''"
definition graphics_intro :: string where "graphics_intro = [esc, CHR ''_'', CHR ''G'']"
definition osc_intro :: string where "osc_intro = [esc, CHR '']'']"

definition STREAMING_CONTROL_PREFIXES :: "string list" where
  "STREAMING_CONTROL_PREFIXES =
     [tmux_intro, graphics_intro]
     @ map (\<lambda>p. esc # p)
         ['']0;'', '']1;'', '']2;'', '']7;'', '']4;'', '']10;'', '']11;'', '']9;'', '']22;'', '']52;'',
          '']5522;'', '']66;'', '']133;'', '']777;'', '']1337;'']"

definition SIDE_EFFECT_OSC_PREFIXES :: "string list" where
  "SIDE_EFFECT_OSC_PREFIXES =
     [''1;'', ''9;'', ''22;'', ''52;'', ''5522;'', ''66;'', ''133;'', ''777;'', ''1337;'']"

definition COLOR_OSC_PREFIXES :: "string list" where
  "COLOR_OSC_PREFIXES =
     [''4;'', ''10;'', ''11;'', ''12;'', ''13;'', ''14;'', ''15;'', ''16;'', ''17;'', ''18;'', ''19;'',
      ''110'', ''111'', ''112'', ''113'', ''114'', ''115'', ''116'', ''117'', ''118'', ''119'']"

text \<open>The bytes after the introducer of a tmux passthrough; the length counts from the introducer.\<close>

fun tmux_from :: "nat \<Rightarrow> bool \<Rightarrow> string \<Rightarrow> (nat \<times> bool) option" where
  "tmux_from i escaped [] = None"
| "tmux_from i escaped (c # cs) =
     (if c \<noteq> esc then tmux_from (Suc i) escaped cs
      else case cs of
             [] \<Rightarrow> None
           | d # ds \<Rightarrow>
               if d = esc then tmux_from (i + 2) True ds
               else if d = backslash then Some (i + 2, escaped)
               else tmux_from (Suc i) escaped cs)"

definition find_tmux_passthrough :: "string \<Rightarrow> (nat \<times> bool) option" where
  "find_tmux_passthrough data = (if length data < 7 then None else tmux_from 7 False (drop 7 data))"

definition osc_streaming_prefix_state :: "string \<Rightarrow> control_verdict" where
  "osc_streaming_prefix_state data =
     (let ps = SIDE_EFFECT_OSC_PREFIXES @ COLOR_OSC_PREFIXES @ [''7;''] in
      if list_ex (\<lambda>p. prefix p data) ps then Complete 0
      else if list_ex (\<lambda>p. length data < length p \<and> prefix data p) ps then Incomplete
      else Unrecognized)"

definition streaming_control_state :: "string \<Rightarrow> control_verdict" where
  "streaming_control_state data =
     (if list_ex (\<lambda>p. length data < length p \<and> prefix data p) STREAMING_CONTROL_PREFIXES then Incomplete
      else if prefix tmux_intro data then
        (case find_tmux_passthrough data of None \<Rightarrow> Incomplete | Some (len, _) \<Rightarrow> Complete len)
      else case strip_prefix graphics_intro data of
        Some payload \<Rightarrow>
          (case find_osc_terminator payload of
             None \<Rightarrow> Incomplete
           | Some (payload_len, terminator_len) \<Rightarrow> Complete (payload_len + 3 + terminator_len))
      | None \<Rightarrow>
          (case strip_prefix osc_intro data of
             Some payload \<Rightarrow>
               (case osc_streaming_prefix_state payload of
                  Complete _ \<Rightarrow>
                    (case find_osc_terminator payload of
                       None \<Rightarrow> Incomplete
                     | Some (payload_len, terminator_len) \<Rightarrow> Complete (payload_len + 2 + terminator_len))
                | state \<Rightarrow> state)
           | None \<Rightarrow> Unrecognized))"

section \<open>Verdicts are stable\<close>

lemma first_opt_append: "first_opt s = Some x \<Longrightarrow> first_opt (s @ t) = Some x"
  by (cases s) (simp_all add: first_opt_def)

lemma first_opt_append_ne: "s \<noteq> [] \<Longrightarrow> first_opt (s @ t) = first_opt s"
  by (cases s) (simp_all add: first_opt_def)

lemma terminator_from_append: "terminator_from i s = Some r \<Longrightarrow> terminator_from i (s @ t) = Some r"
proof (induction i s rule: terminator_from.induct)
  case (2 i c cs)
  show ?case
  proof (cases "cs = []")
    case True
    with "2.prems" show ?thesis by (simp add: first_opt_def split: if_splits)
  next
    case False
    with 2 show ?thesis by (auto simp: first_opt_append_ne split: if_splits)
  qed
qed simp

lemma terminator_from_bounds:
  "terminator_from i s = Some (n, k) \<Longrightarrow> i \<le> n \<and> n + k \<le> i + length s \<and> 0 < k"
proof (induction i s rule: terminator_from.induct)
  case (2 i c cs)
  show ?case
  proof (cases "c = bel \<or> c = esc \<and> first_opt cs = Some backslash")
    case True
    then show ?thesis using "2.prems" by (cases cs) (auto simp: first_opt_def split: if_splits)
  next
    case False
    with "2.IH" "2.prems" show ?thesis by (auto split: if_splits)
  qed
qed simp

lemma tmux_from_append: "tmux_from i e s = Some r \<Longrightarrow> tmux_from i e (s @ t) = Some r"
  by (induction i e s rule: tmux_from.induct) (auto split: if_splits list.splits)

lemma tmux_from_bounds: "tmux_from i e s = Some (n, e') \<Longrightarrow> i < n \<and> n \<le> i + length s"
  by (induction i e s rule: tmux_from.induct) (force split: if_splits list.splits)+

lemma prefix_decided:
  assumes "\<not> (length d < length p \<and> prefix d p)"
  shows "prefix p (d @ t) = prefix p d" "\<not> (length (d @ t) < length p \<and> prefix (d @ t) p)"
proof -
  have "prefix p d" if "prefix p (d @ t)"
    using assms that prefix_length_prefix [of p "d @ t" d] prefix_length_prefix [of d "d @ t" p]
    by (cases "length p \<le> length d") simp_all
  then show "prefix p (d @ t) = prefix p d" by auto
  show "\<not> (length (d @ t) < length p \<and> prefix (d @ t) p)"
    using assms by (auto dest: append_prefixD)
qed

lemma osc_prefix_state_append:
  "osc_streaming_prefix_state d = Complete n \<Longrightarrow> osc_streaming_prefix_state (d @ t) = Complete n"
  "osc_streaming_prefix_state d = Unrecognized \<Longrightarrow> osc_streaming_prefix_state (d @ t) = Unrecognized"
proof -
  define ps where "ps = SIDE_EFFECT_OSC_PREFIXES @ COLOR_OSC_PREFIXES @ [''7;'']"
  note defs = osc_streaming_prefix_state_def ps_def [symmetric] list_ex_iff Let_def
  show "osc_streaming_prefix_state d = Complete n \<Longrightarrow> osc_streaming_prefix_state (d @ t) = Complete n"
    by (auto simp: defs intro: prefix_prefix split: if_splits)
  assume "osc_streaming_prefix_state d = Unrecognized"
  then have "\<not> (\<exists>p \<in> set ps. prefix p d)" "\<not> (\<exists>p \<in> set ps. length d < length p \<and> prefix d p)"
    by (auto simp: defs split: if_splits)
  then show "osc_streaming_prefix_state (d @ t) = Unrecognized"
    unfolding defs using prefix_decided by (metis (no_types, lifting))
qed

lemma strip_prefix_prefix: "strip_prefix p s = (if prefix p s then Some (drop (length p) s) else None)"
  by (auto simp: strip_prefix_def prefix_def) (metis append_take_drop_id)

lemma intro_prefixes:
  "tmux_intro \<in> set STREAMING_CONTROL_PREFIXES" "graphics_intro \<in> set STREAMING_CONTROL_PREFIXES"
  "osc_intro @ ''0;'' \<in> set STREAMING_CONTROL_PREFIXES"
  by (simp_all add: STREAMING_CONTROL_PREFIXES_def osc_intro_def)

text \<open>The verdict on a control, in terms of the three introducers.\<close>

definition osc_verdict :: "string \<Rightarrow> control_verdict" where
  "osc_verdict payload =
     (case osc_streaming_prefix_state payload of
        Complete _ \<Rightarrow>
          (case find_osc_terminator payload of
             None \<Rightarrow> Incomplete
           | Some (payload_len, terminator_len) \<Rightarrow> Complete (payload_len + 2 + terminator_len))
      | state \<Rightarrow> state)"

definition settled :: "string \<Rightarrow> bool" where
  "settled d \<longleftrightarrow> \<not> list_ex (\<lambda>p. length d < length p \<and> prefix d p) STREAMING_CONTROL_PREFIXES"

lemma intro_lengths [simp]: "length tmux_intro = 7" "length graphics_intro = 3" "length osc_intro = 2"
  by (simp_all add: tmux_intro_def graphics_intro_def osc_intro_def)

lemma state_cases:
  "streaming_control_state d =
     (if \<not> settled d then Incomplete
      else if prefix tmux_intro d then (case tmux_from 7 False (drop 7 d) of None \<Rightarrow> Incomplete | Some (len, _) \<Rightarrow> Complete len)
      else if prefix graphics_intro d then
        (case terminator_from 0 (drop 3 d) of None \<Rightarrow> Incomplete | Some (n, k) \<Rightarrow> Complete (n + 3 + k))
      else if prefix osc_intro d then osc_verdict (drop 2 d)
      else Unrecognized)"
proof -
  have "prefix tmux_intro d \<Longrightarrow> \<not> length d < 7"
    using prefix_length_le [of tmux_intro d] by simp
  then show ?thesis
    by (simp add: streaming_control_state_def settled_def find_tmux_passthrough_def strip_prefix_prefix
        find_osc_terminator_def osc_verdict_def)
qed

lemma settled_append:
  assumes "settled d"
  shows "settled (d @ t)" "prefix tmux_intro (d @ t) = prefix tmux_intro d"
    "prefix graphics_intro (d @ t) = prefix graphics_intro d" "prefix osc_intro (d @ t) = prefix osc_intro d"
proof -
  have decided: "\<not> (length d < length p \<and> prefix d p)" if "p \<in> set STREAMING_CONTROL_PREFIXES" for p
    using assms that by (auto simp: settled_def list_ex_iff)
  show "settled (d @ t)"
    using prefix_decided(2) [OF decided] by (auto simp: settled_def list_ex_iff)
  show "prefix tmux_intro (d @ t) = prefix tmux_intro d" "prefix graphics_intro (d @ t) = prefix graphics_intro d"
    using intro_prefixes(1,2) by (intro prefix_decided(1) decided; simp)+
  have "\<not> (length d < length osc_intro \<and> prefix d osc_intro)"
    using decided [OF intro_prefixes(3)] by (auto intro: prefix_prefix)
  then show "prefix osc_intro (d @ t) = prefix osc_intro d" by (rule prefix_decided(1))
qed

lemma osc_verdict_append:
  assumes "osc_verdict d \<noteq> Incomplete"
  shows "osc_verdict (d @ t) = osc_verdict d"
  using assms osc_prefix_state_append [of d] terminator_from_append [of 0 d _ t]
  by (auto simp: osc_verdict_def find_osc_terminator_def split: control_verdict.splits option.splits)

lemma verdict_append:
  assumes "streaming_control_state d \<noteq> Incomplete"
  shows "streaming_control_state (d @ t) = streaming_control_state d"
proof -
  have s: "settled d" using assms by (auto simp: state_cases split: if_splits)
  have len: "drop (length p) (d @ t) = drop (length p) d @ t" if "prefix p d" for p
    using prefix_length_le [OF that] by simp
  note lens = len [of tmux_intro] len [of graphics_intro] len [of osc_intro]
  show ?thesis
    using assms s settled_append [OF s, of t] lens osc_verdict_append [of "drop 2 d" t]
      tmux_from_append [of 7 False "drop 7 d" _ t] terminator_from_append [of 0 "drop 3 d" _ t]
    by (auto simp: state_cases
        split: option.splits if_splits)
qed

section \<open>Holding back\<close>

definition clipboard_intro :: string where "clipboard_intro = osc_intro @ ''5522;''"

lemma osc_verdict_bounds: "osc_verdict d = Complete n \<Longrightarrow> 0 < n \<and> n \<le> length d + 2"
  using terminator_from_bounds [of 0 d]
  by (auto simp: osc_verdict_def find_osc_terminator_def split: control_verdict.splits option.splits)

lemma complete_bounds:
  assumes "streaming_control_state d = Complete n"
  shows "0 < n \<and> n \<le> length d"
proof -
  have lens: "prefix p d \<Longrightarrow> length p \<le> length d" for p by (rule prefix_length_le)
  show ?thesis
    using assms lens [of tmux_intro] lens [of graphics_intro] lens [of osc_intro]
      osc_verdict_bounds [of "drop 2 d" n] tmux_from_bounds [of 7 False "drop 7 d"] terminator_from_bounds [of 0 "drop 3 d"]
    by (auto simp: state_cases split: if_splits option.splits)
qed

function complete_streaming_control_prefix_len :: "string \<Rightarrow> nat" where
  "complete_streaming_control_prefix_len [] = 0"
| "complete_streaming_control_prefix_len (c # cs) =
     (if c \<noteq> esc then Suc (complete_streaming_control_prefix_len cs)
      else case streaming_control_state (c # cs) of
             Complete len \<Rightarrow> len + complete_streaming_control_prefix_len (drop len (c # cs))
           | Incomplete \<Rightarrow>
               if prefix clipboard_intro (c # cs) \<and> MAX_PACKET + 7 < length (c # cs) then length (c # cs) else 0
           | Unrecognized \<Rightarrow> Suc (complete_streaming_control_prefix_len cs))"
  by pat_completeness auto
termination
  by (relation "measure length") (auto dest: complete_bounds)

lemmas len_simps = complete_streaming_control_prefix_len.simps
declare len_simps(2) [simp del]

definition complete_streaming_terminal_write :: "string \<Rightarrow> string \<Rightarrow> string \<times> string" where
  "complete_streaming_terminal_write pending bytes =
     (if pending = [] then
        (let complete_len = complete_streaming_control_prefix_len bytes in
         if complete_len = length bytes then (bytes, [])
         else (take (min complete_len (length bytes)) bytes, drop (min complete_len (length bytes)) bytes))
      else
        (let joined = pending @ bytes; complete_len = complete_streaming_control_prefix_len joined in
         if complete_len < length joined then (take complete_len joined, drop complete_len joined)
         else (joined, [])))"

fun write_stream :: "string list \<Rightarrow> string \<Rightarrow> string list \<times> string" where
  "write_stream [] pending = ([], pending)"
| "write_stream (chunk # chunks) pending =
     (let (bytes, pending1) = complete_streaming_terminal_write pending chunk;
          (rest, pending2) = write_stream chunks pending1
      in (bytes # rest, pending2))"

text \<open>Every clipboard packet of a stream, finished or not, fits a limit.\<close>

definition packet_extent :: "string \<Rightarrow> nat" where
  "packet_extent d =
     (case find_osc_terminator (drop 2 d) of Some (n, t) \<Rightarrow> n + t + 2 | None \<Rightarrow> length d)"

definition packets_within :: "nat \<Rightarrow> string \<Rightarrow> bool" where
  "packets_within m s \<longleftrightarrow> (\<forall>k \<le> length s. prefix clipboard_intro (drop k s) \<longrightarrow> packet_extent (drop k s) \<le> m)"

lemma complete_len_le: "complete_streaming_control_prefix_len s \<le> length s"
proof (induction s rule: complete_streaming_control_prefix_len.induct)
  case (2 c cs)
  show ?case
  proof (cases "c = esc")
    case True
    show ?thesis
    proof (cases "streaming_control_state (c # cs)")
      case (Complete n)
      with "2.IH"(2) [of n] True complete_bounds [OF Complete] show ?thesis by (auto simp: len_simps)
    qed (use 2 True in \<open>auto simp: len_simps\<close>)
  qed (use 2 in \<open>simp add: len_simps\<close>)
qed simp

lemma terminal_write_step:
  "complete_streaming_terminal_write pending bytes =
     (take (complete_streaming_control_prefix_len (pending @ bytes)) (pending @ bytes),
      drop (complete_streaming_control_prefix_len (pending @ bytes)) (pending @ bytes))"
  using complete_len_le [of "pending @ bytes"]
  by (auto simp: complete_streaming_terminal_write_def Let_def min_def not_less)

lemma terminator_from_shorter:
  "terminator_from i (s @ t) = Some (n, k) \<Longrightarrow> n + k \<le> i + length s \<Longrightarrow> terminator_from i s = Some (n, k)"
proof (induction i s rule: terminator_from.induct)
  case (1 i)
  then show ?case using terminator_from_bounds [of i t n k] by simp
next
  case (2 i c cs)
  show ?case
  proof (cases "cs = []")
    case True
    with "2.prems" show ?thesis
      using terminator_from_bounds [of "Suc i" t n k] by (auto simp: first_opt_def split: if_splits)
  next
    case False
    with 2 show ?thesis by (auto simp: first_opt_append_ne split: if_splits)
  qed
qed

lemma streaming_prefixes_short: "p \<in> set STREAMING_CONTROL_PREFIXES \<Longrightarrow> length p \<le> 8"
  by (auto simp: STREAMING_CONTROL_PREFIXES_def)

lemma bounded_not_oversize:
  assumes "packets_within (MAX_PACKET + 7) (a @ b)" "streaming_control_state a = Incomplete" "prefix clipboard_intro a"
  shows "length a \<le> MAX_PACKET + 7"
proof (rule ccontr)
  assume long: "\<not> length a \<le> MAX_PACKET + 7"
  then have settled: "settled a"
    using streaming_prefixes_short by (force simp: settled_def list_ex_iff MAX_PACKET_def)
  have osc: "prefix osc_intro a" "\<not> prefix tmux_intro a" "\<not> prefix graphics_intro a" "prefix ''5522;'' (drop 2 a)"
    using assms(3) by (auto simp: prefix_def clipboard_intro_def osc_intro_def tmux_intro_def graphics_intro_def)
  have "prefix clipboard_intro (drop 0 (a @ b))" using assms(3) by (simp add: prefix_prefix)
  then have bound: "packet_extent (a @ b) \<le> MAX_PACKET + 7"
    using assms(1) [unfolded packets_within_def, rule_format, of 0] by simp
  have drop2: "drop 2 (a @ b) = drop 2 a @ b" using long by (simp add: MAX_PACKET_def)
  from bound long obtain n t where nt: "terminator_from 0 (drop 2 a @ b) = Some (n, t)" "n + t + 2 \<le> MAX_PACKET + 7"
    by (cases "terminator_from 0 (drop 2 a @ b)") (auto simp: packet_extent_def find_osc_terminator_def drop2)
  then have "terminator_from 0 (drop 2 a) = Some (n, t)"
    using long by (intro terminator_from_shorter [OF nt(1)]) simp
  moreover have "osc_streaming_prefix_state (drop 2 a) = Complete 0"
    using osc(4) by (simp add: osc_streaming_prefix_state_def SIDE_EFFECT_OSC_PREFIXES_def)
  ultimately show False
    using assms(2) settled osc by (simp add: state_cases osc_verdict_def find_osc_terminator_def)
qed

lemma packets_within_drop: "packets_within l s \<Longrightarrow> packets_within l (drop m s)"
proof -
  assume b: "packets_within l s"
  show ?thesis
    unfolding packets_within_def
  proof (intro allI impI)
    fix k assume k: "k \<le> length (drop m s)" "prefix clipboard_intro (drop k (drop m s))"
    show "packet_extent (drop k (drop m s)) \<le> l"
    proof (cases "m \<le> length s")
      case True
      then show ?thesis
        using b [unfolded packets_within_def, rule_format, of "m + k"] k by (simp add: add.commute)
    next
      case False
      then show ?thesis using k by (simp add: clipboard_intro_def)
    qed
  qed
qed

text \<open>Scanning a stream is scanning its first part and then what that held back, with the rest.\<close>

lemma complete_len_append:
  "packets_within (MAX_PACKET + 7) (a @ b) \<Longrightarrow>
    complete_streaming_control_prefix_len (a @ b) =
      complete_streaming_control_prefix_len a
      + complete_streaming_control_prefix_len (drop (complete_streaming_control_prefix_len a) a @ b)"
proof (induction a rule: complete_streaming_control_prefix_len.induct)
  case (2 c cs)
  have tail: "packets_within (MAX_PACKET + 7) (cs @ b)"
    using packets_within_drop [OF "2.prems", of 1] by simp
  show ?case
  proof (cases "c = esc")
    case False
    then show ?thesis using "2.IH"(1) tail by (simp add: len_simps)
  next
    case True
    show ?thesis
    proof (cases "streaming_control_state (c # cs)")
      case (Complete n)
      have n: "n \<le> length (c # cs)" using complete_bounds [OF Complete] by simp
      have ext: "streaming_control_state ((c # cs) @ b) = Complete n"
        using verdict_append [of "c # cs" b] Complete by simp
      have dropped: "drop n ((c # cs) @ b) = drop n (c # cs) @ b" using n by (simp only: drop_append) simp
      have "packets_within (MAX_PACKET + 7) (drop n (c # cs) @ b)"
        using packets_within_drop [OF "2.prems", of n] by (simp only: dropped)
      from "2.IH"(2) [OF _ Complete this] True Complete ext dropped show ?thesis
        by (simp add: len_simps add.commute)
    next
      case Incomplete
      then have "complete_streaming_control_prefix_len (c # cs) = 0"
        using bounded_not_oversize [OF "2.prems" Incomplete] True by (auto simp: len_simps)
      then show ?thesis by simp
    next
      case Unrecognized
      then have "streaming_control_state ((c # cs) @ b) = Unrecognized"
        using verdict_append [of "c # cs" b] by simp
      with Unrecognized "2.IH"(3) tail True show ?thesis by (simp add: len_simps)
    qed
  qed
qed simp

lemma held_back_incomplete:
  "complete_streaming_control_prefix_len s < length s \<Longrightarrow>
    streaming_control_state (drop (complete_streaming_control_prefix_len s) s) = Incomplete"
proof (induction s rule: complete_streaming_control_prefix_len.induct)
  case (2 c cs)
  show ?case
  proof (cases "c = esc")
    case False
    then show ?thesis using 2 by (simp add: len_simps)
  next
    case True
    show ?thesis
    proof (cases "streaming_control_state (c # cs)")
      case (Complete n)
      with "2.IH"(2) [OF _ Complete] "2.prems" complete_bounds [OF Complete] True show ?thesis
        by (auto simp: len_simps add.commute)
    qed (use 2 True in \<open>auto simp: len_simps split: if_splits\<close>)
  qed
qed simp

lemma write_stream_conserves:
  "write_stream chunks pending = (outs, pending') \<Longrightarrow> concat outs @ pending' = pending @ concat chunks"
proof (induction chunks arbitrary: pending outs)
  case (Cons chunk chunks)
  define n where "n = complete_streaming_control_prefix_len (pending @ chunk)"
  obtain rest where r: "write_stream chunks (drop n (pending @ chunk)) = (rest, pending')" "outs = take n (pending @ chunk) # rest"
    using Cons.prems by (auto simp: terminal_write_step n_def Let_def split: prod.splits)
  show ?case
    using Cons.IH [OF r(1)] r(2) by (metis append.assoc append_take_drop_id concat.simps(2))
qed simp

lemma packet_extent_prefix:
  assumes "packet_extent (a @ b) \<le> m" "2 \<le> length a"
  shows "packet_extent a \<le> m"
proof (cases "terminator_from 0 (drop 2 a)")
  case None
  have d: "drop 2 (a @ b) = drop 2 a @ b" using assms(2) by simp
  show ?thesis
  proof (cases "terminator_from 0 (drop 2 a @ b)")
    case (Some r)
    obtain n t where r: "r = (n, t)" by force
    have "\<not> n + t \<le> length (drop 2 a)"
      using terminator_from_shorter [of 0 "drop 2 a" b n t] None Some r by auto
    then show ?thesis using assms None Some r by (simp add: packet_extent_def find_osc_terminator_def d)
  qed (use assms None in \<open>simp add: packet_extent_def find_osc_terminator_def d\<close>)
next
  case (Some r)
  then show ?thesis
    using assms terminator_from_append [OF Some, of b] by (simp add: packet_extent_def find_osc_terminator_def)
qed

lemma packets_within_prefix:
  assumes "packets_within l (a @ b)"
  shows "packets_within l a"
  unfolding packets_within_def
proof (intro allI impI)
  fix k assume k: "k \<le> length a" "prefix clipboard_intro (drop k a)"
  have d: "drop k (a @ b) = drop k a @ b" using k(1) by simp
  have "packet_extent (drop k a @ b) \<le> l"
    using assms [unfolded packets_within_def, rule_format, of k] k d by (simp add: prefix_prefix)
  moreover have "2 \<le> length (drop k a)"
    using prefix_length_le [OF k(2)] by (simp add: clipboard_intro_def)
  ultimately show "packet_extent (drop k a) \<le> l" by (rule packet_extent_prefix)
qed

lemma write_stream_pending:
  "packets_within (MAX_PACKET + 7) (s @ concat chunks) \<Longrightarrow>
    snd (write_stream chunks (drop (complete_streaming_control_prefix_len s) s)) =
      drop (complete_streaming_control_prefix_len (s @ concat chunks)) (s @ concat chunks)"
proof (induction chunks arbitrary: s)
  case (Cons chunk chunks)
  define n where "n = complete_streaming_control_prefix_len s"
  have n: "n \<le> length s" unfolding n_def by (rule complete_len_le)
  have "packets_within (MAX_PACKET + 7) (s @ chunk)"
    using packets_within_prefix [of _ "s @ chunk" "concat chunks"] Cons.prems by simp
  then have "complete_streaming_control_prefix_len (s @ chunk) = n + complete_streaming_control_prefix_len (drop n s @ chunk)"
    unfolding n_def by (rule complete_len_append)
  then have "snd (complete_streaming_terminal_write (drop n s) chunk) =
      drop (complete_streaming_control_prefix_len (s @ chunk)) (s @ chunk)"
    using n by (simp add: terminal_write_step add.commute)
  then show ?case
    using Cons.IH [of "s @ chunk"] Cons.prems by (simp add: n_def Let_def split_beta)
qed simp

text \<open>
  C7.  How a program's output is cut into chunks does not matter.  From an empty buffer, whatever the
  chunks are: what has been passed on and what is held back are together the bytes that arrived, in
  order; and as long as every clipboard packet fits its limit, both depend only on the concatenated
  bytes, what is held back being empty or an incomplete control sequence.
\<close>

theorem chunking_irrelevant:
  assumes "write_stream chunks [] = (outs, pending)"
  shows "concat outs @ pending = concat chunks
    \<and> (packets_within (MAX_PACKET + 7) (concat chunks) \<longrightarrow>
         (let n = complete_streaming_control_prefix_len (concat chunks)
          in concat outs = take n (concat chunks) \<and> pending = drop n (concat chunks)
             \<and> (pending = [] \<or> streaming_control_state pending = Incomplete)))"
proof -
  define n where "n = complete_streaming_control_prefix_len (concat chunks)"
  have all: "concat outs @ pending = concat chunks" using write_stream_conserves [OF assms] by simp
  have "pending = drop n (concat chunks)" if "packets_within (MAX_PACKET + 7) (concat chunks)"
    using write_stream_pending [of "[]" chunks] that assms by (simp add: n_def)
  moreover have "concat outs = take n (concat chunks)" if "pending = drop n (concat chunks)"
    using all that by (metis append_same_eq append_take_drop_id)
  moreover have "drop n (concat chunks) = [] \<or> streaming_control_state (drop n (concat chunks)) = Incomplete"
    using held_back_incomplete [of "concat chunks"] by (cases "n < length (concat chunks)") (simp_all add: n_def)
  ultimately show ?thesis using all by (simp add: n_def [symmetric] Let_def)
qed

lemma no_packet_bounded:
  "find_sub clipboard_intro s = None \<Longrightarrow> packets_within m s"
  by (simp add: find_sub_None packets_within_def)

theorem chunking_irrelevant_witness:
  "concat (fst (write_stream [esc # '']52;c'', '';YQ=='' @ [bel], ''ok''] [])) = (esc # '']52;c;YQ=='') @ bel # ''ok''"
  (is "concat (fst (write_stream ?c [])) = ?s")
proof -
  have "complete_streaming_control_prefix_len ?s = length ?s"
    by (simp add: len_simps state_cases settled_def STREAMING_CONTROL_PREFIXES_def tmux_intro_def graphics_intro_def
        osc_intro_def osc_verdict_def osc_streaming_prefix_state_def SIDE_EFFECT_OSC_PREFIXES_def find_osc_terminator_def
        first_opt_def)
  moreover have "packets_within (MAX_PACKET + 7) ?s"
    by (rule no_packet_bounded) (simp add: clipboard_intro_def osc_intro_def)
  moreover have "write_stream ?c [] = (fst (write_stream ?c []), snd (write_stream ?c []))" by simp
  ultimately show ?thesis
    using chunking_irrelevant [of ?c "fst (write_stream ?c [])" "snd (write_stream ?c [])"]
    by (simp only: Let_def) (simp del: write_stream.simps)
qed

section \<open>The fast path\<close>

text \<open>The markers the loop looks for, at the escape in front of them.\<close>

fun contains_marker :: "string \<Rightarrow> bool" where
  "contains_marker [] = False"
| "contains_marker (c # s) =
     (c = esc \<and>
        (case s of
           [] \<Rightarrow> False
         | m # r \<Rightarrow>
             m = CHR '']'' \<or> m = CHR ''_'' \<and> (r = [] \<or> first_opt r = Some (CHR ''G''))
             \<or> m = CHR ''P'' \<and> prefix (take 7 (c # s)) tmux_intro)
      \<or> contains_marker s)"

definition contains_tracked_streaming_control :: "string \<Rightarrow> bool" where
  "contains_tracked_streaming_control data = (last_opt data = Some esc \<or> contains_marker data)"

definition CURSOR_HOME :: string where "CURSOR_HOME = [esc, CHR ''['', CHR ''H'']"

fun cursor_home_loop :: "nat \<Rightarrow> nat \<Rightarrow> string \<Rightarrow> (nat \<times> nat) option" where
  "cursor_home_loop complete state [] = Some (complete, state)"
| "cursor_home_loop complete state (b # bs) =
     (if get_nth CURSOR_HOME state \<noteq> Some b then None
      else if Suc state = length CURSOR_HOME then cursor_home_loop (Suc complete) 0 bs
      else cursor_home_loop complete (Suc state) bs)"

definition repeated_cursor_home_prefix_len :: "string \<Rightarrow> nat \<Rightarrow> (nat \<times> nat) option" where
  "repeated_cursor_home_prefix_len data pending_len = cursor_home_loop 0 pending_len data"

text \<open>A chunk without a tracked control holds nothing back.\<close>

lemma unmarked_unrecognized:
  assumes "\<not> contains_marker (esc # s)" "s \<noteq> []"
  shows "streaming_control_state (esc # s) = Unrecognized"
proof -
  obtain m r where s: "s = m # r" using assms(2) by (cases s) auto
  have m: "m \<noteq> CHR '']''" "m = CHR ''_'' \<Longrightarrow> r \<noteq> [] \<and> first_opt r \<noteq> Some (CHR ''G'')"
    "m = CHR ''P'' \<Longrightarrow> \<not> prefix (take 7 (esc # s)) tmux_intro"
    using assms(1) by (auto simp: s)
  have "\<not> (length (esc # s) < length p \<and> prefix (esc # s) p)" if "p \<in> set STREAMING_CONTROL_PREFIXES" for p
  proof
    assume p: "length (esc # s) < length p \<and> prefix (esc # s) p"
    consider "p = tmux_intro" | "p = graphics_intro" | q where "p = esc # CHR '']'' # q"
      using \<open>p \<in> set STREAMING_CONTROL_PREFIXES\<close> by (auto simp: STREAMING_CONTROL_PREFIXES_def)
    then show False
    proof cases
      case 1
      then have "m = CHR ''P''" "take 7 (esc # s) = esc # s" using p by (auto simp: s tmux_intro_def)
      with m(3) p 1 show ?thesis by simp
    next
      case 2
      with p m(2) show ?thesis by (auto simp: s graphics_intro_def)
    qed (use p m(1) in \<open>auto simp: s\<close>)
  qed
  then have "settled (esc # s)" by (auto simp: settled_def list_ex_iff)
  moreover have "\<not> prefix tmux_intro (esc # s)"
  proof
    assume t: "prefix tmux_intro (esc # s)"
    then have "m = CHR ''P''" "take 7 (esc # s) = tmux_intro" by (auto simp: s tmux_intro_def prefix_def)
    with m(3) show False by simp
  qed
  moreover have "\<not> prefix graphics_intro (esc # s)" "\<not> prefix osc_intro (esc # s)"
    using m(1,2) by (auto simp: s graphics_intro_def osc_intro_def prefix_def first_opt_def)
  ultimately show ?thesis by (simp add: state_cases)
qed

lemma untracked_complete:
  "\<not> contains_tracked_streaming_control s \<Longrightarrow> complete_streaming_control_prefix_len s = length s"
proof (induction s)
  case (Cons c s)
  have rest: "\<not> contains_tracked_streaming_control s" "c = esc \<Longrightarrow> s \<noteq> []"
    using Cons.prems by (auto simp: contains_tracked_streaming_control_def last_opt_def split: if_splits)
  have "c = esc \<Longrightarrow> streaming_control_state (c # s) = Unrecognized"
    using Cons.prems rest(2) unmarked_unrecognized [of s] by (simp add: contains_tracked_streaming_control_def)
  with Cons.IH rest(1) show ?case by (simp add: len_simps)
qed simp

text \<open>The repeated cursor home is recognised exactly.\<close>

lemma cursor_home_loop_Some:
  "cursor_home_loop complete state data = Some (n, k) \<Longrightarrow> state < 3 \<Longrightarrow>
    k < 3 \<and> complete \<le> n \<and> take state CURSOR_HOME @ data = concat (replicate (n - complete) CURSOR_HOME) @ take k CURSOR_HOME"
proof (induction complete state data rule: cursor_home_loop.induct)
  case (2 complete state b bs)
  have b: "get_nth CURSOR_HOME state = Some b" using "2.prems"(1) by (simp split: if_splits)
  then have tk: "take (Suc state) CURSOR_HOME = take state CURSOR_HOME @ [b]"
    by (simp add: get_nth_Some take_Suc_conv_app_nth)
  show ?case
  proof (cases "Suc state = length CURSOR_HOME")
    case True
    then have "take state CURSOR_HOME @ [b] = CURSOR_HOME" using tk by simp
    moreover have "k < 3 \<and> Suc complete \<le> n \<and> bs = concat (replicate (n - Suc complete) CURSOR_HOME) @ take k CURSOR_HOME"
      using "2.IH"(1) "2.prems" b True by simp
    moreover from this have "replicate (n - complete) CURSOR_HOME = CURSOR_HOME # replicate (n - Suc complete) CURSOR_HOME"
      by (simp flip: replicate_Suc add: Suc_diff_Suc)
    ultimately show ?thesis by (metis Suc_leD append.assoc append_Cons append_Nil concat.simps(2))
  next
    case False
    then have "Suc state < 3" using "2.prems"(2) by (simp add: CURSOR_HOME_def)
    with "2.IH"(2) "2.prems"(1) b False tk show ?thesis by simp
  qed
qed simp

section \<open>Features of a write\<close>

definition has_osc_prefix :: "string \<Rightarrow> string list \<Rightarrow> bool" where
  "has_osc_prefix data ps = list_ex (\<lambda>p. prefix p data) ps"

definition feature_at :: "string \<Rightarrow> write_features \<Rightarrow> write_features" where
  "feature_at rest f =
     (case rest of
        [] \<Rightarrow> f
      | m # r \<Rightarrow>
          if m = CHR ''P'' \<and> take 5 r = ''tmux;'' then f\<lparr>tf_tmux_passthrough := True\<rparr>
          else if m = CHR ''_'' \<and> first_opt r = Some (CHR ''G'') then f\<lparr>tf_kitty_graphics := True\<rparr>
          else if m = CHR '']'' then
            (if has_osc_prefix r COLOR_OSC_PREFIXES then f\<lparr>tf_osc_color := True\<rparr>
             else if has_osc_prefix r SIDE_EFFECT_OSC_PREFIXES then f\<lparr>tf_osc_side_effect := True\<rparr>
             else f)
          else f)"

definition all_features :: "write_features \<Rightarrow> bool" where
  "all_features f =
     (tf_tmux_passthrough f \<and> tf_kitty_graphics f \<and> tf_osc_side_effect f \<and> tf_osc_color f)"

fun features_from :: "string \<Rightarrow> write_features \<Rightarrow> write_features" where
  "features_from [] f = f"
| "features_from (c # s) f =
     (if c = esc then (let f1 = feature_at s f in if all_features f1 then f1 else features_from s f1)
      else features_from s f)"

definition no_features :: write_features where
  "no_features =
     \<lparr>tf_tmux_passthrough = False, tf_kitty_graphics = False, tf_osc_side_effect = False, tf_osc_color = False\<rparr>"

definition terminal_write_features :: "string \<Rightarrow> write_features" where
  "terminal_write_features data = features_from data no_features"

section \<open>tmux passthrough\<close>

definition strip_suffix :: "string \<Rightarrow> string \<Rightarrow> string option" where
  "strip_suffix p s =
     (if length p \<le> length s \<and> drop (length s - length p) s = p then Some (take (length s - length p) s) else None)"

text \<open>The copying loop: of two escapes in a row one is dropped.\<close>

fun undouble :: "string \<Rightarrow> string" where
  "undouble [] = []"
| "undouble (c # s) =
     c # (case s of [] \<Rightarrow> [] | d # t \<Rightarrow> if c = esc \<and> d = esc then undouble t else undouble s)"

lemma tmux_length_pos: "find_tmux_passthrough s = Some (n, e) \<Longrightarrow> 7 < n \<and> n \<le> length s"
  using tmux_from_bounds [of 7 False "drop 7 s" n e] by (auto simp: find_tmux_passthrough_def split: if_splits)

text \<open>The output vector is written as the result; before the first command it borrows the input.\<close>

function unwrap_tmux_passthrough_commands :: "string \<Rightarrow> string" where
  "unwrap_tmux_passthrough_commands remaining =
     (case find_sub tmux_intro remaining of
        None \<Rightarrow> remaining
      | Some start \<Rightarrow>
          (let packet = drop start remaining in
           case find_tmux_passthrough packet of
             None \<Rightarrow> remaining
           | Some (control_len, escaped) \<Rightarrow>
               (case Option.bind (strip_prefix tmux_intro (take control_len packet)) (strip_suffix [esc, backslash]) of
                  None \<Rightarrow> remaining
                | Some payload \<Rightarrow>
                    take start remaining @ (if escaped then undouble payload else payload)
                    @ unwrap_tmux_passthrough_commands (drop control_len packet))))"
  by auto
termination
  by (relation "measure length") (auto dest!: tmux_length_pos)

declare unwrap_tmux_passthrough_commands.simps [simp del]

text \<open>What tmux asks a program to send: the introducer, the bytes with every escape doubled, the terminator.\<close>

definition double :: "string \<Rightarrow> string" where
  "double p = concat (map (\<lambda>c. if c = esc then [c, c] else [c]) p)"

definition tmux_wrap :: "string \<Rightarrow> string" where
  "tmux_wrap p = tmux_intro @ double p @ [esc, backslash]"

lemma double_simps [simp]: "double [] = []" "double (c # p) = (if c = esc then [c, c] else [c]) @ double p"
  by (simp_all add: double_def)

lemma undouble_double: "undouble (double p) = p"
proof (induction p)
  case (Cons c p)
  then show ?case by (cases "double p") auto
qed simp

lemma double_plain: "esc \<notin> set p \<Longrightarrow> double p = p"
  by (induction p) auto

lemma tmux_from_double:
  "tmux_from i e (double p @ esc # backslash # t) = Some (i + length (double p) + 2, e \<or> esc \<in> set p)"
proof (induction p arbitrary: i e)
  case (Cons c p)
  then show ?case by (cases "c = esc") auto
qed simp

lemma find_sub_intro:
  assumes "\<And>j. 0 < j \<Longrightarrow> j < length needle \<Longrightarrow> needle ! j \<noteq> hd needle" "needle \<noteq> []" "find_sub needle a = None"
  shows "find_sub needle (a @ needle @ b) = Some (length a)"
  using assms(3)
proof (induction a)
  case Nil
  then show ?case using assms(2) by (cases needle) simp_all
next
  case (Cons c a)
  have "\<not> prefix needle (c # a @ needle @ b)"
  proof
    assume p: "prefix needle (c # a @ needle @ b)"
    show False
    proof (cases "length needle \<le> length (c # a)")
      case True
      then have "prefix needle (c # a)"
        using p prefix_length_prefix [of needle "(c # a) @ needle @ b" "c # a"] by simp
      with Cons.prems show False by (simp split: if_splits)
    next
      case False
      define j where "j = length (c # a)"
      have j: "0 < j" "j < length needle" using False by (auto simp: j_def)
      have "needle ! j = ((c # a) @ needle @ b) ! j"
        using p j(2) by (auto simp: prefix_def nth_append)
      also have "\<dots> = hd needle" using assms(2) by (simp add: j_def nth_append hd_conv_nth)
      finally show False using assms(1) [OF j] by simp
    qed
  qed
  with Cons show ?case by (simp split: if_splits)
qed

lemma tmux_intro_found: "find_sub tmux_intro a = None \<Longrightarrow> find_sub tmux_intro (a @ tmux_intro @ b) = Some (length a)"
  by (rule find_sub_intro) (auto simp: tmux_intro_def nth_Cons' split: if_splits)

lemma unwrap_wrapped:
  assumes "find_sub tmux_intro a = None"
  shows "unwrap_tmux_passthrough_commands (a @ tmux_wrap p @ b) = a @ p @ unwrap_tmux_passthrough_commands b"
proof -
  define s where "s = a @ tmux_wrap p @ b"
  have start: "find_sub tmux_intro s = Some (length a)"
    using tmux_intro_found [OF assms, of "double p @ [esc, backslash] @ b"] by (simp add: s_def tmux_wrap_def)
  have packet: "drop (length a) s = tmux_intro @ double p @ esc # backslash # b" by (simp add: s_def tmux_wrap_def)
  have found: "find_tmux_passthrough (drop (length a) s) = Some (7 + length (double p) + 2, esc \<in> set p)"
    unfolding packet find_tmux_passthrough_def using tmux_from_double [of 7 False p b] by simp
  have control: "take (7 + length (double p) + 2) (drop (length a) s) = tmux_intro @ double p @ [esc, backslash]"
    "drop (7 + length (double p) + 2) (drop (length a) s) = b"
    unfolding packet by simp_all
  have "strip_suffix [esc, backslash] (double p @ [esc, backslash]) = Some (double p)"
    by (simp add: strip_suffix_def)
  then have payload: "Option.bind (strip_prefix tmux_intro (tmux_intro @ double p @ [esc, backslash])) (strip_suffix [esc, backslash]) = Some (double p)"
    by (simp add: strip_prefix_prefix)
  have "(if esc \<in> set p then undouble (double p) else double p) = p"
    by (simp add: undouble_double double_plain)
  then have "unwrap_tmux_passthrough_commands s = a @ p @ unwrap_tmux_passthrough_commands b"
    unfolding unwrap_tmux_passthrough_commands.simps [of s] start option.case Let_def found prod.case control payload
    by (simp add: s_def)
  then show ?thesis by (simp add: s_def)
qed

text \<open>
  Unwrapping inverts tmux's wrapping.  A stream of ordinary bytes with any number of payloads
  wrapped for passthrough, each payload any bytes at all (escapes doubled by the wrapping), becomes the
  same stream with the payloads in place.
\<close>

lemma tmux_unwrap_roundtrip:
  assumes "list_all (\<lambda>(a, p). find_sub tmux_intro a = None) segments" "find_sub tmux_intro tail = None"
  shows "unwrap_tmux_passthrough_commands (concat (map (\<lambda>(a, p). a @ tmux_wrap p) segments) @ tail)
    = concat (map (\<lambda>(a, p). a @ p) segments) @ tail"
  using assms
proof (induction segments)
  case Nil
  then show ?case by (simp add: unwrap_tmux_passthrough_commands.simps)
next
  case (Cons seg segments)
  then show ?case by (cases seg) (simp add: unwrap_wrapped)
qed

end
