(* ===== verification/Kitty_Commands.thy ===== *)
theory Kitty_Commands
  imports Write_Ingress
begin

text \<open>
  The sanitizer of Kitty graphics commands in \<^verbatim>\<open>write_ingress.rs\<close>.  The loop copies lazily, behind two
  pointers into its input; it is proved equal to a direct rewriting of the commands one after another,
  from which follow what it does to the fields of a command and that it changes nothing else.
\<close>

section \<open>Fields\<close>

definition valid_kitty_graphics_field :: "string \<Rightarrow> bool" where
  "valid_kitty_graphics_field fld =
     (case memchr (CHR ''='') fld of
        None \<Rightarrow> True
      | Some separator \<Rightarrow> separator = 1 \<and> length fld - separator - 1 \<le> 11)"

definition sanitize_kitty_graphics_control :: "string \<Rightarrow> string option" where
  "sanitize_kitty_graphics_control control =
     (if list_all valid_kitty_graphics_field (split_on (CHR '','') control) then None
      else Some (join_with (CHR '','') (filter valid_kitty_graphics_field (split_on (CHR '','') control))))"

section \<open>The loop\<close>

definition control_end :: "string \<Rightarrow> nat" where
  "control_end payload = (case memchr (CHR '';'') payload of None \<Rightarrow> length payload | Some i \<Rightarrow> i)"

lemma terminator_bounds: "find_osc_terminator s = Some (n, k) \<Longrightarrow> n + k \<le> length s \<and> 0 < k"
  using terminator_from_bounds [of 0 s n k] by (simp add: find_osc_terminator_def)

text \<open>The state of the loop: the output vector once there is one, what it has not copied yet, whether a command was seen.\<close>

function sanitize_loop :: "string option \<Rightarrow> string \<Rightarrow> string \<Rightarrow> bool \<Rightarrow> string option \<times> string \<times> bool" where
  "sanitize_loop out pending remaining touched =
     (case find_sub graphics_intro remaining of
        None \<Rightarrow> (out, pending, touched)
      | Some start \<Rightarrow>
          (let packet = drop start remaining; payload = drop 3 packet in
           case find_osc_terminator payload of
             None \<Rightarrow> (out, pending, True)
           | Some (payload_len, terminator_len) \<Rightarrow>
               (let body_end = take payload_len payload;
                    terminator = take terminator_len (drop payload_len payload);
                    rest = drop (payload_len + terminator_len) payload;
                    control = take (control_end body_end) body_end;
                    body = drop (control_end body_end) body_end
                in case sanitize_kitty_graphics_control control of
                     None \<Rightarrow> sanitize_loop out pending rest True
                   | Some sanitized \<Rightarrow>
                       sanitize_loop
                         (Some ((case out of None \<Rightarrow> [] | Some o1 \<Rightarrow> o1) @ take (length pending - length packet) pending
                                @ graphics_intro @ sanitized @ body @ terminator))
                         rest rest True)))"
  by pat_completeness auto
termination
  by (relation "measure (\<lambda>(out, pending, remaining, touched). length remaining)")
     (auto dest!: find_sub_le)

declare sanitize_loop.simps [simp del]

definition sanitize_kitty_graphics_commands :: "string \<Rightarrow> string \<times> bool" where
  "sanitize_kitty_graphics_commands data =
     (case sanitize_loop None data data False of
        (out, pending, touched) \<Rightarrow> ((case out of None \<Rightarrow> data | Some bytes \<Rightarrow> bytes @ pending), touched))"

section \<open>Rewriting one command after another\<close>

text \<open>A command: the text before it, its control, its body with the separator, its terminator, and the rest.\<close>

definition next_command :: "string \<Rightarrow> (string \<times> string \<times> string \<times> string \<times> string) option" where
  "next_command s =
     (case find_sub graphics_intro s of
        None \<Rightarrow> None
      | Some start \<Rightarrow>
          (let payload = drop 3 (drop start s) in
           case find_osc_terminator payload of
             None \<Rightarrow> None
           | Some (n, k) \<Rightarrow>
               (let m = control_end (take n payload) in
                Some (take start s, take m payload, drop m (take n payload), take k (drop n payload), drop (n + k) payload))))"

lemma control_end_le: "control_end s \<le> length s"
  by (auto simp: control_end_def memchr_def split: option.splits dest: find_index_lt)

lemma next_command_Some:
  assumes "find_sub graphics_intro s = Some start" "find_osc_terminator (drop 3 (drop start s)) = Some (n, k)"
    "payload = drop 3 (drop start s)" "m = control_end (take n payload)"
  shows "next_command s =
    Some (take start s, take m payload, drop m (take n payload), take k (drop n payload), drop (n + k) payload)"
  using assms by (simp add: next_command_def Let_def)

lemma next_command_SomeE:
  assumes "next_command s = Some (before, control, body, terminator, rest)"
  obtains start n k payload m where "find_sub graphics_intro s = Some start" "payload = drop 3 (drop start s)"
    "find_osc_terminator payload = Some (n, k)" "m = control_end (take n payload)" "m \<le> n"
    "before = take start s" "control = take m payload" "body = drop m (take n payload)"
    "terminator = take k (drop n payload)" "rest = drop (n + k) payload" "drop start s = graphics_intro @ payload"
proof -
  obtain start n k where sn: "find_sub graphics_intro s = Some start" "find_osc_terminator (drop 3 (drop start s)) = Some (n, k)"
    using assms by (auto simp: next_command_def Let_def split: option.splits)
  have "prefix graphics_intro (drop start s)" using find_sub_Some [OF sn(1)] by simp
  then have "drop start s = graphics_intro @ drop 3 (drop start s)"
    by (metis append_eq_conv_conj intro_lengths(2) prefix_def)
  moreover have "control_end (take n (drop 3 (drop start s))) \<le> n"
    using control_end_le [of "take n (drop 3 (drop start s))"] by simp
  ultimately show ?thesis
    using that [OF sn(1) refl sn(2) refl] assms next_command_Some [OF sn refl refl] by simp
qed

lemma next_command_parts:
  assumes "next_command s = Some (before, control, body, terminator, rest)"
  shows "s = before @ graphics_intro @ control @ body @ terminator @ rest"
  using assms
proof (rule next_command_SomeE)
  fix start n k payload m
  assume p: "before = take start s" "control = take m payload" "body = drop m (take n payload)"
    "terminator = take k (drop n payload)" "rest = drop (n + k) payload" "drop start s = graphics_intro @ payload" "m \<le> n"
  have "take m payload @ drop m (take n payload) = take n payload"
    using p(7) by (metis append_take_drop_id min.absorb1 take_take)
  then have "control @ body @ terminator @ rest = payload"
    unfolding p by (metis add.commute append.assoc append_take_drop_id drop_drop)
  then show ?thesis using p(1,6) by (metis append_take_drop_id)
qed

lemma next_command_shorter: "next_command s = Some (before, control, body, terminator, rest) \<Longrightarrow> length rest < length s"
  using next_command_parts [of s] by simp

function rewrite_commands :: "(string \<Rightarrow> string) \<Rightarrow> string \<Rightarrow> string" where
  "rewrite_commands f s =
     (case next_command s of
        None \<Rightarrow> s
      | Some (before, control, body, terminator, rest) \<Rightarrow>
          before @ graphics_intro @ f control @ body @ terminator @ rewrite_commands f rest)"
  by auto
termination
  by (relation "measure (length \<circ> snd)") (auto dest: next_command_shorter)

function graphics_controls :: "string \<Rightarrow> string list" where
  "graphics_controls s =
     (case next_command s of
        None \<Rightarrow> []
      | Some (before, control, body, terminator, rest) \<Rightarrow> control # graphics_controls rest)"
  by auto
termination
  by (relation "measure length") (auto dest: next_command_shorter)

declare rewrite_commands.simps [simp del] graphics_controls.simps [simp del]

definition fix_control :: "string \<Rightarrow> string" where
  "fix_control control = join_with (CHR '','') (filter valid_kitty_graphics_field (split_on (CHR '','') control))"

definition fields_valid :: "string \<Rightarrow> bool" where
  "fields_valid control \<longleftrightarrow> list_all valid_kitty_graphics_field (split_on (CHR '','') control)"

section \<open>The loop rewrites\<close>

lemma sanitize_control_fix:
  "sanitize_kitty_graphics_control control = (if fields_valid control then None else Some (fix_control control))"
  by (simp add: sanitize_kitty_graphics_control_def fields_valid_def fix_control_def)

lemma fix_control_id: "fields_valid control \<Longrightarrow> fix_control control = control"
  by (simp add: fields_valid_def fix_control_def join_split list_all_iff)

lemma fix_control_valid: "fields_valid (fix_control control)"
proof (cases "filter valid_kitty_graphics_field (split_on (CHR '','') control) = []")
  case True
  then show ?thesis
    by (simp only: fix_control_def True) (simp add: fields_valid_def valid_kitty_graphics_field_def memchr_def)
next
  case False
  have "list_all (\<lambda>f. CHR '','' \<notin> set f) (filter valid_kitty_graphics_field (split_on (CHR '','') control))"
    using split_pieces by (fastforce simp: list_all_iff)
  then show ?thesis
    using False by (simp add: fields_valid_def fix_control_def split_join) (simp add: list_all_iff)
qed

lemma sanitize_loop_step:
  "sanitize_loop out pending remaining touched =
     (case next_command remaining of
        None \<Rightarrow> (out, pending, touched \<or> find_sub graphics_intro remaining \<noteq> None)
      | Some (before, control, body, terminator, rest) \<Rightarrow>
          if fields_valid control then sanitize_loop out pending rest True
          else sanitize_loop
                 (Some ((case out of None \<Rightarrow> [] | Some x \<Rightarrow> x)
                        @ take (length pending - (length remaining - length before)) pending
                        @ graphics_intro @ fix_control control @ body @ terminator))
                 rest rest True)"
proof (cases "next_command remaining")
  case None
  then show ?thesis
    by (auto simp: sanitize_loop.simps [of out] next_command_def Let_def split: option.splits)
next
  case (Some q)
  obtain before control body terminator rest where q: "q = (before, control, body, terminator, rest)" by (cases q)
  show ?thesis
    using Some [unfolded q]
  proof (rule next_command_SomeE)
    fix start n k payload m
    assume p: "find_sub graphics_intro remaining = Some start" "payload = drop 3 (drop start remaining)"
      "find_osc_terminator payload = Some (n, k)" "m = control_end (take n payload)" "m \<le> n"
      "before = take start remaining" "control = take m payload" "body = drop m (take n payload)"
      "terminator = take k (drop n payload)" "rest = drop (n + k) payload"
    have "take m (take n payload) = take m payload" using p(5) by (simp add: min_absorb1)
    moreover have "length (drop start remaining) = length remaining - length before"
      using find_sub_Some [OF p(1)] by (simp add: p(6))
    ultimately show ?thesis
      unfolding sanitize_loop.simps [of out pending remaining] Some q p(1) option.case Let_def p(2) [symmetric] p(3) prod.case
        p(4) [symmetric] sanitize_control_fix
      by (simp add: p(7-10))
  qed
qed

lemma sanitize_loop_rewrites:
  "sanitize_loop out (u @ remaining) remaining touched = (out', pending', touched') \<Longrightarrow>
    (case out' of None \<Rightarrow> [] | Some x \<Rightarrow> x) @ pending' = (case out of None \<Rightarrow> [] | Some x \<Rightarrow> x) @ u @ rewrite_commands fix_control remaining
    \<and> (out' = None \<longrightarrow> out = None \<and> pending' = u @ remaining)
    \<and> touched' = (touched \<or> find_sub graphics_intro remaining \<noteq> None)"
proof (induction "length remaining" arbitrary: out u remaining touched rule: less_induct)
  case less
  show ?case
  proof (cases "next_command remaining")
    case None
    then show ?thesis
      using less.prems by (simp add: sanitize_loop_step [of out] rewrite_commands.simps [of _ remaining])
  next
    case (Some q)
    obtain before control body terminator rest where q: "q = (before, control, body, terminator, rest)" by (cases q)
    note cmd = Some [unfolded q]
    have found: "find_sub graphics_intro remaining \<noteq> None" using cmd by (auto simp: next_command_def split: option.splits)
    note parts = next_command_parts [OF cmd]
    have shorter: "length rest < length remaining" using next_command_shorter [OF cmd] .
    define verb where "verb = u @ before @ graphics_intro @ control @ body @ terminator"
    have whole: "u @ remaining = verb @ rest" using parts by (simp add: verb_def)
    have cut: "take (length (u @ remaining) - (length remaining - length before)) (u @ remaining) = u @ before"
      using parts by simp
    have rew: "rewrite_commands fix_control remaining = before @ graphics_intro @ fix_control control @ body @ terminator @ rewrite_commands fix_control rest"
      by (simp add: rewrite_commands.simps [of _ remaining] cmd)
    show ?thesis
    proof (cases "fields_valid control")
      case True
      then have "sanitize_loop out (verb @ rest) rest True = (out', pending', touched')"
        using less.prems unfolding sanitize_loop_step [of out "u @ remaining" remaining touched] cmd by (simp add: whole)
      note ih = less.hyps [OF shorter this]
      have "u @ rewrite_commands fix_control remaining = verb @ rewrite_commands fix_control rest"
        by (simp add: rew verb_def fix_control_id [OF True])
      then show ?thesis
        unfolding whole using ih found by simp
    next
      case False
      then have "sanitize_loop (Some ((case out of None \<Rightarrow> [] | Some x \<Rightarrow> x) @ (u @ before) @ graphics_intro @ fix_control control @ body @ terminator))
          ([] @ rest) rest True = (out', pending', touched')"
        using less.prems unfolding sanitize_loop_step [of out "u @ remaining" remaining touched] cmd option.case prod.case cut
        by simp
      from less.hyps [OF shorter this] show ?thesis
        using found by (auto simp: rew)
    qed
  qed
qed

lemma sanitize_commands_rewrite:
  "sanitize_kitty_graphics_commands data = (rewrite_commands fix_control data, find_sub graphics_intro data \<noteq> None)"
proof -
  obtain out pending touched where l: "sanitize_loop None ([] @ data) data False = (out, pending, touched)"
    by (cases "sanitize_loop None ([] @ data) data False") blast
  from sanitize_loop_rewrites [OF l] l show ?thesis
    by (auto simp: sanitize_kitty_graphics_commands_def split: option.splits)
qed

section \<open>Rewritten commands are read back\<close>

definition unterminated :: "string \<Rightarrow> bool" where
  "unterminated s \<longleftrightarrow> (\<forall>i. terminator_from i s = None)"

lemma terminator_None_shift: "terminator_from i s = None \<longleftrightarrow> terminator_from j s = None"
  by (induction s arbitrary: i j) auto

lemma unterminated_iff: "unterminated s \<longleftrightarrow> terminator_from 0 s = None"
  using terminator_None_shift [of _ s 0] by (auto simp: unterminated_def)

lemma unterminated_Cons:
  "unterminated (c # s) \<longleftrightarrow> c \<noteq> bel \<and> \<not> (c = esc \<and> first_opt s = Some backslash) \<and> unterminated s"
  using terminator_None_shift [of "Suc 0" s 0] by (simp add: unterminated_iff)

lemma unterminated_sep:
  assumes "c \<notin> {bel, esc, backslash}"
  shows "unterminated (a @ c # b) \<longleftrightarrow> unterminated a \<and> unterminated b"
proof (induction a)
  case Nil
  show ?case using assms by (simp add: unterminated_Cons) (simp add: unterminated_iff)
next
  case (Cons x a)
  have "first_opt (a @ c # b) = Some backslash \<longleftrightarrow> first_opt a = Some backslash"
    using assms by (cases a) (auto simp: first_opt_def)
  with Cons show ?case by (simp add: unterminated_Cons)
qed

lemma unterminated_join:
  assumes "c \<notin> {bel, esc, backslash}"
  shows "unterminated (join_with c fs) \<longleftrightarrow> list_all unterminated fs"
  using unterminated_sep [OF assms] by (induction fs rule: induct_list012) (simp_all add: unterminated_iff)

lemma unterminated_fix:
  assumes "unterminated control"
  shows "unterminated (fix_control control)"
proof -
  have "list_all unterminated (split_on (CHR '','') control)"
    using assms unterminated_join [of "CHR '',''" "split_on (CHR '','') control"] by (simp add: join_split)
  then show ?thesis
    unfolding fix_control_def by (simp add: unterminated_join list_all_iff)
qed

lemma terminator_split:
  assumes "terminator_from i s = Some (n, k)"
  shows "unterminated (take (n - i) s) \<and> (take k (drop (n - i) s) = [bel] \<or> take k (drop (n - i) s) = [esc, backslash])"
  using assms
proof (induction i s rule: terminator_from.induct)
  case (2 i c cs)
  show ?case
  proof (cases "c = bel \<or> c = esc \<and> first_opt cs = Some backslash")
    case True
    then have "n = i" using "2.prems" by (auto split: if_splits)
    with True "2.prems" show ?thesis
      by (cases cs) (auto simp: first_opt_def unterminated_iff split: if_splits)
  next
    case False
    then have rec: "terminator_from (Suc i) cs = Some (n, k)" using "2.prems" by (auto split: if_splits)
    then have "Suc i \<le> n" using terminator_from_bounds by blast
    then obtain m where m: "n - i = Suc m" "n - Suc i = m" by (metis Suc_diff_Suc Suc_le_lessD)
    have ih: "unterminated (take m cs) \<and> (take k (drop m cs) = [bel] \<or> take k (drop m cs) = [esc, backslash])"
      using "2.IH" [OF _ _ rec] False m(2) by auto
    have "first_opt (take m cs) = Some backslash \<Longrightarrow> first_opt cs = Some backslash"
      by (cases cs; cases m) (auto simp: first_opt_def)
    with ih False m(1) show ?thesis by (auto simp: unterminated_Cons)
  qed
qed simp

lemma terminator_found:
  assumes "unterminated p" "term = [bel] \<or> term = [esc, backslash]"
  shows "terminator_from i (p @ term @ r) = Some (i + length p, length term)"
  using assms(1)
proof (induction p arbitrary: i)
  case Nil
  then show ?case using assms(2) by (auto simp: first_opt_def)
next
  case (Cons c p)
  have "first_opt (p @ term @ r) = Some backslash \<Longrightarrow> first_opt p = Some backslash"
    using assms(2) by (cases p) (auto simp: first_opt_def)
  with Cons show ?case by (auto simp: unterminated_Cons)
qed

lemma control_end_append:
  assumes "CHR '';'' \<notin> set control" "body = [] \<or> first_opt body = Some (CHR '';'')"
  shows "control_end (control @ body) = length control"
proof (cases "body = []")
  case True
  have "find_index (\<lambda>x. x = CHR '';'') control = None" using assms(1) by (auto simp: find_index_None)
  with True show ?thesis by (simp add: control_end_def memchr_def)
next
  case False
  then obtain b where b: "body = CHR '';'' # b" using assms(2) by (cases body) (auto simp: first_opt_def)
  have "find_index (\<lambda>x. x = CHR '';'') (control @ CHR '';'' # b) = Some (length control)"
    using assms(1) by (induction control) auto
  then show ?thesis by (simp add: control_end_def memchr_def b)
qed

lemma control_end_parts:
  "CHR '';'' \<notin> set (take (control_end s) s) \<and> (drop (control_end s) s = [] \<or> first_opt (drop (control_end s) s) = Some (CHR '';''))"
proof (cases "memchr (CHR '';'') s")
  case None
  then have "CHR '';'' \<notin> set s" by (auto simp: memchr_def find_index_None)
  with None show ?thesis by (simp add: control_end_def)
next
  case (Some i)
  then have i: "find_index (\<lambda>x. x = CHR '';'') s = Some i" by (simp add: memchr_def)
  have "i < length s" "s ! i = CHR '';''" "CHR '';'' \<notin> set (take i s)"
    using find_index_SomeD [OF i] by (auto simp: in_set_conv_nth)
  moreover from this have "drop i s = CHR '';'' # drop (Suc i) s" by (metis Cons_nth_drop_Suc)
  ultimately show ?thesis using Some by (simp add: control_end_def first_opt_def)
qed

lemma graphics_intro_found: "find_sub graphics_intro a = None \<Longrightarrow> find_sub graphics_intro (a @ graphics_intro @ b) = Some (length a)"
  by (rule find_sub_intro) (auto simp: graphics_intro_def nth_Cons' split: if_splits)

lemma find_sub_before: "find_sub needle s = Some i \<Longrightarrow> needle \<noteq> [] \<Longrightarrow> find_sub needle (take i s) = None"
proof -
  assume f: "find_sub needle s = Some i" and ne: "needle \<noteq> []"
  have "\<not> prefix needle (drop j (take i s))" if "j \<le> length (take i s)" for j
  proof
    assume p: "prefix needle (drop j (take i s))"
    then have "j < i" using ne prefix_length_le [OF p] by (cases "j < i") auto
    moreover have "prefix needle (drop j s)"
      using p by (metis append_take_drop_id drop_take prefix_prefix)
    ultimately show False using find_sub_Some [OF f] by blast
  qed
  then show ?thesis by (simp add: find_sub_None)
qed

lemma next_command_made:
  assumes "find_sub graphics_intro before = None" "unterminated p" "terminator = [bel] \<or> terminator = [esc, backslash]"
    and "p = control @ body" "control_end p = length control"
  shows "next_command (before @ graphics_intro @ p @ terminator @ t) = Some (before, control, body, terminator, t)"
proof -
  define s where "s = before @ graphics_intro @ p @ terminator @ t"
  have start: "find_sub graphics_intro s = Some (length before)"
    unfolding s_def using assms(1) by (rule graphics_intro_found)
  have payload: "p @ terminator @ t = drop 3 (drop (length before) s)" by (simp add: s_def)
  have "find_osc_terminator (drop 3 (drop (length before) s)) = Some (length p, length terminator)"
    unfolding payload [symmetric] using terminator_found [OF assms(2,3), of 0 t] by (simp add: find_osc_terminator_def)
  from next_command_Some [OF start this payload refl]
  have "next_command s = Some (take (length before) s, take (control_end p) (p @ terminator @ t), drop (control_end p) p, terminator, t)"
    by simp
  then show ?thesis using assms(4,5) by (simp add: s_def)
qed

lemma next_command_rewritten:
  assumes "next_command s = Some (before, control, body, terminator, rest)"
  shows "next_command (before @ graphics_intro @ fix_control control @ body @ terminator @ t)
    = Some (before, fix_control control, body, terminator, t)"
  using assms
proof (rule next_command_SomeE)
  fix start n k payload m
  assume p: "find_sub graphics_intro s = Some start" "find_osc_terminator payload = Some (n, k)"
    "m = control_end (take n payload)" "m \<le> n" "before = take start s" "control = take m payload" "body = drop m (take n payload)"
    "terminator = take k (drop n payload)"
  have inner: "unterminated (take n payload)" "terminator = [bel] \<or> terminator = [esc, backslash]"
    using terminator_split [of 0 payload n k] p(2,8) by (auto simp: find_osc_terminator_def)
  have parts: "take n payload = control @ body" "control = take m (take n payload)"
    using p(4,6,7) by (auto simp: min_absorb1) (metis append_take_drop_id min.absorb1 take_take)
  have semi: "CHR '';'' \<notin> set control" "body = [] \<or> first_opt body = Some (CHR '';'')"
    using control_end_parts [of "take n payload"] p(3,7) parts(2) by auto
  have fixed_semi: "CHR '';'' \<notin> set (fix_control control)"
    using semi(1) set_join [of "CHR '',''" "filter valid_kitty_graphics_field (split_on (CHR '','') control)"]
      split_pieces [of _ "CHR '',''" control] by (fastforce simp: fix_control_def)
  have body: "unterminated (control @ body) \<longleftrightarrow> unterminated control \<and> unterminated body"
    "unterminated (fix_control control @ body) \<longleftrightarrow> unterminated (fix_control control) \<and> unterminated body"
    using semi(2) unterminated_sep [of "CHR '';''"]
    by (cases body; auto simp: first_opt_def unterminated_Cons; simp add: unterminated_iff)+
  then have "unterminated (fix_control control @ body)"
    using inner(1) parts(1) unterminated_fix by simp
  moreover have "find_sub graphics_intro before = None"
    unfolding p(5) using p(1) by (rule find_sub_before) (simp add: graphics_intro_def)
  ultimately show ?thesis
    using next_command_made [OF _ _ inner(2) refl control_end_append [OF fixed_semi semi(2)], of before t] by simp
qed

lemma rewritten_controls: "graphics_controls (rewrite_commands fix_control s) = map fix_control (graphics_controls s)"
proof (induction s rule: graphics_controls.induct)
  case (1 s)
  show ?case
  proof (cases "next_command s")
    case None
    then show ?thesis by (simp add: rewrite_commands.simps [of _ s] graphics_controls.simps [of s])
  next
    case (Some q)
    obtain before control body terminator rest where q: "q = (before, control, body, terminator, rest)" by (cases q)
    note cmd = Some [unfolded q]
    have "rewrite_commands fix_control s = before @ graphics_intro @ fix_control control @ body @ terminator @ rewrite_commands fix_control rest"
      by (simp add: rewrite_commands.simps [of _ s] cmd)
    with next_command_rewritten [OF cmd] "1.IH" [OF cmd refl refl refl refl] cmd show ?thesis
      by (simp add: graphics_controls.simps [of s] graphics_controls.simps [of "before @ _"])
  qed
qed

lemma rewrite_clean: "list_all fields_valid (graphics_controls s) \<Longrightarrow> rewrite_commands fix_control s = s"
proof (induction s rule: graphics_controls.induct)
  case (1 s)
  show ?case
  proof (cases "next_command s")
    case None
    then show ?thesis by (simp add: rewrite_commands.simps [of _ s])
  next
    case (Some q)
    obtain before control body terminator rest where q: "q = (before, control, body, terminator, rest)" by (cases q)
    note cmd = Some [unfolded q]
    have "fields_valid control" "list_all fields_valid (graphics_controls rest)"
      using "1.prems" cmd by (simp_all add: graphics_controls.simps [of s])
    then have "rewrite_commands fix_control s = before @ graphics_intro @ control @ body @ terminator @ rest"
      using "1.IH" [OF cmd refl refl refl refl] by (simp add: rewrite_commands.simps [of _ s] cmd fix_control_id)
    then show ?thesis using next_command_parts [OF cmd] by (simp only:)
  qed
qed

text \<open>
  C18.  The lazily copying sanitizer does what a direct rewriting of every graphics command does: the
  commands it leaves are the commands of the input, in order, each with exactly its valid fields, and
  it changes nothing when they are all valid.  So every field that is left has a one-letter key and at
  most eleven bytes of value, or no value at all, and sanitizing twice is sanitizing once; the flag
  says whether a command was seen.
\<close>

theorem sanitizer_correct:
  "let out = fst (sanitize_kitty_graphics_commands data) in
     out = rewrite_commands fix_control data
     \<and> graphics_controls out = map fix_control (graphics_controls data)
     \<and> list_all fields_valid (graphics_controls out)
     \<and> sanitize_kitty_graphics_commands out = (out, snd (sanitize_kitty_graphics_commands out))
     \<and> (list_all fields_valid (graphics_controls data) \<longrightarrow> out = data)
     \<and> snd (sanitize_kitty_graphics_commands data) = (find_sub graphics_intro data \<noteq> None)"
proof -
  have clean: "list_all fields_valid (graphics_controls (rewrite_commands fix_control data))"
    by (simp add: rewritten_controls list_all_iff fix_control_valid)
  show ?thesis
    using clean rewrite_clean [OF clean] rewrite_clean [of data]
    by (simp add: sanitize_commands_rewrite rewritten_controls)
qed

theorem sanitizer_correct_witness:
  "fst (sanitize_kitty_graphics_commands (''ab'' @ graphics_intro @ ''a=T;x'' @ [bel])) = ''ab'' @ graphics_intro @ ''a=T;x'' @ [bel]"
proof -
  define s where "s = ''ab'' @ graphics_intro @ ''a=T;x'' @ [bel]"
  have "next_command (''ab'' @ graphics_intro @ ''a=T;x'' @ [bel] @ []) = Some (''ab'', ''a=T'', '';x'', [bel], [])"
    by (rule next_command_made)
       (simp_all add: graphics_intro_def unterminated_iff first_opt_def control_end_def memchr_def)
  then have "next_command s = Some (''ab'', ''a=T'', '';x'', [bel], [])" by (simp add: s_def)
  moreover have "next_command [] = None" by (simp add: next_command_def graphics_intro_def)
  ultimately have "graphics_controls s = [''a=T'']"
    by (simp add: graphics_controls.simps [of s] graphics_controls.simps [of "[]"])
  then have "list_all fields_valid (graphics_controls s)"
    by (simp add: fields_valid_def valid_kitty_graphics_field_def memchr_def)
  then have "fst (sanitize_kitty_graphics_commands s) = s"
    using sanitizer_correct [of s] unfolding Let_def by blast
  then show ?thesis by (simp only: s_def)
qed

end
