(* ===== verification/Shell_Prompt.thy ===== *)
theory Shell_Prompt
  imports Rust_Text
begin

text \<open>
  \<^verbatim>\<open>crates/bootty-terminal/src/shell_lifecycle.rs\<close> and \<^verbatim>\<open>shell_prompt.rs\<close>: what a shell reports about
  its prompt and its commands, the duration of a command, and the lease by which the application may
  edit the prompt.  The base64 decoder is a parameter.  Shown: a lease is granted only for the prompt
  the caller saw and only once, a prompt with user input in it or queued for it is never offered, and
  the recorded commands stay within their limits.
\<close>

section \<open>Lifecycle\<close>

datatype shell_event = Prompt_Start | Prompt_End | Command_Start | Command_Finish "int option"

definition parse_osc133 :: "string \<Rightarrow> shell_event option" where
  "parse_osc133 value =
     (case split_on (CHR '';'') value of
        [] \<Rightarrow> None
      | f # fs \<Rightarrow>
          if f = ''A'' then Some Prompt_Start
          else if f = ''B'' then Some Prompt_End
          else if f = ''C'' then Some Command_Start
          else if f = ''D'' then
            (case fs of
               [] \<Rightarrow> Some (Command_Finish None)
             | code # _ \<Rightarrow>
                 if code = [] then Some (Command_Finish None)
                 else map_option (\<lambda>n. Command_Finish (Some n)) (parse_i32 code))
          else None)"

record command_completion =
  cc_elapsed :: nat
  cc_exit_code :: "int option"

text \<open>The state is the start of the running command; times are nanoseconds of one clock.\<close>

definition lifecycle_apply ::
  "shell_event \<Rightarrow> nat \<Rightarrow> nat option \<Rightarrow> command_completion option \<times> nat option" where
  "lifecycle_apply event now started =
     (case event of
        Command_Start \<Rightarrow> (None, Some (case started of None \<Rightarrow> now | Some t \<Rightarrow> t))
      | Prompt_Start \<Rightarrow> (None, None)
      | Prompt_End \<Rightarrow> (None, started)
      | Command_Finish code \<Rightarrow>
          (map_option (\<lambda>t. \<lparr>cc_elapsed = now - t, cc_exit_code = code\<rparr>) started, None))"

section \<open>Reports\<close>

datatype prompt_report = Report_Ready string string bool | Report_Command string

definition has_nul_or_esc :: "string \<Rightarrow> bool" where
  "has_nul_or_esc s = (CHR 0x00 \<in> set s \<or> CHR 0x1B \<in> set s)"

definition parse_ready :: "(string \<Rightarrow> string option) \<Rightarrow> string list \<Rightarrow> prompt_report option" where
  "parse_ready decode fs =
     (case fs of
        [] \<Rightarrow> None
      | shell # fs1 \<Rightarrow>
          if shell \<notin> {''bash'', ''zsh'', ''fish''} then None
          else case fs1 of
                 [] \<Rightarrow> None
               | path # fs2 \<Rightarrow>
                   if 8192 < length path then None
                   else case Option.bind (decode path) from_utf8 of
                          None \<Rightarrow> None
                        | Some history_file \<Rightarrow>
                            if has_nul_or_esc history_file then None
                            else case fs2 of
                                   [] \<Rightarrow> None
                                 | e # _ \<Rightarrow> Some (Report_Ready shell history_file (e = ''1'')))"

definition parse_command :: "(string \<Rightarrow> string option) \<Rightarrow> string list \<Rightarrow> prompt_report option" where
  "parse_command decode fs =
     (case fs of
        [] \<Rightarrow> None
      | encoded # _ \<Rightarrow>
          if 24 * 1024 < length encoded then None
          else case Option.bind (decode encoded) from_utf8 of
                 None \<Rightarrow> None
               | Some command \<Rightarrow>
                   if command = [] \<or> starts_with_whitespace command \<or> has_nul_or_esc command then None
                   else Some (Report_Command command))"

definition parse_report :: "(string \<Rightarrow> string option) \<Rightarrow> string \<Rightarrow> prompt_report option" where
  "parse_report decode value =
     (case split_on (CHR '';'') value of
        [] \<Rightarrow> None
      | f # fs \<Rightarrow>
          if f = ''P'' then parse_ready decode fs
          else if f = ''E'' then parse_command decode fs
          else None)"

section \<open>The prompt\<close>

record shell_command_record =
  sc_command :: string
  sc_cwd :: string
  sc_timestamp :: nat
  sc_exit_code :: "int option"

record prompt_snapshot =
  ps_revision :: nat
  ps_editable :: bool
  ps_shell :: string
  ps_history_file :: string
  ps_cwd :: string
  ps_recent :: "shell_command_record list"

record shell_prompt =
  sp_revision :: nat
  sp_ready :: bool
  sp_untouched :: bool
  sp_at_prompt :: bool
  sp_entered :: bool
  sp_typeahead :: bool
  sp_shell :: string
  sp_history_file :: string
  sp_pending :: "shell_command_record option"
  sp_recent :: "shell_command_record list"

definition default_prompt :: shell_prompt where
  "default_prompt =
     \<lparr>sp_revision = 0, sp_ready = False, sp_untouched = True, sp_at_prompt = False, sp_entered = False,
      sp_typeahead = False, sp_shell = [], sp_history_file = [], sp_pending = None, sp_recent = []\<rparr>"

definition invalidate :: "shell_prompt \<Rightarrow> shell_prompt" where
  "invalidate s =
     s\<lparr>sp_revision := sat_add 64 (sp_revision s) 1, sp_ready := False, sp_untouched := False\<rparr>"

definition input :: "bool \<Rightarrow> shell_prompt \<Rightarrow> shell_prompt" where
  "input enter s =
     (let s1 = (if enter \<and> sp_at_prompt s then s\<lparr>sp_typeahead := False\<rparr>
                else if sp_entered s \<or> \<not> sp_at_prompt s then s\<lparr>sp_typeahead := True\<rparr> else s);
          s2 = (if enter then s1\<lparr>sp_entered := True, sp_at_prompt := False\<rparr> else s1)
      in invalidate s2)"

definition record_size :: "shell_command_record \<Rightarrow> nat" where
  "record_size e = sat_add 64 (length (sc_command e)) (length (sc_cwd e))"

definition over_limit :: "shell_command_record list \<Rightarrow> bool" where
  "over_limit rs = (128 < length rs \<or> 128 * 1024 < sum_list (map record_size rs))"

fun trim_recent :: "shell_command_record list \<Rightarrow> shell_command_record list" where
  "trim_recent [] = []"
| "trim_recent (r # rs) = (if over_limit (r # rs) then trim_recent rs else r # rs)"

definition lifecycle :: "shell_event \<Rightarrow> shell_prompt \<Rightarrow> shell_prompt" where
  "lifecycle event s =
     (case event of
        Prompt_Start \<Rightarrow> s\<lparr>sp_revision := sat_add 64 (sp_revision s) 1, sp_ready := False\<rparr>
      | Command_Start \<Rightarrow> invalidate (s\<lparr>sp_at_prompt := False\<rparr>)
      | Command_Finish code \<Rightarrow>
          (let s1 = (invalidate s)\<lparr>sp_untouched := \<not> sp_typeahead s, sp_entered := False, sp_at_prompt := False\<rparr>
           in case sp_pending s of
                None \<Rightarrow> s1
              | Some r \<Rightarrow>
                  s1\<lparr>sp_pending := None,
                     sp_recent := trim_recent (sp_recent s @ [r\<lparr>sc_exit_code := code\<rparr>])\<rparr>)
      | Prompt_End \<Rightarrow> s)"

definition report :: "prompt_report \<Rightarrow> string \<Rightarrow> nat \<Rightarrow> shell_prompt \<Rightarrow> shell_prompt" where
  "report r cwd timestamp s =
     (case r of
        Report_Ready shell history_file editable \<Rightarrow>
          s\<lparr>sp_at_prompt := True, sp_shell := shell, sp_history_file := history_file,
            sp_ready := editable \<and> sp_untouched s\<rparr>
      | Report_Command command \<Rightarrow>
          s\<lparr>sp_pending := Some \<lparr>sc_command = command, sc_cwd = cwd, sc_timestamp = timestamp, sc_exit_code = None\<rparr>\<rparr>)"

definition snapshot_prompt :: "string \<Rightarrow> bool \<Rightarrow> shell_prompt \<Rightarrow> prompt_snapshot" where
  "snapshot_prompt cwd terminal_allows s =
     \<lparr>ps_revision = sp_revision s, ps_editable = (sp_ready s \<and> terminal_allows), ps_shell = sp_shell s,
      ps_history_file = sp_history_file s, ps_cwd = cwd, ps_recent = sp_recent s\<rparr>"

definition claim_prompt :: "nat \<Rightarrow> bool \<Rightarrow> shell_prompt \<Rightarrow> unit res \<times> shell_prompt" where
  "claim_prompt revision terminal_allows s =
     (if \<not> sp_ready s \<or> \<not> terminal_allows \<or> sp_revision s \<noteq> revision
      then (Inl ''Prompt changed or shell owns its input; return to an empty supported prompt and refresh'', s)
      else (Inr (), invalidate s))"

section \<open>Runs\<close>

datatype prompt_event =
    Ev_Input bool
  | Ev_Invalidate
  | Ev_Lifecycle shell_event
  | Ev_Report prompt_report string nat
  | Ev_Claim nat bool

definition prompt_step :: "prompt_event \<Rightarrow> shell_prompt \<Rightarrow> shell_prompt" where
  "prompt_step e s =
     (case e of
        Ev_Input enter \<Rightarrow> input enter s
      | Ev_Invalidate \<Rightarrow> invalidate s
      | Ev_Lifecycle event \<Rightarrow> lifecycle event s
      | Ev_Report r cwd ts \<Rightarrow> report r cwd ts s
      | Ev_Claim revision allows \<Rightarrow> snd (claim_prompt revision allows s))"

definition prompt_inv :: "shell_prompt \<Rightarrow> bool" where
  "prompt_inv s \<longleftrightarrow>
     (sp_ready s \<longrightarrow> sp_untouched s \<and> sp_at_prompt s) \<and> (sp_typeahead s \<longrightarrow> \<not> sp_untouched s)
     \<and> \<not> over_limit (sp_recent s)"

lemma trim_recent_within: "\<not> over_limit (trim_recent rs)"
  by (induction rs) (simp_all add: over_limit_def)

lemma trim_recent_suffix: "\<exists>n. trim_recent rs = drop n rs \<and> (\<forall>m < n. over_limit (drop m rs))"
proof (induction rs)
  case (Cons r rs)
  show ?case
  proof (cases "over_limit (r # rs)")
    case True
    obtain n where n: "trim_recent rs = drop n rs" "\<forall>m < n. over_limit (drop m rs)" using Cons.IH by blast
    have "\<forall>m < Suc n. over_limit (drop m (r # rs))"
      using n(2) True by (auto simp: less_Suc_eq_0_disj)
    with n(1) True show ?thesis by (intro exI [of _ "Suc n"]) simp
  qed (intro exI [of _ 0], simp)
qed (intro exI [of _ 0], simp)

lemmas prompt_defs = prompt_step_def input_def invalidate_def lifecycle_def report_def claim_prompt_def Let_def

lemma prompt_step_inv: "prompt_inv s \<Longrightarrow> prompt_inv (prompt_step e s)"
  by (cases e; simp add: prompt_defs prompt_inv_def trim_recent_within
      split: shell_event.splits prompt_report.splits option.splits if_splits)

interpretation pr: invariant_machine prompt_step prompt_inv "\<lambda>_. True"
  using prompt_step_inv by unfold_locales

text \<open>The revision never falls, and rises by one with every event that can make a seen prompt stale.\<close>

definition stales :: "prompt_event \<Rightarrow> bool" where
  "stales e =
     (case e of
        Ev_Input _ \<Rightarrow> True | Ev_Invalidate \<Rightarrow> True
      | Ev_Lifecycle ev \<Rightarrow> ev \<noteq> Prompt_End
      | Ev_Report _ _ _ \<Rightarrow> False
      | Ev_Claim _ _ \<Rightarrow> False)"

lemma step_revision:
  assumes "Suc (sp_revision s) < 2 ^ 64"
  shows "sp_revision s \<le> sp_revision (prompt_step e s)" "sp_revision (prompt_step e s) \<le> Suc (sp_revision s)"
    "stales e \<Longrightarrow> sp_revision (prompt_step e s) = Suc (sp_revision s)"
    "e = Ev_Claim k allows \<Longrightarrow> fst (claim_prompt k allows s) = Inr () \<Longrightarrow> sp_revision (prompt_step e s) = Suc (sp_revision s)"
  using assms
  by (cases e; simp add: prompt_defs sat_add_def stales_def
      split: shell_event.splits prompt_report.splits option.splits if_splits)+

lemma run_revision:
  "sp_revision s + length es < 2 ^ 64 \<Longrightarrow>
    sp_revision s \<le> sp_revision (fold prompt_step es s) \<and> sp_revision (fold prompt_step es s) \<le> sp_revision s + length es"
proof (induction es arbitrary: s)
  case (Cons e es)
  have "sp_revision s \<le> sp_revision (prompt_step e s)" "sp_revision (prompt_step e s) \<le> Suc (sp_revision s)"
    using Cons.prems by (intro step_revision; simp)+
  with Cons.IH [of "prompt_step e s"] Cons.prems show ?case by simp
qed simp

text \<open>What makes a seen prompt stale in the course of a run.\<close>

fun stale_run :: "prompt_event list \<Rightarrow> shell_prompt \<Rightarrow> bool" where
  "stale_run [] s = False"
| "stale_run (e # es) s =
     (stales e \<or> (\<exists>k allows. e = Ev_Claim k allows \<and> fst (claim_prompt k allows s) = Inr ())
      \<or> stale_run es (prompt_step e s))"

lemma stale_run_revision:
  "sp_revision s + length es < 2 ^ 64 \<Longrightarrow> stale_run es s \<Longrightarrow> sp_revision s < sp_revision (fold prompt_step es s)"
proof (induction es arbitrary: s)
  case (Cons e es)
  have small: "Suc (sp_revision s) < 2 ^ 64 \<or> es = []" "Suc (sp_revision s) \<le> 2 ^ 64" using Cons.prems(1) by (auto simp: Suc_le_eq)
  show ?case
  proof (cases "stale_run es (prompt_step e s)")
    case True
    then have "Suc (sp_revision s) < 2 ^ 64" using small(1) by auto
    with True Cons.IH [of "prompt_step e s"] Cons.prems(1) step_revision(1,2) [of s e] show ?thesis by simp
  next
    case False
    then have "sp_revision (prompt_step e s) = Suc (sp_revision s)"
      using Cons.prems step_revision(3,4) [of s e] by auto
    then show ?thesis
      using run_revision [of "prompt_step e s" es] Cons.prems(1) by simp
  qed
qed simp

text \<open>
  C11.  A lease is granted only for the prompt that was seen, and once.  After any run (short of
  \<open>2\<^sup>64\<close> events) a snapshot reports a revision; if a claim with that revision succeeds later, then in
  between no input reached the terminal, no command or prompt started or ended and no claim succeeded.
  A claim made right after a snapshot that says editable succeeds, and it leaves the prompt not ready.
\<close>

theorem prompt_lease:
  fixes cwd :: string and allows :: bool
  assumes "length es + length es2 < 2 ^ 64"
  defines "s \<equiv> fold prompt_step es default_prompt"
  defines "snap \<equiv> snapshot_prompt cwd allows s"
  shows "(fst (claim_prompt (ps_revision snap) allows2 (fold prompt_step es2 s)) = Inr () \<longrightarrow> \<not> stale_run es2 s)
    \<and> (ps_editable snap \<longrightarrow> fst (claim_prompt (ps_revision snap) allows s) = Inr ())
    \<and> \<not> sp_ready (snd (claim_prompt (ps_revision snap) True s))"
proof -
  have "sp_revision s \<le> length es"
    using run_revision [of default_prompt es] assms(1) by (simp add: s_def default_prompt_def)
  then have "stale_run es2 s \<Longrightarrow> sp_revision (fold prompt_step es2 s) \<noteq> sp_revision s"
    using stale_run_revision [of s es2] assms(1) by simp
  then show ?thesis
    by (auto simp: claim_prompt_def snap_def snapshot_prompt_def invalidate_def split: if_splits)
qed

theorem prompt_lease_witness:
  "let es = [Ev_Report (Report_Ready ''zsh'' ''/h'' True) ''/'' 0]; s = fold prompt_step es default_prompt;
       snap = snapshot_prompt ''/'' True s
   in ps_editable snap \<and> fst (claim_prompt (ps_revision snap) True s) = Inr ()
      \<and> fst (claim_prompt (ps_revision snap) True (fold prompt_step [Ev_Input False] s)) \<noteq> Inr ()"
  using prompt_lease [of "[Ev_Report (Report_Ready ''zsh'' ''/h'' True) ''/'' 0]" "[Ev_Input False]" "''/''" True True]
  by (simp add: stales_def prompt_defs snapshot_prompt_def default_prompt_def)

section \<open>Input and offers\<close>

definition finishes :: "prompt_event \<Rightarrow> bool" where
  "finishes e = (case e of Ev_Lifecycle (Command_Finish _) \<Rightarrow> True | _ \<Rightarrow> False)"

lemma touched_stays:
  "\<not> sp_untouched s \<Longrightarrow> list_all (\<lambda>e. \<not> finishes e) es \<Longrightarrow> \<not> sp_untouched (fold prompt_step es s)"
proof (induction es arbitrary: s)
  case (Cons e es)
  have "\<not> sp_untouched (prompt_step e s)"
    using Cons.prems by (cases e) (auto simp: prompt_defs finishes_def split: shell_event.splits prompt_report.splits)
  with Cons.IH [of "prompt_step e s"] Cons.prems show ?case by simp
qed simp

lemma typeahead_stays:
  "sp_typeahead s \<Longrightarrow> Ev_Input True \<notin> set es \<Longrightarrow> sp_typeahead (fold prompt_step es s)"
proof (induction es arbitrary: s)
  case (Cons e es)
  have "sp_typeahead (prompt_step e s)"
    using Cons.prems
    by (cases e) (auto simp: prompt_defs split: shell_event.splits prompt_report.splits option.splits)
  with Cons.IH [of "prompt_step e s"] Cons.prems show ?case by simp
qed simp

lemma default_prompt_inv: "prompt_inv default_prompt"
  by (simp add: prompt_inv_def default_prompt_def over_limit_def)

text \<open>
  A prompt that may hold user input is never offered.  After any run: input keeps the prompt from
  being ready until a command has finished; a key typed while a command runs or after Enter keeps it
  from being ready until Enter is pressed at a later prompt, however many commands finish; and the
  recorded commands stay within 128 entries and 128 KiB.
\<close>

lemma touched_prompt_not_offered:
  fixes before after :: "prompt_event list" and enter :: bool
  defines "s \<equiv> fold prompt_step before default_prompt"
  defines "s' \<equiv> fold prompt_step (Ev_Input enter # after) s"
  shows "(list_all (\<lambda>e. \<not> finishes e) after \<longrightarrow> \<not> sp_ready s')
    \<and> (\<not> enter \<and> (sp_entered s \<or> \<not> sp_at_prompt s) \<and> Ev_Input True \<notin> set after \<longrightarrow> \<not> sp_ready s')
    \<and> length (sp_recent s') \<le> 128 \<and> sum_list (map record_size (sp_recent s')) \<le> 128 * 1024"
proof -
  have inv: "prompt_inv s'"
    unfolding s_def s'_def
    using pr.run_inv [OF default_prompt_inv, of "before @ Ev_Input enter # after"] by (simp add: list_all_iff)
  have "\<not> sp_untouched (input enter s)" by (simp add: input_def Let_def invalidate_def)
  then have "list_all (\<lambda>e. \<not> finishes e) after \<Longrightarrow> \<not> sp_untouched s'"
    by (simp add: s'_def prompt_step_def touched_stays)
  moreover have "\<not> enter \<Longrightarrow> sp_entered s \<or> \<not> sp_at_prompt s \<Longrightarrow> sp_typeahead (input enter s)"
    by (auto simp: input_def Let_def invalidate_def)
  then have "\<not> enter \<Longrightarrow> sp_entered s \<or> \<not> sp_at_prompt s \<Longrightarrow> Ev_Input True \<notin> set after \<Longrightarrow> sp_typeahead s'"
    using typeahead_stays [of "input enter s" after] by (simp add: s'_def prompt_step_def)
  ultimately show ?thesis
    using inv by (auto simp: prompt_inv_def over_limit_def)
qed

end
