(* ===== verification/Side_Effects.thy ===== *)
theory Side_Effects
  imports Write_Ingress Shell_Prompt
begin

text \<open>
  \<^verbatim>\<open>crates/bootty-terminal/src/terminal_side_effect.rs\<close>: the collector that turns operating system
  commands in the output of a program into effects on the host.  The two base64 decoders are
  parameters.  Shown: effects are well-formed whatever bytes arrive, a replay of history leaves only
  effects that restore state, and cutting the bytes into chunks does not change the effects.
\<close>

section \<open>Effects\<close>

datatype terminal_side_effect =
    Bell
  | ClipboardWrite string
  | ClipboardPacket string
  | ClipboardReset
  | ClipboardQuery string
  | WindowTitle string
  | WindowIcon string
  | DesktopNotification string string
  | MouseShape string
  | SemanticPrompt string
  | ShellLifecycle shell_event
  | ShellPromptReport prompt_report
  | KittyTextSizing string
  | ConEmuControl string
  | ConEmuProgress string "nat option"
  | Iterm2UserVarPorts "nat list"
  | Iterm2Control string
  | Iterm2File string
  | OpenUrl string
  | FocusWindow
  | ReportCellSize
  | ReportVariable string
  | UnsupportedHostCommand string string

definition repeats_on_replay :: "terminal_side_effect \<Rightarrow> bool" where
  "repeats_on_replay e =
     (case e of
        Bell \<Rightarrow> True | ShellLifecycle _ \<Rightarrow> True | ShellPromptReport _ \<Rightarrow> True | ClipboardPacket _ \<Rightarrow> True
      | ClipboardWrite _ \<Rightarrow> True | ClipboardQuery _ \<Rightarrow> True | DesktopNotification _ _ \<Rightarrow> True | OpenUrl _ \<Rightarrow> True
      | FocusWindow \<Rightarrow> True | ReportCellSize \<Rightarrow> True | ReportVariable _ \<Rightarrow> True | Iterm2File _ \<Rightarrow> True
      | _ \<Rightarrow> False)"

definition keep_restored_state :: "nat \<Rightarrow> terminal_side_effect list \<Rightarrow> terminal_side_effect list" where
  "keep_restored_state n effects = take n effects @ filter (\<lambda>e. \<not> repeats_on_replay e) (drop n effects)"

section \<open>Copying the text of a program\<close>

datatype iterm_copy_escape =
  Esc_None | Esc_Escape | Esc_Intermediate | Esc_Csi | Esc_String | Esc_StringEscape

record iterm_copy_capture =
  ic_text :: string
  ic_escape :: iterm_copy_escape

definition default_capture :: iterm_copy_capture where
  "default_capture = \<lparr>ic_text = [], ic_escape = Esc_None\<rparr>"

definition capture_byte :: "char \<Rightarrow> iterm_copy_capture \<Rightarrow> iterm_copy_capture" where
  "capture_byte b cap =
     (let n = of_char b :: nat in
      case ic_escape cap of
        Esc_None \<Rightarrow>
          if b = esc then cap\<lparr>ic_escape := Esc_Escape\<rparr>
          else if b = CHR 0x0D then cap\<lparr>ic_text := ic_text cap @ [CHR 0x0A]\<rparr>
          else if 0x20 \<le> n \<or> b = CHR 0x0A \<or> b = CHR 0x09 then cap\<lparr>ic_text := ic_text cap @ [b]\<rparr>
          else cap
      | Esc_Escape \<Rightarrow>
          if b = CHR ''['' then cap\<lparr>ic_escape := Esc_Csi\<rparr>
          else if b \<in> set '']P_^'' then cap\<lparr>ic_escape := Esc_String\<rparr>
          else if 0x20 \<le> n \<and> n \<le> 0x2F then cap\<lparr>ic_escape := Esc_Intermediate\<rparr>
          else cap\<lparr>ic_escape := Esc_None\<rparr>
      | Esc_Intermediate \<Rightarrow>
          if 0x20 \<le> n \<and> n \<le> 0x2F then cap else cap\<lparr>ic_escape := Esc_None\<rparr>
      | Esc_Csi \<Rightarrow> if 0x40 \<le> n \<and> n \<le> 0x7E then cap\<lparr>ic_escape := Esc_None\<rparr> else cap
      | Esc_String \<Rightarrow>
          if b = bel then cap\<lparr>ic_escape := Esc_None\<rparr>
          else if b = esc then cap\<lparr>ic_escape := Esc_StringEscape\<rparr> else cap
      | Esc_StringEscape \<Rightarrow>
          if b = backslash \<or> b = bel then cap\<lparr>ic_escape := Esc_None\<rparr>
          else if b = esc then cap else cap\<lparr>ic_escape := Esc_String\<rparr>)"

definition append_plain_text :: "string \<Rightarrow> iterm_copy_capture \<Rightarrow> iterm_copy_capture" where
  "append_plain_text data cap = fold capture_byte data cap"

section \<open>The collector\<close>

record collector =
  co_osc_pending :: string
  co_clipboard_discard :: bool
  co_clipboard_seen :: bool
  co_effects :: "terminal_side_effect list"
  co_callback_effects :: "terminal_side_effect list"
  co_iterm_copy_capture :: "iterm_copy_capture option"

definition new_collector :: collector where
  "new_collector =
     \<lparr>co_osc_pending = [], co_clipboard_discard = False, co_clipboard_seen = False, co_effects = [],
      co_callback_effects = [], co_iterm_copy_capture = None\<rparr>"

definition needs_input :: "collector \<Rightarrow> bool" where
  "needs_input c = (co_clipboard_discard c \<or> co_osc_pending c \<noteq> [] \<or> co_iterm_copy_capture c \<noteq> None)"

definition push_effect :: "terminal_side_effect \<Rightarrow> collector \<Rightarrow> collector" where
  "push_effect e c = c\<lparr>co_effects := co_effects c @ [e]\<rparr>"

definition push_utf8_effect :: "string \<Rightarrow> (string \<Rightarrow> terminal_side_effect) \<Rightarrow> collector \<Rightarrow> collector" where
  "push_utf8_effect payload e c = (case from_utf8 payload of None \<Rightarrow> c | Some t \<Rightarrow> push_effect (e t) c)"

definition append_iterm_copy_text :: "string \<Rightarrow> collector \<Rightarrow> collector" where
  "append_iterm_copy_text data c =
     c\<lparr>co_iterm_copy_capture := map_option (append_plain_text data) (co_iterm_copy_capture c)\<rparr>"

definition is_conemu_osc9 :: "string \<Rightarrow> bool" where
  "is_conemu_osc9 data = (let knd = hd (split_on (CHR '';'') data) in knd \<noteq> [] \<and> list_all is_digit knd)"

definition conemu_progress_state :: "string \<Rightarrow> string" where
  "conemu_progress_state s =
     (if s = ''0'' \<or> s = [] then ''inactive'' else if s = ''1'' then ''normal'' else if s = ''2'' then ''error''
      else if s = ''3'' then ''indeterminate'' else if s = ''4'' then ''warning'' else ''unknown'')"

definition conemu_progress :: "string list \<Rightarrow> terminal_side_effect" where
  "conemu_progress parts =
     (let (fst_part, more) = (case parts of [] \<Rightarrow> ([], []) | p # ps \<Rightarrow> (p, ps));
          (state, val) =
            (case more of
               v # _ \<Rightarrow> (conemu_progress_state fst_part, parse_uint 8 10 v)
             | [] \<Rightarrow>
                 if fst_part \<in> {''0'', ''1'', ''2'', ''3'', ''4''} then (conemu_progress_state fst_part, None)
                 else (''normal'', parse_uint 8 10 fst_part))
      in ConEmuProgress state (map_option (min 100) val))"

definition push_conemu_side_effect :: "string \<Rightarrow> collector \<Rightarrow> collector" where
  "push_conemu_side_effect data c =
     (let pieces = split_on (CHR '';'') data; knd = hd pieces; parts = tl pieces in
      push_effect
        (if knd = ''2'' then WindowTitle (join_with (CHR '';'') parts)
         else if knd = ''4'' then conemu_progress parts
         else if knd = ''6'' then SemanticPrompt ''conemu-prompt''
         else if knd \<in> {''0'', ''1'', ''3'', ''5'', ''7''} then UnsupportedHostCommand ''conemu'' data
         else ConEmuControl data) c)"

definition iterm_cursor_shape_sequence :: "string \<Rightarrow> string option" where
  "iterm_cursor_shape_sequence shape =
     (if shape = ''0'' then Some (esc # ''[2 q'') else if shape = ''1'' then Some (esc # ''[6 q'')
      else if shape = ''2'' then Some (esc # ''[4 q'') else None)"

text \<open>\<open>std_decode\<close> and \<open>no_pad_decode\<close> are the library's base64 with and without padding.\<close>

definition decode_base64 :: "(string \<Rightarrow> string option) \<Rightarrow> (string \<Rightarrow> string option) \<Rightarrow> string \<Rightarrow> string option" where
  "decode_base64 std_decode no_pad_decode v =
     (case std_decode v of Some b \<Rightarrow> Some b | None \<Rightarrow> no_pad_decode v)"

definition iterm2_user_var_ports ::
  "(string \<Rightarrow> string option) \<Rightarrow> (string \<Rightarrow> string option) \<Rightarrow> string \<Rightarrow> nat list option" where
  "iterm2_user_var_ports std_decode no_pad_decode v =
     (case split_once (CHR ''='') v of
        None \<Rightarrow> None
      | Some (name, encoded) \<Rightarrow>
          if name \<noteq> ''bootty_ports'' then None
          else case Option.bind (decode_base64 std_decode no_pad_decode encoded) from_utf8 of
                 None \<Rightarrow> None
               | Some csv \<Rightarrow>
                   if csv = [] then Some []
                   else those (map (\<lambda>port. parse_uint 16 10 (trim port)) (split_on (CHR '','') csv)))"

definition push_iterm2_assignment_side_effect ::
  "(string \<Rightarrow> string option) \<Rightarrow> (string \<Rightarrow> string option) \<Rightarrow> string \<Rightarrow> collector \<Rightarrow> string list \<times> collector" where
  "push_iterm2_assignment_side_effect std_decode no_pad_decode data c =
     (let control = push_effect (Iterm2Control data) c in
      case split_once (CHR ''='') data of
        None \<Rightarrow> ([], control)
      | Some (key, v) \<Rightarrow>
          if key = ''CursorShape'' then
            ((case iterm_cursor_shape_sequence v of None \<Rightarrow> [] | Some s \<Rightarrow> [s]), control)
          else if key = ''Copy'' then
            ([], case std_decode v of None \<Rightarrow> c | Some b \<Rightarrow> push_effect (ClipboardWrite (from_utf8_lossy b)) c)
          else if key = ''CopyToClipboard'' then
            ([], push_effect (Iterm2Control data) (c\<lparr>co_iterm_copy_capture := Some default_capture\<rparr>))
          else if key = ''OpenURL'' then
            ([], push_effect (OpenUrl (case std_decode v of None \<Rightarrow> v | Some b \<Rightarrow> from_utf8_lossy b)) c)
          else if key = ''File'' then ([], push_effect (Iterm2File data) c)
          else if key = ''ReportVariable'' then
            ([], case std_decode v of None \<Rightarrow> control | Some b \<Rightarrow> push_effect (ReportVariable (from_utf8_lossy b)) c)
          else if key = ''SetUserVar'' then
            ([], case iterm2_user_var_ports std_decode no_pad_decode v of
                   None \<Rightarrow> control | Some ports \<Rightarrow> push_effect (Iterm2UserVarPorts ports) c)
          else ([], control))"

definition push_iterm2_side_effect ::
  "(string \<Rightarrow> string option) \<Rightarrow> (string \<Rightarrow> string option) \<Rightarrow> string \<Rightarrow> collector \<Rightarrow> string list \<times> collector" where
  "push_iterm2_side_effect std_decode no_pad_decode data c =
     (if data = ''ClearScrollback'' then ([esc # ''[3J''], push_effect (Iterm2Control data) c)
      else if data = ''SetMark'' then ([], push_effect (SemanticPrompt ''iterm2-set-mark'') c)
      else if data = ''StealFocus'' then ([], push_effect FocusWindow c)
      else if data = ''ReportCellSize'' then ([], push_effect ReportCellSize c)
      else if data = ''EndCopy'' then
        ([], case co_iterm_copy_capture c of
               None \<Rightarrow> c
             | Some cap \<Rightarrow>
                 push_effect (ClipboardWrite (from_utf8_lossy (ic_text cap))) (c\<lparr>co_iterm_copy_capture := None\<rparr>))
      else push_iterm2_assignment_side_effect std_decode no_pad_decode data c)"

definition push_osc777_side_effect :: "string \<Rightarrow> collector \<Rightarrow> collector" where
  "push_osc777_side_effect payload c =
     (let parts = splitn 3 (CHR '';'') (from_utf8_lossy payload) in
      if get_nth parts 0 \<noteq> Some ''notify'' then c
      else push_effect
             (DesktopNotification (case get_nth parts 1 of None \<Rightarrow> [] | Some t \<Rightarrow> t)
                (case get_nth parts 2 of None \<Rightarrow> [] | Some b \<Rightarrow> b)) c)"

definition osc52_side_effect ::
  "(string \<Rightarrow> string option) \<Rightarrow> (string \<Rightarrow> string option) \<Rightarrow> string \<Rightarrow> terminal_side_effect option" where
  "osc52_side_effect std_decode no_pad_decode payload =
     (case split_once (CHR '';'') payload of
        None \<Rightarrow> None
      | Some (sel, encoded) \<Rightarrow>
          if encoded = ''?'' then Some (ClipboardQuery (from_utf8_lossy sel))
          else map_option ClipboardWrite (Option.bind (decode_base64 std_decode no_pad_decode encoded) from_utf8))"

definition push_osc133 :: "(string \<Rightarrow> string option) \<Rightarrow> string \<Rightarrow> collector \<Rightarrow> collector" where
  "push_osc133 std_decode rest c =
     (case from_utf8 rest of
        None \<Rightarrow> c
      | Some v \<Rightarrow>
          (let c1 = (case parse_osc133 v of None \<Rightarrow> c | Some e \<Rightarrow> push_effect (ShellLifecycle e) c)
           in case parse_report std_decode v of None \<Rightarrow> c1 | Some r \<Rightarrow> push_effect (ShellPromptReport r) c1))"

definition push_osc_side_effect ::
  "(string \<Rightarrow> string option) \<Rightarrow> (string \<Rightarrow> string option) \<Rightarrow> string \<Rightarrow> collector \<Rightarrow> string list \<times> collector" where
  "push_osc_side_effect std_decode no_pad_decode payload c =
     (case split_osc_payload payload of
        None \<Rightarrow> ([], c)
      | Some (command, rest) \<Rightarrow>
          if command = ''1'' then ([], push_utf8_effect rest WindowIcon c)
          else if command = ''9'' then
            ([], case from_utf8 rest of
                   None \<Rightarrow> c
                 | Some data \<Rightarrow>
                     if is_conemu_osc9 data then push_conemu_side_effect data c
                     else push_effect (DesktopNotification [] data) c)
          else if command = ''22'' then ([], push_utf8_effect rest MouseShape c)
          else if command = ''5522'' then
            ([], push_effect (ClipboardPacket (if length rest \<le> MAX_PACKET then rest else []))
                   (c\<lparr>co_clipboard_seen := True\<rparr>))
          else if command = ''52'' then
            ([], case osc52_side_effect std_decode no_pad_decode rest of None \<Rightarrow> c | Some e \<Rightarrow> push_effect e c)
          else if command = ''133'' then ([], push_osc133 std_decode rest c)
          else if command = ''66'' then ([], push_utf8_effect rest KittyTextSizing c)
          else if command = ''777'' then ([], push_osc777_side_effect rest c)
          else if command = ''1337'' then
            (case from_utf8 rest of
               None \<Rightarrow> ([], c)
             | Some data \<Rightarrow> push_iterm2_side_effect std_decode no_pad_decode data c)
          else ([], c))"

text \<open>The loop over the commands of the bytes; the actions are the sequences written back to the terminal.\<close>

function collect_loop ::
  "(string \<Rightarrow> string option) \<Rightarrow> (string \<Rightarrow> string option) \<Rightarrow> string \<Rightarrow> collector \<Rightarrow> string list \<times> collector" where
  "collect_loop std_decode no_pad_decode remaining c =
     (case find_sub osc_intro remaining of
        None \<Rightarrow> ([], append_iterm_copy_text remaining c)
      | Some start \<Rightarrow>
          (let c1 = append_iterm_copy_text (take start remaining) c;
               packet = drop start remaining; payload = drop 2 packet in
           case find_osc_terminator payload of
             Some (payload_len, terminator_len) \<Rightarrow>
               (let (acts, c2) = push_osc_side_effect std_decode no_pad_decode (take payload_len payload) c1;
                    (more_acts, c3) = collect_loop std_decode no_pad_decode (drop (payload_len + terminator_len) payload) c2
                in (acts @ more_acts, c3))
           | None \<Rightarrow>
               if prefix ''5522;'' payload \<and> MAX_PACKET < length payload then
                 ([], (push_effect (ClipboardPacket []) c1)
                        \<lparr>co_clipboard_discard := True,
                         co_osc_pending := co_osc_pending c1 @ (if last_opt packet = Some esc then [esc] else [])\<rparr>)
               else ([], c1\<lparr>co_osc_pending := co_osc_pending c1 @ packet\<rparr>)))"
  by pat_completeness auto
termination
  by (relation "measure (\<lambda>(std_decode, no_pad_decode, remaining, c). length remaining)")
     (auto dest!: find_sub_le)

declare collect_loop.simps [simp del]

definition collect ::
  "(string \<Rightarrow> string option) \<Rightarrow> (string \<Rightarrow> string option) \<Rightarrow> string \<Rightarrow> collector \<Rightarrow> string list \<times> collector" where
  "collect std_decode no_pad_decode data c =
     (let bytes = co_osc_pending c @ data; c1 = c\<lparr>co_osc_pending := []\<rparr> in
      if co_clipboard_discard c1 then
        (case find_osc_terminator bytes of
           None \<Rightarrow> ([], if last_opt bytes = Some esc then c1\<lparr>co_osc_pending := [esc]\<rparr> else c1)
         | Some (n, len) \<Rightarrow>
             collect_loop std_decode no_pad_decode (drop (n + len) bytes) (c1\<lparr>co_clipboard_discard := False\<rparr>))
      else collect_loop std_decode no_pad_decode bytes c1)"

definition mark :: "collector \<Rightarrow> nat \<times> nat" where
  "mark c = (length (co_effects c), length (co_callback_effects c))"

definition clear_pending :: "collector \<Rightarrow> collector" where
  "clear_pending c = c\<lparr>co_osc_pending := [], co_iterm_copy_capture := None, co_clipboard_discard := False\<rparr>"

definition drop_replayed :: "nat \<times> nat \<Rightarrow> collector \<Rightarrow> collector" where
  "drop_replayed m c =
     c\<lparr>co_effects := keep_restored_state (fst m) (co_effects c),
       co_callback_effects := keep_restored_state (snd m) (co_callback_effects c)\<rparr>"

definition reset_clipboard_epoch :: "collector \<Rightarrow> collector" where
  "reset_clipboard_epoch c =
     (if co_clipboard_seen c then push_effect ClipboardReset (c\<lparr>co_clipboard_seen := False\<rparr>) else c)"

definition drain :: "collector \<Rightarrow> terminal_side_effect list \<times> collector" where
  "drain c = (co_effects c @ co_callback_effects c, c\<lparr>co_effects := [], co_callback_effects := []\<rparr>)"

section \<open>Effects are well-formed\<close>

definition report_ok :: "prompt_report \<Rightarrow> bool" where
  "report_ok r \<longleftrightarrow>
     (case r of
        Report_Ready shell history_file _ \<Rightarrow>
          shell \<in> {''bash'', ''zsh'', ''fish''} \<and> utf8_valid history_file \<and> \<not> has_nul_or_esc history_file
      | Report_Command command \<Rightarrow>
          command \<noteq> [] \<and> utf8_valid command \<and> \<not> starts_with_whitespace command \<and> \<not> has_nul_or_esc command)"

definition effect_ok :: "terminal_side_effect \<Rightarrow> bool" where
  "effect_ok e \<longleftrightarrow>
     (case e of
        ClipboardWrite s \<Rightarrow> utf8_valid s
      | ClipboardPacket p \<Rightarrow> length p \<le> MAX_PACKET
      | ClipboardQuery s \<Rightarrow> utf8_valid s
      | WindowTitle s \<Rightarrow> utf8_valid s
      | WindowIcon s \<Rightarrow> utf8_valid s
      | DesktopNotification t b \<Rightarrow> utf8_valid t \<and> utf8_valid b
      | MouseShape s \<Rightarrow> utf8_valid s
      | SemanticPrompt s \<Rightarrow> utf8_valid s
      | ShellLifecycle ev \<Rightarrow> (case ev of Command_Finish (Some n) \<Rightarrow> - (2 ^ 31) \<le> n \<and> n < 2 ^ 31 | _ \<Rightarrow> True)
      | ShellPromptReport r \<Rightarrow> report_ok r
      | KittyTextSizing s \<Rightarrow> utf8_valid s
      | ConEmuControl s \<Rightarrow> utf8_valid s
      | ConEmuProgress s v \<Rightarrow> utf8_valid s \<and> (case v of None \<Rightarrow> True | Some n \<Rightarrow> n \<le> 100)
      | Iterm2UserVarPorts ports \<Rightarrow> list_all (\<lambda>p. p < 2 ^ 16) ports
      | Iterm2Control s \<Rightarrow> utf8_valid s
      | Iterm2File s \<Rightarrow> utf8_valid s
      | OpenUrl s \<Rightarrow> utf8_valid s
      | ReportVariable s \<Rightarrow> utf8_valid s
      | UnsupportedHostCommand p s \<Rightarrow> utf8_valid p \<and> utf8_valid s
      | Bell \<Rightarrow> True | ClipboardReset \<Rightarrow> True | FocusWindow \<Rightarrow> True | ReportCellSize \<Rightarrow> True)"

definition collector_ok :: "collector \<Rightarrow> bool" where
  "collector_ok c \<longleftrightarrow> list_all effect_ok (co_effects c) \<and> list_all effect_ok (co_callback_effects c)"

lemma collector_ok_update [simp]:
  "collector_ok (c\<lparr>co_iterm_copy_capture := x\<rparr>) = collector_ok c" "collector_ok (c\<lparr>co_osc_pending := p\<rparr>) = collector_ok c"
  "collector_ok (c\<lparr>co_clipboard_seen := b\<rparr>) = collector_ok c" "collector_ok (c\<lparr>co_clipboard_discard := b\<rparr>) = collector_ok c"
  by (simp_all add: collector_ok_def)

lemma push_effect_ok [simp]: "collector_ok (push_effect e c) \<longleftrightarrow> collector_ok c \<and> effect_ok e"
  by (auto simp: collector_ok_def push_effect_def)

lemma append_iterm_ok [simp]: "collector_ok (append_iterm_copy_text t c) = collector_ok c"
  by (simp add: append_iterm_copy_text_def)

lemma parse_uint_bound: "parse_uint w r s = Some n \<Longrightarrow> n < 2 ^ w"
  by (auto simp: parse_uint_def split: option.splits if_splits)

lemma parse_i32_bound: "parse_i32 s = Some n \<Longrightarrow> - (2 ^ 31) \<le> n \<and> n < 2 ^ 31"
  by (auto simp: parse_i32_def split: option.splits if_splits dest!: parse_uint_bound)

lemma parse_osc133_ok: "parse_osc133 v = Some e \<Longrightarrow> effect_ok (ShellLifecycle e)"
  by (auto simp: parse_osc133_def effect_ok_def split: list.splits if_splits dest!: parse_i32_bound)

lemma parse_report_ok: "parse_report decode v = Some r \<Longrightarrow> effect_ok (ShellPromptReport r)"
  by (auto simp: parse_report_def parse_ready_def parse_command_def effect_ok_def report_ok_def bind_eq_Some_conv
      split: list.splits if_splits option.splits)

lemma push_osc133_ok: "collector_ok c \<Longrightarrow> collector_ok (push_osc133 d rest c)"
  by (auto simp: push_osc133_def Let_def parse_osc133_ok parse_report_ok split: option.splits)

lemma split_on_hd_tl: "split_on c s = knd # parts \<Longrightarrow> parts \<noteq> [] \<Longrightarrow> s = knd @ c # join_with c parts"
  using join_split [of c s] by (cases parts) auto

lemma conemu_progress_ok: "effect_ok (conemu_progress parts)"
proof -
  have "utf8_valid (conemu_progress_state s)" "utf8_valid ''normal''" for s
    by (auto simp: conemu_progress_state_def intro!: ascii_valid)
  then show ?thesis
    by (auto simp: conemu_progress_def effect_ok_def Let_def split: list.splits option.splits)
qed

lemma push_conemu_ok:
  assumes "collector_ok c" "utf8_valid data"
  shows "collector_ok (push_conemu_side_effect data c)"
proof -
  obtain knd parts where k: "split_on (CHR '';'') data = knd # parts"
    using split_on_nonempty by (metis list.exhaust)
  have "utf8_valid (join_with (CHR '';'') parts)"
  proof (cases "parts = []")
    case False
    then show ?thesis using utf8_split [of knd "CHR '';''"] split_on_hd_tl [OF k] assms(2) by auto
  qed simp
  moreover have "utf8_valid ''conemu''" "utf8_valid ''conemu-prompt''" by (auto intro!: ascii_valid)
  ultimately show ?thesis
    using assms conemu_progress_ok [of parts] by (simp add: push_conemu_side_effect_def Let_def k) (simp add: effect_ok_def)
qed

lemma ports_ok:
  assumes "iterm2_user_var_ports d e v = Some ports"
  shows "list_all (\<lambda>p. p < 2 ^ 16) ports"
proof -
  have "list_all (\<lambda>p. p < 2 ^ 16) ps" if "those (map (\<lambda>port. parse_uint 16 10 (trim port)) fs) = Some ps" for fs ps
    using that by (induction fs arbitrary: ps) (auto split: option.splits dest!: parse_uint_bound)
  then show ?thesis
    using assms by (auto simp: iterm2_user_var_ports_def split: option.splits if_splits)
qed

lemma iterm2_assignment_ok:
  assumes "collector_ok c" "utf8_valid data"
  shows "collector_ok (snd (push_iterm2_assignment_side_effect d e data c))"
proof (cases "split_once (CHR ''='') data")
  case None
  then show ?thesis using assms by (simp add: push_iterm2_assignment_side_effect_def effect_ok_def)
next
  case (Some kv)
  obtain key v where kv: "kv = (key, v)" by force
  have "utf8_valid v" using utf8_split_once [of "CHR ''=''" data key v] Some kv assms(2) by simp
  then show ?thesis
    using assms Some kv ports_ok [of d e v] from_utf8_lossy_valid
    by (auto simp: push_iterm2_assignment_side_effect_def effect_ok_def Let_def split: option.splits)
qed

lemma iterm2_ok:
  assumes "collector_ok c" "utf8_valid data"
  shows "collector_ok (snd (push_iterm2_side_effect d e data c))"
proof -
  have "effect_ok (SemanticPrompt ''iterm2-set-mark'')"
    by (simp add: effect_ok_def ascii_valid)
  moreover have "effect_ok (Iterm2Control data)" "effect_ok FocusWindow" "effect_ok ReportCellSize"
    "effect_ok (ClipboardWrite (from_utf8_lossy t))" for t
    using assms(2) by (simp_all add: effect_ok_def from_utf8_lossy_valid)
  ultimately show ?thesis
    using assms(1) iterm2_assignment_ok [OF assms, of d e]
    by (auto simp: push_iterm2_side_effect_def split: option.splits)
qed

lemma osc777_ok:
  assumes "collector_ok c"
  shows "collector_ok (push_osc777_side_effect payload c)"
proof -
  have "list_all utf8_valid (splitn 3 (CHR '';'') (from_utf8_lossy payload))"
    by (intro utf8_splitn from_utf8_lossy_valid) simp
  then have "get_nth (splitn 3 (CHR '';'') (from_utf8_lossy payload)) i = Some t \<Longrightarrow> utf8_valid t" for i t
    by (auto simp: get_nth_Some list_all_length)
  then show ?thesis
    using assms by (auto simp: push_osc777_side_effect_def effect_ok_def Let_def split: option.splits)
qed

lemma osc52_ok: "osc52_side_effect d e payload = Some ef \<Longrightarrow> effect_ok ef"
  using from_utf8_lossy_valid
  by (auto simp: osc52_side_effect_def effect_ok_def bind_eq_Some_conv split: option.splits if_splits)

lemma push_utf8_ok: "collector_ok c \<Longrightarrow> (utf8_valid payload \<Longrightarrow> effect_ok (e payload)) \<Longrightarrow> collector_ok (push_utf8_effect payload e c)"
  by (auto simp: push_utf8_effect_def split: option.splits)

lemma push_osc_ok:
  assumes "collector_ok c"
  shows "collector_ok (snd (push_osc_side_effect d e payload c))"
proof (cases "split_osc_payload payload")
  case None
  then show ?thesis using assms by (simp add: push_osc_side_effect_def)
next
  case (Some cr)
  obtain command rest where "cr = (command, rest)" by force
  moreover have "effect_ok (DesktopNotification [] data)" if "utf8_valid data" for data
    using that by (simp add: effect_ok_def)
  moreover have "effect_ok (ClipboardPacket (if length rest \<le> MAX_PACKET then rest else []))" by (simp add: effect_ok_def)
  moreover have "collector_ok (push_utf8_effect rest WindowIcon c)" "collector_ok (push_utf8_effect rest MouseShape c)"
    "collector_ok (push_utf8_effect rest KittyTextSizing c)"
    using assms by (auto intro!: push_utf8_ok simp: effect_ok_def)
  ultimately show ?thesis
    using assms Some push_osc133_ok [OF assms, of d rest] osc777_ok [OF assms, of rest] osc52_ok [of d e rest]
      push_conemu_ok [OF assms] iterm2_ok [OF assms, of _ d e]
    by (auto simp: push_osc_side_effect_def split: option.splits)
qed

lemma collect_loop_text:
  "find_sub osc_intro s = None \<Longrightarrow> collect_loop d e s c = ([], append_iterm_copy_text s c)"
  by (simp add: collect_loop.simps [of d e s])

lemma collect_loop_osc:
  assumes "find_sub osc_intro s = Some start" "payload = drop 2 (drop start s)" "find_osc_terminator payload = Some (n, k)"
    and "push_osc_side_effect d e (take n payload) (append_iterm_copy_text (take start s) c) = (acts, c2)"
  shows "collect_loop d e s c =
    (acts @ fst (collect_loop d e (drop (n + k) payload) c2), snd (collect_loop d e (drop (n + k) payload) c2))"
  unfolding collect_loop.simps [of d e s] assms(1) option.case Let_def assms(2) [symmetric] assms(3) prod.case assms(4)
  by (simp add: split_beta)

definition held_collector :: "string \<Rightarrow> collector \<Rightarrow> collector" where
  "held_collector packet c =
     (if prefix ''5522;'' (drop 2 packet) \<and> MAX_PACKET < length (drop 2 packet) then
        (push_effect (ClipboardPacket []) c)
          \<lparr>co_clipboard_discard := True,
           co_osc_pending := co_osc_pending c @ (if last_opt packet = Some esc then [esc] else [])\<rparr>
      else c\<lparr>co_osc_pending := co_osc_pending c @ packet\<rparr>)"

lemma collect_loop_held:
  assumes "find_sub osc_intro s = Some start" "find_osc_terminator (drop 2 (drop start s)) = None"
  shows "collect_loop d e s c = ([], held_collector (drop start s) (append_iterm_copy_text (take start s) c))"
  unfolding collect_loop.simps [of d e s] assms(1) option.case Let_def assms(2) held_collector_def by simp

lemma held_collector_ok: "collector_ok c \<Longrightarrow> collector_ok (held_collector packet c)"
  by (simp add: held_collector_def effect_ok_def)

lemma collect_loop_ok: "collector_ok c \<Longrightarrow> collector_ok (snd (collect_loop d e s c))"
proof (induction "length s" arbitrary: s c rule: less_induct)
  case less
  show ?case
  proof (cases "find_sub osc_intro s")
    case None
    then show ?thesis using less.prems by (simp add: collect_loop_text)
  next
    case (Some start)
    define payload where "payload = drop 2 (drop start s)"
    show ?thesis
    proof (cases "find_osc_terminator payload")
      case None
      then show ?thesis
        using Some less.prems by (simp add: collect_loop_held payload_def held_collector_ok)
    next
      case trm: (Some nk)
      obtain n k where nk: "nk = (n, k)" by force
      obtain acts c2 where push: "push_osc_side_effect d e (take n payload) (append_iterm_copy_text (take start s) c) = (acts, c2)"
        by force
      have "collector_ok c2"
        using push_osc_ok [of "append_iterm_copy_text (take start s) c" d e "take n payload"] push less.prems by simp
      moreover have "length (drop (n + k) payload) < length s"
        using find_sub_le [OF Some] by (simp add: payload_def)
      ultimately show ?thesis
        using less.hyps collect_loop_osc [OF Some payload_def _ push] trm nk by simp
    qed
  qed
qed

lemma collect_ok: "collector_ok c \<Longrightarrow> collector_ok (snd (collect d e data c))"
  by (simp add: collect_def Let_def collect_loop_ok split: option.splits)

section \<open>Runs of the collector\<close>

text \<open>
  What the engine does with the collector: it absorbs the bytes of a write and the effects that the
  terminal library's callbacks report, clears what is pending, replays history, and drains.
\<close>

datatype absorbed = Col_Bytes string | Col_Callback terminal_side_effect

datatype collector_event = Col_Absorb absorbed | Col_Clear | Col_Replay "absorbed list" | Col_Drain

definition absorb ::
  "(string \<Rightarrow> string option) \<Rightarrow> (string \<Rightarrow> string option) \<Rightarrow> absorbed \<Rightarrow> collector \<Rightarrow> collector" where
  "absorb d e a c =
     (case a of
        Col_Bytes b \<Rightarrow> snd (collect d e b c)
      | Col_Callback ef \<Rightarrow> c\<lparr>co_callback_effects := co_callback_effects c @ [ef]\<rparr>)"

text \<open>The collector's part of \<^verbatim>\<open>import_history\<close>: the mark is taken before the bytes are written.\<close>

definition replay ::
  "(string \<Rightarrow> string option) \<Rightarrow> (string \<Rightarrow> string option) \<Rightarrow> absorbed list \<Rightarrow> collector \<Rightarrow> collector" where
  "replay d e items c =
     (let c1 = clear_pending c in reset_clipboard_epoch (drop_replayed (mark c1) (fold (absorb d e) items c1)))"

definition collector_step ::
  "(string \<Rightarrow> string option) \<Rightarrow> (string \<Rightarrow> string option) \<Rightarrow> collector_event \<Rightarrow> collector \<Rightarrow> collector" where
  "collector_step d e ev c =
     (case ev of
        Col_Absorb a \<Rightarrow> absorb d e a c
      | Col_Clear \<Rightarrow> clear_pending c
      | Col_Replay items \<Rightarrow> replay d e items c
      | Col_Drain \<Rightarrow> snd (drain c))"

definition absorbed_ok :: "absorbed \<Rightarrow> bool" where
  "absorbed_ok a \<longleftrightarrow> (case a of Col_Callback ef \<Rightarrow> effect_ok ef | Col_Bytes _ \<Rightarrow> True)"

definition event_ok :: "collector_event \<Rightarrow> bool" where
  "event_ok ev \<longleftrightarrow>
     (case ev of Col_Absorb a \<Rightarrow> absorbed_ok a | Col_Replay items \<Rightarrow> list_all absorbed_ok items | _ \<Rightarrow> True)"

lemma absorb_ok: "collector_ok c \<Longrightarrow> absorbed_ok a \<Longrightarrow> collector_ok (absorb d e a c)"
  by (cases a) (simp_all add: absorb_def absorbed_ok_def collect_ok, simp add: collector_ok_def)

lemma absorbs_ok: "collector_ok c \<Longrightarrow> list_all absorbed_ok items \<Longrightarrow> collector_ok (fold (absorb d e) items c)"
  by (induction items arbitrary: c) (simp_all add: absorb_ok)

lemma keep_restored_ok: "list_all effect_ok es \<Longrightarrow> list_all effect_ok (keep_restored_state n es)"
  by (auto simp: keep_restored_state_def list_all_iff dest: in_set_takeD in_set_dropD)

lemma replay_ok:
  assumes "collector_ok c" "list_all absorbed_ok items"
  shows "collector_ok (replay d e items c)"
proof -
  have "collector_ok (fold (absorb d e) items (clear_pending c))"
    using assms by (intro absorbs_ok) (simp_all add: clear_pending_def)
  then have "collector_ok (drop_replayed m (fold (absorb d e) items (clear_pending c)))" for m
    by (simp add: drop_replayed_def collector_ok_def keep_restored_ok)
  then show ?thesis by (simp add: replay_def reset_clipboard_epoch_def Let_def effect_ok_def)
qed

interpretation col: invariant_machine "collector_step d e" collector_ok event_ok for d e
proof
  fix c ev
  assume "collector_ok c" "event_ok ev"
  moreover have "collector_ok c \<Longrightarrow> collector_ok (snd (drain c))" by (simp add: drain_def collector_ok_def)
  ultimately show "collector_ok (collector_step d e ev c)"
    by (cases ev) (simp_all add: collector_step_def absorb_ok replay_ok clear_pending_def event_ok_def)
qed

text \<open>
  C10.  Whatever bytes a program writes, in whatever order they are collected, replayed and drained,
  and whatever the base64 decoders answer, the effects handed to the host are well-formed: every text is
  UTF-8, a clipboard packet is within its limit, progress is at most 100, ports fit 16 bits, exit codes
  32 bits, and a reported command is not empty, does not begin with white space and has no control.
\<close>

theorem effects_wellformed:
  assumes "list_all event_ok events"
  shows "list_all effect_ok (fst (drain (fold (collector_step d e) events new_collector)))"
proof -
  have "collector_ok new_collector" by (simp add: collector_ok_def new_collector_def)
  from col.run_inv [OF this assms] show ?thesis by (simp add: drain_def collector_ok_def)
qed

theorem effects_wellformed_witness:
  "list_all effect_ok (fst (drain (fold (collector_step (\<lambda>_. None) (\<lambda>_. None)) [Col_Absorb (Col_Callback Bell), Col_Absorb (Col_Bytes (esc # '']1;x'' @ [bel]))] new_collector)))"
  by (rule effects_wellformed) (simp add: event_ok_def absorbed_ok_def effect_ok_def)

section \<open>Replaying history\<close>

definition grows :: "collector \<Rightarrow> collector \<Rightarrow> bool" where
  "grows c c' \<longleftrightarrow>
     prefix (co_effects c) (co_effects c') \<and> prefix (co_callback_effects c) (co_callback_effects c')"

lemma grows_refl [simp]: "grows c c"
  by (simp add: grows_def)

lemma grows_trans: "grows a b \<Longrightarrow> grows b c \<Longrightarrow> grows a c"
  by (auto simp: grows_def intro: prefix_order.trans)

lemma grows_push [simp]: "grows c (push_effect e c)"
  by (simp add: grows_def push_effect_def)

lemma grows_update [simp]:
  "grows c (c'\<lparr>co_iterm_copy_capture := x\<rparr>) = grows c c'" "grows c (c'\<lparr>co_osc_pending := p\<rparr>) = grows c c'"
  "grows c (c'\<lparr>co_clipboard_seen := b\<rparr>) = grows c c'" "grows c (c'\<lparr>co_clipboard_discard := b\<rparr>) = grows c c'"
  "grows c (push_effect e (c\<lparr>co_clipboard_seen := b\<rparr>))" "grows c (push_effect e (c\<lparr>co_iterm_copy_capture := x\<rparr>))"
  by (simp_all add: grows_def push_effect_def)

lemma grows_append_text [simp]: "grows c (append_iterm_copy_text t c)"
  by (simp add: append_iterm_copy_text_def)

lemma grows_push_osc: "grows c (snd (push_osc_side_effect d e payload c))"
proof -
  have "grows c (push_osc133 d rest c)" for rest
    by (simp add: push_osc133_def Let_def grows_def push_effect_def split: option.splits)
  moreover have "grows c (push_osc777_side_effect rest c)" for rest
    by (simp add: push_osc777_side_effect_def Let_def)
  moreover have "grows c (push_conemu_side_effect data c)" "grows c (push_utf8_effect rest f c)" for data rest f
    by (simp_all add: push_conemu_side_effect_def push_utf8_effect_def Let_def split: option.splits)
  moreover have "grows c (snd (push_iterm2_assignment_side_effect d e data c))" for data
    by (simp add: push_iterm2_assignment_side_effect_def Let_def split: option.splits)
  then have "grows c (snd (push_iterm2_side_effect d e data c))" for data
    by (simp add: push_iterm2_side_effect_def split: option.splits)
  ultimately show ?thesis
    by (simp add: push_osc_side_effect_def split: option.splits)
qed

lemma grows_held: "grows c (held_collector packet c)"
  by (simp add: held_collector_def)

lemma grows_collect_loop: "grows c (snd (collect_loop d e s c))"
proof (induction "length s" arbitrary: s c rule: less_induct)
  case less
  show ?case
  proof (cases "find_sub osc_intro s")
    case None
    then show ?thesis by (simp add: collect_loop_text)
  next
    case (Some start)
    define payload where "payload = drop 2 (drop start s)"
    define c1 where "c1 = append_iterm_copy_text (take start s) c"
    have c1: "grows c c1" by (simp add: c1_def)
    show ?thesis
    proof (cases "find_osc_terminator payload")
      case None
      then show ?thesis
        using Some grows_trans [OF c1 grows_held] by (simp add: collect_loop_held payload_def c1_def)
    next
      case trm: (Some nk)
      obtain n k where nk: "nk = (n, k)" by force
      obtain acts c2 where push: "push_osc_side_effect d e (take n payload) c1 = (acts, c2)" by force
      have "grows c c2" using grows_trans [OF c1 grows_push_osc [of c1 d e "take n payload"]] push by simp
      moreover have "length (drop (n + k) payload) < length s"
        using find_sub_le [OF Some] by (simp add: payload_def)
      then have "grows c2 (snd (collect_loop d e (drop (n + k) payload) c2))" by (rule less.hyps)
      ultimately show ?thesis
        using collect_loop_osc [OF Some payload_def _ push [unfolded c1_def]] trm nk by (auto intro: grows_trans)
    qed
  qed
qed

lemma grows_collect: "grows c (snd (collect d e data c))"
  using grows_collect_loop [of "c\<lparr>co_osc_pending := []\<rparr>" d e]
    grows_collect_loop [of "c\<lparr>co_osc_pending := [], co_clipboard_discard := False\<rparr>" d e]
  by (auto simp: collect_def Let_def grows_def split: option.splits)

lemma grows_absorbs: "grows c (fold (absorb d e) items c)"
proof (induction items arbitrary: c)
  case (Cons a items)
  have "grows c (absorb d e a c)"
    by (cases a) (simp_all add: absorb_def grows_collect, simp add: grows_def)
  with Cons [of "absorb d e a c"] show ?case by (auto intro: grows_trans)
qed simp

text \<open>The effects of a replay: those queued before, then of the new ones exactly those that restore state.\<close>

lemma replay_effects:
  "\<exists>new new_callbacks.
     co_effects (fold (absorb d e) items (clear_pending c)) = co_effects c @ new
     \<and> co_callback_effects (fold (absorb d e) items (clear_pending c)) = co_callback_effects c @ new_callbacks
     \<and> fst (drain (replay d e items c)) =
         co_effects c @ filter (\<lambda>x. \<not> repeats_on_replay x) new
         @ (if co_clipboard_seen (fold (absorb d e) items (clear_pending c)) then [ClipboardReset] else [])
         @ co_callback_effects c @ filter (\<lambda>x. \<not> repeats_on_replay x) new_callbacks"
proof -
  define r where "r = fold (absorb d e) items (clear_pending c)"
  have "grows (clear_pending c) r" unfolding r_def by (rule grows_absorbs)
  then obtain new new_callbacks where new: "co_effects r = co_effects c @ new" "co_callback_effects r = co_callback_effects c @ new_callbacks"
    by (auto simp: grows_def prefix_def clear_pending_def)
  have "mark (clear_pending c) = (length (co_effects c), length (co_callback_effects c))"
    by (simp add: mark_def clear_pending_def)
  then have "fst (drain (replay d e items c)) = co_effects c @ filter (\<lambda>x. \<not> repeats_on_replay x) new
      @ (if co_clipboard_seen r then [ClipboardReset] else [])
      @ co_callback_effects c @ filter (\<lambda>x. \<not> repeats_on_replay x) new_callbacks"
    using new by (simp add: r_def [symmetric] replay_def Let_def drain_def reset_clipboard_epoch_def push_effect_def
        drop_replayed_def keep_restored_state_def)
  with new show ?thesis unfolding r_def by blast
qed

lemma replay_restored:
  "\<exists>new new_callbacks.
     fst (drain (replay d e items c)) = co_effects c @ new @ co_callback_effects c @ new_callbacks
     \<and> list_all (\<lambda>x. \<not> repeats_on_replay x) (new @ new_callbacks)"
proof -
  obtain new new_callbacks where "fst (drain (replay d e items c)) = co_effects c @ filter (\<lambda>x. \<not> repeats_on_replay x) new
      @ (if co_clipboard_seen (fold (absorb d e) items (clear_pending c)) then [ClipboardReset] else [])
      @ co_callback_effects c @ filter (\<lambda>x. \<not> repeats_on_replay x) new_callbacks"
    using replay_effects [of d e items c] by blast
  moreover have "\<not> repeats_on_replay ClipboardReset" by (simp add: repeats_on_replay_def)
  then have "list_all (\<lambda>x. \<not> repeats_on_replay x)
      ((filter (\<lambda>x. \<not> repeats_on_replay x) new
        @ (if co_clipboard_seen (fold (absorb d e) items (clear_pending c)) then [ClipboardReset] else []))
       @ filter (\<lambda>x. \<not> repeats_on_replay x) new_callbacks)"
    by (auto simp: list_all_iff)
  ultimately show ?thesis by (metis append.assoc)
qed

section \<open>Chunks\<close>

lemma append_plain_text_simps:
  "append_plain_text [] = (\<lambda>x. x)" "append_plain_text (a @ b) = append_plain_text b \<circ> append_plain_text a"
  by (simp_all add: append_plain_text_def fun_eq_iff)

lemma append_text_append:
  "append_iterm_copy_text (a @ b) c = append_iterm_copy_text b (append_iterm_copy_text a c)"
  by (simp add: append_iterm_copy_text_def append_plain_text_simps option.map_comp)

lemma append_text_Nil [simp]: "append_iterm_copy_text [] c = c"
  by (cases c) (simp add: append_iterm_copy_text_def append_plain_text_simps option.map_ident)

lemma append_text_fields [simp]:
  "co_osc_pending (append_iterm_copy_text t c) = co_osc_pending c"
  "co_clipboard_discard (append_iterm_copy_text t c) = co_clipboard_discard c"
  by (simp_all add: append_iterm_copy_text_def)

lemma push_osc_fields:
  "co_osc_pending (snd (push_osc_side_effect d e payload c)) = co_osc_pending c
    \<and> co_clipboard_discard (snd (push_osc_side_effect d e payload c)) = co_clipboard_discard c"
proof -
  let ?keeps = "\<lambda>x. co_osc_pending x = co_osc_pending c \<and> co_clipboard_discard x = co_clipboard_discard c"
  have "?keeps (push_osc133 d rest c)" "?keeps (push_osc777_side_effect rest c)" "?keeps (push_conemu_side_effect rest c)"
    "?keeps (push_utf8_effect rest f c)" "?keeps (snd (push_iterm2_assignment_side_effect d e rest c))" for rest f
    by (simp_all add: push_osc133_def push_osc777_side_effect_def push_conemu_side_effect_def push_utf8_effect_def
        push_iterm2_assignment_side_effect_def push_effect_def Let_def split: option.splits)
  moreover from this(5) have "?keeps (snd (push_iterm2_side_effect d e rest c))" for rest
    by (simp add: push_iterm2_side_effect_def push_effect_def split: option.splits)
  ultimately show ?thesis
    by (simp add: push_osc_side_effect_def push_effect_def split: option.splits)
qed

lemma find_sub_append: "find_sub needle s = Some i \<Longrightarrow> find_sub needle (s @ t) = Some i"
proof (induction s arbitrary: i)
  case Nil
  then show ?case by (cases t) (simp_all split: if_splits)
next
  case (Cons c s)
  have "length needle \<le> length (c # s)" using find_sub_le [OF Cons.prems] by simp
  then have "prefix needle (c # s @ t) = prefix needle (c # s)"
    using prefix_decided(1) [of "c # s" needle t] by simp
  with Cons show ?case by (auto split: if_splits)
qed

lemma find_osc_across:
  assumes "find_sub osc_intro a = None" "last_opt a \<noteq> Some esc"
  shows "find_sub osc_intro (a @ b) = map_option ((+) (length a)) (find_sub osc_intro b)"
  using assms
proof (induction a)
  case Nil
  then show ?case by (simp add: option.map_ident)
next
  case (Cons c a)
  have "\<not> prefix osc_intro (c # a @ b)"
    using Cons.prems by (cases a) (auto simp: osc_intro_def last_opt_def split: if_splits)
  moreover have "find_sub osc_intro a = None" "last_opt a \<noteq> Some esc"
    using Cons.prems by (auto simp: last_opt_def split: if_splits)
  ultimately show ?case using Cons.IH by (simp add: option.map_comp comp_def)
qed

lemma collect_loop_skip:
  assumes "find_sub osc_intro s = Some start"
  shows "collect_loop d e s c = collect_loop d e (drop start s) (append_iterm_copy_text (take start s) c)"
proof -
  have start: "find_sub osc_intro (drop start s) = Some 0"
  proof -
    have "prefix osc_intro (drop start s)" using find_sub_Some [OF assms] by simp
    then show ?thesis by (cases "drop start s") (auto simp: osc_intro_def)
  qed
  show ?thesis
  proof (cases "find_osc_terminator (drop 2 (drop start s))")
    case None
    then show ?thesis using assms start by (simp add: collect_loop_held)
  next
    case (Some nk)
    obtain n k where nk: "nk = (n, k)" by force
    obtain acts c2 where push: "push_osc_side_effect d e (take n (drop 2 (drop start s))) (append_iterm_copy_text (take start s) c) = (acts, c2)"
      by force
    show ?thesis
      using collect_loop_osc [OF assms refl Some [unfolded nk] push] collect_loop_osc [OF start, of _ n k d e _ acts c2] Some nk push
      by simp
  qed
qed

lemma collect_loop_plain:
  assumes "find_sub osc_intro a = None" "last_opt a \<noteq> Some esc"
  shows "collect_loop d e (a @ b) c = collect_loop d e b (append_iterm_copy_text a c)"
proof (cases "find_sub osc_intro b")
  case None
  then show ?thesis using find_osc_across [OF assms, of b] by (simp add: collect_loop_text append_text_append)
next
  case (Some start)
  then have "find_sub osc_intro (a @ b) = Some (length a + start)" using find_osc_across [OF assms, of b] by simp
  from collect_loop_skip [OF this, of d e c] collect_loop_skip [OF Some, of d e "append_iterm_copy_text a c"]
  show ?thesis by (simp add: append_text_append)
qed

lemma held_small:
  assumes "packets_within (MAX_PACKET + 2) (p @ b)" "find_osc_terminator (drop 2 p) = None" "prefix osc_intro p"
  shows "held_collector p c = c\<lparr>co_osc_pending := co_osc_pending c @ p\<rparr>"
proof -
  have "length (drop 2 p) \<le> MAX_PACKET" if "prefix ''5522;'' (drop 2 p)"
  proof -
    have "p = osc_intro @ drop 2 p" using assms(3) by (auto simp: prefix_def)
    then have "prefix clipboard_intro (drop 0 p)"
      using that by (metis clipboard_intro_def drop0 same_prefix_prefix)
    then have "packet_extent (drop 0 p) \<le> MAX_PACKET + 2"
      using packets_within_prefix [OF assms(1)] unfolding packets_within_def by blast
    then show ?thesis using assms(2) by (simp add: packet_extent_def)
  qed
  then show ?thesis by (auto simp: held_collector_def)
qed

lemma last_opt_drop: "last_opt s \<noteq> Some x \<Longrightarrow> last_opt (drop n s) \<noteq> Some x"
  by (auto simp: last_opt_def split: if_splits)

lemma collect_idle: "co_osc_pending c = [] \<Longrightarrow> \<not> co_clipboard_discard c \<Longrightarrow> collect d e b c = collect_loop d e b c"
  by (cases c) (simp add: collect_def)

lemma collect_loop_append:
  assumes "last_opt a \<noteq> Some esc" "packets_within (MAX_PACKET + 2) (a @ b)" "co_osc_pending c = []" "\<not> co_clipboard_discard c"
  shows "collect_loop d e (a @ b) c =
    (let (acts, c1) = collect_loop d e a c; (acts2, c2) = collect d e b c1 in (acts @ acts2, c2))"
  using assms
proof (induction "length a" arbitrary: a c rule: less_induct)
  case less
  show ?case
  proof (cases "find_sub osc_intro a")
    case None
    then show ?thesis
      using collect_loop_plain [OF None less.prems(1)] less.prems(3,4) by (simp add: collect_loop_text collect_idle)
  next
    case (Some start)
    define p where "p = drop start a"
    define c1 where "c1 = append_iterm_copy_text (take start a) c"
    have start: "start + 2 \<le> length a" using find_sub_le [OF Some] by simp
    have p: "drop start (a @ b) = p @ b" "take start (a @ b) = take start a" "2 \<le> length p" "prefix osc_intro p"
      using start find_sub_Some [OF Some] by (simp_all add: p_def)
    have c1: "co_osc_pending c1 = []" "\<not> co_clipboard_discard c1" using less.prems(3,4) by (simp_all add: c1_def)
    have whole: "find_sub osc_intro (a @ b) = Some start" using find_sub_append [OF Some] .
    have within: "packets_within (MAX_PACKET + 2) (p @ b)" using packets_within_drop [OF less.prems(2), of start] p(1) by simp
    show ?thesis
    proof (cases "find_osc_terminator (drop 2 p)")
      case None
      then have "collect_loop d e a c = ([], c1\<lparr>co_osc_pending := p\<rparr>)"
        using collect_loop_held [OF Some] held_small [OF within None p(4)] c1(1) by (simp add: p_def c1_def)
      moreover have "(c1\<lparr>co_osc_pending := p\<rparr>)\<lparr>co_osc_pending := []\<rparr> = c1" using c1(1) by simp
      moreover have "collect_loop d e (a @ b) c = collect_loop d e (p @ b) c1"
        unfolding collect_loop_skip [OF whole] p(1,2) c1_def [symmetric] ..
      ultimately show ?thesis
        using c1(2) by (simp add: collect_def Let_def)
    next
      case trm: (Some nk)
      obtain n k where nk: "nk = (n, k)" by force
      define rest where "rest = drop (n + k) (drop 2 p)"
      have bound: "n + k \<le> length (drop 2 p)"
        using terminator_from_bounds [of 0 "drop 2 p" n k] trm nk by (simp add: find_osc_terminator_def)
      have trm2: "find_osc_terminator (drop 2 (p @ b)) = Some (n, k)" "take n (drop 2 (p @ b)) = take n (drop 2 p)"
        "drop (n + k) (drop 2 (p @ b)) = rest @ b"
        using terminator_from_append [of 0 "drop 2 p" "(n, k)" b] trm nk p(3) bound
        by (simp_all add: find_osc_terminator_def rest_def)
      obtain acts c2 where push: "push_osc_side_effect d e (take n (drop 2 p)) c1 = (acts, c2)" by force
      have c2: "co_osc_pending c2 = []" "\<not> co_clipboard_discard c2"
        using push_osc_fields [of d e "take n (drop 2 p)" c1] push c1 by simp_all
      have one: "collect_loop d e a c = (acts @ fst (collect_loop d e rest c2), snd (collect_loop d e rest c2))"
        using collect_loop_osc [OF Some p_def [THEN arg_cong, of "drop 2"] trm [unfolded nk] push [unfolded c1_def]]
        by (simp add: rest_def)
      have two: "collect_loop d e (a @ b) c = (acts @ fst (collect_loop d e (rest @ b) c2), snd (collect_loop d e (rest @ b) c2))"
        by (rule collect_loop_osc [where s = "a @ b" and start = start and n = n and k = k and c = c and
            payload = "drop 2 (drop start (a @ b))" and acts = acts and ?c2.0 = c2,
            unfolded p(1,2) trm2(2,3) c1_def [symmetric], OF whole refl trm2(1) push])
      have "collect_loop d e (rest @ b) c2 =
          (let (acts, c1) = collect_loop d e rest c2; (acts2, c2) = collect d e b c1 in (acts @ acts2, c2))"
      proof (rule less.hyps)
        show "length rest < length a" using start by (simp add: rest_def p_def)
        show "last_opt rest \<noteq> Some esc" unfolding rest_def p_def by (intro last_opt_drop less.prems(1))
        have "rest @ b = drop (n + k + 2) (p @ b)" using bound p(3) by (simp add: rest_def)
        then show "packets_within (MAX_PACKET + 2) (rest @ b)" using packets_within_drop [OF within, of "n + k + 2"] by simp
      qed (use c2 in simp_all)
      then show ?thesis by (simp add: one two Let_def split_beta)
    qed
  qed
qed

lemma terminator_skip:
  "terminator_from i x = None \<Longrightarrow> last_opt x \<noteq> Some esc \<Longrightarrow> terminator_from i (x @ y) = terminator_from (i + length x) y"
proof (induction x arbitrary: i)
  case (Cons c x)
  show ?case
  proof (cases "x = []")
    case True
    with Cons.prems show ?thesis by (simp add: last_opt_def split: if_splits)
  next
    case False
    moreover from this have "last_opt x \<noteq> Some esc" using Cons.prems(2) by (simp add: last_opt_def)
    ultimately show ?thesis
      using Cons.IH [of "Suc i"] Cons.prems(1) by (auto simp: first_opt_append_ne split: if_splits)
  qed
qed simp

lemma terminator_shift: "terminator_from (i + m) y = map_option (\<lambda>(n, k). (n + m, k)) (terminator_from i y)"
proof (induction y arbitrary: i)
  case (Cons c y)
  then show ?case using Cons.IH [of "Suc i"] by simp
qed simp

lemma last_opt_Nil [simp]: "last_opt [] = None"
  by (simp add: last_opt_def)

lemma last_opt_append: "last_opt (x @ y) = (if y = [] then last_opt x else last_opt y)"
  by (simp add: last_opt_def)

lemma collect_append:
  assumes "a \<noteq> []" "last_opt a \<noteq> Some esc" "packets_within (MAX_PACKET + 2) (co_osc_pending c @ a @ b)"
  shows "collect d e (a @ b) c =
    (let (acts, c1) = collect d e a c; (acts2, c2) = collect d e b c1 in (acts @ acts2, c2))"
proof -
  define x where "x = co_osc_pending c @ a"
  have x: "last_opt x \<noteq> Some esc" "packets_within (MAX_PACKET + 2) (x @ b)"
    using assms by (simp_all add: x_def last_opt_append)
  define c1 where "c1 = c\<lparr>co_osc_pending := []\<rparr>"
  have c1: "co_osc_pending c1 = []" "co_clipboard_discard c1 = co_clipboard_discard c" by (simp_all add: c1_def)
  show ?thesis
  proof (cases "co_clipboard_discard c")
    case False
    then have "collect d e (a @ b) c = collect_loop d e (x @ b) c1" "collect d e a c = collect_loop d e x c1"
      by (simp_all add: collect_def Let_def c1_def x_def)
    then show ?thesis using collect_loop_append [OF x c1(1)] c1(2) False by simp
  next
    case True
    show ?thesis
    proof (cases "terminator_from 0 x")
      case None
      then have "collect d e a c = ([], c1)"
        using True x(1) by (simp add: collect_def Let_def c1_def x_def find_osc_terminator_def)
      moreover have "collect d e (a @ b) c = collect d e b c1"
        using True x(1) terminator_skip [OF None x(1), of b] terminator_shift [of 0 "length x" b]
        by (auto simp: collect_def Let_def c1 find_osc_terminator_def last_opt_append x_def [symmetric] append_assoc [symmetric]
            simp del: append_assoc split: option.splits) (simp_all add: c1_def x_def add.assoc)
      ultimately show ?thesis by simp
    next
      case (Some nk)
      obtain n k where nk: "nk = (n, k)" by force
      have bound: "n + k \<le> length x" using terminator_from_bounds [of 0 x n k] Some nk by simp
      have dropped: "drop (n + k) (x @ b) = drop (n + k) x @ b" using bound by simp
      define c2 where "c2 = c1\<lparr>co_clipboard_discard := False\<rparr>"
      have "collect d e a c = collect_loop d e (drop (n + k) x) c2"
        using True Some nk by (simp add: collect_def Let_def c1_def c2_def x_def find_osc_terminator_def)
      moreover have "collect d e (a @ b) c = collect_loop d e (drop (n + k) x @ b) c2"
        using True terminator_from_append [OF Some, of b] nk dropped
        by (simp add: collect_def Let_def c1_def c2_def x_def find_osc_terminator_def)
      moreover have "packets_within (MAX_PACKET + 2) (drop (n + k) x @ b)"
        using packets_within_drop [OF x(2), of "n + k"] dropped by simp
      ultimately show ?thesis
        using collect_loop_append [OF last_opt_drop [OF x(1)], of "n + k" b c2 d e] by (simp add: c2_def c1(1))
    qed
  qed
qed

fun collect_all ::
  "(string \<Rightarrow> string option) \<Rightarrow> (string \<Rightarrow> string option) \<Rightarrow> string list \<Rightarrow> collector \<Rightarrow> string list \<times> collector" where
  "collect_all d e [] c = ([], c)"
| "collect_all d e (chunk # chunks) c =
     (let (acts, c1) = collect d e chunk c; (acts2, c2) = collect_all d e chunks c1 in (acts @ acts2, c2))"

lemma collect_all_snoc:
  "collect_all d e (chunks @ [chunk]) c =
    (let (acts, c1) = collect_all d e chunks c; (acts2, c2) = collect d e chunk c1 in (acts @ acts2, c2))"
  by (induction chunks arbitrary: c) (simp_all add: Let_def split_beta)

text \<open>
  C31.  The effects do not depend on how the bytes were cut.  Collecting chunks one after the other,
  none of them empty or ending in an escape byte, has the same effects, the same sequences to write
  back and the same state as collecting the concatenated bytes, as long as the clipboard packets fit
  the collector's limit.
\<close>

theorem effects_chunking_irrelevant:
  assumes "chunks \<noteq> []" "list_all (\<lambda>b. b \<noteq> [] \<and> last_opt b \<noteq> Some esc) chunks"
    and "packets_within (MAX_PACKET + 2) (co_osc_pending c @ concat chunks)"
  shows "collect_all d e chunks c = collect d e (concat chunks) c"
  using assms
proof (induction chunks rule: rev_nonempty_induct)
  case (single x)
  then show ?case by (simp add: Let_def split_beta)
next
  case (snoc x xs)
  have "packets_within (MAX_PACKET + 2) (co_osc_pending c @ concat xs)"
    using packets_within_prefix [of _ "co_osc_pending c @ concat xs" x] snoc.prems(2) by simp
  then have ih: "collect_all d e xs c = collect d e (concat xs) c" using snoc by simp
  have "concat xs \<noteq> []" "last_opt (concat xs) \<noteq> Some esc"
  proof -
    obtain ys y where xs: "xs = ys @ [y]" using snoc.hyps(1) by (metis rev_exhaust)
    then have "y \<noteq> []" "last_opt y \<noteq> Some esc" using snoc.prems(1) by simp_all
    then show "concat xs \<noteq> []" "last_opt (concat xs) \<noteq> Some esc" by (simp_all add: xs last_opt_append)
  qed
  then show ?case
    using collect_append [of "concat xs" c x d e] snoc.prems(2) ih by (simp add: collect_all_snoc)
qed

theorem effects_chunking_irrelevant_witness:
  "collect_all (\<lambda>_. None) (\<lambda>_. None) [esc # '']1;na'', ''me'' @ [bel]] new_collector
   = collect (\<lambda>_. None) (\<lambda>_. None) ((esc # '']1;name'') @ [bel]) new_collector"
proof -
  have "packets_within (MAX_PACKET + 2) ((esc # '']1;name'') @ [bel])"
    by (rule no_packet_bounded) (simp add: clipboard_intro_def osc_intro_def)
  then show ?thesis
    using effects_chunking_irrelevant [of "[esc # '']1;na'', ''me'' @ [bel]]" new_collector "\<lambda>_. None" "\<lambda>_. None"]
    by (simp add: last_opt_def new_collector_def del: collect_all.simps)
qed

end
