(* ===== verification/Osc_Colors.thy ===== *)
theory Osc_Colors
  imports Write_Ingress Terminal_Frame
begin

text \<open>
  The colours that a program sets and queries with operating system commands, from
  \<^verbatim>\<open>crates/bootty-terminal/src/terminal_engine.rs\<close>: the overrides for the codes 13 to 19, the colour
  notation, the answers to queries, and the write that keeps colour commands in order with the
  other bytes.  The terminal library is a parameter: its state, what it does with bytes, and the
  colours it reports.
\<close>

section \<open>Overrides\<close>

text \<open>\<^verbatim>\<open>XtermColorOverrides\<close>: seven slots, for the codes 13 to 19.\<close>

type_synonym color_overrides = "rgb_color option list"

definition overrides_slot :: "nat \<Rightarrow> nat option" where
  "overrides_slot code = (if code < 13 then None else Some (code - 13))"

definition overrides_get :: "nat \<Rightarrow> color_overrides \<Rightarrow> rgb_color option" where
  "overrides_get code xs = Option.bind (Option.bind (overrides_slot code) (get_nth xs)) (\<lambda>c. c)"

definition overrides_set :: "nat \<Rightarrow> rgb_color \<Rightarrow> color_overrides \<Rightarrow> bool \<times> color_overrides" where
  "overrides_set code color xs =
     (case overrides_slot code of
        None \<Rightarrow> (False, xs)
      | Some i \<Rightarrow>
          (case get_nth xs i of
             None \<Rightarrow> (False, xs)
           | Some old \<Rightarrow> if old = Some color then (False, xs) else (True, xs[i := Some color])))"

definition overrides_reset :: "nat \<Rightarrow> color_overrides \<Rightarrow> bool \<times> color_overrides" where
  "overrides_reset code xs =
     (case overrides_slot code of
        None \<Rightarrow> (False, xs)
      | Some i \<Rightarrow>
          (case get_nth xs i of
             None \<Rightarrow> (False, xs)
           | Some old \<Rightarrow> (old \<noteq> None, xs[i := None])))"

definition no_overrides :: color_overrides where
  "no_overrides = replicate 7 None"

section \<open>Notation\<close>

definition parse_osc_number :: "string \<Rightarrow> nat option" where
  "parse_osc_number bytes = Option.bind (from_utf8 bytes) (parse_uint 16 10)"

definition parse_color_channel :: "string \<Rightarrow> 8 word option" where
  "parse_color_channel s =
     (case parse_uint 16 16 s of
        None \<Rightarrow> None
      | Some v \<Rightarrow>
          (let channel = (if length s = 1 then v * 0x11 else if length s = 2 then v else v div 2 ^ 8)
           in if channel < 256 then Some (word_of_nat channel) else None))"

definition three_channels :: "string \<Rightarrow> string \<Rightarrow> string \<Rightarrow> rgb_color option" where
  "three_channels r g b =
     (case parse_color_channel r of
        None \<Rightarrow> None
      | Some r \<Rightarrow>
          (case parse_color_channel g of
             None \<Rightarrow> None
           | Some g \<Rightarrow> map_option (\<lambda>b. (r, g, b)) (parse_color_channel b)))"

definition parse_rgb_color_spec :: "string \<Rightarrow> rgb_color option" where
  "parse_rgb_color_spec bytes =
     (case from_utf8 bytes of
        None \<Rightarrow> None
      | Some utf8_text \<Rightarrow>
          (case strip_prefix ''rgb:'' (trim utf8_text) of
             Some rgb \<Rightarrow>
               (case split_on (CHR ''/'') rgb of
                  [r, g, b] \<Rightarrow> three_channels r g b
                | _ \<Rightarrow> None)
           | None \<Rightarrow>
               (case strip_prefix ''#'' (trim utf8_text) of
                  None \<Rightarrow> None
                | Some hex \<Rightarrow>
                    (let n = length hex div 3 in
                     if length hex mod 3 \<noteq> 0 \<or> \<not> (1 \<le> n \<and> n \<le> 4) then None
                     else if \<not> is_char_boundary hex n \<or> \<not> is_char_boundary (drop n hex) n then None
                     else three_channels (take n hex) (take n (drop n hex)) (drop n (drop n hex))))))"

definition rgb_spec :: "rgb_color \<Rightarrow> string" where
  "rgb_spec color =
     (case color of (r, g, b) \<Rightarrow>
        (let h = (\<lambda>x. show_hex 2 (unat x) @ show_hex 2 (unat x))
         in ''rgb:'' @ h r @ ''/'' @ h g @ ''/'' @ h b))"

section \<open>Setting\<close>

fun set_colors_from :: "nat \<Rightarrow> string list \<Rightarrow> bool \<Rightarrow> color_overrides \<Rightarrow> bool \<times> color_overrides" where
  "set_colors_from code [] changed xs = (changed, xs)"
| "set_colors_from code (spec # specs) changed xs =
     (if 19 < code \<or> spec = ''?'' then (changed, xs)
      else case parse_rgb_color_spec spec of
             None \<Rightarrow> set_colors_from (Suc code) specs changed xs
           | Some color \<Rightarrow>
               (case overrides_set code color xs of
                  (ch, xs1) \<Rightarrow> set_colors_from (Suc code) specs (changed \<or> ch) xs1))"

text \<open>The flag says whether the content changed.\<close>

definition apply_osc_color_state :: "string \<Rightarrow> color_overrides \<Rightarrow> bool \<times> color_overrides" where
  "apply_osc_color_state payload xs =
     (case split_osc_payload payload of
        None \<Rightarrow>
          (case parse_osc_number payload of
             None \<Rightarrow> (False, xs)
           | Some n \<Rightarrow> if 113 \<le> n \<and> n \<le> 119 then overrides_reset (n - 100) xs else (False, xs))
      | Some (command, rest) \<Rightarrow>
          (case parse_osc_number command of
             None \<Rightarrow> (False, xs)
           | Some start_code \<Rightarrow>
               if \<not> (13 \<le> start_code \<and> start_code \<le> 19) then (False, xs)
               else set_colors_from start_code (split_on (CHR '';'') rest) False xs))"

section \<open>Queries\<close>

record terminal_color_config =
  tc_background :: rgb_color
  tc_foreground :: rgb_color
  tc_cursor :: "rgb_color option"
  tc_cursor_text :: "rgb_color option"
  tc_pointer_foreground :: "rgb_color option"
  tc_pointer_background :: "rgb_color option"
  tc_tektronix_foreground :: "rgb_color option"
  tc_tektronix_background :: "rgb_color option"
  tc_highlight_background :: "rgb_color option"
  tc_tektronix_cursor :: "rgb_color option"
  tc_highlight_foreground :: "rgb_color option"
  tc_selection_background :: "rgb_color option"
  tc_selection_foreground :: "rgb_color option"
  tc_palette :: "rgb_color list"

definition extended_dynamic_color :: "terminal_color_config \<Rightarrow> color_overrides \<Rightarrow> nat \<Rightarrow> rgb_color option" where
  "extended_dynamic_color cfg xs code =
     (if code = 13 then or_else (overrides_get 13 xs) (or_else (tc_pointer_foreground cfg) (Some (tc_foreground cfg)))
      else if code = 14 then or_else (overrides_get 14 xs) (or_else (tc_pointer_background cfg) (Some (tc_background cfg)))
      else if code = 15 then or_else (overrides_get 15 xs) (or_else (tc_tektronix_foreground cfg) (Some (tc_foreground cfg)))
      else if code = 16 then or_else (overrides_get 16 xs) (or_else (tc_tektronix_background cfg) (Some (tc_background cfg)))
      else if code = 17 then
        or_else (overrides_get 17 xs)
          (or_else (tc_highlight_background cfg) (or_else (tc_selection_background cfg) (Some (tc_foreground cfg))))
      else if code = 18 then
        or_else (overrides_get 18 xs) (or_else (tc_tektronix_cursor cfg) (or_else (tc_cursor cfg) (Some (tc_foreground cfg))))
      else if code = 19 then
        or_else (overrides_get 19 xs)
          (or_else (tc_highlight_foreground cfg) (or_else (tc_selection_foreground cfg) (Some (tc_background cfg))))
      else None)"

text \<open>
  The terminal library: writing bytes, and the colours it reports, \<open>None\<close> when it reports none or
  fails.
\<close>

record 'v vt_library =
  vt_write :: "string \<Rightarrow> 'v \<Rightarrow> 'v"
  vt_fg_color :: "'v \<Rightarrow> rgb_color option"
  vt_bg_color :: "'v \<Rightarrow> rgb_color option"
  vt_cursor_color :: "'v \<Rightarrow> rgb_color option"
  vt_palette :: "'v \<Rightarrow> rgb_color list option"

definition color_answer :: "string \<Rightarrow> rgb_color \<Rightarrow> string \<Rightarrow> string" where
  "color_answer code color terminator = (esc # '']'') @ code @ '';'' @ rgb_spec color @ terminator"

fun answer_dynamic :: "(nat \<Rightarrow> rgb_color option) \<Rightarrow> nat \<Rightarrow> nat \<Rightarrow> string \<Rightarrow> string list \<Rightarrow> string \<Rightarrow> string option" where
  "answer_dynamic color_of highest code terminator [] response = Some response"
| "answer_dynamic color_of highest code terminator (op # ops) response =
     (if highest < code \<or> op \<noteq> ''?'' then None
      else case color_of code of
             None \<Rightarrow> None
           | Some color \<Rightarrow>
               answer_dynamic color_of highest (Suc code) terminator ops
                 (response @ color_answer (show_nat code) color terminator))"

fun answer_palette :: "rgb_color list \<Rightarrow> string \<Rightarrow> string list \<Rightarrow> string \<Rightarrow> string option" where
  "answer_palette palette terminator [] response = Some response"
| "answer_palette palette terminator [index] response = None"
| "answer_palette palette terminator (index # op # ops) response =
     (if op \<noteq> ''?'' then None
      else case parse_osc_number index of
             None \<Rightarrow> None
           | Some n \<Rightarrow>
               (case get_nth palette n of
                  None \<Rightarrow> None
                | Some color \<Rightarrow>
                    answer_palette palette terminator ops
                      (response @ color_answer (''4;'' @ show_nat n) color terminator)))"

definition nonempty :: "string \<Rightarrow> string option" where
  "nonempty s = (if s = [] then None else Some s)"

definition standard_color_query_response :: "'v vt_library \<Rightarrow> 'v \<Rightarrow> string \<Rightarrow> string \<Rightarrow> string option" where
  "standard_color_query_response lib v payload terminator =
     (case split_osc_payload payload of
        None \<Rightarrow> None
      | Some (command, rest) \<Rightarrow>
          (let ops = split_on (CHR '';'') rest;
               reported = (\<lambda>code. if code = 10 then vt_fg_color lib v else if code = 11 then vt_bg_color lib v
                                  else if code = 12 then vt_cursor_color lib v else None)
           in if command \<in> {''10'', ''11'', ''12''} then
                (case parse_osc_number command of
                   None \<Rightarrow> None
                 | Some start_code \<Rightarrow>
                     Option.bind (answer_dynamic reported 12 start_code terminator ops []) nonempty)
              else if command = ''4'' then
                (case vt_palette lib v of
                   None \<Rightarrow> None
                 | Some palette \<Rightarrow> Option.bind (answer_palette palette terminator ops []) nonempty)
              else None))"

text \<open>The loop pairs the codes up to 19 with the operations and so stops at either end.\<close>

definition extended_color_query_response ::
  "terminal_color_config \<Rightarrow> color_overrides \<Rightarrow> string \<Rightarrow> string \<Rightarrow> string option" where
  "extended_color_query_response cfg xs payload terminator =
     (case split_osc_payload payload of
        None \<Rightarrow> None
      | Some (command, rest) \<Rightarrow>
          (case parse_osc_number command of
             None \<Rightarrow> None
           | Some start_code \<Rightarrow>
               if \<not> (13 \<le> start_code \<and> start_code \<le> 19) then None
               else Option.bind
                      (answer_dynamic (extended_dynamic_color cfg xs) 19 start_code terminator
                         (take (20 - start_code) (split_on (CHR '';'') rest)) [])
                      nonempty))"

section \<open>Writing in order\<close>

text \<open>The terminal, the overrides, how often the content was marked as changed, and the answers so far.\<close>

record 'v color_writer =
  cw_terminal :: 'v
  cw_overrides :: color_overrides
  cw_changes :: nat
  cw_responses :: "string list"

function write_vt_with_ordered_osc_color_state ::
  "'v vt_library \<Rightarrow> terminal_color_config \<Rightarrow> string \<Rightarrow> 'v color_writer \<Rightarrow> 'v color_writer" where
  "write_vt_with_ordered_osc_color_state lib cfg remaining w =
     (let write_all = w\<lparr>cw_terminal := vt_write lib remaining (cw_terminal w)\<rparr> in
      case find_sub osc_intro remaining of
        None \<Rightarrow> write_all
      | Some start \<Rightarrow>
          (let packet = drop start remaining; payload = drop 2 packet in
           case find_osc_terminator payload of
             None \<Rightarrow> write_all
           | Some (payload_len, terminator_len) \<Rightarrow>
               (let body = take payload_len payload;
                    terminator = take terminator_len (drop payload_len payload);
                    rest = drop (payload_len + terminator_len) payload;
                    answer = standard_color_query_response lib (cw_terminal w) body terminator;
                    v1 = vt_write lib (take start remaining) (cw_terminal w);
                    v2 = (if answer = None then vt_write lib (take (length packet - length rest) packet) v1 else v1);
                    (changed, xs) = apply_osc_color_state body (cw_overrides w);
                    response = or_else answer (extended_color_query_response cfg xs body terminator)
                in write_vt_with_ordered_osc_color_state lib cfg rest
                     (w\<lparr>cw_terminal := v2, cw_overrides := xs, cw_changes := cw_changes w + (if changed then 1 else 0),
                        cw_responses := cw_responses w @ (case response of None \<Rightarrow> [] | Some r \<Rightarrow> [r])\<rparr>))))"
  by pat_completeness auto
termination
  by (relation "measure (\<lambda>(lib, cfg, remaining, w). length remaining)") (auto dest!: find_sub_le)

declare write_vt_with_ordered_osc_color_state.simps [simp del]

section \<open>The notation round trip\<close>

lemma to_digit_char: "d < 16 \<Longrightarrow> to_digit 16 (digit_char d) = Some d"
  by (simp add: to_digit_def digit_char_def Let_def)

lemma show_hex_byte: "n < 256 \<Longrightarrow> show_hex 2 n = [digit_char (n div 16), digit_char (n mod 16)]"
proof -
  assume n: "n < 256"
  have "digits_base 16 n = (if n < 16 then [digit_char n] else [digit_char (n div 16), digit_char (n mod 16)])"
    using n by (simp add: digits_base.simps [of 16 n] digits_base.simps [of 16 "n div 16"] less_mult_imp_div_less)
  then show ?thesis by (simp add: show_hex_def Let_def)
qed

definition hex_chars :: "char set" where
  "hex_chars = set ''0123456789abcdef''"

lemma digit_char_cases: "d < 16 \<Longrightarrow> digit_char d \<in> hex_chars"
proof -
  assume "d < 16"
  then have "d \<in> {0..<16}" by simp
  then have "d = 15 \<or> d = 14 \<or> d = 13 \<or> d = 12 \<or> d = 11 \<or> d = 10 \<or> d = 9 \<or> d = 8 \<or> d = 7 \<or> d = 6 \<or> d = 5
      \<or> d = 4 \<or> d = 3 \<or> d = 2 \<or> d = Suc 0 \<or> d = 0"
    by (simp add: atLeastLessThan_nat_numeral)
  then show ?thesis by (elim disjE) (simp_all add: hex_chars_def)
qed

lemma hex_chars_facts: "c \<in> hex_chars \<Longrightarrow> of_char c < (128 :: nat) \<and> c \<noteq> CHR ''/'' \<and> c \<noteq> CHR ''+'' \<and> c \<noteq> CHR '';'' \<and> c \<noteq> CHR ''?''"
  by (auto simp: hex_chars_def)

lemma hex_byte_chars: "n < 256 \<Longrightarrow> set (show_hex 2 n) \<subseteq> hex_chars \<and> length (show_hex 2 n) = 2"
  using digit_char_cases [of "n div 16"] digit_char_cases [of "n mod 16"]
  by (auto simp: show_hex_byte less_mult_imp_div_less)

lemma parse_doubled: "n < 256 \<Longrightarrow> parse_color_channel (show_hex 2 n @ show_hex 2 n) = Some (word_of_nat n)"
proof -
  assume n: "n < 256"
  have d: "n div 16 < 16" "n mod 16 < 16" using n by (simp_all add: less_mult_imp_div_less)
  have plus: "digit_char (n div 16) \<noteq> CHR ''+''" using hex_chars_facts [OF digit_char_cases [OF d(1)]] by simp
  have "parse_digits 16 0 (show_hex 2 n @ show_hex 2 n) = Some (((n div 16 * 16 + n mod 16) * 16 + n div 16) * 16 + n mod 16)"
    using d by (simp add: show_hex_byte [OF n] to_digit_char)
  also have "\<dots> = Some (n * 257)" by (simp add: algebra_simps)
  finally have digits: "parse_digits 16 0 (show_hex 2 n @ show_hex 2 n) = Some (n * 257)" .
  have "n * 257 < 2 ^ 16" using n by simp
  then have "parse_uint 16 16 (show_hex 2 n @ show_hex 2 n) = Some (n * 257)"
    using digits plus by (simp add: parse_uint_def strip_prefix_def unsigned_digits_def show_hex_byte [OF n])
  moreover have "n * 257 div 256 = n" using n by linarith
  ultimately show ?thesis using n by (simp add: parse_color_channel_def show_hex_byte [OF n])
qed

lemma strip_all_id: "list_all (\<lambda>w. w \<noteq> [] \<and> hd w \<noteq> c) ws \<Longrightarrow> strip_all ws (c # s) = c # s"
proof -
  assume ws: "list_all (\<lambda>w. w \<noteq> [] \<and> hd w \<noteq> c) ws"
  have "find (\<lambda>w. w \<noteq> [] \<and> prefix w (c # s)) ws = None"
    unfolding find_None_iff using ws by (auto simp: list_all_iff prefix_Cons)
  then show ?thesis by (simp add: strip_all.simps)
qed

lemma trim_id:
  assumes "s \<noteq> []" "hd s \<in> insert (CHR ''r'') hex_chars" "List.last s \<in> insert (CHR ''r'') hex_chars"
  shows "trim s = s"
proof -
  have ends: "list_all (\<lambda>w. w \<noteq> [] \<and> ((of_char (hd w) :: nat) \<le> 32 \<or> (128 :: nat) \<le> of_char (hd w))) ws"
    if "ws = white_space \<or> ws = map List.rev white_space" for ws
    using that by (elim disjE) (simp_all add: white_space_def)
  have "(32 :: nat) < of_char c \<and> of_char c < (128 :: nat)" if "c \<in> insert (CHR ''r'') hex_chars" for c
    using that by (auto simp: hex_chars_def)
  then have heads: "list_all (\<lambda>w. w \<noteq> [] \<and> hd w \<noteq> c) white_space" "list_all (\<lambda>w. w \<noteq> [] \<and> hd w \<noteq> c) (map List.rev white_space)"
    if "c \<in> insert (CHR ''r'') hex_chars" for c
    using that ends [of white_space] ends [of "map List.rev white_space"] by (fastforce simp: list_all_iff)+
  obtain c t where s: "s = c # t" using assms(1) by (cases s) auto
  obtain d u where r: "List.rev s = d # u" using assms(1) by (cases "List.rev s") auto
  have "d = List.last s" using r assms(1) by (metis hd_rev list.sel(1))
  then have "strip_all (map List.rev white_space) (List.rev s) = List.rev s"
    using heads(2) assms(3) r strip_all_id by metis
  moreover have "strip_all white_space s = s" using heads(1) assms(2) s strip_all_id by (metis list.sel(1))
  ultimately show ?thesis by (simp add: trim_def)
qed

lemma rgb_spec_chars:
  assumes "hr = show_hex 2 (unat (r :: 8 word))" "hg = show_hex 2 (unat (g :: 8 word))" "hb = show_hex 2 (unat (b :: 8 word))"
  shows "rgb_spec (r, g, b) = ''rgb:'' @ (hr @ hr) @ CHR ''/'' # (hg @ hg) @ CHR ''/'' # (hb @ hb)"
  using assms by (simp add: rgb_spec_def Let_def)

lemma parse_rgb_spec: "parse_rgb_color_spec (rgb_spec c) = Some c"
proof -
  obtain r g b where c: "c = (r, g, b)" by (cases c)
  have small: "unat (x :: 8 word) < 256" for x using unsigned_less [of x] by simp
  define hr hg hb where "hr = show_hex 2 (unat r)" and "hg = show_hex 2 (unat g)" and "hb = show_hex 2 (unat b)"
  have chars: "set hr \<subseteq> hex_chars" "set hg \<subseteq> hex_chars" "set hb \<subseteq> hex_chars" "length hb = 2"
    using hex_byte_chars [OF small] by (auto simp: hr_def hg_def hb_def)
  define s where "s = ''rgb:'' @ (hr @ hr) @ CHR ''/'' # (hg @ hg) @ CHR ''/'' # (hb @ hb)"
  have spec: "rgb_spec c = s" unfolding c s_def using rgb_spec_chars [OF hr_def hg_def hb_def] .
  have "list_all (\<lambda>x. of_char x < (128 :: nat)) s" using chars hex_chars_facts by (auto simp: s_def list_all_iff)
  then have valid: "utf8_valid s" by (rule ascii_valid)
  have "List.last s = List.last hb" using chars(4) by (cases hb) (auto simp: s_def)
  then have "List.last s \<in> insert (CHR ''r'') hex_chars" using chars(3,4) by (cases hb rule: rev_cases) auto
  then have trimmed: "trim s = s" by (intro trim_id) (simp_all add: s_def)
  have "CHR ''/'' \<notin> set (hr @ hr)" "CHR ''/'' \<notin> set (hg @ hg)" "CHR ''/'' \<notin> set (hb @ hb)" using chars hex_chars_facts by auto
  then have "split_on (CHR ''/'') ((hr @ hr) @ CHR ''/'' # (hg @ hg) @ CHR ''/'' # (hb @ hb)) = [hr @ hr, hg @ hg, hb @ hb]"
    by (simp add: split_on_first split_on_none del: append_assoc)
  moreover have "strip_prefix ''rgb:'' s = Some ((hr @ hr) @ CHR ''/'' # (hg @ hg) @ CHR ''/'' # (hb @ hb))"
    by (simp add: s_def strip_prefix_def)
  moreover have "three_channels (hr @ hr) (hg @ hg) (hb @ hb) = Some c"
    by (simp add: three_channels_def hr_def hg_def hb_def parse_doubled [OF small] c)
  ultimately show ?thesis
    unfolding spec by (simp add: parse_rgb_color_spec_def from_utf8_def valid trimmed)
qed

lemma rgb_spec_plain: "CHR '';'' \<notin> set (rgb_spec c) \<and> rgb_spec c \<noteq> ''?''"
proof -
  obtain r g b where c: "c = (r, g, b)" by (cases c)
  have small: "unat (x :: 8 word) < 256" for x using unsigned_less [of x] by simp
  have "set (show_hex 2 (unat x)) \<subseteq> hex_chars" for x :: "8 word" using hex_byte_chars [OF small] by simp
  then show ?thesis
    unfolding c using hex_chars_facts by (fastforce simp: rgb_spec_def Let_def)
qed

section \<open>Setting and querying\<close>

lemma code_cases:
  assumes "13 \<le> code" "code \<le> (19 :: nat)"
  obtains "code = 13" | "code = 14" | "code = 15" | "code = 16" | "code = 17" | "code = 18" | "code = 19"
  using assms by linarith

lemma code_names [simp]:
  "show_nat 13 = ''13''" "show_nat 14 = ''14''" "show_nat 15 = ''15''" "show_nat 16 = ''16''" "show_nat 17 = ''17''"
  "show_nat 18 = ''18''" "show_nat 19 = ''19''" "show_nat 113 = ''113''" "show_nat 114 = ''114''" "show_nat 115 = ''115''"
  "show_nat 116 = ''116''" "show_nat 117 = ''117''" "show_nat 118 = ''118''" "show_nat 119 = ''119''"
  by (simp_all add: show_nat_def digits_base.simps)

lemma parse_short_number:
  "list_all is_digit s \<Longrightarrow> s \<noteq> [] \<Longrightarrow> parse_digits 10 0 s = Some n \<Longrightarrow> n < 2 ^ 16 \<Longrightarrow> parse_osc_number s = Some n"
proof -
  assume s: "list_all is_digit s" "s \<noteq> []" "parse_digits 10 0 s = Some n" "n < 2 ^ 16"
  have "list_all (\<lambda>c. of_char c < (128 :: nat)) s" using s(1) by (auto simp: list_all_iff is_digit_def)
  moreover have "hd s \<noteq> CHR ''+''" using s(1,2) by (cases s) (auto simp: is_digit_def)
  then have "strip_prefix ''+'' s = None" using s(2) by (cases s) (auto simp: strip_prefix_def)
  ultimately show ?thesis
    using s by (simp add: parse_osc_number_def from_utf8_def ascii_valid parse_uint_def unsigned_digits_def)
qed

lemma code_number:
  assumes "13 \<le> code" "code \<le> 19"
  shows "parse_osc_number (show_nat code) = Some code" "CHR '';'' \<notin> set (show_nat code)"
    "parse_osc_number (show_nat (code + 100)) = Some (code + 100)" "CHR '';'' \<notin> set (show_nat (code + 100))"
  using assms
  by - ((rule code_cases [OF assms]; simp add: parse_short_number is_digit_def to_digit_def Let_def)+)

lemma overrides_get_set:
  assumes "length xs = 7" "13 \<le> code" "code \<le> 19"
  shows "overrides_get code (snd (overrides_set code color xs)) = Some color" "length (snd (overrides_set code color xs)) = 7"
  using assms by (auto simp: overrides_get_def overrides_set_def overrides_slot_def get_nth_def)

lemma overrides_get_reset:
  assumes "length xs = 7" "13 \<le> code" "code \<le> 19"
  shows "overrides_get code (snd (overrides_reset code xs)) = None"
  using assms by (auto simp: overrides_get_def overrides_reset_def overrides_slot_def get_nth_def)

lemma split_code: "13 \<le> code \<Longrightarrow> code \<le> 19 \<Longrightarrow> split_osc_payload (show_nat code @ '';'' @ rest) = Some (show_nat code, rest)"
  using code_number(2) [of code] by (simp add: split_osc_payload_def split_once_Some)

text \<open>
  A colour that a program sets is the colour it reads back, and the reset undoes it: for every
  code from 13 to 19, setting a colour in the notation the terminal answers with and then querying the
  code gives exactly that colour, and after the reset command the answer is the one without overrides.
\<close>

lemma color_set_then_query:
  assumes "13 \<le> code" "code \<le> 19" "length xs = 7"
  shows "(let xs1 = snd (apply_osc_color_state (show_nat code @ '';'' @ rgb_spec color) xs) in
      extended_color_query_response cfg xs1 (show_nat code @ '';?'') terminator = Some (color_answer (show_nat code) color terminator)
      \<and> (let xs2 = snd (apply_osc_color_state (show_nat (code + 100)) xs1) in
          extended_color_query_response cfg xs2 (show_nat code @ '';?'') terminator
            = extended_color_query_response cfg no_overrides (show_nat code @ '';?'') terminator))"
proof -
  define xs1 where "xs1 = snd (overrides_set code color xs)"
  define xs2 where "xs2 = snd (overrides_reset code xs1)"
  have get: "overrides_get code xs1 = Some color" "length xs1 = 7" "overrides_get code xs2 = None"
    using overrides_get_set [OF assms(3,1,2), of color] overrides_get_reset [of xs1 code] assms by (simp_all add: xs1_def xs2_def)
  have "split_on (CHR '';'') (rgb_spec color) = [rgb_spec color]" using rgb_spec_plain by (simp add: split_on_none)
  then have one: "snd (apply_osc_color_state (show_nat code @ '';'' @ rgb_spec color) xs) = xs1"
    using assms rgb_spec_plain [of color]
    by (simp only: apply_osc_color_state_def split_code [OF assms(1,2)] option.case prod.case code_number(1) [OF assms(1,2)])
       (simp add: parse_rgb_spec xs1_def split_beta)
  have "split_osc_payload (show_nat (code + 100)) = None"
    using code_number(4) [OF assms(1,2)] by (simp add: split_osc_payload_def split_once_none)
  then have two: "snd (apply_osc_color_state (show_nat (code + 100)) xs1) = xs2"
    using assms(1,2) code_number(3) [OF assms(1,2)] by (simp add: apply_osc_color_state_def xs2_def)
  have query: "extended_color_query_response cfg ys (show_nat code @ '';?'') terminator =
      map_option (\<lambda>c. color_answer (show_nat code) c terminator) (extended_dynamic_color cfg ys code)" for ys
    using assms(1,2) split_code [OF assms(1,2), of "''?''"] code_number(1) [OF assms(1,2)]
    by (simp add: extended_color_query_response_def take_Cons' nonempty_def color_answer_def split: option.splits)
  have "overrides_get code no_overrides = None" by (auto simp: overrides_get_def overrides_slot_def no_overrides_def get_nth_def split: if_splits)
  then have "extended_dynamic_color cfg xs2 code = extended_dynamic_color cfg no_overrides code"
    using get(3) by (auto simp: extended_dynamic_color_def or_else_def)
  moreover have "extended_dynamic_color cfg xs1 code = Some color"
    by (rule code_cases [OF assms(1,2)]) (use get(1) in \<open>simp_all add: extended_dynamic_color_def or_else_def\<close>)
  ultimately show ?thesis
    by (simp only: Let_def one two query) simp
qed

definition plain_colors :: terminal_color_config where
  "plain_colors =
     \<lparr>tc_background = (0, 0, 0), tc_foreground = (1, 1, 1), tc_cursor = None, tc_cursor_text = None,
      tc_pointer_foreground = None, tc_pointer_background = None, tc_tektronix_foreground = None, tc_tektronix_background = None,
      tc_highlight_background = None, tc_tektronix_cursor = None, tc_highlight_foreground = None, tc_selection_background = None,
      tc_selection_foreground = None, tc_palette = []\<rparr>"

text \<open>
  A channel of three digits loses all but the first: where one, two and four digits are scaled to
  eight bits, the value of three digits is shifted by eight instead of four bits, so that the brightest
  notation \<^verbatim>\<open>fff\<close> gives 15 and not 255.
\<close>

lemma three_digit_channel_truncated:
  assumes "to_digit 16 a = Some x" "to_digit 16 b = Some y" "to_digit 16 c = Some z"
  shows "parse_color_channel [a, b, c] = Some (word_of_nat x) \<and> x < 16"
proof -
  have digits: "x < 16" "y < 16" "z < 16" using assms by (auto simp: to_digit_def Let_def split: if_splits)
  have "a \<noteq> CHR ''+''" using assms(1) by (auto simp: to_digit_def)
  then have "parse_uint 16 16 [a, b, c] = Some ((x * 16 + y) * 16 + z)"
    using assms digits by (simp add: parse_uint_def strip_prefix_def unsigned_digits_def)
  moreover have "(x * 16 + y) * 16 + z = (y * 16 + z) + x * 256" "y * 16 + z < 256" using digits by simp_all
  then have "((x * 16 + y) * 16 + z) div 256 = x" by simp
  ultimately show ?thesis using digits by (simp add: parse_color_channel_def)
qed

end
