(* ===== verification/Terminal_Write.thy ===== *)
theory Terminal_Write
  imports Kitty_Commands Side_Effects Osc_Colors
begin

text \<open>
  \<^verbatim>\<open>TerminalEngine::write_vt\<close> and \<^verbatim>\<open>import_history\<close> of
  \<^verbatim>\<open>crates/bootty-terminal/src/terminal_engine.rs\<close>, which put the parts of the write path together:
  holding back, the fast path, repeated cursor movements, unwrapping, sanitizing, colours and side
  effects.  The terminal library is a parameter.
\<close>

section \<open>The engine's state\<close>

text \<open>What the library also does with bytes: it calls back with effects, and it reports a directory.\<close>

record 'v vt_host = "'v vt_library" +
  vt_callbacks :: "string \<Rightarrow> 'v \<Rightarrow> terminal_side_effect list"
  vt_directory :: "'v \<Rightarrow> string"

record 'v write_state =
  ws_vt :: 'v
  ws_pending :: string
  ws_home :: nat
  ws_side :: collector
  ws_overrides :: color_overrides
  ws_kitty_touched :: bool
  ws_epoch :: nat
  ws_mouse_dirty :: bool
  ws_directory :: string
  ws_suppressed :: bool
  ws_responses :: "string list"
  ws_sync_prefix :: nat
  ws_sync_observed :: bool

definition write_terminal :: "'v vt_host \<Rightarrow> string \<Rightarrow> 'v write_state \<Rightarrow> 'v write_state" where
  "write_terminal lib b s =
     s\<lparr>ws_vt := vt_write lib b (ws_vt s),
       ws_side := (ws_side s)\<lparr>co_callback_effects := co_callback_effects (ws_side s) @ vt_callbacks lib b (ws_vt s)\<rparr>\<rparr>"

definition mark_content_changed :: "'v write_state \<Rightarrow> 'v write_state" where
  "mark_content_changed s = s\<lparr>ws_epoch := (ws_epoch s + 1) mod 2 ^ 64\<rparr>"

definition written :: "'v write_state \<Rightarrow> 'v write_state" where
  "written s = mark_content_changed (s\<lparr>ws_mouse_dirty := True\<rparr>)"

definition sync_current_working_directory :: "'v vt_host \<Rightarrow> 'v write_state \<Rightarrow> 'v write_state" where
  "sync_current_working_directory lib s = s\<lparr>ws_directory := vt_directory lib (ws_vt s)\<rparr>"

section \<open>The start of synchronized output\<close>

definition SYNC_START :: string where "SYNC_START = esc # ''[?2026h''"

text \<open>
  One byte of the loop: outside a match the loop jumps to the next escape byte, which is the same as
  passing over every other byte.
\<close>

definition sync_byte :: "char \<Rightarrow> nat \<times> bool \<Rightarrow> nat \<times> bool" where
  "sync_byte b st =
     (case st of (n, observed) \<Rightarrow>
        if n = 0 then (if b = esc then 1 else 0, observed)
        else let m = (if get_nth SYNC_START n = Some b then n + 1 else if b = esc then 1 else 0)
             in if m = length SYNC_START then (0, True) else (m, observed))"

definition observe_synchronized_output_start :: "string \<Rightarrow> 'v write_state \<Rightarrow> 'v write_state" where
  "observe_synchronized_output_start bytes s =
     (case fold sync_byte bytes (ws_sync_prefix s, ws_sync_observed s) of
        (n, observed) \<Rightarrow> s\<lparr>ws_sync_prefix := n, ws_sync_observed := observed\<rparr>)"

section \<open>Writing\<close>

definition flush_home :: "'v vt_host \<Rightarrow> 'v write_state \<Rightarrow> 'v write_state" where
  "flush_home lib s =
     (if 0 < ws_home s
      then (write_terminal lib (take (min (ws_home s) (length CURSOR_HOME)) CURSOR_HOME) s)\<lparr>ws_home := 0\<rparr> else s)"

definition try_write_repeated_cursor_home :: "'v vt_host \<Rightarrow> string \<Rightarrow> 'v write_state \<Rightarrow> bool \<times> 'v write_state" where
  "try_write_repeated_cursor_home lib bytes s =
     (case repeated_cursor_home_prefix_len bytes (ws_home s) of
        None \<Rightarrow> (False, flush_home lib s)
      | Some (complete, pending_len) \<Rightarrow>
          (True, (if 0 < complete then write_terminal lib CURSOR_HOME s else s)\<lparr>ws_home := pending_len\<rparr>))"

text \<open>The library with its callbacks collected, for the write that interleaves colours.\<close>

definition lifted :: "'v vt_host \<Rightarrow> ('v \<times> terminal_side_effect list) vt_library" where
  "lifted lib =
     \<lparr>vt_write = (\<lambda>b (v, es). (vt_write lib b v, es @ vt_callbacks lib b v)),
      vt_fg_color = (\<lambda>(v, es). vt_fg_color lib v), vt_bg_color = (\<lambda>(v, es). vt_bg_color lib v),
      vt_cursor_color = (\<lambda>(v, es). vt_cursor_color lib v), vt_palette = (\<lambda>(v, es). vt_palette lib v)\<rparr>"

definition write_colored :: "'v vt_host \<Rightarrow> terminal_color_config \<Rightarrow> string \<Rightarrow> 'v write_state \<Rightarrow> 'v write_state" where
  "write_colored lib cfg bytes s =
     (let w = write_vt_with_ordered_osc_color_state (lifted lib) cfg bytes
                \<lparr>cw_terminal = (ws_vt s, []), cw_overrides = ws_overrides s, cw_changes = 0, cw_responses = []\<rparr>
      in s\<lparr>ws_vt := fst (cw_terminal w), ws_overrides := cw_overrides w,
           ws_side := (ws_side s)\<lparr>co_callback_effects := co_callback_effects (ws_side s) @ snd (cw_terminal w)\<rparr>,
           ws_epoch := (ws_epoch s + cw_changes w) mod 2 ^ 64,
           ws_responses := ws_responses s @ (if ws_suppressed s then [] else cw_responses w)\<rparr>)"

definition with_input :: "collector \<Rightarrow> write_features \<Rightarrow> write_features" where
  "with_input c f = (if needs_input c then f\<lparr>tf_osc_side_effect := True\<rparr> else f)"

definition collect_effects ::
  "'v vt_host \<Rightarrow> (string \<Rightarrow> string option) \<Rightarrow> (string \<Rightarrow> string option) \<Rightarrow> string \<Rightarrow> 'v write_state \<Rightarrow> 'v write_state" where
  "collect_effects lib d e bytes s =
     (let (acts, side) = collect d e bytes (ws_side s)
      in fold (\<lambda>b x. mark_content_changed (write_terminal lib b x)) acts (s\<lparr>ws_side := side\<rparr>))"

definition write_complete ::
  "'v vt_host \<Rightarrow> terminal_color_config \<Rightarrow> (string \<Rightarrow> string option) \<Rightarrow> (string \<Rightarrow> string option) \<Rightarrow> string \<Rightarrow>
   'v write_state \<Rightarrow> 'v write_state" where
  "write_complete lib cfg d e write_bytes s =
     (let features = with_input (ws_side s) (terminal_write_features write_bytes) in
      if \<not> needs_sanitizing features then
        written (sync_current_working_directory lib (write_terminal lib write_bytes s))
      else
        (let bytes = (if tf_tmux_passthrough features then unwrap_tmux_passthrough_commands write_bytes else write_bytes);
             features = (if tf_tmux_passthrough features then with_input (ws_side s) (terminal_write_features bytes) else features);
             (bytes, touched) = (if tf_kitty_graphics features then sanitize_kitty_graphics_commands bytes else (bytes, False));
             s1 = (if touched then s\<lparr>ws_kitty_touched := True\<rparr> else s);
             s2 = (if tf_osc_color features then write_colored lib cfg bytes s1 else write_terminal lib bytes s1);
             s3 = sync_current_working_directory lib s2;
             s4 = (if tf_osc_side_effect features then collect_effects lib d e bytes s3 else s3)
         in written s4))"

definition write_vt ::
  "'v vt_host \<Rightarrow> terminal_color_config \<Rightarrow> (string \<Rightarrow> string option) \<Rightarrow> (string \<Rightarrow> string option) \<Rightarrow> string \<Rightarrow>
   'v write_state \<Rightarrow> 'v write_state" where
  "write_vt lib cfg d e bytes s =
     (let s0 = observe_synchronized_output_start bytes s;
          can_fast_write = (ws_pending s0 = [] \<and> \<not> needs_input (ws_side s0) \<and> \<not> contains_tracked_streaming_control bytes);
          (finished, s1) = (if can_fast_write then try_write_repeated_cursor_home lib bytes s0 else (False, s0))
      in if finished then written s1
         else (let s2 = flush_home lib s1 in
               if can_fast_write then written (sync_current_working_directory lib (write_terminal lib bytes s2))
               else (let (write_bytes, pending) = complete_streaming_terminal_write (ws_pending s2) bytes;
                         s3 = s2\<lparr>ws_pending := pending\<rparr>
                     in if write_bytes = [] then s3 else write_complete lib cfg d e write_bytes s3)))"

definition clear_streaming_writes :: "'v write_state \<Rightarrow> 'v write_state" where
  "clear_streaming_writes s = s\<lparr>ws_pending := [], ws_side := clear_pending (ws_side s)\<rparr>"

definition import_history ::
  "'v vt_host \<Rightarrow> terminal_color_config \<Rightarrow> (string \<Rightarrow> string option) \<Rightarrow> (string \<Rightarrow> string option) \<Rightarrow> string \<Rightarrow>
   'v write_state \<Rightarrow> 'v write_state" where
  "import_history lib cfg d e bytes s =
     (let s1 = clear_streaming_writes s;
          before = mark (ws_side s1);
          s2 = write_vt lib cfg d e bytes (s1\<lparr>ws_suppressed := True\<rparr>)
      in s2\<lparr>ws_suppressed := ws_suppressed s,
            ws_side := reset_clipboard_epoch (drop_replayed before (ws_side s2))\<rparr>)"

section \<open>Importing history\<close>

definition absorbs ::
  "(string \<Rightarrow> string option) \<Rightarrow> (string \<Rightarrow> string option) \<Rightarrow> collector \<Rightarrow> collector \<Rightarrow> bool" where
  "absorbs d e c c' \<longleftrightarrow> (\<exists>items. c' = fold (absorb d e) items c)"

lemma absorbs_refl [simp]: "absorbs d e c c"
  unfolding absorbs_def by (intro exI [of _ "[]"]) simp

lemma absorbs_trans: "absorbs d e a b \<Longrightarrow> absorbs d e b c \<Longrightarrow> absorbs d e a c"
  unfolding absorbs_def by (metis fold_append comp_apply)

lemma absorbs_callbacks: "absorbs d e c (c\<lparr>co_callback_effects := co_callback_effects c @ es\<rparr>)"
proof -
  have "fold (absorb d e) (map Col_Callback es) c = c\<lparr>co_callback_effects := co_callback_effects c @ es\<rparr>"
    by (induction es arbitrary: c) (simp_all add: absorb_def)
  then show ?thesis unfolding absorbs_def by (intro exI [of _ "map Col_Callback es"]) simp
qed

lemma absorbs_collect: "absorbs d e c (snd (collect d e b c))"
  unfolding absorbs_def by (intro exI [of _ "[Col_Bytes b]"]) (simp add: absorb_def)

text \<open>What every part of a write does to the effects, the answers and their suppression.\<close>

definition quiet ::
  "(string \<Rightarrow> string option) \<Rightarrow> (string \<Rightarrow> string option) \<Rightarrow> 'v write_state \<Rightarrow> 'v write_state \<Rightarrow> bool" where
  "quiet d e s s' \<longleftrightarrow>
     absorbs d e (ws_side s) (ws_side s') \<and> ws_suppressed s' = ws_suppressed s
     \<and> (ws_suppressed s \<longrightarrow> ws_responses s' = ws_responses s)"

lemma quiet_refl [simp]: "quiet d e s s"
  by (simp add: quiet_def)

lemma quiet_trans: "quiet d e a b \<Longrightarrow> quiet d e b c \<Longrightarrow> quiet d e a c"
  by (auto simp: quiet_def intro: absorbs_trans)

lemma quiet_update [simp]:
  "quiet d e s (s'\<lparr>ws_pending := p\<rparr>) = quiet d e s s'" "quiet d e s (s'\<lparr>ws_home := h\<rparr>) = quiet d e s s'"
  "quiet d e s (s'\<lparr>ws_kitty_touched := b\<rparr>) = quiet d e s s'" "quiet d e s (s'\<lparr>ws_sync_prefix := n\<rparr>) = quiet d e s s'"
  "quiet d e s (s'\<lparr>ws_sync_observed := b\<rparr>) = quiet d e s s'"
  "quiet d e s (sync_current_working_directory lib s') = quiet d e s s'"
  "quiet d e s (mark_content_changed s') = quiet d e s s'" "quiet d e s (written s') = quiet d e s s'"
  by (simp_all add: quiet_def sync_current_working_directory_def mark_content_changed_def written_def)

lemma quiet_terminal [simp]: "quiet d e s (write_terminal lib b s)"
  by (simp add: quiet_def write_terminal_def absorbs_callbacks)

lemma quiet_colored [simp]: "quiet d e s (write_colored lib cfg b s)"
  by (simp add: quiet_def write_colored_def Let_def absorbs_callbacks)

lemma quiet_flush [simp]: "quiet d e s (flush_home lib s)"
  by (simp add: flush_home_def)

lemma quiet_home [simp]: "quiet d e s (snd (try_write_repeated_cursor_home lib b s))"
  by (simp add: try_write_repeated_cursor_home_def split: option.splits)

lemma quiet_collect: "quiet d e s (collect_effects lib d e b s)"
proof -
  have writes: "quiet d e x (fold (\<lambda>b x. mark_content_changed (write_terminal lib b x)) acts x)" for acts x
  proof (induction acts arbitrary: x)
    case (Cons b acts)
    have "quiet d e x (mark_content_changed (write_terminal lib b x))" by simp
    from quiet_trans [OF this Cons.IH] show ?case by simp
  qed simp
  have "quiet d e s (s\<lparr>ws_side := snd (collect d e b (ws_side s))\<rparr>)"
    by (simp add: quiet_def absorbs_collect)
  then show ?thesis
    unfolding collect_effects_def using quiet_trans [OF _ writes] by (simp add: Let_def split_beta)
qed

lemma quiet_complete: "quiet d e s (write_complete lib cfg d e b s)"
proof -
  have colored: "quiet d e s (if c then write_colored lib cfg x (if t then s\<lparr>ws_kitty_touched := True\<rparr> else s)
      else write_terminal lib x (if t then s\<lparr>ws_kitty_touched := True\<rparr> else s))" for c t x
  proof -
    have "quiet d e s (if t then s\<lparr>ws_kitty_touched := True\<rparr> else s)" by simp
    from quiet_trans [OF this quiet_colored] quiet_trans [OF this quiet_terminal] show ?thesis by simp
  qed
  have "quiet d e s (if f then collect_effects lib d e x (sync_current_working_directory lib s') else sync_current_working_directory lib s')"
    if "quiet d e s s'" for f x s'
  proof -
    have sync: "quiet d e s (sync_current_working_directory lib s')" using that by simp
    from quiet_trans [OF sync quiet_collect] sync show ?thesis by simp
  qed
  note this [OF colored]
  then show ?thesis
    by (simp add: write_complete_def Let_def split_beta)
qed

lemma quiet_write: "quiet d e s (write_vt lib cfg d e bytes s)"
proof -
  define s0 where "s0 = observe_synchronized_output_start bytes s"
  have s0: "quiet d e s s0"
    by (simp add: s0_def observe_synchronized_output_start_def split_beta)
  have home: "quiet d e s (snd (try_write_repeated_cursor_home lib bytes s0))" using quiet_trans [OF s0] by simp
  have flushed: "quiet d e s (flush_home lib s0)" "quiet d e s (flush_home lib (snd (try_write_repeated_cursor_home lib bytes s0)))"
    using quiet_trans [OF s0] quiet_trans [OF home] by simp_all
  have "quiet d e s (write_terminal lib bytes (flush_home lib (snd (try_write_repeated_cursor_home lib bytes s0))))"
    using quiet_trans [OF flushed(2)] by simp
  moreover have "quiet d e s (write_complete lib cfg d e b (x\<lparr>ws_pending := p\<rparr>))" if "quiet d e s x" for b x p
  proof -
    have "quiet d e s (x\<lparr>ws_pending := p\<rparr>)" using that by simp
    from quiet_trans [OF this quiet_complete] show ?thesis .
  qed
  ultimately show ?thesis
    using home flushed
    by (auto simp: write_vt_def s0_def [symmetric] Let_def split_beta)
qed

text \<open>
  Importing history disturbs nobody: no answer is sent to the child process, the suppression of
  answers is what it was, the effects queued before are kept in order, and of everything the replayed
  bytes do, whatever they are and whatever the library calls back with, only effects that restore
  state are queued.
\<close>

lemma import_history_quiet:
  "let s' = import_history lib cfg d e bytes s in
     ws_responses s' = ws_responses s \<and> ws_suppressed s' = ws_suppressed s
     \<and> (\<exists>new new_callbacks.
          fst (drain (ws_side s')) = co_effects (ws_side s) @ new @ co_callback_effects (ws_side s) @ new_callbacks
          \<and> list_all (\<lambda>x. \<not> repeats_on_replay x) (new @ new_callbacks))"
proof -
  define s1 where "s1 = (clear_streaming_writes s)\<lparr>ws_suppressed := True\<rparr>"
  define s2 where "s2 = write_vt lib cfg d e bytes s1"
  have "quiet d e s1 s2" unfolding s2_def by (rule quiet_write)
  then obtain items where items: "ws_side s2 = fold (absorb d e) items (clear_pending (ws_side s))"
    and same: "ws_responses s2 = ws_responses s"
    by (auto simp: quiet_def absorbs_def s1_def clear_streaming_writes_def)
  have "ws_side (import_history lib cfg d e bytes s) = replay d e items (ws_side s)"
    by (simp add: import_history_def Let_def s1_def [symmetric] s2_def [symmetric] replay_def items [symmetric])
       (simp add: clear_streaming_writes_def)
  moreover obtain new new_callbacks where "fst (drain (replay d e items (ws_side s))) =
      co_effects (ws_side s) @ new @ co_callback_effects (ws_side s) @ new_callbacks"
      "list_all (\<lambda>x. \<not> repeats_on_replay x) (new @ new_callbacks)"
    using replay_restored [of d e items "ws_side s"] by blast
  ultimately show ?thesis
    using same by (auto simp: import_history_def Let_def s1_def [symmetric] s2_def [symmetric])
qed

section \<open>Ordinary output\<close>

text \<open>
  What is relied on of the library: bytes can be written in parts, and homing the cursor twice is
  homing it once.
\<close>

definition vt_laws :: "'v vt_host \<Rightarrow> bool" where
  "vt_laws lib \<longleftrightarrow>
     (\<forall>v. vt_write lib [] v = v) \<and> (\<forall>a b v. vt_write lib (a @ b) v = vt_write lib b (vt_write lib a v))
     \<and> (\<forall>v. vt_write lib CURSOR_HOME (vt_write lib CURSOR_HOME v) = vt_write lib CURSOR_HOME v)"

text \<open>Bytes without the introducer of a control sequence that the application interprets.\<close>

fun ordinary :: "string \<Rightarrow> bool" where
  "ordinary [] = True"
| "ordinary (c # s) =
     ((c = esc \<longrightarrow> (case s of [] \<Rightarrow> True | m # _ \<Rightarrow> m \<notin> {CHR ''P'', CHR ''_'', CHR '']''})) \<and> ordinary s)"

lemma ordinary_drop: "ordinary s \<Longrightarrow> ordinary (drop n s)"
proof (induction s arbitrary: n)
  case (Cons c s)
  then show ?case by (cases n) auto
qed simp

lemma ordinary_take: "ordinary s \<Longrightarrow> ordinary (take n s)"
proof (induction s arbitrary: n)
  case (Cons c s)
  show ?case
  proof (cases n)
    case (Suc m)
    have "(case take m s of [] \<Rightarrow> True | x # _ \<Rightarrow> x \<notin> {CHR ''P'', CHR ''_'', CHR '']''})"
      if "(case s of [] \<Rightarrow> True | x # _ \<Rightarrow> x \<notin> {CHR ''P'', CHR ''_'', CHR '']''})"
      using that by (cases s; cases m) simp_all
    with Suc Cons show ?thesis by simp
  qed simp
qed simp

lemma ordinary_features: "ordinary s \<Longrightarrow> terminal_write_features s = no_features"
  unfolding terminal_write_features_def
proof (induction s)
  case (Cons c s)
  have "c = esc \<Longrightarrow> feature_at s no_features = no_features"
    using Cons.prems by (cases s) (simp_all add: feature_at_def)
  moreover have "\<not> all_features no_features" by (simp add: all_features_def no_features_def)
  ultimately show ?case using Cons by (simp add: Let_def)
qed simp

text \<open>The state the terminal is in once everything that waits is written.\<close>

definition settled_vt :: "'v vt_host \<Rightarrow> 'v write_state \<Rightarrow> 'v" where
  "settled_vt lib s = vt_write lib (ws_pending s) (vt_write lib (take (ws_home s) CURSOR_HOME) (ws_vt s))"

definition idle :: "'v write_state \<Rightarrow> bool" where
  "idle s \<longleftrightarrow> ws_home s < 3 \<and> \<not> needs_input (ws_side s)"

lemma write_terminal_fields [simp]:
  "ws_vt (write_terminal lib b s) = vt_write lib b (ws_vt s)" "ws_home (write_terminal lib b s) = ws_home s"
  "ws_pending (write_terminal lib b s) = ws_pending s"
  "needs_input (ws_side (write_terminal lib b s)) = needs_input (ws_side s)"
  by (simp_all add: write_terminal_def needs_input_def)

lemma written_fields [simp]:
  "ws_vt (written s) = ws_vt s" "ws_home (written s) = ws_home s" "ws_pending (written s) = ws_pending s"
  "ws_side (written s) = ws_side s" "ws_vt (sync_current_working_directory lib s) = ws_vt s"
  "ws_home (sync_current_working_directory lib s) = ws_home s"
  "ws_pending (sync_current_working_directory lib s) = ws_pending s"
  "ws_side (sync_current_working_directory lib s) = ws_side s"
  by (simp_all add: written_def mark_content_changed_def sync_current_working_directory_def)

lemma observe_fields [simp]:
  "ws_vt (observe_synchronized_output_start b s) = ws_vt s" "ws_home (observe_synchronized_output_start b s) = ws_home s"
  "ws_pending (observe_synchronized_output_start b s) = ws_pending s" "ws_side (observe_synchronized_output_start b s) = ws_side s"
  by (simp_all add: observe_synchronized_output_start_def split_beta)

lemma flush_home_fields:
  assumes "vt_laws lib" "ws_home s < 3"
  shows "ws_vt (flush_home lib s) = vt_write lib (take (ws_home s) CURSOR_HOME) (ws_vt s)" "ws_home (flush_home lib s) = 0"
    "ws_pending (flush_home lib s) = ws_pending s" "needs_input (ws_side (flush_home lib s)) = needs_input (ws_side s)"
proof -
  have "length CURSOR_HOME = 3" by (simp add: CURSOR_HOME_def)
  then show "ws_vt (flush_home lib s) = vt_write lib (take (ws_home s) CURSOR_HOME) (ws_vt s)" "ws_home (flush_home lib s) = 0"
    "ws_pending (flush_home lib s) = ws_pending s" "needs_input (ws_side (flush_home lib s)) = needs_input (ws_side s)"
    using assms by (auto simp: flush_home_def vt_laws_def min_def)
qed

lemma homes_once:
  assumes "vt_laws lib" "0 < n"
  shows "vt_write lib (concat (replicate n CURSOR_HOME)) v = vt_write lib CURSOR_HOME v"
  using assms(2)
proof (induction n arbitrary: v)
  case (Suc n)
  then show ?case using assms(1) by (cases "n = 0") (simp_all add: vt_laws_def)
qed simp

lemma home_write:
  assumes laws: "vt_laws lib" and idle: "idle s" and empty: "ws_pending s = []"
    and ok: "try_write_repeated_cursor_home lib bytes s = (True, s1)"
  shows "idle s1 \<and> ws_pending s1 = [] \<and> settled_vt lib s1 = vt_write lib bytes (settled_vt lib s)"
proof -
  obtain n k where nk: "cursor_home_loop 0 (ws_home s) bytes = Some (n, k)"
    and s1: "s1 = (if 0 < n then write_terminal lib CURSOR_HOME s else s)\<lparr>ws_home := k\<rparr>"
    using ok by (auto simp: try_write_repeated_cursor_home_def repeated_cursor_home_prefix_len_def split: option.splits)
  have cut: "k < 3" "take (ws_home s) CURSOR_HOME @ bytes = concat (replicate n CURSOR_HOME) @ take k CURSOR_HOME"
    using cursor_home_loop_Some [OF nk] idle by (auto simp: idle_def)
  have parts: "vt_write lib (a @ b) v = vt_write lib b (vt_write lib a v)" "vt_write lib [] v = v" for a b v
    using laws by (auto simp: vt_laws_def)
  have "vt_write lib bytes (settled_vt lib s) = vt_write lib (take (ws_home s) CURSOR_HOME @ bytes) (ws_vt s)"
    by (simp add: settled_vt_def empty parts)
  also have "\<dots> = vt_write lib (take k CURSOR_HOME) (vt_write lib (concat (replicate n CURSOR_HOME)) (ws_vt s))"
    by (simp add: cut(2) parts)
  also have "\<dots> = settled_vt lib s1"
    using homes_once [OF laws, of n] by (cases "n = 0") (simp_all add: s1 settled_vt_def empty parts)
  finally have "settled_vt lib s1 = vt_write lib bytes (settled_vt lib s)" by simp
  moreover have "idle s1" "ws_pending s1 = []" using idle cut(1) empty by (simp_all add: s1 idle_def)
  ultimately show ?thesis by simp
qed

lemma ordinary_write:
  assumes laws: "vt_laws lib" and idle: "idle s" and ord: "ordinary (ws_pending s @ bytes)"
  shows "idle (write_vt lib cfg d e bytes s)
    \<and> (\<exists>n. ws_pending (write_vt lib cfg d e bytes s) = drop n (ws_pending s @ bytes))
    \<and> settled_vt lib (write_vt lib cfg d e bytes s) = vt_write lib bytes (settled_vt lib s)"
proof -
  define s0 where "s0 = observe_synchronized_output_start bytes s"
  have s0: "idle s0" "ws_pending s0 = ws_pending s" "settled_vt lib s0 = settled_vt lib s" "ws_home s0 < 3"
    using idle by (simp_all add: s0_def idle_def settled_vt_def)
  have parts: "vt_write lib (a @ b) v = vt_write lib b (vt_write lib a v)" "vt_write lib [] v = v" for a b v
    using laws by (auto simp: vt_laws_def)
  define s2 where "s2 = flush_home lib s0"
  note flush = flush_home_fields [OF laws s0(4)]
  have s2: "ws_home s2 = 0" "ws_pending s2 = ws_pending s" "\<not> needs_input (ws_side s2)"
    "vt_write lib (ws_pending s) (ws_vt s2) = settled_vt lib s"
    using flush s0 by (simp_all add: s2_def settled_vt_def idle_def)
  have again: "flush_home lib s2 = s2" using s2(1) by (simp add: flush_home_def)
  define fast where "fast = (ws_pending s = [] \<and> \<not> contains_tracked_streaming_control bytes)"
  have can: "(ws_pending s0 = [] \<and> \<not> needs_input (ws_side s0) \<and> \<not> contains_tracked_streaming_control bytes) = fast"
    using s0(1,2) by (auto simp: idle_def fast_def)
  show ?thesis
  proof (cases "fast \<and> fst (try_write_repeated_cursor_home lib bytes s0)")
    case True
    then obtain s1 where home: "try_write_repeated_cursor_home lib bytes s0 = (True, s1)"
      by (cases "try_write_repeated_cursor_home lib bytes s0") auto
    have "write_vt lib cfg d e bytes s = written s1"
      using True home can by (simp add: write_vt_def s0_def [symmetric] Let_def)
    with home_write [OF laws s0(1) _ home] True s0(2,3) show ?thesis
      by (auto simp: fast_def idle_def settled_vt_def)
  next
    case False
    then have failed: "fast \<Longrightarrow> try_write_repeated_cursor_home lib bytes s0 = (False, s2)"
      by (simp add: try_write_repeated_cursor_home_def s2_def split: option.splits prod.splits)
    have run: "write_vt lib cfg d e bytes s =
        (if fast then written (sync_current_working_directory lib (write_terminal lib bytes s2))
         else (let (wb, p) = complete_streaming_terminal_write (ws_pending s2) bytes; s3 = s2\<lparr>ws_pending := p\<rparr>
               in if wb = [] then s3 else write_complete lib cfg d e wb s3))"
      unfolding write_vt_def Let_def s0_def [symmetric] can
      by (cases fast) (simp_all add: failed again s2_def [symmetric] split_beta)
    show ?thesis
    proof (cases fast)
      case True
      then have "write_vt lib cfg d e bytes s = written (sync_current_working_directory lib (write_terminal lib bytes s2))" using run by simp
      moreover have "ws_pending s = []" using True by (simp add: fast_def)
      ultimately show ?thesis
        using s2 by (auto simp: idle_def settled_vt_def parts intro: exI [of _ "length bytes"])
    next
      case False
      define n where "n = complete_streaming_control_prefix_len (ws_pending s @ bytes)"
      define wb where "wb = take n (ws_pending s @ bytes)"
      define p where "p = drop n (ws_pending s @ bytes)"
      have wbp: "complete_streaming_terminal_write (ws_pending s2) bytes = (wb, p)"
        by (simp add: terminal_write_step s2(2) wb_def p_def n_def)
      have features: "terminal_write_features wb = no_features"
        using ordinary_features ordinary_take [OF ord] by (simp add: wb_def)
      define s3 where "s3 = s2\<lparr>ws_pending := p\<rparr>"
      have "write_complete lib cfg d e wb s3 = written (sync_current_working_directory lib (write_terminal lib wb s3))"
        using features s2(3) by (simp add: write_complete_def with_input_def s3_def Let_def needs_sanitizing_def no_features_def)
      then have result: "write_vt lib cfg d e bytes s = (if wb = [] then s3 else written (sync_current_working_directory lib (write_terminal lib wb s3)))"
        using run False wbp by (simp add: s3_def Let_def)
      have "vt_write lib p (vt_write lib wb (ws_vt s2)) = vt_write lib (ws_pending s @ bytes) (ws_vt s2)"
      proof -
        have "wb @ p = ws_pending s @ bytes" unfolding wb_def p_def by (rule append_take_drop_id)
        then show ?thesis using parts(1) [of wb p "ws_vt s2"] by simp
      qed
      also have "\<dots> = vt_write lib bytes (settled_vt lib s)" using s2(4) by (simp add: parts)
      finally have total: "vt_write lib p (vt_write lib wb (ws_vt s2)) = vt_write lib bytes (settled_vt lib s)" .
      have "settled_vt lib (write_vt lib cfg d e bytes s) = vt_write lib p (vt_write lib wb (ws_vt s2))"
        unfolding result by (simp add: settled_vt_def s3_def s2(1) parts(2))
      moreover have "idle (write_vt lib cfg d e bytes s)" "ws_pending (write_vt lib cfg d e bytes s) = p"
        unfolding result using s2(1,3) by (simp_all add: s3_def idle_def)
      ultimately show ?thesis using total by (auto simp: p_def)
    qed
  qed
qed

text \<open>
  C6.  Ordinary output reaches the terminal unchanged.  Given the two laws of the library, however the
  output of a program is cut into writes, if it has no introducer of an interpreted control sequence,
  then the terminal, once what still waits is written, is in the state that writing all the bytes at
  once would have put it in; the fast path, the collapsing of repeated cursor movements and the
  holding back of an escape byte do not show.
\<close>

theorem ordinary_output_unchanged:
  assumes "vt_laws lib" "idle s" "ordinary (ws_pending s @ concat chunks)"
  shows "settled_vt lib (fold (write_vt lib cfg d e) chunks s) = vt_write lib (concat chunks) (settled_vt lib s)"
  using assms(2,3)
proof (induction chunks arbitrary: s)
  case Nil
  then show ?case using assms(1) by (simp add: vt_laws_def)
next
  case (Cons b chunks)
  have "ordinary (take (length (ws_pending s @ b)) ((ws_pending s @ b) @ concat chunks))"
    using Cons.prems(2) by (intro ordinary_take) simp
  then have "ordinary (ws_pending s @ b)" by simp
  from ordinary_write [OF assms(1) Cons.prems(1) this, of cfg d e]
  obtain n where step: "idle (write_vt lib cfg d e b s)" "ws_pending (write_vt lib cfg d e b s) = drop n (ws_pending s @ b)"
    "settled_vt lib (write_vt lib cfg d e b s) = vt_write lib b (settled_vt lib s)" by blast
  have "ordinary (drop n (ws_pending s @ b) @ concat chunks)"
  proof (cases "n \<le> length (ws_pending s @ b)")
    case True
    then have "drop n (ws_pending s @ b) @ concat chunks = drop n ((ws_pending s @ b) @ concat chunks)"
      by (simp only: drop_append) simp
    then show ?thesis using ordinary_drop [OF Cons.prems(2), of n] by simp
  next
    case False
    then show ?thesis using ordinary_drop [OF Cons.prems(2), of "length (ws_pending s @ b)"] by simp
  qed
  with Cons.IH [OF step(1)] step(2,3) show ?case
    using assms(1) by (simp add: vt_laws_def)
qed

text \<open>A small terminal for the example: a column, and a parser that knows the cursor home sequence.\<close>

definition column_step :: "char \<Rightarrow> nat \<times> nat \<Rightarrow> nat \<times> nat" where
  "column_step b v =
     (if b = esc then (fst v, 1)
      else if snd v = 1 then (fst v, if b = CHR ''['' then 2 else 0)
      else if snd v = 2 then (if b = CHR ''H'' then (0, 0) else (fst v, 0))
      else (fst v + 1, 0))"

definition column_vt :: "(nat \<times> nat) vt_host" where
  "column_vt =
     \<lparr>vt_write = fold column_step, vt_fg_color = (\<lambda>_. None), vt_bg_color = (\<lambda>_. None), vt_cursor_color = (\<lambda>_. None),
      vt_palette = (\<lambda>_. None), vt_callbacks = (\<lambda>_ _. []), vt_directory = (\<lambda>_. [])\<rparr>"

definition fresh_write_state :: "'v \<Rightarrow> 'v write_state" where
  "fresh_write_state v =
     \<lparr>ws_vt = v, ws_pending = [], ws_home = 0, ws_side = new_collector, ws_overrides = no_overrides, ws_kitty_touched = False,
      ws_epoch = 0, ws_mouse_dirty = False, ws_directory = [], ws_suppressed = False, ws_responses = [], ws_sync_prefix = 0,
      ws_sync_observed = False\<rparr>"

lemma column_vt_laws: "vt_laws column_vt"
  by (simp add: vt_laws_def column_vt_def CURSOR_HOME_def column_step_def)

theorem ordinary_output_unchanged_witness:
  "settled_vt column_vt
     (fold (write_vt column_vt plain_colors (\<lambda>_. None) (\<lambda>_. None)) [''ab'' @ [esc], ''[H'', CURSOR_HOME @ [esc, CHR ''[''], ''Hx'']
       (fresh_write_state (0, 0))) = (1, 0)"
proof -
  have "idle (fresh_write_state (0 :: nat, 0 :: nat))"
    by (simp add: idle_def fresh_write_state_def needs_input_def new_collector_def)
  from ordinary_output_unchanged [OF column_vt_laws this, of "[''ab'' @ [esc], ''[H'', CURSOR_HOME @ [esc, CHR ''[''], ''Hx'']"]
  show ?thesis
    by (simp add: fresh_write_state_def CURSOR_HOME_def settled_vt_def column_vt_def column_step_def)
qed

section \<open>Synchronized output is noticed\<close>

lemma sync_start_nth: "0 < i \<Longrightarrow> i < 8 \<Longrightarrow> SYNC_START ! i \<noteq> esc" "SYNC_START ! 0 = esc" "length SYNC_START = 8"
  by (auto simp: SYNC_START_def nth_Cons' less_Suc_eq numeral_eq_Suc)

text \<open>The number of bytes of the sequence that the stream ends with: none, or the count that the loop keeps.\<close>

definition sync_inv :: "string \<Rightarrow> nat \<times> bool \<Rightarrow> bool" where
  "sync_inv x st \<longleftrightarrow>
     fst st < 8 \<and> (\<forall>j < 8. suffix (take j SYNC_START) x \<longleftrightarrow> j = 0 \<or> j = fst st) \<and> snd st = sublist SYNC_START x"

lemma suffix_snoc_take:
  assumes "0 < j" "j \<le> 8"
  shows "suffix (take j SYNC_START) (x @ [b]) \<longleftrightarrow> suffix (take (j - 1) SYNC_START) x \<and> SYNC_START ! (j - 1) = b"
proof -
  have "take j SYNC_START = take (j - 1) SYNC_START @ [SYNC_START ! (j - 1)]"
    using assms sync_start_nth(3) take_Suc_conv_app_nth [of "j - 1" SYNC_START] by simp
  then show ?thesis by auto
qed

lemma sublist_snoc: "sublist p (x @ [b]) \<longleftrightarrow> sublist p x \<or> suffix p (x @ [b])"
  by (auto simp: sublist_append suffix_def sublist_def) (metis append.assoc append_Nil2 butlast_append butlast_snoc)+

lemma sync_byte_inv:
  assumes "sync_inv x st"
  shows "sync_inv (x @ [b]) (sync_byte b st)"
proof -
  obtain n seen where st: "st = (n, seen)" by force
  have n: "n < 8" and seen: "seen = sublist SYNC_START x"
    using assms by (auto simp: sync_inv_def st)
  have ends: "j < 8 \<Longrightarrow> suffix (take j SYNC_START) x \<longleftrightarrow> j = 0 \<or> j = n" for j
    using assms by (simp add: sync_inv_def st)
  have step: "suffix (take j SYNC_START) (x @ [b]) \<longleftrightarrow> (j = 1 \<or> j = Suc n) \<and> SYNC_START ! (j - 1) = b" if "0 < j" "j \<le> 8" for j
    using suffix_snoc_take [OF that] ends [of "j - 1"] that by auto
  have whole: "suffix SYNC_START (x @ [b]) \<longleftrightarrow> n = 7 \<and> SYNC_START ! 7 = b"
    using step [of 8] sync_start_nth(3) by auto
  have next_byte: "get_nth SYNC_START n = Some b \<longleftrightarrow> SYNC_START ! n = b"
    using n by (simp add: get_nth_def sync_start_nth(3))
  have made: "sync_inv (x @ [b]) (m, seen')"
    if "m < 8" "\<And>j. 0 < j \<Longrightarrow> j < 8 \<Longrightarrow> suffix (take j SYNC_START) (x @ [b]) \<longleftrightarrow> j = m"
      "seen' = (seen \<or> suffix SYNC_START (x @ [b]))" for m seen'
    using that seen sublist_snoc [of SYNC_START x b] by (auto simp: sync_inv_def)
  consider (found) "0 < n" "SYNC_START ! n = b" | (lost) "n = 0 \<or> SYNC_START ! n \<noteq> b" by auto
  then show ?thesis
  proof cases
    case found
    then have b: "b \<noteq> SYNC_START ! 0" using sync_start_nth(1) [of n] sync_start_nth(2) n by auto
    show ?thesis
    proof (cases "n = 7")
      case True
      then have "sync_byte b st = (0, True)" using found next_byte by (simp add: sync_byte_def st sync_start_nth(3))
      moreover have "sync_inv (x @ [b]) (0, True)"
      proof (rule made)
        show "True = (seen \<or> suffix SYNC_START (x @ [b]))" unfolding whole using True found by simp
        show "suffix (take j SYNC_START) (x @ [b]) \<longleftrightarrow> j = 0" if "0 < j" "j < 8" for j
          unfolding step [OF that(1) less_imp_le [OF that(2)]] using that True b by auto
      qed simp
      ultimately show ?thesis by simp
    next
      case False
      then have "sync_byte b st = (Suc n, seen)" using found next_byte by (simp add: sync_byte_def st sync_start_nth(3))
      moreover have "sync_inv (x @ [b]) (Suc n, seen)"
      proof (rule made)
        show "Suc n < 8" using False n by simp
        show "seen = (seen \<or> suffix SYNC_START (x @ [b]))" unfolding whole using False by simp
        show "suffix (take j SYNC_START) (x @ [b]) \<longleftrightarrow> j = Suc n" if "0 < j" "j < 8" for j
          unfolding step [OF that(1) less_imp_le [OF that(2)]] using that found b by auto
      qed
      ultimately show ?thesis by simp
    qed
  next
    case lost
    then have "sync_byte b st = (if b = esc then 1 else 0, seen)"
      using next_byte by (auto simp: sync_byte_def st sync_start_nth(3))
    moreover have "sync_inv (x @ [b]) (if b = esc then 1 else 0, seen)"
    proof (rule made)
      show "seen = (seen \<or> suffix SYNC_START (x @ [b]))" unfolding whole using lost by auto
      show "suffix (take j SYNC_START) (x @ [b]) \<longleftrightarrow> j = (if b = esc then 1 else 0)" if "0 < j" "j < 8" for j
        unfolding step [OF that(1) less_imp_le [OF that(2)]] using that lost sync_start_nth(2) by auto
    qed simp
    ultimately show ?thesis by simp
  qed
qed

lemma sync_fold_inv: "sync_inv x st \<Longrightarrow> sync_inv (x @ bytes) (fold sync_byte bytes st)"
proof (induction bytes arbitrary: x st)
  case (Cons b bytes)
  from Cons.IH [OF sync_byte_inv [OF Cons.prems]] show ?case by simp
qed simp

lemma sync_start_inv: "sync_inv [] (0, False)"
  by (auto simp: sync_inv_def SYNC_START_def)

text \<open>
  The flag is set exactly when the start of synchronized output occurred in the bytes, however they
  were cut into writes.
\<close>

lemma sync_start_observed:
  "snd (fold (fold sync_byte) chunks (0, False)) \<longleftrightarrow> sublist SYNC_START (concat chunks)"
proof -
  have "fold (fold sync_byte) chunks st = fold sync_byte (concat chunks) st" for st
    by (induction chunks arbitrary: st) simp_all
  then show ?thesis using sync_fold_inv [OF sync_start_inv, of "concat chunks"] by (simp add: sync_inv_def)
qed

end
