(* ===== verification/Selection.thy ===== *)
theory Selection
  imports Bootty_Prelude "HOL-Library.Word"
begin

text \<open>
  The selection of a terminal, \<^verbatim>\<open>crates/bootty-terminal/src/selection.rs\<close>: two points of the grid, the
  ranges of columns that they select row by row, and the state of a drag with the pointer.  Columns and
  rows are 16-bit words.
\<close>

section \<open>Model\<close>

record selection_point =
  sp_x :: "16 word"
  sp_y :: "16 word"

record terminal_selection =
  sel_anchor :: selection_point
  sel_focus :: selection_point

text \<open>\<^verbatim>\<open>saturating_add(1)\<close>.\<close>

definition sat_inc :: "16 word \<Rightarrow> 16 word" where
  "sat_inc w = (if w = - 1 then - 1 else w + 1)"

definition ordered :: "terminal_selection \<Rightarrow> selection_point \<times> selection_point" where
  "ordered s =
     (if sp_y (sel_anchor s) < sp_y (sel_focus s)
         \<or> sp_y (sel_anchor s) = sp_y (sel_focus s) \<and> sp_x (sel_anchor s) \<le> sp_x (sel_focus s)
      then (sel_anchor s, sel_focus s) else (sel_focus s, sel_anchor s))"

definition is_collapsed :: "terminal_selection \<Rightarrow> bool" where
  "is_collapsed s = (sel_anchor s = sel_focus s)"

record selection_row_ranges =
  rr_start :: selection_point
  rr_end :: selection_point
  rr_row :: "16 word"
  rr_rows :: "16 word"
  rr_cols :: "16 word"

definition row_ranges :: "terminal_selection \<Rightarrow> 16 word \<Rightarrow> 16 word \<Rightarrow> selection_row_ranges" where
  "row_ranges s rows cols =
     (let (start, stop) = ordered s
      in \<lparr>rr_start = start, rr_end = stop, rr_row = sp_y start, rr_rows = rows, rr_cols = cols\<rparr>)"

lemma unat_sat_inc_less: "w < v \<Longrightarrow> unat (sat_inc w) = Suc (unat w)"
proof -
  assume "w < v"
  moreover have "unat v < 2 ^ 16" using unsigned_less [of v] by simp
  moreover have "w \<noteq> - 1" using \<open>w < v\<close> word_order.extremum_strict by blast
  ultimately have "unat w < unat v" "unat v < 2 ^ 16" "w \<noteq> - 1"
    by (simp_all add: word_less_nat_alt)
  then show ?thesis by (auto simp: sat_inc_def unat_word_ariths)
qed

lemma rows_left: "w < v \<Longrightarrow> unat v - unat (sat_inc w) < unat v - unat w"
  using unat_sat_inc_less [of w v] by (simp add: word_less_nat_alt)

text \<open>
  \<^verbatim>\<open>Iterator::next\<close>: the range of the next row that has one, and the advanced iterator.  A \<^verbatim>\<open>u16\<close> row below
  the number of rows can be incremented, which makes the loop end.
\<close>

definition row_range_at :: "selection_row_ranges \<Rightarrow> 16 word \<times> 16 word" where
  "row_range_at it =
     (let start_x = (if rr_row it = sp_y (rr_start it) then sp_x (rr_start it) else 0);
          end_x = (if rr_row it = sp_y (rr_end it) then sat_inc (sp_x (rr_end it)) else rr_cols it)
      in (min start_x (rr_cols it), min end_x (rr_cols it)))"

function next_range ::
  "selection_row_ranges \<Rightarrow> (16 word \<times> 16 word \<times> 16 word) option \<times> selection_row_ranges" where
  "next_range it =
     (if rr_row it \<le> sp_y (rr_end it) \<and> rr_row it < rr_rows it
      then let it' = it\<lparr>rr_row := sat_inc (rr_row it)\<rparr>;
               (start_x, end_x) = row_range_at it
           in if start_x < end_x then (Some (rr_row it, start_x, end_x), it') else next_range it'
      else (None, it))"
  by auto
termination
  by (relation "measure (\<lambda>it. unat (rr_rows it) - unat (rr_row it))")
    (auto simp: unat_sat_inc_less word_less_nat_alt)

declare next_range.simps [simp del]

lemma next_range_done: "\<not> (rr_row it \<le> sp_y (rr_end it) \<and> rr_row it < rr_rows it) \<Longrightarrow> next_range it = (None, it)"
  unfolding next_range.simps [of it] by auto

lemma next_range_step:
  assumes "rr_row it \<le> sp_y (rr_end it) \<and> rr_row it < rr_rows it" and "row_range_at it = (a, b)"
  shows "next_range it =
    (if a < b then (Some (rr_row it, a, b), it\<lparr>rr_row := sat_inc (rr_row it)\<rparr>)
     else next_range (it\<lparr>rr_row := sat_inc (rr_row it)\<rparr>))"
  using assms unfolding next_range.simps [of it] by auto

lemma next_range_row:
  "next_range it = (Some r, it') \<Longrightarrow>
    rr_rows it' = rr_rows it \<and> unat (rr_row it) < unat (rr_row it') \<and> rr_row it < rr_rows it"
proof (induction it rule: next_range.induct)
  case (1 it)
  obtain a b where ab: "row_range_at it = (a, b)" by fastforce
  have c: "rr_row it \<le> sp_y (rr_end it) \<and> rr_row it < rr_rows it"
    using 1(2) next_range_done by fastforce
  note inc = unat_sat_inc_less [OF conjunct2 [OF c]]
  show ?case
  proof (cases "a < b")
    case True
    then show ?thesis using 1(2) c inc by (auto simp: next_range_step [OF c ab])
  next
    case False
    then have "next_range (it\<lparr>rr_row := sat_inc (rr_row it)\<rparr>) = (Some r, it')"
      using 1(2) by (simp add: next_range_step [OF c ab])
    then show ?thesis using 1(1) [OF c refl ab [symmetric] refl] False c inc by force
  qed
qed

text \<open>What a consumer of the iterator sees.\<close>

function collect_ranges :: "selection_row_ranges \<Rightarrow> (16 word \<times> 16 word \<times> 16 word) list" where
  "collect_ranges it =
     (case next_range it of (None, it') \<Rightarrow> [] | (Some r, it') \<Rightarrow> r # collect_ranges it')"
  by auto
termination
  by (relation "measure (\<lambda>it. unat (rr_rows it) - unat (rr_row it))")
    (auto dest!: next_range_row [OF sym] simp: word_less_nat_alt)

declare collect_ranges.simps [simp del]

section \<open>Selecting with the pointer\<close>

record selection_state =
  ss_selection :: "terminal_selection option"
  ss_dragging :: bool

definition begin_selection :: "selection_point \<Rightarrow> selection_state \<Rightarrow> selection_state" where
  "begin_selection p st =
     st\<lparr>ss_selection := Some \<lparr>sel_anchor = p, sel_focus = p\<rparr>, ss_dragging := True\<rparr>"

definition select_range :: "selection_point \<Rightarrow> selection_point \<Rightarrow> selection_state \<Rightarrow> selection_state" where
  "select_range a f st =
     st\<lparr>ss_selection := Some \<lparr>sel_anchor = a, sel_focus = f\<rparr>, ss_dragging := False\<rparr>"

definition drag_to :: "selection_point \<Rightarrow> selection_state \<Rightarrow> selection_state" where
  "drag_to p st = st\<lparr>ss_selection := map_option (sel_focus_update (\<lambda>_. p)) (ss_selection st)\<rparr>"

definition finish_selection :: "selection_point \<Rightarrow> selection_state \<Rightarrow> selection_state" where
  "finish_selection p st =
     (if \<not> ss_dragging st then st
      else let st = (drag_to p st)\<lparr>ss_dragging := False\<rparr>
           in case ss_selection st of
                Some s \<Rightarrow> if is_collapsed s then st\<lparr>ss_selection := None\<rparr> else st
              | None \<Rightarrow> st)"

definition clear_selection :: "selection_state \<Rightarrow> selection_state" where
  "clear_selection st = st\<lparr>ss_selection := None, ss_dragging := False\<rparr>"

datatype selection_event =
    Begin selection_point
  | Select_Range selection_point selection_point
  | Drag_To selection_point
  | Finish selection_point
  | Clear

primrec selection_event_step :: "selection_event \<Rightarrow> selection_state \<Rightarrow> selection_state" where
  "selection_event_step (Begin p) = begin_selection p"
| "selection_event_step (Select_Range a f) = select_range a f"
| "selection_event_step (Drag_To p) = drag_to p"
| "selection_event_step (Finish p) = finish_selection p"
| "selection_event_step Clear = clear_selection"

section \<open>The cells of a selection\<close>

text \<open>Reading order of the points of the grid, and the cells between the two ends.\<close>

definition point_le :: "selection_point \<Rightarrow> selection_point \<Rightarrow> bool" where
  "point_le p q = (sp_y p < sp_y q \<or> sp_y p = sp_y q \<and> sp_x p \<le> sp_x q)"

definition covers :: "(16 word \<times> 16 word \<times> 16 word) list \<Rightarrow> selection_point \<Rightarrow> bool" where
  "covers rs p = list_ex (\<lambda>(y, a, b). y = sp_y p \<and> a \<le> sp_x p \<and> sp_x p < b) rs"

lemma ordered_le: "ordered s = (a, b) \<Longrightarrow> point_le a b"
  by (auto simp: ordered_def point_le_def split: if_splits)

lemma ordered_ends: "ordered s = (a, b) \<Longrightarrow> {a, b} = {sel_anchor s, sel_focus s}"
  by (auto simp: ordered_def split: if_splits)

lemma collect_ranges_step:
  "collect_ranges it =
     (if rr_row it \<le> sp_y (rr_end it) \<and> rr_row it < rr_rows it
      then (let (a, b) = row_range_at it in if a < b then [(rr_row it, a, b)] else [])
           @ collect_ranges (it\<lparr>rr_row := sat_inc (rr_row it)\<rparr>)
      else [])"
proof (cases "rr_row it \<le> sp_y (rr_end it) \<and> rr_row it < rr_rows it")
  case True
  obtain a b where ab: "row_range_at it = (a, b)" by fastforce
  show ?thesis
    using True by (subst collect_ranges.simps)
      (simp add: ab next_range_step [OF True ab] collect_ranges.simps [of "it\<lparr>rr_row := sat_inc (rr_row it)\<rparr>"])
next
  case False
  then show ?thesis by (subst collect_ranges.simps) (auto simp: next_range_done)
qed

lemma sat_inc_le: "w < v \<Longrightarrow> sat_inc w \<le> y \<longleftrightarrow> w < y"
  using unat_sat_inc_less [of w v] by (auto simp: word_less_nat_alt word_le_nat_alt)

lemma less_sat_inc: "x < c \<Longrightarrow> x < sat_inc w \<longleftrightarrow> x \<le> w"
proof (cases "w = - 1")
  case True
  assume "x < c"
  then have "x \<noteq> - 1" by (auto simp flip: not_le)
  then show ?thesis using True by (simp add: sat_inc_def word_order.not_eq_extremum)
next
  case False
  then have "w < - 1" by (simp add: word_order.not_eq_extremum)
  from unat_sat_inc_less [OF this] show ?thesis by (auto simp: word_less_nat_alt word_le_nat_alt)
qed

lemma row_range_at_covers:
  assumes "row_range_at it = (a, b)" and "rr_row it = sp_y p" and "sp_x p < rr_cols it"
  shows "a \<le> sp_x p \<and> sp_x p < b \<longleftrightarrow>
    (sp_y p = sp_y (rr_start it) \<longrightarrow> sp_x (rr_start it) \<le> sp_x p)
    \<and> (sp_y p = sp_y (rr_end it) \<longrightarrow> sp_x p \<le> sp_x (rr_end it))"
proof -
  have "min u (rr_cols it) \<le> sp_x p \<longleftrightarrow> u \<le> sp_x p" "sp_x p < min u (rr_cols it) \<longleftrightarrow> sp_x p < u" for u
    using assms(3) by (simp_all only: min_le_iff_disj min_less_iff_conj not_le [symmetric] simp_thms)
  moreover have "a = min (if sp_y p = sp_y (rr_start it) then sp_x (rr_start it) else 0) (rr_cols it)"
    and "b = min (if sp_y p = sp_y (rr_end it) then sat_inc (sp_x (rr_end it)) else rr_cols it) (rr_cols it)"
    using assms(1, 2) by (simp_all add: row_range_at_def Let_def)
  ultimately show ?thesis
    using assms(3) less_sat_inc [OF assms(3)] by simp
qed

lemma collect_ranges_rows:
  "(y, a, b) \<in> set (collect_ranges it) \<Longrightarrow> rr_row it \<le> y \<and> a < b \<and> b \<le> rr_cols it \<and> y < rr_rows it"
proof (induction it rule: measure_induct_rule [of "\<lambda>it. unat (rr_rows it) - unat (rr_row it)"])
  case (less it)
  have c: "rr_row it \<le> sp_y (rr_end it) \<and> rr_row it < rr_rows it"
    using less.prems by (simp add: collect_ranges_step [of it] split: if_splits)
  obtain u v where uv: "row_range_at it = (u, v)" by fastforce
  then have "v \<le> rr_cols it" by (auto simp: row_range_at_def Let_def)
  moreover have "unat (rr_rows it) - unat (sat_inc (rr_row it)) < unat (rr_rows it) - unat (rr_row it)"
    using rows_left c by blast
  moreover have "(y, a, b) = (rr_row it, u, v) \<and> u < v
      \<or> (y, a, b) \<in> set (collect_ranges (it\<lparr>rr_row := sat_inc (rr_row it)\<rparr>))"
    using less.prems c uv by (simp add: collect_ranges_step [of it] split: if_splits)
  ultimately show ?case
    using less.IH [of "it\<lparr>rr_row := sat_inc (rr_row it)\<rparr>"] c
      sat_inc_le [of "rr_row it" "rr_rows it" y]
    by auto
qed

lemma collect_ranges_covers:
  assumes "point_le (rr_start it) (rr_end it)" and "sp_y (rr_start it) \<le> rr_row it"
  shows "covers (collect_ranges it) p \<longleftrightarrow>
    sp_y p < rr_rows it \<and> sp_x p < rr_cols it \<and> rr_row it \<le> sp_y p
    \<and> point_le (rr_start it) p \<and> point_le p (rr_end it)"
  using assms
proof (induction it rule: measure_induct_rule [of "\<lambda>it. unat (rr_rows it) - unat (rr_row it)"])
  case (less it)
  show ?case
  proof (cases "rr_row it \<le> sp_y (rr_end it) \<and> rr_row it < rr_rows it")
    case True
    let ?it = "it\<lparr>rr_row := sat_inc (rr_row it)\<rparr>"
    have inc: "sat_inc (rr_row it) \<le> y \<longleftrightarrow> rr_row it < y" for y using sat_inc_le True by blast
    have shrinks: "unat (rr_rows ?it) - unat (rr_row ?it) < unat (rr_rows it) - unat (rr_row it)"
      using rows_left True by simp
    have "sp_y (rr_start it) \<le> sat_inc (rr_row it)"
      using less.prems(2) inc [of "sat_inc (rr_row it)"] by (meson order.trans order_less_imp_le order_refl)
    then have rest: "covers (collect_ranges ?it) p \<longleftrightarrow>
        sp_y p < rr_rows it \<and> sp_x p < rr_cols it \<and> rr_row it < sp_y p
        \<and> point_le (rr_start it) p \<and> point_le p (rr_end it)"
      using less.IH [OF shrinks] less.prems(1) by (simp add: inc)
    obtain a b where ab: "row_range_at it = (a, b)" by fastforce
    have "b \<le> rr_cols it" using ab by (auto simp: row_range_at_def Let_def)
    then have here: "a \<le> sp_x p \<and> sp_x p < b \<longleftrightarrow>
        sp_x p < rr_cols it \<and> point_le (rr_start it) p \<and> point_le p (rr_end it)" if "sp_y p = rr_row it"
    proof -
      have "point_le (rr_start it) p \<longleftrightarrow> (sp_y p = sp_y (rr_start it) \<longrightarrow> sp_x (rr_start it) \<le> sp_x p)"
        and "point_le p (rr_end it) \<longleftrightarrow> (sp_y p = sp_y (rr_end it) \<longrightarrow> sp_x p \<le> sp_x (rr_end it))"
        using that True less.prems(2) unfolding point_le_def order_less_le by auto
      then show ?thesis
        using row_range_at_covers [OF ab that [symmetric]] \<open>b \<le> rr_cols it\<close>
        by (cases "sp_x p < rr_cols it") auto
    qed
    have "covers (collect_ranges it) p \<longleftrightarrow>
        sp_y p = rr_row it \<and> a \<le> sp_x p \<and> sp_x p < b \<or> covers (collect_ranges ?it) p"
      using True unfolding collect_ranges_step [of it] by (auto simp: ab covers_def)
    moreover have "rr_row it \<le> sp_y p \<longleftrightarrow> rr_row it < sp_y p \<or> sp_y p = rr_row it" by auto
    ultimately show ?thesis using rest here True by auto
  next
    case False
    then show ?thesis
      unfolding collect_ranges_step [of it] by (auto simp: covers_def point_le_def)
  qed
qed

lemma collect_ranges_sorted: "sorted_wrt (<) (map fst (collect_ranges it))"
proof (induction it rule: measure_induct_rule [of "\<lambda>it. unat (rr_rows it) - unat (rr_row it)"])
  case (less it)
  show ?case
  proof (cases "rr_row it \<le> sp_y (rr_end it) \<and> rr_row it < rr_rows it")
    case True
    let ?it = "it\<lparr>rr_row := sat_inc (rr_row it)\<rparr>"
    have "unat (rr_rows it) - unat (rr_row ?it) < unat (rr_rows it) - unat (rr_row it)"
      using rows_left True by simp
    moreover have "rr_row it < y" if "(y, r) \<in> set (collect_ranges ?it)" for y r
      using collect_ranges_rows [of y "fst r" "snd r" ?it] that True sat_inc_le [of "rr_row it"] by auto
    ultimately show ?thesis
      using less.IH [of ?it] True unfolding collect_ranges_step [of it]
      by (auto simp: split_beta Let_def)
  next
    case False
    then show ?thesis unfolding collect_ranges_step [of it] by (simp only: if_False) simp
  qed
qed

section \<open>Properties\<close>

text \<open>
  C37.  The rows that the renderer is given for a selection select exactly the cells of the grid between
  the two ends in reading order, whichever end is the anchor; every row comes at most once, top to
  bottom, with a non-empty range of columns inside the grid.
\<close>
theorem selected_cells_exact:
  "(covers (collect_ranges (row_ranges s rows cols)) p \<longleftrightarrow>
      sp_y p < rows \<and> sp_x p < cols
      \<and> point_le (fst (ordered s)) p \<and> point_le p (snd (ordered s)))
   \<and> sorted_wrt (<) (map fst (collect_ranges (row_ranges s rows cols)))
   \<and> list_all (\<lambda>(y, a, b). y < rows \<and> a < b \<and> b \<le> cols) (collect_ranges (row_ranges s rows cols))"
proof (intro conjI)
  obtain a b where ab: "ordered s = (a, b)" by fastforce
  have "point_le a p \<Longrightarrow> sp_y a \<le> sp_y p" by (auto simp: point_le_def)
  then show "covers (collect_ranges (row_ranges s rows cols)) p \<longleftrightarrow>
     sp_y p < rows \<and> sp_x p < cols
     \<and> point_le (fst (ordered s)) p \<and> point_le p (snd (ordered s))"
    using ordered_le [OF ab] by (subst collect_ranges_covers) (auto simp: ab row_ranges_def)
  show "list_all (\<lambda>(y, a, b). y < rows \<and> a < b \<and> b \<le> cols) (collect_ranges (row_ranges s rows cols))"
    using collect_ranges_rows [of _ _ _ "row_ranges s rows cols"]
    by (fastforce simp: list_all_iff row_ranges_def ab)
qed (rule collect_ranges_sorted)

lemma dragged_selection:
  assumes "p \<noteq> q"
  shows "ss_selection (finish_selection q (fold drag_to ps (begin_selection p st)))
      = Some \<lparr>sel_anchor = p, sel_focus = q\<rparr>"
    and "ss_selection (finish_selection p (fold drag_to ps (begin_selection p st))) = None"
proof -
  have "ss_dragging (fold drag_to ps (begin_selection p st))
      \<and> (\<exists>f. ss_selection (fold drag_to ps (begin_selection p st)) = Some \<lparr>sel_anchor = p, sel_focus = f\<rparr>)"
    by (induction ps rule: rev_induct) (auto simp: begin_selection_def drag_to_def)
  then show "ss_selection (finish_selection q (fold drag_to ps (begin_selection p st)))
      = Some \<lparr>sel_anchor = p, sel_focus = q\<rparr>"
    and "ss_selection (finish_selection p (fold drag_to ps (begin_selection p st))) = None"
    using assms by (auto simp: finish_selection_def drag_to_def is_collapsed_def)
qed

text \<open>A drag that is under way has a selection.\<close>

definition selection_settled :: "selection_state \<Rightarrow> bool" where
  "selection_settled st = (ss_dragging st \<longrightarrow> ss_selection st \<noteq> None)"

lemma selection_runs:
  "selection_settled st \<Longrightarrow> selection_settled (fold selection_event_step es st)"
proof (induction es arbitrary: st)
  case (Cons e es)
  then have "selection_settled (selection_event_step e st)"
    by (cases e) (auto simp: selection_settled_def begin_selection_def select_range_def drag_to_def
        finish_selection_def clear_selection_def Let_def split: option.splits)
  then show ?case using Cons.IH by simp
qed simp

end
