(* ===== verification/Terminal_Links.thy ===== *)
theory Terminal_Links
  imports Frame_Wire Rust_Text Selection
begin

text \<open>
  Links in the rendered text, \<^verbatim>\<open>crates/bootty-terminal/src/terminal_links.rs\<close>: the location that a
  program printed, the logical line around a clicked cell, the link or the word under the click.

  A \<^verbatim>\<open>char\<close> is a code point and a \<^verbatim>\<open>String\<close> its UTF-8 bytes.  The parameters are the width that the VT
  library gives to a grapheme (\<open>gw\<close>), the letters and digits of the Unicode tables (\<open>alnum\<close>) and the
  word boundaries of the segmentation library (\<open>words\<close>: byte offset and word).  Rows and columns are
  \<^verbatim>\<open>u16\<close> numbers and every loop stays inside the grid, so that the saturating increments of the source
  are exact.  A logical line has one position and one hyperlink for each of its characters, so that the
  indexing of the loops does not fail.
\<close>

section \<open>Locations\<close>

datatype link_target = Url string | File string "nat option" "nat option"

definition location :: "link_target \<Rightarrow> string" where
  "location t =
     (case t of
        Url url \<Rightarrow> url
      | File path line column \<Rightarrow>
          path @ (case line of None \<Rightarrow> [] | Some n \<Rightarrow> CHR '':'' # show_nat n)
          @ (case column of None \<Rightarrow> [] | Some n \<Rightarrow> CHR '':'' # show_nat n))"

definition positive :: "string \<Rightarrow> nat option" where
  "positive v = (case parse_uint 32 10 v of Some n \<Rightarrow> if 0 < n then Some n else None | None \<Rightarrow> None)"

text \<open>The two forms \<^verbatim>\<open>path(line,column)\<close> and \<^verbatim>\<open>path:line:column\<close>, and what is left as the path.\<close>

definition paren_location :: "string \<Rightarrow> string \<Rightarrow> string \<Rightarrow> string \<times> nat option \<times> nat option" where
  "paren_location value base loc =
     (case split_once (CHR '','') loc of
        Some (row, col) \<Rightarrow>
          (case (positive row, positive col) of
             (Some l, Some c) \<Rightarrow> (base, Some l, Some c)
           | _ \<Rightarrow> (value, None, None))
      | None \<Rightarrow>
          (case positive loc of
             Some row \<Rightarrow> (base, Some row, None)
           | None \<Rightarrow> (value, None, None)))"

definition colon_location :: "string \<Rightarrow> string \<times> nat option \<times> nat option" where
  "colon_location value =
     (case rsplit_once (CHR '':'') value of
        None \<Rightarrow> (value, None, None)
      | Some (base, lst) \<Rightarrow>
          (case positive lst of
             None \<Rightarrow> (value, None, None)
           | Some number \<Rightarrow>
               (case rsplit_once (CHR '':'') base of
                  None \<Rightarrow> (base, Some number, None)
                | Some (base', row) \<Rightarrow>
                    (case positive row of
                       None \<Rightarrow> (base, Some number, None)
                     | Some row \<Rightarrow> (base', Some row, Some number)))))"

definition split_location :: "string \<Rightarrow> string \<times> nat option \<times> nat option" where
  "split_location value =
     (case strip_suffix (CHR '')'') value of
        None \<Rightarrow> colon_location value
      | Some v \<Rightarrow>
          (case rsplit_once (CHR ''('') v of
             None \<Rightarrow> colon_location value
           | Some (base, loc) \<Rightarrow> paren_location value base loc))"

definition is_separator :: "char \<Rightarrow> bool" where
  "is_separator c = (c = CHR ''/'' \<or> c = CHR 0x5C)"

definition file_name :: "string \<Rightarrow> string" where
  "file_name path = List.rev (takeWhile (\<lambda>c. \<not> is_separator c) (List.rev path))"

definition path_like :: "(nat \<Rightarrow> bool) \<Rightarrow> string \<Rightarrow> nat option \<Rightarrow> bool" where
  "path_like alnum path line =
     (prefix ''/'' path \<or> prefix ''~'' path \<or> list_ex is_separator path
      \<or> (case rsplit_once (CHR ''.'') (file_name path) of
           None \<Rightarrow> False
         | Some (name, extension) \<Rightarrow>
             name \<noteq> [] \<and> extension \<noteq> [] \<and> list_all alnum (str_chars extension))
      \<or> line \<noteq> None)"

definition contains_sub :: "string \<Rightarrow> string \<Rightarrow> bool" where
  "contains_sub needle s = (find_sub needle s \<noteq> None)"

definition is_web_url :: "string \<Rightarrow> bool" where
  "is_web_url v = (prefix ''http://'' v \<or> prefix ''https://'' v \<or> prefix ''file://'' v)"

definition parse_location :: "(nat \<Rightarrow> bool) \<Rightarrow> string \<Rightarrow> link_target option" where
  "parse_location alnum value =
     (if value = [] \<or> list_ex is_control (str_chars value) then None
      else if is_web_url value then Some (Url value)
      else let (path, line, column) = split_location value
           in if \<not> path_like alnum path line \<or> contains_sub ''://'' path \<or> path = []
                 \<or> CHR ''@'' \<in> set path
              then None else Some (File path line column))"

section \<open>The logical line\<close>

definition MAX_WRAP_ROWS :: nat where
  "MAX_WRAP_ROWS = 32"

definition MAX_LOGICAL_CHARS :: nat where
  "MAX_LOGICAL_CHARS = 65536"

record grid_point =
  gp_x :: nat
  gp_y :: nat

record frame_link =
  fl_target :: link_target
  fl_segments :: "frame_selection list"

record logical_line =
  ll_chars :: "nat list"
  ll_positions :: "(nat \<times> nat \<times> nat) list"
  ll_hyperlinks :: "string option list"
  ll_clicked :: nat

definition wraps :: "('u, 'c, 'f) render_frame \<Rightarrow> nat \<Rightarrow> bool" where
  "wraps fr row = (get_nth (f_row_wraps fr) row = Some True)"

fun line_start :: "('u, 'c, 'f) render_frame \<Rightarrow> nat \<Rightarrow> nat \<Rightarrow> nat" where
  "line_start fr y start =
     (if 0 < start \<and> y - start < MAX_WRAP_ROWS \<and> wraps fr (start - 1)
      then line_start fr y (start - 1) else start)"

function line_end :: "('u, 'c, 'f) render_frame \<Rightarrow> nat \<Rightarrow> nat \<Rightarrow> nat" where
  "line_end fr start stop =
     (if Suc stop < f_rows fr \<and> stop - start < MAX_WRAP_ROWS \<and> wraps fr stop
      then line_end fr start (Suc stop) else stop)"
  by auto
termination
  by (relation "measure (\<lambda>(fr, start, stop). f_rows fr - stop)") auto

declare line_start.simps [simp del] line_end.simps [simp del]

definition place_link_cell ::
  "nat \<Rightarrow> nat \<Rightarrow> nat \<Rightarrow> 'u render_cell \<Rightarrow> 'u render_cell option list list \<Rightarrow> 'u render_cell option list list"
where
  "place_link_cell start stop cols c rows =
     (if start \<le> rc_y c \<and> rc_y c \<le> stop \<and> rc_x c < cols \<and> \<not> invisible (rc_style c) \<and> 0 < rc_text_len c
      then rows[rc_y c - start := (rows ! (rc_y c - start))[rc_x c := Some c]] else rows)"

text \<open>One cell pushes its characters, all with the position and the hyperlink of the cell.\<close>

fun push_chars ::
  "nat list \<Rightarrow> nat \<times> nat \<times> nat \<Rightarrow> string option \<Rightarrow> logical_line \<Rightarrow> logical_line option" where
  "push_chars [] pos link line = Some line"
| "push_chars (ch # chars) pos link line =
     (if MAX_LOGICAL_CHARS \<le> length (ll_chars line) then None
      else push_chars chars pos link
             (line\<lparr>ll_chars := ll_chars line @ [ch], ll_positions := ll_positions line @ [pos],
                   ll_hyperlinks := ll_hyperlinks line @ [link]\<rparr>))"

function push_row ::
  "(nat list \<Rightarrow> nat) \<Rightarrow> ('u, 'c, 'f) render_frame \<Rightarrow> grid_point \<Rightarrow> nat \<Rightarrow> 'u render_cell option list \<Rightarrow> nat
   \<Rightarrow> logical_line \<Rightarrow> logical_line option"
where
  "push_row gw fr p y row col line =
     (if col < length row then
        let cell = row ! col;
            chars = (case cell of None \<Rightarrow> [32] | Some c \<Rightarrow> cell_text fr c);
            width = max (gw chars) 1;
            lst = min (col + width - 1) (length row - 1);
            line = (if y = gp_y p \<and> col \<le> gp_x p \<and> gp_x p \<le> lst
                    then line\<lparr>ll_clicked := length (ll_chars line)\<rparr> else line)
        in case push_chars chars (y, col, lst) (Option.bind cell rc_hyperlink) line of
             None \<Rightarrow> None
           | Some line \<Rightarrow> push_row gw fr p y row (col + width) line
      else Some line)"
  by auto
termination
  by (relation "measure (\<lambda>(gw, fr, p, y, row, col, line). length row - col)") auto

declare push_row.simps [simp del]

fun push_rows ::
  "(nat list \<Rightarrow> nat) \<Rightarrow> ('u, 'c, 'f) render_frame \<Rightarrow> grid_point \<Rightarrow> nat \<Rightarrow> 'u render_cell option list list
   \<Rightarrow> logical_line \<Rightarrow> logical_line option"
where
  "push_rows gw fr p y [] line = Some line"
| "push_rows gw fr p y (row # rows) line =
     (case push_row gw fr p y row 0 line of
        None \<Rightarrow> None
      | Some line \<Rightarrow> push_rows gw fr p (Suc y) rows line)"

definition line_at ::
  "(nat list \<Rightarrow> nat) \<Rightarrow> ('u, 'c, 'f) render_frame \<Rightarrow> grid_point \<Rightarrow> logical_line option" where
  "line_at gw fr p =
     (if f_cols fr \<le> gp_x p \<or> f_rows fr \<le> gp_y p then None
      else let start = line_start fr (gp_y p) (gp_y p);
               stop = line_end fr start (gp_y p)
           in if 0 < start \<and> wraps fr (start - 1) \<or> Suc stop < f_rows fr \<and> wraps fr stop then None
              else let rows = fold (place_link_cell start stop (f_cols fr)) (f_cells fr)
                                (replicate (Suc (stop - start)) (replicate (f_cols fr) None))
                   in case push_rows gw fr p start rows
                             \<lparr>ll_chars = [], ll_positions = [], ll_hyperlinks = [],
                              ll_clicked = 2 ^ 64 - 1\<rparr> of
                        None \<Rightarrow> None
                      | Some line \<Rightarrow>
                          if ll_clicked line < length (ll_chars line) then Some line else None)"

section \<open>Ranges of the line\<close>

definition line_slice :: "nat \<times> nat \<Rightarrow> 'a list \<Rightarrow> 'a list option" where
  "line_slice r xs =
     (if fst r \<le> snd r \<and> snd r \<le> length xs then Some (take (snd r - fst r) (drop (fst r) xs)) else None)"

definition extend_segments :: "nat \<times> nat \<times> nat \<Rightarrow> frame_selection list \<Rightarrow> frame_selection list" where
  "extend_segments pos segs =
     (case pos of (row, start_col, end_col) \<Rightarrow>
        (case last_opt segs of
           Some l \<Rightarrow>
             if fs_row l = row \<and> start_col \<le> sat_add 16 (fs_end_col l) 1
             then butlast segs @ [l\<lparr>fs_end_col := max (fs_end_col l) end_col\<rparr>]
             else segs @ [\<lparr>fs_row = row, fs_start_col = start_col, fs_end_col = end_col\<rparr>]
         | None \<Rightarrow> segs @ [\<lparr>fs_row = row, fs_start_col = start_col, fs_end_col = end_col\<rparr>]))"

definition segments :: "logical_line \<Rightarrow> nat \<times> nat \<Rightarrow> frame_selection list" where
  "segments line r =
     fold extend_segments (case line_slice r (ll_positions line) of None \<Rightarrow> [] | Some ps \<Rightarrow> ps) []"

text \<open>The loops that widen or narrow a range while a condition on the next index holds.\<close>

fun walk_left :: "(nat \<Rightarrow> bool) \<Rightarrow> nat \<Rightarrow> nat" where
  "walk_left P start = (if 0 < start \<and> P (start - 1) then walk_left P (start - 1) else start)"

function walk_right :: "(nat \<Rightarrow> bool) \<Rightarrow> nat \<Rightarrow> nat \<Rightarrow> nat" where
  "walk_right P bound stop = (if stop < bound \<and> P stop then walk_right P bound (Suc stop) else stop)"
  by auto
termination
  by (relation "measure (\<lambda>(P, bound, stop). bound - stop)") auto

fun walk_back :: "(nat \<Rightarrow> bool) \<Rightarrow> nat \<Rightarrow> nat \<Rightarrow> nat" where
  "walk_back P bound stop =
     (if bound < stop \<and> P stop then walk_back P bound (stop - 1) else stop)"

declare walk_left.simps [simp del] walk_right.simps [simp del] walk_back.simps [simp del]

definition explicit :: "logical_line \<Rightarrow> (string \<times> nat \<times> nat) option" where
  "explicit line =
     (case ll_hyperlinks line ! ll_clicked line of
        None \<Rightarrow> None
      | Some url \<Rightarrow>
          Some (url, walk_left (\<lambda>i. ll_hyperlinks line ! i = Some url) (ll_clicked line),
                walk_right (\<lambda>i. ll_hyperlinks line ! i = Some url) (length (ll_chars line))
                  (Suc (ll_clicked line))))"

definition unmatched_close :: "nat list \<Rightarrow> nat \<Rightarrow> nat \<Rightarrow> bool" where
  "unmatched_close chars open close =
     (length (filter (\<lambda>c. c = open) chars) < length (filter (\<lambda>c. c = close) chars))"

definition one_of :: "string \<Rightarrow> nat \<Rightarrow> bool" where
  "one_of s c = (c \<in> set (map of_char s))"

definition link_boundary :: "nat \<Rightarrow> bool" where
  "link_boundary c = (is_whitespace c \<or> one_of [CHR 0x22, CHR 0x27, CHR ''<'', CHR ''>'', CHR 0x60] c)"

definition trailing :: "nat list \<Rightarrow> nat \<Rightarrow> nat \<Rightarrow> bool" where
  "trailing chars start stop =
     (let ch = chars ! (stop - 1);
          text = take (stop - start) (drop start chars);
          unbalanced =
            (if ch = of_char (CHR '')'') then unmatched_close text (of_char (CHR ''('')) (of_char (CHR '')''))
             else if ch = of_char (CHR '']'') then unmatched_close text (of_char (CHR ''['')) (of_char (CHR '']''))
             else if ch = of_char (CHR ''}'') then unmatched_close text (of_char (CHR ''{'')) (of_char (CHR ''}''))
             else False)
      in one_of '',;.!?'' ch \<or> unbalanced)"

definition pairs :: "(nat \<times> nat) list" where
  "pairs =
     [(0x28, 0x29), (0x5B, 0x5D), (0x7B, 0x7D), (0x3C, 0x3E), (0xFF08, 0xFF09), (0x300C, 0x300D),
      (0x300E, 0x300F), (0x3010, 0x3011), (0x201C, 0x201D), (0x2018, 0x2019), (0x22, 0x22),
      (0x27, 0x27), (0x60, 0x60)]"

definition better_range :: "(nat \<times> nat) option \<Rightarrow> nat \<times> nat \<Rightarrow> (nat \<times> nat) option" where
  "better_range best r =
     (case best of
        None \<Rightarrow> Some r
      | Some b \<Rightarrow> if snd r - fst r < snd b - fst b then Some r else best)"

fun scan_pair ::
  "nat \<Rightarrow> nat \<Rightarrow> nat \<Rightarrow> nat \<Rightarrow> nat list \<Rightarrow> nat list \<Rightarrow> (nat \<times> nat) option \<Rightarrow> (nat \<times> nat) option" where
  "scan_pair open close clicked index [] stack best = best"
| "scan_pair open close clicked index (ch # chars) stack best =
     (if ch = close \<and> stack \<noteq> [] then
        scan_pair open close clicked (Suc index) chars (tl stack)
          (if hd stack \<le> clicked \<and> clicked \<le> index \<and> Suc (hd stack) < index
           then better_range best (Suc (hd stack), index) else best)
      else scan_pair open close clicked (Suc index) chars (if ch = open then index # stack else stack) best)"

definition pair_range :: "nat list \<Rightarrow> nat \<Rightarrow> (nat \<times> nat) option" where
  "pair_range chars clicked =
     fold (\<lambda>(open, close) best. scan_pair open close clicked 0 chars [] best) pairs None"

text \<open>The text of a range; the ranges of the line are inside it.\<close>

definition range_text :: "nat list \<Rightarrow> nat \<times> nat \<Rightarrow> string" where
  "range_text chars r = chars_str (case line_slice r chars of None \<Rightarrow> [] | Some cs \<Rightarrow> cs)"

definition token_range :: "logical_line \<Rightarrow> nat \<times> nat" where
  "token_range line =
     (let chars = ll_chars line;
          start = walk_left (\<lambda>i. \<not> link_boundary (chars ! i)) (ll_clicked line);
          stop = walk_right (\<lambda>i. \<not> link_boundary (chars ! i)) (length chars) (Suc (ll_clicked line));
          start = walk_right (\<lambda>i. one_of [CHR ''('', CHR ''['', CHR ''{'', CHR 0x22, CHR 0x27] (chars ! i))
                    stop start
      in (start, walk_back (trailing chars start) start stop))"

definition detected :: "(nat \<Rightarrow> bool) \<Rightarrow> logical_line \<Rightarrow> (link_target \<times> nat \<times> nat) option" where
  "detected alnum line =
     (let (start, stop) = token_range line
      in if \<not> (start \<le> ll_clicked line \<and> ll_clicked line < stop) then None
         else let candidate = parse_location alnum (range_text (ll_chars line) (start, stop));
                  plain = map_option (\<lambda>t. (t, start, stop)) candidate
              in case candidate of
                   Some (Url url) \<Rightarrow> Some (Url url, start, stop)
                 | _ \<Rightarrow>
                     (case pair_range (ll_chars line) (ll_clicked line) of
                        None \<Rightarrow> plain
                      | Some r \<Rightarrow>
                          (case parse_location alnum (range_text (ll_chars line) r) of
                             Some target \<Rightarrow> Some (target, r)
                           | None \<Rightarrow> plain)))"

definition link_at ::
  "(nat list \<Rightarrow> nat) \<Rightarrow> (nat \<Rightarrow> bool) \<Rightarrow> ('u, 'c, 'f) render_frame \<Rightarrow> grid_point \<Rightarrow> frame_link option" where
  "link_at gw alnum fr p =
     (case line_at gw fr p of
        None \<Rightarrow> None
      | Some line \<Rightarrow>
          (case (case explicit line of
                   Some (url, r) \<Rightarrow> Some (Url url, r)
                 | None \<Rightarrow> detected alnum line) of
             None \<Rightarrow> None
           | Some (target, r) \<Rightarrow> Some \<lparr>fl_target = target, fl_segments = segments line r\<rparr>))"

definition is_cjk :: "nat \<Rightarrow> bool" where
  "is_cjk c =
     (0x1100 \<le> c \<and> c \<le> 0x11FF \<or> 0x2E80 \<le> c \<and> c \<le> 0x9FFF \<or> 0xAC00 \<le> c \<and> c \<le> 0xD7AF
      \<or> 0xF900 \<le> c \<and> c \<le> 0xFAFF \<or> 0x20000 \<le> c \<and> c \<le> 0x3134F)"

text \<open>The word of the segmentation library that the clicked character is in.\<close>

definition cjk_range :: "(string \<Rightarrow> (nat \<times> string) list) \<Rightarrow> logical_line \<Rightarrow> (nat \<times> nat) option" where
  "cjk_range words line =
     (let text = chars_str (ll_chars line);
          byte = length (chars_str (take (ll_clicked line) (ll_chars line)))
      in case find (\<lambda>(offset, word). offset \<le> byte \<and> byte < offset + length word) (words text) of
           None \<Rightarrow> None
         | Some (offset, word) \<Rightarrow>
             (if length text < offset \<or> \<not> utf8_valid (take offset text) then None
              else let start = length (str_chars (take offset text))
                   in Some (start, start + length (str_chars word))))"

definition word_range ::
  "(string \<Rightarrow> (nat \<times> string) list) \<Rightarrow> logical_line \<Rightarrow> (nat \<times> nat) option" where
  "word_range words line =
     (let chars = ll_chars line;
          start = walk_left (\<lambda>i. \<not> is_whitespace (chars ! i)) (ll_clicked line);
          stop = walk_right (\<lambda>i. \<not> is_whitespace (chars ! i)) (length chars) (Suc (ll_clicked line));
          stop = walk_back (\<lambda>i. one_of '',;.!?:'' (chars ! (i - 1))) start stop
      in case split_once (CHR ''@'') (range_text chars (start, stop)) of
           Some (name, host) \<Rightarrow>
             if name \<noteq> [] \<and> CHR ''.'' \<in> set host then Some (start, stop)
             else if is_cjk (chars ! ll_clicked line) then cjk_range words line else None
         | None \<Rightarrow> if is_cjk (chars ! ll_clicked line) then cjk_range words line else None)"

definition semantic_selection_at ::
  "(nat list \<Rightarrow> nat) \<Rightarrow> (nat \<Rightarrow> bool) \<Rightarrow> (string \<Rightarrow> (nat \<times> string) list)
   \<Rightarrow> ('u, 'c, 'f) render_frame \<Rightarrow> grid_point \<Rightarrow> terminal_selection option" where
  "semantic_selection_at gw alnum words fr p =
     (case line_at gw fr p of
        None \<Rightarrow> None
      | Some line \<Rightarrow>
          (case (case explicit line of
                   Some (url, r) \<Rightarrow> Some r
                 | None \<Rightarrow>
                     (case detected alnum line of
                        Some (target, r) \<Rightarrow> Some r
                      | None \<Rightarrow>
                          (case pair_range (ll_chars line) (ll_clicked line) of
                             Some r \<Rightarrow> Some r
                           | None \<Rightarrow> word_range words line))) of
             None \<Rightarrow> None
           | Some r \<Rightarrow>
               if snd r \<le> fst r then None
               else (case line_slice r (ll_positions line) of
                       None \<Rightarrow> None
                     | Some ps \<Rightarrow>
                         (case (hd ps, List.last ps) of
                            ((y, x, _), (end_y, _, end_x)) \<Rightarrow>
                              Some \<lparr>sel_anchor = \<lparr>sp_x = of_nat x, sp_y = of_nat y\<rparr>,
                                    sel_focus = \<lparr>sp_x = of_nat end_x, sp_y = of_nat end_y\<rparr>\<rparr>))))"

section \<open>Locations survive printing\<close>

lemma parse_digits_append:
  "parse_digits r acc (s @ t) = Option.bind (parse_digits r acc s) (\<lambda>n. parse_digits r n t)"
  by (induction s arbitrary: acc) (auto split: option.splits)

lemma to_digit_decimal: "d < 10 \<Longrightarrow> to_digit 10 (digit_char d) = Some d"
  by (simp add: to_digit_def digit_char_def Let_def)

lemma parse_shown: "parse_digits 10 0 (show_nat n) = Some n"
proof (induction n rule: less_induct)
  case (less n)
  show ?case
  proof (cases "n < 10")
    case True
    then show ?thesis unfolding show_nat_def by (subst digits_base.simps) (simp add: to_digit_decimal)
  next
    case False
    then have "show_nat n = show_nat (n div 10) @ [digit_char (n mod 10)]"
      unfolding show_nat_def by (subst digits_base.simps) simp
    moreover have "parse_digits 10 0 (show_nat (n div 10)) = Some (n div 10)" using less False by simp
    ultimately show ?thesis by (simp add: parse_digits_append to_digit_decimal)
  qed
qed

lemma shown_digits: "show_nat n \<noteq> [] \<and> list_all is_digit (show_nat n)"
proof (induction n rule: less_induct)
  case (less n)
  have digit: "d < 10 \<Longrightarrow> is_digit (digit_char d)" for d
    by (simp add: digit_char_def is_digit_def)
  show ?case
  proof (cases "n < 10")
    case True
    then have "show_nat n = [digit_char n]" unfolding show_nat_def by (subst digits_base.simps) simp
    then show ?thesis using digit True by simp
  next
    case False
    then have "show_nat n = show_nat (n div 10) @ [digit_char (n mod 10)]"
      unfolding show_nat_def by (subst digits_base.simps) simp
    then show ?thesis using less [of "n div 10"] False digit [of "n mod 10"] by simp
  qed
qed

lemma positive_shown: "0 < n \<Longrightarrow> n < 2 ^ 32 \<Longrightarrow> positive (show_nat n) = Some n"
proof -
  assume "0 < n" "n < 2 ^ 32"
  moreover have "strip_prefix ''+'' (show_nat n) = None"
    using shown_digits [of n] by (cases "show_nat n") (auto simp: strip_prefix_def is_digit_def)
  ultimately show ?thesis
    using shown_digits [of n] by (simp add: positive_def parse_uint_def unsigned_digits_def parse_shown)
qed

lemma positive_bounds: "positive v = Some n \<Longrightarrow> 0 < n \<and> n < 2 ^ 32"
  by (auto simp: positive_def parse_uint_def split: option.splits if_splits)

lemma shown_avoids: "\<not> is_digit c \<Longrightarrow> c \<notin> set (show_nat n)"
  using shown_digits [of n] by (auto simp: list_all_iff)

lemma str_chars_append: "utf8_valid s \<Longrightarrow> str_chars (s @ t) = str_chars s @ str_chars t"
proof (induction s rule: utf8_valid.induct)
  case (1 s)
  show ?case
  proof (cases "s = []")
    case False
    then obtain n where n: "utf8_head s = Inr n" "utf8_valid (drop n s)"
      using "1.prems" by (auto simp: utf8_valid.simps [of s] split: sum.splits)
    have "n \<le> length s" using utf8_head_length [OF n(1) False] .
    with "1.IH" [OF False n] utf8_head_append [OF n(1) False] n False show ?thesis
      by (simp add: str_chars.simps [of "s @ t"] str_chars.simps [of s])
  qed (simp add: str_chars.simps [of "[]"])
qed

lemma str_chars_ascii: "list_all (\<lambda>c. of_char c < (128 :: nat)) s \<Longrightarrow> str_chars s = map of_char s"
proof (induction s)
  case (Cons c s)
  then have "utf8_head (c # s) = Inr 1" by (simp add: utf8_head_def byte_at_def)
  with Cons show ?case by (simp add: str_chars.simps [of "c # s"] code_point_def byte_at_def)
qed (simp add: str_chars.simps)

definition number_suffix :: "nat \<Rightarrow> string" where
  "number_suffix n = CHR '':'' # show_nat n"

lemma number_suffix_ascii: "list_all (\<lambda>c. of_char c < (128 :: nat) \<and> \<not> is_control (of_char c) \<and> c \<noteq> CHR ''/'' \<and> c \<noteq> CHR '')'') (number_suffix n)"
  using shown_digits [of n] by (auto simp: number_suffix_def list_all_iff is_digit_def is_control_def)

text \<open>What splitting leaves: the whole text, or a path followed by one of the two forms.\<close>

definition split_shape :: "string \<Rightarrow> string \<times> nat option \<times> nat option \<Rightarrow> bool" where
  "split_shape v r \<longleftrightarrow>
     r = (v, None, None)
     \<or> (\<exists>path c rest n column. r = (path, Some n, column) \<and> v = path @ c # rest \<and> of_char c < (128 :: nat)
          \<and> 0 < n \<and> n < 2 ^ 32 \<and> (\<forall>m. column = Some m \<longrightarrow> 0 < m \<and> m < 2 ^ 32))"

lemma split_shape_whole: "split_shape v (v, None, None)"
  by (simp add: split_shape_def)

lemma split_shape_lines:
  assumes "v = path @ c # rest" "of_char c < (128 :: nat)" "positive a = Some n"
    "\<forall>m. column = Some m \<longrightarrow> positive b = Some m"
  shows "split_shape v (path, Some n, column)"
proof -
  have "0 < n \<and> n < 2 ^ 32" using assms(3) by (rule positive_bounds)
  moreover have "\<forall>m. column = Some m \<longrightarrow> 0 < m \<and> m < 2 ^ 32" using assms(4) positive_bounds by blast
  ultimately show ?thesis unfolding split_shape_def using assms(1,2) by blast
qed

lemma colon_location_shape: "split_shape v (colon_location v)"
proof (cases "rsplit_once (CHR '':'') v")
  case (Some bl)
  obtain base lst where bl: "bl = (base, lst)" by fastforce
  have v: "v = base @ CHR '':'' # lst" using Some by (simp add: bl rsplit_once_Some)
  show ?thesis
  proof (cases "positive lst")
    case None
    then show ?thesis using Some split_shape_whole by (simp add: bl colon_location_def)
  next
    case n: (Some n)
    have base: "split_shape v (base, Some n, None)" by (rule split_shape_lines [OF v _ n]) simp_all
    have "split_shape v (base', Some m, Some n)"
      if "rsplit_once (CHR '':'') base = Some (base', row)" "positive row = Some m" for base' row m
      using that n v by (intro split_shape_lines [of v base' "CHR '':''" "row @ CHR '':'' # lst" row m "Some n" lst])
        (simp_all add: rsplit_once_Some)
    then show ?thesis
      using Some n base by (auto simp: bl colon_location_def split: option.splits)
  qed
qed (simp add: colon_location_def split_shape_whole)

lemma paren_location_shape:
  assumes v: "v = base @ CHR ''('' # rest"
  shows "split_shape v (paren_location v base loc)"
proof (cases "split_once (CHR '','') loc")
  case None
  show ?thesis
  proof (cases "positive loc")
    case (Some n)
    then have "split_shape v (base, Some n, None)" by (intro split_shape_lines [OF v]) simp_all
    then show ?thesis using None Some by (simp add: paren_location_def)
  qed (use None in \<open>simp add: paren_location_def split_shape_whole\<close>)
next
  case (Some rc)
  obtain row col where rc: "rc = (row, col)" by fastforce
  have "split_shape v (base, Some l, Some c)" if "positive row = Some l" "positive col = Some c" for l c
    using that by (intro split_shape_lines [OF v, of row l _ col]) simp_all
  then show ?thesis
    using Some by (auto simp: rc paren_location_def split_shape_whole split: option.splits)
qed

lemma split_location_shape: "split_shape v (split_location v)"
  using colon_location_shape [of v] paren_location_shape [of v]
  by (auto simp: split_location_def strip_suffix_Some rsplit_once_Some split: option.splits)

lemma digits_not_url:
  assumes "\<not> contains_sub ''://'' path" and "CHR ''/'' \<notin> set x"
  shows "\<not> is_web_url (path @ x)"
proof -
  have "\<not> prefix (scheme @ ''://'') (path @ x)" for scheme
  proof
    assume p: "prefix (scheme @ ''://'') (path @ x)"
    then obtain t where t: "path @ x = (scheme @ ''://'') @ t" by (auto elim: prefixE)
    have "length scheme + 3 \<le> length path"
    proof (rule ccontr)
      assume "\<not> length scheme + 3 \<le> length path"
      then have "x ! (length scheme + 2 - length path) = (path @ x) ! (length scheme + 2)"
        and "length scheme + 2 - length path < length x"
        using arg_cong [OF t, of length] by (auto simp: nth_append)
      moreover have "(path @ x) ! (length scheme + 2) = CHR ''/''" by (simp add: t nth_append)
      ultimately show False using assms(2) by (metis nth_mem)
    qed
    then have "prefix (scheme @ ''://'') path"
      by (intro prefix_length_prefix [OF p]) simp_all
    then have "prefix ''://'' (drop (length scheme) path)" by (auto elim!: prefixE)
    then show False
      using assms(1) find_sub_None [of "''://''" path] unfolding contains_sub_def
      by (metis nat_le_linear drop_all prefix_Nil list.distinct(1))
  qed
  from this [of "''http''"] this [of "''https''"] this [of "''file''"] show ?thesis
    by (simp add: is_web_url_def)
qed

lemma colon_two:
  assumes "0 < n" "n < 2 ^ 32" "0 < m" "m < 2 ^ 32"
  shows "split_location (path @ number_suffix n @ number_suffix m) = (path, Some n, Some m)"
proof -
  have "\<not> is_digit (CHR '':'')" by (simp add: is_digit_def)
  then have outer: "rsplit_once (CHR '':'') (path @ number_suffix n @ number_suffix m)
      = Some (path @ number_suffix n, show_nat m)"
    and inner: "rsplit_once (CHR '':'') (path @ number_suffix n) = Some (path, show_nat n)"
    using shown_avoids by (simp_all add: rsplit_once_Some number_suffix_def)
  have "List.last (number_suffix m) \<in> set (number_suffix m)" by (simp add: number_suffix_def)
  then have "strip_suffix (CHR '')'') (path @ number_suffix n @ number_suffix m) = None"
    using number_suffix_ascii [of m] by (auto simp: strip_suffix_def list_all_iff number_suffix_def)
  then show ?thesis
    using assms by (simp add: split_location_def colon_location_def outer inner positive_shown)
qed

lemma colon_one:
  assumes "0 < n" "n < 2 ^ 32" and "\<forall>b row. rsplit_once (CHR '':'') path = Some (b, row) \<longrightarrow> positive row = None"
  shows "split_location (path @ number_suffix n) = (path, Some n, None)"
proof -
  have "\<not> is_digit (CHR '':'')" by (simp add: is_digit_def)
  then have outer: "rsplit_once (CHR '':'') (path @ number_suffix n) = Some (path, show_nat n)"
    using shown_avoids by (simp add: rsplit_once_Some number_suffix_def)
  have "List.last (number_suffix n) \<in> set (number_suffix n)" by (simp add: number_suffix_def)
  then have "strip_suffix (CHR '')'') (path @ number_suffix n) = None"
    using number_suffix_ascii [of n] by (auto simp: strip_suffix_def list_all_iff number_suffix_def)
  then show ?thesis
    using assms by (auto simp: split_location_def colon_location_def outer positive_shown split: option.splits)
qed

lemma parse_location_file:
  assumes "parse_location alnum v = Some (File path line column)"
  shows "v \<noteq> []" "\<not> list_ex is_control (str_chars v)" "split_location v = (path, line, column)"
    "\<not> contains_sub ''://'' path" "path \<noteq> []" "CHR ''@'' \<notin> set path"
  using assms by (auto simp: parse_location_def split: if_splits prod.splits)

lemma parse_suffixed:
  assumes v: "parse_location alnum v = Some (File path (Some n) column)" "utf8_valid v"
    and x: "list_all (\<lambda>c. of_char c < (128 :: nat) \<and> \<not> is_control (of_char c) \<and> c \<noteq> CHR ''/'' \<and> c \<noteq> CHR '')'') x"
    and split: "split_location (path @ x) = (path, Some n, column)"
  shows "parse_location alnum (path @ x) = Some (File path (Some n) column)"
proof -
  note p = parse_location_file [OF v(1)]
  obtain c rest where c: "v = path @ c # rest" "of_char c < (128 :: nat)"
    using split_location_shape [of v] unfolding p(3) split_shape_def by blast
  have path: "utf8_valid path" using utf8_split [of path c rest] v(2) c by simp
  have ascii: "str_chars x = map of_char x" using x by (intro str_chars_ascii) (simp add: list_all_iff)
  have "\<not> list_ex is_control (str_chars path)"
    using p(2) by (simp add: c(1) str_chars_append [OF path])
  then have "\<not> list_ex is_control (str_chars (path @ x))"
    using x by (auto simp: str_chars_append [OF path] ascii list_ex_iff list_all_iff)
  moreover have "\<not> is_web_url (path @ x)"
    using x by (intro digits_not_url [OF p(4)]) (auto simp: list_all_iff)
  ultimately show ?thesis
    using p by (simp add: parse_location_def split path_like_def)
qed

text \<open>
  Opening a link sends its printed location to the host, which parses it again: every location that
  is recognized in the text is parsed back to the same target, unless a line number in parentheses
  follows a path that itself ends in a colon and a number.
\<close>
lemma location_roundtrip:
  assumes "utf8_valid v" and "parse_location alnum v = Some t"
    and "\<forall>path n b row. t = File path (Some n) None \<longrightarrow> rsplit_once (CHR '':'') path = Some (b, row)
      \<longrightarrow> positive row = None"
  shows "parse_location alnum (location t) = Some t"
proof (cases t)
  case (Url url)
  then have "v = url" using assms(2) by (auto simp: parse_location_def split: if_splits prod.splits)
  then show ?thesis using assms(2) Url by (simp add: location_def)
next
  case (File path line column)
  note p = parse_location_file [OF assms(2) [unfolded File]]
  from split_location_shape [of v] consider "path = v" "line = None" "column = None"
    | n where "line = Some n" "0 < n" "n < 2 ^ 32" "\<forall>m. column = Some m \<longrightarrow> 0 < m \<and> m < 2 ^ 32"
    unfolding p(3) split_shape_def by blast
  then show ?thesis
  proof cases
    case 1
    then show ?thesis using assms(2) File by (simp add: location_def)
  next
    case 2
    note n = 2(2,3)
    note v = assms(2) [unfolded File 2(1)]
    show ?thesis
    proof (cases column)
      case None
      have "split_location (path @ number_suffix n) = (path, Some n, column)"
        using assms(3) colon_one [OF n, of path] File 2(1) None by simp
      from parse_suffixed [OF v assms(1) number_suffix_ascii this] show ?thesis
        by (simp add: File 2(1) None location_def number_suffix_def)
    next
      case (Some m)
      have "split_location (path @ number_suffix n @ number_suffix m) = (path, Some n, column)"
        using colon_two [OF n, of m path] 2(4) Some by simp
      from parse_suffixed [OF v assms(1) _ this] number_suffix_ascii [of n] number_suffix_ascii [of m]
      show ?thesis by (simp add: File 2(1) Some location_def number_suffix_def)
    qed
  qed
qed

text \<open>Locations of printable ASCII text.\<close>

lemma parse_location_ascii:
  assumes "list_all (\<lambda>c. 32 \<le> (of_char c :: nat) \<and> of_char c < (127 :: nat)) v" "v \<noteq> []" "\<not> is_web_url v"
    and "split_location v = (path, Some n, column)"
    and "find_sub ''://'' path = None" "path \<noteq> []" "CHR ''@'' \<notin> set path"
  shows "parse_location alnum v = Some (File path (Some n) column)"
proof -
  have "str_chars v = map of_char v" using assms(1) by (intro str_chars_ascii) (auto simp: list_all_iff)
  then have "\<not> list_ex is_control (str_chars v)"
    using assms(1) by (auto simp: list_all_iff list_ex_iff is_control_def)
  then show ?thesis
    using assms(2-) by (simp add: parse_location_def path_like_def contains_sub_def)
qed

lemma positive_digits: "positive ''3'' = Some 3" "positive ''4'' = Some 4" "positive ''7'' = Some 7"
  by (simp_all add: positive_def parse_uint_def unsigned_digits_def strip_prefix_def to_digit_def Let_def)

lemma location_ambiguous:
  "parse_location alnum ''a:7(3)'' = Some (File ''a:7'' (Some 3) None)
   \<and> parse_location alnum (location (File ''a:7'' (Some 3) None)) = Some (File ''a'' (Some 7) (Some 3))"
proof -
  have r: "rsplit_once (CHR ''('') ''a:7(3'' = Some (''a:7'', ''3'')"
      "rsplit_once (CHR '':'') ''a:7:3'' = Some (''a:7'', ''3'')" "rsplit_once (CHR '':'') ''a:7'' = Some (''a'', ''7'')"
    and s: "split_once (CHR '','') ''3'' = None"
    by (simp_all add: rsplit_once_Some split_once_none)
  have "split_location ''a:7(3)'' = (''a:7'', Some 3, None)"
    using r s by (simp add: split_location_def paren_location_def strip_suffix_def positive_digits)
  then have "parse_location alnum ''a:7(3)'' = Some (File ''a:7'' (Some 3) None)"
    by (intro parse_location_ascii) (simp_all add: is_web_url_def)
  moreover have "split_location ''a:7:3'' = (''a'', Some 7, Some 3)"
    using r by (simp add: split_location_def colon_location_def strip_suffix_def positive_digits)
  then have "parse_location alnum ''a:7:3'' = Some (File ''a'' (Some 7) (Some 3))"
    by (intro parse_location_ascii) (simp_all add: is_web_url_def)
  moreover have "show_nat 3 = ''3''" by (simp add: show_nat_def digits_base.simps digit_char_simps)
  ultimately show ?thesis by (simp add: location_def)
qed

section \<open>The line under a click\<close>

lemma walk_left_le: "walk_left P s \<le> s"
  by (induction P s rule: walk_left.induct) (subst walk_left.simps, auto)

lemma walk_left_holds: "walk_left P s \<le> i \<Longrightarrow> i < s \<Longrightarrow> P i"
proof (induction P s rule: walk_left.induct)
  case (1 P s)
  show ?case
  proof (cases "0 < s \<and> P (s - 1)")
    case True
    with 1 show ?thesis by (cases "i = s - 1") (simp_all add: walk_left.simps [of P s])
  qed (use 1 in \<open>auto simp: walk_left.simps [of P s]\<close>)
qed

lemma walk_right_ge: "s \<le> walk_right P b s"
  by (induction P b s rule: walk_right.induct) (subst walk_right.simps, auto)

lemma walk_right_le: "s \<le> b \<Longrightarrow> walk_right P b s \<le> b"
  by (induction P b s rule: walk_right.induct) (subst walk_right.simps, auto)

lemma walk_right_holds: "s \<le> i \<Longrightarrow> i < walk_right P b s \<Longrightarrow> P i"
proof (induction P b s rule: walk_right.induct)
  case (1 P b s)
  show ?case
  proof (cases "s < b \<and> P s")
    case True
    with 1 show ?thesis by (cases "i = s") (auto simp: walk_right.simps [of P b s])
  qed (use 1 in \<open>auto simp: walk_right.simps [of P b s]\<close>)
qed

lemma walk_back_le: "walk_back P b s \<le> s"
  by (induction P b s rule: walk_back.induct) (subst walk_back.simps, auto)

lemma walk_back_ge: "b \<le> s \<Longrightarrow> b \<le> walk_back P b s"
  by (induction P b s rule: walk_back.induct) (subst walk_back.simps, auto)

lemmas walk_bounds = walk_left_le walk_right_ge walk_right_le walk_back_le walk_back_ge

definition in_grid :: "('u, 'c, 'f) render_frame \<Rightarrow> nat \<times> nat \<times> nat \<Rightarrow> bool" where
  "in_grid fr pos \<longleftrightarrow> (case pos of (y, a, b) \<Rightarrow> y < f_rows fr \<and> a \<le> b \<and> b < f_cols fr)"

definition pos_before :: "nat \<times> nat \<times> nat \<Rightarrow> nat \<times> nat \<times> nat \<Rightarrow> bool" where
  "pos_before q r \<longleftrightarrow>
     (case (q, r) of ((y, a, b), (y', a', b')) \<Rightarrow> y < y' \<or> y = y' \<and> (a = a' \<and> b = b' \<or> b < a'))"

definition pos_covers :: "nat \<Rightarrow> nat \<Rightarrow> nat \<times> nat \<times> nat \<Rightarrow> bool" where
  "pos_covers y x pos \<longleftrightarrow> (case pos of (r, a, b) \<Rightarrow> r = y \<and> a \<le> x \<and> x \<le> b)"

text \<open>
  The lists run in parallel and are bounded, the positions are those of the grid in reading order, and
  the clicked character, once it is found, is at the clicked cell.
\<close>

definition line_ok :: "('u, 'c, 'f) render_frame \<Rightarrow> grid_point \<Rightarrow> logical_line \<Rightarrow> bool" where
  "line_ok fr p line \<longleftrightarrow>
     length (ll_positions line) = length (ll_chars line)
     \<and> length (ll_hyperlinks line) = length (ll_chars line)
     \<and> length (ll_chars line) \<le> MAX_LOGICAL_CHARS
     \<and> list_all (in_grid fr) (ll_positions line) \<and> sorted_wrt pos_before (ll_positions line)
     \<and> (ll_clicked line < length (ll_chars line)
         \<and> pos_covers (gp_y p) (gp_x p) (ll_positions line ! ll_clicked line)
        \<or> ll_clicked line = 2 ^ 64 - 1)"

lemma push_chars_Some:
  "push_chars cs pos link line = Some line' \<Longrightarrow> length (ll_chars line) \<le> MAX_LOGICAL_CHARS \<Longrightarrow>
     line' = line\<lparr>ll_chars := ll_chars line @ cs, ll_positions := ll_positions line @ replicate (length cs) pos,
                  ll_hyperlinks := ll_hyperlinks line @ replicate (length cs) link\<rparr>
     \<and> length (ll_chars line') \<le> MAX_LOGICAL_CHARS"
proof (induction cs arbitrary: line)
  case (Cons c cs)
  let ?line = "line\<lparr>ll_chars := ll_chars line @ [c], ll_positions := ll_positions line @ [pos],
                    ll_hyperlinks := ll_hyperlinks line @ [link]\<rparr>"
  have "push_chars cs pos link ?line = Some line'" "length (ll_chars ?line) \<le> MAX_LOGICAL_CHARS"
    using Cons.prems by (auto split: if_splits)
  from Cons.IH [OF this] show ?case by auto
qed simp

lemma sorted_wrt_replicate: "R x x \<Longrightarrow> sorted_wrt R (replicate n x)"
  by (induction n) auto

lemma push_chars_ok:
  assumes "push_chars cs (y, col, lst) link line = Some line'" "line_ok fr p line" "cs \<noteq> []"
    and "in_grid fr (y, col, lst)" "list_all (\<lambda>q. pos_before q (y, col, lst)) (ll_positions line)"
  shows "line_ok fr p line'"
    and "pos_covers (gp_y p) (gp_x p) (y, col, lst) \<Longrightarrow>
      push_chars cs (y, col, lst) link (line\<lparr>ll_clicked := length (ll_chars line)\<rparr>) = Some line'' \<Longrightarrow>
      line_ok fr p line''"
proof -
  have ok: "line_ok fr p line'" if "push_chars cs (y, col, lst) link l = Some line'"
      "line_ok fr p (l\<lparr>ll_clicked := 2 ^ 64 - 1\<rparr>)" "ll_positions l = ll_positions line"
      "line_ok fr p l \<or> ll_clicked l = length (ll_chars l) \<and> pos_covers (gp_y p) (gp_x p) (y, col, lst)" for l line'
    using push_chars_Some [OF that(1)] that(2-) assms(3-)
    by (cases "length cs")
      (auto simp: line_ok_def sorted_wrt_append sorted_wrt_replicate list_all_iff nth_append pos_before_def [of "(y, col, lst)" "(y, col, lst)"])
  have idle: "line_ok fr p (line\<lparr>ll_clicked := 2 ^ 64 - 1\<rparr>)" using assms(2) by (auto simp: line_ok_def)
  show "line_ok fr p line'" using ok [OF assms(1) idle refl] assms(2) by simp
  show "line_ok fr p line''"
    if "pos_covers (gp_y p) (gp_x p) (y, col, lst)"
      "push_chars cs (y, col, lst) link (line\<lparr>ll_clicked := length (ll_chars line)\<rparr>) = Some line''"
    using ok [OF that(2)] idle that(1) by simp
qed

lemma push_chars_clicked:
  "push_chars cs pos link (line\<lparr>ll_clicked := n\<rparr>) = map_option (ll_clicked_update (\<lambda>_. n)) (push_chars cs pos link line)"
proof (induction cs arbitrary: line)
  case (Cons c cs)
  let ?line = "line\<lparr>ll_chars := ll_chars line @ [c], ll_positions := ll_positions line @ [pos],
                    ll_hyperlinks := ll_hyperlinks line @ [link]\<rparr>"
  show ?case using Cons.IH [of ?line] by (cases line) simp
qed simp

definition cells_ok :: "('u, 'c, 'f) render_frame \<Rightarrow> 'u render_cell option list \<Rightarrow> bool" where
  "cells_ok fr row \<longleftrightarrow>
     length row = f_cols fr \<and> (\<forall>c. Some c \<in> set row \<longrightarrow> cell_text fr c \<noteq> [])"

lemma push_row_ok:
  assumes "push_row gw fr p y row col line = Some line'" "line_ok fr p line" "cells_ok fr row" "y < f_rows fr"
    and "list_all (\<lambda>q. fst q < y \<or> fst q = y \<and> snd (snd q) < col) (ll_positions line)"
  shows "line_ok fr p line' \<and> list_all (\<lambda>q. fst q < Suc y) (ll_positions line')"
  using assms
proof (induction gw fr p y row col line rule: push_row.induct)
  case (1 gw fr p y row col line)
  show ?case
  proof (cases "col < length row")
    case False
    then show ?thesis using 1 by (auto simp: push_row.simps [of gw fr p y row col] list_all_iff)
  next
    case True
    define cell chars width lst line1 where "cell = row ! col"
      and "chars = (case cell of None \<Rightarrow> [32] | Some c \<Rightarrow> cell_text fr c)" and "width = max (gw chars) 1"
      and "lst = min (col + width - 1) (length row - 1)"
      and "line1 = (if y = gp_y p \<and> col \<le> gp_x p \<and> gp_x p \<le> lst
                    then line\<lparr>ll_clicked := length (ll_chars line)\<rparr> else line)"
    note d = cell_def chars_def width_def lst_def line1_def
    obtain line2 where l2: "push_chars chars (y, col, lst) (Option.bind cell rc_hyperlink) line1 = Some line2"
      "push_row gw fr p y row (col + width) line2 = Some line'"
      using 1(2) True by (auto simp: push_row.simps [of gw fr p y row col] Let_def d split: option.splits)
    have "Some c \<in> set row" if "cell = Some c" for c using that True by (metis cell_def nth_mem)
    then have ne: "chars \<noteq> []" using 1(4) by (auto simp: chars_def cells_ok_def split: option.splits)
    have grid: "in_grid fr (y, col, lst)" using 1(4,5) True by (auto simp: in_grid_def lst_def cells_ok_def width_def)
    have before: "list_all (\<lambda>q. pos_before q (y, col, lst)) (ll_positions line)"
      using 1(6) by (auto simp: list_all_iff pos_before_def)
    obtain line0 where l0: "push_chars chars (y, col, lst) (Option.bind cell rc_hyperlink) line = Some line0"
      using push_chars_clicked [of chars "(y, col, lst)"] l2(1) by (auto simp: line1_def split: if_splits)
    have ok: "line_ok fr p line2"
      using push_chars_ok [OF l0 1(3) ne grid before] l0 l2(1)
      by (auto simp: line1_def pos_covers_def split: if_splits)
    have "ll_positions line2 = ll_positions line @ replicate (length chars) (y, col, lst)"
      using push_chars_Some [OF l2(1)] 1(3) by (auto simp: line1_def line_ok_def split: if_splits)
    moreover have "lst < col + width" by (auto simp: lst_def width_def)
    ultimately have rest: "list_all (\<lambda>q. fst q < y \<or> fst q = y \<and> snd (snd q) < col + width) (ll_positions line2)"
      using 1(6) by (fastforce simp: list_all_iff)
    show ?thesis
      using 1(1) [OF True cell_def chars_def width_def lst_def line1_def l2(1) l2(2) ok 1(4,5) rest] .
  qed
qed

lemma push_rows_ok:
  "push_rows gw fr p y rows line = Some line' \<Longrightarrow> line_ok fr p line \<Longrightarrow> list_all (cells_ok fr) rows \<Longrightarrow>
     y + length rows \<le> f_rows fr \<Longrightarrow> list_all (\<lambda>q. fst q < y) (ll_positions line) \<Longrightarrow> line_ok fr p line'"
proof (induction rows arbitrary: y line)
  case (Cons row rows)
  obtain line1 where l: "push_row gw fr p y row 0 line = Some line1" "push_rows gw fr p (Suc y) rows line1 = Some line'"
    using Cons.prems(1) by (auto split: option.splits)
  have "line_ok fr p line1 \<and> list_all (\<lambda>q. fst q < Suc y) (ll_positions line1)"
    using Cons.prems by (intro push_row_ok [OF l(1)]) (auto simp: list_all_iff)
  then show ?case using Cons.IH [OF l(2)] Cons.prems by simp
qed simp

lemma line_start_le: "line_start fr y s \<le> s"
  by (induction fr y s rule: line_start.induct) (subst line_start.simps, auto)

lemma line_end_bounds: "s \<le> line_end fr start s \<and> (s < f_rows fr \<longrightarrow> line_end fr start s < f_rows fr)"
proof (induction fr start s rule: line_end.induct)
  case (1 fr start s)
  show ?case
  proof (cases "Suc s < f_rows fr \<and> s - start < MAX_WRAP_ROWS \<and> wraps fr s")
    case True
    then show ?thesis using 1 [OF True] by (simp add: line_end.simps [of fr start s])
  next
    case False
    then have "line_end fr start s = s" by (subst line_end.simps) (simp only: if_False)
    then show ?thesis by simp
  qed
qed

lemma placed_cells:
  assumes "set cs \<subseteq> set (f_cells fr)" "\<forall>c \<in> set (f_cells fr). length (cell_text fr c) = rc_text_len c"
    and "list_all (cells_ok fr) rows"
  shows "list_all (cells_ok fr) (fold (place_link_cell start stop (f_cols fr)) cs rows)
    \<and> length (fold (place_link_cell start stop (f_cols fr)) cs rows) = length rows"
  using assms
proof (induction cs arbitrary: rows)
  case (Cons c cs)
  let ?row = "(rows ! (rc_y c - start))[rc_x c := Some c]"
  have "cells_ok fr ?row" if "rc_y c - start < length rows" "0 < rc_text_len c"
    using that Cons.prems set_update_subset_insert [of "rows ! (rc_y c - start)" "rc_x c" "Some c"]
    by (fastforce simp: cells_ok_def list_all_length)
  moreover have "rows[rc_y c - start := ?row] = rows" if "\<not> rc_y c - start < length rows"
    using that by (intro list_update_beyond) linarith
  ultimately have "list_all (cells_ok fr) (place_link_cell start stop (f_cols fr) c rows)"
    using Cons.prems(3) set_update_subset_insert [of rows "rc_y c - start" ?row]
    by (cases "rc_y c - start < length rows") (auto simp: place_link_cell_def list_all_iff)
  moreover have "length (place_link_cell start stop (f_cols fr) c rows) = length rows"
    by (simp add: place_link_cell_def)
  ultimately show ?case using Cons by simp
qed simp

lemma frame_cell_texts:
  "frame_wf fr \<Longrightarrow> length (f_text fr) < 2 ^ 64 \<Longrightarrow> \<forall>c \<in> set (f_cells fr). length (cell_text fr c) = rc_text_len c"
  using cell_texts [of 0 "f_cells fr" fr] by (simp add: frame_wf_def)

lemma line_at_ok:
  assumes "line_at gw fr p = Some line" "frame_wf fr" "length (f_text fr) < 2 ^ 64"
  shows "line_ok fr p line \<and> ll_clicked line < length (ll_chars line)"
proof -
  define start where "start = line_start fr (gp_y p) (gp_y p)"
  define stop where "stop = line_end fr start (gp_y p)"
  define rows where "rows = fold (place_link_cell start stop (f_cols fr)) (f_cells fr)
                                (replicate (Suc (stop - start)) (replicate (f_cols fr) None))"
  define line0 where "line0 = \<lparr>ll_chars = [], ll_positions = [], ll_hyperlinks = [], ll_clicked = 2 ^ 64 - 1\<rparr>"
  have y: "gp_y p < f_rows fr" and l: "push_rows gw fr p start rows line0 = Some line"
    and c: "ll_clicked line < length (ll_chars line)"
    using assms(1) unfolding line_at_def Let_def start_def [symmetric] stop_def [symmetric] rows_def [symmetric]
      line0_def [symmetric] by (auto split: if_splits option.splits)
  have "list_all (cells_ok fr) rows \<and> length rows = Suc (stop - start)"
    using placed_cells [of "f_cells fr" fr "replicate (Suc (stop - start)) (replicate (f_cols fr) None)" start stop]
      frame_cell_texts [OF assms(2,3)] by (auto simp: rows_def cells_ok_def list_all_iff)
  moreover have "start \<le> gp_y p" "gp_y p \<le> stop" "stop < f_rows fr"
    using line_start_le [of fr "gp_y p" "gp_y p"] line_end_bounds [of "gp_y p" fr start] y
    by (auto simp: start_def stop_def)
  moreover have "line_ok fr p line0" by (simp add: line0_def line_ok_def)
  ultimately have "line_ok fr p line"
    by (intro push_rows_ok [OF l]) (auto simp: line0_def)
  with c show ?thesis by simp
qed

section \<open>Segments\<close>

definition seg_covers :: "nat \<Rightarrow> nat \<Rightarrow> frame_selection \<Rightarrow> bool" where
  "seg_covers y x s \<longleftrightarrow> fs_row s = y \<and> fs_start_col s \<le> x \<and> x \<le> fs_end_col s"

definition seg_in_grid :: "('u, 'c, 'f) render_frame \<Rightarrow> frame_selection \<Rightarrow> bool" where
  "seg_in_grid fr s \<longleftrightarrow> fs_row s < f_rows fr \<and> fs_start_col s \<le> fs_end_col s \<and> fs_end_col s < f_cols fr"

text \<open>The segments of consecutive positions: the last one ends where the last position ends.\<close>

definition segs_ok ::
  "('u, 'c, 'f) render_frame \<Rightarrow> (nat \<times> nat \<times> nat) list \<Rightarrow> frame_selection list \<Rightarrow> bool" where
  "segs_ok fr ps segs \<longleftrightarrow>
     list_all (seg_in_grid fr) segs
     \<and> (\<forall>y x. list_ex (seg_covers y x) segs \<longleftrightarrow> list_ex (pos_covers y x) ps)
     \<and> (ps \<noteq> [] \<longrightarrow> (\<exists>init r s e a. segs = init @ [\<lparr>fs_row = r, fs_start_col = s, fs_end_col = e\<rparr>]
          \<and> List.last ps = (r, a, e) \<and> s \<le> a))
     \<and> (ps = [] \<longrightarrow> segs = [])"

lemma extend_segments_ok:
  assumes ok: "segs_ok fr ps segs" and grid: "list_all (in_grid fr) (ps @ [(r, a, b)])"
    and sorted: "sorted_wrt pos_before (ps @ [(r, a, b)])"
  shows "segs_ok fr (ps @ [(r, a, b)]) (extend_segments (r, a, b) segs)"
proof (cases "ps = []")
  case True
  then have "segs = []" using ok by (simp add: segs_ok_def)
  then show ?thesis
    using True grid
    by (auto simp: segs_ok_def extend_segments_def last_opt_def seg_covers_def pos_covers_def in_grid_def seg_in_grid_def)
next
  case False
  then obtain init r0 s e a0 where segs: "segs = init @ [\<lparr>fs_row = r0, fs_start_col = s, fs_end_col = e\<rparr>]"
    and lst: "List.last ps = (r0, a0, e)" and s: "s \<le> a0"
    using ok by (auto simp: segs_ok_def)
  have mem: "(r0, a0, e) \<in> set ps" using last_in_set [OF False] lst by simp
  then have before: "pos_before (r0, a0, e) (r, a, b)" and g0: "in_grid fr (r0, a0, e)"
    using sorted grid by (auto simp: sorted_wrt_append list_all_iff)
  have covers: "list_ex (seg_covers y x) segs \<longleftrightarrow> list_ex (pos_covers y x) ps" for y x
    using ok by (simp add: segs_ok_def)
  have grids: "list_all (seg_in_grid fr) segs" using ok by (simp add: segs_ok_def)
  have g: "in_grid fr (r, a, b)" using grid by simp
  show ?thesis
  proof (cases "r0 = r \<and> a \<le> sat_add 16 e 1")
    case True
    then have ext: "extend_segments (r, a, b) segs = init @ [\<lparr>fs_row = r, fs_start_col = s, fs_end_col = max e b\<rparr>]"
      by (simp add: extend_segments_def segs last_opt_def)
    have bounds: "a \<le> e + 1" "a0 \<le> e" "a0 \<le> a" "max e b = b" "s \<le> a" "a \<le> b"
      using True before g0 g s by (auto simp: sat_add_def pos_before_def in_grid_def)
    have "list_ex (seg_covers y x) (extend_segments (r, a, b) segs)
        \<longleftrightarrow> list_ex (seg_covers y x) segs \<or> pos_covers y x (r, a, b)" for y x
      using True bounds unfolding ext by (auto simp: segs seg_covers_def pos_covers_def)
    moreover have "list_all (seg_in_grid fr) (extend_segments (r, a, b) segs)"
      using grids g bounds unfolding ext by (auto simp: segs seg_in_grid_def in_grid_def)
    ultimately show ?thesis
      using bounds(4,5) covers by (auto simp: segs_ok_def ext)
  next
    case no: False
    then have ext: "extend_segments (r, a, b) segs = segs @ [\<lparr>fs_row = r, fs_start_col = a, fs_end_col = b\<rparr>]"
      by (auto simp: extend_segments_def segs last_opt_def)
    show ?thesis
      using covers grids g
      by (auto simp: segs_ok_def ext seg_covers_def pos_covers_def seg_in_grid_def in_grid_def)
  qed
qed

lemma segments_of_positions:
  "list_all (in_grid fr) ps \<Longrightarrow> sorted_wrt pos_before ps \<Longrightarrow> segs_ok fr ps (fold extend_segments ps [])"
proof (induction ps rule: rev_induct)
  case Nil
  then show ?case by (simp add: segs_ok_def)
next
  case (snoc pos ps)
  obtain r a b where "pos = (r, a, b)" using prod_cases3 by blast
  then show ?case
    using snoc extend_segments_ok [of fr ps "fold extend_segments ps []" r a b] by (simp add: sorted_wrt_append)
qed

lemma slice_mem:
  assumes "line_slice r xs = Some ys" "fst r \<le> i" "i < snd r"
  shows "i < length xs" "xs ! i \<in> set ys"
proof -
  have r: "snd r \<le> length xs" and ys: "ys = take (snd r - fst r) (drop (fst r) xs)"
    using assms(1) by (auto simp: line_slice_def split: if_splits)
  show "i < length xs" using assms(3) r by simp
  have "ys ! (i - fst r) = xs ! i" and "i - fst r < length ys" using assms(2,3) r by (auto simp: ys)
  then show "xs ! i \<in> set ys" by (metis nth_mem)
qed

lemma segments_ok:
  assumes "line_ok fr p line" "line_slice r (ll_positions line) = Some ps"
  shows "segs_ok fr ps (segments line r)"
proof -
  have ps: "ps = take (snd r - fst r) (drop (fst r) (ll_positions line))"
    using assms(2) by (auto simp: line_slice_def split: if_splits)
  have "list_all (in_grid fr) ps"
    using assms(1) by (auto simp: ps line_ok_def list_all_iff dest!: in_set_takeD in_set_dropD)
  moreover have "sorted_wrt pos_before ps"
    using assms(1) by (simp add: ps line_ok_def sorted_wrt_take sorted_wrt_drop)
  ultimately show ?thesis using segments_of_positions [of fr ps] assms(2) by (simp add: segments_def)
qed

section \<open>What is found under a click\<close>

text \<open>The quotes and brackets that delimit a pair.\<close>

definition delimiter :: "nat \<Rightarrow> bool" where
  "delimiter c \<longleftrightarrow> c \<in> fst ` set pairs \<union> snd ` set pairs"

definition pair_ok :: "nat list \<Rightarrow> nat \<Rightarrow> nat \<times> nat \<Rightarrow> bool" where
  "pair_ok chars clicked r \<longleftrightarrow>
     fst r < snd r \<and> snd r \<le> length chars
     \<and> (fst r \<le> clicked \<and> clicked < snd r \<or> clicked < length chars \<and> delimiter (chars ! clicked))"

lemma better_range_cases: "better_range best r = Some q \<Longrightarrow> q = r \<or> best = Some q"
  by (auto simp: better_range_def split: option.splits if_splits)

lemma scan_pair_ok:
  assumes "scan_pair open close clicked (length seen) chars stack best = Some r" "(open, close) \<in> set pairs"
    and "\<forall>i \<in> set stack. i < length seen \<and> (seen @ chars) ! i = open"
    and "\<forall>q. best = Some q \<longrightarrow> pair_ok (seen @ chars) clicked q"
  shows "pair_ok (seen @ chars) clicked r"
  using assms
proof (induction chars arbitrary: seen stack best)
  case (Cons ch chars)
  have idx: "(seen @ ch # chars) ! length seen = ch" by simp
  show ?case
  proof (cases "ch = close \<and> stack \<noteq> []")
    case True
    let ?best = "if hd stack \<le> clicked \<and> clicked \<le> length seen \<and> Suc (hd stack) < length seen
      then better_range best (Suc (hd stack), length seen) else best"
    have hd: "hd stack < length seen" "(seen @ ch # chars) ! hd stack = open"
      using Cons.prems(3) True by simp_all
    have "delimiter open" "delimiter close" using Cons.prems(2) by (force simp: delimiter_def)+
    then have new: "pair_ok (seen @ ch # chars) clicked (Suc (hd stack), length seen)"
      if "hd stack \<le> clicked \<and> clicked \<le> length seen \<and> Suc (hd stack) < length seen"
      using that hd idx True by (cases "clicked = hd stack"; cases "clicked = length seen") (auto simp: pair_ok_def)
    have "pair_ok ((seen @ [ch]) @ chars) clicked r"
    proof (rule Cons.IH [of "seen @ [ch]" "tl stack" ?best])
      show "\<forall>q. ?best = Some q \<longrightarrow> pair_ok ((seen @ [ch]) @ chars) clicked q"
        using new Cons.prems(4) by (auto dest!: better_range_cases)
    qed (use Cons.prems True in \<open>auto dest!: list.set_sel(2) [rotated] intro: less_SucI\<close>)
    then show ?thesis by simp
  next
    case False
    have "pair_ok ((seen @ [ch]) @ chars) clicked r"
      using Cons.prems False
      by (intro Cons.IH [of "seen @ [ch]" "if ch = open then length seen # stack else stack" best]) (auto simp: less_Suc_eq)
    then show ?thesis by simp
  qed
qed simp

lemma pair_range_ok:
  assumes "pair_range chars clicked = Some r"
  shows "pair_ok chars clicked r"
proof -
  have "pair_ok chars clicked q" if "fold (\<lambda>(open, close) best. scan_pair open close clicked 0 chars [] best) ps best = Some q"
    "set ps \<subseteq> set pairs" "\<forall>q. best = Some q \<longrightarrow> pair_ok chars clicked q" for ps best q
    using that
  proof (induction ps arbitrary: best)
    case (Cons oc ps)
    obtain a b where oc: "oc = (a, b)" by fastforce
    have "pair_ok chars clicked q" if "scan_pair a b clicked 0 chars [] best = Some q" for q
      using scan_pair_ok [of a b clicked "[]" chars "[]" best q] that Cons.prems oc by simp
    then show ?case using Cons oc by simp
  qed simp
  from this [OF assms [unfolded pair_range_def]] show ?thesis by simp
qed

text \<open>A range of the line is not empty, and holds the clicked character or was clicked at a delimiter.\<close>

lemma explicit_ok:
  assumes "line_ok fr p line" "ll_clicked line < length (ll_chars line)" "explicit line = Some (url, r)"
  shows "pair_ok (ll_chars line) (ll_clicked line) r"
    and "\<And>i. fst r \<le> i \<Longrightarrow> i < snd r \<Longrightarrow> ll_hyperlinks line ! i = Some url"
proof -
  let ?P = "\<lambda>i. ll_hyperlinks line ! i = Some url"
  have url: "ll_hyperlinks line ! ll_clicked line = Some url"
    and r: "r = (walk_left ?P (ll_clicked line), walk_right ?P (length (ll_chars line)) (Suc (ll_clicked line)))"
    using assms(3) by (auto simp: explicit_def split: option.splits)
  have "walk_left ?P (ll_clicked line) \<le> ll_clicked line"
    and "Suc (ll_clicked line) \<le> walk_right ?P (length (ll_chars line)) (Suc (ll_clicked line))"
    and "walk_right ?P (length (ll_chars line)) (Suc (ll_clicked line)) \<le> length (ll_chars line)"
    using assms(2) by (auto intro: walk_bounds)
  then show "pair_ok (ll_chars line) (ll_clicked line) r" by (simp add: pair_ok_def r)
  show "ll_hyperlinks line ! i = Some url" if "fst r \<le> i" "i < snd r" for i
    using that url walk_left_holds [of ?P _ i] walk_right_holds [of "Suc (ll_clicked line)" i ?P]
    unfolding r by (cases "i < ll_clicked line"; cases "i = ll_clicked line") (auto simp: not_less_eq_eq Suc_leI)
qed

lemma token_range_le: "ll_clicked line < length (ll_chars line) \<Longrightarrow> snd (token_range line) \<le> length (ll_chars line)"
  unfolding token_range_def Let_def snd_conv
  by (meson walk_back_le walk_right_le order.trans Suc_leI)

lemma detected_ok:
  assumes "ll_clicked line < length (ll_chars line)" "detected alnum line = Some (target, r)"
  shows "pair_ok (ll_chars line) (ll_clicked line) r"
    and "parse_location alnum (range_text (ll_chars line) r) = Some target"
proof -
  obtain start stop where t: "token_range line = (start, stop)" by fastforce
  have stop: "stop \<le> length (ll_chars line)" using token_range_le [OF assms(1)] t by simp
  have c: "start \<le> ll_clicked line \<and> ll_clicked line < stop"
    using assms(2) by (auto simp: detected_def t split: if_splits)
  then have tok: "pair_ok (ll_chars line) (ll_clicked line) (start, stop)" using stop by (simp add: pair_ok_def)
  let ?parse = "\<lambda>r. parse_location alnum (range_text (ll_chars line) r)"
  consider "r = (start, stop)" "?parse r = Some target"
    | "pair_range (ll_chars line) (ll_clicked line) = Some r" "?parse r = Some target"
    using assms(2) c by (fastforce simp: detected_def t Let_def split: option.splits link_target.splits)
  then show "pair_ok (ll_chars line) (ll_clicked line) r" "?parse r = Some target"
    using tok pair_range_ok by (cases; blast)+
qed

lemma line_range_positions:
  assumes "line_ok fr p line" "ll_clicked line < length (ll_chars line)"
    and "pair_ok (ll_chars line) (ll_clicked line) r"
  obtains ps where "line_slice r (ll_positions line) = Some ps" "ps \<noteq> []"
    "list_ex (pos_covers (gp_y p) (gp_x p)) ps \<or> delimiter (ll_chars line ! ll_clicked line)"
proof -
  let ?ps = "take (snd r - fst r) (drop (fst r) (ll_positions line))"
  have len: "length (ll_positions line) = length (ll_chars line)" using assms(1) by (simp add: line_ok_def)
  have s: "line_slice r (ll_positions line) = Some ?ps" using assms(3) len by (simp add: line_slice_def pair_ok_def)
  have "?ps \<noteq> []" using assms(3) len by (auto simp: pair_ok_def)
  moreover have "pos_covers (gp_y p) (gp_x p) (ll_positions line ! ll_clicked line)"
    using assms(1,2) by (auto simp: line_ok_def MAX_LOGICAL_CHARS_def)
  then have "list_ex (pos_covers (gp_y p) (gp_x p)) ?ps"
    if "fst r \<le> ll_clicked line \<and> ll_clicked line < snd r"
    using slice_mem(2) [OF s, of "ll_clicked line"] that by (auto simp: list_ex_iff)
  ultimately show thesis using that [OF s] assms(3) by (auto simp: pair_ok_def)
qed

text \<open>
  A link found under a click is made of segments inside the grid that cover exactly the cells of the
  characters of one stretch of the logical line: a run of characters with one hyperlink, or a
  text that parses to the link's target.  The clicked cell is among them, unless the click was on a
  bracket or quote around the link.
\<close>
lemma link_covers_click:
  assumes "frame_wf fr" "length (f_text fr) < 2 ^ 64" and "link_at gw alnum fr p = Some l"
  shows "list_all (seg_in_grid fr) (fl_segments l) \<and> fl_segments l \<noteq> []
    \<and> (\<exists>line r ps. line_at gw fr p = Some line \<and> line_slice r (ll_positions line) = Some ps
        \<and> (\<forall>y x. list_ex (seg_covers y x) (fl_segments l) \<longleftrightarrow> list_ex (pos_covers y x) ps)
        \<and> ((\<exists>url. fl_target l = Url url \<and> (\<forall>i. fst r \<le> i \<and> i < snd r \<longrightarrow> ll_hyperlinks line ! i = Some url))
            \<or> parse_location alnum (range_text (ll_chars line) r) = Some (fl_target l))
        \<and> (list_ex (seg_covers (gp_y p) (gp_x p)) (fl_segments l)
            \<or> delimiter (ll_chars line ! ll_clicked line)))"
proof -
  obtain line where line: "line_at gw fr p = Some line"
    using assms(3) by (auto simp: link_at_def split: option.splits)
  note ok = line_at_ok [OF line assms(1,2), THEN conjunct1] line_at_ok [OF line assms(1,2), THEN conjunct2]
  obtain target r where tr: "(case explicit line of Some (url, r) \<Rightarrow> Some (Url url, r) | None \<Rightarrow> detected alnum line)
      = Some (target, r)" and l: "l = \<lparr>fl_target = target, fl_segments = segments line r\<rparr>"
    using assms(3) line by (auto simp: link_at_def split: option.splits)
  have "pair_ok (ll_chars line) (ll_clicked line) r
    \<and> ((\<exists>url. target = Url url \<and> (\<forall>i. fst r \<le> i \<and> i < snd r \<longrightarrow> ll_hyperlinks line ! i = Some url))
        \<or> parse_location alnum (range_text (ll_chars line) r) = Some target)"
  proof (cases "explicit line")
    case None
    then show ?thesis using tr detected_ok [OF ok(2), of alnum target r] by simp
  next
    case (Some ur)
    then show ?thesis using tr explicit_ok [OF ok] by (cases ur) auto
  qed
  note r = this [THEN conjunct1] this [THEN conjunct2]
  from line_range_positions [OF ok r(1)] obtain ps where ps: "line_slice r (ll_positions line) = Some ps" "ps \<noteq> []"
    "list_ex (pos_covers (gp_y p) (gp_x p)) ps \<or> delimiter (ll_chars line ! ll_clicked line)" .
  have segs: "segs_ok fr ps (segments line r)" using segments_ok [OF ok(1) ps(1)] .
  then have "list_all (seg_in_grid fr) (fl_segments l)" "fl_segments l \<noteq> []"
    "\<forall>y x. list_ex (seg_covers y x) (fl_segments l) \<longleftrightarrow> list_ex (pos_covers y x) ps"
    using ps(2) by (auto simp: segs_ok_def l)
  note found = this
  then have "list_ex (seg_covers (gp_y p) (gp_x p)) (fl_segments l) \<or> delimiter (ll_chars line ! ll_clicked line)"
    using ps(3) by blast
  with found line ps(1) r(2) show ?thesis
    by (intro conjI exI [of _ line] exI [of _ r] exI [of _ ps]) (simp_all add: l)
qed

text \<open>The frame of one row with the letters of a location.\<close>

definition letter_cell :: "nat \<Rightarrow> unit render_cell" where
  "letter_cell i =
     \<lparr>rc_x = i, rc_y = 0, rc_text_start = i, rc_text_len = 1, rc_fg = None, rc_bg = None,
      rc_style = \<lparr>bold = False, italic = False, faint = False, blink = False, inverse = False,
        invisible = False, strikethrough = False, overline = False, underline = ()\<rparr>,
      rc_hyperlink = None\<rparr>"

definition text_frame :: "nat list \<Rightarrow> (unit, unit, unit) render_frame" where
  "text_frame cs =
     (default_frame 0)\<lparr>f_cols := length cs, f_rows := 1, f_row_wraps := [False], f_text := cs,
       f_cells := map letter_cell [0..<length cs]\<rparr>"

lemma sorted_ends:
  assumes "sorted_wrt pos_before ps" "list_all (in_grid fr) ps" "ps \<noteq> []" "hd ps = (y, x, e)" "List.last ps = (y', x', e')"
  shows "y < y' \<or> y = y' \<and> x \<le> e'"
proof (cases "tl ps = []")
  case True
  then have "ps = [(y, x, e)]" using assms(3,4) by (cases ps) auto
  then show ?thesis using assms(2,5) by (auto simp: in_grid_def)
next
  case False
  then obtain qs where ps: "ps = (y, x, e) # qs" "qs \<noteq> []" using assms(3,4) by (cases ps) auto
  then have "(y', x', e') \<in> set qs" using assms(5) last_in_set [of qs] by simp
  then show ?thesis using assms(1,2) by (fastforce simp: ps list_all_iff pos_before_def in_grid_def)
qed

lemma semantic_selection_in_grid:
  assumes "frame_wf fr" "length (f_text fr) < 2 ^ 64" "f_rows fr < 2 ^ 16" "f_cols fr < 2 ^ 16"
    and "semantic_selection_at gw alnum words fr p = Some sel"
  shows "ordered sel = (sel_anchor sel, sel_focus sel)"
    and "unat (sp_y (sel_focus sel)) < f_rows fr" "unat (sp_x (sel_anchor sel)) < f_cols fr"
      "unat (sp_x (sel_focus sel)) < f_cols fr"
proof -
  obtain line where line: "line_at gw fr p = Some line"
    using assms(5) by (auto simp: semantic_selection_at_def split: option.splits)
  note ok = line_at_ok [OF line assms(1,2), THEN conjunct1]
  obtain r ps where r: "fst r < snd r" "line_slice r (ll_positions line) = Some ps"
    and sel: "(case (hd ps, List.last ps) of ((y, x, _), (end_y, _, end_x)) \<Rightarrow>
                \<lparr>sel_anchor = \<lparr>sp_x = of_nat x, sp_y = of_nat y\<rparr>,
                 sel_focus = \<lparr>sp_x = of_nat end_x, sp_y = of_nat end_y\<rparr>\<rparr>) = sel"
    using assms(5) line unfolding semantic_selection_at_def
    by (auto split: option.splits if_splits prod.splits simp: not_le)
  have ps: "ps = take (snd r - fst r) (drop (fst r) (ll_positions line))" "snd r \<le> length (ll_positions line)"
    using r(2) by (auto simp: line_slice_def split: if_splits)
  then have ne: "ps \<noteq> []" using r(1) by auto
  have grid: "list_all (in_grid fr) ps"
    using ok by (auto simp: ps(1) line_ok_def list_all_iff dest!: in_set_takeD in_set_dropD)
  have sorted: "sorted_wrt pos_before ps"
    using ok by (simp add: ps(1) line_ok_def sorted_wrt_take sorted_wrt_drop)
  obtain y x e y' x' e' where ends: "hd ps = (y, x, e)" "List.last ps = (y', x', e')" by (metis prod_cases3)
  have "in_grid fr (y, x, e)" "in_grid fr (y', x', e')"
    using grid hd_in_set [OF ne] last_in_set [OF ne] ends by (auto simp: list_all_iff)
  then have b: "y < f_rows fr" "x < f_cols fr" "y' < f_rows fr" "e' < f_cols fr" by (auto simp: in_grid_def)
  have unat: "unat (of_nat n :: 16 word) = n" if "n < 2 ^ 16" for n using that by (simp add: unat_of_nat)
  note u = unat [of y] unat [of x] unat [of y'] unat [of e']
  have sel': "sel = \<lparr>sel_anchor = \<lparr>sp_x = of_nat x, sp_y = of_nat y\<rparr>, sel_focus = \<lparr>sp_x = of_nat e', sp_y = of_nat y'\<rparr>\<rparr>"
    using sel ends by simp
  show "ordered sel = (sel_anchor sel, sel_focus sel)"
    using sorted_ends [OF sorted grid ne ends] b assms(3,4) u
    by (auto simp: ordered_def sel' word_less_nat_alt word_le_nat_alt)
  show "unat (sp_y (sel_focus sel)) < f_rows fr" "unat (sp_x (sel_anchor sel)) < f_cols fr"
    "unat (sp_x (sel_focus sel)) < f_cols fr"
    using b assms(3,4) u by (simp_all add: sel')
qed

end
