(* ===== verification/Terminal_Search.thy ===== *)
theory Terminal_Search
  imports Terminal_Links
begin

text \<open>
  Searching the rendered text: the character ranges of a pattern,
  \<^verbatim>\<open>crates/bootty-terminal/src/terminal_search.rs\<close>, and the cells they highlight,
  \<^verbatim>\<open>terminal_engine/logical_search.rs\<close>.  The regular expression library is the parameter \<open>find_at\<close>: the
  first match in a text at or after a byte offset, as its first byte and the byte behind it.
\<close>

section \<open>Ranges of characters\<close>

record search_pattern =
  sp_find_at :: "string \<Rightarrow> nat \<Rightarrow> (nat \<times> nat) option"
  sp_overlap :: bool

text \<open>The byte offset of every character, and the length of the text.\<close>

definition char_offsets :: "nat list \<Rightarrow> nat list" where
  "char_offsets cs = map (\<lambda>i. length (chars_str (take i cs))) [0..<Suc (length cs)]"

text \<open>\<^verbatim>\<open>partition_point\<close> of the offsets below a byte, on a sorted list.\<close>

definition offset_index :: "nat list \<Rightarrow> nat \<Rightarrow> nat" where
  "offset_index offsets byte = length (takeWhile (\<lambda>x. x < byte) offsets)"

partial_function (option) search_loop ::
  "search_pattern \<Rightarrow> string \<Rightarrow> nat list \<Rightarrow> nat \<Rightarrow> (nat \<times> nat) list \<Rightarrow> (nat \<times> nat) list option" where
  "search_loop q text offsets offset out =
     (if offset < length text then
        (case sp_find_at q text offset of
           None \<Rightarrow> Some out
         | Some (s, e) \<Rightarrow>
             (let start = offset_index offsets s;
                  stop = offset_index offsets e;
                  out' = (if start \<noteq> stop then out @ [(start, stop)] else out);
                  next_character = (if sp_overlap q \<or> start = stop then Suc start else stop)
              in if next_character < length offsets
                 then search_loop q text offsets (offsets ! next_character) out'
                 else Some out'))
      else Some out)"

definition search_ranges :: "search_pattern \<Rightarrow> nat list \<Rightarrow> (nat \<times> nat) list option" where
  "search_ranges q logical = search_loop q (chars_str logical) (char_offsets logical) 0 []"

section \<open>Highlighted cells\<close>

fun split_positions :: "nat \<times> nat \<times> nat \<Rightarrow> (nat \<times> nat \<times> nat) list \<Rightarrow> frame_selection list" where
  "split_positions (row, start_col, end_col) [] =
     [\<lparr>fs_row = row, fs_start_col = start_col, fs_end_col = end_col\<rparr>]"
| "split_positions (row, start_col, end_col) ((next_row, next_col, next_end) # ps) =
     (if next_row = row \<and> next_col \<le> sat_add 16 end_col 1 then split_positions (row, start_col, next_end) ps
      else \<lparr>fs_row = row, fs_start_col = start_col, fs_end_col = end_col\<rparr>
           # split_positions (next_row, next_col, next_end) ps)"

definition push_position_range :: "(nat \<times> nat \<times> nat) list \<Rightarrow> frame_selection list" where
  "push_position_range ps = (case ps of [] \<Rightarrow> [] | p # rest \<Rightarrow> split_positions p rest)"

definition push_frame_matches ::
  "search_pattern \<Rightarrow> nat list \<Rightarrow> (nat \<times> nat \<times> nat) list \<Rightarrow> frame_selection list list
   \<Rightarrow> frame_selection list list option" where
  "push_frame_matches q logical positions matches =
     map_option (\<lambda>rs. matches @ map push_position_range (List.map_filter (\<lambda>r. line_slice r positions) rs))
       (search_ranges q logical)"

definition place_search_cell ::
  "('u, 'c, 'f) render_frame \<Rightarrow> 'u render_cell \<Rightarrow> nat list option list list \<Rightarrow> nat list option list list" where
  "place_search_cell fr c rows =
     (if \<not> invisible (rc_style c) \<and> 0 < rc_text_len c \<and> rc_y c < length rows \<and> rc_x c < length (rows ! rc_y c)
      then rows[rc_y c := (rows ! rc_y c)[rc_x c := Some (cell_text fr c)]] else rows)"

text \<open>The columns of an unwrapped row end with its last cell that has text.\<close>

definition row_length :: "bool \<Rightarrow> 'a option list \<Rightarrow> nat" where
  "row_length wrapped row =
     (if wrapped then length row else length (dropWhile (\<lambda>c. c = None) (List.rev row)))"

function search_row ::
  "(nat list \<Rightarrow> nat) \<Rightarrow> nat \<Rightarrow> nat list option list \<Rightarrow> nat \<Rightarrow> nat
   \<Rightarrow> nat list \<times> (nat \<times> nat \<times> nat) list \<Rightarrow> nat list \<times> (nat \<times> nat \<times> nat) list"
where
  "search_row gw y row len col acc =
     (if col < len then
        let chars = (case row ! col of None \<Rightarrow> [32] | Some cs \<Rightarrow> cs);
            width = max (gw chars) 1;
            pos = (y, col, min (col + width - 1) (length row - 1))
        in search_row gw y row len (col + width)
             (fst acc @ chars, snd acc @ replicate (length chars) pos)
      else acc)"
  by auto
termination
  by (relation "measure (\<lambda>(gw, y, row, len, col, acc). len - col)") auto

declare search_row.simps [simp del]

fun search_rows ::
  "search_pattern \<Rightarrow> (nat list \<Rightarrow> nat) \<Rightarrow> (nat \<Rightarrow> bool) \<Rightarrow> nat \<Rightarrow> nat list option list list
   \<Rightarrow> nat list \<times> (nat \<times> nat \<times> nat) list \<Rightarrow> frame_selection list list \<Rightarrow> frame_selection list list option"
where
  "search_rows q gw wrap y [] acc matches = push_frame_matches q (fst acc) (snd acc) matches"
| "search_rows q gw wrap y (row # rows) acc matches =
     (let acc = search_row gw y row (row_length (wrap y) row) 0 acc
      in if wrap y then search_rows q gw wrap (Suc y) rows acc matches
         else (case push_frame_matches q (fst acc) (snd acc) matches of
                 None \<Rightarrow> None
               | Some matches \<Rightarrow> search_rows q gw wrap (Suc y) rows ([], []) matches))"

definition frame_search_matches ::
  "search_pattern \<Rightarrow> (nat list \<Rightarrow> nat) \<Rightarrow> ('u, 'c, 'f) render_frame \<Rightarrow> frame_selection list list option" where
  "frame_search_matches q gw fr =
     search_rows q gw (wraps fr) 0
       (fold (place_search_cell fr) (f_cells fr) (replicate (f_rows fr) (replicate (f_cols fr) None)))
       ([], []) []"

text \<open>In the history of copy mode a match is the first and the last point.\<close>

definition copy_mode_matches :: "search_pattern \<Rightarrow> nat list \<Rightarrow> ('p \<times> 'p) list \<Rightarrow> ('p \<times> 'p) list option" where
  "copy_mode_matches q logical positions =
     map_option (List.map_filter (\<lambda>r.
         case line_slice r positions of
           Some (m # ms) \<Rightarrow> Some (fst m, snd (List.last (m # ms)))
         | _ \<Rightarrow> None))
       (search_ranges q logical)"

section \<open>The search ends\<close>

text \<open>What the library promises of a match: it starts at or after the offset and ends inside the text.\<close>

definition lawful_pattern :: "search_pattern \<Rightarrow> bool" where
  "lawful_pattern q \<longleftrightarrow>
     (\<forall>text offset s e. sp_find_at q text offset = Some (s, e) \<longrightarrow> offset \<le> s \<and> s \<le> e \<and> e \<le> length text)"

lemma length_encode: "0 < length (encode_utf8 c)"
  by (simp add: encode_utf8_def)

lemma length_char_offsets: "length (char_offsets cs) = Suc (length cs)"
  by (simp add: char_offsets_def)

lemma nth_char_offsets: "i \<le> length cs \<Longrightarrow> char_offsets cs ! i = length (chars_str (take i cs))"
  by (simp add: char_offsets_def nth_append del: upt_Suc)

lemma char_offsets_step: "i < length cs \<Longrightarrow> char_offsets cs ! i < char_offsets cs ! Suc i"
  using length_encode [of "cs ! i"] by (simp add: nth_char_offsets take_Suc_conv_app_nth chars_str_def)

lemma char_offsets_mono: "i < j \<Longrightarrow> j \<le> length cs \<Longrightarrow> char_offsets cs ! i < char_offsets cs ! j"
proof (induction j)
  case (Suc j)
  then show ?case using char_offsets_step [of j cs] by (cases "i = j") auto
qed simp

lemma offset_index_le: "b \<le> length (chars_str cs) \<Longrightarrow> offset_index (char_offsets cs) b \<le> length cs"
proof (rule ccontr)
  assume b: "b \<le> length (chars_str cs)" and "\<not> offset_index (char_offsets cs) b \<le> length cs"
  then have "length cs < length (takeWhile (\<lambda>x. x < b) (char_offsets cs))" by (simp add: offset_index_def)
  then have "char_offsets cs ! length cs < b"
    by (metis nth_mem set_takeWhileD takeWhile_nth)
  then show False using b by (simp add: nth_char_offsets)
qed

lemma offset_index_ge:
  assumes "char_offsets cs ! k \<le> b" "k \<le> length cs"
  shows "k \<le> offset_index (char_offsets cs) b"
proof (rule ccontr)
  assume less: "\<not> k \<le> offset_index (char_offsets cs) b"
  let ?i = "offset_index (char_offsets cs) b"
  have "?i < length (char_offsets cs)" using less assms(2) by (simp add: length_char_offsets)
  then have "\<not> char_offsets cs ! ?i < b" unfolding offset_index_def using nth_length_takeWhile by blast
  moreover have "char_offsets cs ! ?i < char_offsets cs ! k" using less assms(2) by (intro char_offsets_mono) auto
  ultimately show False using assms(1) by simp
qed

lemma offset_index_mono: "s \<le> e \<Longrightarrow> offset_index xs s \<le> offset_index xs e"
  unfolding offset_index_def by (induction xs) auto

definition ranges_ok :: "bool \<Rightarrow> nat \<Rightarrow> (nat \<times> nat) list \<Rightarrow> bool" where
  "ranges_ok overlap n rs \<longleftrightarrow>
     list_all (\<lambda>r. fst r < snd r \<and> snd r \<le> n) rs \<and> sorted_wrt (\<lambda>r r'. fst r < fst r') rs
     \<and> (\<not> overlap \<longrightarrow> sorted_wrt (\<lambda>r r'. snd r \<le> fst r') rs)"

definition ranges_before :: "bool \<Rightarrow> nat \<Rightarrow> (nat \<times> nat) list \<Rightarrow> bool" where
  "ranges_before overlap k rs \<longleftrightarrow> list_all (\<lambda>r. fst r < k \<and> (\<not> overlap \<longrightarrow> snd r \<le> k)) rs"

lemma search_loop_ok:
  assumes "lawful_pattern q" "k \<le> length cs"
    and "ranges_ok (sp_overlap q) (length cs) out" "ranges_before (sp_overlap q) k out"
  shows "\<exists>rs. search_loop q (chars_str cs) (char_offsets cs) (char_offsets cs ! k) out = Some rs
    \<and> ranges_ok (sp_overlap q) (length cs) rs"
  using assms(2-)
proof (induction "length cs - k" arbitrary: k out rule: less_induct)
  case less
  note loop = search_loop.simps [of q "chars_str cs" "char_offsets cs" "char_offsets cs ! k" out]
  show ?case
  proof (cases "char_offsets cs ! k < length (chars_str cs)")
    case False
    then have "search_loop q (chars_str cs) (char_offsets cs) (char_offsets cs ! k) out = Some out"
      by (subst search_loop.simps) (simp only: if_False)
    then show ?thesis using less.prems(2) by simp
  next
    case True
    show ?thesis
    proof (cases "sp_find_at q (chars_str cs) (char_offsets cs ! k)")
      case None
      then have "search_loop q (chars_str cs) (char_offsets cs) (char_offsets cs ! k) out = Some out"
        using True by (subst search_loop.simps) simp
      then show ?thesis using less.prems(2) by simp
    next
      case (Some se)
      obtain s e where se: "se = (s, e)" by fastforce
      have law: "char_offsets cs ! k \<le> s" "s \<le> e" "e \<le> length (chars_str cs)"
        using assms(1) Some unfolding lawful_pattern_def se by blast+
      define start stop where "start = offset_index (char_offsets cs) s" and "stop = offset_index (char_offsets cs) e"
      define out' where "out' = (if start \<noteq> stop then out @ [(start, stop)] else out)"
      define nxt where "nxt = (if sp_overlap q \<or> start = stop then Suc start else stop)"
      have bounds: "k \<le> start" "start \<le> stop" "stop \<le> length cs"
        unfolding start_def stop_def using law less.prems(1)
        by (auto intro: offset_index_ge offset_index_mono offset_index_le)
      have ok: "ranges_ok (sp_overlap q) (length cs) out'" "ranges_before (sp_overlap q) nxt out'"
        using less.prems(2,3) bounds
        by (auto simp: out'_def nxt_def ranges_ok_def ranges_before_def list_all_iff sorted_wrt_append)
      have step: "search_loop q (chars_str cs) (char_offsets cs) (char_offsets cs ! k) out =
          (if nxt < length (char_offsets cs)
           then search_loop q (chars_str cs) (char_offsets cs) (char_offsets cs ! nxt) out' else Some out')"
        by (subst search_loop.simps) (simp only: True if_True Some option.case se prod.case Let_def
            start_def [symmetric] stop_def [symmetric] out'_def [symmetric] nxt_def [symmetric])
      show ?thesis
      proof (cases "nxt < length (char_offsets cs)")
        case True
        moreover have "k < nxt" using bounds by (auto simp: nxt_def)
        ultimately show ?thesis
          using less.hyps [OF _ _ ok] by (simp add: step length_char_offsets)
      qed (use ok(1) step in simp)
    qed
  qed
qed

lemma search_ranges_ok:
  assumes "lawful_pattern q"
  obtains rs where "search_ranges q cs = Some rs" "ranges_ok (sp_overlap q) (length cs) rs"
proof -
  have "char_offsets cs ! 0 = 0" by (simp add: nth_char_offsets chars_str_def)
  then show thesis
    using search_loop_ok [OF assms, of 0 cs "[]"] that
    by (auto simp: search_ranges_def ranges_ok_def ranges_before_def)
qed

section \<open>Highlights\<close>

lemma split_positions_extend:
  assumes "sorted_wrt pos_before ((r, a, e) # ps)" "list_all (in_grid fr) ((r, a, e) # ps)"
  shows "fold extend_segments ps (init @ [\<lparr>fs_row = r, fs_start_col = s, fs_end_col = e\<rparr>])
    = init @ split_positions (r, s, e) ps"
  using assms
proof (induction ps arbitrary: r a e s init)
  case (Cons p ps)
  obtain r' a' e' where p: "p = (r', a', e')" using prod_cases3 by blast
  have rest: "sorted_wrt pos_before ((r', a', e') # ps)" "list_all (in_grid fr) ((r', a', e') # ps)"
    using Cons.prems by (simp_all add: p)
  have "max e e' = e'" if "r' = r"
    using Cons.prems that by (auto simp: p pos_before_def in_grid_def)
  then show ?case
    using Cons.IH [OF rest, of init s] Cons.IH [OF rest, of "init @ [\<lparr>fs_row = r, fs_start_col = s, fs_end_col = e\<rparr>]" a']
    by (auto simp: p extend_segments_def last_opt_def)
qed simp

text \<open>The search and the links split positions into the same segments.\<close>

lemma push_position_range_segments:
  assumes "sorted_wrt pos_before ps" "list_all (in_grid fr) ps"
  shows "push_position_range ps = fold extend_segments ps []"
proof (cases ps)
  case (Cons p rest)
  obtain r a e where p: "p = (r, a, e)" using prod_cases3 by blast
  show ?thesis
    using split_positions_extend [of r a e rest fr "[]" a] assms
    by (simp add: push_position_range_def Cons p extend_segments_def last_opt_def)
qed (simp add: push_position_range_def)

definition acc_ok ::
  "('u, 'c, 'f) render_frame \<Rightarrow> nat \<Rightarrow> nat \<Rightarrow> nat list \<times> (nat \<times> nat \<times> nat) list \<Rightarrow> bool" where
  "acc_ok fr y col acc \<longleftrightarrow>
     length (fst acc) = length (snd acc) \<and> list_all (in_grid fr) (snd acc) \<and> sorted_wrt pos_before (snd acc)
     \<and> list_all (\<lambda>q. fst q < y \<or> fst q = y \<and> snd (snd q) < col) (snd acc)"

lemma search_row_ok:
  assumes "acc_ok fr y col acc" "y < f_rows fr" "length row = f_cols fr" "len \<le> length row"
  shows "acc_ok fr (Suc y) 0 (search_row gw y row len col acc)"
  using assms
proof (induction gw y row len col acc rule: search_row.induct)
  case (1 gw y row len col acc)
  show ?case
  proof (cases "col < len")
    case False
    then have "search_row gw y row len col acc = acc" by (subst search_row.simps) (simp only: if_False)
    then show ?thesis using 1(2) by (auto simp: acc_ok_def list_all_iff)
  next
    case True
    define chars width pos where "chars = (case row ! col of None \<Rightarrow> [32] | Some cs \<Rightarrow> cs)"
      and "width = max (gw chars) 1" and "pos = (y, col, min (col + width - 1) (length row - 1))"
    have step: "search_row gw y row len col acc
        = search_row gw y row len (col + width) (fst acc @ chars, snd acc @ replicate (length chars) pos)"
      by (subst search_row.simps) (simp only: True if_True Let_def chars_def [symmetric] width_def [symmetric] pos_def)
    have w: "0 < width" by (simp add: width_def)
    have "in_grid fr pos" using 1(3-5) True w by (auto simp: pos_def in_grid_def)
    moreover have "list_all (\<lambda>q. pos_before q pos) (snd acc)"
      using 1(2) by (auto simp: acc_ok_def list_all_iff pos_def pos_before_def)
    moreover have "pos_before pos pos" by (simp add: pos_def pos_before_def)
    moreover have "list_all (\<lambda>q. fst q < y \<or> fst q = y \<and> snd (snd q) < col + width) (snd acc)"
      using 1(2) by (fastforce simp: acc_ok_def list_all_iff)
    ultimately have "acc_ok fr y (col + width) (fst acc @ chars, snd acc @ replicate (length chars) pos)"
      using 1(2) w by (auto simp: acc_ok_def list_all_iff sorted_wrt_append sorted_wrt_replicate pos_def)
    then show ?thesis
      using 1(1) [OF True chars_def width_def pos_def] 1(3-5) by (simp add: step)
  qed
qed

definition match_in_grid :: "('u, 'c, 'f) render_frame \<Rightarrow> frame_selection list \<Rightarrow> bool" where
  "match_in_grid fr segs \<longleftrightarrow> segs \<noteq> [] \<and> list_all (seg_in_grid fr) segs"

lemma push_frame_matches_ok:
  assumes "lawful_pattern q" "acc_ok fr y col acc" "list_all (match_in_grid fr) matches"
  obtains ms where "push_frame_matches q (fst acc) (snd acc) matches = Some ms" "list_all (match_in_grid fr) ms"
proof -
  obtain rs where rs: "search_ranges q (fst acc) = Some rs" "ranges_ok (sp_overlap q) (length (fst acc)) rs"
    using search_ranges_ok [OF assms(1)] .
  have "match_in_grid fr (push_position_range ps)" if "r \<in> set rs" "line_slice r (snd acc) = Some ps" for r ps
  proof -
    have ps: "ps = take (snd r - fst r) (drop (fst r) (snd acc))"
      using that(2) by (auto simp: line_slice_def split: if_splits)
    have "ps \<noteq> []" using that(1) rs(2) assms(2) by (auto simp: ps ranges_ok_def list_all_iff acc_ok_def)
    moreover have grid: "list_all (in_grid fr) ps"
      using assms(2) by (auto simp: ps acc_ok_def list_all_iff dest!: in_set_takeD in_set_dropD)
    moreover have sorted: "sorted_wrt pos_before ps"
      using assms(2) by (simp add: ps acc_ok_def sorted_wrt_take sorted_wrt_drop)
    ultimately show ?thesis
      using segments_of_positions [OF grid sorted] push_position_range_segments [OF sorted grid]
      by (auto simp: match_in_grid_def segs_ok_def)
  qed
  then have "list_all (match_in_grid fr) (map push_position_range (List.map_filter (\<lambda>r. line_slice r (snd acc)) rs))"
    by (auto simp: list_all_iff List.map_filter_def)
  then show thesis using that assms(3) rs(1) by (simp add: push_frame_matches_def)
qed

lemma search_rows_ok:
  "lawful_pattern q \<Longrightarrow> acc_ok fr y 0 acc \<Longrightarrow> y + length rows \<le> f_rows fr \<Longrightarrow>
     list_all (\<lambda>row. length row = f_cols fr) rows \<Longrightarrow> list_all (match_in_grid fr) matches \<Longrightarrow>
     \<exists>ms. search_rows q gw wrap y rows acc matches = Some ms \<and> list_all (match_in_grid fr) ms"
proof (induction rows arbitrary: y acc matches)
  case Nil
  then show ?case using push_frame_matches_ok [OF Nil(1,2,5)] by auto
next
  case (Cons row rows)
  let ?acc = "search_row gw y row (row_length (wrap y) row) 0 acc"
  have "row_length (wrap y) row \<le> length row"
    using length_dropWhile_le [of "\<lambda>c. c = None" "List.rev row"] by (simp add: row_length_def)
  then have acc: "acc_ok fr (Suc y) 0 ?acc"
    using Cons.prems by (intro search_row_ok) simp_all
  show ?case
  proof (cases "wrap y")
    case True
    then show ?thesis using Cons.IH [OF Cons.prems(1) acc _ _ Cons.prems(5)] Cons.prems by simp
  next
    case False
    obtain ms where ms: "push_frame_matches q (fst ?acc) (snd ?acc) matches = Some ms" "list_all (match_in_grid fr) ms"
      using push_frame_matches_ok [OF Cons.prems(1) acc Cons.prems(5)] .
    have "acc_ok fr (Suc y) 0 ([], [])" by (simp add: acc_ok_def)
    then show ?thesis using Cons.IH [of "Suc y" "([], [])" ms] Cons.prems ms False by simp
  qed
qed

lemma placed_search_rows:
  "list_all (\<lambda>row. length row = n) rows \<Longrightarrow>
     list_all (\<lambda>row. length row = n) (fold (place_search_cell fr) cs rows)
     \<and> length (fold (place_search_cell fr) cs rows) = length rows"
proof (induction cs arbitrary: rows)
  case (Cons c cs)
  have "list_all (\<lambda>row. length row = n) (place_search_cell fr c rows)"
    using Cons.prems by (auto simp: place_search_cell_def list_all_length nth_list_update)
  moreover have "length (place_search_cell fr c rows) = length rows" by (simp add: place_search_cell_def)
  ultimately show ?case using Cons.IH [of "place_search_cell fr c rows"] by simp
qed simp

section \<open>Properties\<close>

text \<open>
  For every pattern of a regular expression library that keeps its promise, the loop over the matches
  ends; it returns non-empty ranges of the searched characters with increasing starts, and ranges
  that do not overlap unless the pattern is a literal.
\<close>
lemma search_ends:
  assumes "lawful_pattern q"
  shows "\<exists>rs. search_ranges q cs = Some rs \<and> list_all (\<lambda>r. fst r < snd r \<and> snd r \<le> length cs) rs
    \<and> sorted_wrt (\<lambda>r r'. fst r < fst r') rs \<and> (sp_overlap q \<or> sorted_wrt (\<lambda>r r'. snd r \<le> fst r') rs)"
proof -
  obtain rs where "search_ranges q cs = Some rs" "ranges_ok (sp_overlap q) (length cs) rs"
    using search_ranges_ok [OF assms] .
  then show ?thesis unfolding ranges_ok_def by blast
qed

text \<open>A literal text as a pattern.\<close>

definition literal_pattern :: "string \<Rightarrow> search_pattern" where
  "literal_pattern needle =
     \<lparr>sp_find_at = (\<lambda>text offset.
        if offset \<le> length text
        then map_option (\<lambda>i. (offset + i, offset + i + length needle)) (find_sub needle (drop offset text))
        else None),
      sp_overlap = True\<rparr>"

lemma literal_pattern_lawful: "lawful_pattern (literal_pattern needle)"
  by (auto simp: lawful_pattern_def literal_pattern_def dest!: find_sub_le split: if_splits)

text \<open>
  Searching a frame ends for every lawful pattern, and each match is highlighted by at least one
  segment, all of them inside the grid of the frame.
\<close>
lemma search_highlights_in_grid:
  assumes "lawful_pattern q"
  shows "\<exists>ms. frame_search_matches q gw fr = Some ms \<and> list_all (match_in_grid fr) ms"
proof -
  have rows: "list_all (\<lambda>row. length row = f_cols fr) (replicate (f_rows fr) (replicate (f_cols fr) (None :: nat list option)))"
    by (simp add: list_all_iff)
  have "acc_ok fr 0 0 ([], [])" by (simp add: acc_ok_def)
  from search_rows_ok [OF assms this, of _ "[]" gw "wraps fr"] show ?thesis
    using placed_search_rows [OF rows, of fr "f_cells fr"] by (simp add: frame_search_matches_def)
qed

end
