(* ===== verification/Keymap_Triggers.thy ===== *)
theory Keymap_Triggers
  imports Rust_Text
begin

text \<open>
  The triggers of key bindings as text, \<^verbatim>\<open>crates/bootty-config/src/keymap.rs\<close>: modifiers with sides,
  physical keys, the parser and the canonical spelling.  A \<^verbatim>\<open>char\<close> is a
  code point.  The single error of the trigger parser is \<^const>\<open>None\<close>.
\<close>

section \<open>Modifiers\<close>

datatype modifier_side = SideLeft | SideRight

record keymap_modifiers =
  km_shift :: bool
  km_ctrl :: bool
  km_alt :: bool
  km_command :: bool
  km_shift_side :: "modifier_side option"
  km_ctrl_side :: "modifier_side option"
  km_alt_side :: "modifier_side option"
  km_command_side :: "modifier_side option"

definition default_modifiers :: keymap_modifiers where
  "default_modifiers =
     \<lparr>km_shift = False, km_ctrl = False, km_alt = False, km_command = False,
      km_shift_side = None, km_ctrl_side = None, km_alt_side = None, km_command_side = None\<rparr>"

definition without_side_constraints :: "keymap_modifiers \<Rightarrow> keymap_modifiers" where
  "without_side_constraints m =
     m\<lparr>km_shift_side := None, km_ctrl_side := None, km_alt_side := None, km_command_side := None\<rparr>"

definition push_unique :: "'a list \<Rightarrow> 'a \<Rightarrow> 'a list" where
  "push_unique xs x = (if x \<in> set xs then xs else xs @ [x])"

definition push_without_side ::
  "(keymap_modifiers \<Rightarrow> keymap_modifiers) \<Rightarrow> keymap_modifiers list \<Rightarrow> keymap_modifiers list" where
  "push_without_side clear candidates = foldl push_unique candidates (map clear candidates)"

definition input_candidates :: "keymap_modifiers \<Rightarrow> keymap_modifiers list" where
  "input_candidates m =
     (let cs = [m];
          cs = (if km_shift_side m \<noteq> None then push_without_side (km_shift_side_update (\<lambda>_. None)) cs else cs);
          cs = (if km_ctrl_side m \<noteq> None then push_without_side (km_ctrl_side_update (\<lambda>_. None)) cs else cs);
          cs = (if km_alt_side m \<noteq> None then push_without_side (km_alt_side_update (\<lambda>_. None)) cs else cs)
      in if km_command_side m \<noteq> None then push_without_side (km_command_side_update (\<lambda>_. None)) cs else cs)"

section \<open>Physical keys\<close>

text \<open>
  A physical key is the name of its variant.  The table of the source lists for each key its canonical
  spelling, its alias and the variant: letters, digits, named keys and function keys, in this order.
\<close>

type_synonym physical_key = string

definition letters :: string where
  "letters = ''ABCDEFGHIJKLMNOPQRSTUVWXYZ''"

definition digits :: string where
  "digits = ''0123456789''"

definition function_numbers :: "string list" where
  "function_numbers = [''1'', ''2'', ''3'', ''4'', ''5'', ''6'', ''7'', ''8'', ''9'', ''10'', ''11'', ''12'']"

definition named_keys :: "(string \<times> string) list" where
  "named_keys =
     [(''Backquote'', ''backquote''), (''Backslash'', ''backslash''), (''BracketLeft'', ''bracket_left''),
      (''BracketRight'', ''bracket_right''), (''Comma'', ''comma''), (''Equal'', ''equal''),
      (''Minus'', ''minus''), (''Period'', ''period''), (''Quote'', ''quote''),
      (''Semicolon'', ''semicolon''), (''Slash'', ''slash''), (''ArrowUp'', ''arrow_up''),
      (''ArrowDown'', ''arrow_down''), (''ArrowRight'', ''arrow_right''), (''ArrowLeft'', ''arrow_left''),
      (''Delete'', ''delete''), (''Home'', ''home''), (''End'', ''end''),
      (''PageUp'', ''page_up''), (''PageDown'', ''page_down''), (''Space'', ''space''),
      (''Insert'', ''insert''), (''Enter'', ''enter''), (''Tab'', ''tab''),
      (''Backspace'', ''backspace''), (''Escape'', ''escape'')]"

text \<open>ASCII case, used by the spellings and by \<^verbatim>\<open>str::eq_ignore_ascii_case\<close>.\<close>

definition ascii_lower :: "char \<Rightarrow> char" where
  "ascii_lower c = (if 65 \<le> (of_char c :: nat) \<and> (of_char c :: nat) \<le> 90 then char_of (of_char c + 32 :: nat) else c)"

definition eq_ignore_ascii_case :: "string \<Rightarrow> string \<Rightarrow> bool" where
  "eq_ignore_ascii_case a b = (map ascii_lower a = map ascii_lower b)"

definition key_spellings :: "(string \<times> string \<times> physical_key) list" where
  "key_spellings =
     map (\<lambda>c. (''Key'' @ [c], ''key_'' @ [ascii_lower c], [c])) letters
     @ map (\<lambda>d. (''Digit'' @ [d], ''digit_'' @ [d], ''Digit'' @ [d])) digits
     @ map (\<lambda>r. (fst r, snd r, fst r)) named_keys
     @ map (\<lambda>n. (''F'' @ n, ''f'' @ n, ''F'' @ n)) function_numbers"

definition physical_keys :: "physical_key list" where
  "physical_keys = map (snd \<circ> snd) key_spellings"

text \<open>The second table of the source, from variants to canonical names.\<close>

definition key_names :: "(physical_key \<times> string) list" where
  "key_names =
     map (\<lambda>c. ([c], ''Key'' @ [c])) letters
     @ map (\<lambda>d. (''Digit'' @ [d], ''Digit'' @ [d])) digits
     @ map (\<lambda>r. (fst r, fst r)) named_keys
     @ map (\<lambda>n. (''F'' @ n, ''F'' @ n)) function_numbers"

text \<open>\<^const>\<open>None\<close> is the error for an unknown name with the prefix of letters or digits.\<close>

definition parse_physical :: "string \<Rightarrow> physical_key option option" where
  "parse_physical input =
     (case find (\<lambda>(canonical, alias, key). input = canonical \<or> input = alias) key_spellings of
        Some (canonical, alias, key) \<Rightarrow> Some (Some key)
      | None \<Rightarrow> if prefix ''Key'' input \<or> prefix ''Digit'' input then None else Some None)"

definition canonical_name :: "physical_key \<Rightarrow> string" where
  "canonical_name key = (case map_of key_names key of Some name \<Rightarrow> name | None \<Rightarrow> [])"

section \<open>Triggers\<close>

datatype trigger_key = Unicode nat | Physical physical_key | ScrollUp | ScrollDown | CatchAll

record keymap_trigger =
  kt_modifiers :: keymap_modifiers
  kt_key :: trigger_key

definition modifier_name :: "string \<Rightarrow> modifier_side option \<Rightarrow> string" where
  "modifier_name base side =
     (case side of
        None \<Rightarrow> base
      | Some SideLeft \<Rightarrow> if base \<in> {''cmd'', ''ctrl'', ''alt'', ''shift''} then ''left_'' @ base else base
      | Some SideRight \<Rightarrow> if base \<in> {''cmd'', ''ctrl'', ''alt'', ''shift''} then ''right_'' @ base else base)"

definition push_modifier :: "string \<Rightarrow> string \<Rightarrow> string" where
  "push_modifier output m = (if output = [] then output else output @ ''+'') @ m"

definition format_trigger :: "keymap_trigger \<Rightarrow> string" where
  "format_trigger t =
     (let m = kt_modifiers t;
          out = [];
          out = (if km_command m then push_modifier out (modifier_name ''cmd'' (km_command_side m)) else out);
          out = (if km_ctrl m then push_modifier out (modifier_name ''ctrl'' (km_ctrl_side m)) else out);
          out = (if km_alt m then push_modifier out (modifier_name ''alt'' (km_alt_side m)) else out);
          out = (if km_shift m then push_modifier out (modifier_name ''shift'' (km_shift_side m)) else out);
          out = (if out = [] then out else out @ ''+'')
      in out @ (case kt_key t of
                  Unicode ch \<Rightarrow> encode_utf8 ch
                | Physical key \<Rightarrow> canonical_name key
                | ScrollUp \<Rightarrow> ''scroll_up''
                | ScrollDown \<Rightarrow> ''scroll_down''
                | CatchAll \<Rightarrow> ''catch_all''))"

text \<open>The parts between plus signs; a plus sign at the start of a part belongs to it.\<close>

fun split_parts :: "string \<Rightarrow> string \<Rightarrow> string list" where
  "split_parts cur [] = [cur]"
| "split_parts cur (c # cs) =
     (if c = CHR ''+'' \<and> cur \<noteq> [] then cur # split_parts [] cs else split_parts (cur @ [c]) cs)"

definition split_trigger_parts :: "string \<Rightarrow> string list option" where
  "split_trigger_parts input =
     (let parts = split_parts [] input in if [] \<in> set parts then None else Some parts)"

text \<open>The names of the modifiers, as the field that they set and its side.\<close>

datatype modifier_field = Shift | Ctrl | Alt | Command

definition modifier_part :: "string \<Rightarrow> (modifier_field \<times> modifier_side option) option" where
  "modifier_part part =
     (if part = ''shift'' then Some (Shift, None)
      else if part \<in> {''ctrl'', ''control''} then Some (Ctrl, None)
      else if part \<in> {''alt'', ''opt'', ''option''} then Some (Alt, None)
      else if part \<in> {''cmd'', ''command'', ''super''} then Some (Command, None)
      else if part = ''left_shift'' then Some (Shift, Some SideLeft)
      else if part = ''right_shift'' then Some (Shift, Some SideRight)
      else if part \<in> {''left_ctrl'', ''left_control''} then Some (Ctrl, Some SideLeft)
      else if part \<in> {''right_ctrl'', ''right_control''} then Some (Ctrl, Some SideRight)
      else if part \<in> {''left_alt'', ''left_opt'', ''left_option''} then Some (Alt, Some SideLeft)
      else if part \<in> {''right_alt'', ''right_opt'', ''right_option''} then Some (Alt, Some SideRight)
      else if part \<in> {''left_cmd'', ''left_command'', ''left_super''} then Some (Command, Some SideLeft)
      else if part \<in> {''right_cmd'', ''right_command'', ''right_super''} then Some (Command, Some SideRight)
      else None)"

primrec modifier_on :: "modifier_field \<Rightarrow> keymap_modifiers \<Rightarrow> bool" where
  "modifier_on Shift m = km_shift m"
| "modifier_on Ctrl m = km_ctrl m"
| "modifier_on Alt m = km_alt m"
| "modifier_on Command m = km_command m"

primrec modifier_side_of :: "modifier_field \<Rightarrow> keymap_modifiers \<Rightarrow> modifier_side option" where
  "modifier_side_of Shift m = km_shift_side m"
| "modifier_side_of Ctrl m = km_ctrl_side m"
| "modifier_side_of Alt m = km_alt_side m"
| "modifier_side_of Command m = km_command_side m"

primrec set_on :: "modifier_field \<Rightarrow> keymap_modifiers \<Rightarrow> keymap_modifiers" where
  "set_on Shift m = m\<lparr>km_shift := True\<rparr>"
| "set_on Ctrl m = m\<lparr>km_ctrl := True\<rparr>"
| "set_on Alt m = m\<lparr>km_alt := True\<rparr>"
| "set_on Command m = m\<lparr>km_command := True\<rparr>"

primrec set_side :: "modifier_field \<Rightarrow> modifier_side \<Rightarrow> keymap_modifiers \<Rightarrow> keymap_modifiers" where
  "set_side Shift s m = m\<lparr>km_shift_side := Some s\<rparr>"
| "set_side Ctrl s m = m\<lparr>km_ctrl_side := Some s\<rparr>"
| "set_side Alt s m = m\<lparr>km_alt_side := Some s\<rparr>"
| "set_side Command s m = m\<lparr>km_command_side := Some s\<rparr>"

definition set_modifier :: "modifier_field \<Rightarrow> keymap_modifiers \<Rightarrow> keymap_modifiers option" where
  "set_modifier f m = (if modifier_on f m then None else Some (set_on f m))"

definition set_sided_modifier :: "modifier_field \<Rightarrow> modifier_side \<Rightarrow> keymap_modifiers \<Rightarrow> keymap_modifiers option" where
  "set_sided_modifier f s m =
     (case set_modifier f m of
        None \<Rightarrow> None
      | Some m \<Rightarrow> if modifier_side_of f m \<noteq> None then None else Some (set_side f s m))"

definition parse_key :: "string \<Rightarrow> trigger_key option" where
  "parse_key part =
     (case (if part = ''physical:zero'' then Some (Some ''Digit0'') else parse_physical part) of
        None \<Rightarrow> None
      | Some (Some key) \<Rightarrow> Some (Physical key)
      | Some None \<Rightarrow>
          if eq_ignore_ascii_case part ''scroll_up'' then Some ScrollUp
          else if eq_ignore_ascii_case part ''scroll_down'' then Some ScrollDown
          else if eq_ignore_ascii_case part ''catch_all'' then Some CatchAll
          else if eq_ignore_ascii_case part ''space'' then Some (Unicode 32)
          else (case str_chars part of [ch] \<Rightarrow> Some (Unicode ch) | _ \<Rightarrow> None))"

fun parse_parts :: "string list \<Rightarrow> keymap_modifiers \<Rightarrow> trigger_key option \<Rightarrow> keymap_trigger option" where
  "parse_parts [] m key = map_option (\<lambda>k. \<lparr>kt_modifiers = m, kt_key = k\<rparr>) key"
| "parse_parts (part # parts) m key =
     (case modifier_part part of
        Some (f, None) \<Rightarrow> Option.bind (set_modifier f m) (\<lambda>m. parse_parts parts m key)
      | Some (f, Some s) \<Rightarrow> Option.bind (set_sided_modifier f s m) (\<lambda>m. parse_parts parts m key)
      | None \<Rightarrow>
          (case parse_key part of
             None \<Rightarrow> None
           | Some k \<Rightarrow> if key \<noteq> None then None else parse_parts parts m (Some k)))"

definition parse_trigger :: "string \<Rightarrow> keymap_trigger option" where
  "parse_trigger input =
     (if input = [] then None
      else Option.bind (split_trigger_parts input) (\<lambda>parts. parse_parts parts default_modifiers None))"

section \<open>Printing and parsing a trigger\<close>

text \<open>The constraint on a side comes with the modifier, and the key is one of the keyboard or a character.\<close>

definition modifiers_ok :: "keymap_modifiers \<Rightarrow> bool" where
  "modifiers_ok m \<longleftrightarrow>
     (km_shift_side m \<noteq> None \<longrightarrow> km_shift m) \<and> (km_ctrl_side m \<noteq> None \<longrightarrow> km_ctrl m)
     \<and> (km_alt_side m \<noteq> None \<longrightarrow> km_alt m) \<and> (km_command_side m \<noteq> None \<longrightarrow> km_command m)"

definition key_ok :: "trigger_key \<Rightarrow> bool" where
  "key_ok k \<longleftrightarrow>
     (case k of Unicode ch \<Rightarrow> is_scalar ch | Physical key \<Rightarrow> key \<in> set physical_keys | _ \<Rightarrow> True)"

definition trigger_ok :: "keymap_trigger \<Rightarrow> bool" where
  "trigger_ok t \<longleftrightarrow> modifiers_ok (kt_modifiers t) \<and> key_ok (kt_key t)"

definition key_text :: "trigger_key \<Rightarrow> string" where
  "key_text k =
     (case k of
        Unicode ch \<Rightarrow> encode_utf8 ch
      | Physical key \<Rightarrow> canonical_name key
      | ScrollUp \<Rightarrow> ''scroll_up''
      | ScrollDown \<Rightarrow> ''scroll_down''
      | CatchAll \<Rightarrow> ''catch_all'')"

definition modifier_texts :: "keymap_modifiers \<Rightarrow> string list" where
  "modifier_texts m =
     (if km_command m then [modifier_name ''cmd'' (km_command_side m)] else [])
     @ (if km_ctrl m then [modifier_name ''ctrl'' (km_ctrl_side m)] else [])
     @ (if km_alt m then [modifier_name ''alt'' (km_alt_side m)] else [])
     @ (if km_shift m then [modifier_name ''shift'' (km_shift_side m)] else [])"

text \<open>Names are written with small letters and underscores.\<close>

definition plain_name :: "string \<Rightarrow> bool" where
  "plain_name x \<longleftrightarrow> x \<noteq> [] \<and> list_all (\<lambda>c. c = CHR ''_'' \<or> 97 \<le> (of_char c :: nat) \<and> (of_char c :: nat) \<le> 122) x"

lemma plain_names: "plain_name ''cmd''" "plain_name ''ctrl''" "plain_name ''alt''" "plain_name ''shift''"
  "plain_name ''left_cmd''" "plain_name ''left_ctrl''" "plain_name ''left_alt''" "plain_name ''left_shift''"
  "plain_name ''right_cmd''" "plain_name ''right_ctrl''" "plain_name ''right_alt''" "plain_name ''right_shift''"
  by (simp_all add: plain_name_def)

lemma modifier_name_plain: "plain_name b \<Longrightarrow> plain_name (modifier_name b side)"
  by (cases side) (simp_all add: modifier_name_def plain_names split: modifier_side.split)

lemma modifier_texts_plain: "list_all plain_name (modifier_texts m)"
  by (simp add: modifier_texts_def modifier_name_plain plain_names)

lemma plain_name_chars: "plain_name x \<Longrightarrow> c \<in> set x \<Longrightarrow> 95 \<le> (of_char c :: nat)"
  by (fastforce simp: plain_name_def list_all_iff)

lemma plain_name_avoids: "plain_name x \<Longrightarrow> (of_char c :: nat) < 95 \<Longrightarrow> c \<notin> set x"
  using plain_name_chars [of x c] by auto

lemma join_with_snoc: "xs \<noteq> [] \<Longrightarrow> join_with c (xs @ [x]) = join_with c xs @ c # x"
proof (induction xs)
  case (Cons y ys)
  then show ?case by (cases ys) auto
qed simp

lemma join_empty: "list_all plain_name xs \<Longrightarrow> join_with c xs = [] \<longleftrightarrow> xs = []"
proof (cases xs)
  case (Cons y ys)
  then show "list_all plain_name xs \<Longrightarrow> ?thesis" by (cases ys) (auto simp: plain_name_def)
qed simp

lemma push_modifier_join:
  "list_all plain_name xs \<Longrightarrow> push_modifier (join_with (CHR ''+'') xs) m = join_with (CHR ''+'') (xs @ [m])"
proof (cases xs)
  case (Cons y ys)
  assume "list_all plain_name xs"
  then have "join_with (CHR ''+'') xs \<noteq> []" using Cons by (simp add: join_empty)
  then show ?thesis using Cons join_with_snoc [of xs "CHR ''+''" m] by (simp add: push_modifier_def)
qed (simp add: push_modifier_def)

lemma join_plus: "xs \<noteq> [] \<Longrightarrow> join_with c xs @ [c] = concat (map (\<lambda>x. x @ [c]) xs)"
proof (induction xs)
  case (Cons y ys)
  then show ?case by (cases ys) auto
qed simp

lemma format_trigger_join:
  "format_trigger t = concat (map (\<lambda>x. x @ ''+'') (modifier_texts (kt_modifiers t))) @ key_text (kt_key t)"
proof -
  let ?m = "kt_modifiers t"
  define step where "step b on side xs = (if on then xs @ [modifier_name b side] else xs)" for b on side xs
  define join where "join = join_with (CHR ''+'')"
  have push: "(if on then push_modifier (join xs) (modifier_name b side) else join xs) = join (step b on side xs)"
    if "list_all plain_name xs" for b on side xs
    using push_modifier_join [OF that] by (simp add: step_def join_def)
  have plain: "list_all plain_name (step b on side xs)" if "list_all plain_name xs" "plain_name b" for b on side xs
    using that by (simp add: step_def modifier_name_plain)
  define o1 where "o1 = step ''cmd'' (km_command ?m) (km_command_side ?m) []"
  define o2 where "o2 = step ''ctrl'' (km_ctrl ?m) (km_ctrl_side ?m) o1"
  define o3 where "o3 = step ''alt'' (km_alt ?m) (km_alt_side ?m) o2"
  define out where "out = step ''shift'' (km_shift ?m) (km_shift_side ?m) o3"
  have p: "list_all plain_name o1" "list_all plain_name o2" "list_all plain_name o3"
    by (simp_all add: o1_def o2_def o3_def plain plain_names)
  have s1: "(if km_command ?m then push_modifier [] (modifier_name ''cmd'' (km_command_side ?m)) else []) = join o1"
    by (simp add: o1_def step_def join_def push_modifier_def)
  have s2: "(if km_ctrl ?m then push_modifier (join o1) (modifier_name ''ctrl'' (km_ctrl_side ?m)) else join o1) = join o2"
    unfolding o2_def by (rule push [OF p(1)])
  have s3: "(if km_alt ?m then push_modifier (join o2) (modifier_name ''alt'' (km_alt_side ?m)) else join o2) = join o3"
    unfolding o3_def by (rule push [OF p(2)])
  have s4: "(if km_shift ?m then push_modifier (join o3) (modifier_name ''shift'' (km_shift_side ?m)) else join o3) = join out"
    unfolding out_def by (rule push [OF p(3)])
  have out: "out = modifier_texts ?m" by (simp add: out_def o3_def o2_def o1_def step_def modifier_texts_def)
  have "format_trigger t = (if join out = [] then join out else join out @ ''+'') @ key_text (kt_key t)"
    unfolding format_trigger_def Let_def key_text_def s1 s2 s3 s4 by (rule refl)
  moreover have "join out = [] \<longleftrightarrow> out = []"
    unfolding out join_def by (rule join_empty [OF modifier_texts_plain])
  ultimately show ?thesis using join_plus [of out "CHR ''+''"] by (auto simp: out join_def)
qed

lemma split_parts_plain:
  "CHR ''+'' \<notin> set p \<Longrightarrow> cur @ p \<noteq> [] \<Longrightarrow> split_parts cur (p @ CHR ''+'' # s) = (cur @ p) # split_parts [] s"
  by (induction p arbitrary: cur) auto

lemma split_parts_last: "CHR ''+'' \<notin> set p \<Longrightarrow> split_parts cur p = [cur @ p]"
  by (induction p arbitrary: cur) auto

lemma split_parts_join:
  assumes "list_all (\<lambda>x. x \<noteq> [] \<and> CHR ''+'' \<notin> set x) xs"
  shows "split_parts [] (concat (map (\<lambda>x. x @ ''+'') xs) @ s) = xs @ split_parts [] s"
  using assms by (induction xs) (simp_all add: split_parts_plain [where cur = "[]", simplified])

text \<open>The table of physical keys is a bijection between variants and canonical spellings.\<close>

lemma find_app: "find P (xs @ ys) = (case find P xs of None \<Rightarrow> find P ys | Some x \<Rightarrow> Some x)"
  by (induction xs) auto

lemma find_self: "x \<in> set xs \<Longrightarrow> (\<And>y. y \<in> set xs \<Longrightarrow> P y \<longleftrightarrow> y = x) \<Longrightarrow> find P xs = Some x"
  by (induction xs) auto

lemma find_none: "(\<And>y. y \<in> set xs \<Longrightarrow> \<not> P y) \<Longrightarrow> find P xs = None"
  by (auto simp: find_None_iff)

definition upper_start :: "string \<Rightarrow> bool" where
  "upper_start s \<longleftrightarrow> s \<noteq> [] \<and> 65 \<le> (of_char (hd s) :: nat) \<and> (of_char (hd s) :: nat) \<le> 90"

definition word_text :: "string \<Rightarrow> bool" where
  "word_text s \<longleftrightarrow> list_all (\<lambda>c. 48 \<le> (of_char c :: nat) \<and> c \<notin> set '':>'') s"

lemma named_keys_ok:
  "list_all (\<lambda>(n, a). upper_start n \<and> a \<noteq> [] \<and> 97 \<le> (of_char (hd a) :: nat) \<and> hd n \<noteq> CHR ''F''
      \<and> \<not> prefix ''Key'' n \<and> \<not> prefix ''Digit'' n \<and> word_text n \<and> length n \<noteq> 1) named_keys"
  by (simp add: named_keys_def upper_start_def word_text_def)

lemma named_keys_distinct: "distinct (map fst named_keys)"
  by (simp add: named_keys_def)

lemma key_chars: "list_all (\<lambda>c. word_text [c]) letters" "list_all (\<lambda>c. word_text [c]) digits"
  "list_all word_text function_numbers" "distinct function_numbers"
  by (simp_all add: letters_def digits_def function_numbers_def word_text_def)

definition modifier_words :: "string list" where
  "modifier_words =
     [''shift'', ''ctrl'', ''control'', ''alt'', ''opt'', ''option'', ''cmd'', ''command'', ''super'',
      ''left_shift'', ''right_shift'', ''left_ctrl'', ''left_control'', ''right_ctrl'', ''right_control'',
      ''left_alt'', ''left_opt'', ''left_option'', ''right_alt'', ''right_opt'', ''right_option'',
      ''left_cmd'', ''left_command'', ''left_super'', ''right_cmd'', ''right_command'', ''right_super'',
      ''physical:zero'']"

lemma not_modifier_word: "s \<notin> set modifier_words \<Longrightarrow> modifier_part s = None \<and> s \<noteq> ''physical:zero''"
  by (simp add: modifier_words_def modifier_part_def)

lemma modifier_words_shape:
  "list_all (\<lambda>x. 97 \<le> (of_char (hd x) :: nat) \<and> (of_char (hd x) :: nat) < 128 \<and> 2 \<le> length x) modifier_words"
  by (simp add: modifier_words_def)

lemma upper_not_modifier: "upper_start s \<Longrightarrow> modifier_part s = None \<and> s \<noteq> ''physical:zero''"
  using modifier_words_shape by (intro not_modifier_word) (auto simp: upper_start_def list_all_iff)

lemma spelling_letter: "c \<in> set letters \<Longrightarrow> parse_physical (''Key'' @ [c]) = Some (Some [c])"
proof -
  assume c: "c \<in> set letters"
  have "find (\<lambda>x. ''Key'' @ [c] = ''Key'' @ [x] \<or> ''Key'' @ [c] = ''key_'' @ [ascii_lower x]) letters = Some c"
    by (rule find_self [OF c]) auto
  then show ?thesis by (simp add: parse_physical_def key_spellings_def find_app find_map)
qed

lemma spelling_digit: "d \<in> set digits \<Longrightarrow> parse_physical (''Digit'' @ [d]) = Some (Some (''Digit'' @ [d]))"
proof -
  assume d: "d \<in> set digits"
  have "find (\<lambda>x. ''Digit'' @ [d] = ''Digit'' @ [x] \<or> ''Digit'' @ [d] = ''digit_'' @ [x]) digits = Some d"
    by (rule find_self [OF d]) auto
  moreover have "find (\<lambda>x. ''Digit'' @ [d] = ''Key'' @ [x] \<or> ''Digit'' @ [d] = ''key_'' @ [ascii_lower x]) letters = None"
    by (rule find_none) simp
  ultimately show ?thesis by (simp add: parse_physical_def key_spellings_def find_app find_map)
qed

lemma no_letter_or_digit:
  assumes "upper_start n" "\<not> prefix ''Key'' n" "\<not> prefix ''Digit'' n"
  shows "find (\<lambda>x. n = ''Key'' @ [x] \<or> n = ''key_'' @ [ascii_lower x]) letters = None"
    and "find (\<lambda>x. n = ''Digit'' @ [x] \<or> n = ''digit_'' @ [x]) digits = None"
proof -
  have "n \<noteq> ''Key'' @ [x]" "n \<noteq> ''Digit'' @ [x]" for x using assms(2,3) by auto
  moreover have "n \<noteq> ''key_'' @ [x]" "n \<noteq> ''digit_'' @ [x]" for x using assms(1) by (auto simp: upper_start_def)
  ultimately show "find (\<lambda>x. n = ''Key'' @ [x] \<or> n = ''key_'' @ [ascii_lower x]) letters = None"
    and "find (\<lambda>x. n = ''Digit'' @ [x] \<or> n = ''digit_'' @ [x]) digits = None"
    by (auto intro!: find_none)
qed

lemma spelling_named: "(n, a) \<in> set named_keys \<Longrightarrow> parse_physical n = Some (Some n)"
proof -
  assume na: "(n, a) \<in> set named_keys"
  have ok: "upper_start n" "\<not> prefix ''Key'' n" "\<not> prefix ''Digit'' n"
    using named_keys_ok na by (auto simp: list_all_iff)
  have "n = fst y \<or> n = snd y \<longleftrightarrow> y = (n, a)" if "y \<in> set named_keys" for y
  proof -
    obtain n' a' where y: "y = (n', a')" by fastforce
    have "97 \<le> (of_char (hd a') :: nat)" using named_keys_ok that y by (auto simp: list_all_iff)
    then have "n \<noteq> a'" using ok(1) by (auto simp: upper_start_def)
    moreover have "a' = a" if "n = n'"
      using eq_key_imp_eq_value [OF named_keys_distinct na] \<open>y \<in> set named_keys\<close> y that by simp
    ultimately show ?thesis by (auto simp: y)
  qed
  then have "find (\<lambda>y. n = fst y \<or> n = snd y) named_keys = Some (n, a)" by (intro find_self [OF na])
  then show ?thesis
    using no_letter_or_digit [OF ok]
    by (simp add: parse_physical_def key_spellings_def find_app find_map)
qed

lemma spelling_function: "n \<in> set function_numbers \<Longrightarrow> parse_physical (''F'' @ n) = Some (Some (''F'' @ n))"
proof -
  assume n: "n \<in> set function_numbers"
  have "find (\<lambda>x. ''F'' @ n = ''F'' @ x \<or> ''F'' @ n = ''f'' @ x) function_numbers = Some n"
    by (rule find_self [OF n]) auto
  moreover have "find (\<lambda>y. ''F'' @ n = fst y \<or> ''F'' @ n = snd y) named_keys = None"
  proof (rule find_none)
    fix y
    assume "y \<in> set named_keys"
    then have "hd (fst y) \<noteq> CHR ''F''" "97 \<le> (of_char (hd (snd y)) :: nat)"
      using named_keys_ok by (auto simp: list_all_iff)
    then show "\<not> (''F'' @ n = fst y \<or> ''F'' @ n = snd y)"
      by (auto dest!: sym [of _ "fst y"] sym [of _ "snd y"])
  qed
  ultimately show ?thesis
    using no_letter_or_digit [of "''F'' @ n"]
    by (simp add: parse_physical_def key_spellings_def find_app find_map upper_start_def)
qed

lemma map_of_self: "map_of (map (\<lambda>x. (f x, g x)) xs) k = map_option g (find (\<lambda>x. k = f x) xs)"
  by (induction xs) auto

lemma canonical_letter: "c \<in> set letters \<Longrightarrow> canonical_name [c] = ''Key'' @ [c]"
proof -
  assume c: "c \<in> set letters"
  have "find (\<lambda>x. [c] = [x]) letters = Some c" by (rule find_self [OF c]) auto
  then have "map_of (map (\<lambda>c. ([c], ''Key'' @ [c])) letters) [c] = Some (''Key'' @ [c])"
    unfolding map_of_self by simp
  then show ?thesis
    unfolding canonical_name_def key_names_def map_of_append map_add_def by simp
qed

lemma map_of_identity: "map_of (map (\<lambda>x. (f x, f x)) xs) k = (if k \<in> f ` set xs then Some k else None)"
  by (induction xs) auto

lemma canonical_other:
  assumes "k \<in> (\<lambda>d. ''Digit'' @ [d]) ` set digits \<union> fst ` set named_keys \<union> (\<lambda>n. ''F'' @ n) ` set function_numbers"
    and "length k \<noteq> 1"
  shows "canonical_name k = k"
proof -
  have "map_of (map (\<lambda>c. ([c], ''Key'' @ [c])) letters) k = None"
    unfolding map_of_self using assms(2) by (auto intro!: find_none)
  then show ?thesis
    using assms(1) unfolding canonical_name_def key_names_def map_of_append map_add_def map_of_identity
    by (auto split: if_splits)
qed

lemma physical_key_cases:
  assumes "key \<in> set physical_keys"
  obtains (letter) c where "c \<in> set letters" "key = [c]"
    | (digit) d where "d \<in> set digits" "key = ''Digit'' @ [d]"
    | (named) a where "(key, a) \<in> set named_keys"
    | (func) n where "n \<in> set function_numbers" "key = ''F'' @ n"
  using assms by (force simp: physical_keys_def key_spellings_def)

lemma physical_key_ok:
  assumes "key \<in> set physical_keys"
  shows "parse_physical (canonical_name key) = Some (Some key) \<and> upper_start (canonical_name key)
    \<and> word_text (canonical_name key)"
  using assms
proof (cases rule: physical_key_cases)
  case (letter c)
  then have "word_text [c]" using key_chars(1) by (simp add: list_all_iff)
  then show ?thesis
    using letter spelling_letter [of c] by (simp add: canonical_letter upper_start_def word_text_def)
next
  case (digit d)
  then have "word_text [d]" using key_chars(2) by (simp add: list_all_iff)
  moreover have "canonical_name key = key" using digit by (intro canonical_other) auto
  ultimately show ?thesis
    using digit spelling_digit [of d] by (simp add: upper_start_def word_text_def)
next
  case (named a)
  then have "upper_start key" "word_text key" "length key \<noteq> 1"
    using named_keys_ok by (auto simp: list_all_iff)
  moreover have "canonical_name key = key"
    using named \<open>length key \<noteq> 1\<close> by (intro canonical_other) force+
  ultimately show ?thesis using spelling_named [OF named] by simp
next
  case (func n)
  then have n: "word_text n" "n \<noteq> []" using key_chars(3) by (auto simp: list_all_iff function_numbers_def)
  then have "canonical_name key = key" using func by (intro canonical_other) auto
  then show ?thesis
    using func n spelling_function [of n] by (simp add: upper_start_def word_text_def)
qed

text \<open>The text of a key is read back as this key.\<close>

lemma spelling_shapes:
  "r \<in> set key_spellings \<Longrightarrow> 2 \<le> length (fst r) \<and> 2 \<le> length (fst (snd r))
     \<and> list_all (\<lambda>c. (of_char c :: nat) < 128) (fst r) \<and> list_all (\<lambda>c. (of_char c :: nat) < 128) (fst (snd r))"
proof -
  have "list_all (\<lambda>c. (of_char c :: nat) < 128 \<and> (of_char (ascii_lower c) :: nat) < 128) letters"
    "list_all (\<lambda>c. (of_char c :: nat) < 128) digits"
    by (simp_all add: letters_def digits_def ascii_lower_def)
  moreover have "list_all (\<lambda>n. n \<noteq> [] \<and> list_all (\<lambda>c. (of_char c :: nat) < 128) n) function_numbers"
    by (simp add: function_numbers_def)
  moreover have "list_all (\<lambda>r. 2 \<le> length (fst r) \<and> 2 \<le> length (snd r) \<and> list_all (\<lambda>c. (of_char c :: nat) < 128) (fst r)
      \<and> list_all (\<lambda>c. (of_char c :: nat) < 128) (snd r)) named_keys"
    by (simp add: named_keys_def)
  ultimately show "r \<in> set key_spellings \<Longrightarrow> ?thesis"
    by (auto simp: key_spellings_def list_all_iff Suc_le_eq)
qed

definition single_text :: "string \<Rightarrow> bool" where
  "single_text s \<longleftrightarrow> s \<noteq> [] \<and> (length s = 1 \<or> 128 \<le> (of_char (hd s) :: nat))"

lemma encode_single: "is_scalar ch \<Longrightarrow> single_text (encode_utf8 ch)"
proof -
  assume ch: "is_scalar ch"
  have ne: "encode_utf8 ch \<noteq> []" by (rule encode_utf8_head(3) [OF ch])
  have "length (encode_utf8 ch) = 1" if "\<not> 128 \<le> (of_char (hd (encode_utf8 ch)) :: nat)"
    using encode_utf8_ascii [OF hd_in_set [OF ne] _ ch] that by (metis length_Cons list.size(3) not_le One_nat_def)
  then show ?thesis using ne by (auto simp: single_text_def)
qed

lemma single_not_modifier: "single_text s \<Longrightarrow> modifier_part s = None \<and> s \<noteq> ''physical:zero''"
  using modifier_words_shape by (intro not_modifier_word) (auto simp: single_text_def list_all_iff)

lemma single_not_physical: "single_text s \<Longrightarrow> parse_physical s = Some None"
proof -
  assume s: "single_text s"
  have "find (\<lambda>(canonical, alias, key). s = canonical \<or> s = alias) key_spellings = None"
  proof (rule find_none)
    fix r
    assume r: "r \<in> set key_spellings"
    have "x \<noteq> s" if "2 \<le> length x" "list_all (\<lambda>c. (of_char c :: nat) < 128) x" for x
      using that s by (cases x) (auto simp: single_text_def)
    then show "\<not> (case r of (canonical, alias, key) \<Rightarrow> s = canonical \<or> s = alias)"
      using spelling_shapes [OF r] by (cases r) auto
  qed
  moreover have "\<not> prefix (''Key'') s" "\<not> prefix ''Digit'' s" using s by (auto simp: single_text_def prefix_def)
  ultimately show ?thesis by (simp add: parse_physical_def)
qed

lemma single_not_word:
  assumes "single_text s" "2 \<le> length w" "(of_char (ascii_lower (hd w)) :: nat) < 128"
  shows "\<not> eq_ignore_ascii_case s w"
proof
  assume "eq_ignore_ascii_case s w"
  then have eq: "map ascii_lower s = map ascii_lower w" by (simp add: eq_ignore_ascii_case_def)
  then have len: "length s = length w" by (metis length_map)
  then have "w \<noteq> []" "s \<noteq> []" using assms(2) by auto
  then have "ascii_lower (hd s) = ascii_lower (hd w)" using eq by (metis hd_map)
  moreover have "128 \<le> (of_char (hd s) :: nat)" using assms(1,2) len by (auto simp: single_text_def)
  then have "ascii_lower (hd s) = hd s" by (simp add: ascii_lower_def)
  ultimately show False using assms(3) \<open>128 \<le> _\<close> by simp
qed

lemma parse_physical_words:
  "parse_physical ''scroll_up'' = Some None" "parse_physical ''scroll_down'' = Some None" "parse_physical ''catch_all'' = Some None"
  by code_simp+

lemma parse_key_text: "key_ok k \<Longrightarrow> parse_key (key_text k) = Some k"
proof (cases k)
  case (Unicode ch)
  assume "key_ok k"
  then have ch: "is_scalar ch" by (simp add: Unicode key_ok_def)
  note s = encode_single [OF ch]
  have "str_chars (encode_utf8 ch) = [ch]" using str_chars_encode [OF ch, of "[]"] by (simp add: str_chars.simps [of "[]"])
  moreover have "\<not> eq_ignore_ascii_case (encode_utf8 ch) w" if "w \<in> {''scroll_up'', ''scroll_down'', ''catch_all'', ''space''}" for w
    using that by (intro single_not_word [OF s]) (auto simp: ascii_lower_def)
  ultimately show ?thesis
    using single_not_physical [OF s] single_not_modifier [OF s] by (simp add: Unicode key_text_def parse_key_def)
next
  case (Physical key)
  assume "key_ok k"
  then have "key \<in> set physical_keys" by (simp add: Physical key_ok_def)
  then show ?thesis
    using physical_key_ok upper_not_modifier by (simp add: Physical key_text_def parse_key_def)
qed (simp_all add: key_text_def parse_key_def parse_physical_words eq_ignore_ascii_case_def ascii_lower_def)

lemma key_text_shape:
  assumes "key_ok k"
  shows "modifier_part (key_text k) = None" "key_text k \<noteq> []"
    and "c \<in> set (key_text k) \<Longrightarrow> c \<in> set '' +:>'' \<Longrightarrow> key_text k = [c]"
proof -
  have "modifier_part (key_text k) = None \<and> key_text k \<noteq> []
    \<and> (c \<in> set (key_text k) \<longrightarrow> c \<in> set '' +:>'' \<longrightarrow> key_text k = [c])"
  proof (cases k)
    case (Unicode ch)
    have ch: "is_scalar ch" using assms by (simp add: Unicode key_ok_def)
    have "encode_utf8 ch = [c]" if "c \<in> set (encode_utf8 ch)" "c \<in> set '' +:>''"
      using encode_utf8_ascii [OF that(1) _ ch] that(2) by auto
    then show ?thesis
      using single_not_modifier [OF encode_single [OF ch]] encode_utf8_head(3) [OF ch] by (simp add: Unicode key_text_def)
  next
    case (Physical key)
    then have "key \<in> set physical_keys" using assms by (simp add: key_ok_def)
    note ok = physical_key_ok [OF this]
    have "c \<notin> set '' +:>''" if "c \<in> set (canonical_name key)"
    proof -
      have "48 \<le> (of_char c :: nat) \<and> c \<notin> set '':>''" using ok that unfolding word_text_def list_all_iff by blast
      then show ?thesis by auto
    qed
    then show ?thesis using ok upper_not_modifier by (auto simp: Physical key_text_def upper_start_def)
  qed (simp_all add: key_text_def modifier_part_def)
  then show "modifier_part (key_text k) = None" "key_text k \<noteq> []"
    "c \<in> set (key_text k) \<Longrightarrow> c \<in> set '' +:>'' \<Longrightarrow> key_text k = [c]"
    by blast+
qed

lemma split_key_text: "key_ok k \<Longrightarrow> split_parts [] (key_text k) = [key_text k]"
proof (cases "CHR ''+'' \<in> set (key_text k)")
  case True
  assume "key_ok k"
  then have "key_text k = ''+''" using key_text_shape(3) [of k "CHR ''+''"] True by simp
  then show ?thesis by simp
qed (simp add: split_parts_last)

lemma modifier_texts_parts: "list_all (\<lambda>x. x \<noteq> [] \<and> CHR ''+'' \<notin> set x) (modifier_texts m)"
proof -
  have "x \<noteq> [] \<and> CHR ''+'' \<notin> set x" if "plain_name x" for x
    using that plain_name_avoids [OF that, of "CHR ''+''"] by (simp add: plain_name_def)
  then show ?thesis using modifier_texts_plain [of m] by (auto simp: list_all_iff)
qed

lemma modifier_part_words:
  "modifier_part ''cmd'' = Some (Command, None)" "modifier_part ''ctrl'' = Some (Ctrl, None)"
  "modifier_part ''alt'' = Some (Alt, None)" "modifier_part ''shift'' = Some (Shift, None)"
  "modifier_part ''left_cmd'' = Some (Command, Some SideLeft)" "modifier_part ''left_ctrl'' = Some (Ctrl, Some SideLeft)"
  "modifier_part ''left_alt'' = Some (Alt, Some SideLeft)" "modifier_part ''left_shift'' = Some (Shift, Some SideLeft)"
  "modifier_part ''right_cmd'' = Some (Command, Some SideRight)" "modifier_part ''right_ctrl'' = Some (Ctrl, Some SideRight)"
  "modifier_part ''right_alt'' = Some (Alt, Some SideRight)" "modifier_part ''right_shift'' = Some (Shift, Some SideRight)"
  by code_simp+

lemma modifier_part_name:
  "modifier_part (modifier_name ''cmd'' s) = Some (Command, s)" "modifier_part (modifier_name ''ctrl'' s) = Some (Ctrl, s)"
  "modifier_part (modifier_name ''alt'' s) = Some (Alt, s)" "modifier_part (modifier_name ''shift'' s) = Some (Shift, s)"
  by (cases s; simp add: modifier_name_def modifier_part_words split: modifier_side.split)+

definition add_modifier :: "modifier_field \<Rightarrow> bool \<Rightarrow> modifier_side option \<Rightarrow> keymap_modifiers \<Rightarrow> keymap_modifiers" where
  "add_modifier f on side m =
     (if on then (case side of None \<Rightarrow> set_on f m | Some s \<Rightarrow> set_side f s (set_on f m)) else m)"

lemma parse_modifier:
  assumes "modifier_part x = Some (f, side)" "\<not> modifier_on f m" "modifier_side_of f m = None"
  shows "parse_parts ((if on then [x] else []) @ parts) m key = parse_parts parts (add_modifier f on side m) key"
proof -
  have "modifier_side_of f (set_on f m) = modifier_side_of f m" by (cases f) simp_all
  then show ?thesis
    using assms by (auto simp: add_modifier_def set_modifier_def set_sided_modifier_def split: option.split)
qed

lemma parse_modifier_texts:
  assumes "modifiers_ok m"
  shows "parse_parts (modifier_texts m @ parts) default_modifiers key = parse_parts parts m key"
proof -
  define m1 where "m1 = add_modifier Command (km_command m) (km_command_side m) default_modifiers"
  define m2 where "m2 = add_modifier Ctrl (km_ctrl m) (km_ctrl_side m) m1"
  define m3 where "m3 = add_modifier Alt (km_alt m) (km_alt_side m) m2"
  define m4 where "m4 = add_modifier Shift (km_shift m) (km_shift_side m) m3"
  note d = m1_def m2_def m3_def m4_def add_modifier_def default_modifiers_def
  have off: "\<not> modifier_on Command default_modifiers" "modifier_side_of Command default_modifiers = None"
    "\<not> modifier_on Ctrl m1" "modifier_side_of Ctrl m1 = None" "\<not> modifier_on Alt m2" "modifier_side_of Alt m2 = None"
    "\<not> modifier_on Shift m3" "modifier_side_of Shift m3 = None"
    by (simp_all add: d split: option.split)
  have "m4 = m"
  proof (rule keymap_modifiers.equality)
  qed (use assms in \<open>simp_all add: d modifiers_ok_def split: option.split\<close>)
  moreover have "parse_parts (modifier_texts m @ parts) default_modifiers key = parse_parts parts m4 key"
    unfolding modifier_texts_def append_assoc
    by (simp only: parse_modifier [OF modifier_part_name(1) off(1,2)] parse_modifier [OF modifier_part_name(2) off(3,4), folded m1_def]
        parse_modifier [OF modifier_part_name(3) off(5,6)] parse_modifier [OF modifier_part_name(4) off(7,8)]
        m1_def [symmetric] m2_def [symmetric] m3_def [symmetric] m4_def [symmetric])
  ultimately show ?thesis by simp
qed

lemma parse_formatted: "trigger_ok t \<Longrightarrow> parse_trigger (format_trigger t) = Some t"
proof -
  assume t: "trigger_ok t"
  let ?k = "kt_key t" and ?m = "kt_modifiers t"
  have k: "key_ok ?k" and m: "modifiers_ok ?m" using t by (simp_all add: trigger_ok_def)
  have "split_parts [] (format_trigger t) = modifier_texts ?m @ [key_text ?k]"
    unfolding format_trigger_join split_parts_join [OF modifier_texts_parts] by (simp add: split_key_text [OF k])
  moreover have "[] \<notin> set (modifier_texts ?m @ [key_text ?k])"
    using modifier_texts_parts [of ?m] key_text_shape(2) [OF k] by (auto simp: list_all_iff)
  ultimately have "split_trigger_parts (format_trigger t) = Some (modifier_texts ?m @ [key_text ?k])"
    by (simp add: split_trigger_parts_def)
  moreover have "parse_parts (modifier_texts ?m @ [key_text ?k]) default_modifiers None = Some t"
    unfolding parse_modifier_texts [OF m] using key_text_shape(1) [OF k] parse_key_text [OF k] by simp
  moreover have "format_trigger t \<noteq> []" using key_text_shape(2) [OF k] by (simp add: format_trigger_join)
  ultimately show ?thesis by (simp add: parse_trigger_def)
qed

end
