(* ===== verification/Keymap_Sequences.thy ===== *)
theory Keymap_Sequences
  imports Keymap_Triggers
begin

text \<open>
  Sequences of triggers with their flags, \<^verbatim>\<open>crates/bootty-config/src/keymap.rs\<close>: the canonical spelling and
  the parser, which also takes the older spellings with dashes and greater-than signs.
\<close>

section \<open>Sequences\<close>

record binding_flags =
  bf_consumed :: bool
  bf_all :: bool
  bf_global :: bool
  bf_performable :: bool

definition default_consumed :: binding_flags where
  "default_consumed = \<lparr>bf_consumed = True, bf_all = False, bf_global = False, bf_performable = False\<rparr>"

record keymap_sequence =
  ks_triggers :: "keymap_trigger list"
  ks_flags :: binding_flags

datatype keymap_sequence_error =
  Duplicate_Flag string | Empty_Sequence | Chord_Flags | Invalid_Keystroke string

definition flag_prefix :: "bool \<Rightarrow> string \<Rightarrow> string" where
  "flag_prefix enabled name = (if enabled then name @ '':'' else [])"

definition format_sequence :: "keymap_sequence \<Rightarrow> string" where
  "format_sequence s =
     (let f = ks_flags s
      in flag_prefix (bf_performable f) ''performable'' @ flag_prefix (bf_global f) ''global''
         @ flag_prefix (bf_all f) ''all'' @ flag_prefix (\<not> bf_consumed f) ''unconsumed''
         @ join_with (CHR '' '') (map format_trigger (ks_triggers s)))"

definition normalize_modifier :: "string \<Rightarrow> string option" where
  "normalize_modifier v =
     (if v = ''shift'' then Some ''shift''
      else if v \<in> {''ctrl'', ''control''} then Some ''ctrl''
      else if v \<in> {''alt'', ''opt'', ''option''} then Some ''alt''
      else if v \<in> {''cmd'', ''command'', ''super'', ''win''} then Some ''cmd''
      else None)"

function dashed_modifiers :: "string \<Rightarrow> string list \<times> string" where
  "dashed_modifiers rest =
     (case split_once (CHR ''-'') rest of
        None \<Rightarrow> ([], rest)
      | Some (candidate, tail) \<Rightarrow>
          (case normalize_modifier candidate of
             None \<Rightarrow> ([], rest)
           | Some m \<Rightarrow> (case dashed_modifiers tail of (ms, r) \<Rightarrow> (m # ms, r))))"
  by auto
termination
  by (relation "measure length") (auto simp: split_once_Some)

declare dashed_modifiers.simps [simp del]

definition parse_legacy_trigger :: "string \<Rightarrow> keymap_sequence_error + keymap_trigger" where
  "parse_legacy_trigger source =
     (case parse_trigger source of
        Some t \<Rightarrow> Inr t
      | None \<Rightarrow>
          (let (modifiers, rest) = dashed_modifiers source
           in if modifiers = [] \<or> rest = [] then Inl (Invalid_Keystroke source)
              else (case parse_trigger (join_with (CHR ''+'') modifiers @ ''+'' @ rest) of
                      Some t \<Rightarrow> Inr t
                    | None \<Rightarrow> Inl (Invalid_Keystroke source))))"

text \<open>A greater-than sign separates steps only behind a complete trigger.\<close>

fun split_steps :: "string \<Rightarrow> string \<Rightarrow> string list" where
  "split_steps cur [] = [cur]"
| "split_steps cur (c # cs) =
     (if c = CHR ''>'' \<and> \<not> isl (parse_legacy_trigger cur) then cur # split_steps [] cs
      else split_steps (cur @ [c]) cs)"

definition split_legacy_triggers :: "string \<Rightarrow> string list" where
  "split_legacy_triggers source = split_steps [] source"

function parse_sequence_flags ::
  "binding_flags \<Rightarrow> string \<Rightarrow> keymap_sequence_error + (binding_flags \<times> string)" where
  "parse_sequence_flags flags source =
     (case split_once (CHR '':'') source of
        None \<Rightarrow> Inr (flags, source)
      | Some (pre, tail) \<Rightarrow>
          if pre = ''performable'' then
            if bf_performable flags then Inl (Duplicate_Flag pre)
            else parse_sequence_flags (flags\<lparr>bf_performable := True\<rparr>) tail
          else if pre = ''global'' then
            if bf_global flags then Inl (Duplicate_Flag pre)
            else parse_sequence_flags (flags\<lparr>bf_global := True\<rparr>) tail
          else if pre = ''all'' then
            if bf_all flags then Inl (Duplicate_Flag pre)
            else parse_sequence_flags (flags\<lparr>bf_all := True\<rparr>) tail
          else if pre = ''unconsumed'' then
            if \<not> bf_consumed flags then Inl (Duplicate_Flag pre)
            else parse_sequence_flags (flags\<lparr>bf_consumed := False\<rparr>) tail
          else Inr (flags, source))"
  by auto
termination
  by (relation "measure (length \<circ> snd)") (auto simp: split_once_Some)

declare parse_sequence_flags.simps [simp del]

text \<open>\<^verbatim>\<open>str::split_ascii_whitespace\<close>.\<close>

definition is_ascii_whitespace :: "char \<Rightarrow> bool" where
  "is_ascii_whitespace c = ((of_char c :: nat) \<in> {9, 10, 12, 13, 32})"

fun ascii_words :: "string \<Rightarrow> string \<Rightarrow> string list" where
  "ascii_words cur [] = (if cur = [] then [] else [cur])"
| "ascii_words cur (c # cs) =
     (if is_ascii_whitespace c then (if cur = [] then [] else [cur]) @ ascii_words [] cs
      else ascii_words (cur @ [c]) cs)"

fun collect_triggers :: "string list \<Rightarrow> keymap_sequence_error + keymap_trigger list" where
  "collect_triggers [] = Inr []"
| "collect_triggers (s # ss) =
     (case parse_legacy_trigger s of
        Inl e \<Rightarrow> Inl e
      | Inr t \<Rightarrow> (case collect_triggers ss of Inl e \<Rightarrow> Inl e | Inr ts \<Rightarrow> Inr (t # ts)))"

definition parse_keymap_sequence :: "string \<Rightarrow> keymap_sequence_error + keymap_sequence" where
  "parse_keymap_sequence source =
     (case parse_sequence_flags default_consumed source of
        Inl e \<Rightarrow> Inl e
      | Inr (flags, source) \<Rightarrow>
          (case collect_triggers (concat (map split_legacy_triggers (ascii_words [] source))) of
             Inl e \<Rightarrow> Inl e
           | Inr triggers \<Rightarrow>
               if triggers = [] then Inl Empty_Sequence
               else if 1 < length triggers \<and> (bf_global flags \<or> bf_all flags) then Inl Chord_Flags
               else Inr \<lparr>ks_triggers = triggers, ks_flags = flags\<rparr>))"

section \<open>Printing and parsing a sequence\<close>

text \<open>
  A key that is an ASCII white-space character has no spelling inside a sequence: its text is split away.
\<close>

definition spelled_key :: "trigger_key \<Rightarrow> bool" where
  "spelled_key k \<longleftrightarrow> (case k of Unicode ch \<Rightarrow> ch \<notin> {9, 10, 12, 13, 32} | _ \<Rightarrow> True)"

definition sequence_ok :: "keymap_sequence \<Rightarrow> bool" where
  "sequence_ok s \<longleftrightarrow>
     ks_triggers s \<noteq> [] \<and> list_all (\<lambda>t. trigger_ok t \<and> spelled_key (kt_key t)) (ks_triggers s)
     \<and> (1 < length (ks_triggers s) \<longrightarrow> \<not> bf_global (ks_flags s) \<and> \<not> bf_all (ks_flags s))"

definition modifier_prefix :: "keymap_modifiers \<Rightarrow> string" where
  "modifier_prefix m = concat (map (\<lambda>x. x @ ''+'') (modifier_texts m))"

lemma modifier_prefix_chars: "c \<in> set (modifier_prefix m) \<Longrightarrow> c = CHR ''+'' \<or> 95 \<le> (of_char c :: nat)"
proof -
  assume "c \<in> set (modifier_prefix m)"
  then have "c = CHR ''+'' \<or> (\<exists>x \<in> set (modifier_texts m). c \<in> set x)"
    by (auto simp: modifier_prefix_def split: if_splits)
  then show ?thesis using modifier_texts_plain [of m] plain_name_chars [of _ c] by (auto simp: list_all_iff)
qed

lemma modifier_prefix_last: "modifier_prefix m = [] \<or> List.last (modifier_prefix m) = CHR ''+''"
proof -
  have "concat (map (\<lambda>x. x @ ''+'') xs) = [] \<or> List.last (concat (map (\<lambda>x. x @ ''+'') xs)) = CHR ''+''" for xs :: "string list"
    by (induction xs) auto
  then show ?thesis by (simp add: modifier_prefix_def)
qed

lemma marker_last:
  assumes "key_ok (kt_key t)" "format_trigger t = pre @ c # post" "c = CHR '':'' \<or> c = CHR ''>''"
  shows "pre = modifier_prefix (kt_modifiers t) \<and> post = []"
proof -
  let ?p = "modifier_prefix (kt_modifiers t)" and ?k = "key_text (kt_key t)"
  have eq: "?p @ ?k = pre @ c # post" using assms(2) by (simp add: format_trigger_join modifier_prefix_def)
  have "c \<notin> set ?p" using modifier_prefix_chars [of c] assms(3) by auto
  then have "c \<in> set ?k" using arg_cong [OF eq, of set] by auto
  then have "?k = [c]" using key_text_shape(3) [OF assms(1)] assms(3) by auto
  then have "?p @ [c] = pre @ c # post" using eq by simp
  then have "butlast (?p @ [c]) = butlast (pre @ c # post)" "List.last (?p @ [c]) = List.last (pre @ c # post)" by simp_all
  then show ?thesis using \<open>c \<notin> set ?p\<close> by (cases post) (auto simp: butlast_append split: if_splits)
qed

lemma parse_prefix_fails: "isl (parse_legacy_trigger (modifier_prefix m))"
proof -
  have "split_parts [] (modifier_prefix m) = modifier_texts m @ [[]]"
    using split_parts_join [OF modifier_texts_parts, of m "[]"] by (simp add: modifier_prefix_def)
  then have "parse_trigger (modifier_prefix m) = None"
    by (simp add: parse_trigger_def split_trigger_parts_def)
  moreover have "CHR ''-'' \<notin> set (modifier_prefix m)" using modifier_prefix_chars [of "CHR ''-''"] by auto
  then have "dashed_modifiers (modifier_prefix m) = ([], modifier_prefix m)"
    by (simp add: dashed_modifiers.simps split_once_none)
  ultimately show ?thesis by (simp add: parse_legacy_trigger_def)
qed

lemma split_steps_whole:
  assumes "\<And>pre post. cur @ cs = pre @ CHR ''>'' # post \<Longrightarrow> isl (parse_legacy_trigger pre)"
  shows "split_steps cur cs = [cur @ cs]"
  using assms
proof (induction cs arbitrary: cur)
  case (Cons c cs)
  have "split_steps (cur @ [c]) cs = [(cur @ [c]) @ cs]" using Cons.prems by (intro Cons.IH) simp
  moreover have "isl (parse_legacy_trigger cur)" if "c = CHR ''>''" using Cons.prems [of cur cs] that by simp
  ultimately show ?case by simp
qed simp

lemma formatted_step: "trigger_ok t \<Longrightarrow> split_legacy_triggers (format_trigger t) = [format_trigger t]"
proof -
  assume "trigger_ok t"
  then have "isl (parse_legacy_trigger pre)" if "[] @ format_trigger t = pre @ CHR ''>'' # post" for pre post
    using marker_last [of t pre "CHR ''>''" post] that parse_prefix_fails by (auto simp: trigger_ok_def)
  then show ?thesis unfolding split_legacy_triggers_def using split_steps_whole [of "[]" "format_trigger t"] by simp
qed

lemma formatted_no_space:
  assumes "trigger_ok t" "spelled_key (kt_key t)" "c \<in> set (format_trigger t)"
  shows "\<not> is_ascii_whitespace c"
proof
  assume ws: "is_ascii_whitespace c"
  then have small: "(of_char c :: nat) \<le> 32" by (auto simp: is_ascii_whitespace_def)
  then have "c \<noteq> CHR ''+''" by auto
  then have "c \<notin> set (modifier_prefix (kt_modifiers t))" using modifier_prefix_chars [of c] small by auto
  then have c: "c \<in> set (key_text (kt_key t))"
    using assms(3) by (simp add: format_trigger_join modifier_prefix_def)
  show False
  proof (cases "kt_key t")
    case (Unicode ch)
    then have "ch = of_char c"
      using encode_utf8_ascii [of c ch] c small assms(1) by (simp add: key_text_def trigger_ok_def key_ok_def)
    then show False using assms(2) ws by (auto simp: Unicode spelled_key_def is_ascii_whitespace_def)
  next
    case (Physical key)
    then have "word_text (canonical_name key)" using assms(1) physical_key_ok by (simp add: trigger_ok_def key_ok_def)
    then show False using c small by (force simp: Physical key_text_def word_text_def list_all_iff)
  qed (use c small in \<open>auto simp: key_text_def\<close>)
qed

lemma ascii_words_run: "list_all (\<lambda>c. \<not> is_ascii_whitespace c) w \<Longrightarrow> ascii_words cur (w @ s) = ascii_words (cur @ w) s"
  by (induction w arbitrary: cur) simp_all

lemma ascii_words_join:
  "list_all (\<lambda>w. w \<noteq> [] \<and> list_all (\<lambda>c. \<not> is_ascii_whitespace c) w) ws \<Longrightarrow> ascii_words [] (join_with (CHR '' '') ws) = ws"
proof (induction "CHR '' ''" ws rule: join_with.induct)
  case (2 s)
  then show ?case using ascii_words_run [of s "[]" "[]"] by simp
next
  case (3 s t ts)
  have "is_ascii_whitespace (CHR '' '')" by (simp add: is_ascii_whitespace_def)
  then show ?case using 3 ascii_words_run [of s "[]" "CHR '' '' # join_with (CHR '' '') (t # ts)"] by simp
qed simp

lemma collect_formatted: "list_all trigger_ok ts \<Longrightarrow> collect_triggers (map format_trigger ts) = Inr ts"
  by (induction ts) (simp_all add: parse_legacy_trigger_def parse_formatted)

lemma formatted_steps:
  "list_all trigger_ok ts \<Longrightarrow> concat (map split_legacy_triggers (map format_trigger ts)) = map format_trigger ts"
  by (induction ts) (simp_all add: formatted_step)

text \<open>Before a colon of the spelled triggers stands no letter, so that no flag is read from them.\<close>

lemma before_colon:
  assumes "list_all trigger_ok ts" "join_with (CHR '' '') (map format_trigger ts) = pre @ CHR '':'' # tail"
  shows "pre = [] \<or> List.last pre \<in> {CHR ''+'', CHR '' ''}"
  using assms
proof (induction ts arbitrary: pre)
  case (Cons t ts)
  have one: "pre = [] \<or> List.last pre \<in> {CHR ''+'', CHR '' ''}" if "format_trigger t = pre @ CHR '':'' # post" for post
    using marker_last [OF _ that] Cons.prems(1) modifier_prefix_last by (auto simp: trigger_ok_def)
  show ?case
  proof (cases ts)
    case Nil
    then show ?thesis using one Cons.prems(2) by simp
  next
    case (Cons u us)
    let ?rest = "join_with (CHR '' '') (map format_trigger ts)"
    have eq: "format_trigger t @ CHR '' '' # ?rest = pre @ CHR '':'' # tail"
      using Cons.prems(2) Cons by simp
    then consider post where "format_trigger t = pre @ CHR '':'' # post"
      | pre' where "pre = format_trigger t @ CHR '' '' # pre'" "?rest = pre' @ CHR '':'' # tail"
      by (auto simp: append_eq_append_conv2 append_eq_Cons_conv Cons_eq_append_conv)
    then show ?thesis
    proof cases
      case 1
      then show ?thesis by (rule one)
    next
      case 2
      then show ?thesis using Cons.IH [OF _ 2(2)] Cons.prems(1) by (cases "pre' = []") simp_all
    qed
  qed
qed simp

definition flag_names :: "string list" where
  "flag_names = [''performable'', ''global'', ''all'', ''unconsumed'']"

lemma parse_no_flags:
  assumes "\<And>pre tail. x = pre @ CHR '':'' # tail \<Longrightarrow> pre = [] \<or> List.last pre \<in> {CHR ''+'', CHR '' ''}"
  shows "parse_sequence_flags f x = Inr (f, x)"
proof (cases "split_once (CHR '':'') x")
  case None
  then show ?thesis by (simp add: parse_sequence_flags.simps [of f x])
next
  case (Some pt)
  obtain pre tail where pt: "pt = (pre, tail)" by fastforce
  have "x = pre @ CHR '':'' # tail" using Some by (simp add: pt split_once_Some)
  from assms [OF this] have "pre \<notin> {''performable'', ''global'', ''all'', ''unconsumed''}" by auto
  then show ?thesis using Some by (simp add: pt parse_sequence_flags.simps [of f x])
qed

lemma parse_flag:
  "\<not> bf_performable f \<Longrightarrow> parse_sequence_flags f (''performable:'' @ x) = parse_sequence_flags (f\<lparr>bf_performable := True\<rparr>) x"
  "\<not> bf_global f \<Longrightarrow> parse_sequence_flags f (''global:'' @ x) = parse_sequence_flags (f\<lparr>bf_global := True\<rparr>) x"
  "\<not> bf_all f \<Longrightarrow> parse_sequence_flags f (''all:'' @ x) = parse_sequence_flags (f\<lparr>bf_all := True\<rparr>) x"
  "bf_consumed f \<Longrightarrow> parse_sequence_flags f (''unconsumed:'' @ x) = parse_sequence_flags (f\<lparr>bf_consumed := False\<rparr>) x"
proof -
  have "split_once (CHR '':'') (''performable:'' @ x) = Some (''performable'', x)"
    "split_once (CHR '':'') (''global:'' @ x) = Some (''global'', x)"
    "split_once (CHR '':'') (''all:'' @ x) = Some (''all'', x)"
    "split_once (CHR '':'') (''unconsumed:'' @ x) = Some (''unconsumed'', x)"
    by (simp_all add: split_once_Some)
  note s = this
  show "\<not> bf_performable f \<Longrightarrow> parse_sequence_flags f (''performable:'' @ x) = parse_sequence_flags (f\<lparr>bf_performable := True\<rparr>) x"
    "\<not> bf_global f \<Longrightarrow> parse_sequence_flags f (''global:'' @ x) = parse_sequence_flags (f\<lparr>bf_global := True\<rparr>) x"
    "\<not> bf_all f \<Longrightarrow> parse_sequence_flags f (''all:'' @ x) = parse_sequence_flags (f\<lparr>bf_all := True\<rparr>) x"
    "bf_consumed f \<Longrightarrow> parse_sequence_flags f (''unconsumed:'' @ x) = parse_sequence_flags (f\<lparr>bf_consumed := False\<rparr>) x"
    by (subst parse_sequence_flags.simps, simp only: s option.case prod.case, simp)+
qed

lemma parse_printed_flags:
  assumes "\<And>pre tail. x = pre @ CHR '':'' # tail \<Longrightarrow> pre = [] \<or> List.last pre \<in> {CHR ''+'', CHR '' ''}"
  shows "parse_sequence_flags default_consumed
      (flag_prefix (bf_performable f) ''performable'' @ flag_prefix (bf_global f) ''global''
       @ flag_prefix (bf_all f) ''all'' @ flag_prefix (\<not> bf_consumed f) ''unconsumed'' @ x) = Inr (f, x)"
proof -
  note none = parse_no_flags [OF assms]
  have f: "f = \<lparr>bf_consumed = bf_consumed f, bf_all = bf_all f, bf_global = bf_global f, bf_performable = bf_performable f\<rparr>"
    by simp
  show ?thesis
    by (cases "bf_performable f"; cases "bf_global f"; cases "bf_all f"; cases "bf_consumed f"; subst f)
      (simp_all add: flag_prefix_def default_consumed_def none parse_flag [simplified])
qed

text \<open>
  C40.  Every trigger that the keymap can hold is printed in a spelling that is parsed back to it, and every
  sequence of triggers with its flags likewise, as long as no key of it is an ASCII white-space
  character: modifiers with their sides, all physical keys, any character and the wheel and catch-all
  keys, chords, and keys that are themselves separators of the grammar.
\<close>
theorem keymap_roundtrip:
  assumes "sequence_ok s"
  shows "parse_keymap_sequence (format_sequence s) = Inr s
    \<and> list_all (\<lambda>t. parse_trigger (format_trigger t) = Some t) (ks_triggers s)"
proof
  let ?ts = "ks_triggers s" and ?f = "ks_flags s"
  let ?x = "join_with (CHR '' '') (map format_trigger ?ts)"
  have ts: "?ts \<noteq> []" "list_all trigger_ok ?ts" "list_all (\<lambda>t. spelled_key (kt_key t)) ?ts"
    and chord: "1 < length ?ts \<longrightarrow> \<not> bf_global ?f \<and> \<not> bf_all ?f"
    using assms by (auto simp: sequence_ok_def list_all_iff)
  have "format_trigger t \<noteq> [] \<and> list_all (\<lambda>c. \<not> is_ascii_whitespace c) (format_trigger t)"
    if "t \<in> set ?ts" for t
    using that ts(2,3) formatted_no_space [of t] key_text_shape(2) [of "kt_key t"]
    by (auto simp: list_all_iff format_trigger_join trigger_ok_def)
  then have words: "ascii_words [] ?x = map format_trigger ?ts" by (intro ascii_words_join) (simp add: list_all_iff)
  have "concat (map split_legacy_triggers (map format_trigger ?ts)) = map format_trigger ?ts"
    by (rule formatted_steps [OF ts(2)])
  moreover have "parse_sequence_flags default_consumed (format_sequence s) = Inr (?f, ?x)"
    unfolding format_sequence_def Let_def by (rule parse_printed_flags) (rule before_colon [OF ts(2)])
  ultimately show "parse_keymap_sequence (format_sequence s) = Inr s"
    using ts(1) chord by (simp add: parse_keymap_sequence_def words collect_formatted [OF ts(2)])
  show "list_all (\<lambda>t. parse_trigger (format_trigger t) = Some t) ?ts"
    using ts(2) parse_formatted by (simp add: list_all_iff)
qed

definition sample_sequence :: keymap_sequence where
  "sample_sequence =
     \<lparr>ks_triggers =
        [\<lparr>kt_modifiers = default_modifiers\<lparr>km_ctrl := True, km_ctrl_side := Some SideLeft\<rparr>, kt_key = Unicode 43\<rparr>,
         \<lparr>kt_modifiers = default_modifiers, kt_key = Physical ''F12''\<rparr>],
      ks_flags = default_consumed\<lparr>bf_consumed := False\<rparr>\<rparr>"

theorem keymap_roundtrip_witness:
  "sequence_ok sample_sequence \<and> parse_keymap_sequence (format_sequence sample_sequence) = Inr sample_sequence"
proof -
  have "''F12'' \<in> set physical_keys" by (simp add: physical_keys_def key_spellings_def function_numbers_def)
  then have "sequence_ok sample_sequence"
    by (simp add: sequence_ok_def sample_sequence_def trigger_ok_def modifiers_ok_def key_ok_def spelled_key_def
        default_modifiers_def default_consumed_def is_scalar_def)
  then show ?thesis using keymap_roundtrip by blast
qed

text \<open>
  The spelling \<^verbatim>\<open>SPACE\<close> is read as the space character, whose canonical spelling is empty inside a sequence.
\<close>

lemma space_spelling_lost:
  "parse_trigger ''SPACE'' = Some \<lparr>kt_modifiers = default_modifiers, kt_key = Unicode 32\<rparr>"
  "format_sequence \<lparr>ks_triggers = [\<lparr>kt_modifiers = default_modifiers, kt_key = Unicode 32\<rparr>], ks_flags = default_consumed\<rparr> = '' ''"
  "parse_keymap_sequence '' '' = Inl Empty_Sequence"
proof -
  have "parse_physical ''SPACE'' = Some None" by code_simp
  moreover have "modifier_part ''SPACE'' = None" by code_simp
  moreover have "eq_ignore_ascii_case ''SPACE'' ''space''" "\<not> eq_ignore_ascii_case ''SPACE'' ''scroll_up''"
    "\<not> eq_ignore_ascii_case ''SPACE'' ''scroll_down''" "\<not> eq_ignore_ascii_case ''SPACE'' ''catch_all''"
    by code_simp+
  ultimately have "parse_key ''SPACE'' = Some (Unicode 32)" "modifier_part ''SPACE'' = None"
    by (simp_all add: parse_key_def)
  then show "parse_trigger ''SPACE'' = Some \<lparr>kt_modifiers = default_modifiers, kt_key = Unicode 32\<rparr>"
    by (simp add: parse_trigger_def split_trigger_parts_def Let_def)
  show "format_sequence \<lparr>ks_triggers = [\<lparr>kt_modifiers = default_modifiers, kt_key = Unicode 32\<rparr>], ks_flags = default_consumed\<rparr> = '' ''"
    by code_simp
  show "parse_keymap_sequence '' '' = Inl Empty_Sequence"
    by (simp add: parse_keymap_sequence_def parse_sequence_flags.simps split_once_none is_ascii_whitespace_def)
qed

end
