(* ===== verification/Keymap_Program.thy ===== *)
theory Keymap_Program
  imports Keymap_Sequences
begin

text \<open>
  The effective keymap and its matcher, \<^verbatim>\<open>crates/bootty-config/src/keymap.rs\<close>, with the data of
  \<^verbatim>\<open>keymap_file.rs\<close>.  A JSON value is the type parameter \<open>'v\<close>; actions and contexts are interpreted by the
  callers, as the type parameters \<open>'a\<close> and \<open>'c\<close> with the callbacks that produce them.  Lower-casing a
  character (\<^verbatim>\<open>char::to_lowercase\<close>) is the parameter \<open>lower\<close>.
\<close>

section \<open>Keymap files\<close>

datatype keymap_context =
  Context_Global | Context_Sidebar | Context_Command | Context_Terminal | Context_Expression string

datatype 'v keymap_action = Action_None | Action_Command string "'v option"

datatype binding_kind = Unbind | Binding

datatype binding_source = Source_User | Source_BuiltIn

record 'v keymap_entry =
  ke_keystrokes :: string
  ke_action :: "'v keymap_action"

record 'v keymap_section =
  sec_context :: keymap_context
  sec_use_key_equivalents :: bool
  sec_use_builtin_defaults :: "bool option"
  sec_unbind :: "'v keymap_entry list"
  sec_bindings :: "'v keymap_entry list"
  sec_source_index :: nat

text \<open>The messages of diagnostics: texts of the source, and the errors of the parsers.\<close>

datatype diagnostic_message = Message string | Sequence_Error keymap_sequence_error

record keymap_diagnostic =
  kd_section :: "nat option"
  kd_field :: "string option"
  kd_message :: diagnostic_message

record 'v keymap_file =
  kf_sections :: "'v keymap_section list"
  kf_diagnostics :: "keymap_diagnostic list"

definition section_entries :: "binding_kind \<Rightarrow> 'v keymap_section \<Rightarrow> 'v keymap_entry list" where
  "section_entries kind s = (case kind of Unbind \<Rightarrow> sec_unbind s | Binding \<Rightarrow> sec_bindings s)"

text \<open>The last explicit declaration of a section of the context wins.\<close>

definition use_builtin_defaults :: "'v keymap_file \<Rightarrow> keymap_context \<Rightarrow> bool" where
  "use_builtin_defaults file ctx =
     (case find (\<lambda>s. sec_context s = ctx \<and> sec_use_builtin_defaults s \<noteq> None) (List.rev (kf_sections file)) of
        Some s \<Rightarrow> the (sec_use_builtin_defaults s)
      | None \<Rightarrow> True)"

section \<open>Inputs\<close>

datatype keymap_input =
  Key_Input physical_key keymap_modifiers "nat option" | Scroll_Input bool keymap_modifiers

definition catch_all_candidates :: "keymap_modifiers \<Rightarrow> keymap_trigger list" where
  "catch_all_candidates m =
     (let candidates = map (\<lambda>mods. \<lparr>kt_modifiers = mods, kt_key = CatchAll\<rparr>) (input_candidates m);
          fallback = \<lparr>kt_modifiers = default_modifiers, kt_key = CatchAll\<rparr>
      in if m \<noteq> default_modifiers \<and> fallback \<notin> set candidates then candidates @ [fallback] else candidates)"

definition candidates :: "keymap_input \<Rightarrow> keymap_trigger list" where
  "candidates input =
     (case input of
        Key_Input key m text \<Rightarrow>
          concat (map (\<lambda>mods. \<lparr>kt_modifiers = mods, kt_key = Physical key\<rparr>
              # (case text of None \<Rightarrow> [] | Some ch \<Rightarrow> [\<lparr>kt_modifiers = mods, kt_key = Unicode ch\<rparr>])) (input_candidates m))
          @ catch_all_candidates m
      | Scroll_Input up m \<Rightarrow>
          map (\<lambda>mods. \<lparr>kt_modifiers = mods, kt_key = (if up then ScrollUp else ScrollDown)\<rparr>) (input_candidates m)
          @ catch_all_candidates m)"

section \<open>Compiling\<close>

record 'v binding_snapshot =
  bs_context :: keymap_context
  bs_keystrokes :: string
  bs_action :: "'v keymap_action"
  bs_kind :: binding_kind
  bs_source :: binding_source

datatype 'a compiled_action = Invoke 'a | Unbind_Action 'a | Consume

record ('a, 'c) compiled_binding =
  cb_context :: 'c
  cb_sequence :: "keymap_trigger list"
  cb_action :: "'a compiled_action"
  cb_flags :: binding_flags

record ('a, 'c) keymap_program =
  kp_bindings :: "('a, 'c) compiled_binding list"
  kp_active_sequence :: "keymap_trigger list"

definition empty_program :: "('a, 'c) keymap_program" where
  "empty_program = \<lparr>kp_bindings = [], kp_active_sequence = []\<rparr>"

definition kind_field :: "binding_kind \<Rightarrow> string" where
  "kind_field kind = (case kind of Unbind \<Rightarrow> ''unbind'' | Binding \<Rightarrow> ''bindings'')"

definition binding_diagnostic :: "string \<Rightarrow> diagnostic_message \<Rightarrow> keymap_diagnostic" where
  "binding_diagnostic field message = \<lparr>kd_section = None, kd_field = Some field, kd_message = message\<rparr>"

text \<open>One binding, compiled or rejected with a diagnostic.\<close>

definition compile_action ::
  "('v keymap_action \<Rightarrow> string + 'a option) \<Rightarrow> 'v binding_snapshot \<Rightarrow> keymap_diagnostic + 'a compiled_action" where
  "compile_action resolve b =
     (case bs_kind b of
        Unbind \<Rightarrow>
          (case resolve (bs_action b) of
             Inr (Some action) \<Rightarrow> Inr (Unbind_Action action)
           | Inr None \<Rightarrow>
               Inl (binding_diagnostic (''unbind.'' @ bs_keystrokes b) (Message ''an unbind target must name an action''))
           | Inl message \<Rightarrow> Inl (binding_diagnostic (''unbind.'' @ bs_keystrokes b) (Message message)))
      | Binding \<Rightarrow>
          (case bs_action b of
             Action_None \<Rightarrow> Inr Consume
           | Action_Command name input \<Rightarrow>
               (case resolve (bs_action b) of
                  Inr (Some action) \<Rightarrow> Inr (Invoke action)
                | Inr None \<Rightarrow> Inr Consume
                | Inl message \<Rightarrow> Inl (binding_diagnostic (''bindings.'' @ bs_keystrokes b) (Message message)))))"

definition compile_binding ::
  "('v keymap_action \<Rightarrow> string + 'a option) \<Rightarrow> (keymap_context \<Rightarrow> string + 'c) \<Rightarrow> 'v binding_snapshot
   \<Rightarrow> keymap_diagnostic + ('a, 'c) compiled_binding" where
  "compile_binding resolve compile_context b =
     (case compile_context (bs_context b) of
        Inl message \<Rightarrow> Inl (binding_diagnostic ''context'' (Message message))
      | Inr ctx \<Rightarrow>
          (case parse_keymap_sequence (bs_keystrokes b) of
             Inl e \<Rightarrow> Inl (binding_diagnostic (kind_field (bs_kind b) @ ''.'' @ bs_keystrokes b) (Sequence_Error e))
           | Inr sequence \<Rightarrow>
               (case compile_action resolve b of
                  Inl d \<Rightarrow> Inl d
                | Inr action \<Rightarrow>
                    Inr \<lparr>cb_context = ctx, cb_sequence = ks_triggers sequence, cb_action = action,
                         cb_flags = ks_flags sequence\<rparr>)))"

definition compile ::
  "'v binding_snapshot list \<Rightarrow> ('v keymap_action \<Rightarrow> string + 'a option) \<Rightarrow> (keymap_context \<Rightarrow> string + 'c)
   \<Rightarrow> ('a, 'c) keymap_program \<times> keymap_diagnostic list" where
  "compile bs resolve compile_context =
     (let results = map (compile_binding resolve compile_context) bs
      in (\<lparr>kp_bindings = List.map_filter (\<lambda>r. case r of Inr b \<Rightarrow> Some b | Inl d \<Rightarrow> None) results,
           kp_active_sequence = []\<rparr>,
          List.map_filter (\<lambda>r. case r of Inl d \<Rightarrow> Some d | Inr b \<Rightarrow> None) results))"

section \<open>Matching\<close>

definition trigger_matches :: "(nat \<Rightarrow> nat list) \<Rightarrow> keymap_trigger \<Rightarrow> keymap_trigger \<Rightarrow> bool" where
  "trigger_matches lower candidate binding =
     (kt_modifiers candidate = kt_modifiers binding
      \<and> (case (kt_key candidate, kt_key binding) of
           (Unicode c, Unicode b) \<Rightarrow> c = b \<or> lower c = lower b
         | (c, b) \<Rightarrow> c = b))"

datatype 'a keymap_match = NoMatch | Pending | Matched 'a bool | Consumed

text \<open>
  The trigger of a binding that comes next after the active sequence, if it is one of the candidates,
  and whether more triggers follow.
\<close>

definition next_trigger ::
  "(nat \<Rightarrow> nat list) \<Rightarrow> keymap_trigger list \<Rightarrow> keymap_trigger list \<Rightarrow> keymap_trigger list
   \<Rightarrow> (keymap_trigger \<times> bool) option" where
  "next_trigger lower cands active sequence =
     (case drop (length active) sequence of
        [] \<Rightarrow> None
      | trigger # pending \<Rightarrow>
          if take (length active) sequence = active \<and> list_ex (\<lambda>c. trigger_matches lower c trigger) cands
          then Some (trigger, pending \<noteq> []) else None)"

text \<open>The bindings from the last to the first, with the unbindings met on the way.\<close>

fun select_binding ::
  "(nat \<Rightarrow> nat list) \<Rightarrow> ('c \<Rightarrow> bool) \<Rightarrow> keymap_trigger list \<Rightarrow> keymap_trigger list
   \<Rightarrow> (keymap_trigger list \<times> 'a) list \<Rightarrow> ('a, 'c) compiled_binding list
   \<Rightarrow> (bool \<times> 'a option \<times> binding_flags \<times> keymap_trigger) option" where
  "select_binding lower context_active cands active unbound [] = None"
| "select_binding lower context_active cands active unbound (b # bs) =
     (if \<not> context_active (cb_context b) then select_binding lower context_active cands active unbound bs
      else (case next_trigger lower cands active (cb_sequence b) of
              None \<Rightarrow> select_binding lower context_active cands active unbound bs
            | Some (trigger, pending) \<Rightarrow>
                (case cb_action b of
                   Unbind_Action action \<Rightarrow>
                     select_binding lower context_active cands active (unbound @ [(cb_sequence b, action)]) bs
                 | Invoke action \<Rightarrow>
                     if (cb_sequence b, action) \<in> set unbound
                     then select_binding lower context_active cands active unbound bs
                     else Some (pending, Some action, cb_flags b, trigger)
                 | Consume \<Rightarrow> Some (pending, None, cb_flags b, trigger))))"

definition next_candidates ::
  "(nat \<Rightarrow> nat list) \<Rightarrow> ('c \<Rightarrow> bool) \<Rightarrow> keymap_trigger list \<Rightarrow> ('a, 'c) keymap_program
   \<Rightarrow> 'a keymap_match \<times> ('a, 'c) keymap_program" where
  "next_candidates lower context_active cands p =
     (if cands = [] then (NoMatch, p)
      else (case select_binding lower context_active cands (kp_active_sequence p) [] (List.rev (kp_bindings p)) of
              None \<Rightarrow>
                if kp_active_sequence p = [] then (NoMatch, p) else (Consumed, p\<lparr>kp_active_sequence := []\<rparr>)
            | Some (pending, action, flags, trigger) \<Rightarrow>
                if pending then (Pending, p\<lparr>kp_active_sequence := kp_active_sequence p @ [trigger]\<rparr>)
                else ((case action of None \<Rightarrow> Consumed | Some a \<Rightarrow> Matched a (bf_consumed flags)),
                      p\<lparr>kp_active_sequence := []\<rparr>)))"

definition next_input ::
  "(nat \<Rightarrow> nat list) \<Rightarrow> ('c \<Rightarrow> bool) \<Rightarrow> keymap_input \<Rightarrow> ('a, 'c) keymap_program
   \<Rightarrow> 'a keymap_match \<times> ('a, 'c) keymap_program" where
  "next_input lower context_active input p = next_candidates lower context_active (candidates input) p"

section \<open>Effective bindings\<close>

definition section_snapshots :: "'v keymap_section \<Rightarrow> 'v binding_snapshot list" where
  "section_snapshots s =
     concat (map (\<lambda>kind. map (\<lambda>e. \<lparr>bs_context = sec_context s, bs_keystrokes = ke_keystrokes e,
                                    bs_action = ke_action e, bs_kind = kind, bs_source = Source_User\<rparr>)
                             (section_entries kind s)) [Unbind, Binding])"

definition effective_bindings :: "'v binding_snapshot list \<Rightarrow> 'v keymap_file \<Rightarrow> 'v binding_snapshot list" where
  "effective_bindings builtins file =
     filter (\<lambda>b. use_builtin_defaults file (bs_context b)) builtins
     @ concat (map section_snapshots (kf_sections file))"

text \<open>The keybind entries of the older configuration: \<^verbatim>\<open>trigger=action\<close>.\<close>

fun split_entry :: "string \<Rightarrow> string \<Rightarrow> (string \<times> string) option" where
  "split_entry trigger [] = None"
| "split_entry trigger (c # cs) =
     (if c = CHR ''='' \<and> \<not> (prefix ''+'' cs \<or> prefix ''='' cs) then Some (trigger, cs)
      else split_entry (trigger @ [c]) cs)"

definition split_keybind_entry :: "string \<Rightarrow> (string \<times> string) option" where
  "split_keybind_entry entry = split_entry [] entry"

definition extend_legacy_bindings :: "keymap_context \<Rightarrow> string list \<Rightarrow> 'v binding_snapshot list" where
  "extend_legacy_bindings ctx entries =
     List.map_filter (\<lambda>entry.
       case split_keybind_entry entry of
         None \<Rightarrow> None
       | Some (trigger, action) \<Rightarrow>
           (case parse_keymap_sequence trigger of
              Inl e \<Rightarrow> None
            | Inr sequence \<Rightarrow>
                Some \<lparr>bs_context = ctx, bs_keystrokes = format_sequence sequence,
                      bs_action = Action_Command action None, bs_kind = Binding, bs_source = Source_BuiltIn\<rparr>))
       entries"

definition sidebar_bindings :: "string list \<Rightarrow> 'v binding_snapshot list" where
  "sidebar_bindings entries =
     List.map_filter (\<lambda>entry.
       map_option (\<lambda>(keystrokes, action).
         \<lparr>bs_context = Context_Sidebar, bs_keystrokes = keystrokes,
          bs_action = Action_Command (if prefix ''ui.sidebar.'' action then action else ''ui.sidebar.'' @ action) None,
          bs_kind = Binding, bs_source = Source_BuiltIn\<rparr>) (split_keybind_entry entry))
       entries"

definition legacy_keymap_bindings ::
  "string list \<Rightarrow> string list \<Rightarrow> string list \<Rightarrow> 'v binding_snapshot list" where
  "legacy_keymap_bindings keybind sidebar_keybind layout_keybind =
     extend_legacy_bindings Context_Global keybind @ sidebar_bindings sidebar_keybind
     @ extend_legacy_bindings Context_Terminal layout_keybind"

section \<open>Reloading\<close>

record 'v keymap_snapshot =
  sn_keymap :: "'v keymap_file"
  sn_effective_bindings :: "'v binding_snapshot list"
  sn_diagnostics :: "keymap_diagnostic list"
  sn_revision :: nat

record ('v, 'a, 'c) keymap_runtime =
  rt_snapshot :: "'v keymap_snapshot"
  rt_built_in_bindings :: "'v binding_snapshot list"
  rt_program :: "('a, 'c) keymap_program"

definition rebuild_effective_bindings ::
  "('v keymap_action \<Rightarrow> string + 'a option) \<Rightarrow> (keymap_context \<Rightarrow> string + 'c)
   \<Rightarrow> ('v, 'a, 'c) keymap_runtime \<Rightarrow> ('v, 'a, 'c) keymap_runtime" where
  "rebuild_effective_bindings resolve compile_context rt =
     (let snapshot = rt_snapshot rt;
          effective = effective_bindings (rt_built_in_bindings rt) (sn_keymap snapshot);
          (program, diagnostics) = compile effective resolve compile_context
      in rt\<lparr>rt_snapshot := snapshot\<lparr>sn_effective_bindings := effective,
                                    sn_diagnostics := kf_diagnostics (sn_keymap snapshot) @ diagnostics\<rparr>,
            rt_program := program\<rparr>)"

definition bump_revision :: "('v, 'a, 'c) keymap_runtime \<Rightarrow> ('v, 'a, 'c) keymap_runtime" where
  "bump_revision rt =
     rt\<lparr>rt_snapshot := (rt_snapshot rt)\<lparr>sn_revision := (sn_revision (rt_snapshot rt) + 1) mod 2 ^ 64\<rparr>\<rparr>"

text \<open>
  A reload with what reading and parsing the file gave: an input error on the left, the message of a
  parse error, or the parsed file; a missing file reads as empty.
\<close>

datatype 'v read_outcome = Read_Error string | Parse_Error string | Parsed "'v keymap_file"

definition reload ::
  "'v read_outcome \<Rightarrow> ('v keymap_action \<Rightarrow> string + 'a option) \<Rightarrow> (keymap_context \<Rightarrow> string + 'c)
   \<Rightarrow> ('v, 'a, 'c) keymap_runtime \<Rightarrow> (string + keymap_diagnostic list) \<times> ('v, 'a, 'c) keymap_runtime" where
  "reload outcome resolve compile_context rt =
     (case outcome of
        Read_Error e \<Rightarrow> (Inl e, rt)
      | Parse_Error message \<Rightarrow>
          (let rt' = bump_revision (rt\<lparr>rt_snapshot := (rt_snapshot rt)\<lparr>sn_diagnostics :=
                        [\<lparr>kd_section = None, kd_field = None, kd_message = Message message\<rparr>]\<rparr>\<rparr>)
           in (Inr (sn_diagnostics (rt_snapshot rt')), rt'))
      | Parsed keymap \<Rightarrow>
          (let rt' = bump_revision (rebuild_effective_bindings resolve compile_context
                        (rt\<lparr>rt_snapshot := (rt_snapshot rt)\<lparr>sn_keymap := keymap\<rparr>\<rparr>))
           in (Inr (sn_diagnostics (rt_snapshot rt')), rt')))"

definition sync_config ::
  "'v binding_snapshot list \<Rightarrow> ('v keymap_action \<Rightarrow> string + 'a option) \<Rightarrow> (keymap_context \<Rightarrow> string + 'c)
   \<Rightarrow> ('v, 'a, 'c) keymap_runtime \<Rightarrow> ('v, 'a, 'c) keymap_runtime" where
  "sync_config builtins resolve compile_context rt =
     bump_revision (rebuild_effective_bindings resolve compile_context (rt\<lparr>rt_built_in_bindings := builtins\<rparr>))"

text \<open>\<^verbatim>\<open>edit\<close>: \<open>written\<close> is what writing the edited file gave, \<open>outcome\<close> what reading it back gives.\<close>

definition edit_keymap ::
  "string + 'w \<Rightarrow> 'v read_outcome \<Rightarrow> ('v keymap_action \<Rightarrow> string + 'a option) \<Rightarrow> (keymap_context \<Rightarrow> string + 'c)
   \<Rightarrow> ('v, 'a, 'c) keymap_runtime \<Rightarrow> (string + 'w) \<times> ('v, 'a, 'c) keymap_runtime" where
  "edit_keymap written outcome resolve compile_context rt =
     (case written of
        Inl e \<Rightarrow> (Inl e, rt)
      | Inr w \<Rightarrow>
          (case reload outcome resolve compile_context rt of
             (Inl e, rt') \<Rightarrow> (Inl e, rt')
           | (Inr _, rt') \<Rightarrow> (Inr w, rt')))"

section \<open>Which binding wins\<close>

text \<open>
  A binding is cancelled by a later active unbinding of the same keys and action, and takes effect when
  its context is active, it continues the typed keys, and it is not cancelled.
\<close>

definition cancelled :: "('c \<Rightarrow> bool) \<Rightarrow> ('a, 'c) compiled_binding list \<Rightarrow> ('a, 'c) compiled_binding \<Rightarrow> bool" where
  "cancelled context_active later b \<longleftrightarrow>
     (\<exists>u \<in> set later. \<exists>a. context_active (cb_context u) \<and> cb_sequence u = cb_sequence b
        \<and> cb_action u = Unbind_Action a \<and> cb_action b = Invoke a)"

definition takes_effect ::
  "(nat \<Rightarrow> nat list) \<Rightarrow> ('c \<Rightarrow> bool) \<Rightarrow> keymap_trigger list \<Rightarrow> keymap_trigger list
   \<Rightarrow> ('a, 'c) compiled_binding list \<Rightarrow> ('a, 'c) compiled_binding \<Rightarrow> bool" where
  "takes_effect lower context_active cands active later b \<longleftrightarrow>
     context_active (cb_context b) \<and> next_trigger lower cands active (cb_sequence b) \<noteq> None
     \<and> (\<forall>a. cb_action b \<noteq> Unbind_Action a) \<and> \<not> cancelled context_active later b"

text \<open>The last binding that takes effect, as a recursion over the bindings in their order.\<close>

fun last_effective ::
  "(nat \<Rightarrow> nat list) \<Rightarrow> ('c \<Rightarrow> bool) \<Rightarrow> keymap_trigger list \<Rightarrow> keymap_trigger list
   \<Rightarrow> ('a, 'c) compiled_binding list \<Rightarrow> ('a, 'c) compiled_binding option" where
  "last_effective lower context_active cands active [] = None"
| "last_effective lower context_active cands active (b # bs) =
     (case last_effective lower context_active cands active bs of
        Some b' \<Rightarrow> Some b'
      | None \<Rightarrow> if takes_effect lower context_active cands active bs b then Some b else None)"

definition binding_choice ::
  "(nat \<Rightarrow> nat list) \<Rightarrow> keymap_trigger list \<Rightarrow> keymap_trigger list \<Rightarrow> ('a, 'c) compiled_binding
   \<Rightarrow> bool \<times> 'a option \<times> binding_flags \<times> keymap_trigger" where
  "binding_choice lower cands active b =
     (case the (next_trigger lower cands active (cb_sequence b)) of
        (trigger, pending) \<Rightarrow>
          (pending, (case cb_action b of Invoke a \<Rightarrow> Some a | _ \<Rightarrow> None), cb_flags b, trigger))"

text \<open>The unbindings met among the later bindings.\<close>

definition unbindings ::
  "(nat \<Rightarrow> nat list) \<Rightarrow> ('c \<Rightarrow> bool) \<Rightarrow> keymap_trigger list \<Rightarrow> keymap_trigger list
   \<Rightarrow> ('a, 'c) compiled_binding list \<Rightarrow> (keymap_trigger list \<times> 'a) set" where
  "unbindings lower context_active cands active bs =
     {(cb_sequence u, a) | u a. u \<in> set bs \<and> context_active (cb_context u) \<and> cb_action u = Unbind_Action a
        \<and> next_trigger lower cands active (cb_sequence u) \<noteq> None}"

lemma unbindings_snoc:
  "unbindings lower act cands active (b # later) = unbindings lower act cands active later
     \<union> (if act (cb_context b) \<and> next_trigger lower cands active (cb_sequence b) \<noteq> None
        then {(cb_sequence b, a) | a. cb_action b = Unbind_Action a} else {})"
  by (auto simp: unbindings_def)

lemma cancelled_unbindings:
  "next_trigger lower cands active (cb_sequence b) \<noteq> None \<Longrightarrow>
     cancelled act later b \<longleftrightarrow> (\<exists>a. cb_action b = Invoke a \<and> (cb_sequence b, a) \<in> unbindings lower act cands active later)"
  by (auto simp: cancelled_def unbindings_def) metis+

lemma select_step:
  assumes "set unbound = unbindings lower act cands active later"
  shows "select_binding lower act cands active unbound (b # bs) =
    (if takes_effect lower act cands active later b then Some (binding_choice lower cands active b)
     else select_binding lower act cands active
            (if act (cb_context b) \<and> next_trigger lower cands active (cb_sequence b) \<noteq> None
             then (case cb_action b of Unbind_Action a \<Rightarrow> unbound @ [(cb_sequence b, a)] | _ \<Rightarrow> unbound) else unbound) bs)"
proof (cases "act (cb_context b) \<and> next_trigger lower cands active (cb_sequence b) \<noteq> None")
  case True
  then obtain t pending where tp: "next_trigger lower cands active (cb_sequence b) = Some (t, pending)" by auto
  have "cancelled act later b \<longleftrightarrow> (\<exists>a. cb_action b = Invoke a \<and> (cb_sequence b, a) \<in> set unbound)"
    using cancelled_unbindings [of lower cands active b act later] True assms by simp
  then show ?thesis
    using True tp by (cases "cb_action b") (auto simp: takes_effect_def binding_choice_def)
next
  case False
  then show ?thesis by (auto simp: takes_effect_def split: option.split)
qed

lemma last_effective_suffix:
  "last_effective lower act cands active ys = Some b \<Longrightarrow> last_effective lower act cands active (xs @ ys) = Some b"
  by (induction xs) auto

lemma select_last_effective:
  assumes "set unbound = unbindings lower act cands active later"
    and "last_effective lower act cands active later = None"
  shows "select_binding lower act cands active unbound (List.rev bs)
    = map_option (binding_choice lower cands active) (last_effective lower act cands active (bs @ later))"
  using assms
proof (induction bs arbitrary: unbound later rule: rev_induct)
  case (snoc b bs)
  let ?unbound = "if act (cb_context b) \<and> next_trigger lower cands active (cb_sequence b) \<noteq> None
      then (case cb_action b of Unbind_Action a \<Rightarrow> unbound @ [(cb_sequence b, a)] | _ \<Rightarrow> unbound) else unbound"
  show ?case
  proof (cases "takes_effect lower act cands active later b")
    case True
    then have "last_effective lower act cands active (b # later) = Some b" using snoc.prems(2) by simp
    from last_effective_suffix [OF this, of bs] show ?thesis
      using True by (simp add: select_step [OF snoc.prems(1)] del: select_binding.simps)
  next
    case False
    then have none: "last_effective lower act cands active (b # later) = None" using snoc.prems(2) by simp
    have "set ?unbound = unbindings lower act cands active (b # later)"
      using snoc.prems(1) by (cases "cb_action b") (auto simp: unbindings_snoc)
    from snoc.IH [OF this none] show ?thesis
      using False by (simp add: select_step [OF snoc.prems(1)] del: select_binding.simps)
  qed
qed simp

section \<open>The active sequence\<close>

text \<open>A started chord is a proper prefix of the keys of some binding.\<close>

definition program_ok :: "('a, 'c) keymap_program \<Rightarrow> bool" where
  "program_ok p \<longleftrightarrow>
     kp_active_sequence p = [] \<or> (\<exists>b \<in> set (kp_bindings p). strict_prefix (kp_active_sequence p) (cb_sequence b))"

lemma last_effective_mem:
  "last_effective lower act cands active bs = Some b \<Longrightarrow>
     b \<in> set bs \<and> act (cb_context b) \<and> next_trigger lower cands active (cb_sequence b) \<noteq> None
     \<and> (\<forall>a. cb_action b \<noteq> Unbind_Action a)"
  by (induction bs) (auto simp: takes_effect_def split: option.splits if_splits)

lemma next_trigger_Some:
  "next_trigger lower cands active s = Some (t, pending) \<longleftrightarrow>
     (\<exists>rest. s = active @ t # rest \<and> pending = (rest \<noteq> []) \<and> list_ex (\<lambda>c. trigger_matches lower c t) cands)"
proof
  assume "next_trigger lower cands active s = Some (t, pending)"
  then obtain rest where "drop (length active) s = t # rest" "take (length active) s = active"
    "pending = (rest \<noteq> [])" "list_ex (\<lambda>c. trigger_matches lower c t) cands"
    by (auto simp: next_trigger_def split: list.splits if_splits)
  then show "\<exists>rest. s = active @ t # rest \<and> pending = (rest \<noteq> []) \<and> list_ex (\<lambda>c. trigger_matches lower c t) cands"
    by (metis append_take_drop_id)
qed (auto simp: next_trigger_def)

lemma next_candidates_spec:
  assumes "cands \<noteq> []"
  shows "next_candidates lower act cands p =
    (case last_effective lower act cands (kp_active_sequence p) (kp_bindings p) of
       None \<Rightarrow> if kp_active_sequence p = [] then (NoMatch, p) else (Consumed, p\<lparr>kp_active_sequence := []\<rparr>)
     | Some b \<Rightarrow>
         (case the (next_trigger lower cands (kp_active_sequence p) (cb_sequence b)) of
            (trigger, True) \<Rightarrow> (Pending, p\<lparr>kp_active_sequence := kp_active_sequence p @ [trigger]\<rparr>)
          | (trigger, False) \<Rightarrow>
              ((case cb_action b of Invoke a \<Rightarrow> Matched a (bf_consumed (cb_flags b)) | _ \<Rightarrow> Consumed),
               p\<lparr>kp_active_sequence := []\<rparr>)))"
  using assms select_last_effective [of "[]" lower act cands "kp_active_sequence p" "[]" "kp_bindings p"]
  by (auto simp: next_candidates_def unbindings_def binding_choice_def
      split: option.split prod.split bool.split compiled_action.split)

lemma next_candidates_ok: "program_ok p \<Longrightarrow> program_ok (snd (next_candidates lower act cands p))"
proof (cases "cands = []")
  case False
  assume p: "program_ok p"
  show ?thesis
  proof (cases "last_effective lower act cands (kp_active_sequence p) (kp_bindings p)")
    case None
    then show ?thesis using p by (simp add: next_candidates_spec [OF False] program_ok_def)
  next
    case (Some b)
    from last_effective_mem [OF Some] obtain t pending
      where b: "b \<in> set (kp_bindings p)" and n: "next_trigger lower cands (kp_active_sequence p) (cb_sequence b) = Some (t, pending)"
      by auto
    have "snd (next_candidates lower act cands p)
        = p\<lparr>kp_active_sequence := (if pending then kp_active_sequence p @ [t] else [])\<rparr>"
      using Some n by (cases pending) (simp_all add: next_candidates_spec [OF False])
    moreover obtain rest where "cb_sequence b = kp_active_sequence p @ t # rest" "pending = (rest \<noteq> [])"
      using n by (auto simp: next_trigger_Some)
    ultimately show ?thesis
      using b by (auto simp: program_ok_def strict_prefix_def prefix_def)
  qed
qed (simp add: next_candidates_def)

text \<open>Of several bindings that take effect the last one is chosen.\<close>

definition effective_at ::
  "(nat \<Rightarrow> nat list) \<Rightarrow> ('c \<Rightarrow> bool) \<Rightarrow> keymap_trigger list \<Rightarrow> keymap_trigger list
   \<Rightarrow> ('a, 'c) compiled_binding list \<Rightarrow> nat \<Rightarrow> bool" where
  "effective_at lower act cands active bs i \<longleftrightarrow>
     i < length bs \<and> takes_effect lower act cands active (drop (Suc i) bs) (bs ! i)"

lemma effective_at_Suc [simp]:
  "effective_at lower act cands active (b # bs) (Suc i) = effective_at lower act cands active bs i"
  by (simp add: effective_at_def)

lemma effective_at_0 [simp]:
  "effective_at lower act cands active (b # bs) 0 = takes_effect lower act cands active bs b"
  by (simp add: effective_at_def)

lemma last_effective_None:
  "last_effective lower act cands active bs = None \<longleftrightarrow> (\<forall>i. \<not> effective_at lower act cands active bs i)"
proof (induction bs)
  case (Cons b bs)
  have "(\<forall>i. \<not> effective_at lower act cands active (b # bs) i)
      \<longleftrightarrow> \<not> takes_effect lower act cands active bs b \<and> (\<forall>i. \<not> effective_at lower act cands active bs i)"
    by (metis effective_at_0 effective_at_Suc not0_implies_Suc)
  with Cons.IH show ?case by (auto split: option.splits)
qed (simp add: effective_at_def)

lemma last_effective_Some:
  "last_effective lower act cands active bs = Some b \<Longrightarrow>
     \<exists>i. effective_at lower act cands active bs i \<and> bs ! i = b \<and> (\<forall>j > i. \<not> effective_at lower act cands active bs j)"
proof (induction bs)
  case (Cons b' bs)
  show ?case
  proof (cases "last_effective lower act cands active bs")
    case None
    then have "takes_effect lower act cands active bs b'" "b = b'"
      using Cons.prems by (auto split: if_splits)
    moreover have "\<not> effective_at lower act cands active (b' # bs) j" if "j > 0" for j
      using None that by (cases j) (simp_all add: last_effective_None)
    ultimately show ?thesis by (intro exI [of _ 0]) auto
  next
    case (Some c)
    then obtain i where i: "effective_at lower act cands active bs i" "bs ! i = b"
      "\<forall>j > i. \<not> effective_at lower act cands active bs j"
      using Cons by auto
    have "\<not> effective_at lower act cands active (b' # bs) j" if "j > Suc i" for j
      using i(3) that by (cases j) auto
    with i show ?thesis by (intro exI [of _ "Suc i"]) auto
  qed
qed simp

lemma effective_at_cong:
  "(\<And>i. effective_at lower act cands active bs i \<Longrightarrow> i \<le> n) \<Longrightarrow> effective_at lower act cands active bs n
   \<Longrightarrow> last_effective lower act cands active bs = Some (bs ! n)"
proof -
  assume most: "\<And>i. effective_at lower act cands active bs i \<Longrightarrow> i \<le> n"
    and n: "effective_at lower act cands active bs n"
  then obtain b where b: "last_effective lower act cands active bs = Some b"
    using last_effective_None by fastforce
  from last_effective_Some [OF b] obtain i where "effective_at lower act cands active bs i" "bs ! i = b"
    "\<forall>j > i. \<not> effective_at lower act cands active bs j" by blast
  then have "i = n" using most n by (metis le_neq_implies_less)
  then show ?thesis using b \<open>bs ! i = b\<close> by simp
qed

lemma push_without_side_mono: "m \<in> set cs \<Longrightarrow> m \<in> set (push_without_side clear cs)"
proof -
  have "m \<in> set cs \<Longrightarrow> m \<in> set (foldl push_unique cs ds)" for ds
    by (induction ds arbitrary: cs) (auto simp: push_unique_def)
  then show "m \<in> set cs \<Longrightarrow> m \<in> set (push_without_side clear cs)" by (simp add: push_without_side_def)
qed

lemma input_candidates_self: "m \<in> set (input_candidates m)"
  by (simp add: input_candidates_def Let_def push_without_side_mono)

lemma candidates_not_empty [simp]: "candidates input \<noteq> []"
proof -
  have "input_candidates m \<noteq> []" for m using input_candidates_self [of m] by auto
  then show ?thesis by (cases input) (auto simp: candidates_def catch_all_candidates_def Let_def)
qed

text \<open>
  C38.  A key or scroll event invokes the last binding of the keymap that takes effect: its context is active,
  it continues the keys typed so far with one of the event's triggers, and no later active unbinding names
  its keys and action.  The outcome is \<open>Matched\<close> with the binding's flag when its keys are complete,
  \<open>Consumed\<close> for a binding to no action, and \<open>Pending\<close> when keys are left, which are the only case that
  leaves a started chord; the typed keys then still are a proper prefix of a binding.
\<close>

theorem matcher_last_effective:
  assumes "effective_at lower act (candidates input) (kp_active_sequence p) (kp_bindings p) n"
    and "\<And>j. effective_at lower act (candidates input) (kp_active_sequence p) (kp_bindings p) j \<Longrightarrow> j \<le> n"
    and "b = kp_bindings p ! n"
    and "program_ok p"
  shows "program_ok (snd (next_input lower act input p))
    \<and> (\<exists>trigger rest. cb_sequence b = kp_active_sequence p @ trigger # rest
         \<and> list_ex (\<lambda>c. trigger_matches lower c trigger) (candidates input)
         \<and> next_input lower act input p =
             (if rest \<noteq> [] then (Pending, p\<lparr>kp_active_sequence := kp_active_sequence p @ [trigger]\<rparr>)
              else ((case cb_action b of Invoke a \<Rightarrow> Matched a (bf_consumed (cb_flags b)) | _ \<Rightarrow> Consumed),
                    p\<lparr>kp_active_sequence := []\<rparr>)))"
proof -
  have sel: "last_effective lower act (candidates input) (kp_active_sequence p) (kp_bindings p) = Some b"
    using effective_at_cong [OF assms(2) assms(1)] assms(3) by simp
  obtain t pending where n: "next_trigger lower (candidates input) (kp_active_sequence p) (cb_sequence b) = Some (t, pending)"
    using last_effective_mem [OF sel] by auto
  have "next_input lower act input p =
      (if pending then (Pending, p\<lparr>kp_active_sequence := kp_active_sequence p @ [t]\<rparr>)
       else ((case cb_action b of Invoke a \<Rightarrow> Matched a (bf_consumed (cb_flags b)) | _ \<Rightarrow> Consumed),
             p\<lparr>kp_active_sequence := []\<rparr>))"
    using sel n by (cases pending) (simp_all add: next_input_def next_candidates_spec)
  moreover have "program_ok (snd (next_input lower act input p))"
    unfolding next_input_def by (rule next_candidates_ok [OF assms(4)])
  ultimately show ?thesis
    using n by (auto simp: next_trigger_Some)
qed

text \<open>
  Every input is bound twice and the later binding is taken back by an unbinding, so the earlier one runs.
\<close>

definition example_program :: "(nat, unit) keymap_program" where
  "example_program =
     (let binding = \<lambda>action. \<lparr>cb_context = (), cb_sequence = [\<lparr>kt_modifiers = default_modifiers, kt_key = CatchAll\<rparr>],
                                cb_action = action, cb_flags = default_consumed\<rparr>
      in \<lparr>kp_bindings = [binding (Invoke 1), binding (Invoke 2), binding (Unbind_Action 2)],
          kp_active_sequence = []\<rparr>)"

lemma example_effective:
  "effective_at (\<lambda>c. [c]) (\<lambda>_. True) (candidates (Scroll_Input True default_modifiers)) [] (kp_bindings example_program) j
   \<longleftrightarrow> j = 0"
proof -
  have "list_ex (\<lambda>c. trigger_matches (\<lambda>c. [c]) c \<lparr>kt_modifiers = default_modifiers, kt_key = CatchAll\<rparr>)
      (candidates (Scroll_Input True default_modifiers))"
    by code_simp
  then show ?thesis
    by (auto simp: effective_at_def example_program_def Let_def takes_effect_def cancelled_def next_trigger_def less_Suc_eq
        numeral_3_eq_3)
qed

theorem matcher_last_effective_witness:
  "program_ok example_program
   \<and> fst (next_input (\<lambda>c. [c]) (\<lambda>_. True) (Scroll_Input True default_modifiers) example_program)
       = Matched 1 (bf_consumed default_consumed)"
proof -
  let ?b = "kp_bindings example_program ! 0"
  have ok: "program_ok example_program" and active: "kp_active_sequence example_program = []"
    and b: "cb_sequence ?b = [\<lparr>kt_modifiers = default_modifiers, kt_key = CatchAll\<rparr>]" "cb_action ?b = Invoke 1"
      "cb_flags ?b = default_consumed"
    by (simp_all add: example_program_def Let_def program_ok_def)
  from matcher_last_effective [of "\<lambda>c. [c]" "\<lambda>_. True" "Scroll_Input True default_modifiers" example_program 0 ?b]
  show ?thesis using ok b by (auto simp: example_effective active)
qed

section \<open>The runtime\<close>

text \<open>The runtime's operations, as events of its owner.\<close>

definition empty_keymap :: "'v keymap_file" where
  "empty_keymap = \<lparr>kf_sections = [], kf_diagnostics = []\<rparr>"

definition new_runtime ::
  "'v read_outcome \<Rightarrow> 'v binding_snapshot list \<Rightarrow> ('v keymap_action \<Rightarrow> string + 'a option)
   \<Rightarrow> (keymap_context \<Rightarrow> string + 'c) \<Rightarrow> ('v, 'a, 'c) keymap_runtime" where
  "new_runtime outcome builtins resolve compile_context =
     (let (program, diagnostics) = compile builtins resolve compile_context;
          rt = \<lparr>rt_snapshot = \<lparr>sn_keymap = empty_keymap, sn_effective_bindings = builtins,
                              sn_diagnostics = diagnostics, sn_revision = 0\<rparr>,
                rt_built_in_bindings = builtins, rt_program = program\<rparr>
      in snd (reload outcome resolve compile_context rt))"

datatype ('v, 'a, 'c) runtime_event =
    Reload_Event "'v read_outcome" "'v keymap_action \<Rightarrow> string + 'a option" "keymap_context \<Rightarrow> string + 'c"
  | Edit_Event "string + unit" "'v read_outcome" "'v keymap_action \<Rightarrow> string + 'a option" "keymap_context \<Rightarrow> string + 'c"
  | Sync_Event "'v binding_snapshot list" "'v keymap_action \<Rightarrow> string + 'a option" "keymap_context \<Rightarrow> string + 'c"
  | Next_Event "keymap_trigger list" "'c \<Rightarrow> bool"

fun runtime_step ::
  "(nat \<Rightarrow> nat list) \<Rightarrow> ('v, 'a, 'c) runtime_event \<Rightarrow> ('v, 'a, 'c) keymap_runtime \<Rightarrow> ('v, 'a, 'c) keymap_runtime" where
  "runtime_step lower (Reload_Event outcome resolve cc) rt = snd (reload outcome resolve cc rt)"
| "runtime_step lower (Edit_Event written outcome resolve cc) rt = snd (edit_keymap written outcome resolve cc rt)"
| "runtime_step lower (Sync_Event builtins resolve cc) rt = sync_config builtins resolve cc rt"
| "runtime_step lower (Next_Event cands context_active) rt =
     rt\<lparr>rt_program := snd (next_candidates lower context_active cands (rt_program rt))\<rparr>"

text \<open>
  What the events ask for, without the runtime's state: the file that was read last without an error, the last
  built-in bindings, and the functions the caller last passed with either.
\<close>

record ('v, 'a, 'c) keymap_request =
  rq_file :: "'v keymap_file"
  rq_builtins :: "'v binding_snapshot list"
  rq_resolve :: "'v keymap_action \<Rightarrow> string + 'a option"
  rq_context :: "keymap_context \<Rightarrow> string + 'c"

fun request_step :: "('v, 'a, 'c) runtime_event \<Rightarrow> ('v, 'a, 'c) keymap_request \<Rightarrow> ('v, 'a, 'c) keymap_request" where
  "request_step (Reload_Event (Parsed file) resolve cc) rq = rq\<lparr>rq_file := file, rq_resolve := resolve, rq_context := cc\<rparr>"
| "request_step (Edit_Event (Inr _) (Parsed file) resolve cc) rq = rq\<lparr>rq_file := file, rq_resolve := resolve, rq_context := cc\<rparr>"
| "request_step (Sync_Event builtins resolve cc) rq = rq\<lparr>rq_builtins := builtins, rq_resolve := resolve, rq_context := cc\<rparr>"
| "request_step _ rq = rq"

definition first_request ::
  "'v read_outcome \<Rightarrow> 'v binding_snapshot list \<Rightarrow> ('v keymap_action \<Rightarrow> string + 'a option)
   \<Rightarrow> (keymap_context \<Rightarrow> string + 'c) \<Rightarrow> ('v, 'a, 'c) keymap_request" where
  "first_request outcome builtins resolve cc =
     \<lparr>rq_file = (case outcome of Parsed file \<Rightarrow> file | _ \<Rightarrow> empty_keymap), rq_builtins = builtins, rq_resolve = resolve, rq_context = cc\<rparr>"

text \<open>The runtime serves a request: the program is the compiled form of the file over the built-in bindings.\<close>

definition serves :: "('v, 'a, 'c) keymap_request \<Rightarrow> ('v, 'a, 'c) keymap_runtime \<Rightarrow> bool" where
  "serves rq rt \<longleftrightarrow>
     sn_keymap (rt_snapshot rt) = rq_file rq \<and> rt_built_in_bindings rt = rq_builtins rq
     \<and> sn_effective_bindings (rt_snapshot rt) = effective_bindings (rq_builtins rq) (rq_file rq)
     \<and> kp_bindings (rt_program rt)
         = kp_bindings (fst (compile (effective_bindings (rq_builtins rq) (rq_file rq)) (rq_resolve rq) (rq_context rq)))
     \<and> program_ok (rt_program rt)"

lemma compile_ok: "program_ok (fst (compile bs resolve compile_context))"
  by (simp add: compile_def program_ok_def Let_def)

lemma serves_bump [simp]: "serves rq (bump_revision rt) = serves rq rt"
  by (simp add: serves_def bump_revision_def)

lemma rebuild_serves:
  "sn_keymap (rt_snapshot rt) = rq_file rq \<Longrightarrow> rt_built_in_bindings rt = rq_builtins rq \<Longrightarrow>
     serves rq (rebuild_effective_bindings (rq_resolve rq) (rq_context rq) rt)"
  by (simp add: serves_def rebuild_effective_bindings_def Let_def case_prod_beta compile_ok)

lemma reload_serves:
  assumes "serves rq rt"
  shows "serves (request_step (Reload_Event outcome resolve cc) rq) (snd (reload outcome resolve cc rt))"
proof (cases outcome)
  case (Parsed km)
  then show ?thesis
    using assms rebuild_serves [of "rt\<lparr>rt_snapshot := (rt_snapshot rt)\<lparr>sn_keymap := km\<rparr>\<rparr>"
        "rq\<lparr>rq_file := km, rq_resolve := resolve, rq_context := cc\<rparr>"]
    by (simp add: reload_def Let_def serves_def [of rq])
qed (use assms in \<open>simp_all add: reload_def Let_def, simp add: serves_def\<close>)

lemma next_candidates_bindings [simp]:
  "kp_bindings (snd (next_candidates lower act cands p)) = kp_bindings p"
  by (auto simp: next_candidates_def split: option.split)

lemma edit_serves:
  assumes "serves rq rt"
  shows "serves (request_step (Edit_Event written outcome resolve cc) rq) (snd (edit_keymap written outcome resolve cc rt))"
proof (cases written)
  case (Inr w)
  then have "snd (edit_keymap written outcome resolve cc rt) = snd (reload outcome resolve cc rt)"
    by (simp add: edit_keymap_def split: prod.split sum.split)
  then show ?thesis using reload_serves [OF assms, of outcome resolve cc] Inr by (cases outcome) simp_all
qed (use assms in \<open>simp add: edit_keymap_def\<close>)

lemma runtime_step_serves: "serves rq rt \<Longrightarrow> serves (request_step event rq) (runtime_step lower event rt)"
proof (induction event rq rule: request_step.induct)
  case (3 builtins resolve cc rq)
  then show ?case
    using rebuild_serves [of "rt\<lparr>rt_built_in_bindings := builtins\<rparr>"
        "rq\<lparr>rq_builtins := builtins, rq_resolve := resolve, rq_context := cc\<rparr>"]
    by (simp add: sync_config_def serves_def [of rq])
qed (use reload_serves edit_serves in \<open>fastforce simp: serves_def next_candidates_ok\<close>)+

lemma effective_bindings_default: "effective_bindings builtins empty_keymap = builtins"
  by (simp add: effective_bindings_def empty_keymap_def use_builtin_defaults_def)

lemma new_runtime_serves: "serves (first_request outcome builtins resolve cc) (new_runtime outcome builtins resolve cc)"
proof -
  let ?rq = "\<lparr>rq_file = empty_keymap, rq_builtins = builtins, rq_resolve = resolve, rq_context = cc\<rparr>"
  have "request_step (Reload_Event outcome resolve cc) ?rq = first_request outcome builtins resolve cc"
    by (cases outcome) (simp_all add: first_request_def)
  moreover have "serves (request_step (Reload_Event outcome resolve cc) ?rq) (new_runtime outcome builtins resolve cc)"
    unfolding new_runtime_def Let_def case_prod_beta
    by (rule reload_serves) (simp add: serves_def effective_bindings_default compile_ok)
  ultimately show ?thesis by simp
qed

text \<open>
  C39.  From its creation on, through any sequence of reloads and edits (unreadable, malformed or accepted files, failed
  writes), changes of the built-in bindings and key events, each with its own functions for actions and contexts:
  the runtime's keymap is the file that was accepted last in the sequence (the empty one before the first),
  its effective bindings are the enabled built-ins of the last change followed by the entries of that file, its
  matcher runs the compiled form of exactly these, and a started chord is a proper prefix of one of them.  A
  malformed file changes only the diagnostics and the revision.
\<close>

theorem keymap_runtime_consistent:
  "serves (fold request_step events (first_request outcome builtins resolve cc))
     (fold (runtime_step lower) events (new_runtime outcome builtins resolve cc))
   \<and> (let rt = fold (runtime_step lower) events (new_runtime outcome builtins resolve cc);
          rt' = runtime_step lower (Reload_Event (Parse_Error message) resolve' cc') rt
      in rt_program rt' = rt_program rt \<and> sn_keymap (rt_snapshot rt') = sn_keymap (rt_snapshot rt)
         \<and> sn_effective_bindings (rt_snapshot rt') = sn_effective_bindings (rt_snapshot rt))"
proof -
  have "serves (fold request_step events rq) (fold (runtime_step lower) events rt)" if "serves rq rt" for rq rt
    using that by (induction events arbitrary: rq rt) (auto simp: runtime_step_serves)
  then show ?thesis
    by (simp add: new_runtime_serves reload_def bump_revision_def Let_def)
qed

end
