(* ===== verification/Glyph_Atlas.thy ===== *)
theory Glyph_Atlas
  imports Bootty_Prelude "HOL-Library.Word"
begin

text \<open>
  The texture atlas of rasterized glyphs, \<^verbatim>\<open>crates/bootty-ui/src/terminal_text_atlas/atlas.rs\<close>: the packing of
  rectangles and the pixels they hold.  Numbers of type \<^verbatim>\<open>u32\<close> are naturals with the saturating or checked
  operation that the source calls.  Equality of keys compares stored hashes first; these are functions of the face
  and the text, so that keys are compared by their values here.
\<close>

section \<open>Data\<close>

definition MAX_ATLAS_DIM :: nat where
  "MAX_ATLAS_DIM = 4096"

record 'f glyph_key =
  gk_face :: 'f
  gk_text :: string
  gk_dilation :: nat
  gk_font_size_bits :: nat
  gk_pixels_per_point_bits :: nat
  gk_width :: nat
  gk_height :: nat

record atlas_entry =
  ae_x :: nat
  ae_y :: nat
  ae_width :: nat
  ae_height :: nat

record atlas_record =
  ar_entry :: atlas_entry
  ar_is_color_glyph :: bool
  ar_offset :: "int \<times> int"

record glyph_raster =
  gr_pixels :: "8 word list"
  gr_color :: bool
  gr_width :: nat
  gr_height :: nat
  gr_offset :: "int \<times> int"

datatype atlas_format = Alpha | Bgr | Rgba

definition depth :: "atlas_format \<Rightarrow> nat" where
  "depth f = (case f of Alpha \<Rightarrow> 1 | Bgr \<Rightarrow> 3 | Rgba \<Rightarrow> 4)"

datatype atlas_error = CapacityExceeded

record 'f glyph_atlas =
  ga_width :: nat
  ga_height :: nat
  ga_format :: atlas_format
  ga_allocations :: "atlas_entry list"
  ga_entries :: "'f glyph_key \<rightharpoonup> atlas_record"
  ga_pixels :: "8 word list"
  ga_modified :: nat
  ga_dirty_regions :: "(nat \<times> atlas_entry) list"
  ga_next_x :: nat
  ga_next_y :: nat
  ga_row_height :: nat
  ga_resized :: nat
  ga_no_fit_at_least :: "(nat \<times> nat) option"

section \<open>Construction\<close>

definition atlas_byte_len :: "nat \<Rightarrow> nat \<Rightarrow> nat \<Rightarrow> atlas_error + nat" where
  "atlas_byte_len width height dep =
     (case Option.bind (checked_mul 32 width height) (\<lambda>pixels. checked_mul 32 pixels dep) of
        Some bytes \<Rightarrow> Inr bytes
      | None \<Rightarrow> Inl CapacityExceeded)"

definition from_pixels :: "nat \<Rightarrow> nat \<Rightarrow> atlas_format \<Rightarrow> 8 word list \<Rightarrow> 'f glyph_atlas" where
  "from_pixels width height format pixels =
     \<lparr>ga_width = width, ga_height = height, ga_format = format, ga_allocations = [], ga_entries = Map.empty,
      ga_pixels = pixels, ga_modified = 0, ga_dirty_regions = [], ga_next_x = 1, ga_next_y = 1,
      ga_row_height = 0, ga_resized = 0, ga_no_fit_at_least = None\<rparr>"

definition try_with_format :: "nat \<Rightarrow> nat \<Rightarrow> atlas_format \<Rightarrow> nat \<Rightarrow> atlas_error + 'f glyph_atlas" where
  "try_with_format width height format byte_limit =
     (let width = max width 1;
          height = max height 1
      in case atlas_byte_len width height (depth format) of
           Inl e \<Rightarrow> Inl e
         | Inr byte_len \<Rightarrow>
             if byte_limit < byte_len then Inl CapacityExceeded
             else Inr (from_pixels width height format (replicate byte_len 0)))"

definition with_format :: "nat \<Rightarrow> nat \<Rightarrow> atlas_format \<Rightarrow> atlas_error + 'f glyph_atlas" where
  "with_format width height format = try_with_format width height format (2 ^ 64 - 1)"

definition new_atlas :: "nat \<Rightarrow> nat \<Rightarrow> atlas_error + 'f glyph_atlas" where
  "new_atlas width height = with_format width height Alpha"

definition default_atlas :: "'f glyph_atlas" where
  "default_atlas = from_pixels 1024 1024 Rgba (replicate (1024 * 1024 * 4) 0)"

section \<open>Reserving a rectangle\<close>

definition rects_overlap :: "atlas_entry \<Rightarrow> atlas_entry \<Rightarrow> bool" where
  "rects_overlap a b =
     (ae_x a < sat_add 32 (ae_x b) (ae_width b) \<and> ae_x b < sat_add 32 (ae_x a) (ae_width a)
      \<and> ae_y a < sat_add 32 (ae_y b) (ae_height b) \<and> ae_y b < sat_add 32 (ae_y a) (ae_height a))"

definition reserve_next_shelf_slot :: "nat \<Rightarrow> nat \<Rightarrow> 'f glyph_atlas \<Rightarrow> atlas_entry option \<times> 'f glyph_atlas" where
  "reserve_next_shelf_slot width height a =
     (let usable_right = ga_width a - 1;
          usable_bottom = ga_height a - 1;
          max_x = usable_right - width;
          max_y = usable_bottom - height;
          a = (if max_x < ga_next_x a
               then a\<lparr>ga_next_x := 1, ga_next_y := sat_add 32 (ga_next_y a) (max (ga_row_height a) 1), ga_row_height := 0\<rparr>
               else a);
          entry = \<lparr>ae_x = ga_next_x a, ae_y = ga_next_y a, ae_width = width, ae_height = height\<rparr>
      in if max_y < ga_next_y a then (None, a)
         else if list_ex (\<lambda>used. rects_overlap used entry) (ga_allocations a) then (None, a)
         else (Some entry,
               a\<lparr>ga_allocations := ga_allocations a @ [entry],
                 ga_next_x := sat_add 32 (sat_add 32 (ga_next_x a) width) 1,
                 ga_row_height := max (ga_row_height a) (sat_add 32 height 1)\<rparr>))"

text \<open>Sorted without duplicates: \<^verbatim>\<open>sort_unstable\<close> and \<^verbatim>\<open>dedup\<close>.\<close>

definition edge_positions :: "nat \<Rightarrow> nat list \<Rightarrow> nat list" where
  "edge_positions bound edges = remdups_adj (sort (filter (\<lambda>x. 1 \<le> x \<and> x \<le> bound) (1 # edges)))"

definition first_fit_in_gaps :: "nat \<Rightarrow> nat \<Rightarrow> 'f glyph_atlas \<Rightarrow> atlas_entry option" where
  "first_fit_in_gaps width height a =
     (let max_x = (ga_width a - 1) - width;
          max_y = (ga_height a - 1) - height;
          columns = edge_positions max_x (map (\<lambda>used. sat_add 32 (ae_x used) (ae_width used)) (ga_allocations a));
          rows = edge_positions max_y (map (\<lambda>used. sat_add 32 (ae_y used) (ae_height used)) (ga_allocations a))
      in find (\<lambda>entry. list_all (\<lambda>used. \<not> rects_overlap used entry) (ga_allocations a))
           (concat (map (\<lambda>y. map (\<lambda>x. \<lparr>ae_x = x, ae_y = y, ae_width = width, ae_height = height\<rparr>) columns) rows)))"

definition reserve_rect :: "nat \<Rightarrow> nat \<Rightarrow> 'f glyph_atlas \<Rightarrow> atlas_entry option \<times> 'f glyph_atlas" where
  "reserve_rect width height a =
     (let width = max width 1;
          height = max height 1
      in case (checked_add 32 width 2, checked_add 32 height 2) of
           (Some w2, Some h2) \<Rightarrow>
             if ga_width a < w2 \<or> ga_height a < h2 then (None, a)
             else if (case ga_no_fit_at_least a of None \<Rightarrow> False | Some (fw, fh) \<Rightarrow> fw \<le> width \<and> fh \<le> height)
             then (None, a)
             else (case reserve_next_shelf_slot width height a of
                     (Some entry, a) \<Rightarrow> (Some entry, a)
                   | (None, a) \<Rightarrow>
                       (case first_fit_in_gaps width height a of
                          Some entry \<Rightarrow> (Some entry, a\<lparr>ga_allocations := ga_allocations a @ [entry]\<rparr>)
                        | None \<Rightarrow> (None, a\<lparr>ga_no_fit_at_least := Some (width, height)\<rparr>)))
         | _ \<Rightarrow> (None, a))"

section \<open>Writing pixels\<close>

definition atlas_pixel_offset :: "nat \<Rightarrow> nat \<Rightarrow> nat \<Rightarrow> nat \<Rightarrow> nat option" where
  "atlas_pixel_offset x y width dep =
     Option.bind (checked_mul 32 y width) (\<lambda>row. Option.bind (checked_add 32 row x) (\<lambda>pixel. checked_mul 32 pixel dep))"

record blit_target =
  bt_atlas_width :: nat
  bt_depth :: nat
  bt_entry :: atlas_entry

record blit_source =
  bs_pixels :: "8 word list"
  bs_width :: nat
  bs_x :: nat
  bs_y :: nat
  bs_clear_missing :: bool

text \<open>The bytes from a position on are replaced; the caller has checked that they are in range.\<close>

definition write_at :: "nat \<Rightarrow> 'a list \<Rightarrow> 'a list \<Rightarrow> 'a list" where
  "write_at start bytes pixels = take start pixels @ bytes @ drop (start + length bytes) pixels"

definition blit_row :: "blit_target \<Rightarrow> blit_source \<Rightarrow> nat \<Rightarrow> nat \<Rightarrow> 8 word list \<Rightarrow> 8 word list" where
  "blit_row target source row_bytes y pixels =
     (case Option.bind (checked_add 32 (ae_y (bt_entry target)) y)
             (\<lambda>row. atlas_pixel_offset (ae_x (bt_entry target)) row (bt_atlas_width target) (bt_depth target)) of
        None \<Rightarrow> pixels
      | Some dst_start \<Rightarrow>
          (case checked_add 64 dst_start row_bytes of
             None \<Rightarrow> pixels
           | Some dst_end \<Rightarrow>
               if length pixels < dst_end then pixels
               else (let pixels = (if bs_clear_missing source then write_at dst_start (replicate row_bytes 0) pixels
                                   else pixels)
                     in case Option.bind (checked_add 32 (bs_y source) y)
                               (\<lambda>row. atlas_pixel_offset (bs_x source) row (bs_width source) (bt_depth target)) of
                          None \<Rightarrow> pixels
                        | Some src_start \<Rightarrow>
                            (case checked_add 64 src_start row_bytes of
                               None \<Rightarrow> pixels
                             | Some src_end \<Rightarrow>
                                 if length (bs_pixels source) < src_end then pixels
                                 else write_at dst_start (take row_bytes (drop src_start (bs_pixels source))) pixels))))"

definition blit_pixels_from_source :: "blit_target \<Rightarrow> blit_source \<Rightarrow> 8 word list \<Rightarrow> 8 word list" where
  "blit_pixels_from_source target source pixels =
     (case atlas_byte_len (ae_width (bt_entry target)) 1 (bt_depth target) of
        Inl e \<Rightarrow> pixels
      | Inr row_bytes \<Rightarrow> fold (blit_row target source row_bytes) [0..<ae_height (bt_entry target)] pixels)"

definition blit_into :: "atlas_entry \<Rightarrow> blit_source \<Rightarrow> 'f glyph_atlas \<Rightarrow> 'f glyph_atlas" where
  "blit_into entry source a =
     (let modified = sat_add 64 (ga_modified a) 1
      in a\<lparr>ga_pixels := blit_pixels_from_source
              \<lparr>bt_atlas_width = ga_width a, bt_depth = depth (ga_format a), bt_entry = entry\<rparr> source (ga_pixels a),
           ga_modified := modified,
           ga_dirty_regions := ga_dirty_regions a @ [(modified, entry)]\<rparr>)"

definition set_pixels :: "atlas_entry \<Rightarrow> 8 word list \<Rightarrow> 'f glyph_atlas \<Rightarrow> 'f glyph_atlas" where
  "set_pixels entry alpha a =
     blit_into entry \<lparr>bs_pixels = alpha, bs_width = ae_width entry, bs_x = 0, bs_y = 0, bs_clear_missing = False\<rparr> a"

definition set_from_larger ::
  "atlas_entry \<Rightarrow> 8 word list \<Rightarrow> nat \<Rightarrow> nat \<Rightarrow> nat \<Rightarrow> 'f glyph_atlas \<Rightarrow> 'f glyph_atlas" where
  "set_from_larger entry alpha source_width source_x source_y a =
     blit_into entry
       \<lparr>bs_pixels = alpha, bs_width = source_width, bs_x = source_x, bs_y = source_y, bs_clear_missing = True\<rparr> a"

definition alpha_to_atlas_pixels :: "atlas_format \<Rightarrow> 8 word list \<Rightarrow> 8 word list" where
  "alpha_to_atlas_pixels format alpha =
     (case format of
        Alpha \<Rightarrow> alpha
      | Bgr \<Rightarrow> concat (map (\<lambda>v. [v, v, v]) alpha)
      | Rgba \<Rightarrow> concat (map (\<lambda>v. [255, 255, 255, v]) alpha))"

section \<open>Growing and recycling\<close>

text \<open>Whole old rows, copied to the starts of the new rows.\<close>

function copy_rows :: "nat \<Rightarrow> nat \<Rightarrow> 'a list \<Rightarrow> 'a list \<Rightarrow> 'a list" where
  "copy_rows old_stride new_stride old_pixels pixels =
     (if 0 < old_stride \<and> old_stride \<le> length old_pixels \<and> new_stride \<le> length pixels
      then take old_stride old_pixels @ drop old_stride (take new_stride pixels)
           @ copy_rows old_stride new_stride (drop old_stride old_pixels) (drop new_stride pixels)
      else pixels)"
  by auto
termination
  by (relation "measure (\<lambda>(old_stride, new_stride, old_pixels, pixels). length old_pixels)") auto

declare copy_rows.simps [simp del]

definition try_grow_with_byte_limit ::
  "nat \<Rightarrow> nat \<Rightarrow> nat \<Rightarrow> 'f glyph_atlas \<Rightarrow> (atlas_error + unit) \<times> 'f glyph_atlas" where
  "try_grow_with_byte_limit width height byte_limit a =
     (let width = max width (ga_width a);
          height = max height (ga_height a);
          dep = depth (ga_format a)
      in if width = ga_width a \<and> height = ga_height a then (Inr (), a)
         else (case atlas_byte_len width height dep of
                 Inl e \<Rightarrow> (Inl e, a)
               | Inr byte_len \<Rightarrow>
                   if byte_limit < byte_len then (Inl CapacityExceeded, a)
                   else (case (atlas_byte_len (ga_width a) 1 dep, atlas_byte_len width 1 dep) of
                           (Inr old_stride, Inr new_stride) \<Rightarrow>
                             (Inr (),
                              a\<lparr>ga_width := width, ga_height := height,
                                ga_pixels := copy_rows old_stride new_stride (ga_pixels a) (replicate byte_len 0),
                                ga_modified := sat_add 64 (ga_modified a) 1,
                                ga_resized := sat_add 64 (ga_resized a) 1,
                                ga_no_fit_at_least := None\<rparr>)
                         | _ \<Rightarrow> (Inl CapacityExceeded, a))))"

definition grow :: "nat \<Rightarrow> nat \<Rightarrow> 'f glyph_atlas \<Rightarrow> (atlas_error + unit) \<times> 'f glyph_atlas" where
  "grow width height a = try_grow_with_byte_limit width height (2 ^ 64 - 1) a"

definition grow_for_glyph :: "nat \<Rightarrow> nat \<Rightarrow> 'f glyph_atlas \<Rightarrow> bool \<times> 'f glyph_atlas" where
  "grow_for_glyph width height a =
     (let target_width = min (if ga_width a < sat_add 32 width 2 then max (sat_add 32 width 2) (ga_width a)
                              else ga_width a) MAX_ATLAS_DIM;
          target_height = min (if ga_height a < sat_add 32 height 2 then max (sat_add 32 height 2) (ga_height a)
                               else sat_mul 32 (ga_height a) 2) MAX_ATLAS_DIM
      in if target_width = ga_width a \<and> target_height = ga_height a then (False, a)
         else (case grow target_width target_height a of (Inr _, a) \<Rightarrow> (True, a) | (Inl _, a) \<Rightarrow> (False, a)))"

definition recycle :: "'f glyph_atlas \<Rightarrow> 'f glyph_atlas" where
  "recycle a =
     a\<lparr>ga_allocations := [], ga_entries := Map.empty, ga_pixels := replicate (length (ga_pixels a)) 0,
       ga_dirty_regions := [], ga_next_x := 1, ga_next_y := 1, ga_row_height := 0, ga_no_fit_at_least := None,
       ga_modified := sat_add 64 (ga_modified a) 1, ga_resized := sat_add 64 (ga_resized a) 1\<rparr>"

section \<open>Inserting a glyph\<close>

text \<open>The loop that reserves and grows; not returning is the value \<^const>\<open>None\<close>.\<close>

partial_function (option) reserve_growing ::
  "nat \<Rightarrow> nat \<Rightarrow> 'f glyph_atlas \<Rightarrow> (atlas_entry option \<times> 'f glyph_atlas) option" where
  "reserve_growing width height a =
     (case reserve_rect width height a of
        (Some entry, a) \<Rightarrow> Some (Some entry, a)
      | (None, a) \<Rightarrow>
          (case grow_for_glyph width height a of
             (grown, a) \<Rightarrow> if grown then reserve_growing width height a else Some (None, a)))"

definition reserve_recycling ::
  "nat \<Rightarrow> nat \<Rightarrow> 'f glyph_atlas \<Rightarrow> (atlas_entry option \<times> 'f glyph_atlas) option" where
  "reserve_recycling width height a =
     map_option (\<lambda>(reserved, a).
       if reserved = None
          \<and> (case checked_add 32 width 2 of None \<Rightarrow> False | Some w \<Rightarrow> w \<le> ga_width a)
          \<and> (case checked_add 32 height 2 of None \<Rightarrow> False | Some h \<Rightarrow> h \<le> ga_height a)
       then reserve_rect width height (recycle a) else (reserved, a)) (reserve_growing width height a)"

definition fallback_entry :: atlas_entry where
  "fallback_entry = \<lparr>ae_x = 0, ae_y = 0, ae_width = 1, ae_height = 1\<rparr>"

definition insert_or_get_raster ::
  "'f glyph_key \<Rightarrow> glyph_raster \<Rightarrow> 'f glyph_atlas \<Rightarrow> (atlas_record \<times> 'f glyph_atlas) option" where
  "insert_or_get_raster key raster a =
     (case ga_entries a key of
        Some rec \<Rightarrow> Some (rec, a)
      | None \<Rightarrow>
          (let width = max (gr_width raster) 1;
               height = max (gr_height raster) 1
           in map_option (\<lambda>(reserved, a).
                let entry = (case reserved of Some e \<Rightarrow> e | None \<Rightarrow> fallback_entry);
                    entry = (if ae_width entry \<noteq> width \<or> ae_height entry \<noteq> height
                             then entry\<lparr>ae_width := min (ae_width entry) width, ae_height := min (ae_height entry) height\<rparr>
                             else entry);
                    a = set_pixels entry (gr_pixels raster) a;
                    rec = \<lparr>ar_entry = entry, ar_is_color_glyph = gr_color raster, ar_offset = gr_offset raster\<rparr>
                in (rec, a\<lparr>ga_entries := (ga_entries a)(key \<mapsto> rec)\<rparr>)) (reserve_recycling width height a)))"

definition new_raster :: "8 word list \<Rightarrow> bool \<Rightarrow> nat \<Rightarrow> nat \<Rightarrow> glyph_raster" where
  "new_raster pixels color width height =
     \<lparr>gr_pixels = pixels, gr_color = color, gr_width = width, gr_height = height, gr_offset = (0, 0)\<rparr>"

definition insert_or_get_with_color ::
  "'f glyph_key \<Rightarrow> nat \<Rightarrow> nat \<Rightarrow> 8 word list \<times> bool \<Rightarrow> 'f glyph_atlas \<Rightarrow> ((atlas_entry \<times> bool) \<times> 'f glyph_atlas) option" where
  "insert_or_get_with_color key width height pixels a =
     map_option (\<lambda>(rec, a). ((ar_entry rec, ar_is_color_glyph rec), a))
       (insert_or_get_raster key (new_raster (fst pixels) (snd pixels) width height) a)"

definition insert_or_get_with ::
  "'f glyph_key \<Rightarrow> nat \<Rightarrow> nat \<Rightarrow> 8 word list \<Rightarrow> 'f glyph_atlas \<Rightarrow> (atlas_entry \<times> 'f glyph_atlas) option" where
  "insert_or_get_with key width height pixels a =
     map_option (\<lambda>((entry, _), a). (entry, a)) (insert_or_get_with_color key width height (pixels, False) a)"

definition insert_or_get ::
  "'f glyph_key \<Rightarrow> nat \<Rightarrow> nat \<Rightarrow> 8 word list \<Rightarrow> 'f glyph_atlas \<Rightarrow> (atlas_entry \<times> 'f glyph_atlas) option" where
  "insert_or_get key width height alpha a = insert_or_get_with key width height alpha a"

section \<open>Reading\<close>

definition get_entry :: "'f glyph_key \<Rightarrow> 'f glyph_atlas \<Rightarrow> atlas_entry option" where
  "get_entry key a = map_option ar_entry (ga_entries a key)"

definition atlas_pixel_channel :: "nat \<Rightarrow> nat \<Rightarrow> nat \<Rightarrow> 'f glyph_atlas \<Rightarrow> 8 word option" where
  "atlas_pixel_channel x y channel a =
     (if ga_width a \<le> x \<or> ga_height a \<le> y then None
      else if depth (ga_format a) \<le> channel then None
      else Option.bind (atlas_pixel_offset x y (ga_width a) (depth (ga_format a)))
             (\<lambda>offset. Option.bind (checked_add 64 offset channel) (get_nth (ga_pixels a))))"

definition atlas_pixel :: "nat \<Rightarrow> nat \<Rightarrow> 'f glyph_atlas \<Rightarrow> 8 word option" where
  "atlas_pixel x y a = atlas_pixel_channel x y 0 a"

definition union_atlas_entries :: "atlas_entry \<Rightarrow> atlas_entry \<Rightarrow> atlas_entry" where
  "union_atlas_entries left right =
     (let x = min (ae_x left) (ae_x right);
          y = min (ae_y left) (ae_y right);
          max_x = max (sat_add 32 (ae_x left) (ae_width left)) (sat_add 32 (ae_x right) (ae_width right));
          max_y = max (sat_add 32 (ae_y left) (ae_height left)) (sat_add 32 (ae_y right) (ae_height right))
      in \<lparr>ae_x = x, ae_y = y, ae_width = max_x - x, ae_height = max_y - y\<rparr>)"

text \<open>The versions are in order, so that \<^verbatim>\<open>partition_point\<close> finds the first region after the version.\<close>

definition dirty_rect_since :: "nat \<Rightarrow> 'f glyph_atlas \<Rightarrow> atlas_entry option" where
  "dirty_rect_since modified a =
     (case map snd (dropWhile (\<lambda>(version, _). version \<le> modified) (ga_dirty_regions a)) of
        [] \<Rightarrow> None
      | entry # entries \<Rightarrow> Some (foldl union_atlas_entries entry entries))"

section \<open>Packing\<close>

text \<open>Rectangles inside the border of one pixel; the order of machine integers is that of numbers there.\<close>

definition placed :: "nat \<Rightarrow> nat \<Rightarrow> atlas_entry \<Rightarrow> bool" where
  "placed W H e \<longleftrightarrow> 1 \<le> ae_x e \<and> 1 \<le> ae_y e \<and> 1 \<le> ae_width e \<and> 1 \<le> ae_height e
     \<and> ae_x e + ae_width e < W \<and> ae_y e + ae_height e < H"

definition disjoint_rects :: "atlas_entry \<Rightarrow> atlas_entry \<Rightarrow> bool" where
  "disjoint_rects a b \<longleftrightarrow> ae_x a + ae_width a \<le> ae_x b \<or> ae_x b + ae_width b \<le> ae_x a
     \<or> ae_y a + ae_height a \<le> ae_y b \<or> ae_y b + ae_height b \<le> ae_y a"

lemma sat_add_small: "a + b < 2 ^ w \<Longrightarrow> sat_add w a b = a + b"
  by (simp add: sat_add_def)

lemma overlap_disjoint:
  assumes "ae_x a + ae_width a < 2 ^ 32" "ae_y a + ae_height a < 2 ^ 32"
    and "ae_x b + ae_width b < 2 ^ 32" "ae_y b + ae_height b < 2 ^ 32"
  shows "rects_overlap a b \<longleftrightarrow> \<not> disjoint_rects a b"
  using assms by (auto simp: rects_overlap_def disjoint_rects_def sat_add_small)

text \<open>Positions of a grid, searched row by row: the first hit is the least one.\<close>

definition before :: "nat \<times> nat \<Rightarrow> nat \<times> nat \<Rightarrow> bool" where
  "before p q \<longleftrightarrow> snd p < snd q \<or> snd p = snd q \<and> fst p \<le> fst q"

lemma before_antisym: "before p q \<Longrightarrow> before q p \<Longrightarrow> p = q"
  by (auto simp: before_def prod_eq_iff)

definition grid :: "nat list \<Rightarrow> nat list \<Rightarrow> (nat \<times> nat) list" where
  "grid columns rows = concat (map (\<lambda>y. map (\<lambda>x. (x, y)) columns) rows)"

lemma set_grid [simp]: "set (grid columns rows) = set columns \<times> set rows"
  by (auto simp: grid_def)

lemma sorted_grid: "sorted columns \<Longrightarrow> sorted_wrt (<) rows \<Longrightarrow> sorted_wrt before (grid columns rows)"
proof (induction rows)
  case (Cons y rows)
  have "sorted_wrt before (map (\<lambda>x. (x, y)) columns)"
    using Cons.prems(1) by (simp add: sorted_wrt_map before_def)
  then show ?case
    using Cons by (auto simp: grid_def sorted_wrt_append) (auto simp: before_def)
qed (simp add: grid_def)

lemma find_least:
  "sorted_wrt R xs \<Longrightarrow> find P xs = Some p \<Longrightarrow> q \<in> set xs \<Longrightarrow> P q \<Longrightarrow> p \<noteq> q \<Longrightarrow> R p q"
  by (induction xs) (auto split: if_splits)

lemma find_cong_set: "(\<And>x. x \<in> set xs \<Longrightarrow> P x = Q x) \<Longrightarrow> find P xs = find Q xs"
  by (induction xs) auto

text \<open>A search of fewer positions finds the same one when the least hit is among them.\<close>

lemma find_subgrid:
  assumes "sorted cs" "sorted_wrt (<) rs" "sorted cs'" "sorted_wrt (<) rs'"
    and sub: "set cs' \<subseteq> set cs" "set rs' \<subseteq> set rs"
    and least: "\<And>p. find P (grid cs rs) = Some p \<Longrightarrow> p \<in> set (grid cs' rs')"
  shows "find P (grid cs' rs') = find P (grid cs rs)"
proof (cases "find P (grid cs rs)")
  case None
  then have "find P (grid cs' rs') = None" using sub by (auto simp: find_None_iff)
  with None show ?thesis by simp
next
  case (Some p)
  from find_SomeD [OF Some] have "P p" by simp
  moreover have "p \<in> set (grid cs' rs')" by (rule least [OF Some])
  ultimately obtain q where q: "find P (grid cs' rs') = Some q"
    by (cases "find P (grid cs' rs')") (auto simp only: find_None_iff)
  have "q \<in> set (grid cs rs)" "P q" using find_SomeD [OF q] sub by auto
  with find_least [OF sorted_grid [OF assms(1,2)] Some] have "p = q \<or> before p q" by blast
  moreover have "q = p \<or> before q p"
    using find_least [OF sorted_grid [OF assms(3,4)] q \<open>p \<in> set (grid cs' rs')\<close> \<open>P p\<close>] by blast
  ultimately have "p = q" using before_antisym by blast
  with Some q show ?thesis by simp
qed

section \<open>Equivalence with a scan of every pixel\<close>

definition entry_at :: "nat \<Rightarrow> nat \<Rightarrow> nat \<times> nat \<Rightarrow> atlas_entry" where
  "entry_at width height p = \<lparr>ae_x = fst p, ae_y = snd p, ae_width = width, ae_height = height\<rparr>"

definition free_at :: "'f glyph_atlas \<Rightarrow> nat \<Rightarrow> nat \<Rightarrow> nat \<times> nat \<Rightarrow> bool" where
  "free_at a width height p \<longleftrightarrow> list_all (\<lambda>used. \<not> rects_overlap used (entry_at width height p)) (ga_allocations a)"

text \<open>Every position of the surface from the top left, row by row.\<close>

definition pixel_scan :: "nat \<Rightarrow> nat \<Rightarrow> 'f glyph_atlas \<Rightarrow> atlas_entry option" where
  "pixel_scan width height a =
     map_option (entry_at width height)
       (find (free_at a width height)
          (grid [1..<Suc (ga_width a - 1 - width)] [1..<Suc (ga_height a - 1 - height)]))"

definition packing_ok :: "'f glyph_atlas \<Rightarrow> bool" where
  "packing_ok a \<longleftrightarrow> ga_width a < 2 ^ 32 \<and> ga_height a < 2 ^ 32
     \<and> list_all (placed (ga_width a) (ga_height a)) (ga_allocations a)
     \<and> sorted_wrt disjoint_rects (ga_allocations a)"

lemma first_fit_grid:
  "first_fit_in_gaps width height a =
     map_option (entry_at width height) (find (free_at a width height)
       (grid (edge_positions (ga_width a - 1 - width) (map (\<lambda>u. sat_add 32 (ae_x u) (ae_width u)) (ga_allocations a)))
             (edge_positions (ga_height a - 1 - height) (map (\<lambda>u. sat_add 32 (ae_y u) (ae_height u)) (ga_allocations a)))))"
proof -
  have "concat (map (\<lambda>y. map (\<lambda>x. \<lparr>ae_x = x, ae_y = y, ae_width = width, ae_height = height\<rparr>) cs) rs)
      = map (entry_at width height) (grid cs rs)" for cs rs
    by (simp add: grid_def entry_at_def map_concat comp_def)
  moreover have "(\<lambda>p. list_all (\<lambda>used. \<not> rects_overlap used (entry_at width height p)) (ga_allocations a))
      = free_at a width height"
    by (auto simp: free_at_def)
  ultimately show ?thesis by (simp add: first_fit_in_gaps_def Let_def find_map comp_def)
qed

lemma sorted_remdups_adj_strict: "sorted xs \<Longrightarrow> sorted_wrt (<) (remdups_adj xs :: nat list)"
  by (induction xs rule: remdups_adj.induct) auto

lemma edge_positions_sorted: "sorted_wrt (<) (edge_positions b es)"
  by (simp add: edge_positions_def sorted_remdups_adj_strict)

lemma set_edge_positions: "set (edge_positions b es) = {x \<in> insert 1 (set es). 1 \<le> x \<and> x \<le> b}"
  by (auto simp: edge_positions_def)

text \<open>A free position whose neighbour to the left or above is taken touches the edge of a used rectangle.\<close>

lemma free_at_placed:
  assumes "packing_ok a" "x + width < ga_width a" "y + height < ga_height a"
  shows "free_at a width height (x, y)
    \<longleftrightarrow> (\<forall>u \<in> set (ga_allocations a). disjoint_rects u (entry_at width height (x, y)))"
proof -
  have "rects_overlap u (entry_at width height (x, y)) \<longleftrightarrow> \<not> disjoint_rects u (entry_at width height (x, y))"
    if "u \<in> set (ga_allocations a)" for u
  proof (rule overlap_disjoint)
    have "placed (ga_width a) (ga_height a) u" using assms(1) that by (auto simp: packing_ok_def list_all_iff)
    then show "ae_x u + ae_width u < 2 ^ 32" "ae_y u + ae_height u < 2 ^ 32"
      using assms(1) unfolding placed_def packing_ok_def by linarith+
    show "ae_x (entry_at width height (x, y)) + ae_width (entry_at width height (x, y)) < 2 ^ 32"
      "ae_y (entry_at width height (x, y)) + ae_height (entry_at width height (x, y)) < 2 ^ 32"
      using assms by (auto simp: packing_ok_def entry_at_def)
  qed
  then show ?thesis by (auto simp: free_at_def list_all_iff)
qed

lemma left_edge:
  assumes "packing_ok a" "Suc x + width < ga_width a" "y + height < ga_height a"
    and "free_at a width height (Suc x, y)" "\<not> free_at a width height (x, y)"
  shows "\<exists>u \<in> set (ga_allocations a). ae_x u + ae_width u = Suc x"
proof -
  from assms obtain u where "u \<in> set (ga_allocations a)" "disjoint_rects u (entry_at width height (Suc x, y))"
    "\<not> disjoint_rects u (entry_at width height (x, y))"
    by (fastforce simp: free_at_placed)
  then show ?thesis by (intro bexI [of _ u]) (auto simp: disjoint_rects_def entry_at_def)
qed

lemma top_edge:
  assumes "packing_ok a" "x + width < ga_width a" "Suc y + height < ga_height a"
    and "free_at a width height (x, Suc y)" "\<not> free_at a width height (x, y)"
  shows "\<exists>u \<in> set (ga_allocations a). ae_y u + ae_height u = Suc y"
proof -
  from assms obtain u where "u \<in> set (ga_allocations a)" "disjoint_rects u (entry_at width height (x, Suc y))"
    "\<not> disjoint_rects u (entry_at width height (x, y))"
    by (fastforce simp: free_at_placed)
  then show ?thesis by (intro bexI [of _ u]) (auto simp: disjoint_rects_def entry_at_def)
qed

lemma placed_sat:
  assumes "packing_ok a" "u \<in> set (ga_allocations a)"
  shows "sat_add 32 (ae_x u) (ae_width u) = ae_x u + ae_width u" "sat_add 32 (ae_y u) (ae_height u) = ae_y u + ae_height u"
  using assms by (auto simp: packing_ok_def list_all_iff placed_def intro!: sat_add_small)

lemma first_fit_scan:
  assumes ok: "packing_ok a"
  shows "first_fit_in_gaps width height a = pixel_scan width height a"
proof -
  let ?W = "ga_width a - 1 - width" and ?H = "ga_height a - 1 - height"
  let ?cs = "[1..<Suc ?W]" and ?rs = "[1..<Suc ?H]"
  let ?cs' = "edge_positions ?W (map (\<lambda>u. sat_add 32 (ae_x u) (ae_width u)) (ga_allocations a))"
  let ?rs' = "edge_positions ?H (map (\<lambda>u. sat_add 32 (ae_y u) (ae_height u)) (ga_allocations a))"
  have "find (free_at a width height) (grid ?cs' ?rs') = find (free_at a width height) (grid ?cs ?rs)"
  proof (rule find_subgrid)
    fix p assume p: "find (free_at a width height) (grid ?cs ?rs) = Some p"
    obtain x y where xy: "p = (Suc x, Suc y)" "Suc x \<le> ?W" "Suc y \<le> ?H" "free_at a width height (Suc x, Suc y)"
      using find_SomeD [OF p] by (cases p; cases "fst p"; cases "snd p") auto
    have least: "q = p \<or> before p q" if "q \<in> set (grid ?cs ?rs)" "free_at a width height q" for q
      using find_least [OF sorted_grid [OF sorted_upt sorted_wrt_upt] p that] by blast
    have "x = 0 \<or> \<not> free_at a width height (x, Suc y)"
      using least [of "(x, Suc y)"] xy by (auto simp: before_def simp del: upt_Suc)
    then have "Suc x \<in> set ?cs'"
      using left_edge [OF ok, of x width "Suc y" height] xy placed_sat [OF ok] by (force simp: set_edge_positions)
    moreover have "y = 0 \<or> \<not> free_at a width height (Suc x, y)"
      using least [of "(Suc x, y)"] xy by (auto simp: before_def simp del: upt_Suc)
    then have "Suc y \<in> set ?rs'"
      using top_edge [OF ok, of "Suc x" width y height] xy placed_sat [OF ok] by (force simp: set_edge_positions)
    ultimately show "p \<in> set (grid ?cs' ?rs')" using xy by simp
  next
    show "sorted ?cs'" "sorted_wrt (<) ?rs'"
      using edge_positions_sorted by (simp_all add: strict_sorted_iff)
  qed (auto simp: set_edge_positions simp del: upt_Suc)
  then show ?thesis by (simp add: first_fit_grid pixel_scan_def)
qed

section \<open>Reservations\<close>

definition no_room :: "'f glyph_atlas \<Rightarrow> nat \<Rightarrow> nat \<Rightarrow> bool" where
  "no_room a width height \<longleftrightarrow>
     (\<forall>x y. 1 \<le> x \<and> 1 \<le> y \<and> x + width < ga_width a \<and> y + height < ga_height a
        \<longrightarrow> (\<exists>u \<in> set (ga_allocations a). \<not> disjoint_rects u (entry_at width height (x, y))))"

text \<open>The remembered size is one for which there is no room, and the shelf starts inside the border.\<close>

definition atlas_packed :: "'f glyph_atlas \<Rightarrow> bool" where
  "atlas_packed a \<longleftrightarrow> packing_ok a \<and> 1 \<le> ga_next_x a \<and> 1 \<le> ga_next_y a
     \<and> (case ga_no_fit_at_least a of None \<Rightarrow> True | Some (fw, fh) \<Rightarrow> no_room a fw fh)"

lemma no_room_mono: "no_room a w h \<Longrightarrow> w \<le> w' \<Longrightarrow> h \<le> h' \<Longrightarrow> no_room a w' h'"
proof -
  assume n: "no_room a w h" and le: "w \<le> w'" "h \<le> h'"
  have "\<exists>u \<in> set (ga_allocations a). \<not> disjoint_rects u (entry_at w' h' (x, y))"
    if xy: "1 \<le> x" "1 \<le> y" "x + w' < ga_width a" "y + h' < ga_height a" for x y
  proof -
    have "x + w < ga_width a" "y + h < ga_height a" using xy le by linarith+
    with n xy obtain u where u: "u \<in> set (ga_allocations a)" "\<not> disjoint_rects u (entry_at w h (x, y))"
      unfolding no_room_def by blast
    then have "\<not> disjoint_rects u (entry_at w' h' (x, y))"
      using le by (auto simp: disjoint_rects_def entry_at_def)
    with u show ?thesis by blast
  qed
  then show ?thesis by (simp add: no_room_def)
qed

lemma no_room_cong:
  "ga_width b = ga_width a \<Longrightarrow> ga_height b = ga_height a \<Longrightarrow> set (ga_allocations a) \<subseteq> set (ga_allocations b)
   \<Longrightarrow> no_room a w h \<Longrightarrow> no_room b w h"
  unfolding no_room_def by (metis subsetD)

lemma packing_ok_cong:
  "ga_width b = ga_width a \<Longrightarrow> ga_height b = ga_height a \<Longrightarrow> ga_allocations b = ga_allocations a
   \<Longrightarrow> packing_ok b = packing_ok a"
  by (simp add: packing_ok_def)

lemma position_bound: "1 \<le> x \<Longrightarrow> x \<le> W - 1 - w \<longleftrightarrow> x + w < W" for x W w :: nat
  by arith

lemma pixel_scan_None:
  assumes "packing_ok a"
  shows "pixel_scan w h a = None \<longleftrightarrow> no_room a w h"
proof -
  have "pixel_scan w h a = None
      \<longleftrightarrow> (\<forall>x y. 1 \<le> x \<and> 1 \<le> y \<and> x \<le> ga_width a - 1 - w \<and> y \<le> ga_height a - 1 - h \<longrightarrow> \<not> free_at a w h (x, y))"
    by (auto simp: pixel_scan_def find_None_iff less_Suc_eq_le simp del: upt_Suc)
  also have "\<dots> \<longleftrightarrow> (\<forall>x y. 1 \<le> x \<and> 1 \<le> y \<and> x + w < ga_width a \<and> y + h < ga_height a \<longrightarrow> \<not> free_at a w h (x, y))"
    by (metis position_bound)
  also have "\<dots> \<longleftrightarrow> no_room a w h"
    using free_at_placed [OF assms] by (auto simp: no_room_def)
  finally show ?thesis .
qed

lemma pixel_scan_Some:
  assumes ok: "packing_ok a" and e: "pixel_scan w h a = Some e" and pos: "1 \<le> w" "1 \<le> h"
  shows "placed (ga_width a) (ga_height a) e \<and> (\<forall>u \<in> set (ga_allocations a). disjoint_rects u e)
    \<and> ae_width e = w \<and> ae_height e = h"
proof -
  from e obtain x y where "e = entry_at w h (x, y)" "1 \<le> x" "1 \<le> y" "x \<le> ga_width a - 1 - w" "y \<le> ga_height a - 1 - h"
    "free_at a w h (x, y)"
    by (auto simp: pixel_scan_def dest!: find_SomeD simp del: upt_Suc)
  moreover from this have "x + w < ga_width a" "y + h < ga_height a" by (simp_all add: position_bound)
  ultimately show ?thesis
    using pos free_at_placed [OF ok] by (auto simp: placed_def entry_at_def)
qed

text \<open>What a reservation leaves as it is.\<close>

definition same_surface :: "'f glyph_atlas \<Rightarrow> 'f glyph_atlas \<Rightarrow> bool" where
  "same_surface a b \<longleftrightarrow> ga_width b = ga_width a \<and> ga_height b = ga_height a \<and> ga_format b = ga_format a
     \<and> ga_entries b = ga_entries a \<and> ga_pixels b = ga_pixels a \<and> ga_modified b = ga_modified a
     \<and> ga_dirty_regions b = ga_dirty_regions a \<and> ga_resized b = ga_resized a"

definition reserves :: "nat \<Rightarrow> nat \<Rightarrow> 'f glyph_atlas \<Rightarrow> atlas_entry option \<Rightarrow> 'f glyph_atlas \<Rightarrow> bool" where
  "reserves w h a r b \<longleftrightarrow> same_surface a b \<and> atlas_packed b
     \<and> (case r of
          None \<Rightarrow> no_room a w h \<and> ga_allocations b = ga_allocations a
        | Some e \<Rightarrow> ae_width e = w \<and> ae_height e = h \<and> placed (ga_width a) (ga_height a) e
            \<and> (\<forall>u \<in> set (ga_allocations a). disjoint_rects u e) \<and> ga_allocations b = ga_allocations a @ [e])"

lemma packed_push:
  assumes "atlas_packed a" "placed (ga_width a) (ga_height a) e" "\<forall>u \<in> set (ga_allocations a). disjoint_rects u e"
    and "same_surface a b" "ga_allocations b = ga_allocations a @ [e]" "ga_no_fit_at_least b = ga_no_fit_at_least a"
    and "1 \<le> ga_next_x b" "1 \<le> ga_next_y b"
  shows "atlas_packed b"
proof -
  have "packing_ok b"
    using assms by (auto simp: atlas_packed_def packing_ok_def same_surface_def sorted_wrt_append)
  moreover have "case ga_no_fit_at_least b of None \<Rightarrow> True | Some (fw, fh) \<Rightarrow> no_room b fw fh"
    using assms no_room_cong [of b a]
    by (auto simp: atlas_packed_def same_surface_def split: option.splits)
  ultimately show ?thesis using assms(7,8) by (simp add: atlas_packed_def)
qed

text \<open>The state of the shelf when it moves to the next row.\<close>

lemma shelf_slot:
  assumes a: "atlas_packed a" and "1 \<le> w" "1 \<le> h" "w + 2 \<le> ga_width a" "h + 2 \<le> ga_height a"
    and r: "reserve_next_shelf_slot w h a = (r, b)"
  shows "(r \<noteq> None \<longrightarrow> reserves w h a r b)
    \<and> (r = None \<longrightarrow> same_surface a b \<and> atlas_packed b \<and> ga_allocations b = ga_allocations a)"
proof -
  define s where "s = (if ga_width a - 1 - w < ga_next_x a
    then a\<lparr>ga_next_x := 1, ga_next_y := sat_add 32 (ga_next_y a) (max (ga_row_height a) 1), ga_row_height := 0\<rparr> else a)"
  define e where "e = entry_at w h (ga_next_x s, ga_next_y s)"
  have next_pos: "1 \<le> ga_next_x s" "1 \<le> ga_next_y s" and x: "ga_next_x s \<le> ga_width a - 1 - w"
    using a assms(4) by (auto simp: s_def atlas_packed_def sat_add_def)
  have surface: "same_surface a s" "ga_allocations s = ga_allocations a" "ga_no_fit_at_least s = ga_no_fit_at_least a"
    by (simp_all add: s_def same_surface_def)
  have "packing_ok s" using a surface packing_ok_cong [of s a] by (simp add: same_surface_def atlas_packed_def)
  moreover have "no_room s fw fh" if "no_room a fw fh" for fw fh
    by (rule no_room_cong [OF _ _ _ that]) (use surface in \<open>auto simp: same_surface_def\<close>)
  ultimately have packed: "atlas_packed s"
    using a next_pos surface by (auto simp: atlas_packed_def split: option.splits)
  have slot: "reserve_next_shelf_slot w h a =
    (if ga_height a - 1 - h < ga_next_y s \<or> \<not> free_at s w h (ga_next_x s, ga_next_y s) then (None, s)
     else (Some e, s\<lparr>ga_allocations := ga_allocations s @ [e], ga_next_x := sat_add 32 (sat_add 32 (ga_next_x s) w) 1,
                    ga_row_height := max (ga_row_height s) (sat_add 32 h 1)\<rparr>))"
    unfolding reserve_next_shelf_slot_def Let_def s_def [symmetric]
    using surface by (auto simp: e_def entry_at_def free_at_def list_all_iff list_ex_iff same_surface_def)
  show ?thesis
  proof (cases "ga_height a - 1 - h < ga_next_y s \<or> \<not> free_at s w h (ga_next_x s, ga_next_y s)")
    case True
    then show ?thesis using slot r surface packed by auto
  next
    case False
    have "ga_next_x s + w < ga_width s" "ga_next_y s + h < ga_height s"
      using False x next_pos assms(4,5) surface by (auto simp: same_surface_def)
    then have e: "placed (ga_width s) (ga_height s) e" "\<forall>u \<in> set (ga_allocations s). disjoint_rects u e"
      using False next_pos assms(2,3) free_at_placed [OF \<open>packing_ok s\<close>] by (auto simp: placed_def e_def entry_at_def)
    have b: "r = Some e" "b = s\<lparr>ga_allocations := ga_allocations s @ [e],
        ga_next_x := sat_add 32 (sat_add 32 (ga_next_x s) w) 1, ga_row_height := max (ga_row_height s) (sat_add 32 h 1)\<rparr>"
      using False slot r by auto
    have "atlas_packed b"
      by (rule packed_push [OF packed e]) (use b next_pos in \<open>auto simp: same_surface_def sat_add_def\<close>)
    with b e surface show ?thesis
      by (auto simp: reserves_def same_surface_def e_def entry_at_def)
  qed
qed

lemma gap_fit:
  assumes a: "atlas_packed a" and pos: "1 \<le> w" "1 \<le> h"
    and r: "(case first_fit_in_gaps w h a of
       Some e \<Rightarrow> (Some e, a\<lparr>ga_allocations := ga_allocations a @ [e]\<rparr>)
     | None \<Rightarrow> (None, a\<lparr>ga_no_fit_at_least := Some (w, h)\<rparr>)) = (r, b)"
  shows "reserves w h a r b"
proof -
  have ok: "packing_ok a" using a by (simp add: atlas_packed_def)
  show ?thesis
  proof (cases "pixel_scan w h a")
    case None
    then have "no_room a w h" using pixel_scan_None [OF ok, of w h] by simp
    moreover have "b = a\<lparr>ga_no_fit_at_least := Some (w, h)\<rparr>" "r = None"
      using None first_fit_scan [OF ok, of w h] r by simp_all
    ultimately show ?thesis
      using a by (auto simp: reserves_def same_surface_def atlas_packed_def packing_ok_def no_room_def)
  next
    case (Some e)
    from pixel_scan_Some [OF ok this pos] have e: "placed (ga_width a) (ga_height a) e"
      "\<forall>u \<in> set (ga_allocations a). disjoint_rects u e" "ae_width e = w" "ae_height e = h" by auto
    have b: "b = a\<lparr>ga_allocations := ga_allocations a @ [e]\<rparr>" "r = Some e"
      using Some first_fit_scan [OF ok, of w h] r by auto
    have "atlas_packed b"
      by (rule packed_push [OF a e(1,2)]) (use b a in \<open>auto simp: same_surface_def atlas_packed_def\<close>)
    then show ?thesis using b e by (auto simp: reserves_def same_surface_def)
  qed
qed

lemma reserves_surface:
  "reserves w h a1 r b \<Longrightarrow> same_surface a a1 \<Longrightarrow> ga_allocations a1 = ga_allocations a \<Longrightarrow> reserves w h a r b"
  by (auto simp: reserves_def same_surface_def no_room_def split: option.splits)

lemma reserve_sized:
  assumes a: "atlas_packed a" and pos: "1 \<le> w" "1 \<le> h" and fits: "w + 2 \<le> ga_width a" "h + 2 \<le> ga_height a"
    and r: "(case reserve_next_shelf_slot w h a of
       (Some e, a) \<Rightarrow> (Some e, a)
     | (None, a) \<Rightarrow>
         (case first_fit_in_gaps w h a of
            Some e \<Rightarrow> (Some e, a\<lparr>ga_allocations := ga_allocations a @ [e]\<rparr>)
          | None \<Rightarrow> (None, a\<lparr>ga_no_fit_at_least := Some (w, h)\<rparr>))) = (r, b)"
  shows "reserves w h a r b"
proof -
  obtain r1 a1 where slot: "reserve_next_shelf_slot w h a = (r1, a1)" by fastforce
  note s = shelf_slot [OF a pos fits slot]
  show ?thesis
  proof (cases r1)
    case (Some e)
    then show ?thesis using s slot r by auto
  next
    case None
    then have "reserves w h a1 r b" using s slot r by (intro gap_fit [OF _ pos]) auto
    then show ?thesis using s None by (auto intro: reserves_surface)
  qed
qed

lemma reserve_ok:
  assumes "atlas_packed a" "reserve_rect width height a = (r, b)"
  shows "reserves (max width 1) (max height 1) a r b"
proof -
  define w where "w = max width 1"
  define h where "h = max height 1"
  have pos: "1 \<le> w" "1 \<le> h" by (simp_all add: w_def h_def)
  have res: "reserve_rect width height a =
    (case (checked_add 32 w 2, checked_add 32 h 2) of
       (Some w2, Some h2) \<Rightarrow>
         if ga_width a < w2 \<or> ga_height a < h2 then (None, a)
         else if (case ga_no_fit_at_least a of None \<Rightarrow> False | Some (fw, fh) \<Rightarrow> fw \<le> w \<and> fh \<le> h) then (None, a)
         else (case reserve_next_shelf_slot w h a of
                 (Some e, a) \<Rightarrow> (Some e, a)
               | (None, a) \<Rightarrow>
                   (case first_fit_in_gaps w h a of
                      Some e \<Rightarrow> (Some e, a\<lparr>ga_allocations := ga_allocations a @ [e]\<rparr>)
                    | None \<Rightarrow> (None, a\<lparr>ga_no_fit_at_least := Some (w, h)\<rparr>)))
     | _ \<Rightarrow> (None, a))"
    by (simp only: reserve_rect_def Let_def w_def h_def)
  have unchanged: ?thesis if "no_room a w h" "(r, b) = (None, a)"
    using that assms(1) by (simp add: reserves_def same_surface_def w_def h_def)
  consider (large) "\<not> (w + 2 < 2 ^ 32 \<and> h + 2 < 2 ^ 32 \<and> w + 2 \<le> ga_width a \<and> h + 2 \<le> ga_height a)"
    | (memo) "w + 2 < 2 ^ 32" "h + 2 < 2 ^ 32" "w + 2 \<le> ga_width a" "h + 2 \<le> ga_height a"
        "case ga_no_fit_at_least a of None \<Rightarrow> False | Some (fw, fh) \<Rightarrow> fw \<le> w \<and> fh \<le> h"
    | (search) "w + 2 < 2 ^ 32" "h + 2 < 2 ^ 32" "w + 2 \<le> ga_width a" "h + 2 \<le> ga_height a"
        "\<not> (case ga_no_fit_at_least a of None \<Rightarrow> False | Some (fw, fh) \<Rightarrow> fw \<le> w \<and> fh \<le> h)"
    by blast
  then show ?thesis
  proof cases
    case large
    then have "no_room a w h" using assms(1) by (auto simp: no_room_def packing_ok_def atlas_packed_def)
    then show ?thesis using large assms(2) res by (intro unchanged) (auto simp: checked_add_def split: if_splits)
  next
    case memo
    then have "no_room a w h" using assms(1) no_room_mono by (auto simp: atlas_packed_def split: option.splits)
    then show ?thesis using memo assms(2) res by (intro unchanged) (auto simp: checked_add_def)
  next
    case search
    with assms(2) res have "reserves w h a r b"
      by (intro reserve_sized [OF assms(1) pos]) (simp_all add: checked_add_def)
    then show ?thesis by (simp add: w_def h_def)
  qed
qed

text \<open>
  C15.  A reservation is exact.  It returns a rectangle of the requested size inside the border, disjoint from every
  rectangle in use, or reports that there is none only when every position of the surface collides with a used
  rectangle; the remembered failed size never rejects a request that would fit.  Pixels and glyphs are not
  touched, and the packing stays consistent.
\<close>

theorem reserve_exact:
  assumes "atlas_packed a" "reserve_rect width height a = (r, b)"
  shows "reserves (max width 1) (max height 1) a r b"
  using assms by (rule reserve_ok)

definition sample_atlas :: "nat glyph_atlas" where
  "sample_atlas =
     (from_pixels 9 6 Alpha (replicate 54 0))
       \<lparr>ga_allocations := [\<lparr>ae_x = 1, ae_y = 1, ae_width = 3, ae_height = 4\<rparr>], ga_next_x := 5, ga_row_height := 5\<rparr>"

lemma sample_packed: "atlas_packed sample_atlas"
  by (simp add: sample_atlas_def from_pixels_def atlas_packed_def packing_ok_def placed_def)

lemma sample_atlas_reserve:
  "reserve_rect 3 3 sample_atlas = (Some \<lparr>ae_x = 5, ae_y = 1, ae_width = 3, ae_height = 3\<rparr>,
     sample_atlas\<lparr>ga_allocations := ga_allocations sample_atlas @ [\<lparr>ae_x = 5, ae_y = 1, ae_width = 3, ae_height = 3\<rparr>],
       ga_next_x := 9\<rparr>)"
  by (simp add: sample_atlas_def from_pixels_def reserve_rect_def reserve_next_shelf_slot_def checked_add_def
      sat_add_def rects_overlap_def Let_def)

theorem reserve_exact_witness:
  "fst (reserve_rect 3 3 sample_atlas) = Some \<lparr>ae_x = 5, ae_y = 1, ae_width = 3, ae_height = 3\<rparr>
   \<and> reserves 3 3 sample_atlas (fst (reserve_rect 3 3 sample_atlas)) (snd (reserve_rect 3 3 sample_atlas))"
  using reserve_exact [OF sample_packed, of 3 3 "fst (reserve_rect 3 3 sample_atlas)" "snd (reserve_rect 3 3 sample_atlas)"]
  by (simp add: sample_atlas_reserve)

text \<open>
  C16.  The search of gaps, which visits only positions next to the edges of used rectangles, finds the same rectangle
  as a scan of every pixel position from the top left, row by row.
\<close>

theorem first_fit_is_pixel_scan:
  assumes "packing_ok a"
  shows "first_fit_in_gaps width height a = pixel_scan width height a"
  using assms by (rule first_fit_scan)

theorem first_fit_is_pixel_scan_witness:
  "packing_ok sample_atlas \<and> first_fit_in_gaps 3 3 sample_atlas = pixel_scan 3 3 sample_atlas
   \<and> first_fit_in_gaps 3 3 sample_atlas = Some \<lparr>ae_x = 4, ae_y = 1, ae_width = 3, ae_height = 3\<rparr>"
proof -
  have "packing_ok sample_atlas" using sample_packed by (simp add: atlas_packed_def)
  moreover have "first_fit_in_gaps 3 3 sample_atlas = Some \<lparr>ae_x = 4, ae_y = 1, ae_width = 3, ae_height = 3\<rparr>"
    by (simp add: sample_atlas_def from_pixels_def first_fit_in_gaps_def edge_positions_def Let_def
        sat_add_def rects_overlap_def)
  ultimately show ?thesis using first_fit_is_pixel_scan by blast
qed

end
