(* ===== verification/Glyph_Pixels.thy ===== *)
theory Glyph_Pixels
  imports Glyph_Atlas
begin

text \<open>
  The pixels of the glyph atlas (\<^verbatim>\<open>terminal_text_atlas/atlas.rs\<close>): what the copies between buffers write, that
  growing keeps every pixel at its coordinates, and that a glyph stays as it was rasterized until the atlas
  is recycled.
\<close>

section \<open>Addresses\<close>

definition address :: "nat \<Rightarrow> nat \<Rightarrow> nat \<Rightarrow> nat \<Rightarrow> nat \<Rightarrow> nat" where
  "address W d x y c = (y * W + x) * d + c"

lemma channel_le: "c < d \<Longrightarrow> q * d \<le> p * d + c \<longleftrightarrow> q \<le> p" for p q d c :: nat
proof
  assume "c < d" "q * d \<le> p * d + c"
  then have "q * d < (p + 1) * d" by simp
  then show "q \<le> p" by (simp only: mult_less_cancel2) simp
qed (simp add: trans_le_add1)

lemma channel_less: "c < d \<Longrightarrow> p * d + c < q * d \<longleftrightarrow> p < q" for p q d c :: nat
  using channel_le [of c d q p] by linarith

lemma next_row: "Y < R \<Longrightarrow> Y * W + W \<le> R * W" for Y R W :: nat
  using mult_le_mono1 [of "Suc Y" R W] by simp

lemma row_range:
  fixes X Y W ex w R :: nat
  assumes "X < W" "ex + w \<le> W" "0 < w"
  shows "R * W + ex \<le> Y * W + X \<and> Y * W + X < R * W + ex + w \<longleftrightarrow> Y = R \<and> ex \<le> X \<and> X < ex + w"
proof
  assume range: "R * W + ex \<le> Y * W + X \<and> Y * W + X < R * W + ex + w"
  have "\<not> Y < R"
  proof
    assume "Y < R"
    then show False using next_row [of Y R W] range assms by linarith
  qed
  moreover have "\<not> R < Y"
  proof
    assume "R < Y"
    then show False using next_row [of R Y W] range assms by linarith
  qed
  ultimately show "Y = R \<and> ex \<le> X \<and> X < ex + w" using range by auto
qed auto

lemma address_in_row:
  assumes "X < W" "c < d" "ex + w \<le> W" "0 < w"
  shows "address W d ex R 0 \<le> address W d X Y c \<and> address W d X Y c < address W d ex R 0 + w * d
    \<longleftrightarrow> Y = R \<and> ex \<le> X \<and> X < ex + w"
proof -
  have "address W d ex R 0 + w * d = (R * W + ex + w) * d" by (simp add: address_def add_mult_distrib)
  then have "address W d X Y c < address W d ex R 0 + w * d \<longleftrightarrow> Y * W + X < R * W + ex + w"
    using channel_less [OF assms(2)] by (simp add: address_def)
  moreover have "address W d ex R 0 \<le> address W d X Y c \<longleftrightarrow> R * W + ex \<le> Y * W + X"
    using channel_le [OF assms(2)] by (simp add: address_def)
  ultimately show ?thesis using row_range [OF assms(1,3,4)] by simp
qed

lemma address_bound:
  assumes "X < W" "Y < H" "c < d"
  shows "address W d X Y c < W * H * d"
proof -
  have "Y * W + X < H * W"
    using assms(1) next_row [OF assms(2), of W] by linarith
  then have "(Y * W + X) * d + c < (H * W) * d" using channel_less [OF assms(3)] by blast
  then show ?thesis by (simp only: address_def mult.commute [of W H])
qed

section \<open>The surface\<close>

definition surface_ok :: "'f glyph_atlas \<Rightarrow> bool" where
  "surface_ok a \<longleftrightarrow> 1 \<le> ga_width a \<and> 1 \<le> ga_height a \<and> ga_width a \<le> MAX_ATLAS_DIM \<and> ga_height a \<le> MAX_ATLAS_DIM
     \<and> length (ga_pixels a) = ga_width a * ga_height a * depth (ga_format a)
     \<and> ga_modified a < 2 ^ 64 \<and> ga_resized a < 2 ^ 64"

lemma depth_pos [simp]: "0 < depth f" and depth_le: "depth f \<le> 4"
  by (cases f; simp add: depth_def)+

lemma small_product:
  assumes "x \<le> MAX_ATLAS_DIM" "y \<le> MAX_ATLAS_DIM" "z \<le> 4"
  shows "x * y * z < 2 ^ 32" "x * y < 2 ^ 32"
proof -
  have "x * y \<le> 4096 * 4096" using assms by (intro mult_mono) (simp_all add: MAX_ATLAS_DIM_def)
  moreover from this have "x * y * z \<le> (4096 * 4096) * 4" using assms(3) by (rule mult_le_mono)
  ultimately show "x * y * z < 2 ^ 32" "x * y < 2 ^ 32" by simp_all
qed

lemma byte_len_small:
  "x \<le> MAX_ATLAS_DIM \<Longrightarrow> y \<le> MAX_ATLAS_DIM \<Longrightarrow> atlas_byte_len x y (depth f) = Inr (x * y * depth f)"
  using small_product [OF _ _ depth_le] by (simp add: atlas_byte_len_def checked_mul_def)

lemma pixel_offset_in_surface:
  assumes "surface_ok a" "X < ga_width a" "Y < ga_height a"
  shows "atlas_pixel_offset X Y (ga_width a) (depth (ga_format a)) = Some (address (ga_width a) (depth (ga_format a)) X Y 0)"
proof -
  have "address (ga_width a) (depth (ga_format a)) X Y 0 < ga_width a * ga_height a * depth (ga_format a)"
    by (rule address_bound) (use assms in auto)
  moreover have "ga_width a * ga_height a * depth (ga_format a) < 2 ^ 32"
    using assms(1) by (intro small_product depth_le) (auto simp: surface_ok_def)
  ultimately have total: "(Y * ga_width a + X) * depth (ga_format a) < 2 ^ 32" unfolding address_def by linarith
  moreover have "Y * ga_width a + X \<le> (Y * ga_width a + X) * depth (ga_format a)"
    by (cases "ga_format a") (simp_all add: depth_def)
  ultimately have "Y * ga_width a + X < 2 ^ 32" by linarith
  with total show ?thesis
    by (simp add: atlas_pixel_offset_def address_def checked_mul_def checked_add_def)
qed

lemma pixel_channel_in_surface:
  assumes "surface_ok a" "X < ga_width a" "Y < ga_height a" "c < depth (ga_format a)"
  shows "atlas_pixel_channel X Y c a = Some (ga_pixels a ! address (ga_width a) (depth (ga_format a)) X Y c)"
proof -
  let ?d = "depth (ga_format a)"
  have bound: "address (ga_width a) ?d X Y c < ga_width a * ga_height a * ?d"
    by (rule address_bound) (use assms in auto)
  moreover have "ga_width a * ga_height a * ?d < 2 ^ 32"
    using assms(1) by (intro small_product depth_le) (auto simp: surface_ok_def)
  ultimately show ?thesis
    using assms pixel_offset_in_surface [OF assms(1-3)]
    by (simp add: atlas_pixel_channel_def checked_add_def get_nth_def surface_ok_def address_def)
qed

section \<open>Copying rows\<close>

lemma length_write_at [simp]: "start + length bytes \<le> length pixels \<Longrightarrow> length (write_at start bytes pixels) = length pixels"
  by (simp add: write_at_def)

lemma nth_write_at:
  "start + length bytes \<le> length pixels \<Longrightarrow> i < length pixels \<Longrightarrow>
     write_at start bytes pixels ! i = (if start \<le> i \<and> i < start + length bytes then bytes ! (i - start) else pixels ! i)"
  by (auto simp: write_at_def nth_append min_def)

lemma write_at_again [simp]:
  "length old = length new \<Longrightarrow> start + length new \<le> length pixels \<Longrightarrow>
     write_at start new (write_at start old pixels) = write_at start new pixels"
  by (auto simp: nth_write_at intro!: nth_equalityI)

text \<open>The row of the source that is copied, when it is there.\<close>

definition source_row :: "nat \<Rightarrow> blit_source \<Rightarrow> nat \<Rightarrow> nat \<Rightarrow> 8 word list option" where
  "source_row d source row_bytes y =
     Option.bind (checked_add 32 (bs_y source) y) (\<lambda>row.
       Option.bind (atlas_pixel_offset (bs_x source) row (bs_width source) d) (\<lambda>src_start.
         Option.bind (checked_add 64 src_start row_bytes) (\<lambda>src_end.
           if length (bs_pixels source) < src_end then None
           else Some (take row_bytes (drop src_start (bs_pixels source))))))"

lemma source_row_length: "source_row d source n y = Some r \<Longrightarrow> length r = n"
  by (auto simp: source_row_def checked_add_def bind_eq_Some_conv split: if_splits)

text \<open>What a pixel inside the target becomes, from the source's row and its old value.\<close>

definition blit_value :: "nat \<Rightarrow> blit_source \<Rightarrow> nat \<Rightarrow> nat \<Rightarrow> nat \<Rightarrow> 8 word \<Rightarrow> 8 word" where
  "blit_value d source row_bytes y k old =
     (case source_row d source row_bytes y of Some r \<Rightarrow> r ! k | None \<Rightarrow> if bs_clear_missing source then 0 else old)"

definition inside :: "atlas_entry \<Rightarrow> nat \<Rightarrow> nat \<Rightarrow> bool" where
  "inside e X Y \<longleftrightarrow> ae_x e \<le> X \<and> X < ae_x e + ae_width e \<and> ae_y e \<le> Y \<and> Y < ae_y e + ae_height e"

definition in_surface :: "'f glyph_atlas \<Rightarrow> atlas_entry \<Rightarrow> bool" where
  "in_surface a e \<longleftrightarrow> 1 \<le> ae_width e \<and> 1 \<le> ae_height e \<and> ae_x e + ae_width e \<le> ga_width a \<and> ae_y e + ae_height e \<le> ga_height a"

lemma blit_row_nth:
  assumes ok: "surface_ok a" and e: "in_surface a e" and len: "length pixels = length (ga_pixels a)" and j: "j < ae_height e"
    and i: "i < length pixels"
  defines "d \<equiv> depth (ga_format a)"
  defines "start \<equiv> address (ga_width a) d (ae_x e) (ae_y e + j) 0"
  shows "length (blit_row \<lparr>bt_atlas_width = ga_width a, bt_depth = d, bt_entry = e\<rparr> source (ae_width e * d) j pixels) = length pixels"
    and "blit_row \<lparr>bt_atlas_width = ga_width a, bt_depth = d, bt_entry = e\<rparr> source (ae_width e * d) j pixels ! i =
      (if start \<le> i \<and> i < start + ae_width e * d
       then blit_value d source (ae_width e * d) j (i - start) (pixels ! i) else pixels ! i)"
proof -
  let ?n = "ae_width e * d" and ?t = "\<lparr>bt_atlas_width = ga_width a, bt_depth = d, bt_entry = e\<rparr>"
  have row: "ae_y e + j < ga_height a" "ae_x e < ga_width a" using e j by (auto simp: in_surface_def)
  have offset: "atlas_pixel_offset (ae_x e) (ae_y e + j) (ga_width a) d = Some start"
    unfolding d_def start_def by (rule pixel_offset_in_surface [OF ok row(2,1)])
  have "start + ?n \<le> (Suc (ae_y e + j) * ga_width a) * d"
  proof -
    have "start + ?n = ((ae_y e + j) * ga_width a + ae_x e + ae_width e) * d"
      by (simp add: start_def address_def add_mult_distrib)
    also have "\<dots> \<le> ((ae_y e + j) * ga_width a + ga_width a) * d"
      using e by (intro mult_le_mono1) (simp add: in_surface_def)
    finally show ?thesis by (simp add: add.commute)
  qed
  also have "\<dots> \<le> (ga_height a * ga_width a) * d" using row by (intro mult_le_mono1) simp
  finally have fits: "start + ?n \<le> length pixels"
    using ok len by (simp add: surface_ok_def d_def mult.commute)
  have small: "length pixels < 2 ^ 32"
    using ok len small_product [of "ga_width a" "ga_height a" d] depth_le by (simp add: surface_ok_def d_def)
  have dst: "checked_add 32 (ae_y e) j = Some (ae_y e + j)" "checked_add 64 start ?n = Some (start + ?n)"
    using row ok fits small by (auto simp: checked_add_def surface_ok_def MAX_ATLAS_DIM_def)
  have eq: "blit_row ?t source ?n j pixels =
    (case source_row d source ?n j of
       Some r \<Rightarrow> write_at start r pixels
     | None \<Rightarrow> if bs_clear_missing source then write_at start (replicate ?n 0) pixels else pixels)"
    using offset dst fits
    by (auto simp: blit_row_def source_row_def Let_def checked_add_def split: option.splits)
  show "length (blit_row ?t source ?n j pixels) = length pixels"
    using fits source_row_length [of d source ?n j] by (auto simp: eq split: option.splits)
  show "blit_row ?t source ?n j pixels ! i =
      (if start \<le> i \<and> i < start + ?n then blit_value d source ?n j (i - start) (pixels ! i) else pixels ! i)"
    using fits i source_row_length [of d source ?n j]
    by (auto simp: eq blit_value_def nth_write_at split: option.splits)
qed

lemma blit_rows:
  fixes source :: blit_source
  assumes ok: "surface_ok a" and e: "in_surface a e" and n: "n \<le> ae_height e"
    and X: "X < ga_width a" and Y: "Y < ga_height a" and c: "c < depth (ga_format a)"
  defines "d \<equiv> depth (ga_format a)"
  defines "rows \<equiv> fold (blit_row \<lparr>bt_atlas_width = ga_width a, bt_depth = d, bt_entry = e\<rparr> source (ae_width e * d)) [0..<n] (ga_pixels a)"
  shows "length rows = length (ga_pixels a)
    \<and> rows ! address (ga_width a) d X Y c =
      (if ae_x e \<le> X \<and> X < ae_x e + ae_width e \<and> ae_y e \<le> Y \<and> Y < ae_y e + n
       then blit_value d source (ae_width e * d) (Y - ae_y e) ((X - ae_x e) * d + c) (ga_pixels a ! address (ga_width a) d X Y c)
       else ga_pixels a ! address (ga_width a) d X Y c)"
  using n unfolding rows_def
proof (induction n)
  case (Suc n)
  let ?row = "blit_row \<lparr>bt_atlas_width = ga_width a, bt_depth = d, bt_entry = e\<rparr> source (ae_width e * d)"
  let ?p = "fold ?row [0..<n] (ga_pixels a)" and ?i = "address (ga_width a) d X Y c"
  let ?start = "address (ga_width a) d (ae_x e) (ae_y e + n) 0"
  have len: "length ?p = length (ga_pixels a)" using Suc by simp
  have i: "?i < length ?p"
    using address_bound [OF X Y c] ok len by (simp add: surface_ok_def d_def)
  have range: "?start \<le> ?i \<and> ?i < ?start + ae_width e * d \<longleftrightarrow> Y = ae_y e + n \<and> ae_x e \<le> X \<and> X < ae_x e + ae_width e"
    by (rule address_in_row) (use X c e in \<open>auto simp: d_def in_surface_def\<close>)
  have offset: "?i - ?start = (X - ae_x e) * d + c" if "Y = ae_y e + n" "ae_x e \<le> X"
    using that by (simp add: address_def diff_mult_distrib add_mult_distrib)
  have n: "n < ae_height e" using Suc.prems by simp
  note row = blit_row_nth [OF ok e len n, folded d_def]
  have "?row n ?p ! ?i = (if Y = ae_y e + n \<and> ae_x e \<le> X \<and> X < ae_x e + ae_width e
      then blit_value d source (ae_width e * d) n ((X - ae_x e) * d + c) (?p ! ?i) else ?p ! ?i)"
    using row(2) [OF i] range offset by auto
  moreover have "length (?row n ?p) = length (ga_pixels a)" using row(1) [OF i] len by simp
  ultimately show ?case using Suc by (auto simp: less_Suc_eq)
qed auto

lemma blit_into_ok:
  assumes ok: "surface_ok a" and e: "in_surface a e"
  shows "surface_ok (blit_into e source a)"
    and "X < ga_width a \<Longrightarrow> Y < ga_height a \<Longrightarrow> c < depth (ga_format a) \<Longrightarrow>
      atlas_pixel_channel X Y c (blit_into e source a) =
        (if inside e X Y
         then map_option (blit_value (depth (ga_format a)) source (ae_width e * depth (ga_format a)) (Y - ae_y e)
                ((X - ae_x e) * depth (ga_format a) + c)) (atlas_pixel_channel X Y c a)
         else atlas_pixel_channel X Y c a)"
proof -
  let ?b = "blit_into e source a" and ?d = "depth (ga_format a)"
  have "atlas_byte_len (ae_width e) 1 ?d = Inr (ae_width e * ?d)"
    using byte_len_small [of "ae_width e" 1 "ga_format a"] ok e
    by (auto simp: surface_ok_def in_surface_def MAX_ATLAS_DIM_def)
  then have pixels: "ga_pixels ?b =
      fold (blit_row \<lparr>bt_atlas_width = ga_width a, bt_depth = ?d, bt_entry = e\<rparr> source (ae_width e * ?d)) [0..<ae_height e] (ga_pixels a)"
    by (simp add: blit_into_def blit_pixels_from_source_def Let_def)
  have same: "ga_width ?b = ga_width a" "ga_height ?b = ga_height a" "ga_format ?b = ga_format a"
    by (simp_all add: blit_into_def Let_def)
  have rows: "length (ga_pixels ?b) = length (ga_pixels a)"
    using blit_rows [OF ok e order_refl, of 0 0 0 source] ok by (simp add: pixels surface_ok_def)
  moreover have "ga_modified ?b < 2 ^ 64" "ga_resized ?b = ga_resized a" by (simp_all add: blit_into_def Let_def sat_add_def)
  ultimately show okb: "surface_ok ?b" using ok same by (simp add: surface_ok_def)
  assume XYc: "X < ga_width a" "Y < ga_height a" "c < ?d"
  then show "atlas_pixel_channel X Y c ?b =
      (if inside e X Y
       then map_option (blit_value ?d source (ae_width e * ?d) (Y - ae_y e) ((X - ae_x e) * ?d + c)) (atlas_pixel_channel X Y c a)
       else atlas_pixel_channel X Y c a)"
    using blit_rows [OF ok e order_refl XYc, of source] okb ok same
    by (simp add: pixel_channel_in_surface pixels inside_def)
qed

text \<open>A buffer of the entry's size is copied as it is.\<close>

definition pixel_of :: "8 word list \<Rightarrow> nat \<Rightarrow> nat \<Rightarrow> nat \<Rightarrow> nat \<Rightarrow> nat \<Rightarrow> 8 word" where
  "pixel_of pixels width d x y c = pixels ! address width d x y c"

lemma whole_source_row:
  assumes "w \<le> MAX_ATLAS_DIM" "h \<le> MAX_ATLAS_DIM" "d \<le> 4" "length pixels = w * h * d" "j < h"
  shows "source_row d \<lparr>bs_pixels = pixels, bs_width = w, bs_x = 0, bs_y = 0, bs_clear_missing = False\<rparr> (w * d) j
    = Some (take (w * d) (drop (j * w * d) pixels))"
proof -
  have "Suc j * w * d \<le> h * w * d" using assms(5) by (intro mult_le_mono1) simp
  then have fits: "j * w * d + w * d \<le> w * h * d" by (simp add: add_mult_distrib mult.commute [of w h] add.commute)
  moreover have total: "w * h * d < 2 ^ 32" "h * w < 2 ^ 32"
    using small_product assms(1-3) by blast+
  moreover have "j * w < 2 ^ 32" using total(2) mult_le_mono1 [of j h w] assms(5) by linarith
  moreover have "j < 2 ^ 32" using assms(2,5) by (simp add: MAX_ATLAS_DIM_def)
  ultimately show ?thesis
    using assms(4) by (auto simp: source_row_def atlas_pixel_offset_def checked_add_def checked_mul_def)
qed

lemma set_pixels_ok:
  assumes ok: "surface_ok a" and e: "in_surface a e"
  shows "surface_ok (set_pixels e alpha a)"
    and "X < ga_width a \<Longrightarrow> Y < ga_height a \<Longrightarrow> c < depth (ga_format a) \<Longrightarrow> \<not> inside e X Y \<Longrightarrow>
      atlas_pixel_channel X Y c (set_pixels e alpha a) = atlas_pixel_channel X Y c a"
    and "length alpha = ae_width e * ae_height e * depth (ga_format a) \<Longrightarrow> x < ae_width e \<Longrightarrow> y < ae_height e
      \<Longrightarrow> c < depth (ga_format a) \<Longrightarrow>
      atlas_pixel_channel (ae_x e + x) (ae_y e + y) c (set_pixels e alpha a)
        = Some (pixel_of alpha (ae_width e) (depth (ga_format a)) x y c)"
proof -
  let ?source = "\<lparr>bs_pixels = alpha, bs_width = ae_width e, bs_x = 0, bs_y = 0, bs_clear_missing = False\<rparr>"
  let ?d = "depth (ga_format a)"
  note blit = blit_into_ok [OF ok e, where source = ?source]
  show "surface_ok (set_pixels e alpha a)" using blit(1) by (simp add: set_pixels_def)
  show "atlas_pixel_channel X Y c (set_pixels e alpha a) = atlas_pixel_channel X Y c a"
    if "X < ga_width a" "Y < ga_height a" "c < ?d" "\<not> inside e X Y"
    using blit(2) that by (simp add: set_pixels_def)
  assume len: "length alpha = ae_width e * ae_height e * ?d" and x: "x < ae_width e" and y: "y < ae_height e" and c: "c < ?d"
  have small: "ae_width e \<le> MAX_ATLAS_DIM" "ae_height e \<le> MAX_ATLAS_DIM"
    using ok e by (auto simp: surface_ok_def in_surface_def)
  have XY: "ae_x e + x < ga_width a" "ae_y e + y < ga_height a" "inside e (ae_x e + x) (ae_y e + y)"
    using e x y by (auto simp: in_surface_def inside_def)
  have k: "x * ?d + c < ae_width e * ?d" using x channel_less [OF c] by blast
  have bound: "y * ae_width e * ?d + (x * ?d + c) < length alpha"
    using address_bound [OF x y c] len by (simp add: address_def add_mult_distrib add.assoc)
  have "take (ae_width e * ?d) (drop (y * ae_width e * ?d) alpha) ! (x * ?d + c)
      = drop (y * ae_width e * ?d) alpha ! (x * ?d + c)" by (rule nth_take [OF k])
  also have "\<dots> = alpha ! (y * ae_width e * ?d + (x * ?d + c))" by (rule nth_drop) (use bound in linarith)
  finally have nth: "take (ae_width e * ?d) (drop (y * ae_width e * ?d) alpha) ! (x * ?d + c) = pixel_of alpha (ae_width e) ?d x y c"
    by (simp add: pixel_of_def address_def add_mult_distrib add.assoc)
  show "atlas_pixel_channel (ae_x e + x) (ae_y e + y) c (set_pixels e alpha a) = Some (pixel_of alpha (ae_width e) ?d x y c)"
    using blit(2) [OF XY(1,2) c] XY(3) whole_source_row [OF small depth_le len y] nth
      pixel_channel_in_surface [OF ok XY(1,2) c]
    by (simp add: set_pixels_def blit_value_def)
qed

section \<open>Growing\<close>

lemma length_copy_rows:
  "os \<le> ns \<Longrightarrow> length (copy_rows os ns old new) = length new"
proof (induction os ns old new rule: copy_rows.induct)
  case (1 os ns old new)
  then show ?case by (subst copy_rows.simps) auto
qed

lemma nth_copy_rows:
  assumes "0 < os" "os \<le> ns" "length old = H * os" "length new = H' * ns" "H \<le> H'" "Y < H" "k < os"
  shows "copy_rows os ns old new ! (Y * ns + k) = old ! (Y * os + k)"
  using assms
proof (induction H arbitrary: H' Y old new)
  case (Suc H)
  then obtain G where G: "H' = Suc G" by (cases H') auto
  have eq: "copy_rows os ns old new =
    (take os old @ drop os (take ns new)) @ copy_rows os ns (drop os old) (drop ns new)"
    using Suc.prems G by (subst copy_rows.simps) simp
  have first: "length (take os old @ drop os (take ns new)) = ns" using Suc.prems G by simp
  show ?case
  proof (cases Y)
    case 0
    then show ?thesis using Suc.prems first unfolding eq by (simp add: nth_append)
  next
    case (Suc Z)
    have "copy_rows os ns (drop os old) (drop ns new) ! (Z * ns + k) = drop os old ! (Z * os + k)"
      by (rule Suc.IH [of _ _ G]) (use Suc Suc.prems G in auto)
    moreover have "copy_rows os ns old new ! (Y * ns + k) = copy_rows os ns (drop os old) (drop ns new) ! (Z * ns + k)"
      unfolding eq nth_append first using Suc by simp
    ultimately show ?thesis using Suc.prems Suc by (simp add: add.assoc)
  qed
qed simp

text \<open>What growing keeps: every old pixel at its coordinates, and the glyphs.\<close>

definition keeps :: "'f glyph_atlas \<Rightarrow> 'f glyph_atlas \<Rightarrow> bool" where
  "keeps a b \<longleftrightarrow> ga_width a \<le> ga_width b \<and> ga_height a \<le> ga_height b \<and> ga_format b = ga_format a \<and> ga_entries b = ga_entries a
     \<and> (\<forall>X Y c. X < ga_width a \<longrightarrow> Y < ga_height a \<longrightarrow> c < depth (ga_format a)
          \<longrightarrow> atlas_pixel_channel X Y c b = atlas_pixel_channel X Y c a)
     \<and> ga_dirty_regions b = ga_dirty_regions a \<and> ga_modified a \<le> ga_modified b \<and> ga_resized a \<le> ga_resized b
     \<and> (ga_resized b = ga_resized a \<and> ga_resized a < 2 ^ 64 - 1 \<longrightarrow> same_surface a b)"

lemma keeps_trans:
  assumes "keeps a b" "keeps b c"
  shows "keeps a c"
proof -
  have "same_surface a b \<Longrightarrow> same_surface b c \<Longrightarrow> same_surface a c" by (simp add: same_surface_def)
  moreover have "ga_resized a \<le> ga_resized b" "ga_resized b \<le> ga_resized c" using assms by (simp_all add: keeps_def)
  ultimately have "ga_resized c = ga_resized a \<and> ga_resized a < 2 ^ 64 - 1 \<longrightarrow> same_surface a c"
    using assms unfolding keeps_def by (metis le_antisym)
  then show ?thesis using assms by (auto simp: keeps_def)
qed

lemma same_surface_keeps: "same_surface a b \<Longrightarrow> keeps a b"
  by (auto simp: keeps_def same_surface_def atlas_pixel_channel_def)

lemma same_surface_ok: "same_surface a b \<Longrightarrow> surface_ok a \<Longrightarrow> surface_ok b"
  by (simp add: surface_ok_def same_surface_def)

lemma placed_mono: "placed W H e \<Longrightarrow> W \<le> W' \<Longrightarrow> H \<le> H' \<Longrightarrow> placed W' H' e"
  by (auto simp: placed_def)

lemma grow_ok:
  assumes ok: "surface_ok a" and packed: "atlas_packed a"
    and le: "ga_width a \<le> W" "ga_height a \<le> H" "W \<le> MAX_ATLAS_DIM" "H \<le> MAX_ATLAS_DIM"
    and more: "\<not> (W = ga_width a \<and> H = ga_height a)"
  shows "\<exists>b. grow W H a = (Inr (), b) \<and> surface_ok b \<and> atlas_packed b \<and> keeps a b
    \<and> ga_allocations b = ga_allocations a \<and> ga_width b = W \<and> ga_height b = H"
proof -
  let ?d = "depth (ga_format a)"
  define pixels where "pixels = copy_rows (ga_width a * ?d) (W * ?d) (ga_pixels a) (replicate (W * H * ?d) 0)"
  define b where "b = a\<lparr>ga_width := W, ga_height := H, ga_pixels := pixels, ga_modified := sat_add 64 (ga_modified a) 1,
    ga_resized := sat_add 64 (ga_resized a) 1, ga_no_fit_at_least := None\<rparr>"
  have old: "1 \<le> ga_width a" "1 \<le> ga_height a" "length (ga_pixels a) = ga_height a * (ga_width a * ?d)"
    using ok by (auto simp: surface_ok_def)
  have lens: "atlas_byte_len W H ?d = Inr (W * H * ?d)" "atlas_byte_len (ga_width a) 1 ?d = Inr (ga_width a * ?d)"
    "atlas_byte_len W 1 ?d = Inr (W * ?d)"
    using byte_len_small [of _ _ "ga_format a"] byte_len_small [of _ 1 "ga_format a"] le by (simp_all add: MAX_ATLAS_DIM_def)
  have "W * H * ?d < 2 ^ 32" using small_product [of W H ?d] le depth_le by blast
  then have grow: "grow W H a = (Inr (), b)"
    using lens le more by (auto simp: grow_def try_grow_with_byte_limit_def Let_def max_def b_def pixels_def)
  have stride: "ga_width a * ?d \<le> W * ?d" using le by simp
  then have okb: "surface_ok b"
    using le old by (auto simp: surface_ok_def b_def pixels_def length_copy_rows sat_add_def)
  have "atlas_pixel_channel X Y c b = atlas_pixel_channel X Y c a"
    if XYc: "X < ga_width a" "Y < ga_height a" "c < ?d" for X Y c
  proof -
    have "X * ?d + c < ga_width a * ?d" using XYc channel_less by blast
    then have "pixels ! (Y * (W * ?d) + (X * ?d + c)) = ga_pixels a ! (Y * (ga_width a * ?d) + (X * ?d + c))"
      unfolding pixels_def
      by (intro nth_copy_rows [where H = "ga_height a" and H' = H]) (use old le XYc stride in auto)
    then have "pixels ! address W ?d X Y c = ga_pixels a ! address (ga_width a) ?d X Y c"
      by (simp add: address_def add_mult_distrib mult.assoc add.assoc)
    then show ?thesis
      using pixel_channel_in_surface [OF ok XYc] pixel_channel_in_surface [OF okb, of X Y c] XYc le by (simp add: b_def)
  qed
  moreover have "ga_modified a \<le> ga_modified b" "ga_resized a \<le> ga_resized b"
    "ga_resized a < 2 ^ 64 - 1 \<Longrightarrow> ga_resized b \<noteq> ga_resized a"
    using ok by (auto simp: b_def sat_add_def surface_ok_def)
  ultimately have "keeps a b" using le by (auto simp: keeps_def b_def)
  moreover have "atlas_packed b"
    using packed le placed_mono [of "ga_width a" "ga_height a" _ W H]
    by (auto simp: atlas_packed_def packing_ok_def b_def list_all_iff MAX_ATLAS_DIM_def)
  ultimately show ?thesis using grow okb by (auto simp: b_def)
qed

lemma grow_for_glyph_ok:
  assumes ok: "surface_ok a" and packed: "atlas_packed a" and g: "grow_for_glyph w h a = (grown, b)"
  shows "(grown \<longrightarrow> surface_ok b \<and> atlas_packed b \<and> keeps a b \<and> ga_allocations b = ga_allocations a
      \<and> ga_width a + ga_height a < ga_width b + ga_height b)
    \<and> (\<not> grown \<longrightarrow> b = a \<and> (w + 2 \<le> MAX_ATLAS_DIM \<longrightarrow> w + 2 \<le> ga_width a)
      \<and> (h + 2 \<le> MAX_ATLAS_DIM \<longrightarrow> h + 2 \<le> ga_height a))"
proof -
  define W where "W = min (if ga_width a < sat_add 32 w 2 then max (sat_add 32 w 2) (ga_width a) else ga_width a) MAX_ATLAS_DIM"
  define H where "H = min (if ga_height a < sat_add 32 h 2 then max (sat_add 32 h 2) (ga_height a) else sat_mul 32 (ga_height a) 2) MAX_ATLAS_DIM"
  have dims: "1 \<le> ga_height a" "ga_width a \<le> MAX_ATLAS_DIM" "ga_height a \<le> MAX_ATLAS_DIM" using ok by (auto simp: surface_ok_def)
  have le: "ga_width a \<le> W" "W \<le> MAX_ATLAS_DIM" "H \<le> MAX_ATLAS_DIM" using dims by (auto simp: W_def)
    (simp add: H_def)
  have "ga_height a \<le> sat_mul 32 (ga_height a) 2" using dims by (simp add: sat_mul_def MAX_ATLAS_DIM_def)
  then have leH: "ga_height a \<le> H" using dims by (auto simp: H_def)
  have eq: "grow_for_glyph w h a = (if W = ga_width a \<and> H = ga_height a then (False, a)
     else (case grow W H a of (Inr _, a) \<Rightarrow> (True, a) | (Inl _, a) \<Rightarrow> (False, a)))"
    by (simp only: grow_for_glyph_def Let_def W_def H_def)
  show ?thesis
  proof (cases "W = ga_width a \<and> H = ga_height a")
    case True
    have "w + 2 \<le> ga_width a" if "w + 2 \<le> MAX_ATLAS_DIM"
      using True that by (auto simp: W_def sat_add_def MAX_ATLAS_DIM_def min_def split: if_splits)
    moreover have "h + 2 \<le> ga_height a" if "h + 2 \<le> MAX_ATLAS_DIM"
      using True that by (auto simp: H_def sat_add_def MAX_ATLAS_DIM_def min_def split: if_splits)
    ultimately show ?thesis using True g eq by auto
  next
    case False
    from grow_ok [OF ok packed le(1) leH le(2,3) False] obtain b' where b':
      "grow W H a = (Inr (), b')" "surface_ok b'" "atlas_packed b'" "keeps a b'"
      "ga_allocations b' = ga_allocations a" "ga_width b' = W" "ga_height b' = H" by blast
    moreover have "ga_width a + ga_height a < W + H" using False le leH by linarith
    moreover have "(grown, b) = (True, b')" using False b'(1) g eq by (simp only: if_False) simp
    ultimately show ?thesis by auto
  qed
qed

section \<open>The reserving loop\<close>

definition room_made :: "nat \<Rightarrow> nat \<Rightarrow> 'f glyph_atlas \<Rightarrow> atlas_entry option \<Rightarrow> 'f glyph_atlas \<Rightarrow> bool" where
  "room_made w h a r b \<longleftrightarrow> surface_ok b \<and> atlas_packed b \<and> keeps a b
     \<and> (case r of
          None \<Rightarrow> ga_allocations b = ga_allocations a \<and> (w + 2 \<le> MAX_ATLAS_DIM \<longrightarrow> w + 2 \<le> ga_width b)
            \<and> (h + 2 \<le> MAX_ATLAS_DIM \<longrightarrow> h + 2 \<le> ga_height b)
        | Some e \<Rightarrow> ae_width e = w \<and> ae_height e = h \<and> placed (ga_width b) (ga_height b) e
            \<and> (\<forall>u \<in> set (ga_allocations a). disjoint_rects u e) \<and> ga_allocations b = ga_allocations a @ [e])"

lemma reserve_room:
  assumes "surface_ok a" "atlas_packed a" "1 \<le> w" "1 \<le> h" "reserve_rect w h a = (Some e, b)"
  shows "room_made w h a (Some e) b"
  using reserve_ok [OF assms(2,5)] assms same_surface_keeps [of a b] same_surface_ok [of a b]
  by (auto simp: reserves_def room_made_def same_surface_def max_def)

lemma reserve_growing_ok:
  assumes "surface_ok a" "atlas_packed a" "1 \<le> w" "1 \<le> h"
  shows "\<exists>r b. reserve_growing w h a = Some (r, b) \<and> room_made w h a r b"
  using assms
proof (induction "2 * MAX_ATLAS_DIM - (ga_width a + ga_height a)" arbitrary: a rule: less_induct)
  case less
  obtain r a1 where res: "reserve_rect w h a = (r, a1)" by fastforce
  show ?case
  proof (cases r)
    case (Some e)
    then show ?thesis
      using reserve_room [OF less.prems] res by (subst reserve_growing.simps) auto
  next
    case None
    from reserve_ok [OF less.prems(2) res] less.prems None
    have a1: "same_surface a a1" "atlas_packed a1" "ga_allocations a1 = ga_allocations a" "surface_ok a1"
      using same_surface_ok [of a a1] by (auto simp: reserves_def)
    obtain grown a2 where g: "grow_for_glyph w h a1 = (grown, a2)" by fastforce
    note g' = grow_for_glyph_ok [OF a1(4,2) g]
    have loop: "reserve_growing w h a = (if grown then reserve_growing w h a2 else Some (None, a2))"
      using res None g by (subst reserve_growing.simps) simp
    show ?thesis
    proof (cases grown)
      case False
      then show ?thesis using g' a1 loop same_surface_keeps [OF a1(1)] by (auto simp: room_made_def)
    next
      case True
      then have a2: "surface_ok a2" "atlas_packed a2" "keeps a1 a2" "ga_allocations a2 = ga_allocations a"
        and bigger: "ga_width a + ga_height a < ga_width a2 + ga_height a2"
        using g' a1 by (auto simp: same_surface_def)
      moreover have "ga_width a2 + ga_height a2 \<le> 2 * MAX_ATLAS_DIM" using a2(1) by (simp add: surface_ok_def)
      ultimately obtain r b where "reserve_growing w h a2 = Some (r, b)" "room_made w h a2 r b"
        using less.hyps [of a2] less.prems(3,4) by (metis diff_less_mono2 order_less_le_trans)
      moreover have "keeps a a2" using keeps_trans [OF same_surface_keeps [OF a1(1)] a2(3)] .
      ultimately show ?thesis
        using True loop a2(4) keeps_trans [of a a2 b] by (auto simp: room_made_def split: option.splits)
    qed
  qed
qed

lemma recycle_ok:
  assumes "surface_ok a"
  shows "surface_ok (recycle a)" "atlas_packed (recycle a)"
  using assms by (auto simp: surface_ok_def recycle_def atlas_packed_def packing_ok_def MAX_ATLAS_DIM_def sat_add_def)

text \<open>A recycled atlas that is large enough has room.\<close>

lemma recycled_room:
  assumes a: "surface_ok a" and wh: "1 \<le> w" "1 \<le> h" "w + 2 \<le> ga_width a" "h + 2 \<le> ga_height a"
  shows "\<exists>e b. reserve_rect w h (recycle a) = (Some e, b) \<and> room_made w h (recycle a) (Some e) b"
proof -
  note r = recycle_ok [OF a]
  obtain res b where res: "reserve_rect w h (recycle a) = (res, b)" by fastforce
  have "\<not> no_room (recycle a) w h"
    using wh by (auto simp: no_room_def recycle_def intro!: exI [of _ 1])
  then obtain e where "res = Some e"
    using reserve_ok [OF r(2) res] wh by (auto simp: reserves_def max_def split: option.splits)
  then show ?thesis using res reserve_room [OF r wh(1,2)] by blast
qed

text \<open>The outcome: a rectangle next to the ones in use, or alone after recycling, or none for a glyph that cannot fit.\<close>

definition can_fit :: "nat \<Rightarrow> nat \<Rightarrow> bool" where
  "can_fit w h \<longleftrightarrow> w + 2 \<le> MAX_ATLAS_DIM \<and> h + 2 \<le> MAX_ATLAS_DIM"

lemma reserve_recycling_ok:
  assumes a: "surface_ok a" "atlas_packed a" and wh: "1 \<le> w" "1 \<le> h"
  shows "\<exists>r b. reserve_recycling w h a = Some (r, b) \<and> (r \<noteq> None \<longleftrightarrow> can_fit w h)
    \<and> (room_made w h a r b \<or> (\<exists>a1. surface_ok a1 \<and> keeps a a1 \<and> room_made w h (recycle a1) r b))"
proof -
  from reserve_growing_ok [OF a wh] obtain r a1 where g: "reserve_growing w h a = Some (r, a1)" "room_made w h a r a1" by blast
  then have ok1: "surface_ok a1" "keeps a a1" by (simp_all add: room_made_def)
  show ?thesis
  proof (cases r)
    case (Some e)
    then have "can_fit w h" using g(2) ok1 by (auto simp: room_made_def can_fit_def placed_def surface_ok_def)
    then show ?thesis using Some g by (auto simp: reserve_recycling_def)
  next
    case None
    show ?thesis
    proof (cases "can_fit w h")
      case True
      then have fits: "w + 2 \<le> ga_width a1" "h + 2 \<le> ga_height a1"
        using g(2) None by (auto simp: room_made_def can_fit_def)
      then have "reserve_recycling w h a = Some (reserve_rect w h (recycle a1))"
        using g(1) None True by (simp add: reserve_recycling_def checked_add_def can_fit_def MAX_ATLAS_DIM_def)
      then show ?thesis using recycled_room [OF ok1(1) wh fits] ok1 True by auto
    next
      case False
      then have "reserve_recycling w h a = Some (None, a1)"
        using g(1) None ok1(1) by (auto simp: reserve_recycling_def can_fit_def surface_ok_def checked_add_def split: if_splits)
      then show ?thesis using False None g(2) by auto
    qed
  qed
qed

section \<open>Glyphs\<close>

text \<open>
  A glyph that can fit has a rectangle of its own with the pixels it was rasterized to; one that cannot is drawn as the
  pixel in the corner of the border.
\<close>

definition glyph_drawn :: "'f glyph_atlas \<Rightarrow> glyph_raster \<Rightarrow> atlas_record \<Rightarrow> bool" where
  "glyph_drawn a raster r \<longleftrightarrow>
     (let w = max (gr_width raster) 1; h = max (gr_height raster) 1; e = ar_entry r; d = depth (ga_format a)
      in ar_is_color_glyph r = gr_color raster \<and> ar_offset r = gr_offset raster
         \<and> (if can_fit w h
            then e \<in> set (ga_allocations a) \<and> ae_width e = w \<and> ae_height e = h
                 \<and> (length (gr_pixels raster) = w * h * d \<longrightarrow>
                     (\<forall>x y c. x < w \<longrightarrow> y < h \<longrightarrow> c < d
                        \<longrightarrow> atlas_pixel_channel (ae_x e + x) (ae_y e + y) c a = Some (pixel_of (gr_pixels raster) w d x y c)))
            else e = fallback_entry))"

definition glyphs_ok :: "('f glyph_key \<Rightarrow> glyph_raster) \<Rightarrow> 'f glyph_atlas \<Rightarrow> bool" where
  "glyphs_ok rasterize a \<longleftrightarrow>
     surface_ok a \<and> atlas_packed a
     \<and> (\<forall>k r. ga_entries a k = Some r \<longrightarrow> glyph_drawn a (rasterize k) r)
     \<and> (\<forall>k r k' r'. ga_entries a k = Some r \<longrightarrow> ga_entries a k' = Some r' \<longrightarrow> k \<noteq> k'
          \<longrightarrow> ar_entry r = fallback_entry \<or> disjoint_rects (ar_entry r) (ar_entry r'))"

lemma disjoint_inside: "disjoint_rects u e \<Longrightarrow> inside u X Y \<Longrightarrow> \<not> inside e X Y"
  by (auto simp: disjoint_rects_def inside_def)

lemma glyph_drawn_mono:
  assumes drawn: "glyph_drawn a raster r" and ok: "atlas_packed a"
    and alloc: "set (ga_allocations a) \<subseteq> set (ga_allocations b)" and fmt: "ga_format b = ga_format a"
    and same: "\<And>u X Y c. u \<in> set (ga_allocations a) \<Longrightarrow> inside u X Y \<Longrightarrow> X < ga_width a \<Longrightarrow> Y < ga_height a
        \<Longrightarrow> c < depth (ga_format a) \<Longrightarrow> atlas_pixel_channel X Y c b = atlas_pixel_channel X Y c a"
  shows "glyph_drawn b raster r"
proof -
  have "atlas_pixel_channel (ae_x u + x) (ae_y u + y) c b = atlas_pixel_channel (ae_x u + x) (ae_y u + y) c a"
    if "u \<in> set (ga_allocations a)" "x < ae_width u" "y < ae_height u" "c < depth (ga_format a)" for u x y c
  proof (rule same [OF that(1)])
    have "placed (ga_width a) (ga_height a) u" using ok that(1) by (auto simp: atlas_packed_def packing_ok_def list_all_iff)
    then show "ae_x u + x < ga_width a" "ae_y u + y < ga_height a" using that by (auto simp: placed_def)
  qed (use that in \<open>auto simp: inside_def\<close>)
  then show ?thesis using drawn alloc fmt by (auto simp: glyph_drawn_def Let_def split: if_splits)
qed

lemma placed_in_surface: "placed (ga_width a) (ga_height a) e \<Longrightarrow> in_surface a e"
  by (auto simp: placed_def in_surface_def)

lemma fallback_in_surface: "surface_ok a \<Longrightarrow> in_surface a fallback_entry"
  by (auto simp: surface_ok_def in_surface_def fallback_entry_def)

lemma placed_disjoint_fallback: "placed W H e \<Longrightarrow> disjoint_rects e fallback_entry"
  by (simp add: placed_def disjoint_rects_def fallback_entry_def)

lemma set_pixels_fields [simp]:
  "ga_allocations (set_pixels e p a) = ga_allocations a" "ga_entries (set_pixels e p a) = ga_entries a"
  "ga_format (set_pixels e p a) = ga_format a" "ga_width (set_pixels e p a) = ga_width a"
  "ga_height (set_pixels e p a) = ga_height a" "ga_next_x (set_pixels e p a) = ga_next_x a"
  "ga_next_y (set_pixels e p a) = ga_next_y a" "ga_no_fit_at_least (set_pixels e p a) = ga_no_fit_at_least a"
  by (simp_all add: set_pixels_def blit_into_def Let_def)

lemma packed_cong:
  "ga_width b = ga_width a \<Longrightarrow> ga_height b = ga_height a \<Longrightarrow> ga_allocations b = ga_allocations a \<Longrightarrow> ga_next_x b = ga_next_x a
   \<Longrightarrow> ga_next_y b = ga_next_y a \<Longrightarrow> ga_no_fit_at_least b = ga_no_fit_at_least a \<Longrightarrow> atlas_packed b = atlas_packed a"
  by (cases "ga_no_fit_at_least a") (auto simp: atlas_packed_def packing_ok_def no_room_def)

text \<open>Writing the new glyph into its rectangle leaves the other rectangles alone.\<close>

lemma draw_in_room:
  fixes key :: "'f glyph_key"
  assumes room: "room_made w h a reserved b" and fit: "reserved \<noteq> None \<longleftrightarrow> can_fit w h"
    and wh: "w = max (gr_width raster) 1" "h = max (gr_height raster) 1"
    and ok: "surface_ok a" "atlas_packed a"
  defines "e \<equiv> case reserved of Some e \<Rightarrow> e | None \<Rightarrow> fallback_entry"
  defines "r \<equiv> \<lparr>ar_entry = e, ar_is_color_glyph = gr_color raster, ar_offset = gr_offset raster\<rparr>"
  defines "b' \<equiv> (set_pixels e (gr_pixels raster) b)\<lparr>ga_entries := (ga_entries b)(key \<mapsto> r)\<rparr>"
  shows "surface_ok b'" "atlas_packed b'" "glyph_drawn b' raster r"
    "\<And>raster' r'. glyph_drawn a raster' r' \<Longrightarrow> glyph_drawn b' raster' r'"
    "\<And>u. u \<in> set (ga_allocations a) \<Longrightarrow> disjoint_rects u e"
proof -
  let ?s = "set_pixels e (gr_pixels raster) b"
  have b: "surface_ok b" "atlas_packed b" "keeps a b" using room by (auto simp: room_made_def)
  have allocs: "ga_allocations b = ga_allocations a @ (case reserved of None \<Rightarrow> [] | Some e \<Rightarrow> [e])"
    using room by (auto simp: room_made_def split: option.splits)
  have e: "in_surface b e" "reserved = Some e' \<Longrightarrow> ae_width e = w \<and> ae_height e = h" for e'
    using room fallback_in_surface [OF b(1)] placed_in_surface [of b]
    by (auto simp: room_made_def e_def split: option.splits)
  have placed: "placed (ga_width a) (ga_height a) u" if "u \<in> set (ga_allocations a)" for u
    using ok that by (auto simp: atlas_packed_def packing_ok_def list_all_iff)
  show disj: "disjoint_rects u e" if "u \<in> set (ga_allocations a)" for u
    using room that placed_disjoint_fallback [OF placed [OF that]]
    by (auto simp: room_made_def e_def split: option.splits)
  have pix: "atlas_pixel_channel X Y c b' = atlas_pixel_channel X Y c ?s" for X Y c
    by (simp add: b'_def atlas_pixel_channel_def)
  show "surface_ok b'" using set_pixels_ok(1) [OF b(1) e(1)] by (simp add: b'_def surface_ok_def)
  show "atlas_packed b'" using b(2) packed_cong [of b' b] by (simp add: b'_def)
  show "glyph_drawn b' raster r"
  proof (cases reserved)
    case None
    then show ?thesis using fit wh by (simp add: glyph_drawn_def r_def e_def Let_def)
  next
    case (Some e')
    have "e \<in> set (ga_allocations b')" using Some allocs by (simp add: b'_def e_def)
    moreover have "ga_format b' = ga_format b" by (simp add: b'_def)
    ultimately show ?thesis
      using Some fit wh e set_pixels_ok(3) [OF b(1) e(1)] pix by (simp add: glyph_drawn_def r_def Let_def)
  qed
  show "glyph_drawn b' raster' r'" if "glyph_drawn a raster' r'" for raster' r'
  proof (rule glyph_drawn_mono [OF that ok(2)])
    show "set (ga_allocations a) \<subseteq> set (ga_allocations b')" using allocs by (auto simp: b'_def)
    show "ga_format b' = ga_format a" using b(3) by (simp add: b'_def keeps_def)
    fix u X Y c assume u: "u \<in> set (ga_allocations a)" "inside u X Y" "X < ga_width a" "Y < ga_height a" "c < depth (ga_format a)"
    then have "X < ga_width b" "Y < ga_height b" "c < depth (ga_format b)" "\<not> inside e X Y"
      using b(3) disjoint_inside [OF disj [OF u(1)]] by (auto simp: keeps_def)
    then have "atlas_pixel_channel X Y c ?s = atlas_pixel_channel X Y c b"
      using set_pixels_ok(2) [OF b(1) e(1)] by blast
    then show "atlas_pixel_channel X Y c b' = atlas_pixel_channel X Y c a" using b(3) u pix by (simp add: keeps_def)
  qed
qed

lemma insert_drawn:
  assumes room: "room_made w h a reserved b" and fit: "reserved \<noteq> None \<longleftrightarrow> can_fit w h"
    and wh: "w = max (gr_width (rasterize key)) 1" "h = max (gr_height (rasterize key)) 1"
    and a: "glyphs_ok rasterize a" and key: "ga_entries a key = None"
    and r: "r = \<lparr>ar_entry = (case reserved of Some e \<Rightarrow> e | None \<Rightarrow> fallback_entry),
                 ar_is_color_glyph = gr_color (rasterize key), ar_offset = gr_offset (rasterize key)\<rparr>"
  shows "glyphs_ok rasterize ((set_pixels (ar_entry r) (gr_pixels (rasterize key)) b)\<lparr>ga_entries := (ga_entries b)(key \<mapsto> r)\<rparr>)"
proof -
  let ?e = "case reserved of Some e \<Rightarrow> e | None \<Rightarrow> fallback_entry"
  let ?b = "(set_pixels (ar_entry r) (gr_pixels (rasterize key)) b)\<lparr>ga_entries := (ga_entries b)(key \<mapsto> r)\<rparr>"
  have ok: "surface_ok a" "atlas_packed a" using a by (auto simp: glyphs_ok_def)
  note d = draw_in_room(1-4) [OF room fit wh ok, where key = key, folded r]
  note d5 = draw_in_room(5) [OF room fit wh ok]
  have eb: "?b = (set_pixels ?e (gr_pixels (rasterize key)) b)\<lparr>ga_entries := (ga_entries b)(key \<mapsto> r)\<rparr>" by (simp add: r)
  have entries: "ga_entries ?b = (ga_entries a)(key \<mapsto> r)" using room by (simp add: room_made_def keeps_def)
  have old: "ar_entry r' = fallback_entry \<or> ar_entry r' \<in> set (ga_allocations a)"
    if "ga_entries a k = Some r'" for k r'
    using a that by (auto simp: glyphs_ok_def glyph_drawn_def Let_def split: if_splits)
  have sym: "disjoint_rects u v \<Longrightarrow> disjoint_rects v u" for u v by (auto simp: disjoint_rects_def)
  have new: "ar_entry r' = fallback_entry \<or> disjoint_rects (ar_entry r') (ar_entry r)"
    "ar_entry r = fallback_entry \<or> disjoint_rects (ar_entry r) (ar_entry r')"
    if "ga_entries a k = Some r'" for k r'
  proof -
    show "ar_entry r' = fallback_entry \<or> disjoint_rects (ar_entry r') (ar_entry r)"
      using old [OF that] d5 by (auto simp: r)
    have "ar_entry r = fallback_entry \<or> disjoint_rects (ar_entry r) fallback_entry"
      using room placed_disjoint_fallback by (auto simp: room_made_def r split: option.splits)
    then show "ar_entry r = fallback_entry \<or> disjoint_rects (ar_entry r) (ar_entry r')"
      using old [OF that] d5 [THEN sym] by (auto simp: r)
  qed
  show ?thesis
    using d(1-3) a new unfolding glyphs_ok_def entries
    by (auto simp: eb [symmetric] key intro: d(4) [folded eb])
qed

text \<open>An insertion of a new key: room, next to the glyphs or after recycling, and the write.\<close>

lemma insert_result:
  assumes ok: "surface_ok a" "atlas_packed a" and None: "ga_entries a key = None"
  obtains reserved b a0 r where
    "room_made (max (gr_width raster) 1) (max (gr_height raster) 1) a0 reserved b"
    "reserved \<noteq> None \<longleftrightarrow> can_fit (max (gr_width raster) 1) (max (gr_height raster) 1)"
    "a0 = a \<or> (\<exists>a1. surface_ok a1 \<and> keeps a a1 \<and> a0 = recycle a1)"
    "r = \<lparr>ar_entry = (case reserved of Some e \<Rightarrow> e | None \<Rightarrow> fallback_entry),
          ar_is_color_glyph = gr_color raster, ar_offset = gr_offset raster\<rparr>"
    "insert_or_get_raster key raster a =
      Some (r, (set_pixels (ar_entry r) (gr_pixels raster) b)\<lparr>ga_entries := (ga_entries b)(key \<mapsto> r)\<rparr>)"
proof -
  define w where "w = max (gr_width raster) 1"
  define h where "h = max (gr_height raster) 1"
  have wh: "1 \<le> w" "1 \<le> h" by (simp_all add: w_def h_def)
  from reserve_recycling_ok [OF ok wh] obtain reserved b a0 where
    res: "reserve_recycling w h a = Some (reserved, b)" and fit: "reserved \<noteq> None \<longleftrightarrow> can_fit w h"
    and room: "room_made w h a0 reserved b" and a0: "a0 = a \<or> (\<exists>a1. surface_ok a1 \<and> keeps a a1 \<and> a0 = recycle a1)" by metis
  define e where "e = (case reserved of Some e \<Rightarrow> e | None \<Rightarrow> fallback_entry)"
  define r where "r = \<lparr>ar_entry = e, ar_is_color_glyph = gr_color raster, ar_offset = gr_offset raster\<rparr>"
  have size: "(if ae_width e \<noteq> w \<or> ae_height e \<noteq> h
      then e\<lparr>ae_width := min (ae_width e) w, ae_height := min (ae_height e) h\<rparr> else e) = e"
    using room wh by (auto simp: e_def room_made_def fallback_entry_def split: option.splits)
  have "insert_or_get_raster key raster a =
      Some (r, (set_pixels e (gr_pixels raster) b)\<lparr>ga_entries := (ga_entries b)(key \<mapsto> r)\<rparr>)"
    unfolding insert_or_get_raster_def Let_def w_def [symmetric] h_def [symmetric] None res option.case option.map prod.case
      e_def [symmetric] size r_def
    by simp
  with that [OF room [unfolded w_def h_def] fit [unfolded w_def h_def] a0] show thesis by (simp add: r_def e_def)
qed

lemma insert_ok:
  assumes "glyphs_ok rasterize a"
  shows "\<exists>r b. insert_or_get_raster key (rasterize key) a = Some (r, b) \<and> glyphs_ok rasterize b \<and> ga_entries b key = Some r"
proof (cases "ga_entries a key")
  case (Some r)
  then show ?thesis using assms by (simp add: insert_or_get_raster_def)
next
  case None
  have ok: "surface_ok a" "atlas_packed a" using assms by (auto simp: glyphs_ok_def)
  obtain reserved b a0 r where
    room: "room_made (max (gr_width (rasterize key)) 1) (max (gr_height (rasterize key)) 1) a0 reserved b"
    and fit: "reserved \<noteq> None \<longleftrightarrow> can_fit (max (gr_width (rasterize key)) 1) (max (gr_height (rasterize key)) 1)"
    and a0: "a0 = a \<or> (\<exists>a1. surface_ok a1 \<and> keeps a a1 \<and> a0 = recycle a1)"
    and r: "r = \<lparr>ar_entry = (case reserved of Some e \<Rightarrow> e | None \<Rightarrow> fallback_entry),
          ar_is_color_glyph = gr_color (rasterize key), ar_offset = gr_offset (rasterize key)\<rparr>"
    and ins: "insert_or_get_raster key (rasterize key) a =
      Some (r, (set_pixels (ar_entry r) (gr_pixels (rasterize key)) b)\<lparr>ga_entries := (ga_entries b)(key \<mapsto> r)\<rparr>)"
    using insert_result [OF ok None, of "rasterize key"] by metis
  have "glyphs_ok rasterize a0" "ga_entries a0 key = None"
    using a0 assms None recycle_ok by (auto simp: glyphs_ok_def recycle_def)
  with insert_drawn [where rasterize = rasterize and key = key, OF room fit refl refl _ _ r] ins show ?thesis by auto
qed

section \<open>Runs\<close>

text \<open>A renderer asks for glyphs one after the other; a key determines its raster.\<close>

definition draw_step :: "('f glyph_key \<Rightarrow> glyph_raster) \<Rightarrow> 'f glyph_key \<Rightarrow> 'f glyph_atlas \<Rightarrow> 'f glyph_atlas" where
  "draw_step rasterize key a =
     (case insert_or_get_raster key (rasterize key) a of Some (r, b) \<Rightarrow> b | None \<Rightarrow> a)"

interpretation atlas: invariant_machine "draw_step rasterize" "glyphs_ok rasterize" "\<lambda>_. True"
  for rasterize :: "'f glyph_key \<Rightarrow> glyph_raster"
proof
  fix a :: "'f glyph_atlas" and key
  assume "glyphs_ok rasterize a"
  from insert_ok [OF this, of key] show "glyphs_ok rasterize (draw_step rasterize key a)"
    by (auto simp: draw_step_def)
qed

lemma default_ok: "glyphs_ok rasterize default_atlas"
  by (simp add: glyphs_ok_def default_atlas_def from_pixels_def surface_ok_def MAX_ATLAS_DIM_def depth_def
      atlas_packed_def packing_ok_def)

text \<open>
  C14.  The renderer's atlas never mixes up glyphs.  After any sequence of requests the search for a place ends and the
  requested glyph is in the atlas; every glyph there that can fit the largest atlas shows exactly the pixels it was
  rasterized to, in a rectangle of its own that is disjoint from the rectangles of all other glyphs, through all
  growing, gap filling and recycling, and a larger glyph is the corner pixel.
\<close>

theorem atlas_shows_glyphs:
  "let a = fold (draw_step rasterize) keys default_atlas
   in \<exists>r b. insert_or_get_raster key (rasterize key) a = Some (r, b) \<and> ga_entries b key = Some r
        \<and> glyph_drawn b (rasterize key) r
        \<and> (\<forall>k' r'. ga_entries b k' = Some r' \<longrightarrow> glyph_drawn b (rasterize k') r'
             \<and> (k' \<noteq> key \<longrightarrow> ar_entry r = fallback_entry \<or> disjoint_rects (ar_entry r) (ar_entry r')))"
proof -
  have "glyphs_ok rasterize (fold (draw_step rasterize) keys default_atlas)"
    using atlas.run_inv [OF default_ok, of keys] by (simp add: list_all_iff)
  from insert_ok [OF this, of key] show ?thesis unfolding glyphs_ok_def Let_def by blast
qed

definition sample_key :: "unit glyph_key" where
  "sample_key = \<lparr>gk_face = (), gk_text = ''a'', gk_dilation = 0, gk_font_size_bits = 0, gk_pixels_per_point_bits = 0,
     gk_width = 1, gk_height = 1\<rparr>"

definition sample_raster :: glyph_raster where
  "sample_raster = \<lparr>gr_pixels = [1, 2, 3, 4], gr_color = False, gr_width = 1, gr_height = 1, gr_offset = (0, 0)\<rparr>"

theorem atlas_shows_glyphs_witness:
  "\<exists>r b. insert_or_get_raster sample_key sample_raster default_atlas = Some (r, b)
     \<and> ar_entry r \<in> set (ga_allocations b) \<and> ae_width (ar_entry r) = 1 \<and> ae_height (ar_entry r) = 1"
proof -
  from atlas_shows_glyphs [of "\<lambda>_. sample_raster" "[]" sample_key] obtain r b where
    "insert_or_get_raster sample_key sample_raster default_atlas = Some (r, b)" "glyph_drawn b sample_raster r"
    unfolding Let_def fold_simps id_apply by blast
  then show ?thesis by (auto simp: glyph_drawn_def Let_def can_fit_def MAX_ATLAS_DIM_def sample_raster_def)
qed

section \<open>Uploads\<close>

text \<open>
  A renderer remembers the version it has uploaded and asks for the rectangle that changed since.  Versions count up,
  so that the regions are in order.
\<close>

definition regions_ok :: "'f glyph_atlas \<Rightarrow> bool" where
  "regions_ok a \<longleftrightarrow> sorted (map fst (ga_dirty_regions a))
     \<and> (\<forall>p \<in> set (ga_dirty_regions a). fst p \<le> ga_modified a \<and> in_surface a (snd p))"

definition traced :: "'f glyph_atlas \<Rightarrow> 'f glyph_atlas \<Rightarrow> bool" where
  "traced a b \<longleftrightarrow> ga_width b = ga_width a \<and> ga_height b = ga_height a \<and> ga_format b = ga_format a \<and> ga_modified a \<le> ga_modified b
     \<and> (\<exists>new. ga_dirty_regions b = ga_dirty_regions a @ new \<and> (\<forall>p \<in> set new. ga_modified a < fst p)
          \<and> (\<forall>X Y c. X < ga_width a \<longrightarrow> Y < ga_height a \<longrightarrow> c < depth (ga_format a)
               \<longrightarrow> atlas_pixel_channel X Y c b \<noteq> atlas_pixel_channel X Y c a \<longrightarrow> (\<exists>p \<in> set new. inside (snd p) X Y)))"

lemma traced_refl: "traced a a"
  by (auto simp: traced_def)

lemma traced_trans:
  assumes "traced a b" "traced b c"
  shows "traced a c"
proof -
  obtain new where new: "ga_dirty_regions b = ga_dirty_regions a @ new" "\<forall>p \<in> set new. ga_modified a < fst p"
    "\<And>X Y c. X < ga_width a \<Longrightarrow> Y < ga_height a \<Longrightarrow> c < depth (ga_format a)
       \<Longrightarrow> atlas_pixel_channel X Y c b \<noteq> atlas_pixel_channel X Y c a \<Longrightarrow> \<exists>p \<in> set new. inside (snd p) X Y"
    using assms(1) by (auto simp: traced_def)
  obtain new' where new': "ga_dirty_regions c = ga_dirty_regions b @ new'" "\<forall>p \<in> set new'. ga_modified b < fst p"
    "\<And>X Y ch. X < ga_width b \<Longrightarrow> Y < ga_height b \<Longrightarrow> ch < depth (ga_format b)
       \<Longrightarrow> atlas_pixel_channel X Y ch c \<noteq> atlas_pixel_channel X Y ch b \<Longrightarrow> \<exists>p \<in> set new'. inside (snd p) X Y"
    using assms(2) by (auto simp: traced_def)
  have same: "ga_width b = ga_width a" "ga_height b = ga_height a" "ga_format b = ga_format a" "ga_modified a \<le> ga_modified b"
    using assms(1) by (auto simp: traced_def)
  have "\<exists>p \<in> set (new @ new'). inside (snd p) X Y"
    if "X < ga_width a" "Y < ga_height a" "ch < depth (ga_format a)"
      "atlas_pixel_channel X Y ch c \<noteq> atlas_pixel_channel X Y ch a" for X Y ch
    using new(3) [of X Y ch] new'(3) [of X Y ch] that same
    by (cases "atlas_pixel_channel X Y ch b = atlas_pixel_channel X Y ch a") auto
  moreover have "\<forall>p \<in> set (new @ new'). ga_modified a < fst p" using new(2) new'(2) same by fastforce
  ultimately show ?thesis
    using assms new new' unfolding traced_def by (intro conjI exI [of _ "new @ new'"]) auto
qed

lemma set_traced:
  assumes ok: "surface_ok a" and e: "in_surface a e" and m: "ga_modified a < 2 ^ 64 - 1" and surface: "same_surface a0 a"
    and b: "b = (set_pixels e p a)\<lparr>ga_entries := es\<rparr>" and regions: "regions_ok a0"
  shows "traced a0 b" "regions_ok b"
proof -
  have pix: "atlas_pixel_channel X Y c b = atlas_pixel_channel X Y c (set_pixels e p a)" for X Y c
    by (simp add: b atlas_pixel_channel_def)
  have old: "atlas_pixel_channel X Y c a = atlas_pixel_channel X Y c a0" for X Y c
    using surface by (simp add: same_surface_def atlas_pixel_channel_def)
  have fields: "ga_modified b = Suc (ga_modified a0)" "ga_dirty_regions b = ga_dirty_regions a0 @ [(Suc (ga_modified a0), e)]"
    "ga_width b = ga_width a0" "ga_height b = ga_height a0" "ga_format b = ga_format a0"
    using m surface by (simp_all add: b set_pixels_def blit_into_def Let_def sat_add_def same_surface_def)
  have "inside e X Y" if "X < ga_width a0" "Y < ga_height a0" "c < depth (ga_format a0)"
    "atlas_pixel_channel X Y c b \<noteq> atlas_pixel_channel X Y c a0" for X Y c
    using that set_pixels_ok(2) [OF ok e, of X Y c p] surface pix old by (auto simp: same_surface_def)
  then show "traced a0 b" unfolding traced_def using fields by auto
  have "in_surface b e" using e surface fields by (simp add: in_surface_def same_surface_def)
  moreover have "in_surface b e'" if "in_surface a0 e'" for e' using that fields by (simp add: in_surface_def)
  ultimately show "regions_ok b" using regions unfolding regions_ok_def fields
    by (auto simp: sorted_append le_SucI)
qed

lemma recycle_counts:
  assumes "surface_ok a"
  shows "ga_modified a \<le> ga_modified (recycle a)" "ga_resized a \<le> ga_resized (recycle a)"
    "ga_resized a < 2 ^ 64 - 1 \<Longrightarrow> ga_resized (recycle a) = Suc (ga_resized a)"
  using assms by (auto simp: recycle_def sat_add_def surface_ok_def)

lemma keeps_regions:
  assumes "keeps a b" "regions_ok a"
  shows "regions_ok b"
proof -
  have "in_surface b e" if "in_surface a e" for e using assms(1) that by (auto simp: keeps_def in_surface_def)
  then show ?thesis using assms by (auto simp: regions_ok_def keeps_def intro: order_trans)
qed

lemma set_regions:
  assumes "surface_ok a" "regions_ok a" "in_surface a e"
  shows "regions_ok ((set_pixels e p a)\<lparr>ga_entries := es\<rparr>)"
proof -
  let ?m = "sat_add 64 (ga_modified a) 1"
  have "ga_modified a \<le> ?m" using assms(1) by (auto simp: sat_add_def surface_ok_def)
  then have "fst q \<le> ?m" if "q \<in> set (ga_dirty_regions a)" for q
    using assms(2) that by (auto simp: regions_ok_def intro: order_trans)
  then show ?thesis
    using assms(2,3) by (auto simp: regions_ok_def set_pixels_def blit_into_def Let_def sorted_append in_surface_def)
qed

lemma draw_step_cases:
  assumes a: "glyphs_ok rasterize a" and b: "b = draw_step rasterize key a"
  shows "ga_modified a \<le> ga_modified b \<and> ga_resized a \<le> ga_resized b \<and> (regions_ok a \<longrightarrow> regions_ok b)
    \<and> (ga_resized b = ga_resized a \<and> ga_resized a < 2 ^ 64 - 1
        \<longrightarrow> b = a \<or> (\<exists>e p a1 es. surface_ok a1 \<and> in_surface a1 e \<and> same_surface a a1 \<and> b = (set_pixels e p a1)\<lparr>ga_entries := es\<rparr>))"
proof (cases "ga_entries a key")
  case (Some r)
  then show ?thesis using b by (simp add: draw_step_def insert_or_get_raster_def)
next
  case None
  have ok: "surface_ok a" "atlas_packed a" using a by (auto simp: glyphs_ok_def)
  obtain reserved c a0 r where
    room: "room_made (max (gr_width (rasterize key)) 1) (max (gr_height (rasterize key)) 1) a0 reserved c"
    and a0: "a0 = a \<or> (\<exists>a1. surface_ok a1 \<and> keeps a a1 \<and> a0 = recycle a1)"
    and r: "r = \<lparr>ar_entry = (case reserved of Some e \<Rightarrow> e | None \<Rightarrow> fallback_entry),
          ar_is_color_glyph = gr_color (rasterize key), ar_offset = gr_offset (rasterize key)\<rparr>"
    and ins: "insert_or_get_raster key (rasterize key) a =
      Some (r, (set_pixels (ar_entry r) (gr_pixels (rasterize key)) c)\<lparr>ga_entries := (ga_entries c)(key \<mapsto> r)\<rparr>)"
    using insert_result [OF ok None, of "rasterize key"] by metis
  have c: "surface_ok c" "keeps a0 c" "in_surface c (ar_entry r)"
    using room fallback_in_surface [of c] placed_in_surface [of c] by (auto simp: room_made_def r split: option.splits)
  have b: "b = (set_pixels (ar_entry r) (gr_pixels (rasterize key)) c)\<lparr>ga_entries := (ga_entries c)(key \<mapsto> r)\<rparr>"
    using b ins by (simp add: draw_step_def)
  then have counts: "ga_modified c \<le> ga_modified b" "ga_resized b = ga_resized c"
    using c(1) by (auto simp: set_pixels_def blit_into_def Let_def sat_add_def surface_ok_def)
  have a0': "ga_modified a \<le> ga_modified a0 \<and> ga_resized a \<le> ga_resized a0
      \<and> (ga_resized a0 = ga_resized a \<and> ga_resized a < 2 ^ 64 - 1 \<longrightarrow> a0 = a)"
    using a0
  proof (elim disjE exE conjE)
    fix a1 assume a1: "surface_ok a1" "keeps a a1" "a0 = recycle a1"
    have le: "ga_modified a \<le> ga_modified a1" "ga_resized a \<le> ga_resized a1" using a1(2) by (simp_all add: keeps_def)
    note rc = recycle_counts [OF a1(1)]
    have "\<not> (ga_resized a0 = ga_resized a \<and> ga_resized a < 2 ^ 64 - 1)"
      using rc le(2) by (cases "ga_resized a1 < 2 ^ 64 - 1") (auto simp: a1(3))
    then show ?thesis using le rc by (auto simp: a1(3))
  qed simp
  have c': "ga_modified a0 \<le> ga_modified c" "ga_resized a0 \<le> ga_resized c"
    "ga_resized c = ga_resized a0 \<and> ga_resized a0 < 2 ^ 64 - 1 \<longrightarrow> same_surface a0 c"
    using c(2) by (auto simp: keeps_def)
  have "same_surface a c" if eq: "ga_resized b = ga_resized a" and small: "ga_resized a < 2 ^ 64 - 1"
  proof -
    have "ga_resized a0 = ga_resized a" "ga_resized c = ga_resized a0" using eq a0' c'(2) counts(2) by linarith+
    then show ?thesis using a0' c'(3) small by simp
  qed
  moreover have "ga_modified a \<le> ga_modified b" "ga_resized a \<le> ga_resized b" using a0' c'(1,2) counts by linarith+
  moreover have "regions_ok b" if "regions_ok a"
  proof -
    have "regions_ok a0" using a0 that by (auto simp: regions_ok_def recycle_def)
    then have "regions_ok c" by (rule keeps_regions [OF c(2)])
    then show ?thesis unfolding b by (intro set_regions c)
  qed
  ultimately show ?thesis using c(1,3) b by blast
qed

lemma run_regions: "regions_ok (fold (draw_step rasterize) keys default_atlas)"
proof (induction keys rule: rev_induct)
  case (snoc k ks)
  have "glyphs_ok rasterize (fold (draw_step rasterize) ks default_atlas)"
    using atlas.run_inv [OF default_ok, of ks] by (simp add: list_all_iff)
  then show ?case using snoc draw_step_cases [OF _ refl, of rasterize _ k] by simp
qed (simp add: regions_ok_def default_atlas_def from_pixels_def)

lemma draw_run_traced:
  assumes "glyphs_ok rasterize a" "regions_ok a" "b = fold (draw_step rasterize) keys a"
    and "ga_resized b = ga_resized a" "ga_resized a < 2 ^ 64 - 1" "ga_modified b < 2 ^ 64 - 1"
  shows "traced a b \<and> regions_ok b"
  using assms(3-6)
proof (induction keys arbitrary: b rule: rev_induct)
  case Nil
  then show ?case using assms(2) by (simp add: traced_refl)
next
  case (snoc key keys)
  let ?c = "fold (draw_step rasterize) keys a"
  have ok: "glyphs_ok rasterize ?c" using atlas.run_inv [OF assms(1), of keys] by (simp add: list_all_iff)
  have b: "b = draw_step rasterize key ?c" using snoc.prems(1) by simp
  have "ga_resized a \<le> ga_resized ?c"
  proof (induction keys rule: rev_induct)
    case (snoc k ks)
    have "glyphs_ok rasterize (fold (draw_step rasterize) ks a)"
      using atlas.run_inv [OF assms(1), of ks] by (simp add: list_all_iff)
    then show ?case using snoc draw_step_cases [OF _ refl, of rasterize _ k] by (auto intro: order_trans)
  qed simp
  note step = draw_step_cases [OF ok b]
  have c: "ga_resized ?c = ga_resized a" "ga_modified ?c < 2 ^ 64 - 1"
    using step snoc.prems \<open>ga_resized a \<le> ga_resized ?c\<close> by linarith+
  then have IH: "traced a ?c" "regions_ok ?c" using snoc.IH snoc.prems by auto
  from step c snoc.prems consider "b = ?c"
    | e p a1 es where "surface_ok a1" "in_surface a1 e" "same_surface ?c a1" "b = (set_pixels e p a1)\<lparr>ga_entries := es\<rparr>"
    by (metis (no_types, lifting))
  then show ?case
  proof cases
    case 1
    then show ?thesis using IH by simp
  next
    case 2
    have "ga_modified a1 < 2 ^ 64 - 1" using 2(3) c(2) by (simp add: same_surface_def)
    from set_traced [OF 2(1,2) this 2(3,4) IH(2)] IH(1) traced_trans show ?thesis by blast
  qed
qed

text \<open>The union covers what it is made of.\<close>

lemma union_inside:
  assumes "in_surface a l" "in_surface a r" "ga_width a < 2 ^ 32" "ga_height a < 2 ^ 32"
  shows "inside l X Y \<or> inside r X Y \<Longrightarrow> inside (union_atlas_entries l r) X Y"
    and "in_surface a (union_atlas_entries l r)"
proof -
  have sums: "ae_x l + ae_width l < 2 ^ 32" "ae_y l + ae_height l < 2 ^ 32" "ae_x r + ae_width r < 2 ^ 32" "ae_y r + ae_height r < 2 ^ 32"
    using assms by (simp_all add: in_surface_def)
  then show "inside l X Y \<or> inside r X Y \<Longrightarrow> inside (union_atlas_entries l r) X Y"
    by (auto simp: inside_def union_atlas_entries_def Let_def sat_add_small)
  show "in_surface a (union_atlas_entries l r)"
    using sums assms by (auto simp: in_surface_def union_atlas_entries_def Let_def sat_add_small)
qed

lemma union_all_inside:
  assumes "ga_width a < 2 ^ 32" "ga_height a < 2 ^ 32"
  shows "in_surface a e \<Longrightarrow> \<forall>u \<in> set es. in_surface a u \<Longrightarrow> \<exists>u \<in> set (e # es). inside u X Y
    \<Longrightarrow> inside (foldl union_atlas_entries e es) X Y"
proof (induction es arbitrary: e)
  case (Cons u es)
  have "in_surface a (union_atlas_entries e u)" using Cons.prems assms by (auto intro: union_inside)
  moreover have "\<exists>v \<in> set (union_atlas_entries e u # es). inside v X Y"
    using Cons.prems union_inside(1) [of a e u X Y] assms by auto
  ultimately show ?case using Cons by simp
qed simp

lemma dirty_since:
  assumes "regions_ok a" "ga_dirty_regions b = ga_dirty_regions a @ new" "\<forall>p \<in> set new. ga_modified a < fst p"
  shows "dropWhile (\<lambda>(version, _). version \<le> ga_modified a) (ga_dirty_regions b) = new"
proof -
  have "dropWhile (\<lambda>(version, _). version \<le> ga_modified a) new = new"
    using assms(3) by (cases new) auto
  then show ?thesis using assms(1,2) by (subst assms(2), subst dropWhile_append2) (auto simp: regions_ok_def)
qed

text \<open>
  C17.  An upload of the reported rectangle brings a renderer up to date.  When glyphs were drawn since the version it
  holds and the atlas was not resized or recycled, every pixel that changed lies in \<^verbatim>\<open>dirty_rect_since\<close> of that
  version; with no rectangle reported nothing changed.
\<close>

theorem dirty_rect_covers:
  assumes "a = fold (draw_step rasterize) earlier default_atlas" "b = fold (draw_step rasterize) keys a"
    and "ga_resized b = ga_resized a" "ga_resized a < 2 ^ 64 - 1" "ga_modified b < 2 ^ 64 - 1"
    and "X < ga_width b" "Y < ga_height b" "c < depth (ga_format b)"
    and "atlas_pixel_channel X Y c b \<noteq> atlas_pixel_channel X Y c a"
  shows "\<exists>rect. dirty_rect_since (ga_modified a) b = Some rect \<and> inside rect X Y"
proof -
  have regions: "regions_ok a" unfolding assms(1) by (rule run_regions)
  have oka: "glyphs_ok rasterize a"
    using atlas.run_inv [OF default_ok, of earlier] by (simp add: list_all_iff assms(1))
  then have "glyphs_ok rasterize b" using atlas.run_inv [of rasterize a keys] by (simp add: list_all_iff assms(2))
  then have dims: "ga_width b < 2 ^ 32" "ga_height b < 2 ^ 32"
    by (auto simp: glyphs_ok_def surface_ok_def MAX_ATLAS_DIM_def)
  from draw_run_traced [OF oka regions assms(2-5)] have tr: "traced a b" "regions_ok b" by auto
  then obtain new where new: "ga_dirty_regions b = ga_dirty_regions a @ new" "\<forall>p \<in> set new. ga_modified a < fst p"
    "\<exists>p \<in> set new. inside (snd p) X Y"
    using assms(6-9) unfolding traced_def by auto
  have inb: "\<forall>p \<in> set new. in_surface b (snd p)" using tr(2) new(1) by (auto simp: regions_ok_def)
  obtain e es where es: "map snd new = e # es" using new(3) by (cases new) auto
  have set_es: "set (e # es) = snd ` set new" using es by (metis set_map)
  have "\<forall>u \<in> set (e # es). in_surface b u" "\<exists>u \<in> set (e # es). inside u X Y"
    unfolding set_es using inb new(3) by auto
  then have "inside (foldl union_atlas_entries e es) X Y" by (intro union_all_inside [OF dims]) auto
  then show ?thesis
    using dirty_since [OF regions new(1,2)] es by (simp add: dirty_rect_since_def)
qed

lemma sample_drawn:
  defines "e \<equiv> \<lparr>ae_x = 1, ae_y = 1, ae_width = 1, ae_height = 1\<rparr>"
  defines "a1 \<equiv> default_atlas\<lparr>ga_allocations := [e], ga_next_x := 3, ga_row_height := 2\<rparr>"
  defines "r \<equiv> \<lparr>ar_entry = e, ar_is_color_glyph = False, ar_offset = (0, 0)\<rparr>"
  shows "draw_step (\<lambda>_. sample_raster) sample_key default_atlas =
    (set_pixels e [1, 2, 3, 4] a1)\<lparr>ga_entries := [sample_key \<mapsto> r]\<rparr>"
proof -
  have "reserve_rect 1 1 (default_atlas :: unit glyph_atlas) = (Some e, a1)"
    by (simp add: reserve_rect_def reserve_next_shelf_slot_def Let_def checked_add_def sat_add_def default_atlas_def
        from_pixels_def e_def a1_def)
  then have "reserve_recycling 1 1 (default_atlas :: unit glyph_atlas) = Some (Some e, a1)"
    by (simp add: reserve_recycling_def reserve_growing.simps)
  then show ?thesis
    by (simp add: draw_step_def insert_or_get_raster_def sample_raster_def Let_def e_def a1_def r_def default_atlas_def from_pixels_def)
qed

lemma channel_entries: "atlas_pixel_channel X Y c (a\<lparr>ga_entries := es\<rparr>) = atlas_pixel_channel X Y c a"
  by (simp add: atlas_pixel_channel_def)

lemma default_surface: "surface_ok default_atlas"
  using default_ok by (auto simp: glyphs_ok_def)

theorem dirty_rect_covers_witness:
  "\<exists>rect. dirty_rect_since (ga_modified (default_atlas :: unit glyph_atlas)) (draw_step (\<lambda>_. sample_raster) sample_key default_atlas) = Some rect
     \<and> inside rect 1 1"
proof -
  define e where "e = \<lparr>ae_x = 1, ae_y = 1, ae_width = 1, ae_height = 1\<rparr>"
  define a1 :: "unit glyph_atlas" where "a1 = default_atlas\<lparr>ga_allocations := [e], ga_next_x := 3, ga_row_height := 2\<rparr>"
  define b where "b = draw_step (\<lambda>_. sample_raster) sample_key default_atlas"
  obtain es where b: "b = (set_pixels e [1, 2, 3, 4] a1)\<lparr>ga_entries := es\<rparr>"
    using sample_drawn by (auto simp: b_def e_def a1_def)
  have fields: "ga_width a1 = 1024" "ga_height a1 = 1024" "ga_format a1 = Rgba" "ga_modified a1 = 0" "ga_resized a1 = 0"
    by (simp_all add: a1_def default_atlas_def from_pixels_def)
  have surface: "surface_ok a1" "in_surface a1 e"
    using default_surface by (simp add: a1_def surface_ok_def) (simp add: in_surface_def e_def fields)
  have "atlas_pixel_channel (ae_x e + 0) (ae_y e + 0) 0 (set_pixels e [1, 2, 3, 4] a1) = Some (pixel_of [1, 2, 3, 4] (ae_width e) (depth (ga_format a1)) 0 0 0)"
    by (rule set_pixels_ok(3) [OF surface]) (simp_all add: e_def fields depth_def)
  then have new: "atlas_pixel_channel 1 1 0 b = Some 1"
    by (simp add: b channel_entries) (simp add: e_def pixel_of_def address_def)
  have old: "atlas_pixel_channel 1 1 0 (default_atlas :: unit glyph_atlas) = Some 0"
    by (subst pixel_channel_in_surface [OF default_surface])
      (simp_all add: default_atlas_def from_pixels_def depth_def address_def)
  have counts: "ga_modified b = 1" "ga_resized b = 0" "ga_width b = 1024" "ga_height b = 1024" "ga_format b = Rgba"
    using fields by (simp_all add: b set_pixels_def blit_into_def Let_def sat_add_def)
  have zero: "ga_resized (default_atlas :: unit glyph_atlas) = 0" by (simp add: default_atlas_def from_pixels_def)
  from dirty_rect_covers [of "default_atlas :: unit glyph_atlas" "\<lambda>_. sample_raster" "[]" b "[sample_key]" 1 1 0]
  show ?thesis using new old counts zero by (simp add: b_def depth_def)
qed

section \<open>Beyond the size limit\<close>

text \<open>
  An atlas larger than the limit, which the constructors accept, makes \<^verbatim>\<open>grow_for_glyph\<close> report success without growing:
  its target is below the current size.  The loop of an insertion then does not end for a glyph that does not fit.
\<close>

lemma oversized_grow:
  assumes "MAX_ATLAS_DIM < ga_width a" "MAX_ATLAS_DIM < ga_height a"
  shows "grow_for_glyph w h a = (True, a)"
  using assms by (simp add: grow_for_glyph_def grow_def try_grow_with_byte_limit_def Let_def)

lemma reserve_too_large:
  assumes "ga_width a < w + 2"
  shows "reserve_rect w h a = (None, a)"
  using assms by (auto simp: reserve_rect_def Let_def checked_add_def)

lemma oversized_insert_diverges:
  assumes "MAX_ATLAS_DIM < ga_width a" "MAX_ATLAS_DIM < ga_height a" "ga_width a < w + 2"
  shows "reserve_growing w h a = None"
proof -
  have "MAX_ATLAS_DIM < ga_width a \<longrightarrow> MAX_ATLAS_DIM < ga_height a \<longrightarrow> \<not> ga_width a < w + 2"
    if "reserve_growing w h a = Some r" for r
    by (rule reserve_growing.raw_induct [OF _ that]) (auto simp: reserve_too_large oversized_grow)
  then show ?thesis using assms by (cases "reserve_growing w h a") auto
qed

end
