(* ===== verification/Copy_Mode.thy ===== *)
theory Copy_Mode
  imports Terminal_Search
begin

text \<open>
  Copy mode, \<^verbatim>\<open>crates/bootty-terminal/src/terminal_engine/copy_mode.rs\<close>: a cursor that walks over the history of the
  terminal, selects and searches.  The terminal library is the parameter \<open>vt\<close>, the record of the calls that copy mode
  makes on a terminal of type \<open>'t\<close>; compiling a search pattern and extracting a frame are parameters as well (the
  frame itself is the subject of \<^verbatim>\<open>Frame_Assembly\<close>), of which copy mode reads the cursor and the groups of matches.
  An operation returns a result and the engine it leaves behind, or \<^const>\<open>None\<close> if it does not return.
\<close>

section \<open>The terminal\<close>

datatype 'e engine_error = Vt_Error 'e | Context string

record point_coordinate =
  pc_x :: nat
  pc_y :: nat

datatype cell_wide = Narrow | Wide | SpacerTail | SpacerHead

record ('t, 'e) vt_screen =
  vt_total_rows :: "'t \<Rightarrow> 'e + nat"
  vt_scrollbar_offset :: "'t \<Rightarrow> 'e + nat"
  vt_cell_text :: "'t \<Rightarrow> point_coordinate \<Rightarrow> 'e + nat option"
  vt_cell_graphemes :: "'t \<Rightarrow> point_coordinate \<Rightarrow> 'e + (cell_wide \<times> nat list)"
  vt_row_wrapped :: "'t \<Rightarrow> nat \<Rightarrow> 'e + bool"
  vt_scroll_viewport :: "int \<Rightarrow> 't \<Rightarrow> 't"
  vt_set_selection :: "(point_coordinate \<times> point_coordinate \<times> bool) option \<Rightarrow> 't \<Rightarrow> 'e + 't"
  vt_format_selection :: "'t \<Rightarrow> 'e + string option"

definition lift_vt :: "'e + 'a \<Rightarrow> 'e engine_error + 'a" where
  "lift_vt r = (case r of Inl e \<Rightarrow> Inl (Vt_Error e) | Inr a \<Rightarrow> Inr a)"

definition viewport_top_screen_row :: "('t, 'e) vt_screen \<Rightarrow> 't \<Rightarrow> 'e engine_error + nat" where
  "viewport_top_screen_row vt t =
     (case vt_scrollbar_offset vt t of
        Inl e \<Rightarrow> Inl (Vt_Error e)
      | Inr n \<Rightarrow> if n < 2 ^ 32 then Inr n else Inl (Context ''terminal viewport exceeds screen row coordinates''))"

definition screen_rows :: "('t, 'e) vt_screen \<Rightarrow> 't \<Rightarrow> 'e engine_error + nat" where
  "screen_rows vt t =
     (case vt_total_rows vt t of
        Inl e \<Rightarrow> Inl (Vt_Error e)
      | Inr n \<Rightarrow> if max n 1 < 2 ^ 32 then Inr (max n 1)
                  else Inl (Context ''terminal history exceeds screen row coordinates''))"

definition screen_char :: "('t, 'e) vt_screen \<Rightarrow> 't \<Rightarrow> point_coordinate \<Rightarrow> 'e engine_error + nat" where
  "screen_char vt t p =
     (case vt_cell_text vt t p of
        Inl e \<Rightarrow> Inl (Vt_Error e)
      | Inr None \<Rightarrow> Inr 32
      | Inr (Some c) \<Rightarrow> Inr (if is_scalar c then c else 32))"

definition blank_at :: "('t, 'e) vt_screen \<Rightarrow> 't \<Rightarrow> point_coordinate \<Rightarrow> 'e engine_error + bool" where
  "blank_at vt t p = (case screen_char vt t p of Inl e \<Rightarrow> Inl e | Inr c \<Rightarrow> Inr (is_whitespace c))"

fun screen_chars :: "('t, 'e) vt_screen \<Rightarrow> 't \<Rightarrow> nat \<Rightarrow> nat list \<Rightarrow> 'e engine_error + nat list" where
  "screen_chars vt t row [] = Inr []"
| "screen_chars vt t row (x # xs) =
     (case screen_char vt t \<lparr>pc_x = x, pc_y = row\<rparr> of
        Inl e \<Rightarrow> Inl e
      | Inr c \<Rightarrow> (case screen_chars vt t row xs of Inl e \<Rightarrow> Inl e | Inr cs \<Rightarrow> Inr (c # cs)))"

definition screen_row_chars :: "('t, 'e) vt_screen \<Rightarrow> 't \<Rightarrow> nat \<Rightarrow> nat \<Rightarrow> 'e engine_error + nat list" where
  "screen_row_chars vt t cols row = screen_chars vt t row [0..<cols]"

text \<open>The first column of a list that is not blank.\<close>

fun nonblank_col :: "('t, 'e) vt_screen \<Rightarrow> 't \<Rightarrow> nat \<Rightarrow> nat list \<Rightarrow> 'e engine_error + nat" where
  "nonblank_col vt t row [] = Inr 0"
| "nonblank_col vt t row (x # xs) =
     (case blank_at vt t \<lparr>pc_x = x, pc_y = row\<rparr> of
        Inl e \<Rightarrow> Inl e
      | Inr blank \<Rightarrow> if \<not> blank then Inr x else nonblank_col vt t row xs)"

definition screen_row_end_col :: "('t, 'e) vt_screen \<Rightarrow> 't \<Rightarrow> nat \<Rightarrow> nat \<Rightarrow> 'e engine_error + nat" where
  "screen_row_end_col vt t cols row = nonblank_col vt t row (List.rev [0..<cols])"

definition screen_row_first_nonblank_col :: "('t, 'e) vt_screen \<Rightarrow> 't \<Rightarrow> nat \<Rightarrow> nat \<Rightarrow> 'e engine_error + nat" where
  "screen_row_first_nonblank_col vt t cols row = nonblank_col vt t row [0..<cols]"

section \<open>Words\<close>

definition next_screen_point :: "nat \<Rightarrow> point_coordinate \<Rightarrow> nat \<Rightarrow> point_coordinate option" where
  "next_screen_point cols p bottom =
     (if pc_x p < cols - 1 then Some \<lparr>pc_x = pc_x p + 1, pc_y = pc_y p\<rparr>
      else if pc_y p < bottom then Some \<lparr>pc_x = 0, pc_y = pc_y p + 1\<rparr>
      else None)"

definition previous_screen_point :: "nat \<Rightarrow> point_coordinate \<Rightarrow> point_coordinate option" where
  "previous_screen_point cols p =
     (if 0 < pc_x p then Some \<lparr>pc_x = pc_x p - 1, pc_y = pc_y p\<rparr>
      else if 0 < pc_y p then Some \<lparr>pc_x = cols - 1, pc_y = pc_y p - 1\<rparr>
      else None)"

lemma next_screen_point_decreases:
  "next_screen_point cols p bottom = Some q \<Longrightarrow>
     (q, p) \<in> measures [\<lambda>p. bottom - pc_y p, \<lambda>p. cols - 1 - pc_x p]"
  by (auto simp: next_screen_point_def split: if_splits)

lemma previous_screen_point_decreases:
  "previous_screen_point cols p = Some q \<Longrightarrow> (q, p) \<in> measures [pc_y, pc_x]"
  by (auto simp: previous_screen_point_def split: if_splits)

text \<open>A walk in one direction: up to the first point with the wanted blankness, or while the next one is no blank.\<close>

function forward_to_word ::
  "('t, 'e) vt_screen \<Rightarrow> 't \<Rightarrow> nat \<Rightarrow> nat \<Rightarrow> bool \<Rightarrow> point_coordinate \<Rightarrow> 'e engine_error + point_coordinate" where
  "forward_to_word vt t cols bottom left_word current =
     (case next_screen_point cols current bottom of
        None \<Rightarrow> Inr current
      | Some p \<Rightarrow>
          (case blank_at vt t p of
             Inl e \<Rightarrow> Inl e
           | Inr blank \<Rightarrow>
               if left_word \<and> \<not> blank then Inr p
               else forward_to_word vt t cols bottom (if blank then True else left_word) p))"
  by pat_completeness auto
termination
  by (relation "inv_image (measures [\<lambda>(cols, bottom, p). bottom - pc_y p, \<lambda>(cols, bottom, p). cols - 1 - pc_x p])
      (\<lambda>(vt, t, cols, bottom, left_word, p). (cols, bottom, p))")
    (auto simp: next_screen_point_def split: if_splits)

function forward_in_word ::
  "('t, 'e) vt_screen \<Rightarrow> 't \<Rightarrow> nat \<Rightarrow> nat \<Rightarrow> point_coordinate \<Rightarrow> 'e engine_error + point_coordinate" where
  "forward_in_word vt t cols bottom current =
     (case next_screen_point cols current bottom of
        None \<Rightarrow> Inr current
      | Some p \<Rightarrow>
          (case blank_at vt t p of
             Inl e \<Rightarrow> Inl e
           | Inr blank \<Rightarrow> if blank then Inr current else forward_in_word vt t cols bottom p))"
  by pat_completeness auto
termination
  by (relation "inv_image (measures [\<lambda>(cols, bottom, p). bottom - pc_y p, \<lambda>(cols, bottom, p). cols - 1 - pc_x p])
      (\<lambda>(vt, t, cols, bottom, p). (cols, bottom, p))")
    (auto simp: next_screen_point_def split: if_splits)

function backward_to_word ::
  "('t, 'e) vt_screen \<Rightarrow> 't \<Rightarrow> nat \<Rightarrow> point_coordinate \<Rightarrow> 'e engine_error + point_coordinate" where
  "backward_to_word vt t cols current =
     (case previous_screen_point cols current of
        None \<Rightarrow> Inr current
      | Some p \<Rightarrow>
          (case blank_at vt t p of
             Inl e \<Rightarrow> Inl e
           | Inr blank \<Rightarrow> if \<not> blank then Inr p else backward_to_word vt t cols p))"
  by pat_completeness auto
termination
  by (relation "inv_image (measures [pc_y, pc_x]) (\<lambda>(vt, t, cols, p). p)")
    (auto simp: previous_screen_point_def split: if_splits)

function backward_in_word ::
  "('t, 'e) vt_screen \<Rightarrow> 't \<Rightarrow> nat \<Rightarrow> point_coordinate \<Rightarrow> 'e engine_error + point_coordinate" where
  "backward_in_word vt t cols current =
     (case previous_screen_point cols current of
        None \<Rightarrow> Inr current
      | Some p \<Rightarrow>
          (case blank_at vt t p of
             Inl e \<Rightarrow> Inl e
           | Inr blank \<Rightarrow> if blank then Inr current else backward_in_word vt t cols p))"
  by pat_completeness auto
termination
  by (relation "inv_image (measures [pc_y, pc_x]) (\<lambda>(vt, t, cols, p). p)")
    (auto simp: previous_screen_point_def split: if_splits)

declare forward_to_word.simps [simp del] forward_in_word.simps [simp del]
  backward_to_word.simps [simp del] backward_in_word.simps [simp del]

definition next_word_start :: "('t, 'e) vt_screen \<Rightarrow> 't \<Rightarrow> nat \<Rightarrow> point_coordinate \<Rightarrow> 'e engine_error + point_coordinate" where
  "next_word_start vt t cols p =
     (case blank_at vt t p of
        Inl e \<Rightarrow> Inl e
      | Inr blank \<Rightarrow>
          (case screen_rows vt t of
             Inl e \<Rightarrow> Inl e
           | Inr rows \<Rightarrow> forward_to_word vt t cols (rows - 1) blank p))"

definition previous_word_start :: "('t, 'e) vt_screen \<Rightarrow> 't \<Rightarrow> nat \<Rightarrow> point_coordinate \<Rightarrow> 'e engine_error + point_coordinate" where
  "previous_word_start vt t cols p =
     (case backward_to_word vt t cols p of Inl e \<Rightarrow> Inl e | Inr q \<Rightarrow> backward_in_word vt t cols q)"

definition next_word_end :: "('t, 'e) vt_screen \<Rightarrow> 't \<Rightarrow> nat \<Rightarrow> point_coordinate \<Rightarrow> 'e engine_error + point_coordinate" where
  "next_word_end vt t cols p =
     (case screen_rows vt t of
        Inl e \<Rightarrow> Inl e
      | Inr rows \<Rightarrow>
          (case forward_to_word vt t cols (rows - 1) True p of
             Inl e \<Rightarrow> Inl e
           | Inr q \<Rightarrow> forward_in_word vt t cols (rows - 1) q))"

section \<open>Words on a line of cells\<close>

text \<open>The cells of the screen in reading order.\<close>

definition cell_index :: "nat \<Rightarrow> point_coordinate \<Rightarrow> nat" where
  "cell_index cols p = pc_y p * cols + pc_x p"

definition cell_point :: "nat \<Rightarrow> nat \<Rightarrow> point_coordinate" where
  "cell_point cols i = \<lparr>pc_x = i mod cols, pc_y = i div cols\<rparr>"

definition on_screen :: "nat \<Rightarrow> nat \<Rightarrow> point_coordinate \<Rightarrow> bool" where
  "on_screen cols rows p \<longleftrightarrow> pc_x p < cols \<and> pc_y p < rows"

definition word_at :: "('t, 'e) vt_screen \<Rightarrow> 't \<Rightarrow> nat \<Rightarrow> nat \<Rightarrow> bool" where
  "word_at vt t cols i \<longleftrightarrow> blank_at vt t (cell_point cols i) = Inr False"

text \<open>Every cell of the screen can be read.\<close>

definition readable :: "('t, 'e) vt_screen \<Rightarrow> 't \<Rightarrow> nat \<Rightarrow> nat \<Rightarrow> bool" where
  "readable vt t cols rows \<longleftrightarrow> (\<forall>x y. x < cols \<longrightarrow> y < rows \<longrightarrow> (\<exists>c. vt_cell_text vt t \<lparr>pc_x = x, pc_y = y\<rparr> = Inr c))"

lemma cell_index_bound: "on_screen cols rows p \<Longrightarrow> cell_index cols p < rows * cols"
proof -
  assume p: "on_screen cols rows p"
  then have "Suc (pc_y p) * cols \<le> rows * cols" by (intro mult_le_mono1) (simp add: on_screen_def)
  then show ?thesis using p by (simp add: cell_index_def on_screen_def)
qed

lemma cell_point_index [simp]: "on_screen cols rows p \<Longrightarrow> cell_point cols (cell_index cols p) = p"
  by (simp add: cell_point_def cell_index_def on_screen_def)

lemma cell_index_point [simp]: "0 < cols \<Longrightarrow> cell_index cols (cell_point cols i) = i"
  by (simp add: cell_point_def cell_index_def)

lemma on_screen_point: "i < rows * cols \<Longrightarrow> on_screen cols rows (cell_point cols i)"
  by (cases "cols = 0") (auto simp: on_screen_def cell_point_def less_mult_imp_div_less)

lemma blank_readable:
  assumes "readable vt t cols rows" "i < rows * cols"
  shows "blank_at vt t (cell_point cols i) = Inr (\<not> word_at vt t cols i)"
proof -
  have "on_screen cols rows (cell_point cols i)" by (rule on_screen_point [OF assms(2)])
  then obtain c where "vt_cell_text vt t (cell_point cols i) = Inr c"
    using assms(1) by (auto simp: readable_def on_screen_def cell_point_def)
  then obtain b where "blank_at vt t (cell_point cols i) = Inr b"
    by (cases c) (auto simp: blank_at_def screen_char_def)
  then show ?thesis by (cases b) (simp_all add: word_at_def)
qed

lemma div_mod_Suc:
  assumes "0 < (cols :: nat)"
  shows "i mod cols < cols - 1 \<Longrightarrow> Suc i mod cols = Suc (i mod cols) \<and> Suc i div cols = i div cols"
    and "\<not> i mod cols < cols - 1 \<Longrightarrow> Suc i mod cols = 0 \<and> Suc i div cols = Suc (i div cols)"
proof -
  have "i mod cols < cols" using assms by simp
  then show "i mod cols < cols - 1 \<Longrightarrow> Suc i mod cols = Suc (i mod cols) \<and> Suc i div cols = i div cols"
    and "\<not> i mod cols < cols - 1 \<Longrightarrow> Suc i mod cols = 0 \<and> Suc i div cols = Suc (i div cols)"
    by (auto simp: mod_Suc div_Suc)
qed

lemma next_cell:
  assumes "i < rows * cols"
  shows "next_screen_point cols (cell_point cols i) (rows - 1) =
    (if Suc i < rows * cols then Some (cell_point cols (Suc i)) else None)"
proof -
  have pos: "0 < cols" "0 < rows" using assms by (auto intro: Suc_leI gr0I)
  have row: "i div cols < rows" by (rule less_mult_imp_div_less [OF assms])
  show ?thesis
  proof (cases "i mod cols < cols - 1")
    case True
    note s = div_mod_Suc(1) [OF pos(1) True]
    have "Suc i < rows * cols"
      using s row div_less_iff_less_mult [OF pos(1), of "Suc i" rows] by simp
    then show ?thesis using True s by (simp add: next_screen_point_def cell_point_def)
  next
    case False
    note s = div_mod_Suc(2) [OF pos(1) False]
    have "Suc i < rows * cols \<longleftrightarrow> i div cols < rows - 1"
      using s div_less_iff_less_mult [OF pos(1), of "Suc i" rows] pos(2) by auto
    then show ?thesis using False s by (simp add: next_screen_point_def cell_point_def)
  qed
qed

lemma previous_cell:
  assumes "0 < cols"
  shows "previous_screen_point cols (cell_point cols i) = (case i of 0 \<Rightarrow> None | Suc k \<Rightarrow> Some (cell_point cols k))"
proof (cases i)
  case (Suc k)
  show ?thesis
  proof (cases "k mod cols < cols - 1")
    case True
    then show ?thesis using div_mod_Suc(1) [OF assms True] Suc by (simp add: previous_screen_point_def cell_point_def)
  next
    case False
    moreover have "k mod cols = cols - 1" using False assms mod_less_divisor [OF assms, of k] by linarith
    ultimately show ?thesis using div_mod_Suc(2) [OF assms False] Suc by (simp add: previous_screen_point_def cell_point_def)
  qed
qed (simp add: previous_screen_point_def cell_point_def)

text \<open>Where the walk to a word stops: on a word, behind a blank.\<close>

definition word_start_after :: "('t, 'e) vt_screen \<Rightarrow> 't \<Rightarrow> nat \<Rightarrow> bool \<Rightarrow> nat \<Rightarrow> nat \<Rightarrow> bool" where
  "word_start_after vt t cols left_word i k \<longleftrightarrow>
     word_at vt t cols k \<and> (left_word \<or> (\<exists>m. i < m \<and> m < k \<and> \<not> word_at vt t cols m))"

lemma word_start_after_Suc:
  "Suc i < k \<Longrightarrow> word_start_after vt t cols (left_word \<or> \<not> word_at vt t cols (Suc i)) (Suc i) k
     = word_start_after vt t cols left_word i k"
  unfolding word_start_after_def by (metis Suc_lessD Suc_lessI lessI)

lemma forward_to_word_spec:
  assumes ok: "readable vt t cols rows" and "i < rows * cols"
  shows "\<exists>j < rows * cols. forward_to_word vt t cols (rows - 1) left_word (cell_point cols i) = Inr (cell_point cols j)
    \<and> (i < j \<and> word_start_after vt t cols left_word i j \<and> (\<forall>k. i < k \<longrightarrow> k < j \<longrightarrow> \<not> word_start_after vt t cols left_word i k)
       \<or> j = rows * cols - 1 \<and> (\<forall>k. i < k \<longrightarrow> k < rows * cols \<longrightarrow> \<not> word_start_after vt t cols left_word i k))"
  using assms(2)
proof (induction "rows * cols - i" arbitrary: i left_word rule: less_induct)
  case less
  let ?N = "rows * cols"
  show ?case
  proof (cases "Suc i < ?N")
    case False
    then have "i = ?N - 1" using less.prems by simp
    then show ?thesis
      using less.prems False by (subst forward_to_word.simps, subst next_cell [OF less.prems]) (auto intro!: exI [of _ i])
  next
    case True
    show ?thesis
    proof (cases "left_word \<and> word_at vt t cols (Suc i)")
      case stop: True
      then show ?thesis using True less.prems
        by (subst forward_to_word.simps, subst next_cell [OF less.prems])
          (auto simp: blank_readable [OF ok True] word_start_after_def intro!: exI [of _ "Suc i"])
    next
      case False
      let ?lw = "left_word \<or> \<not> word_at vt t cols (Suc i)"
      have eq: "forward_to_word vt t cols (rows - 1) left_word (cell_point cols i)
          = forward_to_word vt t cols (rows - 1) ?lw (cell_point cols (Suc i))"
        using True less.prems False
        by (subst forward_to_word.simps, subst next_cell [OF less.prems]) (auto simp: blank_readable [OF ok True])
      have first: "\<not> word_start_after vt t cols left_word i (Suc i)" using False by (auto simp: word_start_after_def)
      have later: "word_start_after vt t cols ?lw (Suc i) k = word_start_after vt t cols left_word i k" if "Suc i < k" for k
        using word_start_after_Suc [OF that] .
      have "?N - Suc i < ?N - i" using less.prems by simp
      from less.hyps [OF this True, of ?lw] obtain j where j: "j < ?N"
        "forward_to_word vt t cols (rows - 1) ?lw (cell_point cols (Suc i)) = Inr (cell_point cols j)"
        "Suc i < j \<and> word_start_after vt t cols ?lw (Suc i) j \<and> (\<forall>k. Suc i < k \<longrightarrow> k < j \<longrightarrow> \<not> word_start_after vt t cols ?lw (Suc i) k)
         \<or> j = ?N - 1 \<and> (\<forall>k. Suc i < k \<longrightarrow> k < ?N \<longrightarrow> \<not> word_start_after vt t cols ?lw (Suc i) k)" by blast
      have "i < j \<and> word_start_after vt t cols left_word i j \<and> (\<forall>k. i < k \<longrightarrow> k < j \<longrightarrow> \<not> word_start_after vt t cols left_word i k)
         \<or> j = ?N - 1 \<and> (\<forall>k. i < k \<longrightarrow> k < ?N \<longrightarrow> \<not> word_start_after vt t cols left_word i k)"
        using j(3) later first by (metis Suc_lessD Suc_lessI)
      with j(1,2) eq show ?thesis by auto
    qed
  qed
qed

lemma forward_in_word_spec:
  assumes ok: "readable vt t cols rows" and "i < rows * cols"
  shows "\<exists>j < rows * cols. forward_in_word vt t cols (rows - 1) (cell_point cols i) = Inr (cell_point cols j) \<and> i \<le> j
    \<and> (\<forall>k. i < k \<longrightarrow> k \<le> j \<longrightarrow> word_at vt t cols k) \<and> (j = rows * cols - 1 \<or> \<not> word_at vt t cols (Suc j))"
  using assms(2)
proof (induction "rows * cols - i" arbitrary: i rule: less_induct)
  case less
  let ?N = "rows * cols"
  show ?case
  proof (cases "Suc i < ?N \<and> word_at vt t cols (Suc i)")
    case False
    then show ?thesis using less.prems
      by (subst forward_in_word.simps, subst next_cell [OF less.prems])
        (auto simp: blank_readable [OF ok] intro!: exI [of _ i])
  next
    case True
    have eq: "forward_in_word vt t cols (rows - 1) (cell_point cols i) = forward_in_word vt t cols (rows - 1) (cell_point cols (Suc i))"
      using True less.prems by (subst forward_in_word.simps, subst next_cell [OF less.prems]) (auto simp: blank_readable [OF ok])
    have "?N - Suc i < ?N - i" using less.prems by simp
    from less.hyps [OF this] True obtain j where j: "j < ?N"
      "forward_in_word vt t cols (rows - 1) (cell_point cols (Suc i)) = Inr (cell_point cols j)" "Suc i \<le> j"
      "\<forall>k. Suc i < k \<longrightarrow> k \<le> j \<longrightarrow> word_at vt t cols k" "j = ?N - 1 \<or> \<not> word_at vt t cols (Suc j)" by blast
    have "\<forall>k. i < k \<longrightarrow> k \<le> j \<longrightarrow> word_at vt t cols k" using j(4) True by (metis Suc_lessI)
    with j eq show ?thesis by auto
  qed
qed

lemma backward_to_word_spec:
  assumes ok: "readable vt t cols rows" and "i < rows * cols"
  shows "\<exists>j. backward_to_word vt t cols (cell_point cols i) = Inr (cell_point cols j) \<and> j \<le> i
    \<and> (\<forall>k. j < k \<longrightarrow> k < i \<longrightarrow> \<not> word_at vt t cols k) \<and> (j < i \<and> word_at vt t cols j \<or> j = 0)"
  using assms(2)
proof (induction i)
  case 0
  then have "0 < cols" by (auto intro: gr0I)
  then show ?case by (subst backward_to_word.simps, subst previous_cell) (auto intro!: exI [of _ 0])
next
  case (Suc i)
  then have pos: "0 < cols" and i: "i < rows * cols" by (auto intro: gr0I)
  have eq: "backward_to_word vt t cols (cell_point cols (Suc i)) =
      (if word_at vt t cols i then Inr (cell_point cols i) else backward_to_word vt t cols (cell_point cols i))"
    by (subst backward_to_word.simps, subst previous_cell [OF pos]) (simp add: blank_readable [OF ok i])
  show ?case
  proof (cases "word_at vt t cols i")
    case True
    then show ?thesis by (auto simp: eq intro!: exI [of _ i])
  next
    case False
    then obtain j where "backward_to_word vt t cols (cell_point cols i) = Inr (cell_point cols j)" "j \<le> i"
      "\<forall>k. j < k \<longrightarrow> k < i \<longrightarrow> \<not> word_at vt t cols k" "j < i \<and> word_at vt t cols j \<or> j = 0"
      using Suc.IH i by blast
    with False show ?thesis by (intro exI [of _ j]) (auto simp: eq less_Suc_eq)
  qed
qed

lemma backward_in_word_spec:
  assumes ok: "readable vt t cols rows" and "i < rows * cols"
  shows "\<exists>j. backward_in_word vt t cols (cell_point cols i) = Inr (cell_point cols j) \<and> j \<le> i
    \<and> (\<forall>k. j \<le> k \<longrightarrow> k < i \<longrightarrow> word_at vt t cols k) \<and> (j = 0 \<or> \<not> word_at vt t cols (j - 1))"
  using assms(2)
proof (induction i)
  case 0
  then have "0 < cols" by (auto intro: gr0I)
  then show ?case by (subst backward_in_word.simps, subst previous_cell) (auto intro!: exI [of _ 0])
next
  case (Suc i)
  then have pos: "0 < cols" and i: "i < rows * cols" by (auto intro: gr0I)
  have eq: "backward_in_word vt t cols (cell_point cols (Suc i)) =
      (if word_at vt t cols i then backward_in_word vt t cols (cell_point cols i) else Inr (cell_point cols (Suc i)))"
    by (subst backward_in_word.simps, subst previous_cell [OF pos]) (simp add: blank_readable [OF ok i])
  show ?case
  proof (cases "word_at vt t cols i")
    case False
    then show ?thesis by (auto simp: eq intro!: exI [of _ "Suc i"])
  next
    case True
    then obtain j where "backward_in_word vt t cols (cell_point cols i) = Inr (cell_point cols j)" "j \<le> i"
      "\<forall>k. j \<le> k \<longrightarrow> k < i \<longrightarrow> word_at vt t cols k" "j = 0 \<or> \<not> word_at vt t cols (j - 1)"
      using Suc.IH i by blast
    with True show ?thesis by (intro exI [of _ j]) (auto simp: eq less_Suc_eq)
  qed
qed

lemma next_word_start_spec:
  assumes ok: "readable vt t cols rows" "screen_rows vt t = Inr rows" and i: "i < rows * cols"
  shows "\<exists>j < rows * cols. next_word_start vt t cols (cell_point cols i) = Inr (cell_point cols j)
    \<and> (word_at vt t cols j \<and> (\<exists>m. i \<le> m \<and> m < j \<and> \<not> word_at vt t cols m)
         \<and> (\<forall>k. i < k \<longrightarrow> k < j \<longrightarrow> \<not> (word_at vt t cols k \<and> (\<exists>m. i \<le> m \<and> m < k \<and> \<not> word_at vt t cols m)))
       \<or> j = rows * cols - 1
         \<and> (\<forall>k. i < k \<longrightarrow> k < rows * cols \<longrightarrow> \<not> (word_at vt t cols k \<and> (\<exists>m. i \<le> m \<and> m < k \<and> \<not> word_at vt t cols m))))"
proof -
  have starts: "word_start_after vt t cols (\<not> word_at vt t cols i) i k
      \<longleftrightarrow> word_at vt t cols k \<and> (\<exists>m. i \<le> m \<and> m < k \<and> \<not> word_at vt t cols m)" if "i < k" for k
    using that unfolding word_start_after_def by (metis le_less)
  have "next_word_start vt t cols (cell_point cols i) = forward_to_word vt t cols (rows - 1) (\<not> word_at vt t cols i) (cell_point cols i)"
    by (simp add: next_word_start_def blank_readable [OF ok(1) i] ok(2))
  moreover obtain j where j: "j < rows * cols"
    "forward_to_word vt t cols (rows - 1) (\<not> word_at vt t cols i) (cell_point cols i) = Inr (cell_point cols j)"
    "i < j \<and> word_start_after vt t cols (\<not> word_at vt t cols i) i j
       \<and> (\<forall>k. i < k \<longrightarrow> k < j \<longrightarrow> \<not> word_start_after vt t cols (\<not> word_at vt t cols i) i k)
     \<or> j = rows * cols - 1 \<and> (\<forall>k. i < k \<longrightarrow> k < rows * cols \<longrightarrow> \<not> word_start_after vt t cols (\<not> word_at vt t cols i) i k)"
    using forward_to_word_spec [OF ok(1) i, of "\<not> word_at vt t cols i"] by blast
  ultimately show ?thesis using starts by (intro exI [of _ j]) auto
qed

lemma next_word_end_spec:
  assumes ok: "readable vt t cols rows" "screen_rows vt t = Inr rows" and i: "i < rows * cols"
  shows "\<exists>j < rows * cols. next_word_end vt t cols (cell_point cols i) = Inr (cell_point cols j)
    \<and> ((\<exists>a. i < a \<and> a \<le> j \<and> (\<forall>k. i < k \<longrightarrow> k < a \<longrightarrow> \<not> word_at vt t cols k) \<and> (\<forall>k. a \<le> k \<longrightarrow> k \<le> j \<longrightarrow> word_at vt t cols k)
          \<and> (j = rows * cols - 1 \<or> \<not> word_at vt t cols (Suc j)))
       \<or> j = rows * cols - 1 \<and> (\<forall>k. i < k \<longrightarrow> k < rows * cols \<longrightarrow> \<not> word_at vt t cols k))"
proof -
  obtain a where a: "a < rows * cols" "forward_to_word vt t cols (rows - 1) True (cell_point cols i) = Inr (cell_point cols a)"
    "i < a \<and> word_at vt t cols a \<and> (\<forall>k. i < k \<longrightarrow> k < a \<longrightarrow> \<not> word_at vt t cols k)
     \<or> a = rows * cols - 1 \<and> (\<forall>k. i < k \<longrightarrow> k < rows * cols \<longrightarrow> \<not> word_at vt t cols k)"
    using forward_to_word_spec [OF ok(1) i, of True] unfolding word_start_after_def by auto
  obtain j where j: "j < rows * cols" "forward_in_word vt t cols (rows - 1) (cell_point cols a) = Inr (cell_point cols j)" "a \<le> j"
    "\<forall>k. a < k \<longrightarrow> k \<le> j \<longrightarrow> word_at vt t cols k" "j = rows * cols - 1 \<or> \<not> word_at vt t cols (Suc j)"
    using forward_in_word_spec [OF ok(1) a(1)] by blast
  have "next_word_end vt t cols (cell_point cols i) = Inr (cell_point cols j)"
    unfolding next_word_end_def ok(2) sum.case a(2) j(2) ..
  moreover have "(\<forall>k. a \<le> k \<longrightarrow> k \<le> j \<longrightarrow> word_at vt t cols k)" if "word_at vt t cols a" using that j(4) by (auto simp: le_less)
  moreover have "j = rows * cols - 1" if "a = rows * cols - 1" using that j(1,3) by simp
  ultimately show ?thesis using a(3) j(1,3,5) by blast
qed

lemma previous_word_start_spec:
  assumes ok: "readable vt t cols rows" and i: "i < rows * cols"
  shows "\<exists>j \<le> i. previous_word_start vt t cols (cell_point cols i) = Inr (cell_point cols j)
    \<and> ((\<exists>a. j \<le> a \<and> a < i \<and> (\<forall>k. a < k \<longrightarrow> k < i \<longrightarrow> \<not> word_at vt t cols k) \<and> (\<forall>k. j \<le> k \<longrightarrow> k \<le> a \<longrightarrow> word_at vt t cols k)
          \<and> (j = 0 \<or> \<not> word_at vt t cols (j - 1)))
       \<or> j = 0 \<and> (\<forall>k < i. \<not> word_at vt t cols k))"
proof -
  obtain a where a: "backward_to_word vt t cols (cell_point cols i) = Inr (cell_point cols a)" "a \<le> i"
    "\<forall>k. a < k \<longrightarrow> k < i \<longrightarrow> \<not> word_at vt t cols k" "a < i \<and> word_at vt t cols a \<or> a = 0"
    using backward_to_word_spec [OF ok i] by blast
  obtain j where j: "backward_in_word vt t cols (cell_point cols a) = Inr (cell_point cols j)" "j \<le> a"
    "\<forall>k. j \<le> k \<longrightarrow> k < a \<longrightarrow> word_at vt t cols k" "j = 0 \<or> \<not> word_at vt t cols (j - 1)"
    using backward_in_word_spec [OF ok, of a] a(2) i by (meson order_le_less_trans)
  have res: "previous_word_start vt t cols (cell_point cols i) = Inr (cell_point cols j)"
    by (simp add: previous_word_start_def a(1) j(1))
  show ?thesis
  proof (cases "a < i \<and> word_at vt t cols a")
    case True
    then have "\<forall>k. j \<le> k \<longrightarrow> k \<le> a \<longrightarrow> word_at vt t cols k" using j(3) by (auto simp: le_less)
    then have "\<exists>a. j \<le> a \<and> a < i \<and> (\<forall>k. a < k \<longrightarrow> k < i \<longrightarrow> \<not> word_at vt t cols k)
        \<and> (\<forall>k. j \<le> k \<longrightarrow> k \<le> a \<longrightarrow> word_at vt t cols k) \<and> (j = 0 \<or> \<not> word_at vt t cols (j - 1))"
      using True a(3) j(2,4) by (intro exI [of _ a]) blast
    moreover have "j \<le> i" using a(2) j(2) by simp
    ultimately show ?thesis using res by blast
  next
    case False
    then have zero: "a = 0" "j = 0" using a(4) j(2) by auto
    have "\<not> word_at vt t cols k" if "k < i" for k using that zero(1) False a(3) by (cases k) auto
    with res zero show ?thesis by auto
  qed
qed

text \<open>
  C13.  The word motions of copy mode end and go where they say.  \<open>NextWord\<close> goes to the first word cell that lies behind
  a blank at or after the cursor, or to the last cell of the history if there is none.  \<open>NextWordEnd\<close> goes
  to the end of the first word cell's run after the cursor, or to the last cell.  \<open>PreviousWord\<close> goes to the
  start of the run of the last word cell before the cursor, or to the first cell.
\<close>

theorem word_motions:
  assumes "readable vt t cols rows" "screen_rows vt t = Inr rows" "on_screen cols rows p"
  defines "i \<equiv> cell_index cols p" and "N \<equiv> rows * cols" and "word \<equiv> word_at vt t cols"
  shows "(\<exists>j < N. next_word_start vt t cols p = Inr (cell_point cols j)
      \<and> (word j \<and> (\<exists>m. i \<le> m \<and> m < j \<and> \<not> word m) \<and> (\<forall>k. i < k \<longrightarrow> k < j \<longrightarrow> \<not> (word k \<and> (\<exists>m. i \<le> m \<and> m < k \<and> \<not> word m)))
         \<or> j = N - 1 \<and> (\<forall>k. i < k \<longrightarrow> k < N \<longrightarrow> \<not> (word k \<and> (\<exists>m. i \<le> m \<and> m < k \<and> \<not> word m)))))
    \<and> (\<exists>j < N. next_word_end vt t cols p = Inr (cell_point cols j)
      \<and> ((\<exists>a. i < a \<and> a \<le> j \<and> (\<forall>k. i < k \<longrightarrow> k < a \<longrightarrow> \<not> word k) \<and> (\<forall>k. a \<le> k \<longrightarrow> k \<le> j \<longrightarrow> word k) \<and> (j = N - 1 \<or> \<not> word (Suc j)))
         \<or> j = N - 1 \<and> (\<forall>k. i < k \<longrightarrow> k < N \<longrightarrow> \<not> word k)))
    \<and> (\<exists>j \<le> i. previous_word_start vt t cols p = Inr (cell_point cols j)
      \<and> ((\<exists>a. j \<le> a \<and> a < i \<and> (\<forall>k. a < k \<longrightarrow> k < i \<longrightarrow> \<not> word k) \<and> (\<forall>k. j \<le> k \<longrightarrow> k \<le> a \<longrightarrow> word k) \<and> (j = 0 \<or> \<not> word (j - 1)))
         \<or> j = 0 \<and> (\<forall>k < i. \<not> word k)))"
proof -
  have i: "i < rows * cols" and p: "p = cell_point cols i"
    using assms(3) cell_index_bound [OF assms(3)] by (auto simp: i_def)
  show ?thesis
    unfolding N_def word_def p
    by (intro conjI next_word_start_spec [OF assms(1,2) i] next_word_end_spec [OF assms(1,2) i]
        previous_word_start_spec [OF assms(1) i])
qed

text \<open>A terminal of one row of text, which does not scroll.\<close>

definition line_screen :: "(string, unit) vt_screen" where
  "line_screen =
     \<lparr>vt_total_rows = (\<lambda>_. Inr 1), vt_scrollbar_offset = (\<lambda>_. Inr 0),
      vt_cell_text = (\<lambda>t p. Inr (if pc_y p = 0 \<and> pc_x p < length t then Some (of_char (t ! pc_x p)) else None)),
      vt_cell_graphemes = (\<lambda>t p. Inr (Narrow, if pc_y p = 0 \<and> pc_x p < length t then [of_char (t ! pc_x p)] else [])),
      vt_row_wrapped = (\<lambda>_ _. Inr False), vt_scroll_viewport = (\<lambda>_ t. t), vt_set_selection = (\<lambda>_ t. Inr t),
      vt_format_selection = (\<lambda>_. Inr None)\<rparr>"

theorem word_motions_witness:
  "readable line_screen ''ab cd'' 5 1 \<and> next_word_start line_screen ''ab cd'' 5 \<lparr>pc_x = 0, pc_y = 0\<rparr> = Inr \<lparr>pc_x = 3, pc_y = 0\<rparr>
   \<and> (\<exists>j \<le> 0. previous_word_start line_screen ''ab cd'' 5 \<lparr>pc_x = 0, pc_y = 0\<rparr> = Inr (cell_point 5 j))"
proof -
  have ok: "readable line_screen ''ab cd'' 5 1" "screen_rows line_screen ''ab cd'' = Inr 1"
    "on_screen 5 1 \<lparr>pc_x = 0, pc_y = 0\<rparr>"
    by (auto simp: readable_def line_screen_def screen_rows_def on_screen_def)
  have "next_word_start line_screen ''ab cd'' 5 \<lparr>pc_x = 0, pc_y = 0\<rparr> = Inr \<lparr>pc_x = 3, pc_y = 0\<rparr>"
    by (simp add: next_word_start_def blank_at_def screen_char_def screen_rows_def line_screen_def forward_to_word.simps
        next_screen_point_def is_whitespace_def is_scalar_def)
  then show ?thesis using ok word_motions [OF ok] by (auto simp: cell_index_def)
qed

end
