(* ===== verification/Copy_Actions.thy ===== *)
theory Copy_Actions
  imports Copy_Mode
begin

text \<open>
  The actions of copy mode on the engine (\<^verbatim>\<open>terminal_engine/copy_mode.rs\<close>), as computations that return a
  result and the engine left behind.
\<close>

section \<open>Computations\<close>

type_synonym ('s, 'e, 'a) engine_run = "'s \<Rightarrow> (('e engine_error + 'a) \<times> 's) option"

definition and_then :: "('s, 'e, 'a) engine_run \<Rightarrow> ('a \<Rightarrow> ('s, 'e, 'b) engine_run) \<Rightarrow> ('s, 'e, 'b) engine_run" where
  "and_then m f s = Option.bind (m s) (\<lambda>(r, s'). case r of Inl e \<Rightarrow> Some (Inl e, s') | Inr a \<Rightarrow> f a s')"

definition give :: "'a \<Rightarrow> ('s, 'e, 'a) engine_run" where
  "give a s = Some (Inr a, s)"

definition reads :: "('s \<Rightarrow> 'e engine_error + 'a) \<Rightarrow> ('s, 'e, 'a) engine_run" where
  "reads f s = Some (f s, s)"

definition changes :: "('s \<Rightarrow> 's) \<Rightarrow> ('s, 'e, unit) engine_run" where
  "changes f s = Some (Inr (), f s)"

section \<open>The engine\<close>

record copy_mode_state =
  cs_cursor :: point_coordinate
  cs_anchor :: "point_coordinate option"
  cs_rectangle :: bool
  cs_linewise :: bool
  cs_desired_col :: nat

definition cs_selecting :: "copy_mode_state \<Rightarrow> bool" where
  "cs_selecting st = (cs_anchor st \<noteq> None)"

record search_options =
  so_regex :: bool
  so_case_sensitive :: bool

datatype search_direction = Previous | Current | Next

record 't copy_engine =
  en_terminal :: 't
  en_cols :: nat
  en_rows :: nat
  en_copy_mode :: "copy_mode_state option"
  en_content_epoch :: nat
  en_search_query :: string
  en_search_options :: search_options
  en_search_pattern :: "search_pattern option"
  en_search_active_index :: nat
  en_search_pulse :: nat
  en_search_groups :: "frame_selection list list"

record ('t, 'e) copy_host =
  ho_vt :: "('t, 'e) vt_screen"
  ho_pattern :: "string \<Rightarrow> search_options \<Rightarrow> 'e engine_error + search_pattern"
  ho_extract_frame :: "'t copy_engine \<Rightarrow> ('e engine_error + (nat \<times> nat) option) \<times> 't copy_engine"

definition default_search_options :: search_options where
  "default_search_options = \<lparr>so_regex = False, so_case_sensitive = False\<rparr>"

definition copy_content_changed :: "'t copy_engine \<Rightarrow> 't copy_engine" where
  "copy_content_changed s = s\<lparr>en_content_epoch := (en_content_epoch s + 1) mod 2 ^ 64\<rparr>"

definition scroll_viewport_delta :: "('t, 'e) copy_host \<Rightarrow> int \<Rightarrow> ('t copy_engine, 'e, unit) engine_run" where
  "scroll_viewport_delta host delta =
     changes (\<lambda>s. copy_content_changed (s\<lparr>en_terminal := vt_scroll_viewport (ho_vt host) delta (en_terminal s)\<rparr>))"

definition set_terminal_selection ::
  "('t, 'e) copy_host \<Rightarrow> (point_coordinate \<times> point_coordinate \<times> bool) option \<Rightarrow> ('t copy_engine, 'e, unit) engine_run" where
  "set_terminal_selection host selection s =
     (case vt_set_selection (ho_vt host) selection (en_terminal s) of
        Inl e \<Rightarrow> Some (Inl (Vt_Error e), s)
      | Inr t \<Rightarrow> Some (Inr (), s\<lparr>en_terminal := t\<rparr>))"

definition extract_frame :: "('t, 'e) copy_host \<Rightarrow> ('t copy_engine, 'e, (nat \<times> nat) option) engine_run" where
  "extract_frame host s = Some (ho_extract_frame host s)"

definition viewport_top :: "('t, 'e) copy_host \<Rightarrow> ('t copy_engine, 'e, nat) engine_run" where
  "viewport_top host = reads (\<lambda>s. viewport_top_screen_row (ho_vt host) (en_terminal s))"

definition history_rows :: "('t, 'e) copy_host \<Rightarrow> ('t copy_engine, 'e, nat) engine_run" where
  "history_rows host = reads (\<lambda>s. screen_rows (ho_vt host) (en_terminal s))"

definition end_col :: "('t, 'e) copy_host \<Rightarrow> nat \<Rightarrow> ('t copy_engine, 'e, nat) engine_run" where
  "end_col host row = reads (\<lambda>s. screen_row_end_col (ho_vt host) (en_terminal s) (en_cols s) row)"

definition update_state :: "(copy_mode_state \<Rightarrow> copy_mode_state) \<Rightarrow> 't copy_engine \<Rightarrow> 't copy_engine" where
  "update_state f s = s\<lparr>en_copy_mode := map_option f (en_copy_mode s)\<rparr>"

definition copy_mode_screen_point :: "'t copy_engine \<Rightarrow> point_coordinate option" where
  "copy_mode_screen_point s = map_option cs_cursor (en_copy_mode s)"

section \<open>Visibility and selection\<close>

definition ensure_copy_mode_cursor_visible :: "('t, 'e) copy_host \<Rightarrow> ('t copy_engine, 'e, unit) engine_run" where
  "ensure_copy_mode_cursor_visible host s =
     (case copy_mode_screen_point s of
        None \<Rightarrow> give () s
      | Some point \<Rightarrow>
          and_then (viewport_top host) (\<lambda>top s.
            let bottom = sat_add 32 top (max (en_rows s) 1 - 1);
                delta = (if pc_y point < top then int (pc_y point) - int top
                         else if bottom < pc_y point then int (pc_y point) - int bottom else 0)
            in if delta \<noteq> 0 then scroll_viewport_delta host delta s else give () s) s)"

definition sync_copy_mode_selection :: "('t, 'e) copy_host \<Rightarrow> ('t copy_engine, 'e, unit) engine_run" where
  "sync_copy_mode_selection host s =
     (case en_copy_mode s of
        None \<Rightarrow> set_terminal_selection host None s
      | Some st \<Rightarrow>
          (case cs_anchor st of
             None \<Rightarrow> set_terminal_selection host None s
           | Some anchor \<Rightarrow>
               if cs_linewise st then
                 (let start_y = min (pc_y anchor) (pc_y (cs_cursor st));
                      end_y = max (pc_y anchor) (pc_y (cs_cursor st))
                  in and_then (end_col host end_y) (\<lambda>x.
                       set_terminal_selection host
                         (Some (\<lparr>pc_x = 0, pc_y = start_y\<rparr>, \<lparr>pc_x = x, pc_y = end_y\<rparr>, cs_rectangle st))) s)
               else set_terminal_selection host (Some (anchor, cs_cursor st, cs_rectangle st)) s))"

definition clear_copy_mode_selection :: "('t, 'e) copy_host \<Rightarrow> ('t copy_engine, 'e, unit) engine_run" where
  "clear_copy_mode_selection host =
     and_then (changes (update_state (\<lambda>st. st\<lparr>cs_anchor := None, cs_rectangle := False, cs_linewise := False\<rparr>))) (\<lambda>_.
     and_then (set_terminal_selection host None) (\<lambda>_.
     changes copy_content_changed))"

definition cancel_copy_mode :: "('t, 'e) copy_host \<Rightarrow> ('t copy_engine, 'e, unit) engine_run" where
  "cancel_copy_mode host =
     and_then (changes (\<lambda>s. s\<lparr>en_copy_mode := None\<rparr>)) (\<lambda>_.
     and_then (set_terminal_selection host None) (\<lambda>_.
     changes copy_content_changed))"

definition begin_copy_mode_selection :: "('t, 'e) copy_host \<Rightarrow> bool \<Rightarrow> ('t copy_engine, 'e, unit) engine_run" where
  "begin_copy_mode_selection host rectangle s =
     (case copy_mode_screen_point s of
        None \<Rightarrow> give () s
      | Some point \<Rightarrow>
          and_then (changes (update_state (\<lambda>st. st\<lparr>cs_anchor := Some point, cs_rectangle := rectangle, cs_linewise := False\<rparr>))) (\<lambda>_.
          and_then (sync_copy_mode_selection host) (\<lambda>_.
          changes copy_content_changed)) s)"

definition selecting :: "'t copy_engine \<Rightarrow> bool" where
  "selecting s = (case en_copy_mode s of None \<Rightarrow> False | Some st \<Rightarrow> cs_selecting st)"

definition toggle_copy_mode_selection :: "('t, 'e) copy_host \<Rightarrow> ('t copy_engine, 'e, unit) engine_run" where
  "toggle_copy_mode_selection host s =
     (if selecting s then clear_copy_mode_selection host s else begin_copy_mode_selection host False s)"

definition toggle_copy_mode_rectangle :: "('t, 'e) copy_host \<Rightarrow> ('t copy_engine, 'e, unit) engine_run" where
  "toggle_copy_mode_rectangle host s =
     (if \<not> selecting s then begin_copy_mode_selection host True s
      else and_then (changes (update_state (\<lambda>st. st\<lparr>cs_rectangle := \<not> cs_rectangle st, cs_linewise := False\<rparr>))) (\<lambda>_.
           and_then (sync_copy_mode_selection host) (\<lambda>_.
           changes copy_content_changed)) s)"

text \<open>The end of a change of the cursor.\<close>

definition show_cursor :: "('t, 'e) copy_host \<Rightarrow> ('t copy_engine, 'e, unit) engine_run" where
  "show_cursor host =
     and_then (ensure_copy_mode_cursor_visible host) (\<lambda>_.
     and_then (sync_copy_mode_selection host) (\<lambda>_.
     changes copy_content_changed))"

definition select_copy_mode_line :: "('t, 'e) copy_host \<Rightarrow> ('t copy_engine, 'e, unit) engine_run" where
  "select_copy_mode_line host s =
     (case copy_mode_screen_point s of
        None \<Rightarrow> give () s
      | Some point \<Rightarrow>
          and_then (end_col host (pc_y point)) (\<lambda>x.
          and_then (changes (update_state (\<lambda>st. st\<lparr>cs_anchor := Some \<lparr>pc_x = 0, pc_y = pc_y point\<rparr>, cs_rectangle := False,
                      cs_linewise := True, cs_cursor := point\<lparr>pc_x := x\<rparr>, cs_desired_col := x\<rparr>))) (\<lambda>_.
          show_cursor host)) s)"

definition toggle_copy_mode_selection_end :: "('t, 'e) copy_host \<Rightarrow> ('t copy_engine, 'e, unit) engine_run" where
  "toggle_copy_mode_selection_end host s =
     (case en_copy_mode s of
        None \<Rightarrow> give () s
      | Some st \<Rightarrow>
          (case cs_anchor st of
             None \<Rightarrow> give () s
           | Some anchor \<Rightarrow>
               and_then (changes (update_state (\<lambda>st. st\<lparr>cs_anchor := Some (cs_cursor st), cs_cursor := anchor,
                           cs_desired_col := pc_x anchor\<rparr>))) (\<lambda>_.
               show_cursor host) s))"

definition set_copy_mode_cursor ::
  "('t, 'e) copy_host \<Rightarrow> point_coordinate \<Rightarrow> bool \<Rightarrow> ('t copy_engine, 'e, unit) engine_run" where
  "set_copy_mode_cursor host point update_desired_col =
     and_then (changes (update_state (\<lambda>st. st\<lparr>cs_cursor := point,
         cs_desired_col := (if update_desired_col then pc_x point else cs_desired_col st)\<rparr>))) (\<lambda>_.
     show_cursor host)"

definition copy_mode_selection_and_cancel :: "('t, 'e) copy_host \<Rightarrow> ('t copy_engine, 'e, string option) engine_run" where
  "copy_mode_selection_and_cancel host =
     and_then (sync_copy_mode_selection host) (\<lambda>_.
     and_then (reads (\<lambda>s. lift_vt (vt_format_selection (ho_vt host) (en_terminal s)))) (\<lambda>copied.
     and_then (cancel_copy_mode host) (\<lambda>_.
     give copied)))"

section \<open>Motions\<close>

datatype copy_motion =
    MoveLeft | MoveRight | MoveUp | MoveDown | PageUp | PageDown | HalfPageUp | HalfPageDown | HistoryTop | HistoryBottom
  | StartOfLine | EndOfLine | BackToIndentation | TopLine | MiddleLine | BottomLine | NextWord | PreviousWord | NextWordEnd
  | ScrollUpLine | ScrollDownLine

definition shifted_screen_row :: "nat \<Rightarrow> nat \<Rightarrow> nat \<Rightarrow> nat \<Rightarrow> nat" where
  "shifted_screen_row row before_top after_top bottom =
     (if before_top \<le> after_top then min (sat_add 32 row (after_top - before_top)) bottom
      else min (row - (before_top - after_top)) bottom)"

definition raw_motion ::
  "('t, 'e) copy_host \<Rightarrow> nat \<Rightarrow> point_coordinate \<Rightarrow> nat \<Rightarrow> copy_motion
   \<Rightarrow> ('t copy_engine, 'e, point_coordinate \<times> bool) engine_run" where
  "raw_motion host bottom point desired_col motion s =
     (let vt = ho_vt host;
          cols = en_cols s;
          right = cols - 1;
          page = max (en_rows s) 1;
          half_page = max (page div 2) 1;
          column = (\<lambda>x. point\<lparr>pc_x := x\<rparr>);
          line = (\<lambda>y. point\<lparr>pc_y := y\<rparr>);
          up = (\<lambda>distance. give (\<lparr>pc_x = min desired_col right, pc_y = pc_y point - distance\<rparr>, False));
          down = (\<lambda>distance. give (\<lparr>pc_x = min desired_col right, pc_y = min (sat_add 32 (pc_y point) distance) bottom\<rparr>, False));
          scroll = (\<lambda>delta. and_then (viewport_top host) (\<lambda>before_top.
            and_then (scroll_viewport_delta host delta) (\<lambda>_.
            and_then (viewport_top host) (\<lambda>after_top.
            give (line (shifted_screen_row (pc_y point) before_top after_top bottom), False)))))
      in case motion of
           MoveLeft \<Rightarrow>
             if 0 < pc_x point then give (column (pc_x point - 1), True) s
             else if 0 < pc_y point then
               and_then (end_col host (pc_y point - 1)) (\<lambda>x. give (\<lparr>pc_x = x, pc_y = pc_y point - 1\<rparr>, True)) s
             else give (point, True) s
         | MoveRight \<Rightarrow>
             if pc_x point < right then give (column (sat_add 16 (pc_x point) 1), True) s
             else if pc_y point < bottom then give (\<lparr>pc_x = 0, pc_y = sat_add 32 (pc_y point) 1\<rparr>, True) s
             else give (point, True) s
         | MoveUp \<Rightarrow> up 1 s
         | PageUp \<Rightarrow> up page s
         | HalfPageUp \<Rightarrow> up half_page s
         | MoveDown \<Rightarrow> down 1 s
         | PageDown \<Rightarrow> down page s
         | HalfPageDown \<Rightarrow> down half_page s
         | HistoryTop \<Rightarrow> give (\<lparr>pc_x = 0, pc_y = 0\<rparr>, True) s
         | HistoryBottom \<Rightarrow> and_then (end_col host bottom) (\<lambda>x. give (\<lparr>pc_x = x, pc_y = bottom\<rparr>, True)) s
         | StartOfLine \<Rightarrow> give (column 0, True) s
         | EndOfLine \<Rightarrow> and_then (end_col host (pc_y point)) (\<lambda>x. give (column x, True)) s
         | BackToIndentation \<Rightarrow>
             and_then (reads (\<lambda>s. screen_row_first_nonblank_col vt (en_terminal s) cols (pc_y point))) (\<lambda>x. give (column x, True)) s
         | TopLine \<Rightarrow> and_then (viewport_top host) (\<lambda>top. give (line top, True)) s
         | MiddleLine \<Rightarrow> and_then (viewport_top host) (\<lambda>top. give (line (min (sat_add 32 top (page div 2)) bottom), True)) s
         | BottomLine \<Rightarrow> and_then (viewport_top host) (\<lambda>top. give (line (min (sat_add 32 top (page - 1)) bottom), True)) s
         | NextWord \<Rightarrow> and_then (reads (\<lambda>s. next_word_start vt (en_terminal s) cols point)) (\<lambda>p. give (p, True)) s
         | PreviousWord \<Rightarrow> and_then (reads (\<lambda>s. previous_word_start vt (en_terminal s) cols point)) (\<lambda>p. give (p, True)) s
         | NextWordEnd \<Rightarrow> and_then (reads (\<lambda>s. next_word_end vt (en_terminal s) cols point)) (\<lambda>p. give (p, True)) s
         | ScrollUpLine \<Rightarrow> scroll (- 1) s
         | ScrollDownLine \<Rightarrow> scroll 1 s)"

definition copy_mode_motion_target ::
  "('t, 'e) copy_host \<Rightarrow> point_coordinate \<Rightarrow> nat \<Rightarrow> copy_motion \<Rightarrow> ('t copy_engine, 'e, point_coordinate \<times> bool) engine_run" where
  "copy_mode_motion_target host point desired_col motion =
     and_then (history_rows host) (\<lambda>total_rows.
     and_then (raw_motion host (total_rows - 1) point desired_col motion) (\<lambda>(p, update_desired_col) s.
     give (\<lparr>pc_x = min (pc_x p) (en_cols s - 1), pc_y = min (pc_y p) (total_rows - 1)\<rparr>, update_desired_col) s))"

definition move_copy_mode_cursor :: "('t, 'e) copy_host \<Rightarrow> copy_motion \<Rightarrow> ('t copy_engine, 'e, unit) engine_run" where
  "move_copy_mode_cursor host motion s =
     (case en_copy_mode s of
        None \<Rightarrow> give () s
      | Some st \<Rightarrow>
          and_then (copy_mode_motion_target host (cs_cursor st) (cs_desired_col st) motion) (\<lambda>(p, update_desired_col).
          set_copy_mode_cursor host p update_desired_col) s)"

section \<open>Searching\<close>

text \<open>The text of a row with the first and the last cell of every character.\<close>

fun collect_row ::
  "('t, 'e) vt_screen \<Rightarrow> 't \<Rightarrow> nat \<Rightarrow> nat list \<Rightarrow> nat list \<times> (point_coordinate \<times> point_coordinate) list
   \<Rightarrow> 'e engine_error + (nat list \<times> (point_coordinate \<times> point_coordinate) list)" where
  "collect_row vt t y [] acc = Inr acc"
| "collect_row vt t y (x # xs) acc =
     (case vt_cell_graphemes vt t \<lparr>pc_x = x, pc_y = y\<rparr> of
        Inl e \<Rightarrow> Inl (Vt_Error e)
      | Inr (wide, graphemes) \<Rightarrow>
          if wide = SpacerHead \<or> wide = SpacerTail then collect_row vt t y xs acc
          else (let chars = (if graphemes = [] then [32] else graphemes);
                    stop = \<lparr>pc_x = (if wide = Wide then sat_add 16 x 1 else x), pc_y = y\<rparr>
                in collect_row vt t y xs
                     (fst acc @ chars, snd acc @ replicate (length chars) (\<lparr>pc_x = x, pc_y = y\<rparr>, stop))))"

definition trim_blanks :: "nat list \<times> 'p list \<Rightarrow> nat list \<times> 'p list" where
  "trim_blanks acc =
     (let n = length (List.dropWhile (\<lambda>c. c = 32) (List.rev (fst acc))) in (take n (fst acc), take n (snd acc)))"

fun search_history ::
  "('t, 'e) vt_screen \<Rightarrow> 't \<Rightarrow> nat \<Rightarrow> search_pattern \<Rightarrow> nat list \<Rightarrow> nat list \<times> (point_coordinate \<times> point_coordinate) list
   \<Rightarrow> (point_coordinate \<times> point_coordinate) list
   \<Rightarrow> ('e engine_error + (point_coordinate \<times> point_coordinate) list) option" where
  "search_history vt t cols q [] acc out =
     map_option (\<lambda>found. Inr (out @ found)) (copy_mode_matches q (fst acc) (snd acc))"
| "search_history vt t cols q (y # ys) acc out =
     (case collect_row vt t y [0..<cols] acc of
        Inl e \<Rightarrow> Some (Inl e)
      | Inr acc \<Rightarrow>
          (case vt_row_wrapped vt t y of
             Inl e \<Rightarrow> Some (Inl (Vt_Error e))
           | Inr wrapped \<Rightarrow>
               if \<not> wrapped then
                 (case copy_mode_matches q (fst (trim_blanks acc)) (snd (trim_blanks acc)) of
                    None \<Rightarrow> None
                  | Some found \<Rightarrow> search_history vt t cols q ys ([], []) (out @ found))
               else search_history vt t cols q ys acc out))"

definition copy_mode_search_matches ::
  "('t, 'e) copy_host \<Rightarrow> ('t copy_engine, 'e, (point_coordinate \<times> point_coordinate) list) engine_run" where
  "copy_mode_search_matches host s =
     (case en_search_pattern s of
        None \<Rightarrow> give [] s
      | Some q \<Rightarrow>
          and_then (history_rows host) (\<lambda>total_rows s.
            map_option (\<lambda>r. (r, s))
              (search_history (ho_vt host) (en_terminal s) (en_cols s) q [0..<total_rows] ([], []) [])) s)"

definition point_before :: "point_coordinate \<Rightarrow> point_coordinate \<Rightarrow> bool" where
  "point_before p q = (pc_y p < pc_y q \<or> pc_y p = pc_y q \<and> pc_x p < pc_x q)"

definition match_contains :: "point_coordinate \<times> point_coordinate \<Rightarrow> point_coordinate \<Rightarrow> bool" where
  "match_contains m p = (\<not> point_before p (fst m) \<and> \<not> point_before (snd m) p)"

definition copy_mode_search_target ::
  "(point_coordinate \<times> point_coordinate) list \<Rightarrow> point_coordinate \<Rightarrow> search_direction
   \<Rightarrow> (point_coordinate \<times> point_coordinate) option" where
  "copy_mode_search_target matches cursor direction =
     (case direction of
        Current \<Rightarrow>
          or_else (find (\<lambda>m. match_contains m cursor) matches)
            (or_else (find (\<lambda>m. point_before cursor (fst m)) matches) (first_opt matches))
      | Next \<Rightarrow>
          or_else (find (\<lambda>m. \<not> match_contains m cursor \<and> point_before cursor (fst m)) matches)
            (or_else (find (\<lambda>m. \<not> match_contains m cursor) matches) (first_opt matches))
      | Previous \<Rightarrow>
          or_else (find (\<lambda>m. \<not> match_contains m cursor \<and> point_before (fst m) cursor) (List.rev matches))
            (or_else (find (\<lambda>m. \<not> match_contains m cursor) (List.rev matches)) (first_opt (List.rev matches))))"

definition set_search_query ::
  "('t, 'e) copy_host \<Rightarrow> string \<Rightarrow> search_options \<Rightarrow> ('t copy_engine, 'e, unit) engine_run" where
  "set_search_query host query options s =
     (if en_search_query s \<noteq> query \<or> en_search_options s \<noteq> options then
        (case (if query = [] then Inr None else map_sum id Some (ho_pattern host query options)) of
           Inl e \<Rightarrow> Some (Inl e, s)
         | Inr pattern \<Rightarrow>
             Some (Inr (), copy_content_changed (s\<lparr>en_search_query := query, en_search_options := options,
                             en_search_pattern := pattern, en_search_active_index := 0\<rparr>)))
      else give () s)"

definition bump_search_pulse :: "'t copy_engine \<Rightarrow> 't copy_engine" where
  "bump_search_pulse s = copy_content_changed (s\<lparr>en_search_pulse := (en_search_pulse s + 1) mod 2 ^ 64\<rparr>)"

definition group_index :: "nat \<Rightarrow> nat \<Rightarrow> frame_selection list list \<Rightarrow> nat option" where
  "group_index row x groups =
     find_index (list_ex (\<lambda>f. fs_row f = row \<and> fs_start_col f \<le> x \<and> x \<le> fs_end_col f)) groups"

definition align_copy_mode_active_search_match :: "('t, 'e) copy_host \<Rightarrow> ('t copy_engine, 'e, unit) engine_run" where
  "align_copy_mode_active_search_match host s =
     (case copy_mode_screen_point s of
        None \<Rightarrow> give () s
      | Some point \<Rightarrow>
          and_then (viewport_top host) (\<lambda>top.
            if pc_y point < top \<or> 2 ^ 16 \<le> pc_y point - top then give ()
            else and_then (extract_frame host) (\<lambda>_ s.
              case group_index (pc_y point - top) (pc_x point) (en_search_groups s) of
                None \<Rightarrow> give () s
              | Some index \<Rightarrow>
                  and_then (changes (\<lambda>s. copy_content_changed (s\<lparr>en_search_active_index := index\<rparr>))) (\<lambda>_.
                  and_then (extract_frame host) (\<lambda>_. give ())) s)) s)"

definition search_copy_mode_query ::
  "('t, 'e) copy_host \<Rightarrow> string \<Rightarrow> search_direction \<Rightarrow> search_options \<Rightarrow> ('t copy_engine, 'e, bool) engine_run" where
  "search_copy_mode_query host query direction options =
     and_then (set_search_query host query options) (\<lambda>_ s.
       if query = [] then give False s
       else (case copy_mode_screen_point s of
               None \<Rightarrow> give False s
             | Some cursor \<Rightarrow>
                 and_then (copy_mode_search_matches host) (\<lambda>matches.
                   case copy_mode_search_target matches cursor direction of
                     None \<Rightarrow>
                       and_then (changes bump_search_pulse) (\<lambda>_.
                       and_then (extract_frame host) (\<lambda>_. give False))
                   | Some found \<Rightarrow>
                       and_then (set_copy_mode_cursor host (fst found) True) (\<lambda>_.
                       and_then (align_copy_mode_active_search_match host) (\<lambda>_.
                       and_then (changes bump_search_pulse) (\<lambda>_. give True)))) s))"

definition copy_mode_word_under_cursor :: "('t, 'e) copy_host \<Rightarrow> ('t copy_engine, 'e, string option) engine_run" where
  "copy_mode_word_under_cursor host s =
     (case copy_mode_screen_point s of
        None \<Rightarrow> give None s
      | Some point \<Rightarrow>
          and_then (reads (\<lambda>s. screen_row_chars (ho_vt host) (en_terminal s) (en_cols s) (pc_y point))) (\<lambda>chars.
            if length chars \<le> pc_x point \<or> is_whitespace (chars ! pc_x point) then give None
            else (let start = walk_left (\<lambda>i. \<not> is_whitespace (chars ! i)) (pc_x point);
                      stop = walk_right (\<lambda>i. \<not> is_whitespace (chars ! i)) (length chars) (Suc (pc_x point));
                      word = chars_str (take (stop - start) (drop start chars))
                  in give (if word = [] then None else Some word))) s)"

section \<open>Actions\<close>

datatype copy_action =
    Cancel | CancelOrClearSelection | ClearSelection | BeginSelection | ToggleSelection | SelectLine | ToggleSelectionEnd
  | ToggleRectangle | CopySelectionAndCancel | CopyEndOfLineAndCancel | Search string search_direction
  | SearchWithOptions string search_direction search_options | SearchWord search_direction | Move copy_motion

record copy_outcome =
  oc_copied :: "string option"
  oc_search :: "(string \<times> bool) option"
  oc_active :: bool

definition act :: "('s, 'e, unit) engine_run \<Rightarrow> ('s, 'e, string option \<times> (string \<times> bool) option) engine_run" where
  "act m = and_then m (\<lambda>_. give (None, None))"

definition run_copy_action ::
  "('t, 'e) copy_host \<Rightarrow> copy_action \<Rightarrow> ('t copy_engine, 'e, string option \<times> (string \<times> bool) option) engine_run" where
  "run_copy_action host action s =
     (case action of
        Cancel \<Rightarrow> act (cancel_copy_mode host) s
      | CancelOrClearSelection \<Rightarrow>
          act (if selecting s then clear_copy_mode_selection host else cancel_copy_mode host) s
      | ClearSelection \<Rightarrow> act (clear_copy_mode_selection host) s
      | BeginSelection \<Rightarrow> act (begin_copy_mode_selection host False) s
      | ToggleSelection \<Rightarrow> act (toggle_copy_mode_selection host) s
      | SelectLine \<Rightarrow> act (select_copy_mode_line host) s
      | ToggleSelectionEnd \<Rightarrow> act (toggle_copy_mode_selection_end host) s
      | ToggleRectangle \<Rightarrow> act (toggle_copy_mode_rectangle host) s
      | Search query direction \<Rightarrow>
          and_then (search_copy_mode_query host query direction default_search_options) (\<lambda>found. give (None, Some (query, found))) s
      | SearchWithOptions query direction options \<Rightarrow>
          and_then (search_copy_mode_query host query direction options) (\<lambda>found. give (None, Some (query, found))) s
      | SearchWord direction \<Rightarrow>
          and_then (copy_mode_word_under_cursor host) (\<lambda>word.
            case word of
              None \<Rightarrow> give (None, None)
            | Some query \<Rightarrow>
                and_then (search_copy_mode_query host query direction default_search_options)
                  (\<lambda>found. give (None, Some (query, found)))) s
      | CopySelectionAndCancel \<Rightarrow> and_then (copy_mode_selection_and_cancel host) (\<lambda>copied. give (copied, None)) s
      | CopyEndOfLineAndCancel \<Rightarrow>
          and_then (if \<not> selecting s then begin_copy_mode_selection host False else give ()) (\<lambda>_.
          and_then (move_copy_mode_cursor host EndOfLine) (\<lambda>_.
          and_then (copy_mode_selection_and_cancel host) (\<lambda>copied. give (copied, None)))) s
      | Move motion \<Rightarrow> act (move_copy_mode_cursor host motion) s)"

definition handle_copy_mode_action :: "('t, 'e) copy_host \<Rightarrow> copy_action \<Rightarrow> ('t copy_engine, 'e, copy_outcome) engine_run" where
  "handle_copy_mode_action host action s =
     (if en_copy_mode s = None then give \<lparr>oc_copied = None, oc_search = None, oc_active = False\<rparr> s
      else and_then (run_copy_action host action) (\<lambda>(copied, search) s.
             give \<lparr>oc_copied = copied, oc_search = search, oc_active = (en_copy_mode s \<noteq> None)\<rparr> s) s)"

definition copy_mode_entry_point :: "('t, 'e) copy_host \<Rightarrow> ('t copy_engine, 'e, point_coordinate) engine_run" where
  "copy_mode_entry_point host =
     and_then (viewport_top host) (\<lambda>top.
     and_then (history_rows host) (\<lambda>total_rows.
     and_then (extract_frame host) (\<lambda>cursor s.
       let bottom = total_rows - 1;
           right = en_cols s - 1;
           last_row = max (en_rows s) 1 - 1
       in case cursor of
            Some (x, y) \<Rightarrow>
              give \<lparr>pc_x = min x right, pc_y = min (sat_add 32 top (min y (en_rows s - 1))) bottom\<rparr> s
          | None \<Rightarrow> give \<lparr>pc_x = 0, pc_y = min (sat_add 32 top last_row) bottom\<rparr> s)))"

definition enter_copy_mode :: "('t, 'e) copy_host \<Rightarrow> ('t copy_engine, 'e, unit) engine_run" where
  "enter_copy_mode host =
     and_then (copy_mode_entry_point host) (\<lambda>cursor.
     and_then (changes (\<lambda>s. s\<lparr>en_copy_mode := Some \<lparr>cs_cursor = cursor, cs_anchor = None, cs_rectangle = False,
                 cs_linewise = False, cs_desired_col = pc_x cursor\<rparr>\<rparr>)) (\<lambda>_.
     and_then (set_terminal_selection host None) (\<lambda>_.
     and_then (ensure_copy_mode_cursor_visible host) (\<lambda>_.
     changes copy_content_changed))))"

text \<open>The frame shows copy mode's cursor in place of the terminal's.\<close>

definition copy_mode_frame_state :: "copy_mode_state \<Rightarrow> frame_copy_mode" where
  "copy_mode_frame_state st = \<lparr>cm_selecting = cs_selecting st, cm_rectangle = cs_rectangle st\<rparr>"

definition apply_copy_mode_frame_cursor ::
  "'c \<Rightarrow> copy_mode_state option \<Rightarrow> nat \<Rightarrow> ('u, 'c, 'f) render_frame \<Rightarrow> ('u, 'c, 'f) render_frame" where
  "apply_copy_mode_frame_cursor block_hollow copy_mode top_row fr =
     (case copy_mode of
        None \<Rightarrow> fr
      | Some st \<Rightarrow>
          (let point = cs_cursor st
           in if pc_y point < top_row \<or> 2 ^ 16 \<le> pc_y point - top_row then fr
              else if f_cols fr \<le> pc_x point \<or> f_rows fr \<le> pc_y point - top_row then fr
              else fr\<lparr>f_cursor := Some \<lparr>cu_x = pc_x point, cu_y = pc_y point - top_row, cu_at_wide_tail = False,
                        cu_style = block_hollow, cu_blinking = False,
                        cu_color = or_else (fc_cursor (f_colors fr)) (Some (fc_foreground (f_colors fr)))\<rparr>\<rparr>))"

section \<open>Reasoning about computations\<close>

text \<open>A computation returns from a state; a result leaves \<open>Q\<close>, and an error leaves \<open>E\<close>.\<close>

definition runs :: "('s, 'e, 'a) engine_run \<Rightarrow> 's \<Rightarrow> ('a \<Rightarrow> 's \<Rightarrow> bool) \<Rightarrow> ('s \<Rightarrow> bool) \<Rightarrow> bool" where
  "runs m s Q E \<longleftrightarrow> (\<exists>r s'. m s = Some (r, s') \<and> (case r of Inl e \<Rightarrow> E s' | Inr a \<Rightarrow> Q a s'))"

lemma runs_and_then:
  assumes m: "runs m s R E" and f: "\<And>a s'. R a s' \<Longrightarrow> runs (f a) s' Q E"
  shows "runs (and_then m f) s Q E"
proof -
  obtain r s' where r: "m s = Some (r, s')" "case r of Inl e \<Rightarrow> E s' | Inr a \<Rightarrow> R a s'"
    using m by (auto simp: runs_def)
  then show ?thesis using f by (cases r) (auto simp: and_then_def runs_def)
qed

lemma runs_give [simp]: "runs (give a) s Q E = Q a s"
  by (simp add: runs_def give_def)

lemma runs_changes [simp]: "runs (changes f) s Q E = Q () (f s)"
  by (simp add: runs_def changes_def)

lemma runs_reads: "(\<And>a. f s = Inr a \<Longrightarrow> Q a s) \<Longrightarrow> E s \<Longrightarrow> runs (reads f) s Q E"
  by (auto simp: runs_def reads_def split: sum.split)

lemma runs_post: "runs m s R E \<Longrightarrow> (\<And>a s'. R a s' \<Longrightarrow> Q a s') \<Longrightarrow> runs m s Q E"
proof -
  assume "runs m s R E" and q: "\<And>a s'. R a s' \<Longrightarrow> Q a s'"
  then obtain r s' where r: "m s = Some (r, s')" "case r of Inl e \<Rightarrow> E s' | Inr a \<Rightarrow> R a s'" by (auto simp: runs_def)
  then show ?thesis using q by (cases r) (auto simp: runs_def)
qed

lemma runs_cong: "m s = m' s \<Longrightarrow> runs m' s Q E \<Longrightarrow> runs m s Q E"
  by (simp add: runs_def)

section \<open>The cursor stays in the history\<close>

text \<open>
  What copy mode relies on.  The history has \<open>R\<close> rows; scrolling keeps it and moves the viewport by the given number of
  rows as far as the history reaches; selecting and extracting a frame change neither; a compiled pattern
  reports matches in order.
\<close>

definition at_row :: "('t, 'e) vt_screen \<Rightarrow> nat \<Rightarrow> nat \<Rightarrow> 't \<Rightarrow> bool" where
  "at_row vt R top_row t \<longleftrightarrow> vt_total_rows vt t = Inr R \<and> vt_scrollbar_offset vt t = Inr top_row"

definition lawful_host :: "('t, 'e) copy_host \<Rightarrow> nat \<Rightarrow> nat \<Rightarrow> bool" where
  "lawful_host host R rows \<longleftrightarrow>
     (\<forall>d t o'. at_row (ho_vt host) R o' t \<longrightarrow>
        at_row (ho_vt host) R (nat (max 0 (min (int (R - rows)) (int o' + d)))) (vt_scroll_viewport (ho_vt host) d t))
     \<and> (\<forall>sel t t' o'. at_row (ho_vt host) R o' t \<longrightarrow> vt_set_selection (ho_vt host) sel t = Inr t' \<longrightarrow> at_row (ho_vt host) R o' t')
     \<and> (\<forall>s r s' o'. at_row (ho_vt host) R o' (en_terminal s) \<longrightarrow> ho_extract_frame host s = (r, s') \<longrightarrow>
          at_row (ho_vt host) R o' (en_terminal s') \<and> en_cols s' = en_cols s \<and> en_rows s' = en_rows s
          \<and> en_copy_mode s' = en_copy_mode s \<and> en_search_pattern s' = en_search_pattern s)
     \<and> (\<forall>query options q. ho_pattern host query options = Inr q \<longrightarrow> lawful_pattern q)"

definition points_ok :: "nat \<Rightarrow> nat \<Rightarrow> copy_mode_state option \<Rightarrow> bool" where
  "points_ok cols R cm \<longleftrightarrow>
     (case cm of None \<Rightarrow> True
      | Some st \<Rightarrow> on_screen cols R (cs_cursor st) \<and> (case cs_anchor st of None \<Rightarrow> True | Some p \<Rightarrow> on_screen cols R p))"

definition copy_inv :: "('t, 'e) copy_host \<Rightarrow> nat \<Rightarrow> nat \<Rightarrow> nat \<Rightarrow> 't copy_engine \<Rightarrow> bool" where
  "copy_inv host R cols rows s \<longleftrightarrow>
     en_cols s = cols \<and> en_rows s = rows \<and> (\<exists>o' \<le> R - rows. at_row (ho_vt host) R o' (en_terminal s))
     \<and> points_ok cols R (en_copy_mode s) \<and> (\<forall>q. en_search_pattern s = Some q \<longrightarrow> lawful_pattern q)"

text \<open>The cursor is in one of the visible rows.\<close>

definition cursor_visible :: "('t, 'e) copy_host \<Rightarrow> 't copy_engine \<Rightarrow> bool" where
  "cursor_visible host s \<longleftrightarrow>
     (\<forall>st o'. en_copy_mode s = Some st \<longrightarrow> vt_scrollbar_offset (ho_vt host) (en_terminal s) = Inr o' \<longrightarrow>
        o' \<le> pc_y (cs_cursor st) \<and> pc_y (cs_cursor st) < o' + en_rows s)"

definition copy_setup :: "('t, 'e) copy_host \<Rightarrow> nat \<Rightarrow> nat \<Rightarrow> nat \<Rightarrow> bool" where
  "copy_setup host R cols rows \<longleftrightarrow> lawful_host host R rows \<and> 0 < cols \<and> 1 \<le> rows \<and> 1 \<le> R \<and> R < 2 ^ 32"

definition keeps_copy ::
  "('t, 'e) copy_host \<Rightarrow> nat \<Rightarrow> nat \<Rightarrow> nat \<Rightarrow> ('t copy_engine, 'e, 'a) engine_run \<Rightarrow> bool" where
  "keeps_copy host R cols rows m \<longleftrightarrow>
     (\<forall>s. copy_inv host R cols rows s \<longrightarrow> runs m s (\<lambda>_. copy_inv host R cols rows) (copy_inv host R cols rows))"

lemma keeps_copyI:
  "(\<And>s. copy_inv host R cols rows s \<Longrightarrow> runs m s (\<lambda>_. copy_inv host R cols rows) (copy_inv host R cols rows))
   \<Longrightarrow> keeps_copy host R cols rows m"
  by (simp add: keeps_copy_def)

lemma keeps_copyD:
  "keeps_copy host R cols rows m \<Longrightarrow> copy_inv host R cols rows s
   \<Longrightarrow> runs m s (\<lambda>_. copy_inv host R cols rows) (copy_inv host R cols rows)"
  by (simp add: keeps_copy_def)

lemma keeps_and_then:
  "keeps_copy host R cols rows m \<Longrightarrow> (\<And>a. keeps_copy host R cols rows (f a)) \<Longrightarrow> keeps_copy host R cols rows (and_then m f)"
  by (rule keeps_copyI, rule runs_and_then [OF keeps_copyD]) (auto intro: keeps_copyD)

lemma keeps_give [simp]: "keeps_copy host R cols rows (give a)"
  by (simp add: keeps_copy_def)

lemma keeps_reads [simp]: "keeps_copy host R cols rows (reads f)"
  by (auto simp: keeps_copy_def intro: runs_reads)

lemma keeps_top_rows [simp]:
  "keeps_copy host R cols rows (end_col host y)" "keeps_copy host R cols rows (viewport_top host)"
  "keeps_copy host R cols rows (history_rows host)"
  by (simp_all add: end_col_def viewport_top_def history_rows_def)

lemma copy_inv_mark [simp]:
  "copy_inv host R cols rows (copy_content_changed s) = copy_inv host R cols rows s"
  "copy_inv host R cols rows (bump_search_pulse s) = copy_inv host R cols rows s"
  by (simp_all add: copy_inv_def copy_content_changed_def bump_search_pulse_def)

lemma keeps_mark [simp]:
  "keeps_copy host R cols rows (changes copy_content_changed)" "keeps_copy host R cols rows (changes bump_search_pulse)"
  by (simp_all add: keeps_copy_def)

lemma copy_inv_state:
  "copy_inv host R cols rows s \<Longrightarrow> points_ok cols R (map_option f (en_copy_mode s)) \<Longrightarrow> copy_inv host R cols rows (update_state f s)"
  by (simp add: copy_inv_def update_state_def)

lemma rows_of_history:
  assumes "copy_setup host R cols rows" "copy_inv host R cols rows s"
  shows "screen_rows (ho_vt host) (en_terminal s) = Inr R"
  using assms by (auto simp: copy_setup_def copy_inv_def at_row_def screen_rows_def max_def)

lemma top_of_viewport:
  assumes "copy_setup host R cols rows" "copy_inv host R cols rows s"
  obtains o' where "viewport_top_screen_row (ho_vt host) (en_terminal s) = Inr o'" "o' \<le> R - rows"
    "at_row (ho_vt host) R o' (en_terminal s)"
proof -
  from assms(2) obtain o' where o': "o' \<le> R - rows" "at_row (ho_vt host) R o' (en_terminal s)" by (auto simp: copy_inv_def)
  moreover have "o' < 2 ^ 32" using o'(1) assms(1) unfolding copy_setup_def by linarith
  ultimately show thesis using that [of o'] by (simp add: viewport_top_screen_row_def at_row_def)
qed

text \<open>Scrolling, selecting and extracting: what the terminal is left with.\<close>

lemma scroll_runs:
  assumes L: "copy_setup host R cols rows" and inv: "copy_inv host R cols rows s" and o': "at_row (ho_vt host) R o' (en_terminal s)"
  shows "runs (scroll_viewport_delta host d) s
    (\<lambda>_ s'. copy_inv host R cols rows s' \<and> en_copy_mode s' = en_copy_mode s
       \<and> at_row (ho_vt host) R (nat (max 0 (min (int (R - rows)) (int o' + d)))) (en_terminal s')) E"
proof -
  let ?o = "nat (max 0 (min (int (R - rows)) (int o' + d)))"
  have at: "at_row (ho_vt host) R ?o (vt_scroll_viewport (ho_vt host) d (en_terminal s))"
    using L o' unfolding copy_setup_def lawful_host_def by blast
  moreover have "?o \<le> R - rows" by simp
  ultimately have "copy_inv host R cols rows (s\<lparr>en_terminal := vt_scroll_viewport (ho_vt host) d (en_terminal s)\<rparr>)"
    using inv by (auto simp: copy_inv_def)
  then show ?thesis using at by (simp add: scroll_viewport_delta_def) (simp add: copy_content_changed_def)
qed

lemma select_runs:
  assumes L: "copy_setup host R cols rows" and inv: "copy_inv host R cols rows s" and o': "at_row (ho_vt host) R o' (en_terminal s)"
  shows "runs (set_terminal_selection host sel) s
    (\<lambda>_ s'. copy_inv host R cols rows s' \<and> en_copy_mode s' = en_copy_mode s \<and> at_row (ho_vt host) R o' (en_terminal s'))
    (copy_inv host R cols rows)"
proof (cases "vt_set_selection (ho_vt host) sel (en_terminal s)")
  case (Inr t)
  have at: "at_row (ho_vt host) R o' t" using L o' Inr unfolding copy_setup_def lawful_host_def by blast
  moreover from inv obtain o1 where "o1 \<le> R - rows" "at_row (ho_vt host) R o1 (en_terminal s)" by (auto simp: copy_inv_def)
  moreover from this have "o1 = o'" using o' by (simp add: at_row_def)
  ultimately have "copy_inv host R cols rows (s\<lparr>en_terminal := t\<rparr>)" using inv by (auto simp: copy_inv_def)
  then show ?thesis using Inr at by (simp add: runs_def set_terminal_selection_def)
qed (simp add: runs_def set_terminal_selection_def inv)

lemma keeps_selection:
  assumes "copy_setup host R cols rows"
  shows "keeps_copy host R cols rows (set_terminal_selection host sel)"
proof (rule keeps_copyI)
  fix s assume inv: "copy_inv host R cols rows s"
  then obtain o' where "at_row (ho_vt host) R o' (en_terminal s)" by (auto simp: copy_inv_def)
  from select_runs [OF assms inv this] show "runs (set_terminal_selection host sel) s (\<lambda>_. copy_inv host R cols rows) (copy_inv host R cols rows)"
    by (rule runs_post) simp
qed

lemma keeps_extract:
  assumes "copy_setup host R cols rows"
  shows "keeps_copy host R cols rows (extract_frame host)"
proof (rule keeps_copyI)
  fix s assume inv: "copy_inv host R cols rows s"
  obtain r s' where e: "ho_extract_frame host s = (r, s')" by fastforce
  from inv obtain o' where "o' \<le> R - rows" "at_row (ho_vt host) R o' (en_terminal s)" by (auto simp: copy_inv_def)
  moreover from this have "at_row (ho_vt host) R o' (en_terminal s')" "en_cols s' = en_cols s" "en_rows s' = en_rows s"
    "en_copy_mode s' = en_copy_mode s" "en_search_pattern s' = en_search_pattern s"
    using assms e unfolding copy_setup_def lawful_host_def by blast+
  ultimately have "copy_inv host R cols rows s'" using inv by (auto simp: copy_inv_def)
  then show "runs (extract_frame host) s (\<lambda>_. copy_inv host R cols rows) (copy_inv host R cols rows)"
    using e by (auto simp: runs_def extract_frame_def split: sum.split)
qed

section \<open>Showing the cursor\<close>

lemma ensure_visible_runs:
  assumes L: "copy_setup host R cols rows" and inv: "copy_inv host R cols rows s"
  shows "runs (ensure_copy_mode_cursor_visible host) s
    (\<lambda>_ s'. copy_inv host R cols rows s' \<and> cursor_visible host s' \<and> en_copy_mode s' = en_copy_mode s) (copy_inv host R cols rows)"
proof (cases "en_copy_mode s")
  case None
  then show ?thesis
    using inv by (simp add: runs_def give_def ensure_copy_mode_cursor_visible_def copy_mode_screen_point_def cursor_visible_def)
next
  case (Some st)
  obtain o' where o': "viewport_top_screen_row (ho_vt host) (en_terminal s) = Inr o'" "o' \<le> R - rows"
    "at_row (ho_vt host) R o' (en_terminal s)" by (rule top_of_viewport [OF L inv])
  let ?y = "pc_y (cs_cursor st)"
  have y: "?y < R" using inv Some by (simp add: copy_inv_def points_ok_def on_screen_def)
  have dims: "1 \<le> rows" "R < 2 ^ 32" "1 \<le> R" "en_rows s = rows" using L inv by (auto simp: copy_setup_def copy_inv_def)
  have sum: "sat_add 32 o' (max rows 1 - 1) = (if o' + (rows - 1) < 2 ^ 32 then o' + (rows - 1) else 2 ^ 32 - 1)"
    using dims(1) by (simp add: sat_add_def max_def)
  define bottom where "bottom = sat_add 32 o' (max rows 1 - 1)"
  define delta where "delta = (if ?y < o' then int ?y - int o' else if bottom < ?y then int ?y - int bottom else 0)"
  have eq: "ensure_copy_mode_cursor_visible host s = (if delta \<noteq> 0 then scroll_viewport_delta host delta s else give () s)"
    using o'(1) by (simp add: ensure_copy_mode_cursor_visible_def copy_mode_screen_point_def Some and_then_def viewport_top_def reads_def
        delta_def bottom_def dims(4))
  have bottom: "bottom = o' + (rows - 1) \<or> ?y \<le> bottom" using sum y dims unfolding bottom_def by (auto split: if_splits)
  show ?thesis
  proof (cases "delta = 0")
    case True
    then have "o' \<le> ?y" "?y \<le> bottom" by (auto simp: delta_def split: if_splits)
    moreover have "bottom \<le> o' + (rows - 1)" by (simp add: bottom_def sat_add_def max_def)
    ultimately have "cursor_visible host s"
      using o'(3) dims Some by (auto simp: cursor_visible_def at_row_def)
    then show ?thesis using eq True inv by (simp add: runs_def give_def)
  next
    case False
    have "nat (max 0 (min (int (R - rows)) (int o' + delta))) \<le> ?y"
      "?y < nat (max 0 (min (int (R - rows)) (int o' + delta))) + rows"
      using False bottom o'(2) y dims unfolding delta_def by (auto split: if_splits)
    then have "runs (scroll_viewport_delta host delta) s
        (\<lambda>_ s'. copy_inv host R cols rows s' \<and> cursor_visible host s' \<and> en_copy_mode s' = en_copy_mode s) (copy_inv host R cols rows)"
      using Some by (intro runs_post [OF scroll_runs [OF L inv o'(3)]]) (auto simp: cursor_visible_def at_row_def copy_inv_def)
    then show ?thesis using eq False by (simp add: runs_def)
  qed
qed

lemma sync_runs:
  assumes L: "copy_setup host R cols rows" and inv: "copy_inv host R cols rows s" and o': "at_row (ho_vt host) R o' (en_terminal s)"
  shows "runs (sync_copy_mode_selection host) s
    (\<lambda>_ s'. copy_inv host R cols rows s' \<and> en_copy_mode s' = en_copy_mode s \<and> at_row (ho_vt host) R o' (en_terminal s'))
    (copy_inv host R cols rows)"
proof -
  let ?Q = "\<lambda>_ s'. copy_inv host R cols rows s' \<and> en_copy_mode s' = en_copy_mode s \<and> at_row (ho_vt host) R o' (en_terminal s')"
  have sel: "runs (set_terminal_selection host sel) s ?Q (copy_inv host R cols rows)" for sel
    by (rule select_runs [OF L inv o'])
  have lines: "runs (and_then (end_col host y) (\<lambda>x. set_terminal_selection host (sel x))) s ?Q (copy_inv host R cols rows)" for y sel
  proof (rule runs_and_then)
    show "runs (end_col host y) s (\<lambda>_ s'. s' = s) (copy_inv host R cols rows)"
      unfolding end_col_def using inv by (intro runs_reads) auto
  qed (use sel in auto)
  show ?thesis
  proof (cases "en_copy_mode s")
    case None
    then show ?thesis by (intro runs_cong [OF _ sel [of None]]) (simp add: sync_copy_mode_selection_def)
  next
    case st: (Some st)
    show ?thesis
    proof (cases "cs_anchor st")
      case None
      with st show ?thesis by (intro runs_cong [OF _ sel [of None]]) (simp add: sync_copy_mode_selection_def)
    next
      case (Some anchor)
      show ?thesis
      proof (cases "cs_linewise st")
        case True
        let ?lo = "min (pc_y anchor) (pc_y (cs_cursor st))" and ?hi = "max (pc_y anchor) (pc_y (cs_cursor st))"
        have "sync_copy_mode_selection host s = and_then (end_col host ?hi) (\<lambda>x. set_terminal_selection host
            (Some (\<lparr>pc_x = 0, pc_y = ?lo\<rparr>, \<lparr>pc_x = x, pc_y = ?hi\<rparr>, cs_rectangle st))) s"
          using st Some True by (simp add: sync_copy_mode_selection_def Let_def)
        then show ?thesis
          by (rule runs_cong) (rule lines [of ?hi "\<lambda>x. Some (\<lparr>pc_x = 0, pc_y = ?lo\<rparr>, \<lparr>pc_x = x, pc_y = ?hi\<rparr>, cs_rectangle st)"])
      next
        case False
        with st Some show ?thesis
          by (intro runs_cong [OF _ sel [of "Some (anchor, cs_cursor st, cs_rectangle st)"]]) (simp add: sync_copy_mode_selection_def)
      qed
    qed
  qed
qed

lemma show_cursor_runs:
  assumes L: "copy_setup host R cols rows" and inv: "copy_inv host R cols rows s"
  shows "runs (show_cursor host) s
    (\<lambda>_ s'. copy_inv host R cols rows s' \<and> cursor_visible host s' \<and> en_copy_mode s' = en_copy_mode s) (copy_inv host R cols rows)"
  unfolding show_cursor_def
proof (rule runs_and_then [OF ensure_visible_runs [OF L inv]], elim conjE)
  fix s1 assume s1: "copy_inv host R cols rows s1" "cursor_visible host s1" "en_copy_mode s1 = en_copy_mode s"
  then obtain o' where o': "at_row (ho_vt host) R o' (en_terminal s1)" by (auto simp: copy_inv_def)
  show "runs (and_then (sync_copy_mode_selection host) (\<lambda>_. changes copy_content_changed)) s1
    (\<lambda>_ s'. copy_inv host R cols rows s' \<and> cursor_visible host s' \<and> en_copy_mode s' = en_copy_mode s) (copy_inv host R cols rows)"
  proof (rule runs_and_then [OF sync_runs [OF L s1(1) o']], elim conjE)
    fix s2 assume s2: "copy_inv host R cols rows s2" "en_copy_mode s2 = en_copy_mode s1" "at_row (ho_vt host) R o' (en_terminal s2)"
    have "cursor_visible host s2"
      using s1(1,2) s2 o' by (auto simp: cursor_visible_def at_row_def copy_inv_def)
    then have "cursor_visible host (copy_content_changed s2)" by (simp add: cursor_visible_def copy_content_changed_def)
    moreover have "en_copy_mode (copy_content_changed s2) = en_copy_mode s" using s1 s2 by (simp add: copy_content_changed_def)
    ultimately show "runs (changes copy_content_changed) s2
      (\<lambda>_ s'. copy_inv host R cols rows s' \<and> cursor_visible host s' \<and> en_copy_mode s' = en_copy_mode s) (copy_inv host R cols rows)"
      using s2(1) by simp
  qed
qed

section \<open>Every action keeps the invariant\<close>

lemma keeps_sync:
  assumes "copy_setup host R cols rows"
  shows "keeps_copy host R cols rows (sync_copy_mode_selection host)"
proof (rule keeps_copyI)
  fix s assume inv: "copy_inv host R cols rows s"
  then obtain o' where "at_row (ho_vt host) R o' (en_terminal s)" by (auto simp: copy_inv_def)
  from sync_runs [OF assms inv this] show "runs (sync_copy_mode_selection host) s (\<lambda>_. copy_inv host R cols rows) (copy_inv host R cols rows)"
    by (rule runs_post) simp
qed

lemma keeps_show_cursor:
  assumes "copy_setup host R cols rows"
  shows "keeps_copy host R cols rows (show_cursor host)"
  by (rule keeps_copyI, rule runs_post [OF show_cursor_runs [OF assms]]) simp_all

text \<open>A change of the copy mode state that keeps its points in the history.\<close>

lemma keeps_state:
  assumes "\<And>st. points_ok cols R (Some st) \<Longrightarrow> points_ok cols R (Some (f st))"
  shows "keeps_copy host R cols rows (changes (update_state f))"
proof (rule keeps_copyI)
  fix s assume inv: "copy_inv host R cols rows s"
  have "points_ok cols R (map_option f (en_copy_mode s))"
    using inv assms by (cases "en_copy_mode s") (auto simp: copy_inv_def points_ok_def [of _ _ None])
  then show "runs (changes (update_state f)) s (\<lambda>_. copy_inv host R cols rows) (copy_inv host R cols rows)"
    using inv by (simp add: copy_inv_state)
qed

lemma points_ok_Some [simp]:
  "points_ok cols R (Some st) \<longleftrightarrow> on_screen cols R (cs_cursor st) \<and> (\<forall>p. cs_anchor st = Some p \<longrightarrow> on_screen cols R p)"
  by (auto simp: points_ok_def split: option.splits)

lemma keeps_clear_cancel:
  assumes "copy_setup host R cols rows"
  shows "keeps_copy host R cols rows (clear_copy_mode_selection host)" "keeps_copy host R cols rows (cancel_copy_mode host)"
proof -
  have "keeps_copy host R cols rows (changes (\<lambda>s. s\<lparr>en_copy_mode := None\<rparr>))"
    by (simp add: keeps_copy_def copy_inv_def points_ok_def [of _ _ None])
  then show "keeps_copy host R cols rows (cancel_copy_mode host)"
    unfolding cancel_copy_mode_def by (intro keeps_and_then keeps_selection [OF assms]) simp_all
  show "keeps_copy host R cols rows (clear_copy_mode_selection host)"
    unfolding clear_copy_mode_selection_def by (intro keeps_and_then keeps_selection [OF assms] keeps_state) simp_all
qed

lemma cursor_on_screen:
  "copy_inv host R cols rows s \<Longrightarrow> en_copy_mode s = Some st \<Longrightarrow> on_screen cols R (cs_cursor st) \<and> (\<forall>p. cs_anchor st = Some p \<longrightarrow> on_screen cols R p)"
  by (auto simp: copy_inv_def)

lemma keeps_begin:
  assumes L: "copy_setup host R cols rows"
  shows "keeps_copy host R cols rows (begin_copy_mode_selection host rectangle)"
proof (rule keeps_copyI)
  fix s assume inv: "copy_inv host R cols rows s"
  show "runs (begin_copy_mode_selection host rectangle) s (\<lambda>_. copy_inv host R cols rows) (copy_inv host R cols rows)"
  proof (cases "en_copy_mode s")
    case None
    then show ?thesis using inv by (simp add: runs_def give_def begin_copy_mode_selection_def copy_mode_screen_point_def)
  next
    case (Some st)
    have "on_screen cols R (cs_cursor st)" using cursor_on_screen [OF inv Some] by simp
    then have "keeps_copy host R cols rows
      (and_then (changes (update_state (\<lambda>st'. st'\<lparr>cs_anchor := Some (cs_cursor st), cs_rectangle := rectangle, cs_linewise := False\<rparr>))) (\<lambda>_.
       and_then (sync_copy_mode_selection host) (\<lambda>_. changes copy_content_changed)))"
      by (intro keeps_and_then keeps_sync [OF L] keeps_state) simp_all
    from keeps_copyD [OF this inv] show ?thesis
      by (rule runs_cong [rotated]) (simp add: begin_copy_mode_selection_def copy_mode_screen_point_def Some)
  qed
qed

lemma nonblank_col_in: "nonblank_col vt t row xs = Inr x \<Longrightarrow> x \<in> set xs \<or> x = 0"
  by (induction xs) (auto split: sum.splits if_splits)

lemma end_col_runs:
  assumes "copy_setup host R cols rows" "copy_inv host R cols rows s"
  shows "runs (end_col host y) s (\<lambda>x s'. s' = s \<and> x < cols) (copy_inv host R cols rows)"
  unfolding end_col_def screen_row_end_col_def
  using assms by (intro runs_reads) (auto dest!: nonblank_col_in simp: copy_inv_def copy_setup_def)

lemma keeps_select_line:
  assumes L: "copy_setup host R cols rows"
  shows "keeps_copy host R cols rows (select_copy_mode_line host)"
proof (rule keeps_copyI)
  fix s assume inv: "copy_inv host R cols rows s"
  show "runs (select_copy_mode_line host) s (\<lambda>_. copy_inv host R cols rows) (copy_inv host R cols rows)"
  proof (cases "en_copy_mode s")
    case None
    then show ?thesis using inv by (simp add: runs_def give_def select_copy_mode_line_def copy_mode_screen_point_def)
  next
    case (Some st)
    let ?p = "cs_cursor st"
    have p: "on_screen cols R ?p" using cursor_on_screen [OF inv Some] by simp
    have step: "keeps_copy host R cols rows (and_then (changes (update_state (\<lambda>st'. st'\<lparr>cs_anchor := Some \<lparr>pc_x = 0, pc_y = pc_y ?p\<rparr>,
        cs_rectangle := False, cs_linewise := True, cs_cursor := ?p\<lparr>pc_x := x\<rparr>, cs_desired_col := x\<rparr>))) (\<lambda>_. show_cursor host))"
      if "x < cols" for x
      using p that by (intro keeps_and_then keeps_show_cursor [OF L] keeps_state) (auto simp: on_screen_def)
    have "runs (and_then (end_col host (pc_y ?p)) (\<lambda>x. and_then (changes (update_state (\<lambda>st'. st'\<lparr>cs_anchor := Some \<lparr>pc_x = 0, pc_y = pc_y ?p\<rparr>,
        cs_rectangle := False, cs_linewise := True, cs_cursor := ?p\<lparr>pc_x := x\<rparr>, cs_desired_col := x\<rparr>))) (\<lambda>_. show_cursor host))) s
        (\<lambda>_. copy_inv host R cols rows) (copy_inv host R cols rows)"
      by (rule runs_and_then [OF end_col_runs [OF L inv]]) (use inv in \<open>auto intro: keeps_copyD [OF step]\<close>)
    then show ?thesis by (rule runs_cong [rotated]) (simp add: select_copy_mode_line_def copy_mode_screen_point_def Some)
  qed
qed

lemma keeps_toggle_end:
  assumes L: "copy_setup host R cols rows"
  shows "keeps_copy host R cols rows (toggle_copy_mode_selection_end host)"
proof (rule keeps_copyI)
  fix s assume inv: "copy_inv host R cols rows s"
  show "runs (toggle_copy_mode_selection_end host) s (\<lambda>_. copy_inv host R cols rows) (copy_inv host R cols rows)"
  proof (cases "\<exists>st anchor. en_copy_mode s = Some st \<and> cs_anchor st = Some anchor")
    case False
    then have "toggle_copy_mode_selection_end host s = give () s"
      by (auto simp: toggle_copy_mode_selection_end_def split: option.splits)
    then show ?thesis using inv by (simp add: runs_def give_def)
  next
    case True
    then obtain st anchor where st: "en_copy_mode s = Some st" "cs_anchor st = Some anchor" by blast
    have "on_screen cols R anchor" using cursor_on_screen [OF inv st(1)] st(2) by simp
    then have "keeps_copy host R cols rows (and_then (changes (update_state (\<lambda>st. st\<lparr>cs_anchor := Some (cs_cursor st), cs_cursor := anchor,
                           cs_desired_col := pc_x anchor\<rparr>))) (\<lambda>_. show_cursor host))"
      by (intro keeps_and_then keeps_show_cursor [OF L] keeps_state) auto
    from keeps_copyD [OF this inv] show ?thesis
      by (rule runs_cong [rotated]) (simp add: toggle_copy_mode_selection_end_def st)
  qed
qed

lemma keeps_toggles:
  assumes L: "copy_setup host R cols rows"
  shows "keeps_copy host R cols rows (toggle_copy_mode_selection host)" "keeps_copy host R cols rows (toggle_copy_mode_rectangle host)"
proof -
  have rect: "keeps_copy host R cols rows (and_then (changes (update_state (\<lambda>st. st\<lparr>cs_rectangle := \<not> cs_rectangle st, cs_linewise := False\<rparr>)))
      (\<lambda>_. and_then (sync_copy_mode_selection host) (\<lambda>_. changes copy_content_changed)))"
    by (intro keeps_and_then keeps_sync [OF L] keeps_state) auto
  show "keeps_copy host R cols rows (toggle_copy_mode_rectangle host)"
  proof (rule keeps_copyI)
    fix s assume inv: "copy_inv host R cols rows s"
    show "runs (toggle_copy_mode_rectangle host) s (\<lambda>_. copy_inv host R cols rows) (copy_inv host R cols rows)"
      using keeps_copyD [OF rect inv] keeps_copyD [OF keeps_begin [OF L, of True] inv]
      by (cases "selecting s") (simp_all add: runs_def toggle_copy_mode_rectangle_def)
  qed
  show "keeps_copy host R cols rows (toggle_copy_mode_selection host)"
  proof (rule keeps_copyI)
    fix s assume inv: "copy_inv host R cols rows s"
    show "runs (toggle_copy_mode_selection host) s (\<lambda>_. copy_inv host R cols rows) (copy_inv host R cols rows)"
      using keeps_copyD [OF keeps_clear_cancel(1) [OF L] inv] keeps_copyD [OF keeps_begin [OF L, of False] inv]
      by (cases "selecting s") (simp_all add: runs_def toggle_copy_mode_selection_def)
  qed
qed

text \<open>Moving the cursor to a point of the history shows it there.\<close>

lemma set_cursor_runs:
  assumes L: "copy_setup host R cols rows" and inv: "copy_inv host R cols rows s" and p: "on_screen cols R p"
  shows "runs (set_copy_mode_cursor host p u) s (\<lambda>_ s'. copy_inv host R cols rows s' \<and> cursor_visible host s'
      \<and> map_option cs_cursor (en_copy_mode s') = map_option (\<lambda>_. p) (en_copy_mode s)) (copy_inv host R cols rows)"
proof -
  let ?s = "update_state (\<lambda>st. st\<lparr>cs_cursor := p, cs_desired_col := (if u then pc_x p else cs_desired_col st)\<rparr>) s"
  have inv': "copy_inv host R cols rows ?s"
    using keeps_copyD [OF keeps_state inv, of "\<lambda>st. st\<lparr>cs_cursor := p, cs_desired_col := (if u then pc_x p else cs_desired_col st)\<rparr>"] p by simp
  have "map_option cs_cursor (en_copy_mode ?s) = map_option (\<lambda>_. p) (en_copy_mode s)"
    by (cases "en_copy_mode s") (simp_all add: update_state_def)
  then have "runs (show_cursor host) ?s (\<lambda>_ s'. copy_inv host R cols rows s' \<and> cursor_visible host s'
      \<and> map_option cs_cursor (en_copy_mode s') = map_option (\<lambda>_. p) (en_copy_mode s)) (copy_inv host R cols rows)"
    by (intro runs_post [OF show_cursor_runs [OF L inv']]) simp
  then show ?thesis
    unfolding set_copy_mode_cursor_def by (intro runs_and_then [where R = "\<lambda>_ s'. s' = ?s"]) auto
qed

lemma keeps_copied:
  assumes L: "copy_setup host R cols rows"
  shows "keeps_copy host R cols rows (copy_mode_selection_and_cancel host)"
  unfolding copy_mode_selection_and_cancel_def
  by (intro keeps_and_then keeps_sync [OF L] keeps_clear_cancel(2) [OF L]) simp_all

text \<open>A motion only scrolls; its target is cut to the history.\<close>

lemma keeps_scroll:
  assumes L: "copy_setup host R cols rows"
  shows "keeps_copy host R cols rows (scroll_viewport_delta host d)"
proof (rule keeps_copyI)
  fix s assume inv: "copy_inv host R cols rows s"
  then obtain o' where "at_row (ho_vt host) R o' (en_terminal s)" by (auto simp: copy_inv_def)
  from scroll_runs [OF L inv this] show "runs (scroll_viewport_delta host d) s (\<lambda>_. copy_inv host R cols rows) (copy_inv host R cols rows)"
    by (rule runs_post) simp
qed

lemma keeps_raw_motion:
  fixes host :: "('t, 'e) copy_host"
  assumes L: "copy_setup host R cols rows"
  shows "keeps_copy host R cols rows (raw_motion host bottom p desired motion)"
proof (rule keeps_copyI)
  fix s assume inv: "copy_inv host R cols rows s"
  have give: "runs (give a) s (\<lambda>_. copy_inv host R cols rows) (copy_inv host R cols rows)" for a :: "point_coordinate \<times> bool"
    using inv by simp
  have ends: "runs (and_then (end_col host y) (\<lambda>x. give (f x))) s (\<lambda>_. copy_inv host R cols rows) (copy_inv host R cols rows)"
    for y and f :: "nat \<Rightarrow> point_coordinate \<times> bool"
    by (rule keeps_copyD [OF keeps_and_then inv]) simp_all
  have tops: "runs (and_then (viewport_top host) (\<lambda>x. give (f x))) s (\<lambda>_. copy_inv host R cols rows) (copy_inv host R cols rows)"
    for f :: "nat \<Rightarrow> point_coordinate \<times> bool"
    by (rule keeps_copyD [OF keeps_and_then inv]) simp_all
  have reads: "runs (and_then (reads g) (\<lambda>x. give (f x))) s (\<lambda>_. copy_inv host R cols rows) (copy_inv host R cols rows)"
    for g :: "'t copy_engine \<Rightarrow> 'e engine_error + nat" and f :: "nat \<Rightarrow> point_coordinate \<times> bool"
    by (rule keeps_copyD [OF keeps_and_then inv]) simp_all
  have words: "runs (and_then (reads g) (\<lambda>x. give (f x))) s (\<lambda>_. copy_inv host R cols rows) (copy_inv host R cols rows)"
    for g :: "'t copy_engine \<Rightarrow> 'e engine_error + point_coordinate" and f :: "point_coordinate \<Rightarrow> point_coordinate \<times> bool"
    by (rule keeps_copyD [OF keeps_and_then inv]) simp_all
  have scrolls: "runs (and_then (viewport_top host) (\<lambda>b. and_then (scroll_viewport_delta host d) (\<lambda>_. and_then (viewport_top host)
      (\<lambda>a. give (f a b))))) s (\<lambda>_. copy_inv host R cols rows) (copy_inv host R cols rows)"
    for d and f :: "nat \<Rightarrow> nat \<Rightarrow> point_coordinate \<times> bool"
    by (rule keeps_copyD [OF _ inv]) (intro keeps_and_then keeps_scroll [OF L], simp_all)
  note rules = give ends tops reads words scrolls
  show "runs (raw_motion host bottom p desired motion) s (\<lambda>_. copy_inv host R cols rows) (copy_inv host R cols rows)"
    using rules by (cases motion) (auto simp: raw_motion_def Let_def runs_def)
qed

end
