(* ===== verification/Copy_Invariant.thy ===== *)
theory Copy_Invariant
  imports Copy_Actions
begin

text \<open>
  Every action of copy mode returns, keeps its cursor and anchor in the history, and a motion or a search that succeeds
  leaves the cursor in the viewport.
\<close>

section \<open>Motions\<close>

lemma history_rows_runs:
  assumes "copy_setup host R cols rows" "copy_inv host R cols rows s"
  shows "runs (history_rows host) s (\<lambda>n s'. n = R \<and> s' = s) E"
  using rows_of_history [OF assms] by (simp add: runs_def history_rows_def reads_def)

lemma motion_target_runs:
  assumes L: "copy_setup host R cols rows" and inv: "copy_inv host R cols rows s"
  shows "runs (copy_mode_motion_target host p desired motion) s
    (\<lambda>r s'. copy_inv host R cols rows s' \<and> on_screen cols R (fst r)) (copy_inv host R cols rows)"
  unfolding copy_mode_motion_target_def
proof (rule runs_and_then [OF history_rows_runs [OF L inv]], elim conjE, hypsubst,
    rule runs_and_then [OF keeps_copyD [OF keeps_raw_motion [OF L] inv]])
  fix a :: "point_coordinate \<times> bool" and s' assume s': "copy_inv host R cols rows s'"
  then have "on_screen cols R \<lparr>pc_x = min (pc_x (fst a)) (en_cols s' - 1), pc_y = min (pc_y (fst a)) (R - 1)\<rparr>"
    using L by (auto simp: on_screen_def copy_inv_def copy_setup_def)
  then show "runs ((\<lambda>(p, update_desired_col) s.
         give (\<lparr>pc_x = min (pc_x p) (en_cols s - 1), pc_y = min (pc_y p) (R - 1)\<rparr>, update_desired_col) s) a) s'
     (\<lambda>r s'. copy_inv host R cols rows s' \<and> on_screen cols R (fst r)) (copy_inv host R cols rows)"
    using s' by (cases a) (simp add: runs_def give_def)
qed

lemma move_runs:
  assumes L: "copy_setup host R cols rows" and inv: "copy_inv host R cols rows s" and active: "en_copy_mode s \<noteq> None"
  shows "runs (move_copy_mode_cursor host motion) s
    (\<lambda>_ s'. copy_inv host R cols rows s' \<and> cursor_visible host s') (copy_inv host R cols rows)"
proof -
  obtain st where st: "en_copy_mode s = Some st" using active by blast
  have "runs (and_then (copy_mode_motion_target host (cs_cursor st) (cs_desired_col st) motion)
      (\<lambda>(p, update_desired_col). set_copy_mode_cursor host p update_desired_col)) s
    (\<lambda>_ s'. copy_inv host R cols rows s' \<and> cursor_visible host s') (copy_inv host R cols rows)"
  proof (rule runs_and_then [OF motion_target_runs [OF L inv]], elim conjE)
    fix r :: "point_coordinate \<times> bool" and s' assume s': "copy_inv host R cols rows s'" "on_screen cols R (fst r)"
    show "runs ((\<lambda>(p, update_desired_col). set_copy_mode_cursor host p update_desired_col) r) s'
      (\<lambda>_ s'. copy_inv host R cols rows s' \<and> cursor_visible host s') (copy_inv host R cols rows)"
      unfolding case_prod_beta by (rule runs_post [OF set_cursor_runs [OF L s']]) simp
  qed
  then show ?thesis by (rule runs_cong [rotated]) (simp add: move_copy_mode_cursor_def st)
qed

lemma keeps_move:
  assumes L: "copy_setup host R cols rows"
  shows "keeps_copy host R cols rows (move_copy_mode_cursor host motion)"
proof (rule keeps_copyI)
  fix s assume inv: "copy_inv host R cols rows s"
  show "runs (move_copy_mode_cursor host motion) s (\<lambda>_. copy_inv host R cols rows) (copy_inv host R cols rows)"
  proof (cases "en_copy_mode s")
    case None
    then show ?thesis using inv by (simp add: runs_def give_def move_copy_mode_cursor_def)
  next
    case (Some st)
    then show ?thesis by (intro runs_post [OF move_runs [OF L inv]]) simp_all
  qed
qed

section \<open>Searching\<close>

lemma set_query_runs:
  assumes L: "copy_setup host R cols rows" and inv: "copy_inv host R cols rows s"
  shows "runs (set_search_query host query options) s
    (\<lambda>_ s'. copy_inv host R cols rows s' \<and> en_copy_mode s' = en_copy_mode s) (copy_inv host R cols rows)"
proof (cases "en_search_query s \<noteq> query \<or> en_search_options s \<noteq> options")
  case False
  then show ?thesis using inv by (simp add: runs_def set_search_query_def give_def)
next
  case True
  show ?thesis
  proof (cases "if query = [] then Inr None else map_sum id Some (ho_pattern host query options)")
    case (Inl e)
    then show ?thesis using True inv by (simp add: runs_def set_search_query_def)
  next
    case (Inr pattern)
    have law: "lawful_pattern q" if "ho_pattern host query options = Inr q" for q
      using L that unfolding copy_setup_def lawful_host_def by blast
    from Inr have "\<forall>q. pattern = Some q \<longrightarrow> lawful_pattern q"
      by (cases "ho_pattern host query options") (auto intro: law split: if_splits)
    then have "copy_inv host R cols rows (s\<lparr>en_search_query := query, en_search_options := options,
        en_search_pattern := pattern, en_search_active_index := 0\<rparr>)"
      using inv by (simp add: copy_inv_def)
    then show ?thesis using True Inr by (simp add: runs_def set_search_query_def) (simp add: copy_content_changed_def)
  qed
qed

text \<open>The characters that are collected lie in the history.\<close>

definition in_history :: "nat \<Rightarrow> nat \<Rightarrow> nat list \<times> (point_coordinate \<times> point_coordinate) list \<Rightarrow> bool" where
  "in_history cols R acc \<longleftrightarrow> list_all (\<lambda>m. on_screen cols R (fst m)) (snd acc)"

lemma collect_row_placed:
  "collect_row vt t y xs acc = Inr acc' \<Longrightarrow> in_history cols R acc \<Longrightarrow> y < R \<Longrightarrow> (\<forall>x \<in> set xs. x < cols) \<Longrightarrow> in_history cols R acc'"
proof (induction vt t y xs acc rule: collect_row.induct)
  case (2 vt t y x xs acc)
  show ?case
  proof (cases "vt_cell_graphemes vt t \<lparr>pc_x = x, pc_y = y\<rparr>")
    case (Inl e)
    then show ?thesis using 2 by simp
  next
    case (Inr wg)
    obtain wide graphemes where wg: "wg = (wide, graphemes)" by fastforce
    note cell = Inr [unfolded wg]
    show ?thesis
    proof (cases "wide = SpacerHead \<or> wide = SpacerTail")
      case True
      then show ?thesis using 2(1) [OF cell refl] 2(3-) cell by simp
    next
      case False
      define chars where "chars = (if graphemes = [] then [32] else graphemes)"
      define stop where "stop = \<lparr>pc_x = (if wide = Wide then sat_add 16 x 1 else x), pc_y = y\<rparr>"
      have "in_history cols R (fst acc @ chars, snd acc @ replicate (length chars) (\<lparr>pc_x = x, pc_y = y\<rparr>, stop))"
        using 2(4-) by (auto simp: in_history_def on_screen_def list_all_iff)
      moreover have "collect_row vt t y xs (fst acc @ chars, snd acc @ replicate (length chars) (\<lparr>pc_x = x, pc_y = y\<rparr>, stop)) = Inr acc'"
        using 2(3) False by (simp add: cell chars_def stop_def Let_def)
      ultimately show ?thesis using 2(2) [OF cell refl False chars_def stop_def] 2(5-) by simp
    qed
  qed
qed simp

lemma trim_placed: "in_history cols R acc \<Longrightarrow> in_history cols R (trim_blanks acc)"
  by (auto simp: in_history_def trim_blanks_def Let_def list_all_iff dest: in_set_takeD)

lemma copy_mode_matches_placed:
  assumes "lawful_pattern q" "in_history cols R acc"
  obtains ms where "copy_mode_matches q (fst acc) (snd acc) = Some ms" "list_all (\<lambda>m. on_screen cols R (fst m)) ms"
proof -
  obtain rs where rs: "search_ranges q (fst acc) = Some rs" using search_ranges_ok [OF assms(1)] by blast
  have "on_screen cols R (fst m)" if "line_slice r (snd acc) = Some (m # ms)" for r m ms
  proof -
    have "m \<in> set (take (snd r - fst r) (drop (fst r) (snd acc)))"
      using that by (auto simp: line_slice_def split: if_splits)
    then have "m \<in> set (snd acc)" by (meson in_set_takeD in_set_dropD)
    then show ?thesis using assms(2) by (auto simp: in_history_def list_all_iff)
  qed
  then have "list_all (\<lambda>m. on_screen cols R (fst m)) (List.map_filter (\<lambda>r. case line_slice r (snd acc) of
           Some (m # ms) \<Rightarrow> Some (fst m, snd (List.last (m # ms))) | _ \<Rightarrow> None) rs)"
    by (fastforce simp: list_all_iff List.map_filter_def split: option.splits list.splits)
  then show thesis using that rs by (simp add: copy_mode_matches_def)
qed

lemma search_history_placed:
  assumes "lawful_pattern q" "list_all (\<lambda>y. y < R) ys" "in_history cols R acc" "list_all (\<lambda>m. on_screen cols R (fst m)) out"
  shows "\<exists>r. search_history vt t cols q ys acc out = Some r
    \<and> (\<forall>ms. r = Inr ms \<longrightarrow> list_all (\<lambda>m. on_screen cols R (fst m)) ms)"
  using assms(2-)
proof (induction ys arbitrary: acc out)
  case Nil
  obtain ms where "copy_mode_matches q (fst acc) (snd acc) = Some ms" "list_all (\<lambda>m. on_screen cols R (fst m)) ms"
    using copy_mode_matches_placed [OF assms(1) Nil(2)] .
  then show ?case using Nil(3) by simp
next
  case (Cons y ys)
  show ?case
  proof (cases "collect_row vt t y [0..<cols] acc")
    case (Inr acc')
    then have acc': "in_history cols R acc'" using Cons.prems by (auto intro: collect_row_placed)
    show ?thesis
    proof (cases "vt_row_wrapped vt t y")
      case wrap: (Inr wrapped)
      show ?thesis
      proof (cases wrapped)
        case True
        then show ?thesis using Cons.IH [OF _ acc' Cons.prems(3)] Cons.prems(1) Inr wrap by simp
      next
        case False
        obtain ms where ms: "copy_mode_matches q (fst (trim_blanks acc')) (snd (trim_blanks acc')) = Some ms"
          "list_all (\<lambda>m. on_screen cols R (fst m)) ms"
          using copy_mode_matches_placed [OF assms(1) trim_placed [OF acc']] .
        have "in_history cols R ([], [])" by (simp add: in_history_def)
        then show ?thesis using Cons.IH [of "([], [])" "out @ ms"] Cons.prems(1,3) ms Inr wrap False by simp
      qed
    qed (simp add: Inr)
  qed simp
qed

lemma search_matches_runs:
  assumes L: "copy_setup host R cols rows" and inv: "copy_inv host R cols rows s"
  shows "runs (copy_mode_search_matches host) s
    (\<lambda>ms s'. s' = s \<and> list_all (\<lambda>m. on_screen cols R (fst m)) ms) (copy_inv host R cols rows)"
proof (cases "en_search_pattern s")
  case None
  then show ?thesis by (simp add: runs_def copy_mode_search_matches_def give_def)
next
  case (Some q)
  then have q: "lawful_pattern q" and cols: "en_cols s = cols" using inv by (simp_all add: copy_inv_def)
  obtain r where r: "search_history (ho_vt host) (en_terminal s) cols q [0..<R] ([], []) [] = Some r"
    "\<forall>ms. r = Inr ms \<longrightarrow> list_all (\<lambda>m. on_screen cols R (fst m)) ms"
    using search_history_placed [OF q, of R "[0..<R]" cols "([], [])" "[]" "ho_vt host" "en_terminal s"]
    by (auto simp: in_history_def list_all_iff)
  have "runs (\<lambda>s. map_option (\<lambda>r. (r, s))
      (search_history (ho_vt host) (en_terminal s) (en_cols s) q [0..<R] ([], []) [])) s
    (\<lambda>ms s'. s' = s \<and> list_all (\<lambda>m. on_screen cols R (fst m)) ms) (copy_inv host R cols rows)"
    using r inv cols by (cases r) (simp_all add: runs_def)
  then show ?thesis
    by (intro runs_cong [OF _ runs_and_then [OF history_rows_runs [OF L inv]]])
      (auto simp: copy_mode_search_matches_def Some)
qed

lemma find_in_set: "find P xs = Some x \<Longrightarrow> x \<in> set xs"
  by (auto simp: find_Some_iff)

lemma search_target_in:
  "copy_mode_search_target ms cursor direction = Some m \<Longrightarrow> m \<in> set ms"
  by (auto simp: copy_mode_search_target_def or_else_def first_opt_def dest!: find_in_set
      split: search_direction.splits option.splits list.splits if_splits)

text \<open>Extracting a frame leaves the cursor where it is, and so does choosing the active match.\<close>

lemma extract_runs:
  assumes L: "copy_setup host R cols rows" and inv: "copy_inv host R cols rows s"
  shows "runs (extract_frame host) s
    (\<lambda>_ s'. copy_inv host R cols rows s' \<and> en_copy_mode s' = en_copy_mode s \<and> (cursor_visible host s \<longrightarrow> cursor_visible host s'))
    (copy_inv host R cols rows)"
proof -
  obtain r s' where e: "ho_extract_frame host s = (r, s')" by fastforce
  from inv obtain o' where o': "o' \<le> R - rows" "at_row (ho_vt host) R o' (en_terminal s)" by (auto simp: copy_inv_def)
  then have same: "at_row (ho_vt host) R o' (en_terminal s')" "en_cols s' = en_cols s" "en_rows s' = en_rows s"
    "en_copy_mode s' = en_copy_mode s" "en_search_pattern s' = en_search_pattern s"
    using L e unfolding copy_setup_def lawful_host_def by blast+
  then have "copy_inv host R cols rows s'" using inv o'(1) by (auto simp: copy_inv_def)
  moreover have "cursor_visible host s \<longrightarrow> cursor_visible host s'"
    using same o'(2) by (auto simp: cursor_visible_def at_row_def)
  ultimately show ?thesis using same(4) e by (cases r) (simp_all add: runs_def extract_frame_def)
qed

definition shown :: "('t, 'e) copy_host \<Rightarrow> nat \<Rightarrow> nat \<Rightarrow> nat \<Rightarrow> 't copy_engine \<Rightarrow> bool" where
  "shown host R cols rows s \<longleftrightarrow> copy_inv host R cols rows s \<and> cursor_visible host s"

lemma shown_mark [simp]:
  "shown host R cols rows (copy_content_changed s) = shown host R cols rows s"
  "shown host R cols rows (bump_search_pulse s) = shown host R cols rows s"
  "shown host R cols rows (s\<lparr>en_search_active_index := i\<rparr>) = shown host R cols rows s"
  by (simp_all add: shown_def copy_inv_def cursor_visible_def copy_content_changed_def bump_search_pulse_def)

lemma shown_extract:
  assumes "copy_setup host R cols rows" "shown host R cols rows s"
  shows "runs (extract_frame host) s (\<lambda>_. shown host R cols rows) (copy_inv host R cols rows)"
  using assms by (intro runs_post [OF extract_runs [OF assms(1)]]) (auto simp: shown_def)

lemma shown_align:
  assumes L: "copy_setup host R cols rows" and s: "shown host R cols rows s"
  shows "runs (align_copy_mode_active_search_match host) s (\<lambda>_. shown host R cols rows) (copy_inv host R cols rows)"
proof (cases "copy_mode_screen_point s")
  case None
  then show ?thesis using s by (simp add: runs_def give_def align_copy_mode_active_search_match_def)
next
  case (Some p)
  have chosen: "runs (and_then (changes (\<lambda>s. copy_content_changed (s\<lparr>en_search_active_index := i\<rparr>))) (\<lambda>_.
      and_then (extract_frame host) (\<lambda>_. give ()))) s' (\<lambda>_. shown host R cols rows) (copy_inv host R cols rows)"
    if "shown host R cols rows s'" for i s'
    by (rule runs_and_then [where R = "\<lambda>_. shown host R cols rows"], simp add: that)
      (rule runs_and_then [OF shown_extract [OF L]], simp_all)
  have aligned: "runs (\<lambda>s. case group_index row x (en_search_groups s) of
        None \<Rightarrow> give () s
      | Some index \<Rightarrow> and_then (changes (\<lambda>s. copy_content_changed (s\<lparr>en_search_active_index := index\<rparr>))) (\<lambda>_.
          and_then (extract_frame host) (\<lambda>_. give ())) s) s' (\<lambda>_. shown host R cols rows) (copy_inv host R cols rows)"
    if "shown host R cols rows s'" for row x s'
    using chosen [OF that] that
    by (cases "group_index row x (en_search_groups s')") (simp_all add: runs_def give_def)
  have inv: "copy_inv host R cols rows s" using s by (simp add: shown_def)
  obtain o' where "viewport_top_screen_row (ho_vt host) (en_terminal s) = Inr o'" using top_of_viewport [OF L inv] .
  then have "runs (viewport_top host) s (\<lambda>n s'. s' = s) (copy_inv host R cols rows)"
    by (simp add: runs_def viewport_top_def reads_def)
  then have "runs (and_then (viewport_top host) (\<lambda>n.
        if pc_y p < n \<or> 2 ^ 16 \<le> pc_y p - n then give ()
        else and_then (extract_frame host) (\<lambda>_ s.
              case group_index (pc_y p - n) (pc_x p) (en_search_groups s) of
                None \<Rightarrow> give () s
              | Some index \<Rightarrow>
                  and_then (changes (\<lambda>s. copy_content_changed (s\<lparr>en_search_active_index := index\<rparr>))) (\<lambda>_.
                  and_then (extract_frame host) (\<lambda>_. give ())) s))) s (\<lambda>_. shown host R cols rows) (copy_inv host R cols rows)"
  proof (rule runs_and_then)
    fix n s' assume "s' = s"
    then show "runs (if pc_y p < n \<or> 2 ^ 16 \<le> pc_y p - n then give ()
        else and_then (extract_frame host) (\<lambda>_ s.
              case group_index (pc_y p - n) (pc_x p) (en_search_groups s) of
                None \<Rightarrow> give () s
              | Some index \<Rightarrow>
                  and_then (changes (\<lambda>s. copy_content_changed (s\<lparr>en_search_active_index := index\<rparr>))) (\<lambda>_.
                  and_then (extract_frame host) (\<lambda>_. give ())) s)) s' (\<lambda>_. shown host R cols rows) (copy_inv host R cols rows)"
      using s by (cases "pc_y p < n \<or> 2 ^ 16 \<le> pc_y p - n")
        (simp only: if_True runs_give, simp only: if_False, rule runs_and_then [OF shown_extract [OF L s] aligned])
  qed
  then show ?thesis by (rule runs_cong [rotated]) (simp add: align_copy_mode_active_search_match_def Some)
qed

text \<open>A search that finds something shows the cursor on it.\<close>

lemma search_nothing:
  assumes L: "copy_setup host R cols rows" and inv: "copy_inv host R cols rows s"
  shows "runs (and_then (changes bump_search_pulse) (\<lambda>_. and_then (extract_frame host) (\<lambda>_. give False))) s
    (\<lambda>found s'. copy_inv host R cols rows s' \<and> (found \<longrightarrow> cursor_visible host s')) (copy_inv host R cols rows)"
  by (rule runs_and_then [where R = "\<lambda>_. copy_inv host R cols rows"], simp add: inv)
    (rule runs_and_then [OF keeps_copyD [OF keeps_extract [OF L]]], simp_all)

lemma search_something:
  assumes L: "copy_setup host R cols rows" and inv: "copy_inv host R cols rows s" and m: "on_screen cols R p"
  shows "runs (and_then (set_copy_mode_cursor host p True) (\<lambda>_. and_then (align_copy_mode_active_search_match host) (\<lambda>_.
      and_then (changes bump_search_pulse) (\<lambda>_. give True)))) s
    (\<lambda>found s'. copy_inv host R cols rows s' \<and> (found \<longrightarrow> cursor_visible host s')) (copy_inv host R cols rows)"
proof (rule runs_and_then [OF set_cursor_runs [OF L inv m]], elim conjE)
  fix s1 assume "copy_inv host R cols rows s1" "cursor_visible host s1"
  then have "shown host R cols rows s1" by (simp add: shown_def)
  then show "runs (and_then (align_copy_mode_active_search_match host) (\<lambda>_. and_then (changes bump_search_pulse) (\<lambda>_. give True))) s1
    (\<lambda>found s'. copy_inv host R cols rows s' \<and> (found \<longrightarrow> cursor_visible host s')) (copy_inv host R cols rows)"
    by (intro runs_and_then [OF shown_align [OF L]] runs_and_then [where m = "changes bump_search_pulse" and R = "\<lambda>_. shown host R cols rows"])
      (simp_all, simp add: shown_def)
qed

lemma search_target_runs:
  assumes L: "copy_setup host R cols rows" and inv: "copy_inv host R cols rows s"
    and ms: "list_all (\<lambda>m. on_screen cols R (fst m)) ms"
  shows "runs (case copy_mode_search_target ms p direction of
      None \<Rightarrow> and_then (changes bump_search_pulse) (\<lambda>_. and_then (extract_frame host) (\<lambda>_. give False))
    | Some found \<Rightarrow> and_then (set_copy_mode_cursor host (fst found) True) (\<lambda>_.
        and_then (align_copy_mode_active_search_match host) (\<lambda>_. and_then (changes bump_search_pulse) (\<lambda>_. give True)))) s
    (\<lambda>found s'. copy_inv host R cols rows s' \<and> (found \<longrightarrow> cursor_visible host s')) (copy_inv host R cols rows)"
proof (cases "copy_mode_search_target ms p direction")
  case None
  show ?thesis unfolding None option.case by (rule search_nothing [OF L inv])
next
  case (Some m)
  then have m: "on_screen cols R (fst m)" using ms search_target_in by (fastforce simp: list_all_iff)
  show ?thesis unfolding Some option.case by (rule search_something [OF L inv m])
qed

lemma search_query_runs:
  assumes L: "copy_setup host R cols rows" and inv: "copy_inv host R cols rows s"
  shows "runs (search_copy_mode_query host query direction options) s
    (\<lambda>found s'. copy_inv host R cols rows s' \<and> (found \<longrightarrow> cursor_visible host s')) (copy_inv host R cols rows)"
  unfolding search_copy_mode_query_def
proof (rule runs_and_then [OF set_query_runs [OF L inv]], elim conjE)
  fix s' assume s': "copy_inv host R cols rows s'"
  show "runs (\<lambda>s. if query = [] then give False s
       else (case copy_mode_screen_point s of
               None \<Rightarrow> give False s
             | Some cursor \<Rightarrow>
                 and_then (copy_mode_search_matches host) (\<lambda>matches.
                   case copy_mode_search_target matches cursor direction of
                     None \<Rightarrow>
                       and_then (changes bump_search_pulse) (\<lambda>_.
                       and_then (extract_frame host) (\<lambda>_. give False))
                   | Some found \<Rightarrow>
                       and_then (set_copy_mode_cursor host (fst found) True) (\<lambda>_.
                       and_then (align_copy_mode_active_search_match host) (\<lambda>_.
                       and_then (changes bump_search_pulse) (\<lambda>_. give True)))) s)) s'
    (\<lambda>found s'. copy_inv host R cols rows s' \<and> (found \<longrightarrow> cursor_visible host s')) (copy_inv host R cols rows)"
  proof (cases "query = [] \<or> copy_mode_screen_point s' = None")
    case True
    then show ?thesis using s' by (auto simp: runs_def give_def)
  next
    case False
    then obtain p where p: "query \<noteq> []" "copy_mode_screen_point s' = Some p" by auto
    have "runs (and_then (copy_mode_search_matches host) (\<lambda>matches.
                   case copy_mode_search_target matches p direction of
                     None \<Rightarrow>
                       and_then (changes bump_search_pulse) (\<lambda>_.
                       and_then (extract_frame host) (\<lambda>_. give False))
                   | Some found \<Rightarrow>
                       and_then (set_copy_mode_cursor host (fst found) True) (\<lambda>_.
                       and_then (align_copy_mode_active_search_match host) (\<lambda>_.
                       and_then (changes bump_search_pulse) (\<lambda>_. give True))))) s'
      (\<lambda>found s'. copy_inv host R cols rows s' \<and> (found \<longrightarrow> cursor_visible host s')) (copy_inv host R cols rows)"
      by (rule runs_and_then [OF search_matches_runs [OF L s']]) (use search_target_runs [OF L s'] in blast)
    then show ?thesis by (rule runs_cong [rotated]) (simp add: p)
  qed
qed

section \<open>Actions\<close>

lemma keeps_search:
  assumes L: "copy_setup host R cols rows"
  shows "keeps_copy host R cols rows (search_copy_mode_query host query direction options)"
  by (rule keeps_copyI, rule runs_post [OF search_query_runs [OF L]]) simp_all

lemma keeps_word:
  "keeps_copy host R cols rows (copy_mode_word_under_cursor host)"
proof (rule keeps_copyI)
  fix s assume inv: "copy_inv host R cols rows s"
  show "runs (copy_mode_word_under_cursor host) s (\<lambda>_. copy_inv host R cols rows) (copy_inv host R cols rows)"
    using inv by (cases "copy_mode_screen_point s")
      (auto simp: copy_mode_word_under_cursor_def runs_def and_then_def reads_def give_def Let_def split: sum.splits)
qed

lemma keeps_act: "keeps_copy host R cols rows m \<Longrightarrow> keeps_copy host R cols rows (act m)"
  unfolding act_def by (intro keeps_and_then) simp_all

lemma keeps_if:
  "keeps_copy host R cols rows m \<Longrightarrow> keeps_copy host R cols rows n \<Longrightarrow> keeps_copy host R cols rows (if b then m else n)"
  by simp

lemma keeps_found:
  assumes "copy_setup host R cols rows"
  shows "keeps_copy host R cols rows
    (and_then (search_copy_mode_query host query direction options) (\<lambda>found. give (None, Some (query, found))))"
  by (intro keeps_and_then keeps_search [OF assms]) simp_all

lemma keeps_word_search:
  assumes "copy_setup host R cols rows"
  shows "keeps_copy host R cols rows (and_then (copy_mode_word_under_cursor host) (\<lambda>word. case word of
      None \<Rightarrow> give (None, None)
    | Some query \<Rightarrow> and_then (search_copy_mode_query host query direction options) (\<lambda>found. give (None, Some (query, found)))))"
proof (intro keeps_and_then keeps_word)
  fix word :: "string option"
  show "keeps_copy host R cols rows (case word of
      None \<Rightarrow> give (None, None)
    | Some query \<Rightarrow> and_then (search_copy_mode_query host query direction options) (\<lambda>found. give (None, Some (query, found))))"
    using keeps_found [OF assms] by (cases word) simp_all
qed

lemma keeps_copies:
  assumes "copy_setup host R cols rows"
  shows "keeps_copy host R cols rows (and_then (copy_mode_selection_and_cancel host) (\<lambda>copied. give (copied, None)))"
  by (intro keeps_and_then keeps_copied [OF assms]) simp_all

lemma keeps_run_action:
  assumes L: "copy_setup host R cols rows"
  shows "keeps_copy host R cols rows (run_copy_action host action)"
proof (rule keeps_copyI)
  fix s assume inv: "copy_inv host R cols rows s"
  have via: "runs (run_copy_action host action) s (\<lambda>_. copy_inv host R cols rows) (copy_inv host R cols rows)"
    if "run_copy_action host action s = m s" "keeps_copy host R cols rows m" for m
    using that(1) keeps_copyD [OF that(2) inv] by (rule runs_cong)
  note basic = keeps_clear_cancel [OF L] keeps_begin [OF L] keeps_toggles [OF L] keeps_select_line [OF L]
    keeps_toggle_end [OF L] keeps_move [OF L]
  have rest: "keeps_copy host R cols rows (and_then (if \<not> selecting s then begin_copy_mode_selection host False else give ()) (\<lambda>_.
      and_then (move_copy_mode_cursor host EndOfLine) (\<lambda>_.
      and_then (copy_mode_selection_and_cancel host) (\<lambda>copied. give (copied, None :: (string \<times> bool) option)))))"
    by (intro keeps_and_then keeps_if basic keeps_copies [OF L] keeps_copied [OF L] keeps_give)
  show "runs (run_copy_action host action) s (\<lambda>_. copy_inv host R cols rows) (copy_inv host R cols rows)"
  proof (cases action)
    case Cancel
    then show ?thesis by (intro via [OF _ keeps_act [OF basic(2)]]) (simp add: run_copy_action_def)
  next
    case CancelOrClearSelection
    then show ?thesis
      by (intro via [OF _ keeps_act [OF keeps_if [OF basic(1,2)]]]) (simp add: run_copy_action_def)
  next
    case ClearSelection
    then show ?thesis by (intro via [OF _ keeps_act [OF basic(1)]]) (simp add: run_copy_action_def)
  next
    case BeginSelection
    then show ?thesis by (intro via [OF _ keeps_act [OF basic(3)]]) (simp add: run_copy_action_def)
  next
    case ToggleSelection
    then show ?thesis by (intro via [OF _ keeps_act [OF basic(4)]]) (simp add: run_copy_action_def)
  next
    case SelectLine
    then show ?thesis by (intro via [OF _ keeps_act [OF basic(6)]]) (simp add: run_copy_action_def)
  next
    case ToggleSelectionEnd
    then show ?thesis by (intro via [OF _ keeps_act [OF basic(7)]]) (simp add: run_copy_action_def)
  next
    case ToggleRectangle
    then show ?thesis by (intro via [OF _ keeps_act [OF basic(5)]]) (simp add: run_copy_action_def)
  next
    case CopySelectionAndCancel
    then show ?thesis by (intro via [OF _ keeps_copies [OF L]]) (simp add: run_copy_action_def)
  next
    case CopyEndOfLineAndCancel
    then show ?thesis by (intro via [OF _ rest]) (simp add: run_copy_action_def)
  next
    case (Search query direction)
    then show ?thesis by (intro via [OF _ keeps_found [OF L]]) (simp add: run_copy_action_def)
  next
    case (SearchWithOptions query direction options)
    then show ?thesis by (intro via [OF _ keeps_found [OF L]]) (simp add: run_copy_action_def)
  next
    case (SearchWord direction)
    then show ?thesis by (intro via [OF _ keeps_word_search [OF L]]) (simp add: run_copy_action_def)
  next
    case (Move motion)
    then show ?thesis by (intro via [OF _ keeps_act [OF basic(8)]]) (simp add: run_copy_action_def)
  qed
qed

text \<open>The actions that put the cursor somewhere else, and whether they did.\<close>

fun went :: "copy_action \<Rightarrow> (string \<times> bool) option \<Rightarrow> bool" where
  "went (Move motion) found = True"
| "went (Search query direction) found = (\<exists>q. found = Some (q, True))"
| "went (SearchWithOptions query direction options) found = (\<exists>q. found = Some (q, True))"
| "went (SearchWord direction) found = (\<exists>q. found = Some (q, True))"
| "went _ found = False"

lemma runs_map:
  "runs m s (\<lambda>a. Q (g a)) E \<Longrightarrow> runs (and_then m (\<lambda>a. give (g a))) s Q E"
  by (erule runs_and_then) simp

lemma found_runs:
  assumes "copy_setup host R cols rows" "copy_inv host R cols rows s"
  shows "runs (and_then (search_copy_mode_query host query direction options) (\<lambda>found. give (None, Some (query, found)))) s
    (\<lambda>r s'. copy_inv host R cols rows s' \<and> ((\<exists>q. snd r = Some (q, True)) \<longrightarrow> cursor_visible host s')) (copy_inv host R cols rows)"
  by (intro runs_map runs_post [OF search_query_runs [OF assms]]) simp

lemma run_action_runs:
  assumes L: "copy_setup host R cols rows" and inv: "copy_inv host R cols rows s" and active: "en_copy_mode s \<noteq> None"
  shows "runs (run_copy_action host action) s
    (\<lambda>r s'. copy_inv host R cols rows s' \<and> (went action (snd r) \<longrightarrow> cursor_visible host s')) (copy_inv host R cols rows)"
proof -
  have quiet: ?thesis if "\<forall>found. \<not> went action found"
    using that by (intro runs_post [OF keeps_copyD [OF keeps_run_action [OF L] inv]]) simp
  show ?thesis
  proof (cases action)
    case (Move motion)
    have "runs (act (move_copy_mode_cursor host motion)) s
      (\<lambda>r s'. copy_inv host R cols rows s' \<and> (went action (snd r) \<longrightarrow> cursor_visible host s')) (copy_inv host R cols rows)"
      unfolding act_def by (intro runs_map runs_post [OF move_runs [OF L inv active]]) simp
    then show ?thesis by (rule runs_cong [rotated]) (simp add: run_copy_action_def Move)
  next
    case (Search query direction)
    from runs_post [OF found_runs [OF L inv]] show ?thesis
      by (rule runs_cong [rotated]) (simp_all add: run_copy_action_def Search)
  next
    case (SearchWithOptions query direction options)
    from runs_post [OF found_runs [OF L inv]] show ?thesis
      by (rule runs_cong [rotated]) (simp_all add: run_copy_action_def SearchWithOptions)
  next
    case (SearchWord direction)
    have "runs (case word of None \<Rightarrow> give (None, None)
        | Some query \<Rightarrow> and_then (search_copy_mode_query host query direction options) (\<lambda>found. give (None, Some (query, found)))) s'
      (\<lambda>r s'. copy_inv host R cols rows s' \<and> (went action (snd r) \<longrightarrow> cursor_visible host s')) (copy_inv host R cols rows)"
      if "copy_inv host R cols rows s'" for word s' options
      using that runs_post [OF found_runs [OF L that]] by (cases word) (simp_all add: SearchWord)
    then show ?thesis
      by (intro runs_cong [OF _ runs_and_then [OF keeps_copyD [OF keeps_word inv]]]) (auto simp: run_copy_action_def SearchWord)
  qed (rule quiet, simp)+
qed

lemma copy_mode_mark [simp]: "en_copy_mode (copy_content_changed s) = en_copy_mode s"
  by (simp add: copy_content_changed_def)

lemma entry_point_runs:
  assumes L: "copy_setup host R cols rows" and inv: "copy_inv host R cols rows s"
  shows "runs (copy_mode_entry_point host) s (\<lambda>p s'. copy_inv host R cols rows s' \<and> on_screen cols R p) (copy_inv host R cols rows)"
  unfolding copy_mode_entry_point_def
proof (rule runs_and_then [OF keeps_copyD [OF keeps_top_rows(2) inv]],
    rule runs_and_then [OF history_rows_runs [OF L]], assumption, elim conjE, hypsubst,
    rule runs_and_then [OF keeps_copyD [OF keeps_extract [OF L]]], assumption)
  fix n cursor s' assume s': "copy_inv host R cols rows s'"
  show "runs (\<lambda>s. let bottom = R - 1;
           right = en_cols s - 1;
           last_row = max (en_rows s) 1 - 1
       in case cursor of
            Some (x, y) \<Rightarrow>
              give \<lparr>pc_x = min x right, pc_y = min (sat_add 32 n (min y (en_rows s - 1))) bottom\<rparr> s
          | None \<Rightarrow> give \<lparr>pc_x = 0, pc_y = min (sat_add 32 n last_row) bottom\<rparr> s) s'
    (\<lambda>p s'. copy_inv host R cols rows s' \<and> on_screen cols R p) (copy_inv host R cols rows)"
    using s' L by (cases cursor) (auto simp: runs_def give_def on_screen_def copy_inv_def copy_setup_def Let_def)
qed

lemma enter_runs:
  assumes L: "copy_setup host R cols rows" and inv: "copy_inv host R cols rows s"
  shows "runs (enter_copy_mode host) s
    (\<lambda>_ s'. shown host R cols rows s' \<and> en_copy_mode s' \<noteq> None \<and> \<not> selecting s') (copy_inv host R cols rows)"
  unfolding enter_copy_mode_def
proof (rule runs_and_then [OF entry_point_runs [OF L inv]], elim conjE)
  fix p s1 assume s1: "copy_inv host R cols rows s1" "on_screen cols R p"
  let ?st = "\<lparr>cs_cursor = p, cs_anchor = None, cs_rectangle = False, cs_linewise = False, cs_desired_col = pc_x p\<rparr>"
  let ?s = "s1\<lparr>en_copy_mode := Some ?st\<rparr>"
  have s2: "copy_inv host R cols rows ?s" using s1 by (simp add: copy_inv_def)
  then obtain o' where o': "at_row (ho_vt host) R o' (en_terminal ?s)" by (auto simp: copy_inv_def)
  have "runs (and_then (set_terminal_selection host None) (\<lambda>_. and_then (ensure_copy_mode_cursor_visible host) (\<lambda>_.
      changes copy_content_changed))) ?s
    (\<lambda>_ s'. shown host R cols rows s' \<and> en_copy_mode s' \<noteq> None \<and> \<not> selecting s') (copy_inv host R cols rows)"
  proof (rule runs_and_then [OF select_runs [OF L s2 o']], elim conjE)
    fix s3 assume s3: "copy_inv host R cols rows s3" "en_copy_mode s3 = en_copy_mode ?s"
    show "runs (and_then (ensure_copy_mode_cursor_visible host) (\<lambda>_. changes copy_content_changed)) s3
      (\<lambda>_ s'. shown host R cols rows s' \<and> en_copy_mode s' \<noteq> None \<and> \<not> selecting s') (copy_inv host R cols rows)"
      by (rule runs_and_then [OF ensure_visible_runs [OF L s3(1)]])
        (simp add: s3(2) selecting_def cs_selecting_def, simp add: shown_def copy_content_changed_def)
  qed
  then show "runs (and_then (changes (\<lambda>s. s\<lparr>en_copy_mode := Some ?st\<rparr>)) (\<lambda>_. and_then (set_terminal_selection host None) (\<lambda>_.
      and_then (ensure_copy_mode_cursor_visible host) (\<lambda>_. changes copy_content_changed)))) s1
    (\<lambda>_ s'. shown host R cols rows s' \<and> en_copy_mode s' \<noteq> None \<and> \<not> selecting s') (copy_inv host R cols rows)"
    by - (rule runs_and_then [where R = "\<lambda>_ s'. s' = ?s"], simp_all only: runs_changes)
qed

section \<open>Properties\<close>

lemma runs_result:
  "runs m s Q E \<Longrightarrow> \<exists>r s'. m s = Some (r, s') \<and> (\<forall>e. r = Inl e \<longrightarrow> E s') \<and> (\<forall>a. r = Inr a \<longrightarrow> Q a s')"
proof -
  assume "runs m s Q E"
  then obtain r s' where "m s = Some (r, s')" "case r of Inl e \<Rightarrow> E s' | Inr a \<Rightarrow> Q a s'" by (auto simp: runs_def)
  then show ?thesis by (cases r) auto
qed

text \<open>
  C12.  Copy mode never leaves the history.  Entering it and every action return; with an error or without, the
  cursor and the anchor of the selection stay on cells of the history and the viewport stays in it.
  Entering without an error leaves copy mode active with nothing selected and its cursor in the viewport, and so
  does a motion, or a search that found a match, leave the cursor in the viewport.
\<close>
theorem copy_mode_stays_in_history:
  assumes "copy_setup host R cols rows" "copy_inv host R cols rows s"
  shows "(\<exists>r s'. enter_copy_mode host s = Some (r, s') \<and> copy_inv host R cols rows s'
      \<and> (\<forall>u. r = Inr u \<longrightarrow> cursor_visible host s' \<and> en_copy_mode s' \<noteq> None \<and> \<not> selecting s'))
    \<and> (\<exists>r s'. handle_copy_mode_action host action s = Some (r, s') \<and> copy_inv host R cols rows s'
      \<and> (\<forall>out. r = Inr out \<longrightarrow> en_copy_mode s \<noteq> None \<longrightarrow> went action (oc_search out) \<longrightarrow> cursor_visible host s'))"
proof
  obtain r s' where "enter_copy_mode host s = Some (r, s')" "\<forall>e. r = Inl e \<longrightarrow> copy_inv host R cols rows s'"
    "\<forall>u. r = Inr u \<longrightarrow> shown host R cols rows s' \<and> en_copy_mode s' \<noteq> None \<and> \<not> selecting s'"
    using runs_result [OF enter_runs [OF assms]] by blast
  then show "\<exists>r s'. enter_copy_mode host s = Some (r, s') \<and> copy_inv host R cols rows s'
      \<and> (\<forall>u. r = Inr u \<longrightarrow> cursor_visible host s' \<and> en_copy_mode s' \<noteq> None \<and> \<not> selecting s')"
    by (cases r) (auto simp: shown_def)
next
  show "\<exists>r s'. handle_copy_mode_action host action s = Some (r, s') \<and> copy_inv host R cols rows s'
      \<and> (\<forall>out. r = Inr out \<longrightarrow> en_copy_mode s \<noteq> None \<longrightarrow> went action (oc_search out) \<longrightarrow> cursor_visible host s')"
  proof (cases "en_copy_mode s = None")
    case True
    then show ?thesis using assms(2) by (simp add: handle_copy_mode_action_def give_def)
  next
    case False
    obtain r s' where r: "run_copy_action host action s = Some (r, s')" "\<forall>e. r = Inl e \<longrightarrow> copy_inv host R cols rows s'"
      "\<forall>a. r = Inr a \<longrightarrow> copy_inv host R cols rows s' \<and> (went action (snd a) \<longrightarrow> cursor_visible host s')"
      using runs_result [OF run_action_runs [OF assms False]] by blast
    then show ?thesis using False
      by (cases r) (auto simp: handle_copy_mode_action_def and_then_def give_def split: prod.splits)
  qed
qed

text \<open>A terminal of one row, with a frame that shows no cursor.\<close>

definition line_host :: "(string, unit) copy_host" where
  "line_host =
     \<lparr>ho_vt = line_screen, ho_pattern = (\<lambda>query options. Inr (literal_pattern query)), ho_extract_frame = (\<lambda>s. (Inr None, s))\<rparr>"

definition line_engine :: "string copy_engine" where
  "line_engine =
     \<lparr>en_terminal = ''ab cd'', en_cols = 5, en_rows = 1,
      en_copy_mode = Some \<lparr>cs_cursor = \<lparr>pc_x = 0, pc_y = 0\<rparr>, cs_anchor = None, cs_rectangle = False, cs_linewise = False, cs_desired_col = 0\<rparr>,
      en_content_epoch = 0, en_search_query = [], en_search_options = default_search_options, en_search_pattern = None,
      en_search_active_index = 0, en_search_pulse = 0, en_search_groups = []\<rparr>"

theorem copy_mode_stays_in_history_witness:
  "copy_setup line_host 1 5 1 \<and> copy_inv line_host 1 5 1 line_engine \<and> en_copy_mode line_engine \<noteq> None
   \<and> (\<exists>r s'. enter_copy_mode line_host line_engine = Some (r, s') \<and> copy_inv line_host 1 5 1 s')
   \<and> (\<exists>r s'. handle_copy_mode_action line_host (Move NextWord) line_engine = Some (r, s') \<and> copy_inv line_host 1 5 1 s')"
proof -
  have L: "copy_setup line_host 1 5 1"
    by (auto simp: copy_setup_def lawful_host_def line_host_def line_screen_def at_row_def literal_pattern_lawful)
  have inv: "copy_inv line_host 1 5 1 line_engine"
    by (simp add: copy_inv_def line_host_def line_engine_def line_screen_def at_row_def on_screen_def)
  have "en_copy_mode line_engine \<noteq> None" by (simp add: line_engine_def)
  then show ?thesis using L inv copy_mode_stays_in_history [OF L inv, of "Move NextWord"] by blast
qed

end
