(* ===== verification/Spec2Isabelle.thy ===== *)
theory Spec2Isabelle
  imports Mux_Server Layout_Weights Session_Membership Output_Backlog Control_State Short_Names Frame_Stream
    Frame_Assembly Terminal_Write Terminal_Search Keymap_Program Glyph_Pixels Copy_Invariant
begin

text \<open>
  Bootty is a terminal workspace: a multiplexer server owns sessions, windows, panes and their
  split layouts, clients send it commands, and saved sessions are restored through it.  This
  development models that core (the Rust sources under \<^verbatim>\<open>src/crates\<close>) and proves it correct.

  \<^bold>\<open>Parts and theories\<close>, in the order in which they build on each other:

  \<^item> \<^verbatim>\<open>Bootty_Prelude\<close>: results, vectors, machine arithmetic, number formats and paths, and the
    locales \<^verbatim>\<open>invariant_machine\<close> and \<^verbatim>\<open>accounted_machine\<close>, the contract of a stateful component: one
    total step function, an invariant it keeps, the events a caller may issue and the resources a
    step may add.  They are interpreted on the layout edits, on the server's commands and on the
    session membership, and the properties about whole runs come from these interpretations.
  \<^item> \<^verbatim>\<open>Float32\<close>: the IEEE binary32 arithmetic of Rust's \<^verbatim>\<open>f32\<close>, exact rationals rounded to nearest
    even, with the bounds the layout code relies on.
  \<^item> \<^verbatim>\<open>Surface_Geometry\<close> (\<^verbatim>\<open>bootty-terminal/geometry.rs\<close>): rectangles.
  \<^item> \<^verbatim>\<open>Mux_Snapshot\<close> (\<^verbatim>\<open>bootty-mux/snapshot.rs\<close>): wire data, selection after a refresh, index steps.
  \<^item> \<^verbatim>\<open>Pane_Layout\<close> (\<^verbatim>\<open>bootty-mux/pane_layout.rs\<close>): the split tree, its canonical form, every edit,
    reconciliation with the live panes, resizing and directional navigation; \<^verbatim>\<open>Layout_Weights\<close> bounds
    the rounding of the weights, so that a normalized split's weights sum to one up to it.
  \<^item> \<^verbatim>\<open>Terminal_History\<close> (\<^verbatim>\<open>bootty-control/terminal_history.rs\<close>): the bounded history format, as
    a validator proved equal to a grammar, a sanitizer and projections.
  \<^item> \<^verbatim>\<open>Session_Snapshot\<close> (\<^verbatim>\<open>bootty-mux/session_snapshot.rs\<close>): saved sessions and their validation.
  \<^item> \<^verbatim>\<open>Mux_Command\<close> (\<^verbatim>\<open>bootty-mux/command.rs\<close>): the commands.
  \<^item> \<^verbatim>\<open>Native_State\<close> and \<^verbatim>\<open>Native_Topology\<close> (\<^verbatim>\<open>native/state.rs\<close>): the topology with all operations,
    and its invariant with one preservation lemma per operation, error paths included.
  \<^item> \<^verbatim>\<open>Native_Layout\<close> (\<^verbatim>\<open>native/layout.rs\<close> and \<^verbatim>\<open>execute\<close>): layouts after a command, the command
    entry point, and the invariant between commands.
  \<^item> \<^verbatim>\<open>Mux_Server\<close> (\<^verbatim>\<open>native/server.rs\<close>): the transactions of a workspace, one definition per
    critical section of the mutex, and the step relation of their interleavings.  A pane exit that
    fails is a step of its own label: the consistency of panes and topology is proved for the states
    reached before one, with what the failed exit leaves.
  \<^item> \<^verbatim>\<open>Session_Membership\<close> (\<^verbatim>\<open>bootty-mux/session_membership.rs\<close>): the ordered sessions of a space.
  \<^item> \<^verbatim>\<open>Session_Names\<close> (\<^verbatim>\<open>bootty-mux/session_names.rs\<close>): generated, truncated and unique names of
    sessions; \<^verbatim>\<open>Short_Names\<close> (\<^verbatim>\<open>bootty-control/short_name.rs\<close>): the short names a user types for a
    session or conversation, with the hash on 32-bit words.
  \<^item> \<^verbatim>\<open>Control_State\<close> (\<^verbatim>\<open>bootty-control/state.rs\<close> and \<^verbatim>\<open>command/cancellation.rs\<close>): the tasks and the
    event subscriptions of the control plane, an \<^verbatim>\<open>invariant_machine\<close>, and the delivery of events to
    a polling client.
  \<^item> \<^verbatim>\<open>Output_Backlog\<close> (\<^verbatim>\<open>bootty-terminal/pty_backlog.rs\<close>): the queue between a pane's process and
    its terminal, proved against the locale \<^verbatim>\<open>byte_queue\<close>, and the budgeted drain.
  \<^item> \<^verbatim>\<open>Terminal_Frame\<close> (\<^verbatim>\<open>bootty-terminal/terminal_frame.rs\<close>): rendered frames; \<^verbatim>\<open>Frame_Wire\<close>
    (\<^verbatim>\<open>frame_wire.rs\<close>): the encoder that sends changed rows and new images and the decoder that
    validates what it reads, with the layout of cells and text; \<^verbatim>\<open>Frame_Protocol\<close>
    (\<^verbatim>\<open>bootty-mux/native/protocol.rs\<close>): frames on a byte stream, whatever way it is cut; \<^verbatim>\<open>Frame_Link\<close>
    and \<^verbatim>\<open>Frame_Stream\<close>: the server's \<^verbatim>\<open>write_frame_update\<close> and the viewer's \<^verbatim>\<open>decode_frame\<close> kept in
    step, and the bound on a viewer's images as an \<^verbatim>\<open>invariant_machine\<close>.
  \<^item> \<^verbatim>\<open>Rust_Text\<close>: searching, splitting, numbers and UTF-8 as the standard library treats them.
  \<^item> The write path of the terminal engine (\<^verbatim>\<open>bootty-terminal\<close>): \<^verbatim>\<open>Write_Ingress\<close> and
    \<^verbatim>\<open>Kitty_Commands\<close> (\<^verbatim>\<open>terminal_engine/write_ingress.rs\<close>) hold back incomplete control sequences,
    unwrap tmux passthrough and sanitize graphics commands; \<^verbatim>\<open>Clipboard_Write\<close> and \<^verbatim>\<open>Shell_Prompt\<close>
    (\<^verbatim>\<open>clipboard_write.rs\<close>, \<^verbatim>\<open>shell_lifecycle.rs\<close>, \<^verbatim>\<open>shell_prompt.rs\<close>) assemble clipboard images and lease
    the shell's prompt; \<^verbatim>\<open>Side_Effects\<close> (\<^verbatim>\<open>terminal_side_effect.rs\<close>) turns commands into effects on the
    host; \<^verbatim>\<open>Osc_Colors\<close> and \<^verbatim>\<open>Terminal_Write\<close> (\<^verbatim>\<open>terminal_engine.rs\<close>) are the colours and
    \<^verbatim>\<open>write_vt\<close> with \<^verbatim>\<open>import_history\<close>, which compose them.  The prompt, the clipboard and the collector
    are \<^verbatim>\<open>invariant_machine\<close>s.
  \<^item> \<^verbatim>\<open>Frame_Assembly\<close> (\<^verbatim>\<open>terminal_engine.rs\<close>): the cache of rendered rows and the frame built from
    it, which is the well-formed frame that \<^verbatim>\<open>Frame_Wire\<close> encodes.
  \<^item> \<^verbatim>\<open>Selection\<close> (\<^verbatim>\<open>selection.rs\<close>), \<^verbatim>\<open>Terminal_Links\<close> (\<^verbatim>\<open>terminal_links.rs\<close>) and \<^verbatim>\<open>Terminal_Search\<close>
    (\<^verbatim>\<open>terminal_search.rs\<close>, \<^verbatim>\<open>terminal_engine/logical_search.rs\<close>): what the pointer and a search find in a
    frame, as cells of its grid.
  \<^item> \<^verbatim>\<open>Copy_Mode\<close>, \<^verbatim>\<open>Copy_Actions\<close> and \<^verbatim>\<open>Copy_Invariant\<close> (\<^verbatim>\<open>terminal_engine/copy_mode.rs\<close>): the word motions over the
    history, every action of copy mode as a computation on the engine, and the rules for such computations by which
    each action returns and keeps the cursor in the history.
  \<^item> \<^verbatim>\<open>Keymap_Triggers\<close>, \<^verbatim>\<open>Keymap_Sequences\<close> and \<^verbatim>\<open>Keymap_Program\<close> (\<^verbatim>\<open>bootty-config/keymap.rs\<close>, with the
    data of \<^verbatim>\<open>keymap_file.rs\<close>): the text of triggers and key sequences with its round trip, the bindings in
    force, the matcher with its chords, and the reloading of the keymap.
  \<^item> \<^verbatim>\<open>Glyph_Atlas\<close> and \<^verbatim>\<open>Glyph_Pixels\<close> (\<^verbatim>\<open>bootty-ui/terminal_text_atlas/atlas.rs\<close>): the packing of glyphs into a
    texture, proved equal to a scan of every pixel, and the pixels of the texture as an \<^verbatim>\<open>invariant_machine\<close>.

  \<^bold>\<open>Conventions.\<close>  Strings are UTF-8 byte lists.  A failing function returns a sum with the
  message on the left; a method on a mutable receiver also returns the state the error leaves
  behind.  Counters keep their width: identities and revisions are \<^verbatim>\<open>u64\<close> with checked addition,
  window numbers saturate at \<^verbatim>\<open>u32::MAX\<close>.  No definition needs fuel: the loops of the modelled
  code recurse on a list, a tree or a text that shrinks; the search for a unique name and the growing of
  the glyph atlas have no such bound and are \<^verbatim>\<open>partial_function\<close>s that are proved to return.

  \<^bold>\<open>Not modelled.\<close>  The terminal library that the engine wraps is not part of the sources: it is a
  parameter of the write path and of copy mode, and what only calls it (mouse selection, input encoding, the
  collection of images) is left out; base64, CBOR and JSON are parameters; pane processes, sockets and
  tasks are parameters or steps of the server model; the desktop interface (but for the glyph atlas), the host services and
  the settings are left out, and of a keymap file its JSON text, which is read and edited by a library.
\<close>

end
